(* ===== verification/Prelude.thy ===== *)
theory Prelude
  imports Main "HOL-Library.Word" "HOL-Library.Monad_Syntax"
begin

text \<open>
  Shared vocabulary of the development: the machine types of the C code, checked array accesses
  (\<open>fetch\<close> and \<open>store\<close>, whose \<open>None\<close> is an access outside the object), bit strings with the
  least significant bit first, little-endian bytes, and the lemmas on them that several
  components use.  A pointer together with a length is the list of the objects it delimits.
\<close>

unbundle bit_operations_syntax

type_synonym u8 = "8 word"
type_synonym u16 = "16 word"
type_synonym u32 = "32 word"

named_theorems access_simps \<open>rules that resolve checked array accesses\<close>
named_theorems bits_simps \<open>rules on bit strings\<close>

section \<open>Checked array accesses\<close>

definition fetch :: "'a list \<Rightarrow> nat \<Rightarrow> 'a option" where
  "fetch xs i = (if i < length xs then Some (xs ! i) else None)"

definition store :: "'a list \<Rightarrow> nat \<Rightarrow> 'a \<Rightarrow> 'a list option" where
  "store xs i v = (if i < length xs then Some (xs[i := v]) else None)"

text \<open>An index computed as a signed integer: a negative one is out of range too.\<close>

definition fetch_int :: "'a list \<Rightarrow> int \<Rightarrow> 'a option" where
  "fetch_int xs i = (if 0 \<le> i then fetch xs (nat i) else None)"

lemma fetch_Some [access_simps]: "i < length xs \<Longrightarrow> fetch xs i = Some (xs ! i)"
  by (simp add: fetch_def)

lemma fetch_None [access_simps]: "length xs \<le> i \<Longrightarrow> fetch xs i = None"
  by (simp add: fetch_def)

lemma fetch_eq_Some_iff: "fetch xs i = Some x \<longleftrightarrow> i < length xs \<and> xs ! i = x"
  by (auto simp: fetch_def)

lemma store_Some [access_simps]: "i < length xs \<Longrightarrow> store xs i v = Some (xs[i := v])"
  by (simp add: store_def)

lemma store_None [access_simps]: "length xs \<le> i \<Longrightarrow> store xs i v = None"
  by (simp add: store_def)

lemma store_eq_Some_iff: "store xs i v = Some ys \<longleftrightarrow> i < length xs \<and> ys = xs[i := v]"
  by (auto simp: store_def)

lemma store_length: "store xs i v = Some ys \<Longrightarrow> length ys = length xs"
  by (auto simp: store_def split: if_splits)

lemma fetch_int_Some [access_simps]:
  "0 \<le> i \<Longrightarrow> nat i < length xs \<Longrightarrow> fetch_int xs i = Some (xs ! nat i)"
  by (simp add: fetch_int_def fetch_def)

lemma fetch_int_neg [access_simps]: "i < 0 \<Longrightarrow> fetch_int xs i = None"
  by (simp add: fetch_int_def)

lemma fetch_int_of_nat [access_simps]: "fetch_int xs (int i) = fetch xs i"
  by (simp add: fetch_int_def)

section \<open>Bit strings, least significant bit first\<close>

primrec nat_bits :: "nat \<Rightarrow> nat \<Rightarrow> bool list" where
  "nat_bits 0 x = []"
| "nat_bits (Suc n) x = odd x # nat_bits n (x div 2)"

primrec bits_val :: "bool list \<Rightarrow> nat" where
  "bits_val [] = 0"
| "bits_val (b # bs) = of_bool b + 2 * bits_val bs"

lemma nat_bits_numeral: "nat_bits (numeral n) x = odd x # nat_bits (pred_numeral n) (x div 2)"
  by (simp add: numeral_eq_Suc)

definition byte_bits :: "u8 \<Rightarrow> bool list" where
  "byte_bits b = nat_bits 8 (unat b)"

definition bytes_bits :: "u8 list \<Rightarrow> bool list" where
  "bytes_bits bs = concat (map byte_bits bs)"

lemma length_nat_bits [simp]: "length (nat_bits n x) = n"
  by (induction n arbitrary: x) auto

lemma bits_val_nat_bits [bits_simps]: "bits_val (nat_bits n x) = x mod 2 ^ n"
proof (induction n arbitrary: x)
  case 0
  show ?case by simp
next
  case (Suc n)
  have "x mod 2 ^ Suc n = x mod 2 + 2 * (x div 2 mod 2 ^ n)"
    by (simp add: mod_mult2_eq)
  then show ?case by (simp add: Suc.IH mod_2_eq_odd)
qed

lemma bits_val_less: "bits_val bs < 2 ^ length bs"
  by (induction bs) (auto simp: of_bool_def)

lemma nat_bits_bits_val [bits_simps]: "nat_bits (length bs) (bits_val bs) = bs"
  by (induction bs) (auto simp: of_bool_def)

lemma bits_val_append: "bits_val (xs @ ys) = bits_val xs + 2 ^ length xs * bits_val ys"
  by (induction xs) (auto simp: algebra_simps)

lemma nat_bits_add: "nat_bits (m + n) x = nat_bits m x @ nat_bits n (x div 2 ^ m)"
proof (induction m arbitrary: x)
  case 0
  show ?case by simp
next
  case (Suc m)
  have "x div 2 div 2 ^ m = x div 2 ^ Suc m" by (simp add: div_mult2_eq)
  then show ?case using Suc.IH by simp
qed

lemma nat_bits_mod: "n \<le> k \<Longrightarrow> nat_bits n (x mod 2 ^ k) = nat_bits n x"
proof (induction n arbitrary: x k)
  case 0
  show ?case by simp
next
  case (Suc n)
  then obtain j where k: "k = Suc j" and nj: "n \<le> j" by (cases k) auto
  have eq: "x mod 2 ^ k = x mod 2 + 2 * (x div 2 mod 2 ^ j)"
    by (simp add: k mod_mult2_eq)
  then have "odd (x mod 2 ^ k) = odd x" by simp
  moreover have "x mod 2 ^ k div 2 = x div 2 mod 2 ^ j" by (simp add: eq)
  ultimately show ?case using Suc.IH [OF nj, of "x div 2"] by simp
qed

lemma length_byte_bits [simp]: "length (byte_bits b) = 8"
  by (simp add: byte_bits_def)

lemma bytes_bits_Nil [simp]: "bytes_bits [] = []"
  by (simp add: bytes_bits_def)

lemma bytes_bits_Cons [simp]: "bytes_bits (b # bs) = byte_bits b @ bytes_bits bs"
  by (simp add: bytes_bits_def)

lemma bytes_bits_append [simp]: "bytes_bits (xs @ ys) = bytes_bits xs @ bytes_bits ys"
  by (simp add: bytes_bits_def)

lemma length_bytes_bits [simp]: "length (bytes_bits bs) = 8 * length bs"
  by (induction bs) auto

section \<open>The shift operators of C on unsigned words\<close>

definition shl :: "'a::len word \<Rightarrow> nat \<Rightarrow> 'a word" where
  "shl w n = push_bit n w"

definition shr :: "'a::len word \<Rightarrow> nat \<Rightarrow> 'a word" where
  "shr w n = drop_bit n w"

lemma bit_shl: "bit (shl w n) i \<longleftrightarrow> n \<le> i \<and> i < LENGTH('a) \<and> bit w (i - n)"
  for w :: "'a::len word"
  by (simp add: shl_def bit_push_bit_iff)

lemma bit_shr: "bit (shr w n) i \<longleftrightarrow> bit w (n + i)"
  by (simp add: shr_def bit_drop_bit_eq)

lemma shl_xor: "shl (x XOR y) n = shl x n XOR shl y n"
  by (simp add: shl_def push_bit_xor)

lemma shr_xor: "shr (x XOR y) n = shr x n XOR shr y n"
  by (simp add: shr_def drop_bit_xor)

lemma shl_shl [simp]: "shl (shl w m) n = shl w (m + n)"
  by (simp add: shl_def push_bit_push_bit add.commute)

lemma shl_0 [simp]: "shl 0 n = 0"
  by (simp add: shl_def)

lemma shr_0 [simp]: "shr 0 n = 0"
  by (simp add: shr_def)

lemma shl_by_0 [simp]: "shl w 0 = w"
  by (simp add: shl_def)

lemma shr_by_0 [simp]: "shr w 0 = w"
  by (simp add: shr_def)

lemma shl_numeral [simp]: "shl (numeral k) n = push_bit n (numeral k)"
  by (simp add: shl_def)

lemma shl_one [simp]: "shl 1 n = push_bit n 1"
  by (simp add: shl_def)

lemma shr_numeral [simp]: "shr (numeral k) n = drop_bit n (numeral k)"
  by (simp add: shr_def)

lemma shr_one [simp]: "shr 1 n = drop_bit n 1"
  by (simp add: shr_def)

lemma shl_beyond: "LENGTH('a) \<le> n \<Longrightarrow> shl (w :: 'a::len word) n = 0"
  by (simp add: shl_def)

lemma unat_shr: "unat (shr w n) = unat w div 2 ^ n"
  unfolding shr_def by (subst unat_drop_bit_eq) (rule drop_bit_eq_div)

lemma unat_shl: "unat (shl w n) = unat w * 2 ^ n mod 2 ^ LENGTH('a)"
  for w :: "'a::len word"
  unfolding shl_def by (simp add: unsigned_push_bit_eq take_bit_eq_mod) (simp add: push_bit_eq_mult)

section \<open>Elementary facts on words\<close>

lemma unat_byte_less [simp]: "unat (b :: u8) < 256"
  by (rule order_less_le_trans [OF unsigned_less]) simp

lemma unat_byte_le [simp]: "unat (b :: u8) \<le> 255"
  using unat_byte_less [of b] by linarith

lemma unat_u32_less [simp]: "unat (w :: u32) < 4294967296"
  by (rule order_less_le_trans [OF unsigned_less]) simp

lemma byte_bit_high [simp]: "8 \<le> n \<Longrightarrow> \<not> bit (w :: u8) n"
  by (auto dest: bit_imp_le_length)

lemma u32_bit_high [simp]: "32 \<le> n \<Longrightarrow> \<not> bit (w :: u32) n"
  by (auto dest: bit_imp_le_length)

lemma xor_xor_cancel [simp]: "(x XOR z) XOR z = x"
  for x z :: "'a::len word"
  by (simp add: xor.assoc)

lemma xor_right_cancel [simp]: "x XOR z = y XOR z \<longleftrightarrow> x = y"
  for x y z :: "'a::len word"
proof
  assume "x XOR z = y XOR z"
  then have "(x XOR z) XOR z = (y XOR z) XOR z" by (rule arg_cong)
  then show "x = y" by (simp only: xor_xor_cancel)
qed simp

lemma xor_eq_0_iff: "x XOR y = 0 \<longleftrightarrow> x = y"
  for x y :: "'a::len word"
  using xor_right_cancel [of x y y] by (simp del: xor_right_cancel)

lemma unat_and_mask: "unat (w AND mask n) = unat w mod 2 ^ n"
  for w :: "'a::len word"
  unfolding take_bit_eq_mask [symmetric] unsigned_take_bit_eq by (rule take_bit_eq_mod)

lemma unat_and_0f: "unat (w AND 0x0f) = unat w mod 16"
  for w :: "'a::len word"
  using unat_and_mask [of w 4] by (simp add: mask_eq_exp_minus_1)

lemma unat_and_ffff: "unat (w AND 0xffff) = unat w mod 65536"
  for w :: "'a::len word"
  using unat_and_mask [of w 16] by (simp add: mask_eq_exp_minus_1)

lemma and_not_mask_unat: "unat (w AND NOT (mask k)) = unat w - unat w mod 2 ^ k"
  for w :: "'a::len word"
proof -
  have "w AND NOT (mask k) = push_bit k (drop_bit k w)"
    by (rule bit_word_eqI) (auto simp: bit_and_iff bit_not_iff bit_mask_iff bit_push_bit_iff bit_drop_bit_eq)
  then have "unat (w AND NOT (mask k)) = unat (shl (shr w k) k)" by (simp add: shl_def shr_def)
  also have "\<dots> = (unat w div 2 ^ k * 2 ^ k) mod 2 ^ LENGTH('a)" by (simp add: unat_shl unat_shr)
  also have "\<dots> = unat w div 2 ^ k * 2 ^ k"
    by (intro mod_less le_less_trans [OF div_times_less_eq_dividend]) simp
  finally show ?thesis by (simp add: minus_mod_eq_div_mult)
qed

lemma and_fff: "(w :: u32) AND 0xfff = 0 \<longleftrightarrow> unat w mod 4096 = 0"
  using unat_and_mask [of w 12] by (simp add: mask_eq_exp_minus_1 word_unat_eq_iff)

lemma unat_and_3: "unat ((w :: u32) AND 3) = unat w mod 4"
  using unat_and_mask [of w 2] by (simp add: mask_eq_exp_minus_1)

lemma unat_and_not_3: "unat ((w :: u32) AND NOT 3) = unat w - unat w mod 4"
  using and_not_mask_unat [of w 2] by (simp add: mask_eq_exp_minus_1)

lemma unat_and_not_fff: "unat ((w :: u32) AND NOT 0xfff) = unat w - unat w mod 4096"
  using and_not_mask_unat [of w 12] by (simp add: mask_eq_exp_minus_1)

lemma sint_small: "unat (w :: u32) < 2 ^ 31 \<Longrightarrow> sint w = int (unat w)"
proof -
  assume "unat w < 2 ^ 31"
  then have "uint w < 2 ^ 31" by (subst (asm) unat_eq_nat_uint) (simp only: nat_less_iff uint_ge_0, simp)
  moreover have "0 \<le> uint w" by simp
  ultimately have "- (2 ^ 31) \<le> uint w" "uint w < 2 ^ 31" by linarith+
  then have "sint w = uint w" by (simp add: sint_uint signed_take_bit_int_eq_self)
  then show ?thesis by simp
qed

section \<open>Little-endian bytes of 32-bit words\<close>

definition le_bytes :: "u32 \<Rightarrow> u8 list" where
  "le_bytes w = [ucast w, ucast (shr w 8), ucast (shr w 16), ucast (shr w 24)]"

lemma length_le_bytes [simp]: "length (le_bytes w) = 4"
  by (simp add: le_bytes_def)

lemma le_bytes_inject: "le_bytes v = le_bytes w \<longleftrightarrow> v = w"
proof
  assume eq: "le_bytes v = le_bytes w"
  show "v = w"
  proof (rule bit_word_eqI)
    fix n assume n: "n < LENGTH(32)"
    from eq have e: "(ucast v :: u8) = ucast w" "(ucast (shr v 8) :: u8) = ucast (shr w 8)"
      "(ucast (shr v 16) :: u8) = ucast (shr w 16)"
      "(ucast (shr v 24) :: u8) = ucast (shr w 24)"
      by (simp_all add: le_bytes_def)
    have b: "bit (ucast (shr v k) :: u8) (n - k) = bit (ucast (shr w k) :: u8) (n - k) \<Longrightarrow>
        k \<le> n \<Longrightarrow> n < k + 8 \<Longrightarrow> bit v n = bit w n" for k
      by (auto simp: bit_ucast_iff bit_shr)
    consider "n < 8" | "8 \<le> n" "n < 16" | "16 \<le> n" "n < 24" | "24 \<le> n" "n < 32"
      using n by fastforce
    then show "bit v n = bit w n"
      using b [of 0] b [of 8] b [of 16] b [of 24] e by cases auto
  qed
qed simp

section \<open>Lists\<close>

lemma take_drop_update_outside:
  "j < i \<Longrightarrow> take j (xs[i := v]) = take j xs"
  by simp

lemma take_Suc_nth: "i < length xs \<Longrightarrow> take (Suc i) xs = take i xs @ [xs ! i]"
  by (simp add: take_Suc_conv_app_nth)

end
