(* ===== verification/Checksums.thy ===== *)
theory Checksums
  imports Prelude
begin

text \<open>
  The three checksum routines of the boot path: \<open>crc_update\<close> of bootloaders/eboot/eboot_command.c
  (MSB-first CRC-32, one bit at a time), \<open>uzlib_crc32\<close> of uzlib/src/crc32.c (reflected CRC-32 with
  a nibble table) and \<open>uzlib_adler32\<close> of uzlib/src/adler32.c (32-bit accumulators reduced every
  5552 bytes).  All three are incremental: the locale \<open>incremental_checksum\<close> states that contract
  and its clients' lemmas, and each routine is an interpretation of it.
\<close>

section \<open>The interface of an incremental checksum\<close>

locale incremental_checksum =
  fixes upd :: "u8 list \<Rightarrow> u32 \<Rightarrow> u32"
    and valid :: "u32 \<Rightarrow> bool"
  assumes upd_Nil: "valid s \<Longrightarrow> upd [] s = s"
    and upd_append: "valid s \<Longrightarrow> upd (xs @ ys) s = upd ys (upd xs s)"
    and upd_valid: "valid s \<Longrightarrow> valid (upd xs s)"
begin

text \<open>Feeding the input in any division into pieces gives the checksum of the whole input.\<close>

lemma upd_pieces: "valid s \<Longrightarrow> fold upd pieces s = upd (concat pieces) s"
  by (induction pieces arbitrary: s) (simp_all add: upd_Nil upd_append upd_valid)

lemma upd_bytes: "valid s \<Longrightarrow> fold (\<lambda>b. upd [b]) xs s = upd xs s"
proof (induction xs arbitrary: s)
  case (Cons x xs)
  then show ?case using upd_append [of s "[x]" xs] by (simp add: upd_valid)
qed (simp add: upd_Nil)

end

text \<open>A checksum whose step loses no information separates inputs that differ in one place.\<close>

locale reversible_checksum = incremental_checksum +
  assumes upd_inj: "valid s \<Longrightarrow> valid t \<Longrightarrow> upd xs s = upd xs t \<Longrightarrow> s = t"
begin

lemma upd_differ:
  assumes "valid s" and "upd b (upd xs s) \<noteq> upd b' (upd xs s)"
  shows "upd (xs @ b @ ys) s \<noteq> upd (xs @ b' @ ys) s"
proof
  assume eq: "upd (xs @ b @ ys) s = upd (xs @ b' @ ys) s"
  have v: "valid (upd xs s)" using assms(1) by (rule upd_valid)
  have split: "upd (xs @ z @ ys) s = upd ys (upd z (upd xs s))" for z
    by (simp only: upd_append [OF assms(1)] upd_append [OF v])
  from eq have "upd ys (upd b (upd xs s)) = upd ys (upd b' (upd xs s))"
    by (simp only: split)
  with upd_inj upd_valid v assms(2) show False by blast
qed

end

section \<open>crc_update (eboot_command.c)\<close>

text \<open>One pass of the inner loop: \<open>i\<close> is the mask of the data bit.\<close>

definition crc_bit :: "u8 \<Rightarrow> u32 \<Rightarrow> u32 \<Rightarrow> u32" where
  "crc_bit c i crc =
     (let bit = crc AND 0x80000000 \<noteq> 0;
          bit = (if ucast c AND i \<noteq> 0 then \<not> bit else bit);
          crc = shl crc 1
      in if bit then crc XOR 0x04c11db7 else crc)"

text \<open>\<open>for (i = 0x80; i > 0; i >>= 1)\<close>\<close>

function crc_bits :: "u8 \<Rightarrow> u32 \<Rightarrow> u32 \<Rightarrow> u32" where
  "crc_bits c i crc = (if 0 < i then crc_bits c (shr i 1) (crc_bit c i crc) else crc)"
  by pat_completeness auto
termination
proof (relation "measure (\<lambda>(c, i, crc). unat i)")
  fix c :: u8 and i crc :: u32
  assume "0 < i"
  then have "unat i \<noteq> 0" by (simp add: word_neq_0_conv unat_eq_0)
  moreover have "unat (shr i 1) = unat i div 2"
    by (simp add: unat_shr)
  ultimately show "((c, shr i 1, crc_bit c i crc), (c, i, crc)) \<in> measure (\<lambda>(c, i, crc). unat i)"
    by simp
qed simp

declare crc_bits.simps [simp del]

primrec crc_update :: "u8 list \<Rightarrow> u32 \<Rightarrow> u32" where
  "crc_update [] crc = crc"
| "crc_update (c # data) crc = crc_update data (crc_bits c 0x80 crc)"

section \<open>uzlib_crc32 (crc32.c)\<close>

definition tinf_crc32tab :: "u32 list" where
  "tinf_crc32tab =
    [0x00000000, 0x1db71064, 0x3b6e20c8, 0x26d930ac, 0x76dc4190,
     0x6b6b51f4, 0x4db26158, 0x5005713c, 0xedb88320, 0xf00f9344,
     0xd6d6a3e8, 0xcb61b38c, 0x9b64c2b0, 0x86d3d2d4, 0xa00ae278,
     0xbdbdf21c]"

definition crc32_nibble :: "u32 \<Rightarrow> u32" where
  "crc32_nibble crc = tinf_crc32tab ! unat (crc AND 0x0f) XOR shr crc 4"

primrec uzlib_crc32 :: "u8 list \<Rightarrow> u32 \<Rightarrow> u32" where
  "uzlib_crc32 [] crc = crc"
| "uzlib_crc32 (b # data) crc =
     (let crc = crc XOR ucast b;
          crc = crc32_nibble crc;
          crc = crc32_nibble crc
      in uzlib_crc32 data crc)"

text \<open>The reference: the reflected generator polynomial, one bit at a time.\<close>

definition crc32_ref_bit :: "u32 \<Rightarrow> u32" where
  "crc32_ref_bit crc = (if bit crc 0 then 0xedb88320 XOR shr crc 1 else shr crc 1)"

definition crc32_ref :: "u8 list \<Rightarrow> u32 \<Rightarrow> u32" where
  "crc32_ref data crc = fold (\<lambda>b crc. (crc32_ref_bit ^^ 8) (crc XOR ucast b)) data crc"

section \<open>uzlib_adler32 (adler32.c)\<close>

definition A32_BASE :: u32 where "A32_BASE = 65521"
definition A32_NMAX :: nat where "A32_NMAX = 5552"

text \<open>\<open>s1 += *buf++; s2 += s1\<close> for each byte, in wrapping 32-bit arithmetic.\<close>

primrec adler_bytes :: "u8 list \<Rightarrow> u32 \<times> u32 \<Rightarrow> u32 \<times> u32" where
  "adler_bytes [] s = s"
| "adler_bytes (b # bs) s = (case s of (s1, s2) \<Rightarrow>
     (let s1 = s1 + ucast b; s2 = s2 + s1 in adler_bytes bs (s1, s2)))"

text \<open>\<open>for (i = k / 16; i; --i, buf += 16)\<close>: sixteen bytes per pass.\<close>

primrec adler_unrolled :: "nat \<Rightarrow> u8 list \<Rightarrow> u32 \<times> u32 \<Rightarrow> u8 list \<times> u32 \<times> u32" where
  "adler_unrolled 0 buf s = (buf, s)"
| "adler_unrolled (Suc i) buf s = adler_unrolled i (drop 16 buf) (adler_bytes (take 16 buf) s)"

function adler_loop :: "u8 list \<Rightarrow> u32 \<times> u32 \<Rightarrow> u32 \<times> u32" where
  "adler_loop buf s =
     (if 0 < length buf then
        (let k = (if length buf < A32_NMAX then length buf else A32_NMAX);
             (buf16, s) = adler_unrolled (k div 16) buf s;
             (s1, s2) = adler_bytes (take (k mod 16) buf16) s
         in adler_loop (drop k buf) (s1 mod A32_BASE, s2 mod A32_BASE))
      else s)"
  by pat_completeness auto
termination
  by (relation "measure (\<lambda>(buf, s). length buf)") (auto simp: A32_NMAX_def split: if_splits)

declare adler_loop.simps [simp del]

definition uzlib_adler32 :: "u8 list \<Rightarrow> u32 \<Rightarrow> u32" where
  "uzlib_adler32 data prev_sum =
     (let s1 = prev_sum AND 0xffff;
          s2 = shr prev_sum 16;
          (s1, s2) = adler_loop data (s1, s2)
      in shl s2 16 OR s1)"

text \<open>The reference: both sums modulo the prime 65521, byte by byte, in unbounded arithmetic.\<close>

definition adler_ref :: "u8 list \<Rightarrow> nat \<times> nat \<Rightarrow> nat \<times> nat" where
  "adler_ref = fold (\<lambda>b (a, s). ((a + unat b) mod 65521, (s + a + unat b) mod 65521))"

definition adler_pack :: "nat \<times> nat \<Rightarrow> u32" where
  "adler_pack p = of_nat (snd p * 65536 + fst p)"



section \<open>Lemmas on crc_update\<close>

text \<open>Shifting the register by one position, the data bit being zero.\<close>

definition crc_shift :: "u32 \<Rightarrow> u32" where
  "crc_shift x = (if bit x 31 then shl x 1 XOR 0x04c11db7 else shl x 1)"

lemma and_top_bit: "(x :: u32) AND 0x80000000 \<noteq> 0 \<longleftrightarrow> bit x 31"
proof -
  have "(0x80000000 :: u32) = push_bit 31 1" by simp
  then show ?thesis by (metis bit_iff_and_push_bit_not_eq_0)
qed

lemma push_top_bit: "shl (0x80000000 :: u32) 1 = 0"
  by code_simp

lemma bit_top_bit: "bit (0x80000000 :: u32) 31"
  by simp

lemma crc_bit_shift:
  "crc_bit c i crc = crc_shift (crc XOR (if ucast c AND i \<noteq> 0 then 0x80000000 else 0))"
  unfolding crc_bit_def crc_shift_def Let_def and_top_bit
  by (simp only: shl_xor push_top_bit bit_xor_iff bit_top_bit xor.right_neutral simp_thms split: if_split)
    simp

lemma crc_shift_xor: "crc_shift (x XOR y) = crc_shift x XOR crc_shift y"
  by (auto simp: crc_shift_def shl_xor bit_xor_iff ac_simps)

lemma crc_shift_split:
  "crc_shift (x XOR w) = crc_shift (x XOR (if bit w 31 then 0x80000000 else 0)) XOR shl w 1"
  unfolding crc_shift_def
  by (simp only: shl_xor push_top_bit bit_xor_iff bit_top_bit xor.right_neutral simp_thms ac_simps split: if_split)
    simp

lemma crc_bits_unroll:
  "crc_bits c 0x80 crc = crc_bit c 1 (crc_bit c 2 (crc_bit c 4 (crc_bit c 8
     (crc_bit c 16 (crc_bit c 32 (crc_bit c 64 (crc_bit c 128 crc)))))))"
  by (simp add: crc_bits.simps)

lemma ucast_and_bit:
  assumes "k < 8"
  shows "(ucast (c :: u8) :: u32) AND push_bit k 1 \<noteq> 0 \<longleftrightarrow> bit c k"
  using assms bit_iff_and_push_bit_not_eq_0 [of "ucast c :: u32" k] by (simp add: bit_ucast_iff)

lemma crc_shift_byte:
  assumes "j < 8" and "i = shl 1 (7 - j)"
  shows "crc_shift (x XOR shl (ucast (c :: u8)) (24 + j)) =
    crc_bit c i x XOR shl (ucast c) (25 + j)"
proof -
  have b: "bit (shl (ucast c) (24 + j) :: u32) 31 \<longleftrightarrow> ucast c AND i \<noteq> 0"
    using assms ucast_and_bit [of "7 - j" c] by (auto simp: bit_shl bit_ucast_iff)
  have p: "shl (shl (ucast c) (24 + j) :: u32) 1 = shl (ucast c) (25 + j)"
    by (simp add: ac_simps)
  show ?thesis
    by (subst crc_shift_split) (simp only: b p crc_bit_shift)
qed

lemma crc_bits_shift: "crc_bits c 0x80 crc = (crc_shift ^^ 8) (crc XOR shl (ucast c) 24)"
proof -
  have z: "shl (ucast c) 32 = (0 :: u32)" by (rule shl_beyond) simp
  have e: "(crc_shift ^^ 8) y = crc_shift (crc_shift (crc_shift (crc_shift
      (crc_shift (crc_shift (crc_shift (crc_shift y)))))))" for y
    by (simp add: numeral_eq_Suc)
  show ?thesis
    unfolding e crc_bits_unroll
    using crc_shift_byte [of 0 128 _ c] crc_shift_byte [of 1 64 _ c] crc_shift_byte [of 2 32 _ c]
      crc_shift_byte [of 3 16 _ c] crc_shift_byte [of 4 8 _ c] crc_shift_byte [of 5 4 _ c]
      crc_shift_byte [of 6 2 _ c] crc_shift_byte [of 7 1 _ c]
    by (simp add: z)
qed

lemma crc_shift_0_iff: "crc_shift d = 0 \<longleftrightarrow> d = 0"
proof
  assume a: "crc_shift d = 0"
  have "\<not> bit d 31"
  proof
    assume "bit d 31"
    with a have "bit (shl d 1 XOR 0x04c11db7) 0 = bit (0 :: u32) 0" by (simp add: crc_shift_def)
    then show False by (simp add: bit_shl bit_xor_iff)
  qed
  with a have p: "shl d 1 = 0" by (simp add: crc_shift_def)
  show "d = 0"
  proof (rule bit_word_eqI)
    fix n assume n: "n < LENGTH(32)"
    from p have "bit (shl d 1) (Suc n) = bit (0 :: u32) (Suc n)" by simp
    then show "bit d n = bit 0 n" using n \<open>\<not> bit d 31\<close> by (cases "n = 31") (auto simp: bit_shl)
  qed
qed (simp add: crc_shift_def)

lemma crc_shift_inj: "inj crc_shift"
  by (rule injI) (metis crc_shift_xor crc_shift_0_iff xor_eq_0_iff)

lemma crc_shift_pow_inj: "(crc_shift ^^ n) x = (crc_shift ^^ n) y \<longleftrightarrow> x = y"
  by (meson crc_shift_inj inj_fn injD)

lemma crc_update_inj: "crc_update xs s = crc_update xs t \<Longrightarrow> s = t"
proof (induction xs arbitrary: s t)
  case (Cons x xs)
  from Cons.prems have "crc_update xs (crc_bits x 0x80 s) = crc_update xs (crc_bits x 0x80 t)"
    by simp
  then have "crc_bits x 0x80 s = crc_bits x 0x80 t" by (rule Cons.IH)
  then show ?case by (simp only: crc_bits_shift crc_shift_pow_inj xor_right_cancel)
qed simp

lemma crc_shift_pow_low:
  assumes "\<forall>i. 32 - n \<le> i \<longrightarrow> \<not> bit w i" and "n \<le> 32"
  shows "(crc_shift ^^ n) (x XOR w) = (crc_shift ^^ n) x XOR shl w n"
  using assms
proof (induction n arbitrary: x w)
  case (Suc n)
  have "\<not> bit w 31" using Suc.prems by auto
  then have s: "crc_shift (x XOR w) = crc_shift x XOR shl w 1"
    by (subst crc_shift_split) simp
  have "\<forall>i. 32 - n \<le> i \<longrightarrow> \<not> bit (shl w 1) i"
    using Suc.prems by (auto simp: bit_shl)
  then have "(crc_shift ^^ n) (crc_shift x XOR shl w 1) = (crc_shift ^^ n) (crc_shift x) XOR shl (shl w 1) n"
    using Suc.prems(2) by (intro Suc.IH) auto
  then show ?case by (simp add: funpow_swap1 s [simplified])
qed simp

text \<open>Four bytes of input are one 32-bit word added to the register.\<close>

definition be_word :: "u8 \<Rightarrow> u8 \<Rightarrow> u8 \<Rightarrow> u8 \<Rightarrow> u32" where
  "be_word a b c d = shl (ucast a) 24 XOR shl (ucast b) 16 XOR shl (ucast c) 8 XOR ucast d"

lemma be_word_parts:
  "ucast (be_word a b c d) = d" "ucast (shr (be_word a b c d) 8) = c"
  "ucast (shr (be_word a b c d) 16) = b" "ucast (shr (be_word a b c d) 24) = a"
  by (rule bit_word_eqI; simp add: be_word_def bit_shl bit_shr bit_ucast_iff bit_xor_iff; fail)+

lemma be_word_inject: "be_word a b c d = be_word a' b' c' d' \<longleftrightarrow> a = a' \<and> b = b' \<and> c = c' \<and> d = d'"
  by (metis be_word_parts)

lemma crc_update_word: "crc_update [a, b, c, d] s = (crc_shift ^^ 32) (s XOR be_word a b c d)"
proof -
  have l: "(crc_shift ^^ 8) (x XOR shl (ucast (e :: u8)) k) = (crc_shift ^^ 8) x XOR shl (ucast e) (k + 8)"
    if "k \<le> 16" for x k e
    using that by (subst crc_shift_pow_low) (auto simp: bit_shl bit_ucast_iff dest!: bit_imp_le_length)
  have "(crc_shift ^^ 32) (s XOR be_word a b c d) =
     (crc_shift ^^ 8) ((crc_shift ^^ 8) ((crc_shift ^^ 8) ((crc_shift ^^ 8) (s XOR be_word a b c d))))"
    using funpow_add [of 8 24 crc_shift] funpow_add [of 8 16 crc_shift] funpow_add [of 8 8 crc_shift]
    by simp
  then show ?thesis
    using l [of 16 _ b] l [of 8 _ b] l [of 8 _ c] l [of 0 _ d] l [of 8 _ d] l [of 16 _ d] l [of 16 _ c]
    by (simp add: crc_bits_shift be_word_def flip: xor.assoc)
qed


lemma crc_update_word_inject:
  "crc_update [a, b, c, d] s = crc_update [a', b', c', d'] s \<longleftrightarrow> [a, b, c, d] = [a', b', c', d']"
proof -
  have "crc_update [a, b, c, d] s = crc_update [a', b', c', d'] s \<longleftrightarrow>
      s XOR be_word a b c d = s XOR be_word a' b' c' d'"
    by (simp only: crc_update_word crc_shift_pow_inj)
  also have "\<dots> \<longleftrightarrow> be_word a b c d = be_word a' b' c' d'"
    by (metis xor.commute xor_right_cancel)
  finally show ?thesis by (simp add: be_word_inject)
qed


lemma crc_update_append: "crc_update (xs @ ys) s = crc_update ys (crc_update xs s)"
  by (induction xs arbitrary: s) auto

section \<open>Lemmas on uzlib_crc32\<close>

lemma crc32_ref_bit_xor: "crc32_ref_bit (x XOR y) = crc32_ref_bit x XOR crc32_ref_bit y"
  by (auto simp: crc32_ref_bit_def shr_xor bit_xor_iff ac_simps)

lemma crc32_ref_bit_pow_xor:
  "(crc32_ref_bit ^^ n) (x XOR y) = (crc32_ref_bit ^^ n) x XOR (crc32_ref_bit ^^ n) y"
  by (induction n) (simp_all add: crc32_ref_bit_xor)

lemma crc32_ref_bit_clear:
  "\<forall>i < n. \<not> bit x i \<Longrightarrow> (crc32_ref_bit ^^ n) x = shr x n"
proof (induction n arbitrary: x)
  case (Suc n)
  have "crc32_ref_bit x = shr x 1" using Suc.prems by (simp add: crc32_ref_bit_def)
  moreover have "(crc32_ref_bit ^^ n) (shr x 1) = shr (shr x 1) n"
    using Suc.prems by (intro Suc.IH) (simp add: bit_shr)
  ultimately show ?case by (simp add: funpow_swap1 shr_def)
qed simp

lemma crc32_tab_entry: "n < 16 \<Longrightarrow> (crc32_ref_bit ^^ 4) (of_nat n) = tinf_crc32tab ! n"
proof -
  have "\<forall>n \<in> set [0..<16]. (crc32_ref_bit ^^ 4) (of_nat n) = tinf_crc32tab ! n"
    by code_simp
  then show "n < 16 \<Longrightarrow> ?thesis" by simp
qed

lemma bit_nibble_mask: "bit (0x0f :: u32) i \<longleftrightarrow> i < 4"
proof -
  have "(0x0f :: u32) = mask 4" by (simp add: mask_eq_exp_minus_1)
  then show ?thesis by (simp only: bit_mask_iff) auto
qed

lemma crc32_nibble_ref: "crc32_nibble x = (crc32_ref_bit ^^ 4) x"
proof -
  let ?lo = "x AND 0x0f" and ?hi = "x AND NOT 0x0f"
  have split: "x = ?lo XOR ?hi"
    by (rule bit_word_eqI) (auto simp: bit_simps)
  have lo: "(crc32_ref_bit ^^ 4) ?lo = tinf_crc32tab ! unat ?lo"
  proof -
    have "unat ?lo < 16" by (simp add: unat_and_0f)
    from crc32_tab_entry [OF this] show ?thesis by simp
  qed
  have hi: "(crc32_ref_bit ^^ 4) ?hi = shr ?hi 4"
    by (rule crc32_ref_bit_clear) (unfold bit_and_iff bit_not_iff bit_nibble_mask, simp)
  have sh: "shr ?hi 4 = shr x 4"
    by (rule bit_word_eqI) (unfold bit_shr bit_and_iff bit_not_iff bit_nibble_mask, auto dest: bit_imp_le_length)
  have "(crc32_ref_bit ^^ 4) x = (crc32_ref_bit ^^ 4) ?lo XOR (crc32_ref_bit ^^ 4) ?hi"
    by (subst split) (rule crc32_ref_bit_pow_xor)
  then show ?thesis by (simp only: lo hi sh crc32_nibble_def)
qed

lemma crc32_nibble_twice: "crc32_nibble (crc32_nibble x) = (crc32_ref_bit ^^ 8) x"
  using funpow_add [of 4 4 crc32_ref_bit] by (simp add: crc32_nibble_ref)

lemma uzlib_crc32_ref: "uzlib_crc32 data crc = crc32_ref data crc"
  by (induction data arbitrary: crc) (simp_all add: crc32_ref_def Let_def crc32_nibble_twice)

lemma uzlib_crc32_append: "uzlib_crc32 (xs @ ys) s = uzlib_crc32 ys (uzlib_crc32 xs s)"
  by (simp add: uzlib_crc32_ref crc32_ref_def)

lemma crc32_ref_bit_0_iff: "crc32_ref_bit d = 0 \<longleftrightarrow> d = 0"
proof
  assume a: "crc32_ref_bit d = 0"
  have b0: "\<not> bit d 0"
  proof
    assume "bit d 0"
    with a have "bit (0xedb88320 XOR shr d 1) 31 = bit (0 :: u32) 31" by (simp add: crc32_ref_bit_def)
    moreover have "\<not> bit d 32" by (auto dest: bit_imp_le_length)
    ultimately show False by (simp add: bit_xor_iff bit_shr)
  qed
  with a have p: "shr d 1 = 0" by (simp add: crc32_ref_bit_def)
  show "d = 0"
  proof (rule bit_word_eqI)
    fix n
    from p have "bit (shr d 1) (n - 1) = bit (0 :: u32) (n - 1)" by simp
    with b0 show "bit d n = bit 0 n" by (cases n) (auto simp: bit_shr)
  qed
qed (simp add: crc32_ref_bit_def)

lemma crc32_ref_bit_inj: "inj crc32_ref_bit"
  by (rule injI) (metis crc32_ref_bit_xor crc32_ref_bit_0_iff xor_eq_0_iff)

lemma crc32_ref_bit_pow_inj: "(crc32_ref_bit ^^ n) x = (crc32_ref_bit ^^ n) y \<longleftrightarrow> x = y"
  by (meson crc32_ref_bit_inj inj_fn injD)

lemma uzlib_crc32_inj: "uzlib_crc32 xs s = uzlib_crc32 xs t \<Longrightarrow> s = t"
proof (induction xs arbitrary: s t)
  case (Cons x xs)
  from Cons.prems have "uzlib_crc32 xs ((crc32_ref_bit ^^ 8) (s XOR ucast x)) =
      uzlib_crc32 xs ((crc32_ref_bit ^^ 8) (t XOR ucast x))"
    by (simp add: Let_def crc32_nibble_twice)
  then have "(crc32_ref_bit ^^ 8) (s XOR ucast x) = (crc32_ref_bit ^^ 8) (t XOR ucast x)"
    by (rule Cons.IH)
  then show ?case by (simp only: crc32_ref_bit_pow_inj xor_right_cancel)
qed simp

section \<open>Lemmas on uzlib_adler32\<close>

lemma adler_bytes_append: "adler_bytes (xs @ ys) s = adler_bytes ys (adler_bytes xs s)"
  by (induction xs arbitrary: s) (auto simp: Let_def split: prod.splits)

lemma adler_unrolled_eq:
  "adler_unrolled i buf s = (drop (16 * i) buf, adler_bytes (take (16 * i) buf) s)"
proof (induction i arbitrary: buf s)
  case (Suc i)
  have "take (16 * Suc i) buf = take 16 buf @ take (16 * i) (drop 16 buf)"
    using take_add [of 16 "16 * i" buf] by simp
  then show ?case
    by (simp add: Suc.IH adler_bytes_append add.commute)
qed simp

lemma adler_chunk:
  "(let (buf16, s) = adler_unrolled (k div 16) buf s; (s1, s2) = adler_bytes (take (k mod 16) buf16) s
    in f s1 s2) = (let (s1, s2) = adler_bytes (take k buf) s in f s1 s2)"
proof -
  have "take k buf = take (16 * (k div 16)) buf @ take (k mod 16) (drop (16 * (k div 16)) buf)"
    using take_add [of "16 * (k div 16)" "k mod 16" buf] by simp
  then show ?thesis by (simp add: adler_unrolled_eq adler_bytes_append)
qed

text \<open>The sums in unbounded arithmetic, without any reduction.\<close>

fun adler_sums :: "u8 list \<Rightarrow> nat \<times> nat \<Rightarrow> nat \<times> nat" where
  "adler_sums [] p = p"
| "adler_sums (b # bs) (a, s) = adler_sums bs (a + unat b, s + a + unat b)"

lemma adler_sums_bound:
  "adler_sums bs (a, s) = (a', s') \<Longrightarrow> a' \<le> a + 255 * length bs \<and> s' \<le> s + length bs * a + 255 * (length bs * (length bs + 1) div 2)"
proof (induction bs arbitrary: a s)
  case (Cons b bs)
  have b: "unat b \<le> 255" by simp
  let ?n = "length bs"
  have tri: "Suc ?n * (Suc ?n + 1) div 2 = ?n * (?n + 1) div 2 + Suc ?n"
  proof -
    have "Suc ?n * (Suc ?n + 1) = ?n * (?n + 1) + 2 * Suc ?n" by simp
    moreover have "(?n * (?n + 1) + 2 * Suc ?n) div 2 = ?n * (?n + 1) div 2 + Suc ?n"
      using div_mult_self2 [of 2 "?n * (?n + 1)" "Suc ?n"] by (simp only: add.commute)
    ultimately show ?thesis by (simp only:)
  qed
  from Cons.prems have "adler_sums bs (a + unat b, s + a + unat b) = (a', s')" by simp
  from Cons.IH [OF this] have ih: "a' \<le> a + unat b + 255 * ?n"
    "s' \<le> s + a + unat b + ?n * (a + unat b) + 255 * (?n * (?n + 1) div 2)" by auto
  have "?n * unat b \<le> ?n * 255" using b by simp
  then have m: "?n * (a + unat b) \<le> ?n * a + 255 * ?n" by (simp add: algebra_simps)
  have "a' \<le> a + 255 * length (b # bs)" using ih(1) b by (simp only: length_Cons mult_Suc_right)
  moreover have "s' \<le> s + length (b # bs) * a + 255 * (length (b # bs) * (length (b # bs) + 1) div 2)"
  proof -
    have lin: "v \<le> x + y + u + z + 255 * t \<Longrightarrow> u \<le> 255 \<Longrightarrow> z \<le> w + 255 * n \<Longrightarrow>
        v \<le> x + (y + w) + 255 * (t + Suc n)" for v x y u z t w n :: nat
      by simp
    show ?thesis
      unfolding length_Cons tri mult_Suc [of ?n a] by (rule lin [OF ih(2) b m])
  qed
  ultimately show ?case by blast
qed simp

lemma adler_bytes_sums:
  "adler_sums bs (a, s) = (a', s') \<Longrightarrow> adler_bytes bs (of_nat a, of_nat s) = (of_nat a', of_nat s')"
proof (induction bs arbitrary: a s)
  case (Cons b bs)
  have "adler_bytes (b # bs) (of_nat a, of_nat s) =
      adler_bytes bs (of_nat (a + unat b), of_nat (s + a + unat b))"
    by (simp add: Let_def add.assoc)
  also have "\<dots> = (of_nat a', of_nat s')"
    using Cons.prems by (intro Cons.IH) simp
  finally show ?case .
qed simp

lemma adler_ref_sums:
  "adler_sums bs (a, s) = (a', s') \<Longrightarrow> adler_ref bs (a mod 65521, s mod 65521) = (a' mod 65521, s' mod 65521)"
proof (induction bs arbitrary: a s)
  case (Cons b bs)
  have "(a mod 65521 + unat b) mod 65521 = (a + unat b) mod 65521"
    by (rule mod_add_left_eq)
  moreover have "(s mod 65521 + a mod 65521 + unat b) mod 65521 = (s + a + unat b) mod 65521"
    by (metis mod_add_eq mod_add_left_eq)
  ultimately show ?case
    using Cons.prems Cons.IH [of "a + unat b" "s + a + unat b"] by (simp add: adler_ref_def)
qed (simp add: adler_ref_def)

text \<open>The largest block for which the 32-bit sums cannot overflow is 5552 bytes.\<close>

lemma adler_block_no_overflow:
  assumes "adler_sums bs (a, s) = (a', s')" and "length bs \<le> 5552" and "a < 65536" and "s < 65536"
  shows "a' < 2 ^ 32" and "s' < 2 ^ 32"
proof -
  let ?n = "length bs"
  have b: "a' \<le> a + 255 * ?n" "s' \<le> s + ?n * a + 255 * (?n * (?n + 1) div 2)"
    using adler_sums_bound [OF assms(1)] by auto
  have "?n * a \<le> 5552 * 65535" using assms(2,3) by (intro mult_le_mono) auto
  moreover have "?n * (?n + 1) \<le> 5552 * 5553" using assms(2) by (intro mult_le_mono) auto
  then have "?n * (?n + 1) div 2 \<le> 15415128" by (simp add: div_le_mono [of _ "5552 * 5553" 2, simplified])
  ultimately have "s' \<le> 65535 + 5552 * 65535 + 255 * 15415128" using b(2) assms(4) by linarith
  then show "s' < 2 ^ 32" by simp
  show "a' < 2 ^ 32" using b(1) assms(2,3) by simp
qed

lemma adler_block:
  assumes "length bs \<le> 5552" and "a < 65536" and "s < 65536"
  shows "(let (s1, s2) = adler_bytes bs (of_nat a, of_nat s) in (s1 mod A32_BASE, s2 mod A32_BASE)) =
    (case adler_ref bs (a mod 65521, s mod 65521) of (p, q) \<Rightarrow> (of_nat p, of_nat q))"
proof -
  obtain a' s' where e: "adler_sums bs (a, s) = (a', s')" by fastforce
  have lt: "a' < 2 ^ 32" "s' < 2 ^ 32" using adler_block_no_overflow [OF e assms] by auto
  have m: "(of_nat x :: u32) mod A32_BASE = of_nat (x mod 65521)" if "x < 2 ^ 32" for x
  proof (rule word_unat_eq_iff [THEN iffD2])
    show "unat ((of_nat x :: u32) mod A32_BASE) = unat (of_nat (x mod 65521) :: u32)"
      using that by (simp add: A32_BASE_def unat_mod unat_of_nat take_bit_eq_mod)
  qed
  show ?thesis
    using adler_bytes_sums [OF e] adler_ref_sums [OF e] lt by (simp add: m)
qed

lemma adler_ref_less: "p < 65521 \<Longrightarrow> q < 65521 \<Longrightarrow> adler_ref bs (p, q) = (p', q') \<Longrightarrow> p' < 65521 \<and> q' < 65521"
proof (induction bs arbitrary: p q)
  case (Cons b bs)
  from Cons.prems(3) have "adler_ref bs ((p + unat b) mod 65521, (q + p + unat b) mod 65521) = (p', q')"
    by (simp add: adler_ref_def)
  then show ?case by (intro Cons.IH) simp_all
qed (simp add: adler_ref_def)

lemma adler_ref_append: "adler_ref (xs @ ys) p = adler_ref ys (adler_ref xs p)"
  by (simp add: adler_ref_def)

lemma adler_loop_ref:
  assumes "p < 65521" and "q < 65521"
  shows "adler_loop buf (of_nat p, of_nat q) = (case adler_ref buf (p, q) of (p', q') \<Rightarrow> (of_nat p', of_nat q'))"
  using assms
proof (induction "length buf" arbitrary: buf p q rule: less_induct)
  case less
  show ?case
  proof (cases "buf = []")
    case True
    then show ?thesis by (simp add: adler_loop.simps adler_ref_def)
  next
    case False
    define k where "k = (if length buf < A32_NMAX then length buf else A32_NMAX)"
    have k: "k \<le> 5552" "0 < k" "k \<le> length buf" using False by (auto simp: k_def A32_NMAX_def)
    obtain p1 q1 where r: "adler_ref (take k buf) (p, q) = (p1, q1)" by fastforce
    have lt: "p1 < 65521" "q1 < 65521" using adler_ref_less [OF less.prems r] by auto
    have b: "(let (s1, s2) = adler_bytes (take k buf) (of_nat p, of_nat q) in (s1 mod A32_BASE, s2 mod A32_BASE)) =
       (of_nat p1, of_nat q1)"
      using adler_block [of "take k buf" p q] k less.prems r by simp
    have "adler_loop buf (of_nat p, of_nat q) =
       (let (buf16, s) = adler_unrolled (k div 16) buf (of_nat p, of_nat q);
            (s1, s2) = adler_bytes (take (k mod 16) buf16) s
        in adler_loop (drop k buf) (s1 mod A32_BASE, s2 mod A32_BASE))"
      using False by (subst adler_loop.simps) (simp add: k_def Let_def)
    also have "\<dots> = (let (s1, s2) = adler_bytes (take k buf) (of_nat p, of_nat q)
        in adler_loop (drop k buf) (s1 mod A32_BASE, s2 mod A32_BASE))"
      by (rule adler_chunk)
    also have "\<dots> = adler_loop (drop k buf) (of_nat p1, of_nat q1)"
      using b by (auto simp: Let_def split: prod.splits)
    also have "\<dots> = (case adler_ref (drop k buf) (p1, q1) of (p', q') \<Rightarrow> (of_nat p', of_nat q'))"
      using k lt by (intro less.hyps) auto
    also have "adler_ref (drop k buf) (p1, q1) = adler_ref buf (p, q)"
      using adler_ref_append [of "take k buf" "drop k buf" "(p, q)"] r by simp
    finally show ?thesis .
  qed
qed

text \<open>A checksum value is an Adler pair when both halves are reduced.\<close>

definition adler_valid :: "u32 \<Rightarrow> bool" where
  "adler_valid w \<longleftrightarrow> unat w mod 65536 < 65521 \<and> unat w div 65536 < 65521"

definition adler_unpack :: "u32 \<Rightarrow> nat \<times> nat" where
  "adler_unpack w = (unat w mod 65536, unat w div 65536)"

lemma unat_adler_pack: "p < 65536 \<Longrightarrow> q < 65536 \<Longrightarrow> unat (adler_pack (p, q)) = q * 65536 + p"
  unfolding adler_pack_def unat_of_nat take_bit_eq_mod by simp

lemma bit_shift_add: "p < 2 ^ k \<Longrightarrow> bit (q * 2 ^ k + p :: nat) n \<longleftrightarrow> (if n < k then bit p n else bit q (n - k))"
proof -
  assume p: "p < 2 ^ k"
  show ?thesis
  proof (cases "n < k")
    case True
    have "bit (q * 2 ^ k + p) n \<longleftrightarrow> bit (take_bit k (q * 2 ^ k + p)) n" using True by (simp add: bit_take_bit_iff)
    also have "take_bit k (q * 2 ^ k + p) = p" using p by (simp add: take_bit_eq_mod)
    finally show ?thesis using True by simp
  next
    case False
    have "bit (q * 2 ^ k + p) n \<longleftrightarrow> bit (drop_bit k (q * 2 ^ k + p)) (n - k)"
      using False by (simp add: bit_drop_bit_eq)
    also have "drop_bit k (q * 2 ^ k + p) = q" using p by (simp add: drop_bit_eq_div)
    finally show ?thesis using False by simp
  qed
qed

lemma bit_small_nat: "p < 2 ^ k \<Longrightarrow> k \<le> n \<Longrightarrow> \<not> bit (p :: nat) n"
  using bit_shift_add [of p k 0 n] by simp

lemma adler_join:
  assumes "p < 65536" and "q < 65536"
  shows "shl (of_nat q) 16 OR of_nat p = adler_pack (p, q)"
proof (rule bit_word_eqI)
  fix n assume n: "n < LENGTH(32)"
  have "bit (of_nat (q * 2 ^ 16 + p) :: u32) n \<longleftrightarrow> (if n < 16 then bit p n else bit q (n - 16))"
    using n bit_shift_add [of p 16 q n] assms(1) unfolding bit_of_nat_iff by simp
  moreover have "16 \<le> n \<Longrightarrow> \<not> bit p n" using bit_small_nat [of p 16 n] assms(1) by simp
  moreover have "adler_pack (p, q) = of_nat (q * 2 ^ 16 + p)" by (simp add: adler_pack_def)
  ultimately show "bit (shl (of_nat q :: u32) 16 OR of_nat p) n = bit (adler_pack (p, q)) n"
    using n by (auto simp del: of_nat_add of_nat_mult simp: bit_or_iff bit_shl bit_of_nat_iff)
qed

lemma u32_halves:
  "(w :: u32) AND 0xffff = of_nat (unat w mod 65536)" "shr w 16 = of_nat (unat w div 65536)"
proof -
  show "w AND 0xffff = of_nat (unat w mod 65536)"
    by (rule word_unat_eq_iff [THEN iffD2]) (simp add: unat_and_ffff unat_of_nat take_bit_eq_mod)
  have "unat w div 65536 < 4294967296" using div_le_dividend [of "unat w" 65536] unat_u32_less [of w] by linarith
  then show "shr w 16 = of_nat (unat w div 65536)"
    by (intro word_unat_eq_iff [THEN iffD2]) (simp add: unat_shr unat_of_nat take_bit_eq_mod)
qed

lemma uzlib_adler32_ref:
  assumes "adler_valid w"
  shows "uzlib_adler32 data w = adler_pack (adler_ref data (adler_unpack w))"
proof -
  obtain p q where r: "adler_ref data (adler_unpack w) = (p, q)" by fastforce
  have lt: "p < 65521" "q < 65521"
    using adler_ref_less [of "unat w mod 65536" "unat w div 65536" data p q] assms r
    by (auto simp: adler_valid_def adler_unpack_def)
  have "adler_loop data (of_nat (unat w mod 65536), of_nat (unat w div 65536)) = (of_nat p, of_nat q)"
    using adler_loop_ref [of "unat w mod 65536" "unat w div 65536" data] assms r
    by (simp add: adler_valid_def adler_unpack_def)
  then show ?thesis
    using adler_join [of p q] lt r by (simp add: uzlib_adler32_def Let_def u32_halves)
qed

lemma adler_valid_pack: "p < 65521 \<Longrightarrow> q < 65521 \<Longrightarrow> adler_valid (adler_pack (p, q))"
  by (simp add: adler_valid_def unat_adler_pack)

lemma adler_unpack_pack: "p < 65521 \<Longrightarrow> q < 65521 \<Longrightarrow> adler_unpack (adler_pack (p, q)) = (p, q)"
  by (simp add: adler_unpack_def unat_adler_pack)

lemma adler_pack_unpack: "adler_pack (adler_unpack w) = w"
  by (simp add: adler_pack_def adler_unpack_def)


section \<open>The routines as incremental checksums\<close>

interpretation crc_update_sum: reversible_checksum crc_update "\<lambda>_. True"
proof unfold_locales
  show "crc_update [] s = s" for s by simp
  show "crc_update (xs @ ys) s = crc_update ys (crc_update xs s)" for s xs ys
    by (rule crc_update_append)
  show "crc_update xs s = crc_update xs t \<Longrightarrow> s = t" for s t xs
    by (rule crc_update_inj)
qed simp

interpretation crc32_sum: reversible_checksum uzlib_crc32 "\<lambda>_. True"
proof unfold_locales
  show "uzlib_crc32 [] s = s" for s by simp
  show "uzlib_crc32 (xs @ ys) s = uzlib_crc32 ys (uzlib_crc32 xs s)" for s xs ys
    by (rule uzlib_crc32_append)
  show "uzlib_crc32 xs s = uzlib_crc32 xs t \<Longrightarrow> s = t" for s t xs
    by (rule uzlib_crc32_inj)
qed simp

lemma adler_valid_state: "adler_valid w \<Longrightarrow> adler_ref xs (adler_unpack w) = (p, q) \<Longrightarrow> p < 65521 \<and> q < 65521"
  by (rule adler_ref_less [of "unat w mod 65536" "unat w div 65536" xs])
    (simp_all add: adler_valid_def adler_unpack_def)

interpretation adler_sum: incremental_checksum uzlib_adler32 adler_valid
proof unfold_locales
  fix w xs ys assume w: "adler_valid w"
  obtain p q where r: "adler_ref xs (adler_unpack w) = (p, q)" by fastforce
  note lt = adler_valid_state [OF w r]
  show "uzlib_adler32 [] w = w"
    using w by (simp add: uzlib_adler32_ref adler_ref_def adler_pack_unpack)
  show v: "adler_valid (uzlib_adler32 xs w)"
    using w r lt by (simp add: uzlib_adler32_ref adler_valid_pack)
  show "uzlib_adler32 (xs @ ys) w = uzlib_adler32 ys (uzlib_adler32 xs w)"
    using w r lt v by (simp add: uzlib_adler32_ref adler_ref_append adler_unpack_pack)
qed

section \<open>Properties\<close>

text \<open>C33. uzlib_adler32 computes the Adler-32 checksum: for any data and any reduced previous
  value, the blocked computation in wrapping 32-bit arithmetic (5552 bytes between reductions)
  equals the byte-by-byte sums modulo 65521 in unbounded arithmetic, so it never overflows.\<close>

theorem adler32_correct:
  "adler_valid w \<Longrightarrow> uzlib_adler32 data w = adler_pack (adler_ref data (adler_unpack w))"
  by (rule uzlib_adler32_ref)

theorem adler32_correct_witness:
  "adler_valid 1 \<and> uzlib_adler32 [97, 98, 99] 1 = adler_pack (adler_ref [97, 98, 99] (adler_unpack 1))"
proof -
  have v: "adler_valid 1" by (simp add: adler_valid_def)
  show ?thesis using v adler32_correct [OF v, of "[97, 98, 99]"] by simp
qed

text \<open>The nibble-table CRC of uzlib_crc32 is the reflected CRC-32 (polynomial 0xedb88320)
  computed one bit at a time, for every input and every starting value.\<close>

theorem crc32_table_correct: "uzlib_crc32 data crc = crc32_ref data crc"
  by (rule uzlib_crc32_ref)

text \<open>crc_update detects every error burst confined to four consecutive bytes: two inputs of
  equal length that differ only there never have the same CRC, whatever the starting value.\<close>

theorem crc_update_detects_burst:
  assumes "[a, b, c, d] \<noteq> [a', b', c', d']"
  shows "crc_update (xs @ [a, b, c, d] @ ys) s \<noteq> crc_update (xs @ [a', b', c', d'] @ ys) s"
proof (rule crc_update_sum.upd_differ)
  show "crc_update [a, b, c, d] (crc_update xs s) \<noteq> crc_update [a', b', c', d'] (crc_update xs s)"
    using assms by (simp only: crc_update_word_inject) simp
qed simp

theorem crc_update_detects_burst_witness:
  "crc_update ([1] @ [2, 3, 4, 5] @ [6]) 0 \<noteq> crc_update ([1] @ [2, 3, 4, 6] @ [6]) 0"
  by (rule crc_update_detects_burst) simp

end
