(* ===== verification/Tinf_Data.thy ===== *)
theory Tinf_Data
  imports Checksums
begin

text \<open>
  The decompressor's state and its input side: struct uzlib_uncomp and TINF_PUT of uzlib/src/uzlib.h
  and tinf.h, and uzlib_get_byte, tinf_get_le_uint32, tinf_get_be_uint32, tinf_getbit,
  tinf_read_bits, uzlib_uncompress_init of uzlib/src/tinflate.c.

  \<open>source\<close> holds the bytes from the C pointer source up to source_limit.  The callback
  source_read_cb is the argument \<open>rs\<close> of every routine that may call it (\<open>None\<close> for the null
  pointer); it gets the whole structure and returns its int result with the structure as it left it,
  and \<open>src_env\<close> is the world it reads from.  The output object is the list \<open>dest_buf\<close>, the pointers
  dest_start, dest, dest_limit are indexes into it, and dict_ring is the ring buffer (\<open>None\<close> for the
  null pointer).  A result \<open>None\<close> is an access outside an object.
  The unsigned counters stay far below \<open>2 ^ 32\<close> and are natural numbers.
\<close>

section \<open>struct uzlib_uncomp\<close>

record tinf_tree =
  table :: "nat list"
  trans :: "nat list"

record 'e uncomp =
  source :: "u8 list"
  src_env :: 'e
  tag :: nat
  bitcount :: nat
  dest_buf :: "u8 list"
  dest_start :: nat
  dest :: nat
  dest_limit :: nat
  checksum :: u32
  checksum_type :: nat
  eof :: bool
  btype :: int
  bfinal :: nat
  curlen :: nat
  lzOff :: int
  dict_ring :: "u8 list option"
  dict_size :: nat
  dict_idx :: nat
  ltree :: tinf_tree
  dtree :: tinf_tree

type_synonym 'e read_cb = "('e uncomp \<Rightarrow> int \<times> 'e uncomp) option"

definition TINF_OK :: int where "TINF_OK = 0"
definition TINF_DONE :: int where "TINF_DONE = 1"
definition TINF_DATA_ERROR :: int where "TINF_DATA_ERROR = -3"
definition TINF_CHKSUM_ERROR :: int where "TINF_CHKSUM_ERROR = -4"
definition TINF_DICT_ERROR :: int where "TINF_DICT_ERROR = -5"

definition TINF_CHKSUM_NONE :: nat where "TINF_CHKSUM_NONE = 0"
definition TINF_CHKSUM_ADLER :: nat where "TINF_CHKSUM_ADLER = 1"
definition TINF_CHKSUM_CRC :: nat where "TINF_CHKSUM_CRC = 2"

lemmas tinf_codes = TINF_OK_def TINF_DONE_def TINF_DATA_ERROR_def TINF_CHKSUM_ERROR_def TINF_DICT_ERROR_def

section \<open>Output\<close>

definition TINF_PUT :: "u8 \<Rightarrow> 'e uncomp \<Rightarrow> 'e uncomp option" where
  "TINF_PUT c d = do {
     buf \<leftarrow> store (dest_buf d) (dest d) c;
     let d = d\<lparr>dest_buf := buf, dest := dest d + 1\<rparr>;
     case dict_ring d of
       None \<Rightarrow> Some d
     | Some ring \<Rightarrow> do {
         ring \<leftarrow> store ring (dict_idx d) c;
         let i = dict_idx d + 1;
         Some (d\<lparr>dict_ring := Some ring, dict_idx := (if i = dict_size d then 0 else i)\<rparr>)
       }
   }"

section \<open>Input\<close>

definition uzlib_get_byte :: "'e read_cb \<Rightarrow> 'e uncomp \<Rightarrow> u8 \<times> 'e uncomp" where
  "uzlib_get_byte rs d =
     (case source d of
        b # rest \<Rightarrow> (b, d\<lparr>source := rest\<rparr>)
      | [] \<Rightarrow>
          (case (if eof d then None else rs) of
             Some f \<Rightarrow>
               (case f d of (val, d) \<Rightarrow>
                  if 0 \<le> val then (of_int val, d) else (0, d\<lparr>eof := True\<rparr>))
           | None \<Rightarrow> (0, d\<lparr>eof := True\<rparr>)))"

text \<open>\<open>for (i = 4; i--;)\<close>\<close>

primrec tinf_get_le_loop :: "'e read_cb \<Rightarrow> nat \<Rightarrow> u32 \<Rightarrow> 'e uncomp \<Rightarrow> u32 \<times> 'e uncomp" where
  "tinf_get_le_loop rs 0 val d = (val, d)"
| "tinf_get_le_loop rs (Suc i) val d =
     (case uzlib_get_byte rs d of (b, d) \<Rightarrow>
        tinf_get_le_loop rs i (shr val 8 OR shl (ucast b) 24) d)"

definition tinf_get_le_uint32 :: "'e read_cb \<Rightarrow> 'e uncomp \<Rightarrow> u32 \<times> 'e uncomp" where
  "tinf_get_le_uint32 rs d = tinf_get_le_loop rs 4 0 d"

primrec tinf_get_be_loop :: "'e read_cb \<Rightarrow> nat \<Rightarrow> u32 \<Rightarrow> 'e uncomp \<Rightarrow> u32 \<times> 'e uncomp" where
  "tinf_get_be_loop rs 0 val d = (val, d)"
| "tinf_get_be_loop rs (Suc i) val d =
     (case uzlib_get_byte rs d of (b, d) \<Rightarrow>
        tinf_get_be_loop rs i (shl val 8 OR ucast b) d)"

definition tinf_get_be_uint32 :: "'e read_cb \<Rightarrow> 'e uncomp \<Rightarrow> u32 \<times> 'e uncomp" where
  "tinf_get_be_uint32 rs d = tinf_get_be_loop rs 4 0 d"

text \<open>\<open>if (!d->bitcount--)\<close> loads a byte, of which seven bits remain after this call; the
  decrement of a nonzero count is the other branch.\<close>

definition tinf_getbit :: "'e read_cb \<Rightarrow> 'e uncomp \<Rightarrow> nat \<times> 'e uncomp" where
  "tinf_getbit rs d =
     (let d = (if bitcount d = 0
               then (case uzlib_get_byte rs d of (b, d) \<Rightarrow> d\<lparr>tag := unat b, bitcount := 7\<rparr>)
               else d\<lparr>bitcount := bitcount d - 1\<rparr>)
      in (tag d mod 2, d\<lparr>tag := tag d div 2\<rparr>))"

text \<open>\<open>for (mask = 1; mask < limit; mask *= 2)\<close> with \<open>limit = 1 << num\<close> runs \<open>num\<close> times.\<close>

primrec tinf_read_bits_loop :: "'e read_cb \<Rightarrow> nat \<Rightarrow> nat \<Rightarrow> nat \<Rightarrow> 'e uncomp \<Rightarrow> nat \<times> 'e uncomp" where
  "tinf_read_bits_loop rs 0 m val d = (val, d)"
| "tinf_read_bits_loop rs (Suc n) m val d =
     (case tinf_getbit rs d of (b, d) \<Rightarrow>
        tinf_read_bits_loop rs n (2 * m) (if b \<noteq> 0 then val + m else val) d)"

definition tinf_read_bits :: "'e read_cb \<Rightarrow> nat \<Rightarrow> nat \<Rightarrow> 'e uncomp \<Rightarrow> nat \<times> 'e uncomp" where
  "tinf_read_bits rs num base d =
     (case tinf_read_bits_loop rs num 1 0 d of (val, d) \<Rightarrow> (val + base, d))"

section \<open>Initialisation\<close>

text \<open>The fields this routine does not set keep what the caller's memory held.\<close>

definition uzlib_uncompress_init :: "'e uncomp \<Rightarrow> u8 list option \<Rightarrow> nat \<Rightarrow> 'e uncomp" where
  "uzlib_uncompress_init d dict dictLen =
     d\<lparr>eof := False, bitcount := 0, bfinal := 0, btype := -1,
       dict_size := dictLen, dict_ring := dict, dict_idx := 0, curlen := 0\<rparr>"

section \<open>The input side as a byte source\<close>

text \<open>\<open>d'\<close> differs from \<open>d\<close> in the input fields only.\<close>

definition input_step :: "'e uncomp \<Rightarrow> 'e uncomp \<Rightarrow> bool" where
  "input_step d d' \<longleftrightarrow>
     d' = d\<lparr>source := source d', src_env := src_env d', tag := tag d', bitcount := bitcount d'\<rparr>"

lemma input_stepI [intro]:
  "input_step d (d\<lparr>source := s, src_env := e, tag := t, bitcount := n\<rparr>)"
  by (simp add: input_step_def)

lemma input_step_refl [intro, simp]: "input_step d d"
  by (simp add: input_step_def)

lemma input_stepE [elim]:
  assumes "input_step d d'"
  obtains s e t n where "d' = d\<lparr>source := s, src_env := e, tag := t, bitcount := n\<rparr>"
  using assms by (auto simp: input_step_def)

lemma input_step_trans [trans]: "input_step a b \<Longrightarrow> input_step b c \<Longrightarrow> input_step a c"
  by (elim input_stepE) auto

lemma input_step_fields:
  assumes "input_step d d'"
  shows "dest_buf d' = dest_buf d" "dest_start d' = dest_start d" "dest d' = dest d"
    "dest_limit d' = dest_limit d" "checksum d' = checksum d" "checksum_type d' = checksum_type d"
    "eof d' = eof d" "btype d' = btype d" "bfinal d' = bfinal d" "curlen d' = curlen d"
    "lzOff d' = lzOff d" "dict_ring d' = dict_ring d" "dict_size d' = dict_size d"
    "dict_idx d' = dict_idx d" "ltree d' = ltree d" "dtree d' = dtree d"
  using assms by (auto elim!: input_stepE)

text \<open>
  What the decoder relies on from its input: \<open>avail s e\<close> are bytes still to come from the buffer
  \<open>s\<close> and the callback's world \<open>e\<close>; as long as there is one, uzlib_get_byte returns it and
  changes nothing but the input fields.
\<close>

locale byte_source =
  fixes rs :: "'e read_cb"
    and avail :: "u8 list \<Rightarrow> 'e \<Rightarrow> u8 list"
  assumes get_byte: "avail (source d) (src_env d) = b # bs \<Longrightarrow> \<not> eof d \<Longrightarrow>
    \<exists>s e. uzlib_get_byte rs d = (b, d\<lparr>source := s, src_env := e\<rparr>) \<and> avail s e = bs"
begin

text \<open>The bits still to come: the rest of the current byte, then the bytes of the source.\<close>

definition in_bits :: "'e uncomp \<Rightarrow> bool list" where
  "in_bits d = nat_bits (bitcount d) (tag d) @ bytes_bits (avail (source d) (src_env d))"

lemma getbit_avail:
  assumes "in_bits d = b # bs" and "\<not> eof d"
  obtains d' where "tinf_getbit rs d = (of_bool b, d')" and "in_bits d' = bs" and "input_step d d'"
proof (cases "bitcount d")
  case 0
  with assms(1) obtain c cs where c: "avail (source d) (src_env d) = c # cs"
    by (cases "avail (source d) (src_env d)") (auto simp: in_bits_def)
  then obtain s e where g: "uzlib_get_byte rs d = (c, d\<lparr>source := s, src_env := e\<rparr>)" "avail s e = cs"
    using get_byte [OF c assms(2)] by auto
  have bb: "byte_bits c = odd (unat c) # nat_bits 7 (unat c div 2)"
    by (simp add: byte_bits_def numeral_eq_Suc)
  let ?d = "d\<lparr>source := s, src_env := e, tag := unat c div 2, bitcount := 7\<rparr>"
  have "tinf_getbit rs d = (of_bool b, ?d)"
    using 0 g assms(1) c bb by (auto simp: tinf_getbit_def in_bits_def mod_2_eq_odd)
  moreover have "in_bits ?d = bs"
    using 0 g assms(1) c bb by (simp add: in_bits_def)
  ultimately show ?thesis by (intro that) auto
next
  case (Suc n)
  let ?d = "d\<lparr>tag := tag d div 2, bitcount := n\<rparr>"
  have "tinf_getbit rs d = (of_bool b, ?d)"
    using Suc assms(1) by (auto simp: tinf_getbit_def in_bits_def mod_2_eq_odd)
  moreover have "in_bits ?d = bs"
    using Suc assms(1) by (simp add: in_bits_def)
  moreover have "input_step d ?d" by (auto simp: input_step_def)
  ultimately show ?thesis by (rule that)
qed

lemma read_bits_loop_avail:
  assumes "in_bits d = bs @ rest" and "\<not> eof d"
  shows "\<exists>d'. tinf_read_bits_loop rs (length bs) m v d = (v + m * bits_val bs, d') \<and>
    in_bits d' = rest \<and> input_step d d'"
  using assms
proof (induction bs arbitrary: m v d)
  case (Cons b bs)
  from Cons.prems obtain d1 where d1: "tinf_getbit rs d = (of_bool b, d1)" "in_bits d1 = bs @ rest"
    "input_step d d1" by (auto elim: getbit_avail)
  have "\<not> eof d1" using d1(3) Cons.prems(2) by (simp add: input_step_fields)
  from Cons.IH [OF d1(2) this, of "2 * m" "v + m * of_bool b"] obtain d2 where
    d2: "tinf_read_bits_loop rs (length bs) (2 * m) (v + m * of_bool b) d1 =
      (v + m * of_bool b + 2 * m * bits_val bs, d2)" "in_bits d2 = rest" "input_step d1 d2" by blast
  have "tinf_read_bits_loop rs (length (b # bs)) m v d = (v + m * bits_val (b # bs), d2)"
    using d1(1) d2(1) by (cases b) (simp_all add: algebra_simps)
  then show ?case using d2 d1(3) by (blast intro: input_step_trans)
qed auto

lemma read_bits_avail:
  assumes "in_bits d = bs @ rest" and "\<not> eof d" and "length bs = n"
  obtains d' where "tinf_read_bits rs n base d = (bits_val bs + base, d')"
    and "in_bits d' = rest" and "input_step d d'"
  using read_bits_loop_avail [OF assms(1,2), of 1 0] assms(3)
  by (auto simp: tinf_read_bits_def)

end

text \<open>A buffer in memory, no callback.\<close>

interpretation memory: byte_source None "\<lambda>s e. s"
proof unfold_locales
  fix d :: "'e uncomp" and b bs
  assume "source d = b # bs" and "\<not> eof d"
  then have "uzlib_get_byte None d = (b, d\<lparr>source := bs, src_env := src_env d\<rparr>)"
    by (simp add: uzlib_get_byte_def)
  then show "\<exists>s e. uzlib_get_byte None d = (b, d\<lparr>source := s, src_env := e\<rparr>) \<and> s = bs"
    by blast
qed

end
