(* ===== verification/Tinf_Tree.thy ===== *)
theory Tinf_Tree
  imports Tinf_Data
begin

text \<open>
  Huffman trees of uzlib/src/tinflate.c: the constant tables length_bits, length_base, dist_bits,
  dist_base, clcidx, and tinf_build_fixed_trees, tinf_build_tree, tinf_decode_symbol,
  tinf_decode_trees.  A TINF_TREE is the record \<open>tinf_tree\<close>: \<open>table\<close> (16 code length counts) and
  \<open>trans\<close> (288 symbols ordered by code).
\<close>

section \<open>Constant tables\<close>

definition length_bits :: "nat list" where
  "length_bits =
    [0, 0, 0, 0, 0, 0, 0, 0,
     1, 1, 1, 1, 2, 2, 2, 2,
     3, 3, 3, 3, 4, 4, 4, 4,
     5, 5, 5, 5, 0, 0]"

definition length_base :: "nat list" where
  "length_base =
    [3, 4, 5, 6, 7, 8, 9, 10,
     11, 13, 15, 17, 19, 23, 27, 31,
     35, 43, 51, 59, 67, 83, 99, 115,
     131, 163, 195, 227, 258, 0]"

definition dist_bits :: "nat list" where
  "dist_bits =
    [0, 0, 0, 0, 1, 1, 2, 2,
     3, 3, 4, 4, 5, 5, 6, 6,
     7, 7, 8, 8, 9, 9, 10, 10,
     11, 11, 12, 12, 13, 13]"

definition dist_base :: "nat list" where
  "dist_base =
    [1, 2, 3, 4, 5, 7, 9, 13,
     17, 25, 33, 49, 65, 97, 129, 193,
     257, 385, 513, 769, 1025, 1537, 2049, 3073,
     4097, 6145, 8193, 12289, 16385, 24577]"

definition clcidx :: "nat list" where
  "clcidx =
    [16, 17, 18, 0, 8, 7, 9, 6,
     10, 5, 11, 4, 12, 3, 13, 2,
     14, 1, 15]"

lemma length_tables: "length length_bits = 30" "length length_base = 30" "length dist_bits = 30" "length dist_base = 30"
  by (simp_all add: length_bits_def length_base_def dist_bits_def dist_base_def)

section \<open>Building trees\<close>

text \<open>\<open>for (i = 0; i < n; ++i) a[off + i] = f(i)\<close>\<close>

definition fill_from :: "nat \<Rightarrow> nat \<Rightarrow> (nat \<Rightarrow> nat) \<Rightarrow> nat list \<Rightarrow> nat list" where
  "fill_from off n f a = fold (\<lambda>i a. a[off + i := f i]) [0..<n] a"

definition tinf_build_fixed_trees :: "tinf_tree \<Rightarrow> tinf_tree \<Rightarrow> tinf_tree \<times> tinf_tree" where
  "tinf_build_fixed_trees lt dt =
     (let tab = fill_from 0 7 (\<lambda>_. 0) (table lt);
          tab = tab[7 := 24, 8 := 152, 9 := 112];
          tr = fill_from 0 24 (\<lambda>i. 256 + i) (trans lt);
          tr = fill_from 24 144 (\<lambda>i. i) tr;
          tr = fill_from (24 + 144) 8 (\<lambda>i. 280 + i) tr;
          tr = fill_from (24 + 144 + 8) 112 (\<lambda>i. 144 + i) tr;
          dtab = fill_from 0 5 (\<lambda>_. 0) (table dt);
          dtab = dtab[5 := 32];
          dtr = fill_from 0 32 (\<lambda>i. i) (trans dt)
      in (\<lparr>table = tab, trans = tr\<rparr>, \<lparr>table = dtab, trans = dtr\<rparr>))"

text \<open>\<open>t->table[lengths[i]]++\<close>\<close>

primrec tinf_count_lengths :: "nat list \<Rightarrow> nat list \<Rightarrow> nat list option" where
  "tinf_count_lengths [] tab = Some tab"
| "tinf_count_lengths (l # ls) tab = do {
     n \<leftarrow> fetch tab l;
     tinf_count_lengths ls (tab[l := n + 1])
   }"

text \<open>\<open>offs[i] = sum; sum += t->table[i]\<close>\<close>

primrec tinf_offsets :: "nat list \<Rightarrow> nat \<Rightarrow> nat list" where
  "tinf_offsets [] sm = []"
| "tinf_offsets (n # ns) sm = sm # tinf_offsets ns (sm + n)"

text \<open>\<open>if (lengths[i]) t->trans[offs[lengths[i]]++] = i\<close>\<close>

primrec tinf_distribute :: "nat list \<Rightarrow> nat \<Rightarrow> nat list \<Rightarrow> nat list \<Rightarrow> nat list option" where
  "tinf_distribute [] i offs tr = Some tr"
| "tinf_distribute (l # ls) i offs tr =
     (if l \<noteq> 0 then do {
        p \<leftarrow> fetch offs l;
        tr \<leftarrow> store tr p i;
        tinf_distribute ls (i + 1) (offs[l := p + 1]) tr
      }
      else tinf_distribute ls (i + 1) offs tr)"

definition tinf_build_tree :: "tinf_tree \<Rightarrow> nat list \<Rightarrow> nat \<Rightarrow> tinf_tree option" where
  "tinf_build_tree t lengths num =
     (if num \<le> length lengths then do {
        tab \<leftarrow> tinf_count_lengths (take num lengths) (replicate 16 0);
        let tab = tab[0 := 0];
        let offs = tinf_offsets tab 0;
        tr \<leftarrow> tinf_distribute (take num lengths) 0 offs (trans t);
        Some \<lparr>table = tab, trans = tr\<rparr>
      }
      else None)"

section \<open>Decoding symbols\<close>

text \<open>The length counter starts at 0 and grows by one, so the C test \<open>++len == 16\<close> is \<open>16 \<le> len + 1\<close>.\<close>

function tinf_decode_loop ::
  "'e read_cb \<Rightarrow> tinf_tree \<Rightarrow> int \<Rightarrow> int \<Rightarrow> nat \<Rightarrow> 'e uncomp \<Rightarrow> (int \<times> 'e uncomp) option" where
  "tinf_decode_loop rs t sm cur len d =
     (case tinf_getbit rs d of (b, d) \<Rightarrow>
        if 16 \<le> Suc len then Some (TINF_DATA_ERROR, d)
        else do {
          n \<leftarrow> fetch (table t) (Suc len);
          let sm = sm + int n;
          let cur = 2 * cur + int b - int n;
          if 0 \<le> cur then tinf_decode_loop rs t sm cur (Suc len) d
          else do { symb \<leftarrow> fetch_int (trans t) (sm + cur); Some (int symb, d) }
        })"
  by pat_completeness auto
termination
  by (relation "measure (\<lambda>(rs, t, sm, cur, len, d). 16 - len)") auto

declare tinf_decode_loop.simps [simp del]

definition tinf_decode_symbol :: "'e read_cb \<Rightarrow> tinf_tree \<Rightarrow> 'e uncomp \<Rightarrow> (int \<times> 'e uncomp) option" where
  "tinf_decode_symbol rs t d = tinf_decode_loop rs t 0 0 0 d"

section \<open>Decoding dynamic trees\<close>

text \<open>The \<open>hclen\<close> code lengths of the code length alphabet: \<open>lengths[clcidx[i]] = clen\<close>.\<close>

fun tinf_read_clens :: "'e read_cb \<Rightarrow> nat \<Rightarrow> nat \<Rightarrow> nat list \<Rightarrow> 'e uncomp \<Rightarrow> (nat list \<times> 'e uncomp) option" where
  "tinf_read_clens rs 0 i lengths d = Some (lengths, d)"
| "tinf_read_clens rs (Suc n) i lengths d =
     (case tinf_read_bits rs 3 0 d of (clen, d) \<Rightarrow> do {
        c \<leftarrow> fetch clcidx i;
        lengths \<leftarrow> store lengths c clen;
        tinf_read_clens rs n (i + 1) lengths d
      })"

lemma tinf_read_bits_ge: "tinf_read_bits rs n base d = (v, d') \<Longrightarrow> base \<le> v"
  by (auto simp: tinf_read_bits_def split: prod.splits)

text \<open>
  The main loop fills \<open>lengths[0]\<close>, \<open>lengths[1]\<close>, \dots of the 320-element array: \<open>ls\<close> are the
  entries written so far, \<open>num\<close> is their number.
\<close>

definition push_lengths :: "nat list \<Rightarrow> nat \<Rightarrow> nat \<Rightarrow> nat list option" where
  "push_lengths ls n v = (if length ls + n \<le> 288 + 32 then Some (ls @ replicate n (v mod 256)) else None)"

lemma push_lengths_length: "push_lengths ls n v = Some ls' \<Longrightarrow> length ls' = length ls + n"
  by (auto simp: push_lengths_def split: if_splits)

function tinf_decode_lengths ::
  "'e read_cb \<Rightarrow> tinf_tree \<Rightarrow> nat \<Rightarrow> nat list \<Rightarrow> 'e uncomp \<Rightarrow> (int \<times> nat list \<times> 'e uncomp) option" where
  "tinf_decode_lengths rs lt hlimit ls d =
     (if length ls < hlimit then
        (case tinf_decode_symbol rs lt d of
           None \<Rightarrow> None
         | Some (symb, d) \<Rightarrow>
             if symb < 0 then Some (symb, ls, d)
             else if symb = 16 \<and> ls = [] then Some (TINF_DATA_ERROR, ls, d)
             else if symb = 16 \<or> symb = 17 \<or> symb = 18 then
               (let fill_value = (if symb = 16 then last ls else 0);
                    lbits = (if symb = 16 then 2 else if symb = 17 then 3 else 7);
                    lbase = (if symb = 18 then 11 else 3)
                in case tinf_read_bits rs lbits lbase d of (len, d) \<Rightarrow>
                     if hlimit < length ls + len then Some (TINF_DATA_ERROR, ls, d)
                     else (case push_lengths ls len fill_value of
                             None \<Rightarrow> None
                           | Some ls' \<Rightarrow> tinf_decode_lengths rs lt hlimit ls' d))
             else (case push_lengths ls 1 (nat symb) of
                     None \<Rightarrow> None
                   | Some ls' \<Rightarrow> tinf_decode_lengths rs lt hlimit ls' d))
      else Some (TINF_OK, ls, d))"
  by pat_completeness auto
termination
  by (relation "measure (\<lambda>(rs, lt, hlimit, ls, d). hlimit - length ls)")
    (auto dest!: sym [THEN tinf_read_bits_ge] push_lengths_length)

declare tinf_decode_lengths.simps [simp del]

definition tinf_decode_trees :: "'e read_cb \<Rightarrow> 'e uncomp \<Rightarrow> (int \<times> 'e uncomp) option" where
  "tinf_decode_trees rs d =
     (let (hlit, d) = tinf_read_bits rs 5 257 d;
          (hdist, d) = tinf_read_bits rs 5 1 d;
          (hclen, d) = tinf_read_bits rs 4 4 d
      in do {
        (lengths, d) \<leftarrow> tinf_read_clens rs hclen 0 (replicate 19 0) d;
        lt \<leftarrow> tinf_build_tree (ltree d) lengths 19;
        let d = d\<lparr>ltree := lt\<rparr>;
        (res, lengths, d) \<leftarrow> tinf_decode_lengths rs lt (hlit + hdist) [] d;
        if res \<noteq> TINF_OK then Some (res, d)
        else do {
          lt \<leftarrow> tinf_build_tree (ltree d) lengths hlit;
          let d = d\<lparr>ltree := lt\<rparr>;
          dt \<leftarrow> tinf_build_tree (dtree d) (drop hlit lengths) hdist;
          Some (TINF_OK, d\<lparr>dtree := dt\<rparr>)
        }
      })"

section \<open>Canonical codes\<close>

text \<open>
  \<open>code_sum tab k\<close> codes have length at most \<open>k\<close>; \<open>code_first tab k\<close> is the value, in \<open>k\<close> bits,
  just past the last of them (both as the decoder computes them).
\<close>

primrec code_sum :: "nat list \<Rightarrow> nat \<Rightarrow> nat" where
  "code_sum tab 0 = 0"
| "code_sum tab (Suc k) = code_sum tab k + tab ! Suc k"

primrec code_first :: "nat list \<Rightarrow> nat \<Rightarrow> nat" where
  "code_first tab 0 = 0"
| "code_first tab (Suc k) = 2 * code_first tab k + tab ! Suc k"

definition msb_ext :: "nat \<Rightarrow> bool list \<Rightarrow> nat" where
  "msb_ext v cs = foldl (\<lambda>v b. 2 * v + of_bool b) v cs"

lemma msb_ext_simps [simp]:
  "msb_ext v [] = v" "msb_ext v (b # cs) = msb_ext (2 * v + of_bool b) cs"
  "msb_ext v (cs @ ds) = msb_ext (msb_ext v cs) ds"
  by (simp_all add: msb_ext_def)

context byte_source
begin

lemma decode_loop_avail:
  assumes "in_bits d = cs @ rest" and "\<not> eof d" and "cs \<noteq> []" and "len + length cs < 16"
    and "length (table t) = 16"
    and "\<And>j. 0 < j \<Longrightarrow> j < length cs \<Longrightarrow> code_first (table t) (len + j) \<le> msb_ext v (take j cs)"
    and "msb_ext v cs < code_first (table t) (len + length cs)"
  shows "\<exists>d'. tinf_decode_loop rs t (int (code_sum (table t) len))
      (int v - int (code_first (table t) len)) len d =
      map_option (\<lambda>s. (int s, d')) (fetch_int (trans t) (int (code_sum (table t) (len + length cs)) +
        int (msb_ext v cs) - int (code_first (table t) (len + length cs)))) \<and>
    in_bits d' = rest \<and> input_step d d'"
  using assms
proof (induction cs arbitrary: v len d)
  case (Cons c cs)
  from Cons.prems(1,2) obtain d1 where d1: "tinf_getbit rs d = (of_bool c, d1)"
    "in_bits d1 = cs @ rest" "input_step d d1" by (auto elim: getbit_avail)
  have e1: "\<not> eof d1" using d1(3) Cons.prems(2) by (simp add: input_step_fields)
  let ?F = "code_first (table t)" and ?S = "code_sum (table t)" and ?v = "2 * v + of_bool c"
  have tl: "fetch (table t) (Suc len) = Some (table t ! Suc len)"
    using Cons.prems(4,5) by (simp add: access_simps)
  have cur: "2 * (int v - int (?F len)) + int (of_bool c) - int (table t ! Suc len) =
      int ?v - int (?F (Suc len))" by simp
  have sm: "int (?S len) + int (table t ! Suc len) = int (?S (Suc len))" by simp
  have len16: "\<not> 16 \<le> Suc len" using Cons.prems(4) by simp
  have unfold: "tinf_decode_loop rs t (int (?S len)) (int v - int (?F len)) len d =
     (if 0 \<le> int ?v - int (?F (Suc len))
      then tinf_decode_loop rs t (int (?S (Suc len))) (int ?v - int (?F (Suc len))) (Suc len) d1
      else map_option (\<lambda>s. (int s, d1)) (fetch_int (trans t) (int (?S (Suc len)) + (int ?v - int (?F (Suc len))))))"
    by (subst tinf_decode_loop.simps)
      (simp only: d1(1) prod.case len16 if_False tl Option.bind.bind_lunit Let_def cur sm map_conv_bind_option o_def)
  show ?case
  proof (cases cs)
    case Nil
    have "?v < ?F (Suc len)" using Cons.prems(7) Nil by simp
    then have "\<not> 0 \<le> int ?v - int (?F (Suc len))" by linarith
    then show ?thesis
      using unfold d1 Nil by (auto simp: algebra_simps)
  next
    case (Cons c2 cs2)
    have "?F (Suc len) \<le> ?v" using Cons.prems(6) [of 1] Cons by simp
    then have t: "0 \<le> int ?v - int (?F (Suc len))" by linarith
    have "tinf_decode_loop rs t (int (?S len)) (int v - int (?F len)) len d =
        tinf_decode_loop rs t (int (?S (Suc len))) (int ?v - int (?F (Suc len))) (Suc len) d1"
      by (simp only: unfold t if_True)
    moreover have "\<exists>d'. tinf_decode_loop rs t (int (?S (Suc len))) (int ?v - int (?F (Suc len))) (Suc len) d1 =
        map_option (\<lambda>s. (int s, d')) (fetch_int (trans t) (int (?S (Suc len + length cs)) +
          int (msb_ext ?v cs) - int (?F (Suc len + length cs)))) \<and> in_bits d' = rest \<and> input_step d1 d'"
    proof (rule Cons.IH [OF d1(2) e1])
      show "cs \<noteq> []" using Cons by simp
      show "Suc len + length cs < 16" using Cons.prems(4) by simp
      show "?F (Suc len + j) \<le> msb_ext ?v (take j cs)" if "0 < j" "j < length cs" for j
        using Cons.prems(6) [of "Suc j"] that by simp
      show "msb_ext ?v cs < ?F (Suc len + length cs)" using Cons.prems(7) by simp
    qed (rule Cons.prems(5))
    ultimately show ?thesis using d1(3) by (auto intro: input_step_trans)
  qed
qed simp

lemma decode_symbol_avail:
  assumes "in_bits d = cs @ rest" and "\<not> eof d" and "cs \<noteq> []" and "length cs < 16"
    and "length (table t) = 16"
    and "\<And>j. 0 < j \<Longrightarrow> j < length cs \<Longrightarrow> code_first (table t) j \<le> msb_ext 0 (take j cs)"
    and "msb_ext 0 cs < code_first (table t) (length cs)"
    and "code_sum (table t) (length cs) + msb_ext 0 cs = code_first (table t) (length cs) + i"
    and "i < length (trans t)"
  obtains d' where "tinf_decode_symbol rs t d = Some (int (trans t ! i), d')"
    and "in_bits d' = rest" and "input_step d d'"
proof -
  have i: "int (code_sum (table t) (length cs)) + int (msb_ext 0 cs) - int (code_first (table t) (length cs)) = int i"
    using assms(8) by linarith
  from decode_loop_avail [of d cs rest 0 t 0] assms i that show ?thesis
    by (auto simp: tinf_decode_symbol_def access_simps)
qed

end

section \<open>Reads stay inside the trees\<close>

lemma code_sum_mono: "i \<le> j \<Longrightarrow> code_sum tab i \<le> code_sum tab j"
  by (induction j) (auto simp: le_Suc_eq)

text \<open>
  A tree as the build routines leave it: the arrays have their C sizes, and the codes of up to
  \<open>m\<close> bits all have an entry in \<open>trans\<close>, where \<open>m\<close> is 15 or the codes of up to \<open>m\<close> bits are
  complete (tinf_build_fixed_trees leaves the counts of longer codes as they were).
\<close>

definition tree_upto :: "nat \<Rightarrow> tinf_tree \<Rightarrow> bool" where
  "tree_upto m t \<longleftrightarrow> length (table t) = 16 \<and> length (trans t) = 288 \<and> m \<le> 15 \<and>
     code_sum (table t) m \<le> 288 \<and> (m = 15 \<or> 2 ^ m \<le> code_first (table t) m)"

definition tree_ok :: "tinf_tree \<Rightarrow> bool" where
  "tree_ok t \<longleftrightarrow> (\<exists>m \<le> 15. tree_upto m t)"

lemma getbit_less: "tinf_getbit rs d = (b, d') \<Longrightarrow> b < 2"
  by (auto simp: tinf_getbit_def Let_def)

lemma decode_loop_total:
  assumes "tree_upto m t" and "len < m \<or> m = 15 \<and> len = 15" and "0 \<le> cur"
    and "cur + int (code_first (table t) len) < 2 ^ len"
  shows "\<exists>s d'. tinf_decode_loop rs t (int (code_sum (table t) len)) cur len d = Some (s, d') \<and>
    (s = TINF_DATA_ERROR \<or> (\<exists>i < code_sum (table t) m. s = int (trans t ! i)))"
  using assms(2-4)
proof (induction "15 - len" arbitrary: len cur d rule: less_induct)
  case less
  obtain b d1 where g: "tinf_getbit rs d = (b, d1)" by fastforce
  have m: "m \<le> 15" using assms(1) by (simp add: tree_upto_def)
  show ?case
  proof (cases "len < m")
    case False
    then show ?thesis using g less.prems(1) by (subst tinf_decode_loop.simps) simp
  next
    case True
    with m have len: "len < 15" by simp
    let ?n = "table t ! Suc len" and ?S = "code_sum (table t)"
    define cur' where "cur' = 2 * cur + int b - int ?n"
    have f: "fetch (table t) (Suc len) = Some ?n"
      using assms(1) len by (simp add: tree_upto_def access_simps)
    have S: "int (?S len) + int ?n = int (?S (Suc len))" by simp
    have u: "tinf_decode_loop rs t (int (?S len)) cur len d =
      (if 0 \<le> cur' then tinf_decode_loop rs t (int (?S (Suc len))) cur' (Suc len) d1
       else do { s \<leftarrow> fetch_int (trans t) (int (?S (Suc len)) + cur'); Some (int s, d1) })"
      using g f len by (subst tinf_decode_loop.simps) (simp add: Let_def cur'_def S [symmetric])
    have v: "cur' + int (code_first (table t) (Suc len)) < 2 ^ Suc len"
      using less.prems(3) getbit_less [OF g] by (simp add: cur'_def)
    show ?thesis
    proof (cases "0 \<le> cur'")
      case True
      have "Suc len < m \<or> m = 15 \<and> Suc len = 15"
      proof (rule ccontr)
        assume "\<not> ?thesis"
        then have "Suc len = m" "m \<noteq> 15" using \<open>len < m\<close> by auto
        then have "2 ^ Suc len \<le> int (code_first (table t) (Suc len))"
          using assms(1) by (simp add: tree_upto_def flip: of_nat_le_iff)
        then show False using v True by linarith
      qed
      then show ?thesis unfolding u using True len v less.hyps [of "Suc len" cur' d1] by simp
    next
      case False
      have lo: "- int ?n \<le> cur'" using less.prems(2) by (simp add: cur'_def)
      let ?i = "nat (int (?S (Suc len)) + cur')"
      have ge: "0 \<le> int (?S (Suc len)) + cur'" using lo by simp
      have i: "?i < ?S m"
      proof -
        have "?S (Suc len) \<le> ?S m" using \<open>len < m\<close> by (intro code_sum_mono) simp
        then have "int (?S (Suc len)) + cur' < int (?S m)" using False by linarith
        then show ?thesis using ge by (simp only: nat_less_iff)
      qed
      then have "?i < length (trans t)" using assms(1) by (simp add: tree_upto_def)
      then have "fetch_int (trans t) (int (?S (Suc len)) + cur') = Some (trans t ! ?i)"
        using ge by (simp add: fetch_int_def access_simps)
      then show ?thesis unfolding u using False i by auto
    qed
  qed
qed

lemma tree_upto_pos: "tree_upto m t \<Longrightarrow> 0 < m"
  by (cases m) (auto simp: tree_upto_def)

lemma decode_symbol_upto:
  assumes "tree_upto m t"
  obtains s d' where "tinf_decode_symbol rs t d = Some (s, d')"
    and "s = TINF_DATA_ERROR \<or> (\<exists>i < code_sum (table t) m. s = int (trans t ! i))"
  using decode_loop_total [OF assms, of 0 0 rs d] tree_upto_pos [OF assms]
  by (auto simp: tinf_decode_symbol_def)

text \<open>Decoding a symbol always has a defined result, even on malformed input and past its end.\<close>

lemma decode_symbol_total:
  assumes "tree_ok t"
  obtains s d' where "tinf_decode_symbol rs t d = Some (s, d')"
    and "s = TINF_DATA_ERROR \<or> 0 \<le> s"
proof -
  from assms obtain m where "tree_upto m t" by (auto simp: tree_ok_def)
  then show ?thesis using that by (rule decode_symbol_upto) auto
qed

section \<open>What tinf_build_tree builds\<close>

lemma count_lengths_eq:
  "\<forall>l \<in> set ls. l < length tab \<Longrightarrow>
     tinf_count_lengths ls tab = Some (map (\<lambda>l. tab ! l + count_list ls l) [0..<length tab])"
proof (induction ls arbitrary: tab)
  case Nil
  show ?case by (simp add: map_nth)
next
  case (Cons l ls)
  have "map (\<lambda>k. tab[l := tab ! l + 1] ! k + count_list ls k) [0..<length tab] =
      map (\<lambda>k. tab ! k + count_list (l # ls) k) [0..<length tab]"
    using Cons.prems by (auto simp: nth_list_update)
  then show ?case using Cons by (simp add: access_simps)
qed

text \<open>The number of symbols with a code of length \<open>k\<close>.\<close>

definition length_table :: "nat list \<Rightarrow> nat list" where
  "length_table ls = map (\<lambda>k. if k = 0 then 0 else count_list ls k) [0..<16]"

lemma offsets_nth: "k < length ns \<Longrightarrow> tinf_offsets ns s ! k = s + sum_list (take k ns)"
  by (induction ns arbitrary: s k) (auto simp: nth_Cons' take_Cons')

lemma length_offsets [simp]: "length (tinf_offsets ns s) = length ns"
  by (induction ns arbitrary: s) auto

lemma code_sum_take: "tab ! 0 = 0 \<Longrightarrow> k < length tab \<Longrightarrow> code_sum tab k = sum_list (take (Suc k) tab)"
  by (induction k) (simp_all add: take_Suc_conv_app_nth)

lemma sum_take_code_sum:
  "tab ! 0 = 0 \<Longrightarrow> k < length tab \<Longrightarrow> 0 < k \<Longrightarrow> sum_list (take k tab) = code_sum tab (k - 1)"
  using code_sum_take [of tab "k - 1"] by simp

lemma length_table_simps [simp]:
  "length (length_table ls) = 16" "length_table ls ! 0 = 0"
  "0 < k \<Longrightarrow> k < 16 \<Longrightarrow> length_table ls ! k = count_list ls k"
  by (simp_all add: length_table_def del: upt_Suc)

lemma length_table_offsets:
  "0 < k \<Longrightarrow> k < 16 \<Longrightarrow> tinf_offsets (length_table ls) 0 ! k = code_sum (length_table ls) (k - 1)"
  by (simp add: offsets_nth sum_take_code_sum)

text \<open>The place of symbol \<open>i\<close> in code order: after all shorter codes, and after the smaller symbols
  with a code of the same length.\<close>

definition code_pos :: "nat list \<Rightarrow> nat \<Rightarrow> nat" where
  "code_pos ls i = code_sum (length_table ls) (ls ! i - 1) + count_list (take i ls) (ls ! i)"

lemma count_list_take_le: "i \<le> j \<Longrightarrow> count_list (take i ls) x \<le> count_list (take j ls) x"
proof -
  assume "i \<le> j"
  then have "take j ls = take i ls @ take (j - i) (drop i ls)" using take_add [of i "j - i" ls] by simp
  then show ?thesis by simp
qed

lemma count_list_take_less:
  assumes "i < j" and "j \<le> length ls"
  shows "count_list (take i ls) (ls ! i) < count_list (take j ls) (ls ! i)"
proof -
  have "count_list (take (Suc i) ls) (ls ! i) = Suc (count_list (take i ls) (ls ! i))"
    using assms by (simp add: take_Suc_conv_app_nth)
  moreover have "count_list (take (Suc i) ls) (ls ! i) \<le> count_list (take j ls) (ls ! i)"
    using assms by (intro count_list_take_le) simp
  ultimately show ?thesis by simp
qed

lemma code_pos_bounds:
  assumes "i < length ls" and "0 < ls ! i" and "ls ! i < 16"
  shows "code_sum (length_table ls) (ls ! i - 1) \<le> code_pos ls i"
    and "code_pos ls i < code_sum (length_table ls) (ls ! i)"
proof -
  show "code_sum (length_table ls) (ls ! i - 1) \<le> code_pos ls i" by (simp add: code_pos_def)
  have "count_list (take i ls) (ls ! i) < count_list ls (ls ! i)"
    using count_list_take_less [of i "length ls" ls] assms(1) by simp
  moreover obtain k where k: "ls ! i = Suc k" using assms(2) by (cases "ls ! i") auto
  ultimately show "code_pos ls i < code_sum (length_table ls) (ls ! i)"
    using assms(2,3) by (simp add: code_pos_def)
qed

lemma code_pos_distinct:
  assumes "i < j" and "j < length ls" and "0 < ls ! i" "ls ! i < 16" "0 < ls ! j" "ls ! j < 16"
  shows "code_pos ls i \<noteq> code_pos ls j"
proof (cases "ls ! i" "ls ! j" rule: linorder_cases)
  case less
  have "code_sum (length_table ls) (ls ! i) \<le> code_sum (length_table ls) (ls ! j - 1)"
    using less by (intro code_sum_mono) simp
  then show ?thesis using code_pos_bounds [of i ls] code_pos_bounds [of j ls] assms by linarith
next
  case equal
  then show ?thesis using count_list_take_less [of i j ls] assms by (simp add: code_pos_def)
next
  case greater
  have "code_sum (length_table ls) (ls ! j) \<le> code_sum (length_table ls) (ls ! i - 1)"
    using greater by (intro code_sum_mono) simp
  then show ?thesis using code_pos_bounds [of i ls] code_pos_bounds [of j ls] assms by linarith
qed

definition used :: "nat list \<Rightarrow> nat \<Rightarrow> bool" where
  "used ls i \<longleftrightarrow> i < length ls \<and> 0 < ls ! i"

lemma all_ge_Suc: "(\<forall>j. i \<le> j \<longrightarrow> P j) \<longleftrightarrow> P i \<and> (\<forall>j. Suc i \<le> j \<longrightarrow> P j)"
  by (metis Suc_le_eq le_eq_less_or_eq)

lemma distribute_correct:
  assumes "\<forall>l \<in> set ls. l < 16" and "code_sum (length_table ls) 15 \<le> length tr"
    and "i \<le> length ls" and "length offs = 16"
    and "\<And>k. 0 < k \<Longrightarrow> k < 16 \<Longrightarrow> offs ! k = code_sum (length_table ls) (k - 1) + count_list (take i ls) k"
  shows "\<exists>tr'. tinf_distribute (drop i ls) i offs tr = Some tr' \<and> length tr' = length tr \<and>
     (\<forall>j. i \<le> j \<longrightarrow> used ls j \<longrightarrow> tr' ! code_pos ls j = j) \<and>
     (\<forall>p. (\<forall>j. i \<le> j \<longrightarrow> used ls j \<longrightarrow> p \<noteq> code_pos ls j) \<longrightarrow> tr' ! p = tr ! p)"
  using assms(2-5)
proof (induction "length ls - i" arbitrary: i offs tr)
  case 0
  then show ?case by (auto simp: used_def)
next
  case (Suc n)
  then have i: "i < length ls" by simp
  then have dr: "drop i ls = ls ! i # drop (Suc i) ls" by (simp add: Cons_nth_drop_Suc)
  have tk: "take (Suc i) ls = take i ls @ [ls ! i]" using i by (rule take_Suc_nth)
  have li: "ls ! i < 16" using assms(1) i by simp
  show ?case
  proof (cases "ls ! i = 0")
    case True
    have "\<exists>tr'. tinf_distribute (drop (Suc i) ls) (Suc i) offs tr = Some tr' \<and> length tr' = length tr \<and>
       (\<forall>j. Suc i \<le> j \<longrightarrow> used ls j \<longrightarrow> tr' ! code_pos ls j = j) \<and>
       (\<forall>p. (\<forall>j. Suc i \<le> j \<longrightarrow> used ls j \<longrightarrow> p \<noteq> code_pos ls j) \<longrightarrow> tr' ! p = tr ! p)"
    proof (rule Suc.hyps(1))
      show "offs ! k = code_sum (length_table ls) (k - 1) + count_list (take (Suc i) ls) k"
        if "0 < k" "k < 16" for k
        using that Suc.prems(4) [of k] True by (simp add: tk)
    qed (use Suc.hyps(2) Suc.prems i in auto)
    moreover have "\<not> used ls i" using True by (simp add: used_def)
    ultimately show ?thesis unfolding dr all_ge_Suc [of i]
      using True by simp
  next
    case False
    let ?l = "ls ! i" and ?p = "code_pos ls i"
    have u: "used ls i" using False i by (simp add: used_def)
    have p: "offs ! ?l = ?p" using Suc.prems(4) [of ?l] False li by (simp add: code_pos_def)
    have plt: "?p < length tr"
      using code_pos_bounds(2) [of i ls] code_sum_mono [of ?l 15 "length_table ls"] i False li Suc.prems(1)
      by simp
    have "\<exists>tr'. tinf_distribute (drop (Suc i) ls) (Suc i) (offs[?l := ?p + 1]) (tr[?p := i]) = Some tr' \<and>
       length tr' = length (tr[?p := i]) \<and>
       (\<forall>j. Suc i \<le> j \<longrightarrow> used ls j \<longrightarrow> tr' ! code_pos ls j = j) \<and>
       (\<forall>p. (\<forall>j. Suc i \<le> j \<longrightarrow> used ls j \<longrightarrow> p \<noteq> code_pos ls j) \<longrightarrow> tr' ! p = tr[?p := i] ! p)"
    proof (rule Suc.hyps(1))
      show "offs[?l := ?p + 1] ! k = code_sum (length_table ls) (k - 1) + count_list (take (Suc i) ls) k"
        if "0 < k" "k < 16" for k
        using that Suc.prems(3) Suc.prems(4) [of k] p by (auto simp: tk nth_list_update)
    qed (use Suc.hyps(2) Suc.prems i in auto)
    then obtain tr' where tr': "tinf_distribute (drop (Suc i) ls) (Suc i) (offs[?l := ?p + 1]) (tr[?p := i]) = Some tr'"
      "length tr' = length tr" "\<And>j. Suc i \<le> j \<Longrightarrow> used ls j \<Longrightarrow> tr' ! code_pos ls j = j"
      "\<And>p. (\<forall>j. Suc i \<le> j \<longrightarrow> used ls j \<longrightarrow> p \<noteq> code_pos ls j) \<Longrightarrow> tr' ! p = tr[?p := i] ! p"
      by auto
    have "tr' ! ?p = i"
    proof -
      have "\<forall>j. Suc i \<le> j \<longrightarrow> used ls j \<longrightarrow> ?p \<noteq> code_pos ls j"
        using code_pos_distinct [of i _ ls] assms(1) u by (auto simp: used_def)
      then show ?thesis using tr'(4) [of ?p] plt by simp
    qed
    moreover have "tinf_distribute (drop i ls) i offs tr = Some tr'"
      unfolding dr using False tr'(1) li Suc.prems(3) p plt by (simp add: access_simps)
    moreover have "tr' ! q = tr ! q" if "\<forall>j. i \<le> j \<longrightarrow> used ls j \<longrightarrow> q \<noteq> code_pos ls j" for q
      using tr'(4) [of q] that u by auto
    ultimately show ?thesis unfolding all_ge_Suc [of i "\<lambda>j. used ls j \<longrightarrow> _ j"]
      using tr'(2,3) by (intro exI [of _ tr'] conjI) auto
  qed
qed

text \<open>The build routine: the counts, and every used symbol at its place in code order.\<close>

lemma build_tree_correct:
  assumes "num \<le> length lengths" and "\<forall>l \<in> set (take num lengths). l < 16"
    and "code_sum (length_table (take num lengths)) 15 \<le> length (trans t)"
  obtains t' where "tinf_build_tree t lengths num = Some t'"
    and "table t' = length_table (take num lengths)" and "length (trans t') = length (trans t)"
    and "\<And>i. used (take num lengths) i \<Longrightarrow> trans t' ! code_pos (take num lengths) i = i"
proof -
  let ?ls = "take num lengths"
  have c: "tinf_count_lengths ?ls (replicate 16 0) = Some (map (count_list ?ls) [0..<16])"
    using assms(2) by (subst count_lengths_eq) (auto simp del: upt_Suc)
  have tab: "(map (count_list ?ls) [0..<16])[0 := 0] = length_table ?ls"
    by (rule nth_equalityI) (auto simp: length_table_def nth_list_update simp del: upt_Suc)
  obtain tr' where "tinf_distribute (drop 0 ?ls) 0 (tinf_offsets (length_table ?ls) 0) (trans t) = Some tr'"
    "length tr' = length (trans t)" "\<forall>j. 0 \<le> j \<longrightarrow> used ?ls j \<longrightarrow> tr' ! code_pos ?ls j = j"
    using distribute_correct [of ?ls "trans t" 0 "tinf_offsets (length_table ?ls) 0"] assms
    by (auto simp: length_table_offsets)
  then show ?thesis
    using that [of "\<lparr>table = length_table ?ls, trans = tr'\<rparr>"] assms(1)
    by (simp add: tinf_build_tree_def c Let_def tab)
qed

section \<open>Canonical Huffman codes round trip\<close>

text \<open>
  The canonical code of RFC 1951 for the code lengths \<open>ls\<close>: symbol \<open>i\<close> has the \<open>ls ! i\<close> bits, most
  significant first, of the number \<open>canon_code ls i\<close>.
\<close>

definition canon_code :: "nat list \<Rightarrow> nat \<Rightarrow> nat" where
  "canon_code ls i = 2 * code_first (length_table ls) (ls ! i - 1) + count_list (take i ls) (ls ! i)"

definition canon_bits :: "nat list \<Rightarrow> nat \<Rightarrow> bool list" where
  "canon_bits ls i = rev (nat_bits (ls ! i) (canon_code ls i))"

text \<open>The code lengths are admissible: no length above 15, no more codes than bits allow.\<close>

definition kraft :: "nat list \<Rightarrow> bool" where
  "kraft ls \<longleftrightarrow> (\<forall>l \<in> set ls. l < 16) \<and> code_first (length_table ls) 15 \<le> 2 ^ 15"

lemma length_canon_bits [simp]: "length (canon_bits ls i) = ls ! i"
  by (simp add: canon_bits_def)

lemma msb_ext_rev_nat_bits: "msb_ext v (rev (nat_bits n x)) = v * 2 ^ n + x mod 2 ^ n"
proof (induction n arbitrary: x)
  case (Suc n)
  have "x mod 2 ^ Suc n = x mod 2 + 2 * (x div 2 mod 2 ^ n)" by (simp add: mod_mult2_eq)
  then show ?case using Suc.IH by (simp add: algebra_simps of_bool_def mod2_eq_if)
qed simp

lemma take_rev_nat_bits: "j \<le> n \<Longrightarrow> take j (rev (nat_bits n x)) = rev (nat_bits j (x div 2 ^ (n - j)))"
  using nat_bits_add [of "n - j" j x] by simp

lemma code_first_step: "2 * code_first tab k \<le> code_first tab (Suc k)"
  by simp

lemma code_first_scale: "j \<le> k \<Longrightarrow> code_first tab j * 2 ^ (k - j) \<le> code_first tab k"
proof (induction k)
  case (Suc k)
  show ?case
  proof (cases "j = Suc k")
    case False
    with Suc have "code_first tab j * 2 ^ (k - j) \<le> code_first tab k" "Suc k - j = Suc (k - j)" by auto
    then show ?thesis by simp
  qed simp
qed simp

lemma kraft_le: 
  assumes "kraft ls" and "k \<le> 15"
  shows "code_first (length_table ls) k \<le> 2 ^ k"
proof -
  have "code_first (length_table ls) k * 2 ^ (15 - k) \<le> 2 ^ 15"
    using code_first_scale [of k 15 "length_table ls"] assms by (simp add: kraft_def)
  also have "(2::nat) ^ 15 = 2 ^ k * 2 ^ (15 - k)" using assms(2) by (simp flip: power_add)
  finally show ?thesis by simp
qed

lemma code_sum_used: "code_sum (length_table ls) 15 \<le> length ls"
proof -
  have "code_sum (length_table ls) k \<le> length (filter (\<lambda>l. l \<le> k) ls)" if "k < 16" for k
    using that
  proof (induction k)
    case (Suc k)
    have "length (filter (\<lambda>l. l \<le> Suc k) ls) = length (filter (\<lambda>l. l \<le> k) ls) + count_list ls (Suc k)"
      by (induction ls) (auto simp: le_Suc_eq)
    then show ?case using Suc by simp
  qed simp
  from this [of 15] have "code_sum (length_table ls) 15 \<le> length (filter (\<lambda>l. l \<le> 15) ls)" by simp
  then show ?thesis using length_filter_le le_trans by blast
qed

lemma canon_code_less:
  assumes "used ls i" and "ls ! i < 16"
  shows "canon_code ls i < code_first (length_table ls) (ls ! i)"
proof -
  obtain k where k: "ls ! i = Suc k" using assms(1) by (cases "ls ! i") (auto simp: used_def)
  have "count_list (take i ls) (ls ! i) < count_list ls (ls ! i)"
    using count_list_take_less [of i "length ls" ls] assms(1) by (simp add: used_def)
  then show ?thesis using k assms(2) by (simp add: canon_code_def)
qed

lemma canon_code_prefix:
  assumes "used ls i" and "0 < j" and "j < ls ! i"
  shows "code_first (length_table ls) j \<le> canon_code ls i div 2 ^ (ls ! i - j)"
proof -
  obtain k where k: "ls ! i = Suc k" "j \<le> k" using assms(2,3) by (cases "ls ! i") auto
  have "code_first (length_table ls) j * 2 ^ (k - j) \<le> code_first (length_table ls) k"
    by (rule code_first_scale [OF k(2)])
  then have "code_first (length_table ls) j * 2 ^ (ls ! i - j) \<le> 2 * code_first (length_table ls) k"
    using k by (simp add: Suc_diff_le)
  also have "\<dots> \<le> canon_code ls i" using k by (simp add: canon_code_def)
  finally show ?thesis by (simp add: less_eq_div_iff_mult_less_eq)
qed

lemma canon_bits_val:
  assumes "kraft ls" and "used ls i"
  shows "msb_ext 0 (canon_bits ls i) = canon_code ls i"
proof -
  have li: "ls ! i < 16" using assms by (auto simp: kraft_def used_def)
  then have "canon_code ls i < 2 ^ (ls ! i)"
    using canon_code_less [OF assms(2) li] kraft_le [OF assms(1), of "ls ! i"] by simp
  then show ?thesis by (simp add: canon_bits_def msb_ext_rev_nat_bits)
qed

lemma canon_bits_prefix:
  assumes "kraft ls" and "used ls i" and "0 < j" and "j < ls ! i"
  shows "code_first (length_table ls) j \<le> msb_ext 0 (take j (canon_bits ls i))"
proof -
  have li: "ls ! i < 16" using assms by (auto simp: kraft_def used_def)
  have lt: "canon_code ls i < 2 ^ (ls ! i)"
    using canon_code_less [OF assms(2) li] kraft_le [OF assms(1), of "ls ! i"] li by simp
  have "2 ^ (ls ! i) = 2 ^ j * (2::nat) ^ (ls ! i - j)" using assms(4) by (simp flip: power_add)
  with lt have "canon_code ls i div 2 ^ (ls ! i - j) < 2 ^ j"
    by (simp add: less_mult_imp_div_less)
  then show ?thesis
    using canon_code_prefix [OF assms(2,3,4)] assms(4)
    by (simp add: canon_bits_def take_rev_nat_bits msb_ext_rev_nat_bits)
qed

text \<open>\<open>t\<close> decodes the canonical code of \<open>ls\<close>: its counts are right up to the longest code.\<close>

definition tree_for :: "nat list \<Rightarrow> tinf_tree \<Rightarrow> bool" where
  "tree_for ls t \<longleftrightarrow> length (table t) = 16 \<and> length (trans t) = 288 \<and>
     (\<forall>l \<in> set ls. \<forall>k \<le> l. 0 < k \<longrightarrow> table t ! k = length_table ls ! k) \<and>
     (\<forall>i. used ls i \<longrightarrow> trans t ! code_pos ls i = i)"

lemma build_tree_for:
  assumes "num \<le> length lengths" and "\<forall>l \<in> set (take num lengths). l < 16"
    and "num \<le> 288" and "length (trans t) = 288"
  obtains t' where "tinf_build_tree t lengths num = Some t'" and "tree_for (take num lengths) t'"
    and "tree_upto 15 t'" and "table t' = length_table (take num lengths)"
proof -
  have s: "code_sum (length_table (take num lengths)) 15 \<le> length (take num lengths)"
    by (rule code_sum_used)
  then have "code_sum (length_table (take num lengths)) 15 \<le> length (trans t)"
    using assms by simp
  from build_tree_correct [OF assms(1,2) this] obtain t' where
    t': "tinf_build_tree t lengths num = Some t'" "table t' = length_table (take num lengths)"
      "length (trans t') = length (trans t)"
      "\<And>i. used (take num lengths) i \<Longrightarrow> trans t' ! code_pos (take num lengths) i = i" by metis
  have "tree_for (take num lengths) t'" using t' assms by (simp add: tree_for_def)
  moreover have "tree_upto 15 t'" using t' assms s by (simp add: tree_upto_def)
  ultimately show ?thesis using that t' by blast
qed

lemma code_first_cong:
  "(\<And>j. 0 < j \<Longrightarrow> j \<le> k \<Longrightarrow> tab ! j = tab' ! j) \<Longrightarrow> code_first tab k = code_first tab' k"
  by (induction k) auto

lemma code_sum_cong:
  "(\<And>j. 0 < j \<Longrightarrow> j \<le> k \<Longrightarrow> tab ! j = tab' ! j) \<Longrightarrow> code_sum tab k = code_sum tab' k"
  by (induction k) auto

lemma tree_for_codes:
  assumes "tree_for ls t" and "used ls i" and "k \<le> ls ! i"
  shows "code_first (table t) k = code_first (length_table ls) k"
    and "code_sum (table t) k = code_sum (length_table ls) k"
proof -
  have "table t ! j = length_table ls ! j" if "0 < j" "j \<le> k" for j
    using assms that unfolding tree_for_def used_def by (meson le_trans nth_mem)
  then show "code_first (table t) k = code_first (length_table ls) k"
    "code_sum (table t) k = code_sum (length_table ls) k"
    by (auto intro: code_first_cong code_sum_cong)
qed

context byte_source
begin

lemma decode_canonical:
  assumes "tree_for ls t" and "kraft ls" and "length ls \<le> 288" and "used ls i"
    and "in_bits d = canon_bits ls i @ rest" and "\<not> eof d"
  obtains d' where "tinf_decode_symbol rs t d = Some (int i, d')"
    and "in_bits d' = rest" and "input_step d d'"
proof -
  let ?tab = "length_table ls"
  have t: "trans t ! code_pos ls i = i" "length (trans t) = 288" "length (table t) = 16"
    using assms(1,4) by (auto simp: tree_for_def)
  note c = tree_for_codes [OF assms(1,4)]
  have li: "ls ! i < 16" "0 < ls ! i" using assms(2,4) by (auto simp: kraft_def used_def)
  then obtain k where k: "ls ! i = Suc k" by (cases "ls ! i") auto
  have "code_pos ls i < 288"
    using code_pos_bounds(2) [of i ls] code_sum_mono [of "ls ! i" 15 ?tab] code_sum_used [of ls]
      li assms(3,4) by (simp add: used_def)
  moreover have "code_sum ?tab (ls ! i) + canon_code ls i = code_first ?tab (ls ! i) + code_pos ls i"
    using k by (simp add: canon_code_def code_pos_def)
  moreover have "canon_bits ls i \<noteq> []" using li by (metis length_canon_bits length_0_conv less_irrefl)
  ultimately show ?thesis
    using decode_symbol_avail [OF assms(5,6), of t "code_pos ls i"] that
      canon_bits_prefix [OF assms(2,4)] canon_code_less [OF assms(4) li(1)]
      canon_bits_val [OF assms(2,4)] li t c
    by auto
qed

end

section \<open>The fixed trees\<close>

definition fixed_lit_lengths :: "nat list" where
  "fixed_lit_lengths = replicate 144 8 @ replicate 112 9 @ replicate 24 7 @ replicate 8 8"

definition fixed_dist_lengths :: "nat list" where
  "fixed_dist_lengths = replicate 32 5"

lemma count_list_replicate [simp]: "count_list (replicate n x) y = (if x = y then n else 0)"
  by (induction n) auto

lemma length_fill_from [simp]: "length (fill_from off n f a) = length a"
proof -
  have "length (fold (\<lambda>i a. a[off + i := f i]) xs a) = length a" for xs
    by (induction xs arbitrary: a) auto
  then show ?thesis by (simp add: fill_from_def)
qed

lemma fill_from_nth:
  "j < length a \<Longrightarrow> fill_from off n f a ! j = (if off \<le> j \<and> j < off + n then f (j - off) else a ! j)"
proof (induction n)
  case (Suc n)
  have "fill_from off (Suc n) f a = (fill_from off n f a)[off + n := f n]" by (simp add: fill_from_def)
  then show ?case using Suc by (cases "j = off + n") auto
qed (simp add: fill_from_def)

lemma fixed_lit_lengths_nth:
  "i < 288 \<Longrightarrow> fixed_lit_lengths ! i =
     (if i < 144 then 8 else if i < 256 then 9 else if i < 280 then 7 else 8)"
  by (auto simp: fixed_lit_lengths_def nth_append)

lemma fixed_lit_count [simp]:
  "count_list fixed_lit_lengths k = (if k = 7 then 24 else if k = 8 then 152 else if k = 9 then 112 else 0)"
  by (auto simp: fixed_lit_lengths_def)

lemma length_fixed [simp]: "length fixed_lit_lengths = 288" "length fixed_dist_lengths = 32"
  by (simp_all add: fixed_lit_lengths_def fixed_dist_lengths_def)

lemma code_numeral [simp]:
  "code_first tab (numeral n) = 2 * code_first tab (pred_numeral n) + tab ! numeral n"
  "code_sum tab (numeral n) = code_sum tab (pred_numeral n) + tab ! numeral n"
  by (simp_all add: numeral_eq_Suc)

lemma fixed_lit_firsts [simp]:
  "code_first (length_table fixed_lit_lengths) 6 = 0"
  "code_first (length_table fixed_lit_lengths) 7 = 24"
  "code_first (length_table fixed_lit_lengths) 8 = 200"
  "code_first (length_table fixed_lit_lengths) 15 = 32768"
  by (simp_all add: fixed_lit_count)

lemma fixed_lit_sums [simp]:
  "code_sum (length_table fixed_lit_lengths) 6 = 0"
  "code_sum (length_table fixed_lit_lengths) 7 = 24"
  "code_sum (length_table fixed_lit_lengths) 8 = 176"
  by (simp_all add: fixed_lit_count)

lemma fixed_lit_count_take:
  assumes "i < 288"
  shows "count_list (take i fixed_lit_lengths) (fixed_lit_lengths ! i) =
     (if i < 144 then i else if i < 256 then i - 144 else if i < 280 then i - 256 else i - 136)"
  using assms by (auto simp: fixed_lit_lengths_nth) (auto simp: fixed_lit_lengths_def)

lemma fixed_lit_canon_code:
  assumes "i < 288"
  shows "canon_code fixed_lit_lengths i =
     (if i < 144 then 48 + i else if i < 256 then i + 256 else if i < 280 then i - 256 else i - 88)"
  using assms fixed_lit_count_take [of i] by (auto simp: canon_code_def fixed_lit_lengths_nth)

lemma fixed_lit_code_pos:
  assumes "i < 288"
  shows "code_pos fixed_lit_lengths i =
     (if i < 144 then 24 + i else if i < 256 then i + 32 else if i < 280 then i - 256 else i - 112)"
  using assms fixed_lit_count_take [of i] by (auto simp: code_pos_def fixed_lit_lengths_nth)

lemma fixed_dist_code:
  assumes "i < 32"
  shows "canon_code fixed_dist_lengths i = i" and "code_pos fixed_dist_lengths i = i"
  using assms by (simp_all add: canon_code_def code_pos_def fixed_dist_lengths_def)

lemma fixed_kraft: "kraft fixed_lit_lengths" "kraft fixed_dist_lengths"
proof -
  show "kraft fixed_lit_lengths"
    by (auto simp: kraft_def) (auto simp: fixed_lit_lengths_def split: if_splits)
  show "kraft fixed_dist_lengths"
    by (auto simp: kraft_def fixed_dist_lengths_def)
qed

lemma fixed_used: "i < 288 \<Longrightarrow> used fixed_lit_lengths i" "i < 32 \<Longrightarrow> used fixed_dist_lengths i"
  by (auto simp: used_def fixed_lit_lengths_nth) (simp add: fixed_dist_lengths_def)

lemma fixed_tables:
  assumes "length (table lt) = 16" "length (table dt) = 16"
    and "tinf_build_fixed_trees lt dt = (lt', dt')"
  shows "k \<le> 9 \<Longrightarrow> table lt' ! k = (if k = 7 then 24 else if k = 8 then 152 else if k = 9 then 112 else 0)"
    and "k \<le> 5 \<Longrightarrow> table dt' ! k = (if k = 5 then 32 else 0)"
  using assms by (auto simp: tinf_build_fixed_trees_def Let_def nth_list_update fill_from_nth)

lemma fixed_trees_for:
  assumes "length (table lt) = 16" "length (trans lt) = 288" "length (table dt) = 16" "length (trans dt) = 288"
    and "tinf_build_fixed_trees lt dt = (lt', dt')"
  shows "tree_for fixed_lit_lengths lt'" and "tree_for fixed_dist_lengths dt'"
    and "tree_upto 9 lt'" and "tree_upto 5 dt'"
proof -
  have l: "length (table lt') = 16" "length (trans lt') = 288" "length (table dt') = 16" "length (trans dt') = 288"
    using assms by (auto simp: tinf_build_fixed_trees_def Let_def)
  note tab = fixed_tables [OF assms(1,3,5)]
  have tr: "trans lt' ! code_pos fixed_lit_lengths i = i" if "i < 288" for i
    using that assms(2,5) by (auto simp: tinf_build_fixed_trees_def Let_def fill_from_nth fixed_lit_code_pos)
  have "k \<le> 9" if "l \<in> set fixed_lit_lengths" "k \<le> l" for k l
    using that by (auto simp: fixed_lit_lengths_def split: if_splits)
  then have "table lt' ! k = length_table fixed_lit_lengths ! k"
    if "l \<in> set fixed_lit_lengths" "k \<le> l" "0 < k" for k l
    using that tab(1) [of k] le_less_trans [of k 9 16] by simp
  then show "tree_for fixed_lit_lengths lt'"
    using l tr by (simp add: tree_for_def used_def)
  have trd: "trans dt' ! code_pos fixed_dist_lengths i = i" if "i < 32" for i
    using that assms(4,5) by (auto simp: tinf_build_fixed_trees_def Let_def fill_from_nth fixed_dist_code)
  have "k \<le> 5 \<and> l = 5" if "l \<in> set fixed_dist_lengths" "k \<le> l" for k l
    using that by (auto simp: fixed_dist_lengths_def)
  then show "tree_for fixed_dist_lengths dt'"
    using l trd tab(2) by (auto simp: tree_for_def used_def) (auto simp: fixed_dist_lengths_def)
  show "tree_upto 9 lt'" using l by (simp add: tree_upto_def tab(1))
  show "tree_upto 5 dt'" using l by (simp add: tree_upto_def tab(2))
qed

section \<open>Main properties\<close>

text \<open>C14. A tree built by tinf_build_tree from any admissible list of code lengths decodes every
  symbol from its canonical code (RFC 1951, most significant bit first), consuming just that code's
  bits of a buffer in memory.\<close>

theorem canonical_code_decodes:
  assumes "kraft ls" and "length ls \<le> 288" and "length (trans t0) = 288" and "used ls i"
    and "memory.in_bits d = canon_bits ls i @ rest" and "\<not> eof d"
  shows "\<exists>t d'. tinf_build_tree t0 ls (length ls) = Some t \<and>
    tinf_decode_symbol None t d = Some (int i, d') \<and> memory.in_bits d' = rest"
proof -
  obtain t where t: "tinf_build_tree t0 ls (length ls) = Some t" "tree_for ls t"
    using build_tree_for [of "length ls" ls t0] assms by (auto simp: kraft_def)
  show ?thesis
    using memory.decode_canonical [OF t(2) assms(1,2,4,5,6)] t(1) by metis
qed

definition no_tree :: tinf_tree where
  "no_tree = \<lparr>table = replicate 16 0, trans = replicate 288 0\<rparr>"

definition memory_uncomp :: "u8 list \<Rightarrow> nat \<Rightarrow> unit uncomp" where
  "memory_uncomp src n = \<lparr>source = src, src_env = (), tag = 0, bitcount = 0,
     dest_buf = replicate n 0, dest_start = 0, dest = 0, dest_limit = n, checksum = 0,
     checksum_type = TINF_CHKSUM_NONE, eof = False, btype = -1, bfinal = 0, curlen = 0, lzOff = 0,
     dict_ring = None, dict_size = 0, dict_idx = 0, ltree = no_tree, dtree = no_tree\<rparr>"

lemma memory_in_bits [simp]: "memory.in_bits (memory_uncomp src n) = bytes_bits src"
  by (simp add: memory.in_bits_def memory_uncomp_def)

theorem canonical_code_decodes_witness:
  "\<exists>t d'. tinf_build_tree no_tree [2, 1, 3, 3] (length [2, 1, 3, 3 :: nat]) = Some t \<and>
    tinf_decode_symbol None t (memory_uncomp [0x0b] 0) = Some (int 2, d') \<and>
    memory.in_bits d' = [True, False, False, False, False]"
proof (rule canonical_code_decodes)
  show "memory.in_bits (memory_uncomp [0x0b] 0) =
      canon_bits [2, 1, 3, 3] 2 @ [True, False, False, False, False]"
    unfolding memory_in_bits by (simp add: canon_bits_def canon_code_def byte_bits_def nat_bits_numeral length_table_def)
qed (simp_all add: kraft_def length_table_def used_def no_tree_def memory_uncomp_def)

end
