(* ===== verification/Tinf_Inflate.thy ===== *)
theory Tinf_Inflate
  imports Tinf_Tree
begin

text \<open>
  The block decoder and the public entry points of uzlib/src/tinflate.c: tinf_inflate_block_data,
  tinf_inflate_uncompressed_block, uzlib_uncompress, uzlib_uncompress_chksum.
\<close>

section \<open>One byte of a compressed block\<close>

text \<open>
  The first half of tinf_inflate_block_data (\<open>d->curlen == 0\<close>): \<open>Inl\<close> is a return with that code,
  \<open>Inr\<close> goes on to copy a byte of the match.
\<close>

definition tinf_inflate_symbol :: "'e read_cb \<Rightarrow> 'e uncomp \<Rightarrow> ((int \<times> 'e uncomp) + 'e uncomp) option" where
  "tinf_inflate_symbol rs d = do {
     (symb, d) \<leftarrow> tinf_decode_symbol rs (ltree d) d;
     if eof d then Some (Inl (TINF_DATA_ERROR, d))
     else if symb < 256 then do { d \<leftarrow> TINF_PUT (of_int symb) d; Some (Inl (TINF_OK, d)) }
     else if symb = 256 then Some (Inl (TINF_DONE, d))
     else (let symb = symb - 257 in
       if 29 \<le> symb then Some (Inl (TINF_DATA_ERROR, d))
       else do {
         lbits \<leftarrow> fetch_int length_bits symb;
         lbase \<leftarrow> fetch_int length_base symb;
         let (len, d) = tinf_read_bits rs lbits lbase d;
         let d = d\<lparr>curlen := len\<rparr>;
         (dist, d) \<leftarrow> tinf_decode_symbol rs (dtree d) d;
         if 30 \<le> dist then Some (Inl (TINF_DATA_ERROR, d))
         else do {
           dbits \<leftarrow> fetch_int dist_bits dist;
           dbase \<leftarrow> fetch_int dist_base dist;
           let (offs, d) = tinf_read_bits rs dbits dbase d;
           (case dict_ring d of
              Some ring \<Rightarrow>
                if dict_size d < offs then Some (Inl (TINF_DICT_ERROR, d))
                else (let off = int (dict_idx d) - int offs;
                          off = (if off < 0 then off + int (dict_size d) else off)
                      in Some (Inr (d\<lparr>lzOff := off\<rparr>)))
            | None \<Rightarrow>
                if int (dest d) - int (dest_start d) < int offs then Some (Inl (TINF_DATA_ERROR, d))
                else Some (Inr (d\<lparr>lzOff := - int offs\<rparr>)))
         }
       })
   }"

text \<open>The second half: copy the next byte of the match.\<close>

definition tinf_copy_byte :: "'e uncomp \<Rightarrow> (int \<times> 'e uncomp) option" where
  "tinf_copy_byte d =
     (case dict_ring d of
        Some ring \<Rightarrow> do {
          c \<leftarrow> fetch_int ring (lzOff d);
          d \<leftarrow> TINF_PUT c d;
          let off = lzOff d + 1;
          let off = (if off = int (dict_size d) then 0 else off);
          Some (TINF_OK, d\<lparr>lzOff := off, curlen := curlen d - 1\<rparr>)
        }
      | None \<Rightarrow> do {
          c \<leftarrow> fetch_int (dest_buf d) (int (dest d) + lzOff d);
          buf \<leftarrow> store (dest_buf d) (dest d) c;
          Some (TINF_OK, d\<lparr>dest_buf := buf, dest := dest d + 1, curlen := curlen d - 1\<rparr>)
        })"

definition tinf_inflate_block_data :: "'e read_cb \<Rightarrow> 'e uncomp \<Rightarrow> (int \<times> 'e uncomp) option" where
  "tinf_inflate_block_data rs d =
     (if curlen d = 0 then
        (case tinf_inflate_symbol rs d of
           None \<Rightarrow> None
         | Some (Inl r) \<Rightarrow> Some r
         | Some (Inr d) \<Rightarrow> tinf_copy_byte d)
      else tinf_copy_byte d)"

section \<open>One byte of a stored block\<close>

definition tinf_inflate_uncompressed_block :: "'e read_cb \<Rightarrow> 'e uncomp \<Rightarrow> (int \<times> 'e uncomp) option" where
  "tinf_inflate_uncompressed_block rs d =
     (let header =
        (if curlen d = 0 then
           (let (l0, d) = uzlib_get_byte rs d;
                (l1, d) = uzlib_get_byte rs d;
                len = unat l0 + 256 * unat l1;
                (i0, d) = uzlib_get_byte rs d;
                (i1, d) = uzlib_get_byte rs d;
                invlength = (of_nat (unat i0 + 256 * unat i1) :: u32)
            in if (of_nat len :: u32) \<noteq> NOT invlength AND 0x0000ffff then Inl (TINF_DATA_ERROR, d)
               else Inr (d\<lparr>curlen := len + 1, bitcount := 0\<rparr>))
         else Inr d)
      in case header of
           Inl r \<Rightarrow> Some r
         | Inr d \<Rightarrow>
             (let d = d\<lparr>curlen := curlen d - 1\<rparr> in
              if curlen d = 0 then Some (TINF_DONE, d)
              else (case uzlib_get_byte rs d of (c, d) \<Rightarrow>
                      do { d \<leftarrow> TINF_PUT c d; Some (TINF_OK, d) })))"

section \<open>uzlib_uncompress\<close>

text \<open>The code at label next_blk: read a block header and its trees.\<close>

definition tinf_start_block :: "'e read_cb \<Rightarrow> 'e uncomp \<Rightarrow> (int \<times> 'e uncomp) option" where
  "tinf_start_block rs d =
     (let (fin, d) = tinf_getbit rs d;
          d = d\<lparr>bfinal := fin\<rparr>;
          (typ, d) = tinf_read_bits rs 2 0 d;
          d = d\<lparr>btype := int typ\<rparr>
      in if btype d = 1 then
           (case tinf_build_fixed_trees (ltree d) (dtree d) of (lt, dt) \<Rightarrow>
              Some (TINF_OK, d\<lparr>ltree := lt, dtree := dt\<rparr>))
         else if btype d = 2 then tinf_decode_trees rs d
         else Some (TINF_OK, d))"

text \<open>The \<open>switch (d->btype)\<close>: produce at most one byte of the current block.\<close>

definition tinf_process_block :: "'e read_cb \<Rightarrow> 'e uncomp \<Rightarrow> (int \<times> 'e uncomp) option" where
  "tinf_process_block rs d =
     (if btype d = 0 then tinf_inflate_uncompressed_block rs d
      else if btype d = 1 \<or> btype d = 2 then tinf_inflate_block_data rs d
      else Some (TINF_DATA_ERROR, d))"

text \<open>
  The do-while loop; \<open>newblk\<close> says that control is at next_blk.  The loop need not end when a
  callback supplies empty blocks forever, so it takes fuel; \<open>None\<close> is an access outside an object
  or fuel that ran out.
\<close>

fun uzlib_uncompress_loop :: "nat \<Rightarrow> 'e read_cb \<Rightarrow> bool \<Rightarrow> 'e uncomp \<Rightarrow> (int \<times> 'e uncomp) option" where
  "uzlib_uncompress_loop 0 rs newblk d = None"
| "uzlib_uncompress_loop (Suc fuel) rs newblk d = do {
     (res, d) \<leftarrow> (if newblk then tinf_start_block rs d else Some (TINF_OK, d));
     if res \<noteq> TINF_OK then Some (res, d)
     else do {
       (res, d) \<leftarrow> tinf_process_block rs d;
       if res = TINF_DONE \<and> bfinal d = 0 then uzlib_uncompress_loop fuel rs True d
       else if res \<noteq> TINF_OK then Some (res, d)
       else if dest d < dest_limit d then uzlib_uncompress_loop fuel rs (btype d = -1) d
       else Some (TINF_OK, d)
     }
   }"

definition uzlib_uncompress :: "nat \<Rightarrow> 'e read_cb \<Rightarrow> 'e uncomp \<Rightarrow> (int \<times> 'e uncomp) option" where
  "uzlib_uncompress fuel rs d = uzlib_uncompress_loop fuel rs (btype d = -1) d"

section \<open>uzlib_uncompress_chksum\<close>

definition uzlib_uncompress_chksum :: "nat \<Rightarrow> 'e read_cb \<Rightarrow> 'e uncomp \<Rightarrow> (int \<times> 'e uncomp) option" where
  "uzlib_uncompress_chksum fuel rs d0 = do {
     (res, d) \<leftarrow> uzlib_uncompress fuel rs d0;
     if res < 0 then Some (res, d)
     else (
       let data = drop (dest d0) (take (dest d) (dest_buf d));
           d = (if checksum_type d = TINF_CHKSUM_ADLER then d\<lparr>checksum := uzlib_adler32 data (checksum d)\<rparr>
                else if checksum_type d = TINF_CHKSUM_CRC then d\<lparr>checksum := uzlib_crc32 data (checksum d)\<rparr>
                else d)
       in if res = TINF_DONE then
            (if checksum_type d = TINF_CHKSUM_ADLER then
               (case tinf_get_be_uint32 rs d of (val, d) \<Rightarrow>
                  if checksum d \<noteq> val then Some (TINF_CHKSUM_ERROR, d) else Some (res, d))
             else if checksum_type d = TINF_CHKSUM_CRC then
               (case tinf_get_le_uint32 rs d of (val, d) \<Rightarrow>
                  if NOT (checksum d) \<noteq> val then Some (TINF_CHKSUM_ERROR, d)
                  else (case tinf_get_le_uint32 rs d of (val, d) \<Rightarrow> Some (res, d)))
             else Some (res, d))
          else Some (res, d))
   }"

end
