(* ===== verification/Tinf_Safety.thy ===== *)
theory Tinf_Safety
  imports Tinf_Inflate
begin

text \<open>
  Memory safety of uzlib/src/tinflate.c: what the input routines may change (\<open>input_frame\<close>), the
  trees a dynamic block builds are well formed whatever the input, every write of the decoder is to
  the next output byte (\<open>wrote\<close>), the state invariant \<open>uncomp_ok\<close> is kept, and the one read that
  leaves its table (\<open>dist_fault\<close>).
\<close>


section \<open>What the input routines may change\<close>

definition input_frame :: "'e uncomp \<Rightarrow> 'e uncomp \<Rightarrow> bool" where
  "input_frame d d' \<longleftrightarrow> d' = d\<lparr>source := source d', src_env := src_env d', tag := tag d',
     bitcount := bitcount d', eof := eof d'\<rparr>"

lemma input_frame_refl [intro, simp]: "input_frame d d"
  by (simp add: input_frame_def)

lemma input_frameI [intro]:
  "input_frame d (d\<lparr>source := s, src_env := e, tag := t, bitcount := n, eof := f\<rparr>)"
  "input_frame d (d\<lparr>source := s\<rparr>)" "input_frame d (d\<lparr>eof := f\<rparr>)" "input_frame d (d\<lparr>tag := t\<rparr>)"
  "input_frame d (d\<lparr>bitcount := n\<rparr>)"
  by (simp_all add: input_frame_def)

lemma input_frameE [elim]:
  assumes "input_frame d d'"
  obtains s e t n f where "d' = d\<lparr>source := s, src_env := e, tag := t, bitcount := n, eof := f\<rparr>"
  using assms unfolding input_frame_def by blast

lemma input_frame_trans [trans]: "input_frame a b \<Longrightarrow> input_frame b c \<Longrightarrow> input_frame a c"
  by (elim input_frameE) auto

lemma input_frame_fields:
  assumes "input_frame d d'"
  shows "dest_buf d' = dest_buf d" "dest_start d' = dest_start d" "dest d' = dest d"
    "dest_limit d' = dest_limit d" "checksum d' = checksum d" "checksum_type d' = checksum_type d"
    "btype d' = btype d" "bfinal d' = bfinal d" "curlen d' = curlen d"
    "lzOff d' = lzOff d" "dict_ring d' = dict_ring d" "dict_size d' = dict_size d"
    "dict_idx d' = dict_idx d" "ltree d' = ltree d" "dtree d' = dtree d"
  using assms by (auto elim!: input_frameE)

text \<open>A read callback that, like uzlib_flash_read_cb, leaves the output side and the trees alone.\<close>

definition cb_frame :: "'e read_cb \<Rightarrow> bool" where
  "cb_frame rs \<longleftrightarrow> (\<forall>f. rs = Some f \<longrightarrow> (\<forall>d. input_frame d (snd (f d))))"

lemma cb_frame_None [simp]: "cb_frame None"
  by (simp add: cb_frame_def)

lemma get_byte_frame: "cb_frame rs \<Longrightarrow> uzlib_get_byte rs d = (b, d') \<Longrightarrow> input_frame d d'"
proof -
  assume cb: "cb_frame rs" and g: "uzlib_get_byte rs d = (b, d')"
  have f: "input_frame d (snd (f d))" if "rs = Some f" for f
    using cb that by (simp add: cb_frame_def)
  show ?thesis
    using g f by (auto simp: uzlib_get_byte_def split: list.splits option.splits if_splits prod.splits
      intro: input_frame_trans)
qed

lemma getbit_frame:
  assumes "cb_frame rs" and "tinf_getbit rs d = (b, d')"
  shows "input_frame d d'"
proof -
  obtain c d1 where g: "uzlib_get_byte rs d = (c, d1)" by fastforce
  show ?thesis
    using assms(2) g get_byte_frame [OF assms(1) g]
    by (auto simp: tinf_getbit_def Let_def split: if_splits elim!: input_frameE) (auto simp: input_frame_def)
qed

lemma read_bits_loop_frame:
  assumes "cb_frame rs" and "tinf_read_bits_loop rs n m v d = (w, d')"
  shows "input_frame d d' \<and> v \<le> w \<and> w + m \<le> v + m * 2 ^ n"
  using assms(2)
proof (induction n arbitrary: m v d)
  case (Suc n)
  obtain b d1 where g: "tinf_getbit rs d = (b, d1)" by fastforce
  let ?v = "if b \<noteq> 0 then v + m else v"
  have "input_frame d1 d' \<and> ?v \<le> w \<and> w + 2 * m \<le> ?v + 2 * m * 2 ^ n"
    using Suc.IH [of "2 * m" ?v d1] Suc.prems g by simp
  then show ?case
    using input_frame_trans [OF getbit_frame [OF assms(1) g]] by (auto split: if_splits)
qed simp

lemma read_bits_frame:
  assumes "cb_frame rs" and "tinf_read_bits rs n base d = (w, d')"
  shows "input_frame d d'" and "base \<le> w" and "w < base + 2 ^ n"
  using read_bits_loop_frame [OF assms(1), of n 1 0 d] assms(2)
  by (auto simp: tinf_read_bits_def split: prod.splits)

lemma decode_loop_frame:
  assumes "cb_frame rs" and "tinf_decode_loop rs t sm cur len d = Some (s, d')"
  shows "input_frame d d'"
  using assms(2)
proof (induction "15 - len" arbitrary: len sm cur d rule: less_induct)
  case less
  obtain b d1 where g: "tinf_getbit rs d = (b, d1)" by fastforce
  show ?case
    using less.prems less.hyps [of "Suc len"] getbit_frame [OF assms(1) g] g
    by (subst (asm) tinf_decode_loop.simps)
      (auto simp: Let_def split: if_splits bind_splits intro: input_frame_trans)
qed

lemma decode_symbol_frame:
  "cb_frame rs \<Longrightarrow> tinf_decode_symbol rs t d = Some (s, d') \<Longrightarrow> input_frame d d'"
  unfolding tinf_decode_symbol_def by (rule decode_loop_frame)


section \<open>Dynamic trees are well formed\<close>

text \<open>The arrays of both trees have their C sizes.\<close>

definition tree_sizes :: "tinf_tree \<Rightarrow> bool" where
  "tree_sizes t \<longleftrightarrow> length (table t) = 16 \<and> length (trans t) = 288"

lemma length_clcidx: "length clcidx = 19" "\<forall>c \<in> set clcidx. c < 19"
  by (auto simp: clcidx_def)

lemma read_clens_total:
  assumes "cb_frame rs" and "i + n \<le> 19" and "length ls = 19" and "\<forall>l \<in> set ls. l < 8"
  shows "\<exists>ls' d'. tinf_read_clens rs n i ls d = Some (ls', d') \<and> length ls' = 19 \<and>
    (\<forall>l \<in> set ls'. l < 8) \<and> input_frame d d'"
  using assms(2-4)
proof (induction n arbitrary: i ls d)
  case (Suc n)
  obtain c d1 where g: "tinf_read_bits rs 3 0 d = (c, d1)" by fastforce
  note f = read_bits_frame [OF assms(1) g]
  have k: "clcidx ! i < 19" using Suc.prems length_clcidx by simp
  have "\<forall>l \<in> set (ls[clcidx ! i := c]). l < 8"
    using Suc.prems f(3) by (auto dest!: subsetD [OF set_update_subset_insert])
  then show ?case
    using Suc.IH [of "Suc i" "ls[clcidx ! i := c]" d1] Suc.prems g f(1) k
    by (auto simp: access_simps length_clcidx intro: input_frame_trans)
qed auto

text \<open>Every position below the number of codes holds a symbol of the alphabet.\<close>

lemma code_pos_onto:
  assumes "\<forall>l \<in> set ls. l < 16"
  shows "code_pos ls ` {i. used ls i} = {..<code_sum (length_table ls) 15}"
proof (rule card_subset_eq)
  have b: "code_pos ls i < code_sum (length_table ls) 15" if "used ls i" for i
  proof -
    have l: "ls ! i < 16" using that assms by (simp add: used_def)
    have "code_pos ls i < code_sum (length_table ls) (ls ! i)"
      using code_pos_bounds(2) [of i ls] that l by (simp add: used_def)
    also have "\<dots> \<le> code_sum (length_table ls) 15" using l by (intro code_sum_mono) simp
    finally show ?thesis .
  qed
  then show "code_pos ls ` {i. used ls i} \<subseteq> {..<code_sum (length_table ls) 15}" by auto
  have inj: "inj_on (code_pos ls) {i. used ls i}"
  proof (rule inj_onI, rule ccontr)
    fix i j assume u: "i \<in> {i. used ls i}" "j \<in> {i. used ls i}"
      and eq: "code_pos ls i = code_pos ls j" and "i \<noteq> j"
    then have "i < j \<or> j < i" by linarith
    then show False
      using code_pos_distinct [of i j ls] code_pos_distinct [of j i ls] u eq assms
      by (simp add: used_def) (metis nth_mem)
  qed
  have "code_sum (length_table ls) k = length (filter (\<lambda>l. 0 < l \<and> l \<le> k) ls)" if "k < 16" for k
    using that
  proof (induction k)
    case (Suc k)
    have "length (filter (\<lambda>l. 0 < l \<and> l \<le> Suc k) ls) =
        length (filter (\<lambda>l. 0 < l \<and> l \<le> k) ls) + count_list ls (Suc k)"
      by (induction ls) (auto simp: le_Suc_eq)
    then show ?case using Suc by simp
  qed (auto simp: filter_empty_conv)
  from this [of 15] have "code_sum (length_table ls) 15 = length (filter (\<lambda>l. 0 < l \<and> l \<le> 15) ls)" by simp
  also have "filter (\<lambda>l. 0 < l \<and> l \<le> 15) ls = filter (\<lambda>l. 0 < l) ls"
    using assms by (intro filter_cong) auto
  also have "length \<dots> = card {i. used ls i}"
    by (simp add: length_filter_conv_card used_def)
  finally show "card (code_pos ls ` {i. used ls i}) = card {..<code_sum (length_table ls) 15}"
    by (simp add: card_image [OF inj])
qed simp

lemma tree_for_symbols:
  assumes "tree_for ls t" and "\<forall>l \<in> set ls. l < 16" and "p < code_sum (length_table ls) 15"
  shows "used ls (trans t ! p)"
proof -
  from assms(3) code_pos_onto [OF assms(2)] obtain i where "used ls i" "p = code_pos ls i" by blast
  then show ?thesis using assms(1) by (simp add: tree_for_def)
qed

lemma push_lengths_total:
  "length ls + n \<le> 320 \<Longrightarrow> push_lengths ls n v = Some (ls @ replicate n (v mod 256))"
  by (simp add: push_lengths_def)

lemma decode_lengths_total:
  assumes "cb_frame rs" and "tree_upto 15 lt" and "\<forall>p < code_sum (table lt) 15. trans lt ! p < 19"
    and "hlimit \<le> 320" and "length ls \<le> hlimit" and "\<forall>l \<in> set ls. l < 16"
  shows "\<exists>res ls' d'. tinf_decode_lengths rs lt hlimit ls d = Some (res, ls', d') \<and> input_frame d d' \<and>
    (\<forall>l \<in> set ls'. l < 16) \<and> (res = TINF_OK \<and> length ls' = hlimit \<or> res = TINF_DATA_ERROR)"
  using assms(5,6)
proof (induction "hlimit - length ls" arbitrary: ls d rule: less_induct)
  case less
  obtain symb d1 where s: "tinf_decode_symbol rs lt d = Some (symb, d1)"
      "symb = TINF_DATA_ERROR \<or> (\<exists>i < code_sum (table lt) 15. symb = int (trans lt ! i))"
    using decode_symbol_upto [OF assms(2)] by metis
  note f1 = decode_symbol_frame [OF assms(1) s(1)]
  define rest where "rest = (\<lambda>n v d. case push_lengths ls n v of None \<Rightarrow> None
      | Some ls' \<Rightarrow> tinf_decode_lengths rs lt hlimit ls' d)"
  have rest: "\<exists>res ls' d'. rest n v d2 = Some (res, ls', d') \<and> input_frame d d' \<and>
      (\<forall>l \<in> set ls'. l < 16) \<and> (res = TINF_OK \<and> length ls' = hlimit \<or> res = TINF_DATA_ERROR)"
    if "0 < n" "length ls + n \<le> hlimit" "v < 16" "input_frame d d2" for n v d2
  proof -
    have p: "push_lengths ls n v = Some (ls @ replicate n v)"
      using that assms(4) by (simp add: push_lengths_total)
    have "\<forall>l \<in> set (ls @ replicate n v). l < 16" using less.prems that(3) by auto
    moreover have "hlimit - (length ls + n) < hlimit - length ls" using that by linarith
    ultimately have "\<exists>res ls' d'. tinf_decode_lengths rs lt hlimit (ls @ replicate n v) d2 = Some (res, ls', d') \<and>
        input_frame d2 d' \<and> (\<forall>l \<in> set ls'. l < 16) \<and>
        (res = TINF_OK \<and> length ls' = hlimit \<or> res = TINF_DATA_ERROR)"
      using less.hyps [of "ls @ replicate n v" d2] that(2) by simp
    then show ?thesis
      using that(4) by (auto simp: rest_def p intro: input_frame_trans)
  qed
  show ?case
  proof (cases "length ls < hlimit")
    case False
    then show ?thesis using less.prems by (subst tinf_decode_lengths.simps) auto
  next
    case lt: True
    define fv where "fv = (if symb = 16 then last ls else 0)"
    define lb where "lb = (if symb = 16 then 2 else if symb = 17 then 3 else 7 :: nat)"
    define base where "base = (if symb = 18 then 11 else 3 :: nat)"
    obtain len d2 where r: "tinf_read_bits rs lb base d1 = (len, d2)" by fastforce
    note f2 = read_bits_frame [OF assms(1) r]
    have u: "tinf_decode_lengths rs lt hlimit ls d =
      (if symb < 0 then Some (symb, ls, d1)
       else if symb = 16 \<and> ls = [] then Some (TINF_DATA_ERROR, ls, d1)
       else if symb = 16 \<or> symb = 17 \<or> symb = 18 then
         if hlimit < length ls + len then Some (TINF_DATA_ERROR, ls, d2) else rest len fv d2
       else rest 1 (nat symb) d1)"
      using lt s(1) r by (subst tinf_decode_lengths.simps)
        (simp add: rest_def fv_def lb_def base_def Let_def cong: if_cong)
    show ?thesis
    proof (cases "symb = TINF_DATA_ERROR")
      case True
      then show ?thesis unfolding u using f1 less.prems by (auto simp: TINF_DATA_ERROR_def)
    next
      case False
      with s(2) assms(3) have sy: "0 \<le> symb" "symb < 19" by auto
      have fv: "fv < 16" if "\<not> (symb = 16 \<and> ls = [])"
        using less.prems(2) that by (auto simp: fv_def)
      have len: "0 < len" using f2(2) by (auto simp: base_def split: if_splits)
      have e2: "input_frame d d2" using f1 f2(1) by (rule input_frame_trans)
      show ?thesis
        unfolding u
        using sy fv rest [of len fv d2] rest [of 1 "nat symb" d1] len e2 f1 less.prems(2) lt
        by (cases "symb = 16 \<or> symb = 17 \<or> symb = 18") (auto simp: not_less)
    qed
  qed
qed

lemma build_tree_total:
  assumes "num \<le> length lengths" and "\<forall>l \<in> set (take num lengths). l < 16"
    and "num \<le> 288" and "tree_sizes t"
  shows "\<exists>t'. tinf_build_tree t lengths num = Some t' \<and> tree_upto 15 t'"
  using build_tree_for [OF assms(1-3), of t] assms(4) unfolding tree_sizes_def by metis

lemma tree_upto_15: "tree_upto 15 t \<Longrightarrow> tree_ok t \<and> tree_sizes t"
  by (auto simp: tree_ok_def tree_sizes_def tree_upto_def simp del: code_numeral)

text \<open>The header of a dynamic block never makes the decoder leave an object, whatever the input.\<close>

lemma decode_trees_total:
  assumes "cb_frame rs" and "tree_sizes (ltree d)" and "tree_sizes (dtree d)"
  obtains res d' lt dt where "tinf_decode_trees rs d = Some (res, d')"
    and "input_frame (d\<lparr>ltree := lt, dtree := dt\<rparr>) d'" and "tree_sizes lt" and "tree_sizes dt"
    and "res = TINF_OK \<and> tree_ok lt \<and> tree_ok dt \<or> res = TINF_DATA_ERROR"
proof -
  obtain hlit d1 where r1: "tinf_read_bits rs 5 257 d = (hlit, d1)" by fastforce
  obtain hdist d2 where r2: "tinf_read_bits rs 5 1 d1 = (hdist, d2)" by fastforce
  obtain hclen d3 where r3: "tinf_read_bits rs 4 4 d2 = (hclen, d3)" by fastforce
  note f1 = read_bits_frame [OF assms(1) r1] and f2 = read_bits_frame [OF assms(1) r2]
    and f3 = read_bits_frame [OF assms(1) r3]
  have d3: "input_frame d d3" using f1(1) f2(1) f3(1) by (blast intro: input_frame_trans)
  obtain ls d4 where c: "tinf_read_clens rs hclen 0 (replicate 19 0) d3 = Some (ls, d4)"
    "length ls = 19" "\<forall>l \<in> set ls. l < 8" "input_frame d3 d4"
    using read_clens_total [OF assms(1), of 0 hclen "replicate 19 0" d3] f3 by auto
  have d4: "input_frame d d4" using d3 c(4) by (rule input_frame_trans)
  have t4: "ltree d4 = ltree d" "dtree d4 = dtree d" using d4 by (simp_all add: input_frame_fields)
  have ls16: "\<forall>l \<in> set ls. l < 16" using c(3) by fastforce
  obtain lt1 where lt1: "tinf_build_tree (ltree d4) ls 19 = Some lt1" "tree_for ls lt1"
      "tree_upto 15 lt1" "table lt1 = length_table ls"
    using build_tree_for [of 19 ls "ltree d4"] c(2) ls16 assms(2) t4 by (auto simp: tree_sizes_def)
  have sym19: "\<forall>p < code_sum (table lt1) 15. trans lt1 ! p < 19"
    using tree_for_symbols [OF lt1(2) ls16] lt1(4) c(2) by (auto simp: used_def)
  obtain res ls2 d5 where l: "tinf_decode_lengths rs lt1 (hlit + hdist) [] (d4\<lparr>ltree := lt1\<rparr>) = Some (res, ls2, d5)"
    "input_frame (d4\<lparr>ltree := lt1\<rparr>) d5" "\<forall>l \<in> set ls2. l < 16"
    "res = TINF_OK \<and> length ls2 = hlit + hdist \<or> res = TINF_DATA_ERROR"
    using decode_lengths_total [OF assms(1) lt1(3) sym19, of "hlit + hdist" "[]" "d4\<lparr>ltree := lt1\<rparr>"] f1 f2
    by auto
  have d5: "input_frame (d\<lparr>ltree := lt1\<rparr>) d5"
    using d4 l(2) by (elim input_frameE) (auto simp: input_frame_def)
  have s1: "tree_sizes lt1" using lt1(3) by (simp add: tree_sizes_def tree_upto_def)
  have u: "tinf_decode_trees rs d = (if res \<noteq> TINF_OK then Some (res, d5) else do {
          lt \<leftarrow> tinf_build_tree (ltree d5) ls2 hlit;
          dt \<leftarrow> tinf_build_tree (dtree d5) (drop hlit ls2) hdist;
          Some (TINF_OK, d5\<lparr>ltree := lt, dtree := dt\<rparr>) })"
    by (simp add: tinf_decode_trees_def r1 r2 r3 c(1) lt1(1) l(1) Let_def del: One_nat_def)
  show ?thesis
  proof (cases "res = TINF_OK")
    case False
    have "input_frame (d\<lparr>ltree := lt1, dtree := dtree d\<rparr>) d5"
      using d5 by (simp add: input_frame_def)
    then show ?thesis
      using that [of res d5 "dtree d" lt1] u False l(4) s1 assms(3) by simp
  next
    case True
    then have len: "length ls2 = hlit + hdist" using l(4) by (auto simp: tinf_codes)
    have t5: "ltree d5 = lt1" "dtree d5 = dtree d" using d5 by (simp_all add: input_frame_fields)
    have h: "hlit \<le> 288" "hdist \<le> 288" using f1 f2 by simp_all
    have sub: "\<forall>l \<in> set (take hlit ls2). l < 16" "\<forall>l \<in> set (take hdist (drop hlit ls2)). l < 16"
      using l(3) by (auto dest: in_set_takeD in_set_dropD)
    obtain lt2 where lt2: "tinf_build_tree (ltree d5) ls2 hlit = Some lt2" "tree_upto 15 lt2"
      using build_tree_total [of hlit ls2 "ltree d5"] len h sub s1 t5 by auto
    obtain dt2 where dt2: "tinf_build_tree (dtree d5) (drop hlit ls2) hdist = Some dt2" "tree_upto 15 dt2"
      using build_tree_total [of hdist "drop hlit ls2" "dtree d5"] len h sub assms(3) t5 by auto
    have "input_frame (d\<lparr>ltree := lt2, dtree := dt2\<rparr>) (d5\<lparr>ltree := lt2, dtree := dt2\<rparr>)"
      using d5 by (elim input_frameE, hypsubst, simp add: input_frame_def)
    then show ?thesis
      using that [of TINF_OK _ dt2 lt2] u True lt2(1) dt2(1) tree_upto_15 [OF lt2(2)] tree_upto_15 [OF dt2(2)]
      by simp
  qed
qed

section \<open>Output stays inside its buffers\<close>

text \<open>
  The state between two bytes: the pointers are ordered and inside the buffer, the ring has its size,
  and a match under way (\<open>curlen\<close> in a compressed block) reads inside the window.
\<close>

definition match_ok :: "'e uncomp \<Rightarrow> bool" where
  "match_ok d \<longleftrightarrow>
     (case dict_ring d of
        Some ring \<Rightarrow> 0 \<le> lzOff d \<and> lzOff d < int (dict_size d)
      | None \<Rightarrow> lzOff d \<le> 0 \<and> int (dest_start d) \<le> int (dest d) + lzOff d)"

definition output_ok :: "'e uncomp \<Rightarrow> bool" where
  "output_ok d \<longleftrightarrow> dest_start d \<le> dest d \<and> dest d \<le> dest_limit d \<and> dest_limit d \<le> length (dest_buf d) \<and>
     (\<forall>ring. dict_ring d = Some ring \<longrightarrow> length ring = dict_size d \<and> dict_idx d < dict_size d)"

definition uncomp_ok :: "'e uncomp \<Rightarrow> bool" where
  "uncomp_ok d \<longleftrightarrow> output_ok d \<and> tree_sizes (ltree d) \<and> tree_sizes (dtree d) \<and>
     (btype d = 1 \<or> btype d = 2 \<longrightarrow> tree_ok (ltree d) \<and> tree_ok (dtree d) \<and>
        (curlen d \<noteq> 0 \<longrightarrow> match_ok d))"

text \<open>From \<open>d\<close> to \<open>d'\<close> only the bytes from \<open>dest d\<close> up to \<open>dest d'\<close> of the output were written.\<close>

definition wrote :: "'e uncomp \<Rightarrow> 'e uncomp \<Rightarrow> bool" where
  "wrote d d' \<longleftrightarrow> dest_start d' = dest_start d \<and> dest_limit d' = dest_limit d \<and> dict_size d' = dict_size d \<and>
     length (dest_buf d') = length (dest_buf d) \<and> dest d \<le> dest d' \<and>
     (\<forall>i. i < dest d \<or> dest d' \<le> i \<longrightarrow> dest_buf d' ! i = dest_buf d ! i)"

lemma wrote_refl [simp, intro]: "wrote d d"
  by (simp add: wrote_def)

lemma wrote_trans [trans]: "wrote a b \<Longrightarrow> wrote b c \<Longrightarrow> wrote a c"
  by (auto simp: wrote_def)

lemma wrote_input_frame: "input_frame d d' \<Longrightarrow> wrote d d'"
  by (auto simp: wrote_def input_frame_fields)

lemma ok_input_frame:
  assumes "input_frame d d'"
  shows "output_ok d' = output_ok d" "match_ok d' = match_ok d" "uncomp_ok d' = uncomp_ok d"
  unfolding output_ok_def match_ok_def uncomp_ok_def input_frame_fields [OF assms] by (rule refl)+

lemma put_ok:
  assumes "output_ok d" and "dest d < dest_limit d"
  shows "\<exists>ring i. TINF_PUT c d =
      Some (d\<lparr>dest_buf := (dest_buf d)[dest d := c], dest := dest d + 1, dict_ring := ring, dict_idx := i\<rparr>) \<and>
    output_ok (d\<lparr>dest_buf := (dest_buf d)[dest d := c], dest := dest d + 1, dict_ring := ring, dict_idx := i\<rparr>) \<and>
    (ring = None \<longleftrightarrow> dict_ring d = None)"
proof (cases "dict_ring d")
  case None
  have "dest d < length (dest_buf d)" using assms by (simp add: output_ok_def)
  then have "TINF_PUT c d = Some (d\<lparr>dest_buf := (dest_buf d)[dest d := c], dest := dest d + 1,
      dict_ring := None, dict_idx := dict_idx d\<rparr>)"
    using None by (simp add: TINF_PUT_def access_simps Let_def)
  moreover have "output_ok (d\<lparr>dest_buf := (dest_buf d)[dest d := c], dest := dest d + 1,
      dict_ring := None, dict_idx := dict_idx d\<rparr>)"
    using assms None by (simp add: output_ok_def)
  ultimately show ?thesis by (intro exI conjI) (assumption+, simp only: None)
next
  case (Some r)
  let ?i = "if dict_idx d + 1 = dict_size d then 0 else dict_idx d + 1"
  have r: "dest d < length (dest_buf d)" "length r = dict_size d" "dict_idx d < dict_size d"
    using assms Some by (simp_all add: output_ok_def)
  then have "TINF_PUT c d = Some (d\<lparr>dest_buf := (dest_buf d)[dest d := c], dest := dest d + 1,
      dict_ring := Some (r[dict_idx d := c]), dict_idx := ?i\<rparr>)"
    using Some by (simp add: TINF_PUT_def access_simps Let_def)
  moreover have "output_ok (d\<lparr>dest_buf := (dest_buf d)[dest d := c], dest := dest d + 1,
      dict_ring := Some (r[dict_idx d := c]), dict_idx := ?i\<rparr>)"
    using assms(1,2) r by (simp add: output_ok_def)
  ultimately show ?thesis by (intro exI conjI) (assumption+, simp only: Some, simp)
qed

text \<open>A literal or a stored byte is written at \<open>dest\<close>; nothing else of the output changes.\<close>

lemma put_uncomp_ok:
  assumes "uncomp_ok d" and "dest d < dest_limit d" and "btype d = 1 \<or> btype d = 2 \<Longrightarrow> curlen d = 0"
  obtains d' where "TINF_PUT c d = Some d'" and "uncomp_ok d'" and "wrote d d'"
    and "dest d' = dest d + 1" and "btype d' = btype d" and "bfinal d' = bfinal d"
    and "source d' = source d" and "bitcount d' = bitcount d" and "eof d' = eof d"
proof -
  have "output_ok d" using assms(1) by (simp add: uncomp_ok_def)
  then obtain buf ring i where p: "TINF_PUT c d = Some (d\<lparr>dest_buf := buf, dest := dest d + 1, dict_ring := ring, dict_idx := i\<rparr>)"
    "output_ok (d\<lparr>dest_buf := buf, dest := dest d + 1, dict_ring := ring, dict_idx := i\<rparr>)"
    "buf = (dest_buf d)[dest d := c]"
    using put_ok [of d c] assms(2) by blast
  show ?thesis
    by (rule that [OF p(1)]) (use p(2,3) assms in \<open>auto simp: uncomp_ok_def wrote_def\<close>)
qed

lemma copy_byte_ok:
  assumes "uncomp_ok d" and "dest d < dest_limit d" and "match_ok d" and "btype d = 1 \<or> btype d = 2"
  obtains d' where "tinf_copy_byte d = Some (TINF_OK, d')" and "uncomp_ok d'" and "wrote d d'"
    and "dest d' = dest d + 1" and "btype d' = btype d" and "bfinal d' = bfinal d"
    and "source d' = source d" and "bitcount d' = bitcount d" and "eof d' = eof d"
proof (cases "dict_ring d")
  case None
  let ?c = "dest_buf d ! nat (int (dest d) + lzOff d)"
  have r: "0 \<le> int (dest d) + lzOff d" "nat (int (dest d) + lzOff d) < length (dest_buf d)"
    "dest d < length (dest_buf d)"
    using assms None by (auto simp: match_ok_def uncomp_ok_def output_ok_def)
  then have e: "tinf_copy_byte d = Some (TINF_OK, d\<lparr>dest_buf := (dest_buf d)[dest d := ?c],
      dest := dest d + 1, curlen := curlen d - 1\<rparr>)"
    using None by (simp add: tinf_copy_byte_def fetch_int_def access_simps Let_def)
  show ?thesis
    by (rule that [OF e]) (use assms None in \<open>auto simp: uncomp_ok_def output_ok_def match_ok_def wrote_def\<close>)
next
  case (Some ring)
  have o: "output_ok d" using assms(1) by (simp add: uncomp_ok_def)
  have lz: "0 \<le> lzOff d" "lzOff d < int (dict_size d)" "length ring = dict_size d"
    using assms(1,3) Some by (auto simp: match_ok_def uncomp_ok_def output_ok_def)
  have f: "fetch_int ring (lzOff d) = Some (ring ! nat (lzOff d))"
    using lz by (simp add: fetch_int_def access_simps nat_less_iff)
  let ?buf = "(dest_buf d)[dest d := ring ! nat (lzOff d)]"
  obtain ring' i where p: "TINF_PUT (ring ! nat (lzOff d)) d =
      Some (d\<lparr>dest_buf := ?buf, dest := dest d + 1, dict_ring := ring', dict_idx := i\<rparr>)"
    "output_ok (d\<lparr>dest_buf := ?buf, dest := dest d + 1, dict_ring := ring', dict_idx := i\<rparr>)"
    "ring' = None \<longleftrightarrow> dict_ring d = None"
    using put_ok [OF o assms(2), of "ring ! nat (lzOff d)"]
    by (elim exE conjE) (rule that)
  let ?off = "if lzOff d + 1 = int (dict_size d) then 0 else lzOff d + 1"
  have e: "tinf_copy_byte d = Some (TINF_OK, d\<lparr>dest_buf := ?buf, dest := dest d + 1, dict_ring := ring',
      dict_idx := i, lzOff := ?off, curlen := curlen d - 1\<rparr>)"
    using Some f p(1) by (simp add: tinf_copy_byte_def Let_def)
  show ?thesis
    by (rule that [OF e])
      (use p(2,3) Some lz assms(1,4) in \<open>auto simp: uncomp_ok_def output_ok_def match_ok_def wrote_def\<close>)
qed

section \<open>One call of the block decoders\<close>

text \<open>What holds after a block decoder returned \<open>res\<close>.\<close>

definition step_ok :: "'e uncomp \<Rightarrow> int \<Rightarrow> 'e uncomp \<Rightarrow> bool" where
  "step_ok d res d' \<longleftrightarrow> wrote d d' \<and> btype d' = btype d \<and> bfinal d' = bfinal d \<and> output_ok d' \<and>
     tree_sizes (ltree d') \<and> tree_sizes (dtree d') \<and>
     (res = TINF_OK \<longrightarrow> uncomp_ok d' \<and> dest d' = dest d + 1) \<and>
     (res = TINF_DONE \<longrightarrow> uncomp_ok d' \<and> dest d' = dest d \<and> curlen d' = 0)"

lemma step_ok_input_frame:
  assumes "input_frame d1 d" and "step_ok d res d'"
  shows "step_ok d1 res d'"
  using assms wrote_trans [OF wrote_input_frame [OF assms(1)], of d'] by (simp add: step_ok_def input_frame_fields)

lemma uncomp_okD:
  assumes "uncomp_ok d"
  shows "output_ok d" "tree_sizes (ltree d)" "tree_sizes (dtree d)"
    "btype d = 1 \<or> btype d = 2 \<Longrightarrow> tree_ok (ltree d)" "btype d = 1 \<or> btype d = 2 \<Longrightarrow> tree_ok (dtree d)"
    "btype d = 1 \<or> btype d = 2 \<Longrightarrow> curlen d \<noteq> 0 \<Longrightarrow> match_ok d"
  using assms by (simp_all add: uncomp_ok_def)

lemma step_ok_error:
  assumes "uncomp_ok d" and "input_frame (d\<lparr>curlen := n, lzOff := off\<rparr>) d'" and "res \<noteq> TINF_OK" and "res \<noteq> TINF_DONE"
  shows "step_ok d res d'"
proof -
  have "output_ok d'" using uncomp_okD(1) [OF assms(1)] by (simp add: output_ok_def input_frame_fields [OF assms(2)])
  then show ?thesis
    using assms uncomp_okD [OF assms(1)]
    by (simp add: step_ok_def input_frame_fields [OF assms(2)] wrote_def)
qed

lemmas step_ok_error0 = step_ok_error [where n = "curlen d" and off = "lzOff d" and d = d for d, simplified]

lemma base_pos: "i < 29 \<Longrightarrow> 0 < length_base ! i" "i < 30 \<Longrightarrow> 0 < dist_base ! i"
proof -
  have "\<forall>x \<in> set (take 29 length_base). 0 < x" "\<forall>x \<in> set dist_base. 0 < x"
    by (auto simp: length_base_def dist_base_def)
  then show "i < 29 \<Longrightarrow> 0 < length_base ! i" "i < 30 \<Longrightarrow> 0 < dist_base ! i"
    using length_tables by (auto simp: in_set_conv_nth)
qed

text \<open>The distance symbol that follows a length cannot be decoded.\<close>

definition dist_fault :: "'e read_cb \<Rightarrow> 'e uncomp \<Rightarrow> bool" where
  "dist_fault rs d \<longleftrightarrow> (\<exists>symb d1 i d2 len d3 d4. tinf_decode_symbol rs (ltree d) d = Some (symb, d1) \<and>
     257 \<le> symb \<and> symb < 286 \<and> i = nat (symb - 257) \<and> \<not> eof d1 \<and>
     tinf_read_bits rs (length_bits ! i) (length_base ! i) d1 = (len, d2) \<and> d3 = d2\<lparr>curlen := len\<rparr> \<and>
     tinf_decode_symbol rs (dtree d3) d3 = Some (TINF_DATA_ERROR, d4))"

lemma window_off:
  assumes "0 < offs" and "offs \<le> n" and "i < n"
  shows "0 \<le> (if int i - int offs < 0 then int i - int offs + int n else int i - int offs)"
    and "(if int i - int offs < 0 then int i - int offs + int n else int i - int offs) < int n"
  using assms by auto

text \<open>The check of a match's offset, in both modes: it is refused, or the match may be copied.\<close>

lemma match_offset_cases:
  assumes ok: "uncomp_ok d" and f: "input_frame (d\<lparr>curlen := len, lzOff := lzOff d\<rparr>) d5" and "0 < offs"
    and x: "x = (case dict_ring d5 of
        Some ring \<Rightarrow>
          if dict_size d5 < offs then Some (Inl (TINF_DICT_ERROR, d5))
          else (let off = int (dict_idx d5) - int offs;
                    off = (if off < 0 then off + int (dict_size d5) else off)
                in Some (Inr (d5\<lparr>lzOff := off\<rparr>)))
      | None \<Rightarrow>
          if int (dest d5) - int (dest_start d5) < int offs then Some (Inl (TINF_DATA_ERROR, d5))
          else Some (Inr (d5\<lparr>lzOff := - int offs\<rparr>)))"
  shows "(\<exists>res d'. x = Some (Inl (res, d')) \<and> step_ok d res d') \<or>
    (\<exists>d' n off. x = Some (Inr d') \<and> input_frame (d\<lparr>curlen := n, lzOff := off\<rparr>) d' \<and>
       match_ok d')"
proof -
  note ff = input_frame_fields [OF f, simplified]
  have err: "step_ok d TINF_DATA_ERROR d5" "step_ok d TINF_DICT_ERROR d5"
    using step_ok_error [OF ok f] by (simp_all add: tinf_codes)
  have fr: "input_frame (d\<lparr>curlen := len, lzOff := off\<rparr>) (d5\<lparr>lzOff := off\<rparr>)" for off
    using f by (elim input_frameE, hypsubst, simp add: input_frame_def)
  have outcome: ?thesis
    if "\<not> bad \<Longrightarrow> match_ok (d5\<lparr>lzOff := off\<rparr>)" "x = (if bad then Some (Inl (e, d5)) else Some (Inr (d5\<lparr>lzOff := off\<rparr>)))" "step_ok d e d5"
    for bad e off
    using that fr by (cases bad) auto
  show ?thesis
  proof (cases "dict_ring d")
    case None
    have "match_ok (d5\<lparr>lzOff := - int offs\<rparr>)" if "\<not> int (dest d5) - int (dest_start d5) < int offs"
      using that None by (simp add: match_ok_def ff)
    moreover have "x = (if int (dest d5) - int (dest_start d5) < int offs then Some (Inl (TINF_DATA_ERROR, d5))
        else Some (Inr (d5\<lparr>lzOff := - int offs\<rparr>)))" unfolding x using None by (simp add: ff)
    ultimately show ?thesis by (rule outcome [OF _ _ err(1)])
  next
    case (Some ring)
    let ?o = "int (dict_idx d5) - int offs"
    have idx: "dict_idx d5 < dict_size d5" using uncomp_okD(1) [OF ok] Some by (simp add: output_ok_def ff)
    have "match_ok (d5\<lparr>lzOff := if ?o < 0 then ?o + int (dict_size d5) else ?o\<rparr>)" if "\<not> dict_size d5 < offs"
      using window_off [OF \<open>0 < offs\<close> _ idx] that Some by (simp add: match_ok_def ff)
    moreover have "x = (if dict_size d5 < offs then Some (Inl (TINF_DICT_ERROR, d5))
        else Some (Inr (d5\<lparr>lzOff := if ?o < 0 then ?o + int (dict_size d5) else ?o\<rparr>)))"
      unfolding x using Some by (simp add: ff Let_def)
    ultimately show ?thesis by (rule outcome [OF _ _ err(2)])
  qed
qed

text \<open>A length symbol: its extra bits, the distance symbol and its extra bits, and the check of the offset.\<close>

lemma length_symbol_cases:
  assumes cb: "cb_frame rs" and ok: "uncomp_ok d" and comp: "btype d = 1 \<or> btype d = 2" and nf: "\<not> dist_fault rs d"
    and s: "tinf_decode_symbol rs (ltree d) d = Some (symb, d1)" and 5: "\<not> eof d1" "257 \<le> symb" "symb < 286"
  shows "(\<exists>res d'. tinf_inflate_symbol rs d = Some (Inl (res, d')) \<and> step_ok d res d') \<or>
    (\<exists>d' n off. tinf_inflate_symbol rs d = Some (Inr d') \<and> input_frame (d\<lparr>curlen := n, lzOff := off\<rparr>) d' \<and>
       match_ok d')"
proof -
  note k = uncomp_okD [OF ok] and f1 = decode_symbol_frame [OF cb s]
  define i where "i = nat (symb - 257)"
  have i: "symb - 257 = int i" "i < 29" using 5 by (auto simp: i_def)
  obtain len d2 where r: "tinf_read_bits rs (length_bits ! i) (length_base ! i) d1 = (len, d2)" by fastforce
  let ?d3 = "d2\<lparr>curlen := len\<rparr>"
  have f2: "input_frame d d2" using f1 read_bits_frame(1) [OF cb r] by (rule input_frame_trans)
  have "tree_ok (dtree ?d3)" using k(5) [OF comp] by (simp add: input_frame_fields [OF f2])
  then obtain dist d4 where s2: "tinf_decode_symbol rs (dtree ?d3) ?d3 = Some (dist, d4)"
    "dist = TINF_DATA_ERROR \<or> 0 \<le> dist" by (rule decode_symbol_total)
  have f4: "input_frame (d\<lparr>curlen := len\<rparr>) d4"
  proof -
    have "input_frame (d\<lparr>curlen := len\<rparr>) ?d3"
      using f2 by (elim input_frameE, hypsubst, simp add: input_frame_def)
    then show ?thesis using decode_symbol_frame [OF cb s2(1)] by (rule input_frame_trans)
  qed
  have "dist_fault rs d" if "dist = TINF_DATA_ERROR"
  proof -
    have e: "tinf_decode_symbol rs (dtree ?d3) ?d3 = Some (TINF_DATA_ERROR, d4)"
      using s2(1) that by simp
    show ?thesis
      unfolding dist_fault_def by (rule exI conjI s 5 i_def r refl e)+
  qed
  then have "dist \<noteq> TINF_DATA_ERROR" using nf by blast
  then have "0 \<le> dist" using s2(2) by blast
  then obtain j where j: "dist = int j" using nonneg_int_cases by blast
  have f4': "input_frame (d\<lparr>curlen := len, lzOff := lzOff d\<rparr>) d4" using f4 by simp
  show ?thesis
  proof (cases "30 \<le> j")
    case True
    then have "tinf_inflate_symbol rs d = Some (Inl (TINF_DATA_ERROR, d4))"
      using 5 s r s2 i j by (simp add: tinf_inflate_symbol_def access_simps length_tables)
    then show ?thesis using step_ok_error [OF ok f4', of TINF_DATA_ERROR] by (simp add: tinf_codes)
  next
    case False
    obtain offs d5 where r5: "tinf_read_bits rs (dist_bits ! j) (dist_base ! j) d4 = (offs, d5)" by fastforce
    have f5: "input_frame (d\<lparr>curlen := len, lzOff := lzOff d\<rparr>) d5"
      using f4' read_bits_frame(1) [OF cb r5] by (rule input_frame_trans)
    have "0 < offs" using read_bits_frame(2) [OF cb r5] base_pos(2) [of j] False by simp
    show ?thesis
      by (rule match_offset_cases [OF ok f5 \<open>0 < offs\<close>])
        (use 5 s r s2 i j r5 False in \<open>simp add: tinf_inflate_symbol_def access_simps length_tables\<close>)
  qed
qed

lemma inflate_symbol_cases:
  assumes cb: "cb_frame rs" and ok: "uncomp_ok d" and room: "dest d < dest_limit d"
    and comp: "btype d = 1 \<or> btype d = 2" and "curlen d = 0" and nf: "\<not> dist_fault rs d"
  shows "(\<exists>res d'. tinf_inflate_symbol rs d = Some (Inl (res, d')) \<and> step_ok d res d') \<or>
    (\<exists>d' n off. tinf_inflate_symbol rs d = Some (Inr d') \<and> input_frame (d\<lparr>curlen := n, lzOff := off\<rparr>) d' \<and>
       match_ok d')"
proof -
  note k = uncomp_okD [OF ok]
  obtain symb d1 where s: "tinf_decode_symbol rs (ltree d) d = Some (symb, d1)"
    "symb = TINF_DATA_ERROR \<or> 0 \<le> symb"
    using decode_symbol_total [OF k(4) [OF comp]] by metis
  note f1 = decode_symbol_frame [OF cb s(1)]
  consider "eof d1" | "\<not> eof d1" "symb < 256" | "\<not> eof d1" "symb = 256" | "\<not> eof d1" "286 \<le> symb"
    | "\<not> eof d1" "257 \<le> symb" "symb < 286" by linarith
  then show ?thesis
  proof cases
    case 1
    then have "tinf_inflate_symbol rs d = Some (Inl (TINF_DATA_ERROR, d1))"
      by (simp add: tinf_inflate_symbol_def s)
    then show ?thesis using step_ok_error0 [OF ok f1, of TINF_DATA_ERROR] by (simp add: tinf_codes)
  next
    case 2
    have "uncomp_ok d1" "dest d1 < dest_limit d1" "curlen d1 = 0"
      using ok room assms(5) f1 by (simp_all add: ok_input_frame input_frame_fields)
    then obtain d' where p: "TINF_PUT (of_int symb) d1 = Some d'" "uncomp_ok d'" "wrote d1 d'"
        "dest d' = dest d1 + 1" "btype d' = btype d1" "bfinal d' = bfinal d1"
      by (rule put_uncomp_ok [where c = "of_int symb"])
    then have "tinf_inflate_symbol rs d = Some (Inl (TINF_OK, d'))"
      using 2 by (simp add: tinf_inflate_symbol_def s)
    moreover have "step_ok d1 TINF_OK d'"
      using p uncomp_okD [OF p(2)] by (simp add: step_ok_def tinf_codes)
    ultimately show ?thesis using step_ok_input_frame [OF f1] by blast
  next
    case 3
    then have "tinf_inflate_symbol rs d = Some (Inl (TINF_DONE, d1))"
      by (simp add: tinf_inflate_symbol_def s)
    moreover have "step_ok d TINF_DONE d1"
      using ok k assms(5) wrote_input_frame [OF f1] ok_input_frame [OF f1]
      by (simp add: step_ok_def input_frame_fields [OF f1] tinf_codes)
    ultimately show ?thesis by blast
  next
    case 4
    then have "tinf_inflate_symbol rs d = Some (Inl (TINF_DATA_ERROR, d1))"
      by (simp add: tinf_inflate_symbol_def s)
    then show ?thesis using step_ok_error0 [OF ok f1, of TINF_DATA_ERROR] by (simp add: tinf_codes)
  next
    case 5
    from length_symbol_cases [OF cb ok comp nf s(1) this] show ?thesis .
  qed
qed

lemma copy_byte_step:
  assumes "uncomp_ok d" and "input_frame (d\<lparr>curlen := n, lzOff := off\<rparr>) d'" and "match_ok d'"
    and "dest d < dest_limit d" and comp: "btype d = 1 \<or> btype d = 2"
  shows "\<exists>d''. tinf_copy_byte d' = Some (TINF_OK, d'') \<and> step_ok d TINF_OK d''"
proof -
  note f = input_frame_fields [OF assms(2)]
  have "uncomp_ok d'" "dest d' < dest_limit d'" "btype d' = 1 \<or> btype d' = 2"
    using uncomp_okD [OF assms(1)] assms(3,4) comp by (simp_all add: uncomp_ok_def output_ok_def f)
  then obtain d'' where c: "tinf_copy_byte d' = Some (TINF_OK, d'')" "uncomp_ok d''" "wrote d' d''"
      "dest d'' = dest d' + 1" "btype d'' = btype d'" "bfinal d'' = bfinal d'"
    using copy_byte_ok [of d'] assms(3) by metis
  have "wrote d d''" using c(3) by (simp add: wrote_def f)
  then have "step_ok d TINF_OK d''"
    using c uncomp_okD [OF c(2)] by (simp add: step_ok_def f tinf_codes)
  then show ?thesis using c(1) by blast
qed

text \<open>One call of tinf_inflate_block_data.\<close>

lemma block_data_ok:
  assumes cb: "cb_frame rs" and ok: "uncomp_ok d" and room: "dest d < dest_limit d"
    and comp: "btype d = 1 \<or> btype d = 2" and nf: "curlen d = 0 \<Longrightarrow> \<not> dist_fault rs d"
  obtains res d' where "tinf_inflate_block_data rs d = Some (res, d')" and "step_ok d res d'"
proof (cases "curlen d = 0")
  case False
  have "match_ok d" using uncomp_okD(6) [OF ok comp] False by simp
  moreover have "input_frame (d\<lparr>curlen := curlen d, lzOff := lzOff d\<rparr>) d" by simp
  ultimately show ?thesis
    using copy_byte_step [OF ok _ _ room comp] that False by (metis tinf_inflate_block_data_def)
next
  case True
  from inflate_symbol_cases [OF cb ok room comp True nf [OF True]] show ?thesis
  proof (elim disjE exE conjE)
    fix res d' assume "tinf_inflate_symbol rs d = Some (Inl (res, d'))" "step_ok d res d'"
    then show ?thesis using that [of res d'] True by (simp add: tinf_inflate_block_data_def)
  next
    fix d' n off assume s: "tinf_inflate_symbol rs d = Some (Inr d')"
      "input_frame (d\<lparr>curlen := n, lzOff := off\<rparr>) d'" "match_ok d'"
    obtain d'' where "tinf_copy_byte d' = Some (TINF_OK, d'')" "step_ok d TINF_OK d''"
      using copy_byte_step [OF ok s(2,3) room comp] by blast
    then show ?thesis using that [of TINF_OK d''] s(1) True by (simp add: tinf_inflate_block_data_def)
  qed
qed

definition stored_byte :: "'e read_cb \<Rightarrow> 'e uncomp \<Rightarrow> (int \<times> 'e uncomp) option" where
  "stored_byte rs d = (let d = d\<lparr>curlen := curlen d - 1\<rparr> in
     if curlen d = 0 then Some (TINF_DONE, d)
     else (case uzlib_get_byte rs d of (c, d) \<Rightarrow> do { d \<leftarrow> TINF_PUT c d; Some (TINF_OK, d) }))"

lemma stored_byte_ok:
  assumes cb: "cb_frame rs" and ok: "uncomp_ok d" and room: "dest d < dest_limit d" and stored: "btype d = 0"
    and fr: "input_frame (d\<lparr>curlen := n\<rparr>) d1"
  shows "\<exists>res d'. stored_byte rs d1 = Some (res, d') \<and> step_ok d res d'"
proof -
  note f = input_frame_fields [OF fr] and k = uncomp_okD [OF ok]
  let ?d = "d1\<lparr>curlen := curlen d1 - 1\<rparr>"
  have ok1: "uncomp_ok ?d" using k stored by (simp add: uncomp_ok_def output_ok_def f)
  show ?thesis
  proof (cases "curlen ?d = 0")
    case True
    have "step_ok d TINF_DONE ?d"
      using ok1 True uncomp_okD [OF ok1] by (simp add: step_ok_def wrote_def f tinf_codes)
    then show ?thesis using True by (simp add: stored_byte_def)
  next
    case False
    obtain c d2 where g: "uzlib_get_byte rs ?d = (c, d2)" by fastforce
    note f2 = get_byte_frame [OF cb g]
    have "uncomp_ok d2" "dest d2 < dest_limit d2" "\<not> (btype d2 = 1 \<or> btype d2 = 2)"
      using ok1 room stored by (simp_all add: ok_input_frame [OF f2] input_frame_fields [OF f2] f)
    then obtain d' where p: "TINF_PUT c d2 = Some d'" "uncomp_ok d'" "wrote d2 d'" "dest d' = dest d2 + 1"
        "btype d' = btype d2" "bfinal d' = bfinal d2"
      using put_uncomp_ok [of d2 c] by metis
    have "step_ok d TINF_OK d'"
      using p uncomp_okD [OF p(2)]
      by (simp add: step_ok_def wrote_def f input_frame_fields [OF f2] tinf_codes)
    then show ?thesis using False g p(1) by (auto simp: stored_byte_def Let_def)
  qed
qed

lemma uncompressed_block_ok:
  assumes cb: "cb_frame rs" and ok: "uncomp_ok d" and room: "dest d < dest_limit d" and stored: "btype d = 0"
  obtains res d' where "tinf_inflate_uncompressed_block rs d = Some (res, d')" and "step_ok d res d'"
proof (cases "curlen d = 0")
  case False
  have "tinf_inflate_uncompressed_block rs d = stored_byte rs d"
    using False by (simp add: tinf_inflate_uncompressed_block_def stored_byte_def)
  then show ?thesis using stored_byte_ok [OF cb ok room stored, of "curlen d" d] that by auto
next
  case True
  obtain l0 d1 where g1: "uzlib_get_byte rs d = (l0, d1)" by fastforce
  obtain l1 d2 where g2: "uzlib_get_byte rs d1 = (l1, d2)" by fastforce
  obtain i0 d3 where g3: "uzlib_get_byte rs d2 = (i0, d3)" by fastforce
  obtain i1 d4 where g4: "uzlib_get_byte rs d3 = (i1, d4)" by fastforce
  have f4: "input_frame d d4"
    using get_byte_frame [OF cb g1] get_byte_frame [OF cb g2] get_byte_frame [OF cb g3] get_byte_frame [OF cb g4]
    by (blast intro: input_frame_trans)
  define n where "n = unat l0 + 256 * unat l1"
  let ?d = "d4\<lparr>curlen := n + 1, bitcount := 0\<rparr>"
  let ?bad = "(of_nat n :: u32) \<noteq> NOT (of_nat (unat i0 + 256 * unat i1)) AND 0x0000ffff"
  have "tinf_inflate_uncompressed_block rs d = (if ?bad then Some (TINF_DATA_ERROR, d4) else stored_byte rs ?d)"
    using True g1 g2 g3 g4 by (simp add: tinf_inflate_uncompressed_block_def stored_byte_def Let_def n_def)
  moreover have "step_ok d TINF_DATA_ERROR d4"
    using step_ok_error0 [OF ok f4] by (simp add: tinf_codes)
  moreover have "input_frame (d\<lparr>curlen := n + 1\<rparr>) ?d"
    using f4 by (elim input_frameE, hypsubst, simp add: input_frame_def)
  ultimately show ?thesis
    using that stored_byte_ok [OF cb ok room stored, of "n + 1" ?d] by (metis (no_types, lifting))
qed

lemma tree_upto_ok: "tree_upto m t \<Longrightarrow> tree_ok t \<and> tree_sizes t"
  by (auto simp: tree_ok_def tree_sizes_def tree_upto_def simp del: code_numeral)

text \<open>What holds after the code at next_blk returned \<open>res\<close>.\<close>

definition start_ok :: "'e uncomp \<Rightarrow> int \<Rightarrow> 'e uncomp \<Rightarrow> bool" where
  "start_ok d res d' \<longleftrightarrow> wrote d d' \<and> output_ok d' \<and> tree_sizes (ltree d') \<and> tree_sizes (dtree d') \<and>
     dest d' = dest d \<and> (res = TINF_OK \<and> uncomp_ok d' \<and> curlen d' = 0 \<or> res = TINF_DATA_ERROR)"

lemma start_block_ok:
  assumes cb: "cb_frame rs" and ok: "uncomp_ok d" and "curlen d = 0"
  shows "\<exists>res d'. tinf_start_block rs d = Some (res, d') \<and> start_ok d res d'"
proof -
  note k = uncomp_okD [OF ok]
  obtain fin d1 where g: "tinf_getbit rs d = (fin, d1)" by fastforce
  obtain ty d2 where r: "tinf_read_bits rs 2 0 (d1\<lparr>bfinal := fin\<rparr>) = (ty, d2)" by fastforce
  let ?d = "d2\<lparr>btype := int ty\<rparr>"
  have fr: "input_frame (d\<lparr>bfinal := fin, btype := int ty\<rparr>) ?d"
  proof -
    have "input_frame (d\<lparr>bfinal := fin\<rparr>) (d1\<lparr>bfinal := fin\<rparr>)"
      using getbit_frame [OF cb g] by (elim input_frameE, hypsubst, simp add: input_frame_def)
    then have "input_frame (d\<lparr>bfinal := fin\<rparr>) d2" using read_bits_frame(1) [OF cb r] by (rule input_frame_trans)
    then show ?thesis by (elim input_frameE, hypsubst, simp add: input_frame_def)
  qed
  have sz: "tree_sizes (ltree ?d)" "tree_sizes (dtree ?d)" using k fr by (simp_all add: input_frame_fields)
  have u: "tinf_start_block rs d = (if ty = 1 then (case tinf_build_fixed_trees (ltree ?d) (dtree ?d) of (lt, dt) \<Rightarrow>
              Some (TINF_OK, ?d\<lparr>ltree := lt, dtree := dt\<rparr>))
         else if ty = 2 then tinf_decode_trees rs ?d else Some (TINF_OK, ?d))"
    by (simp add: tinf_start_block_def g r Let_def)
  have fin: "start_ok d res d'"
    if "input_frame (?d\<lparr>ltree := lt, dtree := dt\<rparr>) d'" "tree_sizes lt" "tree_sizes dt"
      "res = TINF_OK \<and> (ty = 1 \<or> ty = 2 \<longrightarrow> tree_ok lt \<and> tree_ok dt) \<or> res = TINF_DATA_ERROR" for res d' lt dt
  proof -
    note f = input_frame_fields [OF that(1)] and f0 = input_frame_fields [OF fr, simplified]
    have "output_ok d'" using k(1) by (simp add: output_ok_def f f0)
    moreover have "wrote d d'" by (simp add: wrote_def f f0)
    moreover have "ltree d' = lt" "dtree d' = dt" "dest d' = dest d" "curlen d' = 0" "btype d' = int ty"
      using assms(3) by (simp_all add: f f0)
    ultimately show ?thesis using that(2-4) unfolding start_ok_def uncomp_ok_def by simp
  qed
  consider "ty = 1" | "ty = 2" | "ty \<noteq> 1" "ty \<noteq> 2" by blast
  then show ?thesis
  proof cases
    case 1
    obtain lt dt where b: "tinf_build_fixed_trees (ltree ?d) (dtree ?d) = (lt, dt)" by fastforce
    have "tree_upto 9 lt" "tree_upto 5 dt"
      using fixed_trees_for(3,4) [OF _ _ _ _ b] sz by (simp_all add: tree_sizes_def)
    then have t: "tree_ok lt \<and> tree_sizes lt" "tree_ok dt \<and> tree_sizes dt" by (auto dest: tree_upto_ok)
    have "start_ok d TINF_OK (?d\<lparr>ltree := lt, dtree := dt\<rparr>)"
      by (rule fin [where lt = lt and dt = dt]) (simp_all only: t input_frame_refl, simp)
    then show ?thesis using u b 1 by simp
  next
    case 2
    obtain res d' lt dt where "tinf_decode_trees rs ?d = Some (res, d')"
        "input_frame (?d\<lparr>ltree := lt, dtree := dt\<rparr>) d'" "tree_sizes lt" "tree_sizes dt"
        "res = TINF_OK \<and> tree_ok lt \<and> tree_ok dt \<or> res = TINF_DATA_ERROR"
      by (rule decode_trees_total [OF cb sz])
    moreover have "start_ok d res d'" by (rule fin [where lt = lt and dt = dt]) (use calculation in auto)
    ultimately show ?thesis using u 2 by simp
  next
    case 3
    have "start_ok d TINF_OK ?d"
      by (rule fin [where lt = "ltree ?d" and dt = "dtree ?d"]) (use sz 3 in auto)
    then show ?thesis using u 3 by simp
  qed
qed

text \<open>A read of \<open>dist_bits[-3]\<close> is the only access outside an object.\<close>

lemma block_data_fault:
  assumes "curlen d = 0" and "dist_fault rs d"
  shows "tinf_inflate_block_data rs d = None"
proof -
  from assms(2) obtain symb d1 i d2 len d4 where f:
    "tinf_decode_symbol rs (ltree d) d = Some (symb, d1)" "257 \<le> symb" "symb < 286"
    "i = nat (symb - 257)" "\<not> eof d1"
    "tinf_read_bits rs (length_bits ! i) (length_base ! i) d1 = (len, d2)"
    "tinf_decode_symbol rs (dtree (d2\<lparr>curlen := len\<rparr>)) (d2\<lparr>curlen := len\<rparr>) = Some (TINF_DATA_ERROR, d4)"
    unfolding dist_fault_def by blast
  have i: "symb - 257 = int i" "i < 29" using f(2-4) by auto
  have "fetch_int dist_bits TINF_DATA_ERROR = None" by (simp add: fetch_int_def tinf_codes)
  then have "tinf_inflate_symbol rs d = None"
    using f i by (simp add: tinf_inflate_symbol_def access_simps length_tables) (simp add: tinf_codes)
  then show ?thesis using assms(1) by (simp add: tinf_inflate_block_data_def)
qed

section \<open>uzlib_uncompress\<close>

text \<open>\<open>uncompress_visits rs newblk d d1\<close>: a run of the loop from \<open>d\<close> enters the
  \<open>switch (d->btype)\<close> in state \<open>d1\<close>.\<close>

abbreviation block_header :: "'e read_cb \<Rightarrow> bool \<Rightarrow> 'e uncomp \<Rightarrow> (int \<times> 'e uncomp) option" where
  "block_header rs newblk d \<equiv> (if newblk then tinf_start_block rs d else Some (TINF_OK, d))"

inductive uncompress_visits :: "'e read_cb \<Rightarrow> bool \<Rightarrow> 'e uncomp \<Rightarrow> 'e uncomp \<Rightarrow> bool" for rs where
  enter: "block_header rs newblk d = Some (TINF_OK, d1) \<Longrightarrow> uncompress_visits rs newblk d d1"
| next_block: "block_header rs newblk d = Some (TINF_OK, d1) \<Longrightarrow>
    tinf_process_block rs d1 = Some (TINF_DONE, d2) \<Longrightarrow> bfinal d2 = 0 \<Longrightarrow>
    uncompress_visits rs True d2 d3 \<Longrightarrow> uncompress_visits rs newblk d d3"
| next_byte: "block_header rs newblk d = Some (TINF_OK, d1) \<Longrightarrow>
    tinf_process_block rs d1 = Some (TINF_OK, d2) \<Longrightarrow> dest d2 < dest_limit d2 \<Longrightarrow>
    uncompress_visits rs (btype d2 = -1) d2 d3 \<Longrightarrow> uncompress_visits rs newblk d d3"

text \<open>In this state the call of tinf_inflate_block_data reads \<open>dist_bits[-3]\<close>, before the table.\<close>

definition off_table :: "'e read_cb \<Rightarrow> 'e uncomp \<Rightarrow> bool" where
  "off_table rs d \<longleftrightarrow> (btype d = 1 \<or> btype d = 2) \<and> curlen d = 0 \<and> dist_fault rs d"

definition fault_ahead :: "'e read_cb \<Rightarrow> bool \<Rightarrow> 'e uncomp \<Rightarrow> bool" where
  "fault_ahead rs newblk d \<longleftrightarrow> (\<exists>d1. uncompress_visits rs newblk d d1 \<and> off_table rs d1)"

lemma process_block_ok:
  assumes "cb_frame rs" and "uncomp_ok d" and "dest d < dest_limit d"
    and nf: "\<not> off_table rs d"
  obtains res d' where "tinf_process_block rs d = Some (res, d')" and "step_ok d res d'"
proof -
  consider "btype d = 0" | "btype d = 1 \<or> btype d = 2" | "btype d \<noteq> 0" "\<not> (btype d = 1 \<or> btype d = 2)" by blast
  then show ?thesis
  proof cases
    case 1
    with uncompressed_block_ok [OF assms(1-3) 1] that show ?thesis
      by (metis tinf_process_block_def)
  next
    case 2
    obtain res d' where "tinf_inflate_block_data rs d = Some (res, d')" "step_ok d res d'"
      by (rule block_data_ok [OF assms(1-3) 2]) (use nf 2 in \<open>auto simp: off_table_def\<close>)
    moreover have "tinf_process_block rs d = tinf_inflate_block_data rs d"
      using 2 by (auto simp: tinf_process_block_def)
    ultimately show ?thesis using that by simp
  next
    case 3
    have "step_ok d TINF_DATA_ERROR d"
      using step_ok_error0 [OF assms(2) input_frame_refl] by (simp add: tinf_codes)
    then show ?thesis using that [of TINF_DATA_ERROR d] 3 by (simp add: tinf_process_block_def)
  qed
qed

lemma process_block_None:
  assumes "cb_frame rs" and "uncomp_ok d" and "dest d < dest_limit d"
  shows "tinf_process_block rs d = None \<longleftrightarrow> off_table rs d"
proof
  show "tinf_process_block rs d = None \<Longrightarrow> off_table rs d"
    using process_block_ok [OF assms] by (metis option.distinct(1))
  show "off_table rs d \<Longrightarrow> tinf_process_block rs d = None"
    using block_data_fault by (auto simp: off_table_def tinf_process_block_def)
qed

lemma process_block_step:
  assumes "cb_frame rs" and "uncomp_ok d" and "dest d < dest_limit d" and "tinf_process_block rs d = Some (res, d')"
  shows "step_ok d res d'" and "res = TINF_OK \<Longrightarrow> btype d' \<noteq> -1"
proof -
  have "\<not> off_table rs d" using assms(4) process_block_None [OF assms(1-3)] by simp
  then show s: "step_ok d res d'"
    using process_block_ok [OF assms(1-3)] assms(4) by (metis Pair_inject option.inject)
  show "res = TINF_OK \<Longrightarrow> btype d' \<noteq> -1"
    using s assms(4) by (auto simp: step_ok_def tinf_process_block_def tinf_codes)
qed

text \<open>What a finished run guarantees.\<close>

definition run_ok :: "'e uncomp \<Rightarrow> int \<Rightarrow> 'e uncomp \<Rightarrow> bool" where
  "run_ok d res d' \<longleftrightarrow> wrote d d' \<and> output_ok d' \<and>
     (res = TINF_OK \<longrightarrow> uncomp_ok d' \<and> dest d' = dest_limit d') \<and> (res = TINF_DONE \<longrightarrow> uncomp_ok d')"

lemma run_ok_wrote: "wrote d1 d2 \<Longrightarrow> run_ok d2 res d' \<Longrightarrow> run_ok d1 res d'"
  by (auto simp: run_ok_def intro: wrote_trans)

lemma header_ok:
  assumes "cb_frame rs" and "uncomp_ok d" and "newblk \<Longrightarrow> curlen d = 0"
  shows "\<exists>res d1. block_header rs newblk d = Some (res, d1) \<and> wrote d d1 \<and> output_ok d1 \<and>
    dest d1 = dest d \<and> (res = TINF_OK \<longrightarrow> uncomp_ok d1 \<and> (newblk \<longrightarrow> curlen d1 = 0)) \<and>
    (res = TINF_OK \<or> res = TINF_DATA_ERROR)"
proof (cases newblk)
  case True
  then obtain res d1 where "tinf_start_block rs d = Some (res, d1)" "start_ok d res d1"
    using start_block_ok [OF assms(1,2) assms(3)] by blast
  then show ?thesis
    using True by (intro exI [of _ res] exI [of _ d1]) (auto simp: start_ok_def tinf_codes)
next
  case False
  then show ?thesis using uncomp_okD(1) [OF assms(2)] assms(2) by simp
qed

lemma uncompress_loop_ok:
  assumes cb: "cb_frame rs" and "uncomp_ok d" and "dest d < dest_limit d" and "newblk \<Longrightarrow> curlen d = 0"
    and "uzlib_uncompress_loop fuel rs newblk d = Some (res, d')"
  shows "run_ok d res d'"
  using assms(2-5)
proof (induction fuel arbitrary: newblk d)
  case (Suc fuel)
  obtain res1 d1 where b: "block_header rs newblk d = Some (res1, d1)" "wrote d d1" "output_ok d1"
      "dest d1 = dest d" "res1 = TINF_OK \<Longrightarrow> uncomp_ok d1" "res1 = TINF_OK \<or> res1 = TINF_DATA_ERROR"
    using header_ok [OF cb Suc.prems(1,3)] by blast
  show ?case
  proof (cases "res1 = TINF_OK")
    case False
    then have "res = res1" "d' = d1" "res1 = TINF_DATA_ERROR" using Suc.prems(4) b by auto
    then show ?thesis using b by (simp add: run_ok_def tinf_codes)
  next
    case True
    note ok1 = b(5) [OF True]
    have room: "dest d1 < dest_limit d1" using b(2,4) Suc.prems(2) by (simp add: wrote_def)
    obtain res2 d2 where p: "tinf_process_block rs d1 = Some (res2, d2)"
      using Suc.prems(4) b(1) True by (cases "tinf_process_block rs d1") auto
    note s = process_block_step(1) [OF cb ok1 room p]
    have w: "wrote d d2" using b(2) s by (auto simp: step_ok_def intro: wrote_trans)
    have run: "uzlib_uncompress_loop (Suc fuel) rs newblk d =
       (if res2 = TINF_DONE \<and> bfinal d2 = 0 then uzlib_uncompress_loop fuel rs True d2
        else if res2 \<noteq> TINF_OK then Some (res2, d2)
        else if dest d2 < dest_limit d2 then uzlib_uncompress_loop fuel rs (btype d2 = -1) d2
        else Some (TINF_OK, d2))"
      using b(1) True p by simp
    note nb = process_block_step(2) [OF cb ok1 room p]
    consider "res2 = TINF_DONE" "bfinal d2 = 0" | "res2 = TINF_OK" "dest d2 < dest_limit d2"
      | "res = res2" "d' = d2" "res2 = TINF_OK \<longrightarrow> dest_limit d2 \<le> dest d2"
      using run Suc.prems(4) by (auto simp: tinf_codes split: if_splits)
    then show ?thesis
    proof cases
      case 1
      then have "uncomp_ok d2" "dest d2 < dest_limit d2" "curlen d2 = 0"
        using s room by (auto simp: step_ok_def wrote_def)
      then have "run_ok d2 res d'" using Suc.IH [of d2 True] run Suc.prems(4) 1 by simp
      then show ?thesis by (rule run_ok_wrote [OF w])
    next
      case 2
      then have "uncomp_ok d2" using s by (simp add: step_ok_def)
      then have "run_ok d2 res d'"
        using Suc.IH [of d2 False] run Suc.prems(4) 2 nb by (simp add: tinf_codes)
      then show ?thesis by (rule run_ok_wrote [OF w])
    next
      case 3
      then show ?thesis using s w by (auto simp: run_ok_def step_ok_def output_ok_def)
    qed
  qed
qed simp

text \<open>The same of every state a run passes, whether or not it returns.\<close>

lemma header_entered:
  assumes "cb_frame rs" and "uncomp_ok d" and "newblk \<Longrightarrow> curlen d = 0" and "dest d < dest_limit d"
    and "block_header rs newblk d = Some (TINF_OK, d1)"
  shows "uncomp_ok d1" and "wrote d d1" and "dest d1 < dest_limit d1"
proof -
  obtain res d2 where "block_header rs newblk d = Some (res, d2)" "wrote d d2" "dest d2 = dest d"
      "res = TINF_OK \<longrightarrow> uncomp_ok d2"
    using header_ok [OF assms(1-3)] by blast
  then show "uncomp_ok d1" "wrote d d1" "dest d1 < dest_limit d1"
    using assms(4,5) by (auto simp: wrote_def)
qed

lemma visited_ok:
  assumes cb: "cb_frame rs" and "uncompress_visits rs newblk d d1"
  shows "uncomp_ok d \<Longrightarrow> dest d < dest_limit d \<Longrightarrow> (newblk \<Longrightarrow> curlen d = 0) \<Longrightarrow>
    uncomp_ok d1 \<and> wrote d d1 \<and> dest d1 < dest_limit d1"
  using assms(2)
proof (induction rule: uncompress_visits.induct)
  case (enter newblk d d1)
  from header_entered [OF cb enter.prems(1,3,2) enter.hyps] show ?case by simp
next
  case (next_block newblk d d1 d2 d3)
  note h = header_entered [OF cb next_block.prems(1,3,2) next_block.hyps(1)]
  from process_block_step(1) [OF cb h(1,3) next_block.hyps(2)]
  have s: "uncomp_ok d2" "wrote d1 d2" "dest d2 < dest_limit d2" "curlen d2 = 0"
    using h(3) by (auto simp: step_ok_def wrote_def)
  have "uncomp_ok d3 \<and> wrote d2 d3 \<and> dest d3 < dest_limit d3" by (rule next_block.IH) (rule s)+
  then show ?case using wrote_trans [OF wrote_trans [OF h(2) s(2)]] by blast
next
  case (next_byte newblk d d1 d2 d3)
  note h = header_entered [OF cb next_byte.prems(1,3,2) next_byte.hyps(1)]
  have nb: "btype d2 \<noteq> -1" by (rule process_block_step(2) [OF cb h(1,3) next_byte.hyps(2) refl])
  from process_block_step(1) [OF cb h(1,3) next_byte.hyps(2)]
  have s: "uncomp_ok d2" "wrote d1 d2" by (auto simp: step_ok_def)
  have "uncomp_ok d3 \<and> wrote d2 d3 \<and> dest d3 < dest_limit d3"
    by (rule next_byte.IH) (use s next_byte.hyps(3) nb in auto)
  then show ?case using wrote_trans [OF wrote_trans [OF h(2) s(2)]] by blast
qed

lemma visited_next_header:
  assumes "cb_frame rs" and "uncomp_ok d1" and "dest d1 < dest_limit d1"
    and "tinf_process_block rs d1 = Some (TINF_DONE, d2)"
  shows "tinf_start_block rs d2 \<noteq> None"
proof -
  have "uncomp_ok d2" "curlen d2 = 0"
    using process_block_step(1) [OF assms] by (simp_all add: step_ok_def)
  from start_block_ok [OF assms(1) this] show ?thesis by auto
qed

section \<open>Main properties\<close>

text \<open>Decoding a symbol from a tree left by tinf_build_fixed_trees or tinf_build_tree has a
  defined result for every input, also past its end: no read outside table or trans happens, though
  the code has no bounds check (UZLIB_CONF_PARANOID_CHECKS is off).\<close>

theorem decode_symbol_in_bounds:
  assumes "tree_ok t"
  shows "\<exists>s d'. tinf_decode_symbol rs t d = Some (s, d') \<and> (s = TINF_DATA_ERROR \<or> 0 \<le> s)"
  using assms by (rule decode_symbol_total) auto

lemma fixed_no_tree_ok:
  "tree_ok (fst (tinf_build_fixed_trees no_tree no_tree))"
  "tree_ok (snd (tinf_build_fixed_trees no_tree no_tree))"
  using fixed_trees_for(3,4) [of no_tree no_tree "fst (tinf_build_fixed_trees no_tree no_tree)"
      "snd (tinf_build_fixed_trees no_tree no_tree)"] tree_upto_ok
  by (auto simp: no_tree_def)

theorem decode_symbol_in_bounds_witness:
  "\<exists>s d'. tinf_decode_symbol None (fst (tinf_build_fixed_trees no_tree no_tree)) (memory_uncomp [] 0) =
     Some (s, d') \<and> (s = TINF_DATA_ERROR \<or> 0 \<le> s)"
  by (rule decode_symbol_in_bounds) (rule fixed_no_tree_ok)

text \<open>Reading the trees of a dynamic block is safe on every input, truncated and malformed ones
  included: all array accesses are inside, both trees keep their sizes and are well formed when the
  result is TINF_OK, and the only other result is TINF_DATA_ERROR.\<close>

theorem decode_trees_safe:
  assumes "cb_frame rs" and "tree_sizes (ltree d)" and "tree_sizes (dtree d)"
  shows "\<exists>res d'. tinf_decode_trees rs d = Some (res, d') \<and>
    tree_sizes (ltree d') \<and> tree_sizes (dtree d') \<and>
    (res = TINF_OK \<and> tree_ok (ltree d') \<and> tree_ok (dtree d') \<or> res = TINF_DATA_ERROR)"
proof -
  obtain res d' lt dt where r: "tinf_decode_trees rs d = Some (res, d')"
    "input_frame (d\<lparr>ltree := lt, dtree := dt\<rparr>) d'" "tree_sizes lt" "tree_sizes dt"
    "res = TINF_OK \<and> tree_ok lt \<and> tree_ok dt \<or> res = TINF_DATA_ERROR"
    by (rule decode_trees_total [OF assms])
  then show ?thesis by (simp add: input_frame_fields [OF r(2)])
qed

lemma no_tree_sizes: "tree_sizes no_tree"
  by (simp add: tree_sizes_def no_tree_def)

theorem decode_trees_safe_witness:
  "\<exists>res d'. tinf_decode_trees None (memory_uncomp [0xff] 4) = Some (res, d') \<and>
    tree_sizes (ltree d') \<and> tree_sizes (dtree d') \<and>
    (res = TINF_OK \<and> tree_ok (ltree d') \<and> tree_ok (dtree d') \<or> res = TINF_DATA_ERROR)"
  by (rule decode_trees_safe) (simp_all add: memory_uncomp_def no_tree_sizes)

text \<open>C10. uzlib_uncompress accesses nothing outside its objects, whatever the input and whether or
  not it returns, but for one read.  In every state that a run passes, the bytes from the first
  \<open>dest\<close> up to the present one have been written and no other byte of the buffer, and there is
  room left before dest_limit; from such a state the model has no result, that is the code leaves an
  object, exactly where an undecodable distance code makes it read before \<open>dist_bits\<close>; the headers of
  the blocks are always read safely.  When the call returns, the written bytes end at dest_limit or
  before, TINF_OK means that the buffer is full, and after TINF_OK or TINF_DONE the state is fit for
  the next call.\<close>

theorem uncompress_writes_in_bounds:
  assumes "cb_frame rs" and "uncomp_ok d" and "dest d < dest_limit d" and "btype d = -1 \<longrightarrow> curlen d = 0"
  shows "(btype d = -1 \<longrightarrow> tinf_start_block rs d \<noteq> None) \<and>
    (\<forall>d1. uncompress_visits rs (btype d = -1) d d1 \<longrightarrow>
      length (dest_buf d1) = length (dest_buf d) \<and> dest d \<le> dest d1 \<and> dest d1 < dest_limit d \<and>
      (\<forall>i. i < dest d \<or> dest d1 \<le> i \<longrightarrow> dest_buf d1 ! i = dest_buf d ! i) \<and>
      (tinf_process_block rs d1 = None \<longleftrightarrow> off_table rs d1) \<and>
      (\<forall>d2. tinf_process_block rs d1 = Some (TINF_DONE, d2) \<longrightarrow> tinf_start_block rs d2 \<noteq> None)) \<and>
    (\<forall>fuel res d'. uzlib_uncompress fuel rs d = Some (res, d') \<longrightarrow>
      length (dest_buf d') = length (dest_buf d) \<and> dest d \<le> dest d' \<and> dest d' \<le> dest_limit d \<and>
      (\<forall>i. i < dest d \<or> dest d' \<le> i \<longrightarrow> dest_buf d' ! i = dest_buf d ! i) \<and>
      (res = TINF_OK \<longrightarrow> dest d' = dest_limit d) \<and>
      (res = TINF_OK \<or> res = TINF_DONE \<longrightarrow> uncomp_ok d'))"
proof (intro conjI allI impI)
  show "tinf_start_block rs d \<noteq> None" if "btype d = -1"
    using start_block_ok [OF assms(1,2)] assms(4) that by auto
next
  fix d1 assume "uncompress_visits rs (btype d = -1) d d1"
  then have v: "uncomp_ok d1 \<and> wrote d d1 \<and> dest d1 < dest_limit d1"
    by (rule visited_ok [OF assms(1)]) (use assms in auto)
  note w = v [unfolded wrote_def]
  show "length (dest_buf d1) = length (dest_buf d)" "dest d \<le> dest d1" "dest d1 < dest_limit d"
    using w by simp_all
  show "dest_buf d1 ! i = dest_buf d ! i" if "i < dest d \<or> dest d1 \<le> i" for i
    using w that by blast
  show "tinf_process_block rs d1 = None \<longleftrightarrow> off_table rs d1"
    using v by (intro process_block_None [OF assms(1)]) simp_all
  show "tinf_start_block rs d2 \<noteq> None" if "tinf_process_block rs d1 = Some (TINF_DONE, d2)" for d2
    using v that by (intro visited_next_header [OF assms(1)]) simp_all
next
  fix fuel res d' assume "uzlib_uncompress fuel rs d = Some (res, d')"
  then have r: "run_ok d res d'"
    using assms(4) by (intro uncompress_loop_ok [OF assms(1-3)]) (auto simp: uzlib_uncompress_def)
  note w = r [unfolded run_ok_def wrote_def output_ok_def]
  show "length (dest_buf d') = length (dest_buf d)" "dest d \<le> dest d'" "dest d' \<le> dest_limit d"
    using w by simp_all
  show "dest_buf d' ! i = dest_buf d ! i" if "i < dest d \<or> dest d' \<le> i" for i
    using w that by blast
  show "dest d' = dest_limit d" if "res = TINF_OK" using w that by simp
  show "uncomp_ok d'" if "res = TINF_OK \<or> res = TINF_DONE" using w that by auto
qed

lemma memory_uncomp_ok: "uncomp_ok (memory_uncomp src n)"
  by (simp add: uncomp_ok_def output_ok_def memory_uncomp_def no_tree_sizes)

abbreviation stored_a :: "u8 list" where
  "stored_a \<equiv> [0x01, 0x01, 0x00, 0xfe, 0xff, 0x41]"

lemma stored_a_run:
  "uzlib_uncompress (Suc 0) None (memory_uncomp stored_a 1) = Some (TINF_OK,
     memory_uncomp [] 1\<lparr>tag := 0, bitcount := 0, bfinal := 1, btype := 0, curlen := 1, dest_buf := [0x41], dest := 1\<rparr>)"
proof -
  have s: "tinf_start_block None (memory_uncomp stored_a 1) = Some (TINF_OK,
      memory_uncomp [0x01, 0x00, 0xfe, 0xff, 0x41] 1\<lparr>tag := 0, bitcount := 5, bfinal := 1, btype := 0\<rparr>)"
    by (simp add: memory_uncomp_def tinf_start_block_def tinf_getbit_def uzlib_get_byte_def tinf_read_bits_def
        numeral_2_eq_2 Let_def)
  have p: "tinf_process_block None (memory_uncomp [0x01, 0x00, 0xfe, 0xff, 0x41] 1\<lparr>tag := 0, bitcount := 5,
        bfinal := 1, btype := 0\<rparr>) = Some (TINF_OK,
      memory_uncomp [] 1\<lparr>tag := 0, bitcount := 0, bfinal := 1, btype := 0, curlen := 1, dest_buf := [0x41], dest := 1\<rparr>)"
    by (simp add: memory_uncomp_def tinf_process_block_def tinf_inflate_uncompressed_block_def uzlib_get_byte_def
        Let_def TINF_PUT_def access_simps)
  have "btype (memory_uncomp stored_a 1) = -1" by (simp add: memory_uncomp_def)
  then show ?thesis
    by (simp add: uzlib_uncompress_def s p del: One_nat_def) (simp add: memory_uncomp_def tinf_codes)
qed

theorem uncompress_writes_in_bounds_witness:
  "\<exists>d'. uzlib_uncompress (Suc 0) None (memory_uncomp stored_a 1) = Some (TINF_OK, d') \<and>
     length (dest_buf d') = 1 \<and> dest d' = 1 \<and> uncomp_ok d'"
proof -
  have d: "dest (memory_uncomp stored_a 1) < dest_limit (memory_uncomp stored_a 1)"
    "btype (memory_uncomp stored_a 1) = -1 \<longrightarrow> curlen (memory_uncomp stored_a 1) = 0"
    by (simp_all add: memory_uncomp_def)
  from uncompress_writes_in_bounds [OF cb_frame_None memory_uncomp_ok d] stored_a_run
  show ?thesis by (fastforce simp: memory_uncomp_def)
qed

text \<open>A literal or length code that no symbol has is not reported: the error code -3 of
  tinf_decode_symbol is below 256, so tinf_inflate_block_data writes the byte 0xfd and returns
  TINF_OK.\<close>

theorem undecodable_literal_written:
  assumes "curlen d = 0" and "tinf_decode_symbol rs (ltree d) d = Some (TINF_DATA_ERROR, d1)"
    and "\<not> eof d1" and "TINF_PUT 0xfd d1 = Some d2"
  shows "tinf_inflate_block_data rs d = Some (TINF_OK, d2)"
proof -
  have "(of_int TINF_DATA_ERROR :: u8) = 0xfd" by (simp add: tinf_codes)
  moreover have "TINF_DATA_ERROR < 256" by (simp add: tinf_codes)
  ultimately have "tinf_inflate_symbol rs d = Some (Inl (TINF_OK, d2))"
    using assms by (simp add: tinf_inflate_symbol_def)
  then show ?thesis using assms(1) by (simp add: tinf_inflate_block_data_def)
qed

text \<open>A tree with a single code, the bit 0, for the symbol \<open>s\<close>.\<close>

definition one_code :: "nat \<Rightarrow> tinf_tree" where
  "one_code s = \<lparr>table = [0, 1, 0, 0, 0, 0, 0, 0, 0, 0, 0, 0, 0, 0, 0, 0], trans = s # replicate 287 0\<rparr>"

definition bad_literal :: "unit uncomp" where
  "bad_literal = memory_uncomp [0xff, 0xff] 1\<lparr>ltree := one_code 65\<rparr>"

lemma bad_literal_decodes:
  "map_option (\<lambda>(s, d1). s = TINF_DATA_ERROR \<and> \<not> eof d1 \<and> dest_buf d1 = [0] \<and> dest d1 = 0 \<and> dict_ring d1 = None)
     (tinf_decode_symbol None (ltree bad_literal) bad_literal) = Some True"
  by code_simp

theorem undecodable_literal_written_witness:
  "\<exists>d'. tinf_inflate_block_data None bad_literal = Some (TINF_OK, d') \<and> dest_buf d' = [0xfd]"
proof -
  obtain d1 where d1: "tinf_decode_symbol None (ltree bad_literal) bad_literal = Some (TINF_DATA_ERROR, d1)"
    "\<not> eof d1" "dest_buf d1 = [0]" "dest d1 = 0" "dict_ring d1 = None"
    using bad_literal_decodes by auto
  have "TINF_PUT 0xfd d1 = Some (d1\<lparr>dest_buf := [0xfd], dest := 1\<rparr>)"
    using d1 by (simp add: TINF_PUT_def access_simps)
  from undecodable_literal_written [OF _ d1(1,2) this] show ?thesis
    by (simp add: bad_literal_def memory_uncomp_def)
qed

text \<open>A distance code that no symbol has passes the check \<open>dist >= 30\<close>, because the error code
  is -3, and tinf_inflate_block_data then reads \<open>dist_bits[-3]\<close>, outside the table: the model has no
  result.\<close>

theorem undecodable_distance_out_of_bounds:
  assumes "curlen d = 0" and "dist_fault rs d"
  shows "fetch_int dist_bits TINF_DATA_ERROR = None \<and> tinf_inflate_block_data rs d = None"
  using block_data_fault [OF assms] by (simp add: fetch_int_def tinf_codes)

definition bad_distance :: "unit uncomp" where
  "bad_distance = memory_uncomp [0xfe, 0xff, 0xff] 1\<lparr>ltree := one_code 257, dtree := one_code 0\<rparr>"

lemma bad_distance_decodes:
  "(case tinf_decode_symbol None (ltree bad_distance) bad_distance of None \<Rightarrow> False
    | Some (symb, d1) \<Rightarrow> symb = 257 \<and> \<not> eof d1 \<and>
        (case tinf_read_bits None (length_bits ! 0) (length_base ! 0) d1 of (len, d2) \<Rightarrow>
           map_option fst (tinf_decode_symbol None (dtree (d2\<lparr>curlen := len\<rparr>)) (d2\<lparr>curlen := len\<rparr>)) =
             Some TINF_DATA_ERROR))"
  by code_simp

theorem undecodable_distance_out_of_bounds_witness:
  "tinf_inflate_block_data None bad_distance = None"
proof -
  have "dist_fault None bad_distance"
    using bad_distance_decodes
    by (auto simp: dist_fault_def split: option.splits prod.splits)
  then show ?thesis
    using undecodable_distance_out_of_bounds [of bad_distance None]
    by (simp add: bad_distance_def memory_uncomp_def)
qed

end
