(* ===== verification/Tinf_Termination.thy ===== *)
theory Tinf_Termination
  imports Tinf_Safety
begin

text \<open>
  The loop of uzlib_uncompress ends on a buffer in memory: a measure of output space and unread input
  bounds its rounds, so the fuel of the model is enough.
\<close>

section \<open>Input left\<close>

text \<open>
  The bits that are left, none after the end was met.  Once \<open>eof\<close> is set the buffer is empty and the
  current byte is zero.
\<close>

definition bits_left :: "'e uncomp \<Rightarrow> nat" where
  "bits_left d = (if eof d then 0 else 8 * length (source d) + bitcount d)"

definition eof_ok :: "'e uncomp \<Rightarrow> bool" where
  "eof_ok d \<longleftrightarrow> (eof d \<longrightarrow> source d = [] \<and> (tag d = 0 \<or> bitcount d = 0))"

text \<open>Reading consumes: \<open>n\<close> bits less are left, or the end was met.\<close>

definition consumed :: "nat \<Rightarrow> 'e uncomp \<Rightarrow> 'e uncomp \<Rightarrow> bool" where
  "consumed n d d' \<longleftrightarrow> eof_ok d' \<and> (eof d \<longrightarrow> eof d') \<and> (eof d' \<or> bits_left d' + n \<le> bits_left d)"

lemma consumed_left: "consumed n d d' \<Longrightarrow> bits_left d' \<le> bits_left d"
  by (auto simp: consumed_def bits_left_def)

lemma consumed_trans [trans]: "consumed m a b \<Longrightarrow> consumed n b c \<Longrightarrow> consumed (m + n) a c"
  by (auto simp: consumed_def)

lemma consumed_weaken: "consumed n d d' \<Longrightarrow> m \<le> n \<Longrightarrow> consumed m d d'"
  by (auto simp: consumed_def)

lemma getbit_consumed:
  assumes "eof_ok d" and "tinf_getbit None d = (b, d')"
  shows "consumed 1 d d'" and "eof d \<Longrightarrow> b = 0"
proof -
  show "consumed 1 d d'"
    using assms
    by (auto simp: tinf_getbit_def uzlib_get_byte_def consumed_def bits_left_def eof_ok_def Let_def
      split: if_splits list.splits)
  show "eof d \<Longrightarrow> b = 0"
    using assms by (auto simp: tinf_getbit_def uzlib_get_byte_def eof_ok_def Let_def split: if_splits)
qed

lemma read_bits_loop_consumed:
  assumes "eof_ok d" and "tinf_read_bits_loop None n m v d = (w, d')"
  shows "consumed n d d' \<and> (eof d \<longrightarrow> w = v)"
  using assms
proof (induction n arbitrary: m v d)
  case 0
  then show ?case by (auto simp: consumed_def)
next
  case (Suc n)
  obtain b d1 where g: "tinf_getbit None d = (b, d1)" by fastforce
  note c = getbit_consumed [OF Suc.prems(1) g]
  have "consumed n d1 d' \<and> (eof d1 \<longrightarrow> w = (if b \<noteq> 0 then v + m else v))"
    using Suc.IH [of d1 "2 * m"] Suc.prems(2) g c(1) by (simp add: consumed_def)
  then show ?case
    using c consumed_trans [OF c(1), of n d'] by (auto simp: consumed_def)
qed

lemma read_bits_consumed:
  assumes "eof_ok d" and "tinf_read_bits None n base d = (w, d')"
  shows "consumed n d d'" and "eof d \<Longrightarrow> w = base"
  using read_bits_loop_consumed [of d n 1 0] assms by (auto simp: tinf_read_bits_def split: prod.splits)

lemma decode_loop_consumed:
  assumes "eof_ok d" and "tinf_decode_loop None t sm cur len d = Some (s, d')"
  shows "consumed 1 d d'"
  using assms
proof (induction "15 - len" arbitrary: len sm cur d rule: less_induct)
  case less
  obtain b d1 where g: "tinf_getbit None d = (b, d1)" by fastforce
  note c = getbit_consumed(1) [OF less.prems(1) g]
  have "eof_ok d1" using c by (simp add: consumed_def)
  show ?case
  proof (cases "16 \<le> Suc len")
    case True
    then show ?thesis using less.prems(2) g c by (subst (asm) tinf_decode_loop.simps) simp
  next
    case False
    then have "(\<exists>sm cur. tinf_decode_loop None t sm cur (Suc len) d1 = Some (s, d')) \<or> d' = d1"
      using less.prems(2) g
      by (subst (asm) tinf_decode_loop.simps) (auto simp: Let_def split: if_splits bind_splits)
    then show ?thesis
    proof (elim disjE exE)
      fix sm cur assume "tinf_decode_loop None t sm cur (Suc len) d1 = Some (s, d')"
      with less.hyps [of "Suc len" d1] False \<open>eof_ok d1\<close> have "consumed 1 d1 d'" by simp
      then show ?thesis using consumed_weaken [OF consumed_trans [OF c]] by simp
    qed (use c in simp)
  qed
qed

lemma decode_symbol_consumed:
  "eof_ok d \<Longrightarrow> tinf_decode_symbol None t d = Some (s, d') \<Longrightarrow> consumed 1 d d'"
  unfolding tinf_decode_symbol_def by (rule decode_loop_consumed)

text \<open>Changes of other fields do not matter.\<close>

definition same_input :: "'e uncomp \<Rightarrow> 'e uncomp \<Rightarrow> bool" where
  "same_input d d' \<longleftrightarrow> source d' = source d \<and> eof d' = eof d \<and> tag d' = tag d \<and> bitcount d' = bitcount d"

lemma same_input_consumed:
  assumes "same_input d d'"
  shows "consumed n e d' = consumed n e d" and "consumed n d' e = consumed n d e"
    and "eof_ok d' = eof_ok d" and "eof d' = eof d"
  using assms by (simp_all add: same_input_def consumed_def eof_ok_def bits_left_def)

lemma put_same_input: "TINF_PUT c d = Some d' \<Longrightarrow> same_input d d'"
  by (auto simp: TINF_PUT_def same_input_def Let_def split: bind_splits option.splits)

lemma copy_byte_same_input: "tinf_copy_byte d = Some (res, d') \<Longrightarrow> same_input d d' \<and> res = TINF_OK"
  by (auto simp: tinf_copy_byte_def Let_def split: bind_splits option.splits
      dest: put_same_input) (auto simp: same_input_def dest: put_same_input)

lemma consumed_refl: "eof_ok d \<Longrightarrow> consumed 0 d d"
  by (simp add: consumed_def)

lemma read_clens_consumed:
  assumes "eof_ok d" and "tinf_read_clens None n i ls d = Some (ls', d')"
  shows "consumed 0 d d'"
  using assms
proof (induction n arbitrary: i ls d)
  case 0
  then show ?case by (simp add: consumed_refl)
next
  case (Suc n)
  obtain c d1 where g: "tinf_read_bits None 3 0 d = (c, d1)" by fastforce
  note c = read_bits_consumed(1) [OF Suc.prems(1) g]
  then have "eof_ok d1" by (simp add: consumed_def)
  moreover obtain i' ls1 where "tinf_read_clens None n i' ls1 d1 = Some (ls', d')"
    using Suc.prems(2) g by (auto split: bind_splits)
  ultimately have "consumed 0 d1 d'" by (rule Suc.IH)
  then show ?case using consumed_weaken [OF consumed_trans [OF c]] by simp
qed

lemma decode_lengths_consumed:
  assumes "eof_ok d" and "tinf_decode_lengths None lt hlimit ls d = Some (res, ls', d')"
  shows "consumed 0 d d'"
  using assms
proof (induction "hlimit - length ls" arbitrary: ls d rule: less_induct)
  case less
  show ?case
  proof (cases "length ls < hlimit")
    case False
    then show ?thesis using less.prems by (subst (asm) tinf_decode_lengths.simps) (auto simp: consumed_refl)
  next
    case True
    obtain symb d1 where s: "tinf_decode_symbol None lt d = Some (symb, d1)"
      using less.prems(2) True by (subst (asm) tinf_decode_lengths.simps) (auto split: option.splits)
    note c1 = decode_symbol_consumed [OF less.prems(1) s]
    have e1: "eof_ok d1" using c1 by (simp add: consumed_def)
    define lb where "lb = (if symb = 16 then 2 else if symb = 17 then 3 else 7 :: nat)"
    define base where "base = (if symb = 18 then 11 else 3 :: nat)"
    obtain len d2 where r: "tinf_read_bits None lb base d1 = (len, d2)" by fastforce
    note c2 = read_bits_consumed(1) [OF e1 r]
    have e2: "eof_ok d2" using c2 by (simp add: consumed_def)
    have base: "0 < len" using tinf_read_bits_ge [OF r] by (simp add: base_def split: if_splits)
    have c12: "consumed 0 d d2" using consumed_weaken [OF consumed_trans [OF c1 c2]] by simp
    have c01: "consumed 0 d d1" using consumed_weaken [OF c1] by simp
    define rest where "rest = (\<lambda>n v (d :: 'a uncomp). case push_lengths ls n v of None \<Rightarrow> None
        | Some ls' \<Rightarrow> tinf_decode_lengths None lt hlimit ls' d)"
    have rec: "consumed 0 d d'" if r3: "rest n v d3 = Some (res, ls', d')" and n: "0 < n" "eof_ok d3" "consumed 0 d d3"
      for n v d3
    proof -
      obtain ls1 where "tinf_decode_lengths None lt hlimit ls1 d3 = Some (res, ls', d')" "length ls1 = length ls + n"
        using r3 push_lengths_length [of ls n v] by (auto simp: rest_def split: option.splits)
      then have "consumed 0 d3 d'" using less.hyps [of ls1 d3] n(1,2) True by simp
      then show ?thesis using consumed_trans [OF n(3)] by fastforce
    qed
    define fv where "fv = (if symb = 16 then last ls else 0)"
    have u: "tinf_decode_lengths None lt hlimit ls d =
      (if symb < 0 then Some (symb, ls, d1)
       else if symb = 16 \<and> ls = [] then Some (TINF_DATA_ERROR, ls, d1)
       else if symb = 16 \<or> symb = 17 \<or> symb = 18 then
         if hlimit < length ls + len then Some (TINF_DATA_ERROR, ls, d2) else rest len fv d2
       else rest 1 (nat symb) d1)"
      using True s r by (subst tinf_decode_lengths.simps)
        (simp add: rest_def fv_def lb_def base_def Let_def cong: if_cong)
    show ?thesis
      using less.prems(2) unfolding u
      by (simp split: if_splits) (use rec [OF _ base e2 c12] rec [OF _ _ e1 c01] c12 c01 in auto)
  qed
qed

lemma decode_trees_consumed:
  assumes "eof_ok d" and "tinf_decode_trees None d = Some (res, d')"
  shows "consumed 0 d d'"
proof -
  obtain hlit d1 where r1: "tinf_read_bits None 5 257 d = (hlit, d1)" by fastforce
  obtain hdist d2 where r2: "tinf_read_bits None 5 1 d1 = (hdist, d2)" by fastforce
  obtain hclen d3 where r3: "tinf_read_bits None 4 4 d2 = (hclen, d3)" by fastforce
  note c1 = read_bits_consumed(1) [OF assms(1) r1]
  then have c2: "consumed 5 d1 d2" using read_bits_consumed(1) [OF _ r2] by (simp add: consumed_def)
  then have c3: "consumed 4 d2 d3" using read_bits_consumed(1) [OF _ r3] by (simp add: consumed_def)
  have c: "consumed 0 d d3"
    using consumed_weaken [OF consumed_trans [OF consumed_trans [OF c1 c2] c3]] by simp
  obtain ls d4 lt res' ls' d5 where l: "tinf_read_clens None hclen 0 (replicate 19 0) d3 = Some (ls, d4)"
    "tinf_decode_lengths None lt (hlit + hdist) [] (d4\<lparr>ltree := lt\<rparr>) = Some (res', ls', d5)"
    "same_input d5 d'"
    using assms(2) r1 r2 r3
    by (auto simp: tinf_decode_trees_def same_input_def Let_def simp del: One_nat_def
        split: bind_splits if_splits)
  have c4: "consumed 0 d3 d4" using read_clens_consumed [OF _ l(1)] c3 by (simp add: consumed_def)
  have "same_input d4 (d4\<lparr>ltree := lt\<rparr>)" by (simp add: same_input_def)
  then have "consumed 0 d4 d5"
    using decode_lengths_consumed [OF _ l(2)] c4 same_input_consumed by (metis consumed_def)
  then have "consumed 0 d d5" using consumed_trans [OF consumed_trans [OF c c4]] by fastforce
  then show ?thesis using same_input_consumed(1) [OF l(3)] by blast
qed

lemma start_block_consumed:
  assumes "eof_ok d" and "tinf_start_block None d = Some (res, d')"
  shows "consumed 1 d d'"
proof -
  obtain fin d1 where g: "tinf_getbit None d = (fin, d1)" by fastforce
  obtain ty d2 where r: "tinf_read_bits None 2 0 (d1\<lparr>bfinal := fin\<rparr>) = (ty, d2)" by fastforce
  have s1: "same_input d1 (d1\<lparr>bfinal := fin\<rparr>)" and s2: "same_input d2 (d2\<lparr>btype := int ty\<rparr>)"
    by (simp_all add: same_input_def)
  note c1 = getbit_consumed(1) [OF assms(1) g]
  have "eof_ok (d1\<lparr>bfinal := fin\<rparr>)" using c1 same_input_consumed(3) [OF s1] by (simp add: consumed_def)
  then have "consumed 2 d1 d2" using read_bits_consumed(1) [OF _ r] same_input_consumed(2) [OF s1] by blast
  from consumed_trans [OF c1 this] have c: "consumed (1 + 2) d (d2\<lparr>btype := int ty\<rparr>)"
    by (simp add: same_input_consumed(1) [OF s2] del: One_nat_def)
  then have e: "eof_ok (d2\<lparr>btype := int ty\<rparr>)" by (simp add: consumed_def)
  have "consumed 0 (d2\<lparr>btype := int ty\<rparr>) d'"
  proof (cases "ty = 2")
    case True
    then have "tinf_decode_trees None (d2\<lparr>btype := int ty\<rparr>) = Some (res, d')"
      using assms(2) g r by (simp add: tinf_start_block_def)
    then show ?thesis by (rule decode_trees_consumed [OF e])
  next
    case False
    then have "same_input (d2\<lparr>btype := int ty\<rparr>) d'"
      using assms(2) g r by (auto simp: tinf_start_block_def same_input_def Let_def split: if_splits prod.splits)
    then show ?thesis using same_input_consumed(1) consumed_refl [OF e] by blast
  qed
  then show ?thesis using consumed_weaken [OF consumed_trans [OF c]] by fastforce
qed

lemma inflate_symbol_consumed:
  assumes "eof_ok d" and "tinf_inflate_symbol None d = Some r"
  shows "(\<forall>res d'. r = Inl (res, d') \<longrightarrow> consumed 0 d d' \<and> (eof d \<longrightarrow> res = TINF_DATA_ERROR)) \<and>
    (\<forall>d'. r = Inr d' \<longrightarrow> consumed 0 d d' \<and> \<not> eof d)"
proof -
  obtain symb d1 where s: "tinf_decode_symbol None (ltree d) d = Some (symb, d1)"
    using assms(2) by (cases "tinf_decode_symbol None (ltree d) d") (auto simp: tinf_inflate_symbol_def)
  note c1 = decode_symbol_consumed [OF assms(1) s]
  have c01: "consumed 0 d d1" using consumed_weaken [OF c1] by simp
  show ?thesis
  proof (cases "eof d1 \<or> symb < 257 \<or> 286 \<le> symb")
    case True
    then consider "eof d1" | "\<not> eof d1" "symb < 256" | "\<not> eof d1" "symb = 256 \<or> 286 \<le> symb" by linarith
    then show ?thesis
    proof cases
      case 2
      then obtain d' where "TINF_PUT (of_int symb) d1 = Some d'" "r = Inl (TINF_OK, d')"
        using assms(2) s by (auto simp: tinf_inflate_symbol_def split: bind_splits)
      moreover from this have "consumed 0 d d'" using c01 same_input_consumed(1) [OF put_same_input] by blast
      ultimately show ?thesis using 2(1) c1 by (auto simp: consumed_def)
    qed (use assms(2) s c01 c1 in \<open>auto simp: tinf_inflate_symbol_def consumed_def\<close>)
  next
    case False
    define i where "i = nat (symb - 257)"
    have i: "symb - 257 = int i" "i < 29" using False by (auto simp: i_def)
    have ne: "\<not> eof d" using False c1 by (auto simp: consumed_def)
    obtain len d2 where r: "tinf_read_bits None (length_bits ! i) (length_base ! i) d1 = (len, d2)" by fastforce
    let ?d3 = "d2\<lparr>curlen := len\<rparr>"
    have "eof_ok d1" using c1 by (simp add: consumed_def)
    then have "consumed 0 d1 d2" using consumed_weaken [OF read_bits_consumed(1) [OF _ r]] by simp
    from consumed_trans [OF c01 this] have c3: "consumed 0 d ?d3"
      by (simp add: same_input_consumed(1) [of d2 ?d3] same_input_def)
    obtain dist d4 where s2: "tinf_decode_symbol None (dtree ?d3) ?d3 = Some (dist, d4)"
      using assms(2) s r i False
      by (cases "tinf_decode_symbol None (dtree ?d3) ?d3")
        (auto simp: tinf_inflate_symbol_def access_simps length_tables)
    have "consumed 1 ?d3 d4" using decode_symbol_consumed [OF _ s2] c3 by (simp add: consumed_def)
    from consumed_weaken [OF consumed_trans [OF c3 this]] have c4: "consumed 0 d d4" by simp
    show ?thesis
    proof (cases "30 \<le> dist")
      case True
      then have "r = Inl (TINF_DATA_ERROR, d4)"
        using assms(2) s r i False s2 by (simp add: tinf_inflate_symbol_def access_simps length_tables)
      then show ?thesis using c4 by simp
    next
      case dist: False
      then obtain dbits dbase where b: "fetch_int dist_bits dist = Some dbits" "fetch_int dist_base dist = Some dbase"
        using assms(2) s r i False s2
        by (auto simp: tinf_inflate_symbol_def access_simps length_tables split: bind_splits)
      obtain offs d5 where r5: "tinf_read_bits None dbits dbase d4 = (offs, d5)" by fastforce
      have "eof_ok d4" using c4 by (simp add: consumed_def)
      then have "consumed 0 d4 d5" using consumed_weaken [OF read_bits_consumed(1) [OF _ r5]] by simp
      from consumed_trans [OF c4 this] have c5: "consumed 0 d d5" by simp
      have "same_input d5 d'" if "r = Inl (res, d') \<or> r = Inr d'" for res d'
        using assms(2) s r i False s2 b r5 dist that
        by (auto simp: tinf_inflate_symbol_def access_simps length_tables same_input_def Let_def
            split: option.splits if_splits)
      then show ?thesis using c5 ne same_input_consumed(1) by blast
    qed
  qed
qed

lemma block_data_consumed:
  assumes "eof_ok d" and "tinf_inflate_block_data None d = Some (res, d')"
  shows "consumed 0 d d'" and "eof d \<Longrightarrow> curlen d = 0 \<Longrightarrow> res = TINF_DATA_ERROR"
proof -
  consider (copy) "curlen d \<noteq> 0" "tinf_copy_byte d = Some (res, d')"
    | (ret) "curlen d = 0" "tinf_inflate_symbol None d = Some (Inl (res, d'))"
    | (sym) d1 where "curlen d = 0" "tinf_inflate_symbol None d = Some (Inr d1)" "tinf_copy_byte d1 = Some (res, d')"
    using assms(2) by (auto simp: tinf_inflate_block_data_def split: if_splits option.splits sum.splits)
  then have "consumed 0 d d' \<and> (eof d \<longrightarrow> curlen d = 0 \<longrightarrow> res = TINF_DATA_ERROR)"
  proof cases
    case copy
    then show ?thesis
      using copy_byte_same_input same_input_consumed(1) consumed_refl [OF assms(1)] by blast
  next
    case ret
    then show ?thesis using inflate_symbol_consumed [OF assms(1) ret(2)] by simp
  next
    case sym
    then show ?thesis
      using inflate_symbol_consumed [OF assms(1) sym(2)] copy_byte_same_input [OF sym(3)] same_input_consumed(1)
      by blast
  qed
  then show "consumed 0 d d'" and "eof d \<Longrightarrow> curlen d = 0 \<Longrightarrow> res = TINF_DATA_ERROR" by simp_all
qed

lemma get_byte_source:
  assumes "eof d \<longrightarrow> source d = []" and "uzlib_get_byte None d = (b, d')"
  shows "(eof d' \<longrightarrow> source d' = []) \<and> (eof d \<longrightarrow> eof d' \<and> b = 0) \<and>
    length (source d') \<le> length (source d) \<and> tag d' = tag d \<and> bitcount d' = bitcount d"
  using assms by (auto simp: uzlib_get_byte_def split: list.splits if_splits)

lemma stored_byte_consumed:
  assumes "eof_ok d" and "tinf_inflate_uncompressed_block None d = Some (res, d')" and "res \<noteq> TINF_DATA_ERROR"
    and "curlen d \<noteq> 0 \<Longrightarrow> bitcount d = 0"
  shows "consumed 0 d d' \<and> bitcount d' = 0 \<and> \<not> (eof d \<and> curlen d = 0)"
proof -
  obtain d1 where d1: "stored_byte None d1 = Some (res, d')" "eof d \<longrightarrow> eof d1"
    "eof d1 \<longrightarrow> source d1 = []" "length (source d1) \<le> length (source d)" "bitcount d1 = 0"
    "\<not> (eof d \<and> curlen d = 0)"
  proof (cases "curlen d = 0")
    case False
    then show ?thesis
      using that [of d] assms by (simp add: tinf_inflate_uncompressed_block_def stored_byte_def eof_ok_def)
  next
    case True
    obtain l0 d1 where g1: "uzlib_get_byte None d = (l0, d1)" by fastforce
    obtain l1 d2 where g2: "uzlib_get_byte None d1 = (l1, d2)" by fastforce
    obtain i0 d3 where g3: "uzlib_get_byte None d2 = (i0, d3)" by fastforce
    obtain i1 d4 where g4: "uzlib_get_byte None d3 = (i1, d4)" by fastforce
    have e: "eof d \<longrightarrow> source d = []" using assms(1) by (simp add: eof_ok_def)
    note s1 = get_byte_source [OF e g1]
    note s2 = get_byte_source [OF conjunct1 [OF s1] g2]
    note s3 = get_byte_source [OF conjunct1 [OF s2] g3]
    note s4 = get_byte_source [OF conjunct1 [OF s3] g4]
    define n where "n = unat l0 + 256 * unat l1"
    let ?bad = "(of_nat n :: u32) \<noteq> NOT (of_nat (unat i0 + 256 * unat i1)) AND 0x0000ffff"
    have u: "tinf_inflate_uncompressed_block None d = (if ?bad then Some (TINF_DATA_ERROR, d4)
        else stored_byte None (d4\<lparr>curlen := n + 1, bitcount := 0\<rparr>))"
      using True g1 g2 g3 g4 by (simp add: tinf_inflate_uncompressed_block_def stored_byte_def Let_def n_def)
    have "?bad" if "eof d"
    proof -
      have "l0 = 0" "l1 = 0" "i0 = 0" "i1 = 0" using that s1 s2 s3 s4 by auto
      then show ?thesis by (simp add: n_def)
    qed
    then show ?thesis
      using that [of "d4\<lparr>curlen := n + 1, bitcount := 0\<rparr>"] u assms(2,3) s1 s2 s3 s4 by (auto split: if_splits)
  qed
  obtain d2 where d2: "same_input d2 d'" "eof d1 \<longrightarrow> eof d2" "eof d2 \<longrightarrow> source d2 = []"
    "length (source d2) \<le> length (source d1)" "bitcount d2 = 0"
  proof (cases "curlen d1 - 1 = 0")
    case True
    then show ?thesis using that [of d1] d1 by (auto simp: stored_byte_def same_input_def Let_def)
  next
    case False
    obtain c d2 where g: "uzlib_get_byte None (d1\<lparr>curlen := curlen d1 - 1\<rparr>) = (c, d2)" by fastforce
    then have "TINF_PUT c d2 = Some d'"
      using d1(1) False by (auto simp: stored_byte_def Let_def split: bind_splits)
    then show ?thesis
      using that [of d2] put_same_input get_byte_source [OF _ g] d1 by auto
  qed
  have "consumed 0 d d2"
    using d1(2-5) d2(2-5) by (auto simp: consumed_def eof_ok_def bits_left_def)
  then show ?thesis
    using same_input_consumed(1) [OF d2(1)] d2(1,5) d1(6) by (simp add: same_input_def)
qed

text \<open>A stored block under way has no bits of the current byte left.\<close>

definition stored_ok :: "'e uncomp \<Rightarrow> bool" where
  "stored_ok d \<longleftrightarrow> (btype d = 0 \<and> curlen d \<noteq> 0 \<longrightarrow> bitcount d = 0)"

lemma process_block_consumed:
  assumes "eof_ok d" and "tinf_process_block None d = Some (res, d')" and "res \<noteq> TINF_DATA_ERROR"
    and "stored_ok d" and "btype d' = btype d"
  shows "consumed 0 d d' \<and> stored_ok d' \<and> \<not> (eof d \<and> curlen d = 0)"
proof (cases "btype d = 0")
  case True
  then show ?thesis
    using stored_byte_consumed [OF assms(1) _ assms(3), of d'] assms
    by (auto simp: tinf_process_block_def stored_ok_def)
next
  case False
  then have "tinf_inflate_block_data None d = Some (res, d')"
    using assms(2,3) by (auto simp: tinf_process_block_def split: if_splits)
  then show ?thesis
    using block_data_consumed [OF assms(1)] False assms by (auto simp: stored_ok_def)
qed

lemma uncompress_loop_step:
  assumes "block_header rs newblk d = Some (TINF_OK, d1)" and "tinf_process_block rs d1 = Some (res, d2)"
  shows "uzlib_uncompress_loop (Suc fuel) rs newblk d =
    (if res = TINF_DONE \<and> bfinal d2 = 0 then uzlib_uncompress_loop fuel rs True d2
     else if res \<noteq> TINF_OK then Some (res, d2)
     else if dest d2 < dest_limit d2 then uzlib_uncompress_loop fuel rs (btype d2 = -1) d2
     else Some (TINF_OK, d2))"
  using assms by simp

lemma fault_aheadI:
  assumes "block_header rs newblk d = Some (TINF_OK, d1)" and "\<not> fault_ahead rs newblk d"
  shows "\<not> off_table rs d1"
    and "tinf_process_block rs d1 = Some (TINF_DONE, d2) \<Longrightarrow> bfinal d2 = 0 \<Longrightarrow> \<not> fault_ahead rs True d2"
    and "tinf_process_block rs d1 = Some (TINF_OK, d2) \<Longrightarrow> dest d2 < dest_limit d2 \<Longrightarrow>
      \<not> fault_ahead rs (btype d2 = -1) d2"
  using uncompress_visits.intros [OF assms(1)] assms(2) unfolding fault_ahead_def by blast+

text \<open>A state in which uzlib_uncompress may be called: after uzlib_uncompress_init, or after a call
  that returned TINF_OK or TINF_DONE.\<close>

definition resumable :: "'e uncomp \<Rightarrow> bool" where
  "resumable d \<longleftrightarrow> uncomp_ok d \<and> eof_ok d \<and> stored_ok d \<and> (btype d = -1 \<longrightarrow> curlen d = 0)"

lemma stopped_resumable:
  assumes "step_ok d1 res d" and "consumed n d1 d" and "stored_ok d" and "btype d1 = -1 \<longrightarrow> res \<noteq> TINF_OK"
    and "res = TINF_OK \<or> res = TINF_DONE"
  shows "resumable d"
  using assms by (auto simp: resumable_def step_ok_def consumed_def)

lemma uncompress_loop_terminates:
  assumes "uncomp_ok d" and "dest d < dest_limit d" and "newblk \<Longrightarrow> curlen d = 0" and "eof_ok d"
    and "stored_ok d" and "2 * (dest_limit d - dest d + bits_left d) + (if newblk then 1 else 2) \<le> fuel"
    and "\<not> fault_ahead None newblk d"
  shows "\<exists>res d'. uzlib_uncompress_loop fuel None newblk d = Some (res, d') \<and>
    (res = TINF_OK \<or> res = TINF_DONE \<longrightarrow> resumable d')"
  using assms
proof (induction fuel arbitrary: newblk d)
  case 0
  then show ?case by (simp split: if_splits)
next
  case (Suc fuel)
  obtain res1 d1 where b: "block_header None newblk d = Some (res1, d1)" "wrote d d1" "dest d1 = dest d"
      "res1 = TINF_OK \<longrightarrow> uncomp_ok d1 \<and> (newblk \<longrightarrow> curlen d1 = 0)" "res1 = TINF_OK \<or> res1 = TINF_DATA_ERROR"
    using header_ok [OF cb_frame_None Suc.prems(1,3)] by blast
  show ?case
  proof (cases "res1 = TINF_OK")
    case False
    then show ?thesis using b(1,5) by (auto simp: tinf_codes)
  next
    case True
    note b1 = b(1) [unfolded True]
    note nf = fault_aheadI [OF b1 Suc.prems(7)]
    have lim: "dest_limit d1 = dest_limit d" using b(2) by (simp add: wrote_def)
    have c1: "consumed (if newblk then 1 else 0) d d1"
      using b1 start_block_consumed [OF Suc.prems(4)] consumed_refl [OF Suc.prems(4)] by (auto split: if_splits)
    then have e1: "eof_ok d1" by (simp add: consumed_def)
    have st1: "stored_ok d1" using b b1 True Suc.prems(5) by (auto simp: stored_ok_def split: if_splits)
    obtain res2 d2 where p: "tinf_process_block None d1 = Some (res2, d2)" "step_ok d1 res2 d2"
      using process_block_ok [OF cb_frame_None _ _ nf(1)] b(4) True Suc.prems(2) lim b(3) by metis
    note run = uncompress_loop_step [OF b1 p(1), of fuel]
    have bt: "btype d2 = btype d1" and lim2: "dest_limit d2 = dest_limit d"
      using p(2) lim by (simp_all add: step_ok_def wrote_def)
    have c2: "consumed 0 d1 d2 \<and> stored_ok d2 \<and> \<not> (eof d1 \<and> curlen d1 = 0)" if "res2 \<noteq> TINF_DATA_ERROR"
      by (rule process_block_consumed [OF e1 p(1) that st1 bt])
    note left1 = consumed_left [OF c1]
    consider (nextb) "res2 = TINF_DONE" "bfinal d2 = 0" | (byte) "res2 = TINF_OK" "dest d2 < dest_limit d2"
      | (stop) "uzlib_uncompress_loop (Suc fuel) None newblk d = Some (res2, d2)"
      unfolding run by (cases "res2 = TINF_DONE \<and> bfinal d2 = 0"; cases "res2 = TINF_OK"; cases "dest d2 < dest_limit d2")
          (auto simp: tinf_codes)
    then show ?thesis
    proof cases
      case nextb
      then have c: "consumed 0 d1 d2" "stored_ok d2" "\<not> (eof d1 \<and> curlen d1 = 0)"
        using c2 by (simp_all add: tinf_codes)
      have d2: "uncomp_ok d2" "dest d2 = dest d" "curlen d2 = 0"
        using p(2) nextb b(3) by (simp_all add: step_ok_def)
      have "bits_left d1 + (if newblk then 1 else 0) \<le> bits_left d"
        using c1 c(3) b(4) True left1 by (auto simp: consumed_def)
      then have "2 * (dest_limit d2 - dest d2 + bits_left d2) + 1 \<le> fuel"
        using consumed_left [OF c(1)] Suc.prems(6) lim2 d2(2) by (auto split: if_splits)
      then have "\<exists>res d'. uzlib_uncompress_loop fuel None True d2 = Some (res, d') \<and>
          (res = TINF_OK \<or> res = TINF_DONE \<longrightarrow> resumable d')"
        using Suc.IH [of d2 True] Suc.prems(2) d2 lim2 c nf(2) p(1) nextb by (simp add: consumed_def)
      then show ?thesis unfolding run using nextb by simp
    next
      case byte
      then have c: "consumed 0 d1 d2" "stored_ok d2" using c2 by (simp_all add: tinf_codes)
      have d2: "uncomp_ok d2" "dest d2 = dest d + 1"
        using p(2) byte b(3) by (simp_all add: step_ok_def)
      have nb: "btype d2 \<noteq> -1"
        using p(1) byte bt by (auto simp: tinf_process_block_def tinf_codes)
      have "2 * (dest_limit d2 - dest d2 + bits_left d2) + 2 \<le> fuel"
        using consumed_left [OF c(1)] left1 Suc.prems(2,6) lim2 d2(2) by (auto split: if_splits)
      then have "\<exists>res d'. uzlib_uncompress_loop fuel None False d2 = Some (res, d') \<and>
          (res = TINF_OK \<or> res = TINF_DONE \<longrightarrow> resumable d')"
        using Suc.IH [of d2 False] d2 c nf(3) p(1) byte nb by (simp add: consumed_def)
      then show ?thesis unfolding run using byte nb by (simp add: tinf_codes)
    next
      case stop
      have "btype d1 = -1 \<longrightarrow> res2 \<noteq> TINF_OK" using p(1) by (auto simp: tinf_process_block_def tinf_codes)
      then have "resumable d2" if "res2 = TINF_OK \<or> res2 = TINF_DONE"
        using stopped_resumable [OF p(2)] c2 that by (auto simp: tinf_codes)
      then show ?thesis using stop by blast
    qed
  qed
qed

text \<open>A run that comes to a state of \<open>off_table\<close> has no result, with any fuel.\<close>

lemma visited_fault:
  assumes "uncompress_visits rs newblk d d1" and "off_table rs d1"
  shows "uzlib_uncompress_loop fuel rs newblk d = None"
  using assms
proof (induction arbitrary: fuel rule: uncompress_visits.induct)
  case (enter newblk d d1)
  have "tinf_process_block rs d1 = None"
    using enter.prems block_data_fault by (auto simp: off_table_def tinf_process_block_def)
  then show ?case using enter.hyps by (cases fuel) simp_all
next
  case (next_block newblk d d1 d2 d3)
  then show ?case by (cases fuel) (simp_all add: uncompress_loop_step del: uzlib_uncompress_loop.simps(2))
next
  case (next_byte newblk d d1 d2 d3)
  then show ?case
    by (cases fuel) (simp_all add: uncompress_loop_step tinf_codes del: uzlib_uncompress_loop.simps(2))
qed

section \<open>Main property\<close>

text \<open>C12. uzlib_uncompress ends on every input in memory, truncated and malformed ones included, at
  the start of a block and in the middle of one: unless the run comes to a state in which an
  undecodable distance code makes it read before its table (\<open>off_table\<close>), it returns, with fuel linear
  in the output space and the unread bits, and after TINF_OK and TINF_DONE it may be called again;
  if the run does come to such a state, no fuel gives a result.\<close>

theorem uncompress_terminates:
  assumes "resumable d" and "dest d < dest_limit d"
    and "2 * (dest_limit d - dest d + bits_left d) + 2 \<le> fuel"
  shows "if \<exists>d1. uncompress_visits None (btype d = -1) d d1 \<and> off_table None d1
    then \<forall>n. uzlib_uncompress n None d = None
    else \<exists>res d'. uzlib_uncompress fuel None d = Some (res, d') \<and>
      (res = TINF_OK \<or> res = TINF_DONE \<longrightarrow> resumable d')"
proof (cases "fault_ahead None (btype d = -1) d")
  case True
  then show ?thesis using visited_fault by (auto simp: fault_ahead_def uzlib_uncompress_def)
next
  case False
  have "\<exists>res d'. uzlib_uncompress_loop fuel None (btype d = -1) d = Some (res, d') \<and>
      (res = TINF_OK \<or> res = TINF_DONE \<longrightarrow> resumable d')"
    by (rule uncompress_loop_terminates) (use assms False in \<open>auto simp: resumable_def\<close>)
  then show ?thesis using False unfolding fault_ahead_def uzlib_uncompress_def by (simp only: if_False)
qed

lemma memory_resumable: "resumable (memory_uncomp src n)"
  using memory_uncomp_ok [of src n] by (simp add: resumable_def memory_uncomp_def eof_ok_def stored_ok_def)

text \<open>A stored block of one byte: the run meets no undecodable code, so the call returns.\<close>

theorem uncompress_terminates_witness:
  "\<exists>res d'. uzlib_uncompress 100 None (memory_uncomp stored_a 1) = Some (res, d') \<and>
     (res = TINF_OK \<or> res = TINF_DONE \<longrightarrow> resumable d')"
proof -
  have "\<not> (\<forall>n. uzlib_uncompress n None (memory_uncomp stored_a 1) = None)"
    using stored_a_run by (metis option.distinct(1))
  then show ?thesis
    using uncompress_terminates [OF memory_resumable, of stored_a 1 100]
    by (simp add: memory_uncomp_def bits_left_def split: if_splits)
qed

end
