(* ===== verification/Deflate_Spec.thy ===== *)
theory Deflate_Spec
  imports Tinf_Tree
begin

text \<open>
  What compressor and decompressor agree on (RFC 1951, blocks with fixed codes): the tokens of LZ77,
  the bytes they stand for, and their bit strings.  Nothing here models code; Defl_Static proves that
  the compressor emits such bit strings, Inflate_Fixed that the decompressor reads them.
\<close>

section \<open>Tokens\<close>

datatype token = Lit u8 | Match nat nat

text \<open>\<open>copy_match dist n h\<close> appends \<open>n\<close> bytes, each the one \<open>dist\<close> places back.\<close>

primrec copy_match :: "nat \<Rightarrow> nat \<Rightarrow> u8 list \<Rightarrow> u8 list" where
  "copy_match dist 0 h = h"
| "copy_match dist (Suc n) h = copy_match dist n (h @ [h ! (length h - dist)])"

fun expand :: "token list \<Rightarrow> u8 list \<Rightarrow> u8 list" where
  "expand [] h = h"
| "expand (Lit c # ts) h = expand ts (h @ [c])"
| "expand (Match dist n # ts) h = expand ts (copy_match dist n h)"

text \<open>Every match reaches back to a byte there is, at most \<open>w\<close> places.\<close>

fun tokens_ok :: "nat \<Rightarrow> token list \<Rightarrow> nat \<Rightarrow> bool" where
  "tokens_ok w [] n = True"
| "tokens_ok w (Lit c # ts) n = tokens_ok w ts (n + 1)"
| "tokens_ok w (Match dist len # ts) n =
     (0 < dist \<and> dist \<le> n \<and> dist \<le> w \<and> 0 < len \<and> tokens_ok w ts (n + len))"

lemma length_copy_match [simp]: "length (copy_match dist n h) = length h + n"
  by (induction n arbitrary: h) auto

lemma copy_match_add: "copy_match dist (m + n) h = copy_match dist n (copy_match dist m h)"
  by (induction m arbitrary: h) auto

lemma copy_match_prefix: "\<exists>xs. copy_match dist n h = h @ xs \<and> length xs = n"
proof (induction n arbitrary: h)
  case (Suc n)
  obtain xs where "copy_match dist n (h @ [h ! (length h - dist)]) = (h @ [h ! (length h - dist)]) @ xs"
    "length xs = n" using Suc by blast
  then show ?case by simp
qed simp

lemma expand_prefix: "\<exists>xs. expand ts h = h @ xs"
proof (induction ts h rule: expand.induct)
  case (3 dist n ts h)
  then show ?case using copy_match_prefix [of dist n h] by auto
qed auto

lemma expand_append: "expand (ss @ ts) h = expand ts (expand ss h)"
  by (induction ss h rule: expand.induct) auto

text \<open>The number of bytes the tokens stand for.\<close>

fun tokens_len :: "token list \<Rightarrow> nat" where
  "tokens_len [] = 0"
| "tokens_len (Lit c # ts) = 1 + tokens_len ts"
| "tokens_len (Match dist n # ts) = n + tokens_len ts"

lemma length_expand [simp]: "length (expand ts h) = length h + tokens_len ts"
  by (induction ts h rule: expand.induct) auto

lemma tokens_len_append [simp]: "tokens_len (ss @ ts) = tokens_len ss + tokens_len ts"
  by (induction ss rule: tokens_len.induct) auto

lemma tokens_ok_append: "tokens_ok w (ss @ ts) n \<longleftrightarrow> tokens_ok w ss n \<and> tokens_ok w ts (n + tokens_len ss)"
  by (induction w ss n rule: tokens_ok.induct) (auto simp: add.assoc)

section \<open>Bit strings of a block with fixed codes\<close>

abbreviation lit_bits :: "nat \<Rightarrow> bool list" where
  "lit_bits \<equiv> canon_bits fixed_lit_lengths"

abbreviation dist_code_bits :: "nat \<Rightarrow> bool list" where
  "dist_code_bits \<equiv> canon_bits fixed_dist_lengths"

inductive encodes :: "token list \<Rightarrow> bool list \<Rightarrow> bool" where
  encodes_Nil: "encodes [] []"
| encodes_Lit: "encodes ts bs \<Longrightarrow> encodes (Lit c # ts) (lit_bits (unat c) @ bs)"
| encodes_Match: "m < 29 \<Longrightarrow> e < 2 ^ (length_bits ! m) \<Longrightarrow> k < 30 \<Longrightarrow> e' < 2 ^ (dist_bits ! k) \<Longrightarrow>
    encodes ts bs \<Longrightarrow>
    encodes (Match (dist_base ! k + e') (length_base ! m + e) # ts)
      (lit_bits (257 + m) @ nat_bits (length_bits ! m) e @ dist_code_bits k @ nat_bits (dist_bits ! k) e' @ bs)"

inductive_cases encodes_NilE: "encodes [] bs"
inductive_cases encodes_LitE: "encodes (Lit c # ts) bs"
inductive_cases encodes_MatchE: "encodes (Match dist len # ts) bs"

lemma encodes_append: "encodes ss as \<Longrightarrow> encodes ts bs \<Longrightarrow> encodes (ss @ ts) (as @ bs)"
  by (induction rule: encodes.induct) (auto intro: encodes.intros)

text \<open>A final block with fixed codes: header, tokens, end-of-block symbol 256.\<close>

definition fixed_block :: "token list \<Rightarrow> bool list \<Rightarrow> bool" where
  "fixed_block ts bs \<longleftrightarrow> (\<exists>es. encodes ts es \<and> bs = [True, True, False] @ es @ lit_bits 256)"

end
