(* ===== verification/Defl_Static.thy ===== *)
theory Defl_Static
  imports Deflate_Spec
begin

text \<open>
  The compressor's back end, uzlib/src/defl_static.c: bit output (outbits), the fixed Huffman codes
  (mirrorbytes, lencodes, distcodes) and the encoders zlib_literal, zlib_match, zlib_start_block,
  zlib_finish_block.  The routines return \<open>None\<close> where an assert of the C code fails.

  \<open>outbuf\<close> holds the outlen bytes written so far; outsize follows the reallocation, which is taken
  to succeed (the code does not check the result of realloc).  \<open>unsigned long\<close> has 32 bits on the
  target.
\<close>

section \<open>struct Outbuf\<close>

record outbuf =
  outbuf :: "u8 list"
  outsize :: nat
  obits :: u32
  noutbits :: nat
  comp_disabled :: bool

text \<open>The while loop of outbits: move full bytes to the buffer.\<close>

function outbits_flush :: "'a outbuf_scheme \<Rightarrow> 'a outbuf_scheme" where
  "outbits_flush out =
     (if 8 \<le> noutbits out then
        (let out = (if outsize out \<le> length (outbuf out)
                    then out\<lparr>outsize := length (outbuf out) + 64\<rparr> else out)
         in outbits_flush (out\<lparr>outbuf := outbuf out @ [ucast (obits out AND 0xff)],
              obits := shr (obits out) 8, noutbits := noutbits out - 8\<rparr>))
      else out)"
  by pat_completeness auto
termination by (relation "measure noutbits") (auto simp: Let_def)

declare outbits_flush.simps [simp del]

definition outbits :: "'a outbuf_scheme \<Rightarrow> u32 \<Rightarrow> nat \<Rightarrow> 'a outbuf_scheme option" where
  "outbits out bits nbits =
     (if noutbits out + nbits \<le> 32
      then Some (outbits_flush (out\<lparr>obits := obits out OR shl bits (noutbits out),
                                    noutbits := noutbits out + nbits\<rparr>))
      else None)"

section \<open>Fixed codes\<close>

definition mirrorbytes :: "nat list" where
  "mirrorbytes =
    [0x00, 0x80, 0x40, 0xc0, 0x20, 0xa0, 0x60, 0xe0,
     0x10, 0x90, 0x50, 0xd0, 0x30, 0xb0, 0x70, 0xf0,
     0x08, 0x88, 0x48, 0xc8, 0x28, 0xa8, 0x68, 0xe8,
     0x18, 0x98, 0x58, 0xd8, 0x38, 0xb8, 0x78, 0xf8,
     0x04, 0x84, 0x44, 0xc4, 0x24, 0xa4, 0x64, 0xe4,
     0x14, 0x94, 0x54, 0xd4, 0x34, 0xb4, 0x74, 0xf4,
     0x0c, 0x8c, 0x4c, 0xcc, 0x2c, 0xac, 0x6c, 0xec,
     0x1c, 0x9c, 0x5c, 0xdc, 0x3c, 0xbc, 0x7c, 0xfc,
     0x02, 0x82, 0x42, 0xc2, 0x22, 0xa2, 0x62, 0xe2,
     0x12, 0x92, 0x52, 0xd2, 0x32, 0xb2, 0x72, 0xf2,
     0x0a, 0x8a, 0x4a, 0xca, 0x2a, 0xaa, 0x6a, 0xea,
     0x1a, 0x9a, 0x5a, 0xda, 0x3a, 0xba, 0x7a, 0xfa,
     0x06, 0x86, 0x46, 0xc6, 0x26, 0xa6, 0x66, 0xe6,
     0x16, 0x96, 0x56, 0xd6, 0x36, 0xb6, 0x76, 0xf6,
     0x0e, 0x8e, 0x4e, 0xce, 0x2e, 0xae, 0x6e, 0xee,
     0x1e, 0x9e, 0x5e, 0xde, 0x3e, 0xbe, 0x7e, 0xfe,
     0x01, 0x81, 0x41, 0xc1, 0x21, 0xa1, 0x61, 0xe1,
     0x11, 0x91, 0x51, 0xd1, 0x31, 0xb1, 0x71, 0xf1,
     0x09, 0x89, 0x49, 0xc9, 0x29, 0xa9, 0x69, 0xe9,
     0x19, 0x99, 0x59, 0xd9, 0x39, 0xb9, 0x79, 0xf9,
     0x05, 0x85, 0x45, 0xc5, 0x25, 0xa5, 0x65, 0xe5,
     0x15, 0x95, 0x55, 0xd5, 0x35, 0xb5, 0x75, 0xf5,
     0x0d, 0x8d, 0x4d, 0xcd, 0x2d, 0xad, 0x6d, 0xed,
     0x1d, 0x9d, 0x5d, 0xdd, 0x3d, 0xbd, 0x7d, 0xfd,
     0x03, 0x83, 0x43, 0xc3, 0x23, 0xa3, 0x63, 0xe3,
     0x13, 0x93, 0x53, 0xd3, 0x33, 0xb3, 0x73, 0xf3,
     0x0b, 0x8b, 0x4b, 0xcb, 0x2b, 0xab, 0x6b, 0xeb,
     0x1b, 0x9b, 0x5b, 0xdb, 0x3b, 0xbb, 0x7b, 0xfb,
     0x07, 0x87, 0x47, 0xc7, 0x27, 0xa7, 0x67, 0xe7,
     0x17, 0x97, 0x57, 0xd7, 0x37, 0xb7, 0x77, 0xf7,
     0x0f, 0x8f, 0x4f, 0xcf, 0x2f, 0xaf, 0x6f, 0xef,
     0x1f, 0x9f, 0x5f, 0xdf, 0x3f, 0xbf, 0x7f, 0xff]"

record coderecord =
  code :: nat
  extrabits :: nat
  cmin :: int
  cmax :: int

abbreviation coderec :: "nat \<Rightarrow> nat \<Rightarrow> int \<Rightarrow> int \<Rightarrow> coderecord" where
  "coderec c e lo hi \<equiv> \<lparr>code = c, extrabits = e, cmin = lo, cmax = hi\<rparr>"

definition lencodes :: "coderecord list" where
  "lencodes =
    [coderec 257 0 3 3, coderec 258 0 4 4, coderec 259 0 5 5,
     coderec 260 0 6 6, coderec 261 0 7 7, coderec 262 0 8 8,
     coderec 263 0 9 9, coderec 264 0 10 10, coderec 265 1 11 12,
     coderec 266 1 13 14, coderec 267 1 15 16, coderec 268 1 17 18,
     coderec 269 2 19 22, coderec 270 2 23 26, coderec 271 2 27 30,
     coderec 272 2 31 34, coderec 273 3 35 42, coderec 274 3 43 50,
     coderec 275 3 51 58, coderec 276 3 59 66, coderec 277 4 67 82,
     coderec 278 4 83 98, coderec 279 4 99 114, coderec 280 4 115 130,
     coderec 281 5 131 162, coderec 282 5 163 194, coderec 283 5 195 226,
     coderec 284 5 227 257, coderec 285 0 258 258]"

definition distcodes :: "coderecord list" where
  "distcodes =
    [coderec 0 0 1 1, coderec 1 0 2 2, coderec 2 0 3 3,
     coderec 3 0 4 4, coderec 4 1 5 6, coderec 5 1 7 8,
     coderec 6 2 9 12, coderec 7 2 13 16, coderec 8 3 17 24,
     coderec 9 3 25 32, coderec 10 4 33 48, coderec 11 4 49 64,
     coderec 12 5 65 96, coderec 13 5 97 128, coderec 14 6 129 192,
     coderec 15 6 193 256, coderec 16 7 257 384, coderec 17 7 385 512,
     coderec 18 8 513 768, coderec 19 8 769 1024, coderec 20 9 1025 1536,
     coderec 21 9 1537 2048, coderec 22 10 2049 3072, coderec 23 10 3073 4096,
     coderec 24 11 4097 6144, coderec 25 11 6145 8192, coderec 26 12 8193 12288,
     coderec 27 12 12289 16384, coderec 28 13 16385 24576, coderec 29 13 24577 32768]"

section \<open>Encoders\<close>

definition zlib_literal :: "'a outbuf_scheme \<Rightarrow> u8 \<Rightarrow> 'a outbuf_scheme option" where
  "zlib_literal out c =
     (if comp_disabled out then outbits out (ucast c) 8
      else if unat c \<le> 143 then outbits out (of_nat (mirrorbytes ! (0x30 + unat c))) 8
      else outbits out (of_nat (1 + 2 * mirrorbytes ! nat (0x90 - 144 + int (unat c)))) 9)"

text \<open>The binary searches of zlib_match; \<open>assert (j - i >= 2)\<close>.\<close>

function find_code :: "coderecord list \<Rightarrow> int \<Rightarrow> int \<Rightarrow> int \<Rightarrow> coderecord option" where
  "find_code tab i j v =
     (if 2 \<le> j - i then
        (let k = (j + i) div 2 in
         case fetch_int tab k of
           None \<Rightarrow> None
         | Some r \<Rightarrow>
             if v < cmin r then find_code tab i k v
             else if cmax r < v then find_code tab k j v
             else Some r)
      else None)"
  by pat_completeness auto
termination by (relation "measure (\<lambda>(tab, i, j, v). nat (j - i))") auto

declare find_code.simps [simp del]

text \<open>One round of the while loop of zlib_match, for \<open>thislen\<close> bytes.\<close>

definition zlib_match_step :: "'a outbuf_scheme \<Rightarrow> int \<Rightarrow> int \<Rightarrow> 'a outbuf_scheme option" where
  "zlib_match_step out distance thislen = do {
     l \<leftarrow> find_code lencodes (-1) (int (length lencodes)) thislen;
     out \<leftarrow> (if code l \<le> 279 then outbits out (of_nat (mirrorbytes ! ((code l - 256) * 2))) 7
             else outbits out (of_nat (mirrorbytes ! nat (0xc0 - 280 + int (code l)))) 8);
     out \<leftarrow> (if extrabits l \<noteq> 0 then outbits out (of_int (thislen - cmin l)) (extrabits l) else Some out);
     d \<leftarrow> find_code distcodes (-1) (int (length distcodes)) distance;
     out \<leftarrow> outbits out (of_nat (mirrorbytes ! (code d * 8))) 5;
     (if extrabits d \<noteq> 0 then outbits out (of_int (distance - cmin d)) (extrabits d) else Some out)
   }"

definition zlib_thislen :: "int \<Rightarrow> int" where
  "zlib_thislen len = (if 260 < len then 258 else if len \<le> 258 then len else len - 3)"

function zlib_match_loop :: "'a outbuf_scheme \<Rightarrow> int \<Rightarrow> int \<Rightarrow> 'a outbuf_scheme option" where
  "zlib_match_loop out distance len =
     (if 0 < len then
        (case zlib_match_step out distance (zlib_thislen len) of
           None \<Rightarrow> None
         | Some out \<Rightarrow> zlib_match_loop out distance (len - zlib_thislen len))
      else Some out)"
  by pat_completeness auto
termination by (relation "measure (\<lambda>(out, distance, len). nat len)") (auto simp: zlib_thislen_def)

declare zlib_match_loop.simps [simp del]

definition zlib_match :: "'a outbuf_scheme \<Rightarrow> int \<Rightarrow> int \<Rightarrow> 'a outbuf_scheme option" where
  "zlib_match out distance len = (if comp_disabled out then None else zlib_match_loop out distance len)"

definition zlib_start_block :: "'a outbuf_scheme \<Rightarrow> 'a outbuf_scheme option" where
  "zlib_start_block out = do { out \<leftarrow> outbits out 1 1; outbits out 1 2 }"

definition zlib_finish_block :: "'a outbuf_scheme \<Rightarrow> 'a outbuf_scheme option" where
  "zlib_finish_block out = do { out \<leftarrow> outbits out 0 7; outbits out 0 7 }"

section \<open>The bits written so far\<close>

definition outbuf_ok :: "'a outbuf_scheme \<Rightarrow> bool" where
  "outbuf_ok out \<longleftrightarrow> noutbits out < 8 \<and> unat (obits out) < 2 ^ noutbits out"

text \<open>The bytes in the buffer, then the bits that wait in \<open>obits\<close>.\<close>

definition out_stream :: "'a outbuf_scheme \<Rightarrow> bool list" where
  "out_stream out = bytes_bits (outbuf out) @ nat_bits (noutbits out) (unat (obits out))"

lemma or_shl_unat:
  assumes "unat (w :: u32) < 2 ^ k" and "v < 2 ^ n" and "k + n \<le> 32"
  shows "unat (w OR shl (of_nat v) k) = unat w + 2 ^ k * v"
proof -
  have bnd: "v * 2 ^ k < 2 ^ 32"
  proof -
    have "v * 2 ^ k < 2 ^ n * 2 ^ k" using assms(2) by simp
    also have "\<dots> = 2 ^ (n + k)" by (simp add: power_add)
    also have "\<dots> \<le> 2 ^ 32" using assms(3) by (intro power_increasing) simp_all
    finally show ?thesis .
  qed
  then have "v < 2 ^ 32"
    by (metis le_less_trans mult.right_neutral mult_le_mono2 one_le_numeral one_le_power)
  then have sh: "unat (shl (of_nat v :: u32) k) = v * 2 ^ k"
    using bnd by (simp add: unat_shl unat_of_nat take_bit_eq_mod)
  have d: "w AND shl (of_nat v) k = 0"
  proof (rule bit_word_eqI)
    fix i assume "i < LENGTH(32)"
    show "bit (w AND shl (of_nat v) k) i = bit (0 :: u32) i"
    proof (cases "i < k")
      case False
      then have "\<not> bit (unat w) i" using bit_small_nat [OF assms(1)] by simp
      then show ?thesis by (simp add: bit_and_iff bit_shl bit_unsigned_iff)
    qed (simp add: bit_and_iff bit_shl)
  qed
  have "w OR shl (of_nat v) k = w + shl (of_nat v) k"
    using disjunctive_add_eq_or [OF d] by simp
  moreover have "unat w + v * 2 ^ k < 2 ^ 32"
  proof -
    have "Suc v * 2 ^ k \<le> 2 ^ n * 2 ^ k" using assms(2) by (intro mult_le_mono1) simp
    also have "\<dots> = 2 ^ (n + k)" by (simp add: power_add)
    also have "\<dots> \<le> 2 ^ 32" using assms(3) by (intro power_increasing) simp_all
    finally show ?thesis using assms(1) by simp
  qed
  ultimately show ?thesis using sh by (simp add: unat_word_ariths mult.commute)
qed

lemma flush_stream:
  assumes "noutbits out \<le> 32" and "unat (obits out) < 2 ^ noutbits out"
  shows "outbuf_ok (outbits_flush out) \<and> comp_disabled (outbits_flush out) = comp_disabled out \<and>
    out_stream (outbits_flush out) = out_stream out \<and> outbuf.more (outbits_flush out) = outbuf.more out \<and>
    (\<exists>bs. outbuf (outbits_flush out) = outbuf out @ bs)"
  using assms
proof (induction out rule: outbits_flush.induct)
  case (1 out)
  show ?case
  proof (cases "8 \<le> noutbits out")
    case False
    then show ?thesis using 1(2,3) by (subst (1 2 3 4 5) outbits_flush.simps) (simp add: outbuf_ok_def)
  next
    case True
    let ?o = "if outsize out \<le> length (outbuf out) then out\<lparr>outsize := length (outbuf out) + 64\<rparr> else out"
    let ?out = "?o\<lparr>outbuf := outbuf ?o @ [ucast (obits ?o AND 0xff)],
              obits := shr (obits ?o) 8, noutbits := noutbits ?o - 8\<rparr>"
    have f: "outbits_flush out = outbits_flush ?out"
      using True by (subst outbits_flush.simps) (simp add: Let_def)
    have n: "noutbits out = 8 + (noutbits out - 8)" using True by simp
    have small: "unat (shr (obits out) 8) < 2 ^ (noutbits out - 8)"
    proof -
      have "unat (obits out) < 2 ^ 8 * 2 ^ (noutbits out - 8)" using 1(3) n by (metis power_add)
      then show ?thesis by (simp add: unat_shr less_mult_imp_div_less mult.commute)
    qed
    have b: "byte_bits (ucast (obits out AND 0xff)) = nat_bits 8 (unat (obits out))"
    proof -
      have "(ucast (obits out AND 0xff) :: u8) = ucast (obits out)"
      proof (rule bit_word_eqI)
        fix i assume i: "i < LENGTH(8)"
        have m: "(0xff :: u32) = mask 8" by (simp add: mask_eq_exp_minus_1)
        have "bit (0xff :: u32) i" unfolding m bit_mask_iff using i by simp
        then show "bit (ucast (obits out AND 0xff) :: u8) i = bit (ucast (obits out) :: u8) i"
          by (simp add: bit_and_iff bit_ucast_iff)
      qed
      then show ?thesis
        using nat_bits_mod [of 8 8] by (simp add: byte_bits_def unsigned_ucast_eq take_bit_eq_mod)
    qed
    have s: "out_stream ?out = out_stream out"
      using b nat_bits_add [of 8 "noutbits out - 8" "unat (obits out)"] n
      by (simp add: out_stream_def unat_shr)
    have "noutbits ?out \<le> 32" "unat (obits ?out) < 2 ^ noutbits ?out" using 1(2) small by simp_all
    from 1(1) [OF True refl this] s show ?thesis unfolding f by auto
  qed
qed

lemma outbits_stream:
  assumes "outbuf_ok out" and "v < 2 ^ n" and "n \<le> 24"
  obtains out' where "outbits out (of_nat v) n = Some out'" and "outbuf_ok out'"
    and "out_stream out' = out_stream out @ nat_bits n v" and "comp_disabled out' = comp_disabled out"
    and "outbuf.more out' = outbuf.more out"
proof -
  let ?o = "out\<lparr>obits := obits out OR shl (of_nat v) (noutbits out), noutbits := noutbits out + n\<rparr>"
  have k: "noutbits out < 8" "unat (obits out) < 2 ^ noutbits out" using assms(1) by (simp_all add: outbuf_ok_def)
  have u: "unat (obits ?o) = unat (obits out) + 2 ^ noutbits out * v"
    using or_shl_unat [OF k(2) assms(2)] k assms(3) by simp
  have "unat (obits ?o) < 2 ^ noutbits ?o"
  proof -
    have "2 ^ noutbits out * Suc v \<le> 2 ^ noutbits out * 2 ^ n" using assms(2) by (intro mult_le_mono2) simp
    then show ?thesis using u k(2) by (simp add: power_add)
  qed
  moreover have "noutbits ?o \<le> 32" using k assms(3) by simp
  moreover have "out_stream ?o = out_stream out @ nat_bits n v"
    using nat_bits_add [of "noutbits out" n "unat (obits ?o)"] u k(2) 
      nat_bits_mod [of "noutbits out" "noutbits out" "unat (obits ?o)"]
      nat_bits_mod [of "noutbits out" "noutbits out" "unat (obits out)"]
    by (simp add: out_stream_def)
  moreover have "outbits out (of_nat v) n = Some (outbits_flush ?o)"
    using k assms(3) by (simp add: outbits_def)
  ultimately show ?thesis using that flush_stream [of ?o] by simp
qed

section \<open>Codes\<close>

lemma mirrorbytes_rev: "map (nat_bits 8) mirrorbytes = map (\<lambda>i. rev (nat_bits 8 i)) [0..<256]"
proof -
  have u: "[0..<256] = 0 # 1 # [2..<256]" by (simp add: upt_conv_Cons numeral_2_eq_2)
  show ?thesis unfolding u by (simp add: mirrorbytes_def nat_bits_numeral)
qed

lemma length_mirrorbytes [simp]: "length mirrorbytes = 256"
  by (simp add: mirrorbytes_def)

lemma mirror_bits: "i < 256 \<Longrightarrow> nat_bits 8 (mirrorbytes ! i) = rev (nat_bits 8 i)"
  using arg_cong [OF mirrorbytes_rev, of "\<lambda>xs. xs ! i"] by simp

lemma nat_bits_double: "nat_bits (Suc n) (2 * x) = False # nat_bits n x"
  by simp

lemma mirrorbytes_less: "i < 256 \<Longrightarrow> mirrorbytes ! i < 256"
proof -
  assume "i < 256"
  moreover have "\<forall>x \<in> set mirrorbytes. x < 256" by (simp add: mirrorbytes_def)
  ultimately show ?thesis by simp
qed

text \<open>The \<open>n\<close> most significant bits of the byte \<open>x * 2 ^ (8 - n)\<close>, mirrored.\<close>

lemma mirror_short:
  assumes "n \<le> 8" and "x < 2 ^ n"
  shows "mirrorbytes ! (x * 2 ^ (8 - n)) < 2 ^ n"
    and "nat_bits n (mirrorbytes ! (x * 2 ^ (8 - n))) = rev (nat_bits n x)"
proof -
  let ?i = "x * 2 ^ (8 - n)" and ?m = "mirrorbytes ! (x * 2 ^ (8 - n))"
  have i: "?i < 256"
  proof -
    have "?i < 2 ^ n * 2 ^ (8 - n)" using assms(2) by simp
    then show ?thesis using assms(1) by (simp flip: power_add)
  qed
  have z: "nat_bits k (y * 2 ^ k) = replicate k False" for k y
    by (induction k) (simp_all add: mult.left_commute)
  have x8: "nat_bits 8 ?i = replicate (8 - n) False @ nat_bits n x"
    using nat_bits_add [of "8 - n" n ?i] assms(1) by (simp add: z)
  have split: "nat_bits 8 ?m = nat_bits n ?m @ nat_bits (8 - n) (?m div 2 ^ n)"
    using nat_bits_add [of n "8 - n" ?m] assms(1) by simp
  with mirror_bits [OF i] x8
  have eq: "nat_bits n ?m @ nat_bits (8 - n) (?m div 2 ^ n) = rev (nat_bits n x) @ replicate (8 - n) False"
    by simp
  then show "nat_bits n ?m = rev (nat_bits n x)" by simp
  have "bits_val (nat_bits 8 ?m) = ?m" using mirrorbytes_less [OF i] by (simp add: bits_simps)
  moreover have "bits_val (replicate k False) = 0" for k by (induction k) simp_all
  ultimately have "?m = bits_val (rev (nat_bits n x))" using split eq by (simp add: bits_val_append)
  then show "?m < 2 ^ n" using bits_val_less [of "rev (nat_bits n x)"] by simp
qed

lemma lit_bits_simps:
  "s < 144 \<Longrightarrow> lit_bits s = rev (nat_bits 8 (48 + s))"
  "144 \<le> s \<Longrightarrow> s < 256 \<Longrightarrow> lit_bits s = True # rev (nat_bits 8 s)"
  "256 \<le> s \<Longrightarrow> s < 280 \<Longrightarrow> lit_bits s = rev (nat_bits 7 (s - 256))"
  "280 \<le> s \<Longrightarrow> s < 288 \<Longrightarrow> lit_bits s = rev (nat_bits 8 (s - 88))"
proof -
  have "nat_bits 9 (s + 256) = nat_bits 8 s @ [True]" if "s < 256"
  proof -
    have "nat_bits 9 (s + 256) = nat_bits 8 (s + 256) @ nat_bits 1 ((s + 256) div 2 ^ 8)"
      using nat_bits_add [of 8 1 "s + 256"] by simp
    also have "nat_bits 8 (s + 256) = nat_bits 8 s"
      using nat_bits_mod [of 8 8 "s + 256"] nat_bits_mod [of 8 8 s] by simp
    also have "(s + 256) div 2 ^ 8 = 1" using that by simp
    finally show ?thesis by simp
  qed
  then show "144 \<le> s \<Longrightarrow> s < 256 \<Longrightarrow> lit_bits s = True # rev (nat_bits 8 s)"
    by (simp add: canon_bits_def fixed_lit_canon_code fixed_lit_lengths_nth)
qed (simp_all add: canon_bits_def fixed_lit_canon_code fixed_lit_lengths_nth)

lemma dist_code_bits_simps: "s < 32 \<Longrightarrow> dist_code_bits s = rev (nat_bits 5 s)"
  using fixed_dist_code(1) [of s] by (simp add: canon_bits_def) (simp add: fixed_dist_lengths_def)

lemma literal_stream:
  assumes "outbuf_ok out" and "\<not> comp_disabled out"
  obtains out' where "zlib_literal out c = Some out'" and "outbuf_ok out'"
    and "out_stream out' = out_stream out @ lit_bits (unat c)" and "\<not> comp_disabled out'"
    and "outbuf.more out' = outbuf.more out"
proof (cases "unat c \<le> 143")
  case True
  have "mirrorbytes ! (48 + unat c) < 2 ^ 8" using mirrorbytes_less [of "48 + unat c"] True by simp
  then show ?thesis
    using outbits_stream [OF assms(1), of "mirrorbytes ! (48 + unat c)" 8] that True assms(2)
      mirror_bits [of "48 + unat c"] lit_bits_simps(1) [of "unat c"]
    by (auto simp: zlib_literal_def)
next
  case False
  have "1 + 2 * mirrorbytes ! (unat c) < 2 ^ 9" using mirrorbytes_less [of "unat c"] by simp
  moreover have "nat_bits 9 (1 + 2 * mirrorbytes ! (unat c)) = lit_bits (unat c)"
    using mirror_bits [of "unat c"] lit_bits_simps(2) [of "unat c"] False nat_bits_numeral [of "num.Bit1 _"]
    by simp
  ultimately show ?thesis
    using outbits_stream [OF assms(1), of "1 + 2 * mirrorbytes ! (unat c)" 9] that False assms(2)
    by (auto simp: zlib_literal_def)
qed

section \<open>Length and distance codes\<close>

definition code_table :: "coderecord list \<Rightarrow> bool" where
  "code_table tab \<longleftrightarrow> (\<forall>i < length tab. \<forall>j < i. cmax (tab ! j) < cmin (tab ! i)) \<and>
     (\<forall>i < length tab. cmin (tab ! i) \<le> cmax (tab ! i))"

lemma find_code_found:
  assumes "code_table tab" and "i < int m" and "int m < j" and "-1 \<le> i" and "j \<le> int (length tab)"
    and "cmin (tab ! m) \<le> v" and "v \<le> cmax (tab ! m)"
  shows "find_code tab i j v = Some (tab ! m)"
  using assms(2-5)
proof (induction "nat (j - i)" arbitrary: i j rule: less_induct)
  case less
  define k where "k = (j + i) div 2"
  have k: "i < k" "k < j" "0 \<le> k" using less.prems by (auto simp: k_def)
  then have f: "fetch_int tab k = Some (tab ! nat k)"
    using less.prems by (simp add: fetch_int_def access_simps nat_less_iff)
  have u: "find_code tab i j v = (if v < cmin (tab ! nat k) then find_code tab i k v
      else if cmax (tab ! nat k) < v then find_code tab k j v else Some (tab ! nat k))"
    using less.prems f by (subst find_code.simps) (simp add: k_def)
  consider "m < nat k" | "m = nat k" | "nat k < m" by linarith
  then show ?case
  proof cases
    case 1
    then have "v < cmin (tab ! nat k)"
      using assms(1,7) k less.prems unfolding code_table_def by (smt (verit) nat_less_iff)
    moreover have "find_code tab i k v = Some (tab ! m)"
      using less.hyps [of k i] less.prems k 1 by simp
    ultimately show ?thesis using u by simp
  next
    case 2
    then show ?thesis using u assms(6,7) by simp
  next
    case 3
    have "cmin (tab ! nat k) \<le> cmax (tab ! nat k)" "cmax (tab ! nat k) < cmin (tab ! m)"
      using assms(1) k less.prems 3 unfolding code_table_def by (simp_all add: nat_less_iff)
    then have "\<not> v < cmin (tab ! nat k)" "cmax (tab ! nat k) < v" using assms(6) by linarith+
    moreover have "find_code tab k j v = Some (tab ! m)"
      using less.hyps [of j k] less.prems k 3 by simp
    ultimately show ?thesis using u by simp
  qed
qed

lemma code_tableI:
  assumes "sorted_wrt (\<lambda>a b. cmax a < cmin b) tab" and "\<forall>r \<in> set tab. cmin r \<le> cmax r"
  shows "code_table tab"
  using assms sorted_wrt_nth_less [OF assms(1)] by (simp add: code_table_def)

text \<open>The ranges follow one another without a gap.\<close>

fun adjacent :: "int \<Rightarrow> coderecord list \<Rightarrow> int \<Rightarrow> bool" where
  "adjacent lo [] hi \<longleftrightarrow> lo = hi"
| "adjacent lo (r # rs) hi \<longleftrightarrow> cmin r = lo \<and> lo \<le> cmax r \<and> adjacent (cmax r + 1) rs hi"

lemma adjacent_find:
  "adjacent lo tab hi \<Longrightarrow> lo \<le> v \<Longrightarrow> v < hi \<Longrightarrow>
     \<exists>m < length tab. cmin (tab ! m) \<le> v \<and> v \<le> cmax (tab ! m)"
proof (induction tab arbitrary: lo)
  case (Cons r rs)
  show ?case
  proof (cases "v \<le> cmax r")
    case True
    then show ?thesis using Cons.prems by (intro exI [of _ 0]) simp
  next
    case False
    with Cons.IH [of "cmax r + 1"] Cons.prems obtain m where
      "m < length rs" "cmin (rs ! m) \<le> v" "v \<le> cmax (rs ! m)" by auto
    then show ?thesis by (intro exI [of _ "Suc m"]) simp
  qed
qed simp

lemma find_code_total:
  assumes "code_table tab" and "adjacent lo tab hi" and "lo \<le> v" and "v < hi"
  obtains m where "find_code tab (-1) (int (length tab)) v = Some (tab ! m)" and "m < length tab"
    and "cmin (tab ! m) \<le> v" and "v \<le> cmax (tab ! m)"
proof -
  obtain m where "m < length tab" "cmin (tab ! m) \<le> v" "v \<le> cmax (tab ! m)"
    using adjacent_find [OF assms(2-4)] by blast
  then show ?thesis using that find_code_found [OF assms(1), of "-1" m "int (length tab)" v] by simp
qed

text \<open>The compressor's tables are the decompressor's.\<close>

lemma lencodes_table: "code_table lencodes" "adjacent 3 lencodes 259" "length lencodes = 29"
  by (rule code_tableI) (simp_all add: lencodes_def)

lemma distcodes_table: "code_table distcodes" "adjacent 1 distcodes 32769" "length distcodes = 30"
  by (rule code_tableI) (simp_all add: distcodes_def)

lemma upt_256: "[257..<286] = map ((+) 257) [0..<29]" "[0..<30] = 0 # 1 # [2..<30]"
  by (simp_all add: map_add_upt upt_conv_Cons numeral_2_eq_2)

lemma table_nth: "(\<And>m. m < n \<Longrightarrow> f (xs ! m) = ys ! m)" if "map f xs = take n ys" "length xs = n" "n \<le> length ys"
proof -
  fix m assume m: "m < n"
  then have "f (xs ! m) = map f xs ! m" using that(2) by simp
  also have "\<dots> = take n ys ! m" by (simp only: that(1))
  also have "\<dots> = ys ! m" using m by simp
  finally show "f (xs ! m) = ys ! m" .
qed

lemma lencodes_nth:
  assumes "m < 29"
  shows "code (lencodes ! m) = 257 + m" "extrabits (lencodes ! m) = length_bits ! m"
    "cmin (lencodes ! m) = int (length_base ! m)"
    "cmax (lencodes ! m) < int (length_base ! m) + 2 ^ (length_bits ! m)"
proof -
  have "map code lencodes = [257..<286]" by (simp add: lencodes_def)
  then have "map code lencodes ! m = [257..<286] ! m" by (simp only:)
  also have "\<dots> = 257 + m" by (rule nth_upt) (use assms in simp)
  finally show "code (lencodes ! m) = 257 + m" using assms lencodes_table(3) by simp
  have "map extrabits lencodes = take 29 length_bits" by (simp add: lencodes_def length_bits_def)
  then show e: "extrabits (lencodes ! m) = length_bits ! m"
    by (rule table_nth) (use assms lencodes_table(3) in \<open>simp_all add: length_tables\<close>)
  have "map cmin lencodes = take 29 (map int length_base)" by (simp add: lencodes_def length_base_def)
  then have "cmin (lencodes ! m) = map int length_base ! m"
    by (rule table_nth) (use assms lencodes_table(3) in \<open>simp_all add: length_tables\<close>)
  then show c: "cmin (lencodes ! m) = int (length_base ! m)" using assms by (simp add: length_tables)
  have "\<forall>r \<in> set lencodes. cmax r < cmin r + 2 ^ extrabits r" by (simp add: lencodes_def)
  then have "cmax (lencodes ! m) < cmin (lencodes ! m) + 2 ^ extrabits (lencodes ! m)" using assms lencodes_table(3) by simp
  then show "cmax (lencodes ! m) < int (length_base ! m) + 2 ^ (length_bits ! m)" by (simp add: c e)
qed

lemma distcodes_nth:
  assumes "m < 30"
  shows "code (distcodes ! m) = m" "extrabits (distcodes ! m) = dist_bits ! m"
    "cmin (distcodes ! m) = int (dist_base ! m)"
    "cmax (distcodes ! m) < int (dist_base ! m) + 2 ^ (dist_bits ! m)"
proof -
  have "map code distcodes = [0..<30]" by (simp add: distcodes_def upt_256)
  then have "map code distcodes ! m = [0..<30] ! m" by (simp only:)
  also have "\<dots> = 0 + m" by (rule nth_upt) (use assms in simp)
  finally show "code (distcodes ! m) = m" using assms distcodes_table(3) by simp
  have "map extrabits distcodes = take 30 dist_bits" by (simp add: distcodes_def dist_bits_def)
  then show e: "extrabits (distcodes ! m) = dist_bits ! m"
    by (rule table_nth) (use assms distcodes_table(3) in \<open>simp_all add: length_tables\<close>)
  have "map cmin distcodes = take 30 (map int dist_base)" by (simp add: distcodes_def dist_base_def)
  then have "cmin (distcodes ! m) = map int dist_base ! m"
    by (rule table_nth) (use assms distcodes_table(3) in \<open>simp_all add: length_tables\<close>)
  then show c: "cmin (distcodes ! m) = int (dist_base ! m)" using assms by (simp add: length_tables)
  have "\<forall>r \<in> set distcodes. cmax r < cmin r + 2 ^ extrabits r" by (simp add: distcodes_def)
  then have "cmax (distcodes ! m) < cmin (distcodes ! m) + 2 ^ extrabits (distcodes ! m)" using assms distcodes_table(3) by simp
  then show "cmax (distcodes ! m) < int (dist_base ! m) + 2 ^ (dist_bits ! m)" by (simp add: c e)
qed

lemma bits_small: "m < 29 \<Longrightarrow> length_bits ! m \<le> 5" "m < 30 \<Longrightarrow> dist_bits ! m \<le> 13"
proof -
  have "\<forall>x \<in> set length_bits. x \<le> 5" "\<forall>x \<in> set dist_bits. x \<le> 13"
    by (simp_all add: length_bits_def dist_bits_def)
  then show "m < 29 \<Longrightarrow> length_bits ! m \<le> 5" "m < 30 \<Longrightarrow> dist_bits ! m \<le> 13"
    by (simp_all add: length_tables)
qed

text \<open>\<open>wrote_bits out bs out'\<close>: the bits \<open>bs\<close> were appended to a compressed block.\<close>

definition wrote_bits :: "'a outbuf_scheme \<Rightarrow> bool list \<Rightarrow> 'a outbuf_scheme \<Rightarrow> bool" where
  "wrote_bits out bs out' \<longleftrightarrow> outbuf_ok out' \<and> out_stream out' = out_stream out @ bs \<and>
     comp_disabled out' = comp_disabled out \<and> outbuf.more out' = outbuf.more out"

lemma wrote_bits_trans: "wrote_bits a bs b \<Longrightarrow> wrote_bits b cs c \<Longrightarrow> wrote_bits a (bs @ cs) c"
  by (simp add: wrote_bits_def)

lemma wrote_bits_refl: "outbuf_ok out \<Longrightarrow> wrote_bits out [] out"
  by (simp add: wrote_bits_def)

lemma outbits_wrote:
  assumes "outbuf_ok out" and "v < 2 ^ n" and "n \<le> 24"
  shows "\<exists>out'. outbits out (of_nat v) n = Some out' \<and> wrote_bits out (nat_bits n v) out'"
  using outbits_stream [OF assms] unfolding wrote_bits_def by metis

lemma extra_wrote:
  assumes "outbuf_ok out" and "e < 2 ^ n" and "n \<le> 24" and "x = int e"
  shows "\<exists>out'. (if n \<noteq> 0 then outbits out (of_int x) n else Some out) = Some out' \<and>
    wrote_bits out (nat_bits n e) out'"
  using outbits_wrote [OF assms(1-3)] wrote_bits_refl [OF assms(1)] assms(4) by (cases "n = 0") simp_all

lemma len_code_wrote:
  assumes "outbuf_ok out" and "m < 29"
  shows "\<exists>out'. (if 257 + m \<le> 279 then outbits out (of_nat (mirrorbytes ! ((257 + m - 256) * 2))) 7
      else outbits out (of_nat (mirrorbytes ! nat (0xc0 - 280 + int (257 + m)))) 8) = Some out' \<and>
    wrote_bits out (lit_bits (257 + m)) out'"
proof (cases "257 + m \<le> 279")
  case True
  have "m + 1 < 2 ^ 7" using True by simp
  note s = mirror_short [of 7 "m + 1", simplified]
  have "lit_bits (257 + m) = rev (nat_bits 7 (m + 1))" using lit_bits_simps(3) [of "257 + m"] True by simp
  then show ?thesis
    using outbits_wrote [OF assms(1), of "mirrorbytes ! ((m + 1) * 2)" 7] mirror_short [of 7 "m + 1"] True by simp
next
  case False
  let ?i = "257 + m - 88"
  have "lit_bits (257 + m) = rev (nat_bits 8 ?i)" using lit_bits_simps(4) [of "257 + m"] False assms(2) by simp
  then show ?thesis
    using outbits_wrote [OF assms(1), of "mirrorbytes ! ?i" 8] mirror_short [of 8 ?i] False assms(2)
    by (simp add: nat_add_distrib)
qed

lemma dist_code_wrote:
  assumes "outbuf_ok out" and "k < 30"
  shows "\<exists>out'. outbits out (of_nat (mirrorbytes ! (k * 8))) 5 = Some out' \<and> wrote_bits out (dist_code_bits k) out'"
  using outbits_wrote [OF assms(1), of "mirrorbytes ! (k * 8)" 5] mirror_short [of 5 k] assms(2)
    dist_code_bits_simps [of k] by simp

text \<open>One round of zlib_match emits one match of the format.\<close>

lemma match_step_wrote:
  assumes "outbuf_ok out" and "3 \<le> len" and "len \<le> 258" and "0 < dist" and "dist \<le> 32768"
  shows "\<exists>out' bs. zlib_match_step out (int dist) (int len) = Some out' \<and> encodes [Match dist len] bs \<and>
    wrote_bits out bs out'"
proof -
  obtain m where m: "find_code lencodes (-1) 29 (int len) = Some (lencodes ! m)" "m < 29"
      "cmin (lencodes ! m) \<le> int len" "int len \<le> cmax (lencodes ! m)"
    using find_code_total [OF lencodes_table(1,2), of "int len"] assms lencodes_table(3) by auto
  obtain k where k: "find_code distcodes (-1) 30 (int dist) = Some (distcodes ! k)" "k < 30"
      "cmin (distcodes ! k) \<le> int dist" "int dist \<le> cmax (distcodes ! k)"
    using find_code_total [OF distcodes_table(1,2), of "int dist"] assms distcodes_table(3) by auto
  note L = lencodes_nth [OF m(2)] and D = distcodes_nth [OF k(2)]
  define e where "e = len - length_base ! m"
  define e' where "e' = dist - dist_base ! k"
  have "length_base ! m \<le> len" "int len < int (length_base ! m) + 2 ^ (length_bits ! m)"
    using m(3,4) L(3,4) by linarith+
  then have e: "len = length_base ! m + e" "int e < 2 ^ (length_bits ! m)" by (simp_all add: e_def)
  have "dist_base ! k \<le> dist" "int dist < int (dist_base ! k) + 2 ^ (dist_bits ! k)"
    using k(3,4) D(3,4) by linarith+
  then have e': "dist = dist_base ! k + e'" "int e' < 2 ^ (dist_bits ! k)" by (simp_all add: e'_def)
  have lt: "e < 2 ^ (length_bits ! m)" "e' < 2 ^ (dist_bits ! k)"
    using e(2) e'(2) by (simp_all flip: of_nat_less_iff)
  let ?bs = "lit_bits (257 + m) @ nat_bits (length_bits ! m) e @ dist_code_bits k @ nat_bits (dist_bits ! k) e'"
  have enc: "encodes [Match dist len] ?bs"
    using encodes_Match [OF m(2) lt(1) k(2) lt(2) encodes_Nil] e(1) e'(1) by simp
  obtain o1 where o1: "(if 257 + m \<le> 279 then outbits out (of_nat (mirrorbytes ! ((257 + m - 256) * 2))) 7
      else outbits out (of_nat (mirrorbytes ! nat (0xc0 - 280 + int (257 + m)))) 8) = Some o1"
      "wrote_bits out (lit_bits (257 + m)) o1"
    using len_code_wrote [OF assms(1) m(2)] by blast
  obtain o2 where o2: "(if length_bits ! m \<noteq> 0 then outbits o1 (of_int (int len - int (length_base ! m))) (length_bits ! m)
      else Some o1) = Some o2" "wrote_bits o1 (nat_bits (length_bits ! m) e) o2"
    using extra_wrote [OF _ lt(1), of o1 "int len - int (length_base ! m)"] o1(2) bits_small(1) [OF m(2)] e(1)
    by (auto simp: wrote_bits_def)
  obtain o3 where o3: "outbits o2 (of_nat (mirrorbytes ! (k * 8))) 5 = Some o3" "wrote_bits o2 (dist_code_bits k) o3"
    using dist_code_wrote [OF _ k(2), of o2] o2(2) by (auto simp: wrote_bits_def)
  obtain o4 where o4: "(if dist_bits ! k \<noteq> 0 then outbits o3 (of_int (int dist - int (dist_base ! k))) (dist_bits ! k)
      else Some o3) = Some o4" "wrote_bits o3 (nat_bits (dist_bits ! k) e') o4"
    using extra_wrote [OF _ lt(2), of o3 "int dist - int (dist_base ! k)"] o3(2) bits_small(2) [OF k(2)] e'(1)
    by (auto simp: wrote_bits_def)
  have "zlib_match_step out (int dist) (int len) = Some o4"
    unfolding zlib_match_step_def lencodes_table(3) distcodes_table(3) of_nat_numeral m(1) k(1)
      Option.bind.bind_lunit L D o1(1) o2(1) o3(1) o4(1) by (rule refl)
  moreover have "wrote_bits out ?bs o4"
    using wrote_bits_trans [OF o1(2) wrote_bits_trans [OF o2(2) wrote_bits_trans [OF o3(2) o4(2)]]] by simp
  ultimately show ?thesis using enc by blast
qed

text \<open>A match longer than 258 is sent in several.\<close>

fun match_tokens :: "nat \<Rightarrow> nat \<Rightarrow> token list" where
  "match_tokens dist len =
     (if len = 0 then []
      else if len \<le> 258 then [Match dist len]
      else if 260 < len then Match dist 258 # match_tokens dist (len - 258)
      else [Match dist (len - 3), Match dist 3])"

declare match_tokens.simps [simp del]

lemma match_loop_step:
  "0 < len \<Longrightarrow> zlib_match_loop out distance len =
     Option.bind (zlib_match_step out distance (zlib_thislen len))
       (\<lambda>out. zlib_match_loop out distance (len - zlib_thislen len))"
  by (subst zlib_match_loop.simps) (simp split: option.splits)

lemma match_loop_wrote:
  assumes "outbuf_ok out" and "len = 0 \<or> 3 \<le> len" and "0 < dist" and "dist \<le> 32768"
  shows "\<exists>out' bs. zlib_match_loop out (int dist) (int len) = Some out' \<and> encodes (match_tokens dist len) bs \<and>
    wrote_bits out bs out'"
  using assms(1,2)
proof (induction len arbitrary: out rule: less_induct)
  case (less len)
  consider "len = 0" | "3 \<le> len" "len \<le> 258" | "len = 259 \<or> len = 260" | "260 < len" using less.prems(2) by linarith
  then show ?case
  proof cases
    case 1
    then show ?thesis
      using less.prems(1) by (subst zlib_match_loop.simps)
        (auto simp: match_tokens.simps intro: encodes_Nil wrote_bits_refl)
  next
    case 2
    obtain o1 bs where s: "zlib_match_step out (int dist) (int len) = Some o1" "encodes [Match dist len] bs"
        "wrote_bits out bs o1" using match_step_wrote [OF less.prems(1) 2 assms(3,4)] by blast
    moreover have "zlib_match_loop o1 (int dist) 0 = Some o1" by (subst zlib_match_loop.simps) simp
    moreover have "match_tokens dist len = [Match dist len]" using 2 by (subst match_tokens.simps) simp
    ultimately show ?thesis using 2 match_loop_step [of "int len" out "int dist"] by (auto simp: zlib_thislen_def)
  next
    case 3
    then have l: "3 \<le> len - 3" "len - 3 \<le> 258" "int len - 3 = int (len - 3)" "\<not> int len \<le> 258" "\<not> 260 < int len"
      "0 < int len" by auto
    obtain o1 bs where s: "zlib_match_step out (int dist) (int (len - 3)) = Some o1" "encodes [Match dist (len - 3)] bs"
        "wrote_bits out bs o1" using match_step_wrote [OF less.prems(1) l(1,2) assms(3,4)] by blast
    then have "outbuf_ok o1" by (simp add: wrote_bits_def)
    then obtain o2 cs where s2: "zlib_match_loop o1 (int dist) (int 3) = Some o2" "encodes (match_tokens dist 3) cs"
        "wrote_bits o1 cs o2" using less.IH [of 3 o1] 3 by auto
    have t3: "match_tokens dist 3 = [Match dist 3]" by (simp add: match_tokens.simps)
    have "match_tokens dist len = [Match dist (len - 3)] @ [Match dist 3]"
      using 3 by (subst match_tokens.simps) auto
    moreover have "encodes ([Match dist (len - 3)] @ [Match dist 3]) (bs @ cs)"
      using encodes_append [OF s(2) s2(2) [unfolded t3]] .
    moreover have "zlib_match_loop out (int dist) (int len) = Some o2"
      using l s(1) s2(1) match_loop_step [OF l(6), of out "int dist"] by (simp add: zlib_thislen_def)
    ultimately show ?thesis using wrote_bits_trans [OF s(3) s2(3)] by metis
  next
    case 4
    then have l: "3 \<le> len - 258" by linarith
    obtain o1 bs where s: "zlib_match_step out (int dist) 258 = Some o1" "encodes [Match dist 258] bs"
        "wrote_bits out bs o1" using match_step_wrote [OF less.prems(1), of 258 dist] assms(3,4) by auto
    then have "outbuf_ok o1" by (simp add: wrote_bits_def)
    then obtain o2 cs where s2: "zlib_match_loop o1 (int dist) (int (len - 258)) = Some o2"
        "encodes (match_tokens dist (len - 258)) cs" "wrote_bits o1 cs o2"
      using less.IH [of "len - 258" o1] 4 l by auto
    have "match_tokens dist len = [Match dist 258] @ match_tokens dist (len - 258)"
      using 4 by (subst match_tokens.simps) simp
    moreover have "zlib_match_loop out (int dist) (int len) = Some o2"
      using 4 s(1) s2(1) match_loop_step [of "int len" out "int dist"] by (simp add: zlib_thislen_def of_nat_diff)
    ultimately show ?thesis using wrote_bits_trans [OF s(3) s2(3)] encodes_append [OF s(2) s2(2)] by metis
  qed
qed

lemma match_wrote:
  assumes "outbuf_ok out" and "\<not> comp_disabled out" and "3 \<le> len" and "0 < dist" and "dist \<le> 32768"
  shows "\<exists>out' bs. zlib_match out (int dist) (int len) = Some out' \<and> encodes (match_tokens dist len) bs \<and>
    wrote_bits out bs out'"
  using match_loop_wrote [of out len dist] assms by (auto simp: zlib_match_def)

lemma match_tokens_sound:
  assumes "len = 0 \<or> 3 \<le> len" and "0 < dist" and "dist \<le> w"
  shows "expand (match_tokens dist len) h = copy_match dist len h \<and>
    (dist \<le> n \<longrightarrow> tokens_ok w (match_tokens dist len) n) \<and> tokens_len (match_tokens dist len) = len"
  using assms(1)
proof (induction len arbitrary: h n rule: less_induct)
  case (less len)
  consider "len = 0" | "3 \<le> len" "len \<le> 258" | "len = 259 \<or> len = 260" | "260 < len" using less.prems by linarith
  then show ?case
  proof cases
    case 3
    then have "match_tokens dist len = [Match dist (len - 3), Match dist 3]" by (subst match_tokens.simps) auto
    then show ?thesis using 3 assms copy_match_add [of dist "len - 3" 3 h] by auto
  next
    case 4
    then have "match_tokens dist len = Match dist 258 # match_tokens dist (len - 258)"
      by (subst match_tokens.simps) simp
    moreover have "copy_match dist len h = copy_match dist (len - 258) (copy_match dist 258 h)"
      using 4 copy_match_add [of dist 258 "len - 258" h] by simp
    ultimately show ?thesis using less.IH [of "len - 258"] 4 assms by auto
  qed (use assms in \<open>simp_all add: match_tokens.simps\<close>)
qed

lemma start_wrote:
  assumes "outbuf_ok out"
  shows "\<exists>out'. zlib_start_block out = Some out' \<and> wrote_bits out [True, True, False] out'"
proof -
  obtain o1 where o1: "outbits out (of_nat 1) 1 = Some o1" "wrote_bits out [True] o1"
    using outbits_wrote [OF assms, of 1 1] by auto
  obtain o2 where o2: "outbits o1 (of_nat 1) 2 = Some o2" "wrote_bits o1 [True, False] o2"
    using outbits_wrote [of o1 1 2] o1(2) by (auto simp: wrote_bits_def numeral_2_eq_2)
  show ?thesis
    using o1(1) o2(1) wrote_bits_trans [OF o1(2) o2(2)] by (simp add: zlib_start_block_def)
qed

text \<open>Closing the block: the end symbol, and zeros that push its last bit out of \<open>obits\<close>.\<close>

lemma finish_wrote:
  assumes "outbuf_ok out"
  shows "\<exists>out' k. zlib_finish_block out = Some out' \<and> wrote_bits out (lit_bits 256 @ replicate 7 False) out' \<and>
    bytes_bits (outbuf out') = out_stream out @ lit_bits 256 @ replicate k False \<and> k \<le> 7"
proof -
  obtain o1 where o1: "outbits out (of_nat 0) 7 = Some o1" "wrote_bits out (nat_bits 7 0) o1"
    using outbits_wrote [OF assms, of 0 7] by auto
  obtain o2 where o2: "outbits o1 (of_nat 0) 7 = Some o2" "wrote_bits o1 (nat_bits 7 0) o2"
    using outbits_wrote [of o1 0 7] o1(2) by (auto simp: wrote_bits_def)
  have z: "nat_bits 7 0 = replicate 7 False" "lit_bits 256 = replicate 7 False"
    using lit_bits_simps(3) [of 256] by (simp_all add: nat_bits_numeral numeral_eq_Suc)
  have w: "wrote_bits out (lit_bits 256 @ replicate 7 False) o2"
    using wrote_bits_trans [OF o1(2) o2(2)] z by simp
  then have ok: "noutbits o2 < 8" and s: "out_stream o2 = out_stream out @ lit_bits 256 @ replicate 7 False"
    by (simp_all add: wrote_bits_def outbuf_ok_def)
  have "bytes_bits (outbuf o2) = take (length (out_stream o2) - noutbits o2) (out_stream o2)"
    by (simp add: out_stream_def)
  also have "\<dots> = out_stream out @ lit_bits 256 @ replicate (7 - noutbits o2) False"
    unfolding s using ok by simp
  finally show ?thesis using o1(1) o2(1) w by (auto simp: zlib_finish_block_def)
qed
end
