(* ===== verification/Genlz77.thy ===== *)
theory Genlz77
  imports Defl_Static
begin

text \<open>
  The LZ77 front end of the compressor, uzlib/src/genlz77.c.  The source buffer is the list \<open>mem\<close>,
  pointers into it are indexes, and a hash table entry is \<open>None\<close> for the null pointer.  The pointer
  \<open>top\<close> (\<open>tp\<close> here) is an integer, because \<open>src + slen - MIN_MATCH\<close> may lie before the buffer.
\<close>

section \<open>struct uzlib_comp\<close>

record uzlib_comp =
  comp_out :: outbuf
  hash_table :: "nat option list"
  hash_bits :: nat
  dict_size :: nat

definition MIN_MATCH :: nat where "MIN_MATCH = 3"
definition MAX_MATCH :: nat where "MAX_MATCH = 258"

section \<open>uzlib_compress\<close>

text \<open>The 24-bit value \<open>v\<close>; the shift by \<open>3*8 - HASH_BITS\<close> is undefined for more than 24 hash bits.\<close>

definition HASH :: "nat \<Rightarrow> u8 list \<Rightarrow> nat \<Rightarrow> nat option" where
  "HASH bits mem p = (if bits \<le> 24 then do {
     p0 \<leftarrow> fetch mem p;
     p1 \<leftarrow> fetch mem (p + 1);
     p2 \<leftarrow> fetch mem (p + 2);
     let v = shl (ucast p0 :: u32) 16 OR shl (ucast p1) 8 OR ucast p2;
     Some (unat ((shr v (3 * 8 - bits) - v) AND (shl 1 bits - 1)))
   } else None)"

text \<open>\<open>while (*src == *m && len < MAX_MATCH && src < top)\<close>\<close>

function extend_match :: "u8 list \<Rightarrow> int \<Rightarrow> nat \<Rightarrow> nat \<Rightarrow> nat \<Rightarrow> (nat \<times> nat) option" where
  "extend_match mem tp src m len =
     (case fetch mem src of
        None \<Rightarrow> None
      | Some a \<Rightarrow>
          (case fetch mem m of
             None \<Rightarrow> None
           | Some b \<Rightarrow>
               if a = b \<and> len < MAX_MATCH \<and> int src < tp
               then extend_match mem tp (src + 1) (m + 1) (len + 1)
               else Some (src, len)))"
  by pat_completeness auto
termination by (relation "measure (\<lambda>(mem, tp, src, m, len). MAX_MATCH - len)") auto

declare extend_match.simps [simp del]

text \<open>One round of the first loop.\<close>

definition compress_step :: "uzlib_comp \<Rightarrow> u8 list \<Rightarrow> int \<Rightarrow> nat \<Rightarrow> (uzlib_comp \<times> nat) option" where
  "compress_step data mem tp src = do {
     h \<leftarrow> HASH (hash_bits data) mem src;
     let bucket = h mod 2 ^ hash_bits data;
     subs \<leftarrow> fetch (hash_table data) bucket;
     let data = data\<lparr>hash_table := (hash_table data)[bucket := Some src]\<rparr>;
     (case subs of
        Some s \<Rightarrow>
          if s < src \<and> src - s \<le> dict_size data \<and> take MIN_MATCH (drop src mem) = take MIN_MATCH (drop s mem)
          then do {
            (src, len) \<leftarrow> extend_match mem tp (src + MIN_MATCH) (s + MIN_MATCH) MIN_MATCH;
            out \<leftarrow> zlib_match (comp_out data) (int src - int len - int s) (int len);
            Some (data\<lparr>comp_out := out\<rparr>, src)
          }
          else do {
            c \<leftarrow> fetch mem src;
            out \<leftarrow> zlib_literal (comp_out data) c;
            Some (data\<lparr>comp_out := out\<rparr>, src + 1)
          }
      | None \<Rightarrow> do {
          c \<leftarrow> fetch mem src;
          out \<leftarrow> zlib_literal (comp_out data) c;
          Some (data\<lparr>comp_out := out\<rparr>, src + 1)
        })
   }"

lemma extend_match_le: "extend_match mem tp src m len = Some (src', len') \<Longrightarrow> src \<le> src'"
proof (induction mem tp src m len arbitrary: src' len' rule: extend_match.induct)
  case (1 mem tp src m len)
  from 1(2) show ?case
    by (subst (asm) extend_match.simps) (auto split: option.splits if_splits dest: 1(1))
qed

lemma compress_step_less: "compress_step data mem tp src = Some (data', src') \<Longrightarrow> src < src'"
  by (auto simp: compress_step_def Let_def MIN_MATCH_def split: bind_splits option.splits if_splits
      dest!: extend_match_le)

function compress_loop :: "uzlib_comp \<Rightarrow> u8 list \<Rightarrow> int \<Rightarrow> nat \<Rightarrow> (uzlib_comp \<times> nat) option" where
  "compress_loop data mem tp src =
     (if int src < tp then
        (case compress_step data mem tp src of
           None \<Rightarrow> None
         | Some (data, src) \<Rightarrow> compress_loop data mem tp src)
      else Some (data, src))"
  by pat_completeness auto
termination
  by (relation "measure (\<lambda>(data, mem, tp, src). nat (tp - int src))") (auto dest!: compress_step_less)

declare compress_loop.simps [simp del]

function compress_tail :: "uzlib_comp \<Rightarrow> u8 list \<Rightarrow> int \<Rightarrow> nat \<Rightarrow> uzlib_comp option" where
  "compress_tail data mem tp src =
     (if int src < tp then
        (case fetch mem src of
           None \<Rightarrow> None
         | Some c \<Rightarrow>
             (case zlib_literal (comp_out data) c of
                None \<Rightarrow> None
              | Some out \<Rightarrow> compress_tail (data\<lparr>comp_out := out\<rparr>) mem tp (src + 1)))
      else Some data)"
  by pat_completeness auto
termination
  by (relation "measure (\<lambda>(data, mem, tp, src). nat (tp - int src))") auto

declare compress_tail.simps [simp del]

definition uzlib_compress :: "uzlib_comp \<Rightarrow> u8 list \<Rightarrow> nat \<Rightarrow> nat \<Rightarrow> uzlib_comp option" where
  "uzlib_compress data mem src slen = do {
     let tp = int src + int slen - int MIN_MATCH;
     (data, src) \<leftarrow> compress_loop data mem tp src;
     compress_tail data mem (tp + int MIN_MATCH) src
   }"

section \<open>The emitted tokens stand for the source\<close>

lemma copy_match_repeats:
  assumes "\<And>i. i < n \<Longrightarrow> src + i < length mem \<and> mem ! (src + i) = mem ! (s + i)"
    and "b \<le> s" and "s < src"
  shows "copy_match (src - s) n (take (src - b) (drop b mem)) = take (src + n - b) (drop b mem)"
  using assms
proof (induction n arbitrary: src s)
  case (Suc n)
  have src: "src < length mem" "mem ! src = mem ! s" using Suc.prems(1) [of 0] by auto
  have "take (src - b) (drop b mem) ! (src - b - (src - s)) = mem ! s"
    using Suc.prems(2,3) src(1) by simp
  moreover have "length (take (src - b) (drop b mem)) = src - b" using src(1) by simp
  ultimately have "copy_match (src - s) (Suc n) (take (src - b) (drop b mem)) =
      copy_match (src - s) n (take (src - b) (drop b mem) @ [mem ! src])"
    by (simp add: src(2))
  also have "take (src - b) (drop b mem) @ [mem ! src] = take (Suc src - b) (drop b mem)"
    using Suc.prems(2,3) src(1) take_Suc_nth [of "src - b" "drop b mem"] by (simp add: Suc_diff_le)
  also have "src - s = Suc src - Suc s" by simp
  also have "copy_match (Suc src - Suc s) n (take (Suc src - b) (drop b mem)) = take (Suc src + n - b) (drop b mem)"
    using Suc.prems by (intro Suc.IH) (auto dest!: spec [of _ "Suc _"] simp: Suc.prems(1) [of "Suc _", simplified])
  finally show ?case by simp
qed simp

lemma extend_match_found:
  assumes "tp + 3 \<le> int (length mem)" and "int src < tp + 3" and "len \<le> MAX_MATCH"
    and "m < src" and "len \<le> m" and "\<And>i. i < len \<Longrightarrow> mem ! (src - len + i) = mem ! (m - len + i)"
  shows "\<exists>src' len'. extend_match mem tp src m len = Some (src', len') \<and> len \<le> len' \<and> len' \<le> MAX_MATCH \<and>
     src' = src - len + len' \<and> int src' < tp + 3 \<and>
     (\<forall>i < len'. mem ! (src - len + i) = mem ! (m - len + i))"
  using assms(2-6)
proof (induction "MAX_MATCH - len" arbitrary: src m len rule: less_induct)
  case less
  have b: "src < length mem" "m < length mem" using less.prems assms(1) by linarith+
  show ?case
  proof (cases "mem ! src = mem ! m \<and> len < MAX_MATCH \<and> int src < tp")
    case False
    then have "extend_match mem tp src m len = Some (src, len)"
      using b by (subst extend_match.simps) (simp only: fetch_Some option.case if_False)
    then show ?thesis using less.prems by auto
  next
    case True
    then have u: "extend_match mem tp src m len = extend_match mem tp (src + 1) (m + 1) (len + 1)"
      using b by (subst extend_match.simps) (simp add: access_simps)
    have "mem ! (src + 1 - (len + 1) + i) = mem ! (m + 1 - (len + 1) + i)" if "i < len + 1" for i
      using True less.prems(3,4,5) that by (cases "i = len") auto
    then have "\<exists>src' len'. extend_match mem tp (src + 1) (m + 1) (len + 1) = Some (src', len') \<and> len + 1 \<le> len' \<and>
        len' \<le> MAX_MATCH \<and> src' = src + 1 - (len + 1) + len' \<and> int src' < tp + 3 \<and>
        (\<forall>i < len'. mem ! (src + 1 - (len + 1) + i) = mem ! (m + 1 - (len + 1) + i))"
      using True less.prems by (intro less.hyps) auto
    then show ?thesis unfolding u by auto
  qed
qed

text \<open>The bits written since \<open>out0\<close> encode tokens that expand to \<open>bytes\<close>.\<close>

definition emitted :: "nat \<Rightarrow> outbuf \<Rightarrow> u8 list \<Rightarrow> outbuf \<Rightarrow> bool" where
  "emitted w out0 bytes out \<longleftrightarrow> (\<exists>ts bs. encodes ts bs \<and> wrote_bits out0 bs out \<and> tokens_ok w ts 0 \<and>
     expand ts [] = bytes)"

lemma emitted_ok: "emitted w out0 bytes out \<Longrightarrow> outbuf_ok out \<and> comp_disabled out = comp_disabled out0"
  by (auto simp: emitted_def wrote_bits_def)

lemma emitted_more:
  assumes "emitted w out0 bytes out" and "encodes us cs" and "wrote_bits out cs out'"
    and "tokens_ok w us (length bytes)" and "expand us bytes = bytes'"
  shows "emitted w out0 bytes' out'"
proof -
  from assms(1) obtain ts bs where ts: "encodes ts bs" "wrote_bits out0 bs out" "tokens_ok w ts 0"
    "expand ts [] = bytes" by (auto simp: emitted_def)
  have "length bytes = tokens_len ts" using length_expand [of ts "[]"] ts(4) by simp
  then have "tokens_ok w (ts @ us) 0" "expand (ts @ us) [] = bytes'"
    using ts(3,4) assms(4,5) by (simp_all add: tokens_ok_append expand_append)
  then show ?thesis
    using encodes_append [OF ts(1) assms(2)] wrote_bits_trans [OF ts(2) assms(3)] unfolding emitted_def by blast
qed

text \<open>
  What the compressor has done when it stands at \<open>src\<close>, started at \<open>b\<close>: the bits written encode
  tokens that expand to the bytes from \<open>b\<close> to \<open>src\<close>, and the hash table points between them.
\<close>

definition compressed :: "nat \<Rightarrow> u8 list \<Rightarrow> uzlib_comp \<Rightarrow> uzlib_comp \<Rightarrow> nat \<Rightarrow> bool" where
  "compressed b mem data0 data src \<longleftrightarrow> b \<le> src \<and> src \<le> length mem \<and>
     hash_bits data = hash_bits data0 \<and> dict_size data = dict_size data0 \<and>
     length (hash_table data) = length (hash_table data0) \<and>
     (\<forall>s. Some s \<in> set (hash_table data) \<longrightarrow> b \<le> s) \<and>
     emitted (dict_size data0) (comp_out data0) (take (src - b) (drop b mem)) (comp_out data)"

definition comp_ok :: "uzlib_comp \<Rightarrow> bool" where
  "comp_ok data \<longleftrightarrow> outbuf_ok (comp_out data) \<and> \<not> comp_disabled (comp_out data) \<and> hash_bits data \<le> 24 \<and>
     length (hash_table data) = 2 ^ hash_bits data \<and> dict_size data \<le> 32768"

lemma compressed_out_ok:
  assumes "compressed b mem data0 data src" and "comp_ok data0"
  shows "outbuf_ok (comp_out data)" "\<not> comp_disabled (comp_out data)"
  using assms emitted_ok [of "dict_size data0" "comp_out data0" _ "comp_out data"]
  by (auto simp: compressed_def comp_ok_def)

lemma compressed_literal:
  assumes "compressed b mem data0 data src" and "src < length mem" and "comp_ok data0"
  shows "\<exists>out. zlib_literal (comp_out data) (mem ! src) = Some out \<and>
    compressed b mem data0 (data\<lparr>comp_out := out\<rparr>) (src + 1)"
proof -
  obtain out where o: "zlib_literal (comp_out data) (mem ! src) = Some out"
      "wrote_bits (comp_out data) (lit_bits (unat (mem ! src))) out"
    using literal_stream [of "comp_out data" "mem ! src"] compressed_out_ok [OF assms(1,3)]
    unfolding wrote_bits_def by metis
  have b: "b \<le> src" using assms(1) by (simp add: compressed_def)
  have "encodes [Lit (mem ! src)] (lit_bits (unat (mem ! src)))"
    using encodes_Lit [OF encodes_Nil, of "mem ! src"] by simp
  moreover have "expand [Lit (mem ! src)] (take (src - b) (drop b mem)) = take (src + 1 - b) (drop b mem)"
    using b assms(2) take_Suc_nth [of "src - b" "drop b mem"] by (simp add: Suc_diff_le)
  ultimately have "emitted (dict_size data0) (comp_out data0) (take (src + 1 - b) (drop b mem)) out"
    using emitted_more [OF _ _ o(2)] assms(1) unfolding compressed_def by fastforce
  then show ?thesis using assms(1,2) o(1) by (simp add: compressed_def)
qed

lemma compressed_match:
  assumes "compressed b mem data0 data src" and "comp_ok data0" and "b \<le> s" and "s < src" and "3 \<le> len"
    and "src + len \<le> length mem" and "src - s \<le> dict_size data0"
    and "\<And>i. i < len \<Longrightarrow> mem ! (src + i) = mem ! (s + i)"
  shows "\<exists>out. zlib_match (comp_out data) (int (src - s)) (int len) = Some out \<and>
    compressed b mem data0 (data\<lparr>comp_out := out\<rparr>) (src + len)"
proof -
  let ?d = "src - s" and ?h = "take (src - b) (drop b mem)"
  have d: "0 < ?d" "?d \<le> 32768" "?d \<le> src - b" using assms(2,3,4,7) by (simp_all add: comp_ok_def)
  obtain out cs where o: "zlib_match (comp_out data) (int ?d) (int len) = Some out"
      "encodes (match_tokens ?d len) cs" "wrote_bits (comp_out data) cs out"
    using match_wrote [OF compressed_out_ok [OF assms(1,2)] assms(5) d(1,2)] by blast
  note m = match_tokens_sound [of len ?d "dict_size data0" ?h "src - b"]
  have "copy_match ?d len ?h = take (src + len - b) (drop b mem)"
    using assms(3,4,6,8) by (intro copy_match_repeats) auto
  then have "emitted (dict_size data0) (comp_out data0) (take (src + len - b) (drop b mem)) out"
    using assms(1,5,6,7) d m by (intro emitted_more [OF _ o(2,3)]) (auto simp: compressed_def)
  then show ?thesis using assms(1,6) o(1) by (simp add: compressed_def)
qed

lemma HASH_total: "bits \<le> 24 \<Longrightarrow> p + 2 < length mem \<Longrightarrow> \<exists>h. HASH bits mem p = Some h"
  by (simp add: HASH_def access_simps Let_def)

lemma compressed_bucket:
  assumes "compressed b mem data0 data src"
  shows "compressed b mem data0 (data\<lparr>hash_table := (hash_table data)[k := Some src]\<rparr>) src"
  using assms set_update_subset_insert [of "hash_table data" k "Some src"] by (auto simp: compressed_def)

lemma compress_step_ok:
  assumes "comp_ok data0" and "compressed b mem data0 data src" and "int src < tp" and "tp + 3 \<le> int (length mem)"
  shows "\<exists>data' src'. compress_step data mem tp src = Some (data', src') \<and>
    compressed b mem data0 data' src' \<and> int src' < tp + 3"
proof -
  have src: "src + 2 < length mem" "src < length mem" using assms(3,4) by linarith+
  have hb: "hash_bits data \<le> 24" "length (hash_table data) = 2 ^ hash_bits data" "dict_size data = dict_size data0"
    using assms(1,2) by (simp_all add: compressed_def comp_ok_def)
  obtain h where h: "HASH (hash_bits data) mem src = Some h" using HASH_total [OF hb(1) src(1)] by blast
  let ?k = "h mod 2 ^ hash_bits data"
  let ?d = "data\<lparr>hash_table := (hash_table data)[?k := Some src]\<rparr>"
  have f: "fetch (hash_table data) ?k = Some (hash_table data ! ?k)" using hb(2) by (simp add: access_simps)
  have c: "compressed b mem data0 ?d src" by (rule compressed_bucket [OF assms(2)])
  obtain out where l: "zlib_literal (comp_out data) (mem ! src) = Some out"
      "compressed b mem data0 (?d\<lparr>comp_out := out\<rparr>) (src + 1)"
    using compressed_literal [OF c src(2) assms(1)] by auto
  let ?lit = "Some (?d\<lparr>comp_out := out\<rparr>, src + 1)"
  let ?cond = "\<lambda>s. s < src \<and> src - s \<le> dict_size data \<and> take MIN_MATCH (drop src mem) = take MIN_MATCH (drop s mem)"
  have lit: "compress_step data mem tp src = ?lit"
    if "hash_table data ! ?k = None \<or> (\<exists>s. hash_table data ! ?k = Some s \<and> \<not> ?cond s)"
    using that h f l(1) src(2) by (elim disjE exE conjE) (simp_all add: compress_step_def access_simps Let_def, blast)
  show ?thesis
  proof (cases "hash_table data ! ?k = None \<or> (\<exists>s. hash_table data ! ?k = Some s \<and> \<not> ?cond s)")
    case True
    then show ?thesis using lit l(2) assms(3) by (intro exI [of _ "?d\<lparr>comp_out := out\<rparr>"] exI [of _ "src + 1"]) simp
  next
    case False
    then obtain s where s: "hash_table data ! ?k = Some s" "?cond s" by auto
    have bs: "b \<le> s"
    proof -
      have "Some s \<in> set (hash_table data)" using s(1) hb(2) by (metis nth_mem mod_less_divisor zero_less_numeral zero_less_power)
      then show ?thesis using assms(2) by (simp add: compressed_def)
    qed
    have m3: "mem ! (src + 3 - 3 + i) = mem ! (s + 3 - 3 + i)" if "i < 3" for i
    proof -
      have "take 3 (drop src mem) ! i = take 3 (drop s mem) ! i" using s(2) by (simp add: MIN_MATCH_def)
      then show ?thesis using that src(1) s(2) by simp
    qed
    obtain src' len' where e: "extend_match mem tp (src + 3) (s + 3) 3 = Some (src', len')" "3 \<le> len'"
        "src' = src + len'" "int src' < tp + 3" "\<And>i. i < len' \<Longrightarrow> mem ! (src + i) = mem ! (s + i)"
      using extend_match_found [OF assms(4), of "src + 3" 3 "s + 3"] assms(3) s(2) m3
      by (auto simp: MAX_MATCH_def)
    have len: "src + len' \<le> length mem" using e(3,4) assms(4) by linarith
    obtain out where o: "zlib_match (comp_out ?d) (int (src - s)) (int len') = Some out"
        "compressed b mem data0 (?d\<lparr>comp_out := out\<rparr>) (src + len')"
      using compressed_match [OF c assms(1) bs _ e(2) len _ e(5)] s(2) hb(3) by auto
    have "int src' - int len' - int s = int (src - s)" using e(3) s(2) by simp
    then have "compress_step data mem tp src = Some (?d\<lparr>comp_out := out\<rparr>, src')"
      using h f s e(1) o(1) by (simp add: compress_step_def Let_def MIN_MATCH_def)
    then show ?thesis using o(2) e(3,4) by blast
  qed
qed

lemma compress_loop_ok:
  assumes "comp_ok data0" and "compressed b mem data0 data src" and "int src < tp + 3 \<or> int src = tp + 3"
    and "tp + 3 \<le> int (length mem)"
  shows "\<exists>data' src'. compress_loop data mem tp src = Some (data', src') \<and>
    compressed b mem data0 data' src' \<and> int src' \<le> tp + 3"
  using assms(2,3)
proof (induction "nat (tp - int src)" arbitrary: data src rule: less_induct)
  case less
  show ?case
  proof (cases "int src < tp")
    case False
    then show ?thesis using less.prems by (subst compress_loop.simps) auto
  next
    case True
    obtain data' src' where s: "compress_step data mem tp src = Some (data', src')"
        "compressed b mem data0 data' src'" "int src' < tp + 3"
      using compress_step_ok [OF assms(1) less.prems(1) True assms(4)] by blast
    have "nat (tp - int src') < nat (tp - int src)" using compress_step_less [OF s(1)] True by linarith
    from less.hyps [OF this s(2)] s(3) show ?thesis
      using True s(1) by (subst compress_loop.simps) simp
  qed
qed

lemma compress_tail_ok:
  assumes "comp_ok data0" and "compressed b mem data0 data src" and "int src \<le> tp" and "tp \<le> int (length mem)"
  shows "\<exists>data'. compress_tail data mem tp src = Some data' \<and> compressed b mem data0 data' (nat tp)"
  using assms(2,3)
proof (induction "nat (tp - int src)" arbitrary: data src rule: less_induct)
  case less
  show ?case
  proof (cases "int src < tp")
    case False
    then have "nat tp = src" using less.prems by linarith
    then show ?thesis using less.prems False by (subst compress_tail.simps) auto
  next
    case True
    then have src: "src < length mem" using assms(4) by linarith
    obtain out where l: "zlib_literal (comp_out data) (mem ! src) = Some out"
        "compressed b mem data0 (data\<lparr>comp_out := out\<rparr>) (src + 1)"
      using compressed_literal [OF less.prems(1) src assms(1)] by blast
    have "\<exists>data'. compress_tail (data\<lparr>comp_out := out\<rparr>) mem tp (src + 1) = Some data' \<and> compressed b mem data0 data' (nat tp)"
      using less.hyps [OF _ l(2)] True by simp
    then show ?thesis using True src l(1) by (subst compress_tail.simps) (simp add: access_simps)
  qed
qed

text \<open>Compressing \<open>slen\<close> bytes from \<open>src\<close> with an empty hash table.\<close>

lemma compress_emits:
  assumes "comp_ok data" and "set (hash_table data) \<subseteq> {None}" and "src + slen \<le> length mem"
  obtains data' where "uzlib_compress data mem src slen = Some data'"
    and "emitted (dict_size data) (comp_out data) (take slen (drop src mem)) (comp_out data')"
    and "length (hash_table data') = length (hash_table data)" "hash_bits data' = hash_bits data"
    "dict_size data' = dict_size data"
proof -
  let ?t = "int src + int slen - int MIN_MATCH"
  have "emitted (dict_size data) (comp_out data) [] (comp_out data)"
    unfolding emitted_def using assms(1) by (intro exI [of _ "[]"])
      (auto intro: encodes_Nil wrote_bits_refl simp: comp_ok_def)
  then have c: "compressed src mem data data src"
    using assms by (auto simp: compressed_def)
  obtain d1 s1 where l: "compress_loop data mem ?t src = Some (d1, s1)" "compressed src mem data d1 s1" "int s1 \<le> ?t + 3"
    using compress_loop_ok [OF assms(1) c, of ?t] assms(3) by (auto simp: MIN_MATCH_def)
  obtain d2 where "compress_tail d1 mem (?t + int MIN_MATCH) s1 = Some d2"
      "compressed src mem data d2 (nat (?t + int MIN_MATCH))"
    using compress_tail_ok [OF assms(1) l(2), of "?t + int MIN_MATCH"] l(3) assms(3) by (auto simp: MIN_MATCH_def)
  moreover have "nat (?t + int MIN_MATCH) - src = slen" by (simp add: nat_add_distrib)
  ultimately show ?thesis using that [of d2] l(1) by (simp add: uzlib_compress_def compressed_def Let_def)
qed

end
