(* ===== verification/Inflate_Fixed.thy ===== *)
theory Inflate_Fixed
  imports Tinf_Inflate Deflate_Spec
begin

text \<open>
  The decompressor reads what the format of Deflate_Spec writes: for any byte source, in any number of
  calls, with or without the ring buffer, uzlib_uncompress turns a block with fixed codes into the
  bytes its tokens stand for.
\<close>

section \<open>The window\<close>

text \<open>
  \<open>h\<close> is all output since the stream began.  Without a ring it lies in the output buffer from
  dest_start to dest; with one, the ring holds its last \<open>dict_size\<close> bytes, byte \<open>i\<close> at
  \<open>i mod dict_size\<close>.
\<close>

definition window :: "'e uncomp \<Rightarrow> u8 list \<Rightarrow> bool" where
  "window d h \<longleftrightarrow>
     (case dict_ring d of
        None \<Rightarrow> dest d = dest_start d + length h \<and> dest d \<le> length (dest_buf d) \<and>
          (\<forall>i < length h. dest_buf d ! (dest_start d + i) = h ! i)
      | Some r \<Rightarrow> 0 < dict_size d \<and> length r = dict_size d \<and> dict_idx d = length h mod dict_size d \<and>
          (\<forall>i < length h. length h \<le> i + dict_size d \<longrightarrow> r ! (i mod dict_size d) = h ! i))"

text \<open>The field lzOff for a match \<open>dist\<close> places back.\<close>

definition lz_at :: "'e uncomp \<Rightarrow> u8 list \<Rightarrow> nat \<Rightarrow> bool" where
  "lz_at d h dist \<longleftrightarrow> 0 < dist \<and> dist \<le> length h \<and>
     (case dict_ring d of
        None \<Rightarrow> lzOff d = - int dist
      | Some r \<Rightarrow> dist \<le> dict_size d \<and> lzOff d = int ((length h - dist) mod dict_size d))"

text \<open>One byte \<open>c\<close> of output; what the calls leave alone.\<close>

definition out_byte :: "'e uncomp \<Rightarrow> u8 \<Rightarrow> 'e uncomp \<Rightarrow> bool" where
  "out_byte d c d' \<longleftrightarrow> dest_buf d' = (dest_buf d)[dest d := c] \<and> dest d' = dest d + 1 \<and>
     dest_start d' = dest_start d \<and> dest_limit d' = dest_limit d \<and> checksum d' = checksum d \<and>
     checksum_type d' = checksum_type d \<and> eof d' = eof d \<and> btype d' = btype d \<and> bfinal d' = bfinal d \<and>
     dict_size d' = dict_size d \<and> (dict_ring d' = None \<longleftrightarrow> dict_ring d = None) \<and>
     ltree d' = ltree d \<and> dtree d' = dtree d"

definition same_in :: "'e uncomp \<Rightarrow> 'e uncomp \<Rightarrow> bool" where
  "same_in d d' \<longleftrightarrow> source d' = source d \<and> src_env d' = src_env d \<and> tag d' = tag d \<and> bitcount d' = bitcount d"

lemma mod_distinct:
  assumes "i < L" and "L < i + S" 
  shows "i mod S \<noteq> L mod (S :: nat)"
proof
  assume "i mod S = L mod S"
  then have "S dvd L - i" using assms mod_eq_dvd_iff_nat [of i L S] by simp
  then show False using assms by (auto dest: dvd_imp_le)
qed

lemma put_window:
  assumes "window d h" and "dest d < length (dest_buf d)"
  shows "\<exists>ring i. TINF_PUT c d = Some (d\<lparr>dest_buf := (dest_buf d)[dest d := c], dest := dest d + 1,
      dict_ring := ring, dict_idx := i\<rparr>) \<and> (ring = None \<longleftrightarrow> dict_ring d = None) \<and>
    window (d\<lparr>dest_buf := (dest_buf d)[dest d := c], dest := dest d + 1, dict_ring := ring, dict_idx := i\<rparr>) (h @ [c])"
proof (cases "dict_ring d")
  case None
  have "TINF_PUT c d = Some (d\<lparr>dest_buf := (dest_buf d)[dest d := c], dest := dest d + 1,
      dict_ring := None, dict_idx := dict_idx d\<rparr>)"
    using None assms(2) by (simp add: TINF_PUT_def access_simps Let_def)
  moreover have "window (d\<lparr>dest_buf := (dest_buf d)[dest d := c], dest := dest d + 1,
      dict_ring := None, dict_idx := dict_idx d\<rparr>) (h @ [c])"
    using assms None by (auto simp: window_def nth_append less_Suc_eq)
  ultimately show ?thesis by (intro exI conjI) (assumption, simp only: None, assumption)
next
  case (Some r)
  let ?S = "dict_size d" and ?L = "length h"
  have w: "0 < ?S" "length r = ?S" "dict_idx d = ?L mod ?S"
    "\<And>i. i < ?L \<Longrightarrow> ?L \<le> i + ?S \<Longrightarrow> r ! (i mod ?S) = h ! i"
    using assms(1) Some by (auto simp: window_def)
  let ?i = "if dict_idx d + 1 = ?S then 0 else dict_idx d + 1" and ?r = "r[dict_idx d := c]"
  have idx: "dict_idx d < length r" using w by simp
  have "TINF_PUT c d = Some (d\<lparr>dest_buf := (dest_buf d)[dest d := c], dest := dest d + 1,
      dict_ring := Some ?r, dict_idx := ?i\<rparr>)"
    using Some assms(2) idx by (simp add: TINF_PUT_def access_simps Let_def)
  moreover have "window (d\<lparr>dest_buf := (dest_buf d)[dest d := c], dest := dest d + 1,
      dict_ring := Some ?r, dict_idx := ?i\<rparr>) (h @ [c])"
  proof -
    have "?r ! (i mod ?S) = (h @ [c]) ! i" if "i < Suc ?L" "Suc ?L \<le> i + ?S" for i
    proof (cases "i = ?L")
      case True
      then show ?thesis using w idx by simp
    next
      case False
      then have "i mod ?S \<noteq> ?L mod ?S" using that by (intro mod_distinct) auto
      then show ?thesis using w(3) w(4) [of i] that False by (simp add: nth_append)
    qed
    then show ?thesis using w by (simp add: window_def mod_Suc)
  qed
  ultimately show ?thesis by (intro exI conjI) (assumption, simp only: Some, simp, assumption)
qed

lemma window_other:
  "window (d\<lparr>lzOff := x\<rparr>) h = window d h" "window (d\<lparr>curlen := n\<rparr>) h = window d h"
  "window (d\<lparr>bitcount := n\<rparr>) h = window d h"
  by (simp_all add: window_def split: option.splits)

lemma copy_byte_window:
  assumes "window d h" and "lz_at d h dist" and "dest d < length (dest_buf d)" and "curlen d = Suc n"
  defines "c \<equiv> h ! (length h - dist)"
  shows "\<exists>d'. tinf_copy_byte d = Some (TINF_OK, d') \<and> window d' (h @ [c]) \<and> lz_at d' (h @ [c]) dist \<and>
    out_byte d c d' \<and> same_in d d' \<and> curlen d' = n"
proof (cases "dict_ring d")
  case None
  have w: "dest d = dest_start d + length h" "\<And>i. i < length h \<Longrightarrow> dest_buf d ! (dest_start d + i) = h ! i"
    using assms(1) None by (auto simp: window_def)
  have z: "lzOff d = - int dist" "0 < dist" "dist \<le> length h" using assms(2) None by (simp_all add: lz_at_def)
  have "int (dest d) + lzOff d = int (dest_start d + (length h - dist))" using w z by simp
  moreover have "dest_buf d ! (dest_start d + (length h - dist)) = c" using w(2) [of "length h - dist"] z by (simp add: c_def)
  moreover have "dest_start d + (length h - dist) < length (dest_buf d)" using w(1) assms(3) z by simp
  ultimately have f: "fetch_int (dest_buf d) (int (dest d) + lzOff d) = Some c"
    by (simp only: fetch_int_of_nat fetch_Some)
  have "tinf_copy_byte d = Some (TINF_OK, d\<lparr>dest_buf := (dest_buf d)[dest d := c], dest := dest d + 1,
      curlen := n\<rparr>)"
    using None f assms(3,4) by (simp add: tinf_copy_byte_def access_simps Let_def)
  moreover have "window (d\<lparr>dest_buf := (dest_buf d)[dest d := c], dest := dest d + 1, curlen := n\<rparr>) (h @ [c])"
    using None assms(3) w by (auto simp: window_def nth_append less_Suc_eq)
  ultimately show ?thesis using None z by (auto simp: lz_at_def out_byte_def same_in_def)
next
  case (Some r)
  let ?S = "dict_size d" and ?L = "length h"
  have w: "0 < ?S" "length r = ?S" "\<And>i. i < ?L \<Longrightarrow> ?L \<le> i + ?S \<Longrightarrow> r ! (i mod ?S) = h ! i"
    using assms(1) Some by (auto simp: window_def)
  have z: "lzOff d = int ((?L - dist) mod ?S)" "0 < dist" "dist \<le> ?L" "dist \<le> ?S"
    using assms(2) Some by (simp_all add: lz_at_def)
  have f: "fetch_int r (lzOff d) = Some c"
    using w(3) [of "?L - dist"] w(1,2) z by (simp add: access_simps c_def)
  obtain ring i where p: "TINF_PUT c d = Some (d\<lparr>dest_buf := (dest_buf d)[dest d := c], dest := dest d + 1,
      dict_ring := ring, dict_idx := i\<rparr>)" "ring = None \<longleftrightarrow> dict_ring d = None"
      "window (d\<lparr>dest_buf := (dest_buf d)[dest d := c], dest := dest d + 1, dict_ring := ring, dict_idx := i\<rparr>) (h @ [c])"
    using put_window [OF assms(1,3), of c] by (elim exE conjE) (rule that)
  let ?off = "if lzOff d + 1 = int ?S then 0 else lzOff d + 1"
  let ?d = "d\<lparr>dest_buf := (dest_buf d)[dest d := c], dest := dest d + 1,
      dict_ring := ring, dict_idx := i, lzOff := ?off, curlen := n\<rparr>"
  have "tinf_copy_byte d = Some (TINF_OK, ?d)"
    using Some f p(1) assms(4) by (simp add: tinf_copy_byte_def Let_def)
  moreover have "?off = int ((Suc ?L - dist) mod ?S)"
  proof -
    have "Suc ?L - dist = Suc (?L - dist)" using z by simp
    then show ?thesis using z(1) w(1) by (simp add: mod_Suc)
  qed
  moreover have "window ?d (h @ [c])" using p(3) by (simp only: window_other)
  ultimately show ?thesis
    using p(2) Some z by (intro exI [of _ ?d]) (auto simp: lz_at_def out_byte_def same_in_def)
qed


section \<open>The state between two bytes\<close>

text \<open>The bytes \<open>bs\<close> of output.\<close>

definition out_bytes :: "'e uncomp \<Rightarrow> u8 list \<Rightarrow> 'e uncomp \<Rightarrow> bool" where
  "out_bytes d bs d' \<longleftrightarrow> dest_buf d' = take (dest d) (dest_buf d) @ bs @ drop (dest d + length bs) (dest_buf d) \<and>
     dest d' = dest d + length bs \<and>
     dest_start d' = dest_start d \<and> dest_limit d' = dest_limit d \<and> checksum d' = checksum d \<and>
     checksum_type d' = checksum_type d \<and> eof d' = eof d \<and> bfinal d' = bfinal d \<and>
     dict_size d' = dict_size d \<and> (dict_ring d' = None \<longleftrightarrow> dict_ring d = None)"

lemma out_bytes_input_step: "input_step d d' \<Longrightarrow> out_bytes d [] d'"
  by (simp add: out_bytes_def input_step_fields)

lemma out_bytes_Cons:
  assumes "out_byte d b d1" and "out_bytes d1 bs d'" and "dest d < length (dest_buf d)"
  shows "out_bytes d (b # bs) d'"
proof -
  have "take (dest d + 1) ((dest_buf d)[dest d := b]) = take (dest d) (dest_buf d) @ [b]"
    using assms(3) by (simp add: take_Suc_nth)
  moreover have "drop (dest d + 1 + length bs) ((dest_buf d)[dest d := b]) = drop (dest d + 1 + length bs) (dest_buf d)"
    by simp
  ultimately show ?thesis using assms(1,2) by (auto simp: out_bytes_def out_byte_def)
qed

lemma out_bytes_length: "out_bytes d bs d' \<Longrightarrow> dest d + length bs \<le> length (dest_buf d) \<Longrightarrow>
    length (dest_buf d') = length (dest_buf d)"
  by (simp add: out_bytes_def)

context byte_source
begin

text \<open>
  In state \<open>d\<close>, after the output \<open>h\<close>, the block has the bytes \<open>out\<close> left, and the bits \<open>rest\<close> follow
  its end.  A match under way (curlen not 0) has its bytes first.
\<close>

definition yields :: "nat \<Rightarrow> 'e uncomp \<Rightarrow> u8 list \<Rightarrow> u8 list \<Rightarrow> bool list \<Rightarrow> bool" where
  "yields w d h out rest \<longleftrightarrow> \<not> eof d \<and> (btype d = 1 \<or> btype d = 2) \<and>
     tree_for fixed_lit_lengths (ltree d) \<and> tree_for fixed_dist_lengths (dtree d) \<and>
     window d h \<and> (dict_ring d = None \<or> w \<le> dict_size d) \<and>
     (\<exists>ts bs. encodes ts bs \<and> in_bits d = bs @ lit_bits 256 @ rest \<and>
        tokens_ok w ts (length h + curlen d) \<and>
        (if curlen d = 0 then expand ts h = h @ out
         else \<exists>dist. dist \<le> w \<and> lz_at d h dist \<and> expand ts (copy_match dist (curlen d) h) = h @ out))"

lemma same_in_bits: "same_in d d' \<Longrightarrow> in_bits d' = in_bits d"
  by (simp add: same_in_def in_bits_def)

lemma decode_lit:
  assumes "tree_for fixed_lit_lengths t" and "s < 288" and "in_bits d = lit_bits s @ rest" and "\<not> eof d"
  obtains d' where "tinf_decode_symbol rs t d = Some (int s, d')" and "in_bits d' = rest" and "input_step d d'"
  using decode_canonical [OF assms(1) fixed_kraft(1) _ fixed_used(1) [OF assms(2)] assms(3,4)] by auto

lemma decode_dist:
  assumes "tree_for fixed_dist_lengths t" and "s < 32" and "in_bits d = dist_code_bits s @ rest" and "\<not> eof d"
  obtains d' where "tinf_decode_symbol rs t d = Some (int s, d')" and "in_bits d' = rest" and "input_step d d'"
  using decode_canonical [OF assms(1) fixed_kraft(2) _ fixed_used(2) [OF assms(2)] assms(3,4)] by auto

lemma window_input_step: "input_step d d' \<Longrightarrow> window d' h = window d h"
  unfolding window_def by (simp only: input_step_fields)

lemma read_extra:
  assumes "in_bits d = nat_bits n e @ rest" and "\<not> eof d" and "e < 2 ^ n"
  obtains d' where "tinf_read_bits rs n base d = (e + base, d')" and "in_bits d' = rest" and "input_step d d'"
  using read_bits_avail [OF assms(1,2), of n base] assms(3) by (auto simp: bits_simps)

text \<open>A literal, or the end symbol.\<close>

lemma symbol_literal:
  assumes "window d h" and "tree_for fixed_lit_lengths (ltree d)" and "dest d < length (dest_buf d)"
    and "in_bits d = lit_bits (unat c) @ rest" and "\<not> eof d" and "curlen d = 0"
  shows "\<exists>d'. tinf_inflate_block_data rs d = Some (TINF_OK, d') \<and> window d' (h @ [c]) \<and> out_byte d c d' \<and>
    in_bits d' = rest \<and> curlen d' = 0"
proof -
  have "unat c < 288" using unat_byte_less [of c] by linarith
  then obtain d1 where d1: "tinf_decode_symbol rs (ltree d) d = Some (int (unat c), d1)" "in_bits d1 = rest"
      "input_step d d1"
    using decode_lit [OF assms(2) _ assms(4,5)] by blast
  note f = input_step_fields [OF d1(3)]
  have w: "window d1 h" "dest d1 < length (dest_buf d1)" using assms(1,3) by (simp_all add: window_input_step [OF d1(3)] f)
  obtain ring i where p: "TINF_PUT c d1 = Some (d1\<lparr>dest_buf := (dest_buf d1)[dest d1 := c], dest := dest d1 + 1,
      dict_ring := ring, dict_idx := i\<rparr>)" "ring = None \<longleftrightarrow> dict_ring d1 = None"
      "window (d1\<lparr>dest_buf := (dest_buf d1)[dest d1 := c], dest := dest d1 + 1, dict_ring := ring, dict_idx := i\<rparr>) (h @ [c])"
    using put_window [OF w, of c] by (elim exE conjE) (rule that)
  let ?d = "d1\<lparr>dest_buf := (dest_buf d1)[dest d1 := c], dest := dest d1 + 1, dict_ring := ring, dict_idx := i\<rparr>"
  have "int (unat c) < 256" using unat_byte_less [of c] by linarith
  then have "tinf_inflate_symbol rs d = Some (Inl (TINF_OK, ?d))"
    using d1(1) assms(5) p(1) by (simp add: tinf_inflate_symbol_def f)
  then have "tinf_inflate_block_data rs d = Some (TINF_OK, ?d)"
    using assms(6) by (simp add: tinf_inflate_block_data_def)
  moreover have "out_byte d c ?d" using p(2) by (simp add: out_byte_def f)
  moreover have "in_bits ?d = rest" using d1(2) by (simp add: in_bits_def)
  ultimately show ?thesis using p(3) assms(6) f by (intro exI [of _ ?d]) simp
qed

lemma symbol_end:
  assumes "tree_for fixed_lit_lengths (ltree d)" and "in_bits d = lit_bits 256 @ rest" and "\<not> eof d" and "curlen d = 0"
  shows "\<exists>d'. tinf_inflate_block_data rs d = Some (TINF_DONE, d') \<and> input_step d d' \<and> in_bits d' = rest"
proof -
  obtain d1 where d1: "tinf_decode_symbol rs (ltree d) d = Some (int 256, d1)" "in_bits d1 = rest" "input_step d d1"
    using decode_lit [OF assms(1) _ assms(2,3)] by auto
  then have "tinf_inflate_symbol rs d = Some (Inl (TINF_DONE, d1))"
    using assms(3) by (simp add: tinf_inflate_symbol_def input_step_fields [OF d1(3)])
  then show ?thesis using d1 assms(4) by (auto simp: tinf_inflate_block_data_def)
qed

lemma ring_offset:
  assumes "0 < dist" and "dist \<le> L" and "dist \<le> S"
  shows "(if int (L mod S) - int dist < 0 then int (L mod S) - int dist + int S else int (L mod S) - int dist) =
    int ((L - dist) mod S)"
proof -
  have S: "0 < S" using assms by simp
  let ?v = "int (L mod S) - int dist"
  let ?o = "if ?v < 0 then ?v + int S else ?v"
  have r: "0 \<le> ?o" "?o < int S" using assms mod_less_divisor [OF S, of L] by (auto simp del: mod_less_divisor)
  have "?o mod int S = ?v mod int S" by simp
  also have "\<dots> = (int L - int dist) mod int S" by (simp add: zmod_int mod_diff_left_eq)
  also have "\<dots> = int ((L - dist) mod S)" using assms(2) by (simp add: zmod_int of_nat_diff)
  finally show ?thesis using r by (simp add: mod_pos_pos_trivial)
qed

text \<open>A length and distance: the window position is found, and the first byte copied.\<close>

lemma symbol_match:
  assumes "window d h" and "tree_for fixed_lit_lengths (ltree d)" and "tree_for fixed_dist_lengths (dtree d)"
    and "m < 29" and "e < 2 ^ (length_bits ! m)" and "k < 30" and "e' < 2 ^ (dist_bits ! k)"
    and bits: "in_bits d = lit_bits (257 + m) @ nat_bits (length_bits ! m) e @ dist_code_bits k @
      nat_bits (dist_bits ! k) e' @ rest"
    and "\<not> eof d" and "dist = dist_base ! k + e'" and "0 < dist" and "dist \<le> length h"
    and "dict_ring d = None \<or> dist \<le> dict_size d"
  shows "\<exists>d'. tinf_inflate_symbol rs d = Some (Inr d') \<and> in_bits d' = rest \<and> lz_at d' h dist \<and> window d' h \<and>
    curlen d' = length_base ! m + e \<and> input_step (d\<lparr>curlen := length_base ! m + e, lzOff := lzOff d'\<rparr>) d'"
proof -
  obtain d1 where d1: "tinf_decode_symbol rs (ltree d) d = Some (int (257 + m), d1)" "input_step d d1"
      "in_bits d1 = nat_bits (length_bits ! m) e @ dist_code_bits k @ nat_bits (dist_bits ! k) e' @ rest"
    using decode_lit [OF assms(2) _ bits assms(9)] assms(4) by auto
  note f1 = input_step_fields [OF d1(2)]
  obtain d2 where d2: "tinf_read_bits rs (length_bits ! m) (length_base ! m) d1 = (e + length_base ! m, d2)"
      "in_bits d2 = dist_code_bits k @ nat_bits (dist_bits ! k) e' @ rest" "input_step d1 d2"
    using read_extra [OF d1(3) _ assms(5)] assms(9) f1 by metis
  let ?d3 = "d2\<lparr>curlen := e + length_base ! m\<rparr>"
  note f2 = input_step_fields [OF d2(3)]
  have b3: "in_bits ?d3 = dist_code_bits k @ nat_bits (dist_bits ! k) e' @ rest" using d2(2) by (simp add: in_bits_def)
  obtain d4 where d4: "tinf_decode_symbol rs (dtree ?d3) ?d3 = Some (int k, d4)" "input_step ?d3 d4"
      "in_bits d4 = nat_bits (dist_bits ! k) e' @ rest"
    using decode_dist [OF _ _ b3, of "dtree ?d3"] assms(3,6,9) f1 f2 by auto
  note f4 = input_step_fields [OF d4(2)]
  obtain d5 where d5: "tinf_read_bits rs (dist_bits ! k) (dist_base ! k) d4 = (e' + dist_base ! k, d5)"
      "in_bits d5 = rest" "input_step d4 d5"
    using read_extra [OF d4(3) _ assms(7)] assms(9) f1 f2 f4 by auto
  note f5 = input_step_fields [OF d5(3)]
  have st: "input_step (d\<lparr>curlen := length_base ! m + e\<rparr>) d5"
  proof -
    have "input_step d d2" using d1(2) d2(3) by (rule input_step_trans)
    then have "input_step (d\<lparr>curlen := length_base ! m + e\<rparr>) ?d3"
      by (elim input_stepE, hypsubst, simp add: input_step_def add.commute)
    also have "input_step ?d3 d5" using d4(2) d5(3) by (rule input_step_trans)
    finally show ?thesis .
  qed
  note f = input_step_fields [OF st, simplified]
  have offs: "e' + dist_base ! k = dist" using assms(10) by simp
  have len: "length length_bits = 30" "length length_base = 30" "length dist_bits = 30" "length dist_base = 30"
    by (rule length_tables)+
  let ?off = "case dict_ring d of None \<Rightarrow> - int dist
    | Some r \<Rightarrow> if int (dict_idx d) - int dist < 0 then int (dict_idx d) - int dist + int (dict_size d)
        else int (dict_idx d) - int dist"
  have "\<not> int (dest d) - int (dest_start d) < int dist" if "dict_ring d = None"
    using assms(1,12) that by (simp add: window_def)
  then have "tinf_inflate_symbol rs d = Some (Inr (d5\<lparr>lzOff := ?off\<rparr>))"
    using d1(1) d2(1) d4(1) d5(1) assms(4,6,9,13)
    by (auto simp: tinf_inflate_symbol_def f f1 access_simps len offs Let_def split: option.splits)
  moreover have "in_bits (d5\<lparr>lzOff := ?off\<rparr>) = rest" using d5(2) by (simp add: in_bits_def)
  moreover have "lz_at (d5\<lparr>lzOff := ?off\<rparr>) h dist"
    using assms(1,11-13) ring_offset [of dist "length h" "dict_size d"]
    by (auto simp: lz_at_def f window_def split: option.splits)
  moreover have "window (d5\<lparr>lzOff := x\<rparr>) h" for x
    unfolding window_other using assms(1) unfolding window_def f .
  moreover have "input_step (d\<lparr>curlen := length_base ! m + e, lzOff := ?off\<rparr>) (d5\<lparr>lzOff := ?off\<rparr>)"
    using st by (elim input_stepE, hypsubst, simp add: input_step_def)
  ultimately show ?thesis using f by (intro exI [of _ "d5\<lparr>lzOff := ?off\<rparr>"]) simp
qed

text \<open>The next byte of a match that is being copied.\<close>

lemma copy_byte_yields:
  assumes y: "yields w d h (b # out) rest" and room: "dest d < length (dest_buf d)"
    and ts: "encodes ts bs" "in_bits d' = bs @ lit_bits 256 @ rest" "tokens_ok w ts (length h + Suc n)"
      "expand ts (copy_match dist (Suc n) h) = h @ b # out"
    and d': "dist \<le> w" "lz_at d' h dist" "window d' h" "curlen d' = Suc n" "input_step (d\<lparr>curlen := Suc n, lzOff := lzOff d'\<rparr>) d'"
  shows "\<exists>d''. tinf_copy_byte d' = Some (TINF_OK, d'') \<and> yields w d'' (h @ [b]) out rest \<and> out_byte d b d''"
proof -
  from y have k: "\<not> eof d" "tree_for fixed_lit_lengths (ltree d)" "tree_for fixed_dist_lengths (dtree d)"
      "window d h" "btype d = 1 \<or> btype d = 2" "dict_ring d = None \<or> w \<le> dict_size d"
    by (simp_all add: yields_def)
  note f = input_step_fields [OF d'(5), simplified]
  define c where "c = h ! (length h - dist)"
  have room': "dest d' < length (dest_buf d')" using room by (simp add: f)
  obtain d'' where d'': "tinf_copy_byte d' = Some (TINF_OK, d'')" "window d'' (h @ [c])" "lz_at d'' (h @ [c]) dist"
      "out_byte d' c d''" "same_in d' d''" "curlen d'' = n"
    using copy_byte_window [OF d'(3,2) room' d'(4)] unfolding c_def by blast
  have e: "expand ts (copy_match dist n (h @ [c])) = h @ b # out" using ts(4) by (simp add: c_def)
  obtain xs ys where "expand ts (copy_match dist n (h @ [c])) = ((h @ [c]) @ xs) @ ys"
    using expand_prefix [of ts "copy_match dist n (h @ [c])"] copy_match_prefix [of dist n "h @ [c]"] by metis
  then have c: "c = b" using e by simp
  have "yields w d'' (h @ [b]) out rest"
    unfolding yields_def using d''(2,3,4,6) d'(1) k f ts(1,2,3) e same_in_bits [OF d''(5)]
    by (auto simp: out_byte_def c intro!: exI [of _ ts] exI [of _ bs])
  moreover have "out_byte d b d''" using d''(4) c f by (simp add: out_byte_def)
  ultimately show ?thesis using d''(1) by blast
qed

text \<open>The next byte of the block.\<close>

lemma block_data_yields:
  assumes y: "yields w d h (b # out) rest" and room: "dest d < length (dest_buf d)"
  shows "\<exists>d'. tinf_inflate_block_data rs d = Some (TINF_OK, d') \<and> yields w d' (h @ [b]) out rest \<and> out_byte d b d'"
proof -
  from y obtain ts bs where ts: "encodes ts bs" "in_bits d = bs @ lit_bits 256 @ rest"
      "tokens_ok w ts (length h + curlen d)"
      "if curlen d = 0 then expand ts h = h @ b # out
       else \<exists>dist. dist \<le> w \<and> lz_at d h dist \<and> expand ts (copy_match dist (curlen d) h) = h @ b # out"
    unfolding yields_def by blast
  from y have k: "\<not> eof d" "tree_for fixed_lit_lengths (ltree d)" "tree_for fixed_dist_lengths (dtree d)"
      "window d h" "btype d = 1 \<or> btype d = 2" "dict_ring d = None \<or> w \<le> dict_size d"
    by (simp_all add: yields_def)
  note copy = copy_byte_yields [OF y room]
  show ?thesis
  proof (cases "curlen d")
    case (Suc n)
    then obtain dist where dist: "dist \<le> w" "lz_at d h dist" "expand ts (copy_match dist (Suc n) h) = h @ b # out"
      using ts(4) by auto
    have "input_step (d\<lparr>curlen := Suc n, lzOff := lzOff d\<rparr>) d" using Suc by (simp add: input_step_def)
    with copy [OF ts(1,2) _ dist(3,1,2) k(4) Suc] ts(3) Suc show ?thesis
      by (simp add: tinf_inflate_block_data_def)
  next
    case 0
    then have exp: "expand ts h = h @ b # out" using ts(4) by simp
    from ts(1) show ?thesis
    proof cases
      case encodes_Nil
      then show ?thesis using exp by simp
    next
      case (encodes_Lit ts' bs' c)
      have bits: "in_bits d = lit_bits (unat c) @ bs' @ lit_bits 256 @ rest" using ts(2) encodes_Lit by simp
      obtain xs where "expand ts' (h @ [c]) = (h @ [c]) @ xs" using expand_prefix by blast
      then have c: "c = b" using exp encodes_Lit by simp
      obtain d' where d': "tinf_inflate_block_data rs d = Some (TINF_OK, d')" "window d' (h @ [c])" "out_byte d c d'"
          "in_bits d' = bs' @ lit_bits 256 @ rest" "curlen d' = 0"
        using symbol_literal [OF k(4,2) room bits k(1) 0] by blast
      have "yields w d' (h @ [b]) out rest"
        unfolding yields_def using d'(2-5) k exp encodes_Lit ts(3) 0
        by (auto simp: out_byte_def c intro!: exI [of _ ts'] exI [of _ bs'])
      then show ?thesis using d'(1,3) c by blast
    next
      case (encodes_Match m e kk e' ts' bs')
      let ?dist = "dist_base ! kk + e'" and ?len = "length_base ! m + e"
      have ok: "0 < ?dist" "?dist \<le> length h" "?dist \<le> w" "0 < ?len" "tokens_ok w ts' (length h + ?len)"
        using ts(3) 0 encodes_Match(1) by simp_all
      have bits: "in_bits d = lit_bits (257 + m) @ nat_bits (length_bits ! m) e @ dist_code_bits kk @
          nat_bits (dist_bits ! kk) e' @ bs' @ lit_bits 256 @ rest"
        using ts(2) encodes_Match(2) by simp
      have "dict_ring d = None \<or> ?dist \<le> dict_size d" using k(6) ok(3) by auto
      then obtain d' where d': "tinf_inflate_symbol rs d = Some (Inr d')" "in_bits d' = bs' @ lit_bits 256 @ rest"
          "lz_at d' h ?dist" "window d' h" "curlen d' = ?len"
          "input_step (d\<lparr>curlen := ?len, lzOff := lzOff d'\<rparr>) d'"
        using symbol_match [OF k(4,2,3) encodes_Match(3-6) bits k(1) refl ok(1,2)] by blast
      obtain n where n: "?len = Suc n" using ok(4) by (cases ?len) auto
      have "expand ts' (copy_match ?dist (Suc n) h) = h @ b # out" using exp encodes_Match(1) n by simp
      then show ?thesis
        using copy [OF encodes_Match(7) d'(2) _ _ ok(3) d'(3,4), of n] d' ok(5) n 0
        by (simp add: tinf_inflate_block_data_def)
    qed
  qed
qed

lemma block_data_yields_end:
  assumes y: "yields w d h [] rest"
  shows "\<exists>d'. tinf_inflate_block_data rs d = Some (TINF_DONE, d') \<and> input_step d d' \<and> in_bits d' = rest"
proof -
  from y obtain ts bs where ts: "encodes ts bs" "in_bits d = bs @ lit_bits 256 @ rest"
      "tokens_ok w ts (length h + curlen d)"
      "if curlen d = 0 then expand ts h = h
       else \<exists>dist. dist \<le> w \<and> lz_at d h dist \<and> expand ts (copy_match dist (curlen d) h) = h"
    and k: "\<not> eof d" "tree_for fixed_lit_lengths (ltree d)"
    unfolding yields_def append_Nil2 by blast
  have len: "length (expand ts (copy_match dist n h)) = length h + n + tokens_len ts" for dist n by simp
  have 0: "curlen d = 0" using ts(4) len by (cases "curlen d = 0") (auto dest: arg_cong [where f = length])
  have "tokens_len ts = 0" using ts(4) 0 len [of 0 0] by (auto dest: arg_cong [where f = length])
  with ts(1) have "bs = []"
  proof cases
    case (encodes_Match m e kk e' ts' bs')
    then show ?thesis using ts(3) \<open>tokens_len ts = 0\<close> by simp
  qed auto
  then show ?thesis using symbol_end [OF k(2) _ k(1) 0] ts(2) by simp
qed

section \<open>uzlib_uncompress\<close>

text \<open>A call that has room for all that is left ends the block; one that has not fills its buffer.\<close>

lemma loop_yields_done:
  assumes "yields w d h out rest" and "bfinal d = 1" and "dest d + length out < dest_limit d"
    and "dest_limit d \<le> length (dest_buf d)" and "length out < fuel"
  shows "\<exists>d'. uzlib_uncompress_loop fuel rs False d = Some (TINF_DONE, d') \<and> out_bytes d out d' \<and> in_bits d' = rest"
  using assms
proof (induction out arbitrary: d h fuel)
  case Nil
  obtain d' where d': "tinf_inflate_block_data rs d = Some (TINF_DONE, d')" "input_step d d'" "in_bits d' = rest"
    using block_data_yields_end [OF Nil.prems(1)] by blast
  obtain n where n: "fuel = Suc n" using Nil.prems(5) by (cases fuel) auto
  have b: "btype d = 1 \<or> btype d = 2" using Nil.prems(1) by (simp add: yields_def)
  then have "tinf_process_block rs d = Some (TINF_DONE, d')" using d'(1) by (auto simp: tinf_process_block_def)
  then show ?case
    using d' Nil.prems(2) out_bytes_input_step [OF d'(2)] by (simp add: n input_step_fields tinf_codes)
next
  case (Cons b out)
  have room: "dest d < length (dest_buf d)" using Cons.prems(3,4) by simp
  obtain d1 where d1: "tinf_inflate_block_data rs d = Some (TINF_OK, d1)" "yields w d1 (h @ [b]) out rest" "out_byte d b d1"
    using block_data_yields [OF Cons.prems(1) room] by blast
  obtain n where n: "fuel = Suc n" using Cons.prems(5) by (cases fuel) auto
  have b: "btype d = 1 \<or> btype d = 2" "btype d1 = btype d" using Cons.prems(1) d1(3) by (simp_all add: yields_def out_byte_def)
  then have "tinf_process_block rs d = Some (TINF_OK, d1)" using d1(1) by (auto simp: tinf_process_block_def)
  moreover have "dest d1 < dest_limit d1" using d1(3) Cons.prems(3) by (simp add: out_byte_def)
  ultimately have run: "uzlib_uncompress_loop fuel rs False d = uzlib_uncompress_loop n rs False d1"
    using b by (auto simp: n tinf_codes)
  have "\<exists>d'. uzlib_uncompress_loop n rs False d1 = Some (TINF_DONE, d') \<and> out_bytes d1 out d' \<and> in_bits d' = rest"
    by (rule Cons.IH [OF d1(2)]) (use d1(3) Cons.prems n in \<open>simp_all add: out_byte_def\<close>)
  then show ?case unfolding run using out_bytes_Cons [OF d1(3) _ room] by blast
qed

lemma loop_yields_full:
  assumes "yields w d h (out @ later) rest" and "out \<noteq> []" and "dest_limit d = dest d + length out"
    and "dest_limit d \<le> length (dest_buf d)" and "length out \<le> fuel"
  shows "\<exists>d'. uzlib_uncompress_loop fuel rs False d = Some (TINF_OK, d') \<and> out_bytes d out d' \<and>
    yields w d' (h @ out) later rest"
  using assms
proof (induction out arbitrary: d h fuel)
  case (Cons b out)
  have room: "dest d < length (dest_buf d)" using Cons.prems(3,4) by simp
  obtain d1 where d1: "tinf_inflate_block_data rs d = Some (TINF_OK, d1)" "yields w d1 (h @ [b]) (out @ later) rest"
      "out_byte d b d1"
    using block_data_yields [of w d h b "out @ later" rest] Cons.prems(1) room by auto
  obtain n where n: "fuel = Suc n" using Cons.prems(5) by (cases fuel) auto
  have b: "btype d = 1 \<or> btype d = 2" "btype d1 = btype d" using Cons.prems(1) d1(3) by (simp_all add: yields_def out_byte_def)
  then have p: "tinf_process_block rs d = Some (TINF_OK, d1)" using d1(1) by (auto simp: tinf_process_block_def)
  show ?case
  proof (cases "out = []")
    case True
    then have "\<not> dest d1 < dest_limit d1" using d1(3) Cons.prems(3) by (simp add: out_byte_def)
    then have "uzlib_uncompress_loop fuel rs False d = Some (TINF_OK, d1)" using p by (simp add: n tinf_codes)
    moreover have "out_bytes d [b] d1" using out_bytes_Cons [OF d1(3) out_bytes_input_step [OF input_step_refl] room] .
    ultimately show ?thesis using d1(2) True by auto
  next
    case False
    then have "dest d1 < dest_limit d1" using d1(3) Cons.prems(3) by (simp add: out_byte_def)
    then have run: "uzlib_uncompress_loop fuel rs False d = uzlib_uncompress_loop n rs False d1"
      using p b by (auto simp: n tinf_codes)
    have "\<exists>d'. uzlib_uncompress_loop n rs False d1 = Some (TINF_OK, d') \<and> out_bytes d1 out d' \<and>
        yields w d' ((h @ [b]) @ out) later rest"
      by (rule Cons.IH [OF d1(2) False]) (use d1(3) Cons.prems n in \<open>simp_all add: out_byte_def\<close>)
    then show ?thesis unfolding run using out_bytes_Cons [OF d1(3) _ room] by auto
  qed
qed simp

text \<open>The header of the block; the trees' arrays have their sizes.\<close>

lemma start_fixed:
  assumes "in_bits d = [True, True, False] @ bs" and "\<not> eof d"
    and "length (table (ltree d)) = 16" "length (trans (ltree d)) = 288"
      "length (table (dtree d)) = 16" "length (trans (dtree d)) = 288"
  shows "\<exists>d' lt dt. tinf_start_block rs d = Some (TINF_OK, d') \<and> in_bits d' = bs \<and>
    input_step (d\<lparr>bfinal := 1, btype := 1, ltree := lt, dtree := dt\<rparr>) d' \<and>
    tree_for fixed_lit_lengths lt \<and> tree_for fixed_dist_lengths dt"
proof -
  obtain d1 where d1: "tinf_getbit rs d = (1, d1)" "in_bits d1 = [True, False] @ bs" "input_step d d1"
    using getbit_avail [OF _ assms(2), of True "[True, False] @ bs"] assms(1) by auto
  let ?d1 = "d1\<lparr>bfinal := 1\<rparr>"
  have "in_bits ?d1 = [True, False] @ bs" using d1(2) by (simp add: in_bits_def)
  moreover have "\<not> eof ?d1" using assms(2) by (simp add: input_step_fields [OF d1(3)])
  ultimately obtain d2 where d2: "tinf_read_bits rs 2 0 ?d1 = (1, d2)" "in_bits d2 = bs" "input_step ?d1 d2"
    using read_bits_avail [of ?d1 "[True, False]" bs 2 0] by auto
  obtain lt dt where b: "tinf_build_fixed_trees (ltree d) (dtree d) = (lt, dt)" by fastforce
  have t: "ltree d2 = ltree d" "dtree d2 = dtree d"
    by (simp_all add: input_step_fields [OF d2(3)] input_step_fields [OF d1(3)])
  let ?d = "d2\<lparr>btype := 1, ltree := lt, dtree := dt\<rparr>"
  have "tinf_start_block rs d = Some (TINF_OK, ?d)"
    using d1(1) d2(1) b t by (simp add: tinf_start_block_def)
  moreover have "in_bits ?d = bs" using d2(2) by (simp add: in_bits_def)
  moreover have "input_step (d\<lparr>bfinal := 1, btype := 1, ltree := lt, dtree := dt\<rparr>) ?d"
    using d1(3) d2(3) by (elim input_stepE, hypsubst, simp add: input_step_def)
  ultimately show ?thesis using fixed_trees_for(1,2) [OF assms(3-6) b] by blast
qed

text \<open>Before the first byte.\<close>

definition block_ahead :: "nat \<Rightarrow> 'e uncomp \<Rightarrow> u8 list \<Rightarrow> bool list \<Rightarrow> bool" where
  "block_ahead w d out rest \<longleftrightarrow> (\<exists>ts bs. fixed_block ts bs \<and> tokens_ok w ts 0 \<and> expand ts [] = out \<and>
     in_bits d = bs @ rest) \<and> \<not> eof d \<and> btype d = -1 \<and> curlen d = 0 \<and> window d [] \<and>
     (dict_ring d = None \<or> w \<le> dict_size d) \<and>
     length (table (ltree d)) = 16 \<and> length (trans (ltree d)) = 288 \<and>
     length (table (dtree d)) = 16 \<and> length (trans (dtree d)) = 288"

lemma start_yields:
  assumes "block_ahead w d out rest"
  shows "\<exists>d1. uzlib_uncompress fuel rs d = uzlib_uncompress_loop fuel rs False d1 \<and>
    yields w d1 [] out rest \<and> bfinal d1 = 1 \<and> (\<forall>bs d'. out_bytes d1 bs d' \<longrightarrow> out_bytes (d\<lparr>bfinal := 1\<rparr>) bs d') \<and>
    dest d1 = dest d \<and> dest_limit d1 = dest_limit d \<and> dest_buf d1 = dest_buf d"
proof -
  from assms obtain ts es where e: "encodes ts es" "tokens_ok w ts 0" "expand ts [] = out"
      "in_bits d = [True, True, False] @ es @ lit_bits 256 @ rest"
    and k: "\<not> eof d" "btype d = -1" "curlen d = 0" "window d []" "dict_ring d = None \<or> w \<le> dict_size d"
      "length (table (ltree d)) = 16" "length (trans (ltree d)) = 288"
      "length (table (dtree d)) = 16" "length (trans (dtree d)) = 288"
    by (auto simp: block_ahead_def fixed_block_def)
  obtain d1 lt dt where d1: "tinf_start_block rs d = Some (TINF_OK, d1)" "in_bits d1 = es @ lit_bits 256 @ rest"
      "input_step (d\<lparr>bfinal := 1, btype := 1, ltree := lt, dtree := dt\<rparr>) d1"
      "tree_for fixed_lit_lengths lt" "tree_for fixed_dist_lengths dt"
    using start_fixed [OF e(4) k(1,6-9)] by blast
  note f = input_step_fields [OF d1(3), simplified]
  have w: "window d1 []" using k(4) unfolding window_def f .
  have y: "yields w d1 [] out rest"
    unfolding yields_def using d1 e k w f by (auto intro!: exI [of _ ts] exI [of _ es])
  have "uzlib_uncompress_loop fuel rs True d = uzlib_uncompress_loop fuel rs False d1"
    using d1(1) by (cases fuel) simp_all
  then show ?thesis using y k(2) f by (auto simp: uzlib_uncompress_def out_bytes_def)
qed

end

end
