(* ===== verification/Deflate_Roundtrip.thy ===== *)
theory Deflate_Roundtrip
  imports Genlz77 Inflate_Fixed
begin

text \<open>
  Compressor and decompressor together: what zlib_start_block, uzlib_compress and zlib_finish_block
  write, uzlib_uncompress turns back into the source.
\<close>

section \<open>A compressed buffer is a block with fixed codes\<close>

definition fresh_comp :: "uzlib_comp \<Rightarrow> bool" where
  "fresh_comp data \<longleftrightarrow> comp_ok data \<and> outbuf (comp_out data) = [] \<and> noutbits (comp_out data) = 0 \<and>
     set (hash_table data) \<subseteq> {None}"

text \<open>The calls a user of the library makes.\<close>

definition deflate_buffer :: "uzlib_comp \<Rightarrow> u8 list \<Rightarrow> nat \<Rightarrow> nat \<Rightarrow> outbuf option" where
  "deflate_buffer data mem src slen = do {
     out \<leftarrow> zlib_start_block (comp_out data);
     data \<leftarrow> uzlib_compress (data\<lparr>comp_out := out\<rparr>) mem src slen;
     zlib_finish_block (comp_out data)
   }"

lemma deflate_buffer_block:
  assumes "fresh_comp data" and "src + slen \<le> length mem"
  shows "\<exists>out ts bs k. deflate_buffer data mem src slen = Some out \<and> fixed_block ts bs \<and>
    tokens_ok (dict_size data) ts 0 \<and> expand ts [] = take slen (drop src mem) \<and>
    bytes_bits (outbuf out) = bs @ replicate k False \<and> k \<le> 7"
proof -
  have ok: "comp_ok data" "outbuf_ok (comp_out data)" "out_stream (comp_out data) = []"
    using assms(1) by (simp_all add: fresh_comp_def comp_ok_def out_stream_def)
  obtain o1 where o1: "zlib_start_block (comp_out data) = Some o1" "wrote_bits (comp_out data) [True, True, False] o1"
    using start_wrote [OF ok(2)] by blast
  have c1: "comp_ok (data\<lparr>comp_out := o1\<rparr>)" "set (hash_table (data\<lparr>comp_out := o1\<rparr>)) \<subseteq> {None}"
    using o1(2) assms(1) by (simp_all add: wrote_bits_def comp_ok_def fresh_comp_def)
  obtain d2 where d2: "uzlib_compress (data\<lparr>comp_out := o1\<rparr>) mem src slen = Some d2"
      "emitted (dict_size data) o1 (take slen (drop src mem)) (comp_out d2)"
    using compress_emits [OF c1 assms(2)] by auto
  then obtain ts bs where ts: "encodes ts bs" "wrote_bits o1 bs (comp_out d2)" "tokens_ok (dict_size data) ts 0"
      "expand ts [] = take slen (drop src mem)" by (auto simp: emitted_def)
  then have "outbuf_ok (comp_out d2)" by (simp add: wrote_bits_def)
  then obtain o3 k where o3: "zlib_finish_block (comp_out d2) = Some o3"
      "bytes_bits (outbuf o3) = out_stream (comp_out d2) @ lit_bits 256 @ replicate k False" "k \<le> 7"
    using finish_wrote by blast
  have "fixed_block ts ([True, True, False] @ bs @ lit_bits 256)" using ts(1) by (auto simp: fixed_block_def)
  moreover have "out_stream (comp_out d2) = [True, True, False] @ bs"
    using wrote_bits_trans [OF o1(2) ts(2)] ok(3) by (simp add: wrote_bits_def)
  ultimately show ?thesis
    using o1(1) d2(1) o3 ts(3,4) by (intro exI [of _ o3] exI conjI) (auto simp: deflate_buffer_def)
qed

section \<open>Round trip\<close>

lemma memory_block_ahead:
  assumes "fixed_block ts bs" and "tokens_ok w ts 0" and "bytes_bits src = bs @ rest"
  shows "memory.block_ahead w (memory_uncomp src n) (expand ts []) rest"
  unfolding memory.block_ahead_def memory_in_bits using assms
  by (auto simp: memory_uncomp_def window_def no_tree_def)

text \<open>C4. Round trip of the compressor and the decompressor: for every source buffer, hash size of at
  most 24 bits and window of at most 32768 bytes, zlib_start_block, uzlib_compress and
  zlib_finish_block trip no assert and write bytes from which uzlib_uncompress, given a larger output
  buffer, returns TINF_DONE with the source restored.\<close>

theorem compress_uncompress:
  assumes "fresh_comp data" and "src + slen \<le> length mem" and "slen < n" and "slen < fuel"
  shows "\<exists>out d'. deflate_buffer data mem src slen = Some out \<and>
    uzlib_uncompress fuel None (memory_uncomp (outbuf out) n) = Some (TINF_DONE, d') \<and>
    dest d' = slen \<and> take slen (dest_buf d') = take slen (drop src mem)"
proof -
  obtain out ts bs k where b: "deflate_buffer data mem src slen = Some out" "fixed_block ts bs"
      "tokens_ok (dict_size data) ts 0" "expand ts [] = take slen (drop src mem)"
      "bytes_bits (outbuf out) = bs @ replicate k False"
    using deflate_buffer_block [OF assms(1,2)] by blast
  let ?d = "memory_uncomp (outbuf out) n" and ?bytes = "take slen (drop src mem)"
  have len: "length ?bytes = slen" using assms(2) by simp
  have "memory.block_ahead (dict_size data) ?d ?bytes (replicate k False)"
    using memory_block_ahead [OF b(2,3,5)] b(4) by simp
  from memory.start_yields [OF this, of fuel] obtain d1 where d1:
      "uzlib_uncompress fuel None ?d = uzlib_uncompress_loop fuel None False d1"
      "memory.yields (dict_size data) d1 [] ?bytes (replicate k False)" "bfinal d1 = 1"
      "\<And>bs d'. out_bytes d1 bs d' \<Longrightarrow> out_bytes (?d\<lparr>bfinal := 1\<rparr>) bs d'"
      "dest d1 = dest ?d" "dest_limit d1 = dest_limit ?d" "dest_buf d1 = dest_buf ?d"
    by blast
  have lim: "dest d1 + length ?bytes < dest_limit d1" "dest_limit d1 \<le> length (dest_buf d1)" "length ?bytes < fuel"
    using d1(5-7) len assms(3,4) by (simp_all add: memory_uncomp_def)
  obtain d' where d': "uzlib_uncompress_loop fuel None False d1 = Some (TINF_DONE, d')" "out_bytes d1 ?bytes d'"
    using memory.loop_yields_done [OF d1(2,3) lim] by blast
  have "dest d' = slen" "take slen (dest_buf d') = ?bytes"
    using d1(4) [OF d'(2)] len by (simp_all add: out_bytes_def memory_uncomp_def)
  then show ?thesis using b(1) d1(1) d'(1) by auto
qed

definition example_comp :: uzlib_comp where
  "example_comp = \<lparr>comp_out = \<lparr>outbuf = [], outsize = 0, obits = 0, noutbits = 0, comp_disabled = False\<rparr>,
     hash_table = replicate 16 None, hash_bits = 4, dict_size = 32768\<rparr>"

theorem compress_uncompress_witness:
  "\<exists>out d'. deflate_buffer example_comp [97, 98, 97, 98, 97, 98, 97, 98] 0 8 = Some out \<and>
    uzlib_uncompress 9 None (memory_uncomp (outbuf out) 9) = Some (TINF_DONE, d') \<and>
    dest d' = 8 \<and> take 8 (dest_buf d') = take 8 (drop 0 [97, 98, 97, 98, 97, 98, 97, 98])"
  by (rule compress_uncompress)
    (simp_all add: example_comp_def fresh_comp_def comp_ok_def outbuf_ok_def)

end
