(* ===== verification/Eboot_Command.thy ===== *)
theory Eboot_Command
  imports Checksums
begin

text \<open>
  The command block the application leaves in RTC memory for the boot loader:
  bootloaders/eboot/eboot_command.h (struct eboot_command, EBOOT_MAGIC) and eboot_command.c
  (eboot_command_calculate_crc32, eboot_command_read, eboot_command_write, eboot_command_clear).
  RTC memory is the store \<open>nat \<Rightarrow> u32\<close>, indexed by 32-bit word as \<open>RTC_MEM[i]\<close> is; the structure
  is its 32 words in memory order, and its bytes are those words in little-endian order.
\<close>

definition EBOOT_MAGIC :: u32 where "EBOOT_MAGIC = 0xeb001000"
definition EBOOT_MAGIC_MASK :: u32 where "EBOOT_MAGIC_MASK = 0xfffff000"
definition ACTION_COPY_RAW :: u32 where "ACTION_COPY_RAW = 0x00000001"
definition ACTION_LOAD_APP :: u32 where "ACTION_LOAD_APP = 0xffffffff"

record eboot_command =
  magic :: u32
  action :: u32
  args :: "u32 list"
  crc32 :: u32

type_synonym rtc_mem = "nat \<Rightarrow> u32"

text \<open>The array \<open>args[29]\<close> has 29 elements: what a value of the C structure satisfies by its type.\<close>

definition command_typed :: "eboot_command \<Rightarrow> bool" where
  "command_typed cmd \<longleftrightarrow> length (args cmd) = 29"

text \<open>The structure seen as \<open>uint32_t*\<close>, and a structure filled through such a pointer.\<close>

definition command_words :: "eboot_command \<Rightarrow> u32 list" where
  "command_words cmd = magic cmd # action cmd # args cmd @ [crc32 cmd]"

definition words_command :: "u32 list \<Rightarrow> eboot_command" where
  "words_command ws =
     \<lparr>magic = ws ! 0, action = ws ! 1, args = take 29 (drop 2 ws), crc32 = ws ! 31\<rparr>"

text \<open>\<open>offsetof(struct eboot_command, crc32)\<close> is 124: all words but the last.\<close>

definition eboot_command_calculate_crc32 :: "eboot_command \<Rightarrow> u32" where
  "eboot_command_calculate_crc32 cmd =
     crc_update (take 124 (concat (map le_bytes (command_words cmd)))) 0xffffffff"

definition eboot_command_read :: "rtc_mem \<Rightarrow> int \<times> eboot_command" where
  "eboot_command_read rtc =
     (let dw_count = 32;
          cmd = words_command (map rtc [0..<dw_count]);
          crc = eboot_command_calculate_crc32 cmd
      in if magic cmd AND EBOOT_MAGIC_MASK \<noteq> EBOOT_MAGIC \<or> crc32 cmd \<noteq> crc
         then (1, cmd) else (0, cmd))"

text \<open>\<open>for (i = 0; i < dw_count; ++i) RTC_MEM[i] = src[i]\<close>\<close>

fun copy_words :: "u32 list \<Rightarrow> nat \<Rightarrow> rtc_mem \<Rightarrow> rtc_mem" where
  "copy_words [] i rtc = rtc"
| "copy_words (w # ws) i rtc = copy_words ws (Suc i) (rtc(i := w))"

definition eboot_command_write :: "eboot_command \<Rightarrow> rtc_mem \<Rightarrow> eboot_command \<times> rtc_mem" where
  "eboot_command_write cmd rtc =
     (let cmd = cmd\<lparr>magic := EBOOT_MAGIC\<rparr>;
          cmd = cmd\<lparr>crc32 := eboot_command_calculate_crc32 cmd\<rparr>
      in (cmd, copy_words (command_words cmd) 0 rtc))"

text \<open>Words 0 (magic) and 31 (crc32) are zeroed.\<close>

definition eboot_command_clear :: "rtc_mem \<Rightarrow> rtc_mem" where
  "eboot_command_clear rtc = rtc(0 := 0, 31 := 0)"

section \<open>Lemmas\<close>

lemma copy_words_nth:
  "copy_words ws i rtc j = (if i \<le> j \<and> j < i + length ws then ws ! (j - i) else rtc j)"
  by (induction ws arbitrary: i rtc) (auto simp: nth_Cons')

lemma length_command_words: "command_typed cmd \<Longrightarrow> length (command_words cmd) = 32"
  by (simp add: command_words_def command_typed_def)

lemma words_command_words: "command_typed cmd \<Longrightarrow> words_command (command_words cmd) = cmd"
  by (simp add: words_command_def command_words_def command_typed_def nth_append)

lemma command_words_words: "length ws = 32 \<Longrightarrow> command_words (words_command ws) = ws"
proof -
  assume l: "length ws = 32"
  then obtain a b rest where ws: "ws = a # b # rest" and r: "length rest = 30"
    by (cases ws; cases "tl ws") auto
  then show ?thesis
    using take_Suc_nth [of 29 rest] by (simp add: command_words_def words_command_def)
qed

lemma command_typed_words: "length ws = 32 \<Longrightarrow> command_typed (words_command ws)"
  by (simp add: command_typed_def words_command_def)

lemma map_copy_words: "length ws = n \<Longrightarrow> map (copy_words ws 0 rtc) [0..<n] = ws"
  by (rule nth_equalityI) (auto simp: copy_words_nth)

lemma concat_le_bytes_take:
  "take (4 * n) (concat (map le_bytes ws)) = concat (map le_bytes (take n ws))"
  by (induction ws arbitrary: n) (auto simp: take_Cons' split: nat_diff_split)

lemma calculate_crc32_words:
  "length ws = 32 \<Longrightarrow>
     eboot_command_calculate_crc32 (words_command ws) =
       crc_update (concat (map le_bytes (take 31 ws))) 0xffffffff"
  using concat_le_bytes_take [of 31 ws]
  by (simp add: eboot_command_calculate_crc32_def command_words_words)

lemma calculate_crc32_cong:
  "magic c = magic d \<Longrightarrow> action c = action d \<Longrightarrow> args c = args d \<Longrightarrow> command_typed c \<Longrightarrow>
     eboot_command_calculate_crc32 c = eboot_command_calculate_crc32 d"
proof -
  assume eq: "magic c = magic d" "action c = action d" "args c = args d" and t: "command_typed c"
  have "take 31 (command_words c) = take 31 (command_words d)"
    using eq t by (simp add: command_words_def command_typed_def)
  then show ?thesis
    using concat_le_bytes_take [of 31 "command_words c"] concat_le_bytes_take [of 31 "command_words d"]
    by (simp add: eboot_command_calculate_crc32_def)
qed

lemma crc_changes_with_word:
  assumes "j < length ws" and "v \<noteq> ws ! j"
  shows "crc_update (concat (map le_bytes (ws[j := v]))) s \<noteq> crc_update (concat (map le_bytes ws)) s"
proof -
  let ?b = "\<lambda>us. concat (map le_bytes us)"
  have w: "ws = take j ws @ ws ! j # drop (Suc j) ws"
    using assms(1) by (rule id_take_nth_drop)
  have u: "ws[j := v] = take j ws @ v # drop (Suc j) ws"
    using assms(1) by (rule upd_conv_take_nth_drop)
  have "le_bytes v \<noteq> le_bytes (ws ! j)" using assms(2) by (simp add: le_bytes_inject)
  then have "crc_update (?b (take j ws) @ le_bytes v @ ?b (drop (Suc j) ws)) s \<noteq>
      crc_update (?b (take j ws) @ le_bytes (ws ! j) @ ?b (drop (Suc j) ws)) s"
    unfolding le_bytes_def
    by (intro crc_update_sum.upd_differ) (simp_all only: crc_update_word_inject not_False_eq_True)
  then show ?thesis by (subst (2) w, subst u) simp
qed

text \<open>Reading accepts a block exactly when its magic and its checksum word are right.\<close>

lemma read_accepts:
  "fst (eboot_command_read rtc) = 0 \<longleftrightarrow>
     rtc 0 AND EBOOT_MAGIC_MASK = EBOOT_MAGIC \<and>
     rtc 31 = crc_update (concat (map le_bytes (map rtc [0..<31]))) 0xffffffff"
proof -
  have "take 31 (map rtc [0..<32]) = map rtc [0..<31]" by (simp add: take_map)
  then show ?thesis
    by (simp add: eboot_command_read_def Let_def calculate_crc32_words)
      (simp add: words_command_def)
qed

lemma read_rejects: "fst (eboot_command_read rtc) = 0 \<or> fst (eboot_command_read rtc) = 1"
  by (simp add: eboot_command_read_def Let_def)

lemma write_read_ok:
  assumes "command_typed cmd"
  shows "eboot_command_read (snd (eboot_command_write cmd rtc)) = (0, fst (eboot_command_write cmd rtc))"
proof -
  define c where "c = cmd\<lparr>magic := EBOOT_MAGIC\<rparr>"
  define d where "d = c\<lparr>crc32 := eboot_command_calculate_crc32 c\<rparr>"
  have t: "command_typed d" using assms by (simp add: command_typed_def c_def d_def)
  have w: "eboot_command_write cmd rtc = (d, copy_words (command_words d) 0 rtc)"
    by (simp add: eboot_command_write_def Let_def c_def d_def)
  have m: "words_command (map (copy_words (command_words d) 0 rtc) [0..<32]) = d"
    using t by (simp add: map_copy_words length_command_words words_command_words)
  have "eboot_command_calculate_crc32 d = crc32 d"
    using calculate_crc32_cong [of d c] t by (simp add: d_def)
  moreover have "magic d AND EBOOT_MAGIC_MASK = EBOOT_MAGIC"
    by (simp add: c_def d_def EBOOT_MAGIC_def EBOOT_MAGIC_MASK_def)
  ultimately show ?thesis
    by (simp only: w fst_conv snd_conv eboot_command_read_def Let_def m) simp
qed

section \<open>Properties\<close>

text \<open>C31. A command written to RTC memory is read back unchanged and accepted: reading after
  writing returns 0 and the very command that was written (with its magic and checksum set).\<close>

theorem command_write_read:
  assumes "command_typed cmd"
  shows "eboot_command_read (snd (eboot_command_write cmd rtc)) = (0, fst (eboot_command_write cmd rtc))"
  using assms by (rule write_read_ok)

theorem command_write_read_witness:
  "eboot_command_read (snd (eboot_command_write
      \<lparr>magic = 0, action = ACTION_COPY_RAW, args = replicate 29 7, crc32 = 0\<rparr> (\<lambda>_. 0))) =
    (0, fst (eboot_command_write
      \<lparr>magic = 0, action = ACTION_COPY_RAW, args = replicate 29 7, crc32 = 0\<rparr> (\<lambda>_. 0)))"
  by (rule command_write_read) (simp add: command_typed_def)

text \<open>Once cleared, the block is never taken for a valid command, whatever was in it; and
  clearing touches only the magic and the checksum word.\<close>

theorem command_clear_read:
  "fst (eboot_command_read (eboot_command_clear rtc)) = 1 \<and>
   eboot_command_clear rtc j = (if j = 0 \<or> j = 31 then 0 else rtc j)"
proof -
  have "magic (words_command (map (eboot_command_clear rtc) [0..<32])) = 0"
    by (simp add: words_command_def eboot_command_clear_def)
  then show ?thesis
    by (simp add: eboot_command_read_def Let_def EBOOT_MAGIC_def) (simp add: eboot_command_clear_def)
qed

text \<open>C32. A command is rejected after the corruption of any one of its 32 words: if one word of
  the block changes after it was written, eboot_command_read returns 1.\<close>

theorem command_corruption_detected:
  assumes "command_typed cmd" and "j < 32"
    and "v \<noteq> snd (eboot_command_write cmd rtc) j"
  shows "fst (eboot_command_read ((snd (eboot_command_write cmd rtc))(j := v))) = 1"
proof -
  define m where "m = snd (eboot_command_write cmd rtc)"
  have "fst (eboot_command_read m) = 0"
    using write_read_ok [OF assms(1)] by (simp add: m_def)
  then have ok: "m 31 = crc_update (concat (map le_bytes (map m [0..<31]))) 0xffffffff"
    by (simp add: read_accepts)
  have "fst (eboot_command_read (m(j := v))) \<noteq> 0"
  proof (cases "j = 31")
    case True
    have "map (m(31 := v)) [0..<31] = map m [0..<31]" by simp
    then show ?thesis using True ok assms(3) unfolding read_accepts by (simp add: m_def)
  next
    case False
    have u: "map (m(j := v)) [0..<31] = (map m [0..<31])[j := v]"
      using assms(2) False by (intro nth_equalityI) (auto simp: nth_list_update)
    have "crc_update (concat (map le_bytes ((map m [0..<31])[j := v]))) 0xffffffff \<noteq> m 31"
      unfolding ok using assms(2,3) False by (intro crc_changes_with_word) (auto simp: m_def)
    then show ?thesis using False unfolding read_accepts u by simp
  qed
  then show ?thesis using read_rejects by (auto simp: m_def)
qed

theorem command_corruption_detected_witness:
  "fst (eboot_command_read ((snd (eboot_command_write
      \<lparr>magic = 0, action = ACTION_COPY_RAW, args = replicate 29 0, crc32 = 0\<rparr> (\<lambda>_. 0)))(2 := 5))) = 1"
proof (rule command_corruption_detected)
  show "(5 :: u32) \<noteq> snd (eboot_command_write
      \<lparr>magic = 0, action = ACTION_COPY_RAW, args = replicate 29 0, crc32 = 0\<rparr> (\<lambda>_. 0)) 2"
    by (simp add: eboot_command_write_def Let_def copy_words_nth command_words_def nth_append)
qed (simp_all add: command_typed_def)

end
