(* ===== verification/Eboot_Flash.thy ===== *)
theory Eboot_Flash
  imports Prelude
begin

text \<open>
  The boot loader's flash access: bootloaders/eboot/flash.h and flash.c.  SPIEraseSector,
  SPIEraseBlock, SPIRead and SPIWrite are routines of the chip's ROM, whose code is not part of the
  repository: they are the fields of a parameter, the record \<open>spi\<close>, acting on a world of type \<open>'w\<close>.
  SPIRead gets the old contents of its destination and returns the new ones.
  \<open>nor_flash\<close> states what their documentation and that of SPI NOR flash promise.
\<close>

section \<open>The ROM's flash routines\<close>

record 'w spi =
  SPIEraseSector :: "nat \<Rightarrow> 'w \<Rightarrow> int \<times> 'w"
  SPIEraseBlock :: "nat \<Rightarrow> 'w \<Rightarrow> int \<times> 'w"
  SPIRead :: "u32 \<Rightarrow> u8 list \<Rightarrow> 'w \<Rightarrow> int \<times> u8 list \<times> 'w"
  SPIWrite :: "u32 \<Rightarrow> u8 list \<Rightarrow> 'w \<Rightarrow> int \<times> 'w"

definition FLASH_SECTOR_SIZE :: nat where "FLASH_SECTOR_SIZE = 0x1000"
definition FLASH_BLOCK_SIZE :: nat where "FLASH_BLOCK_SIZE = 0x10000"
definition APP_START_OFFSET :: u32 where "APP_START_OFFSET = 0x1000"

text \<open>
  A flash of \<open>n\<close> bytes whose byte at address \<open>a\<close> in world \<open>w\<close> is \<open>cell w a\<close>: erasing sets whole
  sectors or blocks to 0xff, word-aligned reads return the bytes, word-aligned writes clear bits; no
  read, even one that fails, changes the flash or the size of its destination.
\<close>

definition nor_flash :: "'w spi \<Rightarrow> nat \<Rightarrow> ('w \<Rightarrow> nat \<Rightarrow> u8) \<Rightarrow> bool" where
  "nor_flash ops n cell \<longleftrightarrow> n \<le> 2 ^ 31 \<and>
     (\<forall>s w. 4096 * (s + 1) \<le> n \<longrightarrow> (\<exists>w'. SPIEraseSector ops s w = (0, w') \<and>
        cell w' = (\<lambda>a. if a div 4096 = s then 0xff else cell w a))) \<and>
     (\<forall>b w. 65536 * (b + 1) \<le> n \<longrightarrow> (\<exists>w'. SPIEraseBlock ops b w = (0, w') \<and>
        cell w' = (\<lambda>a. if a div 65536 = b then 0xff else cell w a))) \<and>
     (\<forall>a old w. a mod 4 = 0 \<longrightarrow> length old mod 4 = 0 \<longrightarrow> a + length old \<le> n \<longrightarrow>
        (\<exists>w'. SPIRead ops (of_nat a) old w = (0, map (\<lambda>i. cell w (a + i)) [0..<length old], w') \<and>
           cell w' = cell w)) \<and>
     (\<forall>a bs w. a mod 4 = 0 \<longrightarrow> length bs mod 4 = 0 \<longrightarrow> a + length bs \<le> n \<longrightarrow>
        (\<exists>w'. SPIWrite ops (of_nat a) bs w = (0, w') \<and>
           cell w' = (\<lambda>x. if a \<le> x \<and> x < a + length bs then cell w x AND bs ! (x - a) else cell w x))) \<and>
     (\<forall>a old w. cell (snd (snd (SPIRead ops a old w))) = cell w \<and>
        length (fst (snd (SPIRead ops a old w))) = length old)"

lemma nor_flash_erase_sector:
  assumes "nor_flash ops n cell" and "4096 * (s + 1) \<le> n"
  obtains w' where "SPIEraseSector ops s w = (0, w')"
    and "cell w' = (\<lambda>a. if a div 4096 = s then 0xff else cell w a)"
  using assms unfolding nor_flash_def by blast

lemma nor_flash_erase_block:
  assumes "nor_flash ops n cell" and "65536 * (b + 1) \<le> n"
  obtains w' where "SPIEraseBlock ops b w = (0, w')"
    and "cell w' = (\<lambda>a. if a div 65536 = b then 0xff else cell w a)"
  using assms unfolding nor_flash_def by blast

lemma nor_flash_read:
  assumes "nor_flash ops n cell" and "a mod 4 = 0" and "length old mod 4 = 0" and "a + length old \<le> n"
  obtains w' where "SPIRead ops (of_nat a) old w = (0, map (\<lambda>i. cell w (a + i)) [0..<length old], w')"
    and "cell w' = cell w"
  using assms(1) [unfolded nor_flash_def, THEN conjunct2, THEN conjunct2, THEN conjunct2, THEN conjunct1,
      rule_format, OF assms(2-4), of w] that by blast

lemma nor_flash_write:
  assumes "nor_flash ops n cell" and "a mod 4 = 0" and "length bs mod 4 = 0" and "a + length bs \<le> n"
  obtains w' where "SPIWrite ops (of_nat a) bs w = (0, w')"
    and "cell w' = (\<lambda>x. if a \<le> x \<and> x < a + length bs then cell w x AND bs ! (x - a) else cell w x)"
  using assms(1) [unfolded nor_flash_def, THEN conjunct2, THEN conjunct2, THEN conjunct2, THEN conjunct2, THEN conjunct1,
      rule_format, OF assms(2-4), of w] that by blast

lemma nor_flash_read_keeps:
  assumes "nor_flash ops n cell" and "SPIRead ops a old w = (r, bs, w')"
  shows "cell w' = cell w" and "length bs = length old"
  using assms(1) [unfolded nor_flash_def, THEN conjunct2, THEN conjunct2, THEN conjunct2, THEN conjunct2, THEN conjunct2,
      THEN spec [of _ a], THEN spec [of _ old], THEN spec [of _ w]] assms(2) by simp_all

text \<open>A flash that is its contents, for examples.\<close>

definition ideal_flash :: "nat \<Rightarrow> (nat \<Rightarrow> u8) spi" where
  "ideal_flash n =
     \<lparr>SPIEraseSector = (\<lambda>s w. if 4096 * (s + 1) \<le> n then (0, \<lambda>a. if a div 4096 = s then 0xff else w a) else (1, w)),
      SPIEraseBlock = (\<lambda>b w. if 65536 * (b + 1) \<le> n then (0, \<lambda>a. if a div 65536 = b then 0xff else w a) else (1, w)),
      SPIRead = (\<lambda>a old w. if unat a + length old \<le> n
                           then (0, map (\<lambda>i. w (unat a + i)) [0..<length old], w) else (1, old, w)),
      SPIWrite = (\<lambda>a bs w. if unat a + length bs \<le> n
                           then (0, \<lambda>x. if unat a \<le> x \<and> x < unat a + length bs then w x AND bs ! (x - unat a) else w x)
                           else (1, w))\<rparr>"

lemma ideal_flash_nor: "n \<le> 2 ^ 31 \<Longrightarrow> nor_flash (ideal_flash n) n (\<lambda>w. w)"
  by (auto simp: nor_flash_def ideal_flash_def unat_of_nat take_bit_eq_mod)

section \<open>SPIEraseAreaEx\<close>

text \<open>
  \<open>start & (FLASH_SECTOR_SIZE - 1) != 0\<close> parses as \<open>start & ((FLASH_SECTOR_SIZE - 1) != 0)\<close>, that is
  \<open>start & 1\<close>.  The addition \<open>size + FLASH_SECTOR_SIZE - 1\<close> wraps at 32 bits; the sector numbers are
  below \<open>2 ^ 21\<close> and cannot.
\<close>

text \<open>\<open>for (; current_sector < end && cond; ++current_sector) if (SPIEraseSector(...)) return err\<close>, with
  \<open>cond\<close> the test \<open>current_sector & (sectors_per_block-1)\<close> in the first loop and none in the last.\<close>

function erase_sectors :: "'w spi \<Rightarrow> bool \<Rightarrow> int \<Rightarrow> nat \<Rightarrow> nat \<Rightarrow> 'w \<Rightarrow> (int \<times> 'w) + (nat \<times> 'w)" where
  "erase_sectors ops aligning err cur end w =
     (if cur < end \<and> (aligning \<longrightarrow> cur mod 16 \<noteq> 0) then
        (case SPIEraseSector ops cur w of (r, w) \<Rightarrow>
           if r \<noteq> 0 then Inl (err, w) else erase_sectors ops aligning err (cur + 1) end w)
      else Inr (cur, w))"
  by pat_completeness auto
termination by (relation "measure (\<lambda>(ops, aligning, err, cur, end, w). end - cur)") auto

declare erase_sectors.simps [simp del]

function erase_blocks :: "'w spi \<Rightarrow> nat \<Rightarrow> nat \<Rightarrow> 'w \<Rightarrow> (int \<times> 'w) + (nat \<times> 'w)" where
  "erase_blocks ops cur end w =
     (if cur + 16 \<le> end then
        (case SPIEraseBlock ops (cur div 16) w of (r, w) \<Rightarrow>
           if r \<noteq> 0 then Inl (3, w) else erase_blocks ops (cur + 16) end w)
      else Inr (cur, w))"
  by pat_completeness auto
termination by (relation "measure (\<lambda>(ops, cur, end, w). end - cur)") auto

declare erase_blocks.simps [simp del]

definition SPIEraseAreaEx :: "'w spi \<Rightarrow> u32 \<Rightarrow> u32 \<Rightarrow> 'w \<Rightarrow> int \<times> 'w" where
  "SPIEraseAreaEx ops start nbytes w =
     (if start AND 1 \<noteq> 0 then (1, w)
      else
        (let current_sector = unat start div FLASH_SECTOR_SIZE;
             sector_count = unat (nbytes + of_nat FLASH_SECTOR_SIZE - 1) div FLASH_SECTOR_SIZE;
             end = current_sector + sector_count
         in case erase_sectors ops True 2 current_sector end w of
              Inl r \<Rightarrow> r
            | Inr (current_sector, w) \<Rightarrow>
                (case erase_blocks ops current_sector end w of
                   Inl r \<Rightarrow> r
                 | Inr (current_sector, w) \<Rightarrow>
                     (case erase_sectors ops False 4 current_sector end w of
                        Inl r \<Rightarrow> r
                      | Inr (_, w) \<Rightarrow> (0, w)))))"

text \<open>\<open>w'\<close> is \<open>w\<close> with the sectors from \<open>i\<close> to \<open>j\<close> erased.\<close>

definition erased :: "('w \<Rightarrow> nat \<Rightarrow> u8) \<Rightarrow> nat \<Rightarrow> nat \<Rightarrow> 'w \<Rightarrow> 'w \<Rightarrow> bool" where
  "erased cell i j w w' \<longleftrightarrow> cell w' = (\<lambda>a. if 4096 * i \<le> a \<and> a < 4096 * j then 0xff else cell w a)"

lemma sector_iff: "a div 4096 = s \<longleftrightarrow> 4096 * s \<le> a \<and> a < 4096 * (s + 1)"
  for a s :: nat
  by auto

lemma erased_refl: "erased cell i i w w"
  by (auto simp: erased_def fun_eq_iff)

lemma erased_step: "erased cell i j w w1 \<Longrightarrow> erased cell j k w1 w2 \<Longrightarrow> i \<le> j \<Longrightarrow> j \<le> k \<Longrightarrow> erased cell i k w w2"
  by (auto simp: erased_def fun_eq_iff)

lemma erase_sectors_ok:
  assumes "nor_flash ops n cell" and "4096 * end \<le> n" and "cur \<le> end"
  shows "\<exists>cur' w'. erase_sectors ops aligning err cur end w = Inr (cur', w') \<and> cur \<le> cur' \<and> cur' \<le> end \<and>
    erased cell cur cur' w w' \<and> (aligning \<longrightarrow> cur' = end \<or> cur' mod 16 = 0) \<and> (\<not> aligning \<longrightarrow> cur' = end)"
  using assms(3)
proof (induction "end - cur" arbitrary: cur w rule: less_induct)
  case less
  show ?case
  proof (cases "cur < end \<and> (aligning \<longrightarrow> cur mod 16 \<noteq> 0)")
    case False
    then show ?thesis using less.prems by (subst erase_sectors.simps) (auto intro: erased_refl)
  next
    case True
    then have "cur + 1 \<le> end" by simp
    then have "4096 * (cur + 1) \<le> n" using assms(2) by (rule order_trans [OF mult_le_mono2])
    then obtain w1 where w1: "SPIEraseSector ops cur w = (0, w1)"
        "cell w1 = (\<lambda>a. if a div 4096 = cur then 0xff else cell w a)"
      using nor_flash_erase_sector [OF assms(1)] by blast
    have e: "erased cell cur (cur + 1) w w1" by (simp only: erased_def w1(2) sector_iff)
    have "end - (cur + 1) < end - cur" "cur + 1 \<le> end" using True by linarith+
    from less.hyps [OF this, of w1] obtain cur' w' where r:
        "erase_sectors ops aligning err (cur + 1) end w1 = Inr (cur', w')" "cur + 1 \<le> cur'" "cur' \<le> end"
        "erased cell (cur + 1) cur' w1 w'" "aligning \<longrightarrow> cur' = end \<or> cur' mod 16 = 0" "\<not> aligning \<longrightarrow> cur' = end"
      by (elim exE conjE) (rule that)
    have "erased cell cur cur' w w'" using erased_step [OF e r(4)] r(2) by simp
    then show ?thesis using True w1(1) r by (subst erase_sectors.simps) auto
  qed
qed

lemma erase_blocks_ok:
  assumes "nor_flash ops n cell" and "4096 * end \<le> n" and "cur \<le> end" and "cur = end \<or> cur mod 16 = 0"
  shows "\<exists>cur' w'. erase_blocks ops cur end w = Inr (cur', w') \<and> cur \<le> cur' \<and> cur' \<le> end \<and> erased cell cur cur' w w'"
  using assms(3,4)
proof (induction "end - cur" arbitrary: cur w rule: less_induct)
  case less
  show ?case
  proof (cases "cur + 16 \<le> end")
    case False
    then show ?thesis using less.prems by (subst erase_blocks.simps) (auto intro: erased_refl)
  next
    case True
    then have m: "16 * (cur div 16) = cur" using less.prems(2) by auto
    have "65536 * (cur div 16 + 1) = 4096 * (16 * (cur div 16) + 16)" by simp
    also have "\<dots> = 4096 * (cur + 16)" by (simp only: m)
    also have "\<dots> \<le> n" using True assms(2) by (rule order_trans [OF mult_le_mono2])
    finally have "65536 * (cur div 16 + 1) \<le> n" .
    then obtain w1 where w1: "SPIEraseBlock ops (cur div 16) w = (0, w1)"
        "cell w1 = (\<lambda>a. if a div 65536 = cur div 16 then 0xff else cell w a)"
      using nor_flash_erase_block [OF assms(1)] by blast
    have "a div 65536 = cur div 16 \<longleftrightarrow> 4096 * cur \<le> a \<and> a < 4096 * (cur + 16)" for a
    proof -
      have "a div 65536 = q \<longleftrightarrow> 65536 * q \<le> a \<and> a < 65536 * (q + 1)" for q by auto
      from this [of "cur div 16"] show ?thesis using m by auto
    qed
    then have e: "erased cell cur (cur + 16) w w1" by (simp only: erased_def w1(2))
    have "end - (cur + 16) < end - cur" "cur + 16 \<le> end" "cur + 16 = end \<or> (cur + 16) mod 16 = 0"
      using True less.prems(2) by auto
    from less.hyps [OF this, of w1] obtain cur' w' where r: "erase_blocks ops (cur + 16) end w1 = Inr (cur', w')"
        "cur + 16 \<le> cur'" "cur' \<le> end" "erased cell (cur + 16) cur' w1 w'" by blast
    have "erased cell cur cur' w w'" using erased_step [OF e r(4)] r(2) by simp
    then show ?thesis using True w1(1) r by (subst erase_blocks.simps) auto
  qed
qed

lemma erase_area_sectors:
  assumes "nor_flash ops n cell" and "even (unat start)"
    and "4096 * (unat start div 4096 + (unat nbytes + 4095) div 4096) \<le> n"
  shows "\<exists>w'. SPIEraseAreaEx ops start nbytes w = (0, w') \<and>
    erased cell (unat start div 4096) (unat start div 4096 + (unat nbytes + 4095) div 4096) w w'"
proof -
  let ?s = "unat start div 4096" and ?e = "unat start div 4096 + (unat nbytes + 4095) div 4096"
  have a: "start AND 1 = 0" using assms(2) by (simp add: and_one_eq word_unat_eq_iff unat_mod even_iff_mod_2_eq_zero)
  have n: "n \<le> 2147483648" using assms(1) by (simp add: nor_flash_def)
  define k where "k = (unat nbytes + 4095) div 4096"
  have "unat nbytes + 4095 < 4096 * k + 4096" unfolding k_def by linarith
  moreover have "4096 * k \<le> n" using assms(3) by (simp add: k_def)
  ultimately have "unat nbytes + 4095 < 4294967296" using n by linarith
  then have sz: "unat (nbytes + of_nat FLASH_SECTOR_SIZE - 1) = unat nbytes + 4095"
    by (simp add: FLASH_SECTOR_SIZE_def unat_word_ariths)
  obtain c1 w1 where l1: "erase_sectors ops True 2 ?s ?e w = Inr (c1, w1)" "?s \<le> c1" "c1 \<le> ?e"
      "erased cell ?s c1 w w1" "c1 = ?e \<or> c1 mod 16 = 0"
    using erase_sectors_ok [OF assms(1,3), of ?s True 2 w] by auto
  obtain c2 w2 where l2: "erase_blocks ops c1 ?e w1 = Inr (c2, w2)" "c1 \<le> c2" "c2 \<le> ?e" "erased cell c1 c2 w1 w2"
    using erase_blocks_ok [OF assms(1,3) l1(3,5)] by blast
  obtain w3 where l3: "erase_sectors ops False 4 c2 ?e w2 = Inr (?e, w3)" "erased cell c2 ?e w2 w3"
    using erase_sectors_ok [OF assms(1,3) l2(3), of False 4 w2] by auto
  have "erased cell ?s ?e w w3"
    using erased_step [OF erased_step [OF l1(4) l2(4)] l3(2)] l1(2,3) l2(2,3) by simp
  moreover have "SPIEraseAreaEx ops start nbytes w = (0, w3)"
    using l1(1) l2(1) l3(1) a sz by (simp add: SPIEraseAreaEx_def Let_def FLASH_SECTOR_SIZE_def)
  ultimately show ?thesis by blast
qed

section \<open>Main properties\<close>

text \<open>SPIEraseAreaEx erases the area: for a sector-aligned start and an area inside the flash it
  returns 0, every byte of the sectors the area touches is 0xff afterwards and no other byte changes,
  whichever way the area splits into sectors and 64K blocks.\<close>

theorem erase_area_exact:
  assumes "nor_flash ops n cell" and "unat start mod 4096 = 0"
    and "unat start + 4096 * ((unat nbytes + 4095) div 4096) \<le> n"
  shows "\<exists>w'. SPIEraseAreaEx ops start nbytes w = (0, w') \<and>
    cell w' = (\<lambda>a. if unat start \<le> a \<and> a < unat start + 4096 * ((unat nbytes + 4095) div 4096)
      then 0xff else cell w a)"
proof -
  have s: "4096 * (unat start div 4096) = unat start" using assms(2) by auto
  have "even (unat start)" using s by (metis dvd_triv_left dvd_trans even_numeral)
  moreover have "4096 * (unat start div 4096 + (unat nbytes + 4095) div 4096) =
      unat start + 4096 * ((unat nbytes + 4095) div 4096)" using s by (simp add: distrib_left)
  ultimately show ?thesis using erase_area_sectors [OF assms(1), of start nbytes w] assms(3) s
    by (simp add: erased_def)
qed

theorem erase_area_exact_witness:
  "\<exists>w'. SPIEraseAreaEx (ideal_flash 1048576) 0xf000 0x21000 (\<lambda>_. 0) = (0, w') \<and> w' 0xefff = 0 \<and> w' 0xf000 = 0xff \<and>
     w' 0x2ffff = 0xff \<and> w' 0x30000 = 0"
  using erase_area_exact [OF ideal_flash_nor [of 1048576], where start = "0xf000" and nbytes = "0x21000" and w = "\<lambda>_. 0"] by auto

text \<open>The alignment check of SPIEraseAreaEx does not do its work: it tests bit 0 of start only, so an
  even start inside a sector is accepted, and the bytes of that sector before start are erased.\<close>

theorem erase_area_misaligned:
  assumes "nor_flash ops n cell" and "even (unat start)" and "unat start mod 4096 \<noteq> 0" and "0 < unat nbytes"
    and "4096 * (unat start div 4096 + (unat nbytes + 4095) div 4096) \<le> n"
  shows "\<exists>w'. SPIEraseAreaEx ops start nbytes w = (0, w') \<and> unat start - 1 \<ge> 4096 * (unat start div 4096) \<and>
    cell w' (unat start - 1) = 0xff"
proof -
  obtain w' where w': "SPIEraseAreaEx ops start nbytes w = (0, w')"
      "erased cell (unat start div 4096) (unat start div 4096 + (unat nbytes + 4095) div 4096) w w'"
    using erase_area_sectors [OF assms(1,2,5)] by blast
  have "4096 * (unat start div 4096) + unat start mod 4096 = unat start" by simp
  then have b: "4096 * (unat start div 4096) \<le> unat start - 1" "unat start - 1 < 4096 * (unat start div 4096) + 4096"
    using assms(3) mod_less_divisor [of 4096 "unat start"] by linarith+
  have "1 \<le> (unat nbytes + 4095) div 4096" using assms(4) by (simp add: Suc_le_eq div_greater_zero_iff)
  then have "unat start - 1 < 4096 * (unat start div 4096 + (unat nbytes + 4095) div 4096)"
    using b(2) by (simp add: distrib_left)
  then show ?thesis using w' b by (simp add: erased_def)
qed

theorem erase_area_misaligned_witness:
  "\<exists>w'. SPIEraseAreaEx (ideal_flash 65536) 0x1002 4 (\<lambda>_. 0) = (0, w') \<and> w' 0x1001 = 0xff"
  using erase_area_misaligned [OF ideal_flash_nor [of 65536], where start = "0x1002" and nbytes = "4" and w = "\<lambda>_. 0"] by auto

end
