(* ===== verification/Tinf_Headers.thy ===== *)
theory Tinf_Headers
  imports Tinf_Inflate
begin

text \<open>
  The container headers: uzlib_gzip_parse_header of uzlib/src/tinfgzip.c and uzlib_zlib_parse_header of
  uzlib/src/tinfzlib.c.  \<open>while (uzlib_get_byte(d));\<close> need not end when a callback never returns a
  zero byte; its model is a partial function, \<open>None\<close> when it does not return.
\<close>

section \<open>tinfgzip.c\<close>

definition FTEXT :: u8 where "FTEXT = 1"
definition FHCRC :: u8 where "FHCRC = 2"
definition FEXTRA :: u8 where "FEXTRA = 4"
definition FNAME :: u8 where "FNAME = 8"
definition FCOMMENT :: u8 where "FCOMMENT = 16"

lemmas gzip_flags = FTEXT_def FHCRC_def FEXTRA_def FNAME_def FCOMMENT_def

primrec tinf_skip_bytes :: "'e read_cb \<Rightarrow> nat \<Rightarrow> 'e uncomp \<Rightarrow> 'e uncomp" where
  "tinf_skip_bytes rs 0 d = d"
| "tinf_skip_bytes rs (Suc num) d = tinf_skip_bytes rs num (snd (uzlib_get_byte rs d))"

definition tinf_get_uint16 :: "'e read_cb \<Rightarrow> 'e uncomp \<Rightarrow> nat \<times> 'e uncomp" where
  "tinf_get_uint16 rs d =
     (let (v, d) = uzlib_get_byte rs d;
          (w, d) = uzlib_get_byte rs d
      in (unat w * 256 + unat v, d))"

partial_function (option) skip_string :: "'e read_cb \<Rightarrow> 'e uncomp \<Rightarrow> 'e uncomp option" where
  "skip_string rs d =
     (case uzlib_get_byte rs d of (c, d) \<Rightarrow> if c \<noteq> 0 then skip_string rs d else Some d)"

definition uzlib_gzip_parse_header :: "'e read_cb \<Rightarrow> 'e uncomp \<Rightarrow> (int \<times> 'e uncomp) option" where
  "uzlib_gzip_parse_header rs d =
     (case uzlib_get_byte rs d of (b, d) \<Rightarrow>
      if b \<noteq> 0x1f then Some (TINF_DATA_ERROR, d)
      else case uzlib_get_byte rs d of (b, d) \<Rightarrow>
      if b \<noteq> 0x8b then Some (TINF_DATA_ERROR, d)
      else case uzlib_get_byte rs d of (b, d) \<Rightarrow>
      if b \<noteq> 8 then Some (TINF_DATA_ERROR, d)
      else case uzlib_get_byte rs d of (flg, d) \<Rightarrow>
      if flg AND 0xe0 \<noteq> 0 then Some (TINF_DATA_ERROR, d)
      else do {
        let d = tinf_skip_bytes rs 6 d;
        let d = (if flg AND FEXTRA \<noteq> 0
                 then (case tinf_get_uint16 rs d of (xlen, d) \<Rightarrow> tinf_skip_bytes rs xlen d)
                 else d);
        d \<leftarrow> (if flg AND FNAME \<noteq> 0 then skip_string rs d else Some d);
        d \<leftarrow> (if flg AND FCOMMENT \<noteq> 0 then skip_string rs d else Some d);
        let d = (if flg AND FHCRC \<noteq> 0 then snd (tinf_get_uint16 rs d) else d);
        Some (TINF_OK, d\<lparr>checksum_type := TINF_CHKSUM_CRC, checksum := NOT 0\<rparr>)
      })"

section \<open>tinfzlib.c\<close>

definition uzlib_zlib_parse_header :: "'e read_cb \<Rightarrow> 'e uncomp \<Rightarrow> int \<times> 'e uncomp" where
  "uzlib_zlib_parse_header rs d =
     (let (cmf, d) = uzlib_get_byte rs d;
          (flg, d) = uzlib_get_byte rs d
      in if (256 * unat cmf + unat flg) mod 31 \<noteq> 0 then (TINF_DATA_ERROR, d)
         else if cmf AND 0x0f \<noteq> 8 then (TINF_DATA_ERROR, d)
         else if 7 < unat (shr cmf 4) then (TINF_DATA_ERROR, d)
         else if flg AND 0x20 \<noteq> 0 then (TINF_DATA_ERROR, d)
         else (int (unat (shr cmf 4)), d\<lparr>checksum_type := TINF_CHKSUM_ADLER, checksum := 1\<rparr>))"

section \<open>Well-formed headers\<close>

text \<open>The bytes of a gzip header (RFC 1952): \<open>fixed\<close> are time, extra flags and system; the optional
  parts are there when their flag is.\<close>

definition gzip_string :: "bool \<Rightarrow> u8 list \<Rightarrow> u8 list" where
  "gzip_string present s = (if present then s @ [0] else [])"

definition gzip_header :: "u8 \<Rightarrow> u8 list \<Rightarrow> u8 list \<Rightarrow> u8 list \<Rightarrow> u8 list \<Rightarrow> u8 list \<Rightarrow> u8 list" where
  "gzip_header flg fixed extra name comment hcrc =
     [0x1f, 0x8b, 8, flg] @ fixed @
     (if flg AND FEXTRA \<noteq> 0 then [of_nat (length extra mod 256), of_nat (length extra div 256)] @ extra else []) @
     gzip_string (flg AND FNAME \<noteq> 0) name @ gzip_string (flg AND FCOMMENT \<noteq> 0) comment @
     (if flg AND FHCRC \<noteq> 0 then hcrc else [])"

definition gzip_header_ok :: "u8 \<Rightarrow> u8 list \<Rightarrow> u8 list \<Rightarrow> u8 list \<Rightarrow> u8 list \<Rightarrow> u8 list \<Rightarrow> bool" where
  "gzip_header_ok flg fixed extra name comment hcrc \<longleftrightarrow> flg AND 0xe0 = 0 \<and> length fixed = 6 \<and>
     length extra < 65536 \<and> 0 \<notin> set name \<and> 0 \<notin> set comment \<and> length hcrc = 2"

context byte_source
begin

text \<open>The bytes ahead, and a step that reads.\<close>

definition ahead :: "'e uncomp \<Rightarrow> u8 list \<Rightarrow> bool" where
  "ahead d bs \<longleftrightarrow> avail (source d) (src_env d) = bs \<and> \<not> eof d"

lemma get_byte_ahead:
  assumes "ahead d (b # bs)"
  obtains d' where "uzlib_get_byte rs d = (b, d')" and "ahead d' bs" and "input_step d d'"
    and "bitcount d' = bitcount d" and "tag d' = tag d"
proof -
  from assms get_byte [of d b bs] obtain s e where
    "uzlib_get_byte rs d = (b, d\<lparr>source := s, src_env := e\<rparr>)" "avail s e = bs" by (auto simp: ahead_def)
  then show ?thesis using that [of "d\<lparr>source := s, src_env := e\<rparr>"] assms
    by (simp add: ahead_def input_step_def)
qed

definition reads :: "'e uncomp \<Rightarrow> 'e uncomp \<Rightarrow> bool" where
  "reads d d' \<longleftrightarrow> input_step d d' \<and> bitcount d' = bitcount d \<and> tag d' = tag d"

lemma reads_refl [simp]: "reads d d"
  by (simp add: reads_def)

lemma reads_trans: "reads a b \<Longrightarrow> reads b c \<Longrightarrow> reads a c"
  by (auto simp: reads_def intro: input_step_trans)

lemma get_byte_reads:
  assumes "ahead d (b # bs)"
  shows "\<exists>d'. uzlib_get_byte rs d = (b, d') \<and> ahead d' bs \<and> reads d d'"
  using get_byte_ahead [OF assms] unfolding reads_def by metis

lemma skip_bytes_reads:
  "ahead d (xs @ bs) \<Longrightarrow> length xs = n \<Longrightarrow> ahead (tinf_skip_bytes rs n d) bs \<and> reads d (tinf_skip_bytes rs n d)"
proof (induction n arbitrary: d xs)
  case (Suc n)
  then obtain x ys where xs: "xs = x # ys" by (cases xs) auto
  then obtain d1 where d1: "uzlib_get_byte rs d = (x, d1)" "ahead d1 (ys @ bs)" "reads d d1"
    using get_byte_reads [of d x "ys @ bs"] Suc.prems(1) by auto
  then show ?case using Suc.IH [OF d1(2)] Suc.prems(2) xs by (auto intro: reads_trans)
qed simp

lemma uint16_reads:
  assumes "ahead d (a # b # bs)"
  shows "\<exists>d'. tinf_get_uint16 rs d = (unat b * 256 + unat a, d') \<and> ahead d' bs \<and> reads d d'"
proof -
  obtain d1 where d1: "uzlib_get_byte rs d = (a, d1)" "ahead d1 (b # bs)" "reads d d1"
    using get_byte_reads [OF assms] by blast
  obtain d2 where d2: "uzlib_get_byte rs d1 = (b, d2)" "ahead d2 bs" "reads d1 d2"
    using get_byte_reads [OF d1(2)] by blast
  show ?thesis using d1 d2 reads_trans [OF d1(3) d2(3)] by (simp add: tinf_get_uint16_def)
qed

lemma skip_string_reads:
  "ahead d (s @ 0 # bs) \<Longrightarrow> 0 \<notin> set s \<Longrightarrow> \<exists>d'. skip_string rs d = Some d' \<and> ahead d' bs \<and> reads d d'"
proof (induction s arbitrary: d)
  case Nil
  then show ?case using get_byte_reads [of d 0 bs] by (subst skip_string.simps) auto
next
  case (Cons c s)
  obtain d1 where d1: "uzlib_get_byte rs d = (c, d1)" "ahead d1 (s @ 0 # bs)" "reads d d1"
    using get_byte_reads [of d c "s @ 0 # bs"] Cons.prems(1) by auto
  obtain d2 where "skip_string rs d1 = Some d2" "ahead d2 bs" "reads d1 d2"
    using Cons.IH [OF d1(2)] Cons.prems(2) by auto
  then show ?case using d1 Cons.prems(2) by (subst skip_string.simps) (auto intro: reads_trans)
qed

lemma opt_string_reads:
  assumes "ahead d (gzip_string p s @ bs)" and "0 \<notin> set s"
  shows "\<exists>d'. (if p then skip_string rs d else Some d) = Some d' \<and> ahead d' bs \<and> reads d d'"
  using skip_string_reads [of d s bs] assms by (cases p) (auto simp: gzip_string_def)

lemma gzip_header_reads:
  assumes "gzip_header_ok flg fixed extra name comment hcrc"
    and "ahead d (gzip_header flg fixed extra name comment hcrc @ bs)"
  shows "\<exists>d'. uzlib_gzip_parse_header rs d = Some (TINF_OK, d'\<lparr>checksum_type := TINF_CHKSUM_CRC, checksum := NOT 0\<rparr>) \<and>
    ahead d' bs \<and> reads d d'"
proof -
  let ?crc = "(if flg AND FHCRC \<noteq> 0 then hcrc else []) @ bs"
  let ?comment = "gzip_string (flg AND FCOMMENT \<noteq> 0) comment @ ?crc"
  let ?name = "gzip_string (flg AND FNAME \<noteq> 0) name @ ?comment"
  let ?extra = "(if flg AND FEXTRA \<noteq> 0 then [of_nat (length extra mod 256), of_nat (length extra div 256)] @ extra
      else []) @ ?name"
  note ok = assms(1) [unfolded gzip_header_ok_def]
  have a: "ahead d (0x1f # 0x8b # 8 # flg # fixed @ ?extra)" using assms(2) by (simp add: gzip_header_def)
  obtain d1 where d1: "uzlib_get_byte rs d = (0x1f, d1)" "ahead d1 (0x8b # 8 # flg # fixed @ ?extra)" "reads d d1"
    using get_byte_reads [OF a] by blast
  obtain d2 where d2: "uzlib_get_byte rs d1 = (0x8b, d2)" "ahead d2 (8 # flg # fixed @ ?extra)" "reads d1 d2"
    using get_byte_reads [OF d1(2)] by blast
  obtain d3 where d3: "uzlib_get_byte rs d2 = (8, d3)" "ahead d3 (flg # fixed @ ?extra)" "reads d2 d3"
    using get_byte_reads [OF d2(2)] by blast
  obtain d4 where d4: "uzlib_get_byte rs d3 = (flg, d4)" "ahead d4 (fixed @ ?extra)" "reads d3 d4"
    using get_byte_reads [OF d3(2)] by blast
  define d5 where "d5 = tinf_skip_bytes rs 6 d4"
  have d5: "ahead d5 ?extra" "reads d4 d5" using skip_bytes_reads [OF d4(2)] ok by (simp_all add: d5_def)
  define d6 where "d6 = (if flg AND FEXTRA \<noteq> 0
      then (case tinf_get_uint16 rs d5 of (xlen, d) \<Rightarrow> tinf_skip_bytes rs xlen d) else d5)"
  have d6: "ahead d6 ?name" "reads d5 d6"
  proof -
    have len: "unat (of_nat (length extra div 256) :: u8) * 256 + unat (of_nat (length extra mod 256) :: u8) = length extra"
    proof -
      have "length extra div 256 < 256" using ok by (simp add: less_mult_imp_div_less)
      then show ?thesis by (simp add: unat_of_nat take_bit_eq_mod)
    qed
    have "ahead d6 ?name \<and> reads d5 d6"
    proof (cases "flg AND FEXTRA \<noteq> 0")
      case True
      then have "ahead d5 (of_nat (length extra mod 256) # of_nat (length extra div 256) # extra @ ?name)"
        using d5(1) by simp
      then obtain e where e: "tinf_get_uint16 rs d5 = (length extra, e)" "ahead e (extra @ ?name)" "reads d5 e"
        using uint16_reads len by metis
      then show ?thesis
        using True skip_bytes_reads [OF e(2) refl] by (auto simp: d6_def intro: reads_trans)
    qed (use d5(1) in \<open>simp add: d6_def\<close>)
    then show "ahead d6 ?name" "reads d5 d6" by simp_all
  qed
  obtain d7 where d7: "(if flg AND FNAME \<noteq> 0 then skip_string rs d6 else Some d6) = Some d7" "ahead d7 ?comment" "reads d6 d7"
    using opt_string_reads [OF d6(1)] ok by blast
  obtain d8 where d8: "(if flg AND FCOMMENT \<noteq> 0 then skip_string rs d7 else Some d7) = Some d8" "ahead d8 ?crc" "reads d7 d8"
    using opt_string_reads [OF d7(2)] ok by blast
  obtain d9 where d9: "(if flg AND FHCRC \<noteq> 0 then snd (tinf_get_uint16 rs d8) else d8) = d9" "ahead d9 bs" "reads d8 d9"
  proof (cases "flg AND FHCRC \<noteq> 0")
    case True
    obtain x y where "hcrc = [x, y]" using ok by (auto simp: numeral_2_eq_2 length_Suc_conv)
    then have "ahead d8 (x # y # bs)" using True d8(2) by simp
    then show ?thesis using uint16_reads [of d8 x y bs] that True by auto
  qed (use d8(2) that in simp)
  have "uzlib_gzip_parse_header rs d = Some (TINF_OK, d9\<lparr>checksum_type := TINF_CHKSUM_CRC, checksum := NOT 0\<rparr>)"
  proof -
    have "flg AND 0xe0 = 0" using ok by simp
    then show ?thesis
      unfolding uzlib_gzip_parse_header_def
      by (simp only: d1(1) d2(1) d3(1) d4(1) prod.case simp_thms if_False Let_def d5_def [symmetric]
          d6_def [symmetric] d7(1) d8(1) d9(1) Option.bind.bind_lunit)
  qed
  moreover have "reads d d9"
    by (rule d1(3) [THEN reads_trans] d2(3) [THEN reads_trans] d3(3) [THEN reads_trans] d4(3) [THEN reads_trans]
        d5(2) [THEN reads_trans] d6(2) [THEN reads_trans] d7(3) [THEN reads_trans] d8(3) [THEN reads_trans] d9(3))+
  ultimately show ?thesis using d9(2) by blast
qed

lemma zlib_header_reads:
  assumes "ahead d (cmf # flg # bs)"
  shows "\<exists>d'. uzlib_zlib_parse_header rs d =
      (if (256 * unat cmf + unat flg) mod 31 = 0 \<and> unat cmf mod 16 = 8 \<and> unat cmf div 16 \<le> 7 \<and> flg AND 0x20 = 0
       then (int (unat cmf div 16), d'\<lparr>checksum_type := TINF_CHKSUM_ADLER, checksum := 1\<rparr>)
       else (TINF_DATA_ERROR, d')) \<and> ahead d' bs \<and> reads d d'"
proof -
  obtain d1 where d1: "uzlib_get_byte rs d = (cmf, d1)" "ahead d1 (flg # bs)" "reads d d1"
    using get_byte_reads [OF assms] by blast
  obtain d2 where d2: "uzlib_get_byte rs d1 = (flg, d2)" "ahead d2 bs" "reads d1 d2"
    using get_byte_reads [OF d1(2)] by blast
  have m: "cmf AND 0x0f = 8 \<longleftrightarrow> unat cmf mod 16 = 8"
    using unat_and_0f [of cmf] by (simp add: word_unat_eq_iff)
  have s: "unat (shr cmf 4) = unat cmf div 16" by (simp add: unat_shr)
  show ?thesis
    using d1(1) d2(1,2) reads_trans [OF d1(3) d2(3)] m s
    by (intro exI [of _ d2]) (auto simp: uzlib_zlib_parse_header_def Let_def)
qed

end

section \<open>Main properties\<close>

text \<open>uzlib_gzip_parse_header accepts every header RFC 1952 allows, with any of the optional
  fields, and stops at the first byte of the compressed data with the CRC-32 accumulator set up.\<close>

theorem gzip_header_accepted:
  assumes "gzip_header_ok flg fixed extra name comment hcrc"
    and "source d = gzip_header flg fixed extra name comment hcrc @ bs" and "\<not> eof d"
  shows "\<exists>d'. uzlib_gzip_parse_header None d = Some (TINF_OK, d') \<and> source d' = bs \<and> \<not> eof d' \<and>
    checksum_type d' = TINF_CHKSUM_CRC \<and> checksum d' = 0xffffffff \<and> bitcount d' = bitcount d \<and> dest d' = dest d"
proof -
  have "memory.ahead d (gzip_header flg fixed extra name comment hcrc @ bs)"
    using assms(2,3) by (simp add: memory.ahead_def)
  from memory.gzip_header_reads [OF assms(1) this] obtain d' where d':
    "uzlib_gzip_parse_header None d = Some (TINF_OK, d'\<lparr>checksum_type := TINF_CHKSUM_CRC, checksum := NOT 0\<rparr>)"
    "memory.ahead d' bs" "memory.reads d d'" by blast
  then have r: "input_step d d'" "bitcount d' = bitcount d" by (simp_all add: memory.reads_def)
  have "(NOT 0 :: u32) = 0xffffffff" by simp
  then show ?thesis
    using d'(1,2) r(2) input_step_fields [OF r(1)] by (simp add: memory.ahead_def)
qed

theorem gzip_header_accepted_witness:
  "\<exists>d'. uzlib_gzip_parse_header None (memory_uncomp [0x1f, 0x8b, 8, 8, 0, 0, 0, 0, 0, 3, 0x66, 0x77, 0, 0x63] 1) =
      Some (TINF_OK, d') \<and> source d' = [0x63]"
proof -
  have "gzip_header_ok 8 [0, 0, 0, 0, 0, 3] [] [0x66, 0x77] [] [0, 0]"
    by (simp add: gzip_header_ok_def)
  moreover have "source (memory_uncomp [0x1f, 0x8b, 8, 8, 0, 0, 0, 0, 0, 3, 0x66, 0x77, 0, 0x63] 1) =
      gzip_header 8 [0, 0, 0, 0, 0, 3] [] [0x66, 0x77] [] [0, 0] @ [0x63]"
    by (simp add: memory_uncomp_def gzip_header_def gzip_string_def gzip_flags)
  moreover have "\<not> eof (memory_uncomp [0x1f, 0x8b, 8, 8, 0, 0, 0, 0, 0, 3, 0x66, 0x77, 0, 0x63] 1)"
    by (simp add: memory_uncomp_def)
  ultimately show ?thesis using gzip_header_accepted by blast
qed

text \<open>uzlib_zlib_parse_header accepts exactly the RFC 1950 headers without preset dictionary:
  check bits a multiple of 31, method 8, window at most 32K; it returns the window exponent and sets
  up the Adler-32 accumulator, and any other two bytes give TINF_DATA_ERROR.\<close>

theorem zlib_header_exact:
  assumes "source d = cmf # flg # bs" and "\<not> eof d"
  shows "let good = ((256 * unat cmf + unat flg) mod 31 = 0 \<and> unat cmf mod 16 = 8 \<and> unat cmf div 16 \<le> 7 \<and>
      flg AND 0x20 = 0); (res, d') = uzlib_zlib_parse_header None d
    in res = (if good then int (unat cmf div 16) else TINF_DATA_ERROR) \<and> source d' = bs \<and>
      checksum_type d' = (if good then TINF_CHKSUM_ADLER else checksum_type d) \<and>
      checksum d' = (if good then 1 else checksum d)"
proof -
  have "memory.ahead d (cmf # flg # bs)" using assms by (simp add: memory.ahead_def)
  from memory.zlib_header_reads [OF this] obtain d' where d': "uzlib_zlib_parse_header None d =
      (if (256 * unat cmf + unat flg) mod 31 = 0 \<and> unat cmf mod 16 = 8 \<and> unat cmf div 16 \<le> 7 \<and> flg AND 0x20 = 0
       then (int (unat cmf div 16), d'\<lparr>checksum_type := TINF_CHKSUM_ADLER, checksum := 1\<rparr>)
       else (TINF_DATA_ERROR, d'))" "memory.ahead d' bs" "memory.reads d d'" by blast
  then have f: "input_step d d'" by (simp add: memory.reads_def)
  show ?thesis
    unfolding d'(1) using d'(2) input_step_fields [OF f] by (simp add: Let_def memory.ahead_def)
qed

theorem zlib_header_exact_witness:
  "fst (uzlib_zlib_parse_header None (memory_uncomp [0x78, 0x9c, 0x63] 1)) = 7"
proof -
  have "source (memory_uncomp [0x78, 0x9c, 0x63] 1) = 0x78 # 0x9c # [0x63]"
    "\<not> eof (memory_uncomp [0x78, 0x9c, 0x63] 1)" by (simp_all add: memory_uncomp_def)
  from zlib_header_exact [OF this] show ?thesis by (auto simp: Let_def split: prod.splits)
qed

end
