(* ===== verification/Eboot.thy ===== *)
theory Eboot
  imports Eboot_Command Eboot_Flash Tinf_Headers
begin

text \<open>
  The boot loader, bootloaders/eboot/eboot.c: print_version, load_app_from_flash_raw, read_flash_byte,
  uzlib_flash_read_cb, copy_raw, main.  The flash is the parameter \<open>ops\<close> of Eboot_Flash.  The globals
  uzlib_flash_read_cb_addr and uzlib_flash_read_cb_buff and the flash's world are the record
  \<open>eboot_env\<close>, which is the \<open>src_env\<close> of the decompressor's state, so that the read callback
  can change them.  Output to the serial port (ets_printf, ets_putc) and the watchdog calls leave no
  trace in the model.  Stack arrays are indeterminate in C until written: the model takes zeros for
  the 4-byte buffer of read_flash_byte, and the caller's choice, in \<open>d0\<close>, for the others.
\<close>

section \<open>State\<close>

record 'w eboot_env =
  world :: 'w
  cb_addr :: u32
  cb_buff :: "u8 list"

definition le_word :: "u8 list \<Rightarrow> u32" where
  "le_word bs = ucast (bs ! 0) OR shl (ucast (bs ! 1)) 8 OR shl (ucast (bs ! 2)) 16 OR shl (ucast (bs ! 3)) 24"

section \<open>Loading an application\<close>

text \<open>\<open>sizeof(image_header_t) = sizeof(section_header_t) = 8\<close>\<close>

definition print_version :: "'w spi \<Rightarrow> u32 \<Rightarrow> 'w \<Rightarrow> int \<times> 'w" where
  "print_version ops flash_addr w =
     (case SPIRead ops (flash_addr + APP_START_OFFSET + 8 + 8) (replicate 4 0) w of (r, ver, w) \<Rightarrow>
        (if r \<noteq> 0 then 1 else 0, w))"

type_synonym ram = "u32 \<Rightarrow> u8"

definition ram_bytes :: "ram \<Rightarrow> u32 \<Rightarrow> nat \<Rightarrow> u8 list" where
  "ram_bytes m a n = map (\<lambda>i. m (a + of_nat i)) [0..<n]"

primrec ram_write :: "u8 list \<Rightarrow> u32 \<Rightarrow> ram \<Rightarrow> ram" where
  "ram_write [] a m = m"
| "ram_write (b # bs) a m = ram_write bs (a + 1) (m(a := b))"

definition loadable :: "u32 \<Rightarrow> bool" where
  "loadable address \<longleftrightarrow> address < 0x40000000 \<or> (0x40100000 \<le> address \<and> address < 0x40108000) \<or>
     0x60000000 \<le> address"

text \<open>The section loop, for the \<open>n\<close> sections left: \<open>Inl\<close> an error code, \<open>Inr\<close> all sections read.\<close>

primrec load_sections :: "'w spi \<Rightarrow> nat \<Rightarrow> u32 \<Rightarrow> ram \<Rightarrow> 'w \<Rightarrow> (int + unit) \<times> ram \<times> 'w" where
  "load_sections ops 0 pos m w = (Inr (), m, w)"
| "load_sections ops (Suc n) pos m w =
     (case SPIRead ops pos (replicate 8 0) w of (r, header, w) \<Rightarrow>
        if r \<noteq> 0 then (Inl 2, m, w)
        else
          (let pos = pos + 8;
               address = le_word header;
               len = le_word (drop 4 header)
           in if \<not> loadable address then load_sections ops n (pos + len) m w
              else (case SPIRead ops pos (ram_bytes m address (unat len)) w of (r, bytes, w) \<Rightarrow>
                      (let m = ram_write bytes address m
                       in if r \<noteq> 0 then (Inl 3, m, w)
                          else load_sections ops n (pos + len) m w))))"

text \<open>\<open>Inr entry\<close> is the jump to the application, which does not return.\<close>

definition load_app_from_flash_raw :: "'w spi \<Rightarrow> u32 \<Rightarrow> ram \<Rightarrow> 'w \<Rightarrow> (int + u32) \<times> ram \<times> 'w" where
  "load_app_from_flash_raw ops flash_addr m w =
     (let pos = flash_addr + APP_START_OFFSET in
      case SPIRead ops pos (replicate 8 0) w of (r, header, w) \<Rightarrow>
        if r \<noteq> 0 then (Inl 1, m, w)
        else (case load_sections ops (unat (header ! 1)) (pos + 8) m w of
                (Inl e, m, w) \<Rightarrow> (Inl e, m, w)
              | (Inr _, m, w) \<Rightarrow> (Inr (le_word (drop 4 header)), m, w)))"

section \<open>Copying an image\<close>

definition read_flash_byte :: "'w spi \<Rightarrow> u32 \<Rightarrow> 'w \<Rightarrow> u8 \<times> 'w" where
  "read_flash_byte ops addr w =
     (case SPIRead ops (addr AND NOT 3) (replicate 4 0) w of (r, buff, w) \<Rightarrow>
        (buff ! unat (addr AND 3), w))"

text \<open>The buffer has 4096 bytes, so \<open>*(m->source++)\<close> reads one of them.\<close>

definition uzlib_flash_read_cb :: "'w spi \<Rightarrow> 'w eboot_env uncomp \<Rightarrow> int \<times> 'w eboot_env uncomp" where
  "uzlib_flash_read_cb ops m =
     (let e = src_env m in
      case SPIRead ops (cb_addr e) (cb_buff e) (world e) of (r, buff, w) \<Rightarrow>
        (int (unat (hd buff)),
         m\<lparr>source := tl buff,
           src_env := e\<lparr>world := w, cb_buff := buff, cb_addr := cb_addr e + of_nat (length buff)\<rparr>\<rparr>))"

abbreviation set_world :: "'w \<Rightarrow> 'w eboot_env uncomp \<Rightarrow> 'w eboot_env uncomp" where
  "set_world w d \<equiv> d\<lparr>src_env := (src_env d)\<lparr>world := w\<rparr>\<rparr>"

text \<open>
  One round of the loop of copy_raw, in the order of the code; \<open>Inl\<close> is a return.  \<open>dest_buf d\<close> is the
  array \<open>buffer\<close>, \<open>buffer2\<close> is overwritten before it is used.
\<close>

definition copy_sector :: "nat \<Rightarrow> 'w spi \<Rightarrow> bool \<Rightarrow> bool \<Rightarrow> u32 \<Rightarrow> u32 \<Rightarrow> int \<Rightarrow> 'w eboot_env uncomp \<Rightarrow>
    ((int \<times> 'w eboot_env uncomp) + 'w eboot_env uncomp) option" where
  "copy_sector fuel ops verify gzip saddr daddr left d =
     (case (if \<not> verify then SPIEraseSector ops (unat daddr div FLASH_SECTOR_SIZE) (world (src_env d))
            else (0, world (src_env d))) of (r, w) \<Rightarrow>
      let d = set_world w d in
      if r \<noteq> 0 then Some (Inl (2, d))
      else do {
        filled \<leftarrow>
          (if \<not> gzip then
             (case SPIRead ops saddr (dest_buf d) (world (src_env d)) of (r, buffer, w) \<Rightarrow>
                let d = set_world w (d\<lparr>dest_buf := buffer\<rparr>) in
                Some (if r \<noteq> 0 then Inl (3, d) else Inr d))
           else
             (let to_read = (if int FLASH_SECTOR_SIZE < left then FLASH_SECTOR_SIZE else nat left);
                  d = d\<lparr>dest_start := 0, dest := 0, dest_limit := to_read\<rparr>
              in do {
                (res, d) \<leftarrow> uzlib_uncompress fuel (Some (uzlib_flash_read_cb ops)) d;
                if res \<noteq> TINF_DONE \<and> res \<noteq> TINF_OK then Some (Inl (6, d))
                else Some (Inr (d\<lparr>dest_buf := take to_read (dest_buf d) @
                                   replicate (FLASH_SECTOR_SIZE - to_read) 0xff\<rparr>))
              }));
        (case filled of
           Inl ret \<Rightarrow> Some (Inl ret)
         | Inr d \<Rightarrow>
             if verify then
               (case SPIRead ops daddr (replicate FLASH_SECTOR_SIZE 0) (world (src_env d)) of (r, buffer2, w) \<Rightarrow>
                  let d = set_world w d in
                  Some (if r \<noteq> 0 then Inl (4, d) else if dest_buf d \<noteq> buffer2 then Inl (9, d) else Inr d))
             else
               (case SPIWrite ops daddr (dest_buf d) (world (src_env d)) of (r, w) \<Rightarrow>
                  let d = set_world w d in
                  Some (if r \<noteq> 0 then Inl (4, d) else Inr d)))
      })"

function copy_loop :: "nat \<Rightarrow> 'w spi \<Rightarrow> bool \<Rightarrow> bool \<Rightarrow> u32 \<Rightarrow> u32 \<Rightarrow> int \<Rightarrow> 'w eboot_env uncomp \<Rightarrow>
    (int \<times> 'w eboot_env uncomp) option" where
  "copy_loop fuel ops verify gzip saddr daddr left d =
     (if 0 < left then
        (case copy_sector fuel ops verify gzip saddr daddr left d of
           None \<Rightarrow> None
         | Some (Inl ret) \<Rightarrow> Some ret
         | Some (Inr d) \<Rightarrow>
             copy_loop fuel ops verify gzip (saddr + of_nat FLASH_SECTOR_SIZE) (daddr + of_nat FLASH_SECTOR_SIZE)
               (left - int FLASH_SECTOR_SIZE) d)
      else Some (0, d))"
  by pat_completeness auto
termination
  by (relation "measure (\<lambda>(fuel, ops, verify, gzip, saddr, daddr, left, d). nat left)")
    (auto simp: FLASH_SECTOR_SIZE_def)

declare copy_loop.simps [simp del]

text \<open>The four bytes of the gzip size field, added up in \<open>int32_t left\<close>.\<close>

definition gzip_size :: "'w spi \<Rightarrow> u32 \<Rightarrow> u32 \<Rightarrow> 'w \<Rightarrow> int \<times> 'w" where
  "gzip_size ops saddr nbytes w =
     (let (b0, w) = read_flash_byte ops (saddr + nbytes - 4) w;
          (b1, w) = read_flash_byte ops (saddr + nbytes - 3) w;
          (b2, w) = read_flash_byte ops (saddr + nbytes - 2) w;
          (b3, w) = read_flash_byte ops (saddr + nbytes - 1) w
      in (sint (ucast b0 + shl (ucast b1) 8 + shl (ucast b2) 16 + shl (ucast b3) 24 :: u32), w))"

definition copy_raw :: "nat \<Rightarrow> 'w spi \<Rightarrow> u32 \<Rightarrow> u32 \<Rightarrow> u32 \<Rightarrow> bool \<Rightarrow> u8 list \<Rightarrow> 'w eboot_env uncomp \<Rightarrow>
    (int \<times> 'w eboot_env uncomp) option" where
  "copy_raw fuel ops src_addr dst_addr nbytes verify gzip_dict d0 =
     (if src_addr AND 0xfff \<noteq> 0 \<or> dst_addr AND 0xfff \<noteq> 0 then Some (1, d0)
      else
        (let left = sint ((nbytes + 4096 - 1) AND NOT (4096 - 1) :: u32);
             (b0, w) = read_flash_byte ops src_addr (world (src_env d0));
             (b1, w) = (if b0 = 0x1f then read_flash_byte ops (src_addr + 1) w else (0, w))
         in if b0 = 0x1f \<and> b1 = 0x8b then
              (let (left, w) = gzip_size ops src_addr nbytes w;
                   d = d0\<lparr>source := [], src_env := (src_env d0)\<lparr>world := w, cb_addr := src_addr\<rparr>\<rparr>;
                   d = uzlib_uncompress_init d (Some gzip_dict) 32768
               in do {
                 (res, d) \<leftarrow> uzlib_gzip_parse_header (Some (uzlib_flash_read_cb ops)) d;
                 if res \<noteq> TINF_OK then Some (5, d)
                 else copy_loop fuel ops verify True src_addr dst_addr left d
               })
            else copy_loop fuel ops verify False src_addr dst_addr left (set_world w d0)))"

section \<open>main\<close>

text \<open>How main ends: in the application, by SWRST, or in the final endless loop.\<close>

datatype outcome = App u32 | Reset | Spin

definition eboot_main :: "nat \<Rightarrow> 'w spi \<Rightarrow> u8 list \<Rightarrow> 'w eboot_env uncomp \<Rightarrow> ram \<Rightarrow> rtc_mem \<Rightarrow>
    (outcome \<times> ram \<times> rtc_mem \<times> 'w) option" where
  "eboot_main fuel ops gzip_dict d m rtc =
     (let (_, w) = print_version ops 0 (world (src_env d));
          (r, cmd) = eboot_command_read rtc;
          clear_cmd = (r = 0);
          cmd = (if r = 0 then cmd else cmd\<lparr>action := ACTION_LOAD_APP, args := (args cmd)[0 := 0]\<rparr>)
      in do {
        (res, cmd, w) \<leftarrow>
          (if action cmd = ACTION_COPY_RAW then do {
             (res, d) \<leftarrow> copy_raw fuel ops (args cmd ! 0) (args cmd ! 1) (args cmd ! 2) False gzip_dict (set_world w d);
             Some (res,
               if res = 0 then cmd\<lparr>action := ACTION_LOAD_APP, args := (args cmd)[0 := args cmd ! 1]\<rparr> else cmd,
               world (src_env d))
           }
           else Some (9, cmd, w));
        let rtc = (if clear_cmd then eboot_command_clear rtc else rtc);
        (if action cmd = ACTION_LOAD_APP then
           (case load_app_from_flash_raw ops (args cmd ! 0) m w of
              (Inr entry, m, w) \<Rightarrow> Some (App entry, m, rtc, w)
            | (Inl e, m, w) \<Rightarrow> Some (if e \<noteq> 0 then Reset else Spin, m, rtc, w))
         else Some (if res \<noteq> 0 then Reset else Spin, m, rtc, w))
      })"

end
