(* ===== verification/Tinf_Frame.thy ===== *)
theory Tinf_Frame
  imports Tinf_Headers
begin

text \<open>
  The decompressor reaches the callback's world only through the callback: whatever property of that
  world every call of the callback keeps, every routine of tinflate.c and tinfgzip.c keeps.
\<close>

locale world_keeper =
  fixes rs :: "'e read_cb" and Q :: "'e \<Rightarrow> bool"
  assumes callback: "rs = Some f \<Longrightarrow> Q (src_env d) \<Longrightarrow> Q (src_env (snd (f d)))"
begin

lemma get_byte_keeps: "uzlib_get_byte rs d = (b, d') \<Longrightarrow> Q (src_env d) \<Longrightarrow> Q (src_env d')"
  using callback [of _ d]
  by (auto simp: uzlib_get_byte_def split: list.splits option.splits if_splits prod.splits)

lemma getbit_keeps: "tinf_getbit rs d = (b, d') \<Longrightarrow> Q (src_env d) \<Longrightarrow> Q (src_env d')"
  using get_byte_keeps [of d] by (auto simp: tinf_getbit_def Let_def split: if_splits prod.splits)

lemma read_bits_loop_keeps:
  "tinf_read_bits_loop rs n m v d = (w, d') \<Longrightarrow> Q (src_env d) \<Longrightarrow> Q (src_env d')"
  by (induction n arbitrary: m v d) (auto split: prod.splits dest: getbit_keeps)

lemma read_bits_keeps: "tinf_read_bits rs n base d = (w, d') \<Longrightarrow> Q (src_env d) \<Longrightarrow> Q (src_env d')"
  by (auto simp: tinf_read_bits_def split: prod.splits dest: read_bits_loop_keeps)

lemma decode_loop_keeps:
  "tinf_decode_loop rs t sm cur len d = Some (s, d') \<Longrightarrow> Q (src_env d) \<Longrightarrow> Q (src_env d')"
proof (induction "15 - len" arbitrary: len sm cur d rule: less_induct)
  case less
  obtain b d1 where g: "tinf_getbit rs d = (b, d1)" by fastforce
  show ?case
    using less.prems less.hyps [of "Suc len"] getbit_keeps [OF g] g
    by (subst (asm) tinf_decode_loop.simps) (auto simp: Let_def split: if_splits bind_splits)
qed

lemma decode_symbol_keeps: "tinf_decode_symbol rs t d = Some (s, d') \<Longrightarrow> Q (src_env d) \<Longrightarrow> Q (src_env d')"
  unfolding tinf_decode_symbol_def by (rule decode_loop_keeps)

lemma read_clens_keeps:
  "tinf_read_clens rs n i ls d = Some (ls', d') \<Longrightarrow> Q (src_env d) \<Longrightarrow> Q (src_env d')"
  by (induction n arbitrary: i ls d) (auto split: prod.splits bind_splits dest: read_bits_keeps)

lemma decode_lengths_keeps:
  "tinf_decode_lengths rs lt hlimit ls d = Some (res, ls', d') \<Longrightarrow> Q (src_env d) \<Longrightarrow> Q (src_env d')"
proof (induction "hlimit - length ls" arbitrary: ls d rule: less_induct)
  case less
  have IH: "tinf_decode_lengths rs lt hlimit ls2 d2 = Some (res, ls', d') \<Longrightarrow> Q (src_env d2) \<Longrightarrow> Q (src_env d')"
    if "push_lengths ls1 n v = Some ls2" "0 < n" "length ls1 = length ls" "length ls < hlimit" for ls1 ls2 n v d2
    using less.hyps [of ls2 d2] push_lengths_length [OF that(1)] that by simp
  have IH': "Q (src_env d')"
    if "tinf_decode_symbol rs lt d = Some (symb, d1)" "tinf_read_bits rs n (Suc k) d1 = (len, d2)"
      "push_lengths ls len v = Some ls2" "tinf_decode_lengths rs lt hlimit ls2 d2 = Some (res, ls', d')"
      "length ls < hlimit" "Q (src_env d)" for symb d1 n k len d2 v ls2
    using IH [OF that(3) _ refl that(5,4)] tinf_read_bits_ge [OF that(2)]
      read_bits_keeps [OF that(2)] decode_symbol_keeps [OF that(1,6)] by simp
  show ?case
    using less.prems
    by (subst (asm) tinf_decode_lengths.simps)
      (auto simp: Let_def numeral_eq_Suc split: if_splits option.splits prod.splits
        dest: decode_symbol_keeps read_bits_keeps intro: IH IH')
qed

lemma put_keeps: "TINF_PUT c d = Some d' \<Longrightarrow> src_env d' = src_env d"
  by (auto simp: TINF_PUT_def Let_def split: bind_splits option.splits)

lemma copy_byte_keeps: "tinf_copy_byte d = Some (res, d') \<Longrightarrow> src_env d' = src_env d"
  by (auto simp: tinf_copy_byte_def Let_def put_keeps split: bind_splits option.splits)

lemma inflate_symbol_keeps:
  "tinf_inflate_symbol rs d = Some r \<Longrightarrow> Q (src_env d) \<Longrightarrow>
    (case r of Inl (res, d') \<Rightarrow> Q (src_env d') | Inr d' \<Rightarrow> Q (src_env d'))"
  unfolding tinf_inflate_symbol_def
  by (auto simp: Let_def split: bind_splits option.splits if_splits prod.splits
      dest!: decode_symbol_keeps read_bits_keeps put_keeps)

lemma block_data_keeps: "tinf_inflate_block_data rs d = Some (res, d') \<Longrightarrow> Q (src_env d) \<Longrightarrow> Q (src_env d')"
  by (auto simp: tinf_inflate_block_data_def split: if_splits option.splits sum.splits
      dest!: inflate_symbol_keeps copy_byte_keeps)

lemma uncompressed_block_keeps:
  "tinf_inflate_uncompressed_block rs d = Some (res, d') \<Longrightarrow> Q (src_env d) \<Longrightarrow> Q (src_env d')"
  by (auto simp: tinf_inflate_uncompressed_block_def Let_def split: if_splits sum.splits prod.splits bind_splits
      dest!: get_byte_keeps put_keeps)

lemma decode_trees_keeps: "tinf_decode_trees rs d = Some (res, d') \<Longrightarrow> Q (src_env d) \<Longrightarrow> Q (src_env d')"
  by (auto simp: tinf_decode_trees_def Let_def split: if_splits prod.splits bind_splits
      dest!: read_bits_keeps read_clens_keeps decode_lengths_keeps)

lemma start_block_keeps: "tinf_start_block rs d = Some (res, d') \<Longrightarrow> Q (src_env d) \<Longrightarrow> Q (src_env d')"
  by (auto simp: tinf_start_block_def Let_def split: if_splits prod.splits
      dest!: getbit_keeps read_bits_keeps decode_trees_keeps)

lemma process_block_keeps: "tinf_process_block rs d = Some (res, d') \<Longrightarrow> Q (src_env d) \<Longrightarrow> Q (src_env d')"
  by (auto simp: tinf_process_block_def split: if_splits dest: uncompressed_block_keeps block_data_keeps)

lemma loop_keeps: "uzlib_uncompress_loop fuel rs newblk d = Some (res, d') \<Longrightarrow> Q (src_env d) \<Longrightarrow> Q (src_env d')"
proof (induction fuel arbitrary: newblk d)
  case (Suc fuel)
  show ?case
    using Suc.prems by (auto split: if_splits bind_splits prod.splits dest!: start_block_keeps process_block_keeps intro: Suc.IH)
qed simp

lemma uncompress_keeps: "uzlib_uncompress fuel rs d = Some (res, d') \<Longrightarrow> Q (src_env d) \<Longrightarrow> Q (src_env d')"
  unfolding uzlib_uncompress_def by (rule loop_keeps)

lemma skip_bytes_keeps: "Q (src_env d) \<Longrightarrow> Q (src_env (tinf_skip_bytes rs n d))"
  by (induction n arbitrary: d) (auto intro: get_byte_keeps [OF surjective_pairing])

lemma get_uint16_keeps: "Q (src_env d) \<Longrightarrow> Q (src_env (snd (tinf_get_uint16 rs d)))"
  by (auto simp: tinf_get_uint16_def Let_def split: prod.splits dest: get_byte_keeps)

lemma pair_keeps: "tinf_get_uint16 rs d = (n, d') \<Longrightarrow> Q (src_env d) \<Longrightarrow> Q (src_env d')"
  using get_uint16_keeps [of d] by simp

lemma skip_string_keeps: "skip_string rs d = Some d' \<Longrightarrow> Q (src_env d) \<Longrightarrow> Q (src_env d')"
proof -
  assume s: "skip_string rs d = Some d'" and q: "Q (src_env d)"
  have "rs' = rs \<longrightarrow> Q (src_env d) \<longrightarrow> Q (src_env d')" if "skip_string rs' d = Some d'" for rs' d d'
    by (rule skip_string.raw_induct [OF _ that])
      (auto split: if_splits prod.splits dest: get_byte_keeps)
  with s q show ?thesis by simp
qed

lemma gzip_parse_header_keeps:
  "uzlib_gzip_parse_header rs d = Some (res, d') \<Longrightarrow> Q (src_env d) \<Longrightarrow> Q (src_env d')"
  unfolding uzlib_gzip_parse_header_def
  by (auto simp: Let_def split: if_splits prod.splits bind_splits
      dest!: get_byte_keeps)
    (blast intro: skip_bytes_keeps get_uint16_keeps pair_keeps skip_string_keeps)+

end

text \<open>Without a callback nothing changes.\<close>

interpretation no_callback: world_keeper None "\<lambda>e. e = e0"
  by unfold_locales simp

end
