(* ===== verification/Eboot_Copy.thy ===== *)
theory Eboot_Copy
  imports Eboot Tinf_Frame Inflate_Fixed Defl_Static
begin

text \<open>
  copy_raw of bootloaders/eboot/eboot.c does what it is for: on any NOR flash, a plain image is copied
  sector by sector, and a gzip image arrives at its destination uncompressed.
\<close>

section \<open>Copying a plain image\<close>

lemma read_flash_byte_cell:
  assumes "nor_flash ops n cell" and "unat a div 4 * 4 + 4 \<le> n"
  shows "\<exists>w'. read_flash_byte ops a w = (cell w (unat a), w') \<and> cell w' = cell w"
proof -
  let ?a = "unat a - unat a mod 4"
  have eq: "unat a div 4 * 4 = ?a" by (simp add: minus_mod_eq_div_mult)
  have "?a mod 4 = 0" by (metis eq mod_mult_self2_is_0)
  moreover have "?a + length (replicate 4 (0 :: u8)) \<le> n" using assms(2) eq by simp
  ultimately obtain w' where w': "SPIRead ops (of_nat ?a) (replicate 4 0) w =
      (0, map (\<lambda>i. cell w (?a + i)) [0..<length (replicate 4 (0 :: u8))], w')" "cell w' = cell w"
    using nor_flash_read [OF assms(1), of ?a "replicate 4 0" w] by auto
  have "of_nat (unat (a AND NOT 3)) = a AND NOT 3" by (rule word_nat_cases) simp
  then have "a AND NOT 3 = of_nat ?a" unfolding unat_and_not_3 by (rule sym)
  moreover have "unat a mod 4 < 4" by simp
  ultimately show ?thesis using w' by (simp add: read_flash_byte_def unat_and_3)
qed

text \<open>\<open>w'\<close> is \<open>w\<close> with the \<open>len\<close> bytes at \<open>t\<close> set to \<open>f 0\<close>, \<open>f 1\<close>, \dots.\<close>

definition stored :: "('w \<Rightarrow> nat \<Rightarrow> u8) \<Rightarrow> nat \<Rightarrow> nat \<Rightarrow> (nat \<Rightarrow> u8) \<Rightarrow> 'w \<Rightarrow> 'w \<Rightarrow> bool" where
  "stored cell t len f w w' \<longleftrightarrow> cell w' = (\<lambda>a. if t \<le> a \<and> a < t + len then f (a - t) else cell w a)"

lemma erase_write_sector:
  assumes "nor_flash ops n cell" and "4096 * q + 4096 \<le> n" and "length bs = 4096"
  obtains w1 where "SPIEraseSector ops q w = (0, w1)"
    and "cell w1 = (\<lambda>a. if a div 4096 = q then 0xff else cell w a)"
    and "\<And>w2. cell w2 = cell w1 \<Longrightarrow> \<exists>w3. SPIWrite ops (of_nat (4096 * q)) bs w2 = (0, w3) \<and>
      stored cell (4096 * q) 4096 (\<lambda>i. bs ! i) w w3"
proof -
  have "4096 * (q + 1) \<le> n" using assms(2) by simp
  then obtain w1 where w1: "SPIEraseSector ops q w = (0, w1)"
      "cell w1 = (\<lambda>a. if a div 4096 = q then 0xff else cell w a)"
    by (rule nor_flash_erase_sector [OF assms(1)])
  have "\<exists>w3. SPIWrite ops (of_nat (4096 * q)) bs w2 = (0, w3) \<and>
      stored cell (4096 * q) 4096 (\<lambda>i. bs ! i) w w3" if "cell w2 = cell w1" for w2
  proof -
    have "(4096 * q) mod 4 = 0" using mod_mult_self2_is_0 [of "1024 * q" 4] by (simp add: mult.commute)
    moreover have "length bs mod 4 = 0" "4096 * q + length bs \<le> n" using assms(2,3) by simp_all
    ultimately obtain w3 where w3: "SPIWrite ops (of_nat (4096 * q)) bs w2 = (0, w3)"
        "cell w3 = (\<lambda>x. if 4096 * q \<le> x \<and> x < 4096 * q + length bs then cell w2 x AND bs ! (x - 4096 * q) else cell w2 x)"
      by (rule nor_flash_write [OF assms(1)])
    have ff: "(0xff :: u8) AND b = b" for b
    proof (rule bit_word_eqI)
      fix i assume "i < LENGTH(8)"
      moreover have "(0xff :: u8) = mask 8" by (simp add: mask_eq_exp_minus_1)
      ultimately show "bit (0xff AND b) i = bit b i" by (simp only: bit_and_iff bit_mask_iff) simp
    qed
    have "cell w3 x = (if 4096 * q \<le> x \<and> x < 4096 * q + 4096 then bs ! (x - 4096 * q) else cell w x)" for x
    proof (cases "4096 * q \<le> x \<and> x < 4096 * q + 4096")
      case True
      then have "x div 4096 = q" by (simp add: sector_iff)
      then show ?thesis using True by (simp add: w3(2) that w1(2) assms(3) ff)
    next
      case False
      then have "x div 4096 \<noteq> q" by (simp only: sector_iff) (simp add: add.commute)
      then show ?thesis using False by (auto simp: w3(2) that w1(2) assms(3))
    qed
    then show ?thesis using w3(1) by (auto simp: stored_def)
  qed
  with w1 show ?thesis by (rule that)
qed

lemma flash_small: "nor_flash ops n cell \<Longrightarrow> a < n \<Longrightarrow> unat (of_nat a :: u32) = a"
  by (simp add: nor_flash_def unat_of_nat take_bit_eq_mod)

lemma copy_sector_raw:
  assumes nor: "nor_flash ops n cell" and s: "4096 * p + 4096 \<le> n" and t: "4096 * q + 4096 \<le> n" and "p \<noteq> q"
    and len: "length (dest_buf d) = 4096"
  shows "\<exists>d'. copy_sector fuel ops False False (of_nat (4096 * p)) (of_nat (4096 * q)) left d = Some (Inr d') \<and>
    length (dest_buf d') = 4096 \<and>
    stored cell (4096 * q) 4096 (\<lambda>i. cell (world (src_env d)) (4096 * p + i)) (world (src_env d)) (world (src_env d'))"
proof -
  let ?w = "world (src_env d)"
  let ?bs = "map (\<lambda>i. cell ?w (4096 * p + i)) [0..<4096]"
  have bs: "length ?bs = 4096" by simp
  obtain w1 where w1: "SPIEraseSector ops q ?w = (0, w1)" "cell w1 = (\<lambda>a. if a div 4096 = q then 0xff else cell ?w a)"
      "\<And>w2. cell w2 = cell w1 \<Longrightarrow> \<exists>w3. SPIWrite ops (of_nat (4096 * q)) ?bs w2 = (0, w3) \<and>
        stored cell (4096 * q) 4096 (\<lambda>i. ?bs ! i) ?w w3"
    by (rule erase_write_sector [OF nor t bs]) (rule that)
  have "(4096 * p) mod 4 = 0" using mod_mult_self2_is_0 [of "1024 * p" 4] by (simp add: mult.commute)
  moreover have "length (dest_buf d) mod 4 = 0" "4096 * p + length (dest_buf d) \<le> n" using s len by simp_all
  ultimately obtain w2 where w2: "SPIRead ops (of_nat (4096 * p)) (dest_buf d) w1 =
      (0, map (\<lambda>i. cell w1 (4096 * p + i)) [0..<length (dest_buf d)], w2)" "cell w2 = cell w1"
    by (rule nor_flash_read [OF nor])
  have "cell w1 (4096 * p + i) = cell ?w (4096 * p + i)" if "i < 4096" for i
  proof -
    have "(4096 * p + i) div 4096 = p" using that by (simp add: sector_iff)
    then show ?thesis using \<open>p \<noteq> q\<close> by (simp add: w1(2))
  qed
  then have rd: "map (\<lambda>i. cell w1 (4096 * p + i)) [0..<length (dest_buf d)] = ?bs" unfolding len by simp
  obtain w3 where w3: "SPIWrite ops (of_nat (4096 * q)) ?bs w2 = (0, w3)" "stored cell (4096 * q) 4096 (\<lambda>i. ?bs ! i) ?w w3"
    using w1(3) [OF w2(2)] by blast
  have "unat (of_nat (4096 * q) :: u32) = 4096 * q" by (rule flash_small [OF nor]) (use t in simp)
  then have d: "unat (of_nat (4096 * q) :: u32) div FLASH_SECTOR_SIZE = q" by (simp add: FLASH_SECTOR_SIZE_def)
  let ?d = "d\<lparr>dest_buf := ?bs, src_env := (src_env d)\<lparr>world := w3\<rparr>\<rparr>"
  have "copy_sector fuel ops False False (of_nat (4096 * p)) (of_nat (4096 * q)) left d = Some (Inr ?d)"
    unfolding copy_sector_def d using w1(1) w2(1) w3(1) unfolding rd by (simp add: Let_def)
  moreover have "stored cell (4096 * q) 4096 (\<lambda>i. cell ?w (4096 * p + i)) ?w w3"
    using w3(2) by (auto simp: stored_def fun_eq_iff)
  ultimately show ?thesis by (intro exI [of _ ?d]) simp
qed

lemma copy_loop_raw:
  assumes nor: "nor_flash ops n cell" and "4096 * p + 4096 * k \<le> n" and "4096 * q + 4096 * k \<le> n"
    and "p + k \<le> q \<or> q + k \<le> p" and "length (dest_buf d) = 4096"
  shows "\<exists>d'. copy_loop fuel ops False False (of_nat (4096 * p)) (of_nat (4096 * q)) (int (4096 * k)) d = Some (0, d') \<and>
    stored cell (4096 * q) (4096 * k) (\<lambda>i. cell (world (src_env d)) (4096 * p + i)) (world (src_env d)) (world (src_env d'))"
  using assms(2-5)
proof (induction k arbitrary: p q d)
  case 0
  then show ?case by (subst copy_loop.simps) (auto simp: stored_def fun_eq_iff)
next
  case (Suc k)
  let ?w = "world (src_env d)"
  have pq: "4096 * p + 4096 \<le> n" "4096 * q + 4096 \<le> n" "p \<noteq> q" using Suc.prems(1-3) by auto
  obtain d1 where d1: "copy_sector fuel ops False False (of_nat (4096 * p)) (of_nat (4096 * q)) (int (4096 * Suc k)) d = Some (Inr d1)"
      "length (dest_buf d1) = 4096"
      "stored cell (4096 * q) 4096 (\<lambda>i. cell ?w (4096 * p + i)) ?w (world (src_env d1))"
    using copy_sector_raw [OF nor pq Suc.prems(4)] by blast
  have "4096 * (p + 1) + 4096 * k \<le> n" "4096 * (q + 1) + 4096 * k \<le> n" "p + 1 + k \<le> q + 1 \<or> q + 1 + k \<le> p + 1"
    using Suc.prems(1-3) by auto
  from Suc.IH [OF this d1(2)] obtain d2 where d2:
      "copy_loop fuel ops False False (of_nat (4096 * (p + 1))) (of_nat (4096 * (q + 1))) (int (4096 * k)) d1 = Some (0, d2)"
      "stored cell (4096 * (q + 1)) (4096 * k) (\<lambda>i. cell (world (src_env d1)) (4096 * (p + 1) + i)) (world (src_env d1)) (world (src_env d2))"
    by blast
  have u: "copy_loop fuel ops False False (of_nat (4096 * p)) (of_nat (4096 * q)) (int (4096 * Suc k)) d =
      copy_loop fuel ops False False (of_nat (4096 * (p + 1))) (of_nat (4096 * (q + 1))) (int (4096 * k)) d1"
    using d1(1) by (subst copy_loop.simps) (simp add: FLASH_SECTOR_SIZE_def algebra_simps)
  have "stored cell (4096 * q) (4096 * Suc k) (\<lambda>i. cell ?w (4096 * p + i)) ?w (world (src_env d2))"
    using d1(3) d2(2) Suc.prems(3) by (auto simp: stored_def fun_eq_iff)
  then show ?case unfolding u using d2(1) by blast
qed

section \<open>Streams read in chunks\<close>

context byte_source
begin

text \<open>The stream has \<open>out\<close> to come after \<open>h\<close>, and its block may not have been opened yet.\<close>

definition pending :: "nat \<Rightarrow> 'e uncomp \<Rightarrow> u8 list \<Rightarrow> u8 list \<Rightarrow> bool list \<Rightarrow> bool" where
  "pending w d h out rest \<longleftrightarrow> yields w d h out rest \<or> h = [] \<and> block_ahead w d out rest"

lemma uncompress_chunk:
  assumes p: "pending w d h (out @ later) rest" and "out \<noteq> []" and "dest_limit d = dest d + length out"
    and "dest_limit d \<le> length (dest_buf d)" and "length out \<le> fuel"
  shows "\<exists>d'. uzlib_uncompress fuel rs d = Some (TINF_OK, d') \<and> pending w d' (h @ out) later rest \<and>
    dest_buf d' = take (dest d) (dest_buf d) @ out @ drop (dest_limit d) (dest_buf d) \<and>
    (dict_ring d' = None \<longleftrightarrow> dict_ring d = None)"
proof -
  obtain d1 where d1: "uzlib_uncompress fuel rs d = uzlib_uncompress_loop fuel rs False d1"
      "yields w d1 h (out @ later) rest" "dest d1 = dest d" "dest_limit d1 = dest_limit d"
      "dest_buf d1 = dest_buf d" "dict_ring d1 = None \<longleftrightarrow> dict_ring d = None"
  proof (cases "yields w d h (out @ later) rest")
    case True
    then have "btype d \<noteq> -1" by (auto simp: yields_def)
    then show ?thesis using that [of d] True by (simp add: uzlib_uncompress_def)
  next
    case False
    then have h: "h = []" "block_ahead w d (out @ later) rest" using p by (simp_all add: pending_def)
    from start_yields [OF h(2), of fuel] obtain d1 where s: "uzlib_uncompress fuel rs d = uzlib_uncompress_loop fuel rs False d1"
        "yields w d1 [] (out @ later) rest" "dest d1 = dest d" "dest_limit d1 = dest_limit d" "dest_buf d1 = dest_buf d"
        "\<And>bs d'. out_bytes d1 bs d' \<Longrightarrow> out_bytes (d\<lparr>bfinal := 1\<rparr>) bs d'" by blast
    have "out_bytes (d\<lparr>bfinal := 1\<rparr>) [] d1" by (rule s(6)) (simp add: out_bytes_def)
    then have "dict_ring d1 = None \<longleftrightarrow> dict_ring d = None" by (simp add: out_bytes_def)
    with s h(1) show ?thesis by (intro that [of d1]) simp_all
  qed
  have "dest_limit d1 = dest d1 + length out" "dest_limit d1 \<le> length (dest_buf d1)"
    using assms(3,4) d1(3-5) by simp_all
  from loop_yields_full [OF d1(2) assms(2) this assms(5)] obtain d' where
    "uzlib_uncompress_loop fuel rs False d1 = Some (TINF_OK, d')" "out_bytes d1 out d'" "yields w d' (h @ out) later rest"
    by blast
  then show ?thesis using d1 assms(3) by (auto simp: pending_def out_bytes_def)
qed

text \<open>With a ring, the stream does not depend on where the output goes.\<close>

lemma pending_output:
  assumes "pending w d h out rest" and "dict_ring d \<noteq> None" and "avail (source d) e = avail (source d) (src_env d)"
  shows "pending w (d\<lparr>dest_buf := buf, dest_start := i, dest := j, dest_limit := k, src_env := e\<rparr>) h out rest"
proof -
  define d' where "d' = d\<lparr>dest_buf := buf, dest_start := i, dest := j, dest_limit := k, src_env := e\<rparr>"
  have "in_bits d' = in_bits d" using assms(3) by (simp add: in_bits_def d'_def)
  moreover have "window d' h' = window d h'" for h' using assms(2) by (auto simp: window_def d'_def)
  moreover have "lz_at d' h' dist = lz_at d h' dist" for h' dist using assms(2) by (auto simp: lz_at_def d'_def)
  moreover have "eof d' = eof d" "btype d' = btype d" "ltree d' = ltree d" "dtree d' = dtree d"
    "dict_ring d' = dict_ring d" "dict_size d' = dict_size d" "curlen d' = curlen d" by (simp_all add: d'_def)
  ultimately have "pending w d' h out rest = pending w d h out rest"
    by (simp only: pending_def yields_def block_ahead_def)
  then show ?thesis using assms(1) by (simp add: d'_def)
qed

end

section \<open>The flash as the source of the decompressor\<close>

text \<open>The bytes to come: the rest of the buffer, then the flash up to \<open>lim\<close>.\<close>

definition flash_avail :: "('w \<Rightarrow> nat \<Rightarrow> u8) \<Rightarrow> nat \<Rightarrow> nat \<Rightarrow> u8 list \<Rightarrow> 'w eboot_env \<Rightarrow> u8 list" where
  "flash_avail cell lo lim s e = s @
     (if lo \<le> unat (cb_addr e) \<and> unat (cb_addr e) mod 4096 = 0 \<and> length (cb_buff e) = 4096
      then map (cell (world e)) [unat (cb_addr e)..<lim] else [])"

lemma flash_avail_stored:
  assumes "\<And>a. lo \<le> a \<Longrightarrow> a < lim \<Longrightarrow> cell w' a = cell (world e) a"
  shows "flash_avail cell lo lim s (e\<lparr>world := w'\<rparr>) = flash_avail cell lo lim s e"
  using assms by (auto simp: flash_avail_def)

lemma flash_byte_source:
  assumes nor: "nor_flash ops n cell" and lim: "4096 * l \<le> n"
  shows "byte_source (Some (uzlib_flash_read_cb ops)) (flash_avail cell lo (4096 * l))"
proof unfold_locales
  fix d :: "'a eboot_env uncomp" and b bs
  assume av: "flash_avail cell lo (4096 * l) (source d) (src_env d) = b # bs" and "\<not> eof d"
  let ?e = "src_env d"
  show "\<exists>s e. uzlib_get_byte (Some (uzlib_flash_read_cb ops)) d = (b, d\<lparr>source := s, src_env := e\<rparr>) \<and>
    flash_avail cell lo (4096 * l) s e = bs"
  proof (cases "source d")
    case (Cons x xs)
    then have "uzlib_get_byte (Some (uzlib_flash_read_cb ops)) d = (b, d\<lparr>source := xs, src_env := ?e\<rparr>)"
      and "flash_avail cell lo (4096 * l) xs ?e = bs"
      using av by (simp_all add: uzlib_get_byte_def flash_avail_def)
    then show ?thesis by blast
  next
    case Nil
    let ?a = "unat (cb_addr ?e)"
    from av Nil have inv: "lo \<le> ?a" "?a mod 4096 = 0" "length (cb_buff ?e) = 4096"
      and m: "map (cell (world ?e)) [?a..<4096 * l] = b # bs"
      by (simp_all add: flash_avail_def split: if_splits)
    from m have "?a < 4096 * l" by (cases "?a < 4096 * l") auto
    moreover obtain k where "?a = 4096 * k" using inv(2) by (auto simp: mod_eq_0_iff_dvd)
    ultimately have a: "?a + 4096 \<le> 4096 * l" by simp
    have "?a mod 4 = 0" using mod_mod_cancel [of 4 4096 ?a] inv(2) by simp
    moreover have "length (cb_buff ?e) mod 4 = 0" "?a + length (cb_buff ?e) \<le> n" using a lim inv(3) by simp_all
    ultimately obtain w' where w': "SPIRead ops (of_nat ?a) (cb_buff ?e) (world ?e) =
        (0, map (\<lambda>i. cell (world ?e) (?a + i)) [0..<length (cb_buff ?e)], w')" "cell w' = cell (world ?e)"
      by (rule nor_flash_read [OF nor])
    let ?buff = "map (\<lambda>i. cell (world ?e) (?a + i)) [0..<4096]"
    have cells: "map (cell (world ?e)) [?a..<4096 * l] = ?buff @ map (cell (world ?e)) [?a + 4096..<4096 * l]"
    proof -
      have "[?a..<4096 * l] = [?a..<?a + 4096] @ [?a + 4096..<4096 * l]"
        using a upt_add_eq_append [of ?a "?a + 4096" "4096 * l - (?a + 4096)"] by simp
      moreover have "map (cell (world ?e)) [?a..<?a + 4096] = ?buff"
        by (rule nth_equalityI) simp_all
      ultimately show ?thesis by (simp only: map_append)
    qed
    have nz: "?buff \<noteq> []" by simp
    have hd: "hd ?buff = b" and tl: "tl ?buff @ map (cell (world ?e)) [?a + 4096..<4096 * l] = bs"
      using m unfolding cells by (cases ?buff; simp add: nz)+
    let ?e' = "?e\<lparr>world := w', cb_buff := ?buff, cb_addr := cb_addr ?e + of_nat (length ?buff)\<rparr>"
    have "uzlib_get_byte (Some (uzlib_flash_read_cb ops)) d = (b, d\<lparr>source := tl ?buff, src_env := ?e'\<rparr>)"
      using Nil \<open>\<not> eof d\<close> w'(1) hd inv(3) by (simp add: uzlib_get_byte_def uzlib_flash_read_cb_def Let_def)
    moreover have "unat (cb_addr ?e + 4096) = ?a + 4096"
      using a lim nor by (simp add: nor_flash_def unat_word_ariths)
    then have "flash_avail cell lo (4096 * l) (tl ?buff) ?e' = bs"
      using inv w'(2) tl by (simp add: flash_avail_def)
    ultimately show ?thesis by blast
  qed
qed

lemma flash_world_keeper:
  assumes "nor_flash ops n cell"
  shows "world_keeper (Some (uzlib_flash_read_cb ops)) (\<lambda>e. cell (world e) = c)"
proof unfold_locales
  fix f and d :: "'a eboot_env uncomp"
  assume "Some (uzlib_flash_read_cb ops) = Some f" "cell (world (src_env d)) = c"
  then show "cell (world (src_env (snd (f d)))) = c"
    using nor_flash_read_keeps(1) [OF assms] by (auto simp: uzlib_flash_read_cb_def Let_def split: prod.splits)
qed

section \<open>Copying a gzip image\<close>

definition flash_pending :: "'w spi \<Rightarrow> ('w \<Rightarrow> nat \<Rightarrow> u8) \<Rightarrow> nat \<Rightarrow> nat \<Rightarrow> 'w eboot_env uncomp \<Rightarrow>
    u8 list \<Rightarrow> u8 list \<Rightarrow> bool list \<Rightarrow> bool" where
  "flash_pending ops cell lo l d h out rest \<longleftrightarrow>
     byte_source.pending (flash_avail cell lo (4096 * l)) 32768 d h out rest \<and>
     dict_ring d \<noteq> None \<and> length (dest_buf d) = 4096"

text \<open>The output with the padding that copy_raw writes behind it.\<close>

definition padded :: "u8 list \<Rightarrow> nat \<Rightarrow> u8" where
  "padded out i = (if i < length out then out ! i else 0xff)"

lemma padded_nth: "length out \<le> 4096 \<Longrightarrow> i < 4096 \<Longrightarrow> (out @ replicate (4096 - length out) 0xff) ! i = padded out i"
  by (simp add: padded_def nth_append)

lemma flash_pending_world:
  assumes nor: "nor_flash ops n cell" and lim: "4096 * l \<le> n"
    and p: "flash_pending ops cell lo l d h out rest"
    and same: "\<And>a. lo \<le> a \<Longrightarrow> a < 4096 * l \<Longrightarrow> cell w' a = cell (world (src_env d)) a" and "length buf = 4096"
  shows "flash_pending ops cell lo l
    (d\<lparr>dest_buf := buf, dest_start := i, dest := j, dest_limit := k, src_env := (src_env d)\<lparr>world := w'\<rparr>\<rparr>) h out rest"
  using byte_source.pending_output [OF flash_byte_source [OF nor lim, of lo], where d = d and h = h and out = out
      and e = "(src_env d)\<lparr>world := w'\<rparr>"] p
    flash_avail_stored [of lo "4096 * l" cell w' "src_env d" "source d", OF same] assms(5) by (simp add: flash_pending_def)

lemma copy_sector_gzip:
  assumes nor: "nor_flash ops n cell" and lim: "4096 * l \<le> n" and t: "4096 * q + 4096 \<le> n"
    and dis: "4096 * q + 4096 \<le> lo \<or> l \<le> q"
    and p: "flash_pending ops cell lo l d h (out @ later) rest" and ne: "out \<noteq> []"
    and len: "int (length out) = min 4096 left" and fuel: "4096 \<le> fuel"
  shows "\<exists>d'. copy_sector fuel ops False True saddr (of_nat (4096 * q)) left d = Some (Inr d') \<and>
    flash_pending ops cell lo l d' (h @ out) later rest \<and>
    stored cell (4096 * q) 4096 (padded out) (world (src_env d)) (world (src_env d'))"
proof -
  let ?rs = "Some (uzlib_flash_read_cb ops)" and ?w = "world (src_env d)" and ?n = "length out"
  let ?bs = "out @ replicate (4096 - ?n) 0xff"
  have n: "?n \<le> 4096" and bs: "length ?bs = 4096" using len by simp_all
  obtain w1 where w1: "SPIEraseSector ops q ?w = (0, w1)" "cell w1 = (\<lambda>a. if a div 4096 = q then 0xff else cell ?w a)"
      "\<And>w2. cell w2 = cell w1 \<Longrightarrow> \<exists>w3. SPIWrite ops (of_nat (4096 * q)) ?bs w2 = (0, w3) \<and>
        stored cell (4096 * q) 4096 (\<lambda>i. ?bs ! i) ?w w3"
    by (rule erase_write_sector [OF nor t bs]) (rule that)
  have out: "a div 4096 \<noteq> q" if "lo \<le> a" "a < 4096 * l" for a
  proof
    assume "a div 4096 = q"
    then have "4096 * q \<le> a" "a < 4096 * q + 4096" by (simp_all add: sector_iff)
    then show False using dis that by auto
  qed
  let ?d2 = "d\<lparr>dest_buf := dest_buf d, dest_start := 0, dest := 0, dest_limit := ?n, src_env := (src_env d)\<lparr>world := w1\<rparr>\<rparr>"
  have p2: "flash_pending ops cell lo l ?d2 h (out @ later) rest"
    by (rule flash_pending_world [OF nor lim p]) (use p in \<open>simp_all add: w1(2) out flash_pending_def\<close>)
  have "\<exists>d3. uzlib_uncompress fuel ?rs ?d2 = Some (TINF_OK, d3) \<and>
      flash_pending ops cell lo l d3 (h @ out) later rest \<and> dest_buf d3 = out @ drop ?n (dest_buf d)"
    using byte_source.uncompress_chunk [OF flash_byte_source [OF nor lim, of lo], where d = ?d2 and h = h and
        out = out and fuel = fuel and later = later and rest = rest] p2 ne n fuel
    by (fastforce simp: flash_pending_def)
  then obtain d3 where d3: "uzlib_uncompress fuel ?rs ?d2 = Some (TINF_OK, d3)"
      "flash_pending ops cell lo l d3 (h @ out) later rest" "dest_buf d3 = out @ drop ?n (dest_buf d)" by blast
  have c3: "cell (world (src_env d3)) = cell w1"
    using world_keeper.uncompress_keeps [OF flash_world_keeper [OF nor] d3(1)] by simp
  obtain w4 where w4: "SPIWrite ops (of_nat (4096 * q)) ?bs (world (src_env d3)) = (0, w4)"
      "stored cell (4096 * q) 4096 (\<lambda>i. ?bs ! i) ?w w4"
    using w1(3) [OF c3] by blast
  let ?d5 = "d3\<lparr>dest_buf := ?bs, src_env := (src_env d3)\<lparr>world := w4\<rparr>\<rparr>"
  have "cell w4 a = cell (world (src_env d3)) a" if "lo \<le> a" "a < 4096 * l" for a
    using w4(2) out [OF that] by (auto simp: stored_def c3 w1(2) sector_iff)
  then have "flash_pending ops cell lo l (d3\<lparr>dest_buf := ?bs, dest_start := dest_start d3, dest := dest d3,
      dest_limit := dest_limit d3, src_env := (src_env d3)\<lparr>world := w4\<rparr>\<rparr>) (h @ out) later rest"
    by (rule flash_pending_world [OF nor lim d3(2) _ bs])
  then have p5: "flash_pending ops cell lo l ?d5 (h @ out) later rest" by simp
  have "unat (of_nat (4096 * q) :: u32) = 4096 * q" by (rule flash_small [OF nor]) (use t in simp)
  then have q: "unat (of_nat (4096 * q) :: u32) div FLASH_SECTOR_SIZE = q" by (simp add: FLASH_SECTOR_SIZE_def)
  have r: "(if int FLASH_SECTOR_SIZE < left then FLASH_SECTOR_SIZE else nat left) = ?n"
    using len by (auto simp: FLASH_SECTOR_SIZE_def min_def split: if_splits)
  have eq: "(set_world w1 d)\<lparr>dest_start := 0, dest := 0, dest_limit := ?n\<rparr> = ?d2" by (cases d) simp
  have "copy_sector fuel ops False True saddr (of_nat (4096 * q)) left d = Some (Inr ?d5)"
    unfolding copy_sector_def q r using w1(1) d3(1) [folded eq] d3(3) w4(1)
    by (simp add: Let_def tinf_codes FLASH_SECTOR_SIZE_def)
  moreover have "stored cell (4096 * q) 4096 (padded out) ?w w4"
    using w4(2) padded_nth [OF n] by (auto simp: stored_def fun_eq_iff)
  ultimately show ?thesis using p5 by (intro exI [of _ ?d5]) simp
qed

lemma copy_loop_gzip:
  assumes nor: "nor_flash ops n cell" and lim: "4096 * l \<le> n" and fuel: "4096 \<le> fuel"
    and "4096 * q + 4096 * ((length out + 4095) div 4096) \<le> n"
    and "4096 * q + 4096 * ((length out + 4095) div 4096) \<le> lo \<or> l \<le> q"
    and "flash_pending ops cell lo l d h out rest" and "left = int (length out) \<or> out = [] \<and> left \<le> 0"
  shows "\<exists>d'. copy_loop fuel ops False True saddr (of_nat (4096 * q)) left d = Some (0, d') \<and>
    stored cell (4096 * q) (4096 * ((length out + 4095) div 4096)) (padded out) (world (src_env d)) (world (src_env d'))"
  using assms(4-7)
proof (induction "length out" arbitrary: out q d h left saddr rule: less_induct)
  case less
  show ?case
  proof (cases "out = []")
    case True
    then show ?thesis using less.prems(4) by (subst copy_loop.simps) (auto simp: stored_def fun_eq_iff)
  next
    case False
    let ?c = "take 4096 out" and ?r = "drop 4096 out" and ?w = "world (src_env d)"
    let ?k = "(length ?r + 4095) div 4096"
    have left: "left = int (length out)" using less.prems(4) False by auto
    have "0 < length out" using False by simp
    then have k: "(length out + 4095) div 4096 = ?k + 1"
    proof (cases "4096 \<le> length out")
      case True
      then have "length out + 4095 = length ?r + 4095 + 4096" by simp
      then show ?thesis by simp
    next
      case False
      then have "(length out + 4095) div 4096 = 1" using \<open>0 < length out\<close> by linarith
      then show ?thesis using False by simp
    qed
    have t: "4096 * q + 4096 \<le> n" "4096 * q + 4096 \<le> lo \<or> l \<le> q" using less.prems(1,2) unfolding k by auto
    have p: "flash_pending ops cell lo l d h (?c @ ?r) rest" using less.prems(3) by simp
    have "?c \<noteq> []" "int (length ?c) = min 4096 left" using False left by simp_all
    from copy_sector_gzip [OF nor lim t p this fuel] obtain d1 where d1:
        "copy_sector fuel ops False True saddr (of_nat (4096 * q)) left d = Some (Inr d1)"
        "flash_pending ops cell lo l d1 (h @ ?c) ?r rest"
        "stored cell (4096 * q) 4096 (padded ?c) ?w (world (src_env d1))" by blast
    have q: "4096 * (q + 1) + 4096 * ?k \<le> n" "4096 * (q + 1) + 4096 * ?k \<le> lo \<or> l \<le> q + 1"
      using less.prems(1,2) unfolding k by auto
    have "left - 4096 = int (length ?r) \<or> ?r = [] \<and> left - 4096 \<le> 0" using left by auto
    moreover have "length ?r < length out" using False by simp
    ultimately obtain d2 where d2:
        "copy_loop fuel ops False True (saddr + 4096) (of_nat (4096 * (q + 1))) (left - 4096) d1 = Some (0, d2)"
        "stored cell (4096 * (q + 1)) (4096 * ?k) (padded ?r) (world (src_env d1)) (world (src_env d2))"
      using less.hyps [OF _ q d1(2)] by blast
    have "copy_loop fuel ops False True saddr (of_nat (4096 * q)) left d =
        copy_loop fuel ops False True (saddr + 4096) (of_nat (4096 * (q + 1))) (left - 4096) d1"
      using d1(1) left \<open>0 < length out\<close> by (subst copy_loop.simps) (simp add: FLASH_SECTOR_SIZE_def algebra_simps)
    moreover have "stored cell (4096 * q) (4096 * (?k + 1)) (padded out) ?w (world (src_env d2))"
      using d1(3) d2(2) by (auto simp: stored_def fun_eq_iff padded_def)
    ultimately show ?thesis unfolding k using d2(1) by (intro exI [of _ d2]) simp
  qed
qed

lemma unat_add_sub:
  assumes "unat a + unat b < 4294967296" and "k \<le> unat a + unat b"
  shows "unat (a + b - of_nat k :: u32) = unat a + unat b - k"
proof -
  have "a + b - of_nat k = (of_nat (unat a + unat b - k) :: u32)" using assms(2) by (simp add: of_nat_diff)
  moreover have "unat a + unat b - k < 4294967296" using assms(1) by simp
  ultimately show ?thesis by (simp only: unat_of_nat take_bit_eq_mod) simp
qed

lemma le_sum:
  assumes "L < 4294967296"
  shows "ucast (of_nat L :: u8) + shl (ucast (of_nat (L div 256) :: u8)) 8 +
    shl (ucast (of_nat (L div 65536) :: u8)) 16 + shl (ucast (of_nat (L div 16777216) :: u8)) 24 = (of_nat L :: u32)"
proof -
  have u: "(ucast (of_nat x :: u8) :: u32) = of_nat (x mod 256)" for x
    by (simp add: unsigned_of_nat take_bit_eq_mod)
  have "L mod 256 + (L div 256 mod 256) * 2 ^ 8 + (L div 65536 mod 256) * 2 ^ 16 + (L div 16777216 mod 256) * 2 ^ 24 = L"
  proof -
    have d: "L div 65536 = L div 256 div 256" "L div 16777216 = L div 256 div 256 div 256"
      by (simp_all flip: div_mult2_eq)
    have "L div 256 div 256 div 256 < 256" using assms by (simp add: less_mult_imp_div_less flip: div_mult2_eq)
    then have x: "L div 256 div 256 div 256 mod 256 = L div 256 div 256 div 256" by (rule mod_less)
    have e: "x * 256 + r = y \<Longrightarrow> x' * 256 + r' = x \<Longrightarrow> x'' * 256 + r'' = x' \<Longrightarrow>
        r + r' * 2 ^ 8 + r'' * 2 ^ 16 + x'' * 2 ^ 24 = y" for x r y x' r' x'' r'' :: nat by simp
    show ?thesis unfolding d x by (rule e) (rule div_mult_mod_eq)+
  qed
  from arg_cong [where f = "of_nat :: nat \<Rightarrow> u32", OF this] show ?thesis
    unfolding u shl_def push_bit_eq_mult of_nat_add of_nat_mult of_nat_power of_nat_numeral .
qed

lemma flash_aligned_word:
  assumes "a < 4096 * l" and "4096 * l \<le> (n :: nat)"
  shows "a div 4 * 4 + 4 \<le> n"
proof -
  have "a div 4 < 1024 * l" using assms(1) by (simp add: less_mult_imp_div_less)
  then show ?thesis using assms(2) by simp
qed

lemma gzip_size_cells:
  assumes nor: "nor_flash ops n cell" and lim: "unat saddr + unat nbytes \<le> 4096 * l" "4096 * l \<le> n"
    and "4 \<le> unat nbytes" and "L < 2 ^ 31"
    and c: "\<And>i. i < 4 \<Longrightarrow> cell w (unat saddr + unat nbytes - 4 + i) = of_nat (L div 256 ^ i)"
  shows "\<exists>w'. gzip_size ops saddr nbytes w = (int L, w') \<and> cell w' = cell w"
proof -
  let ?e = "unat saddr + unat nbytes"
  have n: "n \<le> 2147483648" using nor by (simp add: nor_flash_def)
  have a: "unat (saddr + nbytes - of_nat k) = ?e - k" if "k \<le> 4" for k
    by (rule unat_add_sub) (use lim n assms(4) that in linarith)+
  have rd: "\<exists>w'. read_flash_byte ops (saddr + nbytes - of_nat k) w1 = (cell w (?e - k), w') \<and> cell w' = cell w"
    if "0 < k" "k \<le> 4" "cell w1 = cell w" for k w1
  proof -
    have "?e - k < 4096 * l" using that lim(1) assms(4) by linarith
    then have "unat (saddr + nbytes - of_nat k) div 4 * 4 + 4 \<le> n"
      unfolding a [OF that(2)] using lim(2) by (rule flash_aligned_word)
    from read_flash_byte_cell [OF nor this, of w1] show ?thesis unfolding a [OF that(2)] that(3) .
  qed
  obtain w1 where w1: "read_flash_byte ops (saddr + nbytes - 4) w = (cell w (?e - 4), w1)" "cell w1 = cell w"
    using rd [of 4 w] by auto
  obtain w2 where w2: "read_flash_byte ops (saddr + nbytes - 3) w1 = (cell w (?e - 3), w2)" "cell w2 = cell w"
    using rd [of 3 w1] w1(2) by auto
  obtain w3 where w3: "read_flash_byte ops (saddr + nbytes - 2) w2 = (cell w (?e - 2), w3)" "cell w3 = cell w"
    using rd [of 2 w2] w2(2) by auto
  obtain w4 where w4: "read_flash_byte ops (saddr + nbytes - 1) w3 = (cell w (?e - 1), w4)" "cell w4 = cell w"
    using rd [of 1 w3] w3(2) by auto
  have b: "cell w (?e - 4) = of_nat L" "cell w (?e - 3) = of_nat (L div 256)"
    "cell w (?e - 2) = of_nat (L div 65536)" "cell w (?e - 1) = of_nat (L div 16777216)"
  proof -
    have "?e - 4 + 0 = ?e - 4" "?e - 4 + 1 = ?e - 3" "?e - 4 + 2 = ?e - 2" "?e - 4 + 3 = ?e - 1" using assms(4) by linarith+
    then show "cell w (?e - 4) = of_nat L" "cell w (?e - 3) = of_nat (L div 256)"
      "cell w (?e - 2) = of_nat (L div 65536)" "cell w (?e - 1) = of_nat (L div 16777216)"
      using c [of 0] c [of 1] c [of 2] c [of 3] by simp_all
  qed
  have "sint (of_nat L :: u32) = int L"
    using sint_small [of "of_nat L"] assms(5) by (simp add: unat_of_nat take_bit_eq_mod)
  then have "gzip_size ops saddr nbytes w = (int L, w4)"
    using assms(5) by (simp add: gzip_size_def w1(1) w2(1) w3(1) w4(1) b le_sum del: One_nat_def)
  then show ?thesis using w4(2) by blast
qed

section \<open>Main properties\<close>

text \<open>What copy_raw finds in its stack frame: arrays of the right sizes.\<close>

definition copy_frame :: "u8 list \<Rightarrow> 'w eboot_env uncomp \<Rightarrow> bool" where
  "copy_frame gzip_dict d \<longleftrightarrow> length gzip_dict = 32768 \<and> length (dest_buf d) = 4096 \<and>
     length (cb_buff (src_env d)) = 4096 \<and>
     length (table (ltree d)) = 16 \<and> length (trans (ltree d)) = 288 \<and>
     length (table (dtree d)) = 16 \<and> length (trans (dtree d)) = 288"

text \<open>A gzip member with one block of fixed codes, then CRC and size: the bytes \<open>data\<close> compressed.\<close>

definition gzip_image :: "u8 list \<Rightarrow> u8 list \<Rightarrow> bool" where
  "gzip_image data img \<longleftrightarrow> (\<exists>flg fixed extra name comment hcrc ts bs body k crc.
     gzip_header_ok flg fixed extra name comment hcrc \<and> fixed_block ts bs \<and> tokens_ok 32768 ts 0 \<and>
     expand ts [] = data \<and> bytes_bits body = bs @ replicate k False \<and> length crc = 4 \<and>
     img = gzip_header flg fixed extra name comment hcrc @ body @ crc @
       map (\<lambda>i. of_nat (length data div 256 ^ i)) [0..<4])"

lemma read_signature:
  assumes nor: "nor_flash ops n cell" and a: "unat a mod 4096 = 0" "unat a + 4096 \<le> n"
  shows "\<exists>w1 w2. read_flash_byte ops a w = (cell w (unat a), w1) \<and> cell w1 = cell w \<and>
    read_flash_byte ops (a + 1) w1 = (cell w (unat a + 1), w2) \<and> cell w2 = cell w"
proof -
  have n: "n \<le> 2147483648" using nor by (simp add: nor_flash_def)
  obtain k where k: "unat a = 4096 * k" using a(1) by (auto simp: mod_eq_0_iff_dvd)
  have l: "4096 * (k + 1) \<le> n" using a(2) k by simp
  have "unat (a + 1) = unat a + 1" using a(2) n by (simp add: unat_word_ariths)
  moreover have "unat a < 4096 * (k + 1)" "unat a + 1 < 4096 * (k + 1)" using k by simp_all
  then have "unat a div 4 * 4 + 4 \<le> n" "(unat a + 1) div 4 * 4 + 4 \<le> n"
    using flash_aligned_word [OF _ l] by blast+
  ultimately show ?thesis
    using read_flash_byte_cell [OF nor, of a w] read_flash_byte_cell [OF nor, of "a + 1"] by metis
qed

text \<open>C11. A plain image is copied: from sector-aligned addresses, for regions inside the flash that do
  not overlap, copy_raw returns 0 having made the sectors at the destination equal to those at the
  source, whatever they held before, and no other byte of the flash changes.\<close>

theorem copy_raw_plain:
  fixes cell :: "'w \<Rightarrow> nat \<Rightarrow> u8"
  defines "sectors m \<equiv> (m + 4095) div (4096 :: nat)"
  assumes nor: "nor_flash ops n cell" and al: "unat src mod 4096 = 0" "unat dst mod 4096 = 0" and "0 < unat nbytes"
    and "unat src + 4096 * sectors (unat nbytes) \<le> n" and "unat dst + 4096 * sectors (unat nbytes) \<le> n"
    and "unat src + 4096 * sectors (unat nbytes) \<le> unat dst \<or> unat dst + 4096 * sectors (unat nbytes) \<le> unat src"
    and "copy_frame gzip_dict d"
    and plain: "\<not> (cell (world (src_env d)) (unat src) = 0x1f \<and> cell (world (src_env d)) (unat src + 1) = 0x8b)"
  shows "\<exists>d'. copy_raw fuel ops src dst nbytes False gzip_dict d = Some (0, d') \<and>
    cell (world (src_env d')) = (\<lambda>a. if unat dst \<le> a \<and> a < unat dst + 4096 * sectors (unat nbytes)
      then cell (world (src_env d)) (unat src + (a - unat dst)) else cell (world (src_env d)) a)"
proof -
  let ?w = "world (src_env d)"
  define k where "k = sectors (unat nbytes)"
  note b = assms(6-8) [folded k_def]
  have n: "n \<le> 2147483648" using nor by (simp add: nor_flash_def)
  obtain p q where pq: "unat src = 4096 * p" "unat dst = 4096 * q"
    using al unfolding mod_eq_0_iff_dvd by (elim dvdE) (rule that)
  have pos: "1 \<le> k" using assms(5) by (simp add: k_def sectors_def Suc_le_eq div_greater_zero_iff)
  have k: "4096 * k < 2147483648" using b n pos by linarith
  have up: "unat nbytes + 4095 < 4096 * k + 4096" unfolding k_def sectors_def by linarith
  have "sint ((nbytes + 4096 - 1) AND NOT (4096 - 1) :: u32) = int (4096 * k)"
  proof -
    have s: "unat (nbytes + 4095) = unat nbytes + 4095" using up k by (simp add: unat_word_ariths)
    have "unat ((nbytes + 4096 - 1) AND NOT (4096 - 1) :: u32) = unat nbytes + 4095 - (unat nbytes + 4095) mod 4096"
      using unat_and_not_fff [of "nbytes + 4095"] unfolding s by (simp add: add.commute)
    also have "\<dots> = 4096 * k" by (simp add: k_def sectors_def minus_mod_eq_mult_div)
    finally show ?thesis using sint_small [of "(nbytes + 4096 - 1) AND NOT (4096 - 1) :: u32"] k by simp
  qed
  note left = this
  have "unat src + 4096 \<le> n" using b(1) pos by linarith
  from read_signature [OF nor al(1) this, of ?w] obtain w1 w2 where r:
    "read_flash_byte ops src ?w = (cell ?w (unat src), w1)" "cell w1 = cell ?w"
    "read_flash_byte ops (src + 1) w1 = (cell ?w (unat src + 1), w2)" "cell w2 = cell ?w" by (elim exE conjE) (rule that)
  define w0 where "w0 = (if cell ?w (unat src) = 0x1f then w2 else w1)"
  have "src AND 0xfff = 0" "dst AND 0xfff = 0" using al by (simp_all add: and_fff)
  then have run: "copy_raw fuel ops src dst nbytes False gzip_dict d =
      copy_loop fuel ops False False src dst (int (4096 * k)) (set_world w0 d)"
    using r(1,3) plain left by (auto simp: copy_raw_def w0_def)
  have sd: "src = of_nat (4096 * p)" "dst = of_nat (4096 * q)" unfolding pq [symmetric] by simp_all
  have dis: "p + k \<le> q \<or> q + k \<le> p" using b(3) unfolding pq by linarith
  have "length (dest_buf (set_world w0 d)) = 4096" using assms(9) by (simp add: copy_frame_def)
  from copy_loop_raw [OF nor b(1) [unfolded pq] b(2) [unfolded pq] dis this, of fuel] obtain d' where
    "copy_loop fuel ops False False src dst (int (4096 * k)) (set_world w0 d) = Some (0, d')"
    "stored cell (4096 * q) (4096 * k) (\<lambda>i. cell w0 (4096 * p + i)) w0 (world (src_env d'))"
    unfolding sd by auto
  moreover have "cell w0 = cell ?w" using r(2,4) by (simp add: w0_def)
  ultimately show ?thesis unfolding run k_def [symmetric] by (auto simp: stored_def pq)
qed

definition example_frame :: "'w \<Rightarrow> 'w eboot_env uncomp" where
  "example_frame w =
     \<lparr>source = [], src_env = \<lparr>world = w, cb_addr = 0, cb_buff = replicate 4096 0\<rparr>, tag = 0, bitcount = 0,
      dest_buf = replicate 4096 0, dest_start = 0, dest = 0, dest_limit = 0, checksum = 0, checksum_type = 0, eof = False,
      btype = 0, bfinal = 0, curlen = 0, lzOff = 0, dict_ring = None, dict_size = 0, dict_idx = 0,
      ltree = \<lparr>table = replicate 16 0, trans = replicate 288 0\<rparr>, dtree = \<lparr>table = replicate 16 0, trans = replicate 288 0\<rparr>\<rparr>"

lemma example_frame_ok: "copy_frame (replicate 32768 0) (example_frame w)"
  by (simp add: copy_frame_def example_frame_def)

theorem copy_raw_plain_witness:
  "\<exists>d'. copy_raw 0 (ideal_flash 0x4000) 0x1000 0x2000 5 False (replicate 32768 0) (example_frame (\<lambda>a. of_nat (a mod 7))) =
    Some (0, d') \<and> world (src_env d') 0x2003 = 4"
proof -
  have e: "world (src_env (example_frame w)) = w" for w :: "nat \<Rightarrow> u8" by (simp add: example_frame_def)
  obtain d' where "copy_raw 0 (ideal_flash 0x4000) 0x1000 0x2000 5 False (replicate 32768 0) (example_frame (\<lambda>a. of_nat (a mod 7))) =
      Some (0, d')" "world (src_env d') = (\<lambda>a. if 8192 \<le> a \<and> a < 12288 then of_nat ((4096 + (a - 8192)) mod 7) else of_nat (a mod 7))"
    using copy_raw_plain [OF ideal_flash_nor [of 16384], where src = "0x1000" and dst = "0x2000" and nbytes = "5" and
        gzip_dict = "replicate 32768 0" and d = "example_frame (\<lambda>a. of_nat (a mod 7))" and fuel = "0"] example_frame_ok [of "\<lambda>a. of_nat (a mod 7)"]
    by (auto simp: e cong: if_cong)
  then show ?thesis by simp
qed

text \<open>The bytes copy_raw looks at before it unpacks: the signature, and the size in the last four.\<close>

lemma gzip_image_cells:
  assumes "gzip_image data img" and "map c [s..<s + length img] = img"
  shows "10 \<le> length img" "c s = 0x1f" "c (s + 1) = 0x8b"
    and "i < 4 \<Longrightarrow> c (s + length img - 4 + i) = of_nat (length data div 256 ^ i)"
proof -
  from assms(1) obtain flg fixed extra name comment hcrc body crc where
    hdr: "gzip_header_ok flg fixed extra name comment hcrc" and
    imgeq: "img = gzip_header flg fixed extra name comment hcrc @ body @ crc @
       map (\<lambda>i. of_nat (length data div 256 ^ i)) [0..<4]"
    unfolding gzip_image_def by (elim exE conjE) (rule that)
  have cells: "c (s + m) = img ! m" if "m < length img" for m
    using arg_cong [where f = "\<lambda>xs. xs ! m", OF assms(2)] that by simp
  show len: "10 \<le> length img" using hdr by (simp add: imgeq gzip_header_def gzip_header_ok_def)
  then have "0 < length img" "1 < length img" by linarith+
  then show "c s = 0x1f" "c (s + 1) = 0x8b" using cells [of 0] cells [of 1] by (simp_all add: imgeq gzip_header_def)
  assume i: "i < 4"
  then have "img ! (length img - 4 + i) = of_nat (length data div 256 ^ i)" by (simp add: imgeq nth_append)
  moreover have "length img - 4 + i < length img" "s + length img - 4 + i = s + (length img - 4 + i)" using len i by linarith+
  ultimately show "c (s + length img - 4 + i) = of_nat (length data div 256 ^ i)" using cells by metis
qed

text \<open>The decompressor as copy_raw sets it up for an image at \<open>src\<close>, and what its header parser leaves.\<close>

lemma gzip_image_pending:
  fixes cell :: "'w \<Rightarrow> nat \<Rightarrow> u8"
  assumes nor: "nor_flash ops n cell" and lim: "4096 * l \<le> n" "4096 * p + length img \<le> 4096 * l" "unat src = 4096 * p"
    and img: "gzip_image data img" "map (cell w) [4096 * p..<4096 * p + length img] = img" and frame: "copy_frame gzip_dict d"
  defines "d1 \<equiv> uzlib_uncompress_init (d\<lparr>source := [], src_env := (src_env d)\<lparr>world := w, cb_addr := src\<rparr>\<rparr>) (Some gzip_dict) 32768"
  shows "\<exists>d2 rest. uzlib_gzip_parse_header (Some (uzlib_flash_read_cb ops)) d1 = Some (TINF_OK, d2) \<and>
    flash_pending ops cell (4096 * p) l d2 [] data rest \<and> cell (world (src_env d2)) = cell w"
proof -
  let ?rs = "Some (uzlib_flash_read_cb ops)" and ?av = "flash_avail cell (4096 * p) (4096 * l)"
  note source = flash_byte_source [OF nor lim(1), of "4096 * p"]
  from img(1) obtain flg fixed extra name comment hcrc ts bs body kk crc where
    hdr: "gzip_header_ok flg fixed extra name comment hcrc" and
    blk: "fixed_block ts bs" "tokens_ok 32768 ts 0" "expand ts [] = data" "bytes_bits body = bs @ replicate kk False" and
    imgeq: "img = gzip_header flg fixed extra name comment hcrc @ body @ crc @
       map (\<lambda>i. of_nat (length data div 256 ^ i)) [0..<4]"
    unfolding gzip_image_def by (elim exE conjE) (rule that)
  let ?rest = "map (cell w) [4096 * p + length img..<4096 * l]"
  let ?tail = "body @ crc @ map (\<lambda>i. of_nat (length data div 256 ^ i)) [0..<4] @ ?rest"
  have "[4096 * p..<4096 * l] = [4096 * p..<4096 * p + length img] @ [4096 * p + length img..<4096 * l]"
    using lim(2) upt_add_eq_append [of "4096 * p" "4096 * p + length img" "4096 * l - (4096 * p + length img)"] by simp
  then have "map (cell w) [4096 * p..<4096 * l] = img @ ?rest" using img(2) by simp
  moreover have "?av (source d1) (src_env d1) = map (cell w) [4096 * p..<4096 * l]"
    using frame lim(3) by (simp add: d1_def uzlib_uncompress_init_def flash_avail_def copy_frame_def)
  ultimately have "byte_source.ahead ?av d1 (gzip_header flg fixed extra name comment hcrc @ ?tail)"
    by (simp add: byte_source.ahead_def [OF source] d1_def uzlib_uncompress_init_def imgeq)
  from byte_source.gzip_header_reads [OF source hdr this] obtain d3 where d3:
    "uzlib_gzip_parse_header ?rs d1 = Some (TINF_OK, d3\<lparr>checksum_type := TINF_CHKSUM_CRC, checksum := NOT 0\<rparr>)"
    "byte_source.ahead ?av d3 ?tail" "byte_source.reads d1 d3" by blast
  define d2 where "d2 = d3\<lparr>checksum_type := TINF_CHKSUM_CRC, checksum := NOT 0\<rparr>"
  have st: "input_step d1 d3" "bitcount d3 = 0" "\<not> eof d3" "?av (source d3) (src_env d3) = ?tail"
    using d3(2,3) by (simp_all add: byte_source.reads_def [OF source] byte_source.ahead_def [OF source] d1_def
        uzlib_uncompress_init_def)
  have "byte_source.in_bits ?av d2 = bs @ (replicate kk False @ bytes_bits (drop (length body) ?tail))"
    using st(2,4) blk(4) by (simp add: byte_source.in_bits_def [OF source] d2_def)
  then have "flash_pending ops cell (4096 * p) l d2 [] data (replicate kk False @ bytes_bits (drop (length body) ?tail))"
    using blk st(3) frame input_step_fields [OF st(1)]
    by (auto simp: flash_pending_def byte_source.pending_def [OF source] byte_source.block_ahead_def [OF source]
        d2_def d1_def uzlib_uncompress_init_def copy_frame_def window_def)
  moreover have "cell (world (src_env d2)) = cell w"
    using world_keeper.gzip_parse_header_keeps [OF flash_world_keeper [OF nor] d3(1)]
    by (simp add: d2_def d1_def uzlib_uncompress_init_def)
  ultimately show ?thesis using d3(1) d2_def by blast
qed

text \<open>C1. A gzip image arrives uncompressed, from and to whole sectors of the flash that do not overlap: copy_raw recognises the member by its signature, takes the
  size from its last four bytes, unpacks it a sector at a time through the 32K ring and its read
  callback, and returns 0 having made the destination the data, padded with 0xff to whole sectors; no
  other byte of the flash changes.\<close>

theorem copy_raw_gzip:
  fixes cell :: "'w \<Rightarrow> nat \<Rightarrow> u8"
  defines "sectors m \<equiv> (m + 4095) div (4096 :: nat)"
  assumes nor: "nor_flash ops n cell" and al: "unat src mod 4096 = 0" "unat dst mod 4096 = 0"
    and img: "gzip_image data img" "unat nbytes = length img"
      "map (cell (world (src_env d))) [unat src..<unat src + length img] = img"
    and "unat src + 4096 * sectors (length img) \<le> n" and "unat dst + 4096 * sectors (length data) \<le> n"
    and "unat src + 4096 * sectors (length img) \<le> unat dst \<or> unat dst + 4096 * sectors (length data) \<le> unat src"
    and frame: "copy_frame gzip_dict d" and fuel: "4096 \<le> fuel"
  shows "\<exists>d'. copy_raw fuel ops src dst nbytes False gzip_dict d = Some (0, d') \<and>
    cell (world (src_env d')) = (\<lambda>a. if unat dst \<le> a \<and> a < unat dst + 4096 * sectors (length data)
      then padded data (a - unat dst) else cell (world (src_env d)) a)"
proof -
  let ?w = "world (src_env d)"
  have n: "n \<le> 2147483648" using nor by (simp add: nor_flash_def)
  obtain p q where pq: "unat src = 4096 * p" "unat dst = 4096 * q"
    using al unfolding mod_eq_0_iff_dvd by (elim dvdE) (rule that)
  define l where "l = p + sectors (length img)"
  define k where "k = sectors (length data)"
  have lim: "4096 * l \<le> n" "4096 * q + 4096 * k \<le> n" "4096 * q + 4096 * k \<le> 4096 * p \<or> l \<le> q"
    using assms(8-10) unfolding pq l_def k_def [symmetric] by auto
  note cells = gzip_image_cells [OF img(1,3)]
  have "length img \<le> 4096 * sectors (length img)" unfolding sectors_def by linarith
  then have imgl: "4096 * p + length img \<le> 4096 * l" unfolding l_def by simp
  have pos: "1 \<le> sectors (length img)" using cells(1) by (auto simp: sectors_def Suc_le_eq div_greater_zero_iff)
  then have "unat src + 4096 \<le> n" using assms(8) by linarith
  from read_signature [OF nor al(1) this, of ?w] obtain w1 w2 where r:
    "read_flash_byte ops src ?w = (0x1f, w1)" "cell w1 = cell ?w"
    "read_flash_byte ops (src + 1) w1 = (0x8b, w2)" "cell w2 = cell ?w" unfolding cells(2,3) by (elim exE conjE) (rule that)
  have sz: "cell w2 (unat src + unat nbytes - 4 + i) = of_nat (length data div 256 ^ i)" if "i < 4" for i
    using cells(4) [OF that] img(2) r(4) by simp
  have "length data \<le> 4096 * k" unfolding k_def sectors_def by linarith
  moreover have "4096 * k < 2147483648" using lim n pos by (auto simp: l_def)
  ultimately have "length data < 2 ^ 31" by simp
  moreover have "unat src + unat nbytes \<le> 4096 * l" "4 \<le> unat nbytes" using imgl img(2) cells(1) pq by simp_all
  ultimately obtain w3 where w3: "gzip_size ops src nbytes w2 = (int (length data), w3)" "cell w3 = cell w2"
    using gzip_size_cells [OF nor _ lim(1) _ _ sz] by blast
  have "map (cell w3) [4096 * p..<4096 * p + length img] = img" using img(3) w3(2) r(4) pq(1) by simp
  from gzip_image_pending [OF nor lim(1) imgl pq(1) img(1) this frame] obtain d2 rest where d2:
    "uzlib_gzip_parse_header (Some (uzlib_flash_read_cb ops)) (uzlib_uncompress_init
       (d\<lparr>source := [], src_env := (src_env d)\<lparr>world := w3, cb_addr := src\<rparr>\<rparr>) (Some gzip_dict) 32768) = Some (TINF_OK, d2)"
    "flash_pending ops cell (4096 * p) l d2 [] data rest" "cell (world (src_env d2)) = cell w3" by blast
  have sd: "dst = of_nat (4096 * q)" unfolding pq [symmetric] by simp
  obtain d' where d': "copy_loop fuel ops False True src dst (int (length data)) d2 = Some (0, d')"
      "stored cell (4096 * q) (4096 * k) (padded data) (world (src_env d2)) (world (src_env d'))"
    using copy_loop_gzip [OF nor lim(1) fuel _ _ d2(2), of q "int (length data)" src] lim(2,3)
    unfolding sd k_def sectors_def by blast
  have "src AND 0xfff = 0" "dst AND 0xfff = 0" using al by (simp_all add: and_fff)
  then have "copy_raw fuel ops src dst nbytes False gzip_dict d = Some (0, d')"
    using r(1,3) w3(1) d2(1) d'(1) by (simp add: copy_raw_def)
  then show ?thesis using d'(2) w3(2) r(4) d2(3) unfolding k_def [symmetric] by (auto simp: stored_def pq)
qed

text \<open>The letter a as gzip writes it.\<close>

definition example_gzip :: "u8 list" where
  "example_gzip = [0x1f, 0x8b, 8, 0, 0, 0, 0, 0, 0, 3, 0x4b, 4, 0, 0x43, 0xbe, 0xb7, 0xe8, 1, 0, 0, 0]"

lemma example_gzip_image: "gzip_image [97] example_gzip"
proof -
  have rep: "replicate 6 False = [False, False, False, False, False, False]" by (simp add: numeral_eq_Suc)
  have "encodes [Lit 97] (lit_bits (unat (97 :: u8)) @ [])" by (intro encodes.intros)
  then have "fixed_block [Lit 97] ([True, True, False] @ lit_bits 97 @ lit_bits 256)" by (auto simp: fixed_block_def)
  moreover have "bytes_bits [0x4b, 4, 0] = ([True, True, False] @ lit_bits 97 @ lit_bits 256) @ replicate 6 False"
    unfolding rep by (simp add: lit_bits_simps byte_bits_def nat_bits_numeral)
  moreover have "gzip_header_ok 0 [0, 0, 0, 0, 0, 3] [] [] [] [0, 0]" by (simp add: gzip_header_ok_def)
  moreover have "tokens_ok 32768 [Lit 97] 0" "expand [Lit 97] [] = [97]" by simp_all
  moreover have "example_gzip = gzip_header 0 [0, 0, 0, 0, 0, 3] [] [] [] [0, 0] @ [0x4b, 4, 0] @ [0x43, 0xbe, 0xb7, 0xe8] @
    map (\<lambda>i. of_nat (length [97 :: u8] div 256 ^ i)) [0..<4]"
    by (simp add: example_gzip_def gzip_header_def gzip_string_def upt_rec gzip_flags)
  moreover have "length [0x43 :: u8, 0xbe, 0xb7, 0xe8] = 4" by simp
  ultimately show ?thesis unfolding gzip_image_def by (intro exI conjI) (assumption | simp)+
qed

theorem copy_raw_gzip_witness:
  "\<exists>d'. copy_raw 4096 (ideal_flash 0x4000) 0x1000 0x2000 21 False (replicate 32768 0)
      (example_frame (\<lambda>a. if a - 0x1000 < 21 then example_gzip ! (a - 0x1000) else 0)) = Some (0, d') \<and>
    world (src_env d') 0x2000 = 97 \<and> world (src_env d') 0x2001 = 0xff"
proof -
  let ?w = "\<lambda>a. if a - 0x1000 < 21 then example_gzip ! (a - 0x1000) else 0"
  have len: "length example_gzip = 21" by (simp add: example_gzip_def)
  have e: "world (src_env (example_frame w)) = w" for w :: "nat \<Rightarrow> u8" by (simp add: example_frame_def)
  have "map ?w [4096..<4117] = example_gzip" by (simp add: example_gzip_def)
  then have img: "map (world (src_env (example_frame ?w))) [unat (0x1000 :: u32)..<unat (0x1000 :: u32) + length example_gzip] =
      example_gzip" unfolding e len by simp
  have nor: "nor_flash (ideal_flash 0x4000) 0x4000 (\<lambda>w. w)" by (rule ideal_flash_nor) simp
  have "unat (0x1000 :: u32) mod 4096 = 0" "unat (0x2000 :: u32) mod 4096 = 0" "unat (21 :: u32) = length example_gzip"
    "unat (0x1000 :: u32) + 4096 * ((length example_gzip + 4095) div 4096) \<le> 0x4000"
    "unat (0x2000 :: u32) + 4096 * ((length [97 :: u8] + 4095) div 4096) \<le> 0x4000"
    "unat (0x1000 :: u32) + 4096 * ((length example_gzip + 4095) div 4096) \<le> unat (0x2000 :: u32) \<or>
      unat (0x2000 :: u32) + 4096 * ((length [97 :: u8] + 4095) div 4096) \<le> unat (0x1000 :: u32)"
    by (simp_all add: len)
  from copy_raw_gzip [OF nor, OF this(1,2) example_gzip_image this(3) img this(4-6) example_frame_ok order_refl]
  obtain d' where d': "copy_raw 4096 (ideal_flash 0x4000) 0x1000 0x2000 21 False (replicate 32768 0) (example_frame ?w) = Some (0, d')"
    "world (src_env d') = (\<lambda>a. if unat (0x2000 :: u32) \<le> a \<and>
        a < unat (0x2000 :: u32) + 4096 * ((length [97 :: u8] + 4095) div 4096)
      then padded [97] (a - unat (0x2000 :: u32)) else world (src_env (example_frame ?w)) a)" by blast
  have "world (src_env d') (0x2000 + i) = padded [97] i" if "i < 4096" for i
    unfolding d'(2) using that by simp
  from this [of 0] this [of 1] have "world (src_env d') 0x2000 = 97" "world (src_env d') 0x2001 = 0xff"
    by (simp_all add: padded_def)
  with d'(1) show ?thesis by blast
qed

end
