(* ===== verification/Dhcps_Data.thy ===== *)
theory Dhcps_Data
  imports Prelude
begin

text \<open>
  The DHCP server of the soft access point, tools/sdk/lwip2/builder/glue-lwip/esp-dhcpserver.c and
  lwip/apps-esp/dhcpserver.h: its constants, types and globals, and the two routines on its list of
  leases.  An IPv4 address is a \<open>u32\<close> holding the four octets in network order as a little-endian
  machine sees them, so that the first octet is the low byte.

  The linked list plist is the list of its nodes' pools in order; a pointer to a node is the node's
  position, which is why the routines that take a pointer take a position here.  os_zalloc is taken to
  succeed where the code does not test its result.
\<close>

section \<open>Constants\<close>

definition DHCPS_LEASE_TIME_DEF :: u32 where "DHCPS_LEASE_TIME_DEF = 120"
definition DHCPS_MAX_LEASE :: u32 where "DHCPS_MAX_LEASE = 0x64"
definition BOOTP_BROADCAST :: u16 where "BOOTP_BROADCAST = 0x8000"
definition DHCP_REPLY :: u8 where "DHCP_REPLY = 2"
definition DHCP_HTYPE_ETHERNET :: u8 where "DHCP_HTYPE_ETHERNET = 1"
definition DHCPDISCOVER :: nat where "DHCPDISCOVER = 1"
definition DHCPOFFER :: u8 where "DHCPOFFER = 2"
definition DHCPREQUEST :: nat where "DHCPREQUEST = 3"
definition DHCPDECLINE :: nat where "DHCPDECLINE = 4"
definition DHCPACK :: u8 where "DHCPACK = 5"
definition DHCPNAK :: u8 where "DHCPNAK = 6"
definition DHCPRELEASE :: nat where "DHCPRELEASE = 7"

definition DHCP_OPTION_SUBNET_MASK :: u8 where "DHCP_OPTION_SUBNET_MASK = 1"
definition DHCP_OPTION_ROUTER :: u8 where "DHCP_OPTION_ROUTER = 3"
definition DHCP_OPTION_DNS_SERVER :: u8 where "DHCP_OPTION_DNS_SERVER = 6"
definition DHCP_OPTION_REQ_IPADDR :: u8 where "DHCP_OPTION_REQ_IPADDR = 50"
definition DHCP_OPTION_LEASE_TIME :: u8 where "DHCP_OPTION_LEASE_TIME = 51"
definition DHCP_OPTION_MSG_TYPE :: u8 where "DHCP_OPTION_MSG_TYPE = 53"
definition DHCP_OPTION_SERVER_ID :: u8 where "DHCP_OPTION_SERVER_ID = 54"
definition DHCP_OPTION_INTERFACE_MTU :: u8 where "DHCP_OPTION_INTERFACE_MTU = 26"
definition DHCP_OPTION_PERFORM_ROUTER_DISCOVERY :: u8 where "DHCP_OPTION_PERFORM_ROUTER_DISCOVERY = 31"
definition DHCP_OPTION_BROADCAST_ADDRESS :: u8 where "DHCP_OPTION_BROADCAST_ADDRESS = 28"
definition DHCP_OPTION_END :: u8 where "DHCP_OPTION_END = 255"
definition MAX_STATION_NUM :: u8 where "MAX_STATION_NUM = 8"

lemmas dhcp_options = DHCP_OPTION_SUBNET_MASK_def DHCP_OPTION_ROUTER_def DHCP_OPTION_DNS_SERVER_def
  DHCP_OPTION_REQ_IPADDR_def DHCP_OPTION_LEASE_TIME_def DHCP_OPTION_MSG_TYPE_def DHCP_OPTION_SERVER_ID_def
  DHCP_OPTION_INTERFACE_MTU_def DHCP_OPTION_PERFORM_ROUTER_DISCOVERY_def DHCP_OPTION_BROADCAST_ADDRESS_def
  DHCP_OPTION_END_def
lemmas dhcp_types = DHCPDISCOVER_def DHCPOFFER_def DHCPREQUEST_def DHCPDECLINE_def DHCPACK_def DHCPNAK_def
  DHCPRELEASE_def

text \<open>The server's verdict on a message; 0, which parse_msg returns for a wrong cookie, is none of them.\<close>

definition DHCPS_STATE_OFFER :: nat where "DHCPS_STATE_OFFER = 1"
definition DHCPS_STATE_ACK :: nat where "DHCPS_STATE_ACK = 3"
definition DHCPS_STATE_NAK :: nat where "DHCPS_STATE_NAK = 4"
definition DHCPS_STATE_IDLE :: nat where "DHCPS_STATE_IDLE = 5"
definition DHCPS_STATE_RELEASE :: nat where "DHCPS_STATE_RELEASE = 6"

lemmas dhcps_states = DHCPS_STATE_OFFER_def DHCPS_STATE_ACK_def DHCPS_STATE_NAK_def DHCPS_STATE_IDLE_def
  DHCPS_STATE_RELEASE_def

section \<open>Types and globals\<close>

datatype dhcps_type = DHCPS_TYPE_DYNAMIC | DHCPS_TYPE_STATIC
datatype dhcps_state = DHCPS_STATE_ONLINE | DHCPS_STATE_OFFLINE

record dhcps_pool =
  ip :: u32
  mac :: "u8 list"
  lease_timer :: u32
  pool_type :: dhcps_type
  pool_state :: dhcps_state

record dhcps_lease =
  enable :: bool
  start_ip :: u32
  end_ip :: u32

record dhcps =
  broadcast_dhcps :: u32
  server_address :: u32
  client_address :: u32
  dns_address :: u32
  lease :: dhcps_lease
  plist :: "dhcps_pool list"
  offer :: u8
  renew :: bool
  dhcps_lease_time :: u32

text \<open>The globals as the program starts.\<close>

definition dhcps_init :: dhcps where
  "dhcps_init = \<lparr>broadcast_dhcps = 0, server_address = 0, client_address = 0, dns_address = 0,
     lease = \<lparr>enable = False, start_ip = 0, end_ip = 0\<rparr>, plist = [], offer = 0xff, renew = False,
     dhcps_lease_time = DHCPS_LEASE_TIME_DEF\<rparr>"

text \<open>What the server does to the outside: a datagram for the broadcast address, the SDK's table of stations.\<close>

datatype effect = Send u32 "u8 list" | Station_Info "u8 list" u32

text \<open>htonl and ntohl: reverse the bytes.\<close>

definition htonl :: "u32 \<Rightarrow> u32" where
  "htonl w = (let n = unat w in of_nat (n div 16777216 + 256 * (n div 65536 mod 256 + 256 * (n div 256 mod 256 +
     256 * (n mod 256)))))"

text \<open>The address after \<open>a\<close>: \<open>htonl((ntohl(a) + 1))\<close>.\<close>

definition next_ip :: "u32 \<Rightarrow> u32" where
  "next_ip a = htonl (htonl a + 1)"

lemma byte_split: "x < 256 \<Longrightarrow> (x + 256 * k) mod 256 = x" "x < 256 \<Longrightarrow> (x + 256 * k) div 256 = k"
  for x k :: nat
  by simp_all

lemma u32_bytes:
  obtains a b c d where "unat (w :: u32) = a + 256 * (b + 256 * (c + 256 * d))" "a < 256" "b < 256" "c < 256" "d < 256"
proof -
  let ?n = "unat w"
  have "?n = ?n mod 256 + 256 * (?n div 256 mod 256 + 256 * (?n div 256 div 256 mod 256 + 256 * (?n div 256 div 256 div 256)))"
    by (metis mod_mult_div_eq)
  moreover have "?n div 256 div 256 div 256 < 256" by (simp add: less_mult_imp_div_less flip: div_mult2_eq)
  moreover have "?n mod 256 < 256" "?n div 256 mod 256 < 256" "?n div 256 div 256 mod 256 < 256" by simp_all
  ultimately show ?thesis using that by blast
qed

lemma unat_htonl:
  assumes "unat w = a + 256 * (b + 256 * (c + 256 * d))" "a < 256" "b < 256" "c < 256" "d < 256"
  shows "unat (htonl w) = d + 256 * (c + 256 * (b + 256 * a))"
proof -
  have e: "unat w mod 256 = a" "unat w div 256 mod 256 = b" "unat w div 65536 mod 256 = c" "unat w div 16777216 = d"
  proof -
    have x: "unat w div 256 = b + 256 * (c + 256 * d)" unfolding assms(1) by (rule byte_split(2) [OF assms(2)])
    have y: "unat w div 256 div 256 = c + 256 * d" unfolding x by (rule byte_split(2) [OF assms(3)])
    have z: "unat w div 256 div 256 div 256 = d" unfolding y by (rule byte_split(2) [OF assms(4)])
    have s: "unat w div 65536 = unat w div 256 div 256" "unat w div 16777216 = unat w div 256 div 256 div 256"
      by (simp_all flip: div_mult2_eq)
    show "unat w mod 256 = a" unfolding assms(1) by (rule byte_split(1) [OF assms(2)])
    show "unat w div 256 mod 256 = b" unfolding x by (rule byte_split(1) [OF assms(3)])
    show "unat w div 65536 mod 256 = c" unfolding s y by (rule byte_split(1) [OF assms(4)])
    show "unat w div 16777216 = d" unfolding s z by (rule refl)
  qed
  have "d + 256 * (c + 256 * (b + 256 * a)) < 4294967296" using assms(2-5) by simp
  then have "(d + 256 * (c + 256 * (b + 256 * a))) mod 2 ^ LENGTH(32) = d + 256 * (c + 256 * (b + 256 * a))" by simp
  then show ?thesis unfolding htonl_def Let_def e unat_of_nat take_bit_eq_mod .
qed

lemma htonl_htonl [simp]: "htonl (htonl w) = w"
proof -
  obtain a b c d where w: "unat w = a + 256 * (b + 256 * (c + 256 * d))" "a < 256" "b < 256" "c < 256" "d < 256"
    by (rule u32_bytes)
  have "unat (htonl (htonl w)) = unat w" using unat_htonl [OF unat_htonl [OF w] w(5,4,3,2)] w(1) by simp
  then show ?thesis by (simp add: word_unat_eq_iff)
qed

lemma unat_next_ip:
  assumes "unat w div 16777216 < 255"
  shows "unat (next_ip w) = unat w + 16777216"
proof -
  obtain a b c d where w: "unat w = a + 256 * (b + 256 * (c + 256 * d))" "a < 256" "b < 256" "c < 256" "d < 256"
    by (rule u32_bytes)
  have "a + 256 * b + 65536 * c < 16777216" using w by simp
  moreover have "unat w = (a + 256 * b + 65536 * c) + d * 16777216" using w(1) by simp
  ultimately have d: "d < 255" using assms by simp
  have h: "unat (htonl w) = d + 256 * (c + 256 * (b + 256 * a))" by (rule unat_htonl [OF w])
  have "unat (htonl w + 1) = (d + 1) + 256 * (c + 256 * (b + 256 * a))" using h d w by (simp add: unat_word_ariths)
  from unat_htonl [OF this _ w(4,3,2)] d show ?thesis by (simp add: next_ip_def w(1))
qed

section \<open>The list of leases\<close>

text \<open>\<open>while (plist->pnext != NULL)\<close> of node_insert_to_list, at the node before \<open>ps\<close>.\<close>

fun insert_after :: "dhcps_pool \<Rightarrow> dhcps_pool list \<Rightarrow> dhcps_pool list" where
  "insert_after n [] = [n]"
| "insert_after n (p # ps) = (if ip n < ip p then n # p # ps else p # insert_after n ps)"

definition node_insert_to_list :: "dhcps_pool list \<Rightarrow> dhcps_pool \<Rightarrow> dhcps_pool list" where
  "node_insert_to_list ps n =
     (case ps of
        [] \<Rightarrow> [n]
      | p # rest \<Rightarrow> if ip n < ip p then n # p # rest else p # insert_after n rest)"

fun node_remove_from_list :: "dhcps_pool list \<Rightarrow> nat \<Rightarrow> dhcps_pool list" where
  "node_remove_from_list [] i = []"
| "node_remove_from_list (p # ps) 0 = ps"
| "node_remove_from_list (p # ps) (Suc i) = p # node_remove_from_list ps i"

text \<open>The leases are in strict order of address, so no two have the same one, and no station has two.\<close>

definition leases_ok :: "dhcps_pool list \<Rightarrow> bool" where
  "leases_ok ps \<longleftrightarrow> sorted_wrt (<) (map ip ps) \<and> distinct (map mac ps)"

lemma node_insert_eq: "node_insert_to_list ps n = insert_after n ps"
  by (cases ps) (simp_all add: node_insert_to_list_def)

lemma set_insert_after [simp]: "set (insert_after n ps) = insert n (set ps)"
  by (induction ps) auto

lemma mset_insert_after_mac: "distinct (map mac (insert_after n ps)) \<longleftrightarrow> mac n \<notin> mac ` set ps \<and> distinct (map mac ps)"
  by (induction ps) auto

lemma sorted_insert_after:
  "sorted_wrt (<) (map ip ps) \<Longrightarrow> ip n \<notin> ip ` set ps \<Longrightarrow> sorted_wrt (<) (map ip (insert_after n ps))"
  by (induction ps) (auto simp: not_less order.strict_iff_order)

lemma insert_leases_ok:
  assumes "leases_ok ps" and "ip n \<notin> ip ` set ps" and "mac n \<notin> mac ` set ps"
  shows "leases_ok (node_insert_to_list ps n)"
  using assms by (simp add: leases_ok_def node_insert_eq sorted_insert_after mset_insert_after_mac)

lemma remove_eq: "node_remove_from_list ps i = take i ps @ drop (Suc i) ps"
  by (induction ps i rule: node_remove_from_list.induct) auto

lemma set_remove_subset: "set (node_remove_from_list ps i) \<subseteq> set ps"
  by (auto simp: remove_eq dest: in_set_takeD in_set_dropD)

lemma remove_leases_ok: "leases_ok ps \<Longrightarrow> leases_ok (node_remove_from_list ps i)"
proof (induction ps i rule: node_remove_from_list.induct)
  case (3 p ps i)
  then show ?case using set_remove_subset [of ps i] by (auto simp: leases_ok_def)
qed (auto simp: leases_ok_def)

lemma set_remove_distinct:
  "leases_ok ps \<Longrightarrow> i < length ps \<Longrightarrow> set (node_remove_from_list ps i) = set ps - {ps ! i}"
proof (induction ps i rule: node_remove_from_list.induct)
  case (2 p ps)
  then show ?case by (auto simp: leases_ok_def)
next
  case (3 p ps i)
  then have "p \<noteq> ps ! i" by (auto simp: leases_ok_def)
  then show ?case using 3 by (auto simp: leases_ok_def)
qed simp

end
