(* ===== verification/Dhcps_Lease.thy ===== *)
theory Dhcps_Lease
  imports Dhcps_Data
begin

text \<open>
  The lease management of esp-dhcpserver.c: dhcps_set_dns, wifi_softap_add_dhcps_lease,
  wifi_softap_init_dhcps_lease, dhcps_start, dhcps_stop, wifi_softap_set_dhcps_lease,
  wifi_softap_get_dhcps_lease, kill_oldest_dhcps_pool, dhcps_coarse_tmr, the offer option and lease time
  setters, wifi_softap_dhcps_client_leave, wifi_softap_dhcps_client_update.  What the closed SDK answers
  (wifi_get_opmode, wifi_softap_dhcps_status, wifi_get_ip_info) is the record \<open>sdk\<close>.  A null pointer is
  \<open>None\<close> in an argument; a result \<open>None\<close> is a null pointer dereferenced.
\<close>

section \<open>Configuration\<close>

datatype opmode = NULL_MODE | STATION_MODE | SOFTAP_MODE | STATIONAP_MODE

record sdk =
  wifi_opmode :: opmode
  dhcp_started :: bool
  ap_ip :: u32
  ap_netmask :: u32
  ap_gw :: u32

definition dhcps_set_dns :: "u32 option \<Rightarrow> dhcps \<Rightarrow> dhcps" where
  "dhcps_set_dns dns s = (case dns of None \<Rightarrow> s | Some a \<Rightarrow> if a \<noteq> 0 then s\<lparr>dns_address := a\<rparr> else s)"

definition wifi_softap_init_dhcps_lease :: "u32 \<Rightarrow> dhcps_lease \<Rightarrow> dhcps_lease" where
  "wifi_softap_init_dhcps_lease addr l =
     (let l = (if enable l then
                 (let softap_ip = htonl addr;
                      start = htonl (start_ip l);
                      stop = htonl (end_ip l)
                  in if start \<le> softap_ip \<and> softap_ip \<le> stop then l\<lparr>enable := False\<rparr>
                     else (let softap_ip = shr softap_ip 8 in
                           if (shr start 8 \<noteq> softap_ip \<or> shr stop 8 \<noteq> softap_ip) \<or> DHCPS_MAX_LEASE < stop - start
                           then l\<lparr>enable := False\<rparr> else l))
               else l)
      in if \<not> enable l then
           (let softap_ip = htonl addr AND 0xFFFFFF00;
                local_ip = htonl addr AND 0xFF;
                local_ip = (if 0x80 \<le> local_ip then local_ip - DHCPS_MAX_LEASE else local_ip + 1)
            in \<lparr>enable = False, start_ip = htonl (softap_ip OR local_ip),
                end_ip = htonl (softap_ip OR (local_ip + DHCPS_MAX_LEASE - 1))\<rparr>)
         else l)"

text \<open>The interface's own address and mask give the broadcast address; the calls into lwIP (udp_new,
  udp_bind, udp_recv, wifi_set_ip_info) are left out.\<close>

definition dhcps_start :: "u32 \<Rightarrow> u32 \<Rightarrow> u32 option \<Rightarrow> dhcps \<Rightarrow> dhcps option" where
  "dhcps_start netif_ip netif_mask info s =
     (let s = s\<lparr>broadcast_dhcps := netif_ip AND netif_mask OR NOT netif_mask\<rparr> in
      case info of
        None \<Rightarrow> None
      | Some addr \<Rightarrow> Some (s\<lparr>server_address := addr, lease := wifi_softap_init_dhcps_lease addr (lease s)\<rparr>))"

text \<open>\<open>while (pnode != NULL)\<close>: each node is the head of the list when it is removed.\<close>

fun dhcps_stop_loop :: "dhcps_pool list \<Rightarrow> effect list" where
  "dhcps_stop_loop [] = []"
| "dhcps_stop_loop (p # ps) = Station_Info (mac p) 0 # dhcps_stop_loop (node_remove_from_list (p # ps) 0)"

definition dhcps_stop :: "dhcps \<Rightarrow> effect list \<times> dhcps" where
  "dhcps_stop s = (dhcps_stop_loop (plist s), s\<lparr>plist := []\<rparr>)"

definition wifi_softap_set_dhcps_lease :: "sdk \<Rightarrow> dhcps_lease option \<Rightarrow> dhcps \<Rightarrow> bool \<times> dhcps" where
  "wifi_softap_set_dhcps_lease k please s =
     (if wifi_opmode k = STATION_MODE \<or> wifi_opmode k = NULL_MODE then (False, s)
      else case (if dhcp_started k then None else please) of
        None \<Rightarrow> (False, s)
      | Some l \<Rightarrow>
          if enable l then
            (let softap_ip = htonl (ap_ip k);
                 start = htonl (start_ip l);
                 stop = htonl (end_ip l)
             in if start \<le> softap_ip \<and> softap_ip \<le> stop then (False, s)
                else (let softap_ip = shr softap_ip 8 in
                      if shr start 8 \<noteq> softap_ip \<or> shr stop 8 \<noteq> softap_ip then (False, s)
                      else if DHCPS_MAX_LEASE < stop - start then (False, s)
                      else (True, s\<lparr>lease := \<lparr>enable = enable l, start_ip = start_ip l, end_ip = end_ip l\<rparr>\<rparr>)))
          else (True, s\<lparr>lease := (lease s)\<lparr>enable := enable l\<rparr>\<rparr>))"

definition wifi_softap_get_dhcps_lease :: "sdk \<Rightarrow> dhcps_lease option \<Rightarrow> dhcps \<Rightarrow> bool \<times> dhcps_lease option" where
  "wifi_softap_get_dhcps_lease k please s =
     (if wifi_opmode k = STATION_MODE \<or> wifi_opmode k = NULL_MODE then (False, please)
      else case please of
        None \<Rightarrow> (False, None)
      | Some l \<Rightarrow>
          if \<not> enable (lease s) \<and> \<not> dhcp_started k then (False, please)
          else (True, Some (l\<lparr>start_ip := start_ip (lease s), end_ip := end_ip (lease s)\<rparr>)))"

text \<open>OFFER_START, OFFER_ROUTER and OFFER_END are 0, 1 and 2.\<close>

definition wifi_softap_set_dhcps_offer_option :: "sdk \<Rightarrow> u8 \<Rightarrow> u8 option \<Rightarrow> dhcps \<Rightarrow> (bool \<times> dhcps) option" where
  "wifi_softap_set_dhcps_offer_option k level optarg s =
     (if optarg = None \<and> \<not> dhcp_started k then Some (False, s)
      else if level \<le> 0 \<or> 2 \<le> level then Some (False, s)
      else if level = 1 then (case optarg of None \<Rightarrow> None | Some v \<Rightarrow> Some (True, s\<lparr>offer := v AND 0x01\<rparr>))
      else Some (False, s))"

definition wifi_softap_set_dhcps_lease_time :: "sdk \<Rightarrow> u32 \<Rightarrow> dhcps \<Rightarrow> bool \<times> dhcps" where
  "wifi_softap_set_dhcps_lease_time k minute s =
     (if wifi_opmode k = STATION_MODE \<or> wifi_opmode k = NULL_MODE then (False, s)
      else if dhcp_started k then (False, s)
      else if minute = 0 then (False, s)
      else (True, s\<lparr>dhcps_lease_time := minute\<rparr>))"

definition wifi_softap_reset_dhcps_lease_time :: "sdk \<Rightarrow> dhcps \<Rightarrow> bool \<times> dhcps" where
  "wifi_softap_reset_dhcps_lease_time k s =
     (if wifi_opmode k = STATION_MODE \<or> wifi_opmode k = NULL_MODE then (False, s)
      else if dhcp_started k then (False, s)
      else (True, s\<lparr>dhcps_lease_time := DHCPS_LEASE_TIME_DEF\<rparr>))"

definition wifi_softap_get_dhcps_lease_time :: "dhcps \<Rightarrow> u32" where
  "wifi_softap_get_dhcps_lease_time s = dhcps_lease_time s"

section \<open>Leases\<close>

text \<open>The search loop: \<open>None\<close> when the station is found.\<close>

fun add_lease_scan :: "u8 list \<Rightarrow> u32 \<Rightarrow> dhcps_pool list \<Rightarrow> u32 option" where
  "add_lease_scan macaddr start [] = Some start"
| "add_lease_scan macaddr start (p # ps) =
     (if mac p = take 6 macaddr then None else add_lease_scan macaddr (next_ip start) ps)"

definition wifi_softap_add_dhcps_lease :: "u8 list \<Rightarrow> dhcps \<Rightarrow> bool \<times> dhcps" where
  "wifi_softap_add_dhcps_lease macaddr s =
     (case add_lease_scan macaddr (start_ip (lease s)) (plist s) of
        None \<Rightarrow> (False, s)
      | Some start \<Rightarrow>
          if end_ip (lease s) < start then (False, s)
          else (True, s\<lparr>plist := node_insert_to_list (plist s)
                  \<lparr>ip = start, mac = take 6 macaddr, lease_timer = dhcps_lease_time s,
                   pool_type = DHCPS_TYPE_STATIC, pool_state = DHCPS_STATE_ONLINE\<rparr>\<rparr>))"

text \<open>The search of kill_oldest_dhcps_pool from the second node on: the position of the first node with
  the least timer, \<open>m\<close> being the least so far, at position \<open>best\<close>.\<close>

fun oldest :: "nat \<Rightarrow> nat \<Rightarrow> u32 \<Rightarrow> dhcps_pool list \<Rightarrow> nat" where
  "oldest i best m [] = best"
| "oldest i best m (p # ps) =
     (if lease_timer p < m then oldest (i + 1) i (lease_timer p) ps else oldest (i + 1) best m ps)"

text \<open>\<open>pdhcps_pool\<close> is the last node after the loop, so that its state is set, whichever node goes.\<close>

definition kill_oldest_dhcps_pool :: "dhcps_pool list \<Rightarrow> dhcps_pool list option" where
  "kill_oldest_dhcps_pool ps =
     (case ps of
        [] \<Rightarrow> None
      | first # rest \<Rightarrow>
          (case rest of
             [] \<Rightarrow> None
           | p # _ \<Rightarrow>
               (let minp = oldest 0 0 (lease_timer p) rest;
                    rest = rest[length rest - 1 := (last rest)\<lparr>pool_state := DHCPS_STATE_OFFLINE\<rparr>]
                in Some (first # node_remove_from_list rest minp))))"

text \<open>The loop of dhcps_coarse_tmr over the nodes from here on: what is left of them, and their number.\<close>

fun coarse_loop :: "dhcps_pool list \<Rightarrow> dhcps_pool list \<times> u8" where
  "coarse_loop [] = ([], 0)"
| "coarse_loop (p # ps) =
     (let p = (if pool_type p = DHCPS_TYPE_DYNAMIC then p\<lparr>lease_timer := lease_timer p - 1\<rparr> else p) in
      if lease_timer p = 0 then coarse_loop (node_remove_from_list (p # ps) 0)
      else (case coarse_loop ps of (ps, n) \<Rightarrow> (p # ps, n + 1)))"

definition dhcps_coarse_tmr :: "dhcps \<Rightarrow> dhcps option" where
  "dhcps_coarse_tmr s =
     (case coarse_loop (plist s) of (ps, n) \<Rightarrow>
        if MAX_STATION_NUM \<le> n
        then do { ps \<leftarrow> kill_oldest_dhcps_pool ps; Some (s\<lparr>plist := ps\<rparr>) }
        else Some (s\<lparr>plist := ps\<rparr>))"

text \<open>The position of the first node with this station and address.\<close>

fun lease_index :: "u8 list \<Rightarrow> u32 \<Rightarrow> nat \<Rightarrow> dhcps_pool list \<Rightarrow> nat option" where
  "lease_index bssid a i [] = None"
| "lease_index bssid a i (p # ps) =
     (if mac p = take 6 bssid \<and> ip p = a then Some i else lease_index bssid a (i + 1) ps)"

definition wifi_softap_dhcps_client_leave :: "u8 list option \<Rightarrow> u32 option \<Rightarrow> bool \<Rightarrow> dhcps \<Rightarrow> effect list \<times> dhcps" where
  "wifi_softap_dhcps_client_leave bssid addr force s =
     (case (bssid, addr) of
        (Some b, Some a) \<Rightarrow>
          (case lease_index b a 0 (plist s) of
             None \<Rightarrow> ([], s)
           | Some i \<Rightarrow>
               (let ps = (if pool_type (plist s ! i) = DHCPS_TYPE_STATIC \<or> force
                          then node_remove_from_list (plist s) i
                          else (plist s)[i := (plist s ! i)\<lparr>pool_state := DHCPS_STATE_OFFLINE\<rparr>])
                in ([Station_Info (take 6 b) 0], s\<lparr>plist := ps\<rparr>)))
      | _ \<Rightarrow> ([], s))"

text \<open>
  The loop of wifi_softap_dhcps_client_update from position \<open>i\<close> on: \<open>pmac_node\<close>, \<open>pip_node\<close>, \<open>flag\<close>, \<open>start_ip\<close>.
\<close>

fun update_scan :: "u8 list \<Rightarrow> u32 option \<Rightarrow> nat \<Rightarrow> dhcps_pool list \<Rightarrow> nat option \<times> nat option \<times> bool \<times> u32 \<Rightarrow>
    nat option \<times> nat option \<times> bool \<times> u32" where
  "update_scan b a i [] r = r"
| "update_scan b a i (p # ps) (pmac, pip, flag, start) =
     (let pmac = (if mac p = take 6 b then Some i else pmac) in
      if mac p = take 6 b \<and> a = None then (pmac, pip, True, start)
      else (case a of
              Some addr \<Rightarrow> update_scan b a (i + 1) ps (pmac, if ip p = addr then Some i else pip, flag, start)
            | None \<Rightarrow>
                if \<not> flag then
                  (if ip p \<noteq> start then update_scan b a (i + 1) ps (pmac, pip, True, start)
                   else update_scan b a (i + 1) ps (pmac, pip, flag, next_ip start))
                else update_scan b a (i + 1) ps (pmac, pip, flag, start)))"

definition renewed :: "dhcps \<Rightarrow> dhcps_type \<Rightarrow> dhcps_pool \<Rightarrow> dhcps_pool" where
  "renewed s t p = p\<lparr>lease_timer := dhcps_lease_time s, pool_type := t, pool_state := DHCPS_STATE_ONLINE\<rparr>"

text \<open>
  The rest, after the loop.  Where the code first deletes the node of the station and then changes the
  other node, at another position, the model changes first: the two nodes are distinct.
\<close>

definition update_leases :: "u8 list \<Rightarrow> u32 option \<Rightarrow> dhcps_type \<Rightarrow> nat option \<times> nat option \<times> bool \<times> u32 \<Rightarrow> dhcps \<Rightarrow>
    u32 \<times> dhcps" where
  "update_leases b a t r s =
     (case r of (pmac, pip, flag, start) \<Rightarrow>
      let addr = (case a of Some x \<Rightarrow> Some x | None \<Rightarrow> if flag then Some start else None) in
      case pmac of
        Some m \<Rightarrow>
          (case pip of
             Some j \<Rightarrow>
               (let p = plist s ! j in
                if j \<noteq> m then
                  (if pool_state p \<noteq> DHCPS_STATE_OFFLINE then (0, s)
                   else (ip p, s\<lparr>plist := node_remove_from_list ((plist s)[j := renewed s t (p\<lparr>mac := take 6 b\<rparr>)]) m\<rparr>))
                else (ip p, s\<lparr>renew := True, plist := (plist s)[j := renewed s DHCPS_TYPE_DYNAMIC p]\<rparr>))
           | None \<Rightarrow>
               (case addr of
                  None \<Rightarrow> (0, s)
                | Some x \<Rightarrow>
                    (x, s\<lparr>plist := node_insert_to_list (node_remove_from_list (plist s) m)
                           (renewed s t ((plist s ! m)\<lparr>ip := x\<rparr>))\<rparr>)))
      | None \<Rightarrow>
          (case pip of
             Some j \<Rightarrow>
               (let p = plist s ! j in
                if pool_state p \<noteq> DHCPS_STATE_OFFLINE then (0, s)
                else (ip p, s\<lparr>plist := (plist s)[j := renewed s t (p\<lparr>mac := take 6 b\<rparr>)]\<rparr>))
           | None \<Rightarrow>
               (case addr of
                  None \<Rightarrow> (0, s)
                | Some x \<Rightarrow>
                    if end_ip (lease s) < x then (0, s)
                    else (x, s\<lparr>plist := node_insert_to_list (plist s)
                           \<lparr>ip = x, mac = take 6 b, lease_timer = dhcps_lease_time s, pool_type = t,
                            pool_state = DHCPS_STATE_ONLINE\<rparr>\<rparr>))))"

definition wifi_softap_dhcps_client_update :: "u8 list option \<Rightarrow> u32 option \<Rightarrow> dhcps \<Rightarrow> u32 \<times> dhcps" where
  "wifi_softap_dhcps_client_update bssid addr s =
     (case bssid of
        None \<Rightarrow> (0, s)
      | Some b \<Rightarrow>
          if addr = Some 0xffffffff then (0, s)
          else
            (let a = (if addr = Some 0 then None else addr);
                 t = (if a = None then DHCPS_TYPE_DYNAMIC else DHCPS_TYPE_STATIC);
                 s = s\<lparr>renew := False\<rparr>;
                 (pmac, pip, flag, start) = update_scan b a 0 (plist s) (None, None, False, start_ip (lease s))
             in if a = None \<and> \<not> flag then
                  (if plist s = [] then
                     (if start \<le> end_ip (lease s) then update_leases b a t (pmac, pip, True, start) s else (0, s))
                   else (if end_ip (lease s) < start then (0, s)
                         else update_leases b a t (pmac, pip, True, start) s))
                else update_leases b a t (pmac, pip, flag, start) s))"

end
