(* ===== verification/Dhcps_Pool.thy ===== *)
theory Dhcps_Pool
  imports Dhcps_Lease
begin

text \<open>
  What the lease management of Dhcps_Lease keeps: the pool's shape, and that the leases are in order of
  address, inside the pool, one per address and one per station, over every interleaving of requests,
  releases and timer ticks.  Then what lies outside: requests for addresses that are not in the pool, and
  static leases.
\<close>

section \<open>The pool\<close>

text \<open>The addresses of the pool differ in their last octet only, which stays below 255.\<close>

definition pool_ok :: "dhcps_lease \<Rightarrow> bool" where
  "pool_ok l \<longleftrightarrow> unat (start_ip l) mod 16777216 = unat (end_ip l) mod 16777216 \<and> start_ip l \<le> end_ip l \<and>
     unat (end_ip l) div 16777216 < 255"

definition in_pool :: "dhcps_lease \<Rightarrow> u32 \<Rightarrow> bool" where
  "in_pool l a \<longleftrightarrow> unat a mod 16777216 = unat (start_ip l) mod 16777216 \<and> start_ip l \<le> a \<and> a \<le> end_ip l"

definition dhcps_ok :: "dhcps \<Rightarrow> bool" where
  "dhcps_ok s \<longleftrightarrow> pool_ok (lease s) \<and> leases_ok (plist s) \<and> (\<forall>p \<in> set (plist s). in_pool (lease s) (ip p))"

lemma next_ip_step:
  assumes "unat a div 16777216 < 255" and "unat q mod 16777216 = unat a mod 16777216" and "a < q"
  shows "unat (next_ip a) mod 16777216 = unat a mod 16777216" and "next_ip a \<le> q" and "a < next_ip a"
proof -
  note n = unat_next_ip [OF assms(1)]
  show "unat (next_ip a) mod 16777216 = unat a mod 16777216" by (simp add: n)
  have "unat a < unat q" using assms(3) by (simp add: word_less_nat_alt)
  then have "unat a div 16777216 < unat q div 16777216"
    using assms(2) by (metis div_mult_mod_eq div_le_mono less_or_eq_imp_le order_le_imp_less_or_eq less_not_refl)
  then have "unat a + 16777216 \<le> unat q"
    using assms(2) div_mult_mod_eq [of "unat a" 16777216] div_mult_mod_eq [of "unat q" 16777216] by linarith
  then show "next_ip a \<le> q" by (simp add: word_le_nat_alt n)
  show "a < next_ip a" by (simp add: word_less_nat_alt n)
qed

lemma scan_dynamic:
  assumes "sorted_wrt (<) (map ip ps)"
    and "\<forall>p \<in> set ps. unat (ip p) mod 16777216 = unat start mod 16777216 \<and> unat (ip p) div 16777216 < 255"
    and "\<forall>p \<in> set ps. (if flag then start < ip p else start \<le> ip p)"
    and "update_scan b None i ps (None, None, flag, start) = (pm, pip, fl, st)"
  shows "pip = None \<and> unat st mod 16777216 = unat start mod 16777216 \<and> start \<le> st \<and> (flag \<longrightarrow> st = start \<and> fl) \<and>
    (case pm of
       None \<Rightarrow> take 6 b \<notin> mac ` set ps \<and> st \<notin> ip ` set ps
     | Some m \<Rightarrow> fl \<and> (\<exists>k < length ps. m = i + k \<and> mac (ps ! k) = take 6 b \<and> st \<le> ip (ps ! k) \<and>
         (\<forall>n < length ps. n \<noteq> k \<longrightarrow> ip (ps ! n) \<noteq> st)))"
  using assms
proof (induction ps arbitrary: i flag start)
  case (Cons p ps)
  have srt: "sorted_wrt (<) (map ip ps)" and lt: "\<forall>q \<in> set ps. ip p < ip q" using Cons.prems(1) by auto
  have le: "start \<le> ip p" using Cons.prems(3) by (auto split: if_splits)
  show ?case
  proof (cases "mac p = take 6 b")
    case True
    then have "pm = Some i" "pip = None" "fl" "st = start" using Cons.prems(4) by (auto simp: Let_def)
    moreover have "ip ((p # ps) ! n) \<noteq> start" if "n < length (p # ps)" "n \<noteq> 0" for n
      using that lt le by (cases n) (auto dest!: nth_mem)
    ultimately show ?thesis using True le by (auto intro!: exI [of _ 0])
  next
    case False
    obtain flag' start' where n: "update_scan b None (i + 1) ps (None, None, flag', start') = (pm, pip, fl, st)"
      and c: "flag' = flag \<and> start' = start \<and> flag \<or> flag' \<and> \<not> flag \<and> start' = start \<and> start < ip p \<or>
        \<not> flag' \<and> \<not> flag \<and> start' = next_ip start \<and> ip p = start"
    proof (cases "flag \<or> ip p \<noteq> start")
      case True
      show ?thesis
      proof (rule that)
        show "update_scan b None (i + 1) ps (None, None, True, start) = (pm, pip, fl, st)"
          using Cons.prems(4) False True by (cases flag) (simp_all add: Let_def)
        show "True = flag \<and> start = start \<and> flag \<or> True \<and> \<not> flag \<and> start = start \<and> start < ip p \<or>
            \<not> True \<and> \<not> flag \<and> start = next_ip start \<and> ip p = start"
          using True le by (cases flag) auto
      qed
    next
      case eq: False
      show ?thesis
      proof (rule that)
        show "update_scan b None (i + 1) ps (None, None, False, next_ip start) = (pm, pip, fl, st)"
          using Cons.prems(4) False eq by (simp add: Let_def)
      qed (use eq in simp)
    qed
    have s': "unat start' mod 16777216 = unat start mod 16777216" "start \<le> start'" "ip p \<noteq> start'"
      "\<forall>q \<in> set ps. (if flag' then start' < ip q else start' \<le> ip q)"
    proof -
      have "unat (next_ip start) mod 16777216 = unat start mod 16777216 \<and> start < next_ip start \<and>
          (\<forall>q \<in> set ps. next_ip start \<le> ip q)" if "ip p = start"
      proof -
        have d: "unat start div 16777216 < 255" using Cons.prems(2) that by auto
        have "unat (next_ip start) mod 16777216 = unat start mod 16777216" "start < next_ip start"
          by (simp_all add: unat_next_ip [OF d] word_less_nat_alt)
        then show ?thesis using next_ip_step(2) [OF d] Cons.prems(2) lt that by auto
      qed
      then show "unat start' mod 16777216 = unat start mod 16777216" "start \<le> start'" "ip p \<noteq> start'"
        "\<forall>q \<in> set ps. (if flag' then start' < ip q else start' \<le> ip q)"
        using c lt Cons.prems(3) le by (auto intro: less_imp_le order_less_trans order_le_less_trans)
    qed
    have "\<forall>q \<in> set ps. unat (ip q) mod 16777216 = unat start' mod 16777216 \<and> unat (ip q) div 16777216 < 255"
      using Cons.prems(2) s'(1) by auto
    from Cons.IH [OF srt this s'(4) n] have IH: "pip = None" "unat st mod 16777216 = unat start' mod 16777216"
      "start' \<le> st" "flag' \<longrightarrow> st = start' \<and> fl"
      "case pm of None \<Rightarrow> take 6 b \<notin> mac ` set ps \<and> st \<notin> ip ` set ps
       | Some m \<Rightarrow> fl \<and> (\<exists>k < length ps. m = i + 1 + k \<and> mac (ps ! k) = take 6 b \<and> st \<le> ip (ps ! k) \<and>
         (\<forall>n < length ps. n \<noteq> k \<longrightarrow> ip (ps ! n) \<noteq> st))"
      by blast+
    have ne: "ip p \<noteq> st" using c s'(3) IH(3,4) unat_next_ip [of start] Cons.prems(2)
      by (auto simp: word_le_nat_alt)
    have fl': "flag \<longrightarrow> st = start \<and> fl" using c IH(4) by auto
    show ?thesis
    proof (cases pm)
      case None
      then show ?thesis using IH s' ne fl' False by auto
    next
      case (Some m)
      then obtain k where k: "fl" "k < length ps" "m = i + 1 + k" "mac (ps ! k) = take 6 b" "st \<le> ip (ps ! k)"
          "\<forall>n < length ps. n \<noteq> k \<longrightarrow> ip (ps ! n) \<noteq> st" using IH(5) by auto
      have "ip ((p # ps) ! n) \<noteq> st" if "n < length (p # ps)" "n \<noteq> Suc k" for n
        using that ne k(6) by (cases n) auto
      then show ?thesis using IH(1-3) s'(1,2) fl' Some k by (auto intro!: exI [of _ "Suc k"])
    qed
  qed
qed simp

lemma scan_static:
  assumes "update_scan b (Some x) i ps (pm0, pip0, fl0, st0) = (pm, pip, fl, st)"
  shows "fl = fl0 \<and> (pm = pm0 \<and> take 6 b \<notin> mac ` set ps \<or> (\<exists>k < length ps. pm = Some (i + k) \<and> mac (ps ! k) = take 6 b)) \<and>
    (pip = pip0 \<and> x \<notin> ip ` set ps \<or> (\<exists>k < length ps. pip = Some (i + k) \<and> ip (ps ! k) = x))"
  using assms
proof (induction ps arbitrary: i pm0 pip0)
  case (Cons p ps)
  let ?pm = "if mac p = take 6 b then Some i else pm0" and ?pip = "if ip p = x then Some i else pip0"
  have "update_scan b (Some x) (i + 1) ps (?pm, ?pip, fl0, st0) = (pm, pip, fl, st)" using Cons.prems by (simp add: Let_def)
  from Cons.IH [OF this] have fl: "fl = fl0"
    and m: "pm = ?pm \<and> take 6 b \<notin> mac ` set ps \<or> (\<exists>k < length ps. pm = Some (i + 1 + k) \<and> mac (ps ! k) = take 6 b)"
    and j: "pip = ?pip \<and> x \<notin> ip ` set ps \<or> (\<exists>k < length ps. pip = Some (i + 1 + k) \<and> ip (ps ! k) = x)" by blast+
  have ex: "(\<exists>k < length (p # ps). Q (i + k) ((p # ps) ! k)) \<longleftrightarrow> Q i p \<or> (\<exists>k < length ps. Q (i + 1 + k) (ps ! k))" for Q
    by (auto simp: less_Suc_eq_0_disj)
  show ?case unfolding ex using fl m j by (auto split: if_splits)
qed simp

lemma distinct_remove_update:
  assumes "distinct xs" and "m < length xs" and "xs ! m = b" and "j \<noteq> m"
  shows "distinct (take m (xs[j := b]) @ drop (Suc m) (xs[j := b]))"
proof -
  let ?ys = "take m xs @ drop (Suc m) xs"
  have x: "xs = take m xs @ b # drop (Suc m) xs" using id_take_nth_drop [OF assms(2)] assms(3) by simp
  then have d: "distinct (take m xs @ b # drop (Suc m) xs)" using assms(1) by metis
  then have "distinct ?ys" "b \<notin> set ?ys" by auto
  then have u: "distinct (?ys[k := b])" for k by (intro distinct_list_update) auto
  show ?thesis
  proof (cases "j < m")
    case True
    then have "take m (xs[j := b]) @ drop (Suc m) (xs[j := b]) = ?ys[j := b]"
      using assms(2) by (simp add: take_update_swap list_update_append)
    then show ?thesis using u by simp
  next
    case False
    then have "Suc m \<le> j" using assms(4) by simp
    have "?ys[m + d := b] = take m xs @ (drop (Suc m) xs)[d := b]" for d
      using assms(2) by (simp add: list_update_append)
    with \<open>Suc m \<le> j\<close> have "take m (xs[j := b]) @ drop (Suc m) (xs[j := b]) = ?ys[m + (j - Suc m) := b]"
      using assms(2) by (simp only:) (simp add: drop_update_swap)
    then show ?thesis using u by simp
  qed
qed

lemma map_update_same [simp]: "i < length ps \<Longrightarrow> (map f ps)[i := f (ps ! i)] = map f ps"
  by (metis list_update_id map_update)

lemma map_remove:
  "map f (node_remove_from_list ps i) = take i (map f ps) @ drop (Suc i) (map f ps)"
  by (simp add: remove_eq take_map drop_map)

lemma dhcps_ok_sub:
  "dhcps_ok s \<Longrightarrow> leases_ok qs \<Longrightarrow> ip ` set qs \<subseteq> ip ` set (plist s) \<Longrightarrow> dhcps_ok (s\<lparr>plist := qs\<rparr>)"
  by (fastforce simp: dhcps_ok_def)

text \<open>What can happen to the leases: a node gets another station, a node is taken over by a station whose own node goes,
  a node moves to another address.\<close>

lemma change_station_ok:
  assumes "leases_ok ps" and "k < length ps" and "mac n \<notin> mac ` set ps \<or> mac n = mac (ps ! k)" and "ip n = ip (ps ! k)"
  shows "leases_ok (ps[k := n]) \<and> ip ` set (ps[k := n]) = ip ` set ps"
proof -
  have mi: "map ip (ps[k := n]) = map ip ps" using assms(2,4) by (simp add: map_update)
  have "distinct (map mac (ps[k := n]))"
    using assms(1-3) by (auto simp: map_update leases_ok_def intro!: distinct_list_update dest: in_set_takeD in_set_dropD)
  then show ?thesis using assms(1) mi by (metis leases_ok_def set_map)
qed

lemma take_over_ok:
  assumes "leases_ok ps" and "m < length ps" and "k < length ps" "k \<noteq> m" and "mac n = mac (ps ! m)" and "ip n = ip (ps ! k)"
  shows "leases_ok (node_remove_from_list (ps[k := n]) m) \<and> ip ` set (node_remove_from_list (ps[k := n]) m) \<subseteq> ip ` set ps \<and>
    n \<in> set (node_remove_from_list (ps[k := n]) m)"
proof (intro conjI)
  let ?qs = "node_remove_from_list (ps[k := n]) m"
  have mi: "map ip (ps[k := n]) = map ip ps" using assms(3,6) by (simp add: map_update)
  have "map ip ?qs = map ip (node_remove_from_list ps m)" by (simp only: map_remove mi)
  then have "sorted_wrt (<) (map ip ?qs)" using remove_leases_ok [OF assms(1), of m] by (simp add: leases_ok_def)
  moreover have "distinct (map mac ?qs)" unfolding map_remove map_update
    by (rule distinct_remove_update) (use assms in \<open>simp_all add: leases_ok_def\<close>)
  ultimately show "leases_ok ?qs" by (simp add: leases_ok_def)
  show "ip ` set ?qs \<subseteq> ip ` set ps" using set_remove_subset [of "ps[k := n]" m] mi by (metis image_mono set_map)
  show "n \<in> set ?qs"
  proof (cases "k < m")
    case True
    then have "n = take m (ps[k := n]) ! k" using assms(3) by simp
    moreover have "k < length (take m (ps[k := n]))" using True assms(3) by simp
    ultimately have "n \<in> set (take m (ps[k := n]))" by (metis nth_mem)
    then show ?thesis by (simp add: remove_eq)
  next
    case False
    then have "n = drop (Suc m) (ps[k := n]) ! (k - Suc m)" using assms(3,4) by simp
    moreover have "k - Suc m < length (drop (Suc m) (ps[k := n]))" using False assms(3,4) by simp
    ultimately have "n \<in> set (drop (Suc m) (ps[k := n]))" by (metis nth_mem)
    then show ?thesis by (simp add: remove_eq)
  qed
qed

lemma move_ok:
  assumes "leases_ok ps" and "m < length ps" and "mac n = mac (ps ! m)" and "\<forall>i < length ps. i \<noteq> m \<longrightarrow> ip (ps ! i) \<noteq> ip n"
  shows "leases_ok (node_insert_to_list (node_remove_from_list ps m) n)"
proof (rule insert_leases_ok)
  let ?qs = "node_remove_from_list ps m"
  have sq: "set ?qs = set ps - {ps ! m}" by (rule set_remove_distinct [OF assms(1,2)])
  show "leases_ok ?qs" by (rule remove_leases_ok [OF assms(1)])
  show "ip n \<notin> ip ` set ?qs" using assms(4) unfolding sq by (auto simp: in_set_conv_nth)
  show "mac n \<notin> mac ` set ?qs"
  proof
    assume "mac n \<in> mac ` set ?qs"
    then obtain q where "mac n = mac q" "q \<in> set ?qs" by (rule imageE)
    then have "q \<in> set ps" "q \<noteq> ps ! m" "mac q = mac (ps ! m)" using assms(3) by (simp_all add: sq)
    moreover have "inj_on mac (set ps)" using assms(1) by (simp add: leases_ok_def distinct_map)
    ultimately show False using assms(2) by (auto dest: inj_onD)
  qed
qed

text \<open>What an update promises: order and range are kept, and either nothing happens or the station has the address.\<close>

definition updated :: "u8 list \<Rightarrow> dhcps \<Rightarrow> u32 \<times> dhcps \<Rightarrow> bool" where
  "updated b s r \<longleftrightarrow> dhcps_ok (snd r) \<and> lease (snd r) = lease s \<and> (fst r = 0 \<and> snd r = s \<or>
     (\<exists>p \<in> set (plist (snd r)). ip p = fst r \<and> mac p = take 6 b \<and> pool_state p = DHCPS_STATE_ONLINE))"

lemma updated_intro:
  "dhcps_ok (s\<lparr>plist := qs\<rparr>) \<Longrightarrow> n \<in> set qs \<Longrightarrow> mac n = take 6 b \<Longrightarrow> pool_state n = DHCPS_STATE_ONLINE \<Longrightarrow>
    updated b s (ip n, s\<lparr>plist := qs\<rparr>)"
  by (auto simp: updated_def)

lemma renewed_simps [simp]:
  "ip (renewed s t p) = ip p" "mac (renewed s t p) = mac p" "pool_state (renewed s t p) = DHCPS_STATE_ONLINE"
  by (simp_all add: renewed_def)

lemma update_found_ok:
  assumes ok: "dhcps_ok s" and k: "k < length (plist s)"
    and m: "case pm of None \<Rightarrow> take 6 b \<notin> mac ` set (plist s) | Some m \<Rightarrow> m < length (plist s) \<and> mac (plist s ! m) = take 6 b"
  shows "updated b s (update_leases b a t (pm, Some k, fl, st) s)"
proof -
  let ?p = "plist s ! k"
  have lo: "leases_ok (plist s)" using ok by (simp add: dhcps_ok_def)
  have same: "updated b s (0, s)" using ok by (simp add: updated_def)
  let ?n = "renewed s t (?p\<lparr>mac := take 6 b\<rparr>)"
  show ?thesis
  proof (cases pm)
    case None
    have "updated b s (ip ?n, s\<lparr>plist := (plist s)[k := ?n]\<rparr>)"
      using change_station_ok [OF lo k, of ?n] m None ok k
      by (intro updated_intro dhcps_ok_sub) (simp_all add: set_update_memI)
    then show ?thesis using None same by (simp add: update_leases_def Let_def)
  next
    case (Some m')
    then have m': "m' < length (plist s)" "mac (plist s ! m') = take 6 b" using m by auto
    show ?thesis
    proof (cases "k = m'")
      case True
      let ?q = "renewed s DHCPS_TYPE_DYNAMIC ?p"
      have "dhcps_ok (s\<lparr>plist := (plist s)[k := ?q]\<rparr>)"
        using change_station_ok [OF lo k, of ?q] ok by (intro dhcps_ok_sub) simp_all
      then have "dhcps_ok (s\<lparr>renew := True, plist := (plist s)[k := ?q]\<rparr>)" by (simp add: dhcps_ok_def)
      moreover have "?q \<in> set ((plist s)[k := ?q])" by (rule set_update_memI [OF k])
      ultimately show ?thesis using Some True m'(2)
        by (auto simp: update_leases_def Let_def updated_def intro!: bexI [of _ ?q])
    next
      case False
      have "updated b s (ip ?n, s\<lparr>plist := node_remove_from_list ((plist s)[k := ?n]) m'\<rparr>)"
        using take_over_ok [OF lo m'(1) k False, of ?n] m'(2) ok by (intro updated_intro dhcps_ok_sub) simp_all
      then show ?thesis using Some False same by (simp add: update_leases_def Let_def)
    qed
  qed
qed

lemma update_given_ok:
  assumes ok: "dhcps_ok s"
    and m: "case pm of None \<Rightarrow> take 6 b \<notin> mac ` set (plist s) | Some m \<Rightarrow> m < length (plist s) \<and> mac (plist s ! m) = take 6 b"
    and x: "\<And>x. (case a of Some x \<Rightarrow> Some x | None \<Rightarrow> if fl then Some st else None) = Some x \<Longrightarrow>
      unat x mod 16777216 = unat (start_ip (lease s)) mod 16777216 \<and> start_ip (lease s) \<le> x \<and>
      (case pm of None \<Rightarrow> x \<notin> ip ` set (plist s)
       | Some m \<Rightarrow> x \<le> end_ip (lease s) \<and> (\<forall>n < length (plist s). n \<noteq> m \<longrightarrow> ip (plist s ! n) \<noteq> x))"
  shows "updated b s (update_leases b a t (pm, None, fl, st) s)"
proof -
  have lo: "leases_ok (plist s)" and po: "\<forall>p \<in> set (plist s). in_pool (lease s) (ip p)" "pool_ok (lease s)"
    using ok by (simp_all add: dhcps_ok_def)
  have same: "updated b s (0, s)" using ok by (simp add: updated_def)
  define ad where "ad = (case a of Some x \<Rightarrow> Some x | None \<Rightarrow> if fl then Some st else None)"
  have eq: "update_leases b a t (pm, None, fl, st) s =
      (case pm of
        Some m \<Rightarrow> (case ad of None \<Rightarrow> (0, s) | Some x \<Rightarrow> (x, s\<lparr>plist := node_insert_to_list
          (node_remove_from_list (plist s) m) (renewed s t ((plist s ! m)\<lparr>ip := x\<rparr>))\<rparr>))
      | None \<Rightarrow> (case ad of None \<Rightarrow> (0, s) | Some x \<Rightarrow> if end_ip (lease s) < x then (0, s)
          else (x, s\<lparr>plist := node_insert_to_list (plist s) \<lparr>ip = x, mac = take 6 b, lease_timer = dhcps_lease_time s,
            pool_type = t, pool_state = DHCPS_STATE_ONLINE\<rparr>\<rparr>)))"
    unfolding update_leases_def ad_def Let_def by (cases pm; cases a; cases fl) simp_all
  show ?thesis
  proof (cases ad)
    case None
    then show ?thesis unfolding eq using same by (simp split: option.split)
  next
    case (Some x)
    note X = x [folded ad_def, OF Some]
    show ?thesis
    proof (cases pm)
      case None
      let ?n = "\<lparr>ip = x, mac = take 6 b, lease_timer = dhcps_lease_time s, pool_type = t, pool_state = DHCPS_STATE_ONLINE\<rparr>"
      have "updated b s (ip ?n, s\<lparr>plist := node_insert_to_list (plist s) ?n\<rparr>)" if "\<not> end_ip (lease s) < x"
        using X None m insert_leases_ok [OF lo, of ?n] po that
        by (intro updated_intro) (auto simp: dhcps_ok_def node_insert_eq in_pool_def not_less)
      then show ?thesis unfolding eq using None Some same by simp
    next
      case (Some m')
      let ?n = "renewed s t ((plist s ! m')\<lparr>ip := x\<rparr>)"
      have "leases_ok (node_insert_to_list (node_remove_from_list (plist s) m') ?n)"
        using m X Some by (intro move_ok [OF lo]) simp_all
      moreover have "in_pool (lease s) x" using X Some by (simp add: in_pool_def)
      ultimately have "updated b s (ip ?n, s\<lparr>plist := node_insert_to_list (node_remove_from_list (plist s) m') ?n\<rparr>)"
        using m Some po set_remove_subset [of "plist s" m']
        by (intro updated_intro) (auto simp: dhcps_ok_def node_insert_eq)
      then show ?thesis unfolding eq using Some \<open>ad = Some x\<close> by simp
    qed
  qed
qed

text \<open>An update keeps order and range when the address it gives is free and in the pool.\<close>

lemma update_leases_ok:
  assumes "dhcps_ok s"
    and "case pm of None \<Rightarrow> take 6 b \<notin> mac ` set (plist s) | Some m \<Rightarrow> m < length (plist s) \<and> mac (plist s ! m) = take 6 b"
    and "case pip of None \<Rightarrow> True | Some j \<Rightarrow> j < length (plist s)"
    and "\<And>x. pip = None \<Longrightarrow> (case a of Some x \<Rightarrow> Some x | None \<Rightarrow> if fl then Some st else None) = Some x \<Longrightarrow>
      unat x mod 16777216 = unat (start_ip (lease s)) mod 16777216 \<and> start_ip (lease s) \<le> x \<and>
      (case pm of None \<Rightarrow> x \<notin> ip ` set (plist s)
       | Some m \<Rightarrow> x \<le> end_ip (lease s) \<and> (\<forall>n < length (plist s). n \<noteq> m \<longrightarrow> ip (plist s ! n) \<noteq> x))"
    and "update_leases b a t (pm, pip, fl, st) s = (r, s')"
  shows "dhcps_ok s' \<and> lease s' = lease s \<and> (r = 0 \<and> s' = s \<or>
    (\<exists>p \<in> set (plist s'). ip p = r \<and> mac p = take 6 b \<and> pool_state p = DHCPS_STATE_ONLINE))"
proof -
  have "updated b s (update_leases b a t (pm, pip, fl, st) s)"
  proof (cases pip)
    case None
    then show ?thesis using assms(2,4) by (simp add: update_given_ok [OF assms(1)])
  next
    case (Some k)
    then show ?thesis using assms(2,3) by (simp add: update_found_ok [OF assms(1)])
  qed
  then show ?thesis by (simp add: assms(5) updated_def)
qed

lemma dhcps_ok_renew [simp]: "dhcps_ok (s\<lparr>renew := b\<rparr>) = dhcps_ok s"
  by (simp add: dhcps_ok_def)

lemma pool_addresses:
  assumes "dhcps_ok s" and "p \<in> set (plist s)"
  shows "unat (ip p) mod 16777216 = unat (start_ip (lease s)) mod 16777216" "unat (ip p) div 16777216 < 255"
    "start_ip (lease s) \<le> ip p" "ip p \<le> end_ip (lease s)"
proof -
  have i: "in_pool (lease s) (ip p)" and po: "pool_ok (lease s)" using assms by (simp_all add: dhcps_ok_def)
  then show "unat (ip p) mod 16777216 = unat (start_ip (lease s)) mod 16777216"
    "start_ip (lease s) \<le> ip p" and e: "ip p \<le> end_ip (lease s)" by (simp_all add: in_pool_def)
  then have "unat (ip p) div 16777216 \<le> unat (end_ip (lease s)) div 16777216"
    by (intro div_le_mono) (simp add: word_le_nat_alt)
  then show "unat (ip p) div 16777216 < 255" using po by (simp add: pool_ok_def)
qed

lemma scan_start:
  assumes "dhcps_ok s" and "update_scan b None 0 (plist s) (None, None, False, start_ip (lease s)) = (pm, pip, fl, st)"
  shows "pip = None" "unat st mod 16777216 = unat (start_ip (lease s)) mod 16777216" "start_ip (lease s) \<le> st"
    "case pm of None \<Rightarrow> take 6 b \<notin> mac ` set (plist s) \<and> st \<notin> ip ` set (plist s)
     | Some m \<Rightarrow> fl \<and> m < length (plist s) \<and> mac (plist s ! m) = take 6 b \<and> st \<le> end_ip (lease s) \<and>
         (\<forall>n < length (plist s). n \<noteq> m \<longrightarrow> ip (plist s ! n) \<noteq> st)"
proof -
  have "sorted_wrt (<) (map ip (plist s))" using assms(1) by (simp add: dhcps_ok_def leases_ok_def)
  from scan_dynamic [OF this _ _ assms(2)] pool_addresses [OF assms(1)]
  have *: "pip = None \<and> unat st mod 16777216 = unat (start_ip (lease s)) mod 16777216 \<and> start_ip (lease s) \<le> st \<and>
    (case pm of
       None \<Rightarrow> take 6 b \<notin> mac ` set (plist s) \<and> st \<notin> ip ` set (plist s)
     | Some m \<Rightarrow> fl \<and> (\<exists>k < length (plist s). m = 0 + k \<and> mac (plist s ! k) = take 6 b \<and> st \<le> ip (plist s ! k) \<and>
         (\<forall>n < length (plist s). n \<noteq> k \<longrightarrow> ip (plist s ! n) \<noteq> st)))" by auto
  then show "pip = None" "unat st mod 16777216 = unat (start_ip (lease s)) mod 16777216" "start_ip (lease s) \<le> st"
    by simp_all
  show "case pm of None \<Rightarrow> take 6 b \<notin> mac ` set (plist s) \<and> st \<notin> ip ` set (plist s)
     | Some m \<Rightarrow> fl \<and> m < length (plist s) \<and> mac (plist s ! m) = take 6 b \<and> st \<le> end_ip (lease s) \<and>
         (\<forall>n < length (plist s). n \<noteq> m \<longrightarrow> ip (plist s ! n) \<noteq> st)"
  proof (cases pm)
    case None
    with * show ?thesis by simp
  next
    case (Some m)
    with * have m: "fl" "m < length (plist s)" "mac (plist s ! m) = take 6 b" "st \<le> ip (plist s ! m)"
      "\<forall>n < length (plist s). n \<noteq> m \<longrightarrow> ip (plist s ! n) \<noteq> st" by auto
    then have "st \<le> end_ip (lease s)" using pool_addresses(4) [OF assms(1) nth_mem [OF m(2)]] by simp
    with m Some show ?thesis by simp
  qed
qed

definition admissible :: "dhcps_lease \<Rightarrow> u32 option \<Rightarrow> bool" where
  "admissible l addr \<longleftrightarrow> (case addr of None \<Rightarrow> True | Some x \<Rightarrow> x = 0 \<or> x = 0xffffffff \<or> in_pool l x)"

definition answered :: "u8 list \<Rightarrow> u32 \<Rightarrow> dhcps \<Rightarrow> bool" where
  "answered b r s \<longleftrightarrow> (\<exists>p \<in> set (plist s). ip p = r \<and> mac p = take 6 b \<and> pool_state p = DHCPS_STATE_ONLINE)"

lemma client_update_eq:
  assumes F: "addr \<noteq> Some 0xffffffff"
    and sc: "update_scan b a 0 (plist s) (None, None, False, start_ip (lease s)) = (pm, pip, fl, st)"
    and a: "a = (if addr = Some 0 then None else addr)"
  shows "wifi_softap_dhcps_client_update (Some b) addr s =
    (if a = None \<and> \<not> fl then
       if end_ip (lease s) < st then (0, s\<lparr>renew := False\<rparr>)
       else update_leases b a DHCPS_TYPE_DYNAMIC (pm, pip, True, st) (s\<lparr>renew := False\<rparr>)
     else update_leases b a (if a = None then DHCPS_TYPE_DYNAMIC else DHCPS_TYPE_STATIC) (pm, pip, fl, st) (s\<lparr>renew := False\<rparr>))"
proof -
  have "wifi_softap_dhcps_client_update (Some b) addr s =
      (let a = a; t = (if a = None then DHCPS_TYPE_DYNAMIC else DHCPS_TYPE_STATIC); s = s\<lparr>renew := False\<rparr>;
           (pmac, pip, flag, start) = update_scan b a 0 (plist s) (None, None, False, start_ip (lease s))
       in if a = None \<and> \<not> flag then
            (if plist s = [] then
               (if start \<le> end_ip (lease s) then update_leases b a t (pmac, pip, True, start) s else (0, s))
             else (if end_ip (lease s) < start then (0, s)
                   else update_leases b a t (pmac, pip, True, start) s))
          else update_leases b a t (pmac, pip, flag, start) s)"
    unfolding wifi_softap_dhcps_client_update_def a using F by simp
  then show ?thesis by (auto simp: sc Let_def not_less not_le)
qed

lemma client_update_keeps:
  assumes ok: "dhcps_ok s" and adm: "admissible (lease s) addr"
    and u: "wifi_softap_dhcps_client_update bssid addr s = (r, s')"
  shows "dhcps_ok s' \<and> lease s' = lease s \<and> (r = 0 \<and> plist s' = plist s \<or> (\<exists>b. bssid = Some b \<and> answered b r s'))"
proof (cases bssid)
  case None
  then show ?thesis using u ok by (simp add: wifi_softap_dhcps_client_update_def)
next
  case (Some b)
  let ?s = "s\<lparr>renew := False\<rparr>"
  obtain pm pip fl st a where sc: "update_scan b a 0 (plist s) (None, None, False, start_ip (lease s)) = (pm, pip, fl, st)"
    and a: "a = (if addr = Some 0 then None else addr)" by (metis prod_cases4)
  show ?thesis
  proof (cases "addr = Some 0xffffffff")
    case True
    then show ?thesis using u ok Some by (simp add: wifi_softap_dhcps_client_update_def)
  next
    case F: False
    show ?thesis
    proof (cases a)
      case None
      note s = scan_start [OF ok sc [unfolded None]]
      have g: "dhcps_ok s' \<and> lease s' = lease ?s \<and> (r = 0 \<and> s' = ?s \<or>
          (\<exists>p \<in> set (plist s'). ip p = r \<and> mac p = take 6 b \<and> pool_state p = DHCPS_STATE_ONLINE))"
        if "update_leases b a DHCPS_TYPE_DYNAMIC (pm, pip, True, st) ?s = (r, s')"
        by (rule update_leases_ok [OF _ _ _ _ that]) (use ok s None in \<open>auto split: option.splits\<close>)
      have "(if a = None \<and> \<not> fl then if end_ip (lease s) < st then (0, ?s)
            else update_leases b a DHCPS_TYPE_DYNAMIC (pm, pip, True, st) ?s
          else update_leases b a (if a = None then DHCPS_TYPE_DYNAMIC else DHCPS_TYPE_STATIC) (pm, pip, fl, st) ?s) = (r, s')"
        using u unfolding Some client_update_eq [OF F sc a] .
      then consider "update_leases b a DHCPS_TYPE_DYNAMIC (pm, pip, True, st) ?s = (r, s')" | "r = 0" "s' = ?s"
        unfolding None by (cases fl; cases "end_ip (lease s) < st") (simp_all add: that)
      then show ?thesis using g ok Some by cases (auto simp: answered_def)
    next
      case (Some x)
      then have x: "in_pool (lease s) x" "addr = Some x" using a adm F by (auto simp: admissible_def split: if_splits)
      note sc' = scan_static [OF sc [unfolded Some]]
      have "update_leases b a DHCPS_TYPE_STATIC (pm, pip, fl, st) ?s = (r, s')"
        using u unfolding \<open>bssid = Some b\<close> client_update_eq [OF F sc a] by (simp add: Some)
      moreover have "case pm of None \<Rightarrow> take 6 b \<notin> mac ` set (plist ?s)
          | Some m \<Rightarrow> m < length (plist ?s) \<and> mac (plist ?s ! m) = take 6 b"
        using sc' by (cases pm) auto
      moreover have "case pip of None \<Rightarrow> True | Some j \<Rightarrow> j < length (plist ?s)" using sc' by (cases pip) auto
      moreover have "unat y mod 16777216 = unat (start_ip (lease ?s)) mod 16777216 \<and> start_ip (lease ?s) \<le> y \<and>
          (case pm of None \<Rightarrow> y \<notin> ip ` set (plist ?s)
           | Some m \<Rightarrow> y \<le> end_ip (lease ?s) \<and> (\<forall>n < length (plist ?s). n \<noteq> m \<longrightarrow> ip (plist ?s ! n) \<noteq> y))"
        if "pip = None" "(case a of Some x \<Rightarrow> Some x | None \<Rightarrow> if fl then Some st else None) = Some y" for y
      proof -
        have "y = x" using that(2) Some by simp
        moreover have "x \<notin> ip ` set (plist s)" using sc' that(1) by simp
        then have "\<forall>n < length (plist s). ip (plist s ! n) \<noteq> x" by (auto dest: nth_mem)
        ultimately show ?thesis using x(1) \<open>x \<notin> _\<close> by (simp add: in_pool_def split: option.split)
      qed
      ultimately have "dhcps_ok s' \<and> lease s' = lease ?s \<and> (r = 0 \<and> s' = ?s \<or>
          (\<exists>p \<in> set (plist s'). ip p = r \<and> mac p = take 6 b \<and> pool_state p = DHCPS_STATE_ONLINE))"
        using ok by (intro update_leases_ok [where s = ?s and pm = pm and b = b and pip = pip and a = a and fl = fl and st = st and t = DHCPS_TYPE_STATIC]) simp_all
      then show ?thesis using \<open>bssid = Some b\<close> by (auto simp: answered_def)
    qed
  qed
qed

section \<open>Releases, the timer and the end\<close>

lemma lease_index_Some:
  "lease_index b a i ps = Some k \<Longrightarrow> i \<le> k \<and> k - i < length ps \<and> mac (ps ! (k - i)) = take 6 b \<and> ip (ps ! (k - i)) = a"
proof (induction ps arbitrary: i)
  case (Cons p ps)
  show ?case
  proof (cases "mac p = take 6 b \<and> ip p = a")
    case False
    then have "lease_index b a (i + 1) ps = Some k" using Cons.prems by (auto split: if_splits)
    from Cons.IH [OF this] show ?thesis by (cases "k - i") (auto simp: nth_Cons dest!: arg_cong [of "k - i" _ "\<lambda>n. n - 1"])
  qed (use Cons.prems in auto)
qed simp

lemma state_update_leases_ok:
  "leases_ok ps \<Longrightarrow> i < length ps \<Longrightarrow> leases_ok (ps[i := (ps ! i)\<lparr>pool_state := st\<rparr>])"
  by (simp add: leases_ok_def map_update)

lemma client_leave_keeps:
  assumes "dhcps_ok s" and "wifi_softap_dhcps_client_leave bssid addr force s = (e, s')"
  shows "dhcps_ok s' \<and> lease s' = lease s \<and> server_address s' = server_address s"
proof -
  have rem: "dhcps_ok (s\<lparr>plist := node_remove_from_list (plist s) i\<rparr>)" for i
    using assms(1) set_remove_subset [of "plist s" i] by (auto simp: dhcps_ok_def remove_leases_ok)
  have upd: "dhcps_ok (s\<lparr>plist := (plist s)[i := (plist s ! i)\<lparr>pool_state := st\<rparr>]\<rparr>)" if "i < length (plist s)" for i st
  proof -
    have "ip ` set ((plist s)[i := (plist s ! i)\<lparr>pool_state := st\<rparr>]) = ip ` set (plist s)"
      unfolding set_map [symmetric] map_update using that by simp
    then show ?thesis using assms(1) that
      by (intro dhcps_ok_sub state_update_leases_ok) (simp_all add: dhcps_ok_def)
  qed
  show ?thesis
    using assms(2) assms(1) rem upd
    by (auto simp: wifi_softap_dhcps_client_leave_def Let_def split: option.splits if_splits dest!: lease_index_Some)
qed

definition tick :: "dhcps_pool \<Rightarrow> dhcps_pool" where
  "tick p = (if pool_type p = DHCPS_TYPE_DYNAMIC then p\<lparr>lease_timer := lease_timer p - 1\<rparr> else p)"

lemma tick_simps [simp]: "ip (tick p) = ip p" "mac (tick p) = mac p" "ip \<circ> tick = ip" "mac \<circ> tick = mac"
  by (auto simp: tick_def)

lemma coarse_loop_eq:
  "coarse_loop ps = (let qs = filter (\<lambda>p. lease_timer p \<noteq> 0) (map tick ps) in (qs, of_nat (length qs)))"
proof (induction ps)
  case (Cons p ps)
  then show ?case by (cases "pool_type p") (auto simp: tick_def Let_def ac_simps)
qed simp

lemma filter_leases_ok: "leases_ok ps \<Longrightarrow> leases_ok (filter P ps)"
  by (simp add: leases_ok_def sorted_wrt_map sorted_wrt_filter distinct_map_filter)

lemma coarse_leases_ok: "leases_ok ps \<Longrightarrow> leases_ok (filter P (map tick ps))"
  by (rule filter_leases_ok) (simp add: leases_ok_def)

lemma length_remove: "i < length ps \<Longrightarrow> length (node_remove_from_list ps i) = length ps - 1"
  by (simp add: remove_eq)

lemma oldest_bound: "best < n \<Longrightarrow> i + length ps \<le> n \<Longrightarrow> oldest i best m ps < n"
  by (induction ps arbitrary: i best m) auto

lemma kill_oldest_Some: "2 \<le> length ps \<Longrightarrow> \<exists>qs. kill_oldest_dhcps_pool ps = Some qs"
  by (auto simp: kill_oldest_dhcps_pool_def Let_def numeral_2_eq_2 Suc_le_length_iff)

lemma kill_oldest_eq:
  assumes "kill_oldest_dhcps_pool ps = Some qs"
  obtains i j where "i < length ps" "j < length ps"
    "qs = node_remove_from_list (ps[j := (ps ! j)\<lparr>pool_state := DHCPS_STATE_OFFLINE\<rparr>]) i"
proof -
  obtain first p rest where ps: "ps = first # p # rest" using assms
    by (auto simp: kill_oldest_dhcps_pool_def split: list.splits)
  let ?rest = "p # rest"
  let ?m = "oldest 0 0 (lease_timer p) ?rest" and ?l = "length ?rest - 1"
  have "?m < length ?rest" by (rule oldest_bound) simp_all
  moreover have "qs = node_remove_from_list (first # ?rest[?l := (last ?rest)\<lparr>pool_state := DHCPS_STATE_OFFLINE\<rparr>]) (Suc ?m)"
    using assms by (simp add: kill_oldest_dhcps_pool_def ps)
  moreover have "first # ?rest[?l := (last ?rest)\<lparr>pool_state := DHCPS_STATE_OFFLINE\<rparr>] =
      ps[Suc ?l := (ps ! Suc ?l)\<lparr>pool_state := DHCPS_STATE_OFFLINE\<rparr>]"
    unfolding ps by (simp add: last_conv_nth del: last.simps nth_Cons)
  ultimately show ?thesis by (intro that [of "Suc ?m" "Suc ?l"]) (simp_all add: ps del: oldest.simps)
qed

lemma kill_oldest_length: "kill_oldest_dhcps_pool ps = Some qs \<Longrightarrow> length qs + 1 = length ps"
  by (erule kill_oldest_eq) (auto simp: length_remove)

lemma kill_oldest_keeps:
  assumes "kill_oldest_dhcps_pool ps = Some qs" and "leases_ok ps"
  shows "leases_ok qs \<and> ip ` set qs \<subseteq> ip ` set ps"
  using assms(1)
proof (rule kill_oldest_eq)
  fix i j assume j: "j < length ps" and qs: "qs = node_remove_from_list (ps[j := (ps ! j)\<lparr>pool_state := DHCPS_STATE_OFFLINE\<rparr>]) i"
  have "ip ` set (ps[j := (ps ! j)\<lparr>pool_state := DHCPS_STATE_OFFLINE\<rparr>]) = ip ` set ps"
    unfolding set_map [symmetric] map_update using j by simp
  then show ?thesis unfolding qs using assms(2) j set_remove_subset
    by (metis image_mono remove_leases_ok state_update_leases_ok)
qed

text \<open>The leases that stay after a tick, before one is killed.\<close>

definition stay :: "dhcps_pool list \<Rightarrow> dhcps_pool list" where
  "stay ps = filter (\<lambda>p. lease_timer p \<noteq> 0) (map tick ps)"

lemma stay_props:
  "leases_ok ps \<Longrightarrow> leases_ok (stay ps)" "ip ` set (stay ps) \<subseteq> ip ` set ps" "length (stay ps) \<le> length ps"
  by (auto simp: stay_def coarse_leases_ok intro: order_trans [OF length_filter_le])

lemma coarse_tmr_eq:
  "dhcps_coarse_tmr s = (if 8 \<le> (of_nat (length (stay (plist s))) :: u8)
     then map_option (\<lambda>ps. s\<lparr>plist := ps\<rparr>) (kill_oldest_dhcps_pool (stay (plist s)))
     else Some (s\<lparr>plist := stay (plist s)\<rparr>))"
proof -
  have c: "coarse_loop (plist s) = (stay (plist s), of_nat (length (stay (plist s))))"
    by (simp add: coarse_loop_eq Let_def stay_def)
  show ?thesis unfolding dhcps_coarse_tmr_def c
    by (cases "kill_oldest_dhcps_pool (stay (plist s))") (simp_all add: MAX_STATION_NUM_def)
qed

lemma coarse_tmr_keeps:
  assumes "dhcps_ok s" and "dhcps_coarse_tmr s = Some s'"
  shows "dhcps_ok s' \<and> lease s' = lease s \<and> server_address s' = server_address s"
proof -
  have l: "leases_ok (plist s)" using assms(1) by (simp add: dhcps_ok_def)
  have "\<exists>ps. leases_ok ps \<and> ip ` set ps \<subseteq> ip ` set (plist s) \<and> s' = s\<lparr>plist := ps\<rparr>"
  proof (cases "8 \<le> (of_nat (length (stay (plist s))) :: u8)")
    case True
    then obtain ps where k: "kill_oldest_dhcps_pool (stay (plist s)) = Some ps" "s' = s\<lparr>plist := ps\<rparr>"
      using assms(2) by (auto simp: coarse_tmr_eq)
    from kill_oldest_keeps [OF k(1) stay_props(1) [OF l]] have "leases_ok ps" "ip ` set ps \<subseteq> ip ` set (plist s)"
      using order_trans [OF _ stay_props(2)] by simp_all
    then show ?thesis using k(2) by (intro exI [of _ ps]) simp
  next
    case False
    then show ?thesis using assms(2) stay_props(1) [OF l] stay_props(2) [of "plist s"] by (auto simp: coarse_tmr_eq)
  qed
  then show ?thesis using assms(1) by (auto intro: dhcps_ok_sub)
qed

lemma oldest_first:
  "(oldest i best m ps = best \<and> (\<forall>p \<in> set ps. m \<le> lease_timer p)) \<or>
   (\<exists>k < length ps. oldest i best m ps = i + k \<and> lease_timer (ps ! k) < m \<and>
     (\<forall>j < length ps. lease_timer (ps ! k) \<le> lease_timer (ps ! j)) \<and> (\<forall>j < k. lease_timer (ps ! k) < lease_timer (ps ! j)))"
proof (induction ps arbitrary: i best m)
  case (Cons p ps)
  let ?b = "if lease_timer p < m then i else best" and ?m = "if lease_timer p < m then lease_timer p else m"
  have o: "oldest i best m (p # ps) = oldest (i + 1) ?b ?m ps" by simp
  from Cons.IH [of "i + 1" ?b ?m] consider
    (none) "oldest (i + 1) ?b ?m ps = ?b" "\<forall>q \<in> set ps. ?m \<le> lease_timer q"
    | (later) k where "k < length ps" "oldest (i + 1) ?b ?m ps = i + 1 + k" "lease_timer (ps ! k) < ?m"
      "\<forall>j < length ps. lease_timer (ps ! k) \<le> lease_timer (ps ! j)" "\<forall>j < k. lease_timer (ps ! k) < lease_timer (ps ! j)" by blast
  then show ?case
  proof cases
    case none
    show ?thesis
    proof (cases "lease_timer p < m")
      case True
      then have "\<forall>j < length (p # ps). lease_timer p \<le> lease_timer ((p # ps) ! j)" using none(2) by (auto simp: nth_Cons split: nat.split)
      then show ?thesis using o none(1) True by (intro disjI2 exI [of _ 0]) simp
    next
      case False
      then have "oldest i best m (p # ps) = best" "\<forall>q \<in> set ps. m \<le> lease_timer q" "m \<le> lease_timer p"
        using o none unfolding if_not_P [OF False] by (simp_all add: not_less)
      then show ?thesis by (intro disjI1) (simp del: oldest.simps)
    qed
  next
    case later
    then have k: "lease_timer (ps ! k) < lease_timer p" "lease_timer (ps ! k) < m" by (auto split: if_splits)
    then have "\<forall>j < length (p # ps). lease_timer (ps ! k) \<le> lease_timer ((p # ps) ! j)"
      "\<forall>j < Suc k. lease_timer (ps ! k) < lease_timer ((p # ps) ! j)"
      using later(4,5) by (auto simp: nth_Cons less_imp_le split: nat.split)
    then show ?thesis using o k later(1,2) by (intro disjI2 exI [of _ "Suc k"]) simp
  qed
qed simp

lemma kill_oldest_exact:
  assumes "2 \<le> length qs"
  defines "rs \<equiv> qs[length qs - 1 := (last qs)\<lparr>pool_state := DHCPS_STATE_OFFLINE\<rparr>]"
  shows "\<exists>i. 0 < i \<and> i < length qs \<and> (\<forall>j. 0 < j \<and> j < length qs \<longrightarrow> lease_timer (qs ! i) \<le> lease_timer (qs ! j)) \<and>
    (\<forall>j. 0 < j \<and> j < i \<longrightarrow> lease_timer (qs ! i) < lease_timer (qs ! j)) \<and>
    kill_oldest_dhcps_pool qs = Some (take i rs @ drop (Suc i) rs)"
proof -
  obtain first p rest where qs: "qs = first # p # rest" using assms(1) by (auto simp: numeral_2_eq_2 Suc_le_length_iff)
  let ?rest = "p # rest" and ?m = "oldest 0 0 (lease_timer p) (p # rest)"
  have "?m < length ?rest \<and> (\<forall>j < length ?rest. lease_timer (?rest ! ?m) \<le> lease_timer (?rest ! j)) \<and>
      (\<forall>j < ?m. lease_timer (?rest ! ?m) < lease_timer (?rest ! j))"
    using oldest_first [of 0 0 "lease_timer p" ?rest]
  proof (elim disjE exE conjE)
    assume z: "?m = 0" and "\<forall>q \<in> set ?rest. lease_timer p \<le> lease_timer q"
    then have "\<forall>j < length ?rest. lease_timer p \<le> lease_timer (?rest ! j)" by (metis nth_mem)
    then show ?thesis unfolding z by simp
  next
    fix k
    assume "k < length ?rest" "?m = 0 + k" "\<forall>j < length ?rest. lease_timer (?rest ! k) \<le> lease_timer (?rest ! j)"
      "\<forall>j < k. lease_timer (?rest ! k) < lease_timer (?rest ! j)"
    then show ?thesis by (simp only: add_0 simp_thms)
  qed
  then have m: "?m < length ?rest" "\<forall>j < length ?rest. lease_timer (?rest ! ?m) \<le> lease_timer (?rest ! j)"
    "\<forall>j < ?m. lease_timer (?rest ! ?m) < lease_timer (?rest ! j)" by blast+
  have rs: "rs = first # ?rest[length ?rest - 1 := (last ?rest)\<lparr>pool_state := DHCPS_STATE_OFFLINE\<rparr>]"
    unfolding rs_def qs by simp
  have "kill_oldest_dhcps_pool qs = Some (take (Suc ?m) rs @ drop (Suc (Suc ?m)) rs)"
    unfolding rs by (simp add: kill_oldest_dhcps_pool_def qs Let_def remove_eq del: oldest.simps)
  moreover have "lease_timer (qs ! Suc ?m) \<le> lease_timer (qs ! j)" if "0 < j" "j < length qs" for j
    using that m(2) unfolding qs by (cases j) (simp_all del: oldest.simps)
  moreover have "lease_timer (qs ! Suc ?m) < lease_timer (qs ! j)" if "0 < j" "j < Suc ?m" for j
    using that m(3) unfolding qs by (cases j) (simp_all del: oldest.simps)
  moreover have "Suc ?m < length qs" using m(1) unfolding qs by (simp del: oldest.simps)
  ultimately show ?thesis by blast
qed

text \<open>C34. The minute tick never follows a null pointer and changes nothing but the leases.  The leases whose timer, counted down for a
  dynamic one, is not 0 stay, all of them when they are fewer than MAX_STATION_NUM, counted in 8 bits; else one of them goes: the
  first with the least timer of those behind the first lease, which is never chosen, while the last of the list is put offline.
  So after a tick there are fewer than MAX_STATION_NUM leases if there were at most that many before.\<close>

theorem coarse_tmr_frees:
  "\<exists>ps. dhcps_coarse_tmr s = Some (s\<lparr>plist := ps\<rparr>) \<and>
    (let qs = stay (plist s);
         rs = qs[length qs - 1 := (last qs)\<lparr>pool_state := DHCPS_STATE_OFFLINE\<rparr>]
     in if length qs mod 256 < 8 then ps = qs
        else \<exists>i. 0 < i \<and> i < length qs \<and> (\<forall>j. 0 < j \<and> j < length qs \<longrightarrow> lease_timer (qs ! i) \<le> lease_timer (qs ! j)) \<and>
          (\<forall>j. 0 < j \<and> j < i \<longrightarrow> lease_timer (qs ! i) < lease_timer (qs ! j)) \<and> ps = take i rs @ drop (Suc i) rs) \<and>
    (length (plist s) \<le> 8 \<longrightarrow> length ps < 8)"
proof -
  let ?qs = "stay (plist s)"
  have u: "8 \<le> (of_nat (length ?qs) :: u8) \<longleftrightarrow> \<not> length ?qs mod 256 < 8" by (simp add: word_le_nat_alt unat_of_nat not_less)
  have le: "length ?qs \<le> length (plist s)" by (rule stay_props(3))
  show ?thesis
  proof (cases "length ?qs mod 256 < 8")
    case True
    then show ?thesis using le unfolding coarse_tmr_eq u by (intro exI [of _ ?qs]) auto
  next
    case False
    then have n: "8 \<le> length ?qs" using mod_less_eq_dividend [of "length ?qs" 256] by linarith
    then have "2 \<le> length ?qs" by simp
    define rs where "rs = ?qs[length ?qs - 1 := (last ?qs)\<lparr>pool_state := DHCPS_STATE_OFFLINE\<rparr>]"
    from kill_oldest_exact [OF \<open>2 \<le> length ?qs\<close>, folded rs_def] obtain i where i: "0 < i" "i < length ?qs"
      "\<forall>j. 0 < j \<and> j < length ?qs \<longrightarrow> lease_timer (?qs ! i) \<le> lease_timer (?qs ! j)"
      "\<forall>j. 0 < j \<and> j < i \<longrightarrow> lease_timer (?qs ! i) < lease_timer (?qs ! j)"
      and k: "kill_oldest_dhcps_pool ?qs = Some (take i rs @ drop (Suc i) rs)" by blast
    have "length rs = length ?qs" by (simp add: rs_def)
    then have "length (plist s) \<le> 8 \<longrightarrow> length (take i rs @ drop (Suc i) rs) < 8" using i(1,2) le by auto
    moreover have "dhcps_coarse_tmr s = Some (s\<lparr>plist := take i rs @ drop (Suc i) rs\<rparr>)"
      unfolding coarse_tmr_eq u using False k by simp
    ultimately show ?thesis unfolding Let_def rs_def [symmetric] if_not_P [OF False] using i by blast
  qed
qed

section \<open>First fit\<close>

lemma congruent_between:
  "x mod m = y mod m \<Longrightarrow> x \<le> y \<Longrightarrow> y < x + m \<Longrightarrow> x = y" for x y m :: nat
  by (metis add.commute add_diff_inverse_nat less_diff_conv2 mod_eq_dvd_iff_nat nat_dvd_not_less not_less zero_less_diff
      diff_is_0_eq' le_antisym)

lemma scan_first:
  assumes "sorted_wrt (<) (map ip ps)" "\<forall>p \<in> set ps. unat (ip p) mod 16777216 = unat start mod 16777216 \<and>
      unat (ip p) div 16777216 < 255"
    and "update_scan b None i ps (None, None, False, start) = (pm, pip, fl, st)"
    and x: "unat x mod 16777216 = unat start mod 16777216" "start \<le> x" "x < st"
  shows "x \<in> ip ` set ps"
  using assms
proof (induction ps arbitrary: i start)
  case (Cons p ps)
  have stop: "update_scan b None j qs (None, None, True, start) = (pm, pip, fl, st) \<Longrightarrow> st = start" for j qs
    by (induction qs arbitrary: j) (auto simp: Let_def split: if_splits)
  show ?case
  proof (cases "mac p = take 6 b \<or> ip p \<noteq> start")
    case True
    then have "st = start" using Cons.prems(3) stop [of "i + 1" ps] by (auto simp: Let_def split: if_splits)
    then show ?thesis using Cons.prems(5,6) by simp
  next
    case False
    then have u: "update_scan b None (i + 1) ps (None, None, False, next_ip start) = (pm, pip, fl, st)"
      using Cons.prems(3) by (simp add: Let_def)
    have n: "unat (next_ip start) = unat start + 16777216" using Cons.prems(2) False by (intro unat_next_ip) auto
    show ?thesis
    proof (cases "x = start")
      case True
      then show ?thesis using False by simp
    next
      case ne: False
      have "\<not> unat x < unat start + 16777216"
        using congruent_between [of "unat start" 16777216 "unat x"] Cons.prems(4,5) ne
        by (auto simp: word_le_nat_alt word_unat_eq_iff)
      then have "next_ip start \<le> x" by (simp add: word_le_nat_alt n)
      moreover have m: "unat (next_ip start) mod 16777216 = unat start mod 16777216" by (simp add: n)
      ultimately have "x \<in> ip ` set ps" using Cons.prems by (intro Cons.IH [OF _ _ u]) auto
      then show ?thesis by simp
    qed
  qed
qed simp

definition new_lease :: "u8 list \<Rightarrow> u32 \<Rightarrow> dhcps \<Rightarrow> dhcps_pool" where
  "new_lease b x s = \<lparr>ip = x, mac = take 6 b, lease_timer = dhcps_lease_time s, pool_type = DHCPS_TYPE_DYNAMIC,
     pool_state = DHCPS_STATE_ONLINE\<rparr>"

lemma new_station_scan:
  assumes ok: "dhcps_ok s" and new: "take 6 b \<notin> mac ` set (plist s)"
  obtains st where "st \<notin> ip ` set (plist s)" "unat st mod 16777216 = unat (start_ip (lease s)) mod 16777216"
    "start_ip (lease s) \<le> st" "\<forall>x. in_pool (lease s) x \<longrightarrow> x < st \<longrightarrow> x \<in> ip ` set (plist s)"
    "wifi_softap_dhcps_client_update (Some b) None s = (if end_ip (lease s) < st then (0, s\<lparr>renew := False\<rparr>)
      else (st, s\<lparr>renew := False, plist := node_insert_to_list (plist s) (new_lease b st s)\<rparr>))"
proof -
  obtain pm pip fl st where sc: "update_scan b None 0 (plist s) (None, None, False, start_ip (lease s)) = (pm, pip, fl, st)"
    by (rule prod_cases4)
  note s = scan_start [OF ok sc]
  have pm: "pm = None"
  proof (cases pm)
    case (Some m)
    then have "take 6 b \<in> mac ` set (plist s)" using s(4) by (intro image_eqI [of _ _ "plist s ! m"]) simp_all
    then show ?thesis using new by simp
  qed
  then have "st \<notin> ip ` set (plist s)" using s(4) by simp
  moreover have "x \<in> ip ` set (plist s)" if "in_pool (lease s) x" "x < st" for x
    using that ok pool_addresses [OF ok] by (intro scan_first [OF _ _ sc]) (auto simp: dhcps_ok_def leases_ok_def in_pool_def)
  moreover have "wifi_softap_dhcps_client_update (Some b) None s = (if end_ip (lease s) < st then (0, s\<lparr>renew := False\<rparr>)
      else (st, s\<lparr>renew := False, plist := node_insert_to_list (plist s) (new_lease b st s)\<rparr>))"
    using client_update_eq [OF _ sc, of None]
    by (cases fl) (auto simp add: pm s(1) update_leases_def Let_def new_lease_def split: if_splits)
  ultimately show ?thesis using s(2,3) that by blast
qed

text \<open>A station without a lease that asks for no particular address gets the lowest free address of the pool,
  or none exactly when all of the pool is taken.\<close>

theorem new_station_first_fit:
  assumes ok: "dhcps_ok s" and new: "take 6 b \<notin> mac ` set (plist s)"
    and u: "wifi_softap_dhcps_client_update (Some b) None s = (r, s')"
  shows "if \<exists>x. in_pool (lease s) x \<and> x \<notin> ip ` set (plist s)
    then in_pool (lease s) r \<and> r \<notin> ip ` set (plist s) \<and> (\<forall>x. in_pool (lease s) x \<and> x \<notin> ip ` set (plist s) \<longrightarrow> r \<le> x) \<and>
      answered b r s'
    else r = 0 \<and> plist s' = plist s"
proof -
  obtain st where st: "st \<notin> ip ` set (plist s)" "unat st mod 16777216 = unat (start_ip (lease s)) mod 16777216"
    "start_ip (lease s) \<le> st" "\<forall>x. in_pool (lease s) x \<longrightarrow> x < st \<longrightarrow> x \<in> ip ` set (plist s)"
    and res: "wifi_softap_dhcps_client_update (Some b) None s = (if end_ip (lease s) < st then (0, s\<lparr>renew := False\<rparr>)
      else (st, s\<lparr>renew := False, plist := node_insert_to_list (plist s) (new_lease b st s)\<rparr>))"
    by (rule new_station_scan [OF ok new])
  show ?thesis
  proof (cases "end_ip (lease s) < st")
    case True
    then have none: "\<not> (\<exists>x. in_pool (lease s) x \<and> x \<notin> ip ` set (plist s))"
      using st(4) by (auto simp: in_pool_def intro: order_le_less_trans)
    show ?thesis unfolding if_not_P [OF none] using u res True by auto
  next
    case False
    then have p: "in_pool (lease s) st" using st(2,3) by (simp add: in_pool_def)
    moreover have "answered b st s'" using u res False by (auto simp: answered_def node_insert_eq new_lease_def)
    moreover have "\<forall>x. in_pool (lease s) x \<and> x \<notin> ip ` set (plist s) \<longrightarrow> st \<le> x" using st(4) by (auto simp: not_less [symmetric])
    ultimately show ?thesis using u res False st(1) by auto
  qed
qed

text \<open>A station whose lease is the lowest address it could have keeps it when it asks again.\<close>

lemma known_station_keeps:
  assumes ok: "dhcps_ok s" and p: "p \<in> set (plist s)" "mac p = take 6 b"
    and low: "\<And>x. in_pool (lease s) x \<Longrightarrow> x < ip p \<Longrightarrow> x \<in> ip ` set (plist s)"
  obtains s' where "wifi_softap_dhcps_client_update (Some b) None s = (ip p, s')" "answered b (ip p) s'"
proof -
  obtain pm pip fl st where sc: "update_scan b None 0 (plist s) (None, None, False, start_ip (lease s)) = (pm, pip, fl, st)"
    by (rule prod_cases4)
  note s = scan_start [OF ok sc]
  obtain m where pm: "pm = Some m" using s(4) p by (cases pm) (auto simp: image_iff)
  then have m: "fl" "m < length (plist s)" "mac (plist s ! m) = take 6 b" "st \<le> end_ip (lease s)"
    "\<forall>n < length (plist s). n \<noteq> m \<longrightarrow> ip (plist s ! n) \<noteq> st" using s(4) by simp_all
  have "inj_on mac (set (plist s))" using ok by (simp add: dhcps_ok_def leases_ok_def distinct_map)
  then have mp: "plist s ! m = p" using m(2,3) p by (auto dest!: inj_onD [where x = "plist s ! m" and y = p])
  obtain k where k: "k < length (plist s)" "plist s ! k = p" using p(1) by (auto simp: in_set_conv_nth)
  have le: "st \<le> ip p"
  proof -
    have "sorted_wrt (<) (map ip (plist s))" using ok by (simp add: dhcps_ok_def leases_ok_def)
    from scan_dynamic [OF this _ _ sc] pool_addresses [OF ok]
    have "\<exists>k < length (plist s). m = k \<and> st \<le> ip (plist s ! k)" by (auto simp: pm)
    then show ?thesis using mp by auto
  qed
  have "st = ip p"
  proof (rule ccontr)
    assume ne: "st \<noteq> ip p"
    then have "st \<in> ip ` set (plist s)" using le s(2,3) m(4) by (intro low) (simp_all add: in_pool_def)
    then obtain n where "n < length (plist s)" "ip (plist s ! n) = st" by (auto simp: in_set_conv_nth)
    then show False using m(5) mp ne by (cases "n = m") auto
  qed
  then have "wifi_softap_dhcps_client_update (Some b) None s =
      (ip p, s\<lparr>renew := False, plist := node_insert_to_list (node_remove_from_list (plist s) m)
        (renewed (s\<lparr>renew := False\<rparr>) DHCPS_TYPE_DYNAMIC (p\<lparr>ip := ip p\<rparr>))\<rparr>)"
    using client_update_eq [OF _ sc, of None] m(1) by (simp add: pm s(1) update_leases_def Let_def mp)
  then show ?thesis using p(2) by (intro that) (assumption, simp add: answered_def node_insert_eq renewed_def)
qed

end
