(* ===== verification/Dhcps_Start.thy ===== *)
theory Dhcps_Start
  imports Dhcps_Pool
begin

text \<open>
  The pool wifi_softap_init_dhcps_lease leaves behind: in the server's network, without the server's own
  address, and of the shape Dhcps_Pool needs.
\<close>

section \<open>The pool chosen at the start\<close>

lemma unat_htonl_bytes:
  obtains a b c d where "unat w = (a + 256 * b + 65536 * c) + 16777216 * d" "unat (htonl w) = 256 * (c + 256 * b + 65536 * a) + d"
    "a < 256" "b < 256" "c < 256" "d < (256 :: nat)"
proof -
  obtain a b c d where w: "unat w = a + 256 * (b + 256 * (c + 256 * d))" "a < 256" "b < 256" "c < 256" "d < 256"
    by (rule u32_bytes)
  then show ?thesis using unat_htonl [OF w] by (intro that [of a b c d]) simp_all
qed

lemma htonl_last_octet: "unat (htonl w) mod 256 = unat w div 16777216"
proof -
  obtain a b c d where w: "unat w = (a + 256 * b + 65536 * c) + 16777216 * d"
      "unat (htonl w) = 256 * (c + 256 * b + 65536 * a) + d" "a < 256" "b < 256" "c < 256" "d < (256 :: nat)"
    by (rule unat_htonl_bytes)
  define x where "x = a + 256 * b + 65536 * c"
  have "x < 16777216" using w(3-5) by (simp add: x_def)
  then have "unat w div 16777216 = d" by (simp add: w(1) flip: x_def)
  moreover have "(256 * y + d) mod 256 = d" for y using w(6) by simp
  then have "unat (htonl w) mod 256 = d" unfolding w(2) .
  ultimately show ?thesis by simp
qed

lemma htonl_network:
  "unat (htonl v) div 256 = unat (htonl w) div 256 \<longleftrightarrow> unat v mod 16777216 = unat w mod 16777216"
proof -
  have p: "\<exists>a b c. unat (htonl w) div 256 = c + 256 * b + 65536 * a \<and> unat w mod 16777216 = a + 256 * b + 65536 * c \<and>
      a < 256 \<and> b < 256 \<and> c < 256" for w
  proof -
    obtain a b c d where w: "unat w = (a + 256 * b + 65536 * c) + 16777216 * d"
        "unat (htonl w) = 256 * (c + 256 * b + 65536 * a) + d" "a < 256" "b < 256" "c < 256" "d < (256 :: nat)"
      by (rule unat_htonl_bytes)
    define x where "x = a + 256 * b + 65536 * c"
    define y where "y = c + 256 * b + 65536 * a"
    have "x < 16777216" using w(3-5) by (simp add: x_def)
    then have "unat w mod 16777216 = x" by (simp add: w(1) flip: x_def)
    moreover have "unat (htonl w) div 256 = y" unfolding w(2) y_def [symmetric] using w(6) by simp
    ultimately show ?thesis using w(3-5) x_def y_def by blast
  qed
  obtain a b c a' b' c' where *: "unat (htonl v) div 256 = c + 256 * b + 65536 * a" "unat v mod 16777216 = a + 256 * b + 65536 * c"
      "unat (htonl w) div 256 = c' + 256 * b' + 65536 * a'" "unat w mod 16777216 = a' + 256 * b' + 65536 * c'"
      "a < 256" "b < 256" "c < 256" "a' < 256" "b' < 256" "c' < 256"
    using p [of v] p [of w] by blast
  have e: "x + 256 * y + 65536 * z = x' + 256 * y' + 65536 * z' \<longleftrightarrow> x = x' \<and> y = y' \<and> z = z'"
    if "x < 256" "y < 256" "x' < 256" "y' < 256" for x y z x' y' z' :: nat
  proof -
    have s: "u + 256 * k = u' + 256 * k' \<longleftrightarrow> u = u' \<and> k = k'" if "u < 256" "u' < 256" for u k u' k' :: nat
      using byte_split [OF that(1), of k] byte_split [OF that(2), of k'] by metis
    have "x + 256 * y + 65536 * z = x + 256 * (y + 256 * z)" for x y z :: nat by simp
    then show ?thesis using that by (simp only: s)
  qed
  show ?thesis unfolding * using *(5-10) by (auto simp: e)
qed

lemma network_order:
  assumes "unat v mod 16777216 = unat w mod 16777216"
  shows "v \<le> w \<longleftrightarrow> unat v div 16777216 \<le> unat w div 16777216" "htonl v \<le> htonl w \<longleftrightarrow> v \<le> w"
proof -
  have ord: "x \<le> y \<longleftrightarrow> x div m \<le> y div m" if "x mod m = y mod m" for x y m :: nat
    using that by (metis div_le_mono div_mult_mod_eq add_le_cancel_right mult_le_mono1)
  show 1: "v \<le> w \<longleftrightarrow> unat v div 16777216 \<le> unat w div 16777216" unfolding word_le_nat_alt by (rule ord [OF assms])
  have d: "unat (htonl v) div 256 = unat (htonl w) div 256" using assms by (simp add: htonl_network)
  have "htonl v \<le> htonl w \<longleftrightarrow> unat (htonl v) mod 256 \<le> unat (htonl w) mod 256" unfolding word_le_nat_alt
    using d by (metis add_le_cancel_left mult_div_mod_eq)
  then show "htonl v \<le> htonl w \<longleftrightarrow> v \<le> w" by (simp add: htonl_last_octet 1)
qed

lemma or_octet:
  assumes "unat (h :: u32) mod 256 = 0" and "unat (l :: u32) < 256"
  shows "unat (h OR l) = unat h + unat l"
proof -
  have "\<not> bit h n" if "n < 8" for n
  proof -
    have "h AND mask 8 = 0" using unat_and_mask [of h 8] assms(1) by (simp add: word_unat_eq_iff)
    then have "\<not> bit (h AND mask 8) n" by simp
    then show ?thesis using that by (simp add: bit_and_iff bit_mask_iff)
  qed
  moreover have "\<not> bit l n" if "8 \<le> n" for n
  proof -
    have "l AND mask 8 = l" using unat_and_mask [of l 8] assms(2) by (simp add: word_unat_eq_iff)
    then have "bit l n = bit (l AND mask 8) n" by simp
    then show ?thesis using that by (simp add: bit_and_iff bit_mask_iff)
  qed
  ultimately have "h + l = h OR l" by (intro disjunctive_add) (metis not_le)
  then have "unat (h OR l) = unat (h + l)" by simp
  also have "\<dots> = unat h + unat l"
  proof -
    have "unat h \<le> 4294967040" using assms(1) unat_u32_less [of h] by presburger
    then show ?thesis using assms(2) by (simp add: unat_word_ariths)
  qed
  finally show ?thesis .
qed

definition start_ok :: "dhcps_lease \<Rightarrow> bool" where
  "start_ok l \<longleftrightarrow> (enable l \<longrightarrow> unat (end_ip l) div 16777216 < 255)"

lemma init_lease_eq:
  assumes "s = htonl (start_ip l)" and "e = htonl (end_ip l)" and "a = htonl addr"
    and "j = (if 0x80 \<le> a AND 0xFF then (a AND 0xFF) - 100 else (a AND 0xFF) + 1)"
  shows "wifi_softap_init_dhcps_lease addr l =
    (if enable l \<and> \<not> (s \<le> a \<and> a \<le> e) \<and> \<not> (shr s 8 \<noteq> shr a 8 \<or> shr e 8 \<noteq> shr a 8) \<and> \<not> 100 < e - s then l
     else \<lparr>enable = False, start_ip = htonl (a AND 0xFFFFFF00 OR j), end_ip = htonl (a AND 0xFFFFFF00 OR j + 100 - 1)\<rparr>)"
proof -
  define P Q R where "P \<longleftrightarrow> s \<le> a \<and> a \<le> e" and "Q \<longleftrightarrow> shr s 8 \<noteq> shr a 8 \<or> shr e 8 \<noteq> shr a 8" and "R \<longleftrightarrow> 100 < e - s"
  show ?thesis
    unfolding wifi_softap_init_dhcps_lease_def Let_def DHCPS_MAX_LEASE_def assms(1-3)[symmetric] assms(4)
      P_def [symmetric] Q_def [symmetric] R_def [symmetric]
    by (cases "enable l"; cases P; cases Q; cases R) simp_all
qed

lemma near: "x div 256 = y div 256 \<Longrightarrow> x < y + 256" for x y :: nat
  using div_mult_mod_eq [of x 256] div_mult_mod_eq [of y 256] mod_less_divisor [of 256 x] by linarith

lemma init_lease_user:
  assumes "start_ok l" and "enable l" and "\<not> (htonl (start_ip l) \<le> htonl addr \<and> htonl addr \<le> htonl (end_ip l))"
    and "shr (htonl (start_ip l)) 8 = shr (htonl addr) 8" "shr (htonl (end_ip l)) 8 = shr (htonl addr) 8"
    and "\<not> 100 < htonl (end_ip l) - htonl (start_ip l)"
  shows "pool_ok l \<and> \<not> in_pool l addr \<and> unat (start_ip l) mod 16777216 = unat addr mod 16777216"
proof -
  let ?a = "htonl addr" and ?s = "htonl (start_ip l)" and ?e = "htonl (end_ip l)"
  have m: "unat (start_ip l) mod 16777216 = unat addr mod 16777216" "unat (end_ip l) mod 16777216 = unat addr mod 16777216"
    using assms(4,5) by (simp_all add: word_unat_eq_iff unat_shr htonl_network)
  have "start_ip l \<le> end_ip l"
  proof (rule ccontr)
    assume "\<not> start_ip l \<le> end_ip l"
    then have lt: "\<not> ?s \<le> ?e" using network_order(2) [of "start_ip l" "end_ip l"] m by simp
    have d: "unat ?s div 256 = unat ?e div 256" using m by (simp add: htonl_network)
    have "unat ?e < unat ?s" using lt by (simp add: word_le_nat_alt)
    moreover have "unat ?s < unat ?e + 256" using d by (rule near)
    moreover have "unat (?e - ?s) = unat ?e + 4294967296 - unat ?s"
      using \<open>unat ?e < unat ?s\<close> by (simp add: unat_sub_if')
    ultimately have "100 < unat (?e - ?s)" by linarith
    then show False using assms(6) by (simp add: word_less_nat_alt)
  qed
  moreover have "\<not> in_pool l addr"
    using assms(3) m network_order(2) [of "start_ip l" addr] network_order(2) [of addr "end_ip l"]
    by (simp add: in_pool_def)
  ultimately show ?thesis using assms(1,2) m by (simp add: pool_ok_def start_ok_def)
qed

lemma init_lease_default:
  assumes "a = htonl addr" and "j = (if 0x80 \<le> a AND 0xFF then (a AND 0xFF) - 100 else (a AND 0xFF) + 1)"
    and "l = \<lparr>enable = False, start_ip = htonl (a AND 0xFFFFFF00 OR j), end_ip = htonl (a AND 0xFFFFFF00 OR j + 100 - 1)\<rparr>"
  shows "pool_ok l \<and> \<not> in_pool l addr \<and> unat (start_ip l) mod 16777216 = unat addr mod 16777216"
proof -
  let ?h = "a AND 0xFFFFFF00" and ?o = "a AND 0xFF"
  have h: "unat ?h = 256 * (unat a div 256)"
  proof -
    have "(0xFFFFFF00 :: u32) = NOT (mask 8)" by (simp add: mask_eq_exp_minus_1 word_unat_eq_iff)
    then show ?thesis using and_not_mask_unat [of a 8] by (simp add: minus_mod_eq_mult_div)
  qed
  have o: "unat ?o = unat a mod 256" using unat_and_mask [of a 8] by (simp add: mask_eq_exp_minus_1)
  have o8: "unat ?o < 256" by (simp add: o)
  have j: "unat j = (if 128 \<le> unat ?o then unat ?o - 100 else unat ?o + 1)"
    using o8 by (simp add: assms(2) word_le_nat_alt unat_word_ariths unat_sub_if')
  have j': "unat (j + 100 - 1) = unat j + 99"
  proof -
    have "unat (j + 99) = unat j + 99" using j o8 by (simp add: unat_word_ariths split: if_splits)
    moreover have "j + 100 - 1 = j + 99" by simp
    ultimately show ?thesis by (simp only:)
  qed
  have le: "unat j + 99 < 255" using j o8 by (simp split: if_splits)
  have b: "unat (?h OR k) = 256 * (unat a div 256) + unat k" if "unat k < 256" for k
    using or_octet [OF _ that, of ?h] by (simp add: h)
  have p: "unat (htonl (?h OR k)) mod 16777216 = unat addr mod 16777216 \<and> unat (htonl (?h OR k)) div 16777216 = unat k"
    if k: "unat k < 256" for k
  proof
    have "unat (?h OR k) div 256 = unat a div 256" using k by (simp add: b)
    then show "unat (htonl (?h OR k)) mod 16777216 = unat addr mod 16777216"
      using htonl_network [of "htonl (?h OR k)" addr] by (simp add: assms(1))
    have "unat (?h OR k) mod 256 = unat k" using k by (simp add: b)
    then show "unat (htonl (?h OR k)) div 16777216 = unat k"
      using htonl_last_octet [of "htonl (?h OR k)"] by simp
  qed
  have k: "unat j < 256" "unat (j + 100 - 1) < 256" using le j' by simp_all
  note s = p [OF k(1)] and e = p [OF k(2)]
  have ad: "unat addr div 16777216 = unat ?o" using htonl_last_octet [of addr] o unfolding assms(1) by (simp only:)
  have out: "\<not> (unat j \<le> unat ?o \<and> unat ?o \<le> unat j + 99)" 
  proof -
    have "\<not> (y \<le> x \<and> x \<le> y + 99)" if "y = (if 128 \<le> x then x - 100 else x + 1)" for x y :: nat
      using that by (simp split: if_splits)
    then show ?thesis using j .
  qed
  have "start_ip l \<le> end_ip l" using network_order(1) [of "start_ip l" "end_ip l"] s e j' by (simp add: assms(3))
  moreover have "\<not> (start_ip l \<le> addr \<and> addr \<le> end_ip l)"
    using network_order(1) [of "start_ip l" addr] network_order(1) [of addr "end_ip l"] s e j' out ad
    by (simp add: assms(3))
  ultimately show ?thesis using s e j' le by (simp add: pool_ok_def in_pool_def assms(3))
qed

lemma init_pool:
  assumes "start_ok l"
  shows "pool_ok (wifi_softap_init_dhcps_lease addr l) \<and> \<not> in_pool (wifi_softap_init_dhcps_lease addr l) addr \<and>
    unat (start_ip (wifi_softap_init_dhcps_lease addr l)) mod 16777216 = unat addr mod 16777216"
proof -
  let ?a = "htonl addr" and ?s = "htonl (start_ip l)" and ?e = "htonl (end_ip l)"
  show ?thesis
  proof (cases "enable l \<and> \<not> (?s \<le> ?a \<and> ?a \<le> ?e) \<and> \<not> (shr ?s 8 \<noteq> shr ?a 8 \<or> shr ?e 8 \<noteq> shr ?a 8) \<and> \<not> 100 < ?e - ?s")
    case True
    show ?thesis unfolding init_lease_eq [OF refl refl refl refl] if_P [OF True]
      using True by (intro init_lease_user assms) simp_all
  next
    case False
    show ?thesis unfolding init_lease_eq [OF refl refl refl refl] if_not_P [OF False]
      by (rule init_lease_default [OF refl refl refl])
  qed
qed

text \<open>The pool with which the server starts, whether the user's or the default of 100 addresses beside the
  server's, lies in the server's /24 network, does not reach the octet 255, is not empty and does not hold the
  server's own address.\<close>

theorem init_lease_pool:
  "start_ok l \<Longrightarrow> pool_ok (wifi_softap_init_dhcps_lease addr l) \<and> \<not> in_pool (wifi_softap_init_dhcps_lease addr l) addr \<and>
    unat (start_ip (wifi_softap_init_dhcps_lease addr l)) mod 16777216 = unat addr mod 16777216"
  by (rule init_pool)

end
