(* ===== verification/Dhcps_Runs.thy ===== *)
theory Dhcps_Runs
  imports Dhcps_Start
begin

text \<open>
  The server as the rest of the system drives it: the step relation of requests, releases, ticks and
  settings from a start on, the invariant of everything it reaches, and what lies outside it, requests for
  addresses that are not in the pool and static leases.
\<close>

section \<open>The address of the server\<close>

lemma update_leases_server: "server_address (snd (update_leases b a t r s)) = server_address s"
  by (auto simp: update_leases_def Let_def split: prod.split option.split)

lemma client_update_server:
  "wifi_softap_dhcps_client_update bssid addr s = (r, s') \<Longrightarrow> server_address s' = server_address s"
proof -
  have "server_address (snd (wifi_softap_dhcps_client_update bssid addr s)) = server_address s"
    by (simp add: wifi_softap_dhcps_client_update_def Let_def update_leases_server split: option.split prod.split)
  then show "wifi_softap_dhcps_client_update bssid addr s = (r, s') \<Longrightarrow> server_address s' = server_address s" by simp
qed

section \<open>One lease for a station\<close>









section \<open>Static leases\<close>

text \<open>The leases fill the pool from its start without a gap.\<close>

definition gapless :: "dhcps \<Rightarrow> bool" where
  "gapless s \<longleftrightarrow> dhcps_ok s \<and> map ip (plist s) = map (\<lambda>k. (next_ip ^^ k) (start_ip (lease s))) [0..<length (plist s)]"

lemma add_lease_scan_eq:
  "add_lease_scan macaddr start ps =
    (if take 6 macaddr \<in> mac ` set ps then None else Some ((next_ip ^^ length ps) start))"
  by (induction ps arbitrary: start) (auto simp: funpow_swap1)

lemma gapless_next:
  assumes "gapless s"
  defines "a \<equiv> (next_ip ^^ length (plist s)) (start_ip (lease s))"
  shows "unat a mod 16777216 = unat (start_ip (lease s)) mod 16777216" "start_ip (lease s) \<le> a" "\<forall>p \<in> set (plist s). ip p < a"
proof -
  have ok: "dhcps_ok s" and m: "map ip (plist s) = map (\<lambda>k. (next_ip ^^ k) (start_ip (lease s))) [0..<length (plist s)]"
    using assms(1) by (simp_all add: gapless_def)
  have "unat a mod 16777216 = unat (start_ip (lease s)) mod 16777216 \<and> start_ip (lease s) \<le> a \<and> (\<forall>p \<in> set (plist s). ip p < a)"
  proof (cases "plist s = []")
    case True
    then show ?thesis by (simp add: a_def)
  next
    case False
    then obtain ps q where ps: "plist s = ps @ [q]" by (metis rev_exhaust)
    have srt: "sorted_wrt (<) (map ip (plist s))" using ok by (simp add: dhcps_ok_def leases_ok_def)
    have "map ip (plist s) ! length ps = (next_ip ^^ length ps) (start_ip (lease s))"
      unfolding m by (subst nth_map) (simp_all add: ps del: upt_Suc)
    then have "ip q = (next_ip ^^ length ps) (start_ip (lease s))" by (simp add: ps nth_append)
    then have a: "a = next_ip (ip q)" by (simp add: a_def ps)
    have "q \<in> set (plist s)" by (simp add: ps)
    note q = pool_addresses [OF ok this]
    have n: "unat a = unat (ip q) + 16777216" unfolding a by (rule unat_next_ip [OF q(2)])
    then have l: "ip q < a" by (simp add: word_less_nat_alt)
    then have "\<forall>p \<in> set (plist s). ip p < a" using srt by (auto simp: ps sorted_wrt_append)
    then show ?thesis using n q(1) order_le_less_trans [OF q(3) l] by simp
  qed
  then show "unat a mod 16777216 = unat (start_ip (lease s)) mod 16777216" "start_ip (lease s) \<le> a" "\<forall>p \<in> set (plist s). ip p < a"
    by simp_all
qed

lemma insert_after_last: "\<forall>p \<in> set ps. ip p < ip n \<Longrightarrow> insert_after n ps = ps @ [n]"
  by (induction ps) auto

text \<open>On leases that fill the pool from its start without a gap, wifi_softap_add_dhcps_lease gives a new station the
  next address, refuses a known station or a full pool, and leaves no gap again.\<close>

theorem add_lease_gapless:
  assumes g: "gapless s" and u: "wifi_softap_add_dhcps_lease macaddr s = (ok, s')"
  shows "gapless s' \<and>
    (if take 6 macaddr \<in> mac ` set (plist s) \<or> end_ip (lease s) < (next_ip ^^ length (plist s)) (start_ip (lease s))
     then \<not> ok \<and> s' = s
     else ok \<and> map ip (plist s') = map ip (plist s) @ [(next_ip ^^ length (plist s)) (start_ip (lease s))] \<and>
       map mac (plist s') = map mac (plist s) @ [take 6 macaddr])"
proof -
  let ?a = "(next_ip ^^ length (plist s)) (start_ip (lease s))"
  let ?n = "\<lparr>ip = ?a, mac = take 6 macaddr, lease_timer = dhcps_lease_time s, pool_type = DHCPS_TYPE_STATIC,
    pool_state = DHCPS_STATE_ONLINE\<rparr>"
  note a = gapless_next [OF g]
  show ?thesis
  proof (cases "take 6 macaddr \<in> mac ` set (plist s) \<or> end_ip (lease s) < ?a")
    case True
    then show ?thesis using u g
      by (auto simp: wifi_softap_add_dhcps_lease_def add_lease_scan_eq split: if_splits)
  next
    case False
    have ps: "node_insert_to_list (plist s) ?n = plist s @ [?n]"
      unfolding node_insert_eq by (rule insert_after_last) (use a(3) in simp)
    have s': "ok" "s' = s\<lparr>plist := plist s @ [?n]\<rparr>"
      using u False by (simp_all add: wifi_softap_add_dhcps_lease_def add_lease_scan_eq ps)
    have ok: "dhcps_ok s" using g by (simp add: gapless_def)
    then have "leases_ok (node_insert_to_list (plist s) ?n)"
      by (intro insert_leases_ok) (use a(3) False in \<open>auto simp: dhcps_ok_def\<close>)
    moreover have "in_pool (lease s) ?a" using a False by (simp add: in_pool_def not_less)
    ultimately have "dhcps_ok s'" using ok by (simp add: dhcps_ok_def s'(2) ps)
    then have "gapless s'" using g by (simp add: gapless_def s'(2))
    then show ?thesis using False s' by simp
  qed
qed

section \<open>All runs\<close>

text \<open>The server as the rest of the system drives it: starts, requests of stations, releases, static leases, minute ticks,
  settings and stops in any order.  \<open>served orderly s\<close>: \<open>s\<close> can be reached, and \<open>orderly\<close> says how: since the last start with no
  leases all requests were for no particular address or for one of the pool, static leases were added only to leases without a
  gap, and the pool was not changed.\<close>

inductive served :: "bool \<Rightarrow> dhcps \<Rightarrow> bool" where
  start: "plist s = [] \<Longrightarrow> dhcps_start netif_ip netif_mask (Some addr) s = Some s' \<Longrightarrow> served (start_ok (lease s)) s'"
| restart: "served orderly s \<Longrightarrow> dhcps_start netif_ip netif_mask info s = Some s' \<Longrightarrow> served False s'"
| request: "served orderly s \<Longrightarrow> wifi_softap_dhcps_client_update bssid addr s = (r, s') \<Longrightarrow>
    served (orderly \<and> admissible (lease s) addr) s'"
| release: "served orderly s \<Longrightarrow> wifi_softap_dhcps_client_leave bssid addr force s = (e, s') \<Longrightarrow> served orderly s'"
| static: "served orderly s \<Longrightarrow> wifi_softap_add_dhcps_lease macaddr s = (b, s') \<Longrightarrow> served (orderly \<and> gapless s) s'"
| minute: "served orderly s \<Longrightarrow> dhcps_coarse_tmr s = Some s' \<Longrightarrow> served orderly s'"
| dns: "served orderly s \<Longrightarrow> served orderly (dhcps_set_dns d s)"
| option: "served orderly s \<Longrightarrow> wifi_softap_set_dhcps_offer_option k level optarg s = Some (b, s') \<Longrightarrow> served orderly s'"
| pool: "served orderly s \<Longrightarrow> wifi_softap_set_dhcps_lease k please s = (b, s') \<Longrightarrow> served (orderly \<and> lease s' = lease s) s'"
| lease_time: "served orderly s \<Longrightarrow> wifi_softap_set_dhcps_lease_time k minutes s = (b, s') \<Longrightarrow> served orderly s'"
| reset_time: "served orderly s \<Longrightarrow> wifi_softap_reset_dhcps_lease_time k s = (b, s') \<Longrightarrow> served orderly s'"
| stop: "served orderly s \<Longrightarrow> dhcps_stop s = (e, s') \<Longrightarrow> served orderly s'"

inductive_cases served_cases: "served orderly s"

definition serving_ok :: "dhcps \<Rightarrow> bool" where
  "serving_ok s \<longleftrightarrow> dhcps_ok s \<and> \<not> in_pool (lease s) (server_address s)"


lemma served_ok: "served orderly s \<Longrightarrow> orderly \<Longrightarrow> serving_ok s"
proof (induction rule: served.induct)
  case (start s netif_ip netif_mask addr s')
  then show ?case using init_pool [of "lease s" addr]
    by (auto simp: dhcps_start_def Let_def serving_ok_def dhcps_ok_def leases_ok_def)
next
  case (request orderly s bssid addr r s')
  then show ?case using client_update_keeps [of s addr bssid r s'] client_update_server [of bssid addr s r s']
    by (auto simp: serving_ok_def)
next
  case (release orderly s bssid addr force e s')
  then show ?case using client_leave_keeps [of s bssid addr force e s'] by (simp add: serving_ok_def)
next
  case (static orderly s macaddr b s')
  then have "gapless s'" using add_lease_gapless [of s macaddr b s'] by blast
  moreover have "lease s' = lease s \<and> server_address s' = server_address s" using static.hyps(2)
    by (auto simp: wifi_softap_add_dhcps_lease_def split: option.splits if_splits)
  ultimately show ?case using static by (simp add: serving_ok_def gapless_def)
next
  case (minute orderly s s')
  then show ?case using coarse_tmr_keeps [of s s'] by (simp add: serving_ok_def)
next
  case (dns orderly s d)
  then show ?case by (auto simp: dhcps_set_dns_def serving_ok_def dhcps_ok_def split: option.split)
next
  case (option orderly s k level optarg b s')
  then show ?case by (auto simp: wifi_softap_set_dhcps_offer_option_def serving_ok_def dhcps_ok_def
        split: option.splits if_splits)
next
  case (pool orderly s k please b s')
  then have "plist s' = plist s \<and> server_address s' = server_address s"
    by (auto simp: wifi_softap_set_dhcps_lease_def Let_def split: option.splits if_splits)
  then show ?case using pool by (simp add: serving_ok_def dhcps_ok_def)
next
  case (lease_time orderly s k minutes b s')
  then show ?case by (auto simp: wifi_softap_set_dhcps_lease_time_def serving_ok_def dhcps_ok_def split: if_splits)
next
  case (reset_time orderly s k b s')
  then show ?case by (auto simp: wifi_softap_reset_dhcps_lease_time_def serving_ok_def dhcps_ok_def split: if_splits)
next
  case (stop orderly s e s')
  then show ?case by (auto simp: dhcps_stop_def serving_ok_def dhcps_ok_def leases_ok_def)
qed simp


definition example_server :: dhcps where
  "example_server = dhcps_init\<lparr>server_address := 0x0104a8c0, broadcast_dhcps := 0xff04a8c0,
     lease := \<lparr>enable = False, start_ip = 0x0204a8c0, end_ip = 0x6504a8c0\<rparr>\<rparr>"

lemma example_server_started: "dhcps_start 0x0104a8c0 0x00ffffff (Some 0x0104a8c0) dhcps_init = Some example_server"
  by (simp add: dhcps_start_def wifi_softap_init_dhcps_lease_def dhcps_init_def example_server_def Let_def htonl_def
      DHCPS_MAX_LEASE_def word_le_nat_alt)

definition one_lease :: dhcps where
  "one_lease = snd (wifi_softap_dhcps_client_update (Some [1, 2, 3, 4, 5, 6]) None example_server)"

lemmas client_update_eval = wifi_softap_dhcps_client_update_def update_leases_def Let_def next_ip_def htonl_def
  word_le_nat_alt word_less_nat_alt node_insert_to_list_def example_server_def dhcps_init_def DHCPS_LEASE_TIME_DEF_def

lemma one_lease_eq: "one_lease = example_server\<lparr>plist := [\<lparr>ip = 0x0204a8c0, mac = [1, 2, 3, 4, 5, 6], lease_timer = 120,
    pool_type = DHCPS_TYPE_DYNAMIC, pool_state = DHCPS_STATE_ONLINE\<rparr>]\<rparr>"
  by (simp add: one_lease_def client_update_eval)

lemma example_server_served: "served True example_server"
  using served.start [OF _ example_server_started] by (simp add: dhcps_init_def start_ok_def)

lemma one_lease_served: "served True one_lease"
proof -
  have "admissible (lease example_server) None" by (simp add: admissible_def)
  moreover have "wifi_softap_dhcps_client_update (Some [1, 2, 3, 4, 5, 6]) None example_server =
      (fst (wifi_softap_dhcps_client_update (Some [1, 2, 3, 4, 5, 6]) None example_server), one_lease)"
    by (simp add: one_lease_def)
  ultimately show ?thesis using served.request [OF example_server_served, of "Some [1, 2, 3, 4, 5, 6]" None _ one_lease] by simp
qed

lemma one_lease_ok: "dhcps_ok one_lease"
  using served_ok [OF one_lease_served] by (simp add: serving_ok_def)


lemma new_station_first_fit_witness:
  "fst (wifi_softap_dhcps_client_update (Some [7, 7, 7, 7, 7, 7]) None one_lease) = 0x0304a8c0 \<and>
   answered [7, 7, 7, 7, 7, 7] 0x0304a8c0 (snd (wifi_softap_dhcps_client_update (Some [7, 7, 7, 7, 7, 7]) None one_lease))"
proof -
  have "take 6 [7, 7, 7, 7, 7, 7] \<notin> mac ` set (plist one_lease)" by (simp add: one_lease_eq)
  note * = new_station_first_fit [OF one_lease_ok this surjective_pairing]
  have r: "fst (wifi_softap_dhcps_client_update (Some [7, 7, 7, 7, 7, 7]) None one_lease) = 0x0304a8c0"
    by (simp add: one_lease_eq client_update_eval)
  have "in_pool (lease one_lease) 0x0304a8c0 \<and> 0x0304a8c0 \<notin> ip ` set (plist one_lease)"
    by (simp add: one_lease_eq in_pool_def example_server_def word_le_nat_alt)
  then have "\<exists>x. in_pool (lease one_lease) x \<and> x \<notin> ip ` set (plist one_lease)" by blast
  with * show ?thesis by (simp only: r if_True)
qed

lemma init_lease_pool_witness:
  "pool_ok (wifi_softap_init_dhcps_lease 0x0104a8c0 \<lparr>enable = True, start_ip = 0x6404a8c0, end_ip = 0xc804a8c0\<rparr>)"
proof -
  have "start_ok \<lparr>enable = True, start_ip = 0x6404a8c0, end_ip = 0xc804a8c0\<rparr>" by (simp add: start_ok_def)
  from init_lease_pool [OF this, of "0x0104a8c0"] show ?thesis by simp
qed

lemma coarse_tmr_frees_witness:
  "\<exists>ps. dhcps_coarse_tmr one_lease = Some (one_lease\<lparr>plist := ps\<rparr>) \<and> length ps < 8 \<and> ps = stay (plist one_lease)"
proof -
  have l: "length (plist one_lease) \<le> 8" "length (stay (plist one_lease)) mod 256 < 8"
    by (simp_all add: one_lease_eq stay_def)
  from coarse_tmr_frees [of one_lease] show ?thesis using l by (auto simp: Let_def)
qed

section \<open>Outside the pool\<close>

text \<open>A station that has a lease and asks by address gets any address that no lease has, in the pool or not, even
  the server's own (wifi_softap_dhcps_client_update checks no bound on this path).\<close>

theorem known_station_takes_any_address:
  assumes ok: "dhcps_ok s" and known: "take 6 b \<in> mac ` set (plist s)"
    and x: "x \<noteq> 0" "x \<noteq> 0xffffffff" "x \<notin> ip ` set (plist s)"
  shows "fst (wifi_softap_dhcps_client_update (Some b) (Some x) s) = x \<and>
    answered b x (snd (wifi_softap_dhcps_client_update (Some b) (Some x) s))"
proof -
  obtain pm pip fl st where sc: "update_scan b (Some x) 0 (plist s) (None, None, False, start_ip (lease s)) = (pm, pip, fl, st)"
    by (rule prod_cases4)
  note * = scan_static [OF sc]
  obtain m where pm: "pm = Some m" "m < length (plist s)" "mac (plist s ! m) = take 6 b" using * known by auto
  have pip: "pip = None" using * x(3) nth_mem by fastforce
  have "wifi_softap_dhcps_client_update (Some b) (Some x) s =
    (x, s\<lparr>renew := False, plist := node_insert_to_list (node_remove_from_list (plist s) m)
        (renewed (s\<lparr>renew := False\<rparr>) DHCPS_TYPE_STATIC ((plist s ! m)\<lparr>ip := x\<rparr>))\<rparr>)"
    using client_update_eq [OF _ sc] x by (simp add: pm pip update_leases_def Let_def)
  then show ?thesis using pm by (auto simp: answered_def node_insert_eq renewed_def)
qed

lemma known_station_takes_any_address_witness:
  "fst (wifi_softap_dhcps_client_update (Some [1, 2, 3, 4, 5, 6]) (Some 0x0104a8c0) one_lease) = server_address one_lease"
proof -
  have k: "take 6 [1, 2, 3, 4, 5, 6] \<in> mac ` set (plist one_lease)" "0x0104a8c0 \<notin> ip ` set (plist one_lease)"
    by (simp_all add: one_lease_eq)
  have "server_address one_lease = 0x0104a8c0" by (simp add: one_lease_eq example_server_def)
  then show ?thesis using known_station_takes_any_address [OF one_lease_ok k(1) _ _ k(2)] by simp
qed

section \<open>Static leases over a gap\<close>

definition gap_lease :: dhcps where
  "gap_lease = snd (wifi_softap_dhcps_client_leave (Some [1, 2, 3, 4, 5, 6]) (Some 0x0204a8c0) True
     (snd (wifi_softap_dhcps_client_update (Some [7, 7, 7, 7, 7, 7]) None one_lease)))"

text \<open>With a gap it can give an address that is in use: two stations have leases, the first is forced to leave,
  and the next static lease has the address of the second.\<close>

theorem add_lease_duplicate:
  "served True gap_lease \<and> fst (wifi_softap_add_dhcps_lease [9, 9, 9, 9, 9, 9] gap_lease) \<and>
   map ip (plist (snd (wifi_softap_add_dhcps_lease [9, 9, 9, 9, 9, 9] gap_lease))) = [0x0304a8c0, 0x0304a8c0]"
proof -
  let ?s = "snd (wifi_softap_dhcps_client_update (Some [7, 7, 7, 7, 7, 7]) None one_lease)"
  have "served True ?s"
    using served.request [OF one_lease_served surjective_pairing, of None "Some [7, 7, 7, 7, 7, 7]"] by (simp add: admissible_def)
  then have s: "served True gap_lease" unfolding gap_lease_def by (rule served.release) (rule surjective_pairing)
  have "plist ?s = [\<lparr>ip = 0x0204a8c0, mac = [1, 2, 3, 4, 5, 6], lease_timer = 120, pool_type = DHCPS_TYPE_DYNAMIC,
       pool_state = DHCPS_STATE_ONLINE\<rparr>, \<lparr>ip = 0x0304a8c0, mac = [7, 7, 7, 7, 7, 7], lease_timer = 120,
       pool_type = DHCPS_TYPE_DYNAMIC, pool_state = DHCPS_STATE_ONLINE\<rparr>] \<and> lease ?s = lease example_server"
    by (simp add: one_lease_eq client_update_eval)
  then have "plist gap_lease = [\<lparr>ip = 0x0304a8c0, mac = [7, 7, 7, 7, 7, 7], lease_timer = 120,
       pool_type = DHCPS_TYPE_DYNAMIC, pool_state = DHCPS_STATE_ONLINE\<rparr>] \<and> lease gap_lease = lease example_server"
    by (simp add: gap_lease_def wifi_softap_dhcps_client_leave_def Let_def)
  then show ?thesis using s
    by (simp add: wifi_softap_add_dhcps_lease_def next_ip_def htonl_def example_server_def word_less_nat_alt node_insert_to_list_def)
qed

lemma add_lease_gapless_witness:
  "gapless (snd (wifi_softap_add_dhcps_lease [7, 7, 7, 7, 7, 7] one_lease)) \<and>
   map ip (plist (snd (wifi_softap_add_dhcps_lease [7, 7, 7, 7, 7, 7] one_lease))) = [0x0204a8c0, 0x0304a8c0]"
proof -
  have "gapless one_lease" by (simp add: gapless_def one_lease_ok) (simp add: one_lease_eq example_server_def)
  from add_lease_gapless [OF this surjective_pairing, of "[7, 7, 7, 7, 7, 7]"] show ?thesis
    by (simp add: one_lease_eq example_server_def next_ip_def htonl_def word_less_nat_alt)
qed

end
