(* ===== verification/Dhcps_Msg.thy ===== *)
theory Dhcps_Msg
  imports Dhcps_Lease
begin

text \<open>
  The messages of esp-dhcpserver.c: struct dhcps_msg (its field file is \<open>boot_file\<close> here), the options of a reply, send_offer, send_nak, send_ack,
  parse_options, parse_msg and handle_dhcp.  A pointer into the options is an index into that array;
  a result \<open>None\<close> is an access outside the object.  What the environment decides is an argument:
  whether os_zalloc and pbuf_alloc find memory.  A pbuf chain is the list of its segments' payloads;
  a pbuf that pbuf_alloc makes with PBUF_RAM is one segment.
\<close>

section \<open>The message\<close>

record dhcps_msg =
  op :: u8
  htype :: u8
  hlen :: u8
  hops :: u8
  xid :: "u8 list"
  secs :: u16
  flags :: u16
  ciaddr :: "u8 list"
  yiaddr :: "u8 list"
  siaddr :: "u8 list"
  giaddr :: "u8 list"
  chaddr :: "u8 list"
  sname :: "u8 list"
  boot_file :: "u8 list"
  options :: "u8 list"

text \<open>The structure as the bytes it consists of, 548 of them.\<close>

definition le16 :: "u16 \<Rightarrow> u8 list" where
  "le16 w = [ucast w, ucast (shr w 8)]"

definition of_le16 :: "u8 list \<Rightarrow> u16" where
  "of_le16 bs = ucast (bs ! 0) OR shl (ucast (bs ! 1)) 8"

definition of_le32 :: "u8 list \<Rightarrow> u32" where
  "of_le32 bs = ucast (bs ! 0) OR shl (ucast (bs ! 1)) 8 OR shl (ucast (bs ! 2)) 16 OR shl (ucast (bs ! 3)) 24"

definition msg_bytes :: "dhcps_msg \<Rightarrow> u8 list" where
  "msg_bytes m = [op m, htype m, hlen m, hops m] @ xid m @ le16 (secs m) @ le16 (flags m) @ ciaddr m @ yiaddr m @
     siaddr m @ giaddr m @ chaddr m @ sname m @ boot_file m @ options m"

definition bytes_msg :: "u8 list \<Rightarrow> dhcps_msg" where
  "bytes_msg bs = \<lparr>op = bs ! 0, htype = bs ! 1, hlen = bs ! 2, hops = bs ! 3, xid = take 4 (drop 4 bs),
     secs = of_le16 (take 2 (drop 8 bs)), flags = of_le16 (take 2 (drop 10 bs)), ciaddr = take 4 (drop 12 bs),
     yiaddr = take 4 (drop 16 bs), siaddr = take 4 (drop 20 bs), giaddr = take 4 (drop 24 bs), chaddr = take 16 (drop 28 bs),
     sname = take 64 (drop 44 bs), boot_file = take 128 (drop 108 bs), options = take 312 (drop 236 bs)\<rparr>"

section \<open>The options of a reply\<close>

definition magic_cookie :: u32 where
  "magic_cookie = 0x63538263"

text \<open>A run of \<open>*optptr++ = v\<close>.\<close>

fun puts :: "u8 list \<Rightarrow> nat \<times> u8 list \<Rightarrow> (nat \<times> u8 list) option" where
  "puts [] r = Some r"
| "puts (v # vs) (i, m) = do { m \<leftarrow> store m i v; puts vs (i + 1, m) }"

definition add_msg_type :: "u8 \<Rightarrow> nat \<times> u8 list \<Rightarrow> (nat \<times> u8 list) option" where
  "add_msg_type t optptr = puts [DHCP_OPTION_MSG_TYPE, 1, t] optptr"

text \<open>ip4_addr1 to ip4_addr4, the octets of an address.\<close>

definition octets :: "u32 \<Rightarrow> u8 list" where
  "octets a = [ucast (a AND 0xff), ucast (shr a 8 AND 0xff), ucast (shr a 16 AND 0xff), ucast (shr a 24 AND 0xff)]"

definition dhcps_router_enabled :: "u8 \<Rightarrow> bool" where
  "dhcps_router_enabled off \<longleftrightarrow> off AND 1 \<noteq> 0"

definition add_offer_options :: "sdk \<Rightarrow> dhcps \<Rightarrow> nat \<times> u8 list \<Rightarrow> (nat \<times> u8 list) option" where
  "add_offer_options k s optptr =
     (let ipadd = server_address s;
          seconds = dhcps_lease_time s * 60
      in do {
        optptr \<leftarrow> puts [DHCP_OPTION_SUBNET_MASK, 4] optptr;
        optptr \<leftarrow> puts (octets (ap_netmask k)) optptr;
        optptr \<leftarrow> puts [DHCP_OPTION_LEASE_TIME, 4] optptr;
        optptr \<leftarrow> puts [ucast (shr seconds 24 AND 0xff), ucast (shr seconds 16 AND 0xff), ucast (shr seconds 8 AND 0xff),
                        ucast (seconds AND 0xff)] optptr;
        optptr \<leftarrow> puts [DHCP_OPTION_SERVER_ID, 4] optptr;
        optptr \<leftarrow> puts (octets ipadd) optptr;
        optptr \<leftarrow> (if dhcps_router_enabled (offer s)
                   then do { optptr \<leftarrow> puts [DHCP_OPTION_ROUTER, 4] optptr; puts (octets (ap_gw k)) optptr }
                   else Some optptr);
        optptr \<leftarrow> puts [DHCP_OPTION_DNS_SERVER, 4] optptr;
        optptr \<leftarrow> (if dns_address s = 0 then puts (octets ipadd) optptr else puts (octets (dns_address s)) optptr);
        optptr \<leftarrow> puts [DHCP_OPTION_BROADCAST_ADDRESS, 4] optptr;
        optptr \<leftarrow> puts (take 3 (octets ipadd) @ [255]) optptr;
        optptr \<leftarrow> puts [DHCP_OPTION_INTERFACE_MTU, 2, 0x02, 0x40] optptr;
        puts [DHCP_OPTION_PERFORM_ROUTER_DISCOVERY, 1, 0x00] optptr })"

definition add_end :: "nat \<times> u8 list \<Rightarrow> (nat \<times> u8 list) option" where
  "add_end optptr = puts [DHCP_OPTION_END] optptr"

section \<open>Replies\<close>

definition htons :: "u16 \<Rightarrow> u16" where
  "htons w = push_bit 8 w OR drop_bit 8 w"

definition create_msg :: "dhcps \<Rightarrow> dhcps_msg \<Rightarrow> dhcps_msg" where
  "create_msg s m = m\<lparr>op := DHCP_REPLY, htype := DHCP_HTYPE_ETHERNET, hlen := 6, hops := 0, secs := 0,
     flags := htons BOOTP_BROADCAST, yiaddr := le_bytes (client_address s), ciaddr := replicate 4 0, siaddr := replicate 4 0,
     giaddr := replicate 4 0, sname := replicate 64 0, boot_file := replicate 128 0,
     options := le_bytes magic_cookie @ replicate 308 0\<rparr>"

text \<open>The copy into the pbuf and the transmission; nothing is sent when pbuf_alloc fails.\<close>

definition transmit :: "bool \<Rightarrow> dhcps \<Rightarrow> dhcps_msg \<Rightarrow> effect list" where
  "transmit alloc s m = (if alloc then [Send (broadcast_dhcps s) (msg_bytes m)] else [])"

definition send_offer :: "bool \<Rightarrow> sdk \<Rightarrow> dhcps \<Rightarrow> dhcps_msg \<Rightarrow> (effect list \<times> dhcps_msg) option" where
  "send_offer alloc k s m =
     (let m = create_msg s m in
      do { r \<leftarrow> add_msg_type DHCPOFFER (4, options m);
           r \<leftarrow> add_offer_options k s r;
           (i, opts) \<leftarrow> add_end r;
           let m = m\<lparr>options := opts\<rparr>;
           Some (transmit alloc s m, m) })"

definition send_nak :: "bool \<Rightarrow> dhcps \<Rightarrow> dhcps_msg \<Rightarrow> (effect list \<times> dhcps_msg) option" where
  "send_nak alloc s m =
     (let m = create_msg s m in
      do { r \<leftarrow> add_msg_type DHCPNAK (4, options m);
           (i, opts) \<leftarrow> add_end r;
           let m = m\<lparr>options := opts\<rparr>;
           Some (transmit alloc s m, m) })"

definition send_ack :: "bool \<Rightarrow> sdk \<Rightarrow> dhcps \<Rightarrow> dhcps_msg \<Rightarrow> (effect list \<times> dhcps_msg) option" where
  "send_ack alloc k s m =
     (let m = create_msg s m in
      do { r \<leftarrow> add_msg_type DHCPACK (4, options m);
           r \<leftarrow> add_offer_options k s r;
           (i, opts) \<leftarrow> add_end r;
           let m = m\<lparr>options := opts\<rparr>;
           Some (transmit alloc s m, m) })"

section \<open>Requests\<close>

text \<open>
  The option loop of parse_options: \<open>optptr\<close> is an index into the options, \<open>stop\<close> where \<open>end\<close> points,
  \<open>t\<close> and \<open>st\<close> the type and state so far.
\<close>

function parse_loop :: "u8 list \<Rightarrow> u32 \<Rightarrow> int \<Rightarrow> nat \<Rightarrow> nat \<Rightarrow> nat \<Rightarrow> (nat \<times> nat) option" where
  "parse_loop opts client stop optptr t st =
     (if int optptr < stop then do {
        code \<leftarrow> fetch opts optptr;
        if code = DHCP_OPTION_END then Some (t, st)
        else do {
          (t, st) \<leftarrow> (if code = DHCP_OPTION_MSG_TYPE then do { v \<leftarrow> fetch opts (optptr + 2); Some (unat v, st) }
                     else if code = DHCP_OPTION_REQ_IPADDR then do {
                       a \<leftarrow> fetch opts (optptr + 2); b \<leftarrow> fetch opts (optptr + 3);
                       c \<leftarrow> fetch opts (optptr + 4); d \<leftarrow> fetch opts (optptr + 5);
                       Some (t, if le_bytes client = [a, b, c, d] then DHCPS_STATE_ACK else DHCPS_STATE_NAK) }
                     else Some (t, st));
          len \<leftarrow> fetch opts (optptr + 1);
          parse_loop opts client stop (optptr + (unat len + 2)) t st } }
      else Some (t, st))"
  by pat_completeness auto
termination by (relation "measure (\<lambda>(opts, client, stop, optptr, t, st). nat stop - optptr)") (auto intro!: diff_less_mono2)

declare parse_loop.simps [simp del]

definition parse_verdict :: "bool \<Rightarrow> nat \<times> nat \<Rightarrow> nat" where
  "parse_verdict rn r =
     (case r of (t, st) \<Rightarrow>
        if t = DHCPDISCOVER then DHCPS_STATE_OFFER
        else if t = DHCPREQUEST then
          (if \<not> (st = DHCPS_STATE_ACK \<or> st = DHCPS_STATE_NAK)
           then (if rn then DHCPS_STATE_ACK else DHCPS_STATE_NAK) else st)
        else if t = DHCPDECLINE then DHCPS_STATE_IDLE
        else if t = DHCPRELEASE then DHCPS_STATE_RELEASE
        else st)"

definition parse_options :: "dhcps \<Rightarrow> u8 list \<Rightarrow> nat \<Rightarrow> u16 \<Rightarrow> nat option" where
  "parse_options s opts optptr len =
     do { r \<leftarrow> parse_loop opts (client_address s) (int optptr + sint len) optptr 0 DHCPS_STATE_IDLE;
          Some (parse_verdict (renew s) r) }"

definition parse_msg :: "dhcps_msg \<Rightarrow> u16 \<Rightarrow> dhcps \<Rightarrow> (nat \<times> effect list \<times> dhcps) option" where
  "parse_msg m len s =
     (if take 4 (options m) = le_bytes magic_cookie then
        (let addr = of_le32 (ciaddr m);
             (a, s) = wifi_softap_dhcps_client_update (Some (chaddr m)) (Some addr) s;
             s = s\<lparr>client_address := a\<rparr>
         in do {
           ret \<leftarrow> parse_options s (options m) 4 len;
           if ret = DHCPS_STATE_RELEASE then
             (case wifi_softap_dhcps_client_leave (Some (chaddr m)) (Some addr) True s of
                (e, s) \<Rightarrow> Some (ret, e, s\<lparr>client_address := addr\<rparr>))
           else Some (ret, [], s) })
      else Some (0, [], s))"

text \<open>The copy loops of handle_dhcp: a segment to the bytes of the message from \<open>i\<close> on.\<close>

definition handle_dhcp :: "bool \<Rightarrow> bool \<Rightarrow> sdk \<Rightarrow> u8 list list \<Rightarrow> dhcps \<Rightarrow> (effect list \<times> dhcps) option" where
  "handle_dhcp zalloc alloc k p s =
     (case p of
        [] \<Rightarrow> Some ([], s)
      | data # next \<Rightarrow>
          if \<not> zalloc then Some ([], s)
          else do {
            let tlen = (of_nat (sum_list (map length p)) :: u16);
            (i, bs) \<leftarrow> puts data (0, replicate 548 0);
            (i, bs) \<leftarrow> (case next of [] \<Rightarrow> Some (i, bs) | data2 # _ \<Rightarrow> puts data2 (i, bs));
            let m = bytes_msg bs;
            (ret, e, s) \<leftarrow> parse_msg m (tlen - 240) s;
            if ret = DHCPS_STATE_OFFER then do { (e', m) \<leftarrow> send_offer alloc k s m; Some (e @ e', s) }
            else if ret = DHCPS_STATE_ACK then
              do { (e', m) \<leftarrow> send_ack alloc k s m; Some (e @ e' @ [Station_Info (take 6 (chaddr m)) (client_address s)], s) }
            else if ret = DHCPS_STATE_NAK then do { (e', m) \<leftarrow> send_nak alloc s m; Some (e @ e', s) }
            else Some (e, s) })"

end
