(* ===== verification/Dhcps_Server.thy ===== *)
theory Dhcps_Server
  imports Dhcps_Runs Dhcps_Msg
begin

text \<open>
  What the messages of Dhcps_Msg mean: the options as a list of code and value, which the replies encode
  and parse_options decodes; the replies; and the whole exchange, from a datagram to the lease and the
  answer.  Then the datagrams handle_dhcp does not survive.
\<close>

section \<open>Options as a list\<close>

type_synonym option_list = "(u8 \<times> u8 list) list"

definition encode_options :: "option_list \<Rightarrow> u8 list" where
  "encode_options os = concat (map (\<lambda>(c, v). c # of_nat (length v) # v) os)"

text \<open>A reader of option lists, up to the END option.\<close>

function read_options :: "u8 list \<Rightarrow> option_list option" where
  "read_options [] = None"
| "read_options [c] = (if c = 255 then Some [] else None)"
| "read_options (c # l # rest) =
     (if c = 255 then Some []
      else if unat l \<le> length rest
      then do { os \<leftarrow> read_options (drop (unat l) rest); Some ((c, take (unat l) rest) # os) }
      else None)"
  by pat_completeness auto
termination by (relation "measure length") auto

definition options_ok :: "option_list \<Rightarrow> bool" where
  "options_ok os \<longleftrightarrow> (\<forall>(c, v) \<in> set os. c \<noteq> 255 \<and> length v < 256)"

lemma encode_simps [simp]:
  "encode_options [] = []" "encode_options ((c, v) # os) = c # of_nat (length v) # v @ encode_options os"
  "encode_options (os @ os') = encode_options os @ encode_options os'"
  by (simp_all add: encode_options_def)

lemma options_ok_simps [simp]:
  "options_ok []" "options_ok ((c, v) # os) \<longleftrightarrow> c \<noteq> 255 \<and> length v < 256 \<and> options_ok os"
  "options_ok (os @ os') \<longleftrightarrow> options_ok os \<and> options_ok os'"
  by (auto simp: options_ok_def)

lemma unat_of_length: "n < 256 \<Longrightarrow> unat (of_nat n :: u8) = n"
  by (simp add: unat_of_nat)

lemma read_encode: "options_ok os \<Longrightarrow> read_options (encode_options os @ 255 # rest) = Some os"
proof (induction os)
  case Nil
  then show ?case by (cases rest) simp_all
next
  case (Cons x os)
  obtain c v where "x = (c, v)" by (cases x)
  then show ?case using Cons by (simp add: unat_of_length)
qed

section \<open>The replies\<close>

lemma puts_eq:
  "length vs \<le> length rest \<Longrightarrow> i = length pre \<Longrightarrow>
    puts vs (i, pre @ rest) = Some (length (pre @ vs), (pre @ vs) @ drop (length vs) rest)"
proof (induction vs arbitrary: i pre rest)
  case (Cons v vs)
  then obtain r rs where rest: "rest = r # rs" by (cases rest) auto
  have "puts vs (i + 1, (pre @ [v]) @ rs) = Some (length ((pre @ [v]) @ vs), ((pre @ [v]) @ vs) @ drop (length vs) rs)"
    using Cons.prems rest by (intro Cons.IH) simp_all
  then show ?case using Cons.prems by (simp add: rest store_def)
qed simp

text \<open>The options of an offer, in the order of add_offer_options.\<close>

definition be_bytes :: "u32 \<Rightarrow> u8 list" where
  "be_bytes w = rev (le_bytes w)"

definition offered_options :: "sdk \<Rightarrow> dhcps \<Rightarrow> option_list" where
  "offered_options k s =
     [(1, le_bytes (ap_netmask k)), (51, be_bytes (dhcps_lease_time s * 60)), (54, le_bytes (server_address s))] @
     (if odd (unat (offer s)) then [(3, le_bytes (ap_gw k))] else []) @
     [(6, le_bytes (if dns_address s = 0 then server_address s else dns_address s)),
      (28, take 3 (le_bytes (server_address s)) @ [255]), (26, [2, 64]), (31, [0])]"

lemma ucast_and_ff: "(ucast (w AND 0xff) :: u8) = ucast (w :: u32)"
proof -
  have "(0xff :: u32) = mask 8" by (simp add: mask_eq_exp_minus_1)
  show ?thesis unfolding \<open>0xff = mask 8\<close> by (rule bit_word_eqI) (simp add: bit_ucast_iff bit_and_iff bit_mask_iff)
qed

lemma octets_eq: "octets a = le_bytes a"
  by (simp add: octets_def le_bytes_def ucast_and_ff)

lemma puts_append: "Option.bind (puts vs r) (puts ws) = puts (vs @ ws) r"
proof (induction vs arbitrary: r)
  case (Cons v vs)
  then show ?case by (cases r) (simp add: bind_assoc)
qed simp

lemma router_bit: "dhcps_router_enabled w \<longleftrightarrow> odd (unat w)"
proof -
  have "w AND 1 = of_bool (odd w)" by (simp add: and_one_eq mod_2_eq_odd)
  moreover have "odd (unat w) \<longleftrightarrow> odd w" by (simp add: bit_unsigned_iff flip: bit_0)
  ultimately show ?thesis by (simp add: dhcps_router_enabled_def)
qed

lemma add_offer_options_eq: "add_offer_options k s r = puts (encode_options (offered_options k s)) r"
  by (cases "dhcps_router_enabled (offer s)"; cases "dns_address s = 0")
    (simp_all add: add_offer_options_def offered_options_def puts_append octets_eq ucast_and_ff dhcp_options be_bytes_def
      router_bit Let_def le_bytes_def del: puts.simps)

text \<open>A reply of the given type with the given further options.\<close>

definition reply :: "u8 \<Rightarrow> option_list \<Rightarrow> dhcps \<Rightarrow> dhcps_msg \<Rightarrow> dhcps_msg" where
  "reply t os s m =
     (let e = encode_options ((53, [t]) # os)
      in (create_msg s m)\<lparr>options := le_bytes magic_cookie @ e @ 255 # replicate (307 - length e) 0\<rparr>)"

lemma length_offered: "length (encode_options (offered_options k s)) \<le> 43"
  by (simp add: offered_options_def be_bytes_def)

lemma offered_ok: "options_ok (offered_options k s)"
  by (simp add: offered_options_def be_bytes_def)

lemma puts_reply:
  assumes "length (encode_options os) \<le> 300"
  shows "puts ([53, 1, t] @ encode_options os @ [255]) (4, options (create_msg s m)) =
    Some (8 + length (encode_options os), options (reply t os s m))"
proof -
  have "puts ([53, 1, t] @ encode_options os @ [255]) (4, le_bytes magic_cookie @ replicate 308 0) = Some
      (length (le_bytes magic_cookie @ [53, 1, t] @ encode_options os @ [255]),
       (le_bytes magic_cookie @ [53, 1, t] @ encode_options os @ [255]) @
         drop (length ([53, 1, t] @ encode_options os @ [255])) (replicate 308 0))"
    by (rule puts_eq) (use assms in simp_all)
  then show ?thesis by (simp add: create_msg_def reply_def Let_def)
qed

lemma send_offer_eq:
  "send_offer alloc k s m = Some (transmit alloc s (reply 2 (offered_options k s) s m), reply 2 (offered_options k s) s m)"
proof -
  have "puts ([53, 1, 2] @ encode_options (offered_options k s) @ [255]) (4, options (create_msg s m)) =
      Some (8 + length (encode_options (offered_options k s)), options (reply 2 (offered_options k s) s m))"
    by (rule puts_reply) (use length_offered [of k s] in simp)
  then show ?thesis
    by (simp add: send_offer_def add_msg_type_def add_end_def add_offer_options_eq puts_append dhcp_options dhcp_types Let_def
        flip: bind_assoc del: puts.simps) (simp add: reply_def Let_def)
qed

lemma send_ack_eq:
  "send_ack alloc k s m = Some (transmit alloc s (reply 5 (offered_options k s) s m), reply 5 (offered_options k s) s m)"
proof -
  have "puts ([53, 1, 5] @ encode_options (offered_options k s) @ [255]) (4, options (create_msg s m)) =
      Some (8 + length (encode_options (offered_options k s)), options (reply 5 (offered_options k s) s m))"
    by (rule puts_reply) (use length_offered [of k s] in simp)
  then show ?thesis
    by (simp add: send_ack_def add_msg_type_def add_end_def add_offer_options_eq puts_append dhcp_options dhcp_types Let_def
        flip: bind_assoc del: puts.simps) (simp add: reply_def Let_def)
qed

lemma send_nak_eq: "send_nak alloc s m = Some (transmit alloc s (reply 6 [] s m), reply 6 [] s m)"
proof -
  have "puts ([53, 1, 6] @ encode_options [] @ [255]) (4, options (create_msg s m)) =
      Some (8 + length (encode_options []), options (reply 6 [] s m))"
    by (rule puts_reply) simp
  then show ?thesis
    by (simp add: send_nak_def add_msg_type_def add_end_def puts_append dhcp_options dhcp_types Let_def
        flip: bind_assoc del: puts.simps) (simp add: reply_def Let_def)
qed

text \<open>The size of the structure.\<close>

definition msg_ok :: "dhcps_msg \<Rightarrow> bool" where
  "msg_ok m \<longleftrightarrow> length (xid m) = 4 \<and> length (ciaddr m) = 4 \<and> length (yiaddr m) = 4 \<and> length (siaddr m) = 4 \<and>
     length (giaddr m) = 4 \<and> length (chaddr m) = 16 \<and> length (sname m) = 64 \<and> length (boot_file m) = 128 \<and>
     length (options m) = 312"

lemma of_le16_le16 [simp]: "of_le16 (le16 w) = w"
  unfolding of_le16_def le16_def
  by (rule bit_word_eqI) (auto simp: bit_or_iff bit_ucast_iff bit_shl bit_shr)

lemma le16_of_le16 [simp]: "le16 (of_le16 [a, b]) = [a, b]"
proof -
  have "(ucast (ucast a OR shl (ucast b) 8 :: u16) :: u8) = a"
    by (rule bit_word_eqI) (auto simp: bit_or_iff bit_ucast_iff bit_shl)
  moreover have "(ucast (shr (ucast a OR shl (ucast b) 8 :: u16) 8) :: u8) = b"
    by (rule bit_word_eqI) (auto simp: bit_or_iff bit_ucast_iff bit_shl bit_shr)
  ultimately show ?thesis by (simp add: of_le16_def le16_def)
qed

lemma of_le32_le_bytes [simp]: "of_le32 (le_bytes w) = w"
proof (rule bit_word_eqI)
  fix n assume "n < LENGTH(32)"
  then consider "n < 8" | "8 \<le> n" "n < 16" | "16 \<le> n" "n < 24" | "24 \<le> n" "n < 32" by fastforce
  then show "bit (of_le32 (le_bytes w)) n = bit w n"
    by cases (auto simp: of_le32_def le_bytes_def bit_or_iff bit_ucast_iff bit_shl bit_shr)
qed

lemma length_le16 [simp]: "length (le16 w) = 2"
  by (simp add: le16_def)

lemma length_msg_bytes: "msg_ok m \<Longrightarrow> length (msg_bytes m) = 548"
  by (simp add: msg_ok_def msg_bytes_def)

lemma bytes_msg_ok: "length bs = 548 \<Longrightarrow> msg_ok (bytes_msg bs)"
  by (simp add: msg_ok_def bytes_msg_def)

text \<open>Writing struct dhcps_msg to its 548 bytes and reading it back gives the same message.\<close>

theorem message_roundtrip: "msg_ok m \<Longrightarrow> bytes_msg (msg_bytes m) = m \<and> length (msg_bytes m) = 548"
  by (cases m) (simp add: msg_ok_def bytes_msg_def msg_bytes_def drop_Cons' take_Cons' nth_Cons')

text \<open>C27. An offer, an acknowledgement and a refusal are well-formed replies to the message they answer: the cookie, then
  options that read back as the message type and, for the first two, the network's parameters; the leased address in
  yiaddr; the client's transaction and hardware address unchanged; and exactly 548 bytes, to the broadcast address.\<close>

theorem replies_well_formed:
  assumes "msg_ok m"
    and "(t, out) \<in> {(2, send_offer True k s m), (5, send_ack True k s m), (6, send_nak True s m)}"
  shows "\<exists>r. out = Some ([Send (broadcast_dhcps s) (msg_bytes r)], r) \<and> length (msg_bytes r) = 548 \<and>
    take 4 (options r) = le_bytes magic_cookie \<and>
    read_options (drop 4 (options r)) = Some ((53, [t]) # (if t = 6 then [] else offered_options k s)) \<and>
    op r = 2 \<and> yiaddr r = le_bytes (client_address s) \<and> xid r = xid m \<and> chaddr r = chaddr m"
proof -
  let ?os = "if t = 6 then [] else offered_options k s"
  let ?r = "reply t ?os s m"
  have out: "out = Some ([Send (broadcast_dhcps s) (msg_bytes ?r)], ?r)"
    using assms(2) by (auto simp: send_offer_eq send_ack_eq send_nak_eq transmit_def)
  have l: "length (encode_options ?os) \<le> 43" using length_offered by simp
  then have "msg_ok ?r" using assms(1) by (simp add: msg_ok_def reply_def Let_def create_msg_def)
  moreover have "read_options (drop 4 (options ?r)) = Some ((53, [t]) # ?os)"
  proof -
    have "options_ok ((53, [t]) # ?os)" using offered_ok by simp
    from read_encode [OF this, of "replicate (307 - length (encode_options ((53, [t]) # ?os))) 0"]
    show ?thesis by (simp only: reply_def Let_def) simp
  qed
  ultimately show ?thesis using out
    by (intro exI [of _ ?r]) (simp add: length_msg_bytes, simp add: reply_def Let_def create_msg_def DHCP_REPLY_def)
qed

section \<open>Requests\<close>

text \<open>What a request's options say: the message type, and the address asked for.\<close>

definition message_type :: "option_list \<Rightarrow> nat" where
  "message_type os = foldl (\<lambda>t (c, v). if c = 53 then unat (hd v) else t) 0 os"

definition requested :: "option_list \<Rightarrow> u8 list option" where
  "requested os = foldl (\<lambda>r (c, v). if c = 50 then Some (take 4 v) else r) None os"

text \<open>Options the parser reads without leaving them: the values it looks at are there.\<close>

definition request_ok :: "option_list \<Rightarrow> bool" where
  "request_ok os \<longleftrightarrow> options_ok os \<and> (\<forall>(c, v) \<in> set os. (c = 53 \<longrightarrow> v \<noteq> []) \<and> (c = 50 \<longrightarrow> 4 \<le> length v))"

definition address_state :: "u32 \<Rightarrow> u8 list option \<Rightarrow> nat" where
  "address_state client r = (case r of None \<Rightarrow> DHCPS_STATE_IDLE
     | Some v \<Rightarrow> if le_bytes client = v then DHCPS_STATE_ACK else DHCPS_STATE_NAK)"

lemma fetch_append: "fetch (pre @ xs) (length pre + n) = fetch xs n"
  by (simp add: fetch_def nth_append)

lemma parse_loop_encode:
  assumes "request_ok os" and "int (length pre + length (encode_options os)) < stop"
  shows "parse_loop (pre @ encode_options os @ 255 # rest) client stop (length pre) t (address_state client r) =
    Some (foldl (\<lambda>t (c, v). if c = 53 then unat (hd v) else t) t os,
          address_state client (foldl (\<lambda>r (c, v). if c = 50 then Some (take 4 v) else r) r os))"
  using assms
proof (induction os arbitrary: pre t r)
  case Nil
  then show ?case using fetch_append [of pre "255 # rest" 0]
    by (subst parse_loop.simps) (simp add: dhcp_options fetch_def)
next
  case (Cons x os)
  obtain c v where x: "x = (c, v)" by (cases x)
  have ok: "c \<noteq> 255" "length v < 256" "c = 53 \<longrightarrow> v \<noteq> []" "c = 50 \<longrightarrow> 4 \<le> length v" and ok': "request_ok os"
    using Cons.prems(1) by (auto simp: x request_ok_def)
  let ?l = "of_nat (length v) :: u8" and ?tail = "encode_options os @ 255 # rest"
  let ?opts = "pre @ c # ?l # v @ ?tail"
  have l: "unat ?l = length v" using ok(2) by (simp add: unat_of_length)
  have f: "fetch ?opts (length pre) = Some c" "fetch ?opts (length pre + 1) = Some ?l"
    using fetch_append [of pre "c # ?l # v @ ?tail" 0] fetch_append [of pre "c # ?l # v @ ?tail" 1]
    by (simp_all add: fetch_def)
  have g: "fetch ?opts (length pre + (2 + n)) = Some (v ! n)" if "n < length v" for n
    using fetch_append [of pre "c # ?l # v @ ?tail" "2 + n"] that by (simp add: fetch_def nth_append)
  define t' where "t' = (if c = 53 then unat (hd v) else t)"
  define r' where "r' = (if c = 50 then Some (take 4 v) else r)"
  have step: "(if c = DHCP_OPTION_MSG_TYPE then do { v \<leftarrow> fetch ?opts (length pre + 2); Some (unat v, address_state client r) }
      else if c = DHCP_OPTION_REQ_IPADDR then do {
        a \<leftarrow> fetch ?opts (length pre + 2); b \<leftarrow> fetch ?opts (length pre + 3);
        c \<leftarrow> fetch ?opts (length pre + 4); d \<leftarrow> fetch ?opts (length pre + 5);
        Some (t, if le_bytes client = [a, b, c, d] then DHCPS_STATE_ACK else DHCPS_STATE_NAK) }
      else Some (t, address_state client r)) = Some (t', address_state client r')"
  proof -
    have "take 4 v = [v ! 0, v ! 1, v ! 2, v ! 3]" if "4 \<le> length v"
      using that by (intro nth_equalityI) (auto simp: less_Suc_eq numeral_eq_Suc)
    moreover have "fetch ?opts (length pre + 2) = Some (v ! 0)" if "v \<noteq> []" using g [of 0] that by simp
    moreover have "fetch ?opts (length pre + 3) = Some (v ! 1)" "fetch ?opts (length pre + 4) = Some (v ! 2)"
      "fetch ?opts (length pre + 5) = Some (v ! 3)" "fetch ?opts (length pre + 2) = Some (v ! 0)" if "4 \<le> length v"
      using g [of 1] g [of 2] g [of 3] g [of 0] that by (simp_all add: add.assoc) (cases v, simp_all)
    ultimately show ?thesis using ok(3,4)
      by (cases "c = 53"; cases "c = 50")
        (simp_all only: dhcp_options t'_def r'_def address_state_def hd_conv_nth if_True if_False option.case Option.bind.simps, simp_all add: hd_conv_nth)
  qed
  have "parse_loop ?opts client stop (length pre) t (address_state client r) =
      parse_loop ?opts client stop (length pre + (length v + 2)) t' (address_state client r')"
    using Cons.prems(2) ok(1)
    by (subst parse_loop.simps) (simp only: f step l Option.bind.simps, simp add: x DHCP_OPTION_END_def f l)
  also have "\<dots> = parse_loop ((pre @ c # ?l # v) @ ?tail) client stop (length (pre @ c # ?l # v)) t' (address_state client r')"
    by simp
  also have "\<dots> = Some (foldl (\<lambda>t (c, v). if c = 53 then unat (hd v) else t) t' os,
      address_state client (foldl (\<lambda>r (c, v). if c = 50 then Some (take 4 v) else r) r' os))"
    using Cons.prems(2) by (intro Cons.IH ok') (simp add: x)
  finally show ?case by (simp add: x t'_def r'_def)
qed

text \<open>The verdict of a request: the reference parse_options implements.\<close>

definition verdict :: "bool \<Rightarrow> u32 \<Rightarrow> option_list \<Rightarrow> nat" where
  "verdict rn client os = parse_verdict rn (message_type os, address_state client (requested os))"

lemma parse_options_eq:
  assumes "request_ok os" and "int (length (encode_options os)) < sint len" and "length pre = i"
  shows "parse_options s (pre @ encode_options os @ 255 # rest) i len = Some (verdict (renew s) (client_address s) os)"
proof -
  have "int (length pre + length (encode_options os)) < int i + sint len" using assms(2,3) by simp
  from parse_loop_encode [OF assms(1) this, of rest "client_address s" 0 None]
  show ?thesis using assms(3) by (simp add: parse_options_def verdict_def message_type_def requested_def address_state_def)
qed

text \<open>C28. On options that encode a list of codes and values, and a length that reaches past them, parse_options reads
  back the list: its result is the verdict on the last message type and the last requested address.\<close>

theorem parse_options_decodes:
  "request_ok os \<Longrightarrow> int (length (encode_options os)) < sint len \<Longrightarrow> length pre = i \<Longrightarrow>
    parse_options s (pre @ encode_options os @ 255 # rest) i len = Some (verdict (renew s) (client_address s) os)"
  by (rule parse_options_eq)

section \<open>The exchange\<close>

text \<open>The message a datagram of one segment leaves in the zeroed structure, and a datagram that is a request with the
  given options.\<close>

definition received :: "u8 list \<Rightarrow> dhcps_msg" where
  "received bs = bytes_msg (bs @ replicate (548 - length bs) 0)"

definition request_datagram :: "u8 list \<Rightarrow> option_list \<Rightarrow> bool" where
  "request_datagram bs os \<longleftrightarrow> length bs \<le> 548 \<and> take 4 (options (received bs)) = le_bytes magic_cookie \<and>
     request_ok os \<and> 240 + length (encode_options os) < length bs \<and>
     take (Suc (length (encode_options os))) (drop 4 (options (received bs))) = encode_options os @ [255]"

lemma received_ok: "length bs \<le> 548 \<Longrightarrow> msg_ok (received bs)"
  unfolding received_def by (rule bytes_msg_ok) simp

lemma puts_copy: "length bs \<le> 548 \<Longrightarrow> puts bs (0, replicate 548 0) = Some (length bs, bs @ replicate (548 - length bs) 0)"
  using puts_eq [of bs "replicate 548 0" 0 "[]"] by simp

lemma sint_u16: "k < 32768 \<Longrightarrow> sint (of_nat k :: u16) = int k"
  by (simp add: signed_of_nat signed_take_bit_int_eq_self)

lemma message_length: "240 \<le> n \<Longrightarrow> n \<le> 548 \<Longrightarrow> sint (of_nat n - 240 :: u16) = int n - 240"
proof -
  assume n: "240 \<le> n" "n \<le> 548"
  then obtain k where k: "n = 240 + k" by (metis le_add_diff_inverse)
  have "(of_nat n - 240 :: u16) = of_nat k" by (simp add: k)
  then show ?thesis using n by (simp add: k sint_u16)
qed

definition after_update :: "dhcps_msg \<Rightarrow> dhcps \<Rightarrow> dhcps" where
  "after_update m s = (case wifi_softap_dhcps_client_update (Some (chaddr m)) (Some (of_le32 (ciaddr m))) s of
     (a, s') \<Rightarrow> s'\<lparr>client_address := a\<rparr>)"

lemma handle_request:
  fixes s :: dhcps
  assumes "request_datagram bs os"
  defines "m \<equiv> received bs" and "s1 \<equiv> after_update (received bs) s"
  shows "handle_dhcp True alloc k [bs] s = Some
    (let v = verdict (renew s1) (client_address s1) os in
     if v = DHCPS_STATE_OFFER then (transmit alloc s1 (reply 2 (offered_options k s1) s1 m), s1)
     else if v = DHCPS_STATE_ACK then
       (transmit alloc s1 (reply 5 (offered_options k s1) s1 m) @ [Station_Info (take 6 (chaddr m)) (client_address s1)], s1)
     else if v = DHCPS_STATE_NAK then (transmit alloc s1 (reply 6 [] s1 m), s1)
     else if v = DHCPS_STATE_RELEASE then
       (case wifi_softap_dhcps_client_leave (Some (chaddr m)) (Some (of_le32 (ciaddr m))) True s1 of
          (e, s2) \<Rightarrow> (e, s2\<lparr>client_address := of_le32 (ciaddr m)\<rparr>))
     else ([], s1))"
proof -
  have n: "length bs \<le> 548" and c: "take 4 (options m) = le_bytes magic_cookie" and os: "request_ok os"
    and e: "240 + length (encode_options os) < length bs"
    and d: "take (Suc (length (encode_options os))) (drop 4 (options m)) = encode_options os @ [255]"
    using assms(1) by (simp_all add: request_datagram_def m_def)
  have "options m = take 4 (options m) @ take (Suc (length (encode_options os))) (drop 4 (options m)) @
      drop (Suc (length (encode_options os))) (drop 4 (options m))" by (metis append_take_drop_id)
  then obtain rest where o: "options m = le_bytes magic_cookie @ encode_options os @ 255 # rest" unfolding c d by auto
  have "int (length (encode_options os)) < sint (of_nat (length bs) - 240 :: u16)"
    using e n by (subst message_length) simp_all
  from parse_options_eq [OF os this, of "le_bytes magic_cookie" 4 s1 rest]
  have p: "parse_options s1 (options m) 4 (of_nat (length bs) - 240) = Some (verdict (renew s1) (client_address s1) os)"
    by (simp add: o)
  have pm: "parse_msg m (of_nat (length bs) - 240) s = (let v = verdict (renew s1) (client_address s1) os in
      if v = DHCPS_STATE_RELEASE then
       (case wifi_softap_dhcps_client_leave (Some (chaddr m)) (Some (of_le32 (ciaddr m))) True s1 of
          (e, s2) \<Rightarrow> Some (v, e, s2\<lparr>client_address := of_le32 (ciaddr m)\<rparr>))
      else Some (v, [], s1))"
  proof -
    obtain a s' where u: "wifi_softap_dhcps_client_update (Some (chaddr m)) (Some (of_le32 (ciaddr m))) s = (a, s')"
      by fastforce
    have "s1 = s'\<lparr>client_address := a\<rparr>" using u by (simp add: s1_def after_update_def m_def)
    then show ?thesis using p by (simp add: parse_msg_def c u Let_def)
  qed
  define v where "v = verdict (renew s1) (client_address s1) os"
  have cp: "handle_dhcp True alloc k [bs] s = do {
      (ret, e, s) \<leftarrow> parse_msg m (of_nat (length bs) - 240) s;
      if ret = DHCPS_STATE_OFFER then do { (e', m) \<leftarrow> send_offer alloc k s m; Some (e @ e', s) }
      else if ret = DHCPS_STATE_ACK then
        do { (e', m) \<leftarrow> send_ack alloc k s m; Some (e @ e' @ [Station_Info (take 6 (chaddr m)) (client_address s)], s) }
      else if ret = DHCPS_STATE_NAK then do { (e', m) \<leftarrow> send_nak alloc s m; Some (e @ e', s) }
      else Some (e, s) }"
    unfolding m_def received_def using n by (simp add: handle_dhcp_def puts_copy Let_def)
  have chaddr: "chaddr (reply t os s m) = chaddr m" for t os s by (simp add: reply_def create_msg_def Let_def)
  show ?thesis unfolding cp pm v_def [symmetric] Let_def
    by (cases "v = DHCPS_STATE_RELEASE")
      (simp_all add: send_offer_eq send_ack_eq send_nak_eq chaddr dhcps_states split: prod.split)
qed

lemma update_zero: "wifi_softap_dhcps_client_update b (Some 0) s = wifi_softap_dhcps_client_update b None s"
  by (simp add: wifi_softap_dhcps_client_update_def split: option.split)

lemma update_broadcast:
  "broadcast_dhcps (snd (wifi_softap_dhcps_client_update bssid addr s)) = broadcast_dhcps s"
proof -
  have "broadcast_dhcps (snd (update_leases b a t r s)) = broadcast_dhcps s" for b a t r s
    by (auto simp: update_leases_def Let_def split: prod.split option.split)
  then show ?thesis
    by (simp add: wifi_softap_dhcps_client_update_def Let_def split: option.split prod.split)
qed

lemma discover_verdict: "message_type os = 1 \<Longrightarrow> verdict rn a os = DHCPS_STATE_OFFER"
  by (simp add: verdict_def parse_verdict_def dhcp_types)

lemma request_verdict: "message_type os = 3 \<Longrightarrow> requested os = Some v \<Longrightarrow>
    verdict rn a os = (if le_bytes a = v then DHCPS_STATE_ACK else DHCPS_STATE_NAK)"
  by (simp add: verdict_def parse_verdict_def dhcp_types address_state_def)

text \<open>A discovery from a station without a lease, on a server with a free address.\<close>

definition discovery :: "u8 list \<Rightarrow> option_list \<Rightarrow> dhcps \<Rightarrow> bool" where
  "discovery bs os s \<longleftrightarrow> request_datagram bs os \<and> message_type os = 1 \<and> of_le32 (ciaddr (received bs)) = 0 \<and>
     take 6 (chaddr (received bs)) \<notin> mac ` set (plist s)"

lemma reply_fields:
  "yiaddr (reply t os s m) = le_bytes (client_address s)" "xid (reply t os s m) = xid m" "chaddr (reply t os s m) = chaddr m"
  by (simp_all add: reply_def create_msg_def Let_def)

lemma reply_options: "options_ok os \<Longrightarrow> read_options (drop 4 (options (reply t os s m))) = Some ((53, [t]) # os)"
  using read_encode [of "(53, [t]) # os" "replicate (307 - length (encode_options ((53, [t]) # os))) 0"]
  by (simp only: reply_def Let_def) simp

lemma discover_step:
  assumes ok: "dhcps_ok s" and d: "discovery bs os s" and free: "in_pool (lease s) x" "x \<notin> ip ` set (plist s)"
  obtains r s' where
    "handle_dhcp True True k [bs] s =
      Some ([Send (broadcast_dhcps s) (msg_bytes (reply 2 (offered_options k s') s' (received bs)))], s')"
    "client_address s' = r" "in_pool (lease s) r" "r \<notin> ip ` set (plist s)"
    "\<forall>y. in_pool (lease s) y \<longrightarrow> y < r \<longrightarrow> y \<in> ip ` set (plist s)" "lease s' = lease s" "broadcast_dhcps s' = broadcast_dhcps s"
    "plist s' = node_insert_to_list (plist s) (new_lease (chaddr (received bs)) r s)" "dhcps_ok s'"
proof -
  let ?b = "chaddr (received bs)"
  have rd: "request_datagram bs os" and t: "message_type os = 1" and c: "of_le32 (ciaddr (received bs)) = 0"
    and new: "take 6 ?b \<notin> mac ` set (plist s)" using d by (simp_all add: discovery_def)
  obtain r where r: "r \<notin> ip ` set (plist s)" "unat r mod 16777216 = unat (start_ip (lease s)) mod 16777216"
    "start_ip (lease s) \<le> r" "\<forall>x. in_pool (lease s) x \<longrightarrow> x < r \<longrightarrow> x \<in> ip ` set (plist s)"
    and u: "wifi_softap_dhcps_client_update (Some ?b) None s = (if end_ip (lease s) < r then (0, s\<lparr>renew := False\<rparr>)
      else (r, s\<lparr>renew := False, plist := node_insert_to_list (plist s) (new_lease ?b r s)\<rparr>))"
    by (rule new_station_scan [OF ok new])
  have "r \<le> x" using r(4) free by (auto simp: not_less [symmetric])
  then have le: "\<not> end_ip (lease s) < r" using free(1) by (auto simp: in_pool_def)
  let ?s = "s\<lparr>renew := False, plist := node_insert_to_list (plist s) (new_lease ?b r s)\<rparr>"
  have u': "wifi_softap_dhcps_client_update (Some ?b) None s = (r, ?s)" using u le by simp
  have "dhcps_ok ?s" using client_update_keeps [OF ok _ u'] by (simp add: admissible_def)
  moreover have a: "after_update (received bs) s = ?s\<lparr>client_address := r\<rparr>" by (simp add: after_update_def c update_zero u')
  ultimately show ?thesis using handle_request [OF rd, of True k s] r le
    by (intro that [of "after_update (received bs) s" r])
      (simp_all add: discover_verdict [OF t] dhcps_states transmit_def in_pool_def dhcps_ok_def)
qed

text \<open>C7. The exchange as a whole: a new station that discovers gets an OFFER of the lowest address of the pool that no lease has,
  and a lease for it, added to those there are; when the same station then requests, it gets an ACK, and the SDK is told,
  exactly when the address it requests is the one it was offered; else a NAK.  Either way the lease stays recorded.\<close>

theorem discover_then_request:
  assumes ok: "dhcps_ok s" and d: "discovery bs os s" and free: "in_pool (lease s) x" "x \<notin> ip ` set (plist s)"
    and rd: "request_datagram bs' os'" "message_type os' = 3" "requested os' = Some v" "of_le32 (ciaddr (received bs')) = 0"
    and same: "take 6 (chaddr (received bs')) = take 6 (chaddr (received bs))"
  shows "\<exists>r s1 s2 m1 m2. handle_dhcp True True k [bs] s = Some ([Send (broadcast_dhcps s) (msg_bytes m1)], s1) \<and>
    in_pool (lease s) r \<and> r \<notin> ip ` set (plist s) \<and> (\<forall>y. in_pool (lease s) y \<and> y < r \<longrightarrow> y \<in> ip ` set (plist s)) \<and>
    read_options (drop 4 (options m1)) = Some ((53, [2]) # offered_options k s1) \<and> yiaddr m1 = le_bytes r \<and>
    set (plist s1) = insert \<lparr>ip = r, mac = take 6 (chaddr (received bs)), lease_timer = dhcps_lease_time s,
      pool_type = DHCPS_TYPE_DYNAMIC, pool_state = DHCPS_STATE_ONLINE\<rparr> (set (plist s)) \<and>
    handle_dhcp True True k [bs'] s1 = Some ([Send (broadcast_dhcps s) (msg_bytes m2)] @
      (if v = le_bytes r then [Station_Info (take 6 (chaddr (received bs))) r] else []), s2) \<and>
    read_options (drop 4 (options m2)) = Some (if v = le_bytes r then (53, [5]) # offered_options k s2 else [(53, [6])]) \<and>
    yiaddr m2 = le_bytes r \<and> answered (chaddr (received bs)) r s2"
proof (rule discover_step [OF ok d free, of k])
  fix r s1 assume *: "handle_dhcp True True k [bs] s =
      Some ([Send (broadcast_dhcps s) (msg_bytes (reply 2 (offered_options k s1) s1 (received bs)))], s1)"
    "client_address s1 = r" "r \<notin> ip ` set (plist s)"
    "\<forall>y. in_pool (lease s) y \<longrightarrow> y < r \<longrightarrow> y \<in> ip ` set (plist s)" "dhcps_ok s1" "lease s1 = lease s"
    "broadcast_dhcps s1 = broadcast_dhcps s"
    "plist s1 = node_insert_to_list (plist s) (new_lease (chaddr (received bs)) r s)" and pool: "in_pool (lease s) r"
  let ?p = "new_lease (chaddr (received bs)) r s" and ?b = "chaddr (received bs')"
  have p: "?p \<in> set (plist s1)" "mac ?p = take 6 ?b" "ip ?p = r" by (simp_all add: *(8) node_insert_eq new_lease_def same)
  have low: "y \<in> ip ` set (plist s1)" if "in_pool (lease s1) y" "y < ip ?p" for y
    using *(4) that p(3) by (simp add: *(6,8) node_insert_eq)
  obtain s' where u: "wifi_softap_dhcps_client_update (Some ?b) None s1 = (r, s')" and a: "answered ?b r s'"
    using known_station_keeps [OF *(5) p(1,2) low] p(3) by metis
  have bc: "broadcast_dhcps s' = broadcast_dhcps s" using update_broadcast [of "Some ?b" None s1] *(7) by (simp add: u)
  let ?s2 = "s'\<lparr>client_address := r\<rparr>"
  have au: "after_update (received bs') s1 = ?s2" by (simp add: after_update_def rd(4) update_zero u)
  have ans: "answered (chaddr (received bs)) r ?s2" using a same by (simp add: answered_def)
  let ?m2 = "if v = le_bytes r then reply 5 (offered_options k ?s2) ?s2 (received bs') else reply 6 [] ?s2 (received bs')"
  have "handle_dhcp True True k [bs'] s1 = Some ([Send (broadcast_dhcps s) (msg_bytes ?m2)] @
      (if v = le_bytes r then [Station_Info (take 6 (chaddr (received bs))) r] else []), ?s2)"
    using handle_request [OF rd(1), of True k s1]
    by (auto simp: au request_verdict [OF rd(2,3)] dhcps_states transmit_def bc same)
  moreover have "read_options (drop 4 (options ?m2)) =
      Some (if v = le_bytes r then (53, [5]) # offered_options k ?s2 else [(53, [6])])"
    by (simp add: reply_options offered_ok)
  moreover have "yiaddr ?m2 = le_bytes r" by (simp add: reply_fields)
  moreover have "yiaddr (reply 2 (offered_options k s1) s1 (received bs)) = le_bytes r" using *(2) by (simp add: reply_fields)
  moreover have "read_options (drop 4 (options (reply 2 (offered_options k s1) s1 (received bs)))) = Some ((53, [2]) # offered_options k s1)"
    by (simp add: reply_options offered_ok)
  moreover have "set (plist s1) = insert \<lparr>ip = r, mac = take 6 (chaddr (received bs)), lease_timer = dhcps_lease_time s,
      pool_type = DHCPS_TYPE_DYNAMIC, pool_state = DHCPS_STATE_ONLINE\<rparr> (set (plist s))"
    by (simp add: *(8) node_insert_eq new_lease_def)
  moreover have "in_pool (lease s) r" by (rule pool)
  moreover have "\<forall>y. in_pool (lease s) y \<and> y < r \<longrightarrow> y \<in> ip ` set (plist s)" using *(4) by blast
  ultimately show ?thesis using *(1,3) ans by blast
qed

section \<open>Datagrams the server does not survive\<close>

lemma puts_overrun: "i \<le> length m \<Longrightarrow> length m < i + length vs \<Longrightarrow> puts vs (i, m) = None"
proof (induction vs arbitrary: i m)
  case (Cons v vs)
  show ?case
  proof (cases "i < length m")
    case True
    then have "puts vs (i + 1, m[i := v]) = None" using Cons.prems by (intro Cons.IH) simp_all
    then show ?thesis using True by (simp add: store_def)
  qed (simp add: store_def)
qed simp

text \<open>handle_dhcp copies the first two segments of a datagram into a block of 548 bytes without a bound: when they are
  longer together, it writes past the block.\<close>

theorem long_datagram_overruns:
  assumes "548 < length (concat (take 2 p))"
  shows "handle_dhcp True alloc k p s = None"
proof -
  obtain d rest where p: "p = d # rest" using assms by (cases p) auto
  show ?thesis
  proof (cases "length d \<le> 548")
    case False
    then show ?thesis by (simp add: p handle_dhcp_def puts_overrun)
  next
    case True
    then obtain e rest' where r: "rest = e # rest'" using assms by (cases rest) (auto simp: p)
    have "548 < length d + length e" using assms by (simp add: p r numeral_2_eq_2)
    then have "puts e (length d, d @ replicate (548 - length d) 0) = None" using True by (intro puts_overrun) simp_all
    then show ?thesis using True by (simp add: p r handle_dhcp_def puts_copy)
  qed
qed

lemma long_datagram_overruns_witness: "\<forall>k. handle_dhcp True True k [replicate 300 1, replicate 249 1] example_server = None"
  by (intro allI long_datagram_overruns) simp

definition cut_option_datagram :: "u8 list" where
  "cut_option_datagram = [1, 1, 6, 0] @ replicate 232 0 @ [0x63, 0x82, 0x53, 0x63] @
     [1, 255] @ replicate 255 0 @ [1, 47] @ replicate 47 0 @ [53, 1]"

lemma cut_option_loop:
  fixes opts :: "u8 list"
  defines "opts \<equiv> [0x63, 0x82, 0x53, 0x63, 1, 255] @ replicate 255 0 @ [1, 47] @ replicate 47 0 @ [53, 1]"
  shows "parse_loop opts client 312 4 t st = None"
proof -
  have f: "fetch opts 4 = Some 1" "fetch opts 5 = Some 255" "fetch opts 261 = Some 1" "fetch opts 262 = Some 47"
    "fetch opts 310 = Some 53" "fetch opts 312 = None"
    by (simp_all add: opts_def fetch_def nth_append)
  have "parse_loop opts client 312 310 t st = None" by (subst parse_loop.simps) (simp add: f dhcp_options)
  then have "parse_loop opts client 312 261 t st = None" by (subst parse_loop.simps) (simp add: f dhcp_options)
  then show ?thesis by (subst parse_loop.simps) (simp add: f dhcp_options)
qed

text \<open>A datagram that fits can still make parse_options read outside the message: it is 548 bytes long and its last two
  bytes begin an option whose value would lie behind them, and parse_options looks at it.\<close>

theorem cut_option_overreads:
  "length cut_option_datagram = 548 \<and> handle_dhcp True alloc k [cut_option_datagram] s = None"
proof
  show l: "length cut_option_datagram = 548" by (simp add: cut_option_datagram_def)
  have o: "options (bytes_msg cut_option_datagram) =
      [0x63, 0x82, 0x53, 0x63, 1, 255] @ replicate 255 0 @ [1, 47] @ replicate 47 0 @ [53, 1]"
    by (simp add: cut_option_datagram_def bytes_msg_def)
  have n: "sint (308 :: u16) = 308" using sint_u16 [of 308] by simp
  have "parse_options s (options (bytes_msg cut_option_datagram)) 4 308 = None" for s
    unfolding o parse_options_def by (simp add: n cut_option_loop [simplified])
  moreover have "take 4 (options (bytes_msg cut_option_datagram)) = le_bytes magic_cookie"
    by (simp add: o le_bytes_def magic_cookie_def)
  ultimately have "parse_msg (bytes_msg cut_option_datagram) 308 s = None" for s
    by (simp add: parse_msg_def Let_def split: prod.split)
  then show "handle_dhcp True alloc k [cut_option_datagram] s = None"
    using puts_copy [of cut_option_datagram] l by (simp add: handle_dhcp_def)
qed

section \<open>A concrete exchange\<close>

definition client_datagram :: "u8 list \<Rightarrow> u8 list" where
  "client_datagram os = [1, 1, 6, 0, 1, 2, 3, 4] @ replicate 20 0 @ replicate 6 7 @ replicate 202 0 @ [0x63, 0x82, 0x53, 0x63] @
     os @ [255]"

lemma magic_bytes: "le_bytes magic_cookie = [0x63, 0x82, 0x53, 0x63]"
  by (simp add: le_bytes_def magic_cookie_def)

lemma client_received:
  "length os \<le> 200 \<Longrightarrow> ciaddr (received (client_datagram os)) = replicate 4 0 \<and>
    chaddr (received (client_datagram os)) = replicate 6 7 @ replicate 10 0 \<and>
    options (received (client_datagram os)) = [0x63, 0x82, 0x53, 0x63] @ os @ 255 # replicate (307 - length os) 0"
  by (simp add: received_def client_datagram_def bytes_msg_def)

lemma client_zero: "length os \<le> 200 \<Longrightarrow> of_le32 (ciaddr (received (client_datagram os))) = 0"
  by (simp add: client_received) (simp add: of_le32_def)

lemma client_datagram_request:
  assumes "request_ok os" and "length (encode_options os) \<le> 200"
  shows "request_datagram (client_datagram (encode_options os)) os"
  using assms client_received [OF assms(2)] by (simp add: request_datagram_def magic_bytes) (simp add: client_datagram_def)

text \<open>The datagrams: a discovery, and a request for 192.168.4.2.\<close>

definition discover_datagram :: "u8 list" where
  "discover_datagram = client_datagram (encode_options [(53, [1])])"

definition request_example :: "u8 list" where
  "request_example = client_datagram (encode_options [(53, [3]), (50, [192, 168, 4, 2])])"

lemma discovery_example: "discovery discover_datagram [(53, [1])] example_server"
proof -
  have "request_datagram discover_datagram [(53, [1])]"
    unfolding discover_datagram_def by (rule client_datagram_request) (simp_all add: request_ok_def)
  moreover have "of_le32 (ciaddr (received discover_datagram)) = 0" by (simp add: discover_datagram_def client_zero)
  ultimately show ?thesis by (simp add: discovery_def message_type_def example_server_def dhcps_init_def)
qed

lemma example_server_ok: "dhcps_ok example_server"
  using served_ok [OF example_server_served] by (simp add: serving_ok_def)

lemma discover_then_request_witness:
  "\<exists>r s1 s2 m1 m2 k. handle_dhcp True True k [discover_datagram] example_server = Some ([Send 0xff04a8c0 (msg_bytes m1)], s1) \<and>
    yiaddr m1 = le_bytes r \<and> in_pool (lease example_server) r \<and> read_options (drop 4 (options m1)) = Some ((53, [2]) # offered_options k s1) \<and>
    handle_dhcp True True k [request_example] s1 = Some ([Send 0xff04a8c0 (msg_bytes m2)] @
      (if [192, 168, 4, 2] = le_bytes r then [Station_Info [7, 7, 7, 7, 7, 7] r] else []), s2)"
proof -
  have free: "in_pool (lease example_server) 0x0204a8c0" "0x0204a8c0 \<notin> ip ` set (plist example_server)"
    by (simp_all add: in_pool_def example_server_def dhcps_init_def word_le_nat_alt)
  have rd: "request_datagram request_example [(53, [3]), (50, [192, 168, 4, 2])]"
    unfolding request_example_def by (rule client_datagram_request) (simp_all add: request_ok_def)
  have t: "message_type [(53, [3]), (50, [192, 168, 4, 2])] = 3" by (simp add: message_type_def)
  have q: "requested [(53, [3]), (50, [192, 168, 4, 2])] = Some [192, 168, 4, 2]" by (simp add: requested_def)
  have z: "of_le32 (ciaddr (received request_example)) = 0" by (simp add: request_example_def client_zero)
  have c: "take 6 (chaddr (received discover_datagram)) = [7, 7, 7, 7, 7, 7]"
    "take 6 (chaddr (received request_example)) = take 6 (chaddr (received discover_datagram))"
    by (simp_all add: request_example_def discover_datagram_def client_received numeral_eq_Suc)
  have b: "broadcast_dhcps example_server = 0xff04a8c0" by (simp add: example_server_def)
  from discover_then_request [OF example_server_ok discovery_example free rd t q z c(2)] show ?thesis
    unfolding c(1) b by blast
qed

lemma message_roundtrip_witness: "bytes_msg (msg_bytes (received discover_datagram)) = received discover_datagram"
proof -
  have "msg_ok (received discover_datagram)" using discovery_example
    by (intro received_ok) (simp add: discovery_def request_datagram_def)
  from message_roundtrip [OF this] show ?thesis by simp
qed

lemma replies_well_formed_witness:
  "\<exists>r. send_nak True example_server (received discover_datagram) = Some ([Send 0xff04a8c0 (msg_bytes r)], r) \<and>
    read_options (drop 4 (options r)) = Some [(53, [6])]"
proof -
  have "msg_ok (received discover_datagram)" using discovery_example
    by (intro received_ok) (simp add: discovery_def request_datagram_def)
  note w = replies_well_formed [where s = example_server and t = 6 and
      out = "send_nak True example_server (received discover_datagram)", OF this]
  have "broadcast_dhcps example_server = 0xff04a8c0" by (simp add: example_server_def)
  then show ?thesis using w by auto
qed

lemma parse_options_decodes_witness:
  "parse_options example_server ([1, 2, 3, 4] @ encode_options [(53, [1])] @ 255 # [0, 0]) 4 60 = Some DHCPS_STATE_OFFER"
proof -
  have "sint (60 :: u16) = 60" using sint_u16 [of 60] by simp
  then have "parse_options example_server ([1, 2, 3, 4] @ encode_options [(53, [1])] @ 255 # [0, 0]) 4 60 =
      Some (verdict (renew example_server) (client_address example_server) [(53, [1])])"
    by (intro parse_options_decodes) (simp_all add: request_ok_def)
  then show ?thesis by (simp add: verdict_def parse_verdict_def message_type_def dhcp_types)
qed

end
