(* ===== verification/Gdb_Data.thy ===== *)
theory Gdb_Data
  imports Prelude
begin

text \<open>
  The GDB stub, libraries/GDBStub/src/internal/gdbstub.c: its state and the lower layer, up to sendReason.
  The build modelled is the one the Arduino core makes: no FreeRTOS, GDBSTUB_CTRLC_BREAK,
  GDBSTUB_BREAK_ON_EXCEPTION and GDBSTUB_REDIRECT_CONSOLE_OUTPUT set.

  Characters are bytes.  What goes out on the serial port is the list \<open>tx\<close>; the waits for room in the
  FIFO and the watchdog leave no trace.  Memory is a function from word addresses to words; a pointer into
  the command buffer is an index, and \<open>None\<close> an access outside the buffer.  A long is 32 bits.
  The debug registers and the four routines on them are those of gdbstub-entry.S.
\<close>

section \<open>Characters\<close>

definition asc :: "char \<Rightarrow> u8" where
  "asc c = of_char c"

declare asc_def [simp]

definition str :: "string \<Rightarrow> u8 list" where
  "str s = map asc s"

section \<open>State\<close>

definition PBUFLEN :: nat where "PBUFLEN = 256"
definition EXCEPTION_GDB_SP_OFFSET :: u32 where "EXCEPTION_GDB_SP_OFFSET = 0x100"
definition XCHAL_DEBUGLEVEL :: u32 where "XCHAL_DEBUGLEVEL = 2"

definition ST_ENDPACKET :: int where "ST_ENDPACKET = - 1"
definition ST_ERR :: int where "ST_ERR = - 2"
definition ST_OK :: int where "ST_OK = - 3"
definition ST_CONT :: int where "ST_CONT = - 4"
definition ST_DETACH :: int where "ST_DETACH = - 5"

lemmas gdb_status = ST_ENDPACKET_def ST_ERR_def ST_OK_def ST_CONT_def ST_DETACH_def

record exception_frame =
  pc :: u32
  ps :: u32
  sar :: u32
  vpri :: u32
  aregs :: "u32 list"
  litbase :: u32
  sr176 :: u32
  sr208 :: u32
  reason :: u32

text \<open>The special registers of the core the stub uses.\<close>

record special_registers =
  IBREAKA :: u32
  IBREAKENABLE :: u32
  DBREAKA :: u32
  DBREAKC :: u32
  ICOUNT :: u32
  ICOUNTLEVEL :: u32
  LITBASE :: u32
  SR176 :: u32
  SR208 :: u32
  EXCCAUSE :: u32

record gdb =
  savedRegs :: exception_frame
  gdb_attached :: bool
  cmd :: "u8 list"
  chsum :: u8
  singleStepPs :: u32
  uart_isr_callback :: bool
  uart_putc1_callback :: bool
  memory :: "u32 \<Rightarrow> u32"
  special :: special_registers
  tx :: "u8 list"

section \<open>Numbers and memory\<close>

text \<open>The loop of gdbGetHexVal; \<open>eat\<close> is \<open>bits == -1\<close>.\<close>

fun get_hex_loop :: "u8 list \<Rightarrow> bool \<Rightarrow> nat \<Rightarrow> nat \<Rightarrow> u32 \<Rightarrow> (u32 \<times> nat) option" where
  "get_hex_loop buf eat 0 ptr v = Some (v, ptr)"
| "get_hex_loop buf eat (Suc n) ptr v = do {
     c \<leftarrow> fetch buf ptr;
     if asc CHR ''0'' \<le> c \<and> c \<le> asc CHR ''9'' then get_hex_loop buf eat n (ptr + 1) (shl v 4 OR ucast (c - asc CHR ''0''))
     else if asc CHR ''A'' \<le> c \<and> c \<le> asc CHR ''F'' then get_hex_loop buf eat n (ptr + 1) (shl v 4 OR (ucast (c - asc CHR ''A'') + 10))
     else if asc CHR ''a'' \<le> c \<and> c \<le> asc CHR ''f'' then get_hex_loop buf eat n (ptr + 1) (shl v 4 OR (ucast (c - asc CHR ''a'') + 10))
     else if eat then Some (v, ptr)
     else if c = asc CHR ''#'' then Some (of_int ST_ENDPACKET, ptr + 1)
     else Some (of_int ST_ERR, ptr + 1) }"

definition gdbGetHexVal :: "u8 list \<Rightarrow> nat \<Rightarrow> int \<Rightarrow> (u32 \<times> nat) option" where
  "gdbGetHexVal buf ptr bits = get_hex_loop buf (bits = - 1) (if bits = - 1 then 64 else nat (bits div 4)) ptr 0"

definition iswap :: "u32 \<Rightarrow> u32" where
  "iswap i = (shr i 24 AND 0xff) OR shl (shr i 16 AND 0xff) 8 OR shl (shr i 8 AND 0xff) 16 OR shl (i AND 0xff) 24"

definition readbyte :: "u32 \<Rightarrow> gdb \<Rightarrow> u8" where
  "readbyte p s = (if p < 0x20000000 \<or> 0x60000000 \<le> p then 0xff
     else ucast (shr (memory s (p AND NOT 3)) (unat (p AND 3) * 8)))"

definition writeByte :: "u32 \<Rightarrow> u8 \<Rightarrow> gdb \<Rightarrow> gdb" where
  "writeByte p d s = (if p < 0x20000000 \<or> 0x60000000 \<le> p then s
     else (let i = p AND NOT 3; w = memory s i in
       if p AND 3 = 0 then s\<lparr>memory := (memory s)(i := (w AND 0xffffff00) OR ucast d)\<rparr>
       else if p AND 3 = 1 then s\<lparr>memory := (memory s)(i := (w AND 0xffff00ff) OR shl (ucast d) 8)\<rparr>
       else if p AND 3 = 2 then s\<lparr>memory := (memory s)(i := (w AND 0xff00ffff) OR shl (ucast d) 16)\<rparr>
       else if p AND 3 = 3 then s\<lparr>memory := (memory s)(i := (w AND 0x00ffffff) OR shl (ucast d) 24)\<rparr>
       else s))"

text \<open>The comparisons are signed; the limits are positive.\<close>

definition validWrAddr :: "u32 \<Rightarrow> bool" where
  "validWrAddr p \<longleftrightarrow> 0x3ff00000 \<le> sint p \<and> sint p < 0x40000000 \<or> 0x40100000 \<le> sint p \<and> sint p < 0x40140000 \<or>
     0x60000000 \<le> sint p \<and> sint p < 0x60002000"

section \<open>Packets out\<close>

definition gdbSendChar :: "u8 \<Rightarrow> gdb \<Rightarrow> gdb" where
  "gdbSendChar c s = s\<lparr>tx := tx s @ [c]\<rparr>"

definition gdbPacketStart :: "gdb \<Rightarrow> gdb" where
  "gdbPacketStart s = gdbSendChar (asc CHR ''$'') (s\<lparr>chsum := 0\<rparr>)"

definition gdbPacketChar :: "u8 \<Rightarrow> gdb \<Rightarrow> gdb" where
  "gdbPacketChar c s =
     (if c = asc CHR ''#'' \<or> c = asc CHR ''$'' \<or> c = asc CHR ''}'' \<or> c = asc CHR ''*'' then
        (let s = gdbSendChar (asc CHR ''}'') s;
             s = s\<lparr>chsum := chsum s + asc CHR ''}''\<rparr>;
             c = c XOR 0x20;
             s = gdbSendChar c s
         in s\<lparr>chsum := chsum s + c\<rparr>)
      else (let s = gdbSendChar c s in s\<lparr>chsum := chsum s + c\<rparr>))"

definition hexChars :: "u8 list" where
  "hexChars = str ''0123456789abcdef''"

text \<open>The loop of gdbPacketHex with \<open>i = 4 * n\<close>.\<close>

fun packet_hex_loop :: "u32 \<Rightarrow> nat \<Rightarrow> gdb \<Rightarrow> gdb" where
  "packet_hex_loop val 0 s = s"
| "packet_hex_loop val (Suc n) s = packet_hex_loop val n (gdbPacketChar (hexChars ! unat (shr val (4 * n) AND 0xf)) s)"

definition gdbPacketHex :: "u32 \<Rightarrow> nat \<Rightarrow> gdb \<Rightarrow> gdb" where
  "gdbPacketHex val bits s = packet_hex_loop val (bits div 4) s"

definition gdbPacketSwappedHexInt :: "u32 \<Rightarrow> gdb \<Rightarrow> gdb" where
  "gdbPacketSwappedHexInt val s = gdbPacketHex (iswap val) 32 s"

definition gdbPacketXXXXInt :: "gdb \<Rightarrow> gdb" where
  "gdbPacketXXXXInt s = ((gdbPacketChar (asc CHR ''x'')) ^^ 8) s"

definition gdbPacketEnd :: "gdb \<Rightarrow> gdb" where
  "gdbPacketEnd s = (let s = gdbSendChar (asc CHR ''#'') s in gdbPacketHex (ucast (chsum s)) 8 s)"

definition gdbSendPacketStr :: "u8 list \<Rightarrow> gdb \<Rightarrow> gdb" where
  "gdbSendPacketStr c s = gdbPacketEnd (fold gdbPacketChar c (gdbPacketStart s))"

definition gdbSendOutputPacketStr :: "u8 list \<Rightarrow> gdb \<Rightarrow> gdb" where
  "gdbSendOutputPacketStr buf s =
     gdbPacketEnd (fold (\<lambda>c. gdbPacketHex (ucast c) 8) buf (gdbPacketChar (asc CHR ''O'') (gdbPacketStart s)))"

definition gdbSendOutputPacketChar :: "u8 \<Rightarrow> gdb \<Rightarrow> gdb" where
  "gdbSendOutputPacketChar c s = gdbPacketEnd (gdbPacketHex (ucast c) 8 (gdbPacketChar (asc CHR ''O'') (gdbPacketStart s)))"

definition gdbGetSwappedHexInt :: "u8 list \<Rightarrow> nat \<Rightarrow> (u32 \<times> nat) option" where
  "gdbGetSwappedHexInt buf ptr = do { (v, ptr) \<leftarrow> gdbGetHexVal buf ptr 32; Some (iswap v, ptr) }"

definition exceptionSignal :: "u32 list" where
  "exceptionSignal = [4, 31, 11, 11, 2, 6, 8, 0, 6, 7, 0, 0, 7, 7, 7, 7]"

definition sendReason :: "gdb \<Rightarrow> gdb" where
  "sendReason s =
     (let s = gdbPacketChar (asc CHR ''T'') (gdbPacketStart s);
          r = reason (savedRegs s);
          s = (if r = 0xff then gdbPacketHex 2 8 s
               else if r AND 0x80 \<noteq> 0 then
                 (let i = unat (r AND 0x7f) in
                  if i < length exceptionSignal then gdbPacketHex (exceptionSignal ! i) 8 s else gdbPacketHex 11 8 s)
               else gdbPacketHex 5 8 s)
      in gdbPacketEnd s)"

definition gdbSendPacketOK :: "gdb \<Rightarrow> gdb" where
  "gdbSendPacketOK s = gdbSendPacketStr (str ''OK'') s"

definition gdbSendPacketE01 :: "gdb \<Rightarrow> gdb" where
  "gdbSendPacketE01 s = gdbSendPacketStr (str ''E01'') s"

definition gdbSendEmptyPacket :: "gdb \<Rightarrow> gdb" where
  "gdbSendEmptyPacket s = gdbPacketEnd (gdbPacketStart s)"

section \<open>Console output\<close>

definition gdbstub_write_char :: "u8 \<Rightarrow> gdb \<Rightarrow> gdb" where
  "gdbstub_write_char c s = (if gdb_attached s then gdbSendOutputPacketChar c s else gdbSendChar c s)"

definition gdbstub_write :: "u8 list \<Rightarrow> gdb \<Rightarrow> gdb" where
  "gdbstub_write buf s = (if gdb_attached s then gdbSendOutputPacketStr buf s else fold gdbSendChar buf s)"

text \<open>The characters handed to the program's callback, and the state.\<close>

definition gdbstub_semihost_putchar1 :: "u8 \<Rightarrow> gdb \<Rightarrow> u8 list \<times> gdb" where
  "gdbstub_semihost_putchar1 c s =
     (if \<not> gdb_attached s \<and> uart_putc1_callback s then ([c], s) else ([], gdbstub_write_char c s))"

definition gdbstub_set_putc1_callback :: "bool \<Rightarrow> gdb \<Rightarrow> gdb" where
  "gdbstub_set_putc1_callback func s = s\<lparr>uart_putc1_callback := func\<rparr>"

definition gdbstub_set_uart_isr_callback :: "bool \<Rightarrow> gdb \<Rightarrow> gdb" where
  "gdbstub_set_uart_isr_callback func s = s\<lparr>uart_isr_callback := func\<rparr>"

section \<open>The debug registers\<close>

definition gdbstub_icount_ena_single_step :: "gdb \<Rightarrow> gdb" where
  "gdbstub_icount_ena_single_step s =
     s\<lparr>special := (special s)\<lparr>ICOUNTLEVEL := XCHAL_DEBUGLEVEL, ICOUNT := - 2\<rparr>\<rparr>"

definition gdbstub_set_hw_breakpoint :: "u32 \<Rightarrow> gdb \<Rightarrow> u32 \<times> gdb" where
  "gdbstub_set_hw_breakpoint addr s =
     (if bit (IBREAKENABLE (special s)) 0 then (0, s)
      else (1, s\<lparr>special := (special s)\<lparr>IBREAKA := addr, IBREAKENABLE := 1\<rparr>\<rparr>))"

definition gdbstub_del_hw_breakpoint :: "u32 \<Rightarrow> gdb \<Rightarrow> u32 \<times> gdb" where
  "gdbstub_del_hw_breakpoint addr s =
     (if \<not> bit (IBREAKENABLE (special s)) 0 then (0, s)
      else if IBREAKA (special s) \<noteq> addr then (0, s)
      else (1, s\<lparr>special := (special s)\<lparr>IBREAKENABLE := 0\<rparr>\<rparr>))"

definition gdbstub_set_hw_watchpoint :: "u32 \<Rightarrow> u32 \<Rightarrow> u32 \<Rightarrow> gdb \<Rightarrow> u32 \<times> gdb" where
  "gdbstub_set_hw_watchpoint addr mask_bits access s =
     (if addr AND (0x3F XOR mask_bits) \<noteq> 0 then (0, s)
      else if 0xC0000000 AND DBREAKC (special s) \<noteq> 0 then (0, s)
      else (let c = (mask_bits AND 0x3F) OR shl access 30
            in (c, s\<lparr>special := (special s)\<lparr>DBREAKA := addr, DBREAKC := c\<rparr>\<rparr>)))"

definition gdbstub_del_hw_watchpoint :: "u32 \<Rightarrow> gdb \<Rightarrow> u32 \<times> gdb" where
  "gdbstub_del_hw_watchpoint addr s =
     (if DBREAKA (special s) \<noteq> addr then (0, s)
      else if DBREAKC (special s) AND 0xC0000000 = 0 then (0, s)
      else (1, s\<lparr>special := (special s)\<lparr>DBREAKC := 0\<rparr>\<rparr>))"

definition gdbstub_save_extra_sfrs_for_exception :: "gdb \<Rightarrow> gdb" where
  "gdbstub_save_extra_sfrs_for_exception s =
     s\<lparr>savedRegs := (savedRegs s)\<lparr>litbase := LITBASE (special s), sr176 := SR176 (special s), sr208 := SR208 (special s),
       reason := EXCCAUSE (special s)\<rparr>\<rparr>"

end
