(* ===== verification/Gdb_Stub.thy ===== *)
theory Gdb_Stub
  imports Gdb_Data
begin

text \<open>
  The upper layer of gdbstub.c: gdbHandleCommand, gdbReadCommand, the emulation of a load or store, and the
  handlers of debug exceptions, other exceptions and serial interrupts.  What arrives on the serial port is
  a list of bytes; a routine that polls for more than has arrived is \<open>Waiting\<close>.  system_restart_core does not
  return.  Indeterminate is the variable \<open>access\<close> where no branch sets it: its value is an argument.
\<close>

section \<open>Commands\<close>

datatype outcome = Status int | Restarting

definition send_registers :: "gdb \<Rightarrow> gdb" where
  "send_registers s =
     (let r = savedRegs s;
          s = gdbPacketStart s;
          s = gdbPacketSwappedHexInt (pc r) s;
          s = (gdbPacketXXXXInt ^^ 35) s;
          s = gdbPacketSwappedHexInt (sar r) s;
          s = gdbPacketSwappedHexInt (litbase r) s;
          s = (gdbPacketXXXXInt ^^ 2) s;
          s = gdbPacketSwappedHexInt (sr176 r) s;
          s = (gdbPacketXXXXInt ^^ 1) s;
          s = gdbPacketSwappedHexInt (ps r) s;
          s = (gdbPacketXXXXInt ^^ 54) s;
          s = fold (\<lambda>i. gdbPacketSwappedHexInt (aregs r ! i)) [0..<16] s
      in gdbPacketEnd s)"

fun skip_hex :: "u8 list \<Rightarrow> nat \<Rightarrow> nat \<Rightarrow> nat option" where
  "skip_hex buf 0 ptr = Some ptr"
| "skip_hex buf (Suc n) ptr = do { (v, ptr) \<leftarrow> gdbGetHexVal buf ptr 32; skip_hex buf n ptr }"

fun receive_aregs :: "u8 list \<Rightarrow> nat \<Rightarrow> nat \<Rightarrow> nat \<Rightarrow> u32 list \<Rightarrow> u32 list option" where
  "receive_aregs buf 0 i ptr a = Some a"
| "receive_aregs buf (Suc n) i ptr a = do {
     (v, ptr) \<leftarrow> gdbGetSwappedHexInt buf ptr;
     receive_aregs buf n (i + 1) ptr (a[i := v]) }"

definition receive_registers :: "gdb \<Rightarrow> gdb option" where
  "receive_registers s = do {
     let buf = cmd s;
     let r = savedRegs s;
     (v, ptr) \<leftarrow> gdbGetSwappedHexInt buf 1;
     let r = r\<lparr>pc := v\<rparr>;
     ptr \<leftarrow> skip_hex buf 35 ptr;
     (v, ptr) \<leftarrow> gdbGetSwappedHexInt buf ptr;
     let r = r\<lparr>sar := v\<rparr>;
     (v, ptr) \<leftarrow> gdbGetSwappedHexInt buf ptr;
     let r = r\<lparr>litbase := v\<rparr>;
     ptr \<leftarrow> skip_hex buf 2 ptr;
     (v, ptr) \<leftarrow> gdbGetSwappedHexInt buf ptr;
     let r = r\<lparr>sr176 := v\<rparr>;
     ptr \<leftarrow> skip_hex buf 1 ptr;
     (v, ptr) \<leftarrow> gdbGetSwappedHexInt buf ptr;
     let r = r\<lparr>ps := v\<rparr>;
     ptr \<leftarrow> skip_hex buf 54 ptr;
     a \<leftarrow> receive_aregs buf 16 0 ptr (aregs r);
     Some (s\<lparr>savedRegs := r\<lparr>aregs := a\<rparr>\<rparr>) }"

fun send_memory :: "nat \<Rightarrow> u32 \<Rightarrow> gdb \<Rightarrow> gdb" where
  "send_memory 0 i s = s"
| "send_memory (Suc n) i s = send_memory n (i + 1) (gdbPacketHex (ucast (readbyte i s)) 8 s)"

fun receive_memory :: "nat \<Rightarrow> u32 \<Rightarrow> nat \<Rightarrow> gdb \<Rightarrow> gdb option" where
  "receive_memory 0 i ptr s = Some s"
| "receive_memory (Suc n) i ptr s = do {
     (v, ptr) \<leftarrow> gdbGetHexVal (cmd s) ptr 8;
     receive_memory n (i + 1) ptr (writeByte i (ucast v) s) }"

definition set_watchpoint :: "u32 \<Rightarrow> u8 \<Rightarrow> u32 \<Rightarrow> u32 \<Rightarrow> gdb \<Rightarrow> u32 \<times> gdb" where
  "set_watchpoint access0 c i j s =
     (let access = (if c = asc CHR ''2'' then 2 else if c = asc CHR ''3'' then 1 else if c = asc CHR ''4'' then 3 else access0);
          mask_bits = (if j = 1 then 0x3F else if j = 2 then 0x3E else if j = 4 then 0x3C else if j = 8 then 0x38
                       else if j = 16 then 0x30 else if j = 32 then 0x20 else 0)
      in if mask_bits = 0 then (0, s)
         else (case gdbstub_set_hw_watchpoint i mask_bits access s of (r, s) \<Rightarrow> (if r \<noteq> 0 then 1 else 0, s)))"

definition gdbHandleCommand :: "u32 \<Rightarrow> gdb \<Rightarrow> (outcome \<times> gdb) option" where
  "gdbHandleCommand access0 s =
     (let c = cmd s ! 0; data = 1 in
      if c = asc CHR ''g'' then Some (Status ST_OK, send_registers s)
      else if c = asc CHR ''G'' then do { s \<leftarrow> receive_registers s; Some (Status ST_OK, gdbSendPacketOK s) }
      else if c OR 0x20 = asc CHR ''m'' then do {
        (i, data) \<leftarrow> gdbGetHexVal (cmd s) data (- 1);
        let data = data + 1;
        (j, data) \<leftarrow> gdbGetHexVal (cmd s) data (- 1);
        if c = asc CHR ''m'' then Some (Status ST_OK, gdbPacketEnd (send_memory (nat (sint j)) i (gdbPacketStart s)))
        else if validWrAddr i \<and> validWrAddr (i + j) then do {
          s \<leftarrow> receive_memory (nat (sint j)) i (data + 1) s;
          Some (Status ST_OK, gdbSendPacketOK s) }
        else Some (Status ST_OK, gdbSendPacketE01 s) }
      else if c = asc CHR ''?'' then Some (Status ST_OK, sendReason s)
      else if c = asc CHR ''c'' then Some (Status ST_CONT, s)
      else if c = asc CHR ''s'' then
        (let s = s\<lparr>singleStepPs := ps (savedRegs s)\<rparr>;
             s = s\<lparr>savedRegs := (savedRegs s)\<lparr>ps := (ps (savedRegs s) AND NOT 0xf) OR (XCHAL_DEBUGLEVEL - 1)\<rparr>\<rparr>
         in Some (Status ST_CONT, gdbstub_icount_ena_single_step s))
      else if c = asc CHR ''D'' then Some (Status ST_DETACH, gdbSendPacketOK s)
      else if c = asc CHR ''k'' then Some (Restarting, s)
      else if c = asc CHR ''q'' then
        (if take 9 (drop 1 (cmd s)) = str ''Supported'' then
           Some (Status ST_OK, gdbSendPacketStr (str ''swbreak+;hwbreak+;PacketSize=FF'') s)
         else if take 8 (drop 1 (cmd s)) = str ''Attached'' then Some (Status ST_OK, gdbSendPacketStr (str ''1'') s)
         else Some (Status ST_OK, gdbSendEmptyPacket s))
      else if c OR 0x20 = asc CHR ''z'' \<and> asc CHR ''1'' \<le> cmd s ! 1 \<and> cmd s ! 2 \<le> asc CHR ''4'' then do {
        let data = data + 2;
        (i, data) \<leftarrow> gdbGetHexVal (cmd s) data (- 1);
        let data = data + 1;
        (j, data) \<leftarrow> gdbGetHexVal (cmd s) data (- 1);
        let (result, s) =
          (if c = asc CHR ''Z'' then
             (if cmd s ! 1 = asc CHR ''1'' then gdbstub_set_hw_breakpoint i s
              else set_watchpoint access0 (cmd s ! 1) i j s)
           else if cmd s ! 1 = asc CHR ''1'' then gdbstub_del_hw_breakpoint i s
           else gdbstub_del_hw_watchpoint i s);
        Some (Status ST_OK, if result \<noteq> 0 then gdbSendPacketOK s else gdbSendPacketE01 s) }
      else Some (Status ST_OK, gdbSendEmptyPacket s))"

section \<open>Packets in\<close>

text \<open>A packet's body up to the \<open>#\<close>: checksum and length, the buffer, and what follows.\<close>

datatype body = Packet u8 nat "u8 list" "u8 list" | Too_Long "u8 list" "u8 list" | Starved "u8 list" | Body_Fault

function read_body :: "u8 list \<Rightarrow> u8 \<Rightarrow> nat \<Rightarrow> u8 list \<Rightarrow> body" where
  "read_body buf cs p rx =
     (case rx of
        [] \<Rightarrow> Starved buf
      | c # rx \<Rightarrow>
          if c = asc CHR ''#'' then Packet cs p buf rx
          else if c = asc CHR ''$'' then read_body buf 0 0 rx
          else (case (if c = asc CHR ''}'' then (case rx of [] \<Rightarrow> None | d # rx \<Rightarrow> Some (d XOR 0x20, rx)) else Some (c, rx)) of
              None \<Rightarrow> Starved buf
            | Some (c, rx) \<Rightarrow>
                (case store buf p c of
                   None \<Rightarrow> Body_Fault
                 | Some buf \<Rightarrow> if PBUFLEN \<le> p + 1 then Too_Long buf rx else read_body buf (cs + c) (p + 1) rx)))"
  by pat_completeness auto
termination by (relation "measure (\<lambda>(buf, cs, p, rx). length rx)") (auto split: if_splits list.splits)

declare read_body.simps [simp del]

datatype 'a run = Done 'a "u8 list" gdb | Waiting gdb | Restarted gdb | Fault

definition body_rest :: "body \<Rightarrow> u8 list" where
  "body_rest b = (case b of Packet cs p buf rx \<Rightarrow> rx | Too_Long buf rx \<Rightarrow> rx | _ \<Rightarrow> [])"

lemma body_rest_simps [simp]:
  "body_rest (Packet cs p buf rx) = rx" "body_rest (Too_Long buf rx) = rx" "body_rest (Starved buf) = []"
  "body_rest Body_Fault = []"
  by (simp_all add: body_rest_def)

lemma read_body_length: "length (body_rest (read_body buf cs p rx)) \<le> length rx"
proof (induction rx arbitrary: buf cs p rule: length_induct)
  case (1 rx)
  show ?case
  proof (cases rx)
    case Nil
    then show ?thesis by (subst read_body.simps) simp
  next
    case (Cons c rest)
    have IH: "length ys < length rx \<Longrightarrow> length (body_rest (read_body buf cs p ys)) \<le> length ys" for ys buf cs p
      using 1 by blast
    show ?thesis
    proof (cases rest)
      case Nil
      then show ?thesis
        by (subst read_body.simps) (auto simp: Cons split: option.split intro!: order_trans [OF IH])
    next
      case (Cons d rest')
      then show ?thesis using \<open>rx = c # rest\<close>
        by (subst read_body.simps) (auto simp: Cons split: option.split intro!: order_trans [OF IH])
    qed
  qed
qed

lemma packet_length:
  "read_body buf cs p rx = Packet cs' q buf' rx' \<Longrightarrow> length rx' \<le> length rx"
  "read_body buf cs p rx = Too_Long buf' rx' \<Longrightarrow> length rx' \<le> length rx"
  using read_body_length [of buf cs p rx] by simp_all

lemma dropWhile_length: "dropWhile P xs = y # ys \<Longrightarrow> length ys < length xs"
  using length_dropWhile_le [of P xs] by simp

text \<open>The loop of gdbReadCommand, from \<open>gdbReadCommand_start\<close> on.\<close>

function read_loop :: "u32 \<Rightarrow> u8 list \<Rightarrow> gdb \<Rightarrow> int run" where
  "read_loop access0 rx s =
     (case dropWhile (\<lambda>c. c \<noteq> asc CHR ''$'') rx of
        [] \<Rightarrow> Waiting s
      | _ # rx \<Rightarrow>
          (case read_body (cmd s) 0 0 rx of
             Body_Fault \<Rightarrow> Fault
           | Starved buf \<Rightarrow> Waiting (s\<lparr>cmd := buf\<rparr>)
           | Too_Long buf rx \<Rightarrow> read_loop access0 rx (s\<lparr>cmd := buf\<rparr>)
           | Packet cs p buf rx \<Rightarrow>
               (case store buf p 0 of
                  None \<Rightarrow> Fault
                | Some buf \<Rightarrow>
                    (let s = s\<lparr>cmd := buf\<rparr> in
                     case rx of
                       h # l # rx \<Rightarrow>
                         (case gdbGetHexVal [h, l] 0 8 of
                            None \<Rightarrow> Fault
                          | Some (v, _) \<Rightarrow>
                              if v = ucast cs then
                                (case gdbHandleCommand access0 (gdbSendChar (asc CHR ''+'') (s\<lparr>gdb_attached := True\<rparr>)) of
                                   None \<Rightarrow> Fault
                                 | Some (Restarting, s) \<Rightarrow> Restarted s
                                 | Some (Status r, s) \<Rightarrow> if r \<noteq> ST_OK then Done r rx s else read_loop access0 rx s)
                              else read_loop access0 rx (gdbSendChar (asc CHR ''-'') s))
                     | _ \<Rightarrow> Waiting s))))"
  by pat_completeness auto
termination
  by (relation "measure (\<lambda>(access0, rx, s). length rx)") (auto dest!: packet_length dropWhile_length)

declare read_loop.simps [simp del]

definition gdbReadCommand :: "u32 \<Rightarrow> u8 list \<Rightarrow> gdb \<Rightarrow> int run" where
  "gdbReadCommand access0 rx s =
     (case read_loop access0 rx (sendReason s) of
        Done result rx s \<Rightarrow> Done result rx (if result = ST_DETACH then s\<lparr>gdb_attached := False\<rparr> else s)
      | r \<Rightarrow> r)"

section \<open>Debug exceptions\<close>

definition getaregval :: "nat \<Rightarrow> gdb \<Rightarrow> u32 option" where
  "getaregval reg s = fetch (aregs (savedRegs s)) reg"

definition setaregval :: "nat \<Rightarrow> u32 \<Rightarrow> gdb \<Rightarrow> gdb option" where
  "setaregval reg val s = do { a \<leftarrow> store (aregs (savedRegs s)) reg val; Some (s\<lparr>savedRegs := (savedRegs s)\<lparr>aregs := a\<rparr>\<rparr>) }"

text \<open>\<open>*p\<close> for a pointer to int: a misaligned one is an exception.\<close>

definition load_word :: "u32 \<Rightarrow> gdb \<Rightarrow> u32 option" where
  "load_word p s = (if p AND 3 = 0 then Some (memory s p) else None)"

definition store_word :: "u32 \<Rightarrow> u32 \<Rightarrow> gdb \<Rightarrow> gdb option" where
  "store_word p w s = (if p AND 3 = 0 then Some (s\<lparr>memory := (memory s)(p := w)\<rparr>) else None)"

definition skip_instruction :: "u32 \<Rightarrow> gdb \<Rightarrow> gdb" where
  "skip_instruction n s = s\<lparr>savedRegs := (savedRegs s)\<lparr>pc := pc (savedRegs s) + n\<rparr>\<rparr>"

text \<open>The pointers are to int: \<open>+ n\<close> on them is \<open>+ 4 * n\<close> on addresses.\<close>

definition emulLdSt :: "gdb \<Rightarrow> gdb option" where
  "emulLdSt s =
     (let a = pc (savedRegs s); i0 = readbyte a s; i1 = readbyte (a + 1) s in
      if i0 AND 0xf = 2 \<and> i1 AND 0xb0 = 0x20 then do {
        let i2 = readbyte (a + 2) s;
        base \<leftarrow> getaregval (unat (i1 AND 0xf)) s;
        let p = base + 4 * (ucast i2 * 4);
        let i0 = shr i0 4;
        s \<leftarrow> (if i1 AND 0xf0 = 0x20 then do { w \<leftarrow> load_word p s; setaregval (unat i0) w s }
              else do { v \<leftarrow> getaregval (unat i0) s; store_word p v s });
        Some (skip_instruction 3 s) }
      else if i0 AND 0xe = 0x8 then do {
        base \<leftarrow> getaregval (unat (i1 AND 0xf)) s;
        let p = base + 4 * (ucast (shr i1 4) * 4);
        s \<leftarrow> (if i0 AND 0xf = 0x8 then do { w \<leftarrow> load_word p s; setaregval (unat (shr i0 4)) w s }
              else do { v \<leftarrow> getaregval (unat (shr i0 4)) s; store_word p v s });
        Some (skip_instruction 2 s) }
      else Some s)"

definition restore_step_ps :: "gdb \<Rightarrow> gdb" where
  "restore_step_ps s =
     (if singleStepPs s \<noteq> - 1 then
        s\<lparr>savedRegs := (savedRegs s)\<lparr>ps := (ps (savedRegs s) AND NOT 0xf) OR (singleStepPs s AND 0xf)\<rparr>, singleStepPs := - 1\<rparr>
      else s)"

text \<open>What follows gdbReadCommand: emulation after a watchpoint, or the skip over a BREAK or BREAK.N.\<close>

definition resume_debug :: "gdb \<Rightarrow> gdb option" where
  "resume_debug s =
     (let r = reason (savedRegs s); a = pc (savedRegs s) in
      if r AND 0x80 = 0 then
        (if r AND 0x4 \<noteq> 0 then emulLdSt s
         else if (r AND 0x8 \<noteq> 0 \<and> readbyte (a + 2) s = 0 \<and> readbyte (a + 1) s AND 0xf0 = 0x40 \<and> readbyte a s AND 0x0f = 0) \<or>
            (r AND 0x10 \<noteq> 0 \<and> readbyte (a + 1) s AND 0xf0 = 0xf0 \<and> readbyte a s = 0x2d)
         then Some (skip_instruction 3 s)
         else Some s)
      else Some s)"

definition gdbstub_handle_debug_exception_flash :: "u32 \<Rightarrow> u8 list \<Rightarrow> gdb \<Rightarrow> unit run" where
  "gdbstub_handle_debug_exception_flash access0 rx s =
     (case gdbReadCommand access0 rx (restore_step_ps s) of
        Done result rx s \<Rightarrow> (case resume_debug s of None \<Rightarrow> Fault | Some s \<Rightarrow> Done () rx s)
      | Waiting s \<Rightarrow> Waiting s
      | Restarted s \<Rightarrow> Restarted s
      | Fault \<Rightarrow> Fault)"

definition gdbstub_handle_debug_exception :: "u32 \<Rightarrow> u8 list \<Rightarrow> gdb \<Rightarrow> unit run" where
  "gdbstub_handle_debug_exception access0 rx s = gdbstub_handle_debug_exception_flash access0 rx s"

section \<open>Other exceptions and the serial interrupt\<close>

text \<open>The words at \<open>frame\<close>: 5 to the first fields, 14 to a2 to a15.\<close>

definition words_at :: "u32 \<Rightarrow> nat \<Rightarrow> gdb \<Rightarrow> u32 list" where
  "words_at p n s = map (\<lambda>i. memory s (p + 4 * of_nat i)) [0..<n]"

fun store_words :: "u32 \<Rightarrow> u32 list \<Rightarrow> gdb \<Rightarrow> gdb" where
  "store_words p [] s = s"
| "store_words p (w # ws) s = store_words (p + 4) ws (s\<lparr>memory := (memory s)(p := w)\<rparr>)"

definition load_frame :: "u32 \<Rightarrow> gdb \<Rightarrow> gdb" where
  "load_frame frame s =
     (let w = words_at frame 5 s; v = words_at (frame + 20) 14 s; r = savedRegs s
      in s\<lparr>savedRegs := r\<lparr>pc := w ! 0, ps := w ! 1, sar := w ! 2, vpri := w ! 3,
        aregs := [w ! 4, frame + EXCEPTION_GDB_SP_OFFSET] @ v\<rparr>\<rparr>)"

definition save_frame :: "u32 \<Rightarrow> gdb \<Rightarrow> gdb" where
  "save_frame frame s =
     (let r = savedRegs s;
          s = store_words frame [pc r, ps r, sar r, vpri r, aregs r ! 0] s
      in store_words (frame + 20) (take 14 (drop 2 (aregs r))) s)"

definition gdbReadCommandWithFrame :: "u32 \<Rightarrow> u32 \<Rightarrow> u8 list \<Rightarrow> gdb \<Rightarrow> int run" where
  "gdbReadCommandWithFrame access0 frame rx s =
     (case gdbReadCommand access0 rx (load_frame frame s) of
        Done result rx s \<Rightarrow> Done result rx (save_frame frame s)
      | r \<Rightarrow> r)"

definition run_rest :: "'a run \<Rightarrow> u8 list" where
  "run_rest r = (case r of Done x rx s \<Rightarrow> rx | _ \<Rightarrow> [])"

lemma run_rest_simps [simp]: "run_rest (Done x rx s) = rx" "run_rest (Waiting s) = []" "run_rest (Restarted s) = []"
  "run_rest Fault = []"
  by (simp_all add: run_rest_def)

lemma read_loop_length: "length (run_rest (read_loop access0 rx s)) \<le> length rx - 1"
proof (induction rx arbitrary: s rule: length_induct)
  case (1 rx)
  have IH: "length (run_rest (read_loop access0 ys s)) \<le> length rx - Suc 0" if "length ys < length rx" for ys s
  proof -
    have "length (run_rest (read_loop access0 ys s)) \<le> length ys - 1" using 1 that by blast
    then show ?thesis using that by linarith
  qed
  show ?case
    by (subst read_loop.simps)
      (auto simp: Let_def split: list.split body.split option.split outcome.split dest!: packet_length dropWhile_length intro!: IH)
qed

lemma read_command_length: "gdbReadCommand access0 rx s = Done result rx' s' \<Longrightarrow> length rx' < length rx"
proof -
  assume d: "gdbReadCommand access0 rx s = Done result rx' s'"
  then obtain s1 where l: "read_loop access0 rx (sendReason s) = Done result rx' s1"
    by (auto simp: gdbReadCommand_def split: run.splits)
  then have "rx \<noteq> []" by (auto simp: read_loop.simps [of _ "[]"])
  then show ?thesis using read_loop_length [of access0 rx "sendReason s"] l by (cases rx) auto
qed

text \<open>\<open>while (gdbReadCommandWithFrame((void*)frame) != ST_CONT)\<close>.\<close>

function exception_loop :: "u32 \<Rightarrow> u32 \<Rightarrow> u8 list \<Rightarrow> gdb \<Rightarrow> unit run" where
  "exception_loop access0 frame rx s =
     (case gdbReadCommandWithFrame access0 frame rx s of
        Done result rx s \<Rightarrow> if result = ST_CONT then Done () rx s else exception_loop access0 frame rx s
      | Waiting s \<Rightarrow> Waiting s
      | Restarted s \<Rightarrow> Restarted s
      | Fault \<Rightarrow> Fault)"
  by pat_completeness auto
termination
  by (relation "measure (\<lambda>(access0, frame, rx, s). length rx)")
    (auto simp: gdbReadCommandWithFrame_def split: run.splits dest!: read_command_length)

definition gdbstub_exception_handler_flash :: "u32 \<Rightarrow> u32 \<Rightarrow> u8 list \<Rightarrow> gdb \<Rightarrow> unit run" where
  "gdbstub_exception_handler_flash access0 frame rx s =
     exception_loop access0 frame rx (s\<lparr>savedRegs := (savedRegs s)\<lparr>reason := reason (savedRegs s) OR 0x80\<rparr>\<rparr>)"

definition gdbstub_exception_handler :: "u32 \<Rightarrow> u32 \<Rightarrow> u8 list \<Rightarrow> gdb \<Rightarrow> unit run" where
  "gdbstub_exception_handler access0 frame rx s =
     gdbstub_exception_handler_flash access0 frame rx (gdbstub_save_extra_sfrs_for_exception s)"

text \<open>The interrupt handler takes what is in the FIFO: the characters for the program's callback, and whether there
  was a control-C.\<close>

fun uart_scan :: "bool \<Rightarrow> nat \<Rightarrow> u8 list \<Rightarrow> u8 list \<times> bool \<times> u8 list" where
  "uart_scan callback 0 rx = ([], False, rx)"
| "uart_scan callback (Suc n) [] = ([], False, [])"
| "uart_scan callback (Suc n) (c # rx) =
     (if c = 0x3 then ([], True, rx)
      else (case uart_scan callback n rx of (given, found, rx) \<Rightarrow> (if callback then c # given else given, found, rx)))"

definition gdbstub_uart_hdlr :: "u32 \<Rightarrow> u32 \<Rightarrow> nat \<Rightarrow> u8 list \<Rightarrow> gdb \<Rightarrow> u8 list \<times> int run" where
  "gdbstub_uart_hdlr access0 frame fifolen rx s =
     (let s = gdbstub_save_extra_sfrs_for_exception s in
      case uart_scan (\<not> gdb_attached s \<and> uart_isr_callback s) fifolen rx of (given, found, rx) \<Rightarrow>
        if \<not> found then (given, Done ST_OK rx s)
        else (given, gdbReadCommandWithFrame access0 frame rx (s\<lparr>savedRegs := (savedRegs s)\<lparr>reason := 0xff\<rparr>\<rparr>)))"

definition gdb_present :: bool where
  "gdb_present = True"

definition gdbstub_has_putc1_control :: bool where
  "gdbstub_has_putc1_control = True"

definition gdbstub_has_uart_isr_control :: bool where
  "gdbstub_has_uart_isr_control = True"

end
