(* ===== verification/Gdb_Packet.thy ===== *)
theory Gdb_Packet
  imports Gdb_Stub
begin

text \<open>
  The packets of the stub against the framing of GDB's remote protocol: a dollar sign, the payload with
  its special characters escaped, a number sign and the sum of all bytes between as two hexadecimal digits.
  What the stub sends, a host reads back; what a host sends, the stub reads back unless a character of it
  had to be escaped.
\<close>

section \<open>Framing\<close>

definition special_char :: "u8 \<Rightarrow> bool" where
  "special_char c \<longleftrightarrow> c = asc CHR ''#'' \<or> c = asc CHR ''$'' \<or> c = asc CHR ''}'' \<or> c = asc CHR ''*''"

definition escape :: "u8 list \<Rightarrow> u8 list" where
  "escape cs = concat (map (\<lambda>c. if special_char c then [asc CHR ''}'', c XOR 0x20] else [c]) cs)"

definition hex_digit :: "u32 \<Rightarrow> nat \<Rightarrow> u8" where
  "hex_digit v k = hexChars ! unat (shr v (4 * k) AND 0xf)"

text \<open>The last \<open>n\<close> hexadecimal digits, most significant first.\<close>

fun hex_digits :: "u32 \<Rightarrow> nat \<Rightarrow> u8 list" where
  "hex_digits v 0 = []"
| "hex_digits v (Suc n) = hex_digit v n # hex_digits v n"

definition framed :: "u8 list \<Rightarrow> u8 list" where
  "framed cs = asc CHR ''$'' # escape cs @ asc CHR ''#'' # hex_digits (ucast (sum_list (escape cs))) 2"

text \<open>The host's side.\<close>

fun unescape :: "u8 list \<Rightarrow> u8 list" where
  "unescape [] = []"
| "unescape [c] = [c]"
| "unescape (c # d # cs) = (if c = asc CHR ''}'' then (d XOR 0x20) # unescape cs else c # unescape (d # cs))"

definition host_read :: "u8 list \<Rightarrow> (u8 list \<times> u8 list) option" where
  "host_read xs =
     (case xs of
        [] \<Rightarrow> None
      | d # xs \<Rightarrow>
          let raw = takeWhile (\<lambda>c. c \<noteq> asc CHR ''#'') xs in
          (case dropWhile (\<lambda>c. c \<noteq> asc CHR ''#'') xs of
             _ # h # l # rest \<Rightarrow>
               if d = asc CHR ''$'' \<and> hex_digits (ucast (sum_list raw)) 2 = [h, l] then Some (unescape raw, rest) else None
           | _ \<Rightarrow> None))"

section \<open>What goes out\<close>

definition emit :: "u8 list \<Rightarrow> gdb \<Rightarrow> gdb" where
  "emit cs s = s\<lparr>tx := tx s @ escape cs, chsum := chsum s + sum_list (escape cs)\<rparr>"

lemma escape_simps [simp]:
  "escape [] = []" "escape (c # cs) = (if special_char c then [asc CHR ''}'', c XOR 0x20] else [c]) @ escape cs"
  "escape (cs @ ds) = escape cs @ escape ds"
  by (simp_all add: escape_def)

lemma emit_emit [simp]: "emit ds (emit cs s) = emit (cs @ ds) s"
  by (simp add: emit_def ac_simps)

lemma emit_Nil [simp]: "emit [] s = s"
  by (simp add: emit_def)

lemma packet_char: "gdbPacketChar c s = emit [c] s"
  by (simp add: gdbPacketChar_def emit_def gdbSendChar_def special_char_def Let_def ac_simps)

lemma fold_packet_char: "fold gdbPacketChar cs s = emit cs s"
  by (induction cs arbitrary: s) (simp_all add: packet_char)

lemma packet_hex_loop: "packet_hex_loop v n s = emit (hex_digits v n) s"
  by (induction n arbitrary: s) (simp_all add: packet_char hex_digit_def)

lemma packet_hex: "gdbPacketHex v bits s = emit (hex_digits v (bits div 4)) s"
  by (simp add: gdbPacketHex_def packet_hex_loop)

lemma funpow_emit: "(\<And>s. f s = emit cs s) \<Longrightarrow> (f ^^ n) s = emit (concat (replicate n cs)) s"
  by (induction n arbitrary: s) (simp_all add: funpow_Suc_right del: funpow.simps(2))

lemma fold_emit: "(\<And>x s. f x s = emit (g x) s) \<Longrightarrow> fold f xs s = emit (concat (map g xs)) s"
  by (induction xs arbitrary: s) simp_all

definition xxxx :: "u8 list" where
  "xxxx = replicate 8 (asc CHR ''x'')"

lemma packet_xxxx: "gdbPacketXXXXInt s = emit xxxx s"
  unfolding gdbPacketXXXXInt_def xxxx_def
  by (subst funpow_emit [of _ "[asc CHR ''x'']"]) (simp_all add: packet_char)

lemma packet_swapped: "gdbPacketSwappedHexInt v s = emit (hex_digits (iswap v) 8) s"
  by (simp add: gdbPacketSwappedHexInt_def packet_hex)

lemma hexChars_plain: "c \<in> set hexChars \<Longrightarrow> \<not> special_char c"
  by (auto simp: hexChars_def str_def special_char_def)

lemma hex_digit_in: "hex_digit v k \<in> set hexChars"
proof -
  have "unat (shr v (4 * k) AND 0xf) < length hexChars"
    by (simp add: unat_and_0f hexChars_def str_def)
  then show ?thesis by (simp add: hex_digit_def)
qed

lemma escape_plain: "\<forall>c \<in> set cs. \<not> special_char c \<Longrightarrow> escape cs = cs"
  by (induction cs) simp_all

lemma set_hex_digits: "set (hex_digits v n) \<subseteq> set hexChars"
  by (induction n) (simp_all add: hex_digit_in)

lemma escape_hex [simp]: "escape (hex_digits v n) = hex_digits v n"
  using set_hex_digits hexChars_plain by (intro escape_plain) blast

text \<open>Between its start and its end a packet is one frame.\<close>

definition send_packet :: "u8 list \<Rightarrow> gdb \<Rightarrow> gdb" where
  "send_packet cs s = s\<lparr>tx := tx s @ framed cs,
     chsum := sum_list (escape cs) + sum_list (hex_digits (ucast (sum_list (escape cs))) 2)\<rparr>"

lemma packet_end: "gdbPacketEnd (emit cs (gdbPacketStart s)) = send_packet cs s"
  by (simp add: gdbPacketEnd_def gdbPacketStart_def gdbSendChar_def emit_def packet_hex send_packet_def framed_def
      Let_def del: hex_digits.simps)

lemma packet_str: "gdbSendPacketStr cs s = send_packet cs s"
  by (simp add: gdbSendPacketStr_def fold_packet_char packet_end)

lemma packet_simple:
  "gdbSendPacketOK s = send_packet (str ''OK'') s" "gdbSendPacketE01 s = send_packet (str ''E01'') s"
  "gdbSendEmptyPacket s = send_packet [] s"
  using packet_end [of "[]" s] by (simp_all add: gdbSendPacketOK_def gdbSendPacketE01_def gdbSendEmptyPacket_def packet_str)

lemma packet_output: "gdbSendOutputPacketStr buf s =
    send_packet (asc CHR ''O'' # concat (map (\<lambda>c. hex_digits (ucast c) 2) buf)) s"
proof -
  have "fold (\<lambda>c. gdbPacketHex (ucast c) 8) buf s = emit (concat (map (\<lambda>c. hex_digits (ucast c) 2) buf)) s" for s
    by (rule fold_emit) (simp add: packet_hex)
  then show ?thesis using packet_end [of "asc CHR ''O'' # concat (map (\<lambda>c. hex_digits (ucast c) 2) buf)" s]
    by (simp add: gdbSendOutputPacketStr_def packet_char del: hex_digits.simps asc_def)
qed

section \<open>The host reads what was sent\<close>

lemma escape_no_hash: "asc CHR ''#'' \<notin> set (escape cs)"
  by (induction cs) (auto simp: special_char_def)

lemma unescape_escape: "unescape (escape cs) = cs"
proof (induction cs)
  case (Cons c cs)
  show ?case
  proof (cases "special_char c")
    case True
    then show ?thesis using Cons.IH by simp
  next
    case False
    then have "c \<noteq> asc CHR ''}''" by (simp add: special_char_def)
    then show ?thesis using False Cons.IH by (cases "escape cs") simp_all
  qed
qed simp

lemma host_reads_frame: "host_read (framed cs @ rest) = Some (cs, rest)"
proof -
  let ?h = "hex_digits (ucast (sum_list (escape cs))) 2"
  obtain h l where hl: "?h = [h, l]" by (simp add: numeral_2_eq_2)
  have n: "\<And>c. c \<in> set (escape cs) \<Longrightarrow> c \<noteq> asc CHR ''#''" using escape_no_hash by blast
  have t: "takeWhile (\<lambda>c. c \<noteq> asc CHR ''#'') (escape cs @ asc CHR ''#'' # ?h @ rest) = escape cs"
    using n by (subst takeWhile_append2) simp_all
  have d: "dropWhile (\<lambda>c. c \<noteq> asc CHR ''#'') (escape cs @ asc CHR ''#'' # ?h @ rest) = asc CHR ''#'' # ?h @ rest"
    using n by (subst dropWhile_append2) simp_all
  have "framed cs @ rest = asc CHR ''$'' # escape cs @ asc CHR ''#'' # ?h @ rest" by (simp add: framed_def del: hex_digits.simps)
  then show ?thesis using t d hl by (simp add: host_read_def unescape_escape del: hex_digits.simps asc_def)
qed

text \<open>C30. Whatever bytes the stub sends as a packet, the host reads back exactly these bytes: framing, escapes and
  checksum are those of the protocol.\<close>

theorem sent_packet_reads_back:
  "host_read (drop (length (tx s)) (tx (gdbSendPacketStr cs s))) = Some (cs, [])"
  using host_reads_frame [of cs "[]"] by (simp add: packet_str send_packet_def)

section \<open>What comes in\<close>

lemma read_frame_body:
  assumes "length buf = PBUFLEN" and "p + length c < PBUFLEN"
  shows "read_body buf cs p (escape c @ asc CHR ''#'' # rest) =
    Packet (cs + sum_list c) (p + length c) (take p buf @ c @ drop (p + length c) buf) rest"
  using assms
proof (induction c arbitrary: buf cs p)
  case Nil
  then show ?case by (subst read_body.simps) (simp add: PBUFLEN_def)
next
  case (Cons x c)
  let ?buf = "buf[p := x]"
  have st: "store buf p x = Some ?buf" using Cons.prems by (simp add: store_def)
  have IH: "read_body ?buf (cs + x) (p + 1) (escape c @ asc CHR ''#'' # rest) =
      Packet (cs + sum_list (x # c)) (p + length (x # c)) (take p buf @ (x # c) @ drop (p + length (x # c)) buf) rest"
    using Cons.IH [of ?buf "p + 1" "cs + x"] Cons.prems
    by (simp add: ac_simps take_Suc_conv_app_nth drop_update_cancel del: asc_def)
  show ?case
  proof (cases "special_char x")
    case True
    then have "read_body buf cs p (escape (x # c) @ asc CHR ''#'' # rest) =
        read_body ?buf (cs + x) (p + 1) (escape c @ asc CHR ''#'' # rest)"
      using Cons.prems st by (subst read_body.simps) (simp add: not_le)
    then show ?thesis using IH by simp
  next
    case False
    then have "read_body buf cs p (escape (x # c) @ asc CHR ''#'' # rest) =
        read_body ?buf (cs + x) (p + 1) (escape c @ asc CHR ''#'' # rest)"
      using Cons.prems st by (subst read_body.simps) (simp add: special_char_def not_le)
    then show ?thesis using IH by simp
  qed
qed

text \<open>Escaping a character adds 93 to the sum of the bytes, which the stub does not add.\<close>

lemma escape_sum: "sum_list (escape cs) = sum_list cs + of_nat (93 * length (filter special_char cs))"
proof (induction cs)
  case (Cons c cs)
  have "asc CHR ''}'' + (c XOR 0x20) = c + 93" if "special_char c"
    using that by (auto simp: special_char_def)
  then show ?case using Cons.IH by (simp add: algebra_simps del: asc_def)
qed simp

lemma checksum_agrees:
  assumes "length cs < 256"
  shows "sum_list (escape cs) = sum_list cs \<longleftrightarrow> (\<forall>c \<in> set cs. \<not> special_char c)"
proof -
  let ?n = "length (filter special_char cs)"
  have n: "?n < 256" using assms length_filter_le [of special_char cs] by linarith
  have "sum_list (escape cs) = sum_list cs \<longleftrightarrow> (of_nat (93 * ?n) :: u8) = 0" by (simp add: escape_sum del: of_nat_mult)
  also have "\<dots> \<longleftrightarrow> 256 dvd 93 * ?n" by (simp add: word_of_nat_eq_0_iff del: of_nat_mult)
  also have "\<dots> \<longleftrightarrow> ?n = 0"
  proof
    assume "256 dvd 93 * ?n"
    moreover have "coprime (2 ^ 8 :: nat) 93" by (simp only: coprime_power_left_iff) simp
    then have "coprime (256 :: nat) 93" by simp
    ultimately have "256 dvd ?n" by (simp add: coprime_dvd_mult_right_iff)
    then show "?n = 0" using n by (auto dest: dvd_imp_le)
  qed simp
  also have "\<dots> \<longleftrightarrow> (\<forall>c \<in> set cs. \<not> special_char c)" by (auto simp: filter_empty_conv)
  finally show ?thesis .
qed

lemma get_hex_digit:
  assumes "d < 16" and "fetch buf ptr = Some (hexChars ! d)"
  shows "get_hex_loop buf eat (Suc n) ptr v = get_hex_loop buf eat n (ptr + 1) (shl v 4 OR of_nat d)"
proof -
  have "d \<in> {0, 1, 2, 3, 4, 5, 6, 7, 8, 9, 10, 11, 12, 13, 14, 15}" unfolding insert_iff empty_iff using assms(1) by presburger
  then show ?thesis using assms(2)
    by (elim insertE) (simp_all add: hexChars_def str_def word_le_nat_alt)
qed

lemma shl_digits: "shl (shl v 4 OR (shr w (4 * n) AND 0xf)) (4 * n) OR (w AND mask (4 * n)) =
    shl v (4 * Suc n) OR (w AND mask (4 * Suc n))" for v w :: u32
proof (rule bit_word_eqI)
  fix i assume "i < LENGTH(32)"
  have f: "bit (0xf :: u32) j \<longleftrightarrow> j < 4" for j
  proof -
    have "(0xf :: u32) = mask 4" by (simp add: mask_eq_exp_minus_1)
    show ?thesis unfolding \<open>0xf = mask 4\<close> bit_mask_iff by auto
  qed
  consider "i < 4 * n" | k where "i = 4 * n + k" "k < 4" | k where "i = 4 * n + 4 + k"
    by (metis add.assoc le_Suc_ex less_or_eq_imp_le not_le_imp_less)
  then show "bit (shl (shl v 4 OR (shr w (4 * n) AND 0xf)) (4 * n) OR (w AND mask (4 * n))) i =
      bit (shl v (4 * Suc n) OR (w AND mask (4 * Suc n))) i"
    unfolding bit_or_iff bit_and_iff bit_shl bit_shr bit_mask_iff f using \<open>i < LENGTH(32)\<close> by cases auto
qed

lemma get_hex_digits:
  "get_hex_loop (pre @ hex_digits w n @ post) eat (n + k) (length pre) v =
    get_hex_loop (pre @ hex_digits w n @ post) eat k (length pre + n) (shl v (4 * n) OR (w AND mask (4 * n)))"
proof (induction n arbitrary: pre v)
  case (Suc n)
  let ?d = "unat (shr w (4 * n) AND 0xf)"
  have "?d < 16" by (simp add: unat_and_0f)
  moreover have "fetch (pre @ hex_digits w (Suc n) @ post) (length pre) = Some (hexChars ! ?d)"
    by (simp add: fetch_def nth_append hex_digit_def)
  ultimately have "get_hex_loop (pre @ hex_digits w (Suc n) @ post) eat (Suc n + k) (length pre) v =
      get_hex_loop (pre @ hex_digits w (Suc n) @ post) eat (n + k) (length pre + 1) (shl v 4 OR of_nat ?d)"
    using get_hex_digit by simp
  also have "\<dots> = get_hex_loop ((pre @ [hex_digit w n]) @ hex_digits w n @ post) eat (n + k) (length (pre @ [hex_digit w n]))
      (shl v 4 OR (shr w (4 * n) AND 0xf))" by simp
  also have "\<dots> = get_hex_loop ((pre @ [hex_digit w n]) @ hex_digits w n @ post) eat k (length (pre @ [hex_digit w n]) + n)
      (shl v (4 * Suc n) OR (w AND mask (4 * Suc n)))"
    by (subst Suc.IH) (simp only: shl_digits)
  finally show ?case by simp
qed simp

lemma get_hex_two: "gdbGetHexVal (hex_digits (ucast (v :: u8)) 2) 0 8 = Some (ucast v, 2)"
proof -
  have "(ucast v :: u32) AND mask 8 = ucast v" by (rule bit_word_eqI) (auto simp: bit_and_iff bit_mask_iff bit_ucast_iff dest: bit_imp_le_length)
  then show ?thesis using get_hex_digits [of "[]" "ucast v" 2 "[]" False 0 0]
    by (simp add: gdbGetHexVal_def del: hex_digits.simps mask_numeral)
qed

text \<open>The command buffer after a packet with payload \<open>c\<close>.\<close>

definition with_command :: "u8 list \<Rightarrow> gdb \<Rightarrow> gdb" where
  "with_command c s = s\<lparr>cmd := c @ 0 # drop (Suc (length c)) (cmd s)\<rparr>"

definition plain :: "u8 list \<Rightarrow> bool" where
  "plain c \<longleftrightarrow> (\<forall>x \<in> set c. \<not> special_char x)"

lemma byte_ucast_inject: "(ucast a :: u32) = ucast b \<longleftrightarrow> a = b" for a b :: u8
proof -
  have "(ucast (ucast x :: u32) :: u8) = x" for x :: u8 by (rule bit_word_eqI) (simp add: bit_ucast_iff)
  then show ?thesis by metis
qed

lemma read_loop_frame:
  assumes "length (cmd s) = PBUFLEN" and "length c < PBUFLEN"
  shows "read_loop access0 (framed c @ rest) s =
    (if plain c then
       (case gdbHandleCommand access0 (gdbSendChar (asc CHR ''+'') ((with_command c s)\<lparr>gdb_attached := True\<rparr>)) of
          None \<Rightarrow> Fault
        | Some (Restarting, s) \<Rightarrow> Restarted s
        | Some (Status r, s) \<Rightarrow> if r \<noteq> ST_OK then Done r rest s else read_loop access0 rest s)
     else read_loop access0 rest (gdbSendChar (asc CHR ''-'') (with_command c s)))"
proof -
  let ?v = "sum_list (escape c)"
  obtain h l where hl: "hex_digits (ucast ?v) 2 = [h, l]" by (simp add: numeral_2_eq_2)
  have b: "read_body (cmd s) 0 0 (escape c @ asc CHR ''#'' # h # l # rest) =
      Packet (sum_list c) (length c) (c @ drop (length c) (cmd s)) (h # l # rest)"
    using read_frame_body [OF assms(1), of 0 c 0] assms(2) by (simp del: asc_def)
  have st: "store (c @ drop (length c) (cmd s)) (length c) 0 = Some (c @ 0 # drop (Suc (length c)) (cmd s))"
  proof -
    have "drop (length c) (cmd s) = cmd s ! length c # drop (Suc (length c)) (cmd s)"
      using assms by (simp add: Cons_nth_drop_Suc)
    then show ?thesis by (simp add: store_def list_update_append)
  qed
  have g: "gdbGetHexVal [h, l] 0 8 = Some (ucast ?v, 2)" using get_hex_two [of ?v] hl by simp
  have e: "(ucast ?v :: u32) = ucast (sum_list c) \<longleftrightarrow> plain c"
    using checksum_agrees [of c] assms(2)
    by (simp add: PBUFLEN_def plain_def byte_ucast_inject)
  have d: "dropWhile (\<lambda>x. x \<noteq> asc CHR ''$'') (framed c @ rest) = asc CHR ''$'' # escape c @ asc CHR ''#'' # h # l # rest"
    by (simp add: framed_def hl del: hex_digits.simps)
  show ?thesis
    by (subst read_loop.simps) (simp add: d b st g e with_command_def Let_def del: asc_def)
qed

definition body_ok :: "body \<Rightarrow> bool" where
  "body_ok b \<longleftrightarrow> (case b of
       Packet cs' q buf' rx' \<Rightarrow> q < PBUFLEN \<and> length buf' = PBUFLEN
     | Too_Long buf' rx' \<Rightarrow> length buf' = PBUFLEN
     | Starved buf' \<Rightarrow> length buf' = PBUFLEN
     | Body_Fault \<Rightarrow> False)"

lemma read_body_safe: "length buf = PBUFLEN \<Longrightarrow> p < PBUFLEN \<Longrightarrow> body_ok (read_body buf cs p rx)"
proof (induction rx arbitrary: buf cs p rule: length_induct)
  case (1 rx)
  have IH: "length ys < length rx \<Longrightarrow> length buf = PBUFLEN \<Longrightarrow> p < PBUFLEN \<Longrightarrow> body_ok (read_body buf cs p ys)"
    for ys buf cs p using 1 by blast
  have st: "store buf p c = Some (buf[p := c])" for c using 1 by (simp add: store_def)
  have P: "0 < PBUFLEN" by (simp add: PBUFLEN_def)
  show ?case
  proof (cases rx)
    case Nil
    then show ?thesis using 1 by (subst read_body.simps) (simp add: body_ok_def)
  next
    case (Cons c rest)
    have put: "body_ok (if PBUFLEN \<le> p + 1 then Too_Long (buf[p := x]) ys else read_body (buf[p := x]) cs' (p + 1) ys)"
      if "length ys < length rx" for x ys cs'
      using IH [OF that, of "buf[p := x]" "p + 1" cs'] 1 by (simp add: body_ok_def [of "Too_Long _ _"])
    show ?thesis
    proof (cases rest)
      case Nil
      then show ?thesis using put [of "[]"] IH [of "[]", OF _ _ P] 1 \<open>rx = c # rest\<close>
        by (subst read_body.simps) (auto simp: st body_ok_def [of "Packet _ _ _ _"] body_ok_def [of "Starved _"] simp del: asc_def)
    next
      case (Cons d rest')
      then show ?thesis using put IH [OF _ _ P] 1 \<open>rx = c # rest\<close>
        by (subst read_body.simps) (auto simp: st body_ok_def [of "Packet _ _ _ _"] simp del: asc_def)
    qed
  qed
qed

lemma read_body_ok: "length buf = PBUFLEN \<Longrightarrow> p < PBUFLEN \<Longrightarrow>
    (case read_body buf cs p rx of
       Packet cs' q buf' rx' \<Rightarrow> q < PBUFLEN \<and> length buf' = PBUFLEN
     | Too_Long buf' rx' \<Rightarrow> length buf' = PBUFLEN
     | Starved buf' \<Rightarrow> length buf' = PBUFLEN
     | Body_Fault \<Rightarrow> False)"
  using read_body_safe [of buf p cs rx] by (simp add: body_ok_def)

text \<open>C29. A packet with fewer than 256 characters is read whatever it holds, but it is answered by a plus and handled only if
  none of its characters had to be escaped; else by a minus: the stub sums the characters after undoing the escapes, the
  protocol before, and 93 times the number of escapes is never 0 modulo 256.  So the stub refuses packets it would send.\<close>

theorem packet_acceptance:
  "length (cmd s) = PBUFLEN \<Longrightarrow> length c < PBUFLEN \<Longrightarrow> read_loop access0 (framed c @ rest) s =
    (if plain c then
       (case gdbHandleCommand access0 (gdbSendChar (asc CHR ''+'') ((with_command c s)\<lparr>gdb_attached := True\<rparr>)) of
          None \<Rightarrow> Fault
        | Some (Restarting, s) \<Rightarrow> Restarted s
        | Some (Status r, s) \<Rightarrow> if r \<noteq> ST_OK then Done r rest s else read_loop access0 rest s)
     else read_loop access0 rest (gdbSendChar (asc CHR ''-'') (with_command c s)))"
  by (rule read_loop_frame)

text \<open>Whatever arrives, the packet reader stores inside the command buffer only, and a complete packet leaves room for
  the zero behind it.\<close>

theorem read_body_in_buffer:
  "length buf = PBUFLEN \<Longrightarrow> p < PBUFLEN \<Longrightarrow>
    (case read_body buf cs p rx of
       Packet cs' q buf' rx' \<Rightarrow> q < PBUFLEN \<and> length buf' = PBUFLEN
     | Too_Long buf' rx' \<Rightarrow> length buf' = PBUFLEN
     | Starved buf' \<Rightarrow> length buf' = PBUFLEN
     | Body_Fault \<Rightarrow> False)"
  by (rule read_body_ok)

end
