(* ===== verification/Gdb_Commands.thy ===== *)
theory Gdb_Commands
  imports Gdb_Packet
begin

text \<open>
  What the commands do: memory is written and read back through the serial protocol, single steps leave the
  processor state as it was, packets that are too long are dropped; and where the handlers go wrong.
\<close>

section \<open>Bytes of memory\<close>

definition in_core :: "u32 \<Rightarrow> bool" where
  "in_core p \<longleftrightarrow> 0x20000000 \<le> p \<and> p < 0x60000000"

lemma byte_put:
  fixes w :: u32
  assumes "j < 4" and "k < 4"
  shows "(ucast (shr ((w AND NOT (push_bit (8 * k) (mask 8))) OR shl (ucast (d :: u8)) (8 * k)) (8 * j)) :: u8) =
    (if j = k then d else ucast (shr w (8 * j)))"
proof (rule bit_word_eqI)
  fix i assume i: "i < LENGTH(8)"
  have "j = k \<or> j < k \<or> k < j" by auto
  then have "bit (ucast (shr ((w AND NOT (push_bit (8 * k) (mask 8))) OR shl (ucast d) (8 * k)) (8 * j)) :: u8) i \<longleftrightarrow>
      (if j = k then bit d i else bit w (8 * j + i))"
    using i assms
    by (auto simp: bit_ucast_iff bit_or_iff bit_and_iff bit_not_iff bit_push_bit_iff bit_mask_iff bit_shl bit_shr)
  then show "bit (ucast (shr ((w AND NOT (push_bit (8 * k) (mask 8))) OR shl (ucast d) (8 * k)) (8 * j)) :: u8) i =
      bit (if j = k then d else ucast (shr w (8 * j))) i"
    using i by (simp add: bit_ucast_iff bit_shr)
qed

lemma byte_masks:
  "(0xffffff00 :: u32) = NOT (push_bit (8 * 0) (mask 8))" "(0xffff00ff :: u32) = NOT (push_bit (8 * 1) (mask 8))"
  "(0xff00ffff :: u32) = NOT (push_bit (8 * 2) (mask 8))" "(0x00ffffff :: u32) = NOT (push_bit (8 * 3) (mask 8))"
  by (simp_all add: mask_eq_exp_minus_1 word_unat_eq_iff)

lemma low_two: "unat ((p :: u32) AND 3) < 4"
  by (simp add: unat_and_3)

lemma writeByte_eq:
  assumes "in_core p"
  shows "writeByte p d s = s\<lparr>memory := (memory s)(p AND NOT 3 :=
    (memory s (p AND NOT 3) AND NOT (push_bit (8 * unat (p AND 3)) (mask 8))) OR shl (ucast d) (8 * unat (p AND 3)))\<rparr>"
proof -
  have c: "\<not> (p < 0x20000000 \<or> 0x60000000 \<le> p)" using assms by (simp add: in_core_def not_le not_less)
  have w: "p AND 3 = of_nat (unat (p AND 3))" by simp
  consider "unat (p AND 3) = 0" | "unat (p AND 3) = 1" | "unat (p AND 3) = 2" | "unat (p AND 3) = 3"
    using low_two [of p] by linarith
  then show ?thesis
  proof cases
    case 1 then have "p AND 3 = 0" using w by simp
    then show ?thesis using c unfolding writeByte_def byte_masks Let_def by simp
  next
    case 2 then have "p AND 3 = 1" using w by simp
    then show ?thesis using c unfolding writeByte_def byte_masks Let_def by simp
  next
    case 3 then have "p AND 3 = 2" using w by simp
    then show ?thesis using c unfolding writeByte_def byte_masks Let_def by simp
  next
    case 4 then have "p AND 3 = 3" using w by simp
    then show ?thesis using c unfolding writeByte_def byte_masks Let_def by simp
  qed
qed

lemma same_address: "(p AND NOT 3) = (q AND NOT 3) \<and> p AND 3 = q AND 3 \<longleftrightarrow> p = q" for p q :: u32
proof
  have "x = (x AND NOT 3) OR (x AND 3)" for x :: u32 by (simp flip: bit.conj_disj_distrib)
  then show "(p AND NOT 3) = (q AND NOT 3) \<and> p AND 3 = q AND 3 \<Longrightarrow> p = q" by metis
qed simp

lemma readbyte_eq:
  "readbyte p s = (if in_core p then ucast (shr (memory s (p AND NOT 3)) (8 * unat (p AND 3))) else 0xff)"
proof -
  have e: "unat (p AND 3) * 8 = 8 * unat (p AND 3)" by (rule mult.commute)
  show ?thesis unfolding readbyte_def in_core_def e by (auto simp: not_le not_less)
qed

text \<open>A written byte is read back; no other byte changes.\<close>

lemma read_write_byte:
  assumes "in_core p"
  shows "readbyte q (writeByte p d s) = (if q = p then d else readbyte q s)"
proof (cases "p AND NOT 3 = q AND NOT 3")
  case True
  have m: "unat (q AND 3) = unat (p AND 3) \<longleftrightarrow> q = p" using True same_address [of p q] by (auto simp: word_unat_eq_iff)
  let ?w = "memory s (p AND NOT 3)"
  have "readbyte q (writeByte p d s) = (if in_core q then
      ucast (shr ((?w AND NOT (push_bit (8 * unat (p AND 3)) (mask 8))) OR shl (ucast d) (8 * unat (p AND 3))) (8 * unat (q AND 3)))
      else 0xff)"
    unfolding readbyte_eq writeByte_eq [OF assms] using True by simp
  also have "\<dots> = (if in_core q then if q = p then d else ucast (shr ?w (8 * unat (q AND 3))) else 0xff)"
    unfolding byte_put [OF low_two low_two] m ..
  also have "\<dots> = (if q = p then d else readbyte q s)" using assms True by (simp add: readbyte_eq)
  finally show ?thesis .
next
  case False
  then have "q \<noteq> p" by auto
  then show ?thesis using False by (simp add: readbyte_eq writeByte_eq [OF assms])
qed

lemma writeByte_fields: "writeByte p d s = s\<lparr>memory := memory (writeByte p d s)\<rparr>"
  by (simp add: writeByte_def Let_def)

section \<open>Numbers in commands\<close>

lemma length_hex_digits [simp]: "length (hex_digits w n) = n"
  by (induction n) simp_all

text \<open>A number in a command, read with \<open>bits = -1\<close> up to a character that is no digit.\<close>

lemma get_number:
  assumes "n \<le> 8" and "w AND mask (4 * n) = w" and "c \<in> {0, asc CHR '','', asc CHR '':''}"
  shows "gdbGetHexVal (pre @ hex_digits w n @ c # post) (length pre) (- 1) = Some (w, length pre + n)"
proof -
  have f: "fetch (pre @ hex_digits w n @ c # post) (length pre + n) = Some c"
    by (simp add: fetch_def nth_append)
  have "get_hex_loop (pre @ hex_digits w n @ c # post) True (n + (64 - n)) (length pre) 0 =
      get_hex_loop (pre @ hex_digits w n @ c # post) True (64 - n) (length pre + n) (shl 0 (4 * n) OR (w AND mask (4 * n)))"
    by (rule get_hex_digits)
  moreover have "64 - n = Suc (63 - n)" using assms(1) by simp
  moreover have "get_hex_loop (pre @ hex_digits w n @ c # post) True (Suc (63 - n)) (length pre + n) w = Some (w, length pre + n)"
    using assms(3) f by (auto simp: word_le_nat_alt)
  ultimately show ?thesis using assms(1,2) by (simp add: gdbGetHexVal_def)
qed

lemma get_byte: "gdbGetHexVal (pre @ hex_digits (ucast (d :: u8)) 2 @ post) (length pre) 8 = Some (ucast d, length pre + 2)"
proof -
  have "(ucast d :: u32) AND mask 8 = ucast d"
    by (rule bit_word_eqI) (auto simp: bit_and_iff bit_mask_iff bit_ucast_iff dest: bit_imp_le_length)
  then show ?thesis using get_hex_digits [of pre "ucast d" 2 post False 0 0]
    by (simp add: gdbGetHexVal_def del: hex_digits.simps mask_numeral)
qed

definition hex_bytes :: "u8 list \<Rightarrow> u8 list" where
  "hex_bytes bs = concat (map (\<lambda>b. hex_digits (ucast b) 2) bs)"

lemma receive_memory_eq:
  assumes "cmd s = pre @ hex_bytes bs @ post" and "\<forall>k < length bs. in_core (i + of_nat k)" and "length bs < 2 ^ 32"
  shows "\<exists>m. receive_memory (length bs) i (length pre) s = Some (s\<lparr>memory := m\<rparr>) \<and>
    (\<forall>q. readbyte q (s\<lparr>memory := m\<rparr>) = (if unat (q - i) < length bs then bs ! unat (q - i) else readbyte q s))"
  using assms
proof (induction bs arbitrary: pre i s)
  case Nil
  then show ?case by (intro exI [of _ "memory s"]) simp
next
  case (Cons b bs)
  let ?s = "writeByte i b s"
  have ok: "in_core i" using Cons.prems(2) by (auto dest: spec [of _ 0])
  have c: "cmd ?s = (pre @ hex_digits (ucast b) 2) @ hex_bytes bs @ post"
    using Cons.prems(1) by (subst writeByte_fields) (simp add: hex_bytes_def)
  have ok': "\<forall>k < length bs. in_core (i + 1 + of_nat k)"
    using Cons.prems(2) by (auto simp: ac_simps dest: spec [of _ "Suc _"])
  obtain m where m: "receive_memory (length bs) (i + 1) (length (pre @ hex_digits (ucast b) 2)) ?s = Some (?s\<lparr>memory := m\<rparr>)"
    "\<And>q. readbyte q (?s\<lparr>memory := m\<rparr>) = (if unat (q - (i + 1)) < length bs then bs ! unat (q - (i + 1)) else readbyte q ?s)"
    using Cons.IH [OF c ok'] Cons.prems(3) by auto
  have e: "?s\<lparr>memory := m\<rparr> = s\<lparr>memory := m\<rparr>" by (subst writeByte_fields) simp
  have g: "gdbGetHexVal (cmd s) (length pre) 8 = Some (ucast b, length pre + 2)"
    using get_byte [of pre b "hex_bytes bs @ post"] Cons.prems(1) by (simp add: hex_bytes_def del: hex_digits.simps)
  have u: "(ucast (ucast b :: u32) :: u8) = b" by (rule bit_word_eqI) (simp add: bit_ucast_iff)
  have "receive_memory (length (b # bs)) i (length pre) s = Some (s\<lparr>memory := m\<rparr>)"
    using m(1) by (simp add: g u e)
  moreover have "readbyte q (s\<lparr>memory := m\<rparr>) =
      (if unat (q - i) < length (b # bs) then (b # bs) ! unat (q - i) else readbyte q s)" for q
  proof (cases "q = i")
    case True
    have "unat (i - (i + 1) :: u32) = 4294967295" by (simp add: unsigned_minus_1_eq_mask mask_eq_exp_minus_1)
    then show ?thesis using m(2) [of q] Cons.prems(3) True by (simp add: e read_write_byte [OF ok])
  next
    case False
    have "unat (q - i) = Suc (unat (q - (i + 1)))"
    proof -
      have "q - i \<noteq> 0" using False by simp
      then have "unat (q - i - 1) = unat (q - i) - 1" "0 < unat (q - i)" by (simp_all add: unat_minus_one unat_gt_0)
      moreover have "q - (i + 1) = q - i - 1" by (simp only: diff_diff_eq)
      ultimately show ?thesis by (simp only:)
    qed
    then show ?thesis using m(2) [of q] False by (simp add: e read_write_byte [OF ok])
  qed
  ultimately show ?case by blast
qed

section \<open>Reading and writing memory\<close>

definition write_command :: "u32 \<Rightarrow> u8 list \<Rightarrow> u8 list" where
  "write_command a bs = asc CHR ''M'' # hex_digits a 8 @ asc CHR '','' # hex_digits (of_nat (length bs)) 8 @ asc CHR '':'' # hex_bytes bs"

definition read_command :: "u32 \<Rightarrow> nat \<Rightarrow> u8 list" where
  "read_command a n = asc CHR ''m'' # hex_digits a 8 @ asc CHR '','' # hex_digits (of_nat n) 8"

lemma full_mask: "(w :: u32) AND mask 32 = w"
  by (rule bit_word_eqI) (simp add: bit_and_iff bit_mask_iff)

lemma get_number8:
  assumes "buf = pre @ hex_digits w 8 @ c # post" and "c \<in> {0, asc CHR '','', asc CHR '':''}" and "length pre = p"
  shows "gdbGetHexVal buf p (- 1) = Some (w, p + 8)"
  using get_number [of 8 w c pre post] assms by (simp add: full_mask del: hex_digits.simps asc_def)

lemma write_command_handled:
  assumes c: "cmd s = write_command a bs @ 0 # post"
    and v: "validWrAddr a" "validWrAddr (a + of_nat (length bs))"
    and r: "\<forall>k < length bs. in_core (a + of_nat k)" and n: "length bs < 2 ^ 31"
  shows "\<exists>m. gdbHandleCommand access0 s = Some (Status ST_OK, send_packet (str ''OK'') (s\<lparr>memory := m\<rparr>)) \<and>
    (\<forall>q. readbyte q (s\<lparr>memory := m\<rparr>) = (if unat (q - a) < length bs then bs ! unat (q - a) else readbyte q s))"
proof -
  let ?n = "of_nat (length bs) :: u32"
  have c': "cmd s = [asc CHR ''M''] @ hex_digits a 8 @ asc CHR '','' # (hex_digits ?n 8 @ asc CHR '':'' # hex_bytes bs @ 0 # post)"
    using c by (simp add: write_command_def)
  have c2: "cmd s = (asc CHR ''M'' # hex_digits a 8 @ [asc CHR '','']) @ hex_digits ?n 8 @ asc CHR '':'' # (hex_bytes bs @ 0 # post)"
    using c by (simp add: write_command_def)
  have c3: "cmd s = (asc CHR ''M'' # hex_digits a 8 @ asc CHR '','' # hex_digits ?n 8 @ [asc CHR '':'']) @ hex_bytes bs @ 0 # post"
    using c by (simp add: write_command_def)
  have g: "gdbGetHexVal (cmd s) 1 (- 1) = Some (a, 9)" by (subst get_number8 [OF c']) simp_all
  have g2: "gdbGetHexVal (cmd s) 10 (- 1) = Some (?n, 18)" by (subst get_number8 [OF c2]) simp_all
  have u: "unat ?n = length bs" using n by (simp add: unat_of_nat)
  have k: "nat (sint ?n) = length bs" using n by (simp add: signed_of_nat signed_take_bit_int_eq_self)
  obtain m where m: "receive_memory (length bs) a 19 s = Some (s\<lparr>memory := m\<rparr>)"
    "\<forall>q. readbyte q (s\<lparr>memory := m\<rparr>) = (if unat (q - a) < length bs then bs ! unat (q - a) else readbyte q s)"
    using receive_memory_eq [OF c3 r] n by auto
  have "cmd s ! 0 = asc CHR ''M''" by (simp add: c')
  then have "gdbHandleCommand access0 s = Some (Status ST_OK, send_packet (str ''OK'') (s\<lparr>memory := m\<rparr>))"
    using g g2 m(1) v k by (simp add: gdbHandleCommand_def Let_def packet_simple)
  then show ?thesis using m(2) by blast
qed

lemma send_memory_eq: "send_memory n i s = emit (hex_bytes (map (\<lambda>k. readbyte (i + of_nat k) s) [0..<n])) s"
proof (induction n arbitrary: i s)
  case (Suc n)
  have r: "readbyte q (emit cs s) = readbyte q s" for q cs by (simp add: readbyte_def emit_def)
  have "map (\<lambda>k. readbyte (i + of_nat k) s) [0..<Suc n] = readbyte i s # map (\<lambda>k. readbyte (i + 1 + of_nat k) s) [0..<n]"
    by (simp add: upt_conv_Cons map_Suc_upt [symmetric] ac_simps del: upt_Suc)
  then show ?case using Suc.IH [of "i + 1" "emit (hex_digits (ucast (readbyte i s)) 2) s"]
    by (simp add: packet_hex r hex_bytes_def del: hex_digits.simps)
qed (simp add: hex_bytes_def)

lemma read_command_handled:
  assumes c: "cmd s = read_command a n @ 0 # post" and n: "n < 2 ^ 31"
  shows "gdbHandleCommand access0 s =
    Some (Status ST_OK, send_packet (hex_bytes (map (\<lambda>k. readbyte (a + of_nat k) s) [0..<n])) s)"
proof -
  let ?n = "of_nat n :: u32"
  have c': "cmd s = [asc CHR ''m''] @ hex_digits a 8 @ asc CHR '','' # (hex_digits ?n 8 @ 0 # post)"
    using c by (simp add: read_command_def)
  have c2: "cmd s = (asc CHR ''m'' # hex_digits a 8 @ [asc CHR '','']) @ hex_digits ?n 8 @ 0 # post"
    using c by (simp add: read_command_def)
  have g: "gdbGetHexVal (cmd s) 1 (- 1) = Some (a, 9)" by (subst get_number8 [OF c']) simp_all
  have g2: "gdbGetHexVal (cmd s) 10 (- 1) = Some (?n, 18)" by (subst get_number8 [OF c2]) simp_all
  have k: "nat (sint ?n) = n" using n by (simp add: signed_of_nat signed_take_bit_int_eq_self)
  have r: "readbyte q (gdbPacketStart s) = readbyte q s" for q
    by (simp add: readbyte_def gdbPacketStart_def gdbSendChar_def)
  have "cmd s ! 0 = asc CHR ''m''" by (simp add: c')
  then show ?thesis using g g2 k
    by (simp add: gdbHandleCommand_def Let_def send_memory_eq packet_end r)
qed

lemma plain_simps [simp]:
  "plain []" "plain (c # cs) \<longleftrightarrow> \<not> special_char c \<and> plain cs" "plain (cs @ ds) \<longleftrightarrow> plain cs \<and> plain ds"
  by (auto simp: plain_def)

lemma plain_hex [simp]: "plain (hex_digits v n)"
  using set_hex_digits hexChars_plain unfolding plain_def by blast

lemma plain_hex_bytes [simp]: "plain (hex_bytes bs)"
  by (induction bs) (simp_all add: hex_bytes_def del: hex_digits.simps)

lemma length_hex_bytes [simp]: "length (hex_bytes bs) = 2 * length bs"
  by (induction bs) (simp_all add: hex_bytes_def del: hex_digits.simps)

lemma plain_commands: "plain (write_command a bs)" "plain (read_command a n)"
  by (simp_all add: write_command_def read_command_def special_char_def del: hex_digits.simps)

lemma handled_state:
  "(send_packet c (s\<lparr>memory := m\<rparr>)) = s\<lparr>memory := m, tx := tx s @ framed c,
     chsum := sum_list (escape c) + sum_list (hex_digits (ucast (sum_list (escape c))) 2)\<rparr>"
  by (simp add: send_packet_def)

text \<open>C9. Over the serial line, end to end: a write command and a read command of the same range, in packets as GDB frames
  them, are acknowledged and answered by OK and by the bytes just written; exactly these bytes of memory change.\<close>

theorem memory_write_then_read:
  assumes l: "length (cmd s) = PBUFLEN" and n: "length bs \<le> 100"
    and v: "validWrAddr a" "validWrAddr (a + of_nat (length bs))" and r: "\<forall>k < length bs. in_core (a + of_nat k)"
  shows "\<exists>s'. read_loop access0 (framed (write_command a bs) @ framed (read_command a (length bs)) @ rest) s =
      read_loop access0 rest s' \<and>
    tx s' = tx s @ asc CHR ''+'' # framed (str ''OK'') @ asc CHR ''+'' # framed (hex_bytes bs) \<and>
    (\<forall>q. readbyte q s' = (if unat (q - a) < length bs then bs ! unat (q - a) else readbyte q s))"
proof -
  let ?w = "write_command a bs" and ?r = "read_command a (length bs)"
  have lw: "length ?w < PBUFLEN" and lr: "length ?r < PBUFLEN"
    using n by (simp_all add: write_command_def read_command_def PBUFLEN_def del: hex_digits.simps)
  have n': "length bs < 2 ^ 31" using n by simp
  define s1 where "s1 = gdbSendChar (asc CHR ''+'') ((with_command ?w s)\<lparr>gdb_attached := True\<rparr>)"
  have c1: "cmd s1 = ?w @ 0 # drop (Suc (length ?w)) (cmd s)" by (simp add: s1_def with_command_def gdbSendChar_def)
  obtain m where m: "gdbHandleCommand access0 s1 = Some (Status ST_OK, send_packet (str ''OK'') (s1\<lparr>memory := m\<rparr>))"
    "\<forall>q. readbyte q (s1\<lparr>memory := m\<rparr>) = (if unat (q - a) < length bs then bs ! unat (q - a) else readbyte q s1)"
    using write_command_handled [OF c1 v r n'] by blast
  define s2 where "s2 = send_packet (str ''OK'') (s1\<lparr>memory := m\<rparr>)"
  have e1: "read_loop access0 (framed ?w @ framed ?r @ rest) s = read_loop access0 (framed ?r @ rest) s2"
    using read_loop_frame [OF l lw] m(1) plain_commands by (simp add: s1_def s2_def del: asc_def)
  have l2: "length (cmd s2) = PBUFLEN" using c1 l lw by (simp add: s2_def send_packet_def)
  define s3 where "s3 = gdbSendChar (asc CHR ''+'') ((with_command ?r s2)\<lparr>gdb_attached := True\<rparr>)"
  have c3: "cmd s3 = ?r @ 0 # drop (Suc (length ?r)) (cmd s2)" by (simp add: s3_def with_command_def gdbSendChar_def)
  have rb: "readbyte q s3 = readbyte q (s1\<lparr>memory := m\<rparr>)" "readbyte q s1 = readbyte q s" for q
    by (simp_all add: s3_def s2_def s1_def with_command_def gdbSendChar_def readbyte_def send_packet_def)
  have bs: "map (\<lambda>k. readbyte (a + of_nat k) s3) [0..<length bs] = bs"
    using n by (intro nth_equalityI) (simp_all add: rb m(2) unat_of_nat)
  have h3: "gdbHandleCommand access0 s3 = Some (Status ST_OK, send_packet (hex_bytes bs) s3)"
    using read_command_handled [OF c3 n', of access0] unfolding bs .
  have e2: "read_loop access0 (framed ?r @ rest) s2 = read_loop access0 rest (send_packet (hex_bytes bs) s3)"
    using read_loop_frame [OF l2 lr] h3 plain_commands by (simp add: s3_def del: asc_def)
  have "tx (send_packet (hex_bytes bs) s3) = tx s @ asc CHR ''+'' # framed (str ''OK'') @ asc CHR ''+'' # framed (hex_bytes bs)"
    by (simp add: send_packet_def s3_def s2_def s1_def with_command_def gdbSendChar_def del: asc_def)
  moreover have "readbyte q (send_packet (hex_bytes bs) s3) = (if unat (q - a) < length bs then bs ! unat (q - a) else readbyte q s)" for q
  proof -
    have "readbyte q (send_packet (hex_bytes bs) s3) = readbyte q s3" by (simp add: readbyte_def send_packet_def)
    then show ?thesis using m(2) by (simp add: rb)
  qed
  ultimately show ?thesis using e1 e2 by auto
qed

definition blank_gdb :: gdb where
  "blank_gdb = \<lparr>savedRegs = \<lparr>pc = 0, ps = 0x23, sar = 0, vpri = 0, aregs = replicate 16 0, litbase = 0, sr176 = 0, sr208 = 0, reason = 1\<rparr>,
     gdb_attached = False, cmd = replicate 256 0, chsum = 0, singleStepPs = - 1, uart_isr_callback = False,
     uart_putc1_callback = False, memory = (\<lambda>p. 0),
     special = \<lparr>IBREAKA = 0, IBREAKENABLE = 0, DBREAKA = 0, DBREAKC = 0, ICOUNT = 0, ICOUNTLEVEL = 0, LITBASE = 0, SR176 = 0,
       SR208 = 0, EXCCAUSE = 0\<rparr>, tx = []\<rparr>"

lemma memory_write_then_read_witness:
  "\<exists>s'. read_loop 0 (framed (write_command 0x3ffe8000 [1, 2]) @ framed (read_command 0x3ffe8000 2) @ []) blank_gdb =
      read_loop 0 [] s' \<and>
    tx s' = asc CHR ''+'' # framed (str ''OK'') @ asc CHR ''+'' # framed (hex_bytes [1, 2]) \<and> readbyte 0x3ffe8001 s' = 2"
proof -
  have r: "\<forall>k < length [1, 2 :: u8]. in_core (0x3ffe8000 + of_nat k)"
    by (auto simp: less_Suc_eq in_core_def word_le_nat_alt word_less_nat_alt)
  have v: "validWrAddr 0x3ffe8000" "validWrAddr (0x3ffe8000 + of_nat (length [1, 2 :: u8]))"
    by (simp_all add: validWrAddr_def)
  have l: "length (cmd blank_gdb) = PBUFLEN" by (simp add: blank_gdb_def PBUFLEN_def)
  have t: "tx blank_gdb = []" by (simp add: blank_gdb_def)
  from memory_write_then_read [OF l _ v r, of 0 "[]"] obtain s' where
    s': "read_loop 0 (framed (write_command 0x3ffe8000 [1, 2]) @ framed (read_command 0x3ffe8000 2) @ []) blank_gdb = read_loop 0 [] s'"
      "tx s' = tx blank_gdb @ asc CHR ''+'' # framed (str ''OK'') @ asc CHR ''+'' # framed (hex_bytes [1, 2])"
    and q: "\<forall>q. readbyte q s' = (if unat (q - 0x3ffe8000) < length [1, 2 :: u8] then [1, 2] ! unat (q - 0x3ffe8000) else readbyte q blank_gdb)"
    by (auto simp: numeral_2_eq_2)
  have "readbyte 0x3ffe8001 s' = 2" using q by simp
  then show ?thesis using s' t by (intro exI [of _ s']) simp
qed

section \<open>Steps, breakpoints, long packets\<close>

lemma masked_field:
  fixes w m v :: u32
  assumes "v AND m = v"
  shows "((w AND NOT m) OR v) AND m = v" and "((w AND NOT m) OR v) AND NOT m = w AND NOT m"
    and "(w AND NOT m) OR (w AND m) = w"
proof -
  have v: "bit v n \<Longrightarrow> bit m n" for n using assms by (metis bit_and_iff)
  show "((w AND NOT m) OR v) AND m = v" "((w AND NOT m) OR v) AND NOT m = w AND NOT m" "(w AND NOT m) OR (w AND m) = w"
    by (rule bit_word_eqI; use v in \<open>auto simp: bit_and_iff bit_or_iff bit_not_iff\<close>)+
qed

lemma interrupt_level:
  fixes w :: u32
  shows "((w AND NOT 0xf) OR 1) AND 0xf = 1" and "((w AND NOT 0xf) OR 1) AND NOT 0xf = w AND NOT 0xf"
    and "(w AND NOT 0xf) OR (w AND 0xf) = w"
proof -
  have v: "(1 :: u32) AND 0xf = 1" by simp
  show "((w AND NOT 0xf) OR 1) AND 0xf = 1" by (rule masked_field(1) [OF v])
  show "((w AND NOT 0xf) OR 1) AND NOT 0xf = w AND NOT 0xf" by (rule masked_field(2) [OF v])
  show "(w AND NOT 0xf) OR (w AND 0xf) = w" by (rule masked_field(3) [OF v])
qed

text \<open>A single step: the command leaves the interrupt level 1 in PS and arms the instruction counter for one
  instruction, and when the stub is entered again PS is what it was, whatever the instruction did to its level.\<close>

theorem single_step_restores_ps:
  assumes "cmd s ! 0 = asc CHR ''s''" and "ps (savedRegs s) \<noteq> - 1"
  shows "\<exists>s1. gdbHandleCommand access0 s = Some (Status ST_CONT, s1) \<and> ps (savedRegs s1) AND 0xf = 1 \<and>
    ps (savedRegs s1) AND NOT 0xf = ps (savedRegs s) AND NOT 0xf \<and> ICOUNT (special s1) = - 2 \<and> ICOUNTLEVEL (special s1) = 2 \<and>
    (\<forall>r. ps r AND NOT 0xf = ps (savedRegs s) AND NOT 0xf \<longrightarrow>
      restore_step_ps (s1\<lparr>savedRegs := r\<rparr>) = s1\<lparr>savedRegs := r\<lparr>ps := ps (savedRegs s)\<rparr>, singleStepPs := - 1\<rparr>)"
proof -
  let ?p = "ps (savedRegs s)"
  let ?s1 = "gdbstub_icount_ena_single_step
    (s\<lparr>singleStepPs := ?p, savedRegs := (savedRegs s)\<lparr>ps := (?p AND NOT 0xf) OR 1\<rparr>\<rparr>)"
  have h: "gdbHandleCommand access0 s = Some (Status ST_CONT, ?s1)"
    using assms(1) by (simp add: gdbHandleCommand_def Let_def XCHAL_DEBUGLEVEL_def)
  have "restore_step_ps (?s1\<lparr>savedRegs := r\<rparr>) = ?s1\<lparr>savedRegs := r\<lparr>ps := ?p\<rparr>, singleStepPs := - 1\<rparr>"
    if "ps r AND NOT 0xf = ?p AND NOT 0xf" for r
    using that assms(2) interrupt_level(3) [of ?p] by (simp add: restore_step_ps_def gdbstub_icount_ena_single_step_def)
  then show ?thesis using h interrupt_level(1,2) [of ?p]
    by (intro exI [of _ ?s1]) (simp add: gdbstub_icount_ena_single_step_def XCHAL_DEBUGLEVEL_def)
qed

lemma single_step_restores_ps_witness:
  "\<exists>s1. gdbHandleCommand 0 (blank_gdb\<lparr>cmd := asc CHR ''s'' # replicate 255 0\<rparr>) = Some (Status ST_CONT, s1) \<and>
    restore_step_ps s1 = s1\<lparr>savedRegs := (savedRegs s1)\<lparr>ps := 0x23\<rparr>, singleStepPs := - 1\<rparr>"
proof -
  let ?s = "blank_gdb\<lparr>cmd := asc CHR ''s'' # replicate 255 0\<rparr>"
  have "cmd ?s ! 0 = asc CHR ''s''" "ps (savedRegs ?s) \<noteq> - 1" "ps (savedRegs ?s) = 0x23"
    by (simp_all add: blank_gdb_def word_unat_eq_iff unsigned_minus_1_eq_mask mask_eq_exp_minus_1)
  note p = this
  from single_step_restores_ps [OF p(1,2), of 0, unfolded p(3)] obtain s1 where
    h: "gdbHandleCommand 0 ?s = Some (Status ST_CONT, s1)" and q: "ps (savedRegs s1) AND NOT 0xf = 0x23 AND NOT 0xf"
    and all: "\<forall>r. ps r AND NOT 0xf = 0x23 AND NOT 0xf \<longrightarrow>
      restore_step_ps (s1\<lparr>savedRegs := r\<rparr>) = s1\<lparr>savedRegs := r\<lparr>ps := 0x23\<rparr>, singleStepPs := - 1\<rparr>" by blast
  have "s1\<lparr>savedRegs := savedRegs s1\<rparr> = s1" by (rule gdb.equality) simp_all
  then have "restore_step_ps s1 = s1\<lparr>savedRegs := (savedRegs s1)\<lparr>ps := 0x23\<rparr>, singleStepPs := - 1\<rparr>"
    using all q by metis
  then show ?thesis using h by blast
qed

text \<open>The debug registers hold one breakpoint: a second is refused, only the one that is set can be deleted.\<close>

lemma one_breakpoint:
  assumes "\<not> bit (IBREAKENABLE (special s)) 0" and "gdbstub_set_hw_breakpoint a s = (r, s1)"
  shows "r = 1 \<and> gdbstub_set_hw_breakpoint b s1 = (0, s1) \<and>
    (b \<noteq> a \<longrightarrow> gdbstub_del_hw_breakpoint b s1 = (0, s1)) \<and>
    (\<exists>s2. gdbstub_del_hw_breakpoint a s1 = (1, s2) \<and> \<not> bit (IBREAKENABLE (special s2)) 0)"
  using assms by (auto simp: gdbstub_set_hw_breakpoint_def gdbstub_del_hw_breakpoint_def)

lemma read_body_long:
  assumes "length buf = PBUFLEN" and "p < PBUFLEN" and "PBUFLEN \<le> p + length c" and "plain c"
  shows "read_body buf cs p (c @ rest) = Too_Long (take p buf @ take (PBUFLEN - p) c) (drop (PBUFLEN - p) c @ rest)"
  using assms
proof (induction c arbitrary: buf cs p)
  case (Cons x c)
  have x: "x \<noteq> asc CHR ''#''" "x \<noteq> asc CHR ''$''" "x \<noteq> asc CHR ''}''" using Cons.prems(4) by (simp_all add: special_char_def)
  have st: "store buf p x = Some (buf[p := x])" using Cons.prems by (simp add: store_def)
  have tk: "take (Suc p) (buf[p := x]) = take p buf @ [x]" using Cons.prems by (simp add: take_Suc_conv_app_nth)
  show ?case
  proof (cases "p + 1 < PBUFLEN")
    case True
    have "read_body buf cs p ((x # c) @ rest) = read_body (buf[p := x]) (cs + x) (p + 1) (c @ rest)"
      using x st True by (subst read_body.simps) (simp add: not_le del: asc_def)
    also have "\<dots> = Too_Long (take (p + 1) (buf[p := x]) @ take (PBUFLEN - (p + 1)) c) (drop (PBUFLEN - (p + 1)) c @ rest)"
      using Cons.prems True by (intro Cons.IH) simp_all
    finally show ?thesis using True tk by (simp add: Suc_diff_Suc [symmetric] take_Cons' drop_Cons')
  next
    case False
    then have p: "PBUFLEN - p = 1" "PBUFLEN = Suc p" using Cons.prems(2) by simp_all
    then have "buf[p := x] = take p buf @ [x]" using tk Cons.prems(1) by simp
    then show ?thesis using x st p by (subst read_body.simps) (simp del: asc_def)
  qed
qed simp

lemma read_loop_skip: "asc CHR ''$'' \<notin> set c \<Longrightarrow> read_loop access0 (c @ rest) s = read_loop access0 rest s"
proof -
  assume "asc CHR ''$'' \<notin> set c"
  then have "\<And>x. x \<in> set c \<Longrightarrow> x \<noteq> asc CHR ''$''" by blast
  then have "dropWhile (\<lambda>x. x \<noteq> asc CHR ''$'') (c @ rest) = dropWhile (\<lambda>x. x \<noteq> asc CHR ''$'') rest"
    by (rule dropWhile_append2)
  then show ?thesis by (subst (1 2) read_loop.simps) (simp only:)
qed

lemma long_packet_dropped:
  assumes "length (cmd s) = PBUFLEN" and "PBUFLEN \<le> length c" and "plain c"
  shows "read_loop access0 (framed c @ rest) s = read_loop access0 rest (s\<lparr>cmd := take PBUFLEN c\<rparr>)"
proof -
  let ?t = "asc CHR ''#'' # hex_digits (ucast (sum_list (escape c))) 2"
  have f: "framed c @ rest = asc CHR ''$'' # c @ ?t @ rest"
    using assms(3) by (simp add: framed_def escape_plain plain_def del: hex_digits.simps asc_def)
  have b: "read_body (cmd s) 0 0 (c @ ?t @ rest) = Too_Long (take PBUFLEN c) (drop PBUFLEN c @ ?t @ rest)"
    using read_body_long [OF assms(1) _ _ assms(3), of 0] assms(2) by (simp add: PBUFLEN_def)
  have "asc CHR ''$'' \<notin> set (drop PBUFLEN c @ ?t)"
  proof
    assume "asc CHR ''$'' \<in> set (drop PBUFLEN c @ ?t)"
    then have "asc CHR ''$'' \<in> set c \<or> asc CHR ''$'' \<in> set hexChars"
      using set_hex_digits by (auto dest: in_set_dropD)
    then show False using assms(3) hexChars_plain by (auto simp: plain_def special_char_def)
  qed
  then have "read_loop access0 ((drop PBUFLEN c @ ?t) @ rest) s' = read_loop access0 rest s'" for s' by (rule read_loop_skip)
  then have k: "read_loop access0 (drop PBUFLEN c @ ?t @ rest) s' = read_loop access0 rest s'" for s'
    by (simp only: append_assoc)
  have "read_loop access0 (asc CHR ''$'' # c @ ?t @ rest) s =
      read_loop access0 (drop PBUFLEN c @ ?t @ rest) (s\<lparr>cmd := take PBUFLEN c\<rparr>)"
    by (subst read_loop.simps) (simp only: dropWhile.simps, simp add: b del: hex_digits.simps asc_def append_assoc append_Cons)
  then show ?thesis using f k by simp
qed

definition registers_payload :: "exception_frame \<Rightarrow> u8 list" where
  "registers_payload r = hex_digits (iswap (pc r)) 8 @ concat (replicate 35 xxxx) @ hex_digits (iswap (sar r)) 8 @
     hex_digits (iswap (litbase r)) 8 @ concat (replicate 2 xxxx) @ hex_digits (iswap (sr176 r)) 8 @ concat (replicate 1 xxxx) @
     hex_digits (iswap (ps r)) 8 @ concat (replicate 54 xxxx) @ concat (map (\<lambda>i. hex_digits (iswap (aregs r ! i)) 8) [0..<16])"

lemma send_registers_eq: "send_registers s = send_packet (registers_payload (savedRegs s)) s"
proof -
  have f: "fold (\<lambda>i. gdbPacketSwappedHexInt (aregs r ! i)) js s = emit (concat (map (\<lambda>i. hex_digits (iswap (aregs r ! i)) 8) js)) s"
    for r js s by (rule fold_emit) (rule packet_swapped)
  have x: "(gdbPacketXXXXInt ^^ n) s = emit (concat (replicate n xxxx)) s" for n s
    by (rule funpow_emit) (rule packet_xxxx)
  show ?thesis
    unfolding send_registers_def Let_def registers_payload_def f x packet_swapped
    by (simp only: emit_emit packet_end append_assoc)
qed

lemma length_registers_payload: "length (registers_payload r) = 904"
proof -
  have c: "length (concat (replicate n xxxx)) = 8 * n" for n by (induction n) (simp_all add: xxxx_def)
  have "length (concat (map (\<lambda>i. hex_digits (iswap (aregs r ! i)) 8) js)) = 8 * length js" for js
    by (induction js) (simp_all del: hex_digits.simps)
  then show ?thesis unfolding registers_payload_def by (simp only: length_append c length_hex_digits) simp
qed

lemma plain_registers_payload: "plain (registers_payload r)"
proof -
  have c: "plain (concat (replicate n xxxx))" for n by (induction n) (simp_all add: xxxx_def plain_def special_char_def)
  have "plain (concat (map (\<lambda>i. hex_digits (iswap (aregs r ! i)) 8) js))" for js
    by (induction js) (simp_all del: hex_digits.simps)
  then show ?thesis unfolding registers_payload_def by (simp only: plain_simps c plain_hex simp_thms)
qed

text \<open>A packet that does not fit into the 256 bytes of the buffer is dropped without an answer.  The registers the stub
  sends for g are 904 characters, so a G packet of the same form never fits: registers cannot be written.\<close>

theorem registers_never_written:
  assumes "length (cmd s) = PBUFLEN" and "cmd s ! 0 = asc CHR ''g''"
  shows "gdbHandleCommand access0 s = Some (Status ST_OK, send_packet (registers_payload (savedRegs s)) s) \<and>
    read_loop access0 (framed (asc CHR ''G'' # registers_payload r) @ rest) s =
      read_loop access0 rest (s\<lparr>cmd := take PBUFLEN (asc CHR ''G'' # registers_payload r)\<rparr>)"
proof
  show "gdbHandleCommand access0 s = Some (Status ST_OK, send_packet (registers_payload (savedRegs s)) s)"
    using assms(2) by (simp add: gdbHandleCommand_def send_registers_eq)
  show "read_loop access0 (framed (asc CHR ''G'' # registers_payload r) @ rest) s =
      read_loop access0 rest (s\<lparr>cmd := take PBUFLEN (asc CHR ''G'' # registers_payload r)\<rparr>)"
    by (rule long_packet_dropped [OF assms(1)])
      (simp_all add: PBUFLEN_def length_registers_payload plain_registers_payload special_char_def)
qed

section \<open>The length in a write command\<close>

lemma get_hex_loop_advances:
  "get_hex_loop buf False n ptr v = Some (w, p) \<Longrightarrow> ptr \<le> length buf \<Longrightarrow> (0 < n \<longrightarrow> ptr < p) \<and> ptr \<le> p \<and> p \<le> length buf"
proof (induction n arbitrary: ptr v)
  case (Suc n)
  then obtain c where "fetch buf ptr = Some c" by (auto split: bind_splits)
  then have "ptr < length buf" by (simp add: fetch_def split: if_splits)
  then show ?case using Suc.prems(1) \<open>fetch buf ptr = Some c\<close>
    by (auto split: if_splits dest!: Suc.IH simp del: asc_def)
qed simp

lemma receive_memory_bound: "receive_memory n i ptr s = Some s' \<Longrightarrow> ptr \<le> length (cmd s) \<Longrightarrow> ptr + n \<le> length (cmd s)"
proof (induction n arbitrary: i ptr s)
  case (Suc n)
  then obtain v p where g: "gdbGetHexVal (cmd s) ptr 8 = Some (v, p)"
    and r: "receive_memory n (i + 1) p (writeByte i (ucast v) s) = Some s'"
    by (auto split: bind_splits)
  have "ptr < p" "p \<le> length (cmd s)" using g Suc.prems(2) get_hex_loop_advances [of "cmd s" 2 ptr 0 v p]
    by (simp_all add: gdbGetHexVal_def)
  moreover have c: "cmd (writeByte i (ucast v) s) = cmd s" by (subst writeByte_fields) simp
  moreover have "p + n \<le> length (cmd s)" using Suc.IH [OF r] c \<open>p \<le> length (cmd s)\<close> by simp
  ultimately show ?case by simp
qed simp

text \<open>The number of bytes in a write command is not compared with the packet: a number that is too large makes the stub
  take the data from beyond the end of the command buffer, whatever the buffer holds.\<close>

theorem write_length_unchecked:
  assumes "length (cmd s) = PBUFLEN" and "237 < n" and "n < 2 ^ 31" and "validWrAddr a" and "validWrAddr (a + of_nat n)"
    and "cmd s = asc CHR ''M'' # hex_digits a 8 @ asc CHR '','' # hex_digits (of_nat n) 8 @ asc CHR '':'' # data"
  shows "gdbHandleCommand access0 s = None"
proof -
  let ?n = "of_nat n :: u32"
  have c': "cmd s = [asc CHR ''M''] @ hex_digits a 8 @ asc CHR '','' # (hex_digits ?n 8 @ asc CHR '':'' # data)"
    using assms(6) by simp
  have c2: "cmd s = (asc CHR ''M'' # hex_digits a 8 @ [asc CHR '','']) @ hex_digits ?n 8 @ asc CHR '':'' # data"
    using assms(6) by simp
  have g: "gdbGetHexVal (cmd s) 1 (- 1) = Some (a, 9)" by (subst get_number8 [OF c']) simp_all
  have g2: "gdbGetHexVal (cmd s) 10 (- 1) = Some (?n, 18)" by (subst get_number8 [OF c2]) simp_all
  have k: "nat (sint ?n) = n" using assms(3) by (simp add: signed_of_nat signed_take_bit_int_eq_self)
  have "receive_memory n a 19 s = None"
    using receive_memory_bound [of n a 19 s] assms(1,2) by (cases "receive_memory n a 19 s") (auto simp: PBUFLEN_def)
  moreover have "cmd s ! 0 = asc CHR ''M''" by (simp add: c')
  ultimately show ?thesis using g g2 k assms(4,5) by (simp add: gdbHandleCommand_def Let_def)
qed

lemma write_length_unchecked_witness:
  "gdbHandleCommand 0 (blank_gdb\<lparr>cmd := asc CHR ''M'' # hex_digits 0x3ffe8000 8 @ asc CHR '','' # hex_digits (of_nat 0x1000) 8 @
    asc CHR '':'' # replicate 237 0\<rparr>) = None"
  by (rule write_length_unchecked [where n = "0x1000" and a = "0x3ffe8000" and data = "replicate 237 0"])
    (simp_all add: PBUFLEN_def validWrAddr_def del: hex_digits.simps)

text \<open>Writes to the peripherals are answered by OK and have no effect.\<close>

lemma write_not_in_core: "\<not> in_core p \<Longrightarrow> writeByte p d s = s"
  by (simp add: writeByte_def in_core_def not_le not_less)

section \<open>Emulated loads and stores\<close>

text \<open>L32I of the instruction set: the displacement is the third byte, in words.\<close>

definition l32i :: "gdb \<Rightarrow> bool" where
  "l32i s \<longleftrightarrow> (let a = pc (savedRegs s) in readbyte a s AND 0xf = 2 \<and> readbyte (a + 1) s AND 0xf0 = 0x20)"

definition l32i_base :: "gdb \<Rightarrow> u32" where
  "l32i_base s = aregs (savedRegs s) ! unat (readbyte (pc (savedRegs s) + 1) s AND 0xf)"

definition execute_l32i :: "gdb \<Rightarrow> gdb option" where
  "execute_l32i s =
     (let a = pc (savedRegs s) in do {
        w \<leftarrow> load_word (l32i_base s + 4 * ucast (readbyte (a + 2) s)) s;
        s \<leftarrow> setaregval (unat (shr (readbyte a s) 4)) w s;
        Some (skip_instruction 3 s) })"

lemma low_nibble: "unat (w AND 0xf) < 16" for w :: u8
  by (simp add: unat_and_0f)

lemma high_nibble: "unat (shr w 4) < 16" for w :: u8
proof -
  have "unat w < 256" using unsigned_less [of w] by simp
  then show ?thesis by (simp add: shr_def drop_bit_eq_div unat_div less_mult_imp_div_less)
qed

lemma aligned_offset:
  fixes b k :: u32
  assumes "b AND 3 = 0"
  shows "(b + 4 * k) AND 3 = 0"
proof -
  have m: "x AND 3 = 0 \<longleftrightarrow> 4 dvd unat x" for x :: u32
    by (metis (no_types) unat_and_3 unat_eq_zero mod_eq_0_iff_dvd)
  have "4 dvd unat (4 * k)" by (simp add: unat_word_ariths mod_mod_cancel dvd_mod)
  then show ?thesis using assms unfolding m by (simp add: unat_word_ariths(1) dvd_mod)
qed

text \<open>After a watchpoint the stub executes the load itself, with a displacement four times that of the instruction: it
  does what the processor would exactly if both addresses hold the same word, as they do for displacement 0.\<close>

theorem emulated_load:
  assumes "l32i s" and "length (aregs (savedRegs s)) = 16" and "l32i_base s AND 3 = 0"
    and "k = ucast (readbyte (pc (savedRegs s) + 2) s)"
  shows "emulLdSt s = execute_l32i s \<longleftrightarrow> memory s (l32i_base s + 16 * k) = memory s (l32i_base s + 4 * k)"
proof -
  let ?a = "pc (savedRegs s)"
  let ?r = "unat (shr (readbyte ?a s) 4)"
  have b0: "readbyte (?a + 1) s AND 0xb0 = 0x20"
  proof -
    have "readbyte (?a + 1) s AND 0xb0 = (readbyte (?a + 1) s AND 0xf0) AND 0xb0" by (simp add: and.assoc)
    then show ?thesis using assms(1) by (simp add: l32i_def Let_def)
  qed
  have base: "getaregval (unat (readbyte (?a + 1) s AND 0xf)) s = Some (l32i_base s)"
    using low_nibble assms(2) by (simp add: getaregval_def fetch_def l32i_base_def)
  have al: "load_word (l32i_base s + 16 * k) s = Some (memory s (l32i_base s + 16 * k))"
    "load_word (l32i_base s + 4 * k) s = Some (memory s (l32i_base s + 4 * k))"
    using aligned_offset [OF assms(3), of k] aligned_offset [OF assms(3), of "4 * k"] by (simp_all add: load_word_def)
  have set: "setaregval ?r w s = Some (s\<lparr>savedRegs := (savedRegs s)\<lparr>aregs := (aregs (savedRegs s))[?r := w]\<rparr>\<rparr>)" for w
    using high_nibble assms(2) by (simp add: setaregval_def store_def)
  have off: "4 * (k * 4) = 16 * k" by simp
  let ?x = "\<lambda>w. skip_instruction 3 (s\<lparr>savedRegs := (savedRegs s)\<lparr>aregs := (aregs (savedRegs s))[?r := w]\<rparr>\<rparr>)"
  have "emulLdSt s = Some (?x (memory s (l32i_base s + 16 * k)))"
    using assms(1) b0 unfolding emulLdSt_def l32i_def Let_def assms(4) [symmetric] off base
    by (simp add: al(1) set)
  moreover have "execute_l32i s = Some (?x (memory s (l32i_base s + 4 * k)))"
    using al(2) set by (simp add: execute_l32i_def Let_def assms(4))
  moreover have "?x v = ?x w \<longleftrightarrow> v = w" for v w
  proof
    assume "?x v = ?x w"
    then have "aregs (savedRegs (?x v)) ! ?r = aregs (savedRegs (?x w)) ! ?r" by (simp only:)
    then show "v = w" using high_nibble assms(2) by (simp add: skip_instruction_def)
  qed simp
  ultimately show ?thesis by simp
qed

section \<open>Exception frames and the serial interrupt\<close>

lemma store_words_same: "store_words p (words_at p n s) s = s"
proof -
  have "store_words p (map (\<lambda>i. memory s (p + 4 * of_nat i)) [0..<n]) s = s" for p n
  proof (induction n arbitrary: p)
    case (Suc n)
    have "map (\<lambda>i. memory s (p + 4 * of_nat i)) [0..<Suc n] = memory s p # map (\<lambda>i. memory s (p + 4 + 4 * of_nat i)) [0..<n]"
      by (simp add: upt_conv_Cons map_Suc_upt [symmetric] algebra_simps del: upt_Suc)
    then show ?case using Suc.IH [of "p + 4"] by simp
  qed simp
  then show ?thesis by (simp add: words_at_def)
qed

lemma scan_given: "uart_scan True n rx = (given, found, rest) \<Longrightarrow>
    given = takeWhile (\<lambda>c. c \<noteq> 3) (take n rx) \<and> (found \<longleftrightarrow> 3 \<in> set (take n rx)) \<and>
    rest = drop (length given + (if found then 1 else 0)) rx"
  by (induction True n rx arbitrary: given found rest rule: uart_scan.induct) (auto split: prod.splits if_splits)

section \<open>Instances\<close>

lemma packet_acceptance_witness:
  "read_loop 0 (framed [asc CHR ''}''] @ []) blank_gdb = Waiting (gdbSendChar (asc CHR ''-'') (with_command [asc CHR ''}''] blank_gdb))"
proof -
  have "length (cmd blank_gdb) = PBUFLEN" "length [asc CHR ''}''] < PBUFLEN" by (simp_all add: blank_gdb_def PBUFLEN_def)
  from packet_acceptance [OF this, of 0 "[]"] show ?thesis
    by (simp add: plain_def special_char_def read_loop.simps [of _ "[]"] del: append_Nil2)
qed

lemma read_body_in_buffer_witness:
  "\<forall>rx. (case read_body (replicate 256 0) 0 0 rx of
       Packet cs' q buf' rx' \<Rightarrow> q < PBUFLEN \<and> length buf' = PBUFLEN
     | Too_Long buf' rx' \<Rightarrow> length buf' = PBUFLEN
     | Starved buf' \<Rightarrow> length buf' = PBUFLEN
     | Body_Fault \<Rightarrow> False)"
  by (intro allI read_body_in_buffer) (simp_all add: PBUFLEN_def)

lemma registers_never_written_witness:
  "read_loop 0 (framed (asc CHR ''G'' # registers_payload (savedRegs blank_gdb)) @ [])
      (blank_gdb\<lparr>cmd := asc CHR ''g'' # replicate 255 0\<rparr>) =
    read_loop 0 [] (blank_gdb\<lparr>cmd := take PBUFLEN (asc CHR ''G'' # registers_payload (savedRegs blank_gdb))\<rparr>)"
  using registers_never_written [of "blank_gdb\<lparr>cmd := asc CHR ''g'' # replicate 255 0\<rparr>" 0 "savedRegs blank_gdb" "[]"]
  by (simp add: PBUFLEN_def del: append_Nil2)

definition stopped_at_load :: gdb where
  "stopped_at_load = blank_gdb\<lparr>savedRegs := (savedRegs blank_gdb)\<lparr>pc := 0x40100000, aregs := 0 # 0x3ffe8000 # replicate 14 0\<rparr>,
     memory := (\<lambda>p. 0)(0x40100000 := 0x00012102, 0x3ffe8010 := 7, 0x3ffe8004 := 9)\<rparr>"

lemma emulated_load_witness: "emulLdSt stopped_at_load \<noteq> execute_l32i stopped_at_load"
proof -
  have b: "readbyte 0x40100000 stopped_at_load = 2" "readbyte 0x40100001 stopped_at_load = 0x21"
    "readbyte 0x40100002 stopped_at_load = 1"
    by (simp_all add: readbyte_def stopped_at_load_def shr_def drop_bit_eq_div)
  have p: "pc (savedRegs stopped_at_load) = 0x40100000" "length (aregs (savedRegs stopped_at_load)) = 16"
    "aregs (savedRegs stopped_at_load) ! 1 = 0x3ffe8000"
    by (simp_all add: stopped_at_load_def)
  have l: "l32i stopped_at_load" "l32i_base stopped_at_load = 0x3ffe8000" using b p by (simp_all add: l32i_def l32i_base_def)
  have "l32i_base stopped_at_load AND 3 = 0" "(1 :: u32) = ucast (readbyte (pc (savedRegs stopped_at_load) + 2) stopped_at_load)"
    using l b p by simp_all
  from emulated_load [OF l(1) p(2) this] show ?thesis using l(2) by (simp add: stopped_at_load_def)
qed

end
