(* ===== verification/Umm_Data.thy ===== *)
theory Umm_Data
  imports Prelude
begin

text \<open>
  The heap of umm_malloc (cores/esp8266/umm_malloc): memory as bytes, blocks of eight bytes with the links
  \<open>next\<close> and \<open>prev\<close> of the list of all blocks and, in a free block, of the free list.  The build modelled has
  UMM_BEST_FIT, UMM_INFO, UMM_STATS and UMM_REALLOC_DEFRAG, and not UMM_INLINE_METRICS.  The critical sections
  and what is printed leave no trace.  The address where the heap starts, \<open>_heap_start\<close>, is the linker's.
\<close>

section \<open>State\<close>

record UMM_HEAP_INFO =
  totalEntries :: u32
  usedEntries :: u32
  freeEntries :: u32
  totalBlocks :: u32
  usedBlocks :: u32
  freeBlocks :: u32
  freeBlocksSquared :: u32
  maxFreeContiguousBlocks :: u32

record umm =
  heap_start :: u32
  umm_heap :: u32
  umm_numblocks :: u16
  ummHeapInfo :: UMM_HEAP_INFO
  free_blocks :: u32
  oom_count :: u32
  ram_bytes :: "u32 \<Rightarrow> u8"

definition UMM_FREELIST_MASK :: u16 where "UMM_FREELIST_MASK = 0x8000"
definition UMM_BLOCKNO_MASK :: u16 where "UMM_BLOCKNO_MASK = 0x7FFF"

definition umm_block_size :: u32 where
  "umm_block_size = 8"

section \<open>Words in memory\<close>

definition read16 :: "(u32 \<Rightarrow> u8) \<Rightarrow> u32 \<Rightarrow> u16" where
  "read16 m a = ucast (m a) OR shl (ucast (m (a + 1))) 8"

definition write16 :: "u32 \<Rightarrow> u16 \<Rightarrow> (u32 \<Rightarrow> u8) \<Rightarrow> u32 \<Rightarrow> u8" where
  "write16 a v m = m(a := ucast v, a + 1 := ucast (shr v 8))"

lemma read_write16: "read16 (write16 a v m) a = v"
proof -
  have "a + 1 \<noteq> a" by simp
  then have "read16 (write16 a v m) a = ucast (ucast v :: u8) OR shl (ucast (ucast (shr v 8) :: u8)) 8"
    by (simp add: read16_def write16_def)
  also have "\<dots> = v"
    by (rule bit_word_eqI) (auto simp: bit_or_iff bit_ucast_iff bit_shl bit_shr)
  finally show ?thesis .
qed

lemma read_write16_other: "b \<noteq> a \<Longrightarrow> b + 1 \<noteq> a \<Longrightarrow> b \<noteq> a + 1 \<Longrightarrow> read16 (write16 a v m) b = read16 m b"
  by (simp add: read16_def write16_def)

lemma write16_other: "p \<noteq> a \<Longrightarrow> p \<noteq> a + 1 \<Longrightarrow> write16 a v m p = m p"
  by (simp add: write16_def)

section \<open>Blocks\<close>

text \<open>A block's address, and its links at the offsets 0, 2, 4 and 6.\<close>

definition UMM_BLOCK :: "u16 \<Rightarrow> umm \<Rightarrow> u32" where
  "UMM_BLOCK b s = umm_heap s + 8 * ucast b"

definition UMM_DATA :: "u16 \<Rightarrow> umm \<Rightarrow> u32" where
  "UMM_DATA b s = UMM_BLOCK b s + 4"

definition link :: "u32 \<Rightarrow> u16 \<Rightarrow> umm \<Rightarrow> u16" where
  "link f b s = read16 (ram_bytes s) (UMM_BLOCK b s + f)"

definition set_link :: "u32 \<Rightarrow> u16 \<Rightarrow> u16 \<Rightarrow> umm \<Rightarrow> umm" where
  "set_link f b v s = s\<lparr>ram_bytes := write16 (UMM_BLOCK b s + f) v (ram_bytes s)\<rparr>"

abbreviation UMM_NBLOCK :: "u16 \<Rightarrow> umm \<Rightarrow> u16" where "UMM_NBLOCK \<equiv> link 0"
abbreviation UMM_PBLOCK :: "u16 \<Rightarrow> umm \<Rightarrow> u16" where "UMM_PBLOCK \<equiv> link 2"
abbreviation UMM_NFREE :: "u16 \<Rightarrow> umm \<Rightarrow> u16" where "UMM_NFREE \<equiv> link 4"
abbreviation UMM_PFREE :: "u16 \<Rightarrow> umm \<Rightarrow> u16" where "UMM_PFREE \<equiv> link 6"

abbreviation set_NBLOCK :: "u16 \<Rightarrow> u16 \<Rightarrow> umm \<Rightarrow> umm" where "set_NBLOCK \<equiv> set_link 0"
abbreviation set_PBLOCK :: "u16 \<Rightarrow> u16 \<Rightarrow> umm \<Rightarrow> umm" where "set_PBLOCK \<equiv> set_link 2"
abbreviation set_NFREE :: "u16 \<Rightarrow> u16 \<Rightarrow> umm \<Rightarrow> umm" where "set_NFREE \<equiv> set_link 4"
abbreviation set_PFREE :: "u16 \<Rightarrow> u16 \<Rightarrow> umm \<Rightarrow> umm" where "set_PFREE \<equiv> set_link 6"

definition next_block :: "u16 \<Rightarrow> umm \<Rightarrow> u16" where
  "next_block b s = UMM_NBLOCK b s AND UMM_BLOCKNO_MASK"

definition is_free :: "u16 \<Rightarrow> umm \<Rightarrow> bool" where
  "is_free b s \<longleftrightarrow> UMM_NBLOCK b s AND UMM_FREELIST_MASK \<noteq> 0"

text \<open>Offsets from the start of the heap do not wrap: block, byte.\<close>

lemma unat_offset:
  assumes "unat f < 8"
  shows "unat (8 * ucast (b :: u16) + f :: u32) = 8 * unat b + unat f"
proof -
  have b: "unat b < 65536" using unsigned_less [of b] by simp
  have u: "unat (ucast b :: u32) = unat b" using b by (simp add: unsigned_ucast_eq take_bit_nat_eq_self)
  show ?thesis using b assms by (simp add: unat_word_ariths u)
qed

lemma offset_inject:
  assumes "unat f < 8" and "unat g < 8"
  shows "h + (8 * ucast (b :: u16) + f) = h + (8 * ucast c + g) \<longleftrightarrow> b = c \<and> f = (g :: u32)"
proof -
  have "8 * ucast b + f = 8 * ucast c + g \<longleftrightarrow> 8 * unat b + unat f = 8 * unat c + unat g"
    using assms by (simp add: word_unat_eq_iff unat_offset)
  also have "\<dots> \<longleftrightarrow> unat b = unat c \<and> unat f = unat g" using assms by presburger
  also have "\<dots> \<longleftrightarrow> b = c \<and> f = g" by (simp add: word_unat_eq_iff)
  finally show ?thesis unfolding add_left_cancel .
qed

definition field :: "u32 \<Rightarrow> bool" where
  "field f \<longleftrightarrow> f \<in> {0, 2, 4, 6}"

lemma field_simps [simp]: "field 0" "field 2" "field 4" "field 6"
  by (simp_all add: field_def)

lemma field_less: "field f \<Longrightarrow> unat f < 8 \<and> unat (f + 1) < 8"
  by (auto simp: field_def)

lemma field_odd: "field f \<Longrightarrow> field g \<Longrightarrow> f \<noteq> g + 1"
  by (auto simp: field_def)

lemma link_heap [simp]:
  "heap_start (set_link f b v s) = heap_start s" "umm_heap (set_link f b v s) = umm_heap s" "umm_numblocks (set_link f b v s) = umm_numblocks s"
  "ummHeapInfo (set_link f b v s) = ummHeapInfo s" "free_blocks (set_link f b v s) = free_blocks s"
  "oom_count (set_link f b v s) = oom_count s"
  by (simp_all add: set_link_def)

lemma block_heap [simp]: "UMM_BLOCK c (set_link f b v s) = UMM_BLOCK c s" "UMM_DATA c (set_link f b v s) = UMM_DATA c s"
  by (simp_all add: UMM_BLOCK_def UMM_DATA_def)

lemma link_set_link [simp]:
  assumes "field f" and "field g"
  shows "link f b (set_link g c v s) = (if b = c \<and> f = g then v else link f b s)"
proof (cases "b = c \<and> f = g")
  case True
  then show ?thesis by (simp add: link_def set_link_def UMM_BLOCK_def read_write16)
next
  case False
  let ?h = "umm_heap s"
  have f: "unat f < 8" "unat (f + 1) < 8" "unat g < 8" "unat (g + 1) < 8" using assms field_less by auto
  have o: "f \<noteq> g + 1" "g \<noteq> f + 1" using assms field_odd by auto
  have "?h + (8 * ucast b + f) \<noteq> ?h + (8 * ucast c + g)" "?h + (8 * ucast b + (f + 1)) \<noteq> ?h + (8 * ucast c + g)"
    "?h + (8 * ucast b + f) \<noteq> ?h + (8 * ucast c + (g + 1))"
    using False o f by (auto simp only: offset_inject)
  then have "UMM_BLOCK b s + f \<noteq> UMM_BLOCK c s + g" "UMM_BLOCK b s + f + 1 \<noteq> UMM_BLOCK c s + g"
    "UMM_BLOCK b s + f \<noteq> UMM_BLOCK c s + g + 1"
    by (simp_all add: UMM_BLOCK_def add.assoc)
  then show ?thesis using False
    by (auto simp: link_def set_link_def UMM_BLOCK_def read_write16_other)
qed

text \<open>A byte that belongs to no link that is set keeps its value.\<close>

lemma set_link_byte:
  assumes "p \<noteq> UMM_BLOCK b s + f" and "p \<noteq> UMM_BLOCK b s + f + 1"
  shows "ram_bytes (set_link f b v s) p = ram_bytes s p"
  using assms by (simp add: set_link_def write16_other)

section \<open>The free flag\<close>

lemma u16_bit_high: "16 \<le> n \<Longrightarrow> \<not> bit (w :: u16) n"
  by (auto dest: bit_imp_le_length)

lemma freelist_mask: "UMM_FREELIST_MASK = push_bit 15 1" and blockno_mask: "UMM_BLOCKNO_MASK = mask 15"
  by (simp_all add: UMM_FREELIST_MASK_def UMM_BLOCKNO_MASK_def mask_eq_exp_minus_1)

lemma bit_freelist_mask: "bit UMM_FREELIST_MASK n \<longleftrightarrow> n = 15"
  unfolding freelist_mask bit_push_bit_iff bit_1_iff by auto

lemma bit_blockno_mask: "bit UMM_BLOCKNO_MASK n \<longleftrightarrow> n < 15"
  unfolding blockno_mask by (auto simp: bit_mask_iff)

lemmas mask_bits = bit_freelist_mask bit_blockno_mask bit_and_iff bit_or_iff bit_not_iff

lemma and_flag: "w AND UMM_FREELIST_MASK = (if bit w 15 then UMM_FREELIST_MASK else 0)"
  by (rule bit_word_eqI) (auto simp: bit_and_iff bit_freelist_mask)

lemma flag_nonzero [simp]: "UMM_FREELIST_MASK \<noteq> 0"
  by (simp add: UMM_FREELIST_MASK_def)

lemma flag_iff: "w AND UMM_FREELIST_MASK \<noteq> 0 \<longleftrightarrow> bit w 15"
  by (simp add: and_flag)

lemma and_flag_eq: "v AND UMM_FREELIST_MASK = w AND UMM_FREELIST_MASK \<longleftrightarrow> bit v 15 = bit w 15"
  by (simp add: and_flag)

lemma small_iff: "w < 0x8000 \<longleftrightarrow> \<not> bit (w :: u16) 15"
proof -
  have "unat w < 65536" using unsigned_less [of w] by simp
  then have "unat w div 2 ^ 15 < 2" by (simp add: less_mult_imp_div_less)
  then have "\<not> odd (unat w div 2 ^ 15) \<longleftrightarrow> unat w div 2 ^ 15 = 0" unfolding less_2_cases_iff by auto
  also have "\<dots> \<longleftrightarrow> unat w < 2 ^ 15" by (rule div_eq_0_iff [THEN trans]) simp
  finally have "\<not> bit (unat w) 15 \<longleftrightarrow> unat w < 2 ^ 15" by (simp only: bit_iff_odd)
  then show ?thesis by (simp add: word_less_nat_alt bit_unsigned_iff)
qed

lemma masks [simp]:
  fixes w :: u16
  shows "(w OR UMM_FREELIST_MASK) AND UMM_BLOCKNO_MASK = w AND UMM_BLOCKNO_MASK"
    "(w AND UMM_BLOCKNO_MASK) AND UMM_BLOCKNO_MASK = w AND UMM_BLOCKNO_MASK"
    "(w AND NOT UMM_FREELIST_MASK) AND UMM_BLOCKNO_MASK = w AND UMM_BLOCKNO_MASK"
    and "bit (w OR UMM_FREELIST_MASK) 15" "\<not> bit (w AND UMM_BLOCKNO_MASK) 15" "\<not> bit (w AND NOT UMM_FREELIST_MASK) 15"
  by (rule bit_word_eqI; simp add: mask_bits; blast?)+ (simp_all add: mask_bits)

end
