(* ===== verification/Umm_Malloc.thy ===== *)
theory Umm_Malloc
  imports Umm_Data
begin

text \<open>
  The allocator, umm_malloc.cpp: the C code of umm_poison.c and umm_local.c rests on it.  A pointer is an address,
  NULL is 0.  Where the code computes a block number \<open>c + blocks\<close> as int it is taken modulo 16 bits; the two are the
  same as long as the block that is split ends inside the heap.  Following a cyclic free list does not end: the
  result is then \<open>None\<close>.
\<close>

definition UMM_MALLOC_CFG_HEAP_SIZE :: "umm \<Rightarrow> u32" where
  "UMM_MALLOC_CFG_HEAP_SIZE s = 0x3fffc000 - heap_start s"

definition memset :: "u32 \<Rightarrow> u8 \<Rightarrow> u32 \<Rightarrow> umm \<Rightarrow> umm" where
  "memset p v n s = s\<lparr>ram_bytes := (\<lambda>a. if a - p < n then v else ram_bytes s a)\<rparr>"

definition memmove :: "u32 \<Rightarrow> u32 \<Rightarrow> u32 \<Rightarrow> umm \<Rightarrow> umm" where
  "memmove dst src n s = s\<lparr>ram_bytes := (\<lambda>a. if a - dst < n then ram_bytes s (src + (a - dst)) else ram_bytes s a)\<rparr>"

definition umm_blocks :: "u32 \<Rightarrow> u16" where
  "umm_blocks sz = (if sz \<le> 4 then 1 else ucast (2 + (sz - 5) div 8))"

definition umm_split_block :: "u16 \<Rightarrow> u16 \<Rightarrow> u16 \<Rightarrow> umm \<Rightarrow> umm" where
  "umm_split_block c blocks new_freemask s =
     (let s = set_NBLOCK (c + blocks) ((UMM_NBLOCK c s AND UMM_BLOCKNO_MASK) OR new_freemask) s;
          s = set_PBLOCK (c + blocks) c s;
          s = set_PBLOCK (UMM_NBLOCK c s AND UMM_BLOCKNO_MASK) (c + blocks) s
      in set_NBLOCK c (c + blocks) s)"

definition umm_disconnect_from_free_list :: "u16 \<Rightarrow> umm \<Rightarrow> umm" where
  "umm_disconnect_from_free_list c s =
     (let s = set_NFREE (UMM_PFREE c s) (UMM_NFREE c s) s;
          s = set_PFREE (UMM_NFREE c s) (UMM_PFREE c s) s
      in set_NBLOCK c (UMM_NBLOCK c s AND NOT UMM_FREELIST_MASK) s)"

definition umm_assimilate_up :: "u16 \<Rightarrow> umm \<Rightarrow> umm" where
  "umm_assimilate_up c s =
     (if UMM_NBLOCK (UMM_NBLOCK c s) s AND UMM_FREELIST_MASK \<noteq> 0 then
        (let s = umm_disconnect_from_free_list (UMM_NBLOCK c s) s;
             s = set_PBLOCK (UMM_NBLOCK (UMM_NBLOCK c s) s AND UMM_BLOCKNO_MASK) c s
         in set_NBLOCK c (UMM_NBLOCK (UMM_NBLOCK c s) s AND UMM_BLOCKNO_MASK) s)
      else s)"

definition umm_assimilate_down :: "u16 \<Rightarrow> u16 \<Rightarrow> umm \<Rightarrow> u16 \<times> umm" where
  "umm_assimilate_down c freemask s =
     (let s = set_NBLOCK (UMM_PBLOCK c s) (UMM_NBLOCK c s OR freemask) s;
          s = set_PBLOCK (UMM_NBLOCK c s) (UMM_PBLOCK c s) s
      in (UMM_PBLOCK c s, s))"

definition umm_init :: "umm \<Rightarrow> umm" where
  "umm_init s =
     (let s = s\<lparr>umm_heap := heap_start s, umm_numblocks := ucast (UMM_MALLOC_CFG_HEAP_SIZE s div 8)\<rparr>;
          s = memset (umm_heap s) 0 (UMM_MALLOC_CFG_HEAP_SIZE s) s;
          s = s\<lparr>free_blocks := ucast (umm_numblocks s) - 2\<rparr>;
          s = set_NBLOCK 0 1 s;
          s = set_NFREE 0 1 s;
          s = set_PFREE 0 1 s;
          s = set_NBLOCK 1 ((umm_numblocks s - 1) OR UMM_FREELIST_MASK) s
      in set_PBLOCK (umm_numblocks s - 1) 1 s)"

definition init_heap :: "umm \<Rightarrow> umm" where
  "init_heap s = (if umm_heap s = 0 then umm_init s else s)"

definition block_of :: "u32 \<Rightarrow> umm \<Rightarrow> u16" where
  "block_of ptr s = ucast ((ptr - umm_heap s) div 8)"

definition umm_free_core :: "u32 \<Rightarrow> umm \<Rightarrow> umm" where
  "umm_free_core ptr s =
     (let c = block_of ptr s;
          s = s\<lparr>free_blocks := free_blocks s + (ucast (UMM_NBLOCK c s) - ucast c)\<rparr>;
          s = umm_assimilate_up c s
      in if UMM_NBLOCK (UMM_PBLOCK c s) s AND UMM_FREELIST_MASK \<noteq> 0 then snd (umm_assimilate_down c UMM_FREELIST_MASK s)
         else
           (let s = set_PFREE (UMM_NFREE 0 s) c s;
                s = set_NFREE c (UMM_NFREE 0 s) s;
                s = set_PFREE c 0 s;
                s = set_NFREE 0 c s
            in set_NBLOCK c (UMM_NBLOCK c s OR UMM_FREELIST_MASK) s))"

definition umm_free :: "u32 \<Rightarrow> umm \<Rightarrow> umm" where
  "umm_free ptr s = (let s = init_heap s in if ptr = 0 then s else umm_free_core ptr s)"

text \<open>The search of umm_malloc_core: the last \<open>blockSize\<close>, \<open>bestBlock\<close> and \<open>bestSize\<close> when \<open>cf\<close> is 0.\<close>

partial_function (option) best_fit :: "u16 \<Rightarrow> u16 \<Rightarrow> u16 \<Rightarrow> u16 \<Rightarrow> u16 \<Rightarrow> umm \<Rightarrow> (u16 \<times> u16 \<times> u16) option" where
  "best_fit blocks cf blockSize bestBlock bestSize s =
     (if cf = 0 then Some (blockSize, bestBlock, bestSize)
      else
        (let blockSize = (UMM_NBLOCK cf s AND UMM_BLOCKNO_MASK) - cf in
         if blocks \<le> blockSize \<and> blockSize < bestSize then best_fit blocks (UMM_NFREE cf s) blockSize cf blockSize s
         else best_fit blocks (UMM_NFREE cf s) blockSize bestBlock bestSize s))"

text \<open>The part that takes a block off the free list: whole, or its first \<open>blocks\<close> blocks.\<close>

definition take_block :: "u16 \<Rightarrow> u16 \<Rightarrow> u16 \<Rightarrow> umm \<Rightarrow> umm" where
  "take_block cf blockSize blocks s =
     (if blockSize = blocks then umm_disconnect_from_free_list cf s
      else
        (let s = umm_split_block cf blocks UMM_FREELIST_MASK s;
             s = set_NFREE (UMM_PFREE cf s) (cf + blocks) s;
             s = set_PFREE (cf + blocks) (UMM_PFREE cf s) s;
             s = set_PFREE (UMM_NFREE cf s) (cf + blocks) s
         in set_NFREE (cf + blocks) (UMM_NFREE cf s) s))"

definition umm_malloc_core :: "u32 \<Rightarrow> umm \<Rightarrow> (u32 \<times> umm) option" where
  "umm_malloc_core sz s = do {
     let blocks = umm_blocks sz;
     (blockSize, bestBlock, bestSize) \<leftarrow> best_fit blocks (UMM_NFREE 0 s) 0 (UMM_NFREE 0 s) 0x7FFF s;
     let (cf, blockSize) = (if bestSize \<noteq> 0x7FFF then (bestBlock, bestSize) else (0, blockSize));
     if UMM_NBLOCK cf s AND UMM_BLOCKNO_MASK \<noteq> 0 \<and> blocks \<le> blockSize then
       (let s = take_block cf blockSize blocks s;
            s = s\<lparr>free_blocks := free_blocks s - ucast blocks\<rparr>
        in Some (UMM_DATA cf s, s))
     else Some (0, s\<lparr>oom_count := oom_count s + 1\<rparr>) }"

definition umm_malloc :: "u32 \<Rightarrow> umm \<Rightarrow> (u32 \<times> umm) option" where
  "umm_malloc sz s = (let s = init_heap s in if sz = 0 then Some (0, s) else umm_malloc_core sz s)"

definition umm_calloc :: "u32 \<Rightarrow> u32 \<Rightarrow> umm \<Rightarrow> (u32 \<times> umm) option" where
  "umm_calloc num item_size s = do {
     (ret, s) \<leftarrow> umm_malloc (item_size * num) s;
     Some (ret, if ret \<noteq> 0 then memset ret 0 (item_size * num) s else s) }"

definition take_prev_and_next :: "u16 \<Rightarrow> u16 \<Rightarrow> u16 \<Rightarrow> u16 \<Rightarrow> u16 \<Rightarrow> umm \<Rightarrow> u16 \<times> u16 \<times> umm" where
  "take_prev_and_next c blocks blockSize prevBlockSize nextBlockSize s =
     (let s = umm_disconnect_from_free_list (UMM_PBLOCK c s) s;
          (c, s) = umm_assimilate_down c 0 s;
          s = s\<lparr>free_blocks := free_blocks s - ucast prevBlockSize\<rparr>;
          blockSize = blockSize + prevBlockSize
      in if blocks \<le> blockSize then (c, blockSize, s)
         else
           (let s = umm_assimilate_up c s;
                s = s\<lparr>free_blocks := free_blocks s - ucast nextBlockSize\<rparr>;
                blockSize = blockSize + nextBlockSize;
                s = (if blocks < blockSize then
                       (let s = umm_split_block c blocks 0 s in umm_free_core (UMM_DATA (c + blocks) s) s)
                     else s)
            in (c, blocks, s)))"

definition umm_realloc :: "u32 \<Rightarrow> u32 \<Rightarrow> umm \<Rightarrow> (u32 \<times> umm) option" where
  "umm_realloc ptr sz s =
     (let s = init_heap s in
      if ptr = 0 then umm_malloc sz s
      else if sz = 0 then Some (0, umm_free ptr s)
      else do {
        let blocks = umm_blocks sz;
        let c = block_of ptr s;
        let blockSize = UMM_NBLOCK c s - c;
        let curSize = ucast blockSize * 8 - 4;
        let n = UMM_NBLOCK c s;
        let nextBlockSize = (if UMM_NBLOCK n s AND UMM_FREELIST_MASK \<noteq> 0 then (UMM_NBLOCK n s AND UMM_BLOCKNO_MASK) - n else 0);
        let p = UMM_PBLOCK c s;
        let prevBlockSize = (if UMM_NBLOCK p s AND UMM_FREELIST_MASK \<noteq> 0 then c - p else 0);
        (ptr, c, blockSize, s) \<leftarrow>
          (if prevBlockSize \<noteq> 0 \<and> unat blocks \<le> unat prevBlockSize + unat blockSize + unat nextBlockSize then
             (let (c, blockSize, s) = take_prev_and_next c blocks blockSize prevBlockSize nextBlockSize s
              in Some (UMM_DATA c s, c, blockSize, memmove (UMM_DATA c s) ptr curSize s))
           else if blocks \<le> blockSize then Some (ptr, c, blockSize, s)
           else if unat blocks \<le> unat blockSize + unat nextBlockSize then
             (let s = umm_assimilate_up c s
              in Some (ptr, c, blockSize + nextBlockSize, s\<lparr>free_blocks := free_blocks s - ucast nextBlockSize\<rparr>))
           else do {
             (q, s) \<leftarrow> umm_malloc_core sz s;
             Some (q, c, blocks,
               if q \<noteq> 0 then umm_free_core ptr (memmove q ptr curSize s) else s\<lparr>oom_count := oom_count s + 1\<rparr>) });
        Some (ptr,
          if blocks < blockSize then (let s = umm_split_block c blocks 0 s in umm_free_core (UMM_DATA (c + blocks) s) s)
          else s) })"

end
