(* ===== verification/Umm_Integrity.thy ===== *)
theory Umm_Integrity
  imports Umm_Malloc
begin

text \<open>
  umm_integrity.c: the check of the two lists of blocks.  It ends on every heap, and what it accepts is
  exactly described, as is what it writes.
\<close>

section \<open>The check\<close>

text \<open>The pass over the free list marks the blocks it sees.  Whether it ends is not evident: \<open>None\<close> if not.\<close>

partial_function (option) free_pass :: "u16 \<Rightarrow> umm \<Rightarrow> (bool \<times> umm) option" where
  "free_pass prev s =
     (let cur = UMM_NFREE prev s in
      if umm_numblocks s \<le> cur then Some (False, s)
      else if cur = 0 then Some (True, s)
      else if UMM_PFREE cur s \<noteq> prev then Some (False, s)
      else free_pass cur (set_PBLOCK cur (UMM_PBLOCK cur s OR UMM_FREELIST_MASK) s))"

function block_pass :: "u16 \<Rightarrow> umm \<Rightarrow> bool \<times> umm" where
  "block_pass prev s =
     (let cur = UMM_NBLOCK prev s AND UMM_BLOCKNO_MASK in
      if umm_numblocks s \<le> cur then (False, s)
      else if cur = 0 then (True, s)
      else if UMM_NBLOCK cur s AND UMM_FREELIST_MASK \<noteq> UMM_PBLOCK cur s AND UMM_FREELIST_MASK then (False, s)
      else if cur \<le> prev then (False, s)
      else
        (let s = set_PBLOCK cur (UMM_PBLOCK cur s AND UMM_BLOCKNO_MASK) s in
         if UMM_PBLOCK cur s \<noteq> prev then (False, s) else block_pass cur s))"
  by pat_completeness auto
termination
  by (relation "measure (\<lambda>(prev, s). 65536 - unat prev)")
    (auto simp: word_le_nat_alt not_le intro!: diff_less_mono2 order_less_le_trans [OF unsigned_less])

declare block_pass.simps [simp del]

definition umm_integrity_check :: "umm \<Rightarrow> (bool \<times> umm) option" where
  "umm_integrity_check s = do {
     let s = init_heap s;
     (ok, s) \<leftarrow> free_pass 0 s;
     Some (if ok then block_pass 0 s else (ok, s)) }"

section \<open>The check ends\<close>

text \<open>A block seen before has another predecessor in the free list than the one the pass comes from.\<close>

lemma free_pass_ends:
  assumes "prev \<in> seen" and "\<forall>x \<in> seen. x \<noteq> 0 \<longrightarrow> UMM_PFREE x s \<in> seen \<and> UMM_PFREE x s \<noteq> prev"
  shows "\<exists>r. free_pass prev s = Some r"
  using assms
proof (induction "card (UNIV - seen)" arbitrary: prev seen s rule: less_induct)
  case less
  let ?cur = "UMM_NFREE prev s"
  show ?case
  proof (cases "umm_numblocks s \<le> ?cur \<or> ?cur = 0 \<or> UMM_PFREE ?cur s \<noteq> prev")
    case True
    then show ?thesis by (subst free_pass.simps) (auto simp: Let_def)
  next
    case False
    then have c: "?cur \<noteq> 0" "UMM_PFREE ?cur s = prev" "\<not> umm_numblocks s \<le> ?cur" by auto
    then have new: "?cur \<notin> seen" using less.prems(2) by auto
    let ?s = "set_PBLOCK ?cur (UMM_PBLOCK ?cur s OR UMM_FREELIST_MASK) s"
    have "card (UNIV - insert ?cur seen) < card (UNIV - seen)"
      using new by (intro psubset_card_mono) auto
    moreover have "\<forall>x \<in> insert ?cur seen. x \<noteq> 0 \<longrightarrow> UMM_PFREE x ?s \<in> insert ?cur seen \<and> UMM_PFREE x ?s \<noteq> ?cur"
      using less.prems c new by auto
    ultimately obtain r where "free_pass ?cur ?s = Some r"
      using less.hyps [of "insert ?cur seen" ?cur ?s] by auto
    then show ?thesis using c by (subst free_pass.simps) (simp add: Let_def)
  qed
qed

text \<open>C21. The integrity check ends on every heap, whatever the links are: a cycle in the free list is found because the
  links back of its blocks cannot all agree.\<close>

theorem integrity_check_ends: "\<exists>ok s'. umm_integrity_check s = Some (ok, s')"
proof -
  have "\<exists>r. free_pass 0 (init_heap s) = Some r" by (rule free_pass_ends [of _ "{0}"]) auto
  then show ?thesis by (auto simp: umm_integrity_check_def Let_def)
qed

section \<open>Chains of blocks\<close>

fun blocks_from :: "umm \<Rightarrow> u16 \<Rightarrow> u16 list \<Rightarrow> bool" where
  "blocks_from s p [] \<longleftrightarrow> next_block p s = 0"
| "blocks_from s p (b # bs) \<longleftrightarrow> next_block p s = b \<and> p < b \<and> b < umm_numblocks s \<and> UMM_PBLOCK b s = p \<and> blocks_from s b bs"

fun free_from :: "umm \<Rightarrow> u16 \<Rightarrow> u16 list \<Rightarrow> bool" where
  "free_from s p [] \<longleftrightarrow> UMM_NFREE p s = 0"
| "free_from s p (c # fs) \<longleftrightarrow> UMM_NFREE p s = c \<and> c \<noteq> 0 \<and> c < umm_numblocks s \<and> UMM_PFREE c s = p \<and> free_from s c fs"

text \<open>The chain as the second pass reads it: the free flag is also in the link back.\<close>

fun flagged_from :: "umm \<Rightarrow> u16 \<Rightarrow> u16 list \<Rightarrow> bool" where
  "flagged_from s p [] \<longleftrightarrow> next_block p s = 0"
| "flagged_from s p (b # bs) \<longleftrightarrow> next_block p s = b \<and> p < b \<and> b < umm_numblocks s \<and>
     UMM_PBLOCK b s AND UMM_BLOCKNO_MASK = p \<and> bit (UMM_NBLOCK b s) 15 = bit (UMM_PBLOCK b s) 15 \<and> flagged_from s b bs"

definition mark :: "u16 list \<Rightarrow> umm \<Rightarrow> umm" where
  "mark = fold (\<lambda>c s. set_PBLOCK c (UMM_PBLOCK c s OR UMM_FREELIST_MASK) s)"

definition unmark :: "u16 list \<Rightarrow> umm \<Rightarrow> umm" where
  "unmark = fold (\<lambda>c s. set_PBLOCK c (UMM_PBLOCK c s AND UMM_BLOCKNO_MASK) s)"

lemma mark_simps [simp]: "mark [] s = s" "mark (c # cs) s = mark cs (set_PBLOCK c (UMM_PBLOCK c s OR UMM_FREELIST_MASK) s)"
  by (simp_all add: mark_def)

lemma unmark_simps [simp]:
  "unmark [] s = s" "unmark (c # cs) s = unmark cs (set_PBLOCK c (UMM_PBLOCK c s AND UMM_BLOCKNO_MASK) s)"
  by (simp_all add: unmark_def)

lemma next_block_set [simp]: "next_block b (set_PBLOCK c v s) = next_block b s"
  by (simp add: next_block_def)

lemma free_from_set [simp]: "free_from (set_PBLOCK c v s) p fs = free_from s p fs"
  by (induction fs arbitrary: p) simp_all

lemma flagged_from_set: "c \<notin> set bs \<Longrightarrow> flagged_from (set_PBLOCK c v s) p bs = flagged_from s p bs"
  by (induction bs arbitrary: p) auto

lemma flagged_from_less: "flagged_from s p bs \<Longrightarrow> b \<in> set bs \<Longrightarrow> p < b"
  by (induction bs arbitrary: p) (auto intro: order_less_trans)

lemma blocks_from_less: "blocks_from s p bs \<Longrightarrow> b \<in> set bs \<Longrightarrow> p < b"
  by (induction bs arbitrary: p) (auto intro: order_less_trans)

section \<open>What the passes accept\<close>

lemma free_pass_accepts: "free_from s p fs \<Longrightarrow> umm_numblocks s \<noteq> 0 \<Longrightarrow> free_pass p s = Some (True, mark fs s)"
proof (induction fs arbitrary: p s)
  case Nil
  then show ?case by (subst free_pass.simps) (simp add: Let_def)
next
  case (Cons c fs)
  then have "free_pass c (set_PBLOCK c (UMM_PBLOCK c s OR UMM_FREELIST_MASK) s) = Some (True, mark (c # fs) s)" by simp
  then show ?case using Cons.prems by (subst free_pass.simps) (simp add: Let_def not_le)
qed

lemma free_pass_result:
  "free_pass p s = Some r \<Longrightarrow> fst r \<longrightarrow> (\<exists>fs. free_from s p fs \<and> snd r = mark fs s)"
proof (rule free_pass.raw_induct [of "\<lambda>p s r. fst r \<longrightarrow> (\<exists>fs. free_from s p fs \<and> snd r = mark fs s)"])
  fix rec p s r
  let ?c = "UMM_NFREE p s"
  let ?s = "set_PBLOCK ?c (UMM_PBLOCK ?c s OR UMM_FREELIST_MASK) s"
  assume IH: "\<And>p s r. rec p s = Some r \<Longrightarrow> fst r \<longrightarrow> (\<exists>fs. free_from s p fs \<and> snd r = mark fs s)"
    and r: "(let cur = UMM_NFREE p s in
      if umm_numblocks s \<le> cur then Some (False, s)
      else if cur = 0 then Some (True, s)
      else if UMM_PFREE cur s \<noteq> p then Some (False, s)
      else rec cur (set_PBLOCK cur (UMM_PBLOCK cur s OR UMM_FREELIST_MASK) s)) = Some r"
  show "fst r \<longrightarrow> (\<exists>fs. free_from s p fs \<and> snd r = mark fs s)"
  proof (cases "umm_numblocks s \<le> ?c \<or> ?c = 0 \<or> UMM_PFREE ?c s \<noteq> p")
    case True
    then show ?thesis using r by (auto simp: Let_def split: if_splits intro: exI [of _ "[]"])
  next
    case False
    then have "rec ?c ?s = Some r" using r by (simp add: Let_def)
    from IH [OF this] have "fst r \<longrightarrow> (\<exists>fs. free_from s ?c fs \<and> snd r = mark fs ?s)" by simp
    moreover have "free_from s ?c fs \<Longrightarrow> free_from s p (?c # fs) \<and> mark fs ?s = mark (?c # fs) s" for fs
      using False by (simp add: not_le)
    ultimately show ?thesis by metis
  qed
qed

lemma free_pass_sound: "free_pass p s = Some (True, s') \<Longrightarrow> \<exists>fs. free_from s p fs \<and> s' = mark fs s"
  using free_pass_result [of p s "(True, s')"] by simp

lemma block_pass_iff:
  "umm_numblocks s \<noteq> 0 \<Longrightarrow> block_pass p s = (True, s') \<longleftrightarrow> (\<exists>bs. flagged_from s p bs \<and> s' = unmark bs s)"
proof (induction p s arbitrary: s' rule: block_pass.induct)
  case (1 p s)
  let ?c = "UMM_NBLOCK p s AND UMM_BLOCKNO_MASK"
  let ?s = "set_PBLOCK ?c (UMM_PBLOCK ?c s AND UMM_BLOCKNO_MASK) s"
  let ?go = "?c < umm_numblocks s \<and> bit (UMM_NBLOCK ?c s) 15 = bit (UMM_PBLOCK ?c s) 15 \<and> p < ?c \<and>
      UMM_PBLOCK ?c s AND UMM_BLOCKNO_MASK = p"
  have split: "flagged_from s p bs \<longleftrightarrow> (if bs = [] then ?c = 0 else hd bs = ?c \<and> ?go \<and> flagged_from ?s ?c (tl bs))" for bs
  proof (cases bs)
    case (Cons b cs)
    have "flagged_from ?s b cs \<longleftrightarrow> flagged_from s b cs" if "b = ?c"
      using that flagged_from_less flagged_from_set by (metis (no_types) order_less_irrefl)
    then show ?thesis using Cons by (auto simp: next_block_def)
  qed (simp add: next_block_def)
  consider "?go" | "?c = 0" | "\<not> ?go" "?c \<noteq> 0" by blast
  then show ?case
  proof cases
    case 1
    then have c: "?c \<noteq> 0" by (metis word_not_simps(1))
    have IH: "block_pass ?c ?s = (True, s') \<longleftrightarrow> (\<exists>bs. flagged_from ?s ?c bs \<and> s' = unmark bs ?s)"
      using \<open>?go\<close> c \<open>umm_numblocks s \<noteq> 0\<close> by (intro "1.IH" [OF refl]) (simp_all add: and_flag_eq not_le)
    have "\<not> umm_numblocks s \<le> ?c" "\<not> ?c \<le> p" using \<open>?go\<close> by (simp_all add: not_le)
    then have "block_pass p s = block_pass ?c ?s" using \<open>?go\<close> c by (subst block_pass.simps) (simp add: Let_def and_flag_eq)
    moreover have "(\<exists>bs. flagged_from s p bs \<and> s' = unmark bs s) \<longleftrightarrow> (\<exists>bs. flagged_from ?s ?c bs \<and> s' = unmark bs ?s)"
    proof
      assume "\<exists>bs. flagged_from s p bs \<and> s' = unmark bs s"
      then obtain bs where "flagged_from s p bs" "s' = unmark bs s" by blast
      then show "\<exists>bs. flagged_from ?s ?c bs \<and> s' = unmark bs ?s"
        using c unfolding split [of bs] by (cases bs) auto
    next
      assume "\<exists>bs. flagged_from ?s ?c bs \<and> s' = unmark bs ?s"
      then obtain bs where "flagged_from ?s ?c bs" "s' = unmark bs ?s" by blast
      then show "\<exists>bs. flagged_from s p bs \<and> s' = unmark bs s"
        using \<open>?go\<close> by (intro exI [of _ "?c # bs"] conjI) (simp_all only: split [of "?c # bs"] unmark_simps list.simps list.sel if_False simp_thms)
    qed
    ultimately show ?thesis using IH by simp
  next
    case 2
    then have "block_pass p s = (True, s)" using \<open>umm_numblocks s \<noteq> 0\<close> by (subst block_pass.simps) (simp add: Let_def)
    moreover have "flagged_from s p bs \<longleftrightarrow> bs = []" for bs using 2 unfolding split [of bs] by auto
    ultimately show ?thesis by auto
  next
    case 3
    then have "fst (block_pass p s) = False"
      by (subst block_pass.simps) (auto simp: Let_def and_flag_eq not_le)
    moreover have "\<not> flagged_from s p bs" for bs using 3 unfolding split [of bs] by auto
    ultimately show ?thesis by (cases "block_pass p s") auto
  qed
qed

section \<open>Marks\<close>

lemma or_flag_twice [simp]: "(w OR UMM_FREELIST_MASK) OR UMM_FREELIST_MASK = w OR UMM_FREELIST_MASK"
  by (simp add: or.assoc)

lemma link_mark: "field f \<Longrightarrow> link f b (mark cs s) = (if f = 2 \<and> b \<in> set cs then UMM_PBLOCK b s OR UMM_FREELIST_MASK else link f b s)"
  by (induction cs arbitrary: s) auto

lemma link_unmark:
  "field f \<Longrightarrow> link f b (unmark cs s) = (if f = 2 \<and> b \<in> set cs then UMM_PBLOCK b s AND UMM_BLOCKNO_MASK else link f b s)"
  by (induction cs arbitrary: s) auto

lemma mark_fields: "\<exists>m. mark cs s = s\<lparr>ram_bytes := m\<rparr>" "\<exists>m. unmark cs s = s\<lparr>ram_bytes := m\<rparr>"
proof -
  have *: "\<exists>m. s = s\<lparr>ram_bytes := m\<rparr>" for s by (rule exI [of _ "ram_bytes s"]) simp
  have **: "\<exists>m. t = s\<lparr>ram_bytes := m\<rparr>" if "\<exists>m. t = set_link f c v s\<lparr>ram_bytes := m\<rparr>" for t f c v s
    using that by (auto simp: set_link_def)
  show "\<exists>m. mark cs s = s\<lparr>ram_bytes := m\<rparr>"
  proof (induction cs arbitrary: s)
    case (Cons c cs)
    then show ?case unfolding mark_simps by (intro **)
  qed (simp only: mark_simps *)
  show "\<exists>m. unmark cs s = s\<lparr>ram_bytes := m\<rparr>"
  proof (induction cs arbitrary: s)
    case (Cons c cs)
    then show ?case unfolding unmark_simps by (intro **)
  qed (simp only: unmark_simps *)
qed

lemma mark_block [simp]: "UMM_BLOCK b (mark cs s) = UMM_BLOCK b s" "UMM_BLOCK b (unmark cs s) = UMM_BLOCK b s"
  using mark_fields [of cs s] by (auto simp: UMM_BLOCK_def)

lemma mark_numblocks [simp]:
  "umm_numblocks (mark cs s) = umm_numblocks s" "umm_numblocks (unmark cs s) = umm_numblocks s" "umm_heap (mark cs s) = umm_heap s"
  using mark_fields [of cs s] by auto

lemma mark_byte:
  "\<forall>c. p \<noteq> UMM_BLOCK c s + 2 \<and> p \<noteq> UMM_BLOCK c s + 3 \<Longrightarrow> ram_bytes (mark cs s) p = ram_bytes s p"
  "\<forall>c. p \<noteq> UMM_BLOCK c s + 2 \<and> p \<noteq> UMM_BLOCK c s + 3 \<Longrightarrow> ram_bytes (unmark cs s) p = ram_bytes s p"
  by (induction cs arbitrary: s) (simp_all add: set_link_byte add.assoc)

lemma read16_inject:
  assumes "read16 m a = read16 m' a"
  shows "m a = m' a \<and> m (a + 1) = m' (a + 1)"
proof
  have b: "bit (read16 m a) n \<longleftrightarrow> (if n < 8 then bit (m a) n else n < 16 \<and> bit (m (a + 1)) (n - 8))" for m n
    by (auto simp: read16_def bit_or_iff bit_ucast_iff bit_shl)
  show "m a = m' a"
  proof (rule bit_word_eqI)
    fix n assume "n < LENGTH(8)"
    then show "bit (m a) n = bit (m' a) n" using b [of m n] b [of m' n] assms by simp
  qed
  show "m (a + 1) = m' (a + 1)"
  proof (rule bit_word_eqI)
    fix n assume "n < LENGTH(8)"
    then show "bit (m (a + 1)) n = bit (m' (a + 1)) n" using b [of m "n + 8"] b [of m' "n + 8"] assms by simp
  qed
qed

lemma states_equal:
  assumes t: "\<exists>m. t = s\<lparr>ram_bytes := m\<rparr>" and t': "\<exists>m. t' = s\<lparr>ram_bytes := m\<rparr>"
    and l: "\<And>c. UMM_PBLOCK c t = UMM_PBLOCK c t'"
    and b: "\<And>p. \<forall>c. p \<noteq> UMM_BLOCK c s + 2 \<and> p \<noteq> UMM_BLOCK c s + 3 \<Longrightarrow> ram_bytes t p = ram_bytes t' p"
  shows "t = t'"
proof -
  have k: "UMM_BLOCK c t = UMM_BLOCK c s" "UMM_BLOCK c t' = UMM_BLOCK c s" for c
    using t t' by (auto simp: UMM_BLOCK_def)
  have "ram_bytes t p = ram_bytes t' p" for p
  proof (cases "\<forall>c. p \<noteq> UMM_BLOCK c s + 2 \<and> p \<noteq> UMM_BLOCK c s + 3")
    case False
    then obtain c where c: "p = UMM_BLOCK c s + 2 \<or> p = UMM_BLOCK c s + 2 + 1" by (auto simp: add.assoc)
    have "read16 (ram_bytes t) (UMM_BLOCK c s + 2) = read16 (ram_bytes t') (UMM_BLOCK c s + 2)"
      using l [of c] by (simp add: link_def k)
    from read16_inject [OF this] show ?thesis using c by auto
  qed (rule b)
  then have "ram_bytes t = ram_bytes t'" by (rule ext)
  then show ?thesis using t t' by auto
qed

lemma small_mask: "\<not> bit w 15 \<Longrightarrow> w AND UMM_BLOCKNO_MASK = w" for w :: u16
proof (rule bit_word_eqI)
  fix n assume "\<not> bit w 15" "n < LENGTH(16)"
  then show "bit (w AND UMM_BLOCKNO_MASK) n = bit w n" by (cases "n = 15") (auto simp: mask_bits)
qed

lemma unmark_mark:
  assumes "\<forall>b \<in> set bs. \<not> bit (UMM_PBLOCK b s) 15"
  shows "unmark bs (mark fs s) = mark (filter (\<lambda>c. c \<notin> set bs) fs) s"
proof (rule states_equal [of _ s])
  show "UMM_PBLOCK c (unmark bs (mark fs s)) = UMM_PBLOCK c (mark (filter (\<lambda>c. c \<notin> set bs) fs) s)" for c
    using assms by (simp add: link_mark link_unmark small_mask)
next
  fix p assume "\<forall>c. p \<noteq> UMM_BLOCK c s + 2 \<and> p \<noteq> UMM_BLOCK c s + 3"
  then show "ram_bytes (unmark bs (mark fs s)) p = ram_bytes (mark (filter (\<lambda>c. c \<notin> set bs) fs) s) p"
    by (simp add: mark_byte)
next
  show "\<exists>m. unmark bs (mark fs s) = s\<lparr>ram_bytes := m\<rparr>"
    using mark_fields(2) [of bs "mark fs s"] mark_fields(1) [of fs s] by auto
qed (rule mark_fields(1))

section \<open>What the check accepts\<close>

lemma is_free_iff: "is_free b s \<longleftrightarrow> bit (UMM_NBLOCK b s) 15"
  by (simp add: is_free_def flag_iff)

lemma flagged_from_mark:
  assumes "\<forall>b \<in> set bs. \<not> bit (UMM_PBLOCK b s) 15"
  shows "flagged_from (mark fs s) p bs \<longleftrightarrow> blocks_from s p bs \<and> (\<forall>b \<in> set bs. is_free b s \<longleftrightarrow> b \<in> set fs)"
  using assms
proof (induction bs arbitrary: p)
  case (Cons b bs)
  have "UMM_PBLOCK b s AND UMM_BLOCKNO_MASK = UMM_PBLOCK b s" using Cons.prems small_mask by simp
  then show ?case using Cons by (auto simp: link_mark is_free_iff next_block_def)
qed (simp add: next_block_def link_mark)

text \<open>The list of all blocks, its links back without the marks that a check which stopped early may have left in them.\<close>

fun linked_from :: "umm \<Rightarrow> u16 \<Rightarrow> u16 list \<Rightarrow> bool" where
  "linked_from s p [] \<longleftrightarrow> next_block p s = 0"
| "linked_from s p (b # bs) \<longleftrightarrow> next_block p s = b \<and> p < b \<and> b < umm_numblocks s \<and>
     UMM_PBLOCK b s AND UMM_BLOCKNO_MASK = p \<and> linked_from s b bs"

lemma or_mask_bits: "(w OR UMM_FREELIST_MASK) AND UMM_BLOCKNO_MASK = w AND UMM_BLOCKNO_MASK" "bit (w OR UMM_FREELIST_MASK) 15"
  for w :: u16
  by (rule bit_word_eqI) (auto simp: mask_bits bit_or_iff bit_and_iff)

lemma flagged_from_marked:
  "flagged_from (mark fs s) p bs \<longleftrightarrow> linked_from s p bs \<and> (\<forall>b \<in> set bs. is_free b s \<longleftrightarrow> b \<in> set fs \<or> bit (UMM_PBLOCK b s) 15)"
proof (induction bs arbitrary: p)
  case (Cons b bs)
  then show ?case by (auto simp: link_mark is_free_iff next_block_def or_mask_bits)
qed (simp add: next_block_def link_mark)

lemma unmark_marked: "unmark bs (mark fs s) = mark (filter (\<lambda>c. c \<notin> set bs) fs) (unmark bs s)"
proof (rule states_equal [of _ s])
  show "UMM_PBLOCK c (unmark bs (mark fs s)) = UMM_PBLOCK c (mark (filter (\<lambda>c. c \<notin> set bs) fs) (unmark bs s))" for c
    by (simp add: link_mark link_unmark or_mask_bits)
next
  fix p assume "\<forall>c. p \<noteq> UMM_BLOCK c s + 2 \<and> p \<noteq> UMM_BLOCK c s + 3"
  then show "ram_bytes (unmark bs (mark fs s)) p = ram_bytes (mark (filter (\<lambda>c. c \<notin> set bs) fs) (unmark bs s)) p"
    by (simp add: mark_byte)
next
  show "\<exists>m. unmark bs (mark fs s) = s\<lparr>ram_bytes := m\<rparr>"
    using mark_fields(2) [of bs "mark fs s"] mark_fields(1) [of fs s] by auto
  show "\<exists>m. mark (filter (\<lambda>c. c \<notin> set bs) fs) (unmark bs s) = s\<lparr>ram_bytes := m\<rparr>"
    using mark_fields(1) [of "filter (\<lambda>c. c \<notin> set bs) fs" "unmark bs s"] mark_fields(2) [of bs s] by auto
qed

text \<open>C20. On an initialised heap the integrity check accepts exactly if there is a strictly increasing list of all blocks whose links
  back agree apart from their marks, a free list that is linked both ways, and the free flag on exactly those blocks that are on the
  free list or have a mark in their link back, left by a check that stopped early.  It takes the marks off all the blocks and leaves
  one on each entry of the free list that is no block; nothing else changes.  So on a heap without stale marks whose free list
  has only blocks it changes nothing.\<close>

theorem integrity_check_exact:
  assumes "umm_heap s \<noteq> 0" and "umm_numblocks s \<noteq> 0"
  shows "umm_integrity_check s = Some (True, s') \<longleftrightarrow>
    (\<exists>bs fs. linked_from s 0 bs \<and> free_from s 0 fs \<and>
      (\<forall>b \<in> set bs. is_free b s \<longleftrightarrow> b \<in> set fs \<or> bit (UMM_PBLOCK b s) 15) \<and>
      s' = mark (filter (\<lambda>c. c \<notin> set bs) fs) (unmark bs s))"
proof -
  have "umm_integrity_check s = Some (True, s') \<longleftrightarrow> (\<exists>t. free_pass 0 s = Some (True, t) \<and> block_pass 0 t = (True, s'))"
    using assms(1) by (auto simp: umm_integrity_check_def init_heap_def Let_def bind_eq_Some_conv split: if_splits)
  also have "\<dots> \<longleftrightarrow> (\<exists>fs. free_from s 0 fs \<and> block_pass 0 (mark fs s) = (True, s'))"
    using free_pass_accepts free_pass_sound assms(2) by blast
  also have "\<dots> \<longleftrightarrow> (\<exists>fs bs. free_from s 0 fs \<and> flagged_from (mark fs s) 0 bs \<and> s' = unmark bs (mark fs s))"
    using assms(2) by (auto simp: block_pass_iff)
  finally show ?thesis unfolding flagged_from_marked unmark_marked by blast
qed

text \<open>A heap of eight blocks with one used block from 1 to 7, whose free list has the 3 inside of it.\<close>

definition blank_umm :: umm where
  "blank_umm = \<lparr>heap_start = 0x3ffe8000, umm_heap = 0x3ffe8000, umm_numblocks = 8,
     ummHeapInfo = \<lparr>totalEntries = 0, usedEntries = 0, freeEntries = 0, totalBlocks = 0, usedBlocks = 0, freeBlocks = 0,
       freeBlocksSquared = 0, maxFreeContiguousBlocks = 0\<rparr>, free_blocks = 0, oom_count = 0, ram_bytes = (\<lambda>a. 0)\<rparr>"

lemma blank_links [simp]: "link f b blank_umm = 0"
  by (simp add: link_def blank_umm_def read16_def)

lemma blank_fields [simp]: "umm_heap blank_umm = 0x3ffe8000" "umm_numblocks blank_umm = 8" "heap_start blank_umm = 0x3ffe8000"
  by (simp_all add: blank_umm_def)

definition stray_free_entry :: umm where
  "stray_free_entry = set_NFREE 0 3 (set_NBLOCK 0 1 (set_NBLOCK 1 7 (set_PBLOCK 7 1 blank_umm)))"

lemma integrity_check_exact_witness:
  "umm_integrity_check stray_free_entry = Some (True, set_PBLOCK 3 0x8000 stray_free_entry)"
proof -
  let ?s = stray_free_entry
  have s: "umm_heap ?s \<noteq> 0" "umm_numblocks ?s \<noteq> 0" by (simp_all add: stray_free_entry_def)
  have "linked_from ?s 0 [1, 7]" "free_from ?s 0 [3]"
    "\<forall>b \<in> set [1, 7]. is_free b ?s \<longleftrightarrow> b \<in> set [3] \<or> bit (UMM_PBLOCK b ?s) 15"
    by (simp_all add: stray_free_entry_def next_block_def UMM_BLOCKNO_MASK_def is_free_iff)
  moreover have "unmark [1, 7] ?s = ?s" using unmark_mark [of "[1, 7]" ?s "[]"] by (simp add: stray_free_entry_def)
  then have "set_PBLOCK 3 0x8000 ?s = mark (filter (\<lambda>c. c \<notin> set [1, 7]) [3]) (unmark [1, 7] ?s)"
    by (simp add: stray_free_entry_def UMM_FREELIST_MASK_def)
  ultimately have "\<exists>bs fs. linked_from ?s 0 bs \<and> free_from ?s 0 fs \<and>
      (\<forall>b \<in> set bs. is_free b ?s \<longleftrightarrow> b \<in> set fs \<or> bit (UMM_PBLOCK b ?s) 15) \<and>
      set_PBLOCK 3 0x8000 ?s = mark (filter (\<lambda>c. c \<notin> set bs) fs) (unmark bs ?s)" by blast
  then show ?thesis using integrity_check_exact [OF s] by blast
qed

end
