(* ===== verification/Umm_Info.thy ===== *)
theory Umm_Info
  imports Umm_Integrity
begin

text \<open>
  umm_info.c: the walk over all blocks that counts them, and the metrics made from the counts; the square root is
  that of cores/esp8266/sqrt32.cpp.  A walk that does not end is \<open>None\<close>.
\<close>

section \<open>The walk\<close>

definition count_block :: "u16 \<Rightarrow> umm \<Rightarrow> umm" where
  "count_block b s =
     (let curBlocks = (ucast (UMM_NBLOCK b s AND UMM_BLOCKNO_MASK) - ucast b :: u32);
          i = ummHeapInfo s;
          i = i\<lparr>totalEntries := totalEntries i + 1, totalBlocks := totalBlocks i + curBlocks\<rparr>;
          i = (if UMM_NBLOCK b s AND UMM_FREELIST_MASK \<noteq> 0 then
                 i\<lparr>freeEntries := freeEntries i + 1, freeBlocks := freeBlocks i + curBlocks,
                   freeBlocksSquared := freeBlocksSquared i + curBlocks * curBlocks,
                   maxFreeContiguousBlocks :=
                     (if maxFreeContiguousBlocks i < curBlocks then curBlocks else maxFreeContiguousBlocks i)\<rparr>
               else i\<lparr>usedEntries := usedEntries i + 1, usedBlocks := usedBlocks i + curBlocks\<rparr>)
      in s\<lparr>ummHeapInfo := i\<rparr>)"

partial_function (option) info_loop :: "u32 \<Rightarrow> u16 \<Rightarrow> umm \<Rightarrow> (u32 \<times> umm) option" where
  "info_loop ptr blockNo s =
     (if UMM_NBLOCK blockNo s AND UMM_BLOCKNO_MASK = 0 then Some (0, s)
      else
        (let s = count_block blockNo s in
         if UMM_NBLOCK blockNo s AND UMM_FREELIST_MASK \<noteq> 0 \<and> ptr = UMM_BLOCK blockNo s then Some (ptr, s)
         else info_loop ptr (UMM_NBLOCK blockNo s AND UMM_BLOCKNO_MASK) s))"

definition zero_info :: UMM_HEAP_INFO where
  "zero_info = \<lparr>totalEntries = 0, usedEntries = 0, freeEntries = 0, totalBlocks = 0, usedBlocks = 0, freeBlocks = 0,
     freeBlocksSquared = 0, maxFreeContiguousBlocks = 0\<rparr>"

definition umm_info :: "u32 \<Rightarrow> umm \<Rightarrow> (u32 \<times> umm) option" where
  "umm_info ptr s =
     (let s = init_heap s; s = s\<lparr>ummHeapInfo := zero_info\<rparr>
      in info_loop ptr (UMM_NBLOCK 0 s AND UMM_BLOCKNO_MASK) s)"

section \<open>Metrics\<close>

definition umm_free_heap_size :: "umm \<Rightarrow> (u32 \<times> umm) option" where
  "umm_free_heap_size s = do { (p, s) \<leftarrow> umm_info 0 s; Some (freeBlocks (ummHeapInfo s) * umm_block_size, s) }"

definition umm_max_block_size :: "umm \<Rightarrow> (u32 \<times> umm) option" where
  "umm_max_block_size s = do { (p, s) \<leftarrow> umm_info 0 s; Some (maxFreeContiguousBlocks (ummHeapInfo s) * umm_block_size, s) }"

definition umm_usage_metric :: "umm \<Rightarrow> (int \<times> umm) option" where
  "umm_usage_metric s = do {
     (p, s) \<leftarrow> umm_info 0 s;
     let i = ummHeapInfo s;
     Some (if freeBlocks i \<noteq> 0 then sint (usedBlocks i * 100 div freeBlocks i) else - 1, s) }"

function sqrt_loop :: "u32 \<Rightarrow> u32 \<Rightarrow> u32 \<Rightarrow> u32" where
  "sqrt_loop n c g =
     (let g = (if n < g * g then g XOR c else g); c = shr c 1 in if c = 0 then g else sqrt_loop n c (g OR c))"
  by pat_completeness auto
termination
proof (relation "measure (\<lambda>(n, c, g). unat c)")
  fix n c g x y :: u32
  assume "y = shr c 1" "y \<noteq> 0"
  then have "unat c div 2 \<noteq> 0" by (metis unat_shr power_one_right unat_eq_zero)
  then show "((n, y, x OR y), n, c, g) \<in> measure (\<lambda>(n, c, g). unat c)" using \<open>y = shr c 1\<close> by (simp add: unat_shr)
qed simp

declare sqrt_loop.simps [simp del]

definition sqrt32 :: "u32 \<Rightarrow> u32" where
  "sqrt32 n = sqrt_loop n 0x8000 0x8000"

definition umm_fragmentation_metric :: "umm \<Rightarrow> (int \<times> umm) option" where
  "umm_fragmentation_metric s = do {
     (p, s) \<leftarrow> umm_info 0 s;
     let i = ummHeapInfo s;
     Some (if freeBlocks i = 0 then 0 else sint (100 - sqrt32 (freeBlocksSquared i) * 100 div freeBlocks i), s) }"

definition umm_free_heap_size_lw :: "umm \<Rightarrow> u32 \<times> umm" where
  "umm_free_heap_size_lw s = (let s = init_heap s in (free_blocks s * umm_block_size, s))"

section \<open>The square root\<close>

lemma set_bit_word:
  fixes w :: u32
  assumes "\<not> bit w k" and "k < 32"
  shows "w + 2 ^ k = w OR 2 ^ k" and "(w + 2 ^ k) XOR 2 ^ k = w"
proof -
  have b: "bit (2 ^ k :: u32) i \<longleftrightarrow> i = k" for i using assms(2) by (auto simp: bit_exp_iff)
  have "w AND 2 ^ k = 0" by (rule bit_word_eqI) (use assms b in \<open>auto simp: bit_and_iff\<close>)
  then show e: "w + 2 ^ k = w OR 2 ^ k" by (rule disjunctive_add_eq_or)
  show "(w + 2 ^ k) XOR 2 ^ k = w" unfolding e
    by (rule bit_word_eqI) (use assms b in \<open>auto simp: bit_or_iff bit_xor_iff\<close>)
qed

lemma bit_multiple:
  assumes "2 ^ Suc k dvd m"
  shows "\<not> bit (of_nat m :: u32) k"
proof -
  obtain q where "m = 2 ^ k * (2 * q)" using assms by (auto simp: mult.assoc mult.left_commute elim: dvdE)
  then have "m div 2 ^ k = 2 * q" by simp
  then have "\<not> bit m k" by (simp add: bit_iff_odd)
  then have "\<not> bit (word_of_nat m :: u32) k" by transfer (simp add: bit_take_bit_iff bit_of_nat_iff)
  then show ?thesis .
qed

lemma sqrt_fits:
  assumes "k < 16" and "2 ^ Suc k dvd hi" and "hi < 2 ^ 16"
  shows "hi + 2 ^ k < (2 ^ 16 :: nat)"
proof -
  obtain q where q: "hi = 2 ^ Suc k * q" using assms(2) by (auto elim: dvdE)
  have e: "(2 :: nat) ^ 16 = 2 ^ Suc k * 2 ^ (15 - k)" using assms(1) by (simp flip: power_add)
  have "2 ^ Suc k * q < 2 ^ Suc k * 2 ^ (15 - k)" using assms(3) unfolding q e .
  then have "q + 1 \<le> 2 ^ (15 - k)" by (simp only: mult_less_cancel1) simp
  then have "2 ^ Suc k * (q + 1) \<le> 2 ^ Suc k * 2 ^ (15 - k)" by (rule mult_le_mono2)
  then have "hi + 2 ^ Suc k \<le> 2 ^ 16" unfolding e q by (simp only: distrib_left mult_1_right)
  moreover have "(2 :: nat) ^ k < 2 ^ Suc k" by simp
  ultimately show ?thesis by linarith
qed

text \<open>One round: the bit stays set unless the square exceeds n.\<close>

lemma sqrt_round:
  assumes "k < 16" and "2 ^ Suc k dvd hi" and "hi < 2 ^ 16" and "hi\<^sup>2 \<le> unat n" and "unat n < (hi + 2 ^ Suc k)\<^sup>2"
  defines "g \<equiv> of_nat hi + 2 ^ k :: u32"
  obtains m where "(if n < g * g then g XOR 2 ^ k else g) = of_nat m" and "2 ^ k dvd m" and "m < 2 ^ 16"
    and "m\<^sup>2 \<le> unat n" and "unat n < (m + 2 ^ k)\<^sup>2"
proof -
  have fit: "hi + 2 ^ k < 65536" using sqrt_fits [OF assms(1-3)] by simp
  have g: "g = of_nat (hi + 2 ^ k)" by (simp add: g_def)
  have "(hi + 2 ^ k)\<^sup>2 \<le> 65535\<^sup>2" using fit by (intro power_mono) simp_all
  then have sq: "unat (g * g) = (hi + 2 ^ k)\<^sup>2"
    unfolding g of_nat_mult [symmetric] unat_of_nat by (simp add: power2_eq_square)
  have d: "2 ^ k dvd hi" using assms(2) by (rule dvd_trans [rotated]) simp
  show ?thesis
  proof (cases "n < g * g")
    case True
    have "g XOR 2 ^ k = of_nat hi"
      unfolding g_def using bit_multiple [OF assms(2)] assms(1) by (intro set_bit_word(2)) simp_all
    moreover have "unat n < (hi + 2 ^ k)\<^sup>2" using True sq by (simp add: word_less_nat_alt)
    ultimately show ?thesis using that [of hi] True d assms(3,4) by simp
  next
    case False
    have "(hi + 2 ^ k)\<^sup>2 \<le> unat n" using False sq by (simp add: word_less_nat_alt)
    moreover have "unat n < (hi + 2 ^ k + 2 ^ k)\<^sup>2" using assms(5) by (simp add: mult_2 add.assoc)
    ultimately show ?thesis using that [of "hi + 2 ^ k"] False d fit g by simp
  qed
qed

lemma sqrt_loop_correct:
  assumes "k < 16" and "2 ^ Suc k dvd hi" and "hi < 2 ^ 16" and "hi\<^sup>2 \<le> unat n" and "unat n < (hi + 2 ^ Suc k)\<^sup>2"
  shows "\<exists>r < 2 ^ 16. sqrt_loop n (2 ^ k) (of_nat hi + 2 ^ k) = of_nat r \<and> r\<^sup>2 \<le> unat n \<and> unat n < (r + 1)\<^sup>2"
  using assms
proof (induction k arbitrary: hi)
  case (0 hi)
  then obtain m where m: "(if n < (of_nat hi + 2 ^ 0) * (of_nat hi + 2 ^ 0) then (of_nat hi + 2 ^ 0) XOR 2 ^ 0 else of_nat hi + 2 ^ 0)
      = (of_nat m :: u32)" "m < 2 ^ 16" "m\<^sup>2 \<le> unat n" "unat n < (m + 2 ^ 0)\<^sup>2"
    by (rule sqrt_round)
  have "sqrt_loop n (2 ^ 0) (of_nat hi + 2 ^ 0) = of_nat m"
    by (subst sqrt_loop.simps, unfold Let_def m(1)) (simp add: shr_def)
  then show ?case using m by auto
next
  case (Suc k)
  from Suc.prems obtain m where m: "(if n < (of_nat hi + 2 ^ Suc k) * (of_nat hi + 2 ^ Suc k) then (of_nat hi + 2 ^ Suc k) XOR 2 ^ Suc k
      else of_nat hi + 2 ^ Suc k) = (of_nat m :: u32)" "2 ^ Suc k dvd m" "m < 2 ^ 16" "m\<^sup>2 \<le> unat n" "unat n < (m + 2 ^ Suc k)\<^sup>2"
    by (rule sqrt_round)
  have c: "shr (2 ^ Suc k :: u32) 1 = 2 ^ k"
  proof (rule bit_word_eqI)
    fix i assume "i < LENGTH(32)"
    then show "bit (shr (2 ^ Suc k :: u32) 1) i = bit (2 ^ k :: u32) i"
      unfolding bit_shr bit_exp_iff using Suc.prems(1) by auto
  qed
  have "bit (2 ^ k :: u32) k" using Suc.prems(1) by (simp add: bit_exp_iff)
  then have z: "(2 ^ k :: u32) \<noteq> 0" by (metis bit_0_eq bot_apply bot_bool_def)
  have o: "of_nat m OR 2 ^ k = (of_nat m + 2 ^ k :: u32)"
    using bit_multiple [OF m(2)] Suc.prems(1) by (intro set_bit_word(1) [symmetric]) simp_all
  have "sqrt_loop n (2 ^ Suc k) (of_nat hi + 2 ^ Suc k) = sqrt_loop n (2 ^ k) (of_nat m + 2 ^ k)"
    by (subst sqrt_loop.simps, unfold Let_def m(1) c o) (simp only: z if_False)
  then show ?case using Suc.IH [OF _ m(2-5)] Suc.prems(1) by simp
qed

text \<open>The square root of the metrics is exact for every 32-bit number: the largest integer whose square does not
  exceed it.\<close>

theorem sqrt32_correct: "(unat (sqrt32 n))\<^sup>2 \<le> unat n \<and> unat n < (unat (sqrt32 n) + 1)\<^sup>2"
proof -
  have "\<exists>r < 2 ^ 16. sqrt_loop n (2 ^ 15) (of_nat 0 + 2 ^ 15) = of_nat r \<and> r\<^sup>2 \<le> unat n \<and> unat n < (r + 1)\<^sup>2"
    by (rule sqrt_loop_correct) simp_all
  then show ?thesis by (auto simp: sqrt32_def unat_of_nat)
qed

section \<open>What the walk counts\<close>

definition blocks_of :: "umm \<Rightarrow> u16 \<Rightarrow> nat" where
  "blocks_of s c = unat (next_block c s) - unat c"

definition free_sizes :: "umm \<Rightarrow> u16 list \<Rightarrow> nat list" where
  "free_sizes s cs = map (blocks_of s) (filter (\<lambda>c. is_free c s) cs)"

definition used_sizes :: "umm \<Rightarrow> u16 list \<Rightarrow> nat list" where
  "used_sizes s cs = map (blocks_of s) (filter (\<lambda>c. \<not> is_free c s) cs)"

definition add_info :: "umm \<Rightarrow> u16 list \<Rightarrow> UMM_HEAP_INFO \<Rightarrow> UMM_HEAP_INFO" where
  "add_info s cs i =
     \<lparr>totalEntries = totalEntries i + of_nat (length cs),
      usedEntries = usedEntries i + of_nat (length (used_sizes s cs)),
      freeEntries = freeEntries i + of_nat (length (free_sizes s cs)),
      totalBlocks = totalBlocks i + of_nat (sum_list (map (blocks_of s) cs)),
      usedBlocks = usedBlocks i + of_nat (sum_list (used_sizes s cs)),
      freeBlocks = freeBlocks i + of_nat (sum_list (free_sizes s cs)),
      freeBlocksSquared = freeBlocksSquared i + of_nat (\<Sum>n \<leftarrow> free_sizes s cs. n\<^sup>2),
      maxFreeContiguousBlocks = fold (\<lambda>n m. max m (of_nat n)) (free_sizes s cs) (maxFreeContiguousBlocks i)\<rparr>"

lemma info_reads [simp]:
  "link f b (s\<lparr>ummHeapInfo := i\<rparr>) = link f b s" "UMM_BLOCK b (s\<lparr>ummHeapInfo := i\<rparr>) = UMM_BLOCK b s"
  "next_block b (s\<lparr>ummHeapInfo := i\<rparr>) = next_block b s" "is_free b (s\<lparr>ummHeapInfo := i\<rparr>) = is_free b s"
  "blocks_of (s\<lparr>ummHeapInfo := i\<rparr>) = blocks_of s"
  by (simp_all add: link_def UMM_BLOCK_def next_block_def is_free_def blocks_of_def fun_eq_iff)

lemma info_lists [simp]:
  "free_sizes (s\<lparr>ummHeapInfo := i\<rparr>) cs = free_sizes s cs" "used_sizes (s\<lparr>ummHeapInfo := i\<rparr>) cs = used_sizes s cs"
  "add_info (s\<lparr>ummHeapInfo := i\<rparr>) cs = add_info s cs"
  by (simp_all add: free_sizes_def used_sizes_def add_info_def fun_eq_iff)

lemma info_blocks_from [simp]: "blocks_from (s\<lparr>ummHeapInfo := i\<rparr>) b bs = blocks_from s b bs"
  by (induction bs arbitrary: b) simp_all

lemma add_info_Nil: "add_info s [] i = i"
  by (simp add: add_info_def free_sizes_def used_sizes_def)

lemma add_info_Cons: "add_info s (c # cs) i = add_info s cs (add_info s [c] i)"
  by (simp add: add_info_def free_sizes_def used_sizes_def algebra_simps)

lemma count_block_eq:
  assumes "c < next_block c s"
  shows "count_block c s = s\<lparr>ummHeapInfo := add_info s [c] (ummHeapInfo s)\<rparr>"
proof -
  have "(ucast (UMM_NBLOCK c s AND UMM_BLOCKNO_MASK) - ucast c :: u32) = of_nat (blocks_of s c)"
  proof -
    have "unat c \<le> unat (next_block c s)" using assms by (simp add: word_less_nat_alt)
    then have "(of_nat (blocks_of s c) :: u32) = of_nat (unat (next_block c s)) - of_nat (unat c)"
      by (simp add: blocks_of_def of_nat_diff)
    then show ?thesis by (simp add: next_block_def unsigned_of_nat)
  qed
  then show ?thesis
    by (simp add: count_block_def Let_def add_info_def is_free_def free_sizes_def used_sizes_def power2_eq_square max_def
      not_le [symmetric])
qed

lemma info_loop_walk:
  assumes "blocks_from s b bs" and "\<forall>c \<in> set (butlast (b # bs)). is_free c s \<longrightarrow> ptr \<noteq> UMM_BLOCK c s"
  shows "info_loop ptr b s = Some (0, s\<lparr>ummHeapInfo := add_info s (butlast (b # bs)) (ummHeapInfo s)\<rparr>)"
  using assms
proof (induction bs arbitrary: b s)
  case Nil
  then show ?case by (subst info_loop.simps) (simp add: next_block_def add_info_Nil)
next
  case (Cons c bs)
  then have n: "next_block b s = c" "b < c" by simp_all
  then have "c \<noteq> 0" by (metis word_not_simps(1))
  let ?s = "s\<lparr>ummHeapInfo := add_info s [b] (ummHeapInfo s)\<rparr>"
  have "\<not> (is_free b s \<and> ptr = UMM_BLOCK b s)" using Cons.prems(2) by auto
  then have "info_loop ptr b s = info_loop ptr c ?s"
    using n \<open>c \<noteq> 0\<close> count_block_eq [of b s]
    by (subst info_loop.simps) (auto simp: Let_def next_block_def is_free_def)
  moreover have "info_loop ptr c ?s = Some (0, ?s\<lparr>ummHeapInfo := add_info ?s (butlast (c # bs)) (ummHeapInfo ?s)\<rparr>)"
    using Cons.prems by (intro Cons.IH) auto
  moreover have "add_info s (butlast (b # c # bs)) i = add_info s (butlast (c # bs)) (add_info s [b] i)" for i
    using add_info_Cons [of s b "butlast (c # bs)"] by simp
  ultimately show ?case by (simp del: butlast.simps)
qed

lemma info_loop_stops:
  assumes "blocks_from s b bs" and "c \<in> set (butlast (b # bs))" and "is_free c s"
  shows "\<exists>s'. info_loop (UMM_BLOCK c s) b s = Some (UMM_BLOCK c s, s')"
  using assms
proof (induction bs arbitrary: b s)
  case (Cons d bs)
  then have n: "next_block b s = d" "b < d" by simp_all
  then have "d \<noteq> 0" by (metis word_not_simps(1))
  let ?s = "s\<lparr>ummHeapInfo := add_info s [b] (ummHeapInfo s)\<rparr>"
  show ?case
  proof (cases "is_free b s \<and> UMM_BLOCK c s = UMM_BLOCK b s")
    case True
    then show ?thesis using n \<open>d \<noteq> 0\<close> count_block_eq [of b s]
      by (subst info_loop.simps) (simp add: Let_def next_block_def is_free_def)
  next
    case False
    then have "info_loop (UMM_BLOCK c s) b s = info_loop (UMM_BLOCK c s) d ?s"
      using n \<open>d \<noteq> 0\<close> count_block_eq [of b s]
      by (subst info_loop.simps) (auto simp: Let_def next_block_def is_free_def)
    moreover have "c \<in> set (butlast (d # bs))" using False Cons.prems(2,3) by auto
    then have "\<exists>s'. info_loop (UMM_BLOCK c ?s) d ?s = Some (UMM_BLOCK c ?s, s')"
      using Cons.prems by (intro Cons.IH) simp_all
    ultimately show ?thesis by simp
  qed
qed simp

lemma blocks_telescope: "blocks_from s b bs \<Longrightarrow> sum_list (map (blocks_of s) (butlast (b # bs))) = unat (last (b # bs)) - unat b"
proof (induction bs arbitrary: b)
  case (Cons c bs)
  have "c \<le> last (c # bs)"
    using Cons.prems blocks_from_less [of s c bs "last bs"] by (cases bs) (auto intro: less_imp_le)
  then show ?case using Cons by (simp add: blocks_of_def word_le_nat_alt word_less_nat_alt split: if_splits)
qed simp

lemma blocks_distinct: "blocks_from s b bs \<Longrightarrow> distinct (b # bs)"
proof (induction bs arbitrary: b)
  case (Cons c bs)
  have "b \<notin> set (c # bs)" using blocks_from_less [OF Cons.prems] by blast
  moreover have "distinct (c # bs)" using Cons.prems by (intro Cons.IH) simp
  ultimately show ?case by simp
qed simp

lemma blocks_few: "blocks_from s b bs \<Longrightarrow> length bs < 65536"
proof -
  assume "blocks_from s b bs"
  then have "length (b # bs) = card (set (b # bs))" by (intro distinct_card [symmetric] blocks_distinct)
  also have "\<dots> \<le> card (UNIV :: u16 set)" by (intro card_mono) simp_all
  finally show ?thesis by (simp add: card_word)
qed

lemma sizes_sum: "sum_list (free_sizes s cs) + sum_list (used_sizes s cs) = sum_list (map (blocks_of s) cs)"
  "length (free_sizes s cs) + length (used_sizes s cs) = length cs"
  by (induction cs) (simp_all add: free_sizes_def used_sizes_def)

lemma squares_le: "(\<Sum>n \<leftarrow> ns. n\<^sup>2) \<le> (sum_list ns)\<^sup>2" for ns :: "nat list"
  by (induction ns) (auto simp: power2_eq_square algebra_simps)

definition heap_info :: "umm \<Rightarrow> u16 list \<Rightarrow> UMM_HEAP_INFO" where
  "heap_info s bs = add_info s (butlast bs) zero_info"

lemma info_value:
  assumes "umm_heap s \<noteq> 0" and "blocks_from s 0 (b # bs)" and "\<forall>c \<in> set (b # bs). is_free c s \<longrightarrow> ptr \<noteq> UMM_BLOCK c s"
  shows "umm_info ptr s = Some (0, s\<lparr>ummHeapInfo := heap_info s (b # bs)\<rparr>)"
proof -
  have nx: "next_block 0 s = b" "blocks_from s b bs" using assms(2) by simp_all
  have np: "\<forall>c \<in> set (butlast (b # bs)). is_free c s \<longrightarrow> ptr \<noteq> UMM_BLOCK c s" using assms(3) in_set_butlastD by fast
  have "umm_info ptr s = info_loop ptr b (s\<lparr>ummHeapInfo := zero_info\<rparr>)"
    using assms(1) nx(1) by (simp add: umm_info_def init_heap_def next_block_def Let_def)
  also have "\<dots> = Some (0, s\<lparr>ummHeapInfo := heap_info s (b # bs)\<rparr>)"
    using np nx(2) unfolding heap_info_def by (subst info_loop_walk [of _ _ bs]) (simp_all del: butlast.simps)
  finally show ?thesis .
qed

text \<open>On a heap whose blocks are linked, umm_info ends, returns NULL unless its argument is a free block, leaves the heap
  alone and counts: as many blocks as the last has over the first, split into used and free, with the squares of the free
  sizes, and no count wraps around.\<close>

theorem info_counts:
  assumes "umm_heap s \<noteq> 0" and "blocks_from s 0 (b # bs)" and "\<forall>c \<in> set (b # bs). is_free c s \<longrightarrow> ptr \<noteq> UMM_BLOCK c s"
  shows "\<exists>i. umm_info ptr s = Some (0, s\<lparr>ummHeapInfo := i\<rparr>) \<and>
    unat (totalBlocks i) = unat (last (b # bs)) - unat b \<and>
    unat (usedBlocks i) = sum_list (used_sizes s (butlast (b # bs))) \<and>
    unat (freeBlocks i) = sum_list (free_sizes s (butlast (b # bs))) \<and>
    unat (freeBlocksSquared i) = (\<Sum>n \<leftarrow> free_sizes s (butlast (b # bs)). n\<^sup>2) \<and>
    unat (totalEntries i) = length bs \<and> unat (usedEntries i) = length (used_sizes s (butlast (b # bs))) \<and>
    unat (freeEntries i) = length (free_sizes s (butlast (b # bs)))"
proof -
  let ?cs = "butlast (b # bs)"
  let ?i = "add_info s ?cs zero_info"
  have nx: "blocks_from s b bs" using assms(2) by simp
  have r: "umm_info ptr s = Some (0, s\<lparr>ummHeapInfo := ?i\<rparr>)" using info_value [OF assms] by (simp only: heap_info_def)
  have total: "sum_list (map (blocks_of s) ?cs) = unat (last (b # bs)) - unat b" by (rule blocks_telescope [OF nx])
  have "unat (last (b # bs)) < 65536" using unsigned_less [of "last (b # bs)"] by simp
  then have t: "sum_list (map (blocks_of s) ?cs) < 65536" using total by simp
  then have f: "sum_list (free_sizes s ?cs) < 65536" and u: "sum_list (used_sizes s ?cs) < 65536"
    using sizes_sum(1) [of s ?cs] by simp_all
  have "(sum_list (free_sizes s ?cs))\<^sup>2 \<le> 65535\<^sup>2" using f by (intro power_mono) simp_all
  then have q: "(\<Sum>n \<leftarrow> free_sizes s ?cs. n\<^sup>2) < 4294967296" using squares_le [of "free_sizes s ?cs"] by simp
  have n: "length bs < 65536" by (rule blocks_few [OF nx])
  then have n': "length (free_sizes s ?cs) < 65536" "length (used_sizes s ?cs) < 65536"
    using sizes_sum(2) [of s ?cs] length_butlast [of "b # bs"] by (simp_all del: butlast.simps)
  have "unat (of_nat k :: u32) = k" if "k < 4294967296" for k using that by (simp add: unat_of_nat)
  then show ?thesis using r t f u q n n' total
    by (intro exI [of _ ?i]) (simp add: add_info_def zero_info_def del: butlast.simps last.simps)
qed

text \<open>A heap of eight blocks: two used in 1, four free from 3, the end in 7.\<close>

definition small_heap :: umm where
  "small_heap = set_NFREE 0 3 (set_NBLOCK 0 1 (set_NBLOCK 1 3 (set_PBLOCK 3 1 (set_NBLOCK 3 0x8007 (set_PBLOCK 7 3 blank_umm)))))"

lemma small_heap_blocks: "blocks_from small_heap 0 [1, 3, 7]" "is_free 3 small_heap" "\<not> is_free 1 small_heap" "\<not> is_free 7 small_heap"
  by (simp_all add: small_heap_def next_block_def is_free_def UMM_BLOCKNO_MASK_def UMM_FREELIST_MASK_def)

lemma info_counts_witness:
  "\<exists>i. umm_info 0 small_heap = Some (0, small_heap\<lparr>ummHeapInfo := i\<rparr>) \<and> unat (totalBlocks i) = 6 \<and> unat (freeBlocks i) = 4"
proof -
  have s: "umm_heap small_heap \<noteq> 0" "\<forall>c \<in> set [1, 3, 7]. is_free c small_heap \<longrightarrow> 0 \<noteq> UMM_BLOCK c small_heap"
    by (auto simp: small_heap_def UMM_BLOCK_def)
  have "sum_list (free_sizes small_heap [1, 3]) = 4"
    using small_heap_blocks by (simp add: free_sizes_def blocks_of_def)
  then show ?thesis using info_counts [OF s(1) small_heap_blocks(1) s(2)] by auto
qed

section \<open>The metrics\<close>

lemma one_element: "xs \<noteq> [] \<Longrightarrow> length xs \<le> 1 \<Longrightarrow> \<exists>x. xs = [x]"
  by (cases xs) auto

lemma percentage:
  fixes r f :: nat
  assumes "r \<le> f" and "0 < f" and "f < 65536"
  shows "sint (100 - (of_nat r * 100 div of_nat f :: u32)) = 100 - int (r * 100 div f)"
proof -
  have "r * 100 div f \<le> f * 100 div f" using assms(1) by (intro div_le_mono) simp
  then have k: "r * 100 div f \<le> 100" using assms(2) by simp
  have "unat (of_nat r * 100 div of_nat f :: u32) = r * 100 div f"
    using assms by (simp add: unat_div unat_word_ariths unat_of_nat)
  then have e: "of_nat r * 100 div of_nat f = (of_nat (r * 100 div f) :: u32)" by (metis of_nat_unat ucast_id)
  have s: "sint (of_nat m :: u32) = int m" if "m \<le> 100" for m using that by (simp add: signed_of_nat signed_take_bit_int_eq_self)
  have "100 - of_nat (r * 100 div f) = (of_nat (100 - r * 100 div f) :: u32)" using k by (simp add: of_nat_diff)
  then have "sint (100 - of_nat (r * 100 div f) :: u32) = int (100 - r * 100 div f)" using s [of "100 - r * 100 div f"] by (simp only: diff_le_self)
  then show ?thesis unfolding e using k by (simp only: of_nat_diff of_nat_numeral)
qed

text \<open>The fragmentation metric of such a heap is between 0 and 100, and 0 when at most one block is free.\<close>

theorem fragmentation_percentage:
  assumes "umm_heap s \<noteq> 0" and "blocks_from s 0 (b # bs)" and "\<forall>c \<in> set (b # bs). is_free c s \<longrightarrow> UMM_BLOCK c s \<noteq> 0"
  shows "\<exists>v s'. umm_fragmentation_metric s = Some (v, s') \<and> 0 \<le> v \<and> v \<le> 100 \<and>
    (length (free_sizes s (butlast (b # bs))) \<le> 1 \<longrightarrow> v = 0)"
proof -
  let ?ns = "free_sizes s (butlast (b # bs))"
  have "\<forall>c \<in> set (b # bs). is_free c s \<longrightarrow> 0 \<noteq> UMM_BLOCK c s" using assms(3) by auto
  from info_counts [OF assms(1,2) this] obtain i where i: "umm_info 0 s = Some (0, s\<lparr>ummHeapInfo := i\<rparr>)"
    "unat (freeBlocks i) = sum_list ?ns" "unat (freeBlocksSquared i) = (\<Sum>n \<leftarrow> ?ns. n\<^sup>2)"
    "unat (totalBlocks i) = unat (last (b # bs)) - unat b" by blast
  define r where "r = unat (sqrt32 (freeBlocksSquared i))"
  have r: "r\<^sup>2 \<le> (\<Sum>n \<leftarrow> ?ns. n\<^sup>2)" "(\<Sum>n \<leftarrow> ?ns. n\<^sup>2) < (r + 1)\<^sup>2"
    using sqrt32_correct [of "freeBlocksSquared i"] i(3) by (simp_all add: r_def)
  have "freeBlocks i = of_nat (unat (freeBlocks i))" by simp
  then have w: "sqrt32 (freeBlocksSquared i) = of_nat r" "freeBlocks i = of_nat (sum_list ?ns)"
    unfolding i(2) by (simp_all only: r_def of_nat_unat ucast_id)
  have m: "umm_fragmentation_metric s =
      Some (if freeBlocks i = 0 then 0 else sint (100 - sqrt32 (freeBlocksSquared i) * 100 div freeBlocks i), s\<lparr>ummHeapInfo := i\<rparr>)"
    by (simp add: umm_fragmentation_metric_def Let_def i(1))
  show ?thesis
  proof (cases "sum_list ?ns = 0")
    case True
    then have "freeBlocks i = of_nat 0" using w(2) by metis
    then show ?thesis using i(1) by (simp add: umm_fragmentation_metric_def Let_def)
  next
    case False
    have f: "sum_list ?ns < 65536"
    proof -
      have "sum_list ?ns \<le> sum_list (map (blocks_of s) (butlast (b # bs)))" using sizes_sum(1) [of s "butlast (b # bs)"] by linarith
      also have "\<dots> = unat (last (b # bs)) - unat b" using assms(2) by (intro blocks_telescope) simp
      also have "\<dots> \<le> unat (last (b # bs))" by (rule diff_le_self)
      also have "\<dots> < 2 ^ LENGTH(16)" by (rule unsigned_less)
      finally show ?thesis by simp
    qed
    have "r\<^sup>2 \<le> (sum_list ?ns)\<^sup>2" using r(1) squares_le by (rule order_trans)
    then have le: "r \<le> sum_list ?ns" by (simp only: power2_nat_le_eq_le)
    have "freeBlocks i \<noteq> 0" using False unfolding i(2) [symmetric] unat_eq_zero .
    moreover have "0 < sum_list ?ns" using False by linarith
    then have "sint (100 - sqrt32 (freeBlocksSquared i) * 100 div freeBlocks i) = 100 - int (r * 100 div sum_list ?ns)"
      unfolding w by (rule percentage [OF le _ f])
    ultimately have "umm_fragmentation_metric s = Some (100 - int (r * 100 div sum_list ?ns), s\<lparr>ummHeapInfo := i\<rparr>)"
      unfolding m by (simp only: if_False)
    moreover have "r * 100 div sum_list ?ns \<le> sum_list ?ns * 100 div sum_list ?ns" using le by (intro div_le_mono) simp
    then have "r * 100 div sum_list ?ns \<le> 100" unfolding nonzero_mult_div_cancel_left [OF False] .
    moreover have "r * 100 div sum_list ?ns = 100" if "length ?ns \<le> 1"
    proof -
      have "?ns \<noteq> []" using False by (metis sum_list.Nil)
      from one_element [OF this that] obtain n where n: "?ns = [n]" by blast
      then have "r\<^sup>2 \<le> n\<^sup>2" "n\<^sup>2 < (r + 1)\<^sup>2" using r by simp_all
      then have "r \<le> n" "n < r + 1" by (simp_all only: power2_nat_le_eq_le) (metis power2_less_imp_less zero_le)
      then have "r = n" by simp
      then show ?thesis using n False by simp
    qed
    ultimately show ?thesis by auto
  qed
qed

lemma fragmentation_percentage_witness: "\<exists>s'. umm_fragmentation_metric small_heap = Some (0, s')"
proof -
  have s: "umm_heap small_heap \<noteq> 0" "\<forall>c \<in> set [1, 3, 7]. is_free c small_heap \<longrightarrow> UMM_BLOCK c small_heap \<noteq> 0"
    by (auto simp: small_heap_def UMM_BLOCK_def)
  have "length (free_sizes small_heap [1, 3]) \<le> 1" using small_heap_blocks by (simp add: free_sizes_def)
  then show ?thesis using fragmentation_percentage [OF s(1) small_heap_blocks(1) s(2)] by auto
qed

end
