(* ===== verification/Umm_Poison.thy ===== *)
theory Umm_Poison
  imports Umm_Info
begin

text \<open>
  umm_poison.c and the poison functions of umm_local.c: guard bytes before and after what the program gets.
  Messages leave no trace; a panic or abort is \<open>Inl ()\<close>.  The argument \<open>lite\<close> is UMM_POISON_CHECK_LITE, with which umm_malloc too
  checks the neighbours of the block it selects: \<open>umm_malloc_lite\<close> and the functions named likewise are those of umm_malloc.cpp and
  umm_poison.c in a build with this macro where \<open>lite\<close> holds, and without it where not; the functions of Umm_Malloc and the plain ones
  here are those of a build without it.
\<close>

section \<open>Guards\<close>

definition POISON_BYTE :: u8 where "POISON_BYTE = 0xa5"
definition UMM_POISON_SIZE_BEFORE :: nat where "UMM_POISON_SIZE_BEFORE = 4"
definition UMM_POISON_SIZE_AFTER :: nat where "UMM_POISON_SIZE_AFTER = 4"

text \<open>sizeof(UMM_POISONED_BLOCK_LEN_TYPE)\<close>

definition LEN_SIZE :: nat where "LEN_SIZE = 4"

definition read32 :: "u32 \<Rightarrow> umm \<Rightarrow> u32" where
  "read32 p s = ucast (ram_bytes s p) OR shl (ucast (ram_bytes s (p + 1))) 8 OR shl (ucast (ram_bytes s (p + 2))) 16 OR
     shl (ucast (ram_bytes s (p + 3))) 24"

definition write32 :: "u32 \<Rightarrow> u32 \<Rightarrow> umm \<Rightarrow> umm" where
  "write32 p v s = s\<lparr>ram_bytes := (ram_bytes s)(p := ucast v, p + 1 := ucast (shr v 8), p + 2 := ucast (shr v 16),
     p + 3 := ucast (shr v 24))\<rparr>"

definition poison_size :: "u32 \<Rightarrow> u32" where
  "poison_size n = (if n \<noteq> 0 then of_nat (UMM_POISON_SIZE_BEFORE + LEN_SIZE + UMM_POISON_SIZE_AFTER) else 0)"

definition put_poison :: "u32 \<Rightarrow> nat \<Rightarrow> umm \<Rightarrow> umm" where
  "put_poison ptr n s = memset ptr POISON_BYTE (of_nat n) s"

definition check_poison :: "u32 \<Rightarrow> nat \<Rightarrow> umm \<Rightarrow> bool" where
  "check_poison ptr n s \<longleftrightarrow> list_all (\<lambda>i. ram_bytes s (ptr + of_nat i) = POISON_BYTE) [0..<n]"

definition check_poison_block :: "u16 \<Rightarrow> umm \<Rightarrow> bool" where
  "check_poison_block c s \<longleftrightarrow>
     (if UMM_NBLOCK c s AND UMM_FREELIST_MASK \<noteq> 0 then True
      else
        (let pc = UMM_DATA c s in
         if \<not> check_poison (pc + of_nat LEN_SIZE) UMM_POISON_SIZE_BEFORE s then False
         else check_poison (pc + read32 pc s - of_nat UMM_POISON_SIZE_AFTER) UMM_POISON_SIZE_AFTER s))"

definition get_poisoned :: "u32 \<Rightarrow> u32 \<Rightarrow> umm \<Rightarrow> u32 \<times> umm" where
  "get_poisoned ptr size_w_poison s =
     (if size_w_poison \<noteq> 0 \<and> ptr \<noteq> 0 then
        (let s = put_poison (ptr + of_nat LEN_SIZE) UMM_POISON_SIZE_BEFORE s;
             s = put_poison (ptr + size_w_poison - of_nat UMM_POISON_SIZE_AFTER) UMM_POISON_SIZE_AFTER s;
             s = write32 ptr size_w_poison s
         in (ptr + of_nat (LEN_SIZE + UMM_POISON_SIZE_BEFORE), s))
      else (ptr, s))"

text \<open>The verdict of check_poison_block is not used; it writes a message.\<close>

definition get_unpoisoned :: "u32 \<Rightarrow> umm \<Rightarrow> u32" where
  "get_unpoisoned ptr s = (if ptr \<noteq> 0 then ptr - of_nat (LEN_SIZE + UMM_POISON_SIZE_BEFORE) else ptr)"

section \<open>The allocator with guards\<close>

definition umm_poison_malloc :: "u32 \<Rightarrow> umm \<Rightarrow> (u32 \<times> umm) option" where
  "umm_poison_malloc n s = do {
     let n = n + poison_size n;
     (ret, s) \<leftarrow> umm_malloc n s;
     Some (get_poisoned ret n s) }"

definition umm_poison_calloc :: "u32 \<Rightarrow> u32 \<Rightarrow> umm \<Rightarrow> (u32 \<times> umm) option" where
  "umm_poison_calloc num item_size s = do {
     let n = item_size * num;
     let n = n + poison_size n;
     (ret, s) \<leftarrow> umm_malloc n s;
     let s = (if ret \<noteq> 0 then memset ret 0 n s else s);
     Some (get_poisoned ret n s) }"

definition umm_poison_realloc :: "u32 \<Rightarrow> u32 \<Rightarrow> umm \<Rightarrow> (u32 \<times> umm) option" where
  "umm_poison_realloc ptr n s = do {
     let ptr = get_unpoisoned ptr s;
     let n = n + poison_size n;
     (ret, s) \<leftarrow> umm_realloc ptr n s;
     Some (get_poisoned ret n s) }"

definition umm_poison_free :: "u32 \<Rightarrow> umm \<Rightarrow> umm" where
  "umm_poison_free ptr s = umm_free (get_unpoisoned ptr s) s"

partial_function (option) poison_loop :: "u16 \<Rightarrow> umm \<Rightarrow> bool option" where
  "poison_loop cur s =
     (if UMM_NBLOCK cur s AND UMM_BLOCKNO_MASK = 0 then Some True
      else if UMM_NBLOCK cur s AND UMM_FREELIST_MASK = 0 \<and> \<not> check_poison_block cur s then Some False
      else poison_loop (UMM_NBLOCK cur s AND UMM_BLOCKNO_MASK) s)"

definition umm_poison_check :: "umm \<Rightarrow> (bool \<times> umm) option" where
  "umm_poison_check s = do {
     let s = init_heap s;
     ok \<leftarrow> poison_loop (UMM_NBLOCK 0 s AND UMM_BLOCKNO_MASK) s;
     Some (ok, s) }"

section \<open>The neighbours of a block\<close>

partial_function (option) poison_before :: "u16 \<Rightarrow> umm \<Rightarrow> bool option" where
  "poison_before c s =
     (if c = 0 \<or> UMM_NBLOCK c s AND UMM_BLOCKNO_MASK = 0 then Some True
      else if UMM_NBLOCK c s AND UMM_FREELIST_MASK = 0 then Some (check_poison_block c s)
      else poison_before (UMM_PBLOCK c s AND UMM_BLOCKNO_MASK) s)"

partial_function (option) poison_after :: "u16 \<Rightarrow> umm \<Rightarrow> bool option" where
  "poison_after c s =
     (if UMM_NBLOCK c s AND UMM_BLOCKNO_MASK = 0 then Some True
      else if UMM_NBLOCK c s AND UMM_FREELIST_MASK = 0 then Some (check_poison_block c s)
      else poison_after (UMM_NBLOCK c s AND UMM_BLOCKNO_MASK) s)"

definition check_poison_neighbors :: "u16 \<Rightarrow> umm \<Rightarrow> bool option" where
  "check_poison_neighbors cur s =
     (if cur = 0 then Some True
      else do {
        ok \<leftarrow> poison_before (UMM_PBLOCK cur s AND UMM_BLOCKNO_MASK) s;
        if \<not> ok then Some False else poison_after (UMM_NBLOCK cur s AND UMM_BLOCKNO_MASK) s })"

definition get_unpoisoned_check_neighbors :: "bool \<Rightarrow> u32 \<Rightarrow> umm \<Rightarrow> (unit + u32) option" where
  "get_unpoisoned_check_neighbors lite vptr s =
     (if vptr \<noteq> 0 then
        (let ptr = vptr - of_nat (LEN_SIZE + UMM_POISON_SIZE_BEFORE) in
         if lite then do {
           let c = block_of ptr s;
           poison \<leftarrow> (if check_poison_block c s then check_poison_neighbors c s else Some False);
           Some (if \<not> poison then Inl () else Inr ptr) }
         else Some (Inr ptr))
      else Some (Inr vptr))"

text \<open>The macro that umm_malloc_core calls: \<open>False\<close> is a panic.\<close>

definition POISON_CHECK_NEIGHBORS :: "bool \<Rightarrow> u16 \<Rightarrow> umm \<Rightarrow> bool option" where
  "POISON_CHECK_NEIGHBORS lite c s = (if lite then check_poison_neighbors c s else Some True)"

definition umm_malloc_core_lite :: "bool \<Rightarrow> u32 \<Rightarrow> umm \<Rightarrow> (unit + u32 \<times> umm) option" where
  "umm_malloc_core_lite lite sz s = do {
     let blocks = umm_blocks sz;
     (blockSize, bestBlock, bestSize) \<leftarrow> best_fit blocks (UMM_NFREE 0 s) 0 (UMM_NFREE 0 s) 0x7FFF s;
     let (cf, blockSize) = (if bestSize \<noteq> 0x7FFF then (bestBlock, bestSize) else (0, blockSize));
     ok \<leftarrow> POISON_CHECK_NEIGHBORS lite cf s;
     if \<not> ok then Some (Inl ())
     else if UMM_NBLOCK cf s AND UMM_BLOCKNO_MASK \<noteq> 0 \<and> blocks \<le> blockSize then
       (let s = take_block cf blockSize blocks s;
            s = s\<lparr>free_blocks := free_blocks s - ucast blocks\<rparr>
        in Some (Inr (UMM_DATA cf s, s)))
     else Some (Inr (0, s\<lparr>oom_count := oom_count s + 1\<rparr>)) }"

definition umm_malloc_lite :: "bool \<Rightarrow> u32 \<Rightarrow> umm \<Rightarrow> (unit + u32 \<times> umm) option" where
  "umm_malloc_lite lite sz s = (let s = init_heap s in if sz = 0 then Some (Inr (0, s)) else umm_malloc_core_lite lite sz s)"

definition umm_realloc_lite :: "bool \<Rightarrow> u32 \<Rightarrow> u32 \<Rightarrow> umm \<Rightarrow> (unit + u32 \<times> umm) option" where
  "umm_realloc_lite lite ptr sz s =
     (let s = init_heap s in
      if ptr = 0 then umm_malloc_lite lite sz s
      else if sz = 0 then Some (Inr (0, umm_free ptr s))
      else do {
        let blocks = umm_blocks sz;
        let c = block_of ptr s;
        let blockSize = UMM_NBLOCK c s - c;
        let curSize = ucast blockSize * 8 - 4;
        let n = UMM_NBLOCK c s;
        let nextBlockSize = (if UMM_NBLOCK n s AND UMM_FREELIST_MASK \<noteq> 0 then (UMM_NBLOCK n s AND UMM_BLOCKNO_MASK) - n else 0);
        let p = UMM_PBLOCK c s;
        let prevBlockSize = (if UMM_NBLOCK p s AND UMM_FREELIST_MASK \<noteq> 0 then c - p else 0);
        r \<leftarrow>
          (if prevBlockSize \<noteq> 0 \<and> unat blocks \<le> unat prevBlockSize + unat blockSize + unat nextBlockSize then
             (let (c, blockSize, s) = take_prev_and_next c blocks blockSize prevBlockSize nextBlockSize s
              in Some (Inr (UMM_DATA c s, c, blockSize, memmove (UMM_DATA c s) ptr curSize s)))
           else if blocks \<le> blockSize then Some (Inr (ptr, c, blockSize, s))
           else if unat blocks \<le> unat blockSize + unat nextBlockSize then
             (let s = umm_assimilate_up c s
              in Some (Inr (ptr, c, blockSize + nextBlockSize, s\<lparr>free_blocks := free_blocks s - ucast nextBlockSize\<rparr>)))
           else do {
             x \<leftarrow> umm_malloc_core_lite lite sz s;
             Some (case x of
                 Inl e \<Rightarrow> Inl e
               | Inr (q, s) \<Rightarrow> Inr (q, c, blocks,
                   if q \<noteq> 0 then umm_free_core ptr (memmove q ptr curSize s) else s\<lparr>oom_count := oom_count s + 1\<rparr>)) });
        Some (case r of
            Inl e \<Rightarrow> Inl e
          | Inr (ptr, c, blockSize, s) \<Rightarrow> Inr (ptr,
              if blocks < blockSize then (let s = umm_split_block c blocks 0 s in umm_free_core (UMM_DATA (c + blocks) s) s)
              else s)) })"

definition umm_poison_malloc_lite :: "bool \<Rightarrow> u32 \<Rightarrow> umm \<Rightarrow> (unit + u32 \<times> umm) option" where
  "umm_poison_malloc_lite lite n s = do {
     let n = n + poison_size n;
     r \<leftarrow> umm_malloc_lite lite n s;
     Some (case r of Inl e \<Rightarrow> Inl e | Inr (ret, s) \<Rightarrow> Inr (get_poisoned ret n s)) }"

definition umm_poison_calloc_lite :: "bool \<Rightarrow> u32 \<Rightarrow> u32 \<Rightarrow> umm \<Rightarrow> (unit + u32 \<times> umm) option" where
  "umm_poison_calloc_lite lite num item_size s = do {
     let n = item_size * num;
     let n = n + poison_size n;
     r \<leftarrow> umm_malloc_lite lite n s;
     Some (case r of
         Inl e \<Rightarrow> Inl e
       | Inr (ret, s) \<Rightarrow> Inr (get_poisoned ret n (if ret \<noteq> 0 then memset ret 0 n s else s))) }"

definition umm_poison_realloc_fl :: "bool \<Rightarrow> u32 \<Rightarrow> u32 \<Rightarrow> umm \<Rightarrow> (unit + u32 \<times> umm) option" where
  "umm_poison_realloc_fl lite ptr n s = do {
     r \<leftarrow> get_unpoisoned_check_neighbors lite ptr s;
     (case r of
        Inl e \<Rightarrow> Some (Inl e)
      | Inr ptr \<Rightarrow> do {
          let n = n + poison_size n;
          r \<leftarrow> umm_realloc_lite lite ptr n s;
          Some (case r of Inl e \<Rightarrow> Inl e | Inr (ret, s) \<Rightarrow> Inr (get_poisoned ret n s)) }) }"

definition umm_poison_free_fl :: "bool \<Rightarrow> u32 \<Rightarrow> umm \<Rightarrow> (unit + umm) option" where
  "umm_poison_free_fl lite ptr s = do {
     r \<leftarrow> get_unpoisoned_check_neighbors lite ptr s;
     Some (case r of Inl e \<Rightarrow> Inl e | Inr ptr \<Rightarrow> Inr (umm_free ptr s)) }"

section \<open>What the guards detect\<close>

lemma read32_write32: "read32 p (write32 p v s) = v"
proof -
  have d: "p + 1 \<noteq> p" "p + 2 \<noteq> p" "p + 3 \<noteq> p" "p + 2 \<noteq> p + 1" "p + 3 \<noteq> p + 1" "p + 3 \<noteq> p + 2" by simp_all
  have "bit (read32 p (write32 p v s)) i \<longleftrightarrow> bit v i" if "i < 32" for i
  proof -
    consider "i < 8" | "8 \<le> i" "i < 16" | "16 \<le> i" "i < 24" | "24 \<le> i" by linarith
    then show ?thesis using d that
      by cases (auto simp: read32_def write32_def bit_or_iff bit_shl bit_ucast_iff bit_shr)
  qed
  then show ?thesis by (intro bit_word_eqI) simp
qed

lemma poisoned_bytes:
  assumes "\<not> d < 4"
  shows "ram_bytes (write32 p n (memset (p + m) b 4 (memset (p + 4) b 4 s))) (p + d) =
    (if d - m < 4 \<or> d - 4 < 4 then b else ram_bytes s (p + d))"
proof -
  have d: "d \<noteq> 0" "d \<noteq> 1" "d \<noteq> 2" "d \<noteq> 3" using assms by auto
  have "p + d - (p + m) = d - m" "p + d - (p + 4) = d - 4" by simp_all
  then show ?thesis using d by (simp add: write32_def memset_def)
qed

lemma memset_fields [simp]:
  "umm_heap (memset p b n s) = umm_heap s" "umm_heap (write32 p v s) = umm_heap s"
  by (simp_all add: memset_def write32_def)

text \<open>The definitions with the sizes filled in.\<close>

lemma poison_block_eq:
  "check_poison_block c s \<longleftrightarrow> is_free c s \<or>
    (\<forall>i < 4. ram_bytes s (UMM_DATA c s + 4 + of_nat i) = POISON_BYTE) \<and>
    (\<forall>i < 4. ram_bytes s (UMM_DATA c s + read32 (UMM_DATA c s) s - 4 + of_nat i) = POISON_BYTE)"
  by (simp add: check_poison_block_def check_poison_def is_free_def LEN_SIZE_def UMM_POISON_SIZE_BEFORE_def
    UMM_POISON_SIZE_AFTER_def list_all_iff Let_def Ball_def)

lemma get_poisoned_eq:
  "p \<noteq> 0 \<Longrightarrow> n \<noteq> 0 \<Longrightarrow> get_poisoned p n s = (p + 8, write32 p n (memset (p + (n - 4)) POISON_BYTE 4 (memset (p + 4) POISON_BYTE 4 s)))"
  by (simp add: get_poisoned_def put_poison_def LEN_SIZE_def UMM_POISON_SIZE_BEFORE_def UMM_POISON_SIZE_AFTER_def Let_def add_diff_eq)

lemma get_poisoned_bytes:
  fixes s :: umm
  assumes "p \<noteq> 0" and "12 \<le> n" and "n < 0x80000000"
  defines "s1 \<equiv> snd (get_poisoned p n s)"
  shows "fst (get_poisoned p n s) = p + 8" and "\<exists>m. s1 = s\<lparr>ram_bytes := m\<rparr>" and "read32 p s1 = n"
    and "8 \<le> d \<and> d < n - 4 \<or> n \<le> d \<Longrightarrow> ram_bytes s1 (p + d) = ram_bytes s (p + d)"
    and "i < 4 \<Longrightarrow> ram_bytes s1 (p + 4 + of_nat i) = 0xa5 \<and> ram_bytes s1 (p + n - 4 + of_nat i) = 0xa5"
proof -
  have n: "n \<noteq> 0" using assms(2) by auto
  note g = get_poisoned_eq [OF assms(1) n, of s]
  have s1: "s1 = write32 p n (memset (p + (n - 4)) POISON_BYTE 4 (memset (p + 4) POISON_BYTE 4 s))" unfolding s1_def g by simp
  show "fst (get_poisoned p n s) = p + 8" by (simp add: g)
  show "read32 p s1 = n" by (simp only: s1 read32_write32)
  show "\<exists>m. s1 = s\<lparr>ram_bytes := m\<rparr>" by (simp add: s1 write32_def memset_def) blast
  have byte: "ram_bytes s1 (p + d) = (if d - (n - 4) < 4 \<or> d - 4 < 4 then POISON_BYTE else ram_bytes s (p + d))"
    if "\<not> d < 4" for d
    using poisoned_bytes [OF that] by (simp add: s1)
  have N: "12 \<le> unat n" "unat n < 2147483648" using assms(2,3) by (simp_all add: word_less_nat_alt word_le_nat_alt)
  show "ram_bytes s1 (p + d) = ram_bytes s (p + d)" if "8 \<le> d \<and> d < n - 4 \<or> n \<le> d"
  proof -
    have "\<not> d < 4 \<and> \<not> d - (n - 4) < 4 \<and> \<not> d - 4 < 4"
      using that N unsigned_less [of d] by (auto simp: word_less_nat_alt word_le_nat_alt unat_sub_if_size word_size)
    then show ?thesis using byte by simp
  qed
  show "ram_bytes s1 (p + 4 + of_nat i) = 0xa5 \<and> ram_bytes s1 (p + n - 4 + of_nat i) = 0xa5" if "i < 4"
  proof -
    have i: "unat (of_nat i :: u32) = i" using that by (simp add: unat_of_nat)
    have "\<not> 4 + of_nat i < (4 :: u32)" "(4 + of_nat i) - 4 < (4 :: u32)" using that i by (simp_all add: word_less_nat_alt unat_word_ariths)
    moreover have "\<not> n - 4 + of_nat i < 4" "n - 4 + of_nat i - (n - 4) < 4"
      using that i N by (simp_all add: word_less_nat_alt unat_word_ariths(1) unat_sub_if_size word_size)
    moreover have "p + 4 + of_nat i = p + (4 + of_nat i)" "p + n - 4 + of_nat i = p + (n - 4 + of_nat i)"
      by (simp_all add: algebra_simps)
    ultimately show ?thesis using byte [of "4 + of_nat i"] byte [of "n - 4 + of_nat i"] by (simp only: POISON_BYTE_def if_True simp_thms)
  qed
qed

text \<open>C26. A block given to the program has its guards, its header and all it had outside of guards and length; freeing finds the
  block again; and as long as its length word is intact the check passes exactly if none of the four bytes before and the
  four bytes behind the program's part has changed.\<close>

theorem guards_detect_overruns:
  assumes "get_poisoned (UMM_DATA c s) n s = (q, s1)" and "\<not> is_free c s" and "UMM_DATA c s \<noteq> 0" and "UMM_DATA c s + 8 \<noteq> 0"
    and "12 \<le> n" and "n < 0x80000000"
  shows "get_unpoisoned q s1 = UMM_DATA c s \<and> check_poison_block c s1 \<and>
    (\<forall>d. 8 \<le> d \<and> d < n - 4 \<or> n \<le> d \<longrightarrow> ram_bytes s1 (UMM_DATA c s + d) = ram_bytes s (UMM_DATA c s + d)) \<and>
    (\<forall>t. umm_heap t = umm_heap s \<and> UMM_NBLOCK c t = UMM_NBLOCK c s \<and> read32 (UMM_DATA c s) t = n \<longrightarrow>
      (check_poison_block c t \<longleftrightarrow>
        (\<forall>i < 4. ram_bytes t (UMM_DATA c s + 4 + of_nat i) = 0xa5 \<and> ram_bytes t (UMM_DATA c s + n - 4 + of_nat i) = 0xa5)))"
proof -
  let ?p = "UMM_DATA c s"
  note g = get_poisoned_bytes [OF assms(3,5,6), where s = s, unfolded assms(1) fst_conv snd_conv]
  have q: "q = ?p + 8" by (rule g)
  obtain m where "s1 = s\<lparr>ram_bytes := m\<rparr>" using g(2) by blast
  then have h: "umm_heap s1 = umm_heap s" by simp
  then have b: "UMM_BLOCK c s1 = UMM_BLOCK c s" by (simp add: UMM_BLOCK_def)
  have "UMM_BLOCK c s = ?p + (- 4)" "UMM_BLOCK c s + 1 = ?p + (- 3)" by (simp_all add: UMM_DATA_def)
  moreover have "unat n < 2147483648" using assms(6) by (simp add: word_less_nat_alt)
  then have "n \<le> - 4" "n \<le> - 3" by (simp_all add: word_le_nat_alt unat_sub_if_size [of 0, simplified] word_size)
  ultimately have "ram_bytes s1 (UMM_BLOCK c s) = ram_bytes s (UMM_BLOCK c s)"
    "ram_bytes s1 (UMM_BLOCK c s + 1) = ram_bytes s (UMM_BLOCK c s + 1)"
    using g(4) by metis+
  then have nb: "UMM_NBLOCK c s1 = UMM_NBLOCK c s" by (simp add: link_def read16_def b)
  have check: "check_poison_block c t \<longleftrightarrow>
      (\<forall>i < 4. ram_bytes t (?p + 4 + of_nat i) = 0xa5 \<and> ram_bytes t (?p + n - 4 + of_nat i) = 0xa5)"
    if "umm_heap t = umm_heap s" "UMM_NBLOCK c t = UMM_NBLOCK c s" "read32 ?p t = n" for t
  proof -
    have "UMM_DATA c t = ?p" "is_free c t = is_free c s" using that by (simp_all add: UMM_DATA_def UMM_BLOCK_def is_free_def)
    then show ?thesis using that(3) assms(2) unfolding poison_block_eq POISON_BYTE_def by auto
  qed
  then have "check_poison_block c s1" using check [OF h nb g(3)] g(5) by simp
  moreover have "get_unpoisoned q s1 = ?p"
    using assms(4) by (simp add: get_unpoisoned_def q LEN_SIZE_def UMM_POISON_SIZE_BEFORE_def)
  ultimately show ?thesis using g(4) check by blast
qed

lemma guards_detect_overruns_witness:
  "check_poison_block 1 (snd (get_poisoned 0x3ffe800c 16 small_heap)) \<and>
    get_unpoisoned (fst (get_poisoned 0x3ffe800c 16 small_heap)) (snd (get_poisoned 0x3ffe800c 16 small_heap)) = 0x3ffe800c"
proof -
  have d: "UMM_DATA 1 small_heap = 0x3ffe800c" by (simp add: UMM_DATA_def UMM_BLOCK_def small_heap_def)
  have g: "get_poisoned (UMM_DATA 1 small_heap) 16 small_heap =
      (fst (get_poisoned 0x3ffe800c 16 small_heap), snd (get_poisoned 0x3ffe800c 16 small_heap))" by (simp add: d)
  from guards_detect_overruns [OF g small_heap_blocks(3)] show ?thesis by (simp add: d)
qed

section \<open>The check of all blocks\<close>

lemma poison_loop_eq:
  "blocks_from s b bs \<Longrightarrow>
    poison_loop b s = Some (\<forall>c \<in> set (butlast (b # bs)). is_free c s \<or> check_poison_block c s)"
proof (induction bs arbitrary: b)
  case Nil
  then show ?case by (subst poison_loop.simps) (simp add: next_block_def)
next
  case (Cons c bs)
  then have n: "next_block b s = c" "c \<noteq> 0" by auto
  have "poison_loop b s = (if \<not> is_free b s \<and> \<not> check_poison_block b s then Some False else poison_loop c s)"
    using n by (subst poison_loop.simps) (auto simp: next_block_def is_free_def)
  then show ?case using Cons by auto
qed

text \<open>On a heap whose blocks are linked, the full check ends, changes nothing and passes exactly if every used block
  passes.\<close>

theorem poison_check_exact:
  assumes "umm_heap s \<noteq> 0" and "blocks_from s 0 (b # bs)"
  shows "umm_poison_check s = Some (\<forall>c \<in> set (butlast (b # bs)). is_free c s \<or> check_poison_block c s, s)"
proof -
  have "next_block 0 s = b" "blocks_from s b bs" using assms(2) by simp_all
  then show ?thesis using assms(1) poison_loop_eq [of s b bs]
    by (simp add: umm_poison_check_def init_heap_def next_block_def Let_def del: butlast.simps)
qed

lemma poison_check_exact_witness: "\<exists>ok. umm_poison_check small_heap = Some (ok, small_heap)"
  using poison_check_exact [of small_heap 1 "[3, 7]"] small_heap_blocks by (simp add: small_heap_def)

end
