(* ===== verification/Umm_Heap.thy ===== *)
theory Umm_Heap
  imports Umm_Info
begin

text \<open>
  The invariant of the heap, and that umm_init establishes it and umm_malloc and umm_free keep it.  The list of
  blocks and the free list are explicit; the operations of the code are insertions and removals in them.
\<close>

section \<open>Segments of the two lists\<close>

fun block_seg :: "umm \<Rightarrow> u16 \<Rightarrow> u16 list \<Rightarrow> bool" where
  "block_seg s p [] \<longleftrightarrow> True"
| "block_seg s p (b # bs) \<longleftrightarrow> next_block p s = b \<and> p < b \<and> b < umm_numblocks s \<and> UMM_PBLOCK b s = p \<and> block_seg s b bs"

fun free_seg :: "umm \<Rightarrow> u16 \<Rightarrow> u16 list \<Rightarrow> bool" where
  "free_seg s p [] \<longleftrightarrow> True"
| "free_seg s p (c # cs) \<longleftrightarrow> UMM_NFREE p s = c \<and> c \<noteq> 0 \<and> c < umm_numblocks s \<and> UMM_PFREE c s = p \<and> free_seg s c cs"

lemma blocks_from_seg: "blocks_from s p bs \<longleftrightarrow> block_seg s p bs \<and> next_block (last (p # bs)) s = 0"
  by (induction bs arbitrary: p) auto

lemma free_from_seg: "free_from s p fs \<longleftrightarrow> free_seg s p fs \<and> UMM_NFREE (last (p # fs)) s = 0"
  by (induction fs arbitrary: p) auto

lemma block_seg_append: "block_seg s p (xs @ ys) \<longleftrightarrow> block_seg s p xs \<and> block_seg s (last (p # xs)) ys"
  by (induction xs arbitrary: p) auto

lemma free_seg_append: "free_seg s p (xs @ ys) \<longleftrightarrow> free_seg s p xs \<and> free_seg s (last (p # xs)) ys"
  by (induction xs arbitrary: p) auto

text \<open>A segment depends on the links forward of all its blocks but the last, and on the links back of all but the first.\<close>

lemma block_seg_frame:
  assumes "\<And>x. x \<in> set (butlast (p # xs)) \<Longrightarrow> next_block x t = next_block x s"
    and "\<And>x. x \<in> set xs \<Longrightarrow> UMM_PBLOCK x t = UMM_PBLOCK x s" and "umm_numblocks t = umm_numblocks s"
  shows "block_seg t p xs = block_seg s p xs"
  using assms(1,2)
proof (induction xs arbitrary: p)
  case (Cons b xs)
  have "block_seg t b xs = block_seg s b xs" using Cons.prems by (intro Cons.IH) auto
  then show ?case using Cons.prems assms(3) by simp
qed simp

lemma free_seg_frame:
  assumes "\<And>x. x \<in> set (butlast (p # xs)) \<Longrightarrow> UMM_NFREE x t = UMM_NFREE x s"
    and "\<And>x. x \<in> set xs \<Longrightarrow> UMM_PFREE x t = UMM_PFREE x s" and "umm_numblocks t = umm_numblocks s"
  shows "free_seg t p xs = free_seg s p xs"
  using assms(1,2)
proof (induction xs arbitrary: p)
  case (Cons b xs)
  have "free_seg t b xs = free_seg s b xs" using Cons.prems by (intro Cons.IH) auto
  then show ?case using Cons.prems assms(3) by simp
qed simp

lemma block_seg_less: "block_seg s p bs \<Longrightarrow> b \<in> set bs \<Longrightarrow> p < b"
  by (induction bs arbitrary: p) (auto intro: order_less_trans)

lemma block_seg_distinct: "block_seg s p bs \<Longrightarrow> distinct (p # bs)"
proof (induction bs arbitrary: p)
  case (Cons b bs)
  have "p \<notin> set (b # bs)" using block_seg_less [OF Cons.prems] by blast
  moreover have "distinct (b # bs)" using Cons.prems by (intro Cons.IH) simp
  ultimately show ?case by simp
qed simp

lemma free_seg_nonzero: "free_seg s p fs \<Longrightarrow> 0 \<notin> set fs"
  by (induction fs arbitrary: p) auto

lemma free_from_append: "free_from s p (xs @ ys) \<longleftrightarrow> free_seg s p xs \<and> free_from s (last (p # xs)) ys"
  by (induction xs arbitrary: p) auto

lemma blocks_from_append: "blocks_from s p (xs @ ys) \<longleftrightarrow> block_seg s p xs \<and> blocks_from s (last (p # xs)) ys"
  by (induction xs arbitrary: p) auto

lemma free_from_frame:
  assumes "\<And>x. x \<in> set (p # fs) \<Longrightarrow> UMM_NFREE x t = UMM_NFREE x s"
    and "\<And>x. x \<in> set fs \<Longrightarrow> UMM_PFREE x t = UMM_PFREE x s" and "umm_numblocks t = umm_numblocks s"
  shows "free_from t p fs = free_from s p fs"
  using assms(1,2)
proof (induction fs arbitrary: p)
  case (Cons b fs)
  have "free_from t b fs = free_from s b fs" using Cons.prems by (intro Cons.IH) auto
  then show ?case using Cons.prems assms(3) by simp
qed simp

lemma blocks_from_frame:
  assumes "\<And>x. x \<in> set (p # bs) \<Longrightarrow> next_block x t = next_block x s"
    and "\<And>x. x \<in> set bs \<Longrightarrow> UMM_PBLOCK x t = UMM_PBLOCK x s" and "umm_numblocks t = umm_numblocks s"
  shows "blocks_from t p bs = blocks_from s p bs"
  using assms(1,2)
proof (induction bs arbitrary: p)
  case (Cons b bs)
  have "blocks_from t b bs = blocks_from s b bs" using Cons.prems by (intro Cons.IH) auto
  then show ?case using Cons.prems assms(3) by simp
qed simp

lemma last_notin_butlast: "distinct xs \<Longrightarrow> last xs \<notin> set (butlast xs)"
  by (induction xs) (auto dest: in_set_butlastD)

text \<open>Changing the free list behind \<open>xs\<close>: what follows there is another block, and \<open>xs\<close> is as it was.\<close>

lemma free_seg_kept:
  assumes "free_seg s 0 xs" and "distinct xs"
    and "\<And>x. x \<in> set (0 # xs) \<Longrightarrow> x \<noteq> last (0 # xs) \<Longrightarrow> UMM_NFREE x t = UMM_NFREE x s"
    and "\<And>x. x \<in> set xs \<Longrightarrow> UMM_PFREE x t = UMM_PFREE x s" and "umm_numblocks t = umm_numblocks s"
  shows "free_seg t 0 xs"
proof -
  have "distinct (0 # xs)" using assms(1,2) free_seg_nonzero by auto
  then have "x \<in> set (0 # xs) \<and> x \<noteq> last (0 # xs)" if "x \<in> set (butlast (0 # xs))" for x
    using that last_notin_butlast [of "0 # xs"] in_set_butlastD [OF that] by metis
  then have "free_seg t 0 xs = free_seg s 0 xs" using assms(3-5) by (intro free_seg_frame) blast+
  then show ?thesis using assms(1) by simp
qed

lemma free_from_remove:
  assumes f: "free_from s 0 (xs @ c # ys)" and d: "distinct (xs @ c # ys)"
    and n: "\<And>x. x \<in> set (0 # xs @ ys) \<Longrightarrow> UMM_NFREE x t = (if x = UMM_PFREE c s then UMM_NFREE c s else UMM_NFREE x s)"
    and p: "\<And>x. x \<in> set (xs @ ys) \<Longrightarrow> UMM_PFREE x t = (if x = UMM_NFREE c s then UMM_PFREE c s else UMM_PFREE x s)"
    and k: "umm_numblocks t = umm_numblocks s"
  shows "free_from t 0 (xs @ ys)"
proof -
  let ?p = "last (0 # xs)"
  have s: "free_seg s 0 xs" "free_from s ?p (c # ys)" using f unfolding free_from_append by blast+
  have z: "0 \<notin> set xs" "0 \<notin> set (c # ys)" using free_seg_nonzero s unfolding free_from_seg by blast+
  have pc: "UMM_PFREE c s = ?p" "free_from s c ys" using s(2) by simp_all
  have px: "?p \<in> set (0 # xs)" by (rule last_in_set) simp
  then have py: "?p \<notin> set ys" using d z(2) by auto
  have nc: "UMM_NFREE c s = hd (ys @ [0])" using pc(2) by (cases ys) auto
  then have nx: "UMM_NFREE c s \<notin> set xs" using d z(1) by (cases ys) auto
  have "free_seg t 0 xs"
  proof (rule free_seg_kept [OF s(1) _ _ _ k])
    show "distinct xs" using d by simp
    show "UMM_NFREE x t = UMM_NFREE x s" if "x \<in> set (0 # xs)" "x \<noteq> ?p" for x
      using n [of x] that pc(1) by (metis Un_iff append_Cons set_append)
    show "UMM_PFREE x t = UMM_PFREE x s" if "x \<in> set xs" for x
      using p [of x] that nx by (metis UnCI set_append)
  qed
  moreover have "free_from t ?p ys"
  proof (cases ys)
    case Nil
    then show ?thesis using n [of ?p] pc(1) nc px by (simp split: if_splits)
  next
    case (Cons y zs)
    then have y: "y \<noteq> 0" "y < umm_numblocks s" "free_from s y zs" using pc(2) by simp_all
    have "free_from t y zs = free_from s y zs"
    proof (rule free_from_frame)
      show "UMM_NFREE x t = UMM_NFREE x s" if "x \<in> set (y # zs)" for x
        using n [of x] that py Cons pc(1) by (metis Un_iff list.set_intros(2) set_append)
      show "UMM_PFREE x t = UMM_PFREE x s" if "x \<in> set zs" for x
      proof -
        have "x \<noteq> y" using that d Cons by auto
        then show ?thesis using p [of x] that Cons nc by simp
      qed
    qed (rule k)
    moreover have "UMM_NFREE ?p t = y" using n [of ?p] px pc(1) nc Cons by auto
    moreover have "UMM_PFREE y t = ?p" using p [of y] pc(1) nc Cons by simp
    ultimately show ?thesis using Cons y k by simp
  qed
  ultimately show ?thesis unfolding free_from_append by blast
qed

text \<open>Putting \<open>d\<close> in the place of the blocks \<open>zs\<close>, none or one.\<close>

lemma free_from_put:
  assumes f: "free_from s 0 (xs @ zs @ ys)" and d: "distinct (xs @ zs @ ys)" "d \<notin> set (xs @ zs @ ys)" "d \<noteq> 0" "d < umm_numblocks s"
    and n: "\<And>x. x \<in> set (0 # xs @ ys) \<Longrightarrow> UMM_NFREE x t = (if x = last (0 # xs) then d else UMM_NFREE x s)"
    and nd: "UMM_NFREE d t = UMM_NFREE (last (last (0 # xs) # zs)) s"
    and p: "\<And>x. x \<in> set (xs @ ys) \<Longrightarrow> UMM_PFREE x t = (if x = UMM_NFREE (last (last (0 # xs) # zs)) s then d else UMM_PFREE x s)"
    and pd: "UMM_PFREE d t = last (0 # xs)"
    and k: "umm_numblocks t = umm_numblocks s"
  shows "free_from t 0 (xs @ d # ys)"
proof -
  let ?p = "last (0 # xs)"
  let ?q = "last (?p # zs)"
  have s: "free_seg s 0 xs" "free_from s ?p (zs @ ys)" using f unfolding free_from_append by blast+
  have sy: "free_from s ?q ys" using s(2) unfolding free_from_append by simp
  have z: "0 \<notin> set xs" "0 \<notin> set ys" using free_seg_nonzero s(1) sy unfolding free_from_seg by blast+
  have px: "?p \<in> set (0 # xs)" by (rule last_in_set) simp
  then have py: "?p \<notin> set ys" using d z(2) by auto
  have nq: "UMM_NFREE ?q s = hd (ys @ [0])" using sy by (cases ys) auto
  then have nx: "UMM_NFREE ?q s \<notin> set xs" using d z(1) by (cases ys) auto
  have "free_seg t 0 xs"
  proof (rule free_seg_kept [OF s(1) _ _ _ k])
    show "distinct xs" using d by simp
    show "UMM_NFREE x t = UMM_NFREE x s" if "x \<in> set (0 # xs)" "x \<noteq> ?p" for x
      using n [of x] that by (metis Un_iff append_Cons set_append)
    show "UMM_PFREE x t = UMM_PFREE x s" if "x \<in> set xs" for x
      using p [of x] that nx by (metis UnCI set_append)
  qed
  moreover have "free_from t d ys"
  proof (cases ys)
    case Nil
    then show ?thesis using nd nq by simp
  next
    case (Cons y ws)
    then have y: "y \<noteq> 0" "y < umm_numblocks s" "free_from s y ws" using sy by simp_all
    have "free_from t y ws = free_from s y ws"
    proof (rule free_from_frame)
      show "UMM_NFREE x t = UMM_NFREE x s" if "x \<in> set (y # ws)" for x
        using n [of x] that py Cons by (metis Un_iff list.set_intros(2) set_append)
      show "UMM_PFREE x t = UMM_PFREE x s" if "x \<in> set ws" for x
      proof -
        have "x \<noteq> y" using that d Cons by auto
        then show ?thesis using p [of x] that Cons nq by simp
      qed
    qed (rule k)
    moreover have "UMM_PFREE y t = d" using p [of y] nq Cons by simp
    ultimately show ?thesis using Cons y k nd nq by simp
  qed
  moreover have "UMM_NFREE ?p t = d" using n [OF _, of ?p] px by auto
  ultimately show ?thesis unfolding free_from_append using d pd k by simp
qed

text \<open>The list of all blocks: a block is taken out, or put in.\<close>

lemma block_seg_kept:
  assumes "block_seg s 0 xs"
    and "\<And>x. x \<in> set (0 # xs) \<Longrightarrow> x \<noteq> last (0 # xs) \<Longrightarrow> next_block x t = next_block x s"
    and "\<And>x. x \<in> set xs \<Longrightarrow> UMM_PBLOCK x t = UMM_PBLOCK x s" and "umm_numblocks t = umm_numblocks s"
  shows "block_seg t 0 xs"
proof -
  have "distinct (0 # xs)" by (rule block_seg_distinct [OF assms(1)])
  then have "x \<in> set (0 # xs) \<and> x \<noteq> last (0 # xs)" if "x \<in> set (butlast (0 # xs))" for x
    using that last_notin_butlast [of "0 # xs"] in_set_butlastD [OF that] by metis
  then have "block_seg t 0 xs = block_seg s 0 xs" using assms(2-4) by (intro block_seg_frame) blast+
  then show ?thesis using assms(1) by simp
qed

lemma blocks_from_remove:
  assumes f: "blocks_from s 0 (xs @ n # e # ys)"
    and nx: "\<And>x. x \<in> set (0 # xs @ e # ys) \<Longrightarrow> next_block x t = (if x = last (0 # xs) then e else next_block x s)"
    and p: "\<And>x. x \<in> set (xs @ e # ys) \<Longrightarrow> UMM_PBLOCK x t = (if x = e then last (0 # xs) else UMM_PBLOCK x s)"
    and k: "umm_numblocks t = umm_numblocks s"
  shows "blocks_from t 0 (xs @ e # ys)"
proof -
  let ?p = "last (0 # xs)"
  have s: "block_seg s 0 xs" "blocks_from s ?p (n # e # ys)" using f unfolding blocks_from_append by blast+
  then have e: "?p < n" "n < e" "e < umm_numblocks s" "blocks_from s e ys" by simp_all
  have px: "?p \<in> set (0 # xs)" by (rule last_in_set) simp
  have "distinct (0 # xs @ n # e # ys)" by (rule block_seg_distinct) (use f blocks_from_seg in blast)
  then have d: "e \<notin> set xs" "e \<notin> set ys" "?p \<notin> set (e # ys)" using px by auto
  have "block_seg t 0 xs"
  proof (rule block_seg_kept [OF s(1) _ _ k])
    show "next_block x t = next_block x s" if "x \<in> set (0 # xs)" "x \<noteq> ?p" for x
      using nx [of x] that by (metis Un_iff append_Cons set_append)
    show "UMM_PBLOCK x t = UMM_PBLOCK x s" if "x \<in> set xs" for x
      using p [of x] that d(1) by (metis UnCI set_append)
  qed
  moreover have "blocks_from t e ys = blocks_from s e ys"
  proof (rule blocks_from_frame)
    show "next_block x t = next_block x s" if "x \<in> set (e # ys)" for x
      using nx [of x] that d(3) by (metis Un_iff list.set_intros(2) set_append)
    show "UMM_PBLOCK x t = UMM_PBLOCK x s" if "x \<in> set ys" for x
      using p [of x] that d(2) by (metis Un_iff list.set_intros(2) set_append)
  qed (rule k)
  moreover have "next_block ?p t = e" using nx [of ?p] px by (metis UnI1 append_Cons set_append)
  moreover have "UMM_PBLOCK e t = ?p" using p [of e] by simp
  moreover have "?p < e" using e by order
  ultimately show ?thesis unfolding blocks_from_append using e k by (simp only: blocks_from.simps simp_thms)
qed

lemma blocks_from_insert:
  assumes f: "blocks_from s 0 (xs @ c # e # ys)" and d: "c < d" "d < e"
    and nx: "\<And>x. x \<in> set (0 # xs @ c # e # ys) \<Longrightarrow> next_block x t = (if x = c then d else next_block x s)" "next_block d t = e"
    and p: "\<And>x. x \<in> set (xs @ c # e # ys) \<Longrightarrow> UMM_PBLOCK x t = (if x = e then d else UMM_PBLOCK x s)" "UMM_PBLOCK d t = c"
    and k: "umm_numblocks t = umm_numblocks s"
  shows "blocks_from t 0 (xs @ c # d # e # ys)"
proof -
  have s: "block_seg s 0 (xs @ [c])" "blocks_from s c (e # ys)" using f blocks_from_append [of s 0 "xs @ [c]" "e # ys"] by simp_all
  have "distinct (0 # xs @ c # e # ys)" by (rule block_seg_distinct) (use f blocks_from_seg in blast)
  then have dd: "e \<notin> set xs" "e \<notin> set ys" "c \<notin> set (e # ys)" "e \<noteq> c" "c \<noteq> 0" by auto
  have "block_seg t 0 (xs @ [c])"
  proof (rule block_seg_kept [OF s(1) _ _ k])
    show "next_block x t = next_block x s" if "x \<in> set (0 # xs @ [c])" "x \<noteq> last (0 # xs @ [c])" for x
      using nx(1) [of x] that by auto
    show "UMM_PBLOCK x t = UMM_PBLOCK x s" if "x \<in> set (xs @ [c])" for x
      using p(1) [of x] that dd by auto
  qed
  moreover have "blocks_from t e ys = blocks_from s e ys"
  proof (rule blocks_from_frame)
    show "next_block x t = next_block x s" if "x \<in> set (e # ys)" for x
      using nx(1) [of x] that dd by auto
    show "UMM_PBLOCK x t = UMM_PBLOCK x s" if "x \<in> set ys" for x
      using p(1) [of x] that dd by auto
  qed (rule k)
  moreover have "next_block c t = d" using nx(1) [of c] by simp
  moreover have "UMM_PBLOCK e t = d" using p(1) [of e] by simp
  ultimately have "blocks_from t 0 ((xs @ [c]) @ d # e # ys)"
    unfolding blocks_from_append using s(2) d nx(2) p(2) k by (auto intro: order_less_trans)
  then show ?thesis by simp
qed

section \<open>The invariant\<close>

text \<open>The list of all blocks \<open>bs\<close> ends with the end of the heap; the free list \<open>fs\<close> holds the blocks with the free flag.\<close>

definition heap_lists :: "umm \<Rightarrow> u16 list \<Rightarrow> u16 list \<Rightarrow> bool" where
  "heap_lists s bs fs \<longleftrightarrow> umm_heap s \<noteq> 0 \<and> bs \<noteq> [] \<and> blocks_from s 0 bs \<and> free_from s 0 fs \<and> distinct fs \<and>
     set fs \<subseteq> set (butlast bs) \<and> (\<forall>b \<in> set (0 # bs). is_free b s \<longleftrightarrow> b \<in> set fs)"

definition coalesced :: "umm \<Rightarrow> u16 list \<Rightarrow> bool" where
  "coalesced s fs \<longleftrightarrow> (\<forall>b \<in> set fs. next_block b s \<notin> set fs)"

definition counted :: "umm \<Rightarrow> u16 list \<Rightarrow> bool" where
  "counted s fs \<longleftrightarrow> free_blocks s = (\<Sum>b \<in> set fs. ucast (next_block b s) - ucast b)"

definition heap_inv :: "umm \<Rightarrow> u16 list \<Rightarrow> u16 list \<Rightarrow> bool" where
  "heap_inv s bs fs \<longleftrightarrow> heap_lists s bs fs \<and> coalesced s fs \<and> counted s fs"

lemma next_block_links [simp]:
  "next_block x (set_NBLOCK c v s) = (if x = c then v AND UMM_BLOCKNO_MASK else next_block x s)"
  "next_block x (set_NFREE c v s) = next_block x s" "next_block x (set_PFREE c v s) = next_block x s"
  by (simp_all add: next_block_def)

lemma is_free_links [simp]:
  "is_free x (set_NBLOCK c v s) = (if x = c then bit v 15 else is_free x s)" "is_free x (set_PBLOCK c v s) = is_free x s"
  "is_free x (set_NFREE c v s) = is_free x s" "is_free x (set_PFREE c v s) = is_free x s"
  by (simp_all add: is_free_iff)

lemma next_block_used: "\<not> is_free c s \<Longrightarrow> UMM_NBLOCK c s = next_block c s"
  unfolding is_free_iff next_block_def by (rule small_mask [symmetric])

lemma next_block_small [simp]: "\<not> bit (next_block c s) 15" "next_block c s AND UMM_BLOCKNO_MASK = next_block c s"
  by (simp_all add: next_block_def)

lemma flagged_next [simp]:
  "(UMM_NBLOCK c s OR UMM_FREELIST_MASK) AND UMM_BLOCKNO_MASK = next_block c s"
  "(UMM_NBLOCK c s AND NOT UMM_FREELIST_MASK) AND UMM_BLOCKNO_MASK = next_block c s"
  "UMM_NBLOCK c s AND UMM_BLOCKNO_MASK = next_block c s"
  by (simp_all add: next_block_def)

text \<open>A block in its place: the one before and the one behind.\<close>

lemma blocks_around:
  assumes "blocks_from s 0 bs" and "c \<in> set bs"
  obtains xs ys where "bs = xs @ c # ys" "UMM_PBLOCK c s = last (0 # xs)" "next_block c s = hd (ys @ [0])"
proof -
  obtain xs ys where bs: "bs = xs @ c # ys" using split_list [OF assms(2)] by blast
  then have "blocks_from s (last (0 # xs)) (c # ys)" using assms(1) unfolding bs blocks_from_append by blast
  moreover from this have "next_block c s = hd (ys @ [0])" by (cases ys) auto
  ultimately show ?thesis using that bs by simp
qed

lemma free_around:
  assumes "free_from s 0 fs" and "c \<in> set fs"
  obtains xs ys where "fs = xs @ c # ys" "UMM_PFREE c s = last (0 # xs)" "UMM_NFREE c s = hd (ys @ [0])"
proof -
  obtain xs ys where fs: "fs = xs @ c # ys" using split_list [OF assms(2)] by blast
  then have "free_from s (last (0 # xs)) (c # ys)" using assms(1) unfolding fs free_from_append by blast
  moreover from this have "UMM_NFREE c s = hd (ys @ [0])" by (cases ys) auto
  ultimately show ?thesis using that fs by simp
qed

section \<open>The steps\<close>

lemma disconnect_links:
  "UMM_NFREE x (umm_disconnect_from_free_list c s) = (if x = UMM_PFREE c s then UMM_NFREE c s else UMM_NFREE x s)"
  "UMM_PFREE x (umm_disconnect_from_free_list c s) = (if x = UMM_NFREE c s then UMM_PFREE c s else UMM_PFREE x s)"
  "UMM_PBLOCK x (umm_disconnect_from_free_list c s) = UMM_PBLOCK x s"
  "next_block x (umm_disconnect_from_free_list c s) = next_block x s"
  "is_free x (umm_disconnect_from_free_list c s) \<longleftrightarrow> x \<noteq> c \<and> is_free x s"
  "umm_numblocks (umm_disconnect_from_free_list c s) = umm_numblocks s"
  "umm_heap (umm_disconnect_from_free_list c s) = umm_heap s"
  "free_blocks (umm_disconnect_from_free_list c s) = free_blocks s"
  by (simp_all add: umm_disconnect_from_free_list_def Let_def)

lemma disconnect_lists:
  assumes "heap_lists s bs fs" and "c \<in> set fs"
  shows "heap_lists (umm_disconnect_from_free_list c s) bs (remove1 c fs)"
proof -
  let ?t = "umm_disconnect_from_free_list c s"
  have f: "free_from s 0 fs" "distinct fs" "blocks_from s 0 bs" using assms(1) by (simp_all add: heap_lists_def)
  obtain xs ys where fs: "fs = xs @ c # ys" using split_list [OF assms(2)] by blast
  then have r: "remove1 c fs = xs @ ys" using f(2) by (simp add: remove1_append)
  have "free_from ?t 0 (xs @ ys)"
    by (rule free_from_remove [OF f(1) [unfolded fs] f(2) [unfolded fs]]) (simp_all only: disconnect_links)
  moreover have "blocks_from ?t 0 bs = blocks_from s 0 bs" by (rule blocks_from_frame) (simp_all only: disconnect_links)
  moreover have "set (xs @ ys) \<subseteq> set (butlast bs)" "\<forall>b \<in> set (0 # bs). (b \<noteq> c \<and> is_free b s) = (b \<in> set (xs @ ys))"
    using assms(1) f(2) unfolding heap_lists_def fs by auto
  moreover have "distinct (xs @ ys)" using f(2) unfolding fs by simp
  moreover have "umm_heap s \<noteq> 0" "bs \<noteq> []" using assms(1) by (simp_all add: heap_lists_def)
  ultimately show ?thesis using f(3) unfolding r heap_lists_def disconnect_links by blast
qed

lemma butlast_keep: "butlast (xs @ c # d # ys) = xs @ c # butlast (d # ys)"
  by (simp add: butlast_append)

lemma join_links:
  assumes "\<not> is_free c s" and "\<not> bit n 15"
  shows "next_block x (set_NBLOCK c n (set_PBLOCK n c s)) = (if x = c then n else next_block x s)"
    and "is_free x (set_NBLOCK c n (set_PBLOCK n c s)) = is_free x s"
    and "UMM_PBLOCK x (set_NBLOCK c n (set_PBLOCK n c s)) = (if x = n then c else UMM_PBLOCK x s)"
  using assms by (simp_all add: small_mask)

text \<open>A block \<open>c\<close> takes in the used block \<open>n\<close> behind it.\<close>

lemma join_lists:
  assumes "heap_lists s (xs @ c # n # e # ys) fs" and "n \<notin> set fs"
    and t: "\<And>x. next_block x t = (if x = c then e else next_block x s)" "\<And>x. is_free x t = is_free x s"
      "\<And>x. UMM_PBLOCK x t = (if x = e then c else UMM_PBLOCK x s)" "\<And>x. UMM_NFREE x t = UMM_NFREE x s"
      "\<And>x. UMM_PFREE x t = UMM_PFREE x s" "umm_numblocks t = umm_numblocks s" "umm_heap t = umm_heap s"
  shows "heap_lists t (xs @ c # e # ys) fs"
proof -
  have h: "blocks_from s 0 ((xs @ [c]) @ n # e # ys)" "free_from s 0 fs" using assms(1) by (simp_all add: heap_lists_def)
  have "blocks_from t 0 ((xs @ [c]) @ e # ys)"
    by (rule blocks_from_remove [OF h(1)]) (simp_all add: t)
  moreover have "free_from t 0 fs = free_from s 0 fs" by (rule free_from_frame) (simp_all only: t)
  moreover have "set fs \<subseteq> set (butlast (xs @ c # e # ys))"
    using assms(1,2) butlast_keep [of "xs @ [c]" n e ys] by (auto simp: heap_lists_def butlast_keep simp del: butlast.simps)
  moreover have "distinct fs" "umm_heap s \<noteq> 0" "\<forall>b \<in> set (0 # xs @ c # e # ys). is_free b s \<longleftrightarrow> b \<in> set fs"
    using assms(1) by (simp_all add: heap_lists_def)
  ultimately show ?thesis using h(2) unfolding heap_lists_def t by simp
qed

lemma blocks_sorted: "blocks_from s p bs \<Longrightarrow> sorted_wrt (<) (p # bs)"
proof (induction bs arbitrary: p)
  case (Cons b bs)
  have "sorted_wrt (<) (b # bs)" using Cons.prems by (intro Cons.IH) simp
  moreover have "\<forall>x \<in> set (b # bs). p < x" using blocks_from_less [OF Cons.prems] by blast
  ultimately show ?case by simp
qed simp

text \<open>The facts of the invariant about one used block that is not the end.\<close>

lemma used_block:
  assumes h: "heap_lists s bs fs" and c: "c \<in> set (butlast bs)" "c \<notin> set fs"
  obtains xs e ys where "bs = xs @ c # e # ys" "next_block c s = e" "UMM_NBLOCK c s = e" "UMM_PBLOCK c s = last (0 # xs)" "c \<noteq> 0"
    "c < e" "\<not> is_free c s" "c < umm_numblocks s"
proof -
  have b: "blocks_from s 0 bs" "c \<in> set bs" using h c in_set_butlastD by (auto simp: heap_lists_def)
  obtain xs ys where bs: "bs = xs @ c # ys" "UMM_PBLOCK c s = last (0 # xs)" "next_block c s = hd (ys @ [0])"
    using blocks_around [OF b] .
  have u: "\<not> is_free c s" using h b(2) c(2) by (auto simp: heap_lists_def)
  have s: "sorted_wrt (<) (0 # bs)" by (rule blocks_sorted [OF b(1)])
  have "ys \<noteq> []"
  proof
    assume "ys = []"
    then have "c \<in> set xs" using c(1) bs(1) by (simp add: butlast_append)
    then show False using s bs(1) by (auto simp: sorted_wrt_append)
  qed
  then obtain e zs where ys: "ys = e # zs" by (cases ys) auto
  have "blocks_from s (last (0 # xs)) (c # e # zs)" using b(1) unfolding bs ys blocks_from_append by blast
  then have "c < e" "c < umm_numblocks s" by simp_all
  moreover have "c \<noteq> 0" using blocks_distinct [OF b(1)] b(2) by auto
  ultimately show ?thesis using that [of xs e zs] bs ys u next_block_used [OF u] by simp
qed

lemma remove1_middle: "distinct (xs @ c # ys) \<Longrightarrow> remove1 c (xs @ c # ys) = xs @ ys"
  by (simp add: remove1_append)

lemma lists_distinct: "heap_lists s bs fs \<Longrightarrow> distinct (0 # bs)"
  unfolding heap_lists_def using blocks_distinct by blast

lemma up_eq:
  assumes "\<not> is_free c s"
  shows "umm_assimilate_up c s =
    (if is_free (next_block c s) s then
       set_NBLOCK c (next_block (next_block c s) s)
         (set_PBLOCK (next_block (next_block c s) s) c (umm_disconnect_from_free_list (next_block c s) s))
     else s)"
proof (cases "is_free (next_block c s) s")
  case True
  let ?n = "next_block c s"
  let ?t = "umm_disconnect_from_free_list ?n s"
  have n: "UMM_NBLOCK c s = ?n" by (rule next_block_used [OF assms])
  have c: "c \<noteq> ?n" using True assms by metis
  then have "\<not> is_free c ?t" "next_block c ?t = ?n" "next_block ?n ?t = next_block ?n s" using assms by (simp_all add: disconnect_links)
  then have t: "UMM_NBLOCK c ?t = ?n" "UMM_NBLOCK ?n ?t AND UMM_BLOCKNO_MASK = next_block ?n s"
    using next_block_used by (simp_all del: flagged_next add: next_block_def [symmetric])
  have "UMM_NBLOCK ?n s AND UMM_FREELIST_MASK \<noteq> 0" using True by (simp add: is_free_def)
  then show ?thesis using True t by (simp add: umm_assimilate_up_def n Let_def)
next
  case False
  then show ?thesis using next_block_used [OF assms] by (simp add: umm_assimilate_up_def is_free_def)
qed

lemma up_links:
  assumes "\<not> is_free c s" and "is_free (next_block c s) s"
  shows "next_block x (umm_assimilate_up c s) = (if x = c then next_block (next_block c s) s else next_block x s)"
    and "is_free x (umm_assimilate_up c s) \<longleftrightarrow> x \<noteq> next_block c s \<and> is_free x s"
  using assms by (auto simp: up_eq disconnect_links)

lemma up_fields [simp]:
  "umm_heap (umm_assimilate_up c s) = umm_heap s" "free_blocks (umm_assimilate_up c s) = free_blocks s"
  "umm_numblocks (umm_assimilate_up c s) = umm_numblocks s"
  by (simp_all add: umm_assimilate_up_def Let_def disconnect_links)

lemma up_lists:
  assumes h: "heap_lists s bs fs" and c: "c \<in> set (butlast bs)" "c \<notin> set fs"
  shows "heap_lists (umm_assimilate_up c s) (if next_block c s \<in> set fs then remove1 (next_block c s) bs else bs) (remove1 (next_block c s) fs)"
proof -
  from used_block [OF h c] obtain xs n ys where bs: "bs = xs @ c # n # ys" and n: "next_block c s = n" and u: "\<not> is_free c s" .
  have nf: "is_free n s \<longleftrightarrow> n \<in> set fs" using h bs by (simp add: heap_lists_def)
  show ?thesis
  proof (cases "n \<in> set fs")
    case False
    then show ?thesis using h n nf u by (simp add: up_eq remove1_idem)
  next
    case True
    let ?t = "umm_disconnect_from_free_list n s"
    have d: "heap_lists ?t bs (remove1 n fs)" by (rule disconnect_lists [OF h True])
    have "distinct fs" using h by (simp add: heap_lists_def)
    then have n': "n \<notin> set (remove1 n fs)" by simp
    have "n \<in> set (butlast bs)" using True h by (auto simp: heap_lists_def)
    then obtain e zs where ys: "ys = e # zs" using lists_distinct [OF h] unfolding bs by (cases ys) (auto simp: butlast_append)
    have bf: "blocks_from s (last (0 # xs)) (c # n # e # zs)" using h unfolding heap_lists_def bs ys blocks_from_append by blast
    then have e: "next_block n s = e" "c \<noteq> n" by auto
    have ut: "\<not> is_free c ?t" using u by (simp add: disconnect_links)
    have eq: "umm_assimilate_up c s = set_NBLOCK c e (set_PBLOCK e c ?t)" using u n e True nf by (simp add: up_eq)
    have "\<not> bit e 15" using e(1) next_block_small by metis
    note j = join_links [OF ut this]
    have "heap_lists (umm_assimilate_up c s) (xs @ c # e # zs) (remove1 n fs)" unfolding eq
      by (rule join_lists [OF d [unfolded bs ys] n']) (simp_all only: j, simp_all)
    moreover have "remove1 n bs = xs @ c # e # zs"
      using remove1_middle [of "xs @ [c]" n ys] lists_distinct [OF h] bs ys by simp
    ultimately show ?thesis using True n by simp
  qed
qed


lemma down_eq:
  "umm_assimilate_down c fm s =
     (UMM_PBLOCK c s, set_PBLOCK (UMM_NBLOCK c s) (UMM_PBLOCK c s) (set_NBLOCK (UMM_PBLOCK c s) (UMM_NBLOCK c s OR fm) s))"
  if "UMM_PBLOCK c s \<noteq> c" "UMM_NBLOCK c s \<noteq> c"
  using that by (simp add: umm_assimilate_down_def Let_def)

lemma or_small: "\<not> bit n 15 \<Longrightarrow> fm = 0 \<or> fm = UMM_FREELIST_MASK \<Longrightarrow> (n OR fm) AND UMM_BLOCKNO_MASK = n \<and> bit (n OR fm) 15 = (fm \<noteq> 0)"
  by (auto simp: small_mask)

text \<open>The used block \<open>c\<close> goes into the one before it, which is free, or used and to stay so.\<close>

lemma down_lists:
  assumes h: "heap_lists s bs fs" and c: "c \<in> set (butlast bs)" "c \<notin> set fs" and p: "UMM_PBLOCK c s \<noteq> 0"
    and fm: "fm = (if UMM_PBLOCK c s \<in> set fs then UMM_FREELIST_MASK else 0)"
  shows "fst (umm_assimilate_down c fm s) = UMM_PBLOCK c s"
    and "heap_lists (snd (umm_assimilate_down c fm s)) (remove1 c bs) fs"
    and "next_block x (snd (umm_assimilate_down c fm s)) = (if x = UMM_PBLOCK c s then next_block c s else next_block x s)"
    and "is_free x (snd (umm_assimilate_down c fm s)) = is_free x s"
proof -
  let ?p = "UMM_PBLOCK c s"
  from used_block [OF h c] obtain xs n ys where bs: "bs = xs @ c # n # ys" and n: "next_block c s = n" "UMM_NBLOCK c s = n"
    and pc: "?p = last (0 # xs)" and u: "\<not> is_free c s" and cn: "c < n" .
  obtain ws where xs: "xs = ws @ [?p]" using pc p by (cases xs rule: rev_cases) auto
  have d: "distinct (0 # bs)" by (rule lists_distinct [OF h])
  then have ne: "?p \<noteq> c" "n \<noteq> c" "?p \<noteq> n" unfolding bs using xs by (auto simp: in_set_conv_decomp)
  have "\<not> bit n 15" using n(1) next_block_small by metis
  then have o: "(n OR fm) AND UMM_BLOCKNO_MASK = n" "bit (n OR fm) 15 = (fm \<noteq> 0)" using or_small [of n fm] fm by auto
  have pf: "is_free ?p s \<longleftrightarrow> ?p \<in> set fs"
  proof -
    have "?p \<in> set (0 # bs)" unfolding bs by (subst xs) simp
    then show ?thesis using h unfolding heap_lists_def by blast
  qed
  have eq: "umm_assimilate_down c fm s = (?p, set_PBLOCK n ?p (set_NBLOCK ?p (n OR fm) s))"
    using down_eq ne n by simp
  then show "fst (umm_assimilate_down c fm s) = ?p" by simp
  show nx: "next_block x (snd (umm_assimilate_down c fm s)) = (if x = ?p then next_block c s else next_block x s)" for x
    using o n by (simp add: eq)
  show fr: "is_free x (snd (umm_assimilate_down c fm s)) = is_free x s" for x
  proof -
    have "(fm \<noteq> 0) = is_free ?p s" unfolding pf fm by simp
    then show ?thesis using o(2) unfolding eq by simp
  qed
  have "heap_lists s (ws @ ?p # c # n # ys) fs" using h unfolding bs by (subst (asm) xs) simp
  then have "heap_lists (snd (umm_assimilate_down c fm s)) (ws @ ?p # n # ys) fs"
    using c(2)
  proof (rule join_lists)
    show "next_block x (snd (umm_assimilate_down c fm s)) = (if x = ?p then n else next_block x s)" for x
      unfolding nx n(1) ..
  qed (simp_all add: fr, simp_all add: eq)
  moreover have "remove1 c bs = ws @ ?p # n # ys"
  proof -
    have "remove1 c bs = xs @ n # ys" using d unfolding bs by (intro remove1_middle) simp
    then show ?thesis by (subst (asm) xs) simp
  qed
  ultimately show "heap_lists (snd (umm_assimilate_down c fm s)) (remove1 c bs) fs" by simp
qed

lemma down_fields [simp]:
  "umm_heap (snd (umm_assimilate_down c fm s)) = umm_heap s" "free_blocks (snd (umm_assimilate_down c fm s)) = free_blocks s"
  "umm_numblocks (snd (umm_assimilate_down c fm s)) = umm_numblocks s"
  by (simp_all add: umm_assimilate_down_def Let_def)

text \<open>A used block becomes the first of the free list.\<close>

definition push_free :: "u16 \<Rightarrow> umm \<Rightarrow> umm" where
  "push_free c s =
     (let s = set_PFREE (UMM_NFREE 0 s) c s;
          s = set_NFREE c (UMM_NFREE 0 s) s;
          s = set_PFREE c 0 s;
          s = set_NFREE 0 c s
      in set_NBLOCK c (UMM_NBLOCK c s OR UMM_FREELIST_MASK) s)"

lemma push_links:
  assumes "c \<noteq> 0"
  shows "next_block x (push_free c s) = next_block x s"
    and "is_free x (push_free c s) \<longleftrightarrow> x = c \<or> is_free x s"
    and "UMM_PBLOCK x (push_free c s) = UMM_PBLOCK x s"
    and "UMM_NFREE x (push_free c s) = (if x = 0 then c else if x = c then UMM_NFREE 0 s else UMM_NFREE x s)"
    and "UMM_PFREE x (push_free c s) = (if x = c then 0 else if x = UMM_NFREE 0 s then c else UMM_PFREE x s)"
    and "umm_numblocks (push_free c s) = umm_numblocks s" and "umm_heap (push_free c s) = umm_heap s"
    and "free_blocks (push_free c s) = free_blocks s"
  using assms by (simp_all add: push_free_def Let_def)

lemma push_lists:
  assumes h: "heap_lists s bs fs" and c: "c \<in> set (butlast bs)" "c \<notin> set fs"
  shows "heap_lists (push_free c s) bs (c # fs)"
proof -
  from used_block [OF h c] have u: "c \<noteq> 0" "c < umm_numblocks s" by metis+
  have f: "free_from s 0 ([] @ [] @ fs)" "distinct ([] @ [] @ fs)" "c \<notin> set ([] @ [] @ fs)" using h c by (simp_all add: heap_lists_def)
  have nz: "0 \<notin> set fs" using f(1) free_seg_nonzero free_from_seg by auto
  have "free_from (push_free c s) 0 ([] @ c # fs)"
  proof (rule free_from_put [OF f u])
    show "UMM_NFREE x (push_free c s) = (if x = last (0 # []) then c else UMM_NFREE x s)" if "x \<in> set (0 # [] @ fs)" for x
      using that c(2) u(1) by (auto simp: push_links)
    show "UMM_PFREE x (push_free c s) = (if x = UMM_NFREE (last (last (0 # []) # [])) s then c else UMM_PFREE x s)" if "x \<in> set ([] @ fs)" for x
      using that c(2) u(1) by (auto simp: push_links)
  qed (use u in \<open>simp_all add: push_links\<close>)
  moreover have "blocks_from (push_free c s) 0 bs = blocks_from s 0 bs" by (rule blocks_from_frame) (simp_all add: push_links [OF u(1)])
  moreover have "\<forall>b \<in> set (0 # bs). is_free b (push_free c s) \<longleftrightarrow> b \<in> set (c # fs)"
    using h u(1) by (auto simp: heap_lists_def push_links)
  ultimately show ?thesis using h c u by (simp add: heap_lists_def push_links)
qed


text \<open>A block is split at \<open>d\<close>.\<close>

lemma insort_middle: "sorted_wrt (<) (xs @ c # e # ys) \<Longrightarrow> c < d \<Longrightarrow> d < e \<Longrightarrow> insort d (xs @ c # e # ys) = xs @ c # d # e # ys"
  for c d e :: "'a :: linorder"
  by (induction xs) (auto dest: less_imp_le simp: not_le)

lemma split_links:
  assumes "c + k \<noteq> c" and "\<not> bit (c + k) 15" and "next_block c s \<noteq> c + k" and "fm = 0 \<or> fm = UMM_FREELIST_MASK"
  shows "next_block x (umm_split_block c k fm s) = (if x = c then c + k else if x = c + k then next_block c s else next_block x s)"
    and "is_free x (umm_split_block c k fm s) \<longleftrightarrow> (if x = c then False else if x = c + k then fm \<noteq> 0 else is_free x s)"
    and "UMM_PBLOCK x (umm_split_block c k fm s) = (if x = next_block c s then c + k else if x = c + k then c else UMM_PBLOCK x s)"
    and "UMM_NFREE x (umm_split_block c k fm s) = UMM_NFREE x s" and "UMM_PFREE x (umm_split_block c k fm s) = UMM_PFREE x s"
  using assms or_small [of "next_block c s" fm] by (simp_all add: umm_split_block_def Let_def small_mask next_block_def [symmetric])

lemma split_fields [simp]:
  "umm_heap (umm_split_block c k fm s) = umm_heap s" "free_blocks (umm_split_block c k fm s) = free_blocks s"
  "umm_numblocks (umm_split_block c k fm s) = umm_numblocks s" "oom_count (umm_split_block c k fm s) = oom_count s"
  by (simp_all add: umm_split_block_def Let_def)

lemma split_blocks:
  assumes "blocks_from s 0 (xs @ c # e # ys)" and d: "c < d" "d < e"
    and t: "\<And>x. next_block x t = (if x = c then d else if x = d then e else next_block x s)"
      "\<And>x. UMM_PBLOCK x t = (if x = e then d else if x = d then c else UMM_PBLOCK x s)" "umm_numblocks t = umm_numblocks s"
  shows "blocks_from t 0 (insort d (xs @ c # e # ys))" and "d \<notin> set (xs @ c # e # ys)"
proof -
  have s: "sorted_wrt (<) (0 # xs @ c # e # ys)" using blocks_sorted [OF assms(1)] by simp
  have i: "insort d (xs @ c # e # ys) = xs @ c # d # e # ys" by (rule insort_middle [OF _ d]) (use s in simp)
  have "d \<notin> set xs" "d \<notin> set ys" "d \<noteq> 0" using s d by (auto simp: sorted_wrt_append)
  then show n: "d \<notin> set (xs @ c # e # ys)" using d by auto
  have "d \<notin> set (0 # xs @ c # e # ys)" using n \<open>d \<noteq> 0\<close> by simp
  then have x: "x \<noteq> d" if "x \<in> set (0 # xs @ c # e # ys)" for x using that by metis
  have "blocks_from t 0 (xs @ c # d # e # ys)"
  proof (rule blocks_from_insert [OF assms(1) d _ _ _ _ t(3)])
    show "next_block x t = (if x = c then d else next_block x s)" if "x \<in> set (0 # xs @ c # e # ys)" for x
      using x [OF that] by (simp add: t)
    show "UMM_PBLOCK x t = (if x = e then d else UMM_PBLOCK x s)" if "x \<in> set (xs @ c # e # ys)" for x
      using x [of x] that by (simp add: t)
  qed (use d in \<open>auto simp: t\<close>)
  then show "blocks_from t 0 (insort d (xs @ c # e # ys))" unfolding i .
qed

text \<open>The facts about any block that is not the end.\<close>

lemma inner_block:
  assumes h: "heap_lists s bs fs" and c: "c \<in> set (butlast bs)"
  obtains xs e ys where "bs = xs @ c # e # ys" "next_block c s = e" "c \<noteq> 0" "c < e" "e < umm_numblocks s" "\<not> bit e 15"
proof -
  have b: "blocks_from s 0 bs" "c \<in> set bs" using h c in_set_butlastD by (auto simp: heap_lists_def)
  obtain xs ys where bs: "bs = xs @ c # ys" "next_block c s = hd (ys @ [0])"
    using blocks_around [OF b] by metis
  have "ys \<noteq> []"
  proof
    assume "ys = []"
    then have "c \<in> set xs" using c(1) bs(1) by (simp add: butlast_append)
    then show False using blocks_distinct [OF b(1)] bs(1) by simp
  qed
  then obtain e zs where ys: "ys = e # zs" by (cases ys) auto
  have "blocks_from s (last (0 # xs)) (c # e # zs)" using b(1) unfolding bs ys blocks_from_append by blast
  then have "c < e" "e < umm_numblocks s" by simp_all
  moreover have "c \<noteq> 0" using blocks_distinct [OF b(1)] b(2) by auto
  moreover have "next_block c s = e" using bs ys by simp
  ultimately show ?thesis using that [of xs e zs] bs ys next_block_small(1) [of c s] by simp
qed

lemma between_small: "\<not> bit e 15 \<Longrightarrow> d < e \<Longrightarrow> \<not> bit d 15" for d e :: u16
  unfolding small_iff [symmetric] by simp

lemma free_part_links:
  assumes "c \<noteq> d" and "UMM_PFREE c s \<noteq> c" and "UMM_NFREE c s \<noteq> d" and "UMM_PFREE c s \<noteq> d"
    and t: "t = set_NFREE d (UMM_NFREE c (set_NFREE (UMM_PFREE c s) d s)) (set_PFREE (UMM_NFREE c s) d (set_PFREE d (UMM_PFREE c s) (set_NFREE (UMM_PFREE c s) d s)))"
  shows "UMM_NFREE x t = (if x = d then UMM_NFREE c s else if x = UMM_PFREE c s then d else UMM_NFREE x s)"
    and "UMM_PFREE x t = (if x = UMM_NFREE c s then d else if x = d then UMM_PFREE c s else UMM_PFREE x s)"
    and "UMM_PBLOCK x t = UMM_PBLOCK x s" and "next_block x t = next_block x s" and "is_free x t = is_free x s"
  using assms(1-4) by (simp_all add: t)

lemma take_fields [simp]:
  "umm_heap (take_block c sz k s) = umm_heap s" "free_blocks (take_block c sz k s) = free_blocks s"
  "umm_numblocks (take_block c sz k s) = umm_numblocks s"
  by (simp_all add: take_block_def disconnect_links Let_def)

lemma take_lists:
  assumes h: "heap_lists s bs fs" and c: "c \<in> set fs" and d: "c < c + k" "c + k < next_block c s" and sz: "sz \<noteq> k"
  shows "heap_lists (take_block c sz k s) (insort (c + k) bs) (map (\<lambda>x. if x = c then c + k else x) fs)"
    and "next_block x (take_block c sz k s) = (if x = c then c + k else if x = c + k then next_block c s else next_block x s)"
    and "c + k \<notin> set bs"
proof -
  let ?d = "c + k"
  let ?t = "take_block c sz k s"
  let ?u = "umm_split_block c k UMM_FREELIST_MASK s"
  have cb: "c \<in> set (butlast bs)" using h c by (auto simp: heap_lists_def)
  from inner_block [OF h this] obtain xs e ys where bs: "bs = xs @ c # e # ys" and e: "next_block c s = e" "c \<noteq> 0" "e < umm_numblocks s"
    "\<not> bit e 15" .
  have bf: "blocks_from s 0 bs" and ff: "free_from s 0 fs" "distinct fs" and sub: "set fs \<subseteq> set (butlast bs)"
    and fr: "\<forall>b \<in> set (0 # bs). is_free b s \<longleftrightarrow> b \<in> set fs"
    using h by (simp_all add: heap_lists_def)
  obtain us vs where fs: "fs = us @ c # vs" and pf: "UMM_PFREE c s = last (0 # us)" and nf: "UMM_NFREE c s = hd (vs @ [0])"
    using free_around [OF ff(1) c] .
  have ds: "?d \<noteq> c" "?d < e" "\<not> bit ?d 15" using d e between_small by (auto simp del: add_cancel_left_right)
  have "next_block c s \<noteq> ?d" using ds(2) e(1) by auto
  note sl = split_links [OF ds(1,3) this, of UMM_FREELIST_MASK, simplified]
  have "e \<noteq> ?d" using ds(2) by auto
  have dn: "?d \<notin> set bs" and bu: "blocks_from ?u 0 (insort ?d bs)"
    using split_blocks [OF bf [unfolded bs], of ?d ?u] d ds(2) e(1) \<open>e \<noteq> ?d\<close> sl unfolding bs by simp_all
  show "?d \<notin> set bs" by (rule dn)
  have "?d \<noteq> 0" using d(1) by auto
  have dz: "?d \<notin> set (0 # fs)" using dn sub \<open>?d \<noteq> 0\<close> in_set_butlastD by fastforce
  have nz: "0 \<notin> set fs" using ff(1) free_seg_nonzero free_from_seg by auto
  have "last (0 # us) \<in> set (0 # us)" by (rule last_in_set) simp
  then have pin: "UMM_PFREE c s \<in> set (0 # us)" using pf by simp
  have nin: "UMM_NFREE c s \<in> set (0 # vs)" using nf by (cases vs) auto
  have a: "c \<noteq> ?d" "UMM_PFREE c ?u \<noteq> c" "UMM_NFREE c ?u \<noteq> ?d" "UMM_PFREE c ?u \<noteq> ?d"
    using pin nin dz ds(1) ff(2) nz unfolding sl fs by (auto simp del: add_cancel_left_right)
  have "?t = set_NFREE ?d (UMM_NFREE c (set_NFREE (UMM_PFREE c ?u) ?d ?u))
      (set_PFREE (UMM_NFREE c ?u) ?d (set_PFREE ?d (UMM_PFREE c ?u) (set_NFREE (UMM_PFREE c ?u) ?d ?u)))"
    using sz a by (simp add: take_block_def Let_def del: add_cancel_left_right)
  note tl = free_part_links [OF a this, unfolded sl]
  show nx: "next_block x ?t = (if x = c then ?d else if x = ?d then next_block c s else next_block x s)" for x by (rule tl)
  have "blocks_from ?t 0 (insort ?d bs) = blocks_from ?u 0 (insort ?d bs)"
    by (rule blocks_from_frame) (simp_all add: tl sl)
  with bu have B: "blocks_from ?t 0 (insort ?d bs)" by simp
  have m: "map (\<lambda>x. if x = c then ?d else x) fs = us @ ?d # vs" using ff(2) unfolding fs by (auto intro: map_idI)
  have F: "free_from ?t 0 (us @ ?d # vs)"
  proof (rule free_from_put [where zs = "[c]" and s = s])
    show "free_from s 0 (us @ [c] @ vs)" "distinct (us @ [c] @ vs)" "?d \<notin> set (us @ [c] @ vs)"
      using ff dz fs by simp_all
    show "?d \<noteq> 0" "?d < umm_numblocks s" using \<open>?d \<noteq> 0\<close> ds(2) e(3) by (blast, order)
    show "UMM_NFREE x ?t = (if x = last (0 # us) then ?d else UMM_NFREE x s)" if "x \<in> set (0 # us @ vs)" for x
    proof -
      have "x \<noteq> ?d" using that dz fs by auto
      then show ?thesis unfolding tl pf by simp
    qed
    show "UMM_PFREE x ?t = (if x = UMM_NFREE (last (last (0 # us) # [c])) s then ?d else UMM_PFREE x s)" if "x \<in> set (us @ vs)" for x
    proof -
      have "x \<noteq> ?d" using that dz fs by auto
      then show ?thesis unfolding tl by simp
    qed
    show "UMM_NFREE ?d ?t = UMM_NFREE (last (last (0 # us) # [c])) s" unfolding tl by simp
    have "?d \<noteq> UMM_NFREE c s" using a(3) unfolding sl by metis
    then show "UMM_PFREE ?d ?t = last (0 # us)" unfolding tl pf by simp
  qed simp
  have D: "distinct (us @ ?d # vs)" using ff(2) dz unfolding fs by auto
  have "insort ?d bs \<noteq> []" by (metis empty_iff list.set(1) set_insort_key insertI1)
  moreover have "\<forall>b \<in> set (0 # insort ?d bs). is_free b ?t \<longleftrightarrow> b \<in> set (us @ ?d # vs)"
  proof
    fix b
    assume "b \<in> set (0 # insort ?d bs)"
    then have b: "b = ?d \<or> b \<in> set (0 # bs)" by (auto simp: set_insort_key)
    have r: "is_free b ?t \<longleftrightarrow> (if b = c then False else if b = ?d then True else is_free b s)" unfolding tl by simp
    show "is_free b ?t \<longleftrightarrow> b \<in> set (us @ ?d # vs)"
    proof (cases "b = ?d")
      case True
      then show ?thesis using r a(1) by (metis in_set_conv_decomp)
    next
      case False
      then have "is_free b s \<longleftrightarrow> b \<in> set fs" using b fr by blast
      then show ?thesis using False r ff(2) unfolding fs by (simp del: add_cancel_left_right)
    qed
  qed
  moreover have "set (us @ ?d # vs) \<subseteq> set (butlast (insort ?d bs))"
  proof -
    have s: "sorted_wrt (<) bs" using blocks_sorted [OF bf] by simp
    have i: "insort ?d bs = (xs @ [c]) @ ?d # e # ys" unfolding bs
      using insort_middle [OF s [unfolded bs] d(1) ds(2)] by simp
    have "butlast (insort ?d bs) = xs @ c # ?d # butlast (e # ys)" unfolding i by (subst butlast_keep) simp
    moreover have "butlast bs = xs @ c # butlast (e # ys)" unfolding bs by (rule butlast_keep)
    ultimately show ?thesis using sub fs by auto
  qed
  ultimately show "heap_lists ?t (insort ?d bs) (map (\<lambda>x. if x = c then ?d else x) fs)"
    using h B F D unfolding m heap_lists_def take_fields by blast
qed

end
