(* ===== verification/Umm_Live.thy ===== *)
theory Umm_Live
  imports Umm_Heap
begin

text \<open>
  What umm_malloc and umm_free promise: they keep the invariant of Umm_Heap, umm_malloc hands out blocks that were free,
  umm_free takes back that block, and no other block changes.
\<close>

section \<open>The used blocks\<close>

text \<open>Each used block with the block where it ends.\<close>

definition live :: "umm \<Rightarrow> u16 list \<Rightarrow> u16 list \<Rightarrow> u16 \<rightharpoonup> u16" where
  "live s bs fs b = (if b \<in> set (butlast bs) \<and> b \<notin> set fs then Some (next_block b s) else None)"

definition extent :: "umm \<Rightarrow> u16 \<Rightarrow> u32" where
  "extent s b = ucast (next_block b s) - ucast b"

lemma counted_extent: "counted s fs \<longleftrightarrow> free_blocks s = sum (extent s) (set fs)"
  by (simp add: counted_def extent_def)

lemma extent_other: "(\<And>x. x \<noteq> c \<Longrightarrow> next_block x t = next_block x s) \<Longrightarrow> c \<notin> A \<Longrightarrow> sum (extent t) A = sum (extent s) A"
  unfolding extent_def by (rule sum.cong [OF refl]) metis

lemma butlast_remove1:
  assumes "distinct xs" and "n \<in> set (butlast xs)"
  shows "last (remove1 n xs) = last xs" and "set (butlast (remove1 n xs)) = set (butlast xs) - {n}"
proof -
  have x: "xs = butlast xs @ [last xs]" using assms(2) by (cases xs rule: rev_cases) auto
  then have "n \<noteq> last xs" using assms by (metis last_notin_butlast)
  have "remove1 n xs = remove1 n (butlast xs) @ [last xs]" using assms(2) by (subst x) (simp add: remove1_append)
  moreover have "distinct (butlast xs)" using assms(1) by (rule distinct_butlast)
  ultimately show "last (remove1 n xs) = last xs" "set (butlast (remove1 n xs)) = set (butlast xs) - {n}" by simp_all
qed

lemma heap_lists_counter: "heap_lists (s\<lparr>free_blocks := v\<rparr>) bs fs = heap_lists s bs fs"
proof -
  have "blocks_from (s\<lparr>free_blocks := v\<rparr>) p bs = blocks_from s p bs" for p
    by (rule blocks_from_frame) (simp_all add: next_block_def link_def UMM_BLOCK_def)
  moreover have "free_from (s\<lparr>free_blocks := v\<rparr>) p fs = free_from s p fs" for p
    by (rule free_from_frame) (simp_all add: link_def UMM_BLOCK_def)
  moreover have "is_free b (s\<lparr>free_blocks := v\<rparr>) = is_free b s" for b by (simp add: is_free_def link_def UMM_BLOCK_def)
  ultimately show ?thesis by (simp add: heap_lists_def)
qed

lemma counter_reads [simp]:
  "link f b (s\<lparr>free_blocks := v\<rparr>) = link f b s" "next_block b (s\<lparr>free_blocks := v\<rparr>) = next_block b s"
  "link f b (s\<lparr>oom_count := v\<rparr>) = link f b s" "next_block b (s\<lparr>oom_count := v\<rparr>) = next_block b s"
  "UMM_BLOCK b (s\<lparr>free_blocks := v\<rparr>) = UMM_BLOCK b s"
  by (simp_all add: next_block_def link_def UMM_BLOCK_def)

lemma block_of_data [simp]: "block_of (UMM_DATA c s) s = c"
proof -
  have "unat (8 * ucast c + 4 :: u32) = 8 * unat c + 4" using unat_offset [of 4 c] by simp
  then have "unat ((8 * ucast c + 4) div 8 :: u32) = unat c" by (simp add: unat_div)
  moreover have "unat c < 65536" using unsigned_less [of c] by simp
  ultimately have "ucast ((8 * ucast c + 4) div 8 :: u32) = c" by (simp add: word_unat_eq_iff unsigned_ucast_eq take_bit_nat_eq_self)
  then show ?thesis by (simp add: block_of_def UMM_DATA_def UMM_BLOCK_def add.assoc)
qed

section \<open>Freeing\<close>

lemma up_inv:
  assumes h: "heap_lists s bs fs" and c: "c \<in> set (butlast bs)" "c \<notin> set fs" and co: "coalesced s fs"
    and k: "free_blocks s = sum (extent s) (set fs) + extent s c"
  obtains bs' fs' where "heap_lists (umm_assimilate_up c s) bs' fs'" "coalesced (umm_assimilate_up c s) fs'"
    "free_blocks s = sum (extent (umm_assimilate_up c s)) (set fs') + extent (umm_assimilate_up c s) c"
    "next_block c (umm_assimilate_up c s) \<notin> set fs'" "c \<in> set (butlast bs')" "c \<notin> set fs'"
    "last bs' = last bs" "set (butlast bs') - set fs' = set (butlast bs) - set fs"
    "\<And>x. x \<noteq> c \<Longrightarrow> next_block x (umm_assimilate_up c s) = next_block x s"
    "set fs' \<subseteq> set fs" "UMM_PBLOCK c (umm_assimilate_up c s) = UMM_PBLOCK c s"
proof -
  let ?n = "next_block c s" and ?t = "umm_assimilate_up c s"
  from used_block [OF h c] obtain xs e ys where bs: "bs = xs @ c # e # ys" and u: "\<not> is_free c s" and ce: "c < ?n" and ne: "?n = e" by metis
  have fr: "is_free ?n s \<longleftrightarrow> ?n \<in> set fs" using h unfolding heap_lists_def bs ne by simp
  have l: "heap_lists ?t (if ?n \<in> set fs then remove1 ?n bs else bs) (remove1 ?n fs)" by (rule up_lists [OF h c])
  show ?thesis
  proof (cases "?n \<in> set fs")
    case False
    then have "?t = s" using up_eq [OF u] fr by simp
    then show ?thesis using that [of bs fs] h c co k False by simp
  next
    case True
    let ?bs = "remove1 ?n bs" and ?fs = "remove1 ?n fs"
    have d: "distinct fs" "distinct bs" using h lists_distinct [OF h] by (simp_all add: heap_lists_def)
    have nb: "?n \<in> set (butlast bs)" using True h by (auto simp: heap_lists_def)
    have nx: "next_block x ?t = (if x = c then next_block ?n s else next_block x s)" for x
      using up_links(1) [OF u] True fr by simp
    have sf: "set ?fs = set fs - {?n}" using d(1) by simp
    have nn: "next_block ?n s \<notin> set fs" using co True by (auto simp: coalesced_def)
    have b: "last ?bs = last bs" "set (butlast ?bs) = set (butlast bs) - {?n}" using butlast_remove1 [OF d(2) nb] .
    show ?thesis
    proof (rule that [of ?bs ?fs])
      show "heap_lists ?t ?bs ?fs" using l True by simp
      show "coalesced ?t ?fs" using co nn unfolding coalesced_def sf nx by (simp split: if_splits) 
      have "sum (extent ?t) (set ?fs) = sum (extent s) (set fs - {?n})" unfolding sf
        by (rule extent_other [of c]) (use c nx in auto)
      moreover have "sum (extent s) (set fs) = extent s ?n + sum (extent s) (set fs - {?n})"
        using True by (intro sum.remove) simp_all
      ultimately show "free_blocks s = sum (extent ?t) (set ?fs) + extent ?t c"
        unfolding k by (simp add: extent_def nx)
      show "next_block c ?t \<notin> set ?fs" using nn unfolding nx sf by simp
      show "c \<in> set (butlast ?bs)" "c \<notin> set ?fs" using c ce unfolding b sf by auto
      show "set (butlast ?bs) - set ?fs = set (butlast bs) - set fs" using True unfolding b sf by blast
      show "next_block x ?t = next_block x s" if "x \<noteq> c" for x using that by (simp add: nx)
      have "next_block ?n s \<noteq> c"
      proof -
        from inner_block [OF h nb] have "?n < next_block ?n s" by metis
        then show ?thesis using ce by order
      qed
      then show "UMM_PBLOCK c ?t = UMM_PBLOCK c s" using u True fr by (simp add: up_eq disconnect_links)
    qed (use b sf in auto)
  qed
qed


lemma down_inv:
  assumes h: "heap_lists s bs fs" and co: "coalesced s fs" and c: "c \<in> set (butlast bs)" "c \<notin> set fs" and nc: "next_block c s \<notin> set fs"
    and k: "free_blocks s = sum (extent s) (set fs) + extent s c" and p: "UMM_PBLOCK c s \<in> set fs"
  shows "heap_inv (snd (umm_assimilate_down c UMM_FREELIST_MASK s)) (remove1 c bs) fs"
    and "live (snd (umm_assimilate_down c UMM_FREELIST_MASK s)) (remove1 c bs) fs = (live s bs fs)(c := None)"
    and "last (remove1 c bs) = last bs"
proof -
  let ?p = "UMM_PBLOCK c s" and ?t = "snd (umm_assimilate_down c UMM_FREELIST_MASK s)"
  have "0 \<notin> set fs" using h free_seg_nonzero unfolding heap_lists_def free_from_seg by blast
  then have p0: "?p \<noteq> 0" using p by metis
  have "UMM_FREELIST_MASK = (if ?p \<in> set fs then UMM_FREELIST_MASK else 0)" using p by simp
  note d = down_lists [OF h c p0 this]
  have n: "next_block ?p s = c"
  proof -
    from used_block [OF h c] obtain xs e ys where bs: "bs = xs @ c # e # ys" and pc: "?p = last (0 # xs)" by metis
    have "block_seg s 0 (xs @ [c])"
      using h unfolding heap_lists_def bs blocks_from_seg by (metis append_Cons append_Nil append_assoc block_seg_append)
    then have "block_seg s (last (0 # xs)) [c]" unfolding block_seg_append by blast
    then show ?thesis unfolding pc by simp
  qed
  have ds: "distinct bs" "distinct fs" using lists_distinct [OF h] h by (simp_all add: heap_lists_def)
  note b = butlast_remove1 [OF ds(1) c(1)]
  show "last (remove1 c bs) = last bs" by (rule b)
  have "coalesced ?t fs" using co nc unfolding coalesced_def d by (simp split: if_splits)
  moreover have "sum (extent ?t) (set fs - {?p}) = sum (extent s) (set fs - {?p})"
    by (rule extent_other [of ?p]) (simp_all add: d)
  then have "sum (extent ?t) (set fs) = sum (extent s) (set fs) + extent s c"
    using sum.remove [OF _ p, of "extent ?t"] sum.remove [OF _ p, of "extent s"] d(3) n by (simp add: extent_def)
  then have "counted ?t fs" unfolding counted_extent down_fields k by simp
  ultimately show "heap_inv ?t (remove1 c bs) fs" using d(2) by (simp add: heap_inv_def)
  show "live ?t (remove1 c bs) fs = (live s bs fs)(c := None)"
    using p by (intro ext) (auto simp: live_def b d(3))
qed

lemma push_inv:
  assumes h: "heap_lists s bs fs" and co: "coalesced s fs" and c: "c \<in> set (butlast bs)" "c \<notin> set fs" and nc: "next_block c s \<notin> set fs"
    and k: "free_blocks s = sum (extent s) (set fs) + extent s c" and p: "UMM_PBLOCK c s \<notin> set fs"
  shows "heap_inv (push_free c s) bs (c # fs)" and "live (push_free c s) bs (c # fs) = (live s bs fs)(c := None)"
proof -
  let ?t = "push_free c s"
  from used_block [OF h c] have c0: "c \<noteq> 0" "c < next_block c s" by metis+
  have l: "heap_lists ?t bs (c # fs)" by (rule push_lists [OF h c])
  have "next_block x s \<noteq> c" if "x \<in> set fs" for x
  proof
    assume n: "next_block x s = c"
    have xb: "x \<in> set (butlast bs)" using h that unfolding heap_lists_def by blast
    then have "blocks_from s 0 bs" "x \<in> set bs" using h in_set_butlastD by (simp add: heap_lists_def, fast)
    moreover from inner_block [OF h xb] obtain xs e ys where bs: "bs = xs @ x # e # ys" "next_block x s = e" by metis
    ultimately have "UMM_PBLOCK c s = x" using n unfolding bs blocks_from_append by simp
    then show False using p that by simp
  qed
  moreover have "next_block c s \<noteq> c" using c0(2) by auto
  ultimately have "coalesced ?t (c # fs)" using co nc by (auto simp: coalesced_def push_links [OF c0(1)])
  moreover have "extent ?t = extent s" by (rule ext) (simp add: extent_def push_links [OF c0(1)])
  then have "counted ?t (c # fs)" using c(2) by (simp add: counted_extent push_links [OF c0(1)] k)
  ultimately show "heap_inv ?t bs (c # fs)" using l by (simp add: heap_inv_def)
  show "live ?t bs (c # fs) = (live s bs fs)(c := None)"
    by (rule ext) (simp add: live_def push_links [OF c0(1)])
qed

lemma free_core_eq:
  assumes "\<not> is_free c s"
  shows "umm_free_core (UMM_DATA c s) s =
    (let u = umm_assimilate_up c (s\<lparr>free_blocks := free_blocks s + extent s c\<rparr>) in
     if is_free (UMM_PBLOCK c u) u then snd (umm_assimilate_down c UMM_FREELIST_MASK u) else push_free c u)"
proof -
  have "ucast (UMM_NBLOCK c s) - ucast c = extent s c" using assms by (simp add: next_block_used extent_def)
  then show ?thesis unfolding umm_free_core_def block_of_data Let_def is_free_def push_free_def by (simp only:)
qed

lemma free_inv:
  assumes inv: "heap_inv s bs fs" and l: "live s bs fs c = Some e"
  obtains bs' fs' where "heap_inv (umm_free_core (UMM_DATA c s) s) bs' fs'" "last bs' = last bs"
    "live (umm_free_core (UMM_DATA c s) s) bs' fs' = (live s bs fs)(c := None)"
    "next_block 0 (umm_free_core (UMM_DATA c s) s) = next_block 0 s"
proof -
  have c: "c \<in> set (butlast bs)" "c \<notin> set fs" using l by (simp_all add: live_def split: if_splits)
  let ?s = "s\<lparr>free_blocks := free_blocks s + extent s c\<rparr>"
  let ?u = "umm_assimilate_up c ?s"
  have h: "heap_lists s bs fs" and k: "coalesced s fs" "counted s fs" using inv by (simp_all add: heap_inv_def)
  have h': "heap_lists ?s bs fs" using h by (simp add: heap_lists_counter)
  have nf: "\<not> is_free c s" using used_block [OF h c] by metis
  have x: "extent (s\<lparr>free_blocks := v\<rparr>) = extent s" for v by (rule ext) (simp add: extent_def)
  have "coalesced ?s fs" using k(1) by (simp add: coalesced_def)
  moreover have "free_blocks ?s = sum (extent ?s) (set fs) + extent ?s c" using k(2) by (simp add: x counted_extent)
  ultimately obtain bs1 fs1 where u: "heap_lists ?u bs1 fs1" "coalesced ?u fs1" "next_block c ?u \<notin> set fs1"
      "c \<in> set (butlast bs1)" "c \<notin> set fs1" "free_blocks ?u = sum (extent ?u) (set fs1) + extent ?u c"
    and r: "last bs1 = last bs" "set (butlast bs1) - set fs1 = set (butlast bs) - set fs"
      "\<And>x. x \<noteq> c \<Longrightarrow> next_block x ?u = next_block x ?s"
    by (rule up_inv [OF h' c]) simp
  have le: "(live ?u bs1 fs1)(c := None) = (live s bs fs)(c := None)"
  proof
    fix x
    have "x \<in> set (butlast bs1) \<and> x \<notin> set fs1 \<longleftrightarrow> x \<in> set (butlast bs) \<and> x \<notin> set fs" using r(2) by blast
    then show "((live ?u bs1 fs1)(c := None)) x = ((live s bs fs)(c := None)) x" using r(3) [of x] by (auto simp: live_def)
  qed
  have pf: "is_free (UMM_PBLOCK c ?u) ?u \<longleftrightarrow> UMM_PBLOCK c ?u \<in> set fs1"
  proof -
    have b: "blocks_from ?u 0 bs1" "c \<in> set bs1" using u(1,4) in_set_butlastD by (auto simp: heap_lists_def)
    from blocks_around [OF this] obtain xs ys where bs1: "bs1 = xs @ c # ys" "UMM_PBLOCK c ?u = last (0 # xs)" .
    have "last (0 # xs) \<in> set (0 # xs)" by (rule last_in_set) simp
    then have "UMM_PBLOCK c ?u \<in> set (0 # bs1)" using bs1 by auto
    then show ?thesis using u(1) unfolding heap_lists_def by blast
  qed
  have eq: "umm_free_core (UMM_DATA c s) s =
      (if UMM_PBLOCK c ?u \<in> set fs1 then snd (umm_assimilate_down c UMM_FREELIST_MASK ?u) else push_free c ?u)"
    unfolding free_core_eq [OF nf] Let_def pf ..
  have c0: "c \<noteq> 0" using inner_block [OF h c(1)] by metis
  then have z: "next_block 0 ?u = next_block 0 s" using r(3) [of 0] by simp
  show ?thesis
  proof (cases "UMM_PBLOCK c ?u \<in> set fs1")
    case True
    note d = down_inv [OF u(1,2,4,5,3,6) True]
    show ?thesis
    proof (rule that [of "remove1 c bs1" fs1])
      have "0 \<notin> set fs1" using u(1) free_seg_nonzero unfolding heap_lists_def free_from_seg by blast
      then have p0: "UMM_PBLOCK c ?u \<noteq> 0" using True by metis
      show "next_block 0 (umm_free_core (UMM_DATA c s) s) = next_block 0 s"
        using down_lists(3) [OF u(1,4,5) p0, of UMM_FREELIST_MASK 0] True p0 z by (simp add: eq)
    qed (use d True le r(1) in \<open>simp_all add: eq\<close>)
  next
    case False
    note d = push_inv [OF u(1,2,4,5,3,6) False]
    show ?thesis by (rule that [of bs1 "c # fs1"]) (use d False le r(1) z in \<open>simp_all add: eq push_links [OF c0]\<close>)
  qed
qed


section \<open>The search\<close>

definition block_size :: "umm \<Rightarrow> u16 \<Rightarrow> u16" where
  "block_size s c = next_block c s - c"

definition scan :: "umm \<Rightarrow> u16 \<Rightarrow> u16 list \<Rightarrow> u16 \<times> u16 \<times> u16 \<Rightarrow> u16 \<times> u16 \<times> u16" where
  "scan s blocks = fold (\<lambda>c (z, b, m). if blocks \<le> block_size s c \<and> block_size s c < m then (block_size s c, c, block_size s c)
     else (block_size s c, b, m))"

lemma best_fit_scan: "free_from s p fs \<Longrightarrow> best_fit blocks (UMM_NFREE p s) z b m s = Some (scan s blocks fs (z, b, m))"
proof (induction fs arbitrary: p z b m)
  case Nil
  then show ?case by (subst best_fit.simps) (simp add: scan_def)
next
  case (Cons c fs)
  then have c: "UMM_NFREE p s = c" "c \<noteq> 0" "free_from s c fs" by simp_all
  show ?case unfolding c(1) using c(2) Cons.IH [OF c(3)]
    by (subst best_fit.simps) (simp add: Let_def scan_def block_size_def)
qed

lemma scan_best:
  assumes "scan s blocks fs (z, b, m) = (z', b', m')"
  shows "m' \<le> m" and "\<forall>c \<in> set fs. blocks \<le> block_size s c \<longrightarrow> m' \<le> block_size s c"
    and "m' = m \<and> b' = b \<or> b' \<in> set fs \<and> block_size s b' = m' \<and> blocks \<le> m' \<and> m' < m"
    and "z' = last (z # map (block_size s) fs)"
proof -
  have "m' \<le> m \<and> (\<forall>c \<in> set fs. blocks \<le> block_size s c \<longrightarrow> m' \<le> block_size s c) \<and>
      (m' = m \<and> b' = b \<or> b' \<in> set fs \<and> block_size s b' = m' \<and> blocks \<le> m' \<and> m' < m) \<and> z' = last (z # map (block_size s) fs)"
    using assms
  proof (induction fs arbitrary: z b m)
    case Nil
    then show ?case by (simp add: scan_def)
  next
    case (Cons c fs)
    let ?z = "block_size s c"
    show ?case
    proof (cases "blocks \<le> ?z \<and> ?z < m")
      case True
      then have "scan s blocks fs (?z, c, ?z) = (z', b', m')" using Cons.prems by (simp add: scan_def)
      from Cons.IH [OF this] True show ?thesis by auto
    next
      case False
      then have "scan s blocks fs (?z, b, m) = (z', b', m')" using Cons.prems by (auto simp: scan_def)
      from Cons.IH [OF this] False show ?thesis by (auto simp: not_less)
    qed
  qed
  then show "m' \<le> m" "\<forall>c \<in> set fs. blocks \<le> block_size s c \<longrightarrow> m' \<le> block_size s c"
    "m' = m \<and> b' = b \<or> b' \<in> set fs \<and> block_size s b' = m' \<and> blocks \<le> m' \<and> m' < m" "z' = last (z # map (block_size s) fs)" by blast+
qed

section \<open>Taking a block\<close>

lemma ucast_diff: "c \<le> e \<Longrightarrow> (ucast (e - c) :: u32) = ucast e - ucast (c :: u16)"
proof -
  assume "c \<le> e"
  then have "unat (e - c) = unat e - unat c" "unat c \<le> unat e" by (simp_all add: unat_sub word_le_nat_alt)
  then have "(of_nat (unat (e - c)) :: u32) = of_nat (unat e) - of_nat (unat c)" by (simp only: of_nat_diff)
  then show ?thesis by (simp only: unsigned_of_nat of_nat_unat ucast_id)
qed

lemma inner_size:
  assumes "heap_lists s bs fs" and "c \<in> set (butlast bs)"
  shows "block_size s c < 0x7FFF" and "c + block_size s c = next_block c s" and "c < next_block c s"
    and "next_block c s \<in> set bs" and "ucast (block_size s c) = extent s c"
proof -
  from inner_block [OF assms] obtain xs e ys where e: "bs = xs @ c # e # ys" "next_block c s = e" "c \<noteq> 0" "c < e" "\<not> bit e 15" .
  then show "next_block c s \<in> set bs" "c < next_block c s" by simp_all
  show "c + block_size s c = next_block c s" by (simp add: block_size_def)
  have "unat e < 0x8000" using e(5) unfolding small_iff [symmetric] by (simp add: word_less_nat_alt)
  moreover have "unat (e - c) = unat e - unat c" using e(4) by (simp add: unat_sub less_imp_le)
  moreover have "unat c \<noteq> 0" using e(3) by (simp add: unat_eq_zero)
  ultimately have "unat (e - c) < 0x7FFF" by linarith
  then show "block_size s c < 0x7FFF" using e(2) by (simp add: block_size_def word_less_nat_alt)
  show "ucast (block_size s c) = extent s c" using e(2,4) by (simp add: block_size_def extent_def ucast_diff less_imp_le)
qed

lemma take_whole_inv:
  assumes inv: "heap_inv s bs fs" and c: "c \<in> set fs" and k: "block_size s c = k"
  defines "t \<equiv> (umm_disconnect_from_free_list c s)\<lparr>free_blocks := free_blocks s - ucast k\<rparr>"
  shows "heap_inv t bs (remove1 c fs) \<and> live t bs (remove1 c fs) = (live s bs fs)(c \<mapsto> c + k) \<and> next_block 0 t = next_block 0 s"
proof (intro conjI)
  have h: "heap_lists s bs fs" and co: "coalesced s fs" and n: "counted s fs" using inv by (simp_all add: heap_inv_def)
  have cb: "c \<in> set (butlast bs)" using h c unfolding heap_lists_def by blast
  have "distinct fs" using h by (simp add: heap_lists_def)
  then have sf: "set (remove1 c fs) = set fs - {c}" by simp
  have nx: "next_block b t = next_block b s" for b using disconnect_links by (simp add: t_def)
  note i = inner_size [OF h cb]
  have F: "sum (extent s) (set fs) = extent s c + sum (extent s) (set fs - {c})" using c by (intro sum.remove) simp_all
  have "heap_lists t bs (remove1 c fs)" using disconnect_lists [OF h c] by (simp add: t_def heap_lists_counter)
  moreover have "coalesced t (remove1 c fs)" using co unfolding coalesced_def nx sf by blast
  moreover have "extent t = extent s" by (rule ext) (simp add: extent_def nx)
  then have "counted t (remove1 c fs)" using n F i(5) k unfolding counted_extent sf by (simp add: t_def)
  ultimately show "heap_inv t bs (remove1 c fs)" by (simp add: heap_inv_def)
  show "live t bs (remove1 c fs) = (live s bs fs)(c \<mapsto> c + k)"
    using cb i(2) k by (intro ext) (auto simp: live_def sf nx)
qed (simp add: t_def disconnect_links)

text \<open>What the split leaves: the map of live blocks gains the front part, the back part is free.\<close>

lemma take_part_live:
  assumes h: "heap_lists s bs fs" and c: "c \<in> set fs" and cd: "c < d" and de: "d < next_block c s"
    and t: "\<And>b. next_block b t = (if b = c then d else if b = d then next_block c s else next_block b s)"
    and sf: "set gs = insert d (set fs - {c})" and dd: "d \<notin> set bs"
  shows "live t (insort d bs) gs = (live s bs fs)(c \<mapsto> d)" and "last (insort d bs) = last bs"
proof -
  have cb: "c \<in> set (butlast bs)" using h c unfolding heap_lists_def by blast
  from inner_block [OF h cb] obtain xs e ys where bs: "bs = xs @ c # e # ys" and e: "next_block c s = e" by metis
  have "sorted_wrt (<) bs" using blocks_sorted h unfolding heap_lists_def by fastforce
  then have b': "insort d bs = xs @ c # d # e # ys" unfolding bs by (rule insort_middle [OF _ cd]) (use de e in simp)
  then show "last (insort d bs) = last bs" unfolding bs by simp
  have "butlast (insort d bs) = xs @ c # d # butlast (e # ys)" unfolding b' using butlast_keep [of "xs @ [c]" d e ys] by simp
  moreover have "butlast bs = xs @ c # butlast (e # ys)" unfolding bs by (rule butlast_keep)
  ultimately have sb: "set (butlast (insort d bs)) = insert d (set (butlast bs))" by auto
  have "d \<noteq> c" "d \<notin> set (butlast bs)" using cd dd in_set_butlastD by fast+
  then show "live t (insort d bs) gs = (live s bs fs)(c \<mapsto> d)"
    using cb by (intro ext) (auto simp: live_def sb sf t)
qed

text \<open>No two free blocks touch after the split, and the counter still counts the free ones.\<close>

lemma take_part_free:
  assumes inv: "heap_inv s bs fs" and c: "c \<in> set fs" and d: "d \<notin> set bs" "d \<noteq> c" "d \<noteq> next_block c s" "unat d = unat c + unat k"
    and t: "\<And>b. next_block b t = (if b = c then d else if b = d then next_block c s else next_block b s)"
    and sf: "set gs = insert d (set fs - {c})" and fb: "free_blocks t = free_blocks s - ucast k"
  shows "coalesced t gs" and "counted t gs"
proof -
  have h: "heap_lists s bs fs" and co: "coalesced s fs" and n: "counted s fs" using inv by (simp_all add: heap_inv_def)
  have sub: "set fs \<subseteq> set (butlast bs)" using h by (simp add: heap_lists_def)
  then have df: "d \<notin> set fs" using d(1) in_set_butlastD by fast
  show "coalesced t gs" unfolding coalesced_def
  proof
    fix b
    assume b: "b \<in> set gs"
    show "next_block b t \<notin> set gs"
    proof (cases "b = d")
      case True
      then show ?thesis using co c d(2,3) by (simp add: coalesced_def t sf)
    next
      case False
      then have "b \<in> set fs" "b \<noteq> c" using b unfolding sf by simp_all
      moreover from this have "next_block b s \<noteq> d" using inner_size(4) [OF h] sub d(1) by (metis subsetD)
      ultimately show ?thesis using co False by (simp add: coalesced_def t sf)
    qed
  qed
  have "sum (extent s) (set fs) = extent s c + sum (extent s) (set fs - {c})" using c by (intro sum.remove) simp_all
  moreover have "sum (extent t) (set gs) = extent t d + sum (extent t) (set fs - {c})" unfolding sf using df by simp
  moreover have "sum (extent t) (set fs - {c}) = sum (extent s) (set fs - {c})"
    using df by (intro sum.cong refl) (auto simp: extent_def t)
  moreover have "(ucast d :: u32) = ucast c + ucast k" by (metis d(4) of_nat_add of_nat_unat)
  then have "extent t d = extent s c - ucast k" using d(2) by (simp add: extent_def t)
  ultimately show "counted t gs" using n by (simp add: counted_extent fb)
qed

lemma take_inv:
  assumes inv: "heap_inv s bs fs" and c: "c \<in> set fs" and k: "k \<noteq> 0" "k \<le> block_size s c"
  defines "t \<equiv> (take_block c (block_size s c) k s)\<lparr>free_blocks := free_blocks s - ucast k\<rparr>"
  obtains bs' fs' where "heap_inv t bs' fs'" "last bs' = last bs" "live t bs' fs' = (live s bs fs)(c \<mapsto> c + k)" "next_block 0 t = next_block 0 s"
proof (cases "block_size s c = k")
  case True
  then have "t = (umm_disconnect_from_free_list c s)\<lparr>free_blocks := free_blocks s - ucast k\<rparr>" by (simp add: t_def take_block_def)
  with take_whole_inv [OF inv c True] show ?thesis using that by blast
next
  case False
  have h: "heap_lists s bs fs" using inv by (simp add: heap_inv_def)
  have cb: "c \<in> set (butlast bs)" using h c unfolding heap_lists_def by blast
  note i = inner_size [OF h cb]
  let ?u = "take_block c (block_size s c) k s" and ?d = "c + k" and ?fs = "map (\<lambda>x. if x = c then c + k else x) fs"
  have sz: "unat (block_size s c) = unat (next_block c s) - unat c"
    using i(3) by (simp add: block_size_def unat_sub less_imp_le)
  have "k < block_size s c" using False k(2) by simp
  then have kb: "unat c + unat k < unat (next_block c s)" using i(3) sz by (simp add: word_less_nat_alt)
  moreover have "unat (next_block c s) < 2 ^ LENGTH(16)" by (rule unsigned_less)
  ultimately have nw: "unat ?d = unat c + unat k" by (intro unat_add_lem [THEN iffD1]) simp
  have "unat k \<noteq> 0" using k(1) by (simp add: unat_eq_zero)
  then have cd: "c < ?d" and de: "?d < next_block c s" using nw kb by (simp_all add: word_less_nat_alt)
  note u = take_lists [OF h c cd de False]
  have dd: "?d \<notin> set bs" "?d \<noteq> 0" "?d \<noteq> c" "?d \<noteq> next_block c s" using u(3) cd de by auto
  have nx: "next_block b t = (if b = c then ?d else if b = ?d then next_block c s else next_block b s)" for b
    using u(2) by (simp add: t_def)
  have sf: "set ?fs = insert ?d (set fs - {c})" using c by (auto simp del: add_cancel_left_right)
  have "free_blocks t = free_blocks s - ucast k" by (simp add: t_def)
  note f = take_part_free [OF inv c dd(1,3,4) nw nx sf this] and l = take_part_live [OF h c cd de nx sf dd(1)]
  have "heap_lists t (insort ?d bs) ?fs" using u(1) by (simp add: t_def heap_lists_counter)
  then have "heap_inv t (insort ?d bs) ?fs" using f by (simp add: heap_inv_def)
  moreover have "c \<noteq> 0" using inner_block [OF h cb] by metis
  then have "next_block 0 t = next_block 0 s" using dd(2) by (simp add: nx)
  ultimately show ?thesis using that l by blast
qed


lemma malloc_inv:
  assumes inv: "heap_inv s bs fs" and k: "umm_blocks sz \<noteq> 0" and c: "c \<in> set fs" "umm_blocks sz \<le> block_size s c"
  obtains d t bs' fs' where "umm_malloc_core sz s = Some (UMM_DATA d s, t)" "d \<in> set fs" "umm_blocks sz \<le> block_size s d"
    "\<forall>c \<in> set fs. umm_blocks sz \<le> block_size s c \<longrightarrow> block_size s d \<le> block_size s c"
    "heap_inv t bs' fs'" "last bs' = last bs" "live t bs' fs' = (live s bs fs)(d \<mapsto> d + umm_blocks sz)"
    "next_block 0 t = next_block 0 s"
    "t = (take_block d (block_size s d) (umm_blocks sz) s)\<lparr>free_blocks := free_blocks s - ucast (umm_blocks sz)\<rparr>"
proof -
  have h: "heap_lists s bs fs" using inv by (simp add: heap_inv_def)
  then have f: "free_from s 0 fs" and sub: "set fs \<subseteq> set (butlast bs)" by (simp_all add: heap_lists_def)
  obtain z d m where r: "scan s (umm_blocks sz) fs (0, UMM_NFREE 0 s, 0x7FFF) = (z, d, m)" by (metis surj_pair)
  note b = scan_best [OF r]
  have "m \<le> block_size s c" using b(2) c by blast
  moreover have "block_size s c < 0x7FFF" using inner_size(1) [OF h] sub c(1) by blast
  ultimately have m: "m \<noteq> 0x7FFF" by (metis not_less)
  then have d: "d \<in> set fs" "block_size s d = m" "umm_blocks sz \<le> m" using b(3) by auto
  obtain t bs' fs' where t: "t = (take_block d (block_size s d) (umm_blocks sz) s)\<lparr>free_blocks := free_blocks s - ucast (umm_blocks sz)\<rparr>"
    "heap_inv t bs' fs'" "last bs' = last bs" "live t bs' fs' = (live s bs fs)(d \<mapsto> d + umm_blocks sz)"
    "next_block 0 t = next_block 0 s"
    using take_inv [OF inv d(1) k] d by metis
  have "d < next_block d s" using inner_size(3) [OF h] sub d(1) by blast
  then have "UMM_NBLOCK d s AND UMM_BLOCKNO_MASK \<noteq> 0" by (auto simp: flagged_next)
  then have "umm_malloc_core sz s = Some (UMM_DATA d s, t)" unfolding t(1)
    using d m by (simp add: umm_malloc_core_def best_fit_scan [OF f] r Let_def UMM_DATA_def UMM_BLOCK_def del: flagged_next)
  then show ?thesis by (rule that [OF _ d(1) _ _ t(2,3,4,5,1)]) (use d b(2) in simp_all)
qed

lemma malloc_full:
  assumes inv: "heap_inv s bs fs" and k: "umm_blocks sz \<noteq> 0" and c: "\<forall>c \<in> set fs. block_size s c < umm_blocks sz"
  shows "umm_malloc_core sz s = Some (0, s\<lparr>oom_count := oom_count s + 1\<rparr>)"
proof -
  have f: "free_from s 0 fs" using inv by (simp add: heap_inv_def heap_lists_def)
  obtain z d m where r: "scan s (umm_blocks sz) fs (0, UMM_NFREE 0 s, 0x7FFF) = (z, d, m)" by (metis surj_pair)
  note b = scan_best [OF r]
  have m: "m = 0x7FFF" using b(3) c by (auto simp: not_le [symmetric])
  have "z < umm_blocks sz"
  proof (cases "fs = []")
    case True
    then show ?thesis using b(4) k by (simp add: word_neq_0_conv)
  next
    case False
    then have "last fs \<in> set fs" by (rule last_in_set)
    then show ?thesis using b(4) c False by (simp add: last_map)
  qed
  then have "\<not> umm_blocks sz \<le> z" by (simp add: not_le)
  then show ?thesis using m by (simp add: umm_malloc_core_def best_fit_scan [OF f] r Let_def)
qed

end
