(* ===== verification/Umm_Frame.thy ===== *)
theory Umm_Frame
  imports Umm_Live
begin

text \<open>
  Which bytes umm_malloc and umm_free write: the links of blocks they have to, never the contents of a used block.
\<close>

section \<open>Which bytes change\<close>

definition payload :: "umm \<Rightarrow> u16 \<Rightarrow> u16 \<Rightarrow> u32 set" where
  "payload s b e = {a. 8 * ucast b + 4 \<le> a - umm_heap s \<and> a - umm_heap s < 8 * ucast e}"

text \<open>The links in \<open>T\<close>, each a block and the offset of a link in it, are all that is different.\<close>

definition only :: "(u16 \<times> u32) set \<Rightarrow> umm \<Rightarrow> umm \<Rightarrow> bool" where
  "only T s t \<longleftrightarrow> umm_heap t = umm_heap s \<and> heap_start t = heap_start s \<and>
     (\<forall>a. (\<forall>x f. (x, f) \<in> T \<longrightarrow> a \<noteq> UMM_BLOCK x s + f \<and> a \<noteq> UMM_BLOCK x s + f + 1) \<longrightarrow> ram_bytes t a = ram_bytes s a)"

definition touch :: "u16 set \<Rightarrow> u16 set \<Rightarrow> (u16 \<times> u32) set" where
  "touch B F = B \<times> {0, 2} \<union> F \<times> {4, 6}"

lemma touch_iff [simp]: "(x, f) \<in> touch B F \<longleftrightarrow> x \<in> B \<and> f \<in> {0, 2} \<or> x \<in> F \<and> f \<in> {4, 6}"
  by (auto simp: touch_def)

lemma only_refl [simp]: "only T s s" "only T s (s\<lparr>free_blocks := n\<rparr>)"
  by (simp_all add: only_def)

lemma only_counters [simp]: "only T s (t\<lparr>free_blocks := n\<rparr>) = only T s t" "only T (s\<lparr>free_blocks := n\<rparr>) t = only T s t"
  by (simp_all add: only_def)

lemma only_set:
  assumes o: "only T s t" and x: "(x, f) \<in> T"
  shows "only T s (set_link f x v t)"
proof -
  have k: "UMM_BLOCK x t = UMM_BLOCK x s" using o by (simp add: only_def UMM_BLOCK_def)
  have "ram_bytes (set_link f x v t) a = ram_bytes s a" if "\<forall>x f. (x, f) \<in> T \<longrightarrow> a \<noteq> UMM_BLOCK x s + f \<and> a \<noteq> UMM_BLOCK x s + f + 1" for a
  proof -
    have "a \<noteq> UMM_BLOCK x t + f" "a \<noteq> UMM_BLOCK x t + f + 1" using that x unfolding k by blast+
    then have "ram_bytes (set_link f x v t) a = ram_bytes t a" by (rule set_link_byte)
    also have "\<dots> = ram_bytes s a" using that o unfolding only_def by blast
    finally show ?thesis .
  qed
  then show ?thesis using o unfolding only_def link_heap by blast
qed

lemma header_offset:
  assumes "f \<in> {0, 2} \<and> (x \<le> b \<or> e \<le> x) \<or> f \<in> {4, 6} \<and> (x < b \<or> e \<le> x)" and "a \<in> payload s b e"
  shows "a \<noteq> UMM_BLOCK x s + f" and "a \<noteq> UMM_BLOCK x s + f + 1"
proof -
  have *: "a \<noteq> UMM_BLOCK x s + g" if "g < (8 :: u32)" "x \<le> b \<and> (x = b \<longrightarrow> g < 4) \<or> e \<le> x" for g
  proof
    assume "a = UMM_BLOCK x s + g"
    then have o: "a - umm_heap s = 8 * ucast x + g" by (simp add: UMM_BLOCK_def)
    have g: "unat g < 8" using that(1) by (simp add: word_less_nat_alt)
    have 4: "unat (8 * ucast b + 4 :: u32) = 8 * unat b + 4" and 0: "unat (8 * ucast e :: u32) = 8 * unat e"
      using unat_offset [of 4 b] unat_offset [of 0 e] by simp_all
    have "8 * unat b + 4 \<le> 8 * unat x + unat g" "8 * unat x + unat g < 8 * unat e"
      using assms(2) 4 0 unat_offset [OF g, of x] by (simp_all add: payload_def o word_le_nat_alt word_less_nat_alt)
    moreover have "unat x \<le> unat b \<and> (unat x = unat b \<longrightarrow> unat g < 4) \<or> unat e \<le> unat x"
      using that(2) by (simp add: word_le_nat_alt word_less_nat_alt word_unat_eq_iff)
    ultimately show False using g by linarith
  qed
  have "a \<noteq> UMM_BLOCK x s + f" "a \<noteq> UMM_BLOCK x s + (f + 1)" using assms(1) by (intro *; auto)+
  then show "a \<noteq> UMM_BLOCK x s + f" "a \<noteq> UMM_BLOCK x s + f + 1" by (simp_all add: add.assoc)
qed

lemma only_payload:
  assumes "only (touch B F) s t" and "a \<in> payload s b e"
    and "\<forall>x \<in> B. x \<le> b \<or> e \<le> x" and "\<forall>x \<in> F. x < b \<or> e \<le> x"
  shows "ram_bytes t a = ram_bytes s a"
proof -
  have "a \<noteq> UMM_BLOCK x s + f \<and> a \<noteq> UMM_BLOCK x s + f + 1" if "(x, f) \<in> touch B F" for x f
  proof -
    have "f \<in> {0, 2} \<and> (x \<le> b \<or> e \<le> x) \<or> f \<in> {4, 6} \<and> (x < b \<or> e \<le> x)" using that assms(3,4) unfolding touch_iff by blast
    from header_offset [OF this assms(2)] show ?thesis by blast
  qed
  then show ?thesis using assms(1) unfolding only_def by blast
qed

lemma disconnect_only:
  "only (touch B F) s t \<Longrightarrow> c \<in> B \<Longrightarrow> UMM_PFREE c t \<in> F \<Longrightarrow> UMM_NFREE c t \<in> F \<Longrightarrow> only (touch B F) s (umm_disconnect_from_free_list c t)"
  by (simp add: umm_disconnect_from_free_list_def Let_def only_set)

lemma push_only:
  "only (touch B F) s t \<Longrightarrow> c \<in> B \<Longrightarrow> c \<in> F \<Longrightarrow> 0 \<in> F \<Longrightarrow> UMM_NFREE 0 t \<in> F \<Longrightarrow> only (touch B F) s (push_free c t)"
  by (simp add: push_free_def Let_def only_set)

lemma split_only:
  assumes "only (touch B F) s t" and "c \<in> B" and "c + k \<in> B" and "next_block c t \<in> B" and "c + k \<noteq> c"
  shows "only (touch B F) s (umm_split_block c k fm t)"
  using assms by (simp add: umm_split_block_def Let_def only_set)

text \<open>The neighbours of a block in the two lists.\<close>

lemma free_neighbours:
  assumes "heap_lists s bs fs" and "c \<in> set (0 # fs)"
  shows "UMM_NFREE c s \<in> set (0 # fs)" and "c \<noteq> 0 \<Longrightarrow> UMM_PFREE c s \<in> set (0 # fs)"
proof -
  have f: "free_from s 0 fs" using assms(1) by (simp add: heap_lists_def)
  show "UMM_NFREE c s \<in> set (0 # fs)"
  proof (cases "c = 0")
    case True
    then show ?thesis using f by (cases fs) auto
  next
    case False
    then have "c \<in> set fs" using assms(2) by simp
    from free_around [OF f this] obtain us vs where "fs = us @ c # vs" "UMM_NFREE c s = hd (vs @ [0])" .
    then show ?thesis by (cases vs) auto
  qed
  show "UMM_PFREE c s \<in> set (0 # fs)" if "c \<noteq> 0"
  proof -
    have "c \<in> set fs" using assms(2) that by simp
    from free_around [OF f this] obtain us vs where "fs = us @ c # vs" "UMM_PFREE c s = last (0 # us)" .
    moreover have "last (0 # us) \<in> set (0 # us)" by (rule last_in_set) simp
    ultimately show ?thesis by auto
  qed
qed

lemma block_neighbours:
  assumes "heap_lists s bs fs" and "c \<in> set (butlast bs)"
  shows "next_block c s \<in> set bs" and "UMM_PBLOCK c s \<in> set (0 # bs)"
proof -
  show "next_block c s \<in> set bs" by (rule inner_size(4) [OF assms])
  have b: "blocks_from s 0 bs" "c \<in> set bs" using assms in_set_butlastD by (auto simp: heap_lists_def)
  from blocks_around [OF this] obtain xs ys where bs: "bs = xs @ c # ys" "UMM_PBLOCK c s = last (0 # xs)" .
  have "last (0 # xs) \<in> set (0 # xs)" by (rule last_in_set) simp
  then show "UMM_PBLOCK c s \<in> set (0 # bs)" using bs by auto
qed


lemma free_only:
  assumes h: "heap_lists s bs fs" and c: "c \<in> set (butlast bs)" "c \<notin> set fs"
  shows "only (touch (set (0 # bs)) (insert c (set (0 # fs)))) s (umm_free_core (UMM_DATA c s) s)"
proof -
  let ?T = "touch (set (0 # bs)) (insert c (set (0 # fs)))"
  define s0 where "s0 = s\<lparr>free_blocks := free_blocks s + extent s c\<rparr>"
  let ?n = "next_block c s0" and ?u = "umm_assimilate_up c s0"
  have h0: "heap_lists s0 bs fs" using h by (simp add: s0_def heap_lists_counter)
  have o: "only ?T s s0" by (simp add: s0_def)
  from used_block [OF h0 c] have u: "\<not> is_free c s0" by metis
  have cb: "c \<in> set bs" using c(1) by (rule in_set_butlastD)
  have nb: "?n \<in> set bs" by (rule block_neighbours(1) [OF h0 c(1)])
  have uo: "only ?T s ?u"
  proof (cases "is_free ?n s0")
    case False
    then show ?thesis using o u by (simp add: up_eq)
  next
    case True
    have n: "?n \<in> set fs" using True nb h0 by (simp add: heap_lists_def)
    then have "?n \<in> set (butlast bs)" using h0 unfolding heap_lists_def by blast
    then have nn: "next_block ?n s0 \<in> set bs" by (rule block_neighbours(1) [OF h0])
    have "?n \<noteq> 0" using u True nb lists_distinct [OF h0] by (metis distinct.simps(2))
    then have "only ?T s (umm_disconnect_from_free_list ?n s0)"
      using free_neighbours [OF h0, of ?n] n nb by (intro disconnect_only [OF o]) auto
    then show ?thesis using True u nn cb by (simp add: up_eq only_set)
  qed
  have hu: "heap_lists ?u (if ?n \<in> set fs then remove1 ?n bs else bs) (remove1 ?n fs)" (is "heap_lists _ ?bs ?fs")
    by (rule up_lists [OF h0 c])
  have d: "distinct bs" "distinct fs" using lists_distinct [OF h] h by (simp_all add: heap_lists_def)
  have "?n \<in> set (butlast bs)" if "?n \<in> set fs" using h0 that unfolding heap_lists_def by blast
  moreover have "?n \<noteq> c" using inner_size(3) [OF h0 c(1)] by (metis order_less_irrefl)
  ultimately have cu: "c \<in> set (butlast ?bs)" "c \<notin> set ?fs" using c d(2) butlast_remove1(2) [OF d(1), of ?n] by auto
  have sub: "set ?bs \<subseteq> set bs" "set ?fs \<subseteq> set fs" using set_remove1_subset [of ?n bs] set_remove1_subset [of ?n fs] by auto
  have nu: "UMM_PBLOCK c ?u \<in> set (0 # bs)" "next_block c ?u \<in> set (0 # bs)" "UMM_NFREE 0 ?u \<in> set (0 # fs)"
    using block_neighbours [OF hu cu(1)] free_neighbours(1) [OF hu, of 0] sub by auto
  show ?thesis
  proof (cases "is_free (UMM_PBLOCK c ?u) ?u")
    case False
    have "only ?T s (push_free c ?u)" by (rule push_only [OF uo]) (use cb nu in auto)
    then show ?thesis using False u by (simp add: free_core_eq s0_def Let_def is_free_iff)
  next
    case True
    have "\<not> is_free c ?u" using used_block [OF hu cu] by metis
    then have "UMM_NBLOCK c ?u = next_block c ?u" by (rule next_block_used)
    moreover have "UMM_PBLOCK c ?u \<noteq> c" using True \<open>\<not> is_free c ?u\<close> by metis
    moreover have "next_block c ?u \<noteq> c" using inner_size(3) [OF hu cu(1)] by (metis order_less_irrefl)
    moreover have "only ?T s (set_PBLOCK (next_block c ?u) (UMM_PBLOCK c ?u) (set_NBLOCK (UMM_PBLOCK c ?u) (next_block c ?u OR UMM_FREELIST_MASK) ?u))"
      by (intro only_set uo) (use nu in simp_all)
    ultimately have "only ?T s (snd (umm_assimilate_down c UMM_FREELIST_MASK ?u))" by (simp add: down_eq)
    then show ?thesis using True u by (simp add: free_core_eq s0_def Let_def is_free_iff)
  qed
qed

lemma split_free_links [simp]:
  "UMM_NFREE x (umm_split_block c k fm s) = UMM_NFREE x s" "UMM_PFREE x (umm_split_block c k fm s) = UMM_PFREE x s"
  by (simp_all add: umm_split_block_def Let_def)

lemma take_only:
  assumes h: "heap_lists s bs fs" and c: "c \<in> set fs"
  shows "only (touch (set (0 # bs)) (set (0 # fs))) s (take_block c k k s)"
    and "k \<noteq> 0 \<Longrightarrow> z \<noteq> k \<Longrightarrow> only (touch (insert (c + k) (set (0 # bs))) (insert (c + k) (set (0 # fs)))) s (take_block c z k s)"
proof -
  have cb: "c \<in> set (butlast bs)" using h c unfolding heap_lists_def by blast
  have b: "c \<in> set bs" "next_block c s \<in> set bs" using in_set_butlastD [OF cb] block_neighbours(1) [OF h cb] .
  then have "c \<noteq> 0" using lists_distinct [OF h] by auto
  then have f: "UMM_NFREE c s \<in> set (0 # fs)" "UMM_PFREE c s \<in> set (0 # fs)" using free_neighbours [OF h, of c] c by simp_all
  show "only (touch (set (0 # bs)) (set (0 # fs))) s (take_block c k k s)"
    using b f by (simp add: take_block_def disconnect_only)
  let ?T = "touch (insert (c + k) (set (0 # bs))) (insert (c + k) (set (0 # fs)))"
  assume k: "k \<noteq> 0" "z \<noteq> k"
  have "only ?T s (umm_split_block c k UMM_FREELIST_MASK s)" by (rule split_only) (use b k in auto)
  then show "only ?T s (take_block c z k s)" using k f c by (auto simp: take_block_def Let_def only_set)
qed

section \<open>Other blocks keep their contents\<close>

lemma lists_sorted: "heap_lists s bs fs \<Longrightarrow> sorted_wrt (<) (0 # bs)"
  unfolding heap_lists_def using blocks_sorted by blast

lemma live_order:
  assumes "heap_lists s bs fs" and "live s bs fs b = Some e" and "x \<in> set (0 # bs)"
  shows "x \<le> b \<or> e \<le> x"
proof -
  have b: "b \<in> set (butlast bs)" "next_block b s = e" using assms(2) by (simp_all add: live_def split: if_splits)
  from inner_block [OF assms(1) b(1)] obtain xs ys where bs: "bs = xs @ b # e # ys" using b(2) by metis
  have "sorted_wrt (<) (0 # bs)" by (rule lists_sorted [OF assms(1)])
  then show ?thesis using assms(3) unfolding bs by (auto simp: sorted_wrt_append intro: less_imp_le)
qed

lemma live_bounds:
  assumes "heap_lists s bs fs" and "live s bs fs b = Some e"
  shows "b \<noteq> 0" and "b < e" and "b \<notin> set fs" and "e \<in> set bs" and "b \<in> set bs"
proof -
  have b: "b \<in> set (butlast bs)" "next_block b s = e" "b \<notin> set fs" using assms(2) by (simp_all add: live_def split: if_splits)
  then show "b \<notin> set fs" "b \<in> set bs" using in_set_butlastD by fast+
  show "b < e" "e \<in> set bs" using inner_size(3,4) [OF assms(1) b(1)] b(2) by simp_all
  show "b \<noteq> 0" using \<open>b \<in> set bs\<close> lists_distinct [OF assms(1)] by auto
qed

lemma order_free:
  assumes "heap_lists s bs fs" and "live s bs fs b = Some e" and "x \<in> set (0 # fs)"
  shows "x < b \<or> e \<le> x"
proof -
  have "x \<in> set (0 # bs)" using assms(1,3) in_set_butlastD unfolding heap_lists_def by fastforce
  moreover have "x \<noteq> b" using assms(3) live_bounds [OF assms(1,2)] by auto
  ultimately show ?thesis using live_order [OF assms(1,2)] by (metis order_le_less)
qed

lemma free_keeps:
  assumes h: "heap_lists s bs fs" and l: "live s bs fs b = Some e" "live s bs fs c = Some e'" "b \<noteq> c" and a: "a \<in> payload s b e"
  shows "ram_bytes (umm_free_core (UMM_DATA c s) s) a = ram_bytes s a"
proof -
  have c: "c \<in> set (butlast bs)" "c \<notin> set fs" using l(2) by (simp_all add: live_def split: if_splits)
  have "c \<in> set (0 # bs)" using live_bounds(5) [OF h l(2)] by simp
  from live_order [OF h l(1) this] have "c < b \<or> e \<le> c" using l(3) by (auto simp: order_le_less)
  moreover note live_order [OF h l(1)] order_free [OF h l(1)]
  ultimately show ?thesis by (intro only_payload [OF free_only [OF h c] a]) auto
qed

lemma take_keeps:
  assumes h: "heap_lists s bs fs" and l: "live s bs fs b = Some e" and c: "c \<in> set fs" and k: "k \<noteq> 0" "k \<le> block_size s c"
    and a: "a \<in> payload s b e"
  shows "ram_bytes (take_block c (block_size s c) k s) a = ram_bytes s a"
proof (cases "block_size s c = k")
  case True
  then have "only (touch (set (0 # bs)) (set (0 # fs))) s (take_block c (block_size s c) k s)" using take_only(1) [OF h c] by simp
  then show ?thesis using live_order [OF h l] order_free [OF h l] by (intro only_payload [OF _ a]) blast+
next
  case False
  have cb: "c \<in> set (butlast bs)" using h c unfolding heap_lists_def by blast
  note i = inner_size [OF h cb]
  have d: "c < c + k" "c + k < next_block c s"
  proof -
    have u: "unat (next_block c s) = unat c + unat (block_size s c)"
      using i(3) by (simp add: block_size_def unat_sub less_imp_le word_less_nat_alt)
    have kb: "unat k < unat (block_size s c)" using k(2) False by (simp add: word_le_nat_alt word_unat_eq_iff)
    have "unat (next_block c s) < 2 ^ LENGTH(16)" by (rule unsigned_less)
    then have "unat (c + k) = unat c + unat k" using u kb by (intro unat_add_lem [THEN iffD1]) simp
    moreover have "unat k \<noteq> 0" using k(1) by (simp add: unat_eq_zero)
    ultimately show "c < c + k" "c + k < next_block c s" using u kb by (simp_all add: word_less_nat_alt)
  qed
  have cl: "c < b \<or> e \<le> c" using order_free [OF h l] c by simp
  have "next_block c s \<le> b \<or> b \<le> c"
  proof -
    have "b \<in> set (0 # bs)" using live_bounds(5) [OF h l] by simp
    moreover from inner_block [OF h cb] obtain xs ys where bs: "bs = xs @ c # next_block c s # ys" by metis
    moreover have "sorted_wrt (<) (0 # bs)" by (rule lists_sorted [OF h])
    ultimately show ?thesis unfolding bs by (auto simp: sorted_wrt_append intro: less_imp_le)
  qed
  then have "c + k < b \<or> e \<le> c + k" using d cl by (metis leD less_le_trans less_imp_le order_trans)
  then show ?thesis using live_order [OF h l] order_free [OF h l]
    by (intro only_payload [OF take_only(2) [OF h c k(1) False] a]) (auto intro: less_imp_le)
qed

end
