(* ===== verification/Umm_Owns.thy ===== *)
theory Umm_Owns
  imports Umm_Frame
begin

text \<open>
  The heap after umm_init, what writes outside the links leave as it is, and the relation between the heap and the
  pointers and sizes that the program knows: what umm_malloc and umm_free do to it.
\<close>

section \<open>The heap after umm_init\<close>

text \<open>The heap has at least three blocks, and no more than the links can number.\<close>

definition heap_fits :: "umm \<Rightarrow> bool" where
  "heap_fits s \<longleftrightarrow> 24 \<le> UMM_MALLOC_CFG_HEAP_SIZE s \<and> UMM_MALLOC_CFG_HEAP_SIZE s < 0x40000"

definition last_block :: "umm \<Rightarrow> u16" where
  "last_block s = ucast (UMM_MALLOC_CFG_HEAP_SIZE s div 8) - 1"

lemma last_block_bounds:
  assumes "heap_fits s"
  shows "1 < last_block s" and "8 * unat (last_block s) + 8 \<le> unat (UMM_MALLOC_CFG_HEAP_SIZE s)" and "\<not> bit (last_block s) 15"
    and "ucast (UMM_MALLOC_CFG_HEAP_SIZE s div 8) = last_block s + 1" and "last_block s < last_block s + 1"
    and "unat (last_block s + 1) = unat (last_block s) + 1"
proof -
  let ?h = "UMM_MALLOC_CFG_HEAP_SIZE s" and ?n = "ucast (UMM_MALLOC_CFG_HEAP_SIZE s div 8) :: u16"
  have h: "24 \<le> unat ?h" "unat ?h < 0x40000" using assms by (simp_all add: heap_fits_def word_le_nat_alt word_less_nat_alt)
  have "unat (?h div 8) = unat ?h div 8" by (simp add: unat_div)
  then have n: "unat ?n = unat ?h div 8" using h by (simp add: unsigned_ucast_eq take_bit_nat_eq_self)
  then have "unat ?n \<ge> 3" using h by simp
  then have "1 \<le> ?n" by (simp add: word_le_nat_alt)
  then have l: "unat (last_block s) = unat ?h div 8 - 1" using n by (simp add: last_block_def unat_sub)
  show "1 < last_block s" "8 * unat (last_block s) + 8 \<le> unat ?h" using l h by (simp_all add: word_less_nat_alt) 
  have "unat (last_block s) < 0x8000" using l h by simp
  then show "\<not> bit (last_block s) 15" by (simp add: small_iff [symmetric] word_less_nat_alt)
  show "?n = last_block s + 1" by (simp add: last_block_def)
  then show u: "unat (last_block s + 1) = unat (last_block s) + 1" using n l h by simp
  show "last_block s < last_block s + 1" by (simp add: word_less_nat_alt u)
qed

definition zero_heap :: "umm \<Rightarrow> umm" where
  "zero_heap s = (memset (heap_start s) 0 (UMM_MALLOC_CFG_HEAP_SIZE s)
      (s\<lparr>umm_heap := heap_start s, umm_numblocks := last_block s + 1\<rparr>))\<lparr>free_blocks := ucast (last_block s + 1) - 2\<rparr>"

lemma zero_heap_fields [simp]: "umm_heap (zero_heap s) = heap_start s" "umm_numblocks (zero_heap s) = last_block s + 1"
  "free_blocks (zero_heap s) = ucast (last_block s + 1) - 2" "heap_start (zero_heap s) = heap_start s"
  by (simp_all add: zero_heap_def memset_def)

lemma init_eq:
  assumes "heap_fits s"
  shows "umm_init s = set_PBLOCK (last_block s) 1 (set_NBLOCK 1 (last_block s OR UMM_FREELIST_MASK)
    (set_PFREE 0 1 (set_NFREE 0 1 (set_NBLOCK 0 1 (zero_heap s)))))"
  by (simp add: umm_init_def Let_def zero_heap_def memset_def UMM_MALLOC_CFG_HEAP_SIZE_def last_block_def)

lemma zero_links:
  assumes "heap_fits s" and "field f" and "b \<le> last_block s"
  shows "link f b (zero_heap s) = 0"
proof -
  have f: "unat f < 8" "unat (f + 1) < 8" using field_less assms(2) by auto
  have "8 * unat b + 8 \<le> unat (UMM_MALLOC_CFG_HEAP_SIZE s)"
    using last_block_bounds(2) [OF assms(1)] assms(3) by (simp add: word_le_nat_alt)
  then have "8 * ucast b + f < UMM_MALLOC_CFG_HEAP_SIZE s" "8 * ucast b + (f + 1) < UMM_MALLOC_CFG_HEAP_SIZE s"
    using f unat_offset [OF f(1), of b] unat_offset [OF f(2), of b] by (simp_all add: word_less_nat_alt)
  then show ?thesis by (simp add: link_def zero_heap_def memset_def UMM_BLOCK_def read16_def add.assoc)
qed

lemma init_inv:
  assumes "heap_fits s" and "heap_start s \<noteq> 0"
  shows "heap_inv (umm_init s) [1, last_block s] [1]"
proof -
  let ?l = "last_block s"
  note l = last_block_bounds [OF assms(1)]
  note z = zero_links [OF assms(1)]
  have nl: "?l \<noteq> 0" "?l \<noteq> 1" using l(1) by auto
  have le: "0 \<le> ?l" "1 \<le> ?l" "?l \<le> ?l" using l(1) by (simp_all add: less_imp_le)
  have "1 AND UMM_BLOCKNO_MASK = 1" by (simp add: UMM_BLOCKNO_MASK_def)
  then have nx: "next_block 0 (umm_init s) = 1" "next_block 1 (umm_init s) = ?l" "next_block ?l (umm_init s) = 0"
    using nl l(3) z [OF _ le(3), of 0] by (simp_all add: init_eq [OF assms(1)] next_block_def small_mask)
  have pb: "UMM_PBLOCK 1 (umm_init s) = 0" "UMM_PBLOCK ?l (umm_init s) = 1"
    using nl z [OF _ le(2), of 2] by (simp_all add: init_eq [OF assms(1)])
  have fl: "UMM_NFREE 0 (umm_init s) = 1" "UMM_PFREE 1 (umm_init s) = 0" "UMM_NFREE 1 (umm_init s) = 0"
    using nl z [OF _ le(2), of 4] z [OF _ le(2), of 6] by (simp_all add: init_eq [OF assms(1)])
  have zf: "\<not> is_free ?l (zero_heap s)" using z [OF _ le(3), of 0] by (simp add: is_free_iff)
  have fr: "\<not> is_free 0 (umm_init s)" "is_free 1 (umm_init s)" "\<not> is_free ?l (umm_init s)"
    using nl zf by (simp_all add: init_eq [OF assms(1)])
  have f: "umm_heap (umm_init s) = heap_start s" "umm_numblocks (umm_init s) = ?l + 1" "free_blocks (umm_init s) = ucast (?l + 1) - 2"
    by (simp_all add: init_eq [OF assms(1)])
  have "1 < ?l + 1" using l(1,5) by order
  then have "blocks_from (umm_init s) 0 [1, ?l]" using nx pb l(1,5) by (simp add: f)
  moreover have "free_from (umm_init s) 0 [1]" using fl \<open>1 < ?l + 1\<close> by (simp add: f)
  ultimately have "heap_lists (umm_init s) [1, ?l] [1]" using fr nl assms(2) by (simp add: heap_lists_def f)
  moreover have "coalesced (umm_init s) [1]" using nx nl by (simp add: coalesced_def)
  moreover have "(ucast (?l + 1) :: u32) = ucast ?l + 1" by (metis l(6) of_nat_1 of_nat_add of_nat_unat)
  then have "counted (umm_init s) [1]" using nx by (simp add: counted_def f)
  ultimately show ?thesis by (simp add: heap_inv_def)
qed

section \<open>The integrity check passes\<close>

lemma integrity_passes:
  assumes h: "heap_lists s bs fs"
  shows "umm_integrity_check s = Some (True, s)"
proof -
  have b: "blocks_from s 0 bs" "free_from s 0 fs" "umm_heap s \<noteq> 0" "\<forall>b \<in> set bs. is_free b s \<longleftrightarrow> b \<in> set fs"
    "bs \<noteq> []" and sub: "set fs \<subseteq> set (butlast bs)"
    using h by (simp_all add: heap_lists_def)
  have bf: "set fs \<subseteq> set bs" using sub in_set_butlastD by fast
  have p: "\<forall>b \<in> set bs. \<not> bit (UMM_PBLOCK b s) 15"
  proof
    fix c
    assume c: "c \<in> set bs"
    from blocks_around [OF b(1) c] obtain xs ys where bs: "bs = xs @ c # ys" "UMM_PBLOCK c s = last (0 # xs)" .
    show "\<not> bit (UMM_PBLOCK c s) 15"
    proof (cases "xs = []")
      case False
      then have "UMM_PBLOCK c s \<in> set (butlast bs)" using bs by (simp add: butlast_append)
      then have "UMM_PBLOCK c s < next_block (UMM_PBLOCK c s) s" by (rule inner_size(3) [OF h])
      then show ?thesis using between_small next_block_small(1) by blast
    qed (simp add: bs)
  qed
  have n: "umm_numblocks s \<noteq> 0" using b(1,5) by (cases bs) (auto simp: word_neq_0_conv)
  have "block_pass 0 (mark fs s) = (True, s)"
  proof -
    have "flagged_from (mark fs s) 0 bs" using b p by (simp add: flagged_from_mark)
    moreover have "unmark bs (mark fs s) = s" using bf p by (simp add: unmark_mark subset_code(1) filter_False)
    ultimately show ?thesis using n block_pass_iff [of "mark fs s" 0 s] by (metis mark_numblocks(1))
  qed
  then show ?thesis using free_pass_accepts [OF b(2) n] b(3) by (simp add: umm_integrity_check_def init_heap_def Let_def)
qed


section \<open>Changes outside the links\<close>

lemma inv_frame:
  assumes inv: "heap_inv s bs fs"
    and l: "\<And>x f. x \<in> set (0 # bs) \<Longrightarrow> f \<in> {0, 2} \<Longrightarrow> link f x t = link f x s" "\<And>x f. x \<in> set (0 # fs) \<Longrightarrow> f \<in> {4, 6} \<Longrightarrow> link f x t = link f x s"
    and k: "umm_heap t = umm_heap s" "umm_numblocks t = umm_numblocks s" "free_blocks t = free_blocks s"
  shows "heap_inv t bs fs" and "live t bs fs = live s bs fs"
proof -
  have h: "heap_lists s bs fs" "coalesced s fs" "counted s fs" using inv by (simp_all add: heap_inv_def)
  have n: "next_block x t = next_block x s" "is_free x t = is_free x s" if "x \<in> set (0 # bs)" for x
    unfolding next_block_def is_free_def l(1) [OF that insertI1] by (rule refl)+
  have sub: "set fs \<subseteq> set (butlast bs)" using h(1) by (simp add: heap_lists_def)
  have bf: "x \<in> set (0 # bs)" if "x \<in> set fs" for x using in_set_butlastD [OF subsetD [OF sub that]] by simp
  have "blocks_from t 0 bs = blocks_from s 0 bs" using n l(1) k(2) by (intro blocks_from_frame) simp_all
  moreover have "free_from t 0 fs = free_from s 0 fs" using l(2) k(2) by (intro free_from_frame) simp_all
  moreover have "\<forall>b \<in> set (0 # bs). is_free b t \<longleftrightarrow> b \<in> set fs" using h(1) n(2) unfolding heap_lists_def by blast
  ultimately have "heap_lists t bs fs" using h(1) k(1) unfolding heap_lists_def by (simp only: simp_thms)
  moreover have "coalesced t fs" using h(2) n(1) bf unfolding coalesced_def by metis
  moreover have "sum (extent t) (set fs) = sum (extent s) (set fs)" using n(1) bf by (intro sum.cong) (simp_all add: extent_def)
  then have "counted t fs" using h(3) k(3) by (simp add: counted_extent)
  ultimately show "heap_inv t bs fs" by (simp add: heap_inv_def)
  have "x \<in> set (0 # bs)" if "x \<in> set (butlast bs)" for x using in_set_butlastD [OF that] by simp
  then show "live t bs fs = live s bs fs" using n(1) by (intro ext) (simp add: live_def)
qed

lemma write_frame:
  assumes inv: "heap_inv s bs fs" and b: "live s bs fs b = Some e" and m: "\<And>a. a \<notin> payload s b e \<Longrightarrow> m a = ram_bytes s a"
  shows "heap_inv (s\<lparr>ram_bytes := m\<rparr>) bs fs" and "live (s\<lparr>ram_bytes := m\<rparr>) bs fs = live s bs fs"
proof -
  have h: "heap_lists s bs fs" using inv by (simp add: heap_inv_def)
  have l: "link f x (s\<lparr>ram_bytes := m\<rparr>) = link f x s"
    if "f \<in> {0, 2} \<and> (x \<le> b \<or> e \<le> x) \<or> f \<in> {4, 6} \<and> (x < b \<or> e \<le> x)" for f x
  proof -
    have "m (UMM_BLOCK x s + f) = ram_bytes s (UMM_BLOCK x s + f)" "m (UMM_BLOCK x s + f + 1) = ram_bytes s (UMM_BLOCK x s + f + 1)"
      using header_offset [OF that] by (intro m; blast)+
    then show ?thesis by (simp add: link_def UMM_BLOCK_def read16_def)
  qed
  note f = inv_frame [OF inv, of "s\<lparr>ram_bytes := m\<rparr>"]
  have "link f x (s\<lparr>ram_bytes := m\<rparr>) = link f x s" if "x \<in> set (0 # bs)" "f \<in> {0, 2}" for x f
    using live_order [OF h b that(1)] that(2) by (intro l) blast
  moreover have "link f x (s\<lparr>ram_bytes := m\<rparr>) = link f x s" if "x \<in> set (0 # fs)" "f \<in> {4, 6}" for x f
    using order_free [OF h b that(1)] that(2) by (intro l) blast
  ultimately show "heap_inv (s\<lparr>ram_bytes := m\<rparr>) bs fs" "live (s\<lparr>ram_bytes := m\<rparr>) bs fs = live s bs fs"
    by (intro f; simp)+
qed

section \<open>Ownership\<close>

text \<open>Requests are below the size at which umm_blocks wraps around.\<close>

definition max_request :: u32 where
  "max_request = 0x7FFF5"

text \<open>The program's pointers are those of the used blocks.\<close>

definition owns :: "umm \<Rightarrow> (u32 \<rightharpoonup> u32) \<Rightarrow> u16 list \<Rightarrow> u16 list \<Rightarrow> bool" where
  "owns s L bs fs \<longleftrightarrow> heap_inv s bs fs \<and> heap_fits s \<and> umm_heap s = heap_start s \<and> last bs = last_block s \<and> next_block 0 s = 1 \<and>
     (\<forall>b. live s bs fs b = map_option (\<lambda>n. b + umm_blocks n) (L (UMM_DATA b s))) \<and>
     (\<forall>p n. L p = Some n \<longrightarrow> n < max_request \<and> (\<exists>b. p = UMM_DATA b s \<and> live s bs fs b \<noteq> None))"

lemma unat_blocks:
  assumes "sz < max_request"
  shows "unat (umm_blocks sz) = (if unat sz \<le> 4 then 1 else 2 + (unat sz - 5) div 8)"
proof (cases "sz \<le> 4")
  case True
  then show ?thesis by (simp add: umm_blocks_def word_le_nat_alt)
next
  case False
  have s: "unat sz < 524277" using assms by (simp add: max_request_def word_less_nat_alt)
  have g: "4 < unat sz" using False by (simp add: word_le_nat_alt)
  then have u: "unat (sz - 5) = unat sz - 5" by (simp add: unat_sub word_le_nat_alt)
  then have d: "unat ((sz - 5) div 8) = (unat sz - 5) div 8" by (simp add: unat_div)
  have w: "(unat sz - 5) div 8 + 2 < 65536" using s by linarith
  have "unat (2 + q) = (2 + unat q) mod 2 ^ 32" for q :: u32 by (simp add: unat_word_ariths)
  from this [of "(sz - 5) div 8"] have "unat (2 + (sz - 5) div 8) = 2 + (unat sz - 5) div 8" using w unfolding d by simp
  then have "unat (ucast (2 + (sz - 5) div 8) :: u16) = 2 + (unat sz - 5) div 8"
    using w by (simp add: unsigned_ucast_eq take_bit_nat_eq_self)
  then show ?thesis using False g by (simp add: umm_blocks_def)
qed

lemma blocks_enough:
  assumes "sz < max_request"
  shows "unat sz + 4 \<le> 8 * unat (umm_blocks sz)" and "umm_blocks sz \<noteq> 0"
proof -
  show e: "unat sz + 4 \<le> 8 * unat (umm_blocks sz)" unfolding unat_blocks [OF assms] by simp linarith
  show "umm_blocks sz \<noteq> 0"
  proof
    assume "umm_blocks sz = 0"
    then show False using e by simp
  qed
qed

lemma blocks_mono:
  assumes "n \<le> m" and "m < max_request"
  shows "umm_blocks n \<le> umm_blocks m"
proof -
  have nm: "unat n \<le> unat m" using assms(1) by (simp add: word_le_nat_alt)
  then have "(unat n - 5) div 8 \<le> (unat m - 5) div 8" by (intro div_le_mono diff_le_mono)
  moreover have "n < max_request" using assms by order
  ultimately show ?thesis using nm by (simp add: word_le_nat_alt unat_blocks assms(2))
qed

lemma data_inject: "UMM_DATA b s = UMM_DATA c s \<longleftrightarrow> b = c"
  using offset_inject [of 4 4 "umm_heap s" b c] by (simp add: UMM_DATA_def UMM_BLOCK_def add.assoc)

lemma fits_start:
  assumes "heap_fits s"
  shows "unat (heap_start s) + unat (UMM_MALLOC_CFG_HEAP_SIZE s) = 0x3fffc000" and "heap_start s \<noteq> 0"
proof -
  let ?z = "UMM_MALLOC_CFG_HEAP_SIZE s"
  have z: "unat ?z < 0x40000" using assms by (simp add: heap_fits_def word_less_nat_alt)
  have "heap_start s = 0x3fffc000 - ?z" by (simp add: UMM_MALLOC_CFG_HEAP_SIZE_def)
  moreover have "unat (0x3fffc000 - ?z) = 0x3fffc000 - unat ?z" using z by (subst unat_sub) (simp_all add: word_le_nat_alt)
  ultimately show u: "unat (heap_start s) + unat ?z = 0x3fffc000" using z by simp
  show "heap_start s \<noteq> 0"
  proof
    assume "heap_start s = 0"
    then show False using u z by simp
  qed
qed


lemma same_start:
  assumes "umm_heap t = umm_heap s" and "heap_start t = heap_start s"
  shows "UMM_DATA b t = UMM_DATA b s" and "heap_fits t = heap_fits s" and "last_block t = last_block s"
  using assms by (simp_all add: UMM_DATA_def UMM_BLOCK_def heap_fits_def last_block_def UMM_MALLOC_CFG_HEAP_SIZE_def)

lemma owns_same:
  assumes "owns s L bs fs" and "heap_inv t bs fs" and "live t bs fs = live s bs fs" and "next_block 0 t = next_block 0 s"
    and "umm_heap t = umm_heap s" and "heap_start t = heap_start s"
  shows "owns t L bs fs"
  using assms(1,2) unfolding owns_def assms(3-6) same_start [OF assms(5,6)] by blast

lemma owns_change:
  assumes o: "owns s L bs fs" and t: "heap_inv t bs' fs'" "last bs' = last bs" "next_block 0 t = next_block 0 s"
    and l: "live t bs' fs' = (live s bs fs)(c := map_option (\<lambda>n. c + umm_blocks n) v)" and v: "\<And>n. v = Some n \<Longrightarrow> n < max_request"
    and k: "umm_heap t = umm_heap s" "heap_start t = heap_start s"
  shows "owns t (L(UMM_DATA c s := v)) bs' fs'"
proof -
  have "live t bs' fs' b = map_option (\<lambda>n. b + umm_blocks n) ((L(UMM_DATA c s := v)) (UMM_DATA b s))" for b
    using o unfolding owns_def l by (simp add: data_inject)
  moreover have "n < max_request \<and> (\<exists>b. p = UMM_DATA b s \<and> live t bs' fs' b \<noteq> None)" if p: "(L(UMM_DATA c s := v)) p = Some n" for p n
  proof (cases "p = UMM_DATA c s")
    case True
    then show ?thesis using p v by (auto simp: l)
  next
    case False
    then have "L p = Some n" using p by simp
    then obtain b where "n < max_request" "p = UMM_DATA b s" "live s bs fs b \<noteq> None" using o unfolding owns_def by blast
    then show ?thesis using False by (auto simp: l)
  qed
  ultimately show ?thesis using o t(1) unfolding owns_def k t(2,3) same_start [OF k] by blast
qed

lemma only_start: "only T s t \<Longrightarrow> umm_heap t = umm_heap s" "only T s t \<Longrightarrow> heap_start t = heap_start s"
  by (simp_all add: only_def)

lemma payload_data:
  assumes "b < e" and "unat n + 4 \<le> 8 * (unat e - unat b)" and "a - UMM_DATA b s < n"
  shows "a \<in> payload s b e"
proof -
  have o4: "unat (8 * ucast b + 4 :: u32) = 8 * unat b + 4" using unat_offset [of 4 b] by simp
  have i: "unat (a - UMM_DATA b s) < unat n" using assms(3) by (simp add: word_less_nat_alt)
  have off: "a - umm_heap s = 8 * ucast b + 4 + (a - UMM_DATA b s)" by (simp add: UMM_DATA_def UMM_BLOCK_def)
  have "unat (8 * ucast e :: u32) = 8 * unat e" using unat_offset [of 0 e] by simp
  moreover have "unat e < 2 ^ LENGTH(16)" by (rule unsigned_less)
  then have "unat (8 * ucast b + 4 :: u32) + unat (a - UMM_DATA b s) < 2 ^ LENGTH(32)" using o4 i assms(2) by simp
  then have "unat (a - umm_heap s) = 8 * unat b + 4 + unat (a - UMM_DATA b s)"
    unfolding off using o4 by (subst unat_add_lem [THEN iffD1]) simp_all
  ultimately show ?thesis using o4 i assms(1,2) by (simp add: payload_def word_le_nat_alt word_less_nat_alt)
qed

lemma owned:
  assumes o: "owns s L bs fs" and l: "L p = Some n"
  obtains b where "p = UMM_DATA b s" "live s bs fs b = Some (b + umm_blocks n)" "b < b + umm_blocks n"
    "\<And>a. a - p < n \<Longrightarrow> a \<in> payload s b (b + umm_blocks n)"
    "unat p = unat (heap_start s) + 8 * unat b + 4" "unat n + 4 \<le> 8 * (unat (b + umm_blocks n) - unat b)"
    "unat (b + umm_blocks n) \<le> unat (last_block s)" "p \<noteq> 0"
proof -
  obtain b where p: "p = UMM_DATA b s" and n: "n < max_request" using o l unfolding owns_def by blast
  let ?e = "b + umm_blocks n"
  have lv: "live s bs fs b = Some ?e" using o l p unfolding owns_def by simp
  have h: "heap_lists s bs fs" and f: "heap_fits s" "umm_heap s = heap_start s" "last bs = last_block s" using o by (simp_all add: owns_def heap_inv_def)
  note e = live_bounds [OF h lv]
  have u: "unat ?e = unat b + unat (umm_blocks n)" using e(2) by (simp add: unat_plus_simple [symmetric] less_imp_le)
  then have big: "unat n + 4 \<le> 8 * (unat ?e - unat b)" using blocks_enough(1) [OF n] by simp
  have "?e \<le> last bs"
  proof -
    obtain zs where bs: "bs = zs @ [last bs]" using e(4) by (cases bs rule: rev_cases) auto
    have "sorted_wrt (<) (zs @ [last bs])" "?e \<in> set (zs @ [last bs])" using lists_sorted [OF h] e(4) bs by simp_all
    then show ?thesis by (auto simp: sorted_wrt_append intro: less_imp_le)
  qed
  then have le: "unat ?e \<le> unat (last_block s)" by (simp add: f(3) word_le_nat_alt)
  have o4: "unat (8 * ucast b + 4 :: u32) = 8 * unat b + 4" using unat_offset [of 4 b] by simp
  have "8 * unat b + 4 < unat (UMM_MALLOC_CFG_HEAP_SIZE s)" using le big last_block_bounds(2) [OF f(1)] by linarith
  then have "unat (heap_start s) + (8 * unat b + 4) < 2 ^ LENGTH(32)" using fits_start(1) [OF f(1)] by simp
  then have up: "unat p = unat (heap_start s) + 8 * unat b + 4"
    unfolding p UMM_DATA_def UMM_BLOCK_def f(2) add.assoc using o4 by (subst unat_add_lem [THEN iffD1]) simp_all
  have "p \<noteq> 0"
  proof
    assume "p = 0"
    then show False using up by simp
  qed
  moreover have "a \<in> payload s b ?e" if "a - p < n" for a
    using payload_data [OF e(2) big] that unfolding p .
  ultimately show ?thesis using that [OF p lv e(2)] up big le by blast
qed

lemma data_nonzero:
  assumes h: "heap_lists s bs fs" and f: "heap_fits s" "umm_heap s = heap_start s" "last bs = last_block s" and d: "d \<in> set (butlast bs)"
  shows "UMM_DATA d s \<noteq> 0"
proof
  assume z: "UMM_DATA d s = 0"
  have bs: "bs = butlast bs @ [last bs]" using d by (cases bs rule: rev_cases) auto
  have "sorted_wrt (<) (0 # butlast bs @ [last bs])" using lists_sorted [OF h] bs by simp
  then have "d < last_block s" using d f(3) by (auto simp: sorted_wrt_append)
  then have "8 * unat d + 4 < unat (UMM_MALLOC_CFG_HEAP_SIZE s)" using last_block_bounds(2) [OF f(1)] by (simp add: word_less_nat_alt)
  then have "unat (heap_start s) + (8 * unat d + 4) < 2 ^ LENGTH(32)" using fits_start(1) [OF f(1)] by simp
  moreover have "unat (8 * ucast d + 4 :: u32) = 8 * unat d + 4" using unat_offset [of 4 d] by simp
  ultimately have "unat (UMM_DATA d s) = unat (heap_start s) + (8 * unat d + 4)"
    unfolding UMM_DATA_def UMM_BLOCK_def f(2) add.assoc by (subst unat_add_lem [THEN iffD1]) simp_all
  then show False using z by simp
qed

lemma malloc_step:
  assumes o: "owns s L bs fs" and sz: "sz < max_request"
  obtains p t bs' fs' where "umm_malloc sz s = Some (p, t)" "owns t (if p = 0 then L else L(p \<mapsto> sz)) bs' fs'" "p \<notin> dom L"
    "\<forall>q n a. L q = Some n \<and> a - q < n \<longrightarrow> ram_bytes t a = ram_bytes s a"
    "p \<noteq> 0 \<longleftrightarrow> sz \<noteq> 0 \<and> (\<exists>c \<in> set fs. umm_blocks sz \<le> block_size s c)" "last_block t = last_block s"
proof -
  have inv: "heap_inv s bs fs" and f: "heap_fits s" "umm_heap s = heap_start s" "last bs = last_block s" using o by (simp_all add: owns_def)
  then have h: "heap_lists s bs fs" by (simp add: heap_inv_def)
  have nz: "umm_heap s \<noteq> 0" using h by (simp add: heap_lists_def)
  have z: "0 \<notin> dom L" using owned [OF o] by blast
  have m: "umm_malloc sz s = (if sz = 0 then Some (0, s) else umm_malloc_core sz s)"
    using nz by (simp add: umm_malloc_def init_heap_def Let_def)
  note k = blocks_enough(2) [OF sz]
  consider "sz = 0" | "sz \<noteq> 0" "\<forall>c \<in> set fs. block_size s c < umm_blocks sz" | c where "sz \<noteq> 0" "c \<in> set fs" "umm_blocks sz \<le> block_size s c"
    by (metis not_le)
  then show ?thesis
  proof cases
    case 1
    then show ?thesis using that [of 0 s bs fs] m o z by simp
  next
    case 2
    let ?t = "s\<lparr>oom_count := oom_count s + 1\<rparr>"
    have r: "umm_malloc sz s = Some (0, ?t)" using m 2 malloc_full [OF inv k 2(2)] by simp
    have l: "link f x ?t = link f x s" "UMM_DATA x ?t = UMM_DATA x s" for f x by (simp_all add: UMM_DATA_def UMM_BLOCK_def)
    have "heap_inv ?t bs fs" "live ?t bs fs = live s bs fs" by (rule inv_frame [OF inv]; simp add: l)+
    then have "owns ?t L bs fs" by (intro owns_same [OF o]) simp_all
    moreover have "\<not> (\<exists>c \<in> set fs. umm_blocks sz \<le> block_size s c)" using 2(2) by (auto simp: not_le)
    moreover have "last_block ?t = last_block s" by (rule same_start) simp_all
    ultimately show ?thesis using that [OF r, of bs fs] z by simp
  next
    case 3
    obtain d t bs' fs' where r: "umm_malloc_core sz s = Some (UMM_DATA d s, t)" and d: "d \<in> set fs" "umm_blocks sz \<le> block_size s d"
      and t: "heap_inv t bs' fs'" "last bs' = last bs" "live t bs' fs' = (live s bs fs)(d \<mapsto> d + umm_blocks sz)"
        "next_block 0 t = next_block 0 s" "t = (take_block d (block_size s d) (umm_blocks sz) s)\<lparr>free_blocks := free_blocks s - ucast (umm_blocks sz)\<rparr>"
      by (rule malloc_inv [OF inv k 3(2,3)])
    have db: "d \<in> set (butlast bs)" using h d(1) unfolding heap_lists_def by blast
    have p: "UMM_DATA d s \<noteq> 0" by (rule data_nonzero [OF h f db])
    obtain T where "only T s (take_block d (block_size s d) (umm_blocks sz) s)"
      using take_only [OF h d(1), of "umm_blocks sz"] k by metis
    then have "only T s t" by (simp add: t(5))
    note tf = only_start [OF this]
    have new: "L (UMM_DATA d s) = None"
    proof (rule ccontr)
      assume "L (UMM_DATA d s) \<noteq> None"
      then have "live s bs fs d \<noteq> None" using o unfolding owns_def by simp
      then show False using d(1) by (simp add: live_def)
    qed
    have "owns t (L(UMM_DATA d s \<mapsto> sz)) bs' fs'"
      by (rule owns_change [OF o t(1,2,4)]) (simp_all add: t(3) sz tf)
    moreover have "ram_bytes t a = ram_bytes s a" if l: "L q = Some n" "a - q < n" for q n a
    proof -
      from owned [OF o l(1)] obtain b where "live s bs fs b = Some (b + umm_blocks n)" "a \<in> payload s b (b + umm_blocks n)" using l(2) by metis
      then show ?thesis unfolding t(5) using take_keeps [OF h _ d(1) k d(2)] by simp
    qed
    moreover have "last_block t = last_block s" by (rule same_start) (rule tf)+
    ultimately show ?thesis using that [of "UMM_DATA d s" t bs' fs'] m r 3 p new by auto
  qed
qed

lemma free_step:
  assumes o: "owns s L bs fs" and p: "p = 0 \<or> p \<in> dom L"
  obtains bs' fs' where "owns (umm_free p s) (L(p := None)) bs' fs'"
    "\<forall>q n a. L q = Some n \<and> q \<noteq> p \<and> a - q < n \<longrightarrow> ram_bytes (umm_free p s) a = ram_bytes s a"
proof -
  have inv: "heap_inv s bs fs" using o by (simp add: owns_def)
  then have h: "heap_lists s bs fs" by (simp add: heap_inv_def)
  have nz: "umm_heap s \<noteq> 0" using h by (simp add: heap_lists_def)
  have z: "0 \<notin> dom L" using owned [OF o] by blast
  show ?thesis
  proof (cases "p = 0")
    case True
    then have "L(p := None) = L" using z by (auto simp: domIff)
    then show ?thesis using that [of bs fs] o nz True by (simp add: umm_free_def init_heap_def Let_def)
  next
    case False
    then obtain n where n: "L p = Some n" using p by auto
    obtain c where c: "p = UMM_DATA c s" "live s bs fs c = Some (c + umm_blocks n)" by (rule owned [OF o n])
    have cb: "c \<in> set (butlast bs)" "c \<notin> set fs" using c(2) by (simp_all add: live_def split: if_splits)
    have eq: "umm_free p s = umm_free_core (UMM_DATA c s) s" using False nz by (simp add: umm_free_def init_heap_def Let_def c(1))
    obtain bs' fs' where t: "heap_inv (umm_free p s) bs' fs'" "last bs' = last bs" "live (umm_free p s) bs' fs' = (live s bs fs)(c := None)"
        "next_block 0 (umm_free p s) = next_block 0 s"
      unfolding eq by (rule free_inv [OF inv c(2)])
    note tf = only_start [OF free_only [OF h cb], folded eq]
    have "owns (umm_free p s) (L(p := None)) bs' fs'"
      unfolding c(1) by (rule owns_change [OF o]) (simp_all add: t tf c(1) [symmetric])
    moreover have "ram_bytes (umm_free p s) a = ram_bytes s a" if l: "L q = Some k" "q \<noteq> p" "a - q < k" for q k a
    proof -
      from owned [OF o l(1)] obtain b where "q = UMM_DATA b s" "live s bs fs b = Some (b + umm_blocks k)" "a \<in> payload s b (b + umm_blocks k)"
        using l(3) by metis
      then show ?thesis unfolding eq using free_keeps [OF h _ c(2)] l(2) c(1) by metis
    qed
    ultimately show ?thesis using that by blast
  qed
qed


lemma init_owns:
  assumes "heap_fits s"
  shows "owns (umm_init s) Map.empty [1, last_block s] [1]"
proof -
  have k: "heap_start (umm_init s) = heap_start s" "umm_heap (umm_init s) = heap_start s"
    by (simp_all add: init_eq [OF assms])
  then have f: "heap_fits (umm_init s)" "last_block (umm_init s) = last_block s"
    using assms by (simp_all add: heap_fits_def last_block_def UMM_MALLOC_CFG_HEAP_SIZE_def)
  have i: "heap_inv (umm_init s) [1, last_block s] [1]" by (rule init_inv [OF assms fits_start(2) [OF assms]])
  then have "next_block 0 (umm_init s) = 1" by (simp add: heap_inv_def heap_lists_def)
  moreover have "live (umm_init s) [1, last_block s] [1] b = None" for b by (simp add: live_def)
  ultimately show ?thesis using i f k by (simp add: owns_def)
qed

lemma write_owns:
  assumes o: "owns s L bs fs" and l: "L p = Some n" and m: "\<forall>a. \<not> a - p < n \<longrightarrow> m a = ram_bytes s a"
  shows "owns (s\<lparr>ram_bytes := m\<rparr>) L bs fs"
proof -
  obtain b where b: "live s bs fs b = Some (b + umm_blocks n)" "\<And>a. a - p < n \<Longrightarrow> a \<in> payload s b (b + umm_blocks n)"
    using owned [OF o l] by metis
  have inv: "heap_inv s bs fs" using o by (simp add: owns_def)
  have "m a = ram_bytes s a" if "a \<notin> payload s b (b + umm_blocks n)" for a using that b(2) m by blast
  note w = write_frame [OF inv b(1) this]
  moreover from this have "hd bs = next_block 0 s" "hd bs = next_block 0 (s\<lparr>ram_bytes := m\<rparr>)"
    using inv unfolding heap_inv_def heap_lists_def by (cases bs; simp)+
  ultimately show ?thesis by (intro owns_same [OF o]) simp_all
qed

lemma owns_inv: "owns s L bs fs \<Longrightarrow> heap_inv s bs fs" and owns_lists: "owns s L bs fs \<Longrightarrow> heap_lists s bs fs"
  by (simp_all add: owns_def heap_inv_def)

end
