(* ===== verification/Umm_Resize.thy ===== *)
theory Umm_Resize
  imports Umm_Owns
begin

text \<open>
  umm_realloc: a used block takes in the free one before or behind it, or gives back its end, or moves.  What fits of its
  contents goes with it.
\<close>

section \<open>Growing and shrinking a block\<close>

lemma prev_next:
  assumes "heap_lists s bs fs" and "c \<in> set bs"
  shows "next_block (UMM_PBLOCK c s) s = c" and "UMM_PBLOCK c s \<in> set (0 # bs)"
proof -
  have b: "blocks_from s 0 bs" using assms(1) by (simp add: heap_lists_def)
  from blocks_around [OF this assms(2)] obtain xs ys where bs: "bs = xs @ c # ys" and p: "UMM_PBLOCK c s = last (0 # xs)" .
  have "block_seg s 0 (xs @ [c])"
    using b unfolding bs blocks_from_seg by (metis append_Cons append_Nil append_assoc block_seg_append)
  then have "block_seg s (last (0 # xs)) [c]" unfolding block_seg_append by blast
  then show "next_block (UMM_PBLOCK c s) s = c" unfolding p by simp
  have "last (0 # xs) \<in> set (0 # xs)" by (rule last_in_set) simp
  then show "UMM_PBLOCK c s \<in> set (0 # bs)" unfolding p bs by auto
qed

definition grow_down :: "u16 \<Rightarrow> u16 \<Rightarrow> umm \<Rightarrow> umm" where
  "grow_down c z s = (snd (umm_assimilate_down c 0 (umm_disconnect_from_free_list (UMM_PBLOCK c s) s)))\<lparr>free_blocks := free_blocks s - ucast z\<rparr>"

lemma grow_down_inv:
  assumes inv: "heap_inv s bs fs" and l: "live s bs fs c = Some e" and p: "UMM_PBLOCK c s \<in> set fs"
  defines "p \<equiv> UMM_PBLOCK c s" and "t \<equiv> grow_down c (c - UMM_PBLOCK c s) s"
  shows "heap_inv t (remove1 c bs) (remove1 p fs)" and "live t (remove1 c bs) (remove1 p fs) = (live s bs fs)(c := None, p \<mapsto> e)"
    and "last (remove1 c bs) = last bs" and "next_block 0 t = next_block 0 s" and "only (touch (set (0 # bs)) (set (0 # fs))) s t"
    and "next_block x t = (if x = p then e else next_block x s)" and "p < c"
proof -
  have h: "heap_lists s bs fs" and co: "coalesced s fs" and k: "counted s fs" using inv by (simp_all add: heap_inv_def)
  have cb: "c \<in> set (butlast bs)" "c \<notin> set fs" "next_block c s = e" using l by (simp_all add: live_def split: if_splits)
  have pf: "p \<in> set fs" using p by (simp add: p_def)
  then have pb: "p \<in> set (butlast bs)" using h unfolding heap_lists_def by blast
  have n: "next_block p s = c" unfolding p_def by (rule prev_next(1) [OF h in_set_butlastD [OF cb(1)]])
  then show pc: "p < c" using inner_size(3) [OF h pb] by simp
  have p0: "p \<noteq> 0" using inner_block [OF h pb] by metis
  let ?u = "umm_disconnect_from_free_list p s"
  have d: "distinct fs" "distinct bs" using h lists_distinct [OF h] by (simp_all add: heap_lists_def)
  have sf: "set (remove1 p fs) = set fs - {p}" using d(1) by simp
  have hu: "heap_lists ?u bs (remove1 p fs)" by (rule disconnect_lists [OF h pf])
  have cu: "c \<notin> set (remove1 p fs)" using cb(2) by (simp add: sf)
  have pu: "UMM_PBLOCK c ?u = p" by (simp add: disconnect_links p_def)
  have "0 = (if UMM_PBLOCK c ?u \<in> set (remove1 p fs) then UMM_FREELIST_MASK else 0)" unfolding pu sf by simp
  note dl = down_lists [OF hu cb(1) cu _ this, unfolded pu, OF p0]
  have t: "t = (snd (umm_assimilate_down c 0 ?u))\<lparr>free_blocks := free_blocks s - ucast (c - p)\<rparr>"
    by (simp add: t_def grow_down_def p_def)
  show nx: "next_block x t = (if x = p then e else next_block x s)" for x
    using dl(3) [of x] cb(3) by (simp add: t disconnect_links)
  show "next_block 0 t = next_block 0 s" using p0 by (simp add: nx)
  have "heap_lists t (remove1 c bs) (remove1 p fs)" unfolding t heap_lists_counter by (rule dl)
  moreover have "coalesced t (remove1 p fs)" using co unfolding coalesced_def sf nx by simp
  moreover have "counted t (remove1 p fs)"
  proof -
    have "sum (extent t) (set fs - {p}) = sum (extent s) (set fs - {p})" by (rule extent_other [of p]) (simp_all add: nx)
    moreover have "sum (extent s) (set fs) = extent s p + sum (extent s) (set fs - {p})" using pf by (intro sum.remove) simp_all
    moreover have "ucast (c - p) = extent s p" using pc n by (simp add: extent_def ucast_diff less_imp_le)
    ultimately show ?thesis using k unfolding counted_extent sf by (simp add: t)
  qed
  ultimately show "heap_inv t (remove1 c bs) (remove1 p fs)" by (simp add: heap_inv_def)
  note b = butlast_remove1 [OF d(2) cb(1)]
  show "last (remove1 c bs) = last bs" by (rule b)
  show "live t (remove1 c bs) (remove1 p fs) = (live s bs fs)(c := None, p \<mapsto> e)"
    using pb pc by (intro ext) (auto simp: live_def b sf nx)
  have "p \<in> set (0 # fs)" using pf by simp
  note fn = free_neighbours [OF h this]
  have "only (touch (set (0 # bs)) (set (0 # fs))) s ?u"
    using in_set_butlastD [OF pb] fn p0 by (intro disconnect_only only_refl) simp_all
  moreover have "UMM_PBLOCK c ?u \<noteq> c" "UMM_NBLOCK c ?u = e" "e \<noteq> c"
  proof -
    show "UMM_PBLOCK c ?u \<noteq> c" "e \<noteq> c" using pc pu inner_size(3) [OF h cb(1)] cb(3) by auto
    have "\<not> is_free c ?u" using used_block [OF hu cb(1) cu] by metis
    then show "UMM_NBLOCK c ?u = e" using cb(3) by (simp add: next_block_used disconnect_links)
  qed
  moreover have "e \<in> set bs" using inner_size(4) [OF h cb(1)] cb(3) by simp
  ultimately show "only (touch (set (0 # bs)) (set (0 # fs))) s t"
    using in_set_butlastD [OF pb] pu unfolding t only_counters by (subst down_eq) (simp_all add: only_set)
qed

definition grow_up :: "u16 \<Rightarrow> u16 \<Rightarrow> umm \<Rightarrow> umm" where
  "grow_up c z s = (umm_assimilate_up c s)\<lparr>free_blocks := free_blocks s - ucast z\<rparr>"

lemma up_only:
  assumes h: "heap_lists s bs fs" and c: "c \<in> set (butlast bs)" "c \<notin> set fs"
  shows "only (touch (set (0 # bs)) (set (0 # fs))) s (umm_assimilate_up c s)"
proof -
  let ?T = "touch (set (0 # bs)) (set (0 # fs))" and ?n = "next_block c s"
  from used_block [OF h c] have u: "\<not> is_free c s" by metis
  have cb: "c \<in> set bs" using c(1) by (rule in_set_butlastD)
  have nb: "?n \<in> set bs" by (rule block_neighbours(1) [OF h c(1)])
  show ?thesis
  proof (cases "is_free ?n s")
    case False
    then show ?thesis using u by (simp add: up_eq)
  next
    case True
    have n: "?n \<in> set fs" using True nb h by (simp add: heap_lists_def)
    then have "?n \<in> set (butlast bs)" using h unfolding heap_lists_def by blast
    then have nn: "next_block ?n s \<in> set bs" by (rule block_neighbours(1) [OF h])
    have "?n \<noteq> 0" using nb lists_distinct [OF h] by (metis distinct.simps(2))
    then have "only ?T s (umm_disconnect_from_free_list ?n s)"
      using free_neighbours [OF h, of ?n] n nb by (intro disconnect_only only_refl) auto
    then show ?thesis using True u nn cb by (simp add: up_eq only_set)
  qed
qed

lemma grow_up_inv:
  assumes inv: "heap_inv s bs fs" and l: "live s bs fs c = Some n" and n: "n \<in> set fs"
  defines "t \<equiv> grow_up c (next_block n s - n) s"
  shows "heap_inv t (remove1 n bs) (remove1 n fs)" and "live t (remove1 n bs) (remove1 n fs) = (live s bs fs)(c \<mapsto> next_block n s)"
    and "last (remove1 n bs) = last bs" and "next_block 0 t = next_block 0 s" and "only (touch (set (0 # bs)) (set (0 # fs))) s t"
    and "next_block x t = (if x = c then next_block n s else next_block x s)" and "n < next_block n s"
proof -
  have h: "heap_lists s bs fs" and co: "coalesced s fs" and k: "counted s fs" using inv by (simp_all add: heap_inv_def)
  have cb: "c \<in> set (butlast bs)" "c \<notin> set fs" "next_block c s = n" using l by (simp_all add: live_def split: if_splits)
  have nb: "n \<in> set (butlast bs)" using h n unfolding heap_lists_def by blast
  show nn: "n < next_block n s" by (rule inner_size(3) [OF h nb])
  have cn: "c < n" using inner_size(3) [OF h cb(1)] cb(3) by simp
  have c0: "c \<noteq> 0" using inner_block [OF h cb(1)] by metis
  have u: "\<not> is_free c s" using used_block [OF h cb(1,2)] by metis
  have fr: "is_free (next_block c s) s" using n h in_set_butlastD [OF nb] cb(3) by (simp add: heap_lists_def)
  have d: "distinct fs" "distinct bs" using h lists_distinct [OF h] by (simp_all add: heap_lists_def)
  have sf: "set (remove1 n fs) = set fs - {n}" using d(1) by simp
  show nx: "next_block x t = (if x = c then next_block n s else next_block x s)" for x
    using up_links(1) [OF u fr] cb(3) by (simp add: t_def grow_up_def)
  show "next_block 0 t = next_block 0 s" using c0 by (simp add: nx)
  have "heap_lists t (remove1 n bs) (remove1 n fs)"
    using up_lists [OF h cb(1,2)] n cb(3) by (simp add: t_def grow_up_def heap_lists_counter)
  moreover have "coalesced t (remove1 n fs)" using co cb(2) unfolding coalesced_def sf nx by simp
  moreover have "counted t (remove1 n fs)"
  proof -
    have "sum (extent t) (set fs - {n}) = sum (extent s) (set fs - {n})"
      by (rule extent_other [of c]) (use cb(2) in \<open>simp_all add: nx\<close>)
    moreover have "sum (extent s) (set fs) = extent s n + sum (extent s) (set fs - {n})" using n by (intro sum.remove) simp_all
    moreover have "ucast (next_block n s - n) = extent s n" using nn by (simp add: extent_def ucast_diff less_imp_le)
    ultimately show ?thesis using k unfolding counted_extent sf by (simp add: t_def grow_up_def)
  qed
  ultimately show "heap_inv t (remove1 n bs) (remove1 n fs)" by (simp add: heap_inv_def)
  note b = butlast_remove1 [OF d(2) nb]
  show "last (remove1 n bs) = last bs" by (rule b)
  show "live t (remove1 n bs) (remove1 n fs) = (live s bs fs)(c \<mapsto> next_block n s)"
    using cb cn n by (intro ext) (auto simp: live_def b sf nx)
  show "only (touch (set (0 # bs)) (set (0 # fs))) s t"
    unfolding t_def grow_up_def only_counters by (rule up_only [OF h cb(1,2)])
qed


lemma only_trans: "only T s t \<Longrightarrow> only T t u \<Longrightarrow> only T s u"
  by (simp add: only_def UMM_BLOCK_def)

lemma only_mono: "only T s t \<Longrightarrow> T \<subseteq> T' \<Longrightarrow> only T' s t"
  unfolding only_def by blast

lemma touch_mono: "B \<subseteq> B' \<Longrightarrow> F \<subseteq> F' \<Longrightarrow> touch B F \<subseteq> touch B' F'"
  by (auto simp: touch_def)

lemma split_inv:
  assumes inv: "heap_inv s bs fs" and l: "live s bs fs c = Some e" and d: "c < c + k" "c + k < e"
  defines "t \<equiv> umm_split_block c k 0 s"
  shows "heap_inv t (insort (c + k) bs) fs" and "live t (insort (c + k) bs) fs = (live s bs fs)(c \<mapsto> c + k, c + k \<mapsto> e)"
    and "last (insort (c + k) bs) = last bs" and "next_block 0 t = next_block 0 s"
    and "only (touch (insert (c + k) (set (0 # bs))) (set (0 # fs))) s t" and "c + k \<notin> set bs"
proof -
  have h: "heap_lists s bs fs" and co: "coalesced s fs" and n: "counted s fs" using inv by (simp_all add: heap_inv_def)
  have cb: "c \<in> set (butlast bs)" "c \<notin> set fs" "next_block c s = e" using l by (simp_all add: live_def split: if_splits)
  let ?d = "c + k"
  from inner_block [OF h cb(1)] obtain xs ys where bs: "bs = xs @ c # e # ys" and e: "c \<noteq> 0" "\<not> bit e 15" using cb(3) by metis
  have bf: "blocks_from s 0 bs" and sub: "set fs \<subseteq> set (butlast bs)"
    and fr: "\<forall>b \<in> set (0 # bs). is_free b s \<longleftrightarrow> b \<in> set fs" using h by (simp_all add: heap_lists_def)
  have ds: "?d \<noteq> c" "\<not> bit ?d 15" "e \<noteq> ?d" using d e(2) between_small by auto
  have "next_block c s \<noteq> ?d" using ds(3) cb(3) by simp
  note sl = split_links [OF ds(1,2) this, of 0, folded t_def, simplified]
  have dn: "?d \<notin> set bs" and bu: "blocks_from t 0 (insort ?d bs)"
    using split_blocks [OF bf [unfolded bs], of ?d t] d ds(3) cb(3) sl unfolding bs by (simp_all add: t_def)
  show "?d \<notin> set bs" by (rule dn)
  have d0: "?d \<noteq> 0" using d(1) by auto
  have df: "?d \<notin> set fs" using dn sub in_set_butlastD by fast
  have s: "sorted_wrt (<) bs" using lists_sorted [OF h] by simp
  have i: "insort ?d bs = xs @ c # ?d # e # ys" unfolding bs by (rule insort_middle [OF s [unfolded bs] d])
  have lb: "butlast (insort ?d bs) = xs @ c # ?d # butlast (e # ys)" unfolding i using butlast_keep [of "xs @ [c]" ?d e ys] by simp
  have ob: "butlast bs = xs @ c # butlast (e # ys)" unfolding bs by (rule butlast_keep)
  have sb: "set (butlast (insort ?d bs)) = insert ?d (set (butlast bs))" unfolding lb ob by auto
  have fz: "umm_heap t = umm_heap s" "free_blocks t = free_blocks s" "umm_numblocks t = umm_numblocks s" by (simp_all add: t_def)
  have "free_from t 0 fs = free_from s 0 fs" by (rule free_from_frame) (simp_all add: sl fz)
  moreover have "\<forall>b \<in> set (0 # insort ?d bs). is_free b t \<longleftrightarrow> b \<in> set fs"
  proof
    fix b
    assume "b \<in> set (0 # insort ?d bs)"
    then have "b = ?d \<or> b \<in> set (0 # bs)" by (auto simp: set_insort_key)
    then show "is_free b t \<longleftrightarrow> b \<in> set fs" using fr df cb(2) unfolding sl by (simp del: add_cancel_left_right) blast
  qed
  moreover have "insort ?d bs \<noteq> []" unfolding i by simp
  ultimately have "heap_lists t (insort ?d bs) fs" using h bu sub unfolding heap_lists_def sb fz by blast
  moreover have nx: "next_block x t = next_block x s" if "x \<in> set fs" for x
  proof -
    have "x \<noteq> c" "x \<noteq> ?d" using that cb(2) df by metis+
    then show ?thesis unfolding sl by simp
  qed
  then have "coalesced t fs" using co by (simp add: coalesced_def)
  moreover have "sum (extent t) (set fs) = sum (extent s) (set fs)" by (intro sum.cong) (simp_all add: extent_def nx)
  then have "counted t fs" using n by (simp add: counted_extent fz)
  ultimately show "heap_inv t (insort ?d bs) fs" by (simp add: heap_inv_def)
  show "live t (insort ?d bs) fs = (live s bs fs)(c \<mapsto> ?d, ?d \<mapsto> e)"
  proof
    fix b
    consider "b = ?d" | "b = c" | "b \<noteq> ?d" "b \<noteq> c" by blast
    then show "live t (insort ?d bs) fs b = ((live s bs fs)(c \<mapsto> ?d, ?d \<mapsto> e)) b"
    proof cases
      case 1
      then show ?thesis using df ds(1) cb(3) unfolding live_def sb sl by (simp del: add_cancel_left_right)
    next
      case 2
      then show ?thesis using cb ds(1) unfolding live_def sb sl by (simp del: add_cancel_left_right)
    next
      case 3
      then show ?thesis unfolding live_def sb sl by simp
    qed
  qed
  have "last (insort ?d bs) = last (xs @ c # ?d # e # ys)" by (simp only: i)
  also have "\<dots> = last bs" by (simp add: bs)
  finally show "last (insort ?d bs) = last bs" .
  show "next_block 0 t = next_block 0 s" using e(1) d0 unfolding sl by simp
  have "c \<in> set bs" "next_block c s \<in> set bs" unfolding bs cb(3) by simp_all
  then show "only (touch (insert ?d (set (0 # bs))) (set (0 # fs))) s t"
    unfolding t_def using ds(1) by (intro split_only only_refl) simp_all
qed

definition shrink :: "u16 \<Rightarrow> u16 \<Rightarrow> umm \<Rightarrow> umm" where
  "shrink c k s = (let s = umm_split_block c k 0 s in umm_free_core (UMM_DATA (c + k) s) s)"

lemma shrink_inv:
  assumes inv: "heap_inv s bs fs" and l: "live s bs fs c = Some e" and d: "c < c + k" "c + k < e"
  obtains bs' fs' where "heap_inv (shrink c k s) bs' fs'" "live (shrink c k s) bs' fs' = (live s bs fs)(c \<mapsto> c + k)"
    "last bs' = last bs" "next_block 0 (shrink c k s) = next_block 0 s"
    "only (touch (insert (c + k) (set (0 # bs))) (insert (c + k) (set (0 # fs)))) s (shrink c k s)"
proof -
  let ?d = "c + k" and ?u = "umm_split_block c k 0 s"
  note u = split_inv [OF inv l d]
  have ld: "live ?u (insort ?d bs) fs ?d = Some e" unfolding u(2) by simp
  have eq: "shrink c k s = umm_free_core (UMM_DATA ?d ?u) ?u" by (simp only: shrink_def Let_def)
  obtain bs' fs' where t: "heap_inv (shrink c k s) bs' fs'" "last bs' = last (insort ?d bs)"
    "live (shrink c k s) bs' fs' = (live ?u (insort ?d bs) fs)(?d := None)" "next_block 0 (shrink c k s) = next_block 0 ?u"
    unfolding eq by (rule free_inv [OF u(1) ld])
  have hu: "heap_lists ?u (insort ?d bs) fs" using u(1) by (simp add: heap_inv_def)
  have db: "?d \<in> set (butlast (insort ?d bs))" "?d \<notin> set fs" using ld by (simp_all add: live_def split: if_splits)
  have "live s bs fs ?d = None" using u(6) in_set_butlastD by (fastforce simp: live_def)
  then have "live (shrink c k s) bs' fs' = (live s bs fs)(c \<mapsto> ?d)"
    using d(1) unfolding t(3) u(2) by (intro ext) auto
  moreover have "only (touch (insert ?d (set (0 # bs))) (insert ?d (set (0 # fs)))) s (shrink c k s)"
  proof (rule only_trans)
    show "only (touch (insert ?d (set (0 # bs))) (insert ?d (set (0 # fs)))) s ?u"
      by (rule only_mono [OF u(5) touch_mono]) auto
    have "only (touch (set (0 # insort ?d bs)) (insert ?d (set (0 # fs)))) ?u (shrink c k s)"
      unfolding eq by (rule free_only [OF hu db])
    then show "only (touch (insert ?d (set (0 # bs))) (insert ?d (set (0 # fs)))) ?u (shrink c k s)"
      by (rule only_mono [OF _ touch_mono]) (auto simp: set_insort_key)
  qed
  ultimately show ?thesis using that t u by simp
qed


section \<open>The contents\<close>

lemma only_live:
  assumes "only (touch (set (0 # bs)) (set (0 # fs))) s t" and "heap_lists s bs fs" and "live s bs fs b = Some e" and "a \<in> payload s b e"
  shows "ram_bytes t a = ram_bytes s a"
  using live_order [OF assms(2,3)] order_free [OF assms(2,3)] by (intro only_payload [OF assms(1,4)]) blast+

lemma two_live:
  assumes "heap_lists s bs fs" and "live s bs fs b = Some e" and "live s bs fs c = Some e'" and "b \<noteq> c"
  shows "e \<le> c \<or> e' \<le> b"
proof -
  have "b \<in> set (0 # bs)" "c \<in> set (0 # bs)" using live_bounds(5) [OF assms(1)] assms(2,3) by simp_all
  then have "c \<le> b \<or> e \<le> c" "b \<le> c \<or> e' \<le> b" using live_order [OF assms(1,2)] live_order [OF assms(1,3)] by blast+
  then show ?thesis using assms(4) by (metis order_antisym)
qed

lemma shrink_keeps:
  assumes inv: "heap_inv s bs fs" and l: "live s bs fs c = Some e" and d: "c < c + k" "c + k < e"
  shows "live s bs fs b = Some e' \<Longrightarrow> b \<noteq> c \<Longrightarrow> a \<in> payload s b e' \<Longrightarrow> ram_bytes (shrink c k s) a = ram_bytes s a"
    and "a \<in> payload s c (c + k) \<Longrightarrow> ram_bytes (shrink c k s) a = ram_bytes s a"
proof -
  have h: "heap_lists s bs fs" using inv by (simp add: heap_inv_def)
  obtain bs' fs' where "heap_inv (shrink c k s) bs' fs'" "live (shrink c k s) bs' fs' = (live s bs fs)(c \<mapsto> c + k)"
    "last bs' = last bs" "next_block 0 (shrink c k s) = next_block 0 s"
    and o: "only (touch (insert (c + k) (set (0 # bs))) (insert (c + k) (set (0 # fs)))) s (shrink c k s)"
    by (rule shrink_inv [OF assms])
  show "ram_bytes (shrink c k s) a = ram_bytes s a" if b: "live s bs fs b = Some e'" "b \<noteq> c" "a \<in> payload s b e'"
  proof -
    have "c + k < b \<or> e' \<le> c + k" using two_live [OF h b(1) l b(2)] d by (metis less_imp_le order_trans order_less_le_trans)
    then show ?thesis using live_order [OF h b(1)] order_free [OF h b(1)]
      by (intro only_payload [OF o b(3)]) (auto intro: less_imp_le)
  qed
  show "ram_bytes (shrink c k s) a = ram_bytes s a" if "a \<in> payload s c (c + k)"
  proof (rule only_payload [OF o that])
    show "\<forall>x \<in> insert (c + k) (set (0 # bs)). x \<le> c \<or> c + k \<le> x"
      using live_order [OF h l] d(2) by (metis insert_iff less_imp_le order_refl order_trans)
    show "\<forall>x \<in> insert (c + k) (set (0 # fs)). x < c \<or> c + k \<le> x"
      using order_free [OF h l] d(2) by (metis insert_iff less_imp_le order_refl order_trans)
  qed
qed

text \<open>A block cut to \<open>k\<close> blocks, where it is longer.\<close>

lemma fit_inv:
  assumes inv: "heap_inv s bs fs" and l: "live s bs fs c = Some e" and k: "k \<noteq> 0" "k \<le> e - c"
  defines "t \<equiv> (if k < e - c then shrink c k s else s)"
  obtains bs' fs' where "heap_inv t bs' fs'" "live t bs' fs' = (live s bs fs)(c \<mapsto> c + k)"
    "last bs' = last bs" "next_block 0 t = next_block 0 s" "umm_heap t = umm_heap s" "heap_start t = heap_start s"
    "\<forall>b e' a. live s bs fs b = Some e' \<and> b \<noteq> c \<and> a \<in> payload s b e' \<longrightarrow> ram_bytes t a = ram_bytes s a"
    "\<forall>a \<in> payload s c (c + k). ram_bytes t a = ram_bytes s a"
proof -
  have h: "heap_lists s bs fs" using inv by (simp add: heap_inv_def)
  have ce: "c < e" by (rule live_bounds(2) [OF h l])
  show ?thesis
  proof (cases "k < e - c")
    case False
    then have "k = e - c" using k(2) by simp
    then have "(live s bs fs)(c \<mapsto> c + k) = live s bs fs" using l by (simp add: fun_upd_idem)
    then show ?thesis using that [of bs fs] inv False by (simp add: t_def)
  next
    case True
    have u: "unat (e - c) = unat e - unat c" using ce by (simp add: unat_sub less_imp_le)
    have kl: "unat k < unat e - unat c" using True u by (simp add: word_less_nat_alt)
    have "unat e < 2 ^ LENGTH(16)" by (rule unsigned_less)
    then have ck: "unat (c + k) = unat c + unat k" using kl by (intro unat_add_lem [THEN iffD1]) simp
    have "unat k \<noteq> 0" using k(1) by (simp add: unat_eq_zero)
    then have d: "c < c + k" "c + k < e" using kl ck by (simp_all add: word_less_nat_alt)
    obtain bs' fs' where r: "heap_inv (shrink c k s) bs' fs'" "live (shrink c k s) bs' fs' = (live s bs fs)(c \<mapsto> c + k)"
      "last bs' = last bs" "next_block 0 (shrink c k s) = next_block 0 s"
      and o: "only (touch (insert (c + k) (set (0 # bs))) (insert (c + k) (set (0 # fs)))) s (shrink c k s)"
      by (rule shrink_inv [OF inv l d])
    have "\<forall>b e' a. live s bs fs b = Some e' \<and> b \<noteq> c \<and> a \<in> payload s b e' \<longrightarrow> ram_bytes (shrink c k s) a = ram_bytes s a"
      "\<forall>a \<in> payload s c (c + k). ram_bytes (shrink c k s) a = ram_bytes s a"
      using shrink_keeps [OF inv l d] by blast+
    then show ?thesis using that [of bs' fs'] r only_start [OF o] True by (simp add: t_def)
  qed
qed


section \<open>Moving a block\<close>

text \<open>The used block \<open>c\<close> has become the block \<open>d\<close> of \<open>k\<close> blocks, with as much of its contents as fits.\<close>

definition moved :: "umm \<Rightarrow> u16 list \<Rightarrow> u16 list \<Rightarrow> u16 \<Rightarrow> u16 \<Rightarrow> u16 \<Rightarrow> umm \<Rightarrow> bool" where
  "moved s bs fs c d k t \<longleftrightarrow>
     (\<exists>bs' fs'. heap_inv t bs' fs' \<and> last bs' = last bs \<and> live t bs' fs' = (live s bs fs)(c := None, d \<mapsto> d + k)) \<and>
     next_block 0 t = next_block 0 s \<and> umm_heap t = umm_heap s \<and> heap_start t = heap_start s \<and>
     d \<in> set (butlast bs) \<and> (d = c \<or> live s bs fs d = None) \<and>
     (\<forall>b e a. live s bs fs b = Some e \<and> b \<noteq> c \<and> a \<in> payload s b e \<longrightarrow> ram_bytes t a = ram_bytes s a) \<and>
     (\<forall>i. unat i + 4 < 8 * unat (block_size s c) \<and> unat i + 4 < 8 * unat k \<longrightarrow>
        ram_bytes t (UMM_DATA d s + i) = ram_bytes s (UMM_DATA c s + i))"

lemma payload_index:
  assumes "unat i + 4 < 8 * (unat e - unat b)"
  shows "UMM_DATA b s + i \<in> payload s b e"
proof (rule payload_data [of _ _ "i + 1"])
  show "b < e" using assms by (simp add: word_less_nat_alt)
  have "unat e < 65536" using unsigned_less [of e] by simp
  then have "unat (i + 1) = unat i + 1" using assms by (intro unat_add_lem [THEN iffD1, THEN trans]) simp_all
  then show "unat (i + 1) + 4 \<le> 8 * (unat e - unat b)" "UMM_DATA b s + i - UMM_DATA b s < i + 1"
    using assms by (simp_all add: word_less_nat_alt)
qed

lemma payload_heap: "umm_heap t = umm_heap s \<Longrightarrow> payload t b e = payload s b e"
  by (simp add: payload_def)

lemma payload_mono: "p \<le> b \<Longrightarrow> e \<le> e' \<Longrightarrow> payload s b e \<subseteq> payload s p e'"
proof
  fix a
  assume "p \<le> b" "e \<le> e'" "a \<in> payload s b e"
  moreover have "unat (8 * ucast b + 4 :: u32) = 8 * unat b + 4" "unat (8 * ucast p + 4 :: u32) = 8 * unat p + 4"
    "unat (8 * ucast e :: u32) = 8 * unat e" "unat (8 * ucast e' :: u32) = 8 * unat e'"
    using unat_offset [of 4 b] unat_offset [of 4 p] unat_offset [of 0 e] unat_offset [of 0 e'] by simp_all
  ultimately show "a \<in> payload s p e'" by (simp add: payload_def word_le_nat_alt word_less_nat_alt)
qed

lemma payload_disjoint:
  assumes "e \<le> c \<or> e' \<le> b" and "a \<in> payload s b e"
  shows "a \<notin> payload s c e'"
proof
  assume "a \<in> payload s c e'"
  moreover have "unat (8 * ucast b + 4 :: u32) = 8 * unat b + 4" "unat (8 * ucast c + 4 :: u32) = 8 * unat c + 4"
    "unat (8 * ucast e :: u32) = 8 * unat e" "unat (8 * ucast e' :: u32) = 8 * unat e'"
    using unat_offset [of 4 b] unat_offset [of 4 c] unat_offset [of 0 e] unat_offset [of 0 e'] by simp_all
  ultimately show False using assms by (auto simp: payload_def word_le_nat_alt word_less_nat_alt)
qed

text \<open>The move of a used block's contents to the start of a used block where they fit.\<close>

definition cur_size :: "u16 \<Rightarrow> u32" where
  "cur_size z = ucast z * 8 - 4"

lemma unat_cur_size: "z \<noteq> 0 \<Longrightarrow> unat (cur_size z) = 8 * unat z - 4"
proof -
  assume "z \<noteq> 0"
  then have z: "unat z \<noteq> 0" by (simp add: unat_eq_zero)
  have "unat (8 * ucast z :: u32) = 8 * unat z" using unat_offset [of 0 z] by simp
  then show ?thesis using z unfolding cur_size_def mult.commute [of _ 8] by (subst unat_sub) (simp_all add: word_le_nat_alt)
qed

lemma move_contents:
  fixes q :: u32
  assumes inv: "heap_inv s bs fs" and l: "live s bs fs d = Some e" and z: "z \<noteq> 0" "unat z \<le> unat e - unat d"
  defines "t \<equiv> memmove (UMM_DATA d s) q (cur_size z) s"
  shows "heap_inv t bs fs" and "live t bs fs = live s bs fs" and "umm_heap t = umm_heap s" and "heap_start t = heap_start s"
    and "next_block 0 t = next_block 0 s" and "a \<notin> payload s d e \<Longrightarrow> ram_bytes t a = ram_bytes s a"
    and "unat i + 4 < 8 * unat z \<Longrightarrow> ram_bytes t (UMM_DATA d s + i) = ram_bytes s (q + i)"
proof -
  have h: "heap_lists s bs fs" using inv by (simp add: heap_inv_def)
  have c: "unat (cur_size z) = 8 * unat z - 4" by (rule unat_cur_size [OF z(1)])
  have "unat z \<noteq> 0" using z(1) by (simp add: unat_eq_zero)
  then have "unat (cur_size z) + 4 \<le> 8 * (unat e - unat d)" using c z(2) by simp
  note p = payload_data [OF live_bounds(2) [OF h l] this]
  define m where "m = (\<lambda>a. if a - UMM_DATA d s < cur_size z then ram_bytes s (q + (a - UMM_DATA d s)) else ram_bytes s a)"
  have t: "t = s\<lparr>ram_bytes := m\<rparr>" by (simp add: t_def memmove_def m_def)
  have k: "m a = ram_bytes s a" if "a \<notin> payload s d e" for a using that p by (auto simp: m_def)
  have "heap_inv (s\<lparr>ram_bytes := m\<rparr>) bs fs" by (rule write_frame(1) [OF inv l]) (rule k)
  moreover have "live (s\<lparr>ram_bytes := m\<rparr>) bs fs = live s bs fs" by (rule write_frame(2) [OF inv l]) (rule k)
  ultimately show i: "heap_inv t bs fs" "live t bs fs = live s bs fs" unfolding t .
  show "umm_heap t = umm_heap s" "heap_start t = heap_start s" by (simp_all add: t)
  show "ram_bytes t a = ram_bytes s a" if "a \<notin> payload s d e" using k [OF that] by (simp add: t)
  show "ram_bytes t (UMM_DATA d s + i) = ram_bytes s (q + i)" if "unat i + 4 < 8 * unat z"
  proof -
    have "unat i < unat (cur_size z)" using that c by linarith
    then show ?thesis by (simp add: t m_def word_less_nat_alt)
  qed
  have "hd bs = next_block 0 s" "hd bs = next_block 0 t"
    using inv i unfolding heap_inv_def heap_lists_def by (cases bs; simp)+
  then show "next_block 0 t = next_block 0 s" by simp
qed

text \<open>Cut where it is.\<close>

lemma unat_end:
  assumes "k \<le> e - c" and "c < (e :: u16)"
  shows "unat (c + k) = unat c + unat k" and "unat (e - c) = unat e - unat c"
proof -
  show u: "unat (e - c) = unat e - unat c" using assms(2) by (simp add: unat_sub less_imp_le)
  then have "unat k \<le> unat e - unat c" using assms(1) by (simp add: word_le_nat_alt)
  moreover have "unat e < 2 ^ LENGTH(16)" "unat c < unat e" using unsigned_less [of e] assms(2) by (simp_all add: word_less_nat_alt)
  ultimately show "unat (c + k) = unat c + unat k" by (intro unat_add_lem [THEN iffD1]) linarith
qed

lemma moved_cut:
  assumes inv: "heap_inv s bs fs" and l: "live s bs fs c = Some e" and k: "k \<noteq> 0" "k \<le> e - c"
  shows "moved s bs fs c c k (if k < e - c then shrink c k s else s)"
proof -
  let ?t = "if k < e - c then shrink c k s else s"
  have h: "heap_lists s bs fs" using inv by (simp add: heap_inv_def)
  have u: "unat (c + k) = unat c + unat k" by (rule unat_end [OF k(2) live_bounds(2) [OF h l]])
  have cb: "c \<in> set (butlast bs)" using l by (simp add: live_def split: if_splits)
  obtain bs' fs' where t: "heap_inv ?t bs' fs'" "live ?t bs' fs' = (live s bs fs)(c \<mapsto> c + k)"
    "last bs' = last bs" "next_block 0 ?t = next_block 0 s" "umm_heap ?t = umm_heap s" "heap_start ?t = heap_start s"
    "\<forall>b e' a. live s bs fs b = Some e' \<and> b \<noteq> c \<and> a \<in> payload s b e' \<longrightarrow> ram_bytes ?t a = ram_bytes s a"
    "\<forall>a \<in> payload s c (c + k). ram_bytes ?t a = ram_bytes s a"
    by (rule fit_inv [OF assms])
  have "UMM_DATA c s + i \<in> payload s c (c + k)" if "unat i + 4 < 8 * unat k" for i
    using that u by (intro payload_index) simp
  moreover have "(live s bs fs)(c := None, c \<mapsto> c + k) = (live s bs fs)(c \<mapsto> c + k)" by simp
  ultimately show ?thesis unfolding moved_def using t cb by metis
qed

text \<open>Grown upwards and cut.\<close>

lemma moved_up:
  assumes inv: "heap_inv s bs fs" and l: "live s bs fs c = Some n" and n: "n \<in> set fs"
    and k: "n - c < k" "k \<le> next_block n s - c"
  shows "moved s bs fs c c k
    (let t = grow_up c (next_block n s - n) s in if k < next_block n s - c then shrink c k t else t)"
proof -
  let ?e = "next_block n s" and ?s = "grow_up c (next_block n s - n) s"
  let ?t = "if k < ?e - c then shrink c k ?s else ?s"
  note g = grow_up_inv [OF inv l n]
  have h: "heap_lists s bs fs" using inv by (simp add: heap_inv_def)
  have l1: "live ?s (remove1 n bs) (remove1 n fs) c = Some ?e" unfolding g(2) by simp
  have cn: "c < n" by (rule live_bounds(2) [OF h l])
  then have ce: "c < ?e" using g(7) by order
  have k0: "k \<noteq> 0" using k(1) by auto
  obtain bs' fs' where t: "heap_inv ?t bs' fs'" "live ?t bs' fs' = (live ?s (remove1 n bs) (remove1 n fs))(c \<mapsto> c + k)"
    "last bs' = last (remove1 n bs)" "next_block 0 ?t = next_block 0 ?s" "umm_heap ?t = umm_heap ?s" "heap_start ?t = heap_start ?s"
    "\<forall>b e' a. live ?s (remove1 n bs) (remove1 n fs) b = Some e' \<and> b \<noteq> c \<and> a \<in> payload ?s b e' \<longrightarrow> ram_bytes ?t a = ram_bytes ?s a"
    "\<forall>a \<in> payload ?s c (c + k). ram_bytes ?t a = ram_bytes ?s a"
    by (rule fit_inv [OF g(1) l1 k0 k(2)])
  note st = only_start [OF g(5)]
  note pl = payload_heap [OF st(1)]
  have cb: "c \<in> set (butlast bs)" "next_block c s = n" using l by (simp_all add: live_def split: if_splits)
  have lv: "live ?t bs' fs' = (live s bs fs)(c := None, c \<mapsto> c + k)" unfolding t(2) g(2) by simp
  have others: "ram_bytes ?t a = ram_bytes s a" if b: "live s bs fs b = Some e" "b \<noteq> c" "a \<in> payload s b e" for b e a
  proof -
    have "live ?s (remove1 n bs) (remove1 n fs) b = Some e" using b unfolding g(2) by simp
    then have "ram_bytes ?t a = ram_bytes ?s a" using t(7) b(2,3) unfolding pl by blast
    then show ?thesis using only_live [OF g(5) h b(1,3)] by simp
  qed
  have own: "ram_bytes ?t (UMM_DATA c s + i) = ram_bytes s (UMM_DATA c s + i)"
    if i: "unat i + 4 < 8 * unat (block_size s c)" "unat i + 4 < 8 * unat k" for i
  proof -
    have "unat (n - c) = unat n - unat c" using cn by (simp add: unat_sub less_imp_le)
    then have "UMM_DATA c s + i \<in> payload s c n" using i(1) cb(2) by (intro payload_index) (simp add: block_size_def)
    then have "ram_bytes ?s (UMM_DATA c s + i) = ram_bytes s (UMM_DATA c s + i)" by (rule only_live [OF g(5) h l])
    moreover have "UMM_DATA c s + i \<in> payload s c (c + k)"
      using i(2) unat_end(1) [OF k(2) ce] by (intro payload_index) simp
    then have "ram_bytes ?t (UMM_DATA c s + i) = ram_bytes ?s (UMM_DATA c s + i)" using t(8) unfolding pl by blast
    ultimately show ?thesis by simp
  qed
  have "next_block 0 ?t = next_block 0 s" "last bs' = last bs" "umm_heap ?t = umm_heap s" "heap_start ?t = heap_start s"
    using t(3-6) g(3,4) st by simp_all
  then show ?thesis unfolding moved_def Let_def using t(1) lv others own cb(1) by blast
qed


text \<open>Grown downwards, the contents moved, and cut.\<close>

lemma moved_down:
  assumes inv: "heap_inv s bs fs" and l: "live s bs fs c = Some e" and p: "UMM_PBLOCK c s \<in> set fs"
    and k: "k \<noteq> 0" "k \<le> e - UMM_PBLOCK c s"
  defines "p \<equiv> UMM_PBLOCK c s"
  shows "moved s bs fs c p k
    (let t = grow_down c (c - p) s; t = memmove (UMM_DATA p t) (UMM_DATA c s) (cur_size (e - c)) t
     in if k < e - p then shrink p k t else t)"
proof -
  let ?bs = "remove1 c bs" and ?fs = "remove1 p fs" and ?s = "grow_down c (c - p) s"
  let ?u = "memmove (UMM_DATA p ?s) (UMM_DATA c s) (cur_size (e - c)) ?s"
  let ?t = "if k < e - p then shrink p k ?u else ?u"
  note g = grow_down_inv [OF inv l p, folded p_def]
  have h: "heap_lists s bs fs" using inv by (simp add: heap_inv_def)
  have ce: "c < e" by (rule live_bounds(2) [OF h l])
  have pe: "p < e" using g(7) ce by order
  have l1: "live ?s ?bs ?fs p = Some e" unfolding g(2) by simp
  have z: "e - c \<noteq> 0" "unat (e - c) = unat e - unat c" using ce by (auto simp: unat_sub less_imp_le)
  have "unat p \<le> unat c" using g(7) by (simp add: word_less_nat_alt)
  then have "unat (e - c) \<le> unat e - unat p" using z(2) by simp
  note m = move_contents [OF g(1) l1 z(1) this, where q = "UMM_DATA c s"]
  have l2: "live ?u ?bs ?fs p = Some e" unfolding m(2) by (rule l1)
  note k' = k(1) k(2) [folded p_def]
  obtain bs' fs' where t: "heap_inv ?t bs' fs'" "live ?t bs' fs' = (live ?u ?bs ?fs)(p \<mapsto> p + k)"
    "last bs' = last ?bs" "next_block 0 ?t = next_block 0 ?u" "umm_heap ?t = umm_heap ?u" "heap_start ?t = heap_start ?u"
    "\<forall>b e' a. live ?u ?bs ?fs b = Some e' \<and> b \<noteq> p \<and> a \<in> payload ?u b e' \<longrightarrow> ram_bytes ?t a = ram_bytes ?u a"
    "\<forall>a \<in> payload ?u p (p + k). ram_bytes ?t a = ram_bytes ?u a"
    by (rule fit_inv [OF m(1) l2 k'])
  note st = only_start [OF g(5)]
  have pl: "payload ?s b x = payload s b x" "payload ?u b x = payload s b x" for b x
    using st(1) m(3) by (simp_all add: payload_def)
  have dt: "UMM_DATA b ?s = UMM_DATA b s" for b using st by (rule same_start)
  have cb: "c \<in> set (butlast bs)" "next_block c s = e" using l by (simp_all add: live_def split: if_splits)
  have pb: "p \<in> set (butlast bs)" "live s bs fs p = None"
    using p h unfolding p_def heap_lists_def live_def by auto
  have lv: "live ?t bs' fs' = (live s bs fs)(c := None, p \<mapsto> p + k)" unfolding t(2) m(2) g(2) by simp
  have others: "ram_bytes ?t a = ram_bytes s a" if b: "live s bs fs b = Some x" "b \<noteq> c" "a \<in> payload s b x" for b x a
  proof -
    have bp: "b \<noteq> p" using b(1) pb(2) by auto
    then have l3: "live ?s ?bs ?fs b = Some x" using b unfolding g(2) by simp
    then have "ram_bytes ?t a = ram_bytes ?u a" using t(7) b(3) bp unfolding pl m(2) by blast
    also have "\<dots> = ram_bytes ?s a"
    proof (rule m(6))
      have "heap_lists ?s ?bs ?fs" using g(1) by (simp add: heap_inv_def)
      from two_live [OF this l3 l1 bp] show "a \<notin> payload ?s p e" using b(3) unfolding pl by (rule payload_disjoint)
    qed
    also have "\<dots> = ram_bytes s a" by (rule only_live [OF g(5) h b(1,3)])
    finally show ?thesis .
  qed
  have own: "ram_bytes ?t (UMM_DATA p s + i) = ram_bytes s (UMM_DATA c s + i)"
    if i: "unat i + 4 < 8 * unat (block_size s c)" "unat i + 4 < 8 * unat k" for i
  proof -
    have iz: "unat i + 4 < 8 * unat (e - c)" using i(1) cb(2) by (simp add: block_size_def)
    have "UMM_DATA p s + i \<in> payload s p (p + k)" using i(2) unat_end(1) [OF k'(2) pe] by (intro payload_index) simp
    then have "ram_bytes ?t (UMM_DATA p s + i) = ram_bytes ?u (UMM_DATA p s + i)" using t(8) unfolding pl by blast
    also have "\<dots> = ram_bytes ?s (UMM_DATA c s + i)" using m(7) [OF iz] unfolding dt .
    also have "\<dots> = ram_bytes s (UMM_DATA c s + i)"
      using iz z(2) by (intro only_live [OF g(5) h l] payload_index) simp
    finally show ?thesis .
  qed
  have "next_block 0 ?t = next_block 0 s" "last bs' = last bs" "umm_heap ?t = umm_heap s" "heap_start ?t = heap_start s"
    using t(3-6) g(3,4) st m(3-5) by simp_all
  then show ?thesis unfolding moved_def Let_def using t(1) lv others own pb by blast
qed

text \<open>Grown both ways, cut, and the contents moved.\<close>

lemma moved_both:
  assumes inv: "heap_inv s bs fs" and l: "live s bs fs c = Some n" and p: "UMM_PBLOCK c s \<in> set fs" and n: "n \<in> set fs"
    and k: "n - UMM_PBLOCK c s < k" "k \<le> next_block n s - UMM_PBLOCK c s"
  defines "p \<equiv> UMM_PBLOCK c s"
  shows "moved s bs fs c p k
    (let t = grow_up p (next_block n s - n) (grow_down c (c - p) s);
         t = (if k < next_block n s - p then shrink p k t else t)
     in memmove (UMM_DATA p t) (UMM_DATA c s) (cur_size (n - c)) t)"
proof -
  let ?e = "next_block n s"
  let ?bs = "remove1 c bs" and ?fs = "remove1 p fs" and ?s = "grow_down c (c - p) s"
  let ?bs2 = "remove1 n ?bs" and ?fs2 = "remove1 n ?fs" and ?v = "grow_up p (?e - n) ?s"
  let ?u = "if k < ?e - p then shrink p k ?v else ?v"
  let ?t = "memmove (UMM_DATA p ?u) (UMM_DATA c s) (cur_size (n - c)) ?u"
  note g = grow_down_inv [OF inv l p, folded p_def]
  have h: "heap_lists s bs fs" using inv by (simp add: heap_inv_def)
  have ce: "c < n" by (rule live_bounds(2) [OF h l])
  have pn: "p < n" using g(7) ce by order
  have l1: "live ?s ?bs ?fs p = Some n" unfolding g(2) by simp
  have nf: "n \<in> set ?fs" using n pn by simp
  have en: "next_block n ?s = ?e" using g(6) [of n] pn by auto
  note v = grow_up_inv [OF g(1) l1 nf, unfolded en]
  have l2: "live ?v ?bs2 ?fs2 p = Some ?e" unfolding v(2) by simp
  have k': "k \<noteq> 0" "k \<le> ?e - p" using k unfolding p_def by auto
  obtain bs' fs' where u: "heap_inv ?u bs' fs'" "live ?u bs' fs' = (live ?v ?bs2 ?fs2)(p \<mapsto> p + k)"
    "last bs' = last ?bs2" "next_block 0 ?u = next_block 0 ?v" "umm_heap ?u = umm_heap ?v" "heap_start ?u = heap_start ?v"
    "\<forall>b e' a. live ?v ?bs2 ?fs2 b = Some e' \<and> b \<noteq> p \<and> a \<in> payload ?v b e' \<longrightarrow> ram_bytes ?u a = ram_bytes ?v a"
    "\<forall>a \<in> payload ?v p (p + k). ram_bytes ?u a = ram_bytes ?v a"
    by (rule fit_inv [OF v(1) l2 k'])
  note st = only_start [OF g(5)] only_start [OF v(5)]
  have hp: "umm_heap ?u = umm_heap s" "umm_heap ?v = umm_heap s" "umm_heap ?s = umm_heap s" using u(5) st by simp_all
  have hs: "heap_start ?u = heap_start s" using u(6) st by simp
  note pl = payload_heap [OF hp(1)] payload_heap [OF hp(2)] payload_heap [OF hp(3)]
  have dt: "UMM_DATA b ?u = UMM_DATA b s" for b by (rule same_start [OF hp(1) hs])
  have pe: "p < ?e" using pn v(7) by order
  have up: "unat (p + k) = unat p + unat k" by (rule unat_end(1) [OF k'(2) pe])
  have unp: "unat (n - p) = unat n - unat p" using pn by (simp add: unat_sub less_imp_le)
  have big: "n \<le> p + k" using k(1) unp up unfolding p_def [symmetric] by (simp add: word_less_nat_alt word_le_nat_alt)
  have z: "n - c \<noteq> 0" "unat (n - c) = unat n - unat c" using ce by (auto simp: unat_sub less_imp_le)
  have "unat p < unat c" "unat n \<le> unat (p + k)" using g(7) big by (simp_all add: word_less_nat_alt word_le_nat_alt)
  then have "unat (n - c) \<le> unat (p + k) - unat p" using z(2) by simp
  moreover have lu: "live ?u bs' fs' p = Some (p + k)" unfolding u(2) by simp
  ultimately have m: "heap_inv ?t bs' fs'" "live ?t bs' fs' = live ?u bs' fs'" "umm_heap ?t = umm_heap ?u" "heap_start ?t = heap_start ?u"
      "next_block 0 ?t = next_block 0 ?u" "\<And>a. a \<notin> payload ?u p (p + k) \<Longrightarrow> ram_bytes ?t a = ram_bytes ?u a"
      "\<And>i. unat i + 4 < 8 * unat (n - c) \<Longrightarrow> ram_bytes ?t (UMM_DATA p ?u + i) = ram_bytes ?u (UMM_DATA c s + i)"
    using move_contents [OF u(1) lu z(1)] by blast+
  have cb: "c \<in> set (butlast bs)" "next_block c s = n" using l by (simp_all add: live_def split: if_splits)
  have pb: "p \<in> set (butlast bs)" "live s bs fs p = None"
    using p h unfolding p_def heap_lists_def live_def by auto
  have lv: "live ?t bs' fs' = (live s bs fs)(c := None, p \<mapsto> p + k)" unfolding m(2) u(2) v(2) g(2) by simp
  have h1: "heap_lists ?s ?bs ?fs" and hu: "heap_lists ?u bs' fs'" using g(1) u(1) by (simp_all add: heap_inv_def)
  have others: "ram_bytes ?t a = ram_bytes s a" if b: "live s bs fs b = Some x" "b \<noteq> c" "a \<in> payload s b x" for b x a
  proof -
    have bp: "b \<noteq> p" using b(1) pb(2) by auto
    then have b1: "live ?s ?bs ?fs b = Some x" using b unfolding g(2) by simp
    then have b2: "live ?v ?bs2 ?fs2 b = Some x" using bp unfolding v(2) by simp
    then have b3: "live ?u bs' fs' b = Some x" using bp unfolding u(2) by simp
    have "ram_bytes ?t a = ram_bytes ?u a"
      using payload_disjoint [OF two_live [OF hu b3 lu bp] b(3)] unfolding pl by (intro m(6)) (simp add: pl)
    also have "\<dots> = ram_bytes ?v a" using u(7) b2 b(3) bp unfolding pl by blast
    also have "\<dots> = ram_bytes ?s a" using b(3) unfolding pl(3) [symmetric] by (rule only_live [OF v(5) h1 b1])
    also have "\<dots> = ram_bytes s a" by (rule only_live [OF g(5) h b(1,3)])
    finally show ?thesis .
  qed
  have own: "ram_bytes ?t (UMM_DATA p s + i) = ram_bytes s (UMM_DATA c s + i)"
    if i: "unat i + 4 < 8 * unat (block_size s c)" "unat i + 4 < 8 * unat k" for i
  proof -
    have iz: "unat i + 4 < 8 * unat (n - c)" using i(1) cb(2) by (simp add: block_size_def)
    have a: "UMM_DATA c s + i \<in> payload s c n" using iz z(2) by (intro payload_index) simp
    then have "UMM_DATA c s + i \<in> payload s p (p + k)" "UMM_DATA c s + i \<in> payload s p n"
      using payload_mono [of p c n "p + k" s] payload_mono [of p c n n s] g(7) big by (auto simp: less_imp_le)
    then have "ram_bytes ?u (UMM_DATA c s + i) = ram_bytes ?v (UMM_DATA c s + i)"
      "ram_bytes ?v (UMM_DATA c s + i) = ram_bytes ?s (UMM_DATA c s + i)"
      using u(8) only_live [OF v(5) h1 l1] unfolding pl by blast+
    moreover have "ram_bytes ?s (UMM_DATA c s + i) = ram_bytes s (UMM_DATA c s + i)" by (rule only_live [OF g(5) h l a])
    ultimately show ?thesis using m(7) [OF iz] unfolding dt by simp
  qed
  have "next_block 0 ?t = next_block 0 s" "last bs' = last bs" "umm_heap ?t = umm_heap s" "heap_start ?t = heap_start s"
    using u(3,4) g(3,4) v(3,4) hp hs m(3-5) by simp_all
  then show ?thesis unfolding moved_def Let_def using m(1) lv others own pb by blast
qed


text \<open>A new block, and the old one freed.\<close>

lemma moved_new:
  assumes inv: "heap_inv s bs fs" and l: "live s bs fs c = Some e" and k: "umm_blocks sz \<noteq> 0" "e - c \<le> umm_blocks sz"
    and f: "f \<in> set fs" "umm_blocks sz \<le> block_size s f"
  obtains d t where "umm_malloc_core sz s = Some (UMM_DATA d s, t)"
    "moved s bs fs c d (umm_blocks sz) (umm_free_core (UMM_DATA c s) (memmove (UMM_DATA d s) (UMM_DATA c s) (cur_size (e - c)) t))"
proof -
  let ?k = "umm_blocks sz"
  have h: "heap_lists s bs fs" using inv by (simp add: heap_inv_def)
  obtain d t bs1 fs1 where r: "umm_malloc_core sz s = Some (UMM_DATA d s, t)" and d: "d \<in> set fs" "?k \<le> block_size s d"
    and t: "heap_inv t bs1 fs1" "last bs1 = last bs" "live t bs1 fs1 = (live s bs fs)(d \<mapsto> d + ?k)" "next_block 0 t = next_block 0 s"
      "t = (take_block d (block_size s d) ?k s)\<lparr>free_blocks := free_blocks s - ucast ?k\<rparr>"
    by (rule malloc_inv [OF inv k(1) f])
  have db: "d \<in> set (butlast bs)" using h d(1) unfolding heap_lists_def by blast
  obtain T where "only T s (take_block d (block_size s d) ?k s)"
    using take_only [OF h d(1), of "umm_blocks sz"] k(1) by metis
  then have "only T s t" by (simp add: t(5))
  note st = only_start [OF this]
  have dn: "live s bs fs d = None" using d(1) by (simp add: live_def)
  then have cd: "c \<noteq> d" using l by auto
  have ce: "c < e" by (rule live_bounds(2) [OF h l])
  have z: "e - c \<noteq> 0" "unat (e - c) = unat e - unat c" using ce by (auto simp: unat_sub less_imp_le)
  have ld: "live t bs1 fs1 d = Some (d + ?k)" unfolding t(3) by simp
  have ud: "unat (d + ?k) = unat d + unat ?k"
  proof -
    have "?k \<le> next_block d s - d" using d(2) by (simp add: block_size_def)
    then show ?thesis using inner_size(3) [OF h db] by (rule unat_end(1))
  qed
  have dt: "UMM_DATA b t = UMM_DATA b s" for b using st by (rule same_start)
  define u where "u = memmove (UMM_DATA d s) (UMM_DATA c s) (cur_size (e - c)) t"
  have "unat (e - c) \<le> unat (d + ?k) - unat d" using k(2) ud by (simp add: word_le_nat_alt)
  note m = move_contents [OF t(1) ld z(1) this, where q = "UMM_DATA c s", unfolded dt, folded u_def]
  have du: "UMM_DATA b u = UMM_DATA b s" for b using m(3,4) st by (intro same_start) simp_all
  have lc: "live u bs1 fs1 c = Some e" unfolding m(2) t(3) using l cd by simp
  have hu: "heap_lists u bs1 fs1" using m(1) by (simp add: heap_inv_def)
  have ht: "heap_lists t bs1 fs1" using t(1) by (simp add: heap_inv_def)
  let ?v = "umm_free_core (UMM_DATA c s) u"
  obtain bs2 fs2 where v: "heap_inv ?v bs2 fs2" "last bs2 = last bs1" "live ?v bs2 fs2 = (live u bs1 fs1)(c := None)"
      "next_block 0 ?v = next_block 0 u"
    by (rule free_inv [OF m(1) lc, unfolded du])
  have cb: "c \<in> set (butlast bs1)" "c \<notin> set fs1" using lc by (simp_all add: live_def split: if_splits)
  note sv = only_start [OF free_only [OF hu cb], unfolded du]
  have pl: "payload t b x = payload s b x" "payload u b x = payload s b x" for b x
    using st m(3) by (simp_all add: payload_def)
  have others: "ram_bytes ?v a = ram_bytes s a" if b: "live s bs fs b = Some x" "b \<noteq> c" "a \<in> payload s b x" for b x a
  proof -
    have bd: "b \<noteq> d" using b(1) dn by auto
    then have b1: "live t bs1 fs1 b = Some x" using b unfolding t(3) by simp
    then have "ram_bytes ?v a = ram_bytes u a"
      using free_keeps [OF hu _ lc b(2), of x a] b(3) unfolding pl m(2) du by blast
    also have "\<dots> = ram_bytes t a"
      using payload_disjoint [OF two_live [OF ht b1 ld bd] b(3)] by (intro m(6)) (simp add: pl)
    also have "\<dots> = ram_bytes s a" unfolding t(5) using take_keeps [OF h b(1) d(1) k(1) d(2) b(3)] by simp
    finally show ?thesis .
  qed
  have own: "ram_bytes ?v (UMM_DATA d s + i) = ram_bytes s (UMM_DATA c s + i)"
    if i: "unat i + 4 < 8 * unat (block_size s c)" "unat i + 4 < 8 * unat ?k" for i
  proof -
    have "block_size s c = e - c" using l by (simp add: live_def block_size_def split: if_splits)
    then have iz: "unat i + 4 < 8 * unat (e - c)" using i(1) by simp
    have "UMM_DATA d s + i \<in> payload s d (d + ?k)" using i(2) ud by (intro payload_index) simp
    moreover have "live u bs1 fs1 d = Some (d + ?k)" unfolding m(2) by (rule ld)
    ultimately have "ram_bytes ?v (UMM_DATA d s + i) = ram_bytes u (UMM_DATA d s + i)"
      using free_keeps [OF hu _ lc, of d "d + ?k" "UMM_DATA d s + i"] cd unfolding pl du by metis
    also have "\<dots> = ram_bytes t (UMM_DATA c s + i)" by (rule m(7) [OF iz])
    also have "\<dots> = ram_bytes s (UMM_DATA c s + i)"
      unfolding t(5) using take_keeps [OF h l d(1) k(1) d(2) payload_index [of i e c]] iz z(2) by simp
    finally show ?thesis .
  qed
  have lv: "live ?v bs2 fs2 = (live s bs fs)(c := None, d \<mapsto> d + ?k)" unfolding v(3) m(2) t(3) using cd by (auto simp: fun_upd_twist)
  have "next_block 0 ?v = next_block 0 s" "last bs2 = last bs" "umm_heap ?v = umm_heap s" "heap_start ?v = heap_start s"
    using v(2,4) t(2,4) st sv m(3-5) by simp_all
  then have "moved s bs fs c d ?k ?v" unfolding moved_def using v(1) lv others own db dn by blast
  then show ?thesis using that [OF r] unfolding u_def by simp
qed

section \<open>umm_realloc\<close>

lemma free_core_fields [simp]:
  "umm_heap (umm_free_core q s) = umm_heap s" "heap_start (umm_free_core q s) = heap_start s"
  by (simp_all add: umm_free_core_def umm_assimilate_up_def umm_assimilate_down_def umm_disconnect_from_free_list_def Let_def)

lemma resize_fields [simp]:
  "UMM_DATA b (grow_down c z s) = UMM_DATA b s" "UMM_DATA b (grow_up c z s) = UMM_DATA b s"
  "UMM_DATA b (shrink c k s) = UMM_DATA b s" "UMM_DATA b (memmove q r m s) = UMM_DATA b s"
  by (simp_all add: UMM_DATA_def UMM_BLOCK_def grow_down_def grow_up_def shrink_def memmove_def disconnect_links Let_def)

lemma realloc_eq:
  fixes sz :: u32
  assumes h: "heap_lists s bs fs" and l: "live s bs fs c = Some e" and p: "UMM_DATA c s \<noteq> 0" and sz: "sz \<noteq> 0"
  defines "k \<equiv> umm_blocks sz" and "pz \<equiv> (if UMM_PBLOCK c s \<in> set fs then c - UMM_PBLOCK c s else 0)"
    and "nz \<equiv> (if e \<in> set fs then next_block e s - e else 0)" and "d \<equiv> UMM_PBLOCK c s" and "m \<equiv> cur_size (e - c)"
  shows "umm_realloc (UMM_DATA c s) sz s =
    (if pz \<noteq> 0 \<and> unat k \<le> unat pz + unat (e - c) + unat nz then
       (if k \<le> (e - c) + pz then
          (let t = grow_down c pz s; t = memmove (UMM_DATA d t) (UMM_DATA c s) m t
           in Some (UMM_DATA d s, if k < (e - c) + pz then shrink d k t else t))
        else
          (let t = grow_up d nz (grow_down c pz s); t = (if k < (e - c) + pz + nz then shrink d k t else t)
           in Some (UMM_DATA d s, memmove (UMM_DATA d t) (UMM_DATA c s) m t)))
     else if k \<le> e - c then Some (UMM_DATA c s, if k < e - c then shrink c k s else s)
     else if unat k \<le> unat (e - c) + unat nz then
       (let t = grow_up c nz s in Some (UMM_DATA c s, if k < (e - c) + nz then shrink c k t else t))
     else do {
       (q, t) \<leftarrow> umm_malloc_core sz s;
       Some (q, if q \<noteq> 0 then umm_free_core (UMM_DATA c s) (memmove q (UMM_DATA c s) m t) else t\<lparr>oom_count := oom_count t + 1\<rparr>) })"
proof -
  have nz: "umm_heap s \<noteq> 0" using h by (simp add: heap_lists_def)
  have cb: "c \<in> set (butlast bs)" "c \<notin> set fs" "next_block c s = e" using l by (simp_all add: live_def split: if_splits)
  have "\<not> is_free c s" using used_block [OF h cb(1,2)] by metis
  then have n: "UMM_NBLOCK c s = e" using cb(3) by (simp add: next_block_used)
  have "e \<in> set bs" using inner_size(4) [OF h cb(1)] cb(3) by simp
  then have fe: "UMM_NBLOCK e s AND UMM_FREELIST_MASK \<noteq> 0 \<longleftrightarrow> e \<in> set fs" using h by (simp add: heap_lists_def is_free_def)
  have fp: "UMM_NBLOCK (UMM_PBLOCK c s) s AND UMM_FREELIST_MASK \<noteq> 0 \<longleftrightarrow> UMM_PBLOCK c s \<in> set fs"
    using h prev_next(2) [OF h in_set_butlastD [OF cb(1)]] unfolding heap_lists_def is_free_def by blast
  have dn: "fst (umm_assimilate_down c 0 (umm_disconnect_from_free_list (UMM_PBLOCK c s) s)) = UMM_PBLOCK c s" if "UMM_PBLOCK c s \<noteq> c"
    using that n by (simp add: umm_assimilate_down_def Let_def disconnect_links)
  have pc: "UMM_PBLOCK c s \<noteq> c" if "pz \<noteq> 0" using that by (auto simp: pz_def split: if_splits)
  obtain w where w: "umm_assimilate_down c 0 (umm_disconnect_from_free_list (UMM_PBLOCK c s) s) = (UMM_PBLOCK c s, w)" if "pz \<noteq> 0"
    using dn pc by (metis prod.collapse)
  have gd: "grow_down c pz s = w\<lparr>free_blocks := free_blocks s - ucast pz\<rparr>" "free_blocks w = free_blocks s" "umm_heap w = umm_heap s" if "pz \<noteq> 0"
  proof -
    show "grow_down c pz s = w\<lparr>free_blocks := free_blocks s - ucast pz\<rparr>" using w [OF that] by (simp add: grow_down_def)
    have "w = snd (umm_assimilate_down c 0 (umm_disconnect_from_free_list (UMM_PBLOCK c s) s))" using w [OF that] by simp
    then show "free_blocks w = free_blocks s" "umm_heap w = umm_heap s" by (simp_all add: disconnect_links)
  qed
  have i: "init_heap s = s" using nz by (simp add: init_heap_def)
  have zp: "pz = (if UMM_NBLOCK (UMM_PBLOCK c s) s AND UMM_FREELIST_MASK \<noteq> 0 then c - UMM_PBLOCK c s else 0)"
    unfolding pz_def fp ..
  have zn: "nz = (if UMM_NBLOCK e s AND UMM_FREELIST_MASK \<noteq> 0 then (UMM_NBLOCK e s AND UMM_BLOCKNO_MASK) - e else 0)"
    unfolding nz_def fe flagged_next ..
  have r: "umm_realloc (UMM_DATA c s) sz s = do {
      (q, b, z, t) \<leftarrow>
        (if pz \<noteq> 0 \<and> unat k \<le> unat pz + unat (e - c) + unat nz then
           (let (b, z, t) = take_prev_and_next c k (e - c) pz nz s
            in Some (UMM_DATA b t, b, z, memmove (UMM_DATA b t) (UMM_DATA c s) m t))
         else if k \<le> e - c then Some (UMM_DATA c s, c, e - c, s)
         else if unat k \<le> unat (e - c) + unat nz then Some (UMM_DATA c s, c, (e - c) + nz, grow_up c nz s)
         else do {
           (q, t) \<leftarrow> umm_malloc_core sz s;
           Some (q, c, k, if q \<noteq> 0 then umm_free_core (UMM_DATA c s) (memmove q (UMM_DATA c s) m t) else t\<lparr>oom_count := oom_count t + 1\<rparr>) });
      Some (q, if k < z then shrink b k t else t) }"
    using p sz unfolding umm_realloc_def Let_def i block_of_data n zp [symmetric] zn [symmetric] k_def [symmetric]
      cur_size_def [symmetric] m_def [symmetric] grow_up_def shrink_def
    by simp
  show ?thesis
  proof (cases "pz \<noteq> 0 \<and> unat k \<le> unat pz + unat (e - c) + unat nz")
    case True
    then have pz: "pz \<noteq> 0" by blast
    let ?p = "UMM_PBLOCK c s" and ?g = "grow_down c pz s"
    have "take_prev_and_next c k (e - c) pz nz s =
        (if k \<le> (e - c) + pz then (?p, (e - c) + pz, ?g)
         else (?p, k, if k < (e - c) + pz + nz then shrink ?p k (grow_up ?p nz ?g) else grow_up ?p nz ?g))"
      unfolding gd(1) [OF pz] using w [OF pz] gd(2,3) [OF pz]
      by (simp add: take_prev_and_next_def Let_def grow_up_def shrink_def)
    then show ?thesis unfolding r if_P [OF True] d_def by (simp add: Let_def)
  next
    case False
    show ?thesis unfolding r if_not_P [OF False]
      by (simp add: Let_def split: Option.bind_split)
  qed
qed


lemma moved_owns:
  assumes o: "owns s L bs fs" and m: "moved s bs fs c d (umm_blocks sz) t" and sz: "sz < max_request"
  obtains bs' fs' where "owns t (L(UMM_DATA c s := None, UMM_DATA d s \<mapsto> sz)) bs' fs'"
proof -
  let ?L = "L(UMM_DATA c s := None, UMM_DATA d s \<mapsto> sz)"
  obtain bs' fs' where t: "heap_inv t bs' fs'" "last bs' = last bs" "live t bs' fs' = (live s bs fs)(c := None, d \<mapsto> d + umm_blocks sz)"
    and k: "next_block 0 t = next_block 0 s" "umm_heap t = umm_heap s" "heap_start t = heap_start s"
    using m unfolding moved_def by blast
  have "live t bs' fs' b = map_option (\<lambda>n. b + umm_blocks n) (?L (UMM_DATA b s))" for b
    using o unfolding owns_def t(3) by (simp add: data_inject)
  moreover have "n < max_request \<and> (\<exists>b. p = UMM_DATA b s \<and> live t bs' fs' b \<noteq> None)" if p: "?L p = Some n" for p n
  proof (cases "p = UMM_DATA d s")
    case True
    then show ?thesis using p sz by (auto simp: t(3))
  next
    case False
    then have "p \<noteq> UMM_DATA c s" "L p = Some n" using p by (simp_all split: if_splits)
    then obtain b where "n < max_request" "p = UMM_DATA b s" "live s bs fs b \<noteq> None" using o unfolding owns_def by blast
    then show ?thesis using False \<open>p \<noteq> UMM_DATA c s\<close> by (auto simp: t(3))
  qed
  ultimately have "owns t ?L bs' fs'" using o t(1) unfolding owns_def k t(2) same_start [OF k(2,3)] by blast
  then show ?thesis by (rule that)
qed

text \<open>The free neighbours of a live block, in sizes: the one below reaches up to it, the one above starts where it ends.\<close>

lemma prev_room:
  assumes inv: "heap_inv s bs fs" and l: "live s bs fs c = Some e" and f: "UMM_PBLOCK c s \<in> set fs"
  shows "UMM_PBLOCK c s < c" and "c - UMM_PBLOCK c s \<noteq> 0" and "(e - c) + (c - UMM_PBLOCK c s) = e - UMM_PBLOCK c s"
    and "unat (e - UMM_PBLOCK c s) = unat (c - UMM_PBLOCK c s) + unat (e - c)"
proof -
  have "heap_lists s bs fs" using inv by (simp add: heap_inv_def)
  then have "c < e" by (rule live_bounds(2) [OF _ l])
  moreover show "UMM_PBLOCK c s < c" by (rule grow_down_inv(7) [OF inv l f])
  ultimately show "c - UMM_PBLOCK c s \<noteq> 0" "(e - c) + (c - UMM_PBLOCK c s) = e - UMM_PBLOCK c s"
      "unat (e - UMM_PBLOCK c s) = unat (c - UMM_PBLOCK c s) + unat (e - c)"
    by (auto simp: unat_sub less_imp_le word_less_nat_alt)
qed

lemma next_room:
  assumes inv: "heap_inv s bs fs" and l: "live s bs fs c = Some e" and f: "e \<in> set fs"
  shows "e < next_block e s" and "(e - c) + (next_block e s - e) = next_block e s - c"
    and "unat (next_block e s - c) = unat (e - c) + unat (next_block e s - e)"
proof -
  have "heap_lists s bs fs" using inv by (simp add: heap_inv_def)
  then have "c < e" by (rule live_bounds(2) [OF _ l])
  moreover show "e < next_block e s" by (rule grow_up_inv(7) [OF inv l f])
  ultimately show "(e - c) + (next_block e s - e) = next_block e s - c"
      "unat (next_block e s - c) = unat (e - c) + unat (next_block e s - e)"
    by (auto simp: unat_sub less_imp_le word_less_nat_alt)
qed

lemma both_room:
  assumes inv: "heap_inv s bs fs" and l: "live s bs fs c = Some e" and f: "UMM_PBLOCK c s \<in> set fs" "e \<in> set fs"
  shows "unat (next_block e s - UMM_PBLOCK c s) = unat (c - UMM_PBLOCK c s) + unat (e - c) + unat (next_block e s - e)"
proof -
  have "heap_lists s bs fs" using inv by (simp add: heap_inv_def)
  then have "c < e" by (rule live_bounds(2) [OF _ l])
  with prev_room(1) [OF inv l f(1)] next_room(1) [OF inv l f(2)] show ?thesis
    by (auto simp: unat_sub less_imp_le word_less_nat_alt)
qed

text \<open>Into the block below, with the one above if it must be.\<close>

lemma realloc_moves_down:
  assumes inv: "heap_inv s bs fs" and l: "live s bs fs c = Some e" and p: "UMM_DATA c s \<noteq> 0" and sz: "sz \<noteq> 0" "umm_blocks sz \<noteq> 0"
    and pf: "UMM_PBLOCK c s \<in> set fs"
    and k: "unat (umm_blocks sz) \<le> unat (c - UMM_PBLOCK c s) + unat (e - c) + unat (if e \<in> set fs then next_block e s - e else 0)"
  shows "\<exists>d t. umm_realloc (UMM_DATA c s) sz s = Some (UMM_DATA d s, t) \<and> moved s bs fs c d (umm_blocks sz) t"
proof -
  have h: "heap_lists s bs fs" using inv by (simp add: heap_inv_def)
  let ?k = "umm_blocks sz" and ?p = "UMM_PBLOCK c s" and ?n = "next_block e s"
  define nx where "nx = (if e \<in> set fs then ?n - e else 0)"
  note u = prev_room [OF inv l pf]
  have down: "c - ?p \<noteq> 0 \<and> unat ?k \<le> unat (c - ?p) + unat (e - c) + unat nx" using u(2) k by (simp only: nx_def simp_thms)
  note r = realloc_eq [OF h l p sz(1), folded nx_def, unfolded if_P [OF pf], unfolded if_P [OF down]]
  show ?thesis
  proof (cases "?k \<le> (e - c) + (c - ?p)")
    case True
    have "moved s bs fs c ?p ?k (let t = grow_down c (c - ?p) s; t = memmove (UMM_DATA ?p t) (UMM_DATA c s) (cur_size (e - c)) t
        in if ?k < e - ?p then shrink ?p ?k t else t)"
      using True unfolding u(3) by (rule moved_down [OF inv l pf sz(2)])
    then show ?thesis unfolding r if_P [OF True] Let_def unfolding u(3) by blast
  next
    case False
    then have big: "e - ?p < ?k" unfolding u(3) by (simp add: not_le)
    then have "unat (e - ?p) < unat ?k" by (simp add: word_less_nat_alt)
    then have "nx \<noteq> 0" using down u(4) by (intro notI) simp
    then have ef: "e \<in> set fs" by (auto simp: nx_def split: if_splits)
    then have nn: "nx = ?n - e" by (simp add: nx_def)
    have w: "(e - c) + (c - ?p) + nx = ?n - ?p" unfolding u(3) nn by simp
    have "?k \<le> ?n - ?p" using down both_room [OF inv l pf ef] nn by (simp add: word_le_nat_alt)
    from moved_both [OF inv l pf ef big this] show ?thesis
      unfolding r if_not_P [OF False] Let_def unfolding w unfolding nn by blast
  qed
qed

text \<open>To a block the allocator finds, when neither the block nor its neighbours do.\<close>

lemma realloc_moves_away:
  assumes inv: "heap_inv s bs fs" and l: "live s bs fs c = Some e" and k: "umm_blocks sz \<noteq> 0" "e - c < umm_blocks sz"
    and nz: "\<And>d. d \<in> set (butlast bs) \<Longrightarrow> UMM_DATA d s \<noteq> 0"
    and r: "umm_realloc (UMM_DATA c s) sz s = do {
       (q, t) \<leftarrow> umm_malloc_core sz s;
       Some (q, if q \<noteq> 0 then umm_free_core (UMM_DATA c s) (memmove q (UMM_DATA c s) (cur_size (e - c)) t)
         else t\<lparr>oom_count := oom_count t + 1\<rparr>) }"
  shows "(\<exists>d t. umm_realloc (UMM_DATA c s) sz s = Some (UMM_DATA d s, t) \<and> moved s bs fs c d (umm_blocks sz) t) \<or>
    umm_realloc (UMM_DATA c s) sz s = Some (0, s\<lparr>oom_count := oom_count s + 2\<rparr>)"
proof (cases "\<exists>f \<in> set fs. umm_blocks sz \<le> block_size s f")
  case True
  then obtain f where f: "f \<in> set fs" "umm_blocks sz \<le> block_size s f" by blast
  obtain d t where m: "umm_malloc_core sz s = Some (UMM_DATA d s, t)"
    "moved s bs fs c d (umm_blocks sz) (umm_free_core (UMM_DATA c s) (memmove (UMM_DATA d s) (UMM_DATA c s) (cur_size (e - c)) t))"
    using moved_new [OF inv l k(1) less_imp_le [OF k(2)] f] by blast
  have "UMM_DATA d s \<noteq> 0" using m(2) by (intro nz) (simp add: moved_def)
  then show ?thesis unfolding r using m by auto
next
  case False
  then have "umm_malloc_core sz s = Some (0, s\<lparr>oom_count := oom_count s + 1\<rparr>)"
    by (intro malloc_full [OF inv k(1)]) (auto simp: not_le)
  then show ?thesis unfolding r by (simp add: add.assoc)
qed

lemma realloc_moves:
  assumes inv: "heap_inv s bs fs" and l: "live s bs fs c = Some e" and p: "UMM_DATA c s \<noteq> 0" and sz: "sz \<noteq> 0" "umm_blocks sz \<noteq> 0"
    and nz: "\<And>d. d \<in> set (butlast bs) \<Longrightarrow> UMM_DATA d s \<noteq> 0"
  shows "(\<exists>d t. umm_realloc (UMM_DATA c s) sz s = Some (UMM_DATA d s, t) \<and> moved s bs fs c d (umm_blocks sz) t) \<or>
    umm_realloc (UMM_DATA c s) sz s = Some (0, s\<lparr>oom_count := oom_count s + 2\<rparr>) \<and> e - c < umm_blocks sz"
proof -
  have h: "heap_lists s bs fs" using inv by (simp add: heap_inv_def)
  let ?k = "umm_blocks sz" and ?p = "UMM_PBLOCK c s" and ?n = "next_block e s"
  define pz where "pz = (if ?p \<in> set fs then c - ?p else 0)"
  define nx where "nx = (if e \<in> set fs then ?n - e else 0)"
  note r = realloc_eq [OF h l p sz(1), folded pz_def nx_def]
  consider "pz \<noteq> 0 \<and> unat ?k \<le> unat pz + unat (e - c) + unat nx"
    | (no) "\<not> (pz \<noteq> 0 \<and> unat ?k \<le> unat pz + unat (e - c) + unat nx)" by blast
  then show ?thesis
  proof cases
    case 1
    then have pf: "?p \<in> set fs" by (auto simp: pz_def split: if_splits)
    with 1 show ?thesis using realloc_moves_down [OF inv l p sz pf] by (simp add: pz_def nx_def)
  next
    case no
    note r = r [unfolded if_not_P [OF no]]
    consider (fits) "?k \<le> e - c" | (up) "\<not> ?k \<le> e - c" "unat ?k \<le> unat (e - c) + unat nx"
      | (away) "\<not> ?k \<le> e - c" "\<not> unat ?k \<le> unat (e - c) + unat nx" by blast
    then show ?thesis
    proof cases
      case fits
      then show ?thesis unfolding r using moved_cut [OF inv l sz(2)] by auto
    next
      case up
      then have "nx \<noteq> 0" by (intro notI) (simp add: word_le_nat_alt)
      then have ef: "e \<in> set fs" by (auto simp: nx_def split: if_splits)
      then have nn: "nx = ?n - e" by (simp add: nx_def)
      note v = next_room [OF inv l ef]
      have lo: "e - c < ?k" using up(1) by (simp add: not_le)
      have "?k \<le> ?n - c" using up(2) v(3) by (simp add: nn word_le_nat_alt)
      from moved_up [OF inv l ef lo this] show ?thesis
        unfolding r if_not_P [OF up(1)] if_P [OF up(2)] Let_def unfolding nn v(2) by blast
    next
      case away
      then have "e - c < ?k" by (simp add: not_le)
      with realloc_moves_away [OF inv l sz(2) this nz r [unfolded if_not_P [OF away(1)] if_not_P [OF away(2)]]] show ?thesis by blast
    qed
  qed
qed


lemma realloc_step:
  assumes o: "owns s L bs fs" and l: "L p = Some n" and sz: "sz \<noteq> 0" "sz < max_request"
  obtains q t bs' fs' where "umm_realloc p sz s = Some (q, t)" "owns t (if q = 0 then L else L(p := None, q \<mapsto> sz)) bs' fs'"
    "q \<notin> dom (L(p := None))" "q = 0 \<longrightarrow> n < sz \<and> ram_bytes t = ram_bytes s"
    "\<forall>r m a. L r = Some m \<and> r \<noteq> p \<and> a - r < m \<longrightarrow> ram_bytes t a = ram_bytes s a"
    "q \<noteq> 0 \<longrightarrow> (\<forall>i. i < n \<and> i < sz \<longrightarrow> ram_bytes t (q + i) = ram_bytes s (p + i))"
proof -
  have inv: "heap_inv s bs fs" by (rule owns_inv [OF o])
  note h = owns_lists [OF o]
  have f: "heap_fits s" "umm_heap s = heap_start s" "last bs = last_block s" using o by (simp_all add: owns_def)
  obtain c where c: "p = UMM_DATA c s" "live s bs fs c = Some (c + umm_blocks n)" "p \<noteq> 0" by (rule owned [OF o l])
  have nm: "n < max_request" using o l by (simp add: owns_def)
  have z: "block_size s c = umm_blocks n" using c(2) by (simp add: live_def block_size_def split: if_splits)
  have zL: "0 \<notin> dom L" using owned [OF o] by blast
  have dn: "UMM_DATA d s \<noteq> 0" if "d \<in> set (butlast bs)" for d by (rule data_nonzero [OF h f that])
  from realloc_moves [OF inv c(2) c(3) [unfolded c(1)] sz(1) blocks_enough(2) [OF sz(2)] dn]
  consider d t where "umm_realloc p sz s = Some (UMM_DATA d s, t)" "moved s bs fs c d (umm_blocks sz) t"
    | "umm_realloc p sz s = Some (0, s\<lparr>oom_count := oom_count s + 2\<rparr>)" "umm_blocks n < umm_blocks sz"
    unfolding c(1) by auto
  then show ?thesis
  proof cases
    case 1
    obtain bs' fs' where o': "owns t (L(p := None, UMM_DATA d s \<mapsto> sz)) bs' fs'"
      using moved_owns [OF o 1(2) sz(2)] unfolding c(1) .
    have q: "UMM_DATA d s \<noteq> 0" using 1(2) by (intro dn) (simp add: moved_def)
    have "UMM_DATA d s \<notin> dom (L(p := None))"
    proof
      assume "UMM_DATA d s \<in> dom (L(p := None))"
      then have "d \<noteq> c" "L (UMM_DATA d s) \<noteq> None" unfolding c(1) by (auto split: if_splits)
      moreover from this(2) have "live s bs fs d \<noteq> None" using o by (simp add: owns_def)
      ultimately show False using 1(2) by (simp add: moved_def)
    qed
    moreover have "\<forall>r m a. L r = Some m \<and> r \<noteq> p \<and> a - r < m \<longrightarrow> ram_bytes t a = ram_bytes s a"
    proof (intro allI impI)
      fix r m a
      assume r: "L r = Some m \<and> r \<noteq> p \<and> a - r < m"
      then obtain b where "r = UMM_DATA b s" "live s bs fs b = Some (b + umm_blocks m)" "a \<in> payload s b (b + umm_blocks m)"
        using owned [OF o, of r m] by metis
      then show "ram_bytes t a = ram_bytes s a" using 1(2) r unfolding moved_def c(1) by metis
    qed
    moreover have "\<forall>i. i < n \<and> i < sz \<longrightarrow> ram_bytes t (UMM_DATA d s + i) = ram_bytes s (p + i)"
    proof (intro allI impI)
      fix i
      assume "i < n \<and> i < sz"
      then have "unat i + 4 < 8 * unat (block_size s c) \<and> unat i + 4 < 8 * unat (umm_blocks sz)"
        using blocks_enough(1) [OF nm] blocks_enough(1) [OF sz(2)] unfolding z by (simp add: word_less_nat_alt)
      then show "ram_bytes t (UMM_DATA d s + i) = ram_bytes s (p + i)" using 1(2) unfolding moved_def c(1) by blast
    qed
    ultimately show ?thesis using that [OF 1(1), of bs' fs'] q o' by simp
  next
    case 2
    let ?t = "s\<lparr>oom_count := oom_count s + 2\<rparr>"
    have lk: "link f x ?t = link f x s" for f x by simp
    have "heap_inv ?t bs fs" "live ?t bs fs = live s bs fs" by (rule inv_frame [OF inv]; simp add: lk)+
    then have "owns ?t L bs fs" by (intro owns_same [OF o]) simp_all
    moreover have "n < sz" using blocks_mono [of sz n] nm 2(2) by (metis not_le)
    ultimately show ?thesis using that [OF 2(1), of bs fs] zL by simp
  qed
qed

end
