(* ===== verification/Umm_Client.thy ===== *)
theory Umm_Client
  imports Umm_Resize
begin

text \<open>
  The program's view of the heap.  A run is a sequence of calls of umm_malloc, umm_calloc, umm_realloc and umm_free with
  what they allow, and of writes of the program to the blocks it has.  In every such run the heap stays sound, the blocks do not overlap, and
  their contents stay.
\<close>

section \<open>Runs of a program\<close>

text \<open>The program knows the pointers it has and the sizes it asked for.  It may write where its blocks are.  A realloc of
  NULL is a malloc, and one to the size 0 a free.\<close>

inductive running :: "umm \<Rightarrow> (u32 \<rightharpoonup> u32) \<Rightarrow> bool" where
  run_init: "heap_fits s \<Longrightarrow> running (umm_init s) Map.empty"
| run_malloc: "running s L \<Longrightarrow> sz < max_request \<Longrightarrow> umm_malloc sz s = Some (p, t) \<Longrightarrow> running t (if p = 0 then L else L(p \<mapsto> sz))"
| run_free: "running s L \<Longrightarrow> p = 0 \<or> p \<in> dom L \<Longrightarrow> running (umm_free p s) (L(p := None))"
| run_calloc: "running s L \<Longrightarrow> unat num * unat item < unat max_request \<Longrightarrow> umm_calloc num item s = Some (p, t) \<Longrightarrow>
    running t (if p = 0 then L else L(p \<mapsto> item * num))"
| run_realloc: "running s L \<Longrightarrow> L p = Some n \<Longrightarrow> sz \<noteq> 0 \<Longrightarrow> sz < max_request \<Longrightarrow> umm_realloc p sz s = Some (q, t) \<Longrightarrow>
    running t (if q = 0 then L else L(p := None, q \<mapsto> sz))"
| run_write: "running s L \<Longrightarrow> L p = Some n \<Longrightarrow> \<forall>a. \<not> a - p < n \<longrightarrow> m a = ram_bytes s a \<Longrightarrow> running (s\<lparr>ram_bytes := m\<rparr>) L"

lemma realloc_null: "umm_realloc 0 sz s = umm_malloc sz (init_heap s)"
  by (simp add: umm_realloc_def Let_def)

lemma realloc_zero: "p \<noteq> 0 \<Longrightarrow> umm_realloc p 0 s = Some (0, umm_free p (init_heap s))"
  by (simp add: umm_realloc_def Let_def)

lemma owned_disjoint:
  assumes o: "owns s L bs fs" and l: "L p = Some n" "L q = Some m" and ne: "p \<noteq> q" and a: "a - p < n"
  shows "\<not> a - q < m"
proof -
  obtain b where b: "p = UMM_DATA b s" "live s bs fs b = Some (b + umm_blocks n)" "a \<in> payload s b (b + umm_blocks n)"
    using owned [OF o l(1)] a by metis
  obtain c where c: "q = UMM_DATA c s" "live s bs fs c = Some (c + umm_blocks m)"
    "\<And>a. a - q < m \<Longrightarrow> a \<in> payload s c (c + umm_blocks m)"
    using owned [OF o l(2)] by metis
  have "b \<noteq> c" using b(1) c(1) ne by metis
  then have "a \<notin> payload s c (c + umm_blocks m)"
    using payload_disjoint [OF two_live [OF owns_lists [OF o] b(2) c(2)] b(3)] by blast
  then show ?thesis using c(3) by blast
qed

lemma calloc_step:
  assumes o: "owns s L bs fs" and sz: "unat num * unat item < unat max_request"
  obtains p t bs' fs' where "umm_calloc num item s = Some (p, t)" "owns t (if p = 0 then L else L(p \<mapsto> item * num)) bs' fs'"
    "p \<notin> dom L" "\<forall>q n a. L q = Some n \<and> a - q < n \<longrightarrow> ram_bytes t a = ram_bytes s a"
    "p \<noteq> 0 \<longrightarrow> unat (item * num) = unat num * unat item \<and> (\<forall>a. a - p < item * num \<longrightarrow> ram_bytes t a = 0)"
proof -
  have "unat item * unat num < 2 ^ 32" using sz by (simp add: max_request_def mult.commute)
  then have u: "unat (item * num) = unat num * unat item" by (simp add: unat_word_ariths mult.commute)
  then have small: "item * num < max_request" using sz by (simp add: word_less_nat_alt)
  obtain p t bs' fs' where m: "umm_malloc (item * num) s = Some (p, t)"
    "owns t (if p = 0 then L else L(p \<mapsto> item * num)) bs' fs'" "p \<notin> dom L"
    "\<forall>q n a. L q = Some n \<and> a - q < n \<longrightarrow> ram_bytes t a = ram_bytes s a"
    "p \<noteq> 0 \<longleftrightarrow> item * num \<noteq> 0 \<and> (\<exists>c \<in> set fs. umm_blocks (item * num) \<le> block_size s c)" "last_block t = last_block s"
    by (rule malloc_step [OF o small])
  let ?t = "memset p 0 (item * num) t"
  show ?thesis
  proof (cases "p = 0")
    case True
    then show ?thesis using that [of p t bs' fs'] m by (simp add: umm_calloc_def)
  next
    case False
    then have o': "owns t (L(p \<mapsto> item * num)) bs' fs'" using m(2) by simp
    have w: "owns ?t (L(p \<mapsto> item * num)) bs' fs'"
      unfolding memset_def by (rule write_owns [OF o', of p "item * num"]) auto
    have k: "ram_bytes ?t a = ram_bytes s a" if l: "L q = Some n" "a - q < n" for q n a
    proof -
      have "q \<noteq> p" using l(1) m(3) by auto
      then have l': "(L(p \<mapsto> item * num)) q = Some n" using l(1) by simp
      have "\<not> a - p < item * num" using owned_disjoint [OF o' l' _ \<open>q \<noteq> p\<close> l(2)] by simp
      then show ?thesis using m(4) l by (simp add: memset_def)
    qed
    then have k: "\<forall>q n a. L q = Some n \<and> a - q < n \<longrightarrow> ram_bytes ?t a = ram_bytes s a" by blast
    have c: "umm_calloc num item s = Some (p, ?t)" using m(1) False by (simp add: umm_calloc_def)
    have z: "\<forall>a. a - p < item * num \<longrightarrow> ram_bytes ?t a = 0" by (simp add: memset_def)
    show ?thesis by (rule that [OF c _ m(3) k]) (use w u z False in simp_all)
  qed
qed

lemma running_owns: "running s L \<Longrightarrow> \<exists>bs fs. owns s L bs fs"
proof (induction rule: running.induct)
  case (run_init s)
  then show ?case using init_owns by blast
next
  case (run_malloc s L sz p t)
  then obtain bs fs where o: "owns s L bs fs" by blast
  from malloc_step [OF o run_malloc.hyps(2)] obtain p' t' bs' fs' where "umm_malloc sz s = Some (p', t')"
    and w: "owns t' (if p' = 0 then L else L(p' \<mapsto> sz)) bs' fs'" .
  then have "p' = p" "t' = t" using run_malloc.hyps(3) by simp_all
  then show ?case using w by blast
next
  case (run_free s L p)
  then obtain bs fs where o: "owns s L bs fs" by blast
  obtain bs' fs' where "owns (umm_free p s) (L(p := None)) bs' fs'"
    "\<forall>q n a. L q = Some n \<and> q \<noteq> p \<and> a - q < n \<longrightarrow> ram_bytes (umm_free p s) a = ram_bytes s a"
    by (rule free_step [OF o run_free.hyps(2)])
  then show ?case by blast
next
  case (run_calloc s L num item p t)
  then obtain bs fs where o: "owns s L bs fs" by blast
  obtain p' t' bs' fs' where "umm_calloc num item s = Some (p', t')"
    and w: "owns t' (if p' = 0 then L else L(p' \<mapsto> item * num)) bs' fs'"
    by (rule calloc_step [OF o run_calloc.hyps(2)]) (rule that)
  then have "p' = p" "t' = t" using run_calloc.hyps(3) by simp_all
  then show ?case using w by blast
next
  case (run_realloc s L p n sz q t)
  then obtain bs fs where o: "owns s L bs fs" by blast
  obtain q' t' bs' fs' where "umm_realloc p sz s = Some (q', t')"
    and w: "owns t' (if q' = 0 then L else L(p := None, q' \<mapsto> sz)) bs' fs'"
    by (rule realloc_step [OF o run_realloc.hyps(2-4)]) (rule that)
  then have "q' = q" "t' = t" using run_realloc.hyps(5) by simp_all
  then show ?case using w by blast
next
  case (run_write s L p n m)
  then show ?case using write_owns by blast
qed


section \<open>The interface\<close>

text \<open>What a client of an allocator can rely on: \<open>ok s L\<close> says that in the state \<open>s\<close> the client has the blocks \<open>L\<close>.\<close>

locale allocator =
  fixes ok :: "umm \<Rightarrow> (u32 \<rightharpoonup> u32) \<Rightarrow> bool" and alloc :: "u32 \<Rightarrow> umm \<Rightarrow> (u32 \<times> umm) option"
    and resize :: "u32 \<Rightarrow> u32 \<Rightarrow> umm \<Rightarrow> (u32 \<times> umm) option" and release :: "u32 \<Rightarrow> umm \<Rightarrow> umm"
  assumes alloc: "ok s L \<Longrightarrow> sz < max_request \<Longrightarrow> \<exists>p t. alloc sz s = Some (p, t) \<and> ok t (if p = 0 then L else L(p \<mapsto> sz)) \<and>
      p \<notin> dom L \<and> (\<forall>q n a. L q = Some n \<and> a - q < n \<longrightarrow> ram_bytes t a = ram_bytes s a)"
    and resize: "ok s L \<Longrightarrow> L p = Some n \<Longrightarrow> sz \<noteq> 0 \<Longrightarrow> sz < max_request \<Longrightarrow>
      \<exists>q t. resize p sz s = Some (q, t) \<and> ok t (if q = 0 then L else L(p := None, q \<mapsto> sz)) \<and> q \<notin> dom (L(p := None)) \<and>
        (q = 0 \<longrightarrow> ram_bytes t = ram_bytes s) \<and> (\<forall>r k a. L r = Some k \<and> r \<noteq> p \<and> a - r < k \<longrightarrow> ram_bytes t a = ram_bytes s a)"
    and release: "ok s L \<Longrightarrow> p = 0 \<or> p \<in> dom L \<Longrightarrow> ok (release p s) (L(p := None)) \<and>
      (\<forall>q n a. L q = Some n \<and> q \<noteq> p \<and> a - q < n \<longrightarrow> ram_bytes (release p s) a = ram_bytes s a)"
    and overwrite: "ok s L \<Longrightarrow> L p = Some n \<Longrightarrow> \<forall>a. \<not> a - p < n \<longrightarrow> m a = ram_bytes s a \<Longrightarrow> ok (s\<lparr>ram_bytes := m\<rparr>) L"
    and separate: "ok s L \<Longrightarrow> L p = Some n \<Longrightarrow> L q = Some k \<Longrightarrow> p \<noteq> q \<Longrightarrow> a - p < n \<Longrightarrow> \<not> a - q < k"
    and placed: "ok s L \<Longrightarrow> L p = Some n \<Longrightarrow> p \<noteq> 0 \<and> unat p + unat n \<le> 0x3fffc000"
begin

text \<open>A write to one block leaves the others as they are.\<close>

lemma overwrite_other:
  assumes "ok s L" and "L p = Some n" and "\<forall>a. \<not> a - p < n \<longrightarrow> m a = ram_bytes s a" and "L q = Some k" and "q \<noteq> p" and "a - q < k"
  shows "m a = ram_bytes s a"
  using separate [OF assms(1,4,2,5,6)] assms(3) by blast

end

lemma running_placed:
  assumes o: "owns s L bs fs" and l: "L p = Some n"
  shows "p \<noteq> 0 \<and> unat (heap_start s) < unat p \<and> unat p + unat n \<le> 0x3fffc000"
proof -
  have f: "heap_fits s" using o by (simp add: owns_def)
  obtain b where "p \<noteq> 0" "unat p = unat (heap_start s) + 8 * unat b + 4"
    "unat n + 4 \<le> 8 * (unat (b + umm_blocks n) - unat b)" "unat (b + umm_blocks n) \<le> unat (last_block s)"
    by (rule owned [OF o l])
  then show ?thesis using fits_start(1) [OF f] last_block_bounds(2) [OF f] by linarith
qed

interpretation umm: allocator running umm_malloc umm_realloc umm_free
proof
  fix s L sz
  assume r: "running s L" and sz: "sz < max_request"
  obtain bs fs where o: "owns s L bs fs" using running_owns [OF r] by blast
  obtain p t bs' fs' where m: "umm_malloc sz s = Some (p, t)" "owns t (if p = 0 then L else L(p \<mapsto> sz)) bs' fs'" "p \<notin> dom L"
    "\<forall>q n a. L q = Some n \<and> a - q < n \<longrightarrow> ram_bytes t a = ram_bytes s a"
    "p \<noteq> 0 \<longleftrightarrow> sz \<noteq> 0 \<and> (\<exists>c \<in> set fs. umm_blocks sz \<le> block_size s c)" "last_block t = last_block s"
    by (rule malloc_step [OF o sz])
  then show "\<exists>p t. umm_malloc sz s = Some (p, t) \<and> running t (if p = 0 then L else L(p \<mapsto> sz)) \<and>
      p \<notin> dom L \<and> (\<forall>q n a. L q = Some n \<and> a - q < n \<longrightarrow> ram_bytes t a = ram_bytes s a)"
    using run_malloc [OF r sz m(1)] by (intro exI [of _ p] exI [of _ t] conjI) (rule m, simp, rule m, rule m)
next
  fix s L p n sz
  assume r: "running s L" and l: "L p = Some n" and sz: "sz \<noteq> 0" "sz < max_request"
  obtain bs fs where o: "owns s L bs fs" using running_owns [OF r] by blast
  show "\<exists>q t. umm_realloc p sz s = Some (q, t) \<and> running t (if q = 0 then L else L(p := None, q \<mapsto> sz)) \<and> q \<notin> dom (L(p := None)) \<and>
        (q = 0 \<longrightarrow> ram_bytes t = ram_bytes s) \<and> (\<forall>r m a. L r = Some m \<and> r \<noteq> p \<and> a - r < m \<longrightarrow> ram_bytes t a = ram_bytes s a)"
  proof (rule realloc_step [OF o l sz])
    fix q t bs' fs'
    assume m: "umm_realloc p sz s = Some (q, t)" "q \<notin> dom (L(p := None))" "q = 0 \<longrightarrow> n < sz \<and> ram_bytes t = ram_bytes s"
      "\<forall>r m a. L r = Some m \<and> r \<noteq> p \<and> a - r < m \<longrightarrow> ram_bytes t a = ram_bytes s a"
    then show ?thesis using run_realloc [OF r l sz m(1)] by (intro exI [of _ q] exI [of _ t] conjI) (rule m, simp, rule m, simp, rule m)
  qed
next
  fix s L p
  assume r: "running s L" and p: "p = 0 \<or> p \<in> dom L"
  obtain bs fs where o: "owns s L bs fs" using running_owns [OF r] by blast
  obtain bs' fs' where "owns (umm_free p s) (L(p := None)) bs' fs'"
    and k: "\<forall>q n a. L q = Some n \<and> q \<noteq> p \<and> a - q < n \<longrightarrow> ram_bytes (umm_free p s) a = ram_bytes s a"
    by (rule free_step [OF o p])
  show "running (umm_free p s) (L(p := None)) \<and>
      (\<forall>q n a. L q = Some n \<and> q \<noteq> p \<and> a - q < n \<longrightarrow> ram_bytes (umm_free p s) a = ram_bytes s a)"
    using run_free [OF r p] k by (rule conjI)
next
  fix s L p n m
  assume "running s L" "L p = Some n" "\<forall>a. \<not> a - p < n \<longrightarrow> m a = ram_bytes s a"
  then show "running (s\<lparr>ram_bytes := m\<rparr>) L" by (rule run_write)
next
  fix s L p n q m a
  assume r: "running s L" and l: "L p = Some n" "L q = Some m" "p \<noteq> q" "a - p < n"
  obtain bs fs where o: "owns s L bs fs" using running_owns [OF r] by blast
  show "\<not> a - q < m" by (rule owned_disjoint [OF o l])
next
  fix s L p n
  assume r: "running s L" and l: "L p = Some n"
  obtain bs fs where o: "owns s L bs fs" using running_owns [OF r] by blast
  show "p \<noteq> 0 \<and> unat p + unat n \<le> 0x3fffc000" using running_placed [OF o l] by simp
qed

section \<open>What the program can rely on\<close>

lemma block_nonzero:
  assumes "owns s L bs fs" and "c \<in> set bs"
  shows "UMM_BLOCK c s \<noteq> 0"
proof
  assume z: "UMM_BLOCK c s = 0"
  have f: "heap_fits s" "umm_heap s = heap_start s" "last bs = last_block s" using assms(1) by (simp_all add: owns_def)
  obtain zs where bs: "bs = zs @ [last bs]" using assms(2) by (cases bs rule: rev_cases) auto
  have "sorted_wrt (<) (zs @ [last bs])" "c \<in> set (zs @ [last bs])" using lists_sorted [OF owns_lists [OF assms(1)]] assms(2) bs by simp_all
  then have "c \<le> last_block s" using f(3) by (auto simp: sorted_wrt_append intro: less_imp_le)
  then have "8 * unat c + 8 \<le> unat (UMM_MALLOC_CFG_HEAP_SIZE s)" using last_block_bounds(2) [OF f(1)] by (simp add: word_le_nat_alt)
  moreover have "unat (8 * ucast c :: u32) = 8 * unat c" using unat_offset [of 0 c] by simp
  ultimately have "unat (heap_start s) + unat (8 * ucast c :: u32) < 2 ^ LENGTH(32)" using fits_start(1) [OF f(1)] by simp
  then have "unat (UMM_BLOCK c s) = unat (heap_start s) + unat (8 * ucast c :: u32)"
    unfolding UMM_BLOCK_def f(2) by (rule unat_add_lem [THEN iffD1])
  then show False using z fits_start(2) [OF f(1)] by (simp add: unat_eq_zero)
qed

lemma owns_info:
  assumes o: "owns s L bs fs"
  shows "umm_info 0 s = Some (0, s\<lparr>ummHeapInfo := heap_info s bs\<rparr>)"
proof -
  have "\<forall>c \<in> set bs. is_free c s \<longrightarrow> 0 \<noteq> UMM_BLOCK c s" using block_nonzero [OF o] by metis
  moreover have "umm_heap s \<noteq> 0" "blocks_from s 0 bs" "bs \<noteq> []" using owns_lists [OF o] by (simp_all add: heap_lists_def)
  ultimately show ?thesis using info_value by (cases bs) auto
qed

lemma free_filter:
  assumes "heap_lists s bs fs"
  shows "set (filter (\<lambda>c. is_free c s) (butlast bs)) = set fs" and "distinct (filter (\<lambda>c. is_free c s) (butlast bs))"
proof -
  have "is_free c s \<longleftrightarrow> c \<in> set fs" if "c \<in> set (butlast bs)" for c
    using assms in_set_butlastD [OF that] unfolding heap_lists_def by simp
  moreover have "set fs \<subseteq> set (butlast bs)" using assms by (simp add: heap_lists_def)
  ultimately show "set (filter (\<lambda>c. is_free c s) (butlast bs)) = set fs" by auto
  have "distinct bs" using lists_distinct [OF assms] by simp
  then show "distinct (filter (\<lambda>c. is_free c s) (butlast bs))" by (intro distinct_filter distinct_butlast)
qed

lemma extent_blocks:
  assumes "heap_lists s bs fs" and "c \<in> set (butlast bs)"
  shows "extent s c = of_nat (blocks_of s c)" and "unat (block_size s c) = blocks_of s c"
proof -
  have l: "c < next_block c s" by (rule inner_size(3) [OF assms])
  then show u: "unat (block_size s c) = blocks_of s c" by (simp add: block_size_def blocks_of_def unat_sub less_imp_le)
  have "extent s c = ucast (block_size s c)" using inner_size(5) [OF assms] by simp
  then show "extent s c = of_nat (blocks_of s c)" unfolding u [symmetric] by (simp only: unsigned_of_nat of_nat_unat ucast_id)
qed

lemma of_nat_sums: "of_nat (sum_list ns) = sum_list (map of_nat ns)"
  by (induction ns) simp_all

lemma owns_counter:
  assumes o: "owns s L bs fs"
  shows "freeBlocks (heap_info s bs) = free_blocks s"
proof -
  have h: "heap_lists s bs fs" by (rule owns_lists [OF o])
  let ?fs = "filter (\<lambda>c. is_free c s) (butlast bs)"
  have "of_nat (sum_list (free_sizes s (butlast bs))) = (\<Sum>c \<leftarrow> ?fs. of_nat (blocks_of s c) :: u32)"
    by (simp add: free_sizes_def of_nat_sums comp_def)
  also have "\<dots> = (\<Sum>c \<in> set ?fs. of_nat (blocks_of s c))" using free_filter(2) [OF h] by (simp add: sum_list_distinct_conv_sum_set)
  also have "\<dots> = sum (extent s) (set fs)"
    unfolding free_filter(1) [OF h] using h extent_blocks(1) [OF h] by (intro sum.cong) (auto simp: heap_lists_def)
  also have "\<dots> = free_blocks s" using owns_inv [OF o] by (simp add: heap_inv_def counted_extent)
  finally show ?thesis by (simp add: heap_info_def add_info_def zero_info_def)
qed

text \<open>C3. Whatever a program does with umm_malloc, umm_calloc, umm_realloc, umm_free and its own blocks, its requests below
  \<open>max_request\<close>, from where the 16-bit number of blocks wraps around, the integrity check passes and leaves the heap as it is, and the free size that is counted along the way is the one that the walk over all blocks finds.\<close>

theorem heap_stays_sound:
  assumes "running s L"
  shows "umm_integrity_check s = Some (True, s) \<and> (\<exists>t. umm_free_heap_size s = Some (fst (umm_free_heap_size_lw s), t))"
proof -
  obtain bs fs where o: "owns s L bs fs" using running_owns [OF assms] by blast
  have "umm_heap s \<noteq> 0" using owns_lists [OF o] by (simp add: heap_lists_def)
  then have "umm_free_heap_size s = Some (fst (umm_free_heap_size_lw s), s\<lparr>ummHeapInfo := heap_info s bs\<rparr>)"
    using owns_info [OF o] owns_counter [OF o] by (simp add: umm_free_heap_size_def umm_free_heap_size_lw_def init_heap_def Let_def)
  then show ?thesis using integrity_passes [OF owns_lists [OF o]] by blast
qed

text \<open>C5. Two blocks that a program has lie in the heap and do not overlap, however it got them.\<close>

theorem blocks_disjoint:
  assumes "running s L" and "L p = Some n" and "L q = Some m" and "p \<noteq> q"
  shows "unat (heap_start s) < unat p \<and> unat p + unat n \<le> 0x3fffc000 \<and> (unat p + unat n \<le> unat q \<or> unat q + unat m \<le> unat p)"
proof -
  obtain bs fs where o: "owns s L bs fs" using running_owns [OF assms(1)] by blast
  have f: "heap_fits s" using o by (simp add: owns_def)
  obtain b where b: "live s bs fs b = Some (b + umm_blocks n)" "unat p = unat (heap_start s) + 8 * unat b + 4"
    "unat n + 4 \<le> 8 * (unat (b + umm_blocks n) - unat b)" "unat (b + umm_blocks n) \<le> unat (last_block s)" "p = UMM_DATA b s"
    by (rule owned [OF o assms(2)])
  obtain c where c: "live s bs fs c = Some (c + umm_blocks m)" "unat q = unat (heap_start s) + 8 * unat c + 4"
    "unat m + 4 \<le> 8 * (unat (c + umm_blocks m) - unat c)" "q = UMM_DATA c s"
    by (rule owned [OF o assms(3)])
  note h = owns_lists [OF o]
  have "b \<noteq> c" using assms(4) b(5) c(4) by metis
  moreover have "b \<le> c \<or> c + umm_blocks m \<le> b" "c \<le> b \<or> b + umm_blocks n \<le> c"
    using live_order [OF h c(1)] live_order [OF h b(1)] live_bounds(5) [OF h b(1)] live_bounds(5) [OF h c(1)] by simp_all
  ultimately have "b + umm_blocks n \<le> c \<or> c + umm_blocks m \<le> b" by (metis order_antisym)
  then have "unat (b + umm_blocks n) \<le> unat c \<or> unat (c + umm_blocks m) \<le> unat b" by (simp add: word_le_nat_alt)
  then show ?thesis using b c fits_start(1) [OF f] last_block_bounds(2) [OF f] by linarith
qed

lemma fold_max: "fold (\<lambda>n m. max m (of_nat n :: 'a :: len word)) ns k < x \<longleftrightarrow> k < x \<and> (\<forall>n \<in> set ns. of_nat n < x)"
  by (induction ns arbitrary: k) auto

text \<open>C6. For requests below \<open>max_request\<close>: umm_malloc returns; it fails for the size 0 and otherwise exactly if the largest free block is too small; what it
  returns is none of the program's pointers, and the contents of the program's blocks stay.\<close>

theorem malloc_contract:
  assumes "running s L" and "sz < max_request"
  shows "\<exists>p t m u. umm_malloc sz s = Some (p, t) \<and> umm_max_block_size s = Some (m, u) \<and>
    (p = 0 \<longleftrightarrow> sz = 0 \<or> unat m < 8 * unat (umm_blocks sz)) \<and> p \<notin> dom L \<and>
    (\<forall>q n a. L q = Some n \<and> a - q < n \<longrightarrow> ram_bytes t a = ram_bytes s a)"
proof -
  obtain bs fs where o: "owns s L bs fs" using running_owns [OF assms(1)] by blast
  note h = owns_lists [OF o]
  obtain p t bs' fs' where r: "umm_malloc sz s = Some (p, t)" "owns t (if p = 0 then L else L(p \<mapsto> sz)) bs' fs'" "p \<notin> dom L"
    "\<forall>q n a. L q = Some n \<and> a - q < n \<longrightarrow> ram_bytes t a = ram_bytes s a"
    "p \<noteq> 0 \<longleftrightarrow> sz \<noteq> 0 \<and> (\<exists>c \<in> set fs. umm_blocks sz \<le> block_size s c)" "last_block t = last_block s"
    by (rule malloc_step [OF o assms(2)])
  let ?m = "maxFreeContiguousBlocks (heap_info s bs)"
  let ?k = "ucast (umm_blocks sz) :: u32"
  have sub: "set fs \<subseteq> set (butlast bs)" using h by (simp add: heap_lists_def)
  have w16: "unat w < 65536" for w :: u16 using unsigned_less [of w] by simp
  have uk: "unat ?k = unat (umm_blocks sz)" using w16 [of "umm_blocks sz"] by (simp add: unsigned_ucast_eq take_bit_nat_eq_self)
  have b16: "blocks_of s c < 65536" for c using w16 [of "next_block c s"] by (simp add: blocks_of_def)
  have mx: "?m < x \<longleftrightarrow> 0 < x \<and> (\<forall>c \<in> set fs. of_nat (blocks_of s c) < x)" for x
    using free_filter(1) [OF h] by (simp add: heap_info_def add_info_def zero_info_def fold_max free_sizes_def)
  have "of_nat (blocks_of s c) < ?k \<longleftrightarrow> block_size s c < umm_blocks sz" if "c \<in> set fs" for c
    using extent_blocks(2) [OF h, of c] sub that b16 [of c] by (auto simp: word_less_nat_alt uk unat_of_nat)
  moreover have "0 < ?k" using blocks_enough(2) [OF assms(2)] by (simp add: word_less_nat_alt uk unat_gt_0)
  ultimately have "?m < ?k \<longleftrightarrow> \<not> (\<exists>c \<in> set fs. umm_blocks sz \<le> block_size s c)" unfolding mx by (auto simp: not_le)
  moreover have "(of_nat (blocks_of s c) :: u32) < 65536" for c using b16 [of c] by (simp add: word_less_nat_alt unat_of_nat)
  then have "?m < 65536" unfolding mx by simp
  then have "unat (?m * umm_block_size) = 8 * unat ?m" by (simp add: umm_block_size_def unat_word_ariths word_less_nat_alt)
  ultimately have "p = 0 \<longleftrightarrow> sz = 0 \<or> unat (?m * umm_block_size) < 8 * unat (umm_blocks sz)"
    using r(5) uk by (auto simp: word_less_nat_alt)
  moreover have "umm_max_block_size s = Some (?m * umm_block_size, s\<lparr>ummHeapInfo := heap_info s bs\<rparr>)"
    using owns_info [OF o] by (simp add: umm_max_block_size_def)
  ultimately show ?thesis using r(1,3,4) by blast
qed


text \<open>C17. umm_free of a pointer that the program has gives back as many blocks as umm_malloc took for it, and the contents of
  the other blocks stay; umm_free of NULL does nothing.\<close>

theorem free_contract:
  assumes "running s L" and "p = 0 \<or> p \<in> dom L"
  shows "fst (umm_free_heap_size_lw (umm_free p s)) =
      fst (umm_free_heap_size_lw s) + (if p = 0 then 0 else 8 * ucast (umm_blocks (the (L p)))) \<and>
    (p = 0 \<longrightarrow> umm_free p s = s) \<and>
    (\<forall>q n a. L q = Some n \<and> q \<noteq> p \<and> a - q < n \<longrightarrow> ram_bytes (umm_free p s) a = ram_bytes s a)"
proof -
  obtain bs fs where o: "owns s L bs fs" using running_owns [OF assms(1)] by blast
  note h = owns_lists [OF o]
  obtain bs' fs' where o': "owns (umm_free p s) (L(p := None)) bs' fs'"
    and keep: "\<forall>q n a. L q = Some n \<and> q \<noteq> p \<and> a - q < n \<longrightarrow> ram_bytes (umm_free p s) a = ram_bytes s a"
    by (rule free_step [OF o assms(2)])
  have nz: "umm_heap s \<noteq> 0" "umm_heap (umm_free p s) \<noteq> 0" using h owns_lists [OF o'] by (simp_all add: heap_lists_def)
  then have lw: "fst (umm_free_heap_size_lw t) = free_blocks t * 8" if "t \<in> {s, umm_free p s}" for t
    using that by (auto simp: umm_free_heap_size_lw_def init_heap_def Let_def umm_block_size_def)
  have null: "umm_free p s = s" if "p = 0" using that nz by (simp add: umm_free_def init_heap_def Let_def)
  moreover have "free_blocks (umm_free p s) = free_blocks s + ucast (umm_blocks (the (L p)))" if p0: "p \<noteq> 0"
  proof -
    obtain n where n: "L p = Some n" using assms(2) p0 by auto
    obtain c where c: "p = UMM_DATA c s" "live s bs fs c = Some (c + umm_blocks n)" by (rule owned [OF o n])
    have cb: "c \<in> set (butlast bs)" "c \<notin> set fs" "next_block c s = c + umm_blocks n" using c(2) by (simp_all add: live_def split: if_splits)
    have "\<not> is_free c s" using used_block [OF h cb(1,2)] by metis
    then have "free_blocks (umm_free p s) = free_blocks s + extent s c"
      using p0 nz(1) push_links(8) inner_block [OF h cb(1)]
      by (simp add: umm_free_def init_heap_def free_core_eq c(1) Let_def push_free_def)
    moreover have "extent s c = ucast (umm_blocks n)" using inner_size(5) [OF h cb(1)] cb(3) by (simp add: block_size_def)
    ultimately show ?thesis using n by simp
  qed
  ultimately show ?thesis using keep lw by (auto simp: algebra_simps)
qed

text \<open>C15. umm_realloc of a pointer that the program has returns; it fails only for a larger size, and then changes no byte.
  Otherwise the block, moved or not, has the contents it had, as far as it reaches, and overlaps no other; the contents of
  the other blocks stay.\<close>

theorem realloc_contract:
  assumes "running s L" and "L p = Some n" and "sz \<noteq> 0" and "sz < max_request"
  shows "\<exists>q t. umm_realloc p sz s = Some (q, t) \<and> q \<notin> dom (L(p := None)) \<and>
    (if q = 0 then n < sz \<and> ram_bytes t = ram_bytes s
     else \<forall>i. i < n \<and> i < sz \<longrightarrow> ram_bytes t (q + i) = ram_bytes s (p + i)) \<and>
    (\<forall>r m a. L r = Some m \<and> r \<noteq> p \<and> a - r < m \<longrightarrow> ram_bytes t a = ram_bytes s a)"
proof -
  obtain bs fs where o: "owns s L bs fs" using running_owns [OF assms(1)] by blast
  show ?thesis
  proof (rule realloc_step [OF o assms(2-4)])
    fix q t bs' fs'
    assume "umm_realloc p sz s = Some (q, t)" "q \<notin> dom (L(p := None))" "q = 0 \<longrightarrow> n < sz \<and> ram_bytes t = ram_bytes s"
      "\<forall>r m a. L r = Some m \<and> r \<noteq> p \<and> a - r < m \<longrightarrow> ram_bytes t a = ram_bytes s a"
      "q \<noteq> 0 \<longrightarrow> (\<forall>i. i < n \<and> i < sz \<longrightarrow> ram_bytes t (q + i) = ram_bytes s (p + i))"
    then show ?thesis by (intro exI [of _ q] exI [of _ t]) simp
  qed
qed

text \<open>Without overflow of the product, umm_calloc returns, and what it returns is a new block of zeros; the contents of the
  other blocks stay.\<close>

theorem calloc_contract:
  assumes "running s L" and "unat num * unat item < unat max_request"
  shows "\<exists>p t. umm_calloc num item s = Some (p, t) \<and> p \<notin> dom L \<and>
    (p \<noteq> 0 \<longrightarrow> (\<forall>a. a - p < item * num \<longrightarrow> ram_bytes t a = 0)) \<and>
    (\<forall>q n a. L q = Some n \<and> a - q < n \<longrightarrow> ram_bytes t a = ram_bytes s a)"
proof -
  obtain bs fs where o: "owns s L bs fs" using running_owns [OF assms(1)] by blast
  show ?thesis by (rule calloc_step [OF o assms(2)]) blast
qed

text \<open>C18. When a program has freed all it had, the free blocks are one again: all but the first and the last of the heap, and a
  request below \<open>max_request\<close> succeeds exactly if it fits there.\<close>

theorem all_freed:
  assumes "running s Map.empty" and "0 < sz" and "sz < max_request"
  shows "fst (umm_free_heap_size_lw s) = 8 * (ucast (last_block s) - 1) \<and>
    (\<exists>p t. umm_malloc sz s = Some (p, t) \<and> (p \<noteq> 0 \<longleftrightarrow> umm_blocks sz < last_block s))"
proof -
  obtain bs fs where o: "owns s Map.empty bs fs" using running_owns [OF assms(1)] by blast
  note h = owns_lists [OF o]
  have inv: "coalesced s fs" "counted s fs" using owns_inv [OF o] by (simp_all add: heap_inv_def)
  have f: "heap_fits s" "last bs = last_block s" "next_block 0 s = 1" and l: "live s bs fs b = None" for b
    using o by (simp_all add: owns_def)
  have all: "b \<in> set fs" if "b \<in> set (butlast bs)" for b using l [of b] that by (simp add: live_def split: if_splits)
  have b: "blocks_from s 0 bs" "bs \<noteq> []" using h by (simp_all add: heap_lists_def)
  then obtain cs where bs: "bs = 1 # cs" using f(3) by (cases bs) auto
  have "cs \<noteq> []" using f(2) last_block_bounds(1) [OF f(1)] bs by auto
  then obtain e ds where cs: "cs = e # ds" by (cases cs) auto
  have "ds = []"
  proof (rule ccontr)
    assume "ds \<noteq> []"
    then have "1 \<in> set fs" "e \<in> set fs" using all bs cs by auto
    moreover have "next_block 1 s = e" using b(1) bs cs by simp
    ultimately show False using inv(1) by (auto simp: coalesced_def)
  qed
  then have e: "bs = [1, last_block s]" using bs cs f(2) by simp
  then have n1: "next_block 1 s = last_block s" using b(1) by simp
  have fs: "set fs = {1}" using all e h by (auto simp: heap_lists_def)
  have "free_blocks s = ucast (last_block s) - 1" using inv(2) fs n1 by (simp add: counted_def)
  moreover have "umm_heap s \<noteq> 0" using h by (simp add: heap_lists_def)
  ultimately have "fst (umm_free_heap_size_lw s) = 8 * (ucast (last_block s) - 1)"
    by (simp add: umm_free_heap_size_lw_def init_heap_def Let_def umm_block_size_def)
  moreover obtain p t where r: "umm_malloc sz s = Some (p, t)" "p \<noteq> 0 \<longleftrightarrow> sz \<noteq> 0 \<and> (\<exists>c \<in> set fs. umm_blocks sz \<le> block_size s c)"
    by (rule malloc_step [OF o assms(3)]) blast
  moreover have "umm_blocks sz \<le> block_size s 1 \<longleftrightarrow> umm_blocks sz < last_block s"
  proof -
    have "unat (last_block s - 1) = unat (last_block s) - 1" "1 < unat (last_block s)"
      using last_block_bounds(1) [OF f(1)] by (simp_all add: unat_sub less_imp_le word_less_nat_alt)
    then show ?thesis by (auto simp: block_size_def n1 word_le_nat_alt word_less_nat_alt)
  qed
  ultimately show ?thesis using assms(2) fs by (auto simp: word_neq_0_conv)
qed


section \<open>A run\<close>

lemma blank_fits: "heap_fits blank_umm" and blank_last: "last_block blank_umm = 0x27FF"
  by (simp_all add: heap_fits_def last_block_def UMM_MALLOC_CFG_HEAP_SIZE_def)

lemma blank_run: "running (umm_init blank_umm) Map.empty" and blank_init_last: "last_block (umm_init blank_umm) = 0x27FF"
  using running.run_init [OF blank_fits] blank_fits blank_last
  by (simp_all add: init_eq last_block_def UMM_MALLOC_CFG_HEAP_SIZE_def)

lemma heap_stays_sound_witness: "umm_integrity_check (umm_init blank_umm) = Some (True, umm_init blank_umm)"
  using heap_stays_sound [OF blank_run] by blast

lemma all_freed_witness: "\<exists>p t. umm_malloc 100 (umm_init blank_umm) = Some (p, t) \<and> p \<noteq> 0"
  using all_freed [OF blank_run, of 100] blank_init_last by (auto simp: max_request_def umm_blocks_def)

lemma malloc_contract_witness:
  "\<exists>p t m u. umm_malloc 100 (umm_init blank_umm) = Some (p, t) \<and> umm_max_block_size (umm_init blank_umm) = Some (m, u) \<and>
    (p = 0 \<longleftrightarrow> unat m < 104)"
  using malloc_contract [OF blank_run, of 100] by (auto simp: max_request_def umm_blocks_def)

lemma first_block: "\<exists>p t. running t [p \<mapsto> 4] \<and> last_block t = 0x27FF"
proof -
  have o: "owns (umm_init blank_umm) Map.empty [1, 0x27FF] [1]" using init_owns [OF blank_fits] unfolding blank_last .
  have s: "4 < max_request" by (simp add: max_request_def)
  obtain p t where m: "umm_malloc 4 (umm_init blank_umm) = Some (p, t)" "last_block t = last_block (umm_init blank_umm)"
    "p \<noteq> 0 \<longleftrightarrow> (4 :: u32) \<noteq> 0 \<and> (\<exists>c \<in> set [1]. umm_blocks 4 \<le> block_size (umm_init blank_umm) c)"
    by (rule malloc_step [OF o s]) blast
  have "next_block 1 (umm_init blank_umm) = 0x27FF" using owns_lists [OF o] by (simp add: heap_lists_def)
  then have "p \<noteq> 0" using m(3) by (simp add: umm_blocks_def block_size_def)
  then show ?thesis using running.run_malloc [OF blank_run s m(1)] m(2) blank_init_last by auto
qed

text \<open>A block of the size 1 leaves room for another.\<close>

lemma second_block: "\<exists>p q t. running t [p \<mapsto> 4, q \<mapsto> 4] \<and> p \<noteq> q \<and> p \<noteq> 0"
proof -
  obtain p t where r: "running t [p \<mapsto> 4]" and l: "last_block t = 0x27FF" using first_block by blast
  obtain bs fs where o: "owns t [p \<mapsto> 4] bs fs" using running_owns [OF r] by blast
  note h = owns_lists [OF o]
  obtain b where b: "p = UMM_DATA b t" "live t bs fs b = Some (b + umm_blocks 4)" "p \<noteq> 0" by (rule owned [OF o, of p 4]) simp_all
  have lv: "live t bs fs c = None" if "c \<noteq> b" for c using o b(1) that by (simp add: owns_def data_inject)
  have nb: "b \<in> set (butlast bs)" "next_block b t = b + 1" using b(2) by (simp_all add: live_def umm_blocks_def split: if_splits)
  have z: "last bs = 0x27FF" "next_block 0 t = 1" using o l by (simp_all add: owns_def)
  then have "1 \<in> set bs" using h by (cases bs) (auto simp: heap_lists_def)
  moreover have "b + 1 \<in> set bs" using inner_size(4) [OF h nb(1)] nb(2) by simp
  moreover have "bs = butlast bs @ [0x27FF]" using nb(1) z(1) by (cases bs rule: rev_cases) auto
  then have bl: "set bs = insert 0x27FF (set (butlast bs))" by (metis Un_insert_right list.set(1,2) set_append sup_bot_right)
  ultimately have "1 \<in> set (butlast bs)" "b + 1 = 0x27FF \<or> b + 1 \<in> set (butlast bs)" unfolding bl by simp_all
  moreover have "b + 1 \<noteq> b" "b + 1 = 0x27FF \<longrightarrow> b \<noteq> 1" by auto
  ultimately have "\<exists>c. c \<in> set (butlast bs) \<and> c \<noteq> b" by metis
  then obtain c where c: "c \<in> set (butlast bs)" "c \<noteq> b" by blast
  then have cf: "c \<in> set fs" using lv [OF c(2)] by (simp add: live_def split: if_splits)
  have "c < next_block c t" by (rule inner_size(3) [OF h c(1)])
  then have "umm_blocks 4 \<le> block_size t c" by (simp add: umm_blocks_def block_size_def word_le_nat_alt unat_sub less_imp_le word_less_nat_alt)
  moreover have s: "4 < max_request" by (simp add: max_request_def)
  obtain q u where m: "umm_malloc 4 t = Some (q, u)" "q \<notin> dom [p \<mapsto> (4 :: u32)]"
    "q \<noteq> 0 \<longleftrightarrow> (4 :: u32) \<noteq> 0 \<and> (\<exists>c \<in> set fs. umm_blocks 4 \<le> block_size t c)"
    by (rule malloc_step [OF o s]) blast
  ultimately have "q \<noteq> 0" "p \<noteq> q" using cf by auto
  then show ?thesis using running.run_malloc [OF r s m(1)] b(3) by auto
qed

lemma blocks_disjoint_witness:
  "\<exists>p q t. running t [p \<mapsto> 4, q \<mapsto> 4] \<and> p \<noteq> q \<and> (unat p + 4 \<le> unat q \<or> unat q + 4 \<le> unat p)"
proof -
  obtain p q t where r: "running t [p \<mapsto> 4, q \<mapsto> 4]" "p \<noteq> q" using second_block by blast
  then show ?thesis using blocks_disjoint [OF r(1), of p 4 q 4] by auto
qed

lemma free_contract_witness:
  "\<exists>p t. running t [p \<mapsto> 4] \<and> p \<noteq> 0 \<and> fst (umm_free_heap_size_lw (umm_free p t)) = fst (umm_free_heap_size_lw t) + 8"
proof -
  obtain p t where r: "running t [p \<mapsto> 4]" using first_block by blast
  obtain bs fs where o: "owns t [p \<mapsto> 4] bs fs" using running_owns [OF r] by blast
  have "p \<noteq> 0" by (rule owned [OF o, of p 4]) simp_all
  then show ?thesis using free_contract [OF r, of p] r by (auto simp: umm_blocks_def)
qed


lemma realloc_contract_witness:
  "\<exists>p t q u. running t [p \<mapsto> 4] \<and> umm_realloc p 100 t = Some (q, u) \<and>
    (q = 0 \<or> (\<forall>i. i < 4 \<longrightarrow> ram_bytes u (q + i) = ram_bytes t (p + i)))"
proof -
  obtain p t where r: "running t [p \<mapsto> 4]" using first_block by blast
  have "(4 :: u32) < 100" by simp
  then have "i < (4 :: u32) \<Longrightarrow> i < 100" for i by (rule order_less_trans [rotated])
  moreover obtain q u where "umm_realloc p 100 t = Some (q, u)"
    "q = 0 \<or> (\<forall>i. i < 4 \<and> i < 100 \<longrightarrow> ram_bytes u (q + i) = ram_bytes t (p + i))"
    using realloc_contract [OF r, of p 4 100] by (auto simp: max_request_def split: if_splits)
  ultimately show ?thesis using r by blast
qed

lemma calloc_contract_witness:
  "\<exists>p t. umm_calloc 25 4 (umm_init blank_umm) = Some (p, t) \<and> (p \<noteq> 0 \<longrightarrow> (\<forall>a. a - p < 100 \<longrightarrow> ram_bytes t a = 0))"
  using calloc_contract [OF blank_run, of 25 4] by (auto simp: max_request_def)

end
