(* ===== verification/Umm_Guard.thy ===== *)
theory Umm_Guard
  imports Umm_Client Umm_Poison
begin

text \<open>
  The allocator with guards as a client of the allocator: in every run of a program that stays inside what it got, the
  guards of all blocks stay in place and the check of all blocks passes.
\<close>

section \<open>A property of the contents of each block\<close>

text \<open>\<open>G p n\<close> speaks of the \<open>n\<close> bytes from \<open>p\<close> on, and holds of every block but perhaps one that is being written.\<close>

locale block_contents = allocator +
  fixes G :: "u32 \<Rightarrow> u32 \<Rightarrow> umm \<Rightarrow> bool"
  assumes contents: "\<forall>a. a - p < n \<longrightarrow> ram_bytes t a = ram_bytes s a \<Longrightarrow> G p n t = G p n s"
begin

lemma alloc_contents:
  assumes "ok s L" and "\<forall>q k. L q = Some k \<longrightarrow> G q k s" and "sz < max_request"
  shows "\<exists>p t. alloc sz s = Some (p, t) \<and> ok t (if p = 0 then L else L(p \<mapsto> sz)) \<and> p \<notin> dom L \<and> (\<forall>q k. L q = Some k \<longrightarrow> G q k t)"
proof -
  obtain p t where t: "alloc sz s = Some (p, t)" "ok t (if p = 0 then L else L(p \<mapsto> sz))" "p \<notin> dom L"
    and k: "\<forall>q n a. L q = Some n \<and> a - q < n \<longrightarrow> ram_bytes t a = ram_bytes s a"
    using alloc [OF assms(1,3)] by blast
  have "G q k t" if "L q = Some k" for q k using contents [of q k t s] k assms(2) that by blast
  then show ?thesis using t by blast
qed

lemma release_contents:
  assumes "ok s L" and "\<forall>q k. L q = Some k \<longrightarrow> G q k s" and "p = 0 \<or> p \<in> dom L"
  shows "ok (release p s) (L(p := None)) \<and> (\<forall>q k. (L(p := None)) q = Some k \<longrightarrow> G q k (release p s))"
proof -
  note r = release [OF assms(1,3)]
  have "G q k (release p s)" if "(L(p := None)) q = Some k" for q k
  proof -
    have q: "q \<noteq> p" "L q = Some k" using that by (simp_all split: if_splits)
    then show ?thesis using contents [of q k "release p s" s] r assms(2) by blast
  qed
  then show ?thesis using r by blast
qed

lemma resize_contents:
  assumes "ok s L" and "\<forall>q k. L q = Some k \<longrightarrow> G q k s" and "L p = Some n" and "sz \<noteq> 0" and "sz < max_request"
  shows "\<exists>q t. resize p sz s = Some (q, t) \<and> ok t (if q = 0 then L else L(p := None, q \<mapsto> sz)) \<and> q \<notin> dom (L(p := None)) \<and>
    (\<forall>r k. L r = Some k \<and> (q = 0 \<or> r \<noteq> p) \<longrightarrow> G r k t)"
proof -
  obtain q t where t: "resize p sz s = Some (q, t)" "ok t (if q = 0 then L else L(p := None, q \<mapsto> sz))" "q \<notin> dom (L(p := None))"
    and z: "q = 0 \<longrightarrow> ram_bytes t = ram_bytes s"
    and k: "\<forall>r k a. L r = Some k \<and> r \<noteq> p \<and> a - r < k \<longrightarrow> ram_bytes t a = ram_bytes s a"
    using resize [OF assms(1,3-5)] by blast
  have "G r k t" if r: "L r = Some k" "q = 0 \<or> r \<noteq> p" for r k
  proof -
    have "ram_bytes t a = ram_bytes s a" if "a - r < k" for a using r k z that by (cases "r = p") auto
    then show ?thesis using contents [of r k t s] assms(2) r(1) by blast
  qed
  then show ?thesis using t by blast
qed

lemma write_contents:
  assumes "ok s L" and "L p = Some n" and "\<forall>q k. L q = Some k \<and> q \<noteq> p \<longrightarrow> G q k s"
    and "\<forall>a. \<not> a - p < n \<longrightarrow> m a = ram_bytes s a" and "G p n (s\<lparr>ram_bytes := m\<rparr>)"
  shows "ok (s\<lparr>ram_bytes := m\<rparr>) L \<and> (\<forall>q k. L q = Some k \<longrightarrow> G q k (s\<lparr>ram_bytes := m\<rparr>))"
proof -
  have "G q k (s\<lparr>ram_bytes := m\<rparr>)" if q: "L q = Some k" "q \<noteq> p" for q k
  proof -
    have "m a = ram_bytes s a" if "a - q < k" for a by (rule overwrite_other [OF assms(1,2,4) q that])
    then show ?thesis using contents [of q k "s\<lparr>ram_bytes := m\<rparr>" s] assms(3) q by simp
  qed
  moreover have "G q k (s\<lparr>ram_bytes := m\<rparr>)" if "L q = Some k" "q = p" for q k using assms(2,5) that by simp
  ultimately have "\<forall>q k. L q = Some k \<longrightarrow> G q k (s\<lparr>ram_bytes := m\<rparr>)" by blast
  then show ?thesis using overwrite [OF assms(1,2,4)] by blast
qed

end

section \<open>Guards\<close>

definition guard_ok :: "u32 \<Rightarrow> u32 \<Rightarrow> umm \<Rightarrow> bool" where
  "guard_ok p n s \<longleftrightarrow> 12 < n \<and> read32 p s = n \<and>
     (\<forall>i < 4. ram_bytes s (p + 4 + of_nat i) = 0xa5 \<and> ram_bytes s (p + n - 4 + of_nat i) = 0xa5)"

lemma guard_local:
  assumes "\<forall>a. a - p < n \<longrightarrow> ram_bytes t a = ram_bytes s a"
  shows "guard_ok p n t = guard_ok p n s"
proof (cases "12 < n")
  case True
  then have n: "12 < unat n" by (simp add: word_less_nat_alt)
  have b: "ram_bytes t (p + d) = ram_bytes s (p + d)" if "d < n" for d using assms that by simp
  have "ram_bytes t p = ram_bytes s p" "ram_bytes t (p + 1) = ram_bytes s (p + 1)" "ram_bytes t (p + 2) = ram_bytes s (p + 2)"
    "ram_bytes t (p + 3) = ram_bytes s (p + 3)"
    using b [of 0] b [of 1] b [of 2] b [of 3] n by (simp_all add: word_less_nat_alt)
  then have "read32 p t = read32 p s" by (simp add: read32_def)
  moreover have "ram_bytes t (p + 4 + of_nat i) = ram_bytes s (p + 4 + of_nat i) \<and>
      ram_bytes t (p + n - 4 + of_nat i) = ram_bytes s (p + n - 4 + of_nat i)" if "i < 4" for i
  proof -
    have i: "unat (of_nat i :: u32) = i" using that by (simp add: unat_of_nat)
    have "4 + of_nat i < n" "n - 4 + of_nat i < n"
      using that n i unsigned_less [of n] by (simp_all add: word_less_nat_alt unat_word_ariths(1) unat_sub_if_size word_size)
    then show ?thesis using b [of "4 + of_nat i"] b [of "n - 4 + of_nat i"] by (simp add: algebra_simps)
  qed
  ultimately show ?thesis by (simp add: guard_ok_def)
qed (simp add: guard_ok_def)

interpretation guards: block_contents running umm_malloc umm_realloc umm_free guard_ok
  by unfold_locales (rule guard_local)

lemma get_poisoned_guards:
  assumes "p \<noteq> 0" and "12 < n" and "n < max_request"
  obtains m where "get_poisoned p n s = (p + 8, s\<lparr>ram_bytes := m\<rparr>)" "\<forall>a. \<not> a - p < n \<longrightarrow> m a = ram_bytes s a"
    "guard_ok p n (s\<lparr>ram_bytes := m\<rparr>)" "\<forall>d. 8 \<le> d \<and> d < n - 4 \<longrightarrow> m (p + d) = ram_bytes s (p + d)"
proof -
  have n: "12 \<le> n" "n < 0x80000000" using assms(2,3) by (simp_all add: max_request_def word_less_nat_alt word_le_nat_alt)
  note g = get_poisoned_bytes [OF assms(1) n, where s = s]
  obtain m where m: "snd (get_poisoned p n s) = s\<lparr>ram_bytes := m\<rparr>" using g(2) by blast
  have "m a = ram_bytes s a" if "\<not> a - p < n" for a
    using g(4) [of "a - p"] that unfolding m by (simp add: not_less)
  moreover have "guard_ok p n (s\<lparr>ram_bytes := m\<rparr>)" using assms(2) g(3,5) unfolding m guard_ok_def by blast
  moreover have "m (p + d) = ram_bytes s (p + d)" if "8 \<le> d \<and> d < n - 4" for d
    using g(4) [of d] that unfolding m by simp
  moreover have "get_poisoned p n s = (p + 8, s\<lparr>ram_bytes := m\<rparr>)" using g(1) m by (simp add: prod_eq_iff)
  ultimately show ?thesis by (intro that) blast+
qed

section \<open>Runs with guards\<close>

text \<open>The program's pointer is eight bytes behind that of the allocator, its size twelve bytes less.\<close>

definition outer :: "(u32 \<rightharpoonup> u32) \<Rightarrow> u32 \<rightharpoonup> u32" where
  "outer L q = map_option (\<lambda>n. n - 12) (L (q - 8))"

definition guarded :: "umm \<Rightarrow> (u32 \<rightharpoonup> u32) \<Rightarrow> bool" where
  "guarded s M \<longleftrightarrow> (\<exists>L. running s L \<and> (\<forall>p n. L p = Some n \<longrightarrow> guard_ok p n s) \<and> M = outer L)"

inductive guarded_run :: "umm \<Rightarrow> (u32 \<rightharpoonup> u32) \<Rightarrow> bool" where
  guarded_init: "heap_fits s \<Longrightarrow> guarded_run (umm_init s) Map.empty"
| guarded_malloc: "guarded_run s M \<Longrightarrow> n < max_request - 12 \<Longrightarrow> umm_poison_malloc n s = Some (q, t) \<Longrightarrow>
    guarded_run t (if q = 0 then M else M(q \<mapsto> n))"
| guarded_calloc: "guarded_run s M \<Longrightarrow> k * n < max_request - 12 \<Longrightarrow> umm_poison_calloc n k s = Some (q, t) \<Longrightarrow>
    guarded_run t (if q = 0 then M else M(q \<mapsto> k * n))"
| guarded_realloc: "guarded_run s M \<Longrightarrow> M q = Some k \<Longrightarrow> n \<noteq> 0 \<Longrightarrow> n < max_request - 12 \<Longrightarrow>
    umm_poison_realloc q n s = Some (r, t) \<Longrightarrow> guarded_run t (if r = 0 then M else M(q := None, r \<mapsto> n))"
| guarded_free: "guarded_run s M \<Longrightarrow> q = 0 \<or> q \<in> dom M \<Longrightarrow> guarded_run (umm_poison_free q s) (M(q := None))"
| guarded_write: "guarded_run s M \<Longrightarrow> M q = Some n \<Longrightarrow> \<forall>a. \<not> a - q < n \<longrightarrow> m a = ram_bytes s a \<Longrightarrow>
    guarded_run (s\<lparr>ram_bytes := m\<rparr>) M"

lemma poison_request:
  assumes "n < max_request - 12" and "n \<noteq> 0"
  shows "n + poison_size n = n + 12" and "12 < n + 12" and "n + 12 < max_request" and "n + 12 \<noteq> 0"
proof -
  have n: "unat n < 524265" "0 < unat n" using assms by (simp_all add: max_request_def word_less_nat_alt unat_gt_0)
  show "n + poison_size n = n + 12" using assms(2) by (simp add: poison_size_def LEN_SIZE_def UMM_POISON_SIZE_BEFORE_def UMM_POISON_SIZE_AFTER_def)
  have u: "unat (n + 12) = unat n + 12" using n by (simp add: unat_word_ariths)
  then show "12 < n + 12" "n + 12 < max_request" using n by (simp_all add: word_less_nat_alt max_request_def)
  show "n + 12 \<noteq> 0"
  proof
    assume "n + 12 = 0"
    then show False using u by simp
  qed
qed

lemma outer_upd: "outer (L(p := None)) = (outer L)(p + 8 := None)" "outer (L(p \<mapsto> n + 12)) = (outer L)(p + 8 \<mapsto> n)"
  "outer Map.empty = Map.empty"
  by (auto simp: outer_def fun_eq_iff)

lemma outside_word: "\<not> d < x \<Longrightarrow> 12 < unat x \<Longrightarrow> \<not> d - 8 < x - (12 :: u32)"
  by (auto simp: word_less_nat_alt unat_sub_if_size word_size)

lemma guard_inside:
  assumes g: "guard_ok p n s" and n: "n < max_request" and m: "\<forall>a. \<not> a - (p + 8) < n - 12 \<longrightarrow> m a = ram_bytes s a"
  shows "guard_ok p n (s\<lparr>ram_bytes := m\<rparr>)"
proof -
  have N: "12 < unat n" "unat n < 524277" using g n by (simp_all add: guard_ok_def word_less_nat_alt max_request_def)
  have k: "m (p + d) = ram_bytes s (p + d)" if "unat d < 8 \<or> unat n - 4 \<le> unat d \<and> unat d < unat n" for d
  proof -
    have e: "(p + d) - (p + 8) = d - 8" by simp
    have "\<not> d - 8 < n - 12" using that N by (auto simp: word_less_nat_alt unat_sub_if_size word_size)
    then show ?thesis using m unfolding e [symmetric] by blast
  qed
  have "m p = ram_bytes s p" "m (p + 1) = ram_bytes s (p + 1)" "m (p + 2) = ram_bytes s (p + 2)" "m (p + 3) = ram_bytes s (p + 3)"
    using k [of 0] k [of 1] k [of 2] k [of 3] by simp_all
  then have "read32 p (s\<lparr>ram_bytes := m\<rparr>) = read32 p s" by (simp add: read32_def)
  moreover have "m (p + 4 + of_nat i) = ram_bytes s (p + 4 + of_nat i) \<and> m (p + n - 4 + of_nat i) = ram_bytes s (p + n - 4 + of_nat i)"
    if "i < 4" for i
  proof -
    have i: "unat (of_nat i :: u32) = i" using that by (simp add: unat_of_nat)
    have "unat (4 + of_nat i :: u32) = 4 + i" "unat (n - 4 + of_nat i) = unat n - 4 + i"
      using that i N by (simp_all add: unat_word_ariths(1) unat_sub_if_size word_size)
    moreover from this have "unat (4 + of_nat i :: u32) < 8"
      "unat n - 4 \<le> unat (n - 4 + of_nat i) \<and> unat (n - 4 + of_nat i) < unat n" using that N by linarith+
    moreover have "p + 4 + of_nat i = p + (4 + of_nat i)" "p + n - 4 + of_nat i = p + (n - 4 + of_nat i)"
      by (simp_all add: algebra_simps)
    ultimately show ?thesis using k [of "4 + of_nat i"] k [of "n - 4 + of_nat i"] by (simp only: simp_thms)
  qed
  ultimately show ?thesis using g by (simp add: guard_ok_def)
qed

lemma guarded_pointer:
  assumes "running s L" and "L p = Some n"
  shows "p \<noteq> 0" and "p + 8 \<noteq> 0" and "n < max_request"
proof -
  note u = umm.placed [OF assms]
  show "p \<noteq> 0" using u by blast
  have "unat (p + 8) = unat p + 8" using u by (simp add: unat_word_ariths)
  then show "p + 8 \<noteq> 0" by (metis add_is_0 unat_0 zero_neq_numeral)
  obtain bs fs where "owns s L bs fs" using running_owns [OF assms(1)] by blast
  then show "n < max_request" using assms(2) by (simp add: owns_def)
qed

lemma outer_none: "running s L \<Longrightarrow> L 0 = None \<and> outer L 0 = None"
proof
  assume r: "running s L"
  show "L 0 = None" using guarded_pointer(1) [OF r, of 0] by (cases "L 0") auto
  show "outer L 0 = None" using guarded_pointer(2) [OF r, of "- 8"] by (cases "L (- 8)") (auto simp: outer_def)
qed

text \<open>What the allocator has returned gets its guards.\<close>

lemma poison_step:
  assumes r: "running t (if p = 0 then L else L(p \<mapsto> n + 12))" and o: "\<forall>q k. L q = Some k \<and> (p = 0 \<or> q \<noteq> p) \<longrightarrow> guard_ok q k t"
    and n: "n < max_request - 12" "n \<noteq> 0" and g: "get_poisoned p (n + 12) t = (q, u)"
  shows "guarded u (if q = 0 then outer L else (outer L)(q \<mapsto> n)) \<and> (q = 0 \<longleftrightarrow> p = 0)"
proof (cases "p = 0")
  case True
  then have "q = 0" "u = t" using g by (simp_all add: get_poisoned_def)
  then show ?thesis using r o True unfolding guarded_def by auto
next
  case False
  note k = poison_request [OF n]
  let ?L = "L(p \<mapsto> n + 12)"
  have r': "running t ?L" using r False by simp
  obtain m where m: "get_poisoned p (n + 12) t = (p + 8, t\<lparr>ram_bytes := m\<rparr>)"
    "\<forall>a. \<not> a - p < n + 12 \<longrightarrow> m a = ram_bytes t a" "guard_ok p (n + 12) (t\<lparr>ram_bytes := m\<rparr>)"
    by (rule get_poisoned_guards [OF False k(2,3)])
  have "?L p = Some (n + 12)" by simp
  moreover have "\<forall>q k. ?L q = Some k \<and> q \<noteq> p \<longrightarrow> guard_ok q k t" using o by simp
  ultimately have w: "running (t\<lparr>ram_bytes := m\<rparr>) ?L" "\<forall>q k. ?L q = Some k \<longrightarrow> guard_ok q k (t\<lparr>ram_bytes := m\<rparr>)"
    using guards.write_contents [OF r' _ _ m(2,3)] by blast+
  have "p + 8 \<noteq> 0" using guarded_pointer(2) [OF r', of p] by simp
  moreover have "q = p + 8" "u = t\<lparr>ram_bytes := m\<rparr>" using g m(1) by simp_all
  ultimately show ?thesis using w False unfolding guarded_def by (auto intro!: exI [of _ ?L] simp: outer_upd)
qed

text \<open>The block that umm_poison_calloc has cleared.\<close>

lemma cleared_step:
  assumes r: "running t (if p = 0 then L else L(p \<mapsto> n))" and o: "\<forall>q k. L q = Some k \<longrightarrow> guard_ok q k t" and p: "p \<notin> dom L"
  defines "u \<equiv> if p \<noteq> 0 then memset p 0 n t else t"
  shows "running u (if p = 0 then L else L(p \<mapsto> n)) \<and> (\<forall>q k. L q = Some k \<longrightarrow> guard_ok q k u)"
proof (cases "p = 0")
  case False
  obtain m where m: "memset p 0 n t = t\<lparr>ram_bytes := m\<rparr>" "\<forall>a. \<not> a - p < n \<longrightarrow> m a = ram_bytes t a"
    by (simp add: memset_def)
  have r: "running t (L(p \<mapsto> n))" "(L(p \<mapsto> n)) p = Some n" using r False by simp_all
  have "guard_ok q k (t\<lparr>ram_bytes := m\<rparr>) = guard_ok q k t" if "L q = Some k" for q k
  proof -
    have q: "(L(p \<mapsto> n)) q = Some k" "q \<noteq> p" using that p by auto
    have "m a = ram_bytes t a" if "a - q < k" for a by (rule umm.overwrite_other [OF r m(2) q that])
    then show ?thesis by (intro guard_local) simp
  qed
  then show ?thesis using o umm.overwrite [OF r m(2)] False by (simp add: u_def m(1) del: fun_upd_apply)
qed (use r o in \<open>simp add: u_def\<close>)

lemma guardedE:
  assumes "guarded s M"
  obtains L where "running s L" "\<forall>p n. L p = Some n \<longrightarrow> guard_ok p n s" "M = outer L" "umm_heap s \<noteq> 0"
proof -
  obtain L where L: "running s L" "\<forall>p n. L p = Some n \<longrightarrow> guard_ok p n s" "M = outer L" using assms unfolding guarded_def by blast
  then obtain bs fs where "owns s L bs fs" using running_owns by blast
  then have "umm_heap s \<noteq> 0" using owns_lists by (fastforce simp: heap_lists_def)
  then show ?thesis using that L by blast
qed

lemma guarded_malloc_keeps:
  assumes g: "guarded s M" and n: "n < max_request - 12" and m: "umm_poison_malloc n s = Some (q, t)"
  shows "guarded t (if q = 0 then M else M(q \<mapsto> n))"
proof -
  from g obtain L where L: "running s L" "\<forall>p n. L p = Some n \<longrightarrow> guard_ok p n s" "M = outer L" and nz: "umm_heap s \<noteq> 0" by (rule guardedE)
  show ?thesis
  proof (cases "n = 0")
    case True
    then have "q = 0" "t = s" using m nz
      by (simp_all add: umm_poison_malloc_def poison_size_def umm_malloc_def init_heap_def get_poisoned_def Let_def)
    then show ?thesis using g by simp
  next
    case False
    note k = poison_request [OF n False]
    obtain p u where p: "umm_malloc (n + 12) s = Some (p, u)" "running u (if p = 0 then L else L(p \<mapsto> n + 12))" "p \<notin> dom L"
      "\<forall>q k. L q = Some k \<longrightarrow> guard_ok q k u"
      using guards.alloc_contents [OF L(1,2) k(3)] by blast
    then have "get_poisoned p (n + 12) u = (q, t)" using m by (simp add: umm_poison_malloc_def k(1) Let_def)
    from poison_step [OF p(2) _ n False this] show ?thesis using p(4) L(3) by blast
  qed
qed

lemma guarded_calloc_keeps:
  assumes g: "guarded s M" and n: "k * n < max_request - 12" and m: "umm_poison_calloc n k s = Some (q, t)"
  shows "guarded t (if q = 0 then M else M(q \<mapsto> k * n))"
proof -
  from g obtain L where L: "running s L" "\<forall>p n. L p = Some n \<longrightarrow> guard_ok p n s" "M = outer L" and nz: "umm_heap s \<noteq> 0" by (rule guardedE)
  show ?thesis
  proof (cases "k * n = 0")
    case True
    then have "q = 0" "t = s" using m nz
      by (simp_all add: umm_poison_calloc_def poison_size_def umm_malloc_def init_heap_def get_poisoned_def Let_def)
    then show ?thesis using g by simp
  next
    case False
    note j = poison_request [OF n False]
    obtain p u where p: "umm_malloc (k * n + 12) s = Some (p, u)" "running u (if p = 0 then L else L(p \<mapsto> k * n + 12))" "p \<notin> dom L"
      "\<forall>q k. L q = Some k \<longrightarrow> guard_ok q k u"
      using guards.alloc_contents [OF L(1,2) j(3)] by blast
    let ?u = "if p \<noteq> 0 then memset p 0 (k * n + 12) u else u"
    note c = cleared_step [OF p(2,4,3)]
    have "get_poisoned p (k * n + 12) ?u = (q, t)" using m p(1) unfolding umm_poison_calloc_def Let_def j(1) by simp
    from poison_step [OF conjunct1 [OF c] _ n False this] show ?thesis using c L(3) by blast
  qed
qed

lemma guarded_realloc_keeps:
  assumes g: "guarded s M" and old: "M q = Some k" and n: "n \<noteq> 0" "n < max_request - 12" and m: "umm_poison_realloc q n s = Some (r, t)"
  shows "guarded t (if r = 0 then M else M(q := None, r \<mapsto> n))"
proof -
  from g obtain L where L: "running s L" "\<forall>p n. L p = Some n \<longrightarrow> guard_ok p n s" "M = outer L" by (rule guardedE)
  let ?p = "q - 8"
  obtain x where x: "L ?p = Some x" using old L(3) by (auto simp: outer_def)
  have q: "q \<noteq> 0" using guarded_pointer(2) [OF L(1) x] by simp
  note j = poison_request [OF n(2,1)]
  obtain p u where p: "umm_realloc ?p (n + 12) s = Some (p, u)" "running u (if p = 0 then L else L(?p := None, p \<mapsto> n + 12))"
    "\<forall>r k. L r = Some k \<and> (p = 0 \<or> r \<noteq> ?p) \<longrightarrow> guard_ok r k u"
    using guards.resize_contents [OF L(1,2) x j(4,3)] by blast
  have gp: "get_poisoned p (n + 12) u = (r, t)" using m p(1) q
    by (simp add: umm_poison_realloc_def get_unpoisoned_def j(1) Let_def LEN_SIZE_def UMM_POISON_SIZE_BEFORE_def)
  show ?thesis
  proof (cases "p = 0")
    case True
    have "running u (if p = 0 then L else L(p \<mapsto> n + 12))" "\<forall>q k. L q = Some k \<and> (p = 0 \<or> q \<noteq> p) \<longrightarrow> guard_ok q k u" using p True by simp_all
    from poison_step [OF this n(2,1) gp] show ?thesis using True L(3) by (auto split: if_splits)
  next
    case False
    let ?L = "L(?p := None)"
    have "running u (if p = 0 then ?L else ?L(p \<mapsto> n + 12))" "\<forall>q k. ?L q = Some k \<and> (p = 0 \<or> q \<noteq> p) \<longrightarrow> guard_ok q k u" using p False by auto
    from poison_step [OF this n(2,1) gp] have "guarded t (if r = 0 then outer ?L else (outer ?L)(r \<mapsto> n))" "r \<noteq> 0" using False by auto
    then show ?thesis using L(3) by (simp add: outer_upd del: fun_upd_apply)
  qed
qed

lemma guarded_free_keeps:
  assumes g: "guarded s M" and old: "q = 0 \<or> q \<in> dom M"
  shows "guarded (umm_poison_free q s) (M(q := None))"
proof -
  from g obtain L where L: "running s L" "\<forall>p n. L p = Some n \<longrightarrow> guard_ok p n s" "M = outer L" by (rule guardedE)
  note z = outer_none [OF L(1)]
  show ?thesis
  proof (cases "q = 0")
    case True
    have "L(0 := None) = L" "M(0 := None) = M" using z L(3) by (simp_all add: fun_upd_idem)
    moreover have "umm_poison_free q s = umm_free 0 s" using True by (simp add: umm_poison_free_def get_unpoisoned_def)
    ultimately show ?thesis using guards.release_contents [OF L(1,2), of 0] L(3) True unfolding guarded_def by auto
  next
    case False
    let ?p = "q - 8"
    have p: "?p \<in> dom L" using old False L(3) by (auto simp: outer_def)
    have "umm_poison_free q s = umm_free ?p s" using False
      by (simp add: umm_poison_free_def get_unpoisoned_def LEN_SIZE_def UMM_POISON_SIZE_BEFORE_def)
    moreover have "M(q := None) = outer (L(?p := None))" using L(3) by (simp add: outer_upd)
    ultimately show ?thesis using guards.release_contents [OF L(1,2), of ?p] p unfolding guarded_def by auto
  qed
qed

lemma guarded_write_keeps:
  assumes g: "guarded s M" and old: "M q = Some n" and m: "\<forall>a. \<not> a - q < n \<longrightarrow> m a = ram_bytes s a"
  shows "guarded (s\<lparr>ram_bytes := m\<rparr>) M"
proof -
  from g obtain L where L: "running s L" "\<forall>p n. L p = Some n \<longrightarrow> guard_ok p n s" "M = outer L" by (rule guardedE)
  let ?p = "q - 8"
  obtain x where x: "L ?p = Some x" "n = x - 12" using old L(3) by (auto simp: outer_def)
  have gp: "guard_ok ?p x s" using L(2) x(1) by blast
  have "guard_ok ?p x (s\<lparr>ram_bytes := m\<rparr>)"
    by (rule guard_inside [OF gp guarded_pointer(3) [OF L(1) x(1)]]) (use m x(2) in simp)
  moreover have "\<forall>a. \<not> a - ?p < x \<longrightarrow> m a = ram_bytes s a"
  proof (intro allI impI)
    fix a
    assume "\<not> a - ?p < x"
    moreover have "12 < unat x" using gp by (simp add: guard_ok_def word_less_nat_alt)
    moreover have "a - q = (a - ?p) - 8" by simp
    ultimately have "\<not> a - q < n" using outside_word [of "a - ?p" x] x(2) by metis
    then show "m a = ram_bytes s a" using m by blast
  qed
  ultimately have "running (s\<lparr>ram_bytes := m\<rparr>) L \<and> (\<forall>q k. L q = Some k \<longrightarrow> guard_ok q k (s\<lparr>ram_bytes := m\<rparr>))"
    using L(2) by (intro guards.write_contents [OF L(1) x(1)]) auto
  then show ?thesis using L(3) unfolding guarded_def by blast
qed

lemma guarded_runs: "guarded_run s M \<Longrightarrow> guarded s M"
proof (induction rule: guarded_run.induct)
  case (guarded_init s)
  then show ?case using run_init unfolding guarded_def by (intro exI [of _ Map.empty]) (simp add: outer_upd)
qed (rule guarded_malloc_keeps guarded_calloc_keeps guarded_realloc_keeps guarded_free_keeps guarded_write_keeps; assumption)+

section \<open>The checks pass\<close>

lemma guarded_blocks:
  assumes "guarded s M"
  obtains L bs fs where "M = outer L" "owns s L bs fs" "blocks_from s 0 bs" "umm_heap s \<noteq> 0" "bs \<noteq> []"
    "\<forall>c \<in> set (butlast bs). is_free c s \<or> check_poison_block c s"
proof -
  obtain L where L: "running s L" "\<forall>p n. L p = Some n \<longrightarrow> guard_ok p n s" "M = outer L" using assms unfolding guarded_def by blast
  obtain bs fs where o: "owns s L bs fs" using running_owns [OF L(1)] by blast
  then have bs: "blocks_from s 0 bs" "umm_heap s \<noteq> 0" "bs \<noteq> []" using owns_lists [OF o] by (simp_all add: heap_lists_def)
  have "is_free c s \<or> check_poison_block c s" if c: "c \<in> set (butlast bs)" for c
  proof (cases "c \<in> set fs")
    case True
    then show ?thesis using owns_lists [OF o] c by (auto simp: heap_lists_def dest: in_set_butlastD)
  next
    case False
    then have "live s bs fs c = Some (next_block c s)" using c by (simp add: live_def)
    then obtain n where "L (UMM_DATA c s) = Some n" using o by (auto simp: owns_def)
    then have "guard_ok (UMM_DATA c s) n s" using L(2) by blast
    then show ?thesis by (simp add: guard_ok_def poison_block_eq POISON_BYTE_def)
  qed
  then show ?thesis using that [OF L(3) o bs] by blast
qed

lemma block_before:
  "blocks_from s p bs \<Longrightarrow> p AND UMM_BLOCKNO_MASK = p \<Longrightarrow> b \<in> set bs \<Longrightarrow>
    UMM_PBLOCK b s \<in> set (p # bs) \<and> UMM_PBLOCK b s < b \<and> UMM_PBLOCK b s AND UMM_BLOCKNO_MASK = UMM_PBLOCK b s"
proof (induction bs arbitrary: p)
  case (Cons c bs)
  then have c: "next_block p s = c" "p < c" "UMM_PBLOCK c s = p" "blocks_from s c bs" by simp_all
  then have "c AND UMM_BLOCKNO_MASK = c" using next_block_small(2) by metis
  then have "UMM_PBLOCK b s \<in> set (c # bs) \<and> UMM_PBLOCK b s < b \<and> UMM_PBLOCK b s AND UMM_BLOCKNO_MASK = UMM_PBLOCK b s" if "b \<in> set bs"
    using Cons.IH [OF c(4)] that by blast
  moreover have "UMM_PBLOCK c s \<in> set (p # c # bs) \<and> UMM_PBLOCK c s < c \<and> UMM_PBLOCK c s AND UMM_BLOCKNO_MASK = UMM_PBLOCK c s"
    unfolding c(3) using c(2) Cons.prems(2) by simp
  moreover have "b = c \<or> b \<in> set bs" using Cons.prems(3) by simp
  ultimately show ?case by (metis list.set_intros(2))
qed simp

lemma last_or_checked:
  assumes "blocks_from s 0 bs" and "c \<in> set bs" and "next_block c s \<noteq> 0"
  shows "c \<in> set (butlast bs)"
proof -
  have "c \<noteq> last bs" using assms unfolding blocks_from_seg by (metis empty_iff last_ConsR list.set(1))
  then show ?thesis using assms(2) by (cases bs rule: rev_cases) auto
qed

lemma poison_before_passes:
  assumes "blocks_from s 0 bs" and "\<forall>c \<in> set (butlast bs). is_free c s \<or> check_poison_block c s"
  shows "c \<in> set (0 # bs) \<Longrightarrow> poison_before c s = Some True"
proof (induction "unat c" arbitrary: c rule: less_induct)
  case less
  show ?case
  proof (cases "c = 0 \<or> next_block c s = 0")
    case True
    then show ?thesis by (subst poison_before.simps) (auto simp: next_block_def simp del: flagged_next)
  next
    case False
    then have c: "c \<in> set bs" using less.prems by simp
    note b = block_before [OF assms(1) _ c, simplified]
    have "poison_before (UMM_PBLOCK c s) s = Some True" using b by (intro less.hyps) (simp_all add: word_less_nat_alt)
    moreover have "is_free c s \<or> check_poison_block c s" using assms(2) last_or_checked [OF assms(1) c] False by blast
    ultimately show ?thesis using b False by (subst poison_before.simps) (auto simp: next_block_def is_free_def simp del: flagged_next)
  qed
qed

lemma poison_after_passes:
  "blocks_from s b bs \<Longrightarrow> \<forall>c \<in> set (butlast (b # bs)). is_free c s \<or> check_poison_block c s \<Longrightarrow> poison_after b s = Some True"
proof (induction bs arbitrary: b)
  case Nil
  then show ?case by (subst poison_after.simps) (simp add: next_block_def del: flagged_next)
next
  case (Cons c bs)
  then have n: "next_block b s = c" "c \<noteq> 0" by auto
  have "poison_after c s = Some True" using Cons by simp
  moreover have "is_free b s \<or> check_poison_block b s" using Cons.prems(2) by simp
  ultimately show ?case using n by (subst poison_after.simps) (auto simp: next_block_def is_free_def simp del: flagged_next)
qed

lemma neighbors_pass:
  assumes b: "blocks_from s 0 bs" and k: "\<forall>c \<in> set (butlast bs). is_free c s \<or> check_poison_block c s" and c: "c \<in> set (butlast bs)"
  shows "check_poison_neighbors c s = Some True"
proof -
  have m: "c \<in> set bs" using c by (rule in_set_butlastD)
  note p = block_before [OF b _ m, simplified]
  have "poison_before (UMM_PBLOCK c s) s = Some True" using p by (intro poison_before_passes [OF b k]) simp
  moreover obtain xs ys where bs: "bs = xs @ c # ys" using m by (meson split_list)
  then have "ys \<noteq> []" using c b blocks_from_seg block_seg_distinct [of s 0 bs] by (cases "ys = []") auto
  then obtain d zs where ys: "ys = d # zs" by (cases ys) auto
  have f: "next_block c s = d" "blocks_from s d zs" using b unfolding bs ys blocks_from_append by simp_all
  have "butlast bs = xs @ c # butlast (d # zs)" unfolding bs ys by (rule butlast_keep)
  then have "poison_after d s = Some True" using k by (intro poison_after_passes [OF f(2)]) simp
  ultimately show ?thesis using p f(1) unfolding check_poison_neighbors_def next_block_def by simp
qed

text \<open>C16. In every run of a program that goes through umm_poison_malloc, umm_poison_calloc, umm_poison_realloc and
  umm_poison_free and writes only
  to the bytes it asked for, the guards of all blocks stay in place: umm_poison_check ends, passes and changes nothing.\<close>

theorem guards_stay:
  assumes "guarded_run s M"
  shows "umm_poison_check s = Some (True, s)"
proof -
  obtain L bs fs where b: "owns s L bs fs" "blocks_from s 0 bs" "umm_heap s \<noteq> 0" "bs \<noteq> []"
    "\<forall>c \<in> set (butlast bs). is_free c s \<or> check_poison_block c s" by (rule guarded_blocks [OF guarded_runs [OF assms]])
  then have "blocks_from s 0 (hd bs # tl bs)" by simp
  then show ?thesis using poison_check_exact [of s "hd bs" "tl bs"] b by simp
qed

lemma first_guarded: "\<exists>q t. guarded_run t [q \<mapsto> 100] \<and> q \<noteq> 0"
proof -
  have o: "owns (umm_init blank_umm) Map.empty [1, 0x27FF] [1]" using init_owns [OF blank_fits] unfolding blank_last .
  have s: "112 < max_request" by (simp add: max_request_def)
  obtain p t where m: "umm_malloc 112 (umm_init blank_umm) = Some (p, t)"
    "p \<noteq> 0 \<longleftrightarrow> (112 :: u32) \<noteq> 0 \<and> (\<exists>c \<in> set [1]. umm_blocks 112 \<le> block_size (umm_init blank_umm) c)"
    by (rule malloc_step [OF o s]) blast
  have "next_block 1 (umm_init blank_umm) = 0x27FF" using owns_lists [OF o] by (simp add: heap_lists_def)
  then have p: "p \<noteq> 0" using m(2) by (simp add: umm_blocks_def block_size_def)
  then have g: "umm_poison_malloc 100 (umm_init blank_umm) = Some (p + 8, snd (get_poisoned p 112 t))"
    using m(1) get_poisoned_eq [OF p, of 112 t]
    by (simp add: umm_poison_malloc_def poison_size_def LEN_SIZE_def UMM_POISON_SIZE_BEFORE_def UMM_POISON_SIZE_AFTER_def)
  have "p + 8 \<noteq> 0" using guarded_pointer(2) [OF running.run_malloc [OF blank_run s m(1)], of p] p by simp
  moreover have "100 < max_request - 12" by (simp add: max_request_def)
  from guarded_malloc [OF guarded_init [OF blank_fits] this g] have "guarded_run (snd (get_poisoned p 112 t)) (if p + 8 = 0 then Map.empty else [p + 8 \<mapsto> 100])" .
  ultimately show ?thesis by auto
qed

lemma guards_stay_witness: "\<exists>q t. guarded_run t [q \<mapsto> 100] \<and> q \<noteq> 0 \<and> umm_poison_check t = Some (True, t)"
  using first_guarded guards_stay by blast

text \<open>Where the neighbours of every free block pass, the allocator with the check does what it does without.\<close>

lemma malloc_core_checked:
  assumes f: "free_from s 0 fs" and p: "\<forall>c \<in> set fs. check_poison_neighbors c s = Some True"
  shows "\<exists>r. umm_malloc_core sz s = Some r \<and> umm_malloc_core_lite lite sz s = Some (Inr r)"
proof -
  obtain z b m where sc: "scan s (umm_blocks sz) fs (0, UMM_NFREE 0 s, 0x7FFF) = (z, b, m)" by (rule prod_cases3)
  have best: "best_fit (umm_blocks sz) (UMM_NFREE 0 s) 0 (UMM_NFREE 0 s) 0x7FFF s = Some (z, b, m)"
    unfolding sc [symmetric] by (rule best_fit_scan [OF f])
  have "check_poison_neighbors 0 s = Some True" by (simp add: check_poison_neighbors_def)
  then have "POISON_CHECK_NEIGHBORS lite (if m \<noteq> 0x7FFF then b else 0) s = Some True"
    using scan_best(3) [OF sc] p by (auto simp: POISON_CHECK_NEIGHBORS_def)
  then show ?thesis by (cases "m = 0x7FFF") (simp_all add: umm_malloc_core_lite_def umm_malloc_core_def best Let_def)
qed

lemma realloc_checked:
  assumes h: "umm_heap s \<noteq> 0" and core: "\<And>sz. \<exists>r. umm_malloc_core sz s = Some r \<and> umm_malloc_core_lite lite sz s = Some (Inr r)"
  shows "\<exists>r. umm_malloc sz s = Some r \<and> umm_malloc_lite lite sz s = Some (Inr r)"
    and "\<exists>r. umm_realloc p sz s = Some r \<and> umm_realloc_lite lite p sz s = Some (Inr r)"
proof -
  have i: "init_heap s = s" using h by (simp add: init_heap_def)
  obtain r where c: "umm_malloc_core sz s = Some r" "umm_malloc_core_lite lite sz s = Some (Inr r)" using core by blast
  show m: "\<exists>r. umm_malloc sz s = Some r \<and> umm_malloc_lite lite sz s = Some (Inr r)"
    using c by (simp add: umm_malloc_lite_def umm_malloc_def i Let_def)
  show "\<exists>r. umm_realloc p sz s = Some r \<and> umm_realloc_lite lite p sz s = Some (Inr r)"
    using m c by (auto simp: umm_realloc_lite_def umm_realloc_def i Let_def split: prod.split)
qed

text \<open>C19. In every such run the checks of UMM_POISON_CHECK_LITE end and pass, those of the block and its neighbours when the program
  frees or resizes one, and those of the neighbours of the block that umm_malloc_core selects: with them or without, nothing
  panics, and umm_poison_malloc, umm_poison_calloc, umm_poison_free and umm_poison_realloc do the same.\<close>

theorem lite_checks_pass:
  assumes "guarded_run s M"
  shows "(\<exists>r. umm_poison_malloc n s = Some r \<and> umm_poison_malloc_lite lite n s = Some (Inr r)) \<and>
    (\<exists>r. umm_poison_calloc k n s = Some r \<and> umm_poison_calloc_lite lite k n s = Some (Inr r)) \<and>
    (q = 0 \<or> q \<in> dom M \<longrightarrow> umm_poison_free_fl lite q s = Some (Inr (umm_poison_free q s)) \<and>
      (\<exists>r. umm_poison_realloc q n s = Some r \<and> umm_poison_realloc_fl lite q n s = Some (Inr r)))"
proof -
  obtain L bs fs where b: "M = outer L" "owns s L bs fs" "blocks_from s 0 bs" "umm_heap s \<noteq> 0"
    "\<forall>c \<in> set (butlast bs). is_free c s \<or> check_poison_block c s" by (rule guarded_blocks [OF guarded_runs [OF assms]])
  note nb = neighbors_pass [OF b(3,5)]
  have h: "heap_lists s bs fs" by (rule owns_lists [OF b(2)])
  then have "free_from s 0 fs" "set fs \<subseteq> set (butlast bs)" by (simp_all add: heap_lists_def)
  then have core: "\<exists>r. umm_malloc_core sz s = Some r \<and> umm_malloc_core_lite lite sz s = Some (Inr r)" for sz
    using nb by (intro malloc_core_checked) auto
  note re = realloc_checked [OF b(4) core]
  have u: "get_unpoisoned_check_neighbors lite q s = Some (Inr (get_unpoisoned q s))" if q: "q = 0 \<or> q \<in> dom M"
  proof (cases "q = 0")
    case False
    obtain k where "L (q - 8) = Some k" using q False b(1) by (auto simp: outer_def)
    then obtain c where c: "q - 8 = UMM_DATA c s" "live s bs fs c \<noteq> None" using b(2) unfolding owns_def by blast
    then have m: "c \<in> set (butlast bs)" "c \<notin> set fs" by (simp_all add: live_def split: if_splits)
    then have "\<not> is_free c s" using h by (auto simp: heap_lists_def dest: in_set_butlastD)
    then have "check_poison_block c s" using b(5) m(1) by blast
    then show ?thesis using nb [OF m(1)] False
      by (simp add: get_unpoisoned_check_neighbors_def get_unpoisoned_def LEN_SIZE_def UMM_POISON_SIZE_BEFORE_def c(1) Let_def)
  qed (simp add: get_unpoisoned_check_neighbors_def get_unpoisoned_def)
  have "\<exists>r. umm_poison_malloc n s = Some r \<and> umm_poison_malloc_lite lite n s = Some (Inr r)"
    using re(1) [of "n + poison_size n"] by (auto simp: umm_poison_malloc_lite_def umm_poison_malloc_def Let_def split_def)
  moreover have "\<exists>r. umm_poison_calloc k n s = Some r \<and> umm_poison_calloc_lite lite k n s = Some (Inr r)"
    using re(1) [of "n * k + poison_size (n * k)"] by (auto simp: umm_poison_calloc_lite_def umm_poison_calloc_def Let_def split_def)
  moreover have "\<exists>r. umm_poison_realloc q n s = Some r \<and> umm_poison_realloc_fl lite q n s = Some (Inr r)" if "q = 0 \<or> q \<in> dom M"
    using re(2) [of "get_unpoisoned q s" "n + poison_size n"]
    by (auto simp: umm_poison_realloc_fl_def umm_poison_realloc_def u [OF that] Let_def split_def)
  moreover have "umm_poison_free_fl lite q s = Some (Inr (umm_poison_free q s))" if "q = 0 \<or> q \<in> dom M"
    by (simp add: umm_poison_free_fl_def umm_poison_free_def u [OF that])
  ultimately show ?thesis by blast
qed

lemma lite_checks_pass_witness:
  "\<exists>q t. guarded_run t [q \<mapsto> 100] \<and> q \<noteq> 0 \<and> umm_poison_free_fl True q t = Some (Inr (umm_poison_free q t)) \<and>
    (\<exists>r. umm_poison_malloc 7 t = Some r \<and> umm_poison_malloc_lite True 7 t = Some (Inr r))"
proof -
  obtain q t where g: "guarded_run t [q \<mapsto> 100]" "q \<noteq> 0" using first_guarded by blast
  then show ?thesis using lite_checks_pass [OF g(1), of 7 True 0 q] by auto
qed

end
