(* ===== verification/Stub_Flash.thy ===== *)
theory Stub_Flash
  imports Eboot_Flash
begin

text \<open>
  Writing flash in the flasher stub: tools/esptool/flasher_stub/stub_write_flash.c for the ESP8266, with the constants of
  include/stub_flasher.h, include/soc_support.h and include/miniz.h.  The flash routines of the ROM and the registers of the SPI
  controller are the record \<open>chip\<close>, the decompressor of miniz the record \<open>tinfl\<close>; the static variables are the record
  \<open>flashing\<close>.  A loop that polls for ever, or an access outside a buffer, is \<open>None\<close>.
\<close>

section \<open>Constants\<close>

type_synonym esp_command_error = int

definition ESP_OK :: esp_command_error where "ESP_OK = 0"
definition ESP_BAD_DATA_LEN :: esp_command_error where "ESP_BAD_DATA_LEN = 0xC0"
definition ESP_BAD_DATA_CHECKSUM :: esp_command_error where "ESP_BAD_DATA_CHECKSUM = 0xC1"
definition ESP_BAD_BLOCKSIZE :: esp_command_error where "ESP_BAD_BLOCKSIZE = 0xC2"
definition ESP_FAILED_SPI_OP :: esp_command_error where "ESP_FAILED_SPI_OP = 0xC4"
definition ESP_FAILED_SPI_UNLOCK :: esp_command_error where "ESP_FAILED_SPI_UNLOCK = 0xC5"
definition ESP_NOT_IN_FLASH_MODE :: esp_command_error where "ESP_NOT_IN_FLASH_MODE = 0xC6"
definition ESP_INFLATE_ERROR :: esp_command_error where "ESP_INFLATE_ERROR = 0xC7"
definition ESP_NOT_ENOUGH_DATA :: esp_command_error where "ESP_NOT_ENOUGH_DATA = 0xC8"
definition ESP_TOO_MUCH_DATA :: esp_command_error where "ESP_TOO_MUCH_DATA = 0xC9"
definition ESP_CMD_NOT_IMPLEMENTED :: esp_command_error where "ESP_CMD_NOT_IMPLEMENTED = 0xFF"

definition SECTORS_PER_BLOCK :: int where "SECTORS_PER_BLOCK = int (FLASH_BLOCK_SIZE div FLASH_SECTOR_SIZE)"

definition SPI_CMD_REG :: u32 where "SPI_CMD_REG = 0x60000200"
definition SPI_ADDR_REG :: u32 where "SPI_ADDR_REG = 0x60000204"
definition SPI_RD_STATUS_REG :: u32 where "SPI_RD_STATUS_REG = 0x60000210"
definition SPI_EXT2_REG :: u32 where "SPI_EXT2_REG = 0x600002F8"
definition SPI_ST :: u32 where "SPI_ST = 0x7"
definition SPI_FLASH_RDSR :: u32 where "SPI_FLASH_RDSR = shl 1 27"
definition SPI_FLASH_SE :: u32 where "SPI_FLASH_SE = shl 1 24"
definition SPI_FLASH_BE :: u32 where "SPI_FLASH_BE = shl 1 23"
definition SPI_FLASH_WREN :: u32 where "SPI_FLASH_WREN = shl 1 30"
definition STATUS_WIP_BIT :: u32 where "STATUS_WIP_BIT = shl 1 0"

definition TINFL_STATUS_DONE :: int where "TINFL_STATUS_DONE = 0"
definition TINFL_STATUS_NEEDS_MORE_INPUT :: int where "TINFL_STATUS_NEEDS_MORE_INPUT = 1"
definition TINFL_FLAG_PARSE_ZLIB_HEADER :: u32 where "TINFL_FLAG_PARSE_ZLIB_HEADER = 1"
definition TINFL_FLAG_HAS_MORE_INPUT :: u32 where "TINFL_FLAG_HAS_MORE_INPUT = 2"

text \<open>sizeof(out_buf)\<close>

definition OUT_BUF_SIZE :: nat where "OUT_BUF_SIZE = 32768"

section \<open>The chip, the decompressor, the state\<close>

record 'w chip =
  rom :: "'w spi"
  READ_REG :: "u32 \<Rightarrow> 'w \<Rightarrow> u32 \<times> 'w"
  WRITE_REG :: "u32 \<Rightarrow> u32 \<Rightarrow> 'w \<Rightarrow> 'w"
  SPIUnlock :: "'w \<Rightarrow> int \<times> 'w"
  SPIEraseChip :: "'w \<Rightarrow> int \<times> 'w"
  SPIParamCfg :: "u32 list \<Rightarrow> 'w \<Rightarrow> u32 \<times> 'w"
  SelectSpiFunction :: "'w \<Rightarrow> 'w"
  spi_flash_attach :: "'w \<Rightarrow> 'w"
  uart_div_modify :: "u32 \<Rightarrow> u32 \<Rightarrow> 'w \<Rightarrow> 'w"

text \<open>tinfl_decompress gets the input, the output buffer, where to write in it, the space there and the flags; it returns its status,
  how much it has read and written, and the buffer.\<close>

record 'i tinfl =
  tinfl_init :: "'i \<Rightarrow> 'i"
  tinfl_decompress :: "'i \<Rightarrow> u8 list \<Rightarrow> u8 list \<Rightarrow> nat \<Rightarrow> nat \<Rightarrow> u32 \<Rightarrow> int \<times> nat \<times> nat \<times> u8 list \<times> 'i"

record 'i flashing =
  in_flash_mode :: bool
  next_write :: u32
  next_erase_sector :: int
  remaining :: u32
  remaining_erase_sector :: int
  last_error :: esp_command_error
  inflator :: 'i
  remaining_compressed :: u32
  out_buf :: "u8 list"
  next_out :: nat

definition is_in_flash_mode :: "'i flashing \<Rightarrow> bool" where "is_in_flash_mode fs = in_flash_mode fs"

definition get_flash_error :: "'i flashing \<Rightarrow> esp_command_error" where "get_flash_error fs = last_error fs"

section \<open>Polling the controller and the flash\<close>

partial_function (option) spi_wait_ready :: "'w chip \<Rightarrow> 'w \<Rightarrow> 'w option" where
  "spi_wait_ready c w =
     (case READ_REG c SPI_EXT2_REG w of (v, w) \<Rightarrow> if v AND SPI_ST \<noteq> 0 then spi_wait_ready c w else Some w)"

text \<open>\<open>while(READ_REG(SPI_CMD_REG) != 0) { }\<close>\<close>

partial_function (option) cmd_wait :: "'w chip \<Rightarrow> 'w \<Rightarrow> 'w option" where
  "cmd_wait c w = (case READ_REG c SPI_CMD_REG w of (v, w) \<Rightarrow> if v \<noteq> 0 then cmd_wait c w else Some w)"

definition spiflash_is_ready :: "'w chip \<Rightarrow> 'w \<Rightarrow> (bool \<times> 'w) option" where
  "spiflash_is_ready c w = do {
     w \<leftarrow> spi_wait_ready c w;
     let w = WRITE_REG c SPI_RD_STATUS_REG 0 w;
     let w = WRITE_REG c SPI_CMD_REG SPI_FLASH_RDSR w;
     w \<leftarrow> cmd_wait c w;
     let (status_value, w) = READ_REG c SPI_RD_STATUS_REG w;
     Some (status_value AND STATUS_WIP_BIT = 0, w) }"

text \<open>\<open>while(!spiflash_is_ready()) { }\<close>\<close>

partial_function (option) flash_wait :: "'w chip \<Rightarrow> 'w \<Rightarrow> 'w option" where
  "flash_wait c w = do { (ready, w) \<leftarrow> spiflash_is_ready c w; if \<not> ready then flash_wait c w else Some w }"

definition spi_write_enable :: "'w chip \<Rightarrow> 'w \<Rightarrow> 'w option" where
  "spi_write_enable c w = do { w \<leftarrow> flash_wait c w; cmd_wait c (WRITE_REG c SPI_CMD_REG SPI_FLASH_WREN w) }"

section \<open>A session\<close>

definition handle_flash_begin ::
    "'w chip \<Rightarrow> u32 \<Rightarrow> u32 \<Rightarrow> 'i flashing \<Rightarrow> 'w \<Rightarrow> esp_command_error \<times> 'i flashing \<times> 'w" where
  "handle_flash_begin c total_size offset fs w =
     (let fs = fs\<lparr>in_flash_mode := True, next_write := offset, next_erase_sector := int (unat offset div FLASH_SECTOR_SIZE),
            remaining := total_size,
            remaining_erase_sector := int (unat (offset mod of_nat FLASH_SECTOR_SIZE + total_size + of_nat FLASH_SECTOR_SIZE - 1)
              div FLASH_SECTOR_SIZE),
            last_error := ESP_OK\<rparr>;
          (r, w) = SPIUnlock c w
      in if r \<noteq> 0 then (ESP_FAILED_SPI_UNLOCK, fs, w) else (ESP_OK, fs, w))"

definition handle_flash_deflated_begin ::
    "'w chip \<Rightarrow> 'i tinfl \<Rightarrow> u32 \<Rightarrow> u32 \<Rightarrow> u32 \<Rightarrow> 'i flashing \<Rightarrow> 'w \<Rightarrow> esp_command_error \<times> 'i flashing \<times> 'w" where
  "handle_flash_deflated_begin c t uncompressed_size compressed_size offset fs w =
     (let (err, fs, w) = handle_flash_begin c uncompressed_size offset fs w
      in (err, fs\<lparr>inflator := tinfl_init t (inflator fs), remaining_compressed := compressed_size\<rparr>, w))"

definition start_next_erase :: "'w chip \<Rightarrow> 'i flashing \<Rightarrow> 'w \<Rightarrow> ('i flashing \<times> 'w) option" where
  "start_next_erase c fs w =
     (if remaining_erase_sector fs = 0 then Some (fs, w)
      else do {
        (ready, w) \<leftarrow> spiflash_is_ready c w;
        if \<not> ready then Some (fs, w)
        else do {
          w \<leftarrow> spi_write_enable c w;
          let (command, sectors_to_erase) =
            (if SECTORS_PER_BLOCK \<le> remaining_erase_sector fs \<and> next_erase_sector fs mod SECTORS_PER_BLOCK = 0
             then (SPI_FLASH_BE, SECTORS_PER_BLOCK) else (SPI_FLASH_SE, 1));
          let addr = (of_int (next_erase_sector fs * int FLASH_SECTOR_SIZE) :: u32);
          w \<leftarrow> spi_wait_ready c w;
          let w = WRITE_REG c SPI_ADDR_REG (addr AND 0xffffff) w;
          let w = WRITE_REG c SPI_CMD_REG command w;
          w \<leftarrow> cmd_wait c w;
          Some (fs\<lparr>remaining_erase_sector := remaining_erase_sector fs - sectors_to_erase,
                  next_erase_sector := next_erase_sector fs + sectors_to_erase\<rparr>, w) } })"

text \<open>\<open>while(fs.remaining_erase_sector > 0 && fs.next_erase_sector <= last_sector) start_next_erase();\<close>\<close>

partial_function (option) erase_ahead :: "'w chip \<Rightarrow> int \<Rightarrow> 'i flashing \<Rightarrow> 'w \<Rightarrow> ('i flashing \<times> 'w) option" where
  "erase_ahead c last_sector fs w =
     (if 0 < remaining_erase_sector fs \<and> next_erase_sector fs \<le> last_sector
      then do { (fs, w) \<leftarrow> start_next_erase c fs w; erase_ahead c last_sector fs w }
      else Some (fs, w))"

definition handle_flash_data :: "'w chip \<Rightarrow> u8 list \<Rightarrow> u32 \<Rightarrow> 'i flashing \<Rightarrow> 'w \<Rightarrow> ('i flashing \<times> 'w) option" where
  "handle_flash_data c data_buf len fs w =
     (let len = (if remaining fs < len then remaining fs else len) in
      if len = 0 then Some (fs, w)
      else do {
        let last_sector = int (unat (next_write fs + len) div FLASH_SECTOR_SIZE);
        (fs, w) \<leftarrow> erase_ahead c last_sector fs w;
        w \<leftarrow> flash_wait c w;
        if length data_buf < unat len then None
        else do {
          let (r, w) = SPIWrite (rom c) (next_write fs) (take (unat len) data_buf) w;
          let fs = (if r \<noteq> 0 then fs\<lparr>last_error := ESP_FAILED_SPI_OP\<rparr> else fs);
          Some (fs\<lparr>next_write := next_write fs + len, remaining := remaining fs - len\<rparr>, w) } })"

partial_function (option) inflate_loop ::
    "'w chip \<Rightarrow> 'i tinfl \<Rightarrow> u8 list \<Rightarrow> u32 \<Rightarrow> int \<Rightarrow> 'i flashing \<Rightarrow> 'w \<Rightarrow> (int \<times> 'i flashing \<times> 'w) option" where
  "inflate_loop c t data_buf len status fs w =
     (if 0 < len \<and> 0 < remaining fs \<and> TINFL_STATUS_DONE < status then do {
        let out_bytes = OUT_BUF_SIZE - next_out fs;
        let flags = (if len < remaining_compressed fs then TINFL_FLAG_PARSE_ZLIB_HEADER OR TINFL_FLAG_HAS_MORE_INPUT
                     else TINFL_FLAG_PARSE_ZLIB_HEADER);
        (fs, w) \<leftarrow> start_next_erase c fs w;
        if length data_buf < unat len then None
        else do {
          let (status, in_bytes, out_bytes, buf, infl) =
            tinfl_decompress t (inflator fs) (take (unat len) data_buf) (out_buf fs) (next_out fs) out_bytes flags;
          let fs = fs\<lparr>out_buf := buf, inflator := infl, remaining_compressed := remaining_compressed fs - of_nat in_bytes\<rparr>;
          let len = len - of_nat in_bytes;
          let data_buf = drop in_bytes data_buf;
          let fs = fs\<lparr>next_out := next_out fs + out_bytes\<rparr>;
          let bytes_in_out_buf = next_out fs;
          (fs, w) \<leftarrow>
            (if status \<le> TINFL_STATUS_DONE \<or> bytes_in_out_buf = OUT_BUF_SIZE then do {
               (fs, w) \<leftarrow> handle_flash_data c (out_buf fs) (of_nat bytes_in_out_buf) fs w;
               Some (fs\<lparr>next_out := 0\<rparr>, w) }
             else Some (fs, w));
          inflate_loop c t data_buf len status fs w } }
      else Some (status, fs, w))"

definition handle_flash_deflated_data ::
    "'w chip \<Rightarrow> 'i tinfl \<Rightarrow> u8 list \<Rightarrow> u32 \<Rightarrow> 'i flashing \<Rightarrow> 'w \<Rightarrow> ('i flashing \<times> 'w) option" where
  "handle_flash_deflated_data c t data_buf len fs w = do {
     (status, fs, w) \<leftarrow> inflate_loop c t data_buf len TINFL_STATUS_NEEDS_MORE_INPUT fs w;
     let fs = (if status < TINFL_STATUS_DONE then fs\<lparr>last_error := ESP_INFLATE_ERROR\<rparr> else fs);
     let fs = (if status = TINFL_STATUS_DONE \<and> 0 < remaining fs then fs\<lparr>last_error := ESP_NOT_ENOUGH_DATA\<rparr> else fs);
     let fs = (if status \<noteq> TINFL_STATUS_DONE \<and> remaining fs = 0 then fs\<lparr>last_error := ESP_TOO_MUCH_DATA\<rparr> else fs);
     Some (fs, w) }"

definition handle_flash_end :: "'i flashing \<Rightarrow> esp_command_error \<times> 'i flashing" where
  "handle_flash_end fs =
     (if \<not> in_flash_mode fs then (ESP_NOT_IN_FLASH_MODE, fs)
      else if 0 < remaining fs then (ESP_NOT_ENOUGH_DATA, fs)
      else (last_error fs, fs\<lparr>in_flash_mode := False\<rparr>))"

end
