(* ===== verification/Stub_Controller.thy ===== *)
theory Stub_Controller
  imports Stub_Flash
begin

text \<open>
  The SPI controller and the flash behind it, as the flasher stub relies on them: the predicate \<open>spi_controller\<close> states what the
  documentation of the controller's command register and of SPI NOR flash promises.  The loops that poll end, and the erase
  started by start_next_erase is that of one sector or one block.
\<close>

section \<open>The contract\<close>

text \<open>What can be said of a world: the bytes of the flash; a bound for the reads that still find the controller busy; the number of
  status reads that will find the flash busy; whether it accepts a write; the address and the status register.\<close>

record 'w spi_view =
  cell :: "'w \<Rightarrow> nat \<Rightarrow> u8"
  polls :: "'w \<Rightarrow> nat"
  wip :: "'w \<Rightarrow> nat"
  wel :: "'w \<Rightarrow> bool"
  addr_reg :: "'w \<Rightarrow> u32"
  status_reg :: "'w \<Rightarrow> u32"

definition quiet :: "'w spi_view \<Rightarrow> 'w \<Rightarrow> 'w \<Rightarrow> bool" where
  "quiet v w w' \<longleftrightarrow> cell v w' = cell v w \<and> wip v w' = wip v w \<and> wel v w' = wel v w \<and> addr_reg v w' = addr_reg v w"

definition spi_controller :: "'w chip \<Rightarrow> nat \<Rightarrow> 'w spi_view \<Rightarrow> bool" where
  "spi_controller c n v \<longleftrightarrow> nor_flash (rom c) n (cell v) \<and> n \<le> 2 ^ 24 \<and>
     (\<forall>w. fst (SPIUnlock c w) = 0 \<and> cell v (snd (SPIUnlock c w)) = cell v w) \<and>
     (\<forall>r w. r = SPI_EXT2_REG \<or> r = SPI_CMD_REG \<longrightarrow>
        quiet v w (snd (READ_REG c r w)) \<and> status_reg v (snd (READ_REG c r w)) = status_reg v w \<and>
        (fst (READ_REG c r w) \<noteq> 0 \<longrightarrow> polls v (snd (READ_REG c r w)) < polls v w)) \<and>
     (\<forall>w. quiet v w (snd (READ_REG c SPI_RD_STATUS_REG w)) \<and> fst (READ_REG c SPI_RD_STATUS_REG w) = status_reg v w) \<and>
     (\<forall>x w. quiet v w (WRITE_REG c SPI_RD_STATUS_REG x w)) \<and>
     (\<forall>w. let w' = WRITE_REG c SPI_CMD_REG SPI_FLASH_RDSR w in
        cell v w' = cell v w \<and> wip v w' = wip v w - 1 \<and> wel v w' = wel v w \<and> (status_reg v w' AND STATUS_WIP_BIT = 0 \<longleftrightarrow> wip v w = 0)) \<and>
     (\<forall>w. let w' = WRITE_REG c SPI_CMD_REG SPI_FLASH_WREN w in
        wip v w = 0 \<longrightarrow> cell v w' = cell v w \<and> wip v w' = 0 \<and> wel v w') \<and>
     (\<forall>x w. let w' = WRITE_REG c SPI_ADDR_REG x w in
        cell v w' = cell v w \<and> wip v w' = wip v w \<and> wel v w' = wel v w \<and> addr_reg v w' = x) \<and>
     (\<forall>s w. wip v w = 0 \<and> wel v w \<and> unat (addr_reg v w) = 4096 * s \<and> 4096 * (s + 1) \<le> n \<longrightarrow>
        cell v (WRITE_REG c SPI_CMD_REG SPI_FLASH_SE w) = (\<lambda>a. if a div 4096 = s then 0xff else cell v w a)) \<and>
     (\<forall>b w. wip v w = 0 \<and> wel v w \<and> unat (addr_reg v w) = 65536 * b \<and> 65536 * (b + 1) \<le> n \<longrightarrow>
        cell v (WRITE_REG c SPI_CMD_REG SPI_FLASH_BE w) = (\<lambda>a. if a div 65536 = b then 0xff else cell v w a))"

text \<open>A controller that is its state, for examples: an erase keeps the flash busy for three status reads.\<close>

record sim =
  sim_cell :: "nat \<Rightarrow> u8"
  sim_wip :: nat
  sim_wel :: bool
  sim_addr :: u32
  sim_status :: u32

definition sim_write :: "nat \<Rightarrow> u32 \<Rightarrow> u32 \<Rightarrow> sim \<Rightarrow> sim" where
  "sim_write n r x w =
     (if r = SPI_ADDR_REG then w\<lparr>sim_addr := x\<rparr>
      else if r = SPI_RD_STATUS_REG then w\<lparr>sim_status := x\<rparr>
      else if r \<noteq> SPI_CMD_REG then w
      else if x = SPI_FLASH_RDSR then w\<lparr>sim_status := (if sim_wip w = 0 then 0 else 1), sim_wip := sim_wip w - 1\<rparr>
      else if sim_wip w \<noteq> 0 then w
      else if x = SPI_FLASH_WREN then w\<lparr>sim_wel := True\<rparr>
      else if \<not> sim_wel w then w
      else if x = SPI_FLASH_SE then
        w\<lparr>sim_cell := snd (SPIEraseSector (ideal_flash n) (unat (sim_addr w) div 4096) (sim_cell w)), sim_wip := 3, sim_wel := False\<rparr>
      else if x = SPI_FLASH_BE then
        w\<lparr>sim_cell := snd (SPIEraseBlock (ideal_flash n) (unat (sim_addr w) div 65536) (sim_cell w)), sim_wip := 3, sim_wel := False\<rparr>
      else w)"

definition sim_rom :: "nat \<Rightarrow> sim spi" where
  "sim_rom n =
     \<lparr>SPIEraseSector = (\<lambda>s w. case SPIEraseSector (ideal_flash n) s (sim_cell w) of (r, m) \<Rightarrow> (r, w\<lparr>sim_cell := m\<rparr>)),
      SPIEraseBlock = (\<lambda>b w. case SPIEraseBlock (ideal_flash n) b (sim_cell w) of (r, m) \<Rightarrow> (r, w\<lparr>sim_cell := m\<rparr>)),
      SPIRead = (\<lambda>a old w. case SPIRead (ideal_flash n) a old (sim_cell w) of (r, bs, m) \<Rightarrow> (r, bs, w\<lparr>sim_cell := m\<rparr>)),
      SPIWrite = (\<lambda>a bs w. case SPIWrite (ideal_flash n) a bs (sim_cell w) of (r, m) \<Rightarrow> (r, w\<lparr>sim_cell := m\<rparr>))\<rparr>"

definition sim_chip :: "nat \<Rightarrow> sim chip" where
  "sim_chip n =
     \<lparr>rom = sim_rom n, READ_REG = (\<lambda>r w. (if r = SPI_RD_STATUS_REG then sim_status w else 0, w)),
      WRITE_REG = sim_write n, SPIUnlock = (\<lambda>w. (0, w)), SPIEraseChip = (\<lambda>w. (0, w\<lparr>sim_cell := (\<lambda>a. 0xff)\<rparr>)),
      SPIParamCfg = (\<lambda>ps w. (0, w)), SelectSpiFunction = (\<lambda>w. w), spi_flash_attach = (\<lambda>w. w), uart_div_modify = (\<lambda>n d w. w)\<rparr>"

definition sim_view :: "sim spi_view" where
  "sim_view = \<lparr>cell = sim_cell, polls = (\<lambda>w. 0), wip = sim_wip, wel = sim_wel, addr_reg = sim_addr, status_reg = sim_status\<rparr>"

text \<open>Its state with a flash of zeros, and the stub's variables before the first session.\<close>

definition blank_sim :: sim where
  "blank_sim = \<lparr>sim_cell = (\<lambda>a. 0), sim_wip = 0, sim_wel = False, sim_addr = 0, sim_status = 0\<rparr>"

definition idle_flashing :: "(nat \<times> nat) flashing" where
  "idle_flashing = \<lparr>in_flash_mode = False, next_write = 0, next_erase_sector = 0, remaining = 0, remaining_erase_sector = 0, last_error = ESP_OK,
     inflator = (0, 0), remaining_compressed = 0, out_buf = replicate OUT_BUF_SIZE 0, next_out = 0\<rparr>"

lemmas spi_regs = SPI_CMD_REG_def SPI_ADDR_REG_def SPI_RD_STATUS_REG_def SPI_EXT2_REG_def
lemmas spi_cmds = SPI_FLASH_RDSR_def SPI_FLASH_SE_def SPI_FLASH_BE_def SPI_FLASH_WREN_def STATUS_WIP_BIT_def SPI_ST_def

lemma sim_nor: "n \<le> 2 ^ 31 \<Longrightarrow> nor_flash (sim_rom n) n sim_cell"
  by (auto simp: nor_flash_def sim_rom_def ideal_flash_def unat_of_nat take_bit_eq_mod)

lemma sim_controller:
  assumes "n \<le> 2 ^ 24"
  shows "spi_controller (sim_chip n) n sim_view"
proof -
  have "nor_flash (sim_rom n) n sim_cell" using assms by (intro sim_nor) simp
  moreover have "unat a = 4096 * s \<Longrightarrow> 4096 * (s + 1) \<le> n \<Longrightarrow> unat a div 4096 = s" for a :: u32 and s by simp
  moreover have "unat a = 65536 * b \<Longrightarrow> 65536 * (b + 1) \<le> n \<Longrightarrow> unat a div 65536 = b" for a :: u32 and b by simp
  ultimately show ?thesis using assms
    by (auto simp: spi_controller_def sim_chip_def sim_view_def quiet_def sim_write_def spi_regs spi_cmds Let_def ideal_flash_def)
qed

section \<open>Polling\<close>

lemmas controller_nor = spi_controller_def [THEN iffD1, THEN conjunct1]

lemma read_poll:
  assumes "spi_controller c n v" and "r = SPI_EXT2_REG \<or> r = SPI_CMD_REG" and "READ_REG c r w = (x, w')"
  shows "quiet v w w'" and "status_reg v w' = status_reg v w" and "x \<noteq> 0 \<Longrightarrow> polls v w' < polls v w"
  using assms unfolding spi_controller_def by (metis fst_conv snd_conv)+

lemma quiet_trans: "quiet v w w' \<Longrightarrow> quiet v w' w'' \<Longrightarrow> quiet v w w''"
  by (simp add: quiet_def)

lemma spi_wait_ready_ends:
  assumes c: "spi_controller c n v"
  shows "\<exists>w'. spi_wait_ready c w = Some w' \<and> quiet v w w' \<and> status_reg v w' = status_reg v w"
proof (induction "polls v w" arbitrary: w rule: less_induct)
  case less
  obtain x u where r: "READ_REG c SPI_EXT2_REG w = (x, u)" by fastforce
  note p = read_poll [OF c _ r, simplified]
  show ?case
  proof (cases "x AND SPI_ST = 0")
    case True
    then show ?thesis using p r by (subst spi_wait_ready.simps) simp
  next
    case False
    then have "x \<noteq> 0" by auto
    then obtain w' where "spi_wait_ready c u = Some w'" "quiet v u w'" "status_reg v w' = status_reg v u" using less p(3) by blast
    then show ?thesis using p False r quiet_trans by (subst spi_wait_ready.simps) fastforce
  qed
qed

lemma cmd_wait_ends:
  assumes c: "spi_controller c n v"
  shows "\<exists>w'. cmd_wait c w = Some w' \<and> quiet v w w' \<and> status_reg v w' = status_reg v w"
proof (induction "polls v w" arbitrary: w rule: less_induct)
  case less
  obtain x u where r: "READ_REG c SPI_CMD_REG w = (x, u)" by fastforce
  note p = read_poll [OF c _ r, simplified]
  show ?case
  proof (cases "x = 0")
    case True
    then show ?thesis using p r by (subst cmd_wait.simps) simp
  next
    case False
    then obtain w' where "cmd_wait c u = Some w'" "quiet v u w'" "status_reg v w' = status_reg v u" using less p(3) by blast
    then show ?thesis using p False r quiet_trans by (subst cmd_wait.simps) fastforce
  qed
qed

lemma spiflash_is_ready_ends:
  assumes c: "spi_controller c n v"
  shows "\<exists>w'. spiflash_is_ready c w = Some (wip v w = 0, w') \<and> cell v w' = cell v w \<and> wip v w' = wip v w - 1 \<and> wel v w' = wel v w"
proof -
  obtain w1 where w1: "spi_wait_ready c w = Some w1" "quiet v w w1" using spi_wait_ready_ends [OF c] by blast
  define w2 where "w2 = WRITE_REG c SPI_RD_STATUS_REG 0 w1"
  have q2: "quiet v w1 w2" unfolding w2_def using c by (simp add: spi_controller_def)
  define w3 where "w3 = WRITE_REG c SPI_CMD_REG SPI_FLASH_RDSR w2"
  have w3: "cell v w3 = cell v w2" "wip v w3 = wip v w2 - 1" "wel v w3 = wel v w2"
    "status_reg v w3 AND STATUS_WIP_BIT = 0 \<longleftrightarrow> wip v w2 = 0"
    unfolding w3_def using c by (simp_all add: spi_controller_def Let_def)
  obtain w4 where w4: "cmd_wait c w3 = Some w4" "quiet v w3 w4" "status_reg v w4 = status_reg v w3" using cmd_wait_ends [OF c] by blast
  obtain x w5 where r: "READ_REG c SPI_RD_STATUS_REG w4 = (x, w5)" by fastforce
  then have "quiet v w4 w5" "x = status_reg v w4" using c unfolding spi_controller_def by (metis fst_conv snd_conv)+
  moreover have "spiflash_is_ready c w = Some (x AND STATUS_WIP_BIT = 0, w5)"
    using w1(1) w4(1) r unfolding spiflash_is_ready_def w2_def w3_def by simp
  ultimately show ?thesis using w1(2) q2 w3 w4(2,3) by (simp add: quiet_def)
qed

lemma flash_wait_ends:
  assumes c: "spi_controller c n v"
  shows "\<exists>w'. flash_wait c w = Some w' \<and> cell v w' = cell v w \<and> wip v w' = 0 \<and> wel v w' = wel v w"
proof (induction "wip v w" arbitrary: w)
  case 0
  obtain u where "spiflash_is_ready c w = Some (wip v w = 0, u)" "cell v u = cell v w" "wip v u = wip v w - 1" "wel v u = wel v w"
    using spiflash_is_ready_ends [OF c] by blast
  then show ?case using 0 by (subst flash_wait.simps) simp
next
  case (Suc k)
  obtain u where u: "spiflash_is_ready c w = Some (wip v w = 0, u)" "cell v u = cell v w" "wip v u = wip v w - 1" "wel v u = wel v w"
    using spiflash_is_ready_ends [OF c] by blast
  have "k = wip v u" using u(3) Suc.hyps(2) by simp
  from Suc.hyps(1) [OF this] obtain w' where "flash_wait c u = Some w'" "cell v w' = cell v u" "wip v w' = 0" "wel v w' = wel v u"
    by blast
  then show ?case using u Suc.hyps(2) by (subst flash_wait.simps) simp
qed

lemma spi_write_enable_ends:
  assumes c: "spi_controller c n v"
  shows "\<exists>w'. spi_write_enable c w = Some w' \<and> cell v w' = cell v w \<and> wip v w' = 0 \<and> wel v w'"
proof -
  obtain w1 where w1: "flash_wait c w = Some w1" "cell v w1 = cell v w" "wip v w1 = 0" using flash_wait_ends [OF c] by blast
  define w2 where "w2 = WRITE_REG c SPI_CMD_REG SPI_FLASH_WREN w1"
  have "cell v w2 = cell v w1" "wip v w2 = 0" "wel v w2" unfolding w2_def using c w1(3) by (simp_all add: spi_controller_def Let_def)
  moreover obtain w3 where "cmd_wait c w2 = Some w3" "quiet v w2 w3" using cmd_wait_ends [OF c] by blast
  ultimately show ?thesis using w1 unfolding spi_write_enable_def w2_def quiet_def by simp
qed

section \<open>Erasing one sector or one block\<close>

lemma unat_small: "x < 4294967296 \<Longrightarrow> unat (of_nat x :: u32) = x"
  by (simp add: unat_of_nat take_bit_eq_mod)

lemma erase_command:
  assumes c: "spi_controller c n v" and e: "wip v w = 0" "wel v w" "addr_reg v w = of_nat (4096 * e)" "4096 * (e + m) \<le> n"
    and m: "m = 1 \<and> command = SPI_FLASH_SE \<or> m = 16 \<and> e mod 16 = 0 \<and> command = SPI_FLASH_BE"
  shows "cell v (WRITE_REG c SPI_CMD_REG command w) = (\<lambda>a. if e \<le> a div 4096 \<and> a div 4096 < e + m then 0xff else cell v w a)"
proof -
  have n: "n \<le> 16777216" using c by (simp add: spi_controller_def)
  have u: "unat (addr_reg v w) = 4096 * e" unfolding e(3) by (rule unat_small) (use n e(4) m in auto)
  from m show ?thesis
  proof
    assume m: "m = 1 \<and> command = SPI_FLASH_SE"
    then have "cell v (WRITE_REG c SPI_CMD_REG command w) = (\<lambda>a. if a div 4096 = e then 0xff else cell v w a)"
      using c e u unfolding spi_controller_def by blast
    moreover have "a div 4096 = e \<longleftrightarrow> e \<le> a div 4096 \<and> a div 4096 < e + m" for a using m by linarith
    ultimately show ?thesis by simp
  next
    assume m: "m = 16 \<and> e mod 16 = 0 \<and> command = SPI_FLASH_BE"
    then obtain b where b: "e = 16 * b" by (auto elim: dvdE)
    then have "unat (addr_reg v w) = 65536 * b" "65536 * (b + 1) \<le> n" using u e(4) m by simp_all
    then have "cell v (WRITE_REG c SPI_CMD_REG command w) = (\<lambda>a. if a div 65536 = b then 0xff else cell v w a)"
      using c e m unfolding spi_controller_def by blast
    moreover have "a div 65536 = b \<longleftrightarrow> e \<le> a div 4096 \<and> a div 4096 < e + m" for a
    proof -
      have "a div 65536 = a div 4096 div 16" by (simp add: div_mult2_eq [of a 4096 16, simplified])
      moreover have "a div 4096 div 16 = b \<longleftrightarrow> 16 * b \<le> a div 4096 \<and> a div 4096 < 16 * b + 16" by linarith
      ultimately show ?thesis using b m by simp
    qed
    ultimately show ?thesis by simp
  qed
qed

text \<open>The sectors that start_next_erase takes next: 16 of them or one.\<close>

definition next_erase :: "nat \<Rightarrow> nat \<Rightarrow> nat" where
  "next_erase e m = (if 16 \<le> m \<and> e mod 16 = 0 then 16 else 1)"

lemma start_next_erase_step:
  assumes c: "spi_controller c n v" and e: "next_erase_sector fs = int e" "remaining_erase_sector fs = int m" "4096 * (e + m) \<le> n"
  shows "\<exists>fs' w'. start_next_erase c fs w = Some (fs', w') \<and>
    (if m = 0 then fs' = fs \<and> w' = w
     else if wip v w \<noteq> 0 then fs' = fs \<and> cell v w' = cell v w \<and> wip v w' < wip v w
     else let k = next_erase e m in
       fs' = fs\<lparr>remaining_erase_sector := int (m - k), next_erase_sector := int (e + k)\<rparr> \<and>
       cell v w' = (\<lambda>a. if e \<le> a div 4096 \<and> a div 4096 < e + k then 0xff else cell v w a))"
proof (cases "m = 0")
  case True
  then show ?thesis using e by (simp add: start_next_erase_def)
next
  case False
  obtain w1 where w1: "spiflash_is_ready c w = Some (wip v w = 0, w1)" "cell v w1 = cell v w" "wip v w1 = wip v w - 1"
    using spiflash_is_ready_ends [OF c] by blast
  show ?thesis
  proof (cases "wip v w = 0")
    case idle: False
    then show ?thesis using w1 e False by (simp add: start_next_erase_def)
  next
    case idle: True
    let ?k = "next_erase e m"
    let ?cmd = "if ?k = 16 then SPI_FLASH_BE else SPI_FLASH_SE"
    have n: "n \<le> 16777216" using c by (simp add: spi_controller_def)
    have k: "?k \<le> m" "?k = 1 \<and> ?cmd = SPI_FLASH_SE \<or> ?k = 16 \<and> e mod 16 = 0 \<and> ?cmd = SPI_FLASH_BE"
      using False by (simp_all add: next_erase_def)
    have "int e mod 16 = int (e mod 16)" by (simp add: of_nat_mod)
    then have cmd: "(if SECTORS_PER_BLOCK \<le> remaining_erase_sector fs \<and> next_erase_sector fs mod SECTORS_PER_BLOCK = 0
        then (SPI_FLASH_BE, SECTORS_PER_BLOCK) else (SPI_FLASH_SE, 1)) = (?cmd, int ?k)"
      using e by (simp add: SECTORS_PER_BLOCK_def FLASH_BLOCK_SIZE_def FLASH_SECTOR_SIZE_def next_erase_def)
    obtain w2 where w2: "spi_write_enable c w1 = Some w2" "cell v w2 = cell v w1" "wip v w2 = 0" "wel v w2"
      using spi_write_enable_ends [OF c] by blast
    obtain w3 where w3: "spi_wait_ready c w2 = Some w3" "quiet v w2 w3" using spi_wait_ready_ends [OF c] by blast
    define x :: u32 where "x = of_int (int e * 4096) AND 0xffffff"
    define w4 where "w4 = WRITE_REG c SPI_ADDR_REG x w3"
    have w4: "cell v w4 = cell v w3" "wip v w4 = wip v w3" "wel v w4 = wel v w3" "addr_reg v w4 = x"
      unfolding w4_def using c by (simp_all add: spi_controller_def Let_def)
    have "4096 * e < 16777216" using e(3) n False by simp
    then have "unat (of_nat (4096 * e) :: u32) = 4096 * e" by (intro unat_small) simp
    moreover have "unat x = unat (of_nat (4096 * e) :: u32) mod 16777216"
      using unat_and_mask [of "of_nat (4096 * e) :: u32" 24] by (simp add: x_def mask_eq_exp_minus_1 mult.commute)
    ultimately have "unat x = unat (of_nat (4096 * e) :: u32)" using \<open>4096 * e < 16777216\<close> by simp
    then have x: "x = of_nat (4096 * e)" by (rule word_unat_eq_iff [THEN iffD2])
    define w5 where "w5 = WRITE_REG c SPI_CMD_REG ?cmd w4"
    have "4096 * (e + ?k) \<le> 4096 * (e + m)" using k(1) by simp
    then have "4096 * (e + ?k) \<le> n" using e(3) by (rule order_trans)
    then have "cell v w5 = (\<lambda>a. if e \<le> a div 4096 \<and> a div 4096 < e + ?k then 0xff else cell v w4 a)"
      unfolding w5_def using w4 w3(2) w2 x by (intro erase_command [OF c _ _ _ _ k(2)]) (simp_all add: quiet_def)
    moreover obtain w6 where w6: "cmd_wait c w5 = Some w6" "quiet v w5 w6" using cmd_wait_ends [OF c] by blast
    ultimately have m: "cell v w6 = (\<lambda>a. if e \<le> a div 4096 \<and> a div 4096 < e + ?k then 0xff else cell v w a)"
      using w4 w3(2) w2(2) w1(2) by (simp add: quiet_def fun_eq_iff)
    have "start_next_erase c fs w = Some (fs\<lparr>remaining_erase_sector := int m - int ?k, next_erase_sector := int e + int ?k\<rparr>, w6)"
      using w1(1) w2(1) w3(1) w6(1) idle False e(1,2)
      unfolding start_next_erase_def cmd by (simp add: w5_def w4_def x_def FLASH_SECTOR_SIZE_def mult.commute)
    then show ?thesis using m k(1) False idle by (simp add: Let_def of_nat_diff)
  qed
qed

end
