(* ===== verification/Stub_Upload.thy ===== *)
theory Stub_Upload
  imports Stub_Controller
begin

text \<open>
  An upload to flash: handle_flash_begin, any number of data blocks, handle_flash_end.  \<open>session\<close> is the state between two calls.
\<close>

section \<open>The state of a session\<close>

text \<open>The end of the sectors that a session erases, and the flash when the first \<open>k\<close> bytes of \<open>data\<close> have been written and the sectors
  before \<open>e\<close> erased.\<close>

definition sectors_end :: "nat \<Rightarrow> nat \<Rightarrow> nat" where
  "sectors_end off len = off div 4096 + (off mod 4096 + len + 4095) div 4096"

definition flash_image :: "nat \<Rightarrow> u8 list \<Rightarrow> nat \<Rightarrow> nat \<Rightarrow> (nat \<Rightarrow> u8) \<Rightarrow> nat \<Rightarrow> u8" where
  "flash_image off data k e m a =
     (if off \<le> a \<and> a < off + k then data ! (a - off)
      else if off div 4096 \<le> a div 4096 \<and> a div 4096 < e then 0xff else m a)"

definition session ::
    "'w spi_view \<Rightarrow> nat \<Rightarrow> u8 list \<Rightarrow> (nat \<Rightarrow> u8) \<Rightarrow> nat \<Rightarrow> nat \<Rightarrow> 'i flashing \<Rightarrow> 'w \<Rightarrow> bool" where
  "session v off data m k e fs w \<longleftrightarrow>
     off div 4096 \<le> e \<and> e \<le> sectors_end off (length data) \<and> k \<le> length data \<and> (k = 0 \<or> off + k \<le> 4096 * e) \<and>
     next_erase_sector fs = int e \<and> remaining_erase_sector fs = int (sectors_end off (length data) - e) \<and>
     next_write fs = of_nat (off + k) \<and> remaining fs = of_nat (length data - k) \<and>
     cell v w = flash_image off data k e m"

text \<open>What the steps of a session leave alone.\<close>

definition same_session :: "'i flashing \<Rightarrow> 'i flashing \<Rightarrow> bool" where
  "same_session fs fs' \<longleftrightarrow> in_flash_mode fs' = in_flash_mode fs \<and> last_error fs' = last_error fs \<and> inflator fs' = inflator fs \<and>
     remaining_compressed fs' = remaining_compressed fs \<and> out_buf fs' = out_buf fs \<and> next_out fs' = next_out fs"

lemma same_session_trans: "same_session a b \<Longrightarrow> same_session b c \<Longrightarrow> same_session a c"
  by (simp add: same_session_def)

lemma session_start:
  assumes c: "spi_controller c n v" and n: "4096 * sectors_end off (length data) \<le> n"
  shows "\<exists>w'. handle_flash_begin c (of_nat (length data)) (of_nat off) fs w = (ESP_OK,
      fs\<lparr>in_flash_mode := True, next_write := of_nat off, next_erase_sector := int (off div 4096), remaining := of_nat (length data),
         remaining_erase_sector := int (sectors_end off (length data) - off div 4096), last_error := ESP_OK\<rparr>, w') \<and> cell v w' = cell v w"
proof -
  have "n \<le> 16777216" using c by (simp add: spi_controller_def)
  then have l: "off < 16777216 + 4096" "length data < 16777216 + 4096" using n by (simp_all add: sectors_end_def)
  then have o: "unat (of_nat off :: u32) = off" by (intro unat_small) simp
  have "unat (of_nat off mod of_nat FLASH_SECTOR_SIZE + of_nat (length data) + of_nat FLASH_SECTOR_SIZE - 1 :: u32) =
      unat (of_nat (off mod 4096 + length data + 4095) :: u32)"
  proof -
    have "of_nat off mod of_nat FLASH_SECTOR_SIZE = (of_nat (off mod 4096) :: u32)"
      using o by (simp add: word_unat_eq_iff unat_mod FLASH_SECTOR_SIZE_def unat_small)
    then show ?thesis by (simp add: FLASH_SECTOR_SIZE_def algebra_simps)
  qed
  also have "\<dots> = off mod 4096 + length data + 4095" using l by (intro unat_small) simp
  finally have r: "unat (of_nat off mod of_nat FLASH_SECTOR_SIZE + of_nat (length data) + of_nat FLASH_SECTOR_SIZE - 1 :: u32) div FLASH_SECTOR_SIZE
      = sectors_end off (length data) - off div 4096" by (simp add: sectors_end_def FLASH_SECTOR_SIZE_def)
  obtain r' w' where u: "SPIUnlock c w = (r', w')" by fastforce
  then have "r' = 0" "cell v w' = cell v w" using c unfolding spi_controller_def by (metis fst_conv snd_conv)+
  then show ?thesis using u unfolding handle_flash_begin_def r by (simp add: o FLASH_SECTOR_SIZE_def)
qed

lemma session_begin:
  assumes "cell v w = m" and "next_write fs = of_nat off" and "next_erase_sector fs = int (off div 4096)"
    and "remaining fs = of_nat (length data)" and "remaining_erase_sector fs = int (sectors_end off (length data) - off div 4096)"
  shows "session v off data m 0 (off div 4096) fs w"
  using assms by (auto simp: session_def sectors_end_def flash_image_def fun_eq_iff)

section \<open>Erasing ahead\<close>

lemma session_erase:
  assumes c: "spi_controller c n v" and n: "4096 * sectors_end off (length data) \<le> n" and s: "session v off data m k e fs w"
  shows "\<exists>fs' w' e'. start_next_erase c fs w = Some (fs', w') \<and> session v off data m k e' fs' w' \<and> same_session fs fs' \<and>
    (e < e' \<or> e' = e \<and> (e < sectors_end off (length data) \<longrightarrow> wip v w' < wip v w))"
proof -
  let ?E = "sectors_end off (length data)"
  have e: "next_erase_sector fs = int e" "remaining_erase_sector fs = int (?E - e)" "e \<le> ?E" using s by (simp_all add: session_def)
  then have "4096 * (e + (?E - e)) \<le> n" using n by simp
  from start_next_erase_step [OF c e(1,2) this, of w] obtain fs' w' where p: "start_next_erase c fs w = Some (fs', w')"
    "if ?E - e = 0 then fs' = fs \<and> w' = w
     else if wip v w \<noteq> 0 then fs' = fs \<and> cell v w' = cell v w \<and> wip v w' < wip v w
     else let d = next_erase e (?E - e) in
       fs' = fs\<lparr>remaining_erase_sector := int (?E - e - d), next_erase_sector := int (e + d)\<rparr> \<and>
       cell v w' = (\<lambda>a. if e \<le> a div 4096 \<and> a div 4096 < e + d then 0xff else cell v w a)" by blast
  consider "?E - e = 0" | "?E - e \<noteq> 0" "wip v w \<noteq> 0" | "?E - e \<noteq> 0" "wip v w = 0" by blast
  then show ?thesis
  proof cases
    case 1
    then show ?thesis using p s e(3) by (auto simp: same_session_def)
  next
    case 2
    then have "session v off data m k e fs' w'" using p(2) s by (simp add: session_def)
    then show ?thesis using p 2 by (auto simp: same_session_def)
  next
    case 3
    let ?d = "next_erase e (?E - e)"
    have d: "0 < ?d" "?d \<le> ?E - e" using 3 by (auto simp: next_erase_def)
    have fs: "fs' = fs\<lparr>remaining_erase_sector := int (?E - (e + ?d)), next_erase_sector := int (e + ?d)\<rparr>"
      and w: "cell v w' = (\<lambda>a. if e \<le> a div 4096 \<and> a div 4096 < e + ?d then 0xff else cell v w a)"
      using p(2) 3 by (simp_all add: Let_def)
    have "cell v w' = flash_image off data k (e + ?d) m"
    proof
      fix a
      have "a < off + k \<Longrightarrow> a div 4096 < e" if "k \<noteq> 0"
      proof -
        have "off + k \<le> 4096 * e" using s that by (simp add: session_def)
        then show "a < off + k \<Longrightarrow> a div 4096 < e" by linarith
      qed
      moreover have "cell v w = flash_image off data k e m" "off div 4096 \<le> e" using s by (simp_all add: session_def)
      ultimately show "cell v w' a = flash_image off data k (e + ?d) m a"
        unfolding w by (cases "k = 0") (auto simp: flash_image_def)
    qed
    then have "session v off data m k (e + ?d) fs' w'" using s d unfolding session_def fs by auto
    moreover have "same_session fs fs'" unfolding fs by (simp add: same_session_def)
    ultimately show ?thesis using p(1) d(1) by (intro exI [of _ fs'] exI [of _ w'] exI [of _ "e + ?d"]) simp
  qed
qed

lemma session_erase_ahead:
  assumes c: "spi_controller c n v" and n: "4096 * sectors_end off (length data) \<le> n"
  shows "session v off data m k e fs w \<Longrightarrow> \<exists>fs' w' e'. erase_ahead c l fs w = Some (fs', w') \<and> session v off data m k e' fs' w' \<and>
    same_session fs fs' \<and> (e' = sectors_end off (length data) \<or> l < int e')"
proof (induction "(sectors_end off (length data) - e, wip v w)" arbitrary: e fs w
    rule: wf_induct_rule [OF wf_lex_prod [OF wf_less_than wf_less_than]])
  case (1 e w fs)
  let ?E = "sectors_end off (length data)"
  have e: "next_erase_sector fs = int e" "remaining_erase_sector fs = int (?E - e)" "e \<le> ?E" using "1.prems" by (simp_all add: session_def)
  show ?case
  proof (cases "e < ?E \<and> int e \<le> l")
    case True
    obtain fs1 w1 e1 where s: "start_next_erase c fs w = Some (fs1, w1)" "session v off data m k e1 fs1 w1" "same_session fs fs1"
      "e < e1 \<or> e1 = e \<and> (e < ?E \<longrightarrow> wip v w1 < wip v w)" using session_erase [OF c n "1.prems"] by blast
    have "((?E - e1, wip v w1), (?E - e, wip v w)) \<in> less_than <*lex*> less_than" using s(4) True by auto
    from "1.hyps" [OF this s(2)] obtain fs' w' e' where "erase_ahead c l fs1 w1 = Some (fs', w')" "session v off data m k e' fs' w'"
      "same_session fs1 fs'" "e' = ?E \<or> l < int e'" by blast
    moreover from this have "same_session fs fs'" using s(3) same_session_trans by blast
    moreover have "erase_ahead c l fs w = erase_ahead c l fs1 w1" using True s(1) e by (subst erase_ahead.simps) simp
    ultimately show ?thesis by (intro exI [of _ fs'] exI [of _ w'] exI [of _ e']) simp
  next
    case False
    then have "erase_ahead c l fs w = Some (fs, w)" using e by (subst erase_ahead.simps) auto
    moreover have "e = ?E \<or> l < int e" using False e(3) by auto
    ultimately show ?thesis using "1.prems" by (auto simp: same_session_def)
  qed
qed

section \<open>Writing a block\<close>

lemma sectors_cover: "off + len \<le> 4096 * sectors_end off len"
proof -
  have "off = 4096 * (off div 4096) + off mod 4096" by simp
  moreover have "off mod 4096 + len \<le> 4096 * ((off mod 4096 + len + 4095) div 4096)" by linarith
  ultimately show ?thesis unfolding sectors_end_def distrib_left by linarith
qed

lemma session_small:
  assumes c: "spi_controller c n v" and n: "4096 * sectors_end off (length data) \<le> n" and s: "session v off data m k e fs w"
  shows "off + length data \<le> 16777216" and "unat (next_write fs) = off + k" and "unat (remaining fs) = length data - k"
proof -
  show o: "off + length data \<le> 16777216" using c n sectors_cover [of off "length data"] by (simp add: spi_controller_def)
  have "k \<le> length data" "next_write fs = of_nat (off + k)" "remaining fs = of_nat (length data - k)" using s by (simp_all add: session_def)
  moreover have "unat (of_nat (off + k) :: u32) = off + k" by (rule unat_small) (use calculation o in simp)
  moreover have "unat (of_nat (length data - k) :: u32) = length data - k" by (rule unat_small) (use o in simp)
  ultimately show "unat (next_write fs) = off + k" "unat (remaining fs) = length data - k" by (simp_all only:)
qed

lemma byte_and_ff: "(0xff :: u8) AND b = b"
proof -
  have "(0xff :: u8) = - 1" by simp
  then show ?thesis by (metis and.left_neutral)
qed

lemma session_write:
  assumes c: "spi_controller c n v" and n: "4096 * sectors_end off (length data) \<le> n" and s: "session v off data m k e fs w"
    and a: "(off + k) mod 4 = 0" "l mod 4 = 0" "l \<le> length data - k" and e: "off + k + l \<le> 4096 * e"
  shows "\<exists>w'. SPIWrite (rom c) (next_write fs) (take l (drop k data)) w = (0, w') \<and>
    session v off data m (k + l) e (fs\<lparr>next_write := next_write fs + of_nat l, remaining := remaining fs - of_nat l\<rparr>) w'"
proof -
  let ?bs = "take l (drop k data)"
  have k: "k \<le> length data" "next_write fs = of_nat (off + k)" "remaining fs = of_nat (length data - k)" "off div 4096 \<le> e"
    "cell v w = flash_image off data k e m" using s by (simp_all add: session_def)
  have l: "length ?bs = l" using a(3) by simp
  have f: "nor_flash (rom c) n (cell v)" using c by (simp add: spi_controller_def)
  have le: "off + k + length ?bs \<le> n" using sectors_cover [of off "length data"] n a(3) k(1) unfolding l by linarith
  have l4: "length ?bs mod 4 = 0" using a(2) l by simp
  obtain w' where w: "SPIWrite (rom c) (of_nat (off + k)) ?bs w = (0, w')"
    "cell v w' = (\<lambda>x. if off + k \<le> x \<and> x < off + k + length ?bs then cell v w x AND ?bs ! (x - (off + k)) else cell v w x)"
    by (rule nor_flash_write [OF f a(1) l4 le])
  have "cell v w' = flash_image off data (k + l) e m"
  proof
    fix x
    show "cell v w' x = flash_image off data (k + l) e m x"
    proof (cases "off + k \<le> x \<and> x < off + k + l")
      case True
      then have "off div 4096 \<le> x div 4096" by (intro div_le_mono) simp
      moreover have "x div 4096 < e" using True e by linarith
      ultimately have "cell v w x = 0xff" using True unfolding k(5) by (simp add: flash_image_def)
      moreover have "(0xff :: u8) AND b = b" for b by (rule byte_and_ff)
      moreover obtain y where "x = off + k + y" "y < l" using True by (metis le_Suc_ex nat_add_left_cancel_less)
      then have "?bs ! (x - (off + k)) = data ! (x - off)" using k(1) a(3) by simp
      ultimately show ?thesis unfolding w(2) l using True by (simp add: flash_image_def)
    next
      case False
      then show ?thesis unfolding w(2) l k(5) by (auto simp: flash_image_def)
    qed
  qed
  moreover have "remaining fs - of_nat l = of_nat (length data - (k + l))" 
  proof -
    have "length data - k = l + (length data - (k + l))" using a(3) by simp
    then have "remaining fs = of_nat l + of_nat (length data - (k + l))" unfolding k(3) by (metis of_nat_add)
    then show ?thesis by (simp only: add_diff_cancel_left')
  qed
  moreover have "next_write fs + of_nat l = of_nat (off + (k + l))" unfolding k(2) by simp
  ultimately have "session v off data m (k + l) e (fs\<lparr>next_write := next_write fs + of_nat l, remaining := remaining fs - of_nat l\<rparr>) w'"
    using s a(3) e k(1) by (simp add: session_def add.assoc)
  then show ?thesis using w(1) k(2) by metis
qed

lemma session_data:
  assumes c: "spi_controller c n v" and n: "4096 * sectors_end off (length data) \<le> n" and s: "session v off data m k e fs w"
    and l: "l = min (unat len) (length data - k)" and a: "(off + k) mod 4 = 0" "l mod 4 = 0"
    and b: "l \<le> length buf" "take l buf = take l (drop k data)"
  shows "\<exists>fs' w' e'. handle_flash_data c buf len fs w = Some (fs', w') \<and> session v off data m (k + l) e' fs' w' \<and> same_session fs fs'"
proof -
  note z = session_small [OF c n s]
  have k: "k \<le> length data" using s by (simp add: session_def)
  have len: "(if remaining fs < len then remaining fs else len) = of_nat l"
  proof -
    have "unat (of_nat (length data - k) :: u32) = length data - k" by (rule unat_small) (use z(1) in simp)
    then show ?thesis using z(3) l by (auto simp: word_less_nat_alt min_def word_unat_eq_iff)
  qed
  have ul: "unat (of_nat l :: u32) = l" using l by (intro unat_small) (auto simp: min_less_iff_disj)
  show ?thesis
  proof (cases "l = 0")
    case True
    then have "handle_flash_data c buf len fs w = Some (fs, w)" unfolding handle_flash_data_def len by simp
    then show ?thesis using s True by (auto simp: same_session_def)
  next
    case False
    then have l0: "(of_nat l :: u32) \<noteq> 0" using ul by (metis unat_0)
    have "next_write fs + of_nat l = of_nat (off + k + l)" using s by (simp add: session_def)
    moreover have "unat (of_nat (off + k + l) :: u32) = off + k + l" using z(1) l k by (intro unat_small) auto
    ultimately have last: "int (unat (next_write fs + of_nat l) div FLASH_SECTOR_SIZE) = int ((off + k + l) div 4096)"
      by (simp add: FLASH_SECTOR_SIZE_def)
    obtain fs1 w1 e1 where e: "erase_ahead c (int ((off + k + l) div 4096)) fs w = Some (fs1, w1)" "session v off data m k e1 fs1 w1"
      "same_session fs fs1" "e1 = sectors_end off (length data) \<or> int ((off + k + l) div 4096) < int e1"
      using session_erase_ahead [OF c n s] by blast
    have "off + k + l \<le> 4096 * e1"
    proof (cases "e1 = sectors_end off (length data)")
      case True
      then show ?thesis using sectors_cover [of off "length data"] l k by linarith
    next
      case False
      then have "(off + k + l) div 4096 < e1" using e(4) by simp
      then show ?thesis by linarith
    qed
    moreover obtain w2 where w2: "flash_wait c w1 = Some w2" "cell v w2 = cell v w1" using flash_wait_ends [OF c] by blast
    moreover have "session v off data m k e1 fs1 w2" using e(2) w2(2) by (simp add: session_def)
    moreover have "l \<le> length data - k" using l by simp
    ultimately obtain w3 where w3: "SPIWrite (rom c) (next_write fs1) (take l (drop k data)) w2 = (0, w3)"
      "session v off data m (k + l) e1 (fs1\<lparr>next_write := next_write fs1 + of_nat l, remaining := remaining fs1 - of_nat l\<rparr>) w3"
      using session_write [OF c n _ a] by blast
    have "handle_flash_data c buf len fs w =
        Some (fs1\<lparr>next_write := next_write fs1 + of_nat l, remaining := remaining fs1 - of_nat l\<rparr>, w3)"
      unfolding handle_flash_data_def len Let_def last using e(1) w2(1) w3(1) l0 b ul by simp
    moreover have "same_session fs (fs1\<lparr>next_write := next_write fs1 + of_nat l, remaining := remaining fs1 - of_nat l\<rparr>)"
      using e(3) by (simp add: same_session_def)
    ultimately show ?thesis using w3(2) by blast
  qed
qed

section \<open>A whole upload\<close>

primrec write_blocks :: "'w chip \<Rightarrow> u8 list list \<Rightarrow> 'i flashing \<Rightarrow> 'w \<Rightarrow> ('i flashing \<times> 'w) option" where
  "write_blocks c [] fs w = Some (fs, w)"
| "write_blocks c (b # bs) fs w = do {
     (fs, w) \<leftarrow> handle_flash_data c b (of_nat (length b)) fs w;
     write_blocks c bs fs w }"

lemma session_block:
  assumes c: "spi_controller c n v" and n: "4096 * sectors_end off (length data) \<le> n" and o: "off mod 4 = 0" "length data mod 4 = 0"
    and s: "session v off data m k e fs w" and k4: "k mod 4 = 0" and b: "length b mod 4 = 0" "length b < 4294967296"
    and d: "drop k data = take (length data - k) (b @ rest)"
  shows "\<exists>fs' w' e' k'. handle_flash_data c b (of_nat (length b)) fs w = Some (fs', w') \<and> session v off data m k' e' fs' w' \<and>
    same_session fs fs' \<and> k' mod 4 = 0 \<and> drop k' data = take (length data - k') rest"
proof -
  let ?l = "min (length b) (length data - k)"
  have ub: "unat (of_nat (length b) :: u32) = length b" using b(2) by (intro unat_small) simp
  have k: "k \<le> length data" using s by (simp add: session_def)
  have "(length data - k) mod 4 = 0" using o(2) k4 k by presburger
  then have l: "?l mod 4 = 0" using b(1) by (simp add: min_def)
  have "take ?l (drop k data) = take ?l b" unfolding d by (simp add: min_def)
  then obtain fs1 w1 e1 where f: "handle_flash_data c b (of_nat (length b)) fs w = Some (fs1, w1)" "session v off data m (k + ?l) e1 fs1 w1"
      "same_session fs fs1"
    using session_data [OF c n s, where l = ?l and len = "of_nat (length b)" and buf = b] ub l o(1) k4 by (auto simp: mod_add_eq)
  have "drop (k + ?l) data = drop ?l (drop k data)" by (simp add: add.commute)
  also have "\<dots> = drop ?l (take (length data - k) (b @ rest))" unfolding d by simp
  also have "\<dots> = take (length data - (k + ?l)) rest" by (auto simp: min_def drop_take)
  finally have "drop (k + ?l) data = take (length data - (k + ?l)) rest" .
  moreover have "(k + ?l) mod 4 = 0" using k4 l by presburger
  ultimately show ?thesis using f by (intro exI [of _ fs1] exI [of _ w1] exI [of _ e1] exI [of _ "k + ?l"]) simp
qed

lemma session_blocks:
  assumes c: "spi_controller c n v" and n: "4096 * sectors_end off (length data) \<le> n" and o: "off mod 4 = 0" "length data mod 4 = 0"
  shows "session v off data m k e fs w \<Longrightarrow> k mod 4 = 0 \<Longrightarrow> \<forall>b \<in> set bs. length b mod 4 = 0 \<and> length b < 4294967296 \<Longrightarrow>
    drop k data = take (length data - k) (concat bs) \<Longrightarrow>
    \<exists>fs' w' e'. write_blocks c bs fs w = Some (fs', w') \<and> session v off data m (length data) e' fs' w' \<and> same_session fs fs'"
proof (induction bs arbitrary: k e fs w)
  case Nil
  then have "k = length data" by (simp add: session_def)
  then show ?case using Nil by (auto simp: same_session_def)
next
  case (Cons b bs)
  obtain fs1 w1 e1 k1 where s: "handle_flash_data c b (of_nat (length b)) fs w = Some (fs1, w1)" "session v off data m k1 e1 fs1 w1"
      "same_session fs fs1" "k1 mod 4 = 0" "drop k1 data = take (length data - k1) (concat bs)"
    using session_block [OF c n o Cons.prems(1,2), of b "concat bs"] Cons.prems(3,4) by auto
  have "\<exists>fs' w' e'. write_blocks c bs fs1 w1 = Some (fs', w') \<and> session v off data m (length data) e' fs' w' \<and> same_session fs1 fs'"
    using Cons.prems(3) s(5) by (intro Cons.IH [OF s(2,4)]) auto
  then show ?case using s(1,3) same_session_trans by fastforce
qed

lemma session_complete:
  assumes "session v off data m (length data) e fs w" and "data \<noteq> []"
  shows "e = sectors_end off (length data)"
proof -
  have e: "off + length data \<le> 4096 * e" "off div 4096 \<le> e" "e \<le> sectors_end off (length data)" using assms by (simp_all add: session_def)
  define x where "x = off mod 4096 + length data"
  have x: "0 < x" "off + length data = 4096 * (off div 4096) + x" using assms(2) by (simp_all add: x_def)
  then have "x \<le> 4096 * (e - off div 4096)" using e(1,2) by (simp add: right_diff_distrib')
  then have "(x + 4095) div 4096 \<le> e - off div 4096" by linarith
  then show ?thesis using e(2,3) unfolding sectors_end_def x_def by linarith
qed

text \<open>An upload of data to a word address in a flash that is large enough, in blocks of whole words of which the last may reach
  beyond the data, ends without error, and the flash then has the data at its place, 0xff in the rest of the sectors they
  touch, and elsewhere what it had.\<close>

theorem upload_exact:
  assumes c: "spi_controller c n v" and n: "4096 * sectors_end off (length data) \<le> n" and o: "off mod 4 = 0" "length data mod 4 = 0" "data \<noteq> []"
    and b: "\<forall>b \<in> set bs. length b mod 4 = 0 \<and> length b < 4294967296" "data = take (length data) (concat bs)"
  shows "\<exists>fs1 w1 fs2 w2. handle_flash_begin c (of_nat (length data)) (of_nat off) fs w = (ESP_OK, fs1, w1) \<and>
    write_blocks c bs fs1 w1 = Some (fs2, w2) \<and> fst (handle_flash_end fs2) = ESP_OK \<and>
    cell v w2 = flash_image off data (length data) (sectors_end off (length data)) (cell v w)"
proof -
  define fs1 where "fs1 = fs\<lparr>in_flash_mode := True, next_write := of_nat off, next_erase_sector := int (off div 4096),
    remaining := of_nat (length data), remaining_erase_sector := int (sectors_end off (length data) - off div 4096), last_error := ESP_OK\<rparr>"
  obtain w1 where w1: "handle_flash_begin c (of_nat (length data)) (of_nat off) fs w = (ESP_OK, fs1, w1)" "cell v w1 = cell v w"
    using session_start [OF c n, of fs w] unfolding fs1_def by blast
  have s: "session v off data (cell v w) 0 (off div 4096) fs1 w1" by (rule session_begin [OF w1(2)]) (simp_all add: fs1_def)
  obtain fs2 w2 e where g: "write_blocks c bs fs1 w1 = Some (fs2, w2)" "session v off data (cell v w) (length data) e fs2 w2" "same_session fs1 fs2"
    using session_blocks [OF c n o(1,2) s _ b(1)] b(2) by auto
  have "remaining fs2 = 0" using g(2) by (simp add: session_def)
  then have "fst (handle_flash_end fs2) = ESP_OK" using g(3) by (simp add: handle_flash_end_def same_session_def fs1_def)
  moreover have "cell v w2 = flash_image off data (length data) e (cell v w)" using g(2) by (simp add: session_def)
  ultimately show ?thesis using w1(1) g(1) session_complete [OF g(2) o(3)] by blast
qed

lemma upload_exact_witness:
  "\<exists>fs1 w1 fs2 w2. handle_flash_begin (sim_chip 8192) 4 4096 idle_flashing blank_sim = (ESP_OK, fs1, w1) \<and>
    write_blocks (sim_chip 8192) [[1, 2, 3, 4]] fs1 w1 = Some (fs2, w2) \<and> sim_cell w2 4097 = 2 \<and> sim_cell w2 4100 = 0xff \<and> sim_cell w2 7 = 0"
  using upload_exact [OF sim_controller, of 8192 4096 "[1, 2, 3, 4]" "[[1, 2, 3, 4]]" idle_flashing blank_sim]
  by (fastforce simp: sectors_end_def flash_image_def sim_view_def blank_sim_def)

end
