(* ===== verification/Stub_Deflated.thy ===== *)
theory Stub_Deflated
  imports Stub_Upload
begin

text \<open>
  A compressed upload: handle_flash_deflated_begin, chunks of a compressed stream, handle_flash_end.  The decompressor is not
  modelled; \<open>inflates\<close> states what the stub relies on.
\<close>

section \<open>The decompressor\<close>

text \<open>The 32768 bytes of the output buffer, filled up to \<open>i\<close>, hold the last bytes of the \<open>b\<close> bytes of \<open>out\<close> produced so far.\<close>

definition out_window :: "u8 list \<Rightarrow> nat \<Rightarrow> u8 list \<Rightarrow> nat \<Rightarrow> bool" where
  "out_window buf i out b \<longleftrightarrow>
     (\<forall>d. 1 \<le> d \<and> d \<le> b \<and> d \<le> OUT_BUF_SIZE \<longrightarrow> buf ! ((i + OUT_BUF_SIZE - d) mod OUT_BUF_SIZE) = out ! (b - d))"

text \<open>A decompressor that turns the stream \<open>z\<close> into \<open>out\<close>: \<open>pos\<close> says how much of both is done.  It is called with input that goes on
  with the stream, possibly beyond its end, with space for output and with the flag for more input when the stream is longer.  It
  stops when the stream and the output are complete, when the input is used up but not the stream, or when the space is used
  up but not the stream.\<close>

definition inflates :: "'i tinfl \<Rightarrow> ('i \<Rightarrow> nat \<times> nat) \<Rightarrow> u8 list \<Rightarrow> u8 list \<Rightarrow> bool" where
  "inflates t pos z out \<longleftrightarrow>
     (\<forall>i. pos (tinfl_init t i) = (0, 0)) \<and>
     (\<forall>i a b inp buf j flags.
        pos i = (a, b) \<and> a < length z \<and> b \<le> length out \<and> inp \<noteq> [] \<and> take (length z - a) inp = take (length inp) (drop a z) \<and>
        length buf = OUT_BUF_SIZE \<and> j < OUT_BUF_SIZE \<and> out_window buf j out b \<and>
        flags AND TINFL_FLAG_PARSE_ZLIB_HEADER \<noteq> 0 \<and> (a + length inp < length z \<longrightarrow> flags AND TINFL_FLAG_HAS_MORE_INPUT \<noteq> 0) \<longrightarrow>
        (\<exists>st x y i'. tinfl_decompress t i inp buf j (OUT_BUF_SIZE - j) flags =
             (st, x, y, take j buf @ take y (drop b out) @ drop (j + y) buf, i') \<and>
           x \<le> length inp \<and> j + y \<le> OUT_BUF_SIZE \<and> b + y \<le> length out \<and> pos i' = (a + x, b + y) \<and>
           (st = TINFL_STATUS_DONE \<and> a + x = length z \<and> b + y = length out \<or>
            st = TINFL_STATUS_NEEDS_MORE_INPUT \<and> x = length inp \<and> a + x < length z \<or>
            st = 2 \<and> j + y = OUT_BUF_SIZE \<and> a + x < length z)))"

lemma window_more:
  assumes w: "out_window buf i out b" and l: "length buf = OUT_BUF_SIZE" and i: "i + y \<le> OUT_BUF_SIZE" and b: "b + y \<le> length out"
  shows "out_window (take i buf @ take y (drop b out) @ drop (i + y) buf) (i + y) out (b + y)"
  unfolding out_window_def
proof (intro allI impI)
  fix d
  let ?buf = "take i buf @ take y (drop b out) @ drop (i + y) buf"
  assume d: "1 \<le> d \<and> d \<le> b + y \<and> d \<le> OUT_BUF_SIZE"
  have li: "length (take i buf) = i" "length (take y (drop b out)) = y" using l i b by simp_all
  show "?buf ! ((i + y + OUT_BUF_SIZE - d) mod OUT_BUF_SIZE) = out ! (b + y - d)"
  proof (cases "d \<le> y")
    case True
    have "i + y + OUT_BUF_SIZE - d = OUT_BUF_SIZE + (i + (y - d))" "i + (y - d) < OUT_BUF_SIZE" using True i d by simp_all
    then have "(i + y + OUT_BUF_SIZE - d) mod OUT_BUF_SIZE = i + (y - d)" by (simp only: mod_add_self1 mod_less)
    moreover have "?buf ! (length (take i buf) + (y - d)) = (take y (drop b out) @ drop (i + y) buf) ! (y - d)"
      by (rule nth_append_length_plus)
    moreover have "y - d < y" using True d by simp
    then have "(take y (drop b out) @ drop (i + y) buf) ! (y - d) = out ! (b + (y - d))" using b by (simp add: nth_append)
    ultimately have "?buf ! ((i + y + OUT_BUF_SIZE - d) mod OUT_BUF_SIZE) = out ! (b + (y - d))" unfolding li(1) by simp
    then show ?thesis using True by simp
  next
    case False
    then have e: "1 \<le> d - y" "d - y \<le> b" "d - y \<le> OUT_BUF_SIZE - y" "i + y + OUT_BUF_SIZE - d = i + OUT_BUF_SIZE - (d - y)"
      using d i by auto
    then have w': "buf ! ((i + OUT_BUF_SIZE - (d - y)) mod OUT_BUF_SIZE) = out ! (b - (d - y))" using w unfolding out_window_def by auto
    have "?buf ! ((i + OUT_BUF_SIZE - (d - y)) mod OUT_BUF_SIZE) = buf ! ((i + OUT_BUF_SIZE - (d - y)) mod OUT_BUF_SIZE)"
    proof (cases "d - y \<le> i")
      case True
      then have "i + OUT_BUF_SIZE - (d - y) = OUT_BUF_SIZE + (i - (d - y))" "i - (d - y) < OUT_BUF_SIZE" "i - (d - y) < i" using e(1) i by auto
      then obtain p where p: "(i + OUT_BUF_SIZE - (d - y)) mod OUT_BUF_SIZE = p" "p < i" by (simp only: mod_add_self1 mod_less)
      then show ?thesis unfolding p(1) using li by (simp add: nth_append)
    next
      case far: False
      then have m: "(i + OUT_BUF_SIZE - (d - y)) mod OUT_BUF_SIZE = i + OUT_BUF_SIZE - (d - y)" "i + y \<le> i + OUT_BUF_SIZE - (d - y)" using e(3) d i by auto
      then obtain q where q: "i + OUT_BUF_SIZE - (d - y) = i + y + q" by (metis le_Suc_ex)
      show ?thesis unfolding m(1) unfolding q using li l i by (simp add: nth_append)
    qed
    then show ?thesis using w' e(4) False by (simp add: d)
  qed
qed

lemma window_wrap: "out_window buf OUT_BUF_SIZE out b \<Longrightarrow> out_window buf 0 out b"
  unfolding out_window_def
proof (intro allI impI)
  fix d
  assume w: "\<forall>d. 1 \<le> d \<and> d \<le> b \<and> d \<le> OUT_BUF_SIZE \<longrightarrow> buf ! ((OUT_BUF_SIZE + OUT_BUF_SIZE - d) mod OUT_BUF_SIZE) = out ! (b - d)"
    and d: "1 \<le> d \<and> d \<le> b \<and> d \<le> OUT_BUF_SIZE"
  have "OUT_BUF_SIZE + OUT_BUF_SIZE - d = OUT_BUF_SIZE + (0 + OUT_BUF_SIZE - d)" using d by simp
  then have "(OUT_BUF_SIZE + OUT_BUF_SIZE - d) mod OUT_BUF_SIZE = (0 + OUT_BUF_SIZE - d) mod OUT_BUF_SIZE" by (simp only: mod_add_self1)
  then show "buf ! ((0 + OUT_BUF_SIZE - d) mod OUT_BUF_SIZE) = out ! (b - d)" using w d by metis
qed

lemma window_take:
  assumes "out_window buf i out b" and "length buf = OUT_BUF_SIZE" and "i \<le> OUT_BUF_SIZE" and "i \<le> b" and "b \<le> length out"
  shows "take i buf = take i (drop (b - i) out)"
proof (rule nth_equalityI)
  show "length (take i buf) = length (take i (drop (b - i) out))" using assms by simp
  fix j
  assume "j < length (take i buf)"
  then have j: "j < i" by simp
  then have "1 \<le> i - j \<and> i - j \<le> b \<and> i - j \<le> OUT_BUF_SIZE" using assms(3,4) by auto
  then have w: "buf ! ((i + OUT_BUF_SIZE - (i - j)) mod OUT_BUF_SIZE) = out ! (b - (i - j))" by (rule assms(1) [unfolded out_window_def, rule_format])
  have "i + OUT_BUF_SIZE - (i - j) = OUT_BUF_SIZE + j" "j < OUT_BUF_SIZE" "b - (i - j) = b - i + j" using j assms(3,4) by auto
  then have "buf ! j = out ! (b - i + j)" using w by (simp only: mod_add_self1 mod_less)
  then show "take i buf ! j = take i (drop (b - i) out) ! j" using j assms(3-5) by simp
qed

section \<open>The state between chunks\<close>

definition inflating ::
    "'w spi_view \<Rightarrow> ('i \<Rightarrow> nat \<times> nat) \<Rightarrow> nat \<Rightarrow> u8 list \<Rightarrow> u8 list \<Rightarrow> nat \<Rightarrow> (nat \<Rightarrow> u8) \<Rightarrow> nat \<Rightarrow> nat \<Rightarrow> nat \<Rightarrow> 'i flashing \<Rightarrow> 'w \<Rightarrow> bool" where
  "inflating v pos off z out cs m k e a fs w \<longleftrightarrow>
     session v off out m k e fs w \<and> k mod OUT_BUF_SIZE = 0 \<and> next_out fs < OUT_BUF_SIZE \<and> length (out_buf fs) = OUT_BUF_SIZE \<and>
     pos (inflator fs) = (a, k + next_out fs) \<and> k + next_out fs \<le> length out \<and> remaining_compressed fs = of_nat (cs - a) \<and>
     out_window (out_buf fs) (next_out fs) out (k + next_out fs) \<and> in_flash_mode fs \<and> last_error fs = ESP_OK"

text \<open>Everything has been written.\<close>

definition inflated :: "'w spi_view \<Rightarrow> nat \<Rightarrow> u8 list \<Rightarrow> (nat \<Rightarrow> u8) \<Rightarrow> nat \<Rightarrow> 'i flashing \<Rightarrow> 'w \<Rightarrow> bool" where
  "inflated v off out m e fs w \<longleftrightarrow>
     session v off out m (length out) e fs w \<and> next_out fs = 0 \<and> in_flash_mode fs \<and> last_error fs = ESP_OK"

lemma inflate_flush:
  assumes c: "spi_controller c n v" and n: "4096 * sectors_end off (length out) \<le> n" and o: "off mod 4 = 0" "length out mod 4 = 0"
    and s: "session v off out m k e fs w" and k: "k mod OUT_BUF_SIZE = 0" and j: "j \<le> OUT_BUF_SIZE" "k + j \<le> length out"
    and l: "length (out_buf fs) = OUT_BUF_SIZE" and wd: "out_window (out_buf fs) j out (k + j)" and f: "j = OUT_BUF_SIZE \<or> k + j = length out"
  shows "\<exists>fs' w' e'. handle_flash_data c (out_buf fs) (of_nat j) fs w = Some (fs', w') \<and> session v off out m (k + j) e' fs' w' \<and> same_session fs fs'"
proof -
  have k4: "k mod 4 = 0" using k by (auto simp: OUT_BUF_SIZE_def mod_eq_0_iff_dvd elim: dvd_trans [rotated])
  have j4: "j mod 4 = 0" using f
  proof
    assume "k + j = length out"
    then show ?thesis using k4 o(2) by presburger
  qed (simp add: OUT_BUF_SIZE_def)
  have uj: "unat (of_nat j :: u32) = j" using j(1) by (intro unat_small) (simp add: OUT_BUF_SIZE_def)
  have "take j (out_buf fs) = take j (drop k out)" using window_take [OF wd l j(1) _ j(2)] by simp
  moreover have "(off + k) mod 4 = 0" using o(1) k4 by presburger
  ultimately show ?thesis using uj j l j4 by (intro session_data [OF c n s]) auto
qed

text \<open>One turn of the loop up to the write: what the decompressor added to the output buffer.\<close>

lemma inflate_step:
  assumes c: "spi_controller c n v" and n: "4096 * sectors_end off (length out) \<le> n" and o: "off mod 4 = 0" "length out mod 4 = 0"
    and t: "inflates t pos z out" and cs: "length z \<le> cs" "cs < 4294967296"
    and i: "inflating v pos off z out cs m k e a fs w" and a: "a < length z"
    and inp: "inp \<noteq> []" "length inp < 4294967296" "take (length z - a) inp = take (length inp) (drop a z)"
    and st: "TINFL_STATUS_DONE < st" and r: "0 < remaining fs"
  shows "\<exists>st' x fs2 w1 e1. inflate_loop c t inp (of_nat (length inp)) st fs w =
      do { (fs, w) \<leftarrow> (if st' \<le> TINFL_STATUS_DONE \<or> next_out fs2 = OUT_BUF_SIZE then do {
             (fs, w) \<leftarrow> handle_flash_data c (out_buf fs2) (of_nat (next_out fs2)) fs2 w1; Some (fs\<lparr>next_out := 0\<rparr>, w) } else Some (fs2, w1));
           inflate_loop c t (drop x inp) (of_nat (length inp - x)) st' fs w } \<and>
    x \<le> length inp \<and> session v off out m k e1 fs2 w1 \<and> next_out fs2 \<le> OUT_BUF_SIZE \<and> k + next_out fs2 \<le> length out \<and>
    length (out_buf fs2) = OUT_BUF_SIZE \<and> out_window (out_buf fs2) (next_out fs2) out (k + next_out fs2) \<and>
    in_flash_mode fs2 \<and> last_error fs2 = ESP_OK \<and> pos (inflator fs2) = (a + x, k + next_out fs2) \<and>
    remaining_compressed fs2 = of_nat (cs - (a + x)) \<and>
    (st' = TINFL_STATUS_DONE \<and> a + x = length z \<and> k + next_out fs2 = length out \<or>
     st' = TINFL_STATUS_NEEDS_MORE_INPUT \<and> x = length inp \<and> a + x < length z \<or>
     st' = 2 \<and> next_out fs2 = OUT_BUF_SIZE \<and> a + x < length z)"
proof -
  note i' = i [unfolded inflating_def]
  obtain fs1 w1 e1 where s: "start_next_erase c fs w = Some (fs1, w1)" "session v off out m k e1 fs1 w1" "same_session fs fs1"
    using session_erase [OF c n] i' by blast
  let ?j = "next_out fs" and ?b = "k + next_out fs"
  let ?flags = "if of_nat (length inp) < remaining_compressed fs then TINFL_FLAG_PARSE_ZLIB_HEADER OR TINFL_FLAG_HAS_MORE_INPUT
    else TINFL_FLAG_PARSE_ZLIB_HEADER"
  have ul: "unat (of_nat (length inp) :: u32) = length inp" "unat (remaining_compressed fs) = cs - a"
    using i' inp(2) cs(2) by (auto intro!: unat_small)
  have l0: "(0 :: u32) < of_nat (length inp)" using inp(1) ul(1) by (simp add: word_less_nat_alt)
  have flags: "?flags AND TINFL_FLAG_PARSE_ZLIB_HEADER \<noteq> 0" "a + length inp < length z \<longrightarrow> ?flags AND TINFL_FLAG_HAS_MORE_INPUT \<noteq> 0"
    using ul cs(1) by (auto simp: TINFL_FLAG_PARSE_ZLIB_HEADER_def TINFL_FLAG_HAS_MORE_INPUT_def word_less_nat_alt)
  obtain st' x y inf' where d: "tinfl_decompress t (inflator fs) inp (out_buf fs) ?j (OUT_BUF_SIZE - ?j) ?flags =
      (st', x, y, take ?j (out_buf fs) @ take y (drop ?b out) @ drop (?j + y) (out_buf fs), inf')"
    "x \<le> length inp" "?j + y \<le> OUT_BUF_SIZE" "?b + y \<le> length out" "pos inf' = (a + x, ?b + y)"
    "st' = TINFL_STATUS_DONE \<and> a + x = length z \<and> ?b + y = length out \<or>
     st' = TINFL_STATUS_NEEDS_MORE_INPUT \<and> x = length inp \<and> a + x < length z \<or>
     st' = 2 \<and> ?j + y = OUT_BUF_SIZE \<and> a + x < length z"
    using t [unfolded inflates_def, THEN conjunct2, rule_format, of "inflator fs" a ?b inp "out_buf fs" ?j ?flags] i' a inp(1,3) flags by blast
  define buf where "buf = take ?j (out_buf fs) @ take y (drop ?b out) @ drop (?j + y) (out_buf fs)"
  define fs2 where "fs2 = fs1\<lparr>out_buf := buf, inflator := inf', remaining_compressed := remaining_compressed fs1 - of_nat x,
    next_out := next_out fs1 + y\<rparr>"
  have lb: "length buf = OUT_BUF_SIZE" using i' d(3,4) by (simp add: buf_def)
  have wd: "out_window buf (?j + y) out (k + (?j + y))" unfolding buf_def add.assoc [symmetric]
    by (rule window_more) (use i' d(3,4) in simp_all)
  have s2: "session v off out m k e1 fs2 w1" using s(2) by (simp add: session_def fs2_def)
  have nx: "next_out fs2 = ?j + y" "out_buf fs2 = buf" "in_flash_mode fs2" "last_error fs2 = ESP_OK" "inflator fs2 = inf'"
    "remaining_compressed fs2 = of_nat (cs - (a + x))"
  proof -
    have "cs - a = (cs - (a + x)) + x" using d(2,6) cs(1) a by auto
    then have "(of_nat (cs - a) :: u32) = of_nat (cs - (a + x)) + of_nat x" by (metis of_nat_add)
    then show "next_out fs2 = ?j + y" "out_buf fs2 = buf" "in_flash_mode fs2" "last_error fs2 = ESP_OK" "inflator fs2 = inf'"
      "remaining_compressed fs2 = of_nat (cs - (a + x))" using s(3) i' by (simp_all add: fs2_def same_session_def)
  qed
  have len: "(of_nat (length inp) :: u32) - of_nat x = of_nat (length inp - x)" using d(2) by (simp add: of_nat_diff)
  have loop: "inflate_loop c t inp (of_nat (length inp)) st fs w =
      do { (fs, w) \<leftarrow> (if st' \<le> TINFL_STATUS_DONE \<or> next_out fs2 = OUT_BUF_SIZE then do {
             (fs, w) \<leftarrow> handle_flash_data c (out_buf fs2) (of_nat (next_out fs2)) fs2 w1; Some (fs\<lparr>next_out := 0\<rparr>, w) } else Some (fs2, w1));
           inflate_loop c t (drop x inp) (of_nat (length inp - x)) st' fs w }"
    using s(1,3) d(1) l0 r st ul(1) len
    by (subst inflate_loop.simps) (simp add: same_session_def fs2_def buf_def Let_def)
  show ?thesis
    by (rule exI [of _ st'], rule exI [of _ x], rule exI [of _ fs2], rule exI [of _ w1], rule exI [of _ e1], intro conjI)
      (use loop s2 nx lb wd d(2-6) in \<open>simp_all add: add.assoc\<close>)
qed

text \<open>One pass of the loop: input \<open>inp\<close>, all of the chunk that is left.\<close>

lemma inflate_pass:
  assumes c: "spi_controller c n v" and n: "4096 * sectors_end off (length out) \<le> n" and o: "off mod 4 = 0" "length out mod 4 = 0"
    and t: "inflates t pos z out" and cs: "length z \<le> cs" "cs < 4294967296"
    and i: "inflating v pos off z out cs m k e a fs w" and a: "a < length z"
    and inp: "inp \<noteq> []" "length inp < 4294967296" "take (length z - a) inp = take (length inp) (drop a z)"
    and st: "TINFL_STATUS_DONE < st" and r: "0 < remaining fs" and om: "length out mod OUT_BUF_SIZE \<noteq> 0"
  shows "\<exists>st' x fs' w' e'. inflate_loop c t inp (of_nat (length inp)) st fs w =
      inflate_loop c t (drop x inp) (of_nat (length inp - x)) st' fs' w' \<and> x \<le> length inp \<and>
    (st' = TINFL_STATUS_DONE \<and> a + x = length z \<and> inflated v off out m e' fs' w' \<or>
     TINFL_STATUS_DONE < st' \<and> a + x < length z \<and>
       (inflating v pos off z out cs m (k + OUT_BUF_SIZE) e' (a + x) fs' w' \<and> k + OUT_BUF_SIZE \<le> length out \<or>
        inflating v pos off z out cs m k e' (a + x) fs' w' \<and> x = length inp))"
proof -
  note i' = i [unfolded inflating_def]
  obtain st' x fs2 w1 e1 where loop: "inflate_loop c t inp (of_nat (length inp)) st fs w =
      do { (fs, w) \<leftarrow> (if st' \<le> TINFL_STATUS_DONE \<or> next_out fs2 = OUT_BUF_SIZE then do {
             (fs, w) \<leftarrow> handle_flash_data c (out_buf fs2) (of_nat (next_out fs2)) fs2 w1; Some (fs\<lparr>next_out := 0\<rparr>, w) } else Some (fs2, w1));
           inflate_loop c t (drop x inp) (of_nat (length inp - x)) st' fs w }"
    and x: "x \<le> length inp" and s2: "session v off out m k e1 fs2 w1"
    and b: "next_out fs2 \<le> OUT_BUF_SIZE" "k + next_out fs2 \<le> length out" "length (out_buf fs2) = OUT_BUF_SIZE"
      "out_window (out_buf fs2) (next_out fs2) out (k + next_out fs2)"
    and f2: "in_flash_mode fs2" "last_error fs2 = ESP_OK" "pos (inflator fs2) = (a + x, k + next_out fs2)"
      "remaining_compressed fs2 = of_nat (cs - (a + x))"
    and d: "st' = TINFL_STATUS_DONE \<and> a + x = length z \<and> k + next_out fs2 = length out \<or>
      st' = TINFL_STATUS_NEEDS_MORE_INPUT \<and> x = length inp \<and> a + x < length z \<or>
      st' = 2 \<and> next_out fs2 = OUT_BUF_SIZE \<and> a + x < length z"
    using inflate_step [OF c n o t cs i a inp st r] by (elim exE conjE) (rule that)
  show ?thesis
  proof (cases "st' \<le> TINFL_STATUS_DONE \<or> next_out fs2 = OUT_BUF_SIZE")
    case False
    then have "st' = TINFL_STATUS_NEEDS_MORE_INPUT \<and> x = length inp \<and> a + x < length z" "next_out fs2 < OUT_BUF_SIZE"
      using b(1) d by (auto simp: TINFL_STATUS_DONE_def)
    moreover from this have "inflating v pos off z out cs m k e1 (a + x) fs2 w1"
      using s2 b f2 i' by (simp add: inflating_def)
    ultimately show ?thesis using loop False x
      by (intro exI [of _ st'] exI [of _ x] exI [of _ fs2] exI [of _ w1] exI [of _ e1]) (simp add: TINFL_STATUS_DONE_def TINFL_STATUS_NEEDS_MORE_INPUT_def)
  next
    case True
    then have f: "next_out fs2 = OUT_BUF_SIZE \<or> k + next_out fs2 = length out" using d
      by (auto simp: TINFL_STATUS_DONE_def TINFL_STATUS_NEEDS_MORE_INPUT_def)
    have "k mod OUT_BUF_SIZE = 0" using i' by blast
    from inflate_flush [OF c n o s2 this b f] obtain fs3 w3 e3 where
      p: "handle_flash_data c (out_buf fs2) (of_nat (next_out fs2)) fs2 w1 = Some (fs3, w3)"
      "session v off out m (k + next_out fs2) e3 fs3 w3" "same_session fs2 fs3" by (elim exE conjE) (rule that)
    let ?fs = "fs3\<lparr>next_out := 0\<rparr>"
    have l: "inflate_loop c t inp (of_nat (length inp)) st fs w = inflate_loop c t (drop x inp) (of_nat (length inp - x)) st' ?fs w3"
      unfolding loop using True p(1) by simp
    have q: "session v off out m (k + next_out fs2) e3 ?fs w3" using p(2) by (simp add: session_def)
    show ?thesis
    proof (cases "st' = TINFL_STATUS_DONE")
      case fin: True
      then have z: "k + next_out fs2 = length out" "a + x = length z"
        using d by (simp_all add: TINFL_STATUS_DONE_def TINFL_STATUS_NEEDS_MORE_INPUT_def)
      then have "inflated v off out m e3 ?fs w3" using q p(3) f2 by (simp add: inflated_def same_session_def)
      then show ?thesis using l x fin z(2) by blast
    next
      case fin: False
      then have full: "next_out fs2 = OUT_BUF_SIZE" "TINFL_STATUS_DONE < st'" "a + x < length z" using d True
        by (auto simp: TINFL_STATUS_DONE_def TINFL_STATUS_NEEDS_MORE_INPUT_def)
      then have "inflating v pos off z out cs m (k + OUT_BUF_SIZE) e3 (a + x) ?fs w3"
        using q p(3) b f2 i' window_wrap by (simp add: inflating_def same_session_def OUT_BUF_SIZE_def)
      moreover have "k + OUT_BUF_SIZE \<le> length out" using full(1) b(2) by simp
      ultimately show ?thesis using l x full by blast
    qed
  qed
qed

lemma inflate_chunk:
  assumes c: "spi_controller c n v" and n: "4096 * sectors_end off (length out) \<le> n" and o: "off mod 4 = 0" "length out mod 4 = 0"
    and t: "inflates t pos z out" and cs: "length z \<le> cs" "cs < 4294967296" and om: "length out mod OUT_BUF_SIZE \<noteq> 0"
  shows "inflating v pos off z out cs m k e a fs w \<Longrightarrow> a < length z \<Longrightarrow> inp \<noteq> [] \<Longrightarrow> length inp < 4294967296 \<Longrightarrow>
    take (length z - a) inp = take (length inp) (drop a z) \<Longrightarrow> TINFL_STATUS_DONE < st \<Longrightarrow>
    \<exists>st' fs' w' k' e'. inflate_loop c t inp (of_nat (length inp)) st fs w = Some (st', fs', w') \<and>
      (if a + length inp < length z then TINFL_STATUS_DONE < st' \<and> inflating v pos off z out cs m k' e' (a + length inp) fs' w'
       else st' = TINFL_STATUS_DONE \<and> inflated v off out m e' fs' w')"
proof (induction "length out - k" arbitrary: k e a fs w inp st rule: less_induct)
  case less
  have s: "session v off out m k e fs w" "k mod OUT_BUF_SIZE = 0" "k \<le> length out"
    using less.prems(1) by (simp_all add: inflating_def)
  then have "k < length out" using om by (metis le_neq_implies_less)
  then have r: "0 < remaining fs" using session_small(3) [OF c n s(1)] by (simp add: word_less_nat_alt)
  obtain st1 x fs1 w1 e1 where p: "inflate_loop c t inp (of_nat (length inp)) st fs w =
      inflate_loop c t (drop x inp) (of_nat (length inp - x)) st1 fs1 w1" "x \<le> length inp"
    "st1 = TINFL_STATUS_DONE \<and> a + x = length z \<and> inflated v off out m e1 fs1 w1 \<or>
     TINFL_STATUS_DONE < st1 \<and> a + x < length z \<and>
       (inflating v pos off z out cs m (k + OUT_BUF_SIZE) e1 (a + x) fs1 w1 \<and> k + OUT_BUF_SIZE \<le> length out \<or>
        inflating v pos off z out cs m k e1 (a + x) fs1 w1 \<and> x = length inp)"
    using inflate_pass [OF c n o t cs less.prems(1-6) r om] by blast
  consider "st1 = TINFL_STATUS_DONE" "a + x = length z" "inflated v off out m e1 fs1 w1"
    | k' where "TINFL_STATUS_DONE < st1" "a + x < length z" "x = length inp" "inflating v pos off z out cs m k' e1 (a + x) fs1 w1"
    | "TINFL_STATUS_DONE < st1" "a + x < length z" "x < length inp" "inflating v pos off z out cs m (k + OUT_BUF_SIZE) e1 (a + x) fs1 w1"
      "k + OUT_BUF_SIZE \<le> length out" using p(2,3) by (metis le_neq_implies_less)
  then show ?case
  proof cases
    case 1
    have "inflate_loop c t inp (of_nat (length inp)) st fs w = Some (st1, fs1, w1)" unfolding p(1) 1(1)
      by (subst inflate_loop.simps) simp
    moreover have "\<not> a + length inp < length z" using 1(2) p(2) by simp
    ultimately show ?thesis using 1 by auto
  next
    case 2
    have "inflate_loop c t inp (of_nat (length inp)) st fs w = Some (st1, fs1, w1)" unfolding p(1) 2(3)
      by (subst inflate_loop.simps) simp
    then show ?thesis using 2 by auto
  next
    case 3
    have "length out - (k + OUT_BUF_SIZE) < length out - k" using \<open>k < length out\<close> by (simp add: OUT_BUF_SIZE_def)
    moreover have "drop x inp \<noteq> []" "length (drop x inp) < 4294967296" using 3(3) less.prems(4) by simp_all
    moreover have "take (length z - (a + x)) (drop x inp) = take (length (drop x inp)) (drop (a + x) z)"
    proof -
      have "take (length z - (a + x)) (drop x inp) = drop x (take (length z - a) inp)" using 3(2) by (simp add: drop_take)
      also have "\<dots> = take (length (drop x inp)) (drop (a + x) z)" unfolding less.prems(5) using 3(3) by (simp add: drop_take add.commute)
      finally show ?thesis .
    qed
    ultimately have "\<exists>st' fs' w' k' e'. inflate_loop c t (drop x inp) (of_nat (length (drop x inp))) st1 fs1 w1 = Some (st', fs', w') \<and>
      (if a + x + length (drop x inp) < length z then TINFL_STATUS_DONE < st' \<and> inflating v pos off z out cs m k' e' (a + x + length (drop x inp)) fs' w'
       else st' = TINFL_STATUS_DONE \<and> inflated v off out m e' fs' w')"
      by (intro less.hyps [OF _ 3(4,2) _ _ _ 3(1)])
    moreover have "a + x + length (drop x inp) = a + length inp" "length (drop x inp) = length inp - x" using 3(3) by simp_all
    ultimately show ?thesis unfolding p(1) by metis
  qed
qed

section \<open>A whole compressed upload\<close>

primrec write_deflated :: "'w chip \<Rightarrow> 'i tinfl \<Rightarrow> u8 list list \<Rightarrow> 'i flashing \<Rightarrow> 'w \<Rightarrow> ('i flashing \<times> 'w) option" where
  "write_deflated c t [] fs w = Some (fs, w)"
| "write_deflated c t (b # bs) fs w = do {
     (fs, w) \<leftarrow> handle_flash_deflated_data c t b (of_nat (length b)) fs w;
     write_deflated c t bs fs w }"

lemma deflated_chunk:
  assumes c: "spi_controller c n v" and n: "4096 * sectors_end off (length out) \<le> n" and o: "off mod 4 = 0" "length out mod 4 = 0"
    and t: "inflates t pos z out" and cs: "length z \<le> cs" "cs < 4294967296" and om: "length out mod OUT_BUF_SIZE \<noteq> 0"
    and i: "inflating v pos off z out cs m k e a fs w" "a < length z" "inp \<noteq> []" "length inp < 4294967296"
    "take (length z - a) inp = take (length inp) (drop a z)"
  shows "\<exists>fs' w' k' e'. handle_flash_deflated_data c t inp (of_nat (length inp)) fs w = Some (fs', w') \<and>
      (if a + length inp < length z then inflating v pos off z out cs m k' e' (a + length inp) fs' w' else inflated v off out m e' fs' w')"
proof -
  have "TINFL_STATUS_DONE < TINFL_STATUS_NEEDS_MORE_INPUT" by (simp add: TINFL_STATUS_DONE_def TINFL_STATUS_NEEDS_MORE_INPUT_def)
  from inflate_chunk [OF c n o t cs om i this] obtain st fs' w' k' e' where
    p: "inflate_loop c t inp (of_nat (length inp)) TINFL_STATUS_NEEDS_MORE_INPUT fs w = Some (st, fs', w')"
    "if a + length inp < length z then TINFL_STATUS_DONE < st \<and> inflating v pos off z out cs m k' e' (a + length inp) fs' w'
       else st = TINFL_STATUS_DONE \<and> inflated v off out m e' fs' w'" by blast
  have "handle_flash_deflated_data c t inp (of_nat (length inp)) fs w = Some (fs', w')"
  proof (cases "a + length inp < length z")
    case True
    then have s: "session v off out m k' e' fs' w'" "k' mod OUT_BUF_SIZE = 0" "k' \<le> length out" "TINFL_STATUS_DONE < st"
      using p(2) by (simp_all add: inflating_def)
    then have "k' < length out" using om by (metis le_neq_implies_less)
    then have "remaining fs' \<noteq> 0" using session_small(3) [OF c n s(1)] by (metis diff_is_0_eq not_less unat_0)
    then show ?thesis using p(1) s(4) by (simp add: handle_flash_deflated_data_def)
  next
    case False
    then have "st = TINFL_STATUS_DONE" "remaining fs' = 0" using p(2) by (simp_all add: inflated_def session_def)
    then show ?thesis using p(1) by (simp add: handle_flash_deflated_data_def)
  qed
  then show ?thesis using p(2) by (intro exI [of _ fs'] exI [of _ w'] exI [of _ k'] exI [of _ e']) (simp split: if_splits)
qed

lemma deflated_chunks:
  assumes c: "spi_controller c n v" and n: "4096 * sectors_end off (length out) \<le> n" and o: "off mod 4 = 0" "length out mod 4 = 0"
    and t: "inflates t pos z out" and cs: "length z \<le> cs" "cs < 4294967296" and om: "length out mod OUT_BUF_SIZE \<noteq> 0"
  shows "inflating v pos off z out cs m k e a fs w \<Longrightarrow> bs \<noteq> [] \<Longrightarrow> \<forall>b \<in> set bs. b \<noteq> [] \<and> length b < 4294967296 \<Longrightarrow>
    take (length z - a) (concat bs) = drop a z \<Longrightarrow> a + length (concat (butlast bs)) < length z \<Longrightarrow>
    \<exists>fs' w' e'. write_deflated c t bs fs w = Some (fs', w') \<and> inflated v off out m e' fs' w'"
proof (induction bs arbitrary: k e a fs w)
  case (Cons b bs)
  have "take (length z - a) b = take (length b) (take (length z - a) (b @ concat bs))" by (simp add: take_take min_def)
  also have "\<dots> = take (length b) (drop a z)" using Cons.prems(4) by simp
  finally have b: "take (length z - a) b = take (length b) (drop a z)" .
  have a: "a < length z" "b \<noteq> []" "length b < 4294967296" using Cons.prems(3,5) by simp_all
  obtain fs1 w1 k1 e1 where p: "handle_flash_deflated_data c t b (of_nat (length b)) fs w = Some (fs1, w1)"
    "if a + length b < length z then inflating v pos off z out cs m k1 e1 (a + length b) fs1 w1 else inflated v off out m e1 fs1 w1"
    using deflated_chunk [OF c n o t cs om Cons.prems(1) a b] by blast
  show ?case
  proof (cases "bs = []")
    case True
    then have "length (take (length z - a) b) = length z - a" using Cons.prems(4) by simp
    then have "\<not> a + length b < length z" by simp
    then show ?thesis using p True by auto
  next
    case False
    then have l: "a + length b + length (concat (butlast bs)) < length z" using Cons.prems(5) by simp
    then have i: "inflating v pos off z out cs m k1 e1 (a + length b) fs1 w1" using p(2) by (simp split: if_splits)
    have "take (length z - (a + length b)) (concat bs) = drop (length b) (take (length z - a) (concat (b # bs)))" using l by (simp add: drop_take min_def)
    also have "\<dots> = drop (a + length b) z" unfolding Cons.prems(4) by (simp add: add.commute)
    finally obtain fs2 w2 e2 where "write_deflated c t bs fs1 w1 = Some (fs2, w2)" "inflated v off out m e2 fs2 w2"
      using Cons.IH [OF i False] Cons.prems(3) l by auto
    then show ?thesis using p(1) by auto
  qed
qed simp

text \<open>What handle_flash_deflated_begin leaves: a session that has written nothing, with the output buffer of before.\<close>

lemma deflated_start:
  assumes c: "spi_controller c n v" and n: "4096 * sectors_end off (length data) \<le> n"
  shows "\<exists>fs1 w1. handle_flash_deflated_begin c t (of_nat (length data)) (of_nat cs) (of_nat off) fs w = (ESP_OK, fs1, w1) \<and>
    session v off data (cell v w) 0 (off div 4096) fs1 w1 \<and> in_flash_mode fs1 \<and> last_error fs1 = ESP_OK \<and>
    out_buf fs1 = out_buf fs \<and> next_out fs1 = next_out fs \<and> inflator fs1 = tinfl_init t (inflator fs) \<and>
    remaining_compressed fs1 = of_nat cs"
proof -
  define fs0 where "fs0 = fs\<lparr>in_flash_mode := True, next_write := of_nat off, next_erase_sector := int (off div 4096),
    remaining := of_nat (length data), remaining_erase_sector := int (sectors_end off (length data) - off div 4096), last_error := ESP_OK\<rparr>"
  obtain w1 where w1: "handle_flash_begin c (of_nat (length data)) (of_nat off) fs w = (ESP_OK, fs0, w1)" "cell v w1 = cell v w"
    using session_start [OF c n, of fs w] unfolding fs0_def by blast
  define fs1 where "fs1 = fs0\<lparr>inflator := tinfl_init t (inflator fs0), remaining_compressed := of_nat cs\<rparr>"
  have "session v off data (cell v w) 0 (off div 4096) fs1 w1"
    by (rule session_begin [OF w1(2)]) (simp_all add: fs1_def fs0_def)
  then show ?thesis using w1(1) by (simp add: handle_flash_deflated_begin_def fs1_def fs0_def)
qed

text \<open>C13. A compressed upload whose size is not a multiple of the buffer's, in chunks of which only the last reaches the end of the
  stream, ends without error, and the flash then has the decompressed data at its place, 0xff in the rest of the sectors
  they touch, and elsewhere what it had; the output buffer is empty again.\<close>

theorem deflated_upload_exact:
  assumes c: "spi_controller c n v" and n: "4096 * sectors_end off (length out) \<le> n" and o: "off mod 4 = 0" "length out mod 4 = 0"
    and om: "length out mod OUT_BUF_SIZE \<noteq> 0"
    and t: "inflates t pos z out" and cs: "length z \<le> cs" "cs < 4294967296"
    and bs: "bs \<noteq> []" "\<forall>b \<in> set bs. b \<noteq> [] \<and> length b < 4294967296" "take (length z) (concat bs) = z" "length (concat (butlast bs)) < length z"
    and fs: "next_out fs = 0" "length (out_buf fs) = OUT_BUF_SIZE"
  shows "\<exists>fs1 w1 fs2 w2. handle_flash_deflated_begin c t (of_nat (length out)) (of_nat cs) (of_nat off) fs w = (ESP_OK, fs1, w1) \<and>
    write_deflated c t bs fs1 w1 = Some (fs2, w2) \<and> fst (handle_flash_end fs2) = ESP_OK \<and> next_out fs2 = 0 \<and>
    cell v w2 = flash_image off out (length out) (sectors_end off (length out)) (cell v w)"
proof -
  obtain fs1 w1 where b: "handle_flash_deflated_begin c t (of_nat (length out)) (of_nat cs) (of_nat off) fs w = (ESP_OK, fs1, w1)"
    and s: "session v off out (cell v w) 0 (off div 4096) fs1 w1" "in_flash_mode fs1" "last_error fs1 = ESP_OK"
      "out_buf fs1 = out_buf fs" "next_out fs1 = next_out fs" "inflator fs1 = tinfl_init t (inflator fs)" "remaining_compressed fs1 = of_nat cs"
    using deflated_start [OF c n] by blast
  have "pos (inflator fs1) = (0, 0)" using t s(6) by (simp add: inflates_def)
  then have i: "inflating v pos off z out cs (cell v w) 0 (off div 4096) 0 fs1 w1"
    using s fs by (simp add: inflating_def out_window_def OUT_BUF_SIZE_def)
  obtain fs2 w2 e where d: "write_deflated c t bs fs1 w1 = Some (fs2, w2)" "inflated v off out (cell v w) e fs2 w2"
    using deflated_chunks [OF c n o t cs om i bs(1,2)] bs(3,4) by auto
  then have f: "session v off out (cell v w) (length out) e fs2 w2" "next_out fs2 = 0" "in_flash_mode fs2" "last_error fs2 = ESP_OK"
    by (simp_all add: inflated_def)
  have "fst (handle_flash_end fs2) = ESP_OK" using f by (simp add: handle_flash_end_def session_def)
  moreover have "out \<noteq> []" using om by auto
  then have "e = sectors_end off (length out)" using session_complete [OF f(1)] by blast
  moreover have "cell v w2 = flash_image off out (length out) e (cell v w)" using f(1) by (simp add: session_def)
  ultimately show ?thesis using b d(1) f(2) by blast
qed

text \<open>A decompressor that gives its output first and then takes its input, for an example.\<close>

definition output_first :: "u8 list \<Rightarrow> u8 list \<Rightarrow> (nat \<times> nat) tinfl" where
  "output_first z out =
     \<lparr>tinfl_init = (\<lambda>i. (0, 0)),
      tinfl_decompress = (\<lambda>(a, b) inp buf j space flags.
        let y = min space (length out - b);
            buf = take j buf @ take y (drop b out) @ drop (j + y) buf
        in if b + y < length out then (2, 0, y, buf, (a, b + y))
           else if a + length inp < length z then (TINFL_STATUS_NEEDS_MORE_INPUT, length inp, y, buf, (a + length inp, b + y))
           else (TINFL_STATUS_DONE, length z - a, y, buf, (length z, b + y)))\<rparr>"

lemma output_first_inflates: "inflates (output_first z out) (\<lambda>i. i) z out"
  unfolding inflates_def
proof (intro conjI allI impI)
  fix i :: "nat \<times> nat" and a b inp buf j flags
  assume "i = (a, b) \<and> a < length z \<and> b \<le> length out \<and> inp \<noteq> [] \<and> take (length z - a) inp = take (length inp) (drop a z) \<and>
    length buf = OUT_BUF_SIZE \<and> j < OUT_BUF_SIZE \<and> out_window buf j out b \<and> flags AND TINFL_FLAG_PARSE_ZLIB_HEADER \<noteq> 0 \<and>
    (a + length inp < length z \<longrightarrow> flags AND TINFL_FLAG_HAS_MORE_INPUT \<noteq> 0)"
  then show "\<exists>st x y i'. tinfl_decompress (output_first z out) i inp buf j (OUT_BUF_SIZE - j) flags =
        (st, x, y, take j buf @ take y (drop b out) @ drop (j + y) buf, i') \<and>
      x \<le> length inp \<and> j + y \<le> OUT_BUF_SIZE \<and> b + y \<le> length out \<and> i' = (a + x, b + y) \<and>
      (st = TINFL_STATUS_DONE \<and> a + x = length z \<and> b + y = length out \<or>
       st = TINFL_STATUS_NEEDS_MORE_INPUT \<and> x = length inp \<and> a + x < length z \<or>
       st = 2 \<and> j + y = OUT_BUF_SIZE \<and> a + x < length z)"
    by (auto simp: output_first_def Let_def)
qed (simp add: output_first_def)

lemma deflated_upload_exact_witness:
  "\<exists>fs1 w1 fs2 w2. handle_flash_deflated_begin (sim_chip 8192) (output_first [7, 8] [1, 2, 3, 4]) 4 3 4096 idle_flashing blank_sim = (ESP_OK, fs1, w1) \<and>
    write_deflated (sim_chip 8192) (output_first [7, 8] [1, 2, 3, 4]) [[7], [8, 0]] fs1 w1 = Some (fs2, w2) \<and> sim_cell w2 4098 = 3"
  using deflated_upload_exact [OF sim_controller _ _ _ _ output_first_inflates, of 8192 4096 "[1, 2, 3, 4]" "[7, 8]" 3 "[[7], [8, 0]]" idle_flashing blank_sim]
  by (fastforce simp: sectors_end_def flash_image_def sim_view_def idle_flashing_def OUT_BUF_SIZE_def)

section \<open>After an upload that was broken off\<close>

text \<open>A chunk that the decompressor takes whole and ends with is written in one pass of the loop.\<close>

lemma inflate_one_pass:
  assumes e: "start_next_erase c fs w = Some (fs1, w1)" and r: "0 < remaining fs" and z: "z \<noteq> []" "length z < 4294967296"
    and t: "\<And>flags. tinfl_decompress t (inflator fs1) z (out_buf fs1) (next_out fs1) (OUT_BUF_SIZE - next_out fs) flags =
      (TINFL_STATUS_DONE, length z, y, buf, i')"
    and f: "handle_flash_data c buf (of_nat (next_out fs1 + y)) (fs1\<lparr>out_buf := buf, inflator := i',
      remaining_compressed := remaining_compressed fs1 - of_nat (length z), next_out := next_out fs1 + y\<rparr>) w1 = Some (fs2, w2)"
  shows "inflate_loop c t z (of_nat (length z)) TINFL_STATUS_NEEDS_MORE_INPUT fs w = Some (TINFL_STATUS_DONE, fs2\<lparr>next_out := 0\<rparr>, w2)"
proof -
  have uz: "unat (of_nat (length z) :: u32) = length z" using z(2) by (intro unat_small) simp
  have z0: "(0 :: u32) < of_nat (length z)" using z(1) uz by (simp add: word_less_nat_alt)
  have "inflate_loop c t b l TINFL_STATUS_DONE x y = Some (TINFL_STATUS_DONE, x, y)" for b l x y by (subst inflate_loop.simps) simp
  moreover have "TINFL_STATUS_DONE < TINFL_STATUS_NEEDS_MORE_INPUT" by (simp add: TINFL_STATUS_DONE_def TINFL_STATUS_NEEDS_MORE_INPUT_def)
  ultimately show ?thesis using e t f r z0 uz by (subst inflate_loop.simps) (simp add: Let_def)
qed

text \<open>C39. handle_flash_deflated_begin does not empty the output buffer.  If an upload was broken off with \<open>j\<close> bytes in it, then the next
  one, here of one chunk, writes them before its own output, which it cuts off by as much, and reports no error.\<close>

theorem stale_output_written:
  fixes fs :: "'i flashing" and out :: "u8 list"
  defines "j \<equiv> next_out fs"
  defines "data \<equiv> take (length out) (take j (out_buf fs) @ out)"
  assumes c: "spi_controller c n v" and n: "4096 * sectors_end off (length out) \<le> n" and o: "off mod 4 = 0" "length out mod 4 = 0" "out \<noteq> []"
    and j: "j + length out < OUT_BUF_SIZE" "length (out_buf fs) = OUT_BUF_SIZE" and z: "z \<noteq> []" "length z < 4294967296"
    and t: "\<forall>flags. tinfl_decompress t (tinfl_init t (inflator fs)) z (out_buf fs) j (OUT_BUF_SIZE - j) flags =
      (TINFL_STATUS_DONE, length z, length out, take j (out_buf fs) @ out @ drop (j + length out) (out_buf fs), i')"
  shows "\<exists>fs1 w1 fs2 w2. handle_flash_deflated_begin c t (of_nat (length out)) (of_nat (length z)) (of_nat off) fs w = (ESP_OK, fs1, w1) \<and>
    handle_flash_deflated_data c t z (of_nat (length z)) fs1 w1 = Some (fs2, w2) \<and> fst (handle_flash_end fs2) = ESP_OK \<and>
    cell v w2 = flash_image off data (length out) (sectors_end off (length out)) (cell v w)"
proof -
  have ld: "length data = length out" using j by (simp add: data_def)
  have n': "4096 * sectors_end off (length data) \<le> n" using n ld by simp
  obtain fs1 w1 where b: "handle_flash_deflated_begin c t (of_nat (length out)) (of_nat (length z)) (of_nat off) fs w = (ESP_OK, fs1, w1)"
    and s: "session v off data (cell v w) 0 (off div 4096) fs1 w1" and fs1: "in_flash_mode fs1" "last_error fs1 = ESP_OK"
      "out_buf fs1 = out_buf fs" "next_out fs1 = j" "inflator fs1 = tinfl_init t (inflator fs)"
    using deflated_start [OF c n', of t "length z" fs w] unfolding ld j_def by blast
  obtain fs2 w2 e2 where e: "start_next_erase c fs1 w1 = Some (fs2, w2)" "session v off data (cell v w) 0 e2 fs2 w2" "same_session fs1 fs2"
    using session_erase [OF c n' s] by blast
  then have fs2: "in_flash_mode fs2" "last_error fs2 = ESP_OK" "out_buf fs2 = out_buf fs" "next_out fs2 = j" "inflator fs2 = tinfl_init t (inflator fs)"
    using fs1 by (simp_all add: same_session_def)
  let ?buf = "take j (out_buf fs) @ out @ drop (j + length out) (out_buf fs)"
  define fs3 where "fs3 = fs2\<lparr>out_buf := ?buf, inflator := i',
    remaining_compressed := remaining_compressed fs2 - of_nat (length z), next_out := next_out fs2 + length out\<rparr>"
  have s3: "session v off data (cell v w) 0 e2 fs3 w2" using e(2) by (simp add: session_def fs3_def)
  have u: "unat (of_nat (j + length out) :: u32) = j + length out" using j(1) by (intro unat_small) (simp add: OUT_BUF_SIZE_def)
  have buf: "take (length data) ?buf = data" "length out \<le> length ?buf" unfolding ld using j by (simp_all add: data_def min_def)
  have "\<exists>fs' w' e'. handle_flash_data c ?buf (of_nat (j + length out)) fs3 w2 = Some (fs', w') \<and>
      session v off data (cell v w) (0 + length data) e' fs' w' \<and> same_session fs3 fs'"
    using u j ld o buf by (intro session_data [OF c n' s3]) auto
  then obtain fs4 w4 e4 where f: "handle_flash_data c ?buf (of_nat (j + length out)) fs3 w2 = Some (fs4, w4)"
    "session v off data (cell v w) (length data) e4 fs4 w4" "same_session fs3 fs4" by auto
  have r: "0 < remaining fs1" using session_small(3) [OF c n' s] ld o(3) by (simp add: word_less_nat_alt)
  have "inflate_loop c t z (of_nat (length z)) TINFL_STATUS_NEEDS_MORE_INPUT fs1 w1 = Some (TINFL_STATUS_DONE, fs4\<lparr>next_out := 0\<rparr>, w4)"
    using t f(1) fs1(4) fs2 by (intro inflate_one_pass [OF e(1) r z]) (simp_all add: fs3_def)
  then have "handle_flash_deflated_data c t z (of_nat (length z)) fs1 w1 = Some (fs4\<lparr>next_out := 0\<rparr>, w4)"
    using f(2) by (simp add: handle_flash_deflated_data_def session_def)
  moreover have "fst (handle_flash_end (fs4\<lparr>next_out := 0\<rparr>)) = ESP_OK"
    using f(2,3) fs2 by (simp add: handle_flash_end_def session_def same_session_def fs3_def)
  moreover have "data \<noteq> []" using ld o(3) by auto
  then have "cell v w4 = flash_image off data (length out) (sectors_end off (length out)) (cell v w)"
    using f(2) session_complete [OF f(2)] ld by (simp add: session_def)
  ultimately show ?thesis using b by blast
qed

lemma stale_output_written_witness:
  "\<exists>fs1 w1 fs2 w2. handle_flash_deflated_begin (sim_chip 8192) (output_first [7, 8] [1, 2, 3, 4]) 4 2 4096
      (idle_flashing\<lparr>next_out := 1, out_buf := 0xAA # replicate 32767 0\<rparr>) blank_sim = (ESP_OK, fs1, w1) \<and>
    handle_flash_deflated_data (sim_chip 8192) (output_first [7, 8] [1, 2, 3, 4]) [7, 8] 2 fs1 w1 = Some (fs2, w2) \<and>
    fst (handle_flash_end fs2) = ESP_OK \<and> sim_cell w2 4096 = 0xAA \<and> sim_cell w2 4097 = 1"
  using stale_output_written [OF sim_controller, of 8192 4096 "[1, 2, 3, 4]" "idle_flashing\<lparr>next_out := 1, out_buf := 0xAA # replicate 32767 0\<rparr>" "[7, 8]"
      "output_first [7, 8] [1, 2, 3, 4]" "(2, 4)" blank_sim]
  by (fastforce simp: sectors_end_def flash_image_def sim_view_def idle_flashing_def OUT_BUF_SIZE_def output_first_def)

end
