(* ===== verification/Stub_Slip.thy ===== *)
theory Stub_Slip
  imports Prelude
begin

text \<open>
  The framing of the flasher stub: tools/esptool/flasher_stub/slip.c and include/slip.h.  Bytes sent are a list, in the order of
  the calls of uart_tx_one_char; bytes received are a list, and a routine that waits for more than there is has the result
  \<open>None\<close>.  \<open>char\<close> is unsigned, as it is on this processor.
\<close>

section \<open>Sending\<close>

definition SLIP_send_frame_delimiter :: "u8 list" where "SLIP_send_frame_delimiter = [0xc0]"

definition SLIP_send_frame_data :: "u8 \<Rightarrow> u8 list" where
  "SLIP_send_frame_data ch =
     (if ch = 0xc0 then [0xdb, 0xdc] else if ch = 0xdb then [0xdb, 0xdd] else [ch])"

definition SLIP_send_frame_data_buf :: "u8 list \<Rightarrow> u8 list" where
  "SLIP_send_frame_data_buf buf = concat (map SLIP_send_frame_data buf)"

definition SLIP_send :: "u8 list \<Rightarrow> u8 list" where
  "SLIP_send pkt = SLIP_send_frame_delimiter @ SLIP_send_frame_data_buf pkt @ SLIP_send_frame_delimiter"

section \<open>Receiving\<close>

datatype slip_state = SLIP_NO_FRAME | SLIP_FRAME | SLIP_FRAME_ESCAPING

definition SLIP_FINISHED_FRAME :: int where "SLIP_FINISHED_FRAME = -2"
definition SLIP_NO_BYTE :: int where "SLIP_NO_BYTE = -1"

definition SLIP_recv_byte :: "u8 \<Rightarrow> slip_state \<Rightarrow> int \<times> slip_state" where
  "SLIP_recv_byte b state =
     (if b = 0xc0 then
        (if state = SLIP_NO_FRAME then (SLIP_NO_BYTE, SLIP_FRAME) else (SLIP_FINISHED_FRAME, SLIP_NO_FRAME))
      else
        (case state of
           SLIP_NO_FRAME \<Rightarrow> (SLIP_NO_BYTE, state)
         | SLIP_FRAME \<Rightarrow> (if b = 0xdb then (SLIP_NO_BYTE, SLIP_FRAME_ESCAPING) else (uint b, state))
         | SLIP_FRAME_ESCAPING \<Rightarrow>
             (if b = 0xdc then (0xc0, SLIP_FRAME)
              else if b = 0xdd then (0xdb, SLIP_FRAME)
              else (SLIP_NO_BYTE, state))))"

fun slip_recv_loop :: "nat \<Rightarrow> slip_state \<Rightarrow> nat \<Rightarrow> u8 list \<Rightarrow> u8 list \<Rightarrow> (nat \<times> u8 list \<times> u8 list) option" where
  "slip_recv_loop max_len state len p [] = None"
| "slip_recv_loop max_len state len p (b # input) = do {
     let (r, state) = SLIP_recv_byte b state;
     (len, p) \<leftarrow> (if 0 \<le> r \<and> len < max_len then do { p \<leftarrow> store p len (of_int r); Some (len + 1, p) } else Some (len, p));
     if r \<noteq> SLIP_FINISHED_FRAME then slip_recv_loop max_len state len p input else Some (len, p, input) }"

definition SLIP_recv :: "u8 list \<Rightarrow> nat \<Rightarrow> u8 list \<Rightarrow> (nat \<times> u8 list \<times> u8 list) option" where
  "SLIP_recv pkt max_len input = slip_recv_loop max_len SLIP_NO_FRAME 0 pkt input"

section \<open>What is sent is received\<close>

lemmas slip_codes = SLIP_FINISHED_FRAME_def SLIP_NO_BYTE_def

lemma delimiter_not_in_data: "0xc0 \<notin> set (SLIP_send_frame_data_buf buf)"
  by (induction buf) (auto simp: SLIP_send_frame_data_buf_def SLIP_send_frame_data_def)

lemma data_buf_simps [simp]:
  "SLIP_send_frame_data_buf [] = []"
  "SLIP_send_frame_data_buf (b # bs) = SLIP_send_frame_data b @ SLIP_send_frame_data_buf bs"
  "SLIP_send_frame_data_buf (as @ bs) = SLIP_send_frame_data_buf as @ SLIP_send_frame_data_buf bs"
  by (simp_all add: SLIP_send_frame_data_buf_def)

text \<open>What the receiver makes of one escaped byte.\<close>

lemma recv_byte_cases:
  "SLIP_send_frame_data b = [b] \<and> SLIP_recv_byte b SLIP_FRAME = (uint b, SLIP_FRAME) \<or>
   (\<exists>e. SLIP_send_frame_data b = [0xdb, e] \<and> SLIP_recv_byte e SLIP_FRAME_ESCAPING = (uint b, SLIP_FRAME))"
  by (auto simp: SLIP_send_frame_data_def SLIP_recv_byte_def)

lemma recv_escape [simp]: "SLIP_recv_byte 0xdb SLIP_FRAME = (SLIP_NO_BYTE, SLIP_FRAME_ESCAPING)"
  by (simp add: SLIP_recv_byte_def)

lemma recv_delimiter [simp]:
  "SLIP_recv_byte 0xc0 SLIP_NO_FRAME = (SLIP_NO_BYTE, SLIP_FRAME)"
  "SLIP_recv_byte 0xc0 SLIP_FRAME = (SLIP_FINISHED_FRAME, SLIP_NO_FRAME)"
  "SLIP_recv_byte 0xc0 SLIP_FRAME_ESCAPING = (SLIP_FINISHED_FRAME, SLIP_NO_FRAME)"
  by (simp_all add: SLIP_recv_byte_def)

lemma recv_noise [simp]: "b \<noteq> 0xc0 \<Longrightarrow> SLIP_recv_byte b SLIP_NO_FRAME = (SLIP_NO_BYTE, SLIP_NO_FRAME)"
  by (simp add: SLIP_recv_byte_def)

lemma recv_value [simp]: "uint (b :: u8) \<noteq> -2" "uint (b :: u8) \<noteq> -1"
  using uint_ge_0 [of b] by linarith+

lemma recv_loop_byte:
  assumes "max_len \<le> length p"
  shows "slip_recv_loop max_len SLIP_FRAME len p (SLIP_send_frame_data b @ input) =
    (if len < max_len then slip_recv_loop max_len SLIP_FRAME (len + 1) (p[len := b]) input
     else slip_recv_loop max_len SLIP_FRAME len p input)"
  using recv_byte_cases [of b] assms by (auto simp: store_def slip_codes)

lemma recv_loop_data:
  assumes "max_len \<le> length p" and "len \<le> max_len"
  shows "slip_recv_loop max_len SLIP_FRAME len p (SLIP_send_frame_data_buf bs @ 0xc0 # input) =
    Some (min max_len (len + length bs), take len p @ take (max_len - len) bs @ drop (min max_len (len + length bs)) p, input)"
  using assms
proof (induction bs arbitrary: len p)
  case Nil
  then show ?case by (simp add: slip_codes)
next
  case (Cons b bs)
  note step = recv_loop_byte [OF Cons.prems(1), where input = "SLIP_send_frame_data_buf bs @ 0xc0 # input"]
  show ?case
  proof (cases "len < max_len")
    case True
    have "take (max_len - len) (b # bs) = b # take (max_len - (len + 1)) bs" using True by (simp add: take_Cons' Suc_diff_Suc)
    then show ?thesis using Cons.IH [of "p[len := b]" "len + 1"] Cons.prems True step
      by (simp add: take_Suc_nth)
  next
    case False
    then show ?thesis using Cons.IH [of p len] Cons.prems step by simp
  qed
qed

lemma recv_loop_noise:
  "0xc0 \<notin> set noise \<Longrightarrow> slip_recv_loop max_len SLIP_NO_FRAME len p (noise @ input) = slip_recv_loop max_len SLIP_NO_FRAME len p input"
  by (induction noise) (auto simp: slip_codes)

lemma recv_packet:
  assumes "max_len \<le> length p"
  shows "SLIP_recv p max_len (SLIP_send pkt @ rest) =
    Some (min max_len (length pkt), take max_len pkt @ drop (min max_len (length pkt)) p, rest)"
  using recv_loop_data [OF assms, of 0 pkt rest] by (simp add: SLIP_recv_def SLIP_send_def SLIP_send_frame_delimiter_def slip_codes)

text \<open>C36. SLIP_recv finds the packet that SLIP_send has sent, after whatever without a delimiter came before: of each packet the
  first bytes, as many as the buffer takes, and nothing behind the packet is read.\<close>

theorem slip_roundtrip:
  assumes "max_len \<le> length p" and "0xc0 \<notin> set noise"
  shows "SLIP_recv p max_len (noise @ SLIP_send pkt @ rest) =
    Some (min max_len (length pkt), take max_len pkt @ drop (min max_len (length pkt)) p, rest)"
  using recv_loop_noise [OF assms(2)] recv_packet [OF assms(1)] by (simp add: SLIP_recv_def)

lemma slip_roundtrip_witness:
  "SLIP_recv [0, 0, 0, 0] 4 ([7, 9] @ SLIP_send [1, 0xc0, 0xdb] @ [5]) = Some (3, [1, 0xc0, 0xdb, 0], [5])"
  using slip_roundtrip [of 4 "[0, 0, 0, 0]" "[7, 9]" "[1, 0xc0, 0xdb]" "[5]"] by simp

end
