(* ===== verification/Stub_Commands.thy ===== *)
theory Stub_Commands
  imports Stub_Slip Stub_Controller
begin

text \<open>
  The command handlers of the flasher stub: tools/esptool/flasher_stub/stub_commands.c for the ESP8266.  The MD5 functions of the
  ROM are the record \<open>md5\<close>.  What is sent is returned as a list of bytes; a loop that does not end, or a wait for bytes that do
  not come, is \<open>None\<close>.  A store to memory is a WRITE_REG of the chip.
\<close>

section \<open>Erasing\<close>

text \<open>The two loops that erase sector by sector, the first until a block begins; and the one that erases blocks.\<close>

partial_function (option) erase_by_sector :: "'w chip \<Rightarrow> bool \<Rightarrow> int \<Rightarrow> u32 \<Rightarrow> u32 \<Rightarrow> 'w \<Rightarrow> (int \<times> 'w + u32 \<times> u32 \<times> 'w) option" where
  "erase_by_sector c aligning err addr len w =
     (if 0 < len \<and> (aligning \<longrightarrow> addr mod of_nat FLASH_BLOCK_SIZE \<noteq> 0) then
        (case SPIEraseSector (rom c) (unat addr div FLASH_SECTOR_SIZE) w of (r, w) \<Rightarrow>
           if r \<noteq> 0 then Some (Inl (err, w))
           else erase_by_sector c aligning err (addr + of_nat FLASH_SECTOR_SIZE) (len - of_nat FLASH_SECTOR_SIZE) w)
      else Some (Inr (addr, len, w)))"

partial_function (option) erase_by_block :: "'w chip \<Rightarrow> u32 \<Rightarrow> u32 \<Rightarrow> 'w \<Rightarrow> (int \<times> 'w + u32 \<times> u32 \<times> 'w) option" where
  "erase_by_block c addr len w =
     (if of_nat FLASH_BLOCK_SIZE < len then
        (case SPIEraseBlock (rom c) (unat addr div FLASH_BLOCK_SIZE) w of (r, w) \<Rightarrow>
           if r \<noteq> 0 then Some (Inl (0x36, w))
           else erase_by_block c (addr + of_nat FLASH_BLOCK_SIZE) (len - of_nat FLASH_BLOCK_SIZE) w)
      else Some (Inr (addr, len, w)))"

definition handle_flash_erase :: "'w chip \<Rightarrow> u32 \<Rightarrow> u32 \<Rightarrow> 'w \<Rightarrow> (int \<times> 'w) option" where
  "handle_flash_erase c addr len w =
     (if addr mod of_nat FLASH_SECTOR_SIZE \<noteq> 0 then Some (0x32, w)
      else if len mod of_nat FLASH_SECTOR_SIZE \<noteq> 0 then Some (0x33, w)
      else
        (let (r, w) = SPIUnlock c w in
         if r \<noteq> 0 then Some (0x34, w)
         else do {
           x \<leftarrow> erase_by_sector c True 0x35 addr len w;
           (case x of
              Inl r \<Rightarrow> Some r
            | Inr (addr, len, w) \<Rightarrow> do {
                x \<leftarrow> erase_by_block c addr len w;
                (case x of
                   Inl r \<Rightarrow> Some r
                 | Inr (addr, len, w) \<Rightarrow> do {
                     x \<leftarrow> erase_by_sector c False 0x37 addr len w;
                     Some (case x of Inl r \<Rightarrow> r | Inr (addr, len, w) \<Rightarrow> (0, w)) }) }) }))"

section \<open>Reading\<close>

record 'm md5 =
  MD5Init :: 'm
  MD5Update :: "'m \<Rightarrow> u8 list \<Rightarrow> 'm"
  MD5Final :: "'m \<Rightarrow> u8 list"

definition word_at :: "u8 list \<Rightarrow> nat \<Rightarrow> u32" where
  "word_at bs i = ucast (bs ! i) OR shl (ucast (bs ! (i + 1))) 8 OR shl (ucast (bs ! (i + 2))) 16 OR shl (ucast (bs ! (i + 3))) 24"

text \<open>The packets that may be in flight; \<open>buf\<close> has FLASH_SECTOR_SIZE bytes.\<close>

partial_function (option) send_blocks ::
    "'w chip \<Rightarrow> 'm md5 \<Rightarrow> u32 \<Rightarrow> u32 \<Rightarrow> u32 \<Rightarrow> u32 \<Rightarrow> u8 list \<times> u32 \<times> u32 \<times> 'm \<times> u8 list \<times> 'w \<Rightarrow>
     (u8 list \<times> u32 \<times> u32 \<times> 'm \<times> u8 list \<times> 'w) option" where
  "send_blocks c h len block_size max_in_flight num_acked st =
     (case st of (buf, addr, num_sent, ctx, out, w) \<Rightarrow>
        if num_sent < len \<and> num_sent - num_acked < max_in_flight then
          (let n = len - num_sent;
               n = (if block_size < n then block_size else n);
               (r, bs, w) = SPIRead (rom c) addr (take (unat n) buf) w;
               buf = bs @ drop (unat n) buf
           in if r \<noteq> 0 then Some (buf, addr, num_sent, ctx, out, w)
              else send_blocks c h len block_size max_in_flight num_acked
                (buf, addr + n, num_sent + n, MD5Update h ctx bs, out @ SLIP_send bs, w))
        else Some (buf, addr, num_sent, ctx, out, w))"

partial_function (option) flash_read_loop ::
    "'w chip \<Rightarrow> 'm md5 \<Rightarrow> u32 \<Rightarrow> u32 \<Rightarrow> u32 \<Rightarrow> u32 \<Rightarrow> u8 list \<Rightarrow> u8 list \<times> u32 \<times> u32 \<times> 'm \<times> u8 list \<times> 'w \<Rightarrow>
     ('m \<times> u8 list \<times> u8 list \<times> 'w) option" where
  "flash_read_loop c h len block_size max_in_flight num_acked input st =
     (case st of (buf, addr, num_sent, ctx, out, w) \<Rightarrow>
        if num_acked < len \<and> num_acked \<le> num_sent then do {
          st \<leftarrow> send_blocks c h len block_size max_in_flight num_acked st;
          (r, ack, input) \<leftarrow> SLIP_recv (le_bytes num_acked) 4 input;
          (if r \<noteq> 4 then (case st of (buf, addr, num_sent, ctx, out, w) \<Rightarrow> Some (ctx, out, input, w))
           else flash_read_loop c h len block_size max_in_flight (word_at ack 0) input st) }
        else Some (ctx, out, input, w))"

text \<open>The bytes received are the argument \<open>input\<close>; the result is whether the interrupt of the UART is on again, what is sent, what is
  left of the input, and the world.  \<open>stack\<close> is the contents of \<open>buf\<close> at the start.\<close>

definition handle_flash_read ::
    "'w chip \<Rightarrow> 'm md5 \<Rightarrow> u8 list \<Rightarrow> u32 \<Rightarrow> u32 \<Rightarrow> u32 \<Rightarrow> u32 \<Rightarrow> u8 list \<Rightarrow> 'w \<Rightarrow> (bool \<times> u8 list \<times> u8 list \<times> 'w) option" where
  "handle_flash_read c h stack addr len block_size max_in_flight input w =
     (if of_nat FLASH_SECTOR_SIZE < block_size then Some (False, [], input, w)
      else do {
        (ctx, out, input, w) \<leftarrow> flash_read_loop c h len block_size max_in_flight 0 input (stack, addr, 0, MD5Init h, [], w);
        Some (True, out @ SLIP_send (MD5Final h ctx), input, w) })"

partial_function (option) md5_loop ::
    "'w chip \<Rightarrow> 'm md5 \<Rightarrow> u32 \<Rightarrow> u32 \<Rightarrow> 'm \<Rightarrow> u8 list \<Rightarrow> 'w \<Rightarrow> ('m option \<times> 'w) option" where
  "md5_loop c h addr len ctx buf w =
     (if 0 < len then
        (let n = (if of_nat FLASH_SECTOR_SIZE < len then of_nat FLASH_SECTOR_SIZE else len);
             (r, bs, w) = SPIRead (rom c) addr (take (unat n) buf) w;
             buf = bs @ drop (unat n) buf
         in if r \<noteq> 0 then Some (None, w)
            else md5_loop c h (addr + n) (len - n) (MD5Update h ctx bs) buf w)
      else Some (Some ctx, w))"

definition handle_flash_get_md5sum :: "'w chip \<Rightarrow> 'm md5 \<Rightarrow> u8 list \<Rightarrow> u32 \<Rightarrow> u32 \<Rightarrow> 'w \<Rightarrow> (int \<times> u8 list \<times> 'w) option" where
  "handle_flash_get_md5sum c h stack addr len w = do {
     (ctx, w) \<leftarrow> md5_loop c h addr len (MD5Init h) stack w;
     Some (case ctx of None \<Rightarrow> (0x63, [], w) | Some ctx \<Rightarrow> (0, SLIP_send_frame_data_buf (MD5Final h ctx), w)) }"

section \<open>Configuration\<close>

definition handle_spi_set_params :: "'w chip \<Rightarrow> u32 list \<Rightarrow> 'w \<Rightarrow> esp_command_error \<times> int \<times> 'w" where
  "handle_spi_set_params c args w =
     (let (status, w) = SPIParamCfg c (take 6 args) w
      in (if status \<noteq> 0 then ESP_FAILED_SPI_OP else ESP_OK, sint status, w))"

definition handle_spi_attach :: "'w chip \<Rightarrow> u32 \<Rightarrow> 'w \<Rightarrow> esp_command_error \<times> 'w" where
  "handle_spi_attach c hspi_config_arg w = (ESP_OK, SelectSpiFunction c w)"

section \<open>Loading memory\<close>

record mem_load =
  mem_offset :: u32
  mem_remaining :: u32

definition handle_mem_begin :: "u32 \<Rightarrow> u32 \<Rightarrow> mem_load \<Rightarrow> esp_command_error \<times> mem_load" where
  "handle_mem_begin nbytes offset m = (ESP_OK, m\<lparr>mem_offset := offset, mem_remaining := nbytes\<rparr>)"

text \<open>\<open>for (int i = 0; i < length; i += 4)\<close>, where \<open>length\<close> is a multiple of 4\<close>

fun mem_store_words :: "'w chip \<Rightarrow> u8 list \<Rightarrow> mem_load \<Rightarrow> 'w \<Rightarrow> mem_load \<times> 'w" where
  "mem_store_words c (b0 # b1 # b2 # b3 # bs) m w =
     (let w = WRITE_REG c (mem_offset m) (word_at [b0, b1, b2, b3] 0) w
      in mem_store_words c bs (m\<lparr>mem_offset := mem_offset m + 4, mem_remaining := mem_remaining m - 4\<rparr>) w)"
| "mem_store_words c bs m w = (m, w)"

definition handle_mem_data :: "'w chip \<Rightarrow> u8 list \<Rightarrow> u32 \<Rightarrow> mem_load \<Rightarrow> 'w \<Rightarrow> (esp_command_error \<times> mem_load \<times> 'w) option" where
  "handle_mem_data c data len m w =
     (if mem_offset m = 0 \<and> 0 < len then Some (ESP_NOT_IN_FLASH_MODE, m, w)
      else if mem_remaining m < len then Some (ESP_TOO_MUCH_DATA, m, w)
      else if len mod 4 \<noteq> 0 then Some (ESP_BAD_DATA_LEN, m, w)
      else if length data < unat len then None
      else (let (m, w) = mem_store_words c (take (unat len) data) m w in Some (ESP_OK, m, w)))"

definition handle_mem_finish :: "mem_load \<Rightarrow> esp_command_error \<times> mem_load" where
  "handle_mem_finish m =
     (let res = (if 0 < mem_remaining m then ESP_NOT_ENOUGH_DATA else ESP_OK)
      in (res, m\<lparr>mem_remaining := 0, mem_offset := 0\<rparr>))"

end
