(* ===== verification/Stub_Main.thy ===== *)
theory Stub_Main
  imports Stub_Commands
begin

text \<open>
  The main program of the flasher stub: tools/esptool/flasher_stub/stub_flasher.c for the ESP8266, with the command and response
  structures of include/stub_flasher.h as bytes.  A command runs to its end before more bytes arrive; the delays are left out, they
  change nothing.
\<close>

section \<open>Commands\<close>

definition ESP_FLASH_BEGIN :: u8 where "ESP_FLASH_BEGIN = 0x02"
definition ESP_FLASH_DATA :: u8 where "ESP_FLASH_DATA = 0x03"
definition ESP_FLASH_END :: u8 where "ESP_FLASH_END = 0x04"
definition ESP_MEM_BEGIN :: u8 where "ESP_MEM_BEGIN = 0x05"
definition ESP_MEM_END :: u8 where "ESP_MEM_END = 0x06"
definition ESP_MEM_DATA :: u8 where "ESP_MEM_DATA = 0x07"
definition ESP_WRITE_REG :: u8 where "ESP_WRITE_REG = 0x09"
definition ESP_READ_REG :: u8 where "ESP_READ_REG = 0x0a"
definition ESP_SPI_SET_PARAMS :: u8 where "ESP_SPI_SET_PARAMS = 0x0b"
definition ESP_SPI_ATTACH :: u8 where "ESP_SPI_ATTACH = 0x0d"
definition ESP_SET_BAUD :: u8 where "ESP_SET_BAUD = 0x0f"
definition ESP_FLASH_DEFLATED_BEGIN :: u8 where "ESP_FLASH_DEFLATED_BEGIN = 0x10"
definition ESP_FLASH_DEFLATED_DATA :: u8 where "ESP_FLASH_DEFLATED_DATA = 0x11"
definition ESP_FLASH_DEFLATED_END :: u8 where "ESP_FLASH_DEFLATED_END = 0x12"
definition ESP_FLASH_VERIFY_MD5 :: u8 where "ESP_FLASH_VERIFY_MD5 = 0x13"
definition ESP_ERASE_FLASH :: u8 where "ESP_ERASE_FLASH = 0xD0"
definition ESP_ERASE_REGION :: u8 where "ESP_ERASE_REGION = 0xD1"
definition ESP_READ_FLASH :: u8 where "ESP_READ_FLASH = 0xD2"
definition ESP_RUN_USER_CODE :: u8 where "ESP_RUN_USER_CODE = 0xD3"

definition MAX_WRITE_BLOCK :: nat where "MAX_WRITE_BLOCK = 0x4000"

definition FLASH_PAGE_SIZE :: u32 where "FLASH_PAGE_SIZE = 256"
definition FLASH_STATUS_MASK :: u32 where "FLASH_STATUS_MASK = 0xFFFF"

text \<open>sizeof(ub.buf_a)\<close>

definition UART_BUF_SIZE :: nat where "UART_BUF_SIZE = MAX_WRITE_BLOCK + 64"

definition UART_CLKDIV_REG :: u32 where "UART_CLKDIV_REG = 0x60000014"
definition UART_FIFO :: u32 where "UART_FIFO = 0x60000000"
definition UART_INT_ST :: u32 where "UART_INT_ST = 0x60000008"
definition UART_INT_ENA :: u32 where "UART_INT_ENA = 0x6000000C"
definition UART_INT_CLR :: u32 where "UART_INT_CLR = 0x60000010"
definition UART_STATUS :: u32 where "UART_STATUS = 0x6000001C"
definition UART_RX_INTS :: u32 where "UART_RX_INTS = shl 1 0 OR shl 1 8"
definition UART_CLKDIV_M :: u32 where "UART_CLKDIV_M = 0x000FFFFF"

text \<open>A division by zero is an exception.\<close>

definition get_new_uart_divider :: "'w chip \<Rightarrow> u32 \<Rightarrow> u32 \<Rightarrow> 'w \<Rightarrow> (u32 \<times> 'w) option" where
  "get_new_uart_divider c current_baud new_baud w =
     (let (uart_reg, w) = READ_REG c UART_CLKDIV_REG w;
          uart_div = uart_reg AND UART_CLKDIV_M;
          master_freq = uart_div * current_baud
      in if new_baud = 0 then None else Some (master_freq div new_baud, w))"

text \<open>The fields of \<open>esp_command_req_t\<close>\<close>

definition cmd_op :: "u8 list \<Rightarrow> u8" where "cmd_op buf = buf ! 1"
definition cmd_data_len :: "u8 list \<Rightarrow> u16" where "cmd_data_len buf = ucast (buf ! 2) OR shl (ucast (buf ! 3)) 8"
definition cmd_checksum :: "u8 list \<Rightarrow> u32" where "cmd_checksum buf = word_at buf 4"
definition cmd_data_buf :: "u8 list \<Rightarrow> u8 list" where "cmd_data_buf buf = drop 8 buf"

section \<open>Receiving\<close>

text \<open>\<open>uart_buf_t\<close>: \<open>reading_a\<close> says that \<open>reading_buf\<close> is \<open>buf_a\<close>; \<open>command\<close> says which buffer, if any, holds a command.\<close>

record uart_buf =
  buf_a :: "u8 list"
  buf_b :: "u8 list"
  reading_a :: bool
  read_len :: nat
  rx_state :: slip_state
  command :: "bool option"

definition calculate_checksum :: "u8 list \<Rightarrow> int \<Rightarrow> u8" where
  "calculate_checksum buf len = foldl (\<lambda>res b. res XOR b) 0xef (take (nat len) buf)"

definition uart_isr_receive :: "u8 \<Rightarrow> uart_buf \<Rightarrow> uart_buf option" where
  "uart_isr_receive b ub = do {
     let (r, state) = SLIP_recv_byte b (rx_state ub);
     let ub = ub\<lparr>rx_state := state\<rparr>;
     (r, ub) \<leftarrow>
       (if 0 \<le> r then do {
          ub \<leftarrow> (if reading_a ub then do { x \<leftarrow> store (buf_a ub) (read_len ub) (of_int r); Some (ub\<lparr>buf_a := x\<rparr>) }
                else do { x \<leftarrow> store (buf_b ub) (read_len ub) (of_int r); Some (ub\<lparr>buf_b := x\<rparr>) });
          let ub = ub\<lparr>read_len := read_len ub + 1\<rparr>;
          Some (if read_len ub = UART_BUF_SIZE then SLIP_FINISHED_FRAME else r, ub) }
        else Some (r, ub));
     Some (if r = SLIP_FINISHED_FRAME then ub\<lparr>command := Some (reading_a ub), reading_a := \<not> reading_a ub, read_len := 0\<rparr>
           else ub) }"

text \<open>Bytes in the order they come.\<close>

primrec receive_bytes :: "u8 list \<Rightarrow> uart_buf \<Rightarrow> uart_buf option" where
  "receive_bytes [] ub = Some ub"
| "receive_bytes (b # bs) ub = do { ub \<leftarrow> uart_isr_receive b ub; receive_bytes bs ub }"

text \<open>The inner loop of uart_isr, its outer loop, and uart_isr.\<close>

primrec fifo_read :: "'w chip \<Rightarrow> nat \<Rightarrow> uart_buf \<Rightarrow> 'w \<Rightarrow> (uart_buf \<times> 'w) option" where
  "fifo_read c 0 ub w = Some (ub, w)"
| "fifo_read c (Suc fifo_len) ub w =
     (let (v, w) = READ_REG c UART_FIFO w in do { ub \<leftarrow> uart_isr_receive (ucast (v AND 0xff)) ub; fifo_read c fifo_len ub w })"

partial_function (option) fifo_loop :: "'w chip \<Rightarrow> uart_buf \<Rightarrow> 'w \<Rightarrow> (uart_buf \<times> 'w) option" where
  "fifo_loop c ub w =
     (let (v, w) = READ_REG c UART_STATUS w; fifo_len = v AND 0xff in
      if fifo_len = 0 then Some (ub, w)
      else do { (ub, w) \<leftarrow> fifo_read c (unat fifo_len) ub w; fifo_loop c ub w })"

definition uart_isr :: "'w chip \<Rightarrow> uart_buf \<Rightarrow> 'w \<Rightarrow> (uart_buf \<times> 'w) option" where
  "uart_isr c ub w =
     (let (int_st, w) = READ_REG c UART_INT_ST w in do {
        (ub, w) \<leftarrow> fifo_loop c ub w;
        Some (ub, WRITE_REG c UART_INT_CLR int_st w) })"

definition verify_data_len :: "u8 list \<Rightarrow> u8 \<Rightarrow> esp_command_error" where
  "verify_data_len cmd len = (if cmd_data_len cmd = ucast len then ESP_OK else ESP_BAD_DATA_LEN)"

section \<open>The command loop\<close>

record 'i stub =
  flash :: "'i flashing"
  mem :: mem_load
  uart :: uart_buf
  uart_enabled :: bool
  sent :: "u8 list"

text \<open>\<open>a || b\<close>, an int\<close>

definition c_or :: "esp_command_error \<Rightarrow> int \<Rightarrow> int" where
  "c_or a b = (if a \<noteq> 0 \<or> b \<noteq> 0 then 1 else 0)"

text \<open>What happens before the status is sent: the error, the status, and what is sent within the frame.  \<open>stack\<close> is the contents of
  the buffers on the stack.\<close>

definition first_stage ::
    "'w chip \<Rightarrow> 'i tinfl \<Rightarrow> 'm md5 \<Rightarrow> u8 list \<Rightarrow> u8 list \<Rightarrow> 'i stub \<Rightarrow> 'w \<Rightarrow> (int \<times> int \<times> u8 list \<times> 'i stub \<times> 'w) option" where
  "first_stage c t h stack cmd s w =
     (let op = cmd_op cmd; data = cmd_data_buf cmd; dw = (\<lambda>i. word_at data (4 * i)); bad = (\<lambda>n. verify_data_len cmd n) in
      if op = ESP_ERASE_FLASH then
        (if bad 0 \<noteq> 0 then Some (1, 0, [], s, w) else (let (r, w) = SPIEraseChip c w in Some (c_or 0 r, 0, [], s, w)))
      else if op = ESP_ERASE_REGION then
        (if bad 8 \<noteq> 0 then Some (1, 0, [], s, w)
         else do { (r, w) \<leftarrow> handle_flash_erase c (dw 0) (dw 1) w; Some (c_or 0 r, 0, [], s, w) })
      else if op = ESP_SET_BAUD then Some (bad 8, 0, [], s, w)
      else if op = ESP_READ_FLASH then Some (bad 16, 0, [], s, w)
      else if op = ESP_FLASH_VERIFY_MD5 then
        (if bad 16 \<noteq> 0 then Some (1, 0, [], s, w)
         else do { (r, out, w) \<leftarrow> handle_flash_get_md5sum c h stack (dw 0) (dw 1) w; Some (c_or 0 r, 0, out, s, w) })
      else if op = ESP_FLASH_BEGIN then
        (if cmd_data_len cmd = 16 \<and> dw 2 \<noteq> of_nat MAX_WRITE_BLOCK then Some (ESP_BAD_BLOCKSIZE, 0, [], s, w)
         else if bad 16 \<noteq> 0 then Some (1, 0, [], s, w)
         else (let (r, fs, w) = handle_flash_begin c (dw 0) (dw 3) (flash s) w in Some (c_or 0 r, 0, [], s\<lparr>flash := fs\<rparr>, w)))
      else if op = ESP_FLASH_DEFLATED_BEGIN then
        (if cmd_data_len cmd = 16 \<and> dw 2 \<noteq> of_nat MAX_WRITE_BLOCK then Some (ESP_BAD_BLOCKSIZE, 0, [], s, w)
         else if bad 16 \<noteq> 0 then Some (1, 0, [], s, w)
         else (let (r, fs, w) = handle_flash_deflated_begin c t (dw 0) (dw 1 * dw 2) (dw 3) (flash s) w
               in Some (c_or 0 r, 0, [], s\<lparr>flash := fs\<rparr>, w)))
      else if op = ESP_FLASH_DATA \<or> op = ESP_FLASH_DEFLATED_DATA then
        (if is_in_flash_mode (flash s) then
           (let error = get_flash_error (flash s);
                payload_len = uint (cmd_data_len cmd) - 16;
                error = (if dw 0 \<noteq> of_int payload_len then ESP_BAD_DATA_LEN else error);
                data_checksum = calculate_checksum (drop 16 data) payload_len;
                error = (if ucast data_checksum \<noteq> cmd_checksum cmd then ESP_BAD_DATA_CHECKSUM else error)
            in Some (error, 0, [], s, w))
         else Some (ESP_NOT_IN_FLASH_MODE, 0, [], s, w))
      else if op = ESP_FLASH_END \<or> op = ESP_FLASH_DEFLATED_END then
        (let (r, fs) = handle_flash_end (flash s) in Some (r, 0, [], s\<lparr>flash := fs\<rparr>, w))
      else if op = ESP_SPI_SET_PARAMS then
        (if bad 24 \<noteq> 0 then Some (1, 0, [], s, w)
         else (let (r, status, w) = handle_spi_set_params c (map dw [0..<6]) w in Some (c_or 0 r, status, [], s, w)))
      else if op = ESP_SPI_ATTACH then
        (if bad 4 \<noteq> 0 then Some (1, 0, [], s, w) else (let (r, w) = handle_spi_attach c (dw 0) w in Some (c_or 0 r, 0, [], s, w)))
      else if op = ESP_WRITE_REG then
        (if bad 16 = ESP_OK then Some (ESP_OK, 0, [], s, WRITE_REG c (dw 0) (dw 1) w) else Some (bad 16, 0, [], s, w))
      else if op = ESP_READ_REG then Some (bad 4, 0, [], s, w)
      else if op = ESP_MEM_BEGIN then
        (if bad 16 \<noteq> 0 then Some (1, 0, [], s, w)
         else (let (r, m) = handle_mem_begin (dw 0) (dw 3) (mem s) in Some (c_or 0 r, 0, [], s\<lparr>mem := m\<rparr>, w)))
      else if op = ESP_MEM_DATA then do {
        (r, m, w) \<leftarrow> handle_mem_data c (drop 16 data) (of_int (uint (cmd_data_len cmd) - 16)) (mem s) w;
        Some (r, 0, [], s\<lparr>mem := m\<rparr>, w) }
      else if op = ESP_MEM_END then
        (if bad 8 \<noteq> 0 then Some (1, 0, [], s, w)
         else (let (r, m) = handle_mem_finish (mem s) in Some (c_or 0 r, 0, [], s\<lparr>mem := m\<rparr>, w)))
      else Some (ESP_CMD_NOT_IMPLEMENTED, 0, [], s, w))"

text \<open>Where a command leads: to the next one, to a reset, to code loaded into memory, or out of the stub.\<close>

datatype ('i, 'w) stub_outcome = Next "'i stub" 'w | Reset "'i stub" 'w | Entry u32 "'i stub" 'w | RunUserCode "'i stub" 'w

text \<open>What happens after the status has been sent; \<open>input\<close> is what arrives while flash is read.\<close>

definition second_stage ::
    "'w chip \<Rightarrow> 'i tinfl \<Rightarrow> 'm md5 \<Rightarrow> u8 list \<Rightarrow> u8 list \<Rightarrow> u8 list \<Rightarrow> 'i stub \<Rightarrow> 'w \<Rightarrow> ('i, 'w) stub_outcome option" where
  "second_stage c t h stack input cmd s w =
     (let op = cmd_op cmd; data = cmd_data_buf cmd; dw = (\<lambda>i. word_at data (4 * i)); len = of_int (uint (cmd_data_len cmd) - 16) in
      if op = ESP_SET_BAUD then
        do { (d, w) \<leftarrow> get_new_uart_divider c (dw 1) (dw 0) w; Some (Next s (uart_div_modify c 0 d w)) }
      else if op = ESP_READ_FLASH then do {
        (enabled, out, input, w) \<leftarrow> handle_flash_read c h stack (dw 0) (dw 1) (dw 2) (dw 3) input w;
        Some (Next (s\<lparr>sent := sent s @ out, uart_enabled := enabled\<rparr>) w) }
      else if op = ESP_FLASH_DATA then do {
        (fs, w) \<leftarrow> handle_flash_data c (drop 16 data) len (flash s) w;
        Some (Next (s\<lparr>flash := fs\<rparr>) w) }
      else if op = ESP_FLASH_DEFLATED_DATA then do {
        (fs, w) \<leftarrow> handle_flash_deflated_data c t (drop 16 data) len (flash s) w;
        Some (Next (s\<lparr>flash := fs\<rparr>) w) }
      else if op = ESP_FLASH_DEFLATED_END \<or> op = ESP_FLASH_END then Some (if dw 0 = 0 then Reset s w else Next s w)
      else if op = ESP_MEM_END then Some (if dw 1 \<noteq> 0 then Entry (dw 1) s w else Next s w)
      else Some (Next s w))"

definition response :: "u8 \<Rightarrow> u16 \<Rightarrow> u32 \<Rightarrow> u8 list" where
  "response op len_ret value = [1, op, ucast len_ret, ucast (shr len_ret 8)] @ le_bytes value"

text \<open>One pass of the loop of cmd_loop, once there is a command.\<close>

definition cmd_step ::
    "'w chip \<Rightarrow> 'i tinfl \<Rightarrow> 'm md5 \<Rightarrow> u8 list \<Rightarrow> u8 list \<Rightarrow> 'i stub \<Rightarrow> 'w \<Rightarrow> ('i, 'w) stub_outcome option" where
  "cmd_step c t h stack input s w =
     (case command (uart s) of
        None \<Rightarrow> None
      | Some in_a \<Rightarrow>
          (let cmd = (if in_a then buf_a (uart s) else buf_b (uart s));
               s = s\<lparr>uart := (uart s)\<lparr>command := None\<rparr>\<rparr>;
               op = cmd_op cmd;
               (value, w) = (if op = ESP_READ_REG \<and> cmd_data_len cmd = 4 then READ_REG c (word_at (cmd_data_buf cmd) 0) w else (0, w));
               len_ret = (if op = ESP_FLASH_VERIFY_MD5 then 18 else 2);
               s = s\<lparr>sent := sent s @ SLIP_send_frame_delimiter @ SLIP_send_frame_data_buf (response op len_ret value)\<rparr>
           in if MAX_WRITE_BLOCK + 16 < unat (cmd_data_len cmd) then
                Some (Next (s\<lparr>sent := sent s @ SLIP_send_frame_data (of_int ESP_BAD_DATA_LEN) @ SLIP_send_frame_data 0xEE @
                  SLIP_send_frame_delimiter\<rparr>) w)
              else if op = ESP_RUN_USER_CODE then Some (RunUserCode s w)
              else do {
                (error, status, out, s, w) \<leftarrow> first_stage c t h stack cmd s w;
                let s = s\<lparr>sent := sent s @ out @ SLIP_send_frame_data (of_int error) @ SLIP_send_frame_data (of_int status) @
                  SLIP_send_frame_delimiter\<rparr>;
                (if error = ESP_OK then second_stage c t h stack input cmd s w else Some (Next s w)) }))"

section \<open>The start\<close>

text \<open>stub_main up to cmd_loop: the variables of the stub are zero, the decompressor too.\<close>

definition stub_main :: "'w chip \<Rightarrow> 'i \<Rightarrow> 'w \<Rightarrow> 'i stub \<times> 'w" where
  "stub_main c zero w =
     (\<lparr>flash = \<lparr>in_flash_mode = False, next_write = 0, next_erase_sector = 0, remaining = 0, remaining_erase_sector = 0, last_error = 0,
         inflator = zero, remaining_compressed = 0, out_buf = replicate OUT_BUF_SIZE 0, next_out = 0\<rparr>,
       mem = \<lparr>mem_offset = 0, mem_remaining = 0\<rparr>,
       uart = \<lparr>buf_a = replicate UART_BUF_SIZE 0, buf_b = replicate UART_BUF_SIZE 0, reading_a = True, read_len = 0,
         rx_state = SLIP_NO_FRAME, command = None\<rparr>,
       uart_enabled = True, sent = SLIP_send (le_bytes 0x4941484f)\<rparr>,
      (let (x, w) = READ_REG c UART_INT_ENA w;
           w = WRITE_REG c UART_INT_ENA (x OR UART_RX_INTS) w;
           w = spi_flash_attach c (SelectSpiFunction c w)
       in snd (SPIParamCfg c [0, 16 * 1024 * 1024, of_nat FLASH_BLOCK_SIZE, of_nat FLASH_SECTOR_SIZE, FLASH_PAGE_SIZE, FLASH_STATUS_MASK] w)))"

end
