(* ===== verification/Stub_Protocol.thy ===== *)
theory Stub_Protocol
  imports Stub_Deflated Stub_Main
begin

text \<open>
  The flasher stub and its host: frames received, replies sent, and an upload from the packets to the flash.
\<close>

section \<open>Frames\<close>

definition rbuf :: "uart_buf \<Rightarrow> u8 list" where "rbuf ub = (if reading_a ub then buf_a ub else buf_b ub)"

definition set_rbuf :: "u8 list \<Rightarrow> uart_buf \<Rightarrow> uart_buf" where
  "set_rbuf x ub = (if reading_a ub then ub\<lparr>buf_a := x\<rparr> else ub\<lparr>buf_b := x\<rparr>)"

lemma rbuf_simps [simp]:
  "rbuf (set_rbuf x ub) = x" "set_rbuf y (set_rbuf x ub) = set_rbuf y ub" "set_rbuf (rbuf ub) ub = ub"
  "rbuf (ub\<lparr>read_len := n\<rparr>) = rbuf ub" "set_rbuf x (ub\<lparr>read_len := n\<rparr>) = (set_rbuf x ub)\<lparr>read_len := n\<rparr>"
  "rbuf (ub\<lparr>rx_state := st\<rparr>) = rbuf ub" "set_rbuf x (ub\<lparr>rx_state := st\<rparr>) = (set_rbuf x ub)\<lparr>rx_state := st\<rparr>"
  "rx_state (set_rbuf x ub) = rx_state ub" "read_len (set_rbuf x ub) = read_len ub" "reading_a (set_rbuf x ub) = reading_a ub"
  by (simp_all add: rbuf_def set_rbuf_def)

lemma isr_quiet:
  assumes "SLIP_recv_byte b (rx_state ub) = (SLIP_NO_BYTE, st)"
  shows "uart_isr_receive b ub = Some (ub\<lparr>rx_state := st\<rparr>)"
  using assms by (simp add: uart_isr_receive_def slip_codes)

lemma isr_byte:
  assumes "SLIP_recv_byte b (rx_state ub) = (uint x, st)" and "read_len ub + 1 < UART_BUF_SIZE" and "length (rbuf ub) = UART_BUF_SIZE"
  shows "uart_isr_receive b ub = Some ((set_rbuf ((rbuf ub)[read_len ub := x]) ub)\<lparr>rx_state := st, read_len := read_len ub + 1\<rparr>)"
  using assms by (simp add: uart_isr_receive_def store_def rbuf_def set_rbuf_def slip_codes split: if_splits)

lemma isr_end:
  assumes "SLIP_recv_byte b (rx_state ub) = (SLIP_FINISHED_FRAME, st)"
  shows "uart_isr_receive b ub = Some (ub\<lparr>rx_state := st, command := Some (reading_a ub), reading_a := \<not> reading_a ub, read_len := 0\<rparr>)"
  using assms by (simp add: uart_isr_receive_def slip_codes)

lemma isr_data_byte:
  assumes "rx_state ub = SLIP_FRAME" and "read_len ub + 1 < UART_BUF_SIZE" and "length (rbuf ub) = UART_BUF_SIZE"
  shows "receive_bytes (SLIP_send_frame_data b @ rest) ub =
    receive_bytes rest ((set_rbuf ((rbuf ub)[read_len ub := b]) ub)\<lparr>read_len := read_len ub + 1\<rparr>)"
  using recv_byte_cases [of b]
proof
  assume "SLIP_send_frame_data b = [b] \<and> SLIP_recv_byte b SLIP_FRAME = (uint b, SLIP_FRAME)"
  moreover from this have "uart_isr_receive b ub = Some ((set_rbuf ((rbuf ub)[read_len ub := b]) ub)\<lparr>rx_state := SLIP_FRAME, read_len := read_len ub + 1\<rparr>)"
    using assms by (intro isr_byte) simp_all
  moreover have "(set_rbuf ((rbuf ub)[read_len ub := b]) ub)\<lparr>rx_state := SLIP_FRAME, read_len := read_len ub + 1\<rparr> =
      (set_rbuf ((rbuf ub)[read_len ub := b]) ub)\<lparr>read_len := read_len ub + 1\<rparr>" using assms(1) by (simp add: set_rbuf_def)
  ultimately show ?thesis by simp
next
  assume "\<exists>e. SLIP_send_frame_data b = [0xdb, e] \<and> SLIP_recv_byte e SLIP_FRAME_ESCAPING = (uint b, SLIP_FRAME)"
  then obtain e where e: "SLIP_send_frame_data b = [0xdb, e]" "SLIP_recv_byte e SLIP_FRAME_ESCAPING = (uint b, SLIP_FRAME)" by blast
  let ?u = "ub\<lparr>rx_state := SLIP_FRAME_ESCAPING\<rparr>"
  have "uart_isr_receive 0xdb ub = Some ?u" using assms(1) by (intro isr_quiet) simp
  moreover have "uart_isr_receive e ?u = Some ((set_rbuf ((rbuf ?u)[read_len ?u := b]) ?u)\<lparr>rx_state := SLIP_FRAME, read_len := read_len ?u + 1\<rparr>)"
    using assms e(2) by (intro isr_byte) simp_all
  moreover have "(set_rbuf ((rbuf ?u)[read_len ?u := b]) ?u)\<lparr>rx_state := SLIP_FRAME, read_len := read_len ?u + 1\<rparr> =
      (set_rbuf ((rbuf ub)[read_len ub := b]) ub)\<lparr>read_len := read_len ub + 1\<rparr>" using assms(1) by (simp add: set_rbuf_def rbuf_def)
  ultimately show ?thesis using e(1) by simp
qed

lemma isr_data:
  "rx_state ub = SLIP_FRAME \<Longrightarrow> read_len ub + length pkt < UART_BUF_SIZE \<Longrightarrow> length (rbuf ub) = UART_BUF_SIZE \<Longrightarrow>
    receive_bytes (SLIP_send_frame_data_buf pkt @ rest) ub =
    receive_bytes rest ((set_rbuf (take (read_len ub) (rbuf ub) @ pkt @ drop (read_len ub + length pkt) (rbuf ub)) ub)\<lparr>read_len := read_len ub + length pkt\<rparr>)"
proof (induction pkt arbitrary: ub)
  case Nil
  then show ?case by simp
next
  case (Cons b pkt)
  let ?u = "(set_rbuf ((rbuf ub)[read_len ub := b]) ub)\<lparr>read_len := read_len ub + 1\<rparr>"
  have "receive_bytes (SLIP_send_frame_data_buf (b # pkt) @ rest) ub = receive_bytes (SLIP_send_frame_data_buf pkt @ rest) ?u"
    using isr_data_byte [of ub b "SLIP_send_frame_data_buf pkt @ rest"] Cons.prems by simp
  also have "\<dots> = receive_bytes rest ((set_rbuf (take (read_len ?u) (rbuf ?u) @ pkt @ drop (read_len ?u + length pkt) (rbuf ?u)) ?u)\<lparr>read_len := read_len ?u + length pkt\<rparr>)"
    using Cons.prems by (intro Cons.IH) simp_all
  finally show ?case using Cons.prems(2,3) by (simp add: take_Suc_nth)
qed

lemma isr_noise: "0xc0 \<notin> set noise \<Longrightarrow> rx_state ub = SLIP_NO_FRAME \<Longrightarrow> receive_bytes (noise @ rest) ub = receive_bytes rest ub"
proof (induction noise)
  case (Cons b noise)
  then have "uart_isr_receive b ub = Some (ub\<lparr>rx_state := SLIP_NO_FRAME\<rparr>)" by (intro isr_quiet) simp
  moreover have "ub\<lparr>rx_state := SLIP_NO_FRAME\<rparr> = ub" using Cons.prems by (cases ub) simp
  ultimately show ?case using Cons by simp
qed simp

text \<open>The receiver between two frames.\<close>

definition between_frames :: "uart_buf \<Rightarrow> bool" where
  "between_frames ub \<longleftrightarrow> rx_state ub = SLIP_NO_FRAME \<and> read_len ub = 0 \<and> length (buf_a ub) = UART_BUF_SIZE \<and> length (buf_b ub) = UART_BUF_SIZE"

lemma frame_received_plain:
  assumes "between_frames ub" and "length pkt < UART_BUF_SIZE"
  shows "receive_bytes (SLIP_send pkt) ub =
    Some ((if reading_a ub then ub\<lparr>buf_a := pkt @ drop (length pkt) (buf_a ub)\<rparr> else ub\<lparr>buf_b := pkt @ drop (length pkt) (buf_b ub)\<rparr>)
      \<lparr>command := Some (reading_a ub), reading_a := \<not> reading_a ub\<rparr>)"
proof -
  let ?u = "ub\<lparr>rx_state := SLIP_FRAME\<rparr>"
  let ?x = "pkt @ drop (length pkt) (rbuf ub)"
  have b: "rx_state ub = SLIP_NO_FRAME" "read_len ub = 0" "length (rbuf ub) = UART_BUF_SIZE"
    using assms(1) by (simp_all add: between_frames_def rbuf_def)
  have "receive_bytes (SLIP_send pkt) ub = receive_bytes (0xc0 # SLIP_send_frame_data_buf pkt @ [0xc0]) ub"
    by (simp add: SLIP_send_def SLIP_send_frame_delimiter_def)
  also have "\<dots> = receive_bytes (SLIP_send_frame_data_buf pkt @ [0xc0]) ?u" using isr_quiet [of "0xc0" ub SLIP_FRAME] b(1) by simp
  also have "\<dots> = receive_bytes [0xc0] ((set_rbuf ?x ?u)\<lparr>read_len := length pkt\<rparr>)" using isr_data [of ?u pkt "[0xc0]"] b assms(2) by simp
  also have "\<dots> = Some ((set_rbuf ?x ub)\<lparr>command := Some (reading_a ub), reading_a := \<not> reading_a ub\<rparr>)"
    using isr_end [of "0xc0" "(set_rbuf ?x ?u)\<lparr>read_len := length pkt\<rparr>" SLIP_NO_FRAME] b(1,2) by (simp add: set_rbuf_def)
  finally show ?thesis by (simp add: set_rbuf_def rbuf_def)
qed

text \<open>A frame that fits is handed to the command loop in the buffer that was being read, from its start; the rest of that buffer is
  what it was, so that an empty frame hands over the old contents; the other buffer is read next.\<close>

theorem frame_received:
  assumes "between_frames ub" and "0xc0 \<notin> set noise" and "length pkt < UART_BUF_SIZE"
  shows "receive_bytes (noise @ SLIP_send pkt) ub =
    Some ((if reading_a ub then ub\<lparr>buf_a := pkt @ drop (length pkt) (buf_a ub)\<rparr> else ub\<lparr>buf_b := pkt @ drop (length pkt) (buf_b ub)\<rparr>)
      \<lparr>command := Some (reading_a ub), reading_a := \<not> reading_a ub\<rparr>)"
  using isr_noise [OF assms(2)] frame_received_plain [OF assms(1,3)] assms(1) by (simp add: between_frames_def)

definition first_uart :: uart_buf where
  "first_uart = \<lparr>buf_a = replicate UART_BUF_SIZE 0, buf_b = replicate UART_BUF_SIZE 0, reading_a = True, read_len = 0,
     rx_state = SLIP_NO_FRAME, command = None\<rparr>"

lemma frame_received_witness:
  "\<exists>ub. receive_bytes ([7] @ SLIP_send [1, 0xc0, 3]) first_uart = Some ub \<and> command ub = Some True \<and> take 3 (buf_a ub) = [1, 0xc0, 3]"
  using frame_received [of first_uart "[7]" "[1, 0xc0, 3]"]
  by (simp add: first_uart_def between_frames_def UART_BUF_SIZE_def MAX_WRITE_BLOCK_def)

section \<open>Replies\<close>

lemmas esp_ops = ESP_FLASH_BEGIN_def ESP_FLASH_DATA_def ESP_FLASH_END_def ESP_MEM_BEGIN_def ESP_MEM_END_def ESP_MEM_DATA_def
  ESP_WRITE_REG_def ESP_READ_REG_def ESP_SPI_SET_PARAMS_def ESP_SPI_ATTACH_def ESP_SET_BAUD_def ESP_FLASH_DEFLATED_BEGIN_def
  ESP_FLASH_DEFLATED_DATA_def ESP_FLASH_DEFLATED_END_def ESP_FLASH_VERIFY_MD5_def ESP_ERASE_FLASH_def ESP_ERASE_REGION_def
  ESP_READ_FLASH_def ESP_RUN_USER_CODE_def

fun outcome_stub :: "('i, 'w) stub_outcome \<Rightarrow> 'i stub" where
  "outcome_stub (Next s w) = s"
| "outcome_stub (Reset s w) = s"
| "outcome_stub (Entry a s w) = s"
| "outcome_stub (RunUserCode s w) = s"

lemma first_stage_sent:
  assumes "first_stage c t h stack cmd s w = Some (error, status, out, s', w')"
  shows "sent s' = sent s \<and> (\<exists>bs. out = SLIP_send_frame_data_buf bs \<and> (cmd_op cmd \<noteq> ESP_FLASH_VERIFY_MD5 \<longrightarrow> bs = []))"
proof (cases "cmd_op cmd = ESP_FLASH_VERIFY_MD5")
  case True
  have "sent s' = sent s \<and> (out = [] \<or> (\<exists>r w. handle_flash_get_md5sum c h stack (word_at (cmd_data_buf cmd) 0) (word_at (cmd_data_buf cmd) 4) w = Some (r, out, w')))"
    using assms True unfolding first_stage_def Let_def
    by (auto simp: ESP_ERASE_FLASH_def ESP_ERASE_REGION_def ESP_SET_BAUD_def ESP_READ_FLASH_def ESP_FLASH_VERIFY_MD5_def split: if_splits bind_splits)
  moreover have "\<exists>bs. out = SLIP_send_frame_data_buf bs" if "handle_flash_get_md5sum c h stack a l u = Some (r, out, w')" for a l u r
    using that by (auto simp: handle_flash_get_md5sum_def split: bind_splits option.splits) (metis data_buf_simps(1))+
  ultimately show ?thesis using True by (metis data_buf_simps(1))
next
  case False
  then have "sent s' = sent s \<and> out = []" using assms unfolding first_stage_def Let_def
    by (auto split: if_splits prod.splits bind_splits)
  then show ?thesis by (auto intro: exI [of _ "[]"])
qed

lemma second_stage_sent:
  assumes "second_stage c t h stack input cmd s w = Some r"
  shows "\<exists>more. sent (outcome_stub r) = sent s @ more \<and> (cmd_op cmd \<noteq> ESP_READ_FLASH \<longrightarrow> more = [])"
  using assms unfolding second_stage_def Let_def
  by (auto split: if_splits prod.splits bind_splits)

lemma cmd_step_eq:
  assumes "command (uart s) = Some in_a" and "cmd = (if in_a then buf_a (uart s) else buf_b (uart s))" and "cmd_op cmd \<noteq> ESP_RUN_USER_CODE"
    and "(if cmd_op cmd = ESP_READ_REG \<and> cmd_data_len cmd = 4 then READ_REG c (word_at (cmd_data_buf cmd) 0) w else (0, w)) = (val, w1)"
    and "len_ret = (if cmd_op cmd = ESP_FLASH_VERIFY_MD5 then 18 else 2)"
    and "s1 = s\<lparr>uart := (uart s)\<lparr>command := None\<rparr>,
      sent := sent s @ SLIP_send_frame_delimiter @ SLIP_send_frame_data_buf (response (cmd_op cmd) len_ret val)\<rparr>"
  shows "cmd_step c t h stack input s w =
      (if MAX_WRITE_BLOCK + 16 < unat (cmd_data_len cmd) then
         Some (Next (s1\<lparr>sent := sent s1 @ SLIP_send_frame_data (of_int ESP_BAD_DATA_LEN) @ SLIP_send_frame_data 0xEE @ SLIP_send_frame_delimiter\<rparr>) w1)
       else do {
         (error, status, out, s, w) \<leftarrow> first_stage c t h stack cmd s1 w1;
         let s = s\<lparr>sent := sent s @ out @ SLIP_send_frame_data (of_int error) @ SLIP_send_frame_data (of_int status) @ SLIP_send_frame_delimiter\<rparr>;
         (if error = ESP_OK then second_stage c t h stack input cmd s w else Some (Next s w)) })"
  unfolding cmd_step_def Let_def assms(1) option.case assms(2) [symmetric] assms(4) prod.case assms(5,6) using assms(3) by simp

text \<open>The work that a handler does before the status is sent comes to an end: erasing, because the length is a multiple of the
  sector size; the digest; and loading memory, when the data are in the buffer.\<close>

lemma sector_len: "of_nat FLASH_SECTOR_SIZE = (4096 :: u32)"
  by (simp add: FLASH_SECTOR_SIZE_def)

lemma sector_left:
  assumes "0 < len" and "len mod 4096 = (0 :: u32)"
  shows "unat (len - 4096) < unat len" and "(len - 4096) mod 4096 = 0"
proof -
  have m: "unat len mod 4096 = 0" "0 < unat len" using assms by (simp_all add: word_unat_eq_iff unat_mod word_less_nat_alt)
  then have g: "4096 \<le> unat len" by (simp add: mod_eq_0_iff_dvd dvd_imp_le)
  then have "unat (len - 4096) = unat len - 4096" by (subst unat_sub) (simp_all add: word_le_nat_alt)
  then show "unat (len - 4096) < unat len" "(len - 4096) mod 4096 = 0"
    using m g by (simp_all add: word_unat_eq_iff unat_mod le_mod_geq [symmetric])
qed

lemma erase_by_sector_returns:
  "len mod 4096 = 0 \<Longrightarrow> \<exists>x. erase_by_sector c al err addr len w = Some x \<and> (\<forall>a l v. x = Inr (a, l, v) \<longrightarrow> l mod 4096 = 0)"
proof (induction "unat len" arbitrary: addr len w rule: less_induct)
  case less
  obtain r w1 where e: "SPIEraseSector (rom c) (unat addr div FLASH_SECTOR_SIZE) w = (r, w1)" by fastforce
  show ?case
  proof (cases "0 < len \<and> (al \<longrightarrow> addr mod of_nat FLASH_BLOCK_SIZE \<noteq> 0) \<and> r = 0")
    case True
    then show ?thesis using less.hyps [OF sector_left [OF _ less.prems], of "addr + 4096" w1] e
      by (subst erase_by_sector.simps) (simp add: sector_len)
  next
    case False
    then show ?thesis using less.prems e by (subst erase_by_sector.simps) (auto simp: sector_len)
  qed
qed

lemma erase_by_block_returns:
  "len mod 4096 = 0 \<Longrightarrow> \<exists>x. erase_by_block c addr len w = Some x \<and> (\<forall>a l v. x = Inr (a, l, v) \<longrightarrow> l mod 4096 = 0)"
proof (induction "unat len" arbitrary: addr len w rule: less_induct)
  case less
  obtain r w1 where e: "SPIEraseBlock (rom c) (unat addr div FLASH_BLOCK_SIZE) w = (r, w1)" by fastforce
  show ?case
  proof (cases "of_nat FLASH_BLOCK_SIZE < len \<and> r = 0")
    case True
    then have g: "65536 < unat len" by (simp add: FLASH_BLOCK_SIZE_def word_less_nat_alt)
    then have u: "unat (len - 65536) = unat len - 65536" by (subst unat_sub) (simp_all add: word_le_nat_alt)
    have "unat len mod 4096 = 0" using less.prems by (simp add: word_unat_eq_iff unat_mod)
    then have "(unat len - 65536) mod 4096 = 0" by (simp add: mod_eq_0_iff_dvd dvd_diff_nat)
    then have m: "(len - 65536) mod 4096 = 0" by (simp add: word_unat_eq_iff unat_mod u)
    have "unat (len - 65536) < unat len" using g u by simp
    from less.hyps [OF this m, of "addr + 65536" w1] show ?thesis
      using True e by (subst erase_by_block.simps) (simp add: FLASH_BLOCK_SIZE_def)
  next
    case False
    then show ?thesis using less.prems e by (subst erase_by_block.simps) simp
  qed
qed

lemma flash_erase_returns: "\<exists>r. handle_flash_erase c addr len w = Some r"
proof (cases "addr mod 4096 \<noteq> 0 \<or> len mod 4096 \<noteq> 0 \<or> fst (SPIUnlock c w) \<noteq> 0")
  case True
  then show ?thesis by (auto simp: handle_flash_erase_def sector_len split: prod.splits)
next
  case False
  obtain w0 where u: "SPIUnlock c w = (0, w0)" using False by (metis prod.collapse)
  obtain x where x: "erase_by_sector c True 0x35 addr len w0 = Some x" "\<And>a l v. x = Inr (a, l, v) \<Longrightarrow> l mod 4096 = 0"
    using erase_by_sector_returns False by metis
  have blocks: "\<exists>y. erase_by_block c a l v = Some y \<and> (\<forall>a l v. y = Inr (a, l, v) \<longrightarrow> (\<exists>z. erase_by_sector c False 0x37 a l v = Some z))"
    if "l mod 4096 = 0" for a l v
    using erase_by_block_returns [OF that] erase_by_sector_returns by metis
  show ?thesis
  proof (cases x)
    case (Inl r)
    then show ?thesis using False u x(1) by (simp add: handle_flash_erase_def sector_len)
  next
    case (Inr y)
    obtain a l v where y: "y = (a, l, v)" by (cases y) simp
    obtain z where z: "erase_by_block c a l v = Some z" "\<And>a l v. z = Inr (a, l, v) \<Longrightarrow> \<exists>z. erase_by_sector c False 0x37 a l v = Some z"
      using blocks x(2) Inr y by metis
    show ?thesis
      using False u x(1) Inr y z by (cases z) (auto simp: handle_flash_erase_def sector_len)
  qed
qed

lemma md5_loop_returns: "\<exists>r. md5_loop c h addr len ctx buf w = Some r"
proof (induction "unat len" arbitrary: addr len ctx buf w rule: less_induct)
  case less
  define n :: u32 where "n = (if of_nat FLASH_SECTOR_SIZE < len then of_nat FLASH_SECTOR_SIZE else len)"
  obtain r bs w1 where e: "SPIRead (rom c) addr (take (unat n) buf) w = (r, bs, w1)" by (cases "SPIRead (rom c) addr (take (unat n) buf) w")
  show ?case
  proof (cases "0 < len")
    case True
    have "n \<le> len" "0 < n" using True by (auto simp: n_def sector_len)
    then have "unat (len - n) < unat len" by (simp add: unat_sub word_le_nat_alt word_less_nat_alt)
    then have "\<exists>r. md5_loop c h (addr + n) (len - n) ctx' buf' w' = Some r" for ctx' buf' w' by (rule less)
    then show ?thesis using True by (subst md5_loop.simps) (simp add: n_def [symmetric] Let_def e)
  next
    case False
    then show ?thesis by (subst md5_loop.simps) simp
  qed
qed

lemma mem_data_returns:
  assumes "unat len \<le> length data \<or> mem_remaining m < len"
  shows "\<exists>r. handle_mem_data c data len m w = Some r"
  using assms by (auto simp: handle_mem_data_def not_less split: prod.splits)

lemma if_result:
  assumes "(if b then x else y) = r"
  obtains "b" "x = r" | "\<not> b" "y = r"
  using assms by (cases b) auto

lemma first_stage_returns:
  assumes "cmd_op cmd = ESP_MEM_DATA \<longrightarrow> (let n = of_int (uint (cmd_data_len cmd) - 16) in
      unat n \<le> length (drop 16 (cmd_data_buf cmd)) \<or> mem_remaining (mem s) < n)"
  shows "\<exists>error status out s' w'. first_stage c t h stack cmd s w = Some (error, status, out, s', w')"
proof -
  consider "cmd_op cmd = ESP_ERASE_REGION" | "cmd_op cmd = ESP_FLASH_VERIFY_MD5" | "cmd_op cmd = ESP_MEM_DATA"
    | "cmd_op cmd \<noteq> ESP_ERASE_REGION" "cmd_op cmd \<noteq> ESP_FLASH_VERIFY_MD5" "cmd_op cmd \<noteq> ESP_MEM_DATA" by blast
  then show ?thesis
  proof cases
    case 1
    obtain r w' where "handle_flash_erase c (word_at (cmd_data_buf cmd) 0) (word_at (cmd_data_buf cmd) 4) w = Some (r, w')"
      using flash_erase_returns by fastforce
    then show ?thesis using 1 by (simp add: first_stage_def esp_ops Let_def)
  next
    case 2
    obtain r w' where "md5_loop c h (word_at (cmd_data_buf cmd) 0) (word_at (cmd_data_buf cmd) 4) (MD5Init h) stack w = Some (r, w')"
      using md5_loop_returns by fastforce
    then show ?thesis using 2 by (simp add: first_stage_def esp_ops Let_def handle_flash_get_md5sum_def split: option.splits)
  next
    case 3
    from mem_data_returns [OF assms [unfolded Let_def, rule_format, OF 3], where c = c and w = w]
    obtain r where "handle_mem_data c (drop 16 (cmd_data_buf cmd)) (of_int (uint (cmd_data_len cmd) - 16)) (mem s) w = Some r" by blast
    then show ?thesis using 3 by (cases r) (simp add: first_stage_def esp_ops Let_def)
  next
    case 4
    have "first_stage c t h stack cmd s w \<noteq> None"
    proof
      assume "first_stage c t h stack cmd s w = None"
      then show False using 4 unfolding first_stage_def Let_def by (elim if_result) (auto split: prod.splits)
    qed
    then show ?thesis by auto
  qed
qed

text \<open>The lengths of the arguments, for the commands that check them, and the other commands.\<close>

definition arg_len :: "(u8 \<times> u16) list" where
  "arg_len = [(ESP_ERASE_FLASH, 0), (ESP_ERASE_REGION, 8), (ESP_SET_BAUD, 8), (ESP_READ_FLASH, 16), (ESP_FLASH_VERIFY_MD5, 16),
     (ESP_FLASH_BEGIN, 16), (ESP_FLASH_DEFLATED_BEGIN, 16), (ESP_SPI_SET_PARAMS, 24), (ESP_SPI_ATTACH, 4), (ESP_WRITE_REG, 16),
     (ESP_READ_REG, 4), (ESP_MEM_BEGIN, 16), (ESP_MEM_END, 8)]"

definition other_commands :: "u8 list" where
  "other_commands = [ESP_FLASH_DATA, ESP_FLASH_DEFLATED_DATA, ESP_FLASH_END, ESP_FLASH_DEFLATED_END, ESP_MEM_DATA, ESP_RUN_USER_CODE]"

text \<open>A request that is refused before anything is done: a command that the stub does not have, or arguments of a wrong length.\<close>

definition unknown_op :: "u8 list \<Rightarrow> bool" where
  "unknown_op cmd \<longleftrightarrow> map_of arg_len (cmd_op cmd) = None \<and> cmd_op cmd \<notin> set other_commands"

definition wrong_args :: "u8 list \<Rightarrow> bool" where
  "wrong_args cmd \<longleftrightarrow> (\<exists>n. map_of arg_len (cmd_op cmd) = Some n \<and> cmd_data_len cmd \<noteq> n)"

lemma first_stage_unknown:
  assumes "unknown_op cmd"
  shows "first_stage c t h stack cmd s w = Some (ESP_CMD_NOT_IMPLEMENTED, 0, [], s, w)"
  using assms unfolding unknown_op_def arg_len_def other_commands_def map_of_eq_None_iff by (simp add: first_stage_def Let_def)

lemma first_stage_wrong_args:
  assumes "wrong_args cmd"
  shows "\<exists>error. error \<noteq> ESP_OK \<and> first_stage c t h stack cmd s w = Some (error, 0, [], s, w)"
proof -
  obtain n where "(cmd_op cmd, n) \<in> set arg_len" and n: "cmd_data_len cmd \<noteq> n"
    using assms by (auto simp: wrong_args_def dest: map_of_SomeD)
  then have "cmd_op cmd = ESP_ERASE_FLASH \<and> n = 0 \<or> cmd_op cmd = ESP_ERASE_REGION \<and> n = 8 \<or> cmd_op cmd = ESP_SET_BAUD \<and> n = 8 \<or>
    cmd_op cmd = ESP_READ_FLASH \<and> n = 16 \<or> cmd_op cmd = ESP_FLASH_VERIFY_MD5 \<and> n = 16 \<or> cmd_op cmd = ESP_FLASH_BEGIN \<and> n = 16 \<or>
    cmd_op cmd = ESP_FLASH_DEFLATED_BEGIN \<and> n = 16 \<or> cmd_op cmd = ESP_SPI_SET_PARAMS \<and> n = 24 \<or> cmd_op cmd = ESP_SPI_ATTACH \<and> n = 4 \<or>
    cmd_op cmd = ESP_WRITE_REG \<and> n = 16 \<or> cmd_op cmd = ESP_READ_REG \<and> n = 4 \<or> cmd_op cmd = ESP_MEM_BEGIN \<and> n = 16 \<or>
    cmd_op cmd = ESP_MEM_END \<and> n = 8" by (simp only: arg_len_def list.set insert_iff empty_iff prod.inject simp_thms)
  then show ?thesis using n
    by (elim disjE conjE) (simp_all add: first_stage_def verify_data_len_def ESP_OK_def ESP_BAD_DATA_LEN_def esp_ops Let_def)
qed

lemma first_stage_data:
  assumes "cmd_op cmd = ESP_FLASH_DATA \<or> cmd_op cmd = ESP_FLASH_DEFLATED_DATA"
  shows "first_stage c t h stack cmd s w = Some (
    (let data = cmd_data_buf cmd; n = uint (cmd_data_len cmd) - 16 in
     if \<not> in_flash_mode (flash s) then ESP_NOT_IN_FLASH_MODE
     else if ucast (calculate_checksum (drop 16 data) n) \<noteq> cmd_checksum cmd then ESP_BAD_DATA_CHECKSUM
     else if word_at data 0 \<noteq> of_int n then ESP_BAD_DATA_LEN else last_error (flash s)), 0, [], s, w)"
  using assms by (elim disjE) (simp_all add: first_stage_def esp_ops Let_def is_in_flash_mode_def get_flash_error_def)

lemma first_stage_erase:
  assumes "cmd_op cmd = ESP_ERASE_REGION" and "cmd_data_len cmd = 8"
    and "first_stage c t h stack cmd s w = Some (error, status, out, s', w')"
  shows "\<exists>r. handle_flash_erase c (word_at (cmd_data_buf cmd) 0) (word_at (cmd_data_buf cmd) 4) w = Some (r, w') \<and>
    (error = ESP_OK \<longleftrightarrow> r = 0)"
  using assms by (auto simp: first_stage_def esp_ops verify_data_len_def ESP_OK_def c_or_def Let_def split: bind_splits if_splits)

lemma first_stage_md5:
  assumes "cmd_op cmd = ESP_FLASH_VERIFY_MD5" and "cmd_data_len cmd = 16"
    and "first_stage c t h stack cmd s w = Some (error, status, out, s', w')"
  shows "\<exists>ctx. md5_loop c h (word_at (cmd_data_buf cmd) 0) (word_at (cmd_data_buf cmd) 4) (MD5Init h) stack w = Some (ctx, w') \<and>
    (error = ESP_OK \<longleftrightarrow> ctx \<noteq> None) \<and> out = (case ctx of None \<Rightarrow> [] | Some ctx \<Rightarrow> SLIP_send_frame_data_buf (MD5Final h ctx))"
proof -
  obtain ctx w1 where m: "md5_loop c h (word_at (cmd_data_buf cmd) 0) (word_at (cmd_data_buf cmd) 4) (MD5Init h) stack w = Some (ctx, w1)"
    using md5_loop_returns by fastforce
  have "first_stage c t h stack cmd s w = (case ctx of None \<Rightarrow> Some (1, 0, [], s, w1)
      | Some ctx \<Rightarrow> Some (0, 0, SLIP_send_frame_data_buf (MD5Final h ctx), s, w1))"
    using assms(1,2) m
    by (simp add: first_stage_def esp_ops verify_data_len_def ESP_OK_def c_or_def handle_flash_get_md5sum_def Let_def split: option.split)
  then show ?thesis using assms(3) m by (cases ctx) (auto simp: ESP_OK_def)
qed

lemma first_stage_rest:
  assumes "first_stage c t h stack cmd s w = Some (error, status, out, s', w')"
  shows "sent s' = sent s" and "uart s' = uart s" and "cmd_op cmd \<noteq> ESP_SPI_SET_PARAMS \<Longrightarrow> status = 0"
    and "cmd_op cmd \<noteq> ESP_FLASH_VERIFY_MD5 \<or> cmd_data_len cmd \<noteq> 16 \<Longrightarrow> out = []"
proof -
  show "sent s' = sent s" using first_stage_sent [OF assms] by simp
  show "uart s' = uart s"
    using assms unfolding first_stage_def Let_def by (elim if_result) (auto split: prod.splits bind_splits)
  show "cmd_op cmd \<noteq> ESP_SPI_SET_PARAMS \<Longrightarrow> status = 0"
    using assms unfolding first_stage_def Let_def by (elim if_result) (auto split: prod.splits bind_splits)
  assume o: "cmd_op cmd \<noteq> ESP_FLASH_VERIFY_MD5 \<or> cmd_data_len cmd \<noteq> 16"
  show "out = []"
  proof (cases "cmd_op cmd = ESP_FLASH_VERIFY_MD5")
    case True
    then have "wrong_args cmd" using o by (simp add: wrong_args_def arg_len_def esp_ops)
    from first_stage_wrong_args [OF this, of c t h stack s w] assms show ?thesis by auto
  next
    case False
    obtain bs where "out = SLIP_send_frame_data_buf bs" "cmd_op cmd \<noteq> ESP_FLASH_VERIFY_MD5 \<longrightarrow> bs = []"
      using first_stage_sent [OF assms] by blast
    then show ?thesis using False by simp
  qed
qed

definition oversize :: "u8 list \<Rightarrow> bool" where
  "oversize cmd \<longleftrightarrow> MAX_WRITE_BLOCK + 16 < unat (cmd_data_len cmd)"

lemma mem_data_fits:
  assumes "length cmd = UART_BUF_SIZE" and "\<not> oversize cmd" and "16 \<le> cmd_data_len cmd \<or> r < (0xFFFFFFF0 :: u32)"
  shows "let n = of_int (uint (cmd_data_len cmd) - 16) in unat n \<le> length (drop 16 (cmd_data_buf cmd)) \<or> r < n"
proof (cases "16 \<le> cmd_data_len cmd")
  case True
  then have "uint (cmd_data_len cmd) - 16 = int (unat (cmd_data_len cmd) - 16)" by (simp add: word_le_nat_alt)
  moreover have "unat (cmd_data_len cmd) - 16 \<le> 16384" using assms(2) by (simp add: oversize_def MAX_WRITE_BLOCK_def)
  ultimately show ?thesis using assms(1)
    by (simp add: Let_def cmd_data_buf_def UART_BUF_SIZE_def MAX_WRITE_BLOCK_def unat_small)
next
  case False
  define k where "k = 16 - unat (cmd_data_len cmd)"
  have k: "0 < k" "k \<le> 16" "uint (cmd_data_len cmd) - 16 = - int k" using False by (simp_all add: k_def word_le_nat_alt)
  have "uint (of_int (- int k) :: u32) = (- int k) mod 2 ^ 32" by (simp only: uint_word_of_int_eq take_bit_eq_mod) simp
  also have "\<dots> = 2 ^ 32 - int k" using k(1,2) by (simp add: zmod_zminus1_eq_if)
  finally have "uint r < 0xFFFFFFF0 \<longrightarrow> r < of_int (- int k)" using k(2) by (simp add: word_less_def)
  moreover have "uint r < 0xFFFFFFF0" using assms(3) False by (simp add: word_less_def)
  ultimately show ?thesis using k(3) by (simp only: Let_def simp_thms)
qed

lemma first_stage_error:
  assumes "first_stage c t h stack cmd s w = Some (error, status, out, s', w')"
  shows "unknown_op cmd \<Longrightarrow> error = ESP_CMD_NOT_IMPLEMENTED" and "wrong_args cmd \<Longrightarrow> error \<noteq> ESP_OK"
    and "cmd_op cmd \<in> {ESP_FLASH_DATA, ESP_FLASH_DEFLATED_DATA} \<Longrightarrow> error = (let n = uint (cmd_data_len cmd) - 16 in
      if \<not> in_flash_mode (flash s) then ESP_NOT_IN_FLASH_MODE
      else if ucast (calculate_checksum (drop 16 (cmd_data_buf cmd)) n) \<noteq> cmd_checksum cmd then ESP_BAD_DATA_CHECKSUM
      else if word_at (cmd_data_buf cmd) 0 \<noteq> of_int n then ESP_BAD_DATA_LEN else last_error (flash s))"
proof -
  show "unknown_op cmd \<Longrightarrow> error = ESP_CMD_NOT_IMPLEMENTED" using first_stage_unknown [of cmd c t h stack s w] assms by simp
  show "wrong_args cmd \<Longrightarrow> error \<noteq> ESP_OK" using first_stage_wrong_args [of cmd c t h stack s w] assms by auto
  assume "cmd_op cmd \<in> {ESP_FLASH_DATA, ESP_FLASH_DEFLATED_DATA}"
  then have "cmd_op cmd = ESP_FLASH_DATA \<or> cmd_op cmd = ESP_FLASH_DEFLATED_DATA" by simp
  from first_stage_data [OF this, of c t h stack s w, unfolded assms option.inject prod.inject]
  show "error = (let n = uint (cmd_data_len cmd) - 16 in
      if \<not> in_flash_mode (flash s) then ESP_NOT_IN_FLASH_MODE
      else if ucast (calculate_checksum (drop 16 (cmd_data_buf cmd)) n) \<noteq> cmd_checksum cmd then ESP_BAD_DATA_CHECKSUM
      else if word_at (cmd_data_buf cmd) 0 \<noteq> of_int n then ESP_BAD_DATA_LEN else last_error (flash s))"
    by (simp only: Let_def simp_thms)
qed

lemma first_stage_idle:
  assumes "first_stage c t h stack cmd s w = Some (error, status, out, s', w')"
    and "unknown_op cmd \<or> wrong_args cmd \<or> cmd_op cmd \<in> {ESP_FLASH_DATA, ESP_FLASH_DEFLATED_DATA}"
  shows "s' = s \<and> w' = w \<and> \<not> (cmd_op cmd = ESP_READ_REG \<and> cmd_data_len cmd = 4)"
  using assms(2)
proof (elim disjE)
  assume u: "unknown_op cmd"
  then have "cmd_op cmd \<noteq> ESP_READ_REG" by (auto simp: unknown_op_def arg_len_def esp_ops split: if_splits)
  then show ?thesis using first_stage_unknown [OF u, of c t h stack s w] assms(1) by simp
next
  assume u: "wrong_args cmd"
  then have "\<not> (cmd_op cmd = ESP_READ_REG \<and> cmd_data_len cmd = 4)" by (auto simp: wrong_args_def arg_len_def esp_ops)
  then show ?thesis using first_stage_wrong_args [OF u, of c t h stack s w] assms(1) by auto
next
  assume u: "cmd_op cmd \<in> {ESP_FLASH_DATA, ESP_FLASH_DEFLATED_DATA}"
  then have "cmd_op cmd = ESP_FLASH_DATA \<or> cmd_op cmd = ESP_FLASH_DEFLATED_DATA" by simp
  from first_stage_data [OF this, of c t h stack s w, unfolded assms(1) option.inject prod.inject]
  have "s' = s \<and> w' = w" by (simp only: simp_thms)
  moreover have "cmd_op cmd \<noteq> ESP_READ_REG" using u by (auto simp: esp_ops)
  ultimately show ?thesis by simp
qed

text \<open>What is sent between the header and the error: the digest.\<close>

lemma first_stage_extra:
  assumes "first_stage c t h stack cmd s w = Some (error, status, out, s', w')"
    and "cmd_op cmd = ESP_FLASH_VERIFY_MD5 \<Longrightarrow> w = w0"
  shows "\<exists>extra. out = SLIP_send_frame_data_buf extra \<and> (if cmd_op cmd = ESP_FLASH_VERIFY_MD5 \<and> cmd_data_len cmd = 16
    then \<exists>ctx. md5_loop c h (word_at (cmd_data_buf cmd) 0) (word_at (cmd_data_buf cmd) 4) (MD5Init h) stack w0 = Some (ctx, w') \<and>
      (error = ESP_OK \<longleftrightarrow> ctx \<noteq> None) \<and> extra = (case ctx of None \<Rightarrow> [] | Some ctx \<Rightarrow> MD5Final h ctx)
    else extra = [])"
proof (cases "cmd_op cmd = ESP_FLASH_VERIFY_MD5 \<and> cmd_data_len cmd = 16")
  case True
  with first_stage_md5 [OF _ _ assms(1)] obtain ctx where m: "md5_loop c h (word_at (cmd_data_buf cmd) 0) (word_at (cmd_data_buf cmd) 4)
      (MD5Init h) stack w = Some (ctx, w')" "error = ESP_OK \<longleftrightarrow> ctx \<noteq> None"
      "out = (case ctx of None \<Rightarrow> [] | Some ctx \<Rightarrow> SLIP_send_frame_data_buf (MD5Final h ctx))" by blast
  have "out = SLIP_send_frame_data_buf (case ctx of None \<Rightarrow> [] | Some ctx \<Rightarrow> MD5Final h ctx)" using m(3) by (cases ctx) simp_all
  then show ?thesis using True m(1,2) assms(2) by auto
next
  case False
  then have "out = []" using first_stage_rest(4) [OF assms(1)] by blast
  then show ?thesis unfolding if_not_P [OF False] by (intro exI [of _ "[]"]) simp
qed

text \<open>C35. Every command but that to run user code is answered by one frame, whatever the handler
  finds: the work before the answer comes to an end for every argument (erasing, the digest, loading
  memory), but for MEM_DATA of less than 16 bytes in a load that was announced with almost \<open>2 ^ 32\<close> bytes, where the
  length wraps around.  The frame is the header with the command's number, for READ_REG the value read, for
  FLASH_VERIFY_MD5 the digest, and then error and status.  A request that is too long gets
  ESP_BAD_DATA_LEN and 0xEE, an unknown command ESP_CMD_NOT_IMPLEMENTED, one with arguments of a
  wrong length an error, and none of these touches the flash, the memory or the state of a session.
  A block of data gets the first fault of: no session, checksum, length, an error of an earlier block.
  ERASE_REGION and the digest report whether they succeeded.  Only after the frame, and only if
  the error was ESP_OK, the rest of the work is done, and only reading flash sends more.\<close>

theorem command_answered:
  assumes "command (uart s) = Some in_a" and "cmd = (if in_a then buf_a (uart s) else buf_b (uart s))"
    and "length cmd = UART_BUF_SIZE" and "cmd_op cmd \<noteq> ESP_RUN_USER_CODE"
    and "cmd_op cmd = ESP_MEM_DATA \<longrightarrow> 16 \<le> cmd_data_len cmd \<or> mem_remaining (mem s) < 0xFFFFFFF0"
  shows "\<exists>val extra error status s' w'.
    cmd_step c t h stack input s w = (if error = ESP_OK then second_stage c t h stack input cmd s' w' else Some (Next s' w')) \<and>
    sent s' = sent s @ SLIP_send (response (cmd_op cmd) (if cmd_op cmd = ESP_FLASH_VERIFY_MD5 then 18 else 2) val @
      extra @ [of_int error, of_int status]) \<and>
    uart s' = (uart s)\<lparr>command := None\<rparr> \<and>
    (\<forall>r. second_stage c t h stack input cmd s' w' = Some r \<and> cmd_op cmd \<noteq> ESP_READ_FLASH \<longrightarrow> sent (outcome_stub r) = sent s') \<and>
    val = (if cmd_op cmd = ESP_READ_REG \<and> cmd_data_len cmd = 4 then fst (READ_REG c (word_at (cmd_data_buf cmd) 0) w) else 0) \<and>
    (oversize cmd \<longrightarrow> error = ESP_BAD_DATA_LEN \<and> status = 0xEE) \<and>
    (\<not> oversize cmd \<and> cmd_op cmd \<noteq> ESP_SPI_SET_PARAMS \<longrightarrow> status = 0) \<and>
    (\<not> oversize cmd \<and> unknown_op cmd \<longrightarrow> error = ESP_CMD_NOT_IMPLEMENTED) \<and>
    (\<not> oversize cmd \<and> wrong_args cmd \<longrightarrow> error \<noteq> ESP_OK) \<and>
    (oversize cmd \<or> unknown_op cmd \<or> wrong_args cmd \<or> cmd_op cmd \<in> {ESP_FLASH_DATA, ESP_FLASH_DEFLATED_DATA} \<longrightarrow>
      flash s' = flash s \<and> mem s' = mem s \<and> w' = w) \<and>
    (\<not> oversize cmd \<and> cmd_op cmd \<in> {ESP_FLASH_DATA, ESP_FLASH_DEFLATED_DATA} \<longrightarrow>
      error = (let n = uint (cmd_data_len cmd) - 16 in
        if \<not> in_flash_mode (flash s) then ESP_NOT_IN_FLASH_MODE
        else if ucast (calculate_checksum (drop 16 (cmd_data_buf cmd)) n) \<noteq> cmd_checksum cmd then ESP_BAD_DATA_CHECKSUM
        else if word_at (cmd_data_buf cmd) 0 \<noteq> of_int n then ESP_BAD_DATA_LEN else last_error (flash s))) \<and>
    (cmd_op cmd = ESP_ERASE_REGION \<and> cmd_data_len cmd = 8 \<longrightarrow>
      (\<exists>r. handle_flash_erase c (word_at (cmd_data_buf cmd) 0) (word_at (cmd_data_buf cmd) 4) w = Some (r, w') \<and> (error = ESP_OK \<longleftrightarrow> r = 0))) \<and>
    (if cmd_op cmd = ESP_FLASH_VERIFY_MD5 \<and> cmd_data_len cmd = 16
     then \<exists>ctx. md5_loop c h (word_at (cmd_data_buf cmd) 0) (word_at (cmd_data_buf cmd) 4) (MD5Init h) stack w = Some (ctx, w') \<and>
       (error = ESP_OK \<longleftrightarrow> ctx \<noteq> None) \<and> extra = (case ctx of None \<Rightarrow> [] | Some ctx \<Rightarrow> MD5Final h ctx)
     else extra = [])"
proof -
  let ?op = "cmd_op cmd"
  obtain val w1 where v: "(if ?op = ESP_READ_REG \<and> cmd_data_len cmd = 4 then READ_REG c (word_at (cmd_data_buf cmd) 0) w else (0, w)) = (val, w1)"
    by fastforce
  define len_ret :: u16 where "len_ret = (if ?op = ESP_FLASH_VERIFY_MD5 then 18 else 2)"
  define s1 where "s1 = s\<lparr>uart := (uart s)\<lparr>command := None\<rparr>,
    sent := sent s @ SLIP_send_frame_delimiter @ SLIP_send_frame_data_buf (response ?op len_ret val)\<rparr>"
  note step = cmd_step_eq [OF assms(1,2,4) v len_ret_def s1_def, of t h stack input, folded oversize_def]
  have val: "val = (if ?op = ESP_READ_REG \<and> cmd_data_len cmd = 4 then fst (READ_REG c (word_at (cmd_data_buf cmd) 0) w) else 0)"
    using v by (auto split: if_splits)
  have w1: "w1 = w" if "\<not> (?op = ESP_READ_REG \<and> cmd_data_len cmd = 4)" using v that by (auto split: if_splits)
  have quiet: "sent (outcome_stub r) = sent s'" if "second_stage c t h stack input cmd s' w' = Some r \<and> ?op \<noteq> ESP_READ_FLASH" for r s' w'
    using second_stage_sent that by fastforce
  show ?thesis
  proof (cases "oversize cmd")
    case True
    let ?s = "s1\<lparr>sent := sent s1 @ SLIP_send_frame_data (of_int ESP_BAD_DATA_LEN) @ SLIP_send_frame_data 0xEE @ SLIP_send_frame_delimiter\<rparr>"
    have l: "cmd_data_len cmd \<noteq> 4" "cmd_data_len cmd \<noteq> 8" "cmd_data_len cmd \<noteq> 16" using True by (auto simp: oversize_def)
    have "cmd_step c t h stack input s w = Some (Next ?s w)" using step True w1 l by simp
    then show ?thesis
      using True quiet l
      by (intro exI [of _ val] exI [of _ "[]"] exI [of _ ESP_BAD_DATA_LEN] exI [of _ "0xEE"] exI [of _ ?s] exI [of _ w] conjI)
        (auto simp: val s1_def len_ret_def SLIP_send_def ESP_BAD_DATA_LEN_def ESP_OK_def)
  next
    case False
    have "?op = ESP_MEM_DATA \<longrightarrow> (let n = of_int (uint (cmd_data_len cmd) - 16) in
        unat n \<le> length (drop 16 (cmd_data_buf cmd)) \<or> mem_remaining (mem s1) < n)"
      using mem_data_fits [OF assms(3) False] assms(5) by (simp add: s1_def)
    from first_stage_returns [OF this, of c t h stack w1] obtain error status out s2 w2 where
      f: "first_stage c t h stack cmd s1 w1 = Some (error, status, out, s2, w2)" by blast
    note rest = first_stage_rest [OF f]
    note err = first_stage_error [OF f]
    have md5: "w1 = w" if "?op = ESP_FLASH_VERIFY_MD5 \<or> ?op = ESP_ERASE_REGION" using w1 that by (auto simp: esp_ops)
    obtain extra where bs: "out = SLIP_send_frame_data_buf extra" "if ?op = ESP_FLASH_VERIFY_MD5 \<and> cmd_data_len cmd = 16
       then \<exists>ctx. md5_loop c h (word_at (cmd_data_buf cmd) 0) (word_at (cmd_data_buf cmd) 4) (MD5Init h) stack w = Some (ctx, w2) \<and>
         (error = ESP_OK \<longleftrightarrow> ctx \<noteq> None) \<and> extra = (case ctx of None \<Rightarrow> [] | Some ctx \<Rightarrow> MD5Final h ctx)
       else extra = []" using first_stage_extra [OF f, of w] md5 by blast
    let ?s = "s2\<lparr>sent := sent s2 @ out @ SLIP_send_frame_data (of_int error) @ SLIP_send_frame_data (of_int status) @ SLIP_send_frame_delimiter\<rparr>"
    have step': "cmd_step c t h stack input s w = (if error = ESP_OK then second_stage c t h stack input cmd ?s w2 else Some (Next ?s w2))"
      using step False f by (simp add: Let_def)
    have sent: "sent ?s = sent s @ SLIP_send (response ?op len_ret val @ extra @ [of_int error, of_int status])"
      using rest(1) bs(1) by (simp add: s1_def SLIP_send_def)
    have "uart s2 = (uart s)\<lparr>command := None\<rparr>" using rest(2) by (simp add: s1_def)
    then have uart: "uart ?s = (uart s)\<lparr>command := None\<rparr>" by simp
    have q: "\<forall>r. second_stage c t h stack input cmd ?s w2 = Some r \<and> ?op \<noteq> ESP_READ_FLASH \<longrightarrow> sent (outcome_stub r) = sent ?s"
      using quiet by blast
    have o: "oversize cmd \<longrightarrow> error = ESP_BAD_DATA_LEN \<and> status = 0xEE" using False by simp
    have st: "\<not> oversize cmd \<and> ?op \<noteq> ESP_SPI_SET_PARAMS \<longrightarrow> status = 0" using rest(3) by simp
    have un: "\<not> oversize cmd \<and> unknown_op cmd \<longrightarrow> error = ESP_CMD_NOT_IMPLEMENTED" using err(1) by simp
    have wr: "\<not> oversize cmd \<and> wrong_args cmd \<longrightarrow> error \<noteq> ESP_OK" using err(2) by simp
    have frame: "oversize cmd \<or> unknown_op cmd \<or> wrong_args cmd \<or> ?op \<in> {ESP_FLASH_DATA, ESP_FLASH_DEFLATED_DATA} \<longrightarrow>
        flash ?s = flash s \<and> mem ?s = mem s \<and> w2 = w"
    proof
      assume "oversize cmd \<or> unknown_op cmd \<or> wrong_args cmd \<or> ?op \<in> {ESP_FLASH_DATA, ESP_FLASH_DEFLATED_DATA}"
      with False have "s2 = s1 \<and> w2 = w" using first_stage_idle [OF f] w1 by blast
      then show "flash ?s = flash s \<and> mem ?s = mem s \<and> w2 = w" by (simp add: s1_def)
    qed
    have fs: "flash s1 = flash s" by (simp add: s1_def)
    have da: "\<not> oversize cmd \<and> ?op \<in> {ESP_FLASH_DATA, ESP_FLASH_DEFLATED_DATA} \<longrightarrow>
      error = (let n = uint (cmd_data_len cmd) - 16 in
        if \<not> in_flash_mode (flash s) then ESP_NOT_IN_FLASH_MODE
        else if ucast (calculate_checksum (drop 16 (cmd_data_buf cmd)) n) \<noteq> cmd_checksum cmd then ESP_BAD_DATA_CHECKSUM
        else if word_at (cmd_data_buf cmd) 0 \<noteq> of_int n then ESP_BAD_DATA_LEN else last_error (flash s))"
      by (intro impI err(3) [unfolded fs]) (elim conjunct2)
    have er: "?op = ESP_ERASE_REGION \<and> cmd_data_len cmd = 8 \<longrightarrow> (\<exists>r. handle_flash_erase c (word_at (cmd_data_buf cmd) 0)
        (word_at (cmd_data_buf cmd) 4) w = Some (r, w2) \<and> (error = ESP_OK \<longleftrightarrow> r = 0))"
      using first_stage_erase [OF _ _ f] md5 by blast
    show ?thesis
      by (rule exI [of _ val], rule exI [of _ extra], rule exI [of _ error], rule exI [of _ status], rule exI [of _ ?s], rule exI [of _ w2])
        (rule conjI [OF step' conjI [OF sent [unfolded len_ret_def] conjI [OF uart conjI [OF q conjI [OF val conjI [OF o conjI [OF st
          conjI [OF un conjI [OF wr conjI [OF frame conjI [OF da conjI [OF er bs(2)]]]]]]]]]]]])
  qed
qed

text \<open>A digest that is what it was made of, for examples, and a state in which a command that the stub does not know has arrived.\<close>

definition plain_md5 :: "u8 list md5" where
  "plain_md5 = \<lparr>MD5Init = [], MD5Update = (\<lambda>ctx bs. ctx @ bs), MD5Final = (\<lambda>ctx. ctx)\<rparr>"

definition unknown_command :: "(nat \<times> nat) stub" where
  "unknown_command = \<lparr>flash = idle_flashing, mem = \<lparr>mem_offset = 0, mem_remaining = 0\<rparr>,
     uart = first_uart\<lparr>buf_a := 0 # 0x77 # replicate 16446 0, command := Some True\<rparr>, uart_enabled = True, sent = []\<rparr>"

theorem command_answered_witness:
  "\<exists>r. cmd_step (sim_chip 8192) (output_first [] []) plain_md5 [] [] unknown_command blank_sim = Some r \<and>
    sent (outcome_stub r) = SLIP_send (response 0x77 2 0 @ [0xff, 0])"
proof -
  let ?cmd = "0 # 0x77 # replicate 16446 0 :: u8 list"
  have c: "command (uart unknown_command) = Some True" "?cmd = (if True then buf_a (uart unknown_command) else buf_b (uart unknown_command))"
    "length ?cmd = UART_BUF_SIZE"
    by (simp_all add: unknown_command_def UART_BUF_SIZE_def MAX_WRITE_BLOCK_def)
  have o: "cmd_op ?cmd = 0x77" "cmd_data_len ?cmd = 0"
    by (simp_all add: cmd_op_def cmd_data_len_def numeral_eq_Suc)
  then have u: "unknown_op ?cmd" "\<not> oversize ?cmd"
    by (simp_all add: unknown_op_def arg_len_def other_commands_def esp_ops oversize_def)
  have "sent unknown_command = []" by (simp add: unknown_command_def)
  then show ?thesis
    using command_answered [OF c, of "sim_chip 8192" "output_first [] []" plain_md5 "[]" "[]" blank_sim] u o
    by (auto simp: esp_ops ESP_CMD_NOT_IMPLEMENTED_def ESP_OK_def)
qed

section \<open>Packets\<close>

text \<open>What the host sends: the command header and its data.\<close>

definition packet :: "u8 \<Rightarrow> u32 \<Rightarrow> u8 list \<Rightarrow> u8 list" where
  "packet op chk data =
     (let len = of_nat (length data) :: u16 in [0, op, ucast len, ucast (shr len 8)] @ le_bytes chk @ data)"

definition begin_packet :: "u32 \<Rightarrow> u32 \<Rightarrow> u32 \<Rightarrow> u8 list" where
  "begin_packet nbytes blocks offset =
     packet ESP_FLASH_BEGIN 0 (le_bytes nbytes @ le_bytes blocks @ le_bytes (of_nat MAX_WRITE_BLOCK) @ le_bytes offset)"

definition data_packet :: "u8 list \<Rightarrow> u8 list" where
  "data_packet b = packet ESP_FLASH_DATA (ucast (foldl (\<lambda>res x. res XOR x) 0xef b))
     (le_bytes (of_nat (length b)) @ le_bytes 0 @ le_bytes 0 @ le_bytes 0 @ b)"

definition end_packet :: "u8 list" where "end_packet = packet ESP_FLASH_END 0 (le_bytes 1)"

text \<open>The stub waits for a frame.\<close>

definition listening :: "'i stub \<Rightarrow> bool" where "listening s \<longleftrightarrow> between_frames (uart s) \<and> uart_enabled s"

text \<open>A packet arrives and is handled; with the interrupt off it does not arrive.\<close>

definition deliver ::
    "'w chip \<Rightarrow> 'i tinfl \<Rightarrow> 'm md5 \<Rightarrow> u8 list \<Rightarrow> u8 list \<Rightarrow> 'i stub \<Rightarrow> 'w \<Rightarrow> ('i stub \<times> 'w) option" where
  "deliver c t h stack pkt s w = do {
     ub \<leftarrow> (if uart_enabled s then receive_bytes (SLIP_send pkt) (uart s) else None);
     r \<leftarrow> cmd_step c t h stack [] (s\<lparr>uart := ub\<rparr>) w;
     (case r of Next s w \<Rightarrow> Some (s, w) | _ \<Rightarrow> None) }"

primrec deliver_all ::
    "'w chip \<Rightarrow> 'i tinfl \<Rightarrow> 'm md5 \<Rightarrow> u8 list \<Rightarrow> u8 list list \<Rightarrow> 'i stub \<Rightarrow> 'w \<Rightarrow> ('i stub \<times> 'w) option" where
  "deliver_all c t h stack [] s w = Some (s, w)"
| "deliver_all c t h stack (p # ps) s w = do { (s, w) \<leftarrow> deliver c t h stack p s w; deliver_all c t h stack ps s w }"

lemma join_bytes:
  fixes v :: u32
  shows "ucast (ucast v :: u8) OR shl (ucast (ucast (shr v 8) :: u8)) 8 OR shl (ucast (ucast (shr v 16) :: u8)) 16 OR
    shl (ucast (ucast (shr v 24) :: u8)) 24 = v"
proof (rule bit_word_eqI)
  fix n
  assume "n < LENGTH(32)"
  then consider "n < 8" | "8 \<le> n" "n < 16" | "16 \<le> n" "n < 24" | "24 \<le> n" "n < 32" by fastforce
  then show "bit (ucast (ucast v :: u8) OR shl (ucast (ucast (shr v 8) :: u8)) 8 OR shl (ucast (ucast (shr v 16) :: u8)) 16 OR
      shl (ucast (ucast (shr v 24) :: u8)) 24 :: u32) n = bit v n"
    by cases (auto simp: bit_or_iff bit_shl bit_ucast_iff bit_shr)
qed

lemma join_two_bytes: "ucast (ucast v :: u8) OR shl (ucast (ucast (shr v 8) :: u8)) 8 = v" for v :: u16
  by (rule bit_word_eqI) (auto simp: bit_or_iff bit_ucast_iff bit_shl bit_shr)

lemma word_at_le:
  assumes "length xs = i"
  shows "word_at (xs @ le_bytes v @ ys) i = v"
proof -
  have "(xs @ le_bytes v @ ys) ! i = ucast v" "(xs @ le_bytes v @ ys) ! (i + 1) = ucast (shr v 8)"
    "(xs @ le_bytes v @ ys) ! (i + 2) = ucast (shr v 16)" "(xs @ le_bytes v @ ys) ! (i + 3) = ucast (shr v 24)"
    unfolding assms [symmetric] nth_append_length_plus by (simp_all add: le_bytes_def)
  then show ?thesis unfolding word_at_def by (simp only: join_bytes)
qed

lemma packet_fields:
  shows "cmd_op (packet op chk data @ r) = op" and "cmd_data_len (packet op chk data @ r) = of_nat (length data)"
    and "cmd_checksum (packet op chk data @ r) = chk" and "cmd_data_buf (packet op chk data @ r) = data @ r"
    and "length (packet op chk data) = length data + 8"
proof -
  define l where "l = (of_nat (length data) :: u16)"
  have p: "packet op chk data = [0, op, ucast l, ucast (shr l 8)] @ le_bytes chk @ data" by (simp add: packet_def l_def Let_def)
  show "cmd_op (packet op chk data @ r) = op" by (simp add: cmd_op_def p)
  have "(packet op chk data @ r) ! 2 = ucast l" "(packet op chk data @ r) ! 3 = ucast (shr l 8)" by (simp_all add: p)
  then have "cmd_data_len (packet op chk data @ r) = l" unfolding cmd_data_len_def by (simp only: join_two_bytes)
  then show "cmd_data_len (packet op chk data @ r) = of_nat (length data)" by (simp add: l_def)
  show "cmd_checksum (packet op chk data @ r) = chk" using word_at_le [of "[0, op, ucast l, ucast (shr l 8)]" 4 chk "data @ r"]
    by (simp add: cmd_checksum_def p)
  show "cmd_data_buf (packet op chk data @ r) = data @ r" by (simp add: cmd_data_buf_def p le_bytes_def)
  show "length (packet op chk data) = length data + 8" by (simp add: p)
qed

text \<open>The command that is in the buffer when a packet has arrived, and the state in which it is handled.\<close>

lemma deliver_packet:
  assumes l0: "listening s" and u: "length data \<le> MAX_WRITE_BLOCK + 16" and op: "op \<noteq> ESP_RUN_USER_CODE" "op \<noteq> ESP_READ_REG" "op \<noteq> ESP_FLASH_VERIFY_MD5"
  obtains r ub where "between_frames ub" "deliver c t h stack (packet op chk data) s w = do {
      (error, status, out, s, w) \<leftarrow> first_stage c t h stack (packet op chk data @ r)
        (s\<lparr>uart := ub, sent := sent s @ SLIP_send_frame_delimiter @ SLIP_send_frame_data_buf (response op 2 0)\<rparr>) w;
      let s = s\<lparr>sent := sent s @ out @ SLIP_send_frame_data (of_int error) @ SLIP_send_frame_data (of_int status) @ SLIP_send_frame_delimiter\<rparr>;
      r \<leftarrow> (if error = ESP_OK then second_stage c t h stack [] (packet op chk data @ r) s w else Some (Next s w));
      (case r of Next s w \<Rightarrow> Some (s, w) | _ \<Rightarrow> None) }"
proof -
  let ?p = "packet op chk data"
  have e: "between_frames (uart s)" "uart_enabled s" using l0 by (simp_all add: listening_def)
  have l: "length data < 65536" using u by (simp add: MAX_WRITE_BLOCK_def)
  have pl: "length ?p < UART_BUF_SIZE" using u packet_fields(5) by (simp add: UART_BUF_SIZE_def)
  define ub where "ub = (if reading_a (uart s) then (uart s)\<lparr>buf_a := ?p @ drop (length ?p) (buf_a (uart s))\<rparr>
      else (uart s)\<lparr>buf_b := ?p @ drop (length ?p) (buf_b (uart s))\<rparr>)\<lparr>command := Some (reading_a (uart s)), reading_a := \<not> reading_a (uart s)\<rparr>"
  have isr: "receive_bytes (SLIP_send ?p) (uart s) = Some ub"
    using frame_received_plain [OF e(1) pl] by (simp add: ub_def)
  define r where "r = drop (length ?p) (rbuf (uart s))"
  have cmd: "command ub = Some (reading_a (uart s))" "(if reading_a (uart s) then buf_a ub else buf_b ub) = ?p @ r"
    by (simp_all add: ub_def r_def rbuf_def)
  have b: "between_frames (ub\<lparr>command := None\<rparr>)" using e(1) pl by (auto simp: between_frames_def ub_def)
  have "\<not> MAX_WRITE_BLOCK + 16 < unat (cmd_data_len (?p @ r))" using u l
    by (simp add: packet_fields(2) unat_of_nat take_bit_eq_mod)
  then have m: "(MAX_WRITE_BLOCK + 16 < unat (cmd_data_len (?p @ r))) = False" by simp
  define s1 where "s1 = s\<lparr>uart := ub\<lparr>command := None\<rparr>, sent := sent s @ SLIP_send_frame_delimiter @ SLIP_send_frame_data_buf (response op 2 0)\<rparr>"
  have "cmd_step c t h stack [] (s\<lparr>uart := ub\<rparr>) w =
      (if MAX_WRITE_BLOCK + 16 < unat (cmd_data_len (?p @ r)) then
         Some (Next (s1\<lparr>sent := sent s1 @ SLIP_send_frame_data (of_int ESP_BAD_DATA_LEN) @ SLIP_send_frame_data 0xEE @ SLIP_send_frame_delimiter\<rparr>) w)
       else do {
         (error, status, out, s, w) \<leftarrow> first_stage c t h stack (?p @ r) s1 w;
         let s = s\<lparr>sent := sent s @ out @ SLIP_send_frame_data (of_int error) @ SLIP_send_frame_data (of_int status) @ SLIP_send_frame_delimiter\<rparr>;
         (if error = ESP_OK then second_stage c t h stack [] (?p @ r) s w else Some (Next s w)) })"
    using cmd op by (intro cmd_step_eq [where in_a = "reading_a (uart s)" and val = 0 and len_ret = 2]) (auto simp: packet_fields(1) s1_def split: if_splits)
  then have "cmd_step c t h stack [] (s\<lparr>uart := ub\<rparr>) w = do {
      (error, status, out, s, w) \<leftarrow> first_stage c t h stack (?p @ r) s1 w;
      let s = s\<lparr>sent := sent s @ out @ SLIP_send_frame_data (of_int error) @ SLIP_send_frame_data (of_int status) @ SLIP_send_frame_delimiter\<rparr>;
      (if error = ESP_OK then second_stage c t h stack [] (?p @ r) s w else Some (Next s w)) }"
    unfolding m if_False .
  then have "deliver c t h stack ?p s w = do {
      (error, status, out, s, w) \<leftarrow> first_stage c t h stack (?p @ r) s1 w;
      let s = s\<lparr>sent := sent s @ out @ SLIP_send_frame_data (of_int error) @ SLIP_send_frame_data (of_int status) @ SLIP_send_frame_delimiter\<rparr>;
      r \<leftarrow> (if error = ESP_OK then second_stage c t h stack [] (?p @ r) s w else Some (Next s w));
      (case r of Next s w \<Rightarrow> Some (s, w) | _ \<Rightarrow> None) }"
    using isr e(2) unfolding deliver_def by (simp add: split_def Let_def)
  then have "deliver c t h stack ?p s w = do {
      (error, status, out, s, w) \<leftarrow> first_stage c t h stack (?p @ r)
        (s\<lparr>uart := ub\<lparr>command := None\<rparr>, sent := sent s @ SLIP_send_frame_delimiter @ SLIP_send_frame_data_buf (response op 2 0)\<rparr>) w;
      let s = s\<lparr>sent := sent s @ out @ SLIP_send_frame_data (of_int error) @ SLIP_send_frame_data (of_int status) @ SLIP_send_frame_delimiter\<rparr>;
      r \<leftarrow> (if error = ESP_OK then second_stage c t h stack [] (?p @ r) s w else Some (Next s w));
      (case r of Next s w \<Rightarrow> Some (s, w) | _ \<Rightarrow> None) }" unfolding s1_def .
  then show ?thesis using that b by blast
qed

section \<open>An upload by packets\<close>

text \<open>A packet has been handled and acknowledged, and the stub waits for the next.\<close>

definition acknowledged :: "u8 \<Rightarrow> 'i stub \<Rightarrow> 'i flashing \<Rightarrow> 'i stub \<Rightarrow> bool" where
  "acknowledged op s fs s' \<longleftrightarrow> listening s' \<and> flash s' = fs \<and> sent s' = sent s @ SLIP_send (response op 2 0 @ [0, 0])"

lemma sent_ok: "(sent s @ SLIP_send_frame_delimiter @ SLIP_send_frame_data_buf (response op 2 0)) @ [] @ SLIP_send_frame_data 0 @
    SLIP_send_frame_data 0 @ SLIP_send_frame_delimiter = sent s @ SLIP_send (response op 2 0 @ [0, 0])"
  by (simp add: SLIP_send_def)

lemma deliver_begin:
  assumes "listening s" and "handle_flash_begin c nbytes offset (flash s) w = (ESP_OK, fs, w')"
  shows "\<exists>s'. deliver c t h stack (begin_packet nbytes blocks offset) s w = Some (s', w') \<and> acknowledged ESP_FLASH_BEGIN s fs s'"
proof -
  let ?data = "le_bytes nbytes @ le_bytes blocks @ le_bytes (of_nat MAX_WRITE_BLOCK) @ le_bytes offset"
  obtain r ub where d: "between_frames ub" "deliver c t h stack (packet ESP_FLASH_BEGIN 0 ?data) s w = do {
      (error, status, out, s, w) \<leftarrow> first_stage c t h stack (packet ESP_FLASH_BEGIN 0 ?data @ r)
        (s\<lparr>uart := ub, sent := sent s @ SLIP_send_frame_delimiter @ SLIP_send_frame_data_buf (response ESP_FLASH_BEGIN 2 0)\<rparr>) w;
      let s = s\<lparr>sent := sent s @ out @ SLIP_send_frame_data (of_int error) @ SLIP_send_frame_data (of_int status) @ SLIP_send_frame_delimiter\<rparr>;
      r \<leftarrow> (if error = ESP_OK then second_stage c t h stack [] (packet ESP_FLASH_BEGIN 0 ?data @ r) s w else Some (Next s w));
      (case r of Next s w \<Rightarrow> Some (s, w) | _ \<Rightarrow> None) }"
    by (rule deliver_packet [OF assms(1), of ?data ESP_FLASH_BEGIN]) (simp_all add: esp_ops MAX_WRITE_BLOCK_def)
  have w: "word_at (?data @ r) 0 = nbytes" "word_at (?data @ r) 8 = of_nat MAX_WRITE_BLOCK" "word_at (?data @ r) 12 = offset"
    using word_at_le [of "[]" 0 nbytes] word_at_le [of "le_bytes nbytes @ le_bytes blocks" 8 "of_nat MAX_WRITE_BLOCK" "le_bytes offset @ r"]
      word_at_le [of "le_bytes nbytes @ le_bytes blocks @ le_bytes (of_nat MAX_WRITE_BLOCK)" 12 offset r] by simp_all
  show ?thesis unfolding begin_packet_def d(2) first_stage_def second_stage_def Let_def packet_fields
    using d(1) assms(1,2) w
    by (simp add: esp_ops verify_data_len_def packet_fields c_or_def ESP_OK_def acknowledged_def listening_def SLIP_send_def)
qed

lemma handle_flash_data_append:
  assumes "length b < 4294967296"
  shows "handle_flash_data c (b @ r) (of_nat (length b)) fs w = handle_flash_data c b (of_nat (length b)) fs w"
proof -
  define l where "l = (if remaining fs < of_nat (length b) then remaining fs else of_nat (length b))"
  have "unat (of_nat (length b) :: u32) = length b" by (rule unat_small) (use assms in simp)
  then have "unat l \<le> length b" by (auto simp: l_def word_less_nat_alt)
  then show ?thesis unfolding handle_flash_data_def l_def [symmetric] Let_def by simp
qed

lemma deliver_data:
  assumes "listening s" and "handle_flash_data c b (of_nat (length b)) (flash s) w = Some (fs, w')"
    and "length b \<le> MAX_WRITE_BLOCK" and "in_flash_mode (flash s)" and "last_error (flash s) = ESP_OK"
  shows "\<exists>s'. deliver c t h stack (data_packet b) s w = Some (s', w') \<and> acknowledged ESP_FLASH_DATA s fs s'"
proof -
  let ?h = "le_bytes (of_nat (length b)) @ le_bytes 0 @ le_bytes 0 @ le_bytes 0"
  let ?data = "le_bytes (of_nat (length b)) @ le_bytes 0 @ le_bytes 0 @ le_bytes 0 @ b"
  let ?chk = "ucast (foldl (\<lambda>res x. res XOR x) 0xef b)"
  have l: "length b < 65000" using assms(3) by (simp add: MAX_WRITE_BLOCK_def)
  obtain r ub where d: "between_frames ub" "deliver c t h stack (packet ESP_FLASH_DATA ?chk ?data) s w = do {
      (error, status, out, s, w) \<leftarrow> first_stage c t h stack (packet ESP_FLASH_DATA ?chk ?data @ r)
        (s\<lparr>uart := ub, sent := sent s @ SLIP_send_frame_delimiter @ SLIP_send_frame_data_buf (response ESP_FLASH_DATA 2 0)\<rparr>) w;
      let s = s\<lparr>sent := sent s @ out @ SLIP_send_frame_data (of_int error) @ SLIP_send_frame_data (of_int status) @ SLIP_send_frame_delimiter\<rparr>;
      r \<leftarrow> (if error = ESP_OK then second_stage c t h stack [] (packet ESP_FLASH_DATA ?chk ?data @ r) s w else Some (Next s w));
      (case r of Next s w \<Rightarrow> Some (s, w) | _ \<Rightarrow> None) }"
    by (rule deliver_packet [OF assms(1), of ?data ESP_FLASH_DATA]) (use assms(3) in \<open>simp_all add: esp_ops\<close>)
  have w: "word_at (?data @ r) 0 = of_nat (length b)" "drop 16 (?data @ r) = b @ r"
    using word_at_le [of "[]" 0 "of_nat (length b)"] by simp_all
  have ld: "length ?data = 16 + length b" by simp
  have "unat (of_nat (length ?data) :: u16) = 16 + length b" unfolding ld unat_of_nat using l by (simp add: take_bit_eq_mod)
  then have u: "uint (of_nat (length ?data) :: u16) - 16 = int (length b)" by (simp only: uint_nat)
  have chk: "ucast (calculate_checksum (b @ r) (int (length b))) = (?chk :: u32)" by (simp add: calculate_checksum_def)
  have a: "handle_flash_data c (b @ r) (of_nat (length b)) (flash s) w = Some (fs, w')"
    using handle_flash_data_append [of b c r "flash s" w] assms(2) l by simp
  show ?thesis unfolding data_packet_def d(2) first_stage_def second_stage_def Let_def packet_fields u w(2)
    using d(1) a w(1) chk assms(1,4,5)
    by (simp add: esp_ops packet_fields ESP_OK_def acknowledged_def listening_def SLIP_send_def is_in_flash_mode_def get_flash_error_def)
qed

lemma deliver_end:
  assumes "listening s" and "handle_flash_end (flash s) = (ESP_OK, fs)"
  shows "\<exists>s'. deliver c t h stack end_packet s w = Some (s', w) \<and> acknowledged ESP_FLASH_END s fs s'"
proof -
  obtain r ub where d: "between_frames ub" "deliver c t h stack (packet ESP_FLASH_END 0 (le_bytes 1)) s w = do {
      (error, status, out, s, w) \<leftarrow> first_stage c t h stack (packet ESP_FLASH_END 0 (le_bytes 1) @ r)
        (s\<lparr>uart := ub, sent := sent s @ SLIP_send_frame_delimiter @ SLIP_send_frame_data_buf (response ESP_FLASH_END 2 0)\<rparr>) w;
      let s = s\<lparr>sent := sent s @ out @ SLIP_send_frame_data (of_int error) @ SLIP_send_frame_data (of_int status) @ SLIP_send_frame_delimiter\<rparr>;
      r \<leftarrow> (if error = ESP_OK then second_stage c t h stack [] (packet ESP_FLASH_END 0 (le_bytes 1) @ r) s w else Some (Next s w));
      (case r of Next s w \<Rightarrow> Some (s, w) | _ \<Rightarrow> None) }"
    by (rule deliver_packet [OF assms(1), of "le_bytes 1" ESP_FLASH_END]) (simp_all add: esp_ops)
  have w: "word_at (le_bytes 1 @ r) 0 = 1" using word_at_le [of "[]" 0 1 r] by simp
  show ?thesis unfolding end_packet_def d(2) first_stage_def second_stage_def Let_def packet_fields
    using d(1) assms(1,2) w by (simp add: esp_ops packet_fields ESP_OK_def acknowledged_def listening_def SLIP_send_def)
qed

lemma deliver_blocks:
  assumes c: "spi_controller c n v" and n: "4096 * sectors_end off (length data) \<le> n" and o: "off mod 4 = 0" "length data mod 4 = 0"
  shows "session v off data m k e (flash s) w \<Longrightarrow> k mod 4 = 0 \<Longrightarrow> \<forall>b \<in> set bs. length b mod 4 = 0 \<and> length b \<le> MAX_WRITE_BLOCK \<Longrightarrow>
    drop k data = take (length data - k) (concat bs) \<Longrightarrow> listening s \<Longrightarrow> in_flash_mode (flash s) \<Longrightarrow> last_error (flash s) = ESP_OK \<Longrightarrow>
    \<exists>s' w' e'. deliver_all c t h stack (map data_packet bs) s w = Some (s', w') \<and> session v off data m (length data) e' (flash s') w' \<and>
      listening s' \<and> in_flash_mode (flash s') \<and> last_error (flash s') = ESP_OK \<and>
      sent s' = sent s @ concat (map (\<lambda>b. SLIP_send (response ESP_FLASH_DATA 2 0 @ [0, 0])) bs)"
proof (induction bs arbitrary: k e s w)
  case Nil
  then have "k = length data" by (simp add: session_def)
  then show ?case using Nil by auto
next
  case (Cons b bs)
  have b: "length b mod 4 = 0" "length b \<le> MAX_WRITE_BLOCK" "length b < 4294967296" using Cons.prems(3) by (simp_all add: MAX_WRITE_BLOCK_def)
  obtain fs1 w1 e1 k1 where s: "handle_flash_data c b (of_nat (length b)) (flash s) w = Some (fs1, w1)" "session v off data m k1 e1 fs1 w1"
      "same_session (flash s) fs1" "k1 mod 4 = 0" "drop k1 data = take (length data - k1) (concat bs)"
    using session_block [OF c n o Cons.prems(1,2) b(1,3), of "concat bs"] Cons.prems(4) by auto
  obtain s1 where d: "deliver c t h stack (data_packet b) s w = Some (s1, w1)" "acknowledged ESP_FLASH_DATA s fs1 s1"
    using deliver_data [OF Cons.prems(5) s(1) b(2) Cons.prems(6,7)] by blast
  have f: "flash s1 = fs1" "listening s1" "in_flash_mode fs1" "last_error fs1 = ESP_OK"
    using d(2) s(3) Cons.prems(6,7) by (simp_all add: acknowledged_def same_session_def)
  have "\<exists>s' w' e'. deliver_all c t h stack (map data_packet bs) s1 w1 = Some (s', w') \<and> session v off data m (length data) e' (flash s') w' \<and>
      listening s' \<and> in_flash_mode (flash s') \<and> last_error (flash s') = ESP_OK \<and>
      sent s' = sent s1 @ concat (map (\<lambda>b. SLIP_send (response ESP_FLASH_DATA 2 0 @ [0, 0])) bs)"
    using Cons.prems(3) s(2,4,5) f by (intro Cons.IH) simp_all
  then show ?case using d by (auto simp: acknowledged_def)
qed

text \<open>C2. From the start of the stub: the packets of an upload, of words to a word address in a flash that is large enough, are all
  acknowledged without error, and then the flash has the data at its place, 0xff in the rest of the sectors they touch, and
  elsewhere what it had.\<close>

theorem upload_by_packets:
  fixes zero :: 'i and t :: "'i tinfl"
  assumes c: "spi_controller c n v" and n: "4096 * sectors_end off (length data) \<le> n" and o: "off mod 4 = 0" "length data mod 4 = 0" "data \<noteq> []"
    and b: "\<forall>b \<in> set bs. length b mod 4 = 0 \<and> length b \<le> MAX_WRITE_BLOCK" "data = take (length data) (concat bs)"
    and s: "stub_main c zero w = (s0, w0)"
  shows "\<exists>s w. deliver_all c t h stack
      (begin_packet (of_nat (length data)) blocks (of_nat off) # map data_packet bs @ [end_packet]) s0 w0 = Some (s, w) \<and>
    cell v w = flash_image off data (length data) (sectors_end off (length data)) (cell v w0) \<and>
    sent s = sent s0 @ concat (map (\<lambda>op. SLIP_send (response op 2 0 @ [0, 0]))
      (ESP_FLASH_BEGIN # replicate (length bs) ESP_FLASH_DATA @ [ESP_FLASH_END]))"
proof -
  have s0: "listening s0" using s by (auto simp: stub_main_def listening_def between_frames_def)
  define fs1 where "fs1 = (flash s0)\<lparr>in_flash_mode := True, next_write := of_nat off, next_erase_sector := int (off div 4096),
    remaining := of_nat (length data), remaining_erase_sector := int (sectors_end off (length data) - off div 4096), last_error := ESP_OK\<rparr>"
  obtain w1 where w1: "handle_flash_begin c (of_nat (length data)) (of_nat off) (flash s0) w0 = (ESP_OK, fs1, w1)" "cell v w1 = cell v w0"
    using session_start [OF c n, of "flash s0" w0] unfolding fs1_def by blast
  have i: "session v off data (cell v w0) 0 (off div 4096) fs1 w1" by (rule session_begin [OF w1(2)]) (simp_all add: fs1_def)
  obtain s1 where d1: "deliver c t h stack (begin_packet (of_nat (length data)) blocks (of_nat off)) s0 w0 = Some (s1, w1)"
    "acknowledged ESP_FLASH_BEGIN s0 fs1 s1" using deliver_begin [OF s0 w1(1)] by blast
  have "\<exists>s' w' e'. deliver_all c t h stack (map data_packet bs) s1 w1 = Some (s', w') \<and> session v off data (cell v w0) (length data) e' (flash s') w' \<and>
      listening s' \<and> in_flash_mode (flash s') \<and> last_error (flash s') = ESP_OK \<and>
      sent s' = sent s1 @ concat (map (\<lambda>b. SLIP_send (response ESP_FLASH_DATA 2 0 @ [0, 0])) bs)"
  proof (rule deliver_blocks [OF c n o(1,2), where k = 0 and e = "off div 4096"])
    show "drop 0 data = take (length data - 0) (concat bs)" unfolding drop_0 diff_zero by (rule b(2))
  qed (use d1(2) i b(1) in \<open>simp_all add: acknowledged_def fs1_def\<close>)
  then obtain s2 w2 e where d2: "deliver_all c t h stack (map data_packet bs) s1 w1 = Some (s2, w2)"
    "session v off data (cell v w0) (length data) e (flash s2) w2" "listening s2" "in_flash_mode (flash s2)"
    "last_error (flash s2) = ESP_OK" "sent s2 = sent s1 @ concat (map (\<lambda>b. SLIP_send (response ESP_FLASH_DATA 2 0 @ [0, 0])) bs)" by blast
  have fin: "handle_flash_end (flash s2) = (ESP_OK, (flash s2)\<lparr>in_flash_mode := False\<rparr>)" using d2(2,4,5) by (simp add: handle_flash_end_def session_def)
  obtain s3 where d3: "deliver c t h stack end_packet s2 w2 = Some (s3, w2)"
    "acknowledged ESP_FLASH_END s2 ((flash s2)\<lparr>in_flash_mode := False\<rparr>) s3" using deliver_end [OF d2(3) fin, where c = c and t = t and h = h and stack = stack and w = w2] by blast
  have app: "deliver_all c t h stack (ps @ qs) s w = do { (s, w) \<leftarrow> deliver_all c t h stack ps s w; deliver_all c t h stack qs s w }" for ps qs s w
    by (induction ps arbitrary: s w) (auto split: bind_splits)
  have "deliver_all c t h stack (begin_packet (of_nat (length data)) blocks (of_nat off) # map data_packet bs @ [end_packet]) s0 w0 = Some (s3, w2)"
    using d1(1) d2(1) d3(1) by (simp add: app)
  moreover have "cell v w2 = flash_image off data (length data) (sectors_end off (length data)) (cell v w0)"
    using d2(2) session_complete [OF d2(2) o(3)] by (simp add: session_def)
  moreover have "map (\<lambda>b. SLIP_send (response ESP_FLASH_DATA 2 0 @ [0, 0])) bs =
      map (\<lambda>op. SLIP_send (response op 2 0 @ [0, 0])) (replicate (length bs) ESP_FLASH_DATA)" by (induction bs) simp_all
  then have "sent s3 = sent s0 @ concat (map (\<lambda>op. SLIP_send (response op 2 0 @ [0, 0]))
      (ESP_FLASH_BEGIN # replicate (length bs) ESP_FLASH_DATA @ [ESP_FLASH_END]))"
    using d1(2) d2(6) d3(2) by (simp add: acknowledged_def)
  ultimately show ?thesis by blast
qed

lemma upload_by_packets_witness:
  "\<exists>s0 w0 s w. stub_main (sim_chip 8192) (0, 0) blank_sim = (s0, w0) \<and>
    deliver_all (sim_chip 8192) (output_first [] []) plain_md5 [] [begin_packet 4 1 4096, data_packet [1, 0xc0, 3, 4], end_packet] s0 w0 = Some (s, w) \<and>
    sim_cell w 4097 = 0xc0"
proof -
  obtain s0 w0 where s: "stub_main (sim_chip 8192) (0 :: nat, 0 :: nat) blank_sim = (s0, w0)" by fastforce
  show ?thesis
    using upload_by_packets [OF sim_controller _ _ _ _ _ _ s, of 4096 "[1, 0xc0, 3, 4]" "[[1, 0xc0, 3, 4]]" "output_first [] []" plain_md5 "[]" 1] s
    by (fastforce simp: sectors_end_def flash_image_def sim_view_def MAX_WRITE_BLOCK_def)
qed

end
