(* ===== verification/Stub_Interrupt.thy ===== *)
theory Stub_Interrupt
  imports Stub_Protocol
begin

text \<open>
  The receiver of the flasher stub: its interrupt handler at the registers of the UART, its buffers, and the command that leaves the
  interrupt off.
\<close>

section \<open>The FIFO\<close>

text \<open>What the documentation of the UART promises, while nothing arrives: the status register counts the bytes of the FIFO, reading
  the FIFO takes the first, and the interrupt registers do not touch it.\<close>

definition uart_fifo :: "'w chip \<Rightarrow> ('w \<Rightarrow> u8 list) \<Rightarrow> bool" where
  "uart_fifo c fifo \<longleftrightarrow>
     (\<forall>w. length (fifo w) < 256 \<and> fst (READ_REG c UART_STATUS w) AND 0xff = of_nat (length (fifo w)) \<and>
        fifo (snd (READ_REG c UART_STATUS w)) = fifo w) \<and>
     (\<forall>w. fifo w \<noteq> [] \<longrightarrow> ucast (fst (READ_REG c UART_FIFO w) AND 0xff) = hd (fifo w) \<and> fifo (snd (READ_REG c UART_FIFO w)) = tl (fifo w)) \<and>
     (\<forall>w. fifo (snd (READ_REG c UART_INT_ST w)) = fifo w) \<and>
     (\<forall>x w. fifo (WRITE_REG c UART_INT_CLR x w) = fifo w)"

definition uart_ok :: "uart_buf \<Rightarrow> bool" where
  "uart_ok ub \<longleftrightarrow> length (buf_a ub) = UART_BUF_SIZE \<and> length (buf_b ub) = UART_BUF_SIZE \<and> read_len ub < UART_BUF_SIZE"

lemma recv_byte_range: "SLIP_recv_byte b st = (r, st') \<Longrightarrow> r = SLIP_NO_BYTE \<or> r = SLIP_FINISHED_FRAME \<or> 0 \<le> r"
  by (auto simp: SLIP_recv_byte_def split: if_splits slip_state.splits)

lemma isr_receive_ok:
  assumes "uart_ok ub"
  shows "\<exists>ub'. uart_isr_receive b ub = Some ub' \<and> uart_ok ub'"
proof -
  obtain r st where r: "SLIP_recv_byte b (rx_state ub) = (r, st)" by fastforce
  show ?thesis
    using assms recv_byte_range [OF r] by (cases "reading_a ub"; auto simp: uart_isr_receive_def r uart_ok_def store_def slip_codes Let_def)
qed

lemma receive_bytes_ok: "uart_ok ub \<Longrightarrow> \<exists>ub'. receive_bytes bs ub = Some ub' \<and> uart_ok ub'"
proof (induction bs arbitrary: ub)
  case (Cons b bs)
  then show ?case using isr_receive_ok [OF Cons.prems, of b] by fastforce
qed simp

lemma fifo_read_all:
  assumes c: "uart_fifo c fifo"
  shows "length (fifo w) = k \<Longrightarrow> receive_bytes (fifo w) ub = Some ub' \<Longrightarrow> \<exists>w'. fifo_read c k ub w = Some (ub', w') \<and> fifo w' = []"
proof (induction k arbitrary: ub w)
  case (Suc k)
  obtain b bs where f: "fifo w = b # bs" using Suc.prems(1) by (cases "fifo w") auto
  obtain v w1 where v: "READ_REG c UART_FIFO w = (v, w1)" by fastforce
  have "fifo w \<noteq> []" using f by simp
  then have b: "ucast (v AND 0xff) = b" "fifo w1 = bs" using c f v unfolding uart_fifo_def by (metis fst_conv list.sel(1), metis snd_conv list.sel(3))
  obtain ub1 where "uart_isr_receive b ub = Some ub1" "receive_bytes bs ub1 = Some ub'" using Suc.prems(2) f by (auto split: bind_splits)
  then show ?case using Suc.IH [of w1 ub1] Suc.prems(1) f b v by simp
qed simp

text \<open>C24. Whatever has arrived, the interrupt handler ends, the FIFO is empty then, its bytes have been received in their order, and no
  byte was stored outside the buffers.\<close>

theorem interrupt_receives:
  assumes c: "uart_fifo c fifo" and u: "uart_ok ub"
  shows "\<exists>ub' w'. uart_isr c ub w = Some (ub', w') \<and> receive_bytes (fifo w) ub = Some ub' \<and> fifo w' = [] \<and> uart_ok ub'"
proof -
  have status: "\<exists>v w'. READ_REG c UART_STATUS w = (v, w') \<and> v AND 0xff = of_nat (length (fifo w)) \<and> unat (v AND 0xff) = length (fifo w) \<and> fifo w' = fifo w" for w
  proof -
    have "fst (READ_REG c UART_STATUS w) AND 0xff = of_nat (length (fifo w))" "length (fifo w) < 256" "fifo (snd (READ_REG c UART_STATUS w)) = fifo w"
      using c by (simp_all add: uart_fifo_def)
    moreover from this(2) have "unat (of_nat (length (fifo w)) :: u32) = length (fifo w)" by (intro unat_small) simp
    ultimately show ?thesis by (metis prod.collapse)
  qed
  have stop: "\<exists>w'. fifo_loop c ub w = Some (ub, w') \<and> fifo w' = []" if "fifo w = []" for ub w
    using status [of w] that by (subst fifo_loop.simps) auto
  obtain int_st w1 where i: "READ_REG c UART_INT_ST w = (int_st, w1)" by fastforce
  then have f: "fifo w1 = fifo w" using c unfolding uart_fifo_def by (metis snd_conv)
  obtain ub' where r: "receive_bytes (fifo w) ub = Some ub'" "uart_ok ub'" using receive_bytes_ok [OF u] by blast
  have "\<exists>w'. fifo_loop c ub w1 = Some (ub', w') \<and> fifo w' = []"
  proof (cases "fifo w = []")
    case True
    then show ?thesis using stop [of w1 ub] f r(1) by simp
  next
    case False
    obtain v w2 where v: "READ_REG c UART_STATUS w1 = (v, w2)" "unat (v AND 0xff) = length (fifo w)" "fifo w2 = fifo w"
      using status [of w1] f by auto
    then obtain w3 where "fifo_read c (unat (v AND 0xff)) ub w2 = Some (ub', w3)" "fifo w3 = []" using fifo_read_all [OF c] r(1) by metis
    moreover have "v AND 0xff \<noteq> 0" using v(2) False by auto
    ultimately show ?thesis using stop [of w3 ub'] v(1) by (subst fifo_loop.simps) simp
  qed
  then obtain w4 where "fifo_loop c ub w1 = Some (ub', w4)" "fifo w4 = []" by blast
  moreover have "fifo (WRITE_REG c UART_INT_CLR int_st w4) = fifo w4" using c by (simp add: uart_fifo_def)
  ultimately show ?thesis using r i by (simp add: uart_isr_def)
qed

text \<open>A chip whose world is the FIFO, of 128 bytes.\<close>

definition fifo_chip :: "u8 list chip" where
  "fifo_chip =
     \<lparr>rom = \<lparr>SPIEraseSector = (\<lambda>s w. (1, w)), SPIEraseBlock = (\<lambda>b w. (1, w)), SPIRead = (\<lambda>a old w. (1, old, w)), SPIWrite = (\<lambda>a bs w. (1, w))\<rparr>,
      READ_REG = (\<lambda>r w. if r = UART_STATUS then (of_nat (length (take 128 w)), w)
        else if r = UART_FIFO \<and> w \<noteq> [] then (ucast (hd w), tl (take 128 w)) else (0, w)),
      WRITE_REG = (\<lambda>r x w. w), SPIUnlock = (\<lambda>w. (1, w)), SPIEraseChip = (\<lambda>w. (1, w)),
      SPIParamCfg = (\<lambda>ps w. (0, w)), SelectSpiFunction = (\<lambda>w. w), spi_flash_attach = (\<lambda>w. w), uart_div_modify = (\<lambda>n d w. w)\<rparr>"

lemma fifo_chip_fifo: "uart_fifo fifo_chip (take 128)"
proof -
  have "of_nat k AND 0xff = (of_nat k :: u32)" if "k < 256" for k
  proof -
    have "of_nat k AND (0xff :: u32) = take_bit 8 (of_nat k)" by (simp add: take_bit_eq_mask mask_eq_exp_minus_1)
    also have "\<dots> = of_nat (take_bit 8 k)" by (simp add: of_nat_take_bit)
    finally show ?thesis using that by (simp add: take_bit_eq_mod)
  qed
  note count = this
  have byte: "ucast (ucast b AND 0xff :: u32) = b" for b :: u8
  proof -
    have "unat b < 256" using unsigned_less [of b, where ?'a = nat] by simp
    then have "ucast b AND 0xff = (ucast b :: u32)" using count [of "unat b"] by (simp add: unsigned_of_nat [symmetric] of_nat_unat)
    moreover have "ucast (ucast b :: u32) = b" by (rule bit_word_eqI) (simp add: bit_ucast_iff)
    ultimately show ?thesis by simp
  qed
  have tail: "take 128 (tl (take 128 w)) = tl (take 128 w)" for w :: "u8 list" by (rule take_all) simp
  have regs: "READ_REG fifo_chip UART_STATUS w = (of_nat (length (take 128 w)), w)"
      "w \<noteq> [] \<Longrightarrow> READ_REG fifo_chip UART_FIFO w = (ucast (hd w), tl (take 128 w))"
      "READ_REG fifo_chip UART_INT_ST w = (0, w)" "WRITE_REG fifo_chip r x w = w" for w r x
    by (simp_all add: fifo_chip_def UART_STATUS_def UART_FIFO_def UART_INT_ST_def)
  have len: "length (take 128 w) < 256" for w :: "u8 list" by simp
  show ?thesis unfolding uart_fifo_def regs fst_conv snd_conv
  proof (intro conjI allI impI)
    show "of_nat (length (take 128 w)) AND (0xff :: u32) = of_nat (length (take 128 w))" for w :: "u8 list" by (rule count [OF len])
    show "ucast (fst (READ_REG fifo_chip UART_FIFO w) AND 0xff) = hd (take 128 w)" if "take 128 w \<noteq> []" for w
      using that by (simp add: regs(2) byte hd_take)
    show "take 128 (snd (READ_REG fifo_chip UART_FIFO w)) = tl (take 128 w)" if "take 128 w \<noteq> []" for w
    proof -
      have "w \<noteq> []" using that by auto
      from regs(2) [OF this] show ?thesis by (simp only: tail snd_conv)
    qed
  qed (rule len refl)+
qed

lemma interrupt_receives_witness:
  "\<exists>ub w'. uart_isr fifo_chip first_uart (SLIP_send [1, 2]) = Some (ub, w') \<and> take 128 w' = [] \<and> command ub = Some True"
proof -
  have "uart_ok first_uart" by (simp add: uart_ok_def first_uart_def UART_BUF_SIZE_def)
  moreover have "take 128 (SLIP_send [1, 2]) = SLIP_send [1, 2]" by (simp add: SLIP_send_def SLIP_send_frame_data_buf_def SLIP_send_frame_data_def SLIP_send_frame_delimiter_def)
  moreover have "\<exists>ub. receive_bytes (SLIP_send [1, 2]) first_uart = Some ub \<and> command ub = Some True"
    using frame_received_plain [of first_uart "[1, 2]"] by (simp add: first_uart_def between_frames_def UART_BUF_SIZE_def MAX_WRITE_BLOCK_def)
  ultimately show ?thesis using interrupt_receives [OF fifo_chip_fifo, of first_uart "SLIP_send [1, 2]"] by auto
qed

section \<open>A request that leaves the stub deaf\<close>

text \<open>C40. A request to read flash in blocks of more than a sector is acknowledged without error, sends nothing more, and leaves the
  interrupt off: no packet is received after it.\<close>

theorem large_blocks_deafen:
  assumes l: "listening s" and b: "4096 < unat block_size" and p: "pkts \<noteq> []"
  shows "\<exists>s'. deliver c t h stack (packet ESP_READ_FLASH 0 (le_bytes addr @ le_bytes len @ le_bytes block_size @ le_bytes mif)) s w = Some (s', w) \<and>
    sent s' = sent s @ SLIP_send (response ESP_READ_FLASH 2 0 @ [0, 0]) \<and> deliver_all c t h stack pkts s' w' = None"
proof -
  let ?data = "le_bytes addr @ le_bytes len @ le_bytes block_size @ le_bytes mif"
  obtain r ub where d: "deliver c t h stack (packet ESP_READ_FLASH 0 ?data) s w = do {
      (error, status, out, s, w) \<leftarrow> first_stage c t h stack (packet ESP_READ_FLASH 0 ?data @ r)
        (s\<lparr>uart := ub, sent := sent s @ SLIP_send_frame_delimiter @ SLIP_send_frame_data_buf (response ESP_READ_FLASH 2 0)\<rparr>) w;
      let s = s\<lparr>sent := sent s @ out @ SLIP_send_frame_data (of_int error) @ SLIP_send_frame_data (of_int status) @ SLIP_send_frame_delimiter\<rparr>;
      r \<leftarrow> (if error = ESP_OK then second_stage c t h stack [] (packet ESP_READ_FLASH 0 ?data @ r) s w else Some (Next s w));
      (case r of Next s w \<Rightarrow> Some (s, w) | _ \<Rightarrow> None) }"
    by (rule deliver_packet [OF l, of ?data ESP_READ_FLASH]) (simp_all add: esp_ops)
  have w: "word_at (?data @ r) 8 = block_size" using word_at_le [of "le_bytes addr @ le_bytes len" 8 block_size "le_bytes mif @ r"] by simp
  have "(of_nat FLASH_SECTOR_SIZE :: u32) < block_size" using b by (simp add: word_less_nat_alt FLASH_SECTOR_SIZE_def)
  then have read: "handle_flash_read c h stack a l (word_at (?data @ r) 8) m [] w = Some (False, [], [], w)" for a l m w
    unfolding w handle_flash_read_def by simp
  have "\<exists>s'. deliver c t h stack (packet ESP_READ_FLASH 0 ?data) s w = Some (s', w) \<and>
      sent s' = sent s @ SLIP_send (response ESP_READ_FLASH 2 0 @ [0, 0]) \<and> \<not> uart_enabled s'"
    unfolding d first_stage_def second_stage_def Let_def packet_fields using read
    by (simp add: esp_ops verify_data_len_def packet_fields ESP_OK_def SLIP_send_def)
  moreover have "deliver_all c t h stack pkts s' w' = None" if "\<not> uart_enabled s'" for s'
    using p that by (cases pkts) (simp_all add: deliver_def)
  ultimately show ?thesis by blast
qed

lemma large_blocks_deafen_witness:
  "\<exists>s'. deliver (sim_chip 8192) (output_first [] []) plain_md5 [] (packet ESP_READ_FLASH 0 (le_bytes 0 @ le_bytes 8192 @ le_bytes 8192 @ le_bytes 1))
      (unknown_command\<lparr>uart := first_uart\<rparr>) blank_sim = Some (s', blank_sim) \<and>
    deliver_all (sim_chip 8192) (output_first [] []) plain_md5 [] [end_packet] s' blank_sim = None"
proof -
  have "listening (unknown_command\<lparr>uart := first_uart\<rparr>)"
    by (simp add: listening_def unknown_command_def first_uart_def between_frames_def)
  from large_blocks_deafen [OF this, of 8192 "[end_packet]"] show ?thesis by fastforce
qed

end
