(* ===== verification/Stub_Reading.thy ===== *)
theory Stub_Reading
  imports Stub_Protocol
begin

text \<open>
  The commands of the flasher stub that read flash: the digest of a region, and the dialogue in which a region is sent in blocks that
  the host acknowledges.
\<close>

section \<open>The digest\<close>

text \<open>What the MD5 functions of the ROM promise: the digest is that of the bytes, however they were cut.\<close>

definition md5_of :: "'m md5 \<Rightarrow> (u8 list \<Rightarrow> u8 list) \<Rightarrow> bool" where
  "md5_of h digest \<longleftrightarrow> (\<forall>bss. MD5Final h (foldl (MD5Update h) (MD5Init h) bss) = digest (concat bss))"

definition flash_bytes :: "(nat \<Rightarrow> u8) \<Rightarrow> nat \<Rightarrow> nat \<Rightarrow> u8 list" where
  "flash_bytes m a l = map (\<lambda>i. m (a + i)) [0..<l]"

lemma flash_bytes_simps [simp]: "length (flash_bytes m a l) = l" "flash_bytes m a 0 = []"
  by (simp_all add: flash_bytes_def)

lemma flash_bytes_split: "k \<le> l \<Longrightarrow> flash_bytes m a k @ flash_bytes m (a + k) (l - k) = flash_bytes m a l"
  by (rule nth_equalityI) (auto simp: flash_bytes_def nth_append)

lemma flash_bytes_part: "flash_bytes m (a + k) (min b (l - k)) = take b (drop k (flash_bytes m a l))"
  by (rule nth_equalityI) (auto simp: flash_bytes_def ac_simps)

lemma read_flash_bytes:
  assumes c: "spi_controller c n v" and a: "a mod 4 = 0" "l mod 4 = 0" "a + l \<le> n" "l \<le> length buf"
  obtains w' where "SPIRead (rom c) (of_nat a) (take l buf) w = (0, flash_bytes (cell v w) a l, w')" and "cell v w' = cell v w"
proof -
  have "nor_flash (rom c) n (cell v)" "length (take l buf) = l" using c a(4) by (simp_all add: spi_controller_def)
  then show ?thesis using nor_flash_read [of "rom c" n "cell v" a "take l buf" w thesis] a that by (simp add: flash_bytes_def)
qed

lemma md5_loop_reads:
  assumes c: "spi_controller c n v"
  shows "a mod 4 = 0 \<Longrightarrow> l mod 4 = 0 \<Longrightarrow> a + l \<le> n \<Longrightarrow> length buf = 4096 \<Longrightarrow>
    \<exists>bss w'. md5_loop c h (of_nat a) (of_nat l) ctx buf w = Some (Some (foldl (MD5Update h) ctx bss), w') \<and>
      concat bss = flash_bytes (cell v w) a l \<and> cell v w' = cell v w"
proof (induction l arbitrary: a ctx buf w rule: less_induct)
  case (less l)
  have n: "n \<le> 16777216" using c by (simp add: spi_controller_def)
  have u: "unat (of_nat l :: u32) = l" by (rule unat_small) (use less.prems n in simp)
  show ?case
  proof (cases "l = 0")
    case True
    then show ?thesis by (subst md5_loop.simps) (auto intro: exI [of _ "[]"])
  next
    case False
    define k where "k = min 4096 l"
    have k: "0 < k" "k \<le> l" "k \<le> 4096" "k mod 4 = 0" using False less.prems(2) by (auto simp: k_def min_def)
    have uk: "unat (of_nat k :: u32) = k" by (rule unat_small) (use k in simp)
    have w0: "(0 :: u32) < of_nat l" unfolding word_less_nat_alt u using False by simp
    have "(if of_nat FLASH_SECTOR_SIZE < (of_nat l :: u32) then of_nat FLASH_SECTOR_SIZE else of_nat l) = (of_nat k :: u32)"
      unfolding word_less_nat_alt u by (auto simp: k_def FLASH_SECTOR_SIZE_def min_def)
    note step = md5_loop.simps [of c h "of_nat a" "of_nat l" ctx buf w, unfolded this Let_def uk if_P [OF w0]]
    obtain w1 where w1: "SPIRead (rom c) (of_nat a) (take k buf) w = (0, flash_bytes (cell v w) a k, w1)" "cell v w1 = cell v w"
      using read_flash_bytes [OF c less.prems(1) k(4), of buf w] less.prems k by auto
    let ?b = "flash_bytes (cell v w) a k @ drop k buf"
    have "\<exists>bss w'. md5_loop c h (of_nat (a + k)) (of_nat (l - k)) (MD5Update h ctx (flash_bytes (cell v w) a k)) ?b w1 =
        Some (Some (foldl (MD5Update h) (MD5Update h ctx (flash_bytes (cell v w) a k)) bss), w') \<and>
        concat bss = flash_bytes (cell v w1) (a + k) (l - k) \<and> cell v w' = cell v w1"
      using less.prems k by (intro less.IH) (simp_all add: mod_add_eq [symmetric], presburger)
    then obtain bss w' where r: "md5_loop c h (of_nat (a + k)) (of_nat (l - k)) (MD5Update h ctx (flash_bytes (cell v w) a k)) ?b w1 =
        Some (Some (foldl (MD5Update h) (MD5Update h ctx (flash_bytes (cell v w) a k)) bss), w')"
      "concat bss = flash_bytes (cell v w1) (a + k) (l - k)" "cell v w' = cell v w1" by blast
    have "md5_loop c h (of_nat a) (of_nat l) ctx buf w = Some (Some (foldl (MD5Update h) ctx (flash_bytes (cell v w) a k # bss)), w')"
      unfolding step w1(1) using r(1) k(2) by (simp add: of_nat_diff)
    moreover have "concat (flash_bytes (cell v w) a k # bss) = flash_bytes (cell v w) a l"
      using flash_bytes_split [OF k(2)] r(2) w1(2) by simp
    ultimately show ?thesis using r(3) w1(2) by metis
  qed
qed

text \<open>The MD5 sum that the stub sends is that of the bytes of the region, and the flash stays as it is.\<close>

theorem md5_of_region:
  assumes c: "spi_controller c n v" and h: "md5_of h digest" and a: "a mod 4 = 0" "l mod 4 = 0" "a + l \<le> n" and b: "length stack = 4096"
  shows "\<exists>w'. handle_flash_get_md5sum c h stack (of_nat a) (of_nat l) w =
      Some (0, SLIP_send_frame_data_buf (digest (flash_bytes (cell v w) a l)), w') \<and> cell v w' = cell v w"
  using md5_loop_reads [OF c a b, of h "MD5Init h" w] h by (auto simp: handle_flash_get_md5sum_def md5_of_def)

lemma plain_md5_of: "md5_of plain_md5 (\<lambda>bs. bs)"
proof -
  have "foldl (@) xs bss = xs @ concat bss" for xs :: "u8 list" and bss by (induction bss arbitrary: xs) simp_all
  then show ?thesis by (simp add: md5_of_def plain_md5_def)
qed

lemma md5_of_region_witness:
  "\<exists>w'. handle_flash_get_md5sum (sim_chip 8192) plain_md5 (replicate 4096 0) 4 8 blank_sim = Some (0, [0, 0, 0, 0, 0, 0, 0, 0], w')"
  using md5_of_region [OF sim_controller plain_md5_of, of 8192 4 8 "replicate 4096 0" blank_sim]
  by (auto simp: sim_view_def blank_sim_def flash_bytes_def SLIP_send_frame_data_buf_def SLIP_send_frame_data_def upt_rec)

section \<open>The dialogue\<close>

text \<open>The blocks of a region, and the acknowledgements of a host that sends, after each block, the number of bytes it has.\<close>

definition read_count :: "nat \<Rightarrow> nat \<Rightarrow> nat" where "read_count b l = (l + b - 1) div b"

definition read_block :: "nat \<Rightarrow> u8 list \<Rightarrow> nat \<Rightarrow> u8 list" where "read_block b data i = take b (drop (i * b) data)"

definition host_acks :: "nat \<Rightarrow> nat \<Rightarrow> nat \<Rightarrow> u8 list" where
  "host_acks b l i = concat (map (\<lambda>j. SLIP_send (le_bytes (of_nat (min l (Suc j * b))))) [i..<read_count b l])"

lemma before_count:
  assumes "0 < b"
  shows "i < read_count b l \<longleftrightarrow> i * b < l"
proof -
  have "i < read_count b l \<longleftrightarrow> Suc i * b \<le> l + b - 1"
    unfolding read_count_def Suc_le_eq [symmetric] by (rule less_eq_div_iff_mult_less_eq [OF assms])
  then show ?thesis using assms by auto
qed

lemma blocks_join: "concat (map (read_block b data) [0..<i]) = take (i * b) data"
proof (induction i)
  case (Suc i)
  have "take (Suc i * b) data = take (i * b) data @ take b (drop (i * b) data)" unfolding mult_Suc add.commute [of b] by (rule take_add)
  then show ?case using Suc by (simp add: read_block_def)
qed simp

lemma host_acks_step: "i < read_count b l \<Longrightarrow> host_acks b l i = SLIP_send (le_bytes (of_nat (min l (Suc i * b)))) @ host_acks b l (Suc i)"
  by (simp add: host_acks_def upt_conv_Cons)

text \<open>What has been sent when \<open>j\<close> blocks have.\<close>

definition blocks_sent :: "'w spi_view \<Rightarrow> 'm md5 \<Rightarrow> nat \<Rightarrow> nat \<Rightarrow> (nat \<Rightarrow> u8) \<Rightarrow> nat \<Rightarrow> nat \<Rightarrow> u8 list \<times> u32 \<times> u32 \<times> 'm \<times> u8 list \<times> 'w \<Rightarrow> bool" where
  "blocks_sent v h a l m b j st \<longleftrightarrow> j \<le> read_count b l \<and> (\<exists>buf w. length buf = 4096 \<and> cell v w = m \<and>
     st = (buf, of_nat (a + min l (j * b)), of_nat (min l (j * b)),
       foldl (MD5Update h) (MD5Init h) (map (read_block b (flash_bytes m a l)) [0..<j]),
       concat (map (\<lambda>i. SLIP_send (read_block b (flash_bytes m a l) i)) [0..<j]), w))"

lemma send_blocks_stop:
  "\<not> (num_sent < len \<and> num_sent - num_acked < mif) \<Longrightarrow>
    send_blocks c h len block_size mif num_acked (buf, addr, num_sent, ctx, out, w) = Some (buf, addr, num_sent, ctx, out, w)"
  by (subst send_blocks.simps) (simp only: prod.case if_False)

lemma send_blocks_step:
  "num_sent < len \<Longrightarrow> num_sent - num_acked < mif \<Longrightarrow> (if block_size < len - num_sent then block_size else len - num_sent) = k \<Longrightarrow>
    SPIRead (rom c) addr (take (unat k) buf) w = (0, bs, w1) \<Longrightarrow>
    send_blocks c h len block_size mif num_acked (buf, addr, num_sent, ctx, out, w) =
    send_blocks c h len block_size mif num_acked (bs @ drop (unat k) buf, addr + k, num_sent + k, MD5Update h ctx bs, out @ SLIP_send bs, w1)"
  by (subst send_blocks.simps) (simp add: Let_def)

lemma send_blocks_window:
  assumes c: "spi_controller c n v" and a: "a mod 4 = 0" "l mod 4 = 0" "a + l \<le> n" and b: "0 < b" "b mod 4 = 0" "b \<le> 4096"
  shows "blocks_sent v h a l m b j st \<Longrightarrow> i \<le> j \<Longrightarrow>
    \<exists>k st'. send_blocks c h (of_nat l) (of_nat b) mif (of_nat (min l (i * b))) st = Some st' \<and> blocks_sent v h a l m b k st' \<and> j \<le> k \<and>
      (i = j \<and> i < read_count b l \<and> 0 < mif \<longrightarrow> i < k)"
proof (induction "read_count b l - j" arbitrary: j st rule: less_induct)
  case less
  have n: "n \<le> 16777216" using c by (simp add: spi_controller_def)
  have u: "unat (of_nat x :: u32) = x" if "x \<le> l" for x by (rule unat_small) (use that a n in simp)
  obtain buf w where st: "length buf = 4096" "cell v w = m" "st = (buf, of_nat (a + min l (j * b)), of_nat (min l (j * b)),
      foldl (MD5Update h) (MD5Init h) (map (read_block b (flash_bytes m a l)) [0..<j]),
      concat (map (\<lambda>i. SLIP_send (read_block b (flash_bytes m a l) i)) [0..<j]), w)" and j: "j \<le> read_count b l"
    using less.prems(1) unfolding blocks_sent_def by blast
  let ?s = "min l (j * b)" and ?k = "min l (i * b)"
  have le: "?k \<le> ?s" using less.prems(2) by (simp add: min.coboundedI2)
  show ?case
  proof (cases "?s < l \<and> (of_nat (?s - ?k) :: u32) < mif")
    case False
    have "\<not> ((of_nat ?s :: u32) < of_nat l \<and> of_nat ?s - of_nat ?k < mif)"
      using False le unfolding word_less_nat_alt [of "of_nat ?s"] by (simp add: u of_nat_diff)
    then have "send_blocks c h (of_nat l) (of_nat b) mif (of_nat ?k) st = Some st"
      unfolding st(3) by (rule send_blocks_stop)
    moreover have "\<not> (i = j \<and> i < read_count b l \<and> 0 < mif)" using False before_count [OF b(1)] by auto
    ultimately show ?thesis using less.prems(1) by blast
  next
    case True
    then have jl: "j * b < l" "?s = j * b" by auto
    then have jc: "j < read_count b l" using before_count [OF b(1)] by blast
    define x where "x = min b (l - j * b)"
    have x: "0 < x" "x \<le> 4096" "x mod 4 = 0" "j * b + x = min l (Suc j * b)"
      using jl b a(2) by (auto simp: x_def min_def mod_mult_right_eq)
    have ux: "unat (of_nat x :: u32) = x" by (rule u) (simp add: x_def)
    have w: "(of_nat ?s :: u32) < of_nat l" "(of_nat ?s :: u32) - of_nat ?k < mif"
      using True le unfolding word_less_nat_alt [of "of_nat ?s"] by (simp_all add: u of_nat_diff)
    have "(of_nat l :: u32) - of_nat ?s = of_nat (l - j * b)" using jl by (simp add: of_nat_diff)
    moreover have "unat (of_nat b :: u32) = b" by (rule unat_small) (use b(3) in simp)
    ultimately have k: "(if (of_nat b :: u32) < of_nat l - of_nat ?s then of_nat b else of_nat l - of_nat ?s) = (of_nat x :: u32)"
      by (simp add: word_less_nat_alt u x_def min_def)
    have "(a + j * b) mod 4 = 0" using a(1) b(2) by (simp add: dvd_eq_mod_eq_0 [symmetric])
    moreover have "a + j * b + x \<le> n" using a(3) jl unfolding x_def by linarith
    ultimately obtain w1 where w1: "SPIRead (rom c) (of_nat (a + j * b)) (take x buf) w = (0, flash_bytes m (a + j * b) x, w1)" "cell v w1 = m"
      using read_flash_bytes [OF c _ x(3), of "a + j * b" buf w] x(2) st(1,2) by auto
    have blk: "flash_bytes m (a + j * b) x = read_block b (flash_bytes m a l) j" unfolding x_def flash_bytes_part read_block_def ..
    define st1 where "st1 = (flash_bytes m (a + j * b) x @ drop x buf, of_nat (a + (j * b + x)) :: u32, of_nat (j * b + x) :: u32,
      foldl (MD5Update h) (MD5Init h) (map (read_block b (flash_bytes m a l)) [0..<Suc j]),
      concat (map (\<lambda>i. SLIP_send (read_block b (flash_bytes m a l) i)) [0..<Suc j]), w1)"
    have step: "send_blocks c h (of_nat l) (of_nat b) mif (of_nat ?k) st = send_blocks c h (of_nat l) (of_nat b) mif (of_nat ?k) st1"
      unfolding st(3) by (subst send_blocks_step [OF w k]) (use w1(1) jl(2) ux in \<open>simp_all add: st1_def blk [symmetric] ac_simps\<close>)
    have "blocks_sent v h a l m b (Suc j) st1" using jc w1(2) st(1) x(2) unfolding blocks_sent_def st1_def x(4) by auto
    then obtain k st' where "send_blocks c h (of_nat l) (of_nat b) mif (of_nat ?k) st1 = Some st'" "blocks_sent v h a l m b k st'" "Suc j \<le> k"
      using less.hyps [of "Suc j" st1] jc less.prems(2) by fastforce
    then show ?thesis using step less.prems(2) by (intro exI [of _ k] exI [of _ st']) auto
  qed
qed

lemma flash_read_loop_stop:
  "\<not> (num_acked < len \<and> num_acked \<le> num_sent) \<Longrightarrow>
    flash_read_loop c h len block_size mif num_acked input (buf, addr, num_sent, ctx, out, w) = Some (ctx, out, input, w)"
  by (subst flash_read_loop.simps) (simp only: prod.case if_False)

lemma flash_read_loop_step:
  "num_acked < len \<Longrightarrow> num_acked \<le> num_sent \<Longrightarrow>
    send_blocks c h len block_size mif num_acked (buf, addr, num_sent, ctx, out, w) = Some st' \<Longrightarrow>
    flash_read_loop c h len block_size mif num_acked (SLIP_send (le_bytes ack) @ input) (buf, addr, num_sent, ctx, out, w) =
    flash_read_loop c h len block_size mif ack input st'"
  using recv_packet [of 4 "le_bytes num_acked" "le_bytes ack" input] word_at_le [of "[]" 0 ack "[]"]
  by (subst flash_read_loop.simps) (simp add: le_bytes_def)

lemma flash_read_loop_dialogue:
  assumes c: "spi_controller c n v" and a: "a mod 4 = 0" "l mod 4 = 0" "a + l \<le> n" and b: "0 < b" "b mod 4 = 0" "b \<le> 4096" and f: "0 < mif"
  shows "blocks_sent v h a l m b j st \<Longrightarrow> i \<le> j \<Longrightarrow>
    \<exists>w'. flash_read_loop c h (of_nat l) (of_nat b) mif (of_nat (min l (i * b))) (host_acks b l i @ rest) st =
      Some (foldl (MD5Update h) (MD5Init h) (map (read_block b (flash_bytes m a l)) [0..<read_count b l]),
        concat (map (\<lambda>i. SLIP_send (read_block b (flash_bytes m a l) i)) [0..<read_count b l]), rest, w') \<and> cell v w' = m"
proof (induction "read_count b l - i" arbitrary: i j st rule: less_induct)
  case less
  have n: "n \<le> 16777216" using c by (simp add: spi_controller_def)
  have u: "unat (of_nat x :: u32) = x" if "x \<le> l" for x by (rule unat_small) (use that a n in simp)
  obtain buf w where st: "cell v w = m" "st = (buf, of_nat (a + min l (j * b)), of_nat (min l (j * b)),
      foldl (MD5Update h) (MD5Init h) (map (read_block b (flash_bytes m a l)) [0..<j]),
      concat (map (\<lambda>i. SLIP_send (read_block b (flash_bytes m a l) i)) [0..<j]), w)" and j: "j \<le> read_count b l"
    using less.prems(1) unfolding blocks_sent_def by blast
  show ?case
  proof (cases "i < read_count b l")
    case False
    then have "min l (i * b) = l" "j = read_count b l" "host_acks b l i = []"
      using before_count [OF b(1), of i l] less.prems(2) j by (simp_all add: host_acks_def)
    then show ?thesis using st unfolding st(2) by (subst flash_read_loop_stop) simp_all
  next
    case True
    have le: "min l (i * b) \<le> min l (j * b)" using less.prems(2) by (simp add: min.coboundedI2)
    have w: "(of_nat (min l (i * b)) :: u32) < of_nat l" "(of_nat (min l (i * b)) :: u32) \<le> of_nat (min l (j * b))"
      unfolding word_less_nat_alt word_le_nat_alt u [OF min.cobounded1] u [OF order_refl] using True before_count [OF b(1), of i l] le by simp_all
    obtain k st' where s: "send_blocks c h (of_nat l) (of_nat b) mif (of_nat (min l (i * b))) st = Some st'" "blocks_sent v h a l m b k st'" "j \<le> k"
      "i = j \<and> i < read_count b l \<and> 0 < mif \<longrightarrow> i < k"
      using send_blocks_window [OF c a b less.prems, of mif] by blast
    have k: "Suc i \<le> k" using s(3,4) less.prems(2) True f by (cases "i = j") auto
    have "flash_read_loop c h (of_nat l) (of_nat b) mif (of_nat (min l (i * b))) (host_acks b l i @ rest) st =
        flash_read_loop c h (of_nat l) (of_nat b) mif (of_nat (min l (Suc i * b))) (host_acks b l (Suc i) @ rest) st'"
      unfolding host_acks_step [OF True] append_assoc st(2) by (rule flash_read_loop_step [OF w s(1) [unfolded st(2)]])
    then show ?thesis using less.hyps [OF _ s(2) k] True by (simp add: diff_less_mono2)
  qed
qed

text \<open>C23. A region that the host reads, acknowledging each block, is sent in blocks in its order, whatever the window, and then the digest
  of what was sent; the command ends when the last acknowledgement has come, with the interrupt on again.\<close>

theorem flash_read_back:
  assumes c: "spi_controller c n v" and h: "md5_of h digest" and a: "a mod 4 = 0" "l mod 4 = 0" "a + l \<le> n" and s: "length stack = 4096"
    and b: "0 < b" "b mod 4 = 0" "b \<le> 4096" and f: "0 < mif"
  shows "\<exists>bss w'. handle_flash_read c h stack (of_nat a) (of_nat l) (of_nat b) mif (host_acks b l 0 @ rest) w =
      Some (True, concat (map SLIP_send bss) @ SLIP_send (digest (flash_bytes (cell v w) a l)), rest, w') \<and>
    concat bss = flash_bytes (cell v w) a l \<and> (\<forall>x \<in> set bss. length x \<le> b) \<and> cell v w' = cell v w"
proof -
  let ?d = "flash_bytes (cell v w) a l"
  let ?bss = "map (read_block b ?d) [0..<read_count b l]"
  have i: "blocks_sent v h a l (cell v w) b 0 (stack, of_nat a, 0, MD5Init h, [], w)" using s by (auto simp: blocks_sent_def)
  obtain w' where r: "flash_read_loop c h (of_nat l) (of_nat b) mif 0 (host_acks b l 0 @ rest) (stack, of_nat a, 0, MD5Init h, [], w) =
      Some (foldl (MD5Update h) (MD5Init h) ?bss, concat (map SLIP_send ?bss), rest, w')" "cell v w' = cell v w"
    using flash_read_loop_dialogue [OF c a b f i, of 0 rest] by (auto simp: comp_def)
  have "l \<le> read_count b l * b" using before_count [OF b(1), of "read_count b l" l] by simp
  then have j: "concat ?bss = ?d" unfolding blocks_join by simp
  have "\<not> (of_nat FLASH_SECTOR_SIZE :: u32) < of_nat b"
    using b(3) unat_small [of b] by (simp add: word_less_nat_alt FLASH_SECTOR_SIZE_def)
  moreover have "MD5Final h (foldl (MD5Update h) (MD5Init h) ?bss) = digest ?d" using h j by (simp add: md5_of_def)
  moreover have "\<forall>x \<in> set ?bss. length x \<le> b" by (auto simp: read_block_def)
  ultimately show ?thesis using r j by (intro exI [of _ ?bss] exI [of _ w']) (simp add: handle_flash_read_def)
qed

lemma flash_read_back_witness:
  "\<exists>bss w'. handle_flash_read (sim_chip 8192) plain_md5 (replicate 4096 0) (of_nat 4) (of_nat 8) (of_nat 4) 64 (host_acks 4 8 0 @ [7]) blank_sim =
      Some (True, concat (map SLIP_send bss) @ SLIP_send (flash_bytes (\<lambda>a. 0) 4 8), [7], w') \<and> concat bss = flash_bytes (\<lambda>a. 0) 4 8"
proof -
  have "length (replicate 4096 (0 :: u8)) = 4096" by simp
  from flash_read_back [OF sim_controller plain_md5_of _ _ _ this, of 8192 4 8 4 64 "[7]" blank_sim]
  show ?thesis unfolding sim_view_def spi_view.simps blank_sim_def sim.simps by fastforce
qed

end
