(* ===== verification/Stub_Regions.thy ===== *)
theory Stub_Regions
  imports Stub_Protocol
begin

text \<open>
  Commands of the flasher stub on regions of the flash: erasing, the digest, and reading with acknowledgements.
\<close>

section \<open>Erasing\<close>

definition wiped :: "nat \<Rightarrow> nat \<Rightarrow> (nat \<Rightarrow> u8) \<Rightarrow> nat \<Rightarrow> u8" where
  "wiped i k m a = (if i \<le> a div 4096 \<and> a div 4096 < i + k then 0xff else m a)"

lemma wiped_simps [simp]: "wiped i 0 m = m" "wiped (i + k) l (wiped i k m) = wiped i (k + l) m"
  by (auto simp: wiped_def fun_eq_iff)

lemma region_words:
  assumes "4096 * (i + j) \<le> n" and "n \<le> 16777216"
  shows "unat (of_nat (4096 * i) :: u32) = 4096 * i" and "unat (of_nat (4096 * j) :: u32) = 4096 * j"
proof -
  show "unat (of_nat (4096 * i) :: u32) = 4096 * i" by (rule unat_small) (use assms in simp)
  show "unat (of_nat (4096 * j) :: u32) = 4096 * j" by (rule unat_small) (use assms in simp)
qed

lemma erase_by_sector_step:
  "0 < len \<Longrightarrow> al \<longrightarrow> addr mod of_nat FLASH_BLOCK_SIZE \<noteq> 0 \<Longrightarrow> SPIEraseSector (rom c) (unat addr div FLASH_SECTOR_SIZE) w = (0, w1) \<Longrightarrow>
    erase_by_sector c al err addr len w = erase_by_sector c al err (addr + of_nat FLASH_SECTOR_SIZE) (len - of_nat FLASH_SECTOR_SIZE) w1"
  by (subst erase_by_sector.simps) simp

lemma erase_by_block_step:
  "of_nat FLASH_BLOCK_SIZE < len \<Longrightarrow> SPIEraseBlock (rom c) (unat addr div FLASH_BLOCK_SIZE) w = (0, w1) \<Longrightarrow>
    erase_by_block c addr len w = erase_by_block c (addr + of_nat FLASH_BLOCK_SIZE) (len - of_nat FLASH_BLOCK_SIZE) w1"
  by (subst erase_by_block.simps) simp

lemma erase_by_sector_ends:
  assumes c: "spi_controller c n v"
  shows "4096 * (i + j) \<le> n \<Longrightarrow>
    \<exists>k w'. erase_by_sector c al err (of_nat (4096 * i)) (of_nat (4096 * j)) w = Some (Inr (of_nat (4096 * (i + k)), of_nat (4096 * (j - k)), w')) \<and>
      k \<le> j \<and> (k = j \<or> al \<and> (i + k) mod 16 = 0) \<and> cell v w' = wiped i k (cell v w)"
proof (induction j arbitrary: i w)
  case 0
  then show ?case by (intro exI [of _ 0] exI [of _ w]) (subst erase_by_sector.simps, simp)
next
  case (Suc j)
  have n: "n \<le> 16777216" using c by (simp add: spi_controller_def)
  note u = region_words [OF Suc.prems n]
  have pos: "(0 :: u32) < of_nat (4096 * Suc j)" unfolding word_less_nat_alt u(2) by simp
  have "unat ((of_nat (4096 * i) :: u32) mod of_nat FLASH_BLOCK_SIZE) = 4096 * i mod 65536"
    unfolding unat_mod u(1) by (simp add: FLASH_BLOCK_SIZE_def)
  also have "\<dots> = 4096 * (i mod 16)" by (simp add: mult_mod_right)
  finally have al: "(of_nat (4096 * i) :: u32) mod of_nat FLASH_BLOCK_SIZE = 0 \<longleftrightarrow> i mod 16 = 0" by (simp add: word_unat_eq_iff)
  show ?case
  proof (cases "al \<and> i mod 16 = 0")
    case True
    then have "erase_by_sector c al err (of_nat (4096 * i)) (of_nat (4096 * Suc j)) w = Some (Inr (of_nat (4096 * i), of_nat (4096 * Suc j), w))"
      using al by (subst erase_by_sector.simps) simp
    then show ?thesis using True by (intro exI [of _ 0] exI [of _ w]) simp
  next
    case False
    have f: "nor_flash (rom c) n (cell v)" "4096 * (i + 1) \<le> n" using c Suc.prems by (simp_all add: spi_controller_def)
    obtain w1 where w1: "SPIEraseSector (rom c) i w = (0, w1)" "cell v w1 = (\<lambda>a. if a div 4096 = i then 0xff else cell v w a)"
      by (rule nor_flash_erase_sector [OF f])
    have m: "cell v w1 = wiped i 1 (cell v w)" unfolding w1(2) by (auto simp: wiped_def fun_eq_iff)
    have "4096 * ((i + 1) + j) \<le> n" using Suc.prems by simp
    from Suc.IH [OF this, of w1] obtain k w' where k: "erase_by_sector c al err (of_nat (4096 * (i + 1))) (of_nat (4096 * j)) w1 =
        Some (Inr (of_nat (4096 * ((i + 1) + k)), of_nat (4096 * (j - k)), w'))" "k \<le> j" "k = j \<or> al \<and> ((i + 1) + k) mod 16 = 0"
      "cell v w' = wiped (i + 1) k (cell v w1)" by (elim exE conjE) (rule that)
    have s: "of_nat (4096 * i) + of_nat FLASH_SECTOR_SIZE = (of_nat (4096 * (i + 1)) :: u32)"
      "of_nat (4096 * Suc j) - of_nat FLASH_SECTOR_SIZE = (of_nat (4096 * j) :: u32)" by (simp_all add: FLASH_SECTOR_SIZE_def algebra_simps)
    have d: "unat (of_nat (4096 * i) :: u32) div FLASH_SECTOR_SIZE = i" unfolding u(1) by (simp add: FLASH_SECTOR_SIZE_def)
    have "al \<longrightarrow> (of_nat (4096 * i) :: u32) mod of_nat FLASH_BLOCK_SIZE \<noteq> 0" unfolding al using False by simp
    from erase_by_sector_step [OF pos this, of c w w1 err] w1(1)
    have "erase_by_sector c al err (of_nat (4096 * i)) (of_nat (4096 * Suc j)) w =
        erase_by_sector c al err (of_nat (4096 * (i + 1))) (of_nat (4096 * j)) w1" unfolding s d by blast
    moreover have "(i + 1) + k = i + (k + 1)" "j - k = Suc j - (k + 1)" by simp_all
    moreover have "cell v w' = wiped i (k + 1) (cell v w)" unfolding k(4) m wiped_simps by (simp add: add.commute)
    ultimately show ?thesis using k(1-3) by (intro exI [of _ "k + 1"] exI [of _ w']) (auto simp: add.assoc)
  qed
qed

lemma erase_by_block_ends:
  assumes c: "spi_controller c n v"
  shows "4096 * (i + j) \<le> n \<Longrightarrow> i mod 16 = 0 \<or> j \<le> 16 \<Longrightarrow>
    \<exists>k w'. erase_by_block c (of_nat (4096 * i)) (of_nat (4096 * j)) w = Some (Inr (of_nat (4096 * (i + k)), of_nat (4096 * (j - k)), w')) \<and>
      k \<le> j \<and> cell v w' = wiped i k (cell v w)"
proof (induction j arbitrary: i w rule: less_induct)
  case (less j)
  have n: "n \<le> 16777216" using c by (simp add: spi_controller_def)
  note u = region_words [OF less.prems(1) n]
  have more: "(of_nat FLASH_BLOCK_SIZE :: u32) < of_nat (4096 * j) \<longleftrightarrow> 16 < j"
    unfolding word_less_nat_alt u(2) by (simp add: FLASH_BLOCK_SIZE_def)
  show ?case
  proof (cases "16 < j")
    case False
    then have "erase_by_block c (of_nat (4096 * i)) (of_nat (4096 * j)) w = Some (Inr (of_nat (4096 * i), of_nat (4096 * j), w))"
      using more by (subst erase_by_block.simps) simp
    then show ?thesis by (intro exI [of _ 0] exI [of _ w]) simp
  next
    case True
    then obtain b where b: "i = 16 * b" using less.prems(2) by (auto elim: dvdE)
    have f: "nor_flash (rom c) n (cell v)" "65536 * (b + 1) \<le> n" using c less.prems(1) True b by (simp_all add: spi_controller_def)
    obtain w1 where w1: "SPIEraseBlock (rom c) b w = (0, w1)" "cell v w1 = (\<lambda>a. if a div 65536 = b then 0xff else cell v w a)"
      by (rule nor_flash_erase_block [OF f])
    have m: "cell v w1 = wiped i 16 (cell v w)"
    proof
      fix a :: nat
      have "a div 65536 = a div 4096 div 16" by (simp add: div_mult2_eq [of a 4096 16, simplified])
      moreover have "a div 4096 div 16 = b \<longleftrightarrow> 16 * b \<le> a div 4096 \<and> a div 4096 < 16 * b + 16" by linarith
      ultimately show "cell v w1 a = wiped i 16 (cell v w) a" unfolding w1(2) wiped_def b by simp
    qed
    have "4096 * ((i + 16) + (j - 16)) \<le> n" "(i + 16) mod 16 = 0 \<or> j - 16 \<le> 16" using less.prems(1) True b by simp_all
    from less.IH [OF _ this, of w1] True obtain k w' where k: "erase_by_block c (of_nat (4096 * (i + 16))) (of_nat (4096 * (j - 16))) w1 =
        Some (Inr (of_nat (4096 * ((i + 16) + k)), of_nat (4096 * (j - 16 - k)), w'))" "k \<le> j - 16" "cell v w' = wiped (i + 16) k (cell v w1)" by auto
    have "4096 * j = 4096 * (j - 16) + 65536" using True by simp
    then have s: "of_nat (4096 * j) - of_nat FLASH_BLOCK_SIZE = (of_nat (4096 * (j - 16)) :: u32)" by (simp only: of_nat_add FLASH_BLOCK_SIZE_def) simp
    have s': "of_nat (4096 * i) + of_nat FLASH_BLOCK_SIZE = (of_nat (4096 * (i + 16)) :: u32)" by (simp add: FLASH_BLOCK_SIZE_def algebra_simps)
    have d: "unat (of_nat (4096 * i) :: u32) div FLASH_BLOCK_SIZE = b" unfolding u(1) by (simp add: FLASH_BLOCK_SIZE_def b)
    have "(of_nat FLASH_BLOCK_SIZE :: u32) < of_nat (4096 * j)" using more True by blast
    from erase_by_block_step [OF this, of c "of_nat (4096 * i)" w w1] w1(1)
    have "erase_by_block c (of_nat (4096 * i)) (of_nat (4096 * j)) w =
        erase_by_block c (of_nat (4096 * (i + 16))) (of_nat (4096 * (j - 16))) w1" unfolding s s' d by blast
    moreover have "(i + 16) + k = i + (k + 16)" "j - 16 - k = j - (k + 16)" by simp_all
    moreover have "cell v w' = wiped i (k + 16) (cell v w)" unfolding k(3) m wiped_simps by (simp add: add.commute)
    ultimately show ?thesis using k(1,2) True by (intro exI [of _ "k + 16"] exI [of _ w']) (auto simp: add.assoc)
  qed
qed

text \<open>C25. A region of whole sectors is wiped, exactly that region, by sectors and blocks; a region that does not begin or end at a
  sector is refused and nothing changes.\<close>

theorem region_erased:
  assumes c: "spi_controller c n v" and n: "unat addr + unat len \<le> n"
  shows "if unat addr mod 4096 \<noteq> 0 then handle_flash_erase c addr len w = Some (0x32, w)
    else if unat len mod 4096 \<noteq> 0 then handle_flash_erase c addr len w = Some (0x33, w)
    else \<exists>w'. handle_flash_erase c addr len w = Some (0, w') \<and>
      cell v w' = (\<lambda>a. if unat addr \<le> a \<and> a < unat addr + unat len then 0xff else cell v w a)"
proof -
  have m: "x mod of_nat FLASH_SECTOR_SIZE = 0 \<longleftrightarrow> unat x mod 4096 = 0" for x :: u32
    by (simp add: word_unat_eq_iff unat_mod FLASH_SECTOR_SIZE_def)
  have "\<exists>w'. handle_flash_erase c addr len w = Some (0, w') \<and>
      cell v w' = (\<lambda>a. if unat addr \<le> a \<and> a < unat addr + unat len then 0xff else cell v w a)"
    if a: "unat addr mod 4096 = 0" "unat len mod 4096 = 0"
  proof -
    obtain i j where i: "unat addr = 4096 * i" "unat len = 4096 * j" using a by (auto elim!: dvdE)
    have "addr = of_nat (unat addr)" "len = of_nat (unat len)" by simp_all
    then have w: "addr = of_nat (4096 * i)" "len = of_nat (4096 * j)" unfolding i .
    have l: "4096 * (i + j) \<le> n" using n unfolding i by simp
    obtain r w1 where u: "SPIUnlock c w = (r, w1)" by fastforce
    then have u': "r = 0" "cell v w1 = cell v w" using c unfolding spi_controller_def by (metis fst_conv snd_conv)+
    obtain k1 w2 where e1: "erase_by_sector c True 0x35 (of_nat (4096 * i)) (of_nat (4096 * j)) w1 = Some (Inr (of_nat (4096 * (i + k1)), of_nat (4096 * (j - k1)), w2))"
      "k1 \<le> j" "k1 = j \<or> True \<and> (i + k1) mod 16 = 0" "cell v w2 = wiped i k1 (cell v w1)"
      using erase_by_sector_ends [OF c l, of True "0x35" w1] by (elim exE conjE) (rule that)
    have "4096 * ((i + k1) + (j - k1)) \<le> n" "(i + k1) mod 16 = 0 \<or> j - k1 \<le> 16" using l e1(2,3) by auto
    from erase_by_block_ends [OF c this, of w2] obtain k2 w3 where e2:
      "erase_by_block c (of_nat (4096 * (i + k1))) (of_nat (4096 * (j - k1))) w2 = Some (Inr (of_nat (4096 * (i + k1 + k2)), of_nat (4096 * (j - k1 - k2)), w3))"
      "k2 \<le> j - k1" "cell v w3 = wiped (i + k1) k2 (cell v w2)" by (elim exE conjE) (rule that)
    have "4096 * ((i + k1 + k2) + (j - k1 - k2)) \<le> n" using l e1(2) e2(2) by simp
    from erase_by_sector_ends [OF c this, of False "0x37" w3] obtain w4 x where e3:
      "erase_by_sector c False 0x37 (of_nat (4096 * (i + k1 + k2))) (of_nat (4096 * (j - k1 - k2))) w3 = Some (Inr (x, of_nat 0, w4))"
      "cell v w4 = wiped (i + k1 + k2) (j - k1 - k2) (cell v w3)" by auto
    have "handle_flash_erase c addr len w = Some (0, w4)"
      using a u u'(1) e1(1) [folded w] e2(1) e3(1) by (simp add: handle_flash_erase_def m Let_def)
    moreover have "cell v w4 = wiped i j (cell v w)" unfolding e3(2) e2(3) e1(4) u'(2) using e1(2) e2(2)
      by (auto simp: wiped_def fun_eq_iff)
    moreover have "wiped i j (cell v w) = (\<lambda>a. if unat addr \<le> a \<and> a < unat addr + unat len then 0xff else cell v w a)"
    proof
      fix x
      have "i \<le> x div 4096 \<longleftrightarrow> 4096 * i \<le> x" "x div 4096 < i + j \<longleftrightarrow> x < 4096 * i + 4096 * j" by linarith+
      then show "wiped i j (cell v w) x = (if unat addr \<le> x \<and> x < unat addr + unat len then 0xff else cell v w x)"
        unfolding i wiped_def by simp
    qed
    ultimately show ?thesis by auto
  qed
  then show ?thesis by (simp add: handle_flash_erase_def m)
qed

lemma region_erased_witness:
  "\<exists>w'. handle_flash_erase (sim_chip 8192) 4096 4096 blank_sim = Some (0, w') \<and> sim_cell w' 4095 = 0 \<and> sim_cell w' 5000 = 0xff"
  using region_erased [OF sim_controller, of 8192 4096 4096 blank_sim] by (auto simp: sim_view_def blank_sim_def)

end
