(* ===== verification/Ringbuf.thy ===== *)
theory Ringbuf
  imports Prelude
begin

text \<open>
  The ring buffer of espconn connections: tools/sdk/lwip2/builder/glue-lwip/espconn_buf.c and the receiving side of espconn_recv in
  espconn.c.  Pointers into the buffer are offsets; size_t is 32 bits wide; an access outside the buffers is \<open>None\<close>.  The ring
  keeps the newest bytes of what was written, in their order.
\<close>

section \<open>The code\<close>

record ringbuf =
  rb_buf :: "u8 list"
  rb_head :: nat
  rb_tail :: nat
  rb_size :: u32

definition ringbuf_reset :: "ringbuf \<Rightarrow> ringbuf" where "ringbuf_reset rb = rb\<lparr>rb_head := 0, rb_tail := 0\<rparr>"

text \<open>The arguments say whether the two allocations succeed.\<close>

definition ringbuf_new :: "bool \<Rightarrow> bool \<Rightarrow> u32 \<Rightarrow> ringbuf option" where
  "ringbuf_new have_struct have_buf capacity =
     (if have_struct then
        (let sz = capacity + 1 in
         if have_buf then Some (ringbuf_reset \<lparr>rb_buf = replicate (unat sz) 0, rb_head = 0, rb_tail = 0, rb_size = sz\<rparr>) else None)
      else None)"

definition ringbuf_buffer_size :: "ringbuf \<Rightarrow> u32" where "ringbuf_buffer_size rb = rb_size rb"

definition ringbuf_capacity :: "ringbuf \<Rightarrow> u32" where "ringbuf_capacity rb = ringbuf_buffer_size rb - 1"

definition ringbuf_end :: "ringbuf \<Rightarrow> nat" where "ringbuf_end rb = unat (ringbuf_buffer_size rb)"

definition ringbuf_bytes_free :: "ringbuf \<Rightarrow> u32" where
  "ringbuf_bytes_free rb =
     (if rb_tail rb \<le> rb_head rb then ringbuf_capacity rb - of_nat (rb_head rb - rb_tail rb)
      else of_nat (rb_tail rb - rb_head rb) - 1)"

definition ringbuf_bytes_used :: "ringbuf \<Rightarrow> u32" where
  "ringbuf_bytes_used rb = ringbuf_capacity rb - ringbuf_bytes_free rb"

definition ringbuf_is_full :: "ringbuf \<Rightarrow> bool" where "ringbuf_is_full rb \<longleftrightarrow> ringbuf_bytes_free rb = 0"

definition ringbuf_is_empty :: "ringbuf \<Rightarrow> bool" where "ringbuf_is_empty rb \<longleftrightarrow> ringbuf_bytes_free rb = ringbuf_capacity rb"

definition ringbuf_nextp :: "ringbuf \<Rightarrow> nat \<Rightarrow> nat option" where
  "ringbuf_nextp rb p = (if p < ringbuf_end rb then Some ((p + 1) mod unat (ringbuf_buffer_size rb)) else None)"

text \<open>\<open>LWIP_MIN((int) a, (int) b)\<close>\<close>

definition int_min :: "u32 \<Rightarrow> u32 \<Rightarrow> u32" where "int_min a b = (if sint a < sint b then a else b)"

text \<open>The loops that write; \<open>bytes k n\<close> is what is written after \<open>k\<close> bytes.  The result says whether no assertion failed.\<close>

partial_function (option) ringbuf_write :: "(u32 \<Rightarrow> u32 \<Rightarrow> u8 list option) \<Rightarrow> u32 \<Rightarrow> u32 \<Rightarrow> ringbuf \<Rightarrow> (bool \<times> ringbuf) option" where
  "ringbuf_write bytes count nread rb =
     (if nread = count then Some (True, rb)
      else if \<not> rb_head rb < ringbuf_end rb then Some (False, rb)
      else do {
        let n = int_min (of_nat (ringbuf_end rb - rb_head rb)) (count - nread);
        bs \<leftarrow> bytes nread n;
        rb \<leftarrow> (if rb_head rb + unat n \<le> length (rb_buf rb)
          then Some (rb\<lparr>rb_buf := take (rb_head rb) (rb_buf rb) @ bs @ drop (rb_head rb + unat n) (rb_buf rb), rb_head := rb_head rb + unat n\<rparr>) else None);
        let rb = (if rb_head rb = ringbuf_end rb then rb\<lparr>rb_head := 0\<rparr> else rb);
        ringbuf_write bytes count (nread + n) rb })"

text \<open>What follows the loops: the oldest bytes are given up.\<close>

definition ringbuf_drop_oldest :: "bool \<Rightarrow> bool \<times> ringbuf \<Rightarrow> (bool \<times> ringbuf) option" where
  "ringbuf_drop_oldest overflow r =
     (case r of (ok, rb) \<Rightarrow>
        if ok \<and> overflow then do {
          t \<leftarrow> ringbuf_nextp rb (rb_head rb);
          let rb = rb\<lparr>rb_tail := t\<rparr>;
          Some (ringbuf_is_full rb, rb) }
        else Some (ok, rb))"

definition ringbuf_memset :: "ringbuf \<Rightarrow> u8 \<Rightarrow> u32 \<Rightarrow> (u32 \<times> ringbuf) option" where
  "ringbuf_memset dst c len =
     (let count = (if len < ringbuf_buffer_size dst then len else ringbuf_buffer_size dst); overflow = (ringbuf_bytes_free dst < count) in do {
        r \<leftarrow> ringbuf_write (\<lambda>k n. Some (replicate (unat n) c)) count 0 dst;
        (ok, dst) \<leftarrow> ringbuf_drop_oldest overflow r;
        Some (if ok then count else 0, dst) })"

definition ringbuf_memcpy_into :: "ringbuf \<Rightarrow> u8 list \<Rightarrow> u32 \<Rightarrow> (nat option \<times> ringbuf) option" where
  "ringbuf_memcpy_into dst src count =
     (let overflow = (ringbuf_bytes_free dst < count) in do {
        r \<leftarrow> ringbuf_write (\<lambda>k n. if unat k + unat n \<le> length src then Some (take (unat n) (drop (unat k) src)) else None) count 0 dst;
        (ok, dst) \<leftarrow> ringbuf_drop_oldest overflow r;
        Some (if ok then Some (rb_head dst) else None, dst) })"

partial_function (option) ringbuf_read :: "u32 \<Rightarrow> u32 \<Rightarrow> u8 list \<Rightarrow> ringbuf \<Rightarrow> (bool \<times> u8 list \<times> ringbuf) option" where
  "ringbuf_read count nwritten dst rb =
     (if nwritten = count then Some (True, dst, rb)
      else if \<not> rb_tail rb < ringbuf_end rb then Some (False, dst, rb)
      else do {
        let n = int_min (of_nat (ringbuf_end rb - rb_tail rb)) (count - nwritten);
        dst \<leftarrow> (if rb_tail rb + unat n \<le> length (rb_buf rb) \<and> unat nwritten + unat n \<le> length dst
          then Some (take (unat nwritten) dst @ take (unat n) (drop (rb_tail rb) (rb_buf rb)) @ drop (unat nwritten + unat n) dst) else None);
        let rb = rb\<lparr>rb_tail := rb_tail rb + unat n\<rparr>;
        let rb = (if rb_tail rb = ringbuf_end rb then rb\<lparr>rb_tail := 0\<rparr> else rb);
        ringbuf_read count (nwritten + n) dst rb })"

definition ringbuf_memcpy_from :: "u8 list \<Rightarrow> ringbuf \<Rightarrow> u32 \<Rightarrow> (nat option \<times> u8 list \<times> ringbuf) option" where
  "ringbuf_memcpy_from dst src count =
     (let bytes_used = ringbuf_bytes_used src in
      if bytes_used < count then Some (None, dst, src)
      else do {
        (ok, dst, src) \<leftarrow> ringbuf_read count 0 dst src;
        Some (if ok \<and> count + ringbuf_bytes_used src = bytes_used then Some (rb_tail src) else None, dst, src) })"

definition memchr :: "u8 list \<Rightarrow> u8 \<Rightarrow> nat option" where
  "memchr bs c = (if c \<in> set bs then Some (length (takeWhile (\<lambda>b. b \<noteq> c) bs)) else None)"

partial_function (option) ringbuf_findchr :: "ringbuf \<Rightarrow> u8 \<Rightarrow> u32 \<Rightarrow> u32 option" where
  "ringbuf_findchr rb c offset =
     (let bytes_used = ringbuf_bytes_used rb in
      if bytes_used \<le> offset then Some bytes_used
      else (let start = (rb_tail rb + unat offset) mod unat (ringbuf_buffer_size rb) in
        if \<not> start < ringbuf_end rb then Some 0
        else (let n = int_min (of_nat (ringbuf_end rb - start)) (bytes_used - offset) in
          if length (rb_buf rb) < start + unat n then None
          else (case memchr (take (unat n) (drop start (rb_buf rb))) c of
                  Some found \<Rightarrow> Some (offset + of_nat found)
                | None \<Rightarrow> ringbuf_findchr rb c (offset + n)))))"

text \<open>espconn_recv on the buffer of a connection: 0 if it is empty, otherwise how many bytes have been copied to \<open>mem\<close>, as 16 bits.\<close>

definition espconn_recv_readbuf :: "u8 list \<Rightarrow> u32 \<Rightarrow> ringbuf \<Rightarrow> (int \<times> u8 list \<times> ringbuf) option" where
  "espconn_recv_readbuf mem len rb =
     (let bytes_used = ringbuf_bytes_used rb in
      if bytes_used \<noteq> 0 then do {
        let len = (if sint bytes_used < sint len then bytes_used else len);
        (r, mem, rb) \<leftarrow> ringbuf_memcpy_from mem rb len;
        Some (sint (ucast len :: u16), mem, rb) }
      else Some (0, mem, rb))"

section \<open>The contents\<close>

definition ring_ok :: "ringbuf \<Rightarrow> bool" where
  "ring_ok rb \<longleftrightarrow> length (rb_buf rb) = unat (rb_size rb) \<and> rb_head rb < unat (rb_size rb) \<and> rb_tail rb < unat (rb_size rb) \<and> unat (rb_size rb) < 2147483648"

definition ring_used :: "ringbuf \<Rightarrow> nat" where
  "ring_used rb = (if rb_tail rb \<le> rb_head rb then rb_head rb - rb_tail rb else rb_head rb + unat (rb_size rb) - rb_tail rb)"

text \<open>The bytes of the whole buffer, the newest first, and the contents of the ring, the oldest first.\<close>

definition recent :: "ringbuf \<Rightarrow> u8 list" where
  "recent rb = map (\<lambda>k. rb_buf rb ! (if k < rb_head rb then rb_head rb - 1 - k else rb_head rb + unat (rb_size rb) - 1 - k)) [0..<unat (rb_size rb)]"

definition contents :: "ringbuf \<Rightarrow> u8 list" where "contents rb = rev (take (ring_used rb) (recent rb))"

lemma ring_used_less: "ring_ok rb \<Longrightarrow> ring_used rb < unat (rb_size rb)" by (auto simp: ring_ok_def ring_used_def)

lemma length_recent [simp]: "length (recent rb) = unat (rb_size rb)" by (simp add: recent_def)

lemma length_contents: "ring_ok rb \<Longrightarrow> length (contents rb) = ring_used rb"
  using ring_used_less [of rb] by (simp add: contents_def)

lemma contents_nth:
  assumes "ring_ok rb" and "i < ring_used rb"
  shows "contents rb ! i = rb_buf rb ! (if rb_tail rb + i < unat (rb_size rb) then rb_tail rb + i else rb_tail rb + i - unat (rb_size rb))"
  using assms ring_used_less [OF assms(1)]
  by (auto simp: contents_def recent_def rev_nth ring_ok_def ring_used_def split: if_splits intro!: arg_cong [where f = "(!) (rb_buf rb)"])

lemma ring_words:
  assumes "ring_ok rb"
  shows "unat (ringbuf_capacity rb) = unat (rb_size rb) - 1" and "unat (ringbuf_bytes_used rb) = ring_used rb"
    and "unat (ringbuf_bytes_free rb) = unat (rb_size rb) - 1 - ring_used rb"
proof -
  have p: "0 < rb_size rb" using assms unfolding word_less_nat_alt by (auto simp: ring_ok_def)
  show c: "unat (ringbuf_capacity rb) = unat (rb_size rb) - 1"
    using p by (simp add: ringbuf_capacity_def ringbuf_buffer_size_def unat_sub_if' word_less_nat_alt)
  have small: "unat (of_nat k :: u32) = k" if "k \<le> unat (rb_size rb)" for k
    using le_less_trans [OF that unat_u32_less] by (simp add: unat_of_nat take_bit_eq_mod)
  show f: "unat (ringbuf_bytes_free rb) = unat (rb_size rb) - 1 - ring_used rb"
    using assms c by (auto simp: ringbuf_bytes_free_def ring_used_def ring_ok_def unat_sub_if' small)
  show "unat (ringbuf_bytes_used rb) = ring_used rb"
    using c f ring_used_less [OF assms] by (auto simp: ringbuf_bytes_used_def unat_sub_if')
qed

text \<open>One byte is written.\<close>

definition put :: "u8 \<Rightarrow> ringbuf \<Rightarrow> ringbuf" where
  "put b rb = rb\<lparr>rb_buf := (rb_buf rb)[rb_head rb := b], rb_head := (if rb_head rb + 1 = unat (rb_size rb) then 0 else rb_head rb + 1)\<rparr>"

lemma put_simps [simp]: "rb_size (put b rb) = rb_size rb" "rb_tail (put b rb) = rb_tail rb" by (simp_all add: put_def)

lemma put_ring_ok: "ring_ok rb \<Longrightarrow> ring_ok (put b rb)" by (auto simp: ring_ok_def put_def)

lemma recent_put:
  assumes "ring_ok rb"
  shows "recent (put b rb) = take (unat (rb_size rb)) (b # recent rb)"
proof (rule nth_equalityI)
  fix k
  assume "k < length (recent (put b rb))"
  then show "recent (put b rb) ! k = take (unat (rb_size rb)) (b # recent rb) ! k"
    using assms by (cases k) (auto simp: recent_def put_def ring_ok_def nth_list_update intro!: arg_cong [where f = "(!) (rb_buf rb)"])
qed simp

lemma puts_props:
  "ring_ok rb \<Longrightarrow> ring_ok (fold put bs rb) \<and> rb_size (fold put bs rb) = rb_size rb \<and> rb_tail (fold put bs rb) = rb_tail rb \<and>
    recent (fold put bs rb) = take (unat (rb_size rb)) (rev bs @ recent rb) \<and>
    rb_head (fold put bs rb) = (rb_head rb + length bs) mod unat (rb_size rb)"
proof (induction bs arbitrary: rb)
  case Nil
  then show ?case by (simp add: ring_ok_def)
next
  case (Cons b bs)
  have "take n (xs @ take n (b # ys)) = take n (xs @ b # ys)" for n and xs ys :: "u8 list" by (simp add: take_take min_def)
  moreover have "((if h + 1 = n then 0 else h + 1) + length bs) mod n = Suc (h + length bs) mod n" for h n
    using mod_add_self1 [of "Suc h" "length bs"] by (cases "h + 1 = n") auto
  ultimately show ?case using Cons.IH [OF put_ring_ok [OF Cons.prems], of b] Cons.prems
    by (simp add: recent_put) (simp add: put_def)
qed

lemma puts_contents:
  assumes "ring_ok rb" and "length bs + ring_used rb < unat (rb_size rb)"
  shows "ring_used (fold put bs rb) = ring_used rb + length bs" and "contents (fold put bs rb) = contents rb @ bs"
proof -
  have "rb_head (fold put bs rb) =
      (if rb_head rb + length bs < unat (rb_size rb) then rb_head rb + length bs else rb_head rb + length bs - unat (rb_size rb))"
    using puts_props [OF assms(1), of bs] assms by (auto simp: ring_ok_def mod_if)
  then show u: "ring_used (fold put bs rb) = ring_used rb + length bs"
    using puts_props [OF assms(1), of bs] assms by (auto simp: ring_used_def ring_ok_def split: if_splits)
  have "ring_used rb \<le> unat (rb_size rb) - length bs" using assms(2) by simp
  then show "contents (fold put bs rb) = contents rb @ bs"
    using puts_props [OF assms(1), of bs] assms(2) by (simp add: contents_def u min_absorb1)
qed

lemma puts_overflow:
  fixes rb :: ringbuf and bs :: "u8 list"
  defines "rb1 \<equiv> fold put bs rb"
  assumes "ring_ok rb" and "unat (rb_size rb) \<le> length bs + ring_used rb"
  shows "contents (rb1\<lparr>rb_tail := (rb_head rb1 + 1) mod unat (rb_size rb1)\<rparr>) = drop (length bs + ring_used rb + 1 - unat (rb_size rb)) (contents rb @ bs)"
    and "ring_ok (rb1\<lparr>rb_tail := (rb_head rb1 + 1) mod unat (rb_size rb1)\<rparr>)"
    and "ring_used (rb1\<lparr>rb_tail := (rb_head rb1 + 1) mod unat (rb_size rb1)\<rparr>) = unat (rb_size rb) - 1"
proof -
  let ?r = "rb1\<lparr>rb_tail := (rb_head rb1 + 1) mod unat (rb_size rb1)\<rparr>"
  have p: "ring_ok rb1" "rb_size rb1 = rb_size rb" "recent rb1 = take (unat (rb_size rb)) (rev bs @ recent rb)"
    using puts_props [OF assms(2), of bs] by (simp_all add: rb1_def)
  have h: "rb_head rb1 < unat (rb_size rb)" "0 < unat (rb_size rb)" using p by (auto simp: ring_ok_def)
  then show ok: "ring_ok ?r" using p by (simp add: ring_ok_def)
  have "(rb_head rb1 + 1) mod unat (rb_size rb) = (if rb_head rb1 + 1 = unat (rb_size rb) then 0 else rb_head rb1 + 1)"
    using h by (simp add: mod_if)
  then show u: "ring_used ?r = unat (rb_size rb) - 1" using h p(2) by (auto simp: ring_used_def)
  have e: "recent ?r = recent rb1" by (simp add: recent_def)
  have l: "unat (rb_size rb) - 1 - length bs \<le> ring_used rb" using assms(3) by simp
  have "contents ?r = rev (take (unat (rb_size rb) - 1) (rev bs @ recent rb))"
    unfolding contents_def u e p(3) take_take by (simp only: min_absorb1 diff_le_self)
  also have "\<dots> = rev (take (unat (rb_size rb) - 1) (rev bs @ take (ring_used rb) (recent rb)))"
    using l by (simp add: min_absorb1)
  also have "\<dots> = rev (take (unat (rb_size rb) - 1) (rev (contents rb @ bs)))" by (simp add: contents_def)
  also have "\<dots> = drop (length bs + ring_used rb + 1 - unat (rb_size rb)) (contents rb @ bs)"
  proof -
    have "length (contents rb @ bs) - (unat (rb_size rb) - 1) = length bs + ring_used rb + 1 - unat (rb_size rb)"
      using assms(3) length_contents [OF assms(2)] h(2) by simp
    then show ?thesis by (simp only: take_rev rev_rev_ident)
  qed
  finally show "contents ?r = drop (length bs + ring_used rb + 1 - unat (rb_size rb)) (contents rb @ bs)" .
qed

section \<open>The loops\<close>

lemma puts_chunk:
  "ring_ok rb \<Longrightarrow> rb_head rb + length bs \<le> unat (rb_size rb) \<Longrightarrow>
    fold put bs rb = rb\<lparr>rb_buf := take (rb_head rb) (rb_buf rb) @ bs @ drop (rb_head rb + length bs) (rb_buf rb),
      rb_head := (if rb_head rb + length bs = unat (rb_size rb) then 0 else rb_head rb + length bs)\<rparr>"
proof (induction bs arbitrary: rb)
  case Nil
  then show ?case by (auto simp: ring_ok_def)
next
  case (Cons b bs)
  show ?case
  proof (cases "rb_head rb + 1 = unat (rb_size rb)")
    case True
    then have "length bs = 0" using Cons.prems(2) by (simp del: length_0_conv)
    then have "bs = []" by simp
    then show ?thesis using Cons.prems True by (simp add: put_def ring_ok_def upd_conv_take_nth_drop)
  next
    case False
    then show ?thesis using Cons.IH [OF put_ring_ok [OF Cons.prems(1)], of b] Cons.prems
      by (simp add: put_def ring_ok_def take_Suc_nth)
  qed
qed

lemma int_min_small:
  assumes "unat a < 2147483648" "unat b < 2147483648"
  shows "unat (int_min a b) = min (unat a) (unat b)"
proof -
  have "unat a < 2 ^ 31" "unat b < 2 ^ 31" using assms by simp_all
  then have "sint a = int (unat a)" "sint b = int (unat b)" by (simp_all only: sint_small)
  then have "sint a < sint b \<longleftrightarrow> unat a < unat b" by (simp only: of_nat_less_iff)
  then show ?thesis by (auto simp: int_min_def)
qed

lemma ringbuf_write_step:
  assumes "nread \<noteq> count" and "rb_head rb < ringbuf_end rb" and "int_min (of_nat (ringbuf_end rb - rb_head rb)) (count - nread) = n"
    and "bytes nread n = Some bs" and "rb_head rb + unat n \<le> length (rb_buf rb)"
  shows "ringbuf_write bytes count nread rb = ringbuf_write bytes count (nread + n)
    (rb\<lparr>rb_buf := take (rb_head rb) (rb_buf rb) @ bs @ drop (rb_head rb + unat n) (rb_buf rb),
      rb_head := (if rb_head rb + unat n = ringbuf_end rb then 0 else rb_head rb + unat n)\<rparr>)"
  using assms(1,2,4,5) unfolding assms(3) [symmetric]
  by (subst ringbuf_write.simps) (simp add: Let_def ringbuf_end_def ringbuf_buffer_size_def del: of_nat_diff)

lemma ringbuf_write_puts:
  assumes b: "\<And>k n. unat k + unat n \<le> length bs \<Longrightarrow> bytes k n = Some (take (unat n) (drop (unat k) bs))" and l: "length bs < 2147483648"
  shows "ring_ok rb \<Longrightarrow> unat nread \<le> length bs \<Longrightarrow>
    ringbuf_write bytes (of_nat (length bs)) nread rb = Some (True, fold put (drop (unat nread) bs) rb)"
proof (induction "length bs - unat nread" arbitrary: nread rb rule: less_induct)
  case less
  have c: "unat (of_nat (length bs) :: u32) = length bs" using l by (simp add: unat_of_nat take_bit_eq_mod)
  show ?case
  proof (cases "unat nread = length bs")
    case True
    then have "nread = of_nat (length bs)" by (metis of_nat_unat ucast_id)
    then show ?thesis using True by (subst ringbuf_write.simps) simp
  next
    case False
    then have ne: "nread \<noteq> of_nat (length bs)" using c by auto
    let ?h = "rb_head rb" and ?N = "unat (rb_size rb)"
    have h: "?h < ringbuf_end rb" "ringbuf_end rb = ?N" "length (rb_buf rb) = ?N" "?N < 2147483648"
      using less.prems(1) by (auto simp: ring_ok_def ringbuf_end_def ringbuf_buffer_size_def)
    define n where "n = int_min (of_nat (ringbuf_end rb - ?h)) (of_nat (length bs) - nread)"
    have s: "unat (of_nat (?N - ?h) :: u32) = ?N - ?h" using h(4) by (simp add: unat_of_nat take_bit_eq_mod)
    have r: "unat (of_nat (length bs) - nread) = length bs - unat nread" using less.prems(2) c by (simp add: unat_sub_if')
    have n: "unat n = min (?N - ?h) (length bs - unat nread)" unfolding n_def h(2)
      using int_min_small [of "of_nat (?N - ?h)" "of_nat (length bs) - nread"] s r h(4) l by simp
    have n0: "0 < unat n" "?h + unat n \<le> ?N" "unat nread + unat n \<le> length bs" using n h False less.prems(2) by auto
    have un: "unat (nread + n) = unat nread + unat n" using n0(3) l by (simp add: unat_word_ariths)
    let ?bs = "take (unat n) (drop (unat nread) bs)"
    have lb: "length ?bs = unat n" using n0(3) by simp
    have "ringbuf_write bytes (of_nat (length bs)) nread rb = ringbuf_write bytes (of_nat (length bs)) (nread + n) (fold put ?bs rb)"
      using ringbuf_write_step [where bytes = bytes, OF ne h(1) n_def [symmetric] b [OF n0(3)]] puts_chunk [OF less.prems(1), of ?bs] n0(2) h(2,3) lb by simp
    also have "\<dots> = Some (True, fold put (drop (unat (nread + n)) bs) (fold put ?bs rb))"
      using puts_props [OF less.prems(1), of ?bs] n0 un by (intro less.hyps) simp_all
    also have "fold put (drop (unat (nread + n)) bs) (fold put ?bs rb) = fold put (?bs @ drop (unat (nread + n)) bs) rb" by simp
    also have "?bs @ drop (unat (nread + n)) bs = drop (unat nread) bs" unfolding un by (metis add.commute append_take_drop_id drop_drop)
    finally show ?thesis .
  qed
qed

text \<open>The loop and what follows it: the ring then holds the newest bytes, as many as it can.\<close>

lemma ringbuf_write_contents:
  assumes ok: "ring_ok rb" and l: "length bs < 2147483648"
    and b: "\<And>k n. unat k + unat n \<le> length bs \<Longrightarrow> bytes k n = Some (take (unat n) (drop (unat k) bs))"
  shows "\<exists>rb'. (do { r \<leftarrow> ringbuf_write bytes (of_nat (length bs)) 0 rb; ringbuf_drop_oldest (ringbuf_bytes_free rb < of_nat (length bs)) r }) = Some (True, rb') \<and>
    ring_ok rb' \<and> rb_size rb' = rb_size rb \<and>
    contents rb' = drop (length (contents rb) + length bs - (unat (rb_size rb) - 1)) (contents rb @ bs)"
proof -
  let ?N = "unat (rb_size rb)"
  have c: "unat (of_nat (length bs) :: u32) = length bs" using l by (simp add: unat_of_nat take_bit_eq_mod)
  have w: "ringbuf_write bytes (of_nat (length bs)) 0 rb = Some (True, fold put bs rb)"
    using ringbuf_write_puts [of bs bytes, OF b l ok, of 0] by simp
  have f: "ringbuf_bytes_free rb < of_nat (length bs) \<longleftrightarrow> ?N \<le> length bs + ring_used rb"
    using ring_words(3) [OF ok] ring_used_less [OF ok] unfolding word_less_nat_alt c by auto
  note p = puts_props [OF ok, of bs]
  note lc = length_contents [OF ok]
  show ?thesis
  proof (cases "?N \<le> length bs + ring_used rb")
    case False
    then show ?thesis using w f p puts_contents [OF ok, of bs] lc by (simp add: ringbuf_drop_oldest_def)
  next
    case True
    let ?r = "(fold put bs rb)\<lparr>rb_tail := (rb_head (fold put bs rb) + 1) mod unat (rb_size (fold put bs rb))\<rparr>"
    note o = puts_overflow [OF ok True]
    have t: "ringbuf_nextp (fold put bs rb) (rb_head (fold put bs rb)) = Some ((rb_head (fold put bs rb) + 1) mod unat (rb_size (fold put bs rb)))"
    proof -
      have "rb_head (fold put bs rb) < unat (rb_size (fold put bs rb))" using p unfolding ring_ok_def by blast
      then show ?thesis by (simp only: ringbuf_nextp_def ringbuf_end_def ringbuf_buffer_size_def if_True)
    qed
    have "unat (ringbuf_bytes_free ?r) = 0" using ring_words(3) [OF o(2)] o(3) p by simp
    then have full: "ringbuf_is_full ?r" by (simp add: ringbuf_is_full_def unat_eq_0)
    have "(do { r \<leftarrow> ringbuf_write bytes (of_nat (length bs)) 0 rb; ringbuf_drop_oldest (ringbuf_bytes_free rb < of_nat (length bs)) r }) = Some (True, ?r)"
      unfolding w f using True full t by (simp add: ringbuf_drop_oldest_def)
    moreover have "length bs + ring_used rb + 1 - ?N = length (contents rb) + length bs - (?N - 1)"
      using lc True ring_used_less [OF ok] by simp
    ultimately show ?thesis using o(1,2) p by (intro exI [of _ ?r]) simp
  qed
qed

lemma memcpy_into_contents:
  assumes "ring_ok rb" and "length bs < 2147483648"
  shows "\<exists>p rb'. ringbuf_memcpy_into rb bs (of_nat (length bs)) = Some (Some p, rb') \<and> ring_ok rb' \<and> rb_size rb' = rb_size rb \<and>
    contents rb' = drop (length (contents rb) + length bs - (unat (rb_size rb) - 1)) (contents rb @ bs)"
  using ringbuf_write_contents [OF assms, of "\<lambda>k n. if unat k + unat n \<le> length bs then Some (take (unat n) (drop (unat k) bs)) else None"]
  by (auto simp: ringbuf_memcpy_into_def Let_def split: bind_splits)

lemma memset_contents:
  assumes "ring_ok rb"
  shows "\<exists>rb'. ringbuf_memset rb c len = Some (of_nat (min (unat len) (unat (rb_size rb))), rb') \<and> ring_ok rb' \<and> rb_size rb' = rb_size rb \<and>
    contents rb' = drop (length (contents rb) + min (unat len) (unat (rb_size rb)) - (unat (rb_size rb) - 1))
      (contents rb @ replicate (min (unat len) (unat (rb_size rb))) c)"
proof -
  let ?k = "min (unat len) (unat (rb_size rb))"
  have k: "?k < 2147483648" using assms by (auto simp: ring_ok_def)
  have c: "(if len < ringbuf_buffer_size rb then len else ringbuf_buffer_size rb) = of_nat ?k"
    by (simp add: ringbuf_buffer_size_def word_less_nat_alt min_def)
  have l: "length (replicate ?k c) < 2147483648" using k by simp
  have b: "Some (replicate (unat n) c) = Some (take (unat n) (drop (unat i) (replicate ?k c)))" if "unat i + unat n \<le> length (replicate ?k c)" for i n :: u32
  proof -
    have "unat n \<le> ?k - unat i" using that by (subst le_diff_conv2) simp_all
    then show ?thesis by (simp add: min_absorb1)
  qed
  obtain rb' where r: "(do { r \<leftarrow> ringbuf_write (\<lambda>k n. Some (replicate (unat n) c)) (of_nat ?k) 0 rb;
      ringbuf_drop_oldest (ringbuf_bytes_free rb < of_nat ?k) r }) = Some (True, rb')" "ring_ok rb'" "rb_size rb' = rb_size rb"
    "contents rb' = drop (length (contents rb) + ?k - (unat (rb_size rb) - 1)) (contents rb @ replicate ?k c)"
    using ringbuf_write_contents [OF assms l b] unfolding length_replicate by blast
  have "ringbuf_memset rb c len = (do { r \<leftarrow> (do { r \<leftarrow> ringbuf_write (\<lambda>k n. Some (replicate (unat n) c)) (of_nat ?k) 0 rb;
      ringbuf_drop_oldest (ringbuf_bytes_free rb < of_nat ?k) r }); Some (if fst r then of_nat ?k else 0, snd r) })"
    unfolding ringbuf_memset_def Let_def c by (simp add: split_def)
  then show ?thesis unfolding r(1) using r(2-4) by simp
qed

lemma ringbuf_read_step:
  assumes "nwritten \<noteq> count" and "rb_tail rb < ringbuf_end rb" and "int_min (of_nat (ringbuf_end rb - rb_tail rb)) (count - nwritten) = n"
    and "rb_tail rb + unat n \<le> length (rb_buf rb)" and "unat nwritten + unat n \<le> length dst"
  shows "ringbuf_read count nwritten dst rb = ringbuf_read count (nwritten + n)
    (take (unat nwritten) dst @ take (unat n) (drop (rb_tail rb) (rb_buf rb)) @ drop (unat nwritten + unat n) dst)
    (rb\<lparr>rb_tail := (if rb_tail rb + unat n = ringbuf_end rb then 0 else rb_tail rb + unat n)\<rparr>)"
  using assms(1,2,4,5) unfolding assms(3) [symmetric]
  by (subst ringbuf_read.simps) (simp add: Let_def ringbuf_end_def ringbuf_buffer_size_def del: of_nat_diff)

text \<open>A run of bytes from the tail: they are the first of the contents, and the rest is left.\<close>

lemma tail_run:
  assumes ok: "ring_ok rb" and n: "rb_tail rb + n \<le> unat (rb_size rb)" "n \<le> ring_used rb"
  defines "r \<equiv> rb\<lparr>rb_tail := (if rb_tail rb + n = unat (rb_size rb) then 0 else rb_tail rb + n)\<rparr>"
  shows "take n (drop (rb_tail rb) (rb_buf rb)) = take n (contents rb)" and "contents r = drop n (contents rb)"
    and "ring_ok r" and "ring_used r = ring_used rb - n"
proof -
  have lb: "length (rb_buf rb) = unat (rb_size rb)" using ok by (simp add: ring_ok_def)
  show "take n (drop (rb_tail rb) (rb_buf rb)) = take n (contents rb)"
    using n contents_nth [OF ok] length_contents [OF ok] lb by (intro nth_equalityI) auto
  show ok': "ring_ok r" using ok n by (auto simp: ring_ok_def r_def)
  show u: "ring_used r = ring_used rb - n" using ok n by (auto simp: ring_used_def r_def ring_ok_def split: if_splits)
  have "recent r = recent rb" by (simp add: recent_def r_def)
  then show "contents r = drop n (contents rb)"
    using n(2) ring_used_less [OF ok] by (simp add: contents_def u rev_take) (simp add: take_rev drop_rev min_absorb1)
qed

lemma ringbuf_read_contents:
  "ring_ok rb \<Longrightarrow> unat nwritten + k = unat count \<Longrightarrow> k \<le> ring_used rb \<Longrightarrow> unat count \<le> length dst \<Longrightarrow>
    \<exists>rb'. ringbuf_read count nwritten dst rb = Some (True, take (unat nwritten) dst @ take k (contents rb) @ drop (unat count) dst, rb') \<and>
      ring_ok rb' \<and> rb_size rb' = rb_size rb \<and> contents rb' = drop k (contents rb) \<and> ring_used rb' = ring_used rb - k"
proof (induction k arbitrary: nwritten dst rb rule: less_induct)
  case (less k)
  show ?case
  proof (cases "k = 0")
    case True
    then have "nwritten = count" using less.prems(2) by (metis add_0_right of_nat_unat ucast_id)
    then show ?thesis using less.prems(1) True by (subst ringbuf_read.simps) simp
  next
    case False
    let ?t = "rb_tail rb" and ?N = "unat (rb_size rb)"
    have h: "?t < ringbuf_end rb" "ringbuf_end rb = ?N" "length (rb_buf rb) = ?N" "?N < 2147483648"
      using less.prems(1) by (auto simp: ring_ok_def ringbuf_end_def ringbuf_buffer_size_def)
    have ne: "nwritten \<noteq> count" using False less.prems(2) by auto
    define n where "n = int_min (of_nat (ringbuf_end rb - ?t)) (count - nwritten)"
    have s: "unat (of_nat (?N - ?t) :: u32) = ?N - ?t" using h(4) by (simp add: unat_of_nat take_bit_eq_mod)
    have r: "unat (count - nwritten) = k" using less.prems(2) by (simp add: unat_sub_if')
    have "k < 2147483648" using less.prems(1,3) ring_used_less h(4) by fastforce
    then have n: "unat n = min (?N - ?t) k" unfolding n_def h(2)
      using int_min_small [of "of_nat (?N - ?t)" "count - nwritten"] s r h(4) by simp
    have n0: "0 < unat n" "?t + unat n \<le> ?N" "unat n \<le> k" "unat n \<le> ring_used rb" using n h False less.prems(3) by auto
    have un: "unat (nwritten + n) = unat nwritten + unat n"
      using n0(3) less.prems(2) le_less_trans [OF _ unat_u32_less [of count], of "unat nwritten + unat n"] by (simp add: unat_word_ariths)
    let ?r = "rb\<lparr>rb_tail := (if ?t + unat n = ?N then 0 else ?t + unat n)\<rparr>"
    let ?d = "take (unat nwritten) dst @ take (unat n) (contents rb) @ drop (unat nwritten + unat n) dst"
    note run = tail_run [OF less.prems(1) n0(2,4)]
    have lc: "length (contents rb) = ring_used rb" by (rule length_contents [OF less.prems(1)])
    have step: "ringbuf_read count nwritten dst rb = ringbuf_read count (nwritten + n) ?d ?r"
      using ringbuf_read_step [OF ne h(1) n_def [symmetric], of dst] n0 less.prems(2,4) h(2,3) run(1) by simp
    have "\<exists>rb'. ringbuf_read count (nwritten + n) ?d ?r =
        Some (True, take (unat (nwritten + n)) ?d @ take (k - unat n) (contents ?r) @ drop (unat count) ?d, rb') \<and>
      ring_ok rb' \<and> rb_size rb' = rb_size ?r \<and> contents rb' = drop (k - unat n) (contents ?r) \<and> ring_used rb' = ring_used ?r - (k - unat n)"
      using n0 un run(3,4) less.prems lc by (intro less.IH) simp_all
    then obtain rb' where q: "ringbuf_read count (nwritten + n) ?d ?r =
        Some (True, take (unat (nwritten + n)) ?d @ take (k - unat n) (contents ?r) @ drop (unat count) ?d, rb')"
      "ring_ok rb'" "rb_size rb' = rb_size ?r" "contents rb' = drop (k - unat n) (contents ?r)" "ring_used rb' = ring_used ?r - (k - unat n)" by blast
    have d: "take (unat (nwritten + n)) ?d = take (unat nwritten) dst @ take (unat n) (contents rb)" "drop (unat count) ?d = drop (unat count) dst"
      using un less.prems(2,4) n0 lc by simp_all
    have c: "take (unat n) (contents rb) @ take (k - unat n) (drop (unat n) (contents rb)) = take k (contents rb)"
      using n0(3) take_add [of "unat n" "k - unat n" "contents rb"] by simp
    have "take (unat (nwritten + n)) ?d @ take (k - unat n) (contents ?r) @ drop (unat count) ?d =
        take (unat nwritten) dst @ take k (contents rb) @ drop (unat count) dst" unfolding d run(2) c [symmetric] append_assoc ..
    then show ?thesis using q step n0(3) run(2,4) by (intro exI [of _ rb']) (simp add: add.commute)
  qed
qed

lemma memcpy_from_contents:
  assumes ok: "ring_ok rb" and c: "unat count \<le> length (contents rb)" "unat count \<le> length dst"
  shows "\<exists>p rb'. ringbuf_memcpy_from dst rb count = Some (Some p, take (unat count) (contents rb) @ drop (unat count) dst, rb') \<and>
    ring_ok rb' \<and> rb_size rb' = rb_size rb \<and> contents rb' = drop (unat count) (contents rb)"
proof -
  have u: "unat (ringbuf_bytes_used rb) = length (contents rb)" using ring_words(2) [OF ok] length_contents [OF ok] by simp
  obtain rb' where r: "ringbuf_read count 0 dst rb = Some (True, take (unat count) (contents rb) @ drop (unat count) dst, rb')"
    "ring_ok rb'" "rb_size rb' = rb_size rb" "contents rb' = drop (unat count) (contents rb)" "ring_used rb' = ring_used rb - unat count"
    using ringbuf_read_contents [OF ok, of 0 "unat count" count dst] c length_contents [OF ok] by auto
  have "unat (count + ringbuf_bytes_used rb') = unat (ringbuf_bytes_used rb)"
    using ring_words(2) [OF r(2)] r(5) c(1) u length_contents [OF ok] unat_u32_less [of "ringbuf_bytes_used rb"]
    by (simp add: unat_word_ariths del: unat_u32_less)
  then have "count + ringbuf_bytes_used rb' = ringbuf_bytes_used rb" by (simp only: word_unat_eq_iff)
  moreover have "\<not> ringbuf_bytes_used rb < count" using c(1) u by (simp add: word_less_nat_alt)
  ultimately show ?thesis using r by (simp add: ringbuf_memcpy_from_def)
qed

section \<open>A queue that forgets its oldest bytes\<close>

text \<open>What a client does with a ring, and what it should see: \<open>Put\<close> is ringbuf_memcpy_into, \<open>Fill\<close> is ringbuf_memset, \<open>Get\<close> is
  ringbuf_memcpy_from into a buffer of that size, which fails when there are fewer bytes.\<close>

datatype ring_op = Put "u8 list" | Fill u8 u32 | Get u32

fun ring_step :: "ring_op \<Rightarrow> ringbuf \<Rightarrow> (u8 list option \<times> ringbuf) option" where
  "ring_step (Put bs) rb = do { (p, rb) \<leftarrow> ringbuf_memcpy_into rb bs (of_nat (length bs)); Some (if p = None then None else Some [], rb) }"
| "ring_step (Fill c n) rb = do { (k, rb) \<leftarrow> ringbuf_memset rb c n; Some (if k = 0 \<and> n \<noteq> 0 then None else Some [], rb) }"
| "ring_step (Get n) rb = do { (p, bs, rb) \<leftarrow> ringbuf_memcpy_from (replicate (unat n) 0) rb n; Some (if p = None then None else Some bs, rb) }"

primrec ring_run :: "ring_op list \<Rightarrow> ringbuf \<Rightarrow> (u8 list option list \<times> ringbuf) option" where
  "ring_run [] rb = Some ([], rb)"
| "ring_run (x # xs) rb = do { (r, rb) \<leftarrow> ring_step x rb; (rs, rb) \<leftarrow> ring_run xs rb; Some (r # rs, rb) }"

definition newest :: "nat \<Rightarrow> u8 list \<Rightarrow> u8 list" where "newest cap q = drop (length q - cap) q"

fun queue_step :: "nat \<Rightarrow> ring_op \<Rightarrow> u8 list \<Rightarrow> u8 list option \<times> u8 list" where
  "queue_step cap (Put bs) q = (Some [], newest cap (q @ bs))"
| "queue_step cap (Fill c n) q = (Some [], newest cap (q @ replicate (unat n) c))"
| "queue_step cap (Get n) q = (if unat n \<le> length q then (Some (take (unat n) q), drop (unat n) q) else (None, q))"

primrec queue_run :: "nat \<Rightarrow> ring_op list \<Rightarrow> u8 list \<Rightarrow> u8 list option list \<times> u8 list" where
  "queue_run cap [] q = ([], q)"
| "queue_run cap (x # xs) q = (let (r, q) = queue_step cap x q; (rs, q) = queue_run cap xs q in (r # rs, q))"

lemma newest_fill:
  assumes "cap < k" "k \<le> n"
  shows "newest cap (q @ replicate n c) = newest cap (q @ replicate k c)"
  using assms by (simp add: newest_def)

lemma ring_step_simulates:
  assumes ok: "ring_ok rb" and x: "\<And>bs. x = Put bs \<Longrightarrow> length bs < 2147483648"
  shows "\<exists>rb'. ring_step x rb = Some (fst (queue_step (unat (rb_size rb) - 1) x (contents rb)), rb') \<and> ring_ok rb' \<and> rb_size rb' = rb_size rb \<and>
    contents rb' = snd (queue_step (unat (rb_size rb) - 1) x (contents rb))"
proof (cases x)
  case (Put bs)
  show ?thesis using memcpy_into_contents [OF ok x [OF Put]] by (auto simp: Put newest_def)
next
  case (Fill c n)
  have N: "0 < unat (rb_size rb)" "unat (rb_size rb) < 4294967296" using ok by (auto simp: ring_ok_def)
  let ?k = "min (unat n) (unat (rb_size rb))"
  have "newest (unat (rb_size rb) - 1) (contents rb @ replicate (unat n) c) = newest (unat (rb_size rb) - 1) (contents rb @ replicate ?k c)"
    using newest_fill [of "unat (rb_size rb) - 1" "unat (rb_size rb)" "unat n"] N(1) by (cases "unat n < unat (rb_size rb)") auto
  moreover have "unat (of_nat ?k :: u32) = ?k"
  proof -
    have "?k < 4294967296" using N(2) by linarith
    then show ?thesis by (simp only: unat_of_nat take_bit_eq_mod) simp
  qed
  then have "\<not> ((of_nat ?k :: u32) = 0 \<and> n \<noteq> 0)" using N(1) by (auto simp: unat_eq_0 [symmetric] min_def split: if_splits)
  ultimately show ?thesis using memset_contents [OF ok, of c n] by (auto simp: Fill newest_def)
next
  case (Get n)
  have u: "unat (ringbuf_bytes_used rb) = length (contents rb)" using ring_words(2) [OF ok] length_contents [OF ok] by simp
  show ?thesis
  proof (cases "unat n \<le> length (contents rb)")
    case True
    then show ?thesis using memcpy_from_contents [OF ok True, of "replicate (unat n) 0"] by (auto simp: Get)
  next
    case False
    then have "ringbuf_bytes_used rb < n" by (simp add: word_less_nat_alt u)
    then show ?thesis using False ok by (simp add: Get ringbuf_memcpy_from_def)
  qed
qed

lemma ring_run_simulates:
  "ring_ok rb \<Longrightarrow> (\<forall>bs. Put bs \<in> set xs \<longrightarrow> length bs < 2147483648) \<Longrightarrow>
    \<exists>rb'. ring_run xs rb = Some (fst (queue_run (unat (rb_size rb) - 1) xs (contents rb)), rb') \<and> ring_ok rb' \<and> rb_size rb' = rb_size rb \<and>
      contents rb' = snd (queue_run (unat (rb_size rb) - 1) xs (contents rb))"
proof (induction xs arbitrary: rb)
  case (Cons x xs)
  obtain rb1 where s: "ring_step x rb = Some (fst (queue_step (unat (rb_size rb) - 1) x (contents rb)), rb1)" "ring_ok rb1" "rb_size rb1 = rb_size rb"
    "contents rb1 = snd (queue_step (unat (rb_size rb) - 1) x (contents rb))"
    using ring_step_simulates [OF Cons.prems(1), of x] Cons.prems(2) by auto
  show ?case using Cons.IH [OF s(2)] Cons.prems(2) s by (auto simp: split_def Let_def)
qed simp

lemma new_ring:
  assumes "unat capacity < 2147483647"
  shows "\<exists>rb. ringbuf_new True True capacity = Some rb \<and> ring_ok rb \<and> unat (rb_size rb) = unat capacity + 1 \<and> contents rb = []"
proof -
  have "unat (capacity + 1) = unat capacity + 1" using assms by (simp add: unat_word_ariths)
  then show ?thesis using assms by (simp add: ringbuf_new_def Let_def ringbuf_reset_def ring_ok_def contents_def ring_used_def)
qed

text \<open>C22. A ring buffer of any capacity, used in any order, is a queue of that capacity which forgets its oldest bytes: what is read, what
  fails and what remains are the same; no assertion fails and nothing outside the buffer is accessed.\<close>

theorem ring_refines_queue:
  assumes "unat capacity < 2147483647" and "\<forall>bs. Put bs \<in> set xs \<longrightarrow> length bs < 2147483648"
  shows "\<exists>rb rb'. ringbuf_new True True capacity = Some rb \<and>
    ring_run xs rb = Some (fst (queue_run (unat capacity) xs []), rb') \<and> contents rb' = snd (queue_run (unat capacity) xs []) \<and>
    unat (ringbuf_bytes_used rb') = length (contents rb')"
proof -
  obtain rb where rb: "ringbuf_new True True capacity = Some rb" "ring_ok rb" "unat (rb_size rb) = unat capacity + 1" "contents rb = []"
    using new_ring [OF assms(1)] by blast
  obtain rb' where r: "ring_run xs rb = Some (fst (queue_run (unat capacity) xs []), rb')" "ring_ok rb'" "contents rb' = snd (queue_run (unat capacity) xs [])"
    using ring_run_simulates [OF rb(2) assms(2)] rb(3,4) by auto
  then show ?thesis using rb(1) ring_words(2) [OF r(2)] length_contents [OF r(2)] by metis
qed

lemma ring_refines_queue_witness:
  "\<exists>rb rb'. ringbuf_new True True 3 = Some rb \<and> ring_run [Put [1, 2], Get 1, Put [3, 4, 5], Get 9, Get 2] rb = Some ([Some [], Some [1], Some [], None, Some [3, 4]], rb') \<and>
    contents rb' = [5]"
  using ring_refines_queue [of 3 "[Put [1, 2], Get 1, Put [3, 4, 5], Get 9, Get 2]"] by (auto simp: newest_def)

section \<open>Searching, and espconn_recv\<close>

lemma ringbuf_findchr_step:
  assumes "\<not> ringbuf_bytes_used rb \<le> off" and "(rb_tail rb + unat off) mod unat (ringbuf_buffer_size rb) = s" and "s < ringbuf_end rb"
    and "int_min (of_nat (ringbuf_end rb - s)) (ringbuf_bytes_used rb - off) = n" and "s + unat n \<le> length (rb_buf rb)"
  shows "ringbuf_findchr rb c off = (case memchr (take (unat n) (drop s (rb_buf rb))) c of
    Some found \<Rightarrow> Some (off + of_nat found) | None \<Rightarrow> ringbuf_findchr rb c (off + n))"
  using assms(1,3,5) unfolding assms(2,4) [symmetric] by (subst ringbuf_findchr.simps) (simp add: Let_def del: of_nat_diff)

lemma ringbuf_findchr_exact:
  "ring_ok rb \<Longrightarrow> unat off \<le> ring_used rb \<Longrightarrow>
    ringbuf_findchr rb c off = Some (of_nat (unat off + length (takeWhile (\<lambda>b. b \<noteq> c) (drop (unat off) (contents rb)))))"
proof (induction "ring_used rb - unat off" arbitrary: off rule: less_induct)
  case less
  let ?N = "unat (rb_size rb)" and ?u = "ring_used rb"
  note ok = less.prems(1)
  have u: "unat (ringbuf_bytes_used rb) = ?u" "?u < ?N" "length (contents rb) = ?u" "?N < 2147483648" "rb_tail rb < ?N" "length (rb_buf rb) = ?N"
    using ring_words(2) [OF ok] ring_used_less [OF ok] length_contents [OF ok] ok by (simp_all add: ring_ok_def)
  show ?case
  proof (cases "unat off = ?u")
    case True
    then have "ringbuf_bytes_used rb \<le> off" by (simp add: word_le_nat_alt u(1))
    moreover have "ringbuf_bytes_used rb = of_nat ?u" using u(1) by (metis of_nat_unat ucast_id)
    ultimately show ?thesis using True u(3) by (subst ringbuf_findchr.simps) simp
  next
    case False
    then have lt: "\<not> ringbuf_bytes_used rb \<le> off" using less.prems(2) by (simp add: word_le_nat_alt u(1))
    define s where "s = (rb_tail rb + unat off) mod ?N"
    have s: "s = (if rb_tail rb + unat off < ?N then rb_tail rb + unat off else rb_tail rb + unat off - ?N)" "s < ?N"
      using u(2,5) less.prems(2) by (auto simp: s_def mod_if)
    define n where "n = int_min (of_nat (ringbuf_end rb - s)) (ringbuf_bytes_used rb - off)"
    have e: "ringbuf_end rb = ?N" by (simp add: ringbuf_end_def ringbuf_buffer_size_def)
    have a: "unat (of_nat (?N - s) :: u32) = ?N - s" using u(4) by (simp add: unat_of_nat take_bit_eq_mod)
    have b: "unat (ringbuf_bytes_used rb - off) = ?u - unat off" using less.prems(2) u(1) by (simp add: unat_sub_if')
    have n: "unat n = min (?N - s) (?u - unat off)" unfolding n_def e
      using int_min_small [of "of_nat (?N - s)" "ringbuf_bytes_used rb - off"] a b u(2,4) by simp
    have n0: "0 < unat n" "s + unat n \<le> ?N" "unat off + unat n \<le> ?u" using n s(2) False less.prems(2) by auto
    let ?d = "drop (unat off) (contents rb)"
    have run: "take (unat n) (drop s (rb_buf rb)) = take (unat n) ?d"
      using n0 u(2,3,6) contents_nth [OF ok] s by (intro nth_equalityI) (auto intro!: arg_cong [where f = "(!) (rb_buf rb)"])
    have un: "unat (off + n) = unat off + unat n"
      using n0(3) u(2,4) by (simp add: unat_word_ariths)
    have step: "ringbuf_findchr rb c off = (case memchr (take (unat n) ?d) c of Some found \<Rightarrow> Some (off + of_nat found) | None \<Rightarrow> ringbuf_findchr rb c (off + n))"
      unfolding run [symmetric]
      by (rule ringbuf_findchr_step [OF lt _ _ n_def [symmetric]]) (use s(2) n0(2) u(6) e in \<open>simp_all add: s_def ringbuf_buffer_size_def\<close>)
    have split: "?d = take (unat n) ?d @ drop (unat n) ?d" by (simp only: append_take_drop_id)
    show ?thesis
    proof (cases "c \<in> set (take (unat n) ?d)")
      case True
      then have "takeWhile (\<lambda>b. b \<noteq> c) ?d = takeWhile (\<lambda>b. b \<noteq> c) (take (unat n) ?d)"
        by (subst split) (rule takeWhile_append1, auto)
      then show ?thesis using True unfolding step memchr_def by simp
    next
      case False
      then have "takeWhile (\<lambda>b. b \<noteq> c) ?d = take (unat n) ?d @ takeWhile (\<lambda>b. b \<noteq> c) (drop (unat n) ?d)"
        by (subst split) (rule takeWhile_append2, auto)
      moreover have "drop (unat n) ?d = drop (unat (off + n)) (contents rb)" unfolding un drop_drop by (subst add.commute) (rule refl)
      moreover have "ringbuf_findchr rb c (off + n) = Some (of_nat (unat (off + n) + length (takeWhile (\<lambda>b. b \<noteq> c) (drop (unat (off + n)) (contents rb)))))"
        using n0 un less.prems by (intro less.hyps) simp_all
      ultimately show ?thesis using False n0(3) u(3) unfolding step memchr_def by (simp add: un add.assoc)
    qed
  qed
qed

text \<open>espconn_recv hands out the oldest bytes, as many as there are and as asked for.\<close>

lemma espconn_recv_takes:
  assumes ok: "ring_ok rb" and l: "0 < unat len" "unat len \<le> length mem" "unat len < 2147483648" and s: "unat (rb_size rb) \<le> 32768"
  defines "k \<equiv> min (unat len) (length (contents rb))"
  shows "\<exists>rb'. espconn_recv_readbuf mem len rb = Some (int k, take k (contents rb) @ drop k mem, rb') \<and> ring_ok rb' \<and>
    contents rb' = drop k (contents rb)"
proof -
  have u: "unat (ringbuf_bytes_used rb) = length (contents rb)" "length (contents rb) < 32768"
    using ring_words(2) [OF ok] length_contents [OF ok] ring_used_less [OF ok] s by simp_all
  show ?thesis
  proof (cases "contents rb = []")
    case True
    then have "ringbuf_bytes_used rb = 0" using u(1) by (simp add: unat_eq_0)
    then show ?thesis using True ok by (simp add: espconn_recv_readbuf_def k_def)
  next
    case False
    then have nz: "ringbuf_bytes_used rb \<noteq> 0" using u(1) by (auto simp: unat_eq_0 [symmetric])
    define l where "l = (if sint (ringbuf_bytes_used rb) < sint len then ringbuf_bytes_used rb else len)"
    have "l = int_min (ringbuf_bytes_used rb) len" by (simp add: int_min_def l_def)
    then have k: "unat l = k" using int_min_small [of "ringbuf_bytes_used rb" len] u assms(4) by (simp add: k_def min.commute)
    have k': "k \<le> length (contents rb)" "k \<le> length mem" "k < 32768" using assms(3) u(2) by (auto simp: k_def)
    obtain p rb' where r: "ringbuf_memcpy_from mem rb l = Some (Some p, take k (contents rb) @ drop k mem, rb')" "ring_ok rb'" "contents rb' = drop k (contents rb)"
      using memcpy_from_contents [OF ok, of l mem] k k' by auto
    have "unat (ucast l :: u16) = k" using k k'(3) by (simp add: unsigned_ucast_eq take_bit_eq_mod)
    then have "uint (ucast l :: u16) = int k" by (simp only: uint_nat)
    then have "sint (ucast l :: u16) = int k" using k'(3) by (simp add: sint_uint signed_take_bit_int_eq_self)
    then show ?thesis using r nz unfolding espconn_recv_readbuf_def Let_def l_def [symmetric] by simp
  qed
qed

end
