(* ===== verification/Esp_Clock.thy ===== *)
theory Esp_Clock
  imports Prelude
begin

text \<open>
  The clock of the lwIP glue: tools/sdk/lwip2/builder/glue-lwip/esp-millis.c and esp-time.c.  The system time, the time from SNTP and
  micros() are arguments, each read of the system time its own; time_t and suseconds_t have 32 bits.
\<close>

section \<open>The code\<close>

record esp_clock =
  micros_at_last_overflow_tick :: u32
  micros_overflow_count :: u32
  once :: bool
  s_bootTime :: u32

definition micros_overflow_tick :: "u32 \<Rightarrow> esp_clock \<Rightarrow> esp_clock" where
  "micros_overflow_tick m c =
     (let c = (if m < micros_at_last_overflow_tick c then c\<lparr>micros_overflow_count := micros_overflow_count c + 1\<rparr> else c)
      in c\<lparr>micros_at_last_overflow_tick := m\<rparr>)"

text \<open>\<open>once\<close> says that the timer that calls micros_overflow_tick every minute is armed.\<close>

definition millis :: "u32 \<Rightarrow> esp_clock \<Rightarrow> u32 \<times> esp_clock" where
  "millis m st =
     (let st = (if \<not> once st then st\<lparr>once := True\<rparr> else st);
          c = micros_overflow_count st + (if m < micros_at_last_overflow_tick st then 1 else 0)
      in (c * 4294967 + m div 1000, st))"

definition ensureBootTimeIsSet :: "u32 \<Rightarrow> u32 \<Rightarrow> esp_clock \<Rightarrow> esp_clock" where
  "ensureBootTimeIsSet sntp m c =
     (if s_bootTime c = 0 \<and> sntp \<noteq> 0 then (let (ms, c) = millis m c in c\<lparr>s_bootTime := sntp - ms div 1000\<rparr>) else c)"

text \<open>tv_sec and tv_usec\<close>

definition gettimeofday :: "u32 \<Rightarrow> u32 \<Rightarrow> u32 \<Rightarrow> u32 \<Rightarrow> esp_clock \<Rightarrow> u32 \<times> int \<times> esp_clock" where
  "gettimeofday sntp m1 m2 us c =
     (let c = ensureBootTimeIsSet sntp m1 c; (ms, c) = millis m2 c in (s_bootTime c + ms div 1000, sint (us * 1000), c))"

section \<open>Runs\<close>

text \<open>A run from the boot: the clock, the time of the last tick and the time, in microseconds.  Between two ticks, or before the first,
  less than \<open>2 ^ 32\<close> microseconds pass.\<close>

inductive clock_run :: "esp_clock \<Rightarrow> nat \<Rightarrow> nat \<Rightarrow> bool" where
  boot: "clock_run \<lparr>micros_at_last_overflow_tick = 0, micros_overflow_count = 0, once = False, s_bootTime = 0\<rparr> 0 0"
| tick: "clock_run c l t \<Longrightarrow> once c \<Longrightarrow> t \<le> t' \<Longrightarrow> t' < l + 2 ^ 32 \<Longrightarrow> clock_run (micros_overflow_tick (of_nat t') c) t' t'"
| call: "clock_run c l t \<Longrightarrow> t \<le> t' \<Longrightarrow> t' < l + 2 ^ 32 \<Longrightarrow> clock_run (snd (millis (of_nat t') c)) l t'"
| time_of_day: "clock_run c l t \<Longrightarrow> t \<le> t1 \<Longrightarrow> t1 \<le> t2 \<Longrightarrow> t2 < l + 2 ^ 32 \<Longrightarrow>
    clock_run (snd (snd (gettimeofday sntp (of_nat t1) (of_nat t2) us c))) l t2"

lemma millis_keeps:
  "micros_at_last_overflow_tick (snd (millis m c)) = micros_at_last_overflow_tick c"
  "micros_overflow_count (snd (millis m c)) = micros_overflow_count c"
  "s_bootTime (snd (millis m c)) = s_bootTime c"
  by (simp_all add: millis_def Let_def)

lemma boot_time_keeps:
  "micros_at_last_overflow_tick (ensureBootTimeIsSet sntp m c) = micros_at_last_overflow_tick c"
  "micros_overflow_count (ensureBootTimeIsSet sntp m c) = micros_overflow_count c"
  using millis_keeps [of m c] by (simp_all add: ensureBootTimeIsSet_def split_def Let_def)

lemma of_nat_word: "unat (of_nat t :: u32) = t mod 2 ^ 32"
  by (simp add: unat_of_nat take_bit_eq_mod)

text \<open>The number of wraps since the last tick is 0 or 1, and the comparison finds which.\<close>

lemma wrapped:
  fixes l t :: nat
  assumes "l \<le> t" "t < l + 2 ^ 32"
  shows "t div 2 ^ 32 = l div 2 ^ 32 + (if (of_nat t :: u32) < of_nat l then 1 else 0)"
proof -
  define p q where "p = l div 2 ^ 32" and "q = t div 2 ^ 32"
  have a: "l = 4294967296 * p + l mod 4294967296" "t = 4294967296 * q + t mod 4294967296" unfolding p_def q_def by simp_all
  have as: "l \<le> t" "t < l + 4294967296" using assms by simp_all
  have b: "l mod 4294967296 < 4294967296" "t mod 4294967296 < 4294967296" by simp_all
  have "q = p + (if t mod 4294967296 < l mod 4294967296 then 1 else 0)"
  proof (cases "t mod 4294967296 < l mod 4294967296")
    case True
    then have "p < q" "q < p + 2" using a b as by linarith+
    then show ?thesis using True by simp
  next
    case False
    then have "p \<le> q" "q < p + 1" using a b as by linarith+
    then show ?thesis using False by simp
  qed
  then show ?thesis unfolding word_less_nat_alt of_nat_word p_def q_def by simp
qed

lemma clock_run_counts:
  "clock_run c l t \<Longrightarrow> l \<le> t \<and> t < l + 2 ^ 32 \<and> micros_at_last_overflow_tick c = of_nat l \<and> micros_overflow_count c = of_nat (l div 2 ^ 32)"
proof (induction rule: clock_run.induct)
  case (tick c l t t')
  then show ?case using wrapped [of l t'] by (auto simp: micros_overflow_tick_def Let_def)
next
  case (call c l t t')
  then show ?case by (simp add: millis_keeps)
next
  case (time_of_day c l t t1 t2 sntp us)
  have "snd (snd (gettimeofday sntp m1 m2 us c)) = snd (millis m2 (ensureBootTimeIsSet sntp m1 c))" for m1 m2
    by (simp add: gettimeofday_def split_def Let_def)
  then show ?case using time_of_day by (simp add: millis_keeps boot_time_keeps)
qed simp

definition wall_ms :: "nat \<Rightarrow> nat" where "wall_ms t = (t div 2 ^ 32) * 4294967 + t mod 2 ^ 32 div 1000"

lemma wall_ms_lag: "t = 1000 * wall_ms t + 296 * (t div 2 ^ 32) + t mod 2 ^ 32 mod 1000"
proof -
  define q r where "q = t div 2 ^ 32" and "r = t mod 2 ^ 32"
  have t: "t = 4294967296 * q + r" unfolding q_def r_def by simp
  have w: "wall_ms t = q * 4294967 + r div 1000" by (simp add: wall_ms_def q_def r_def)
  define d e where "d = r div 1000" and "e = r mod 1000"
  have "r = 1000 * d + e" by (simp add: d_def e_def)
  then show ?thesis unfolding w q_def [symmetric] r_def [symmetric] d_def [symmetric] e_def [symmetric] using t by simp
qed

lemma wall_ms_mono:
  assumes "t \<le> u"
  shows "wall_ms t \<le> wall_ms u"
proof -
  define p q r s where "p = t div 2 ^ 32" and "q = u div 2 ^ 32" and "r = t mod 2 ^ 32" and "s = u mod 2 ^ 32"
  have t: "t = 4294967296 * p + r" "u = 4294967296 * q + s" "r < 4294967296" "s < 4294967296" unfolding p_def q_def r_def s_def by simp_all
  have w: "wall_ms t = p * 4294967 + r div 1000" "wall_ms u = q * 4294967 + s div 1000" by (simp_all add: wall_ms_def p_def q_def r_def s_def)
  have "r div 1000 \<le> 4294967" using t(3) by simp
  moreover have "p < q \<or> p = q \<and> r \<le> s" using t assms by linarith
  moreover have "r \<le> s \<Longrightarrow> r div 1000 \<le> s div 1000" by (rule div_le_mono)
  ultimately show ?thesis unfolding w by (elim disjE conjE) linarith+
qed

lemma millis_counts:
  assumes "clock_run c l t" and "t \<le> u" "u < l + 2 ^ 32"
  shows "fst (millis (of_nat u) c) = of_nat (wall_ms u)"
proof -
  note k = clock_run_counts [OF assms(1)]
  have d: "(of_nat u :: u32) div 1000 = of_nat (u mod 2 ^ 32 div 1000)"
    by (simp add: word_unat_eq_iff unat_div of_nat_word)
  have "u div 2 ^ 32 = l div 2 ^ 32 + (if (of_nat u :: u32) < of_nat l then 1 else 0)" using k assms by (intro wrapped) simp_all
  then have "(of_nat (l div 2 ^ 32) + (if (of_nat u :: u32) < of_nat l then 1 else 0) :: u32) = of_nat (u div 2 ^ 32)" by simp
  moreover have "fst (millis m c) = (micros_overflow_count c + (if m < micros_at_last_overflow_tick c then 1 else 0)) * 4294967 + m div 1000" for m
    by (simp add: millis_def Let_def)
  moreover have "micros_overflow_count c = of_nat (l div 2 ^ 32)" "micros_at_last_overflow_tick c = of_nat l" using k by blast+
  ultimately show ?thesis by (simp only: d wall_ms_def of_nat_add of_nat_mult of_nat_numeral)
qed

text \<open>C37. In every run in which the ticks come in time, millis() is the low 32 bits of a count that lags behind the time since the boot
  by exactly 296 microseconds for each wrap of the system time, besides the microseconds of the unfinished millisecond; so of two reads
  of the clock the later one is never the smaller, until the count itself passes \<open>2 ^ 32\<close> milliseconds.\<close>

theorem millis_follows_time:
  assumes "clock_run c l t" and "t \<le> u" "u < l + 2 ^ 32"
  shows "\<exists>ms. fst (millis (of_nat u) c) = of_nat ms \<and> u = 1000 * ms + 296 * (u div 2 ^ 32) + u mod 2 ^ 32 mod 1000 \<and>
    (ms < 2 ^ 32 \<longrightarrow> (\<forall>c0 l0 t0 u0. clock_run c0 l0 t0 \<and> t0 \<le> u0 \<and> u0 < l0 + 2 ^ 32 \<and> u0 \<le> u \<longrightarrow>
      fst (millis (of_nat u0) c0) \<le> fst (millis (of_nat u) c)))"
proof (intro exI [of _ "wall_ms u"] conjI impI allI)
  show now: "fst (millis (of_nat u) c) = of_nat (wall_ms u)" by (rule millis_counts [OF assms])
  show "u = 1000 * wall_ms u + 296 * (u div 2 ^ 32) + u mod 2 ^ 32 mod 1000" by (rule wall_ms_lag)
  fix c0 l0 t0 u0
  assume small: "wall_ms u < 2 ^ 32" and r: "clock_run c0 l0 t0 \<and> t0 \<le> u0 \<and> u0 < l0 + 2 ^ 32 \<and> u0 \<le> u"
  then have "wall_ms u0 \<le> wall_ms u" by (intro wall_ms_mono) blast
  then have "(of_nat (wall_ms u0) :: u32) \<le> of_nat (wall_ms u)" using small by (simp add: word_le_nat_alt unat_of_nat)
  then show "fst (millis (of_nat u0) c0) \<le> fst (millis (of_nat u) c)" using r now millis_counts [of c0 l0 t0 u0] by simp
qed

lemma clock_run_once: "clock_run (snd (millis 0 \<lparr>micros_at_last_overflow_tick = 0, micros_overflow_count = 0, once = False, s_bootTime = 0\<rparr>)) 0 0"
  using clock_run.call [OF clock_run.boot, of 0] by simp

lemma millis_follows_time_witness:
  "\<exists>c ms. clock_run c 0 0 \<and> fst (millis (of_nat 5700) c) = of_nat ms \<and> 5700 = 1000 * ms + 700"
  using millis_follows_time [OF clock_run_once, of 5700] clock_run_once by auto

text \<open>tv_sec is the time from SNTP and the seconds since then; tv_usec is not the part of a second.\<close>

lemma time_of_day_seconds:
  assumes "s_bootTime c = 0" and "sntp \<noteq> 0"
  shows "fst (gettimeofday sntp m1 m2 us c) = sntp + (fst (millis m2 c) div 1000 - fst (millis m1 c) div 1000)"
  using assms by (simp add: gettimeofday_def ensureBootTimeIsSet_def millis_def Let_def)

lemma microseconds_out_of_range:
  assumes "1000 \<le> unat us" and "unat us \<le> 2147483"
  shows "1000000 \<le> fst (snd (gettimeofday sntp m1 m2 us c))"
proof -
  have "unat (us * 1000) = unat us * 1000" using assms(2) by (simp add: unat_word_ariths)
  then have "sint (us * 1000) = int (unat us * 1000)" using assms(2) sint_small [of "us * 1000"] by (simp only:) simp
  moreover have "1000000 \<le> int (unat us * 1000)" using assms(1) by linarith
  ultimately show ?thesis unfolding gettimeofday_def split_def Let_def fst_conv snd_conv by (simp only:)
qed

end
