(* ===== verification/Hspi_Slave.thy ===== *)
theory Hspi_Slave
  imports Prelude
begin

text \<open>
  The SPI slave: libraries/SPISlave/src/hspi_slave.c, with the register addresses of cores/esp8266/esp8266_peri.h.  The registers, the
  pins and the interrupt controller are the record \<open>peri\<close>; the callbacks act on the world, and keep what they were given as their
  argument.
\<close>

section \<open>Registers\<close>

record 'w peri =
  reg_read :: "u32 \<Rightarrow> 'w \<Rightarrow> u32 \<times> 'w"
  reg_write :: "u32 \<Rightarrow> u32 \<Rightarrow> 'w \<Rightarrow> 'w"
  pinMode :: "u8 \<Rightarrow> u8 \<Rightarrow> 'w \<Rightarrow> 'w"
  intr_attach :: "bool \<Rightarrow> 'w \<Rightarrow> 'w"
  intr_enable :: "bool \<Rightarrow> 'w \<Rightarrow> 'w"

definition SPI0S :: u32 where "SPI0S = 0x60000230"
definition SPI1CMD :: u32 where "SPI1CMD = 0x60000100"
definition SPI1C2 :: u32 where "SPI1C2 = 0x60000114"
definition SPI1CLK :: u32 where "SPI1CLK = 0x60000118"
definition SPI1U :: u32 where "SPI1U = 0x6000011C"
definition SPI1U2 :: u32 where "SPI1U2 = 0x60000124"
definition SPI1WS :: u32 where "SPI1WS = 0x60000128"
definition SPI1P :: u32 where "SPI1P = 0x6000012C"
definition SPI1S :: u32 where "SPI1S = 0x60000130"
definition SPI1S1 :: u32 where "SPI1S1 = 0x60000134"
definition SPI1W :: "nat \<Rightarrow> u32" where "SPI1W p = 0x60000140 + of_nat ((p mod 16) * 4)"
definition SPIIR :: u32 where "SPIIR = 0x3FF00020"

definition SPISSRES :: u32 where "SPISSRES = shl 1 31"
definition SPISE :: u32 where "SPISE = shl 1 30"
definition SPISBE :: u32 where "SPISBE = shl 1 29"
definition SPISTRIE :: u32 where "SPISTRIE = shl 1 9"
definition SPISWSIE :: u32 where "SPISWSIE = shl 1 8"
definition SPISRSIE :: u32 where "SPISRSIE = shl 1 7"
definition SPISWBIE :: u32 where "SPISWBIE = shl 1 6"
definition SPISRBIE :: u32 where "SPISRBIE = shl 1 5"
definition SPISWSIS :: u32 where "SPISWSIS = shl 1 3"
definition SPISRSIS :: u32 where "SPISRSIS = shl 1 2"
definition SPISWBIS :: u32 where "SPISWBIS = shl 1 1"
definition SPISRBIS :: u32 where "SPISRBIS = shl 1 0"
definition SPIUMISOH :: u32 where "SPIUMISOH = shl 1 24"
definition SPIUCOMMAND :: u32 where "SPIUCOMMAND = shl 1 31"
definition SPIUSSE :: u32 where "SPIUSSE = shl 1 6"
definition SPIS1RSTA :: u32 where "SPIS1RSTA = shl 1 25"
definition SPIBUSY :: u32 where "SPIBUSY = shl 1 18"

text \<open>\<open>r = f(r)\<close> for a register\<close>

definition reg_update :: "'w peri \<Rightarrow> u32 \<Rightarrow> (u32 \<Rightarrow> u32) \<Rightarrow> 'w \<Rightarrow> 'w" where
  "reg_update p r f w = (let (x, w) = reg_read p r w in reg_write p r (f x) w)"

section \<open>The slave\<close>

record 'w hspi =
  rx_data_cb :: "(u8 list \<Rightarrow> u8 \<Rightarrow> 'w \<Rightarrow> 'w) option"
  tx_data_cb :: "('w \<Rightarrow> 'w) option"
  rx_status_cb :: "(u32 \<Rightarrow> 'w \<Rightarrow> 'w) option"
  tx_status_cb :: "('w \<Rightarrow> 'w) option"
  slave_buffer :: "u8 list"

text \<open>The loop over the words that were received; the second argument counts those to come.\<close>

primrec read_words :: "'w peri \<Rightarrow> nat \<Rightarrow> u8 list \<Rightarrow> 'w \<Rightarrow> u8 list \<times> 'w" where
  "read_words p 0 buf w = (buf, w)"
| "read_words p (Suc k) buf w =
     (let i = 8 - Suc k;
          (data, w) = reg_read p (SPI1W i) w;
          buf = buf[4 * i := ucast (data AND 0xff)];
          buf = buf[4 * i + 1 := ucast (shr data 8 AND 0xff)];
          buf = buf[4 * i + 2 := ucast (shr data 16 AND 0xff)];
          buf = buf[4 * i + 3 := ucast (shr data 24 AND 0xff)]
      in read_words p k buf w)"

definition hspi_slave_isr_handler :: "'w peri \<Rightarrow> 'w hspi \<Rightarrow> 'w \<Rightarrow> 'w hspi \<times> 'w" where
  "hspi_slave_isr_handler p s w =
     (let (istatus, w) = reg_read p SPIIR w in
      if istatus AND shl 1 7 \<noteq> 0 then
        (let (status, w) = reg_read p SPI1S w;
             w = reg_update p SPI1S (\<lambda>x. x AND NOT 0x3E0) w;
             w = reg_update p SPI1S (\<lambda>x. x OR SPISSRES) w;
             w = reg_update p SPI1S (\<lambda>x. x AND NOT 0x1F) w;
             w = reg_update p SPI1S (\<lambda>x. x OR 0x3E0) w;
             w = (case tx_data_cb s of Some f \<Rightarrow> if status AND SPISRBIS \<noteq> 0 then f w else w | None \<Rightarrow> w);
             w = (case tx_status_cb s of Some f \<Rightarrow> if status AND SPISRSIS \<noteq> 0 then f w else w | None \<Rightarrow> w);
             w = (case rx_status_cb s of Some f \<Rightarrow> if status AND SPISWSIS \<noteq> 0 then (let (st, w) = reg_read p SPI1WS w in f st w) else w | None \<Rightarrow> w)
         in (case rx_data_cb s of
               Some f \<Rightarrow>
                 if status AND SPISWBIS \<noteq> 0 then
                   (let (buf, w) = read_words p 8 ((slave_buffer s)[32 := 0]) w in (s\<lparr>slave_buffer := buf\<rparr>, f (take 32 buf) 32 w))
                 else (s, w)
             | None \<Rightarrow> (s, w)))
      else if istatus AND shl 1 4 \<noteq> 0 then (s, reg_update p SPI0S (\<lambda>x. x AND NOT 0x3ff) w)
      else (s, w))"

definition hspi_slave_begin :: "'w peri \<Rightarrow> u8 \<Rightarrow> 'w \<Rightarrow> 'w" where
  "hspi_slave_begin p status_len w =
     (let status_len = (if 4 < status_len then 4 else if status_len = 0 then 1 else status_len);
          w = pinMode p 15 0xF8 w;
          w = pinMode p 14 0xF8 w;
          w = pinMode p 12 0xF8 w;
          w = pinMode p 13 0xF8 w;
          w = reg_write p SPI1S (SPISE OR SPISBE OR SPISTRIE OR SPISWBIE OR SPISRSIE OR SPISWSIE OR SPISRBIE) w;
          w = reg_write p SPI1U (SPIUMISOH OR SPIUCOMMAND OR SPIUSSE) w;
          w = reg_write p SPI1CLK 0 w;
          w = reg_write p SPI1U2 (shl 7 28) w;
          w = reg_write p SPI1S1 (shl (ucast status_len * 8 - 1) 27 OR shl 0xff 16 OR shl 7 4 OR shl 7 10 OR SPIS1RSTA) w;
          w = reg_write p SPI1P (shl 1 19) w;
          w = reg_write p SPI1CMD SPIBUSY w;
          w = reg_write p SPI1C2 (shl 2 23 OR shl 1 16) w
      in intr_enable p True (intr_attach p True w))"

definition hspi_slave_end :: "'w peri \<Rightarrow> 'w \<Rightarrow> 'w" where
  "hspi_slave_end p w =
     (let w = intr_attach p False (intr_enable p False w);
          w = pinMode p 15 0 w;
          w = pinMode p 14 0 w;
          w = pinMode p 12 0 w;
          w = pinMode p 13 0 w;
          w = reg_write p SPI1S 0 w;
          w = reg_write p SPI1U (SPIUSSE OR SPIUCOMMAND) w;
          w = reg_write p SPI1S1 0 w
      in reg_write p SPI1P 6 w)"

definition hspi_slave_setStatus :: "'w peri \<Rightarrow> u32 \<Rightarrow> 'w \<Rightarrow> 'w" where "hspi_slave_setStatus p status w = reg_write p SPI1WS status w"

text \<open>The loop of hspi_slave_setData; the last argument counts the bytes to come.\<close>

primrec set_data_loop :: "'w peri \<Rightarrow> u8 list \<Rightarrow> u8 \<Rightarrow> nat \<Rightarrow> u32 \<Rightarrow> nat \<Rightarrow> nat \<Rightarrow> 'w \<Rightarrow> 'w option" where
  "set_data_loop p data len 0 out bi wi w = Some w"
| "set_data_loop p data len (Suc k) out bi wi w =
     (let i = 32 - Suc k in do {
        b \<leftarrow> (if i < unat len then fetch data i else Some 0);
        let out = out OR shl (ucast b) (bi * 8);
        let bi = (bi + 1) mod 4;
        (if bi = 0 then set_data_loop p data len k 0 bi (wi + 1) (reg_write p (SPI1W wi) out w)
         else set_data_loop p data len k out bi wi w) })"

definition hspi_slave_setData :: "'w peri \<Rightarrow> u8 list \<Rightarrow> u8 \<Rightarrow> 'w \<Rightarrow> 'w option" where
  "hspi_slave_setData p data len w = set_data_loop p data len 32 0 0 8 w"

definition hspi_slave_onData :: "(u8 list \<Rightarrow> u8 \<Rightarrow> 'w \<Rightarrow> 'w) option \<Rightarrow> 'w hspi \<Rightarrow> 'w hspi" where "hspi_slave_onData f s = s\<lparr>rx_data_cb := f\<rparr>"
definition hspi_slave_onDataSent :: "('w \<Rightarrow> 'w) option \<Rightarrow> 'w hspi \<Rightarrow> 'w hspi" where "hspi_slave_onDataSent f s = s\<lparr>tx_data_cb := f\<rparr>"
definition hspi_slave_onStatus :: "(u32 \<Rightarrow> 'w \<Rightarrow> 'w) option \<Rightarrow> 'w hspi \<Rightarrow> 'w hspi" where "hspi_slave_onStatus f s = s\<lparr>rx_status_cb := f\<rparr>"
definition hspi_slave_onStatusSent :: "('w \<Rightarrow> 'w) option \<Rightarrow> 'w hspi \<Rightarrow> 'w hspi" where "hspi_slave_onStatusSent f s = s\<lparr>tx_status_cb := f\<rparr>"

section \<open>Data from one side to the other\<close>

text \<open>The sixteen data registers hold what is written to them, and the status registers do not touch them.\<close>

definition spi_data :: "'w peri \<Rightarrow> ('w \<Rightarrow> nat \<Rightarrow> u32) \<Rightarrow> bool" where
  "spi_data p view \<longleftrightarrow>
     (\<forall>i w. i < 16 \<longrightarrow> fst (reg_read p (SPI1W i) w) = view w i \<and> view (snd (reg_read p (SPI1W i) w)) = view w) \<and>
     (\<forall>i x w. i < 16 \<longrightarrow> view (reg_write p (SPI1W i) x w) = (view w)(i := x)) \<and>
     (\<forall>w. view (snd (reg_read p SPIIR w)) = view w \<and> view (snd (reg_read p SPI1S w)) = view w) \<and>
     (\<forall>x w. view (reg_write p SPI1S x w) = view w)"

definition padded :: "u8 list \<Rightarrow> u8 list" where "padded data = take 32 (data @ replicate 32 0)"

lemma le_bytes_join: "le_bytes (ucast b0 OR shl (ucast b1) 8 OR shl (ucast b2) 16 OR shl (ucast b3) 24) = [b0, b1, b2, b3]"
proof -
  let ?w = "ucast b0 OR shl (ucast b1) 8 OR shl (ucast b2) 16 OR shl (ucast b3) 24 :: u32"
  have "ucast ?w = b0" "ucast (shr ?w 8) = b1" "ucast (shr ?w 16) = b2" "ucast (shr ?w 24) = b3"
    by (rule bit_word_eqI, auto simp: bit_ucast_iff bit_or_iff bit_shl bit_shr)+
  then show ?thesis by (simp add: le_bytes_def)
qed

lemma low_byte: "ucast (x AND 0xff :: u32) = (ucast x :: u8)"
proof -
  have "x AND 0xff = take_bit 8 x" by (simp add: take_bit_eq_mask mask_eq_exp_minus_1)
  then show ?thesis by (simp add: unsigned_ucast_eq word_unat_eq_iff) (simp add: unsigned_take_bit_eq)
qed

lemma length_padded [simp]: "length (padded data) = 32" by (simp add: padded_def)

lemma padded_byte: "i < 32 \<Longrightarrow> padded data ! i = (if i < length data then data ! i else 0)"
  by (auto simp: padded_def nth_append)

lemma set_data_word:
  assumes d: "length data = unat len" and k: "k + 4 \<le> 32"
  shows "\<exists>x. set_data_loop p data len (k + 4) 0 0 wi w = set_data_loop p data len k 0 0 (wi + 1) (reg_write p (SPI1W wi) x w) \<and>
    le_bytes x = take 4 (drop (28 - k) (padded data))"
proof -
  have f: "(if i < unat len then fetch data i else Some 0) = Some (padded data ! i)" if "i < 32" for i
    using that by (simp add: d [symmetric] padded_byte fetch_def)
  have b: "take 4 (drop (28 - k) (padded data)) = [padded data ! (28 - k), padded data ! (29 - k), padded data ! (30 - k), padded data ! (31 - k)]"
    using k by (intro nth_equalityI) (auto simp: nth_Cons' numeral_eq_Suc less_Suc_eq)
  have e: "k + 4 = Suc (Suc (Suc (Suc k)))" by simp
  show ?thesis unfolding e b
    by (rule exI [of _ "ucast (padded data ! (28 - k)) OR shl (ucast (padded data ! (29 - k))) 8 OR shl (ucast (padded data ! (30 - k))) 16 OR
        shl (ucast (padded data ! (31 - k))) 24"])
      (use k in \<open>simp add: f le_bytes_join or.assoc\<close>)
qed

lemma set_data_words:
  assumes p: "spi_data p view" and d: "length data = unat len"
  shows "m \<le> 8 \<Longrightarrow> \<exists>w'. set_data_loop p data len (4 * m) 0 0 (16 - m) w = Some w' \<and>
    (\<forall>i < 16 - m. view w' i = view w i) \<and> (\<forall>i. 16 - m \<le> i \<and> i < 16 \<longrightarrow> le_bytes (view w' i) = take 4 (drop (4 * (i - 8)) (padded data)))"
proof (induction m arbitrary: w)
  case (Suc m)
  obtain x where x: "set_data_loop p data len (4 * m + 4) 0 0 (16 - Suc m) w =
      set_data_loop p data len (4 * m) 0 0 (16 - Suc m + 1) (reg_write p (SPI1W (16 - Suc m)) x w)"
    "le_bytes x = take 4 (drop (28 - 4 * m) (padded data))"
  proof -
    have "4 * m + 4 \<le> 32" using Suc.prems by simp
    from set_data_word [OF d this, of p "16 - Suc m" w] show ?thesis using that by blast
  qed
  obtain w' where w': "set_data_loop p data len (4 * m) 0 0 (16 - m) (reg_write p (SPI1W (16 - Suc m)) x w) = Some w'"
    "\<forall>i < 16 - m. view w' i = view (reg_write p (SPI1W (16 - Suc m)) x w) i"
    "\<forall>i. 16 - m \<le> i \<and> i < 16 \<longrightarrow> le_bytes (view w' i) = take 4 (drop (4 * (i - 8)) (padded data))"
    using Suc.IH [of "reg_write p (SPI1W (16 - Suc m)) x w"] Suc.prems by auto
  have v: "view (reg_write p (SPI1W (16 - Suc m)) x w) = (view w)(16 - Suc m := x)" using p by (simp add: spi_data_def)
  have e: "16 - Suc m + 1 = 16 - m" "4 * Suc m = 4 * m + 4" "28 - 4 * m = 4 * (16 - Suc m - 8)" using Suc.prems by simp_all
  have "le_bytes (view w' i) = take 4 (drop (4 * (i - 8)) (padded data))" if i: "16 - Suc m \<le> i" "i < 16" for i
  proof (cases "16 - m \<le> i")
    case False
    then have "i = 16 - Suc m" using i by simp
    then show ?thesis using w'(2) v x(2) unfolding e(3) using False by simp
  qed (use w'(3) i in blast)
  moreover have "view w' i = view w i" if "i < 16 - Suc m" for i using w'(2) v that by simp
  ultimately show ?case using x(1) w'(1) unfolding e by auto
next
  case 0
  show ?case by auto
qed

lemma read_words_bytes:
  assumes p: "spi_data p view"
  shows "m \<le> 8 \<Longrightarrow> length buf = 33 \<Longrightarrow> \<exists>w'. read_words p m buf w =
    (take (32 - 4 * m) buf @ concat (map (\<lambda>i. le_bytes (view w i)) [8 - m..<8]) @ drop 32 buf, w') \<and> view w' = view w"
proof (induction m arbitrary: buf w)
  case 0
  then show ?case using append_take_drop_id [of 32 buf] by simp
next
  case (Suc m)
  define i where "i = 8 - Suc m"
  have i: "i < 8" "32 - 4 * Suc m = 4 * i" "8 - m = Suc i" "32 - 4 * m = 4 * i + 4" using Suc.prems(1) by (simp_all add: i_def)
  obtain x w1 where x: "reg_read p (SPI1W i) w = (x, w1)" by fastforce
  have "i < 16" using i(1) by simp
  then have "fst (reg_read p (SPI1W i) w) = view w i" "view (snd (reg_read p (SPI1W i) w)) = view w" using p by (simp_all add: spi_data_def)
  then have v: "x = view w i" "view w1 = view w" unfolding x by simp_all
  define b where "b = le_bytes x"
  have l: "ucast (x AND 0xff) = b ! 0" "ucast (shr x 8 AND 0xff) = b ! 1" "ucast (shr x 16 AND 0xff) = b ! 2" "ucast (shr x 24 AND 0xff) = b ! 3"
    by (simp_all add: low_byte b_def le_bytes_def)
  define buf1 where "buf1 = buf[4 * i := b ! 0, 4 * i + 1 := b ! 1, 4 * i + 2 := b ! 2, 4 * i + 3 := b ! 3]"
  have lb: "length b = 4" by (simp add: b_def)
  have step: "read_words p (Suc m) buf w = read_words p m buf1 w1"
    by (simp only: read_words.simps Let_def i_def [symmetric] x prod.case l buf1_def)
  have lb1: "length buf1 = 33" using Suc.prems(2) by (simp add: buf1_def)
  have t: "take (4 * i + 4) buf1 = take (4 * i) buf @ b"
  proof (rule nth_equalityI)
    fix k
    assume "k < length (take (4 * i + 4) buf1)"
    then have "k < 4 * i + 4" by simp
    then consider "k < 4 * i" | "k = 4 * i" | "k = 4 * i + 1" | "k = 4 * i + 2" | "k = 4 * i + 3" by linarith
    then show "take (4 * i + 4) buf1 ! k = (take (4 * i) buf @ b) ! k"
      using i(1) Suc.prems(2) by cases (simp_all add: buf1_def nth_append)
  qed (use i(1) Suc.prems(2) lb lb1 in simp)
  have dr: "drop 32 buf1 = drop 32 buf" using i(1) Suc.prems(2) lb1 by (intro nth_equalityI) (simp_all add: buf1_def)
  obtain w' where w': "read_words p m buf1 w1 = (take (32 - 4 * m) buf1 @ concat (map (\<lambda>i. le_bytes (view w1 i)) [8 - m..<8]) @ drop 32 buf1, w')" "view w' = view w1"
    using Suc.IH [OF _ lb1, of w1] Suc.prems(1) by auto
  have "[8 - Suc m..<8] = i # [Suc i..<8]" using i(1) by (simp add: i_def upt_conv_Cons)
  then have "concat (map (\<lambda>i. le_bytes (view w i)) [8 - Suc m..<8]) = b @ concat (map (\<lambda>i. le_bytes (view w i)) [8 - m..<8])"
    by (simp add: i(3) b_def v(1))
  then show ?case using w' unfolding step i(2,4) t dr v by simp
qed

lemma words_join: "concat (map (\<lambda>i. take 4 (drop (4 * i) xs)) [0..<n]) = take (4 * n) xs"
proof (induction n)
  case (Suc n)
  have "take (4 * Suc n) xs = take (4 * n) xs @ take 4 (drop (4 * n) xs)" unfolding mult_Suc_right add.commute [of 4] by (rule take_add)
  then show ?case using Suc by simp
qed simp

lemma reg_update_view: "spi_data p view \<Longrightarrow> view (reg_update p SPI1S f w) = view w"
  by (simp add: spi_data_def reg_update_def split_def Let_def)

text \<open>C38. What one slave is given to send, and the other side reads from its registers and writes to those of another slave, is what the
  callback there gets: the bytes, cut or filled up with zeros to 32.\<close>

theorem data_transferred:
  assumes p: "spi_data p view" and d: "length data = unat len" and w1: "hspi_slave_setData p data len w = Some w1"
    and q: "spi_data q view'" and copied: "\<forall>i < 8. view' u i = view w1 (i + 8)"
    and st: "fst (reg_read q SPIIR u) AND shl 1 7 \<noteq> 0" "fst (reg_read q SPI1S (snd (reg_read q SPIIR u))) AND 0xf = SPISWBIS"
    and s: "rx_data_cb s = Some f" "length (slave_buffer s) = 33"
  shows "\<exists>s' u'. hspi_slave_isr_handler q s u = (s', f (take 32 (data @ replicate 32 0)) 32 u') \<and> view' u' = view' u"
proof -
  define dat where "dat = padded data"
  obtain w' where w': "set_data_loop p data len 32 0 0 8 w = Some w'" "\<forall>i. 8 \<le> i \<and> i < 16 \<longrightarrow> le_bytes (view w' i) = take 4 (drop (4 * (i - 8)) (padded data))"
    using set_data_words [OF p d, of 8 w] by auto
  have b: "le_bytes (view w1 (i + 8)) = take 4 (drop (4 * i) dat)" if "i < 8" for i
    using w'(2) that w1 w'(1) by (simp add: hspi_slave_setData_def dat_def)
  obtain istatus u1 where u1: "reg_read q SPIIR u = (istatus, u1)" by fastforce
  obtain status u2 where u2: "reg_read q SPI1S u1 = (status, u2)" by fastforce
  have sb: "status AND 0xf = 2" using st(2) unfolding u1 snd_conv u2 fst_conv by (simp add: SPISWBIS_def push_bit_eq_mult)
  have bits: "bit status n \<longleftrightarrow> n = 1" if "n < 4" for n
  proof -
    have "bit (status AND 0xf) n \<longleftrightarrow> bit (2 :: u32) n" using sb by simp
    moreover have "bit (0xf :: u32) n" using that by (auto simp: less_Suc_eq numeral_eq_Suc bit_Suc)
    moreover have "bit (2 :: u32) n \<longleftrightarrow> n = 1" using that by (auto simp: less_Suc_eq numeral_eq_Suc bit_Suc)
    ultimately show ?thesis by (simp add: bit_and_iff)
  qed
  have off: "status AND SPISRBIS = 0" "status AND SPISRSIS = 0" "status AND SPISWSIS = 0" and on: "status AND SPISWBIS \<noteq> 0"
    using bits [of 0] bits [of 1] bits [of 2] bits [of 3] bit_iff_and_push_bit_not_eq_0 [of status]
    by (auto simp: SPISRBIS_def SPISRSIS_def SPISWSIS_def SPISWBIS_def)
  define u3 where "u3 = reg_update q SPI1S (\<lambda>x. x OR 0x3E0) (reg_update q SPI1S (\<lambda>x. x AND NOT 0x1F)
    (reg_update q SPI1S (\<lambda>x. x OR SPISSRES) (reg_update q SPI1S (\<lambda>x. x AND NOT 0x3E0) u2)))"
  have "view' u1 = view' u" "view' u2 = view' u1" using q u1 u2 unfolding spi_data_def by (metis snd_conv)+
  then have v: "view' u3 = view' u" by (simp add: u3_def reg_update_view [OF q])
  have "length ((slave_buffer s)[32 := 0]) = 33" using s(2) by simp
  then obtain u4 where r: "read_words q 8 ((slave_buffer s)[32 := 0]) u3 =
      (concat (map (\<lambda>i. le_bytes (view' u3 i)) [0..<8]) @ drop 32 ((slave_buffer s)[32 := 0]), u4)" "view' u4 = view' u3"
    using read_words_bytes [OF q, of 8 "(slave_buffer s)[32 := 0]" u3] by auto
  have "map (\<lambda>i. le_bytes (view' u3 i)) [0..<8] = map (\<lambda>i. take 4 (drop (4 * i) dat)) [0..<8]" using b copied by (simp add: v)
  then have c: "concat (map (\<lambda>i. le_bytes (view' u3 i)) [0..<8]) = dat" by (simp only: words_join) (simp add: dat_def)
  have i7: "istatus AND shl 1 7 \<noteq> 0" using st(1) unfolding u1 fst_conv .
  have "take 32 (dat @ drop 32 ((slave_buffer s)[32 := 0])) = dat" by (simp add: dat_def)
  then have "hspi_slave_isr_handler q s u = (s\<lparr>slave_buffer := dat @ drop 32 ((slave_buffer s)[32 := 0])\<rparr>, f dat 32 u4)"
    unfolding hspi_slave_isr_handler_def Let_def u1 prod.case if_P [OF i7] u2 u3_def [symmetric]
    using off on s(1) r(1) c by (simp split: option.splits)
  then show ?thesis using r(2) v by (auto simp: dat_def padded_def)
qed

text \<open>Registers that are only that, with the interrupt of a received buffer pending; the world is their contents.\<close>

definition ram_peri :: "(u32 \<Rightarrow> u32) peri" where
  "ram_peri = \<lparr>reg_read = (\<lambda>a w. (w a, w)), reg_write = (\<lambda>a x w. w(a := x)), pinMode = (\<lambda>pin m w. w), intr_attach = (\<lambda>h w. w), intr_enable = (\<lambda>e w. w)\<rparr>"

lemma unat_SPI1W:
  assumes "i < 16"
  shows "unat (SPI1W i) = 0x60000140 + 4 * i"
proof -
  have "SPI1W i = of_nat (0x60000140 + 4 * i)" using assms by (simp add: SPI1W_def)
  moreover have "(0x60000140 + 4 * i) mod 4294967296 = 0x60000140 + 4 * i" using assms by simp
  ultimately show ?thesis by (simp only: unat_of_nat take_bit_eq_mod) simp
qed

lemma SPI1W_regs:
  assumes "i < 16"
  shows "j < 16 \<Longrightarrow> SPI1W i = SPI1W j \<longleftrightarrow> i = j" and "SPI1W i \<noteq> SPI1S" and "SPI1W i \<noteq> SPIIR"
proof -
  note u = unat_SPI1W [OF assms]
  show "SPI1W i = SPI1W j \<longleftrightarrow> i = j" if "j < 16"
  proof
    assume "SPI1W i = SPI1W j"
    then have "unat (SPI1W i) = unat (SPI1W j)" by (rule arg_cong)
    then show "i = j" unfolding u unat_SPI1W [OF that] by simp
  qed simp
  have "unat SPI1S = 0x60000130" "unat SPIIR = 0x3FF00020" by (simp_all add: SPI1S_def SPIIR_def)
  moreover have "unat (SPI1W i) \<noteq> 0x60000130" "unat (SPI1W i) \<noteq> 0x3FF00020" unfolding u by linarith+
  ultimately show "SPI1W i \<noteq> SPI1S" "SPI1W i \<noteq> SPIIR" by metis+
qed

lemma ram_data: "spi_data ram_peri (\<lambda>w i. if i < 16 then w (SPI1W i) else 0)"
proof -
  have r: "reg_read ram_peri a w = (w a, w)" "reg_write ram_peri a x w = w(a := x)" for a x w by (simp_all add: ram_peri_def)
  have "(\<lambda>j. if j < 16 then (w(SPI1W i := x)) (SPI1W j) else 0) = (\<lambda>j. if j < 16 then w (SPI1W j) else 0)(i := x)" if "i < 16" for i x and w :: "u32 \<Rightarrow> u32"
  proof
    fix j
    show "(if j < 16 then (w(SPI1W i := x)) (SPI1W j) else 0) = ((\<lambda>j. if j < 16 then w (SPI1W j) else 0)(i := x)) j"
      using that SPI1W_regs(1) [of j i] by (cases "j = i") auto
  qed
  moreover have "(\<lambda>j. if j < 16 then (w(SPI1S := x)) (SPI1W j) else 0) = (\<lambda>j. if j < 16 then w (SPI1W j) else 0)" for x and w :: "u32 \<Rightarrow> u32"
    using SPI1W_regs(2) by fastforce
  ultimately show ?thesis unfolding spi_data_def r fst_conv snd_conv by simp
qed

lemma data_transferred_witness:
  "\<exists>w1 s' u u'. hspi_slave_setData ram_peri [1, 2, 3] 3 (\<lambda>a. 0) = Some w1 \<and>
    hspi_slave_isr_handler ram_peri \<lparr>rx_data_cb = Some (\<lambda>bs n w. w(0 := ucast (bs ! 1))), tx_data_cb = None, rx_status_cb = None, tx_status_cb = None,
      slave_buffer = replicate 33 0\<rparr> u = (s', u') \<and> u' 0 = 2"
proof -
  let ?s = "\<lparr>rx_data_cb = Some (\<lambda>bs n w. w(0 := ucast (bs ! 1))), tx_data_cb = None, rx_status_cb = None, tx_status_cb = None, slave_buffer = replicate 33 0\<rparr>"
  have d: "length [1, 2, 3 :: u8] = unat (3 :: u8)" by simp
  obtain w1 where w1: "hspi_slave_setData ram_peri [1, 2, 3] 3 (\<lambda>a. 0) = Some w1"
    using set_data_words [OF ram_data d, of 8 "\<lambda>a. 0"] by (auto simp: hspi_slave_setData_def)
  define u where "u = (\<lambda>a. if a = SPIIR then 128 else if a = SPI1S then 2 else w1 (a + 32))"
  have "u (SPI1W i) = w1 (SPI1W (i + 8))" if "i < 8" for i
  proof -
    have e: "SPI1W i + 32 = SPI1W (i + 8)" using that by (simp add: SPI1W_def algebra_simps)
    show ?thesis using SPI1W_regs(2,3) [of i] that e by (simp add: u_def)
  qed
  then have c: "\<forall>i < 8. (if i < 16 then u (SPI1W i) else 0) = (if i + 8 < 16 then w1 (SPI1W (i + 8)) else 0)" by simp
  have st: "fst (reg_read ram_peri SPIIR u) AND shl 1 7 \<noteq> 0" "fst (reg_read ram_peri SPI1S (snd (reg_read ram_peri SPIIR u))) AND 0xf = SPISWBIS"
    by (simp_all add: ram_peri_def u_def SPIIR_def SPI1S_def SPISWBIS_def push_bit_eq_mult)
  have s: "rx_data_cb ?s = Some (\<lambda>bs n w. w(0 := ucast (bs ! 1)))" "length (slave_buffer ?s) = 33" by simp_all
  from data_transferred [where view = "\<lambda>w i. if i < 16 then w (SPI1W i) else 0" and view' = "\<lambda>w i. if i < 16 then w (SPI1W i) else 0", OF ram_data d w1 ram_data c st s] w1 show ?thesis by force
qed

end
