(* ===== verification/Spec2Isabelle.thy ===== *)
theory Spec2Isabelle
  imports Tinf_Safety Tinf_Termination Deflate_Roundtrip Eboot_Copy Dhcps_Server Gdb_Commands Umm_Poison Umm_Client Umm_Guard Stub_Interrupt Stub_Reading Stub_Regions
    Ringbuf Esp_Clock Hspi_Slave
begin

text \<open>
  Verification development for the C code of the ESP8266 Arduino core (paths below are relative to
  src/ESP8266/Libs).  Its parts meet as follows.

  The boot loader eboot (bootloaders/eboot).  An update leaves an image in flash, plain or gzip, and a
  command block in RTC memory; at reset eboot reads the command, copies the image to its place, unpacking
  it with the decompressor uzlib (tools/sdk/uzlib/src), clears the command and jumps to the application.
  uzlib also has a compressor, which makes what the decompressor reads.  In the running application,
  umm_malloc (cores/esp8266/umm_malloc) is the heap, the DHCP server
  (tools/sdk/lwip2/builder/glue-lwip/esp-dhcpserver.c) gives the stations of the access point their
  addresses, and the GDB stub (libraries/GDBStub/src/internal) answers a debugger on the serial port.
  Received data of espconn connections waits in a ring buffer, the lwIP glue keeps a clock (both in
  tools/sdk/lwip2/builder/glue-lwip), and the SPI slave (libraries/SPISlave) talks to a master.
  Before all that, the flasher stub of esptool (tools/esptool/flasher_stub), loaded into memory by the upload
  tool, writes eboot and the first application to the flash, over the same serial port.

  Theories, in the order of their dependence.

  \<^item> Prelude: machine types, checked array accesses, bit strings, shifts, little-endian bytes.

  uzlib:
  \<^item> Checksums: uzlib/src/adler32.c, uzlib/src/crc32.c, crc_update of eboot_command.c, with their
    byte-by-byte references.
  \<^item> Tinf_Data, Tinf_Tree, Tinf_Inflate, Tinf_Headers: struct uzlib_uncomp, and tinflate.c, tinfgzip.c,
    tinfzlib.c function by function.  The read callback is the argument \<open>rs\<close>; the locale
    \<open>byte_source\<close> (Tinf_Data) says what the decoder needs of its input, and is interpreted on memory
    buffers (Tinf_Data) and used for the flash callback of eboot (Eboot_Copy).
  \<^item> Tinf_Safety: memory safety of the decoder in every state that a run passes (\<open>uncompress_visits\<close>), and
    the two places where it fails; \<open>off_table\<close> is the one read outside an object.
  \<^item> Tinf_Termination: uzlib_uncompress returns, from any state in which it may be called (\<open>resumable\<close>),
    unless the run comes to that read.
  \<^item> Tinf_Frame: the locale \<open>world_keeper\<close>: what the callback keeps of its world, the decoder keeps.
  \<^item> Deflate_Spec: LZ77 tokens and their bit strings (RFC 1951), no code.
  \<^item> Defl_Static, Genlz77: the compressor, defl_static.c and genlz77.c.
  \<^item> Inflate_Fixed: the decompressor reads what Deflate_Spec writes.
  \<^item> Deflate_Roundtrip: compressor and decompressor together.

  eboot:
  \<^item> Eboot_Command, Eboot_Flash, Eboot: eboot_command.c, flash.c, eboot.c.  The flash routines of the ROM
    are the parameter \<open>ops\<close>, their documented behaviour the predicate \<open>nor_flash\<close>.
  \<^item> Eboot_Copy: copy_raw copies plain images and unpacks gzip images.

  DHCP server:
  \<^item> Dhcps_Data: constants, types and globals of esp-dhcpserver.c, the list of leases.
  \<^item> Dhcps_Lease: the lease management, from dhcps_start to wifi_softap_dhcps_client_update.  What the
    closed SDK answers is the record \<open>sdk\<close>.
  \<^item> Dhcps_Pool: one request, release or tick: what it does to the leases and what it keeps.
  \<^item> Dhcps_Start: the pool chosen at the start.
  \<^item> Dhcps_Runs: the relation \<open>served\<close> of all runs of the server's operations, static leases and settings
    included, its invariant, what more holds of orderly runs (requests inside the pool, static leases only
    where the leases have no gap, no change of the pool under them), and what goes wrong in others.
  \<^item> Dhcps_Msg: struct dhcps_msg, the replies, parse_options, parse_msg and handle_dhcp.
  \<^item> Dhcps_Server: options as lists, the replies as those lists, discover and request from datagram to
    lease and answer, and datagrams that overrun the buffer.

  GDB stub:
  \<^item> Gdb_Data, Gdb_Stub: gdbstub.c and the debug register routines of gdbstub-entry.S.  A routine that
    polls the serial port reads a list of bytes, and is \<open>Waiting\<close> when more is wanted than has arrived.
  \<^item> Gdb_Packet: the framing of packets, as GDB's protocol has it, both ways.
  \<^item> Gdb_Commands: memory commands, single steps, the emulated load, registers.

  umm_malloc:
  \<^item> Umm_Data: memory, blocks, links and the free flag.
  \<^item> Umm_Malloc: umm_malloc.cpp, every function of it.
  \<^item> Umm_Integrity, Umm_Info, Umm_Poison: umm_integrity.c, umm_info.c with sqrt32.cpp, umm_poison.c and the
    poison functions of umm_local.c.  A build with UMM_POISON_CHECK_LITE checks the neighbours of the block
    that umm_malloc_core selects: \<open>umm_malloc_core_lite\<close> and the functions over it, in Umm_Poison.
  \<^item> Umm_Heap: the invariant of the heap over two explicit lists, of all blocks and of the free ones; each
    step of the code is an insertion or removal in them.
  \<^item> Umm_Live, Umm_Frame: umm_malloc and umm_free keep the invariant and act on the map of used blocks;
    which bytes they write.
  \<^item> Umm_Owns, Umm_Resize: the invariant that ties the heap to the pointers a program has, and one step of
    umm_malloc, umm_free, umm_calloc and of umm_realloc with each of its ways to find room.
  \<^item> Umm_Client: the relation \<open>running\<close> of all runs of a program that calls umm_malloc, umm_calloc,
    umm_realloc and umm_free and writes to the blocks it has; soundness of the heap, separation, contents,
    no fragmentation at the end.  The locale \<open>allocator\<close> is what such a program relies on.
  \<^item> Umm_Guard: the functions of umm_poison.c as a client of that locale (\<open>block_contents\<close> extends it by
    a property of the bytes of each block): the runs of a program that uses them, in which all checks pass,
    those of UMM_POISON_CHECK_LITE too.

  The flasher stub, as built for the ESP8266:
  \<^item> Stub_Slip: slip.c, the framing, and that it is undone by the receiver.
  \<^item> Stub_Flash, Stub_Commands, Stub_Main: stub_write_flash.c, stub_commands.c, stub_flasher.c function by
    function.  The ROM and the registers are the record \<open>chip\<close>, the decompressor miniz is the record \<open>tinfl\<close>,
    the MD5 functions of the ROM are the record \<open>md5\<close>.
  \<^item> Stub_Controller: the predicate \<open>spi_controller\<close>, the documented behaviour of the SPI controller and of the
    flash behind it (\<open>nor_flash\<close> of Eboot_Flash); the polling loops end, an erase step erases a sector or a block.
  \<^item> Stub_Upload, Stub_Deflated: uploads, plain and compressed, leave exactly the image; \<open>inflates\<close> is what is
    asked of the decompressor.  What remains of an upload that was broken off.
  \<^item> Stub_Protocol: frames received, the reply to each command (the work before it always ends), and an
    upload from its packets to the flash.
  \<^item> Stub_Interrupt: the interrupt handler at the UART (\<open>uart_fifo\<close>), and the command that leaves it off.
  \<^item> Stub_Reading, Stub_Regions: digests, the dialogue in which flash is read, erasing.

  Others:
  \<^item> Ringbuf: espconn_buf.c, a queue that forgets its oldest bytes, and the part of espconn_recv that reads it.
  \<^item> Esp_Clock: esp-millis.c and esp-time.c, and all runs of the clock with its ticks (\<open>clock_run\<close>).
  \<^item> Hspi_Slave: hspi_slave.c, and data from one slave to another.

  Conventions.  An access outside an object, or a failed assert, is the result \<open>None\<close>.  Error codes are
  the integers of the code.  Machine integers are words and wrap around.  uzlib_uncompress takes fuel, one
  unit for each pass of its loop, because a callback may supply empty blocks for ever: Tinf_Termination
  bounds the passes for a source in memory, and Deflate_Roundtrip and Eboot_Copy give the fuel that is
  enough for their streams (one more than the bytes of output; 4096 for each sector).  Loops of umm_malloc
  over a list that might be cyclic are partial functions, \<open>None\<close> where they do not end; on a heap with the
  invariant they do, and the integrity check does on every heap.  So are the loops of the flasher stub that
  poll registers or wait for the host: the theorems show that they end, given hardware and a host that
  behave as stated.

  Builds.  uzlib without RUNTIME_BITS_TABLES and with UZLIB_CONF_PARANOID_CHECKS off; umm_malloc with
  UMM_BEST_FIT, UMM_INFO, UMM_STATS, UMM_REALLOC_DEFRAG and UMM_LIGHTWEIGHT_CPU and without UMM_INLINE_METRICS; the GDB stub
  as the Arduino core builds it, without FreeRTOS and with Ctrl-C, breaks on exceptions and console
  redirection.

  Not modelled: output to the serial port other than the packets of the two stubs, the watchdog, interrupt
  locks, and the contents of indeterminate stack memory (the caller's choice in the model); the variant of
  uzlib that builds its tables at run time, which is not compiled; the entry code and register save area
  of the GDB stub; the statistics that umm_malloc prints; the C++ parts of the core; the rest
  of the glue between lwIP and the SDK, which calls one or the other; the third-party
  libraries lwIP, BearSSL, LittleFS and miniz; the parts of the flasher stub for the ESP32; bytes that arrive
  while the flasher stub handles a command (in the model a packet arrives when the one before is done).
\<close>

end
